(* ===== verification/Prelude.thy ===== *)
theory Prelude
  imports Main "HOL-Library.Word"
begin

text \<open>
  Shared vocabulary of the development: the error codes of the kernel (\<open>Errors.h\<close> and
  \<open>errno.h\<close>), the 32-bit arithmetic of \<open>size_t\<close> with its wrap-around written out, and the
  linked-list predicate over an explicit heap of \<open>next\<close> pointers with the lemmas every
  pointer structure of the kernel (queues, hash buckets, buffer chains) shares.
\<close>

named_theorems err_defs "the numeric values of the kernel's error codes and flags"
named_theorems ptr_simps "rewriting of linked-list segments under heap updates"

section \<open>Error codes\<close>

text \<open>
  The codes are signed 32-bit integers; \<open>LONG_MIN\<close> is the smallest one.
\<close>

definition LONG_MIN :: int where
  "LONG_MIN = - 2147483648"

definition B_NO_ERROR :: int where
  "B_NO_ERROR = 0"

definition ENOMEM :: int where
  "ENOMEM = LONG_MIN"

definition EINVAL :: int where
  "EINVAL = LONG_MIN + 5"

definition B_TIMED_OUT :: int where
  "B_TIMED_OUT = LONG_MIN + 9"

definition EINTR :: int where
  "EINTR = LONG_MIN + 10"

definition EBADF :: int where
  "EBADF = LONG_MIN + 24576"

definition EOPNOTSUPP :: int where
  "EOPNOTSUPP = LONG_MIN + 28672 + 43"

definition B_BAD_SEM_ID :: int where
  "B_BAD_SEM_ID = LONG_MIN + 4096"

definition B_NO_MORE_SEMS :: int where
  "B_NO_MORE_SEMS = LONG_MIN + 4097"

definition B_BAD_PORT_ID :: int where
  "B_BAD_PORT_ID = LONG_MIN + 4096 + 512"

definition B_NO_MORE_PORTS :: int where
  "B_NO_MORE_PORTS = LONG_MIN + 4096 + 513"

definition ERR_GENERAL :: int where
  "ERR_GENERAL = - 1"

definition ERR_INVALID_ARGS :: int where
  "ERR_INVALID_ARGS = EINVAL"

definition ERR_NO_MEMORY :: int where
  "ERR_NO_MEMORY = ENOMEM"

definition ERR_INVALID_HANDLE :: int where
  "ERR_INVALID_HANDLE = ERR_GENERAL - 8"

definition ERR_NO_MORE_HANDLES :: int where
  "ERR_NO_MORE_HANDLES = ERR_GENERAL - 9"

definition ERR_NOT_FOUND :: int where
  "ERR_NOT_FOUND = ERR_GENERAL - 12"

definition ERR_SEM_DELETED :: int where
  "ERR_SEM_DELETED = - 1024 - 1"

definition ERR_SEM_TIMED_OUT :: int where
  "ERR_SEM_TIMED_OUT = - 1024 - 2"

definition ERR_SEM_NOT_INTERRUPTABLE :: int where
  "ERR_SEM_NOT_INTERRUPTABLE = - 1024 - 6"

definition ERR_SEM_NOT_FOUND :: int where
  "ERR_SEM_NOT_FOUND = - 1024 - 7"

lemmas err_code_defs [err_defs] =
  LONG_MIN_def B_NO_ERROR_def ENOMEM_def EINVAL_def B_TIMED_OUT_def EINTR_def EBADF_def
  B_BAD_SEM_ID_def B_NO_MORE_SEMS_def B_BAD_PORT_ID_def B_NO_MORE_PORTS_def
  ERR_GENERAL_def ERR_INVALID_ARGS_def ERR_NO_MEMORY_def EOPNOTSUPP_def ERR_INVALID_HANDLE_def ERR_NO_MORE_HANDLES_def
  ERR_NOT_FOUND_def ERR_SEM_DELETED_def ERR_SEM_TIMED_OUT_def
  ERR_SEM_NOT_INTERRUPTABLE_def ERR_SEM_NOT_FOUND_def

section \<open>Outcomes of a call\<close>

text \<open>
  A kernel routine that dereferences \<open>NULL\<close> or freed memory, writes outside its buffer or
  calls \<open>panic\<close> does not return to its caller: \<open>Faults\<close>. One that waits for a lock its own
  caller holds never returns: \<open>Blocks\<close>. Every other result is \<open>Returns\<close>. \<open>obind\<close> runs one
  routine after another.
\<close>

datatype 'a outcome = Returns 'a | Faults | Blocks

fun obind :: "'a outcome \<Rightarrow> ('a \<Rightarrow> 'b outcome) \<Rightarrow> 'b outcome" where
  "obind (Returns x) f = f x"
| "obind Faults f = Faults"
| "obind Blocks f = Blocks"

lemma obind_Returns_iff:
  "obind m f = Returns y \<longleftrightarrow> (\<exists>x. m = Returns x \<and> f x = Returns y)"
  by (cases m) auto

lemma obind_cong:
  "m = m' \<Longrightarrow> (\<And>x. m' = Returns x \<Longrightarrow> f x = g x) \<Longrightarrow> obind m f = obind m' g"
  by (cases m') auto

text \<open>A loop that never ends does not return to its caller.\<close>

definition looped :: "'a option \<Rightarrow> 'a outcome" where
  "looped r = (case r of None \<Rightarrow> Blocks | Some x \<Rightarrow> Returns x)"

definition looped_outcome :: "'a outcome option \<Rightarrow> 'a outcome" where
  "looped_outcome r = (case r of None \<Rightarrow> Blocks | Some x \<Rightarrow> x)"

text \<open>Room for the name of a semaphore, port or file system (\<open>defines.h\<close>).\<close>

definition SYS_MAX_OS_NAME_LEN :: nat where
  "SYS_MAX_OS_NAME_LEN = 32"

section \<open>User addresses\<close>

text \<open>The kernel's half of the address space (\<open>arch_kernel.h\<close>); \<open>CHECK_USER_ADDR\<close> refuses it.\<close>

definition KERNEL_BASE :: nat where
  "KERNEL_BASE = 2147483648"

definition KERNEL_TOP :: nat where
  "KERNEL_TOP = KERNEL_BASE + (2147483648 - 1)"

definition kernel_addr :: "nat \<Rightarrow> bool" where
  "kernel_addr x \<longleftrightarrow> KERNEL_BASE \<le> x \<and> x \<le> KERNEL_TOP"

section \<open>Counting in lists\<close>

lemma count_list_update:
  "i < length xs \<Longrightarrow>
     count_list (xs[i := x]) v + (if xs ! i = v then 1 else 0) =
     count_list xs v + (if x = v then 1 else 0)"
proof (induction xs arbitrary: i)
  case (Cons y ys)
  show ?case
  proof (cases i)
    case 0
    then show ?thesis by simp
  next
    case (Suc n)
    with Cons.IH [of n] Cons.prems show ?thesis by (simp split: if_splits)
  qed
qed simp

lemma count_list_concat_update:
  "c < length xs \<Longrightarrow>
     count_list (concat (map g (xs[c := y]))) v + count_list (g (xs ! c)) v =
     count_list (concat (map g xs)) v + count_list (g y) v"
proof (induction xs arbitrary: c)
  case (Cons x xs)
  then show ?case by (cases c) (auto simp: algebra_simps)
qed simp

lemma count_list_nth_pos: "i < length xs \<Longrightarrow> 0 < count_list xs (xs ! i)"
  by (metis count_list_0_iff gr0I nth_mem)

section \<open>Unsigned 32-bit arithmetic\<close>

text \<open>
  \<open>size_t\<close> is a 32-bit unsigned integer on the targets of the kernel. Values are \<open>nat\<close>
  below \<open>2 ^ 32\<close>; the two operations that can leave that range wrap around.
\<close>

definition u32_add :: "nat \<Rightarrow> nat \<Rightarrow> nat" where
  "u32_add a b = (a + b) mod 2 ^ 32"

definition u32_sub :: "nat \<Rightarrow> nat \<Rightarrow> nat" where
  "u32_sub a b = (if b \<le> a then a - b else (a + 2 ^ 32) - b)"

text \<open>The cast from \<open>size_t\<close> to \<open>ssize_t\<close>, and back.\<close>

definition s32 :: "nat \<Rightarrow> int" where
  "s32 n = (if n < 2 ^ 31 then int n else int n - 2 ^ 32)"

lemma s32_eq [simp]: "n < 2 ^ 31 \<Longrightarrow> s32 n = int n"
  by (simp add: s32_def)

lemma u32_add_eq [simp]: "a + b < 2 ^ 32 \<Longrightarrow> u32_add a b = a + b"
  by (simp add: u32_add_def)

lemma u32_sub_eq [simp]: "b \<le> a \<Longrightarrow> u32_sub a b = a - b"
  by (simp add: u32_sub_def)

lemma u32_sub_underflow: "a < b \<Longrightarrow> u32_sub a b = (a + 2 ^ 32) - b"
  by (simp add: u32_sub_def)

text \<open>Signed 32-bit integers: a sum that leaves the range wraps. \<open>crem\<close> is the remainder of C.\<close>

definition i32 :: "int \<Rightarrow> int" where
  "i32 x = (x + 2 ^ 31) mod 2 ^ 32 - 2 ^ 31"

lemma i32_id [simp]: "- (2 ^ 31) \<le> x \<Longrightarrow> x < 2 ^ 31 \<Longrightarrow> i32 x = x"
  by (simp add: i32_def)

definition crem :: "int \<Rightarrow> int \<Rightarrow> int" where
  "crem a b = (if 0 \<le> a then a mod b else - ((- a) mod b))"

lemma crem_nonneg [simp]: "0 \<le> a \<Longrightarrow> crem a b = a mod b"
  by (simp add: crem_def)

section \<open>Linked lists in the heap\<close>

text \<open>
  A pointer is an option: \<open>None\<close> is \<open>NULL\<close>. A heap of \<open>next\<close> fields is a function from
  addresses to pointers; \<open>lseg nx p xs q\<close> says that following \<open>nx\<close> from \<open>p\<close> visits
  exactly the nodes \<open>xs\<close> and arrives at \<open>q\<close>.
\<close>

type_synonym 'a ptr = "'a option"

primrec lseg :: "('a \<Rightarrow> 'a ptr) \<Rightarrow> 'a ptr \<Rightarrow> 'a list \<Rightarrow> 'a ptr \<Rightarrow> bool" where
  "lseg nx p [] q \<longleftrightarrow> p = q"
| "lseg nx p (x # xs) q \<longleftrightarrow> p = Some x \<and> lseg nx (nx x) xs q"

abbreviation chain :: "('a \<Rightarrow> 'a ptr) \<Rightarrow> 'a ptr \<Rightarrow> 'a list \<Rightarrow> bool" where
  "chain nx p xs \<equiv> lseg nx p xs None"

lemma chain_NULL [simp]: "chain nx None xs \<longleftrightarrow> xs = []"
  by (cases xs) auto

lemma chain_node [simp]:
  "chain nx (Some x) xs \<longleftrightarrow> (\<exists>ys. xs = x # ys \<and> chain nx (nx x) ys)"
  by (cases xs) auto

lemma lseg_append [ptr_simps]:
  "lseg nx p (xs @ ys) q \<longleftrightarrow> (\<exists>m. lseg nx p xs m \<and> lseg nx m ys q)"
  by (induction xs arbitrary: p) auto

lemma lseg_update [simp, ptr_simps]:
  "a \<notin> set xs \<Longrightarrow> lseg (nx(a := v)) p xs q = lseg nx p xs q"
  by (induction xs arbitrary: p) auto

lemma lseg_cong:
  "(\<And>x. x \<in> set xs \<Longrightarrow> nx x = nx' x) \<Longrightarrow> lseg nx p xs q = lseg nx' p xs q"
  by (induction xs arbitrary: p) auto

lemma chain_unique: "chain nx p xs \<Longrightarrow> chain nx p ys \<Longrightarrow> xs = ys"
proof (induction xs arbitrary: p ys)
  case Nil
  then show ?case by simp
next
  case (Cons x xs)
  then obtain zs where "ys = x # zs" and "chain nx (nx x) zs" by auto
  moreover from Cons.prems have "chain nx (nx x) xs" by simp
  ultimately show ?case using Cons.IH by blast
qed

lemma chain_head_notin:
  assumes "chain nx (nx x) xs"
  shows "x \<notin> set xs"
proof
  assume "x \<in> set xs"
  then obtain ys zs where xs: "xs = ys @ x # zs" by (auto dest: split_list)
  with assms have "chain nx (nx x) zs" by (auto simp: lseg_append)
  with assms have "xs = zs" by (rule chain_unique)
  with xs show False by simp
qed

lemma chain_distinct: "chain nx p xs \<Longrightarrow> distinct xs"
  by (induction xs arbitrary: p) (auto dest: chain_head_notin)

lemma chain_split:
  assumes "chain nx p (xs @ y # ys)"
  shows "lseg nx p xs (Some y)" and "chain nx (nx y) ys"
  using assms by (auto simp: lseg_append)

text \<open>Writing the \<open>next\<close> field of the last node of a list.\<close>

lemma lseg_last_update:
  assumes "lseg nx p (xs @ [x]) q" and "x \<notin> set xs"
  shows "lseg (nx(x := v)) p (xs @ [x]) v"
  using assms by (auto simp: lseg_append)

lemma chain_append_node:
  assumes "chain nx p (xs @ [l])" and "e \<notin> set (xs @ [l])"
  shows "chain (nx(l := Some e, e := None)) p (xs @ [l, e])"
proof -
  from assms(1) have "distinct (xs @ [l])" by (rule chain_distinct)
  with assms(1) have "lseg (nx(l := Some e)) p (xs @ [l]) (Some e)"
    by (intro lseg_last_update) auto
  with assms(2) have "lseg (nx(l := Some e, e := None)) p (xs @ [l]) (Some e)"
    by (subst lseg_update) auto
  then have "lseg (nx(l := Some e, e := None)) p ((xs @ [l]) @ [e]) None"
    unfolding lseg_append by auto
  then show ?thesis by simp
qed

text \<open>Unlinking a node that has a predecessor.\<close>

lemma chain_unlink:
  assumes "chain nx p (xs @ l # x # ys)"
  shows "chain (nx(l := nx x)) p (xs @ l # ys)"
proof -
  from assms have "distinct (xs @ l # x # ys)" by (rule chain_distinct)
  with assms show ?thesis by (auto simp: lseg_append)
qed

lemma chain_unlink_any:
  assumes "chain nx h (ys @ p # zs)"
  shows "chain (if ys = [] then nx else nx(last ys := nx p)) (if ys = [] then nx p else h) (ys @ zs)"
proof (cases ys rule: rev_cases)
  case Nil
  with assms show ?thesis by simp
next
  case (snoc us l)
  with assms have "chain nx h (us @ l # p # zs)" by simp
  from chain_unlink [OF this] snoc show ?thesis by simp
qed

lemma chain_next:
  assumes "chain nx h (ys @ p # zs)"
  shows "nx p = (if zs = [] then None else Some (hd zs))"
  using chain_split(2) [OF assms] by (cases zs) auto

text \<open>Linking two chains: the tail node of the first points to the head of the second.\<close>

lemma chain_link:
  assumes "chain nx p (xs @ [l])" and "chain nx q ys" and "l \<notin> set ys"
  shows "chain (nx(l := q)) p (xs @ l # ys)"
proof -
  from assms(1) have "distinct (xs @ [l])" by (rule chain_distinct)
  with assms(1) have "lseg (nx(l := q)) p (xs @ [l]) q"
    by (intro lseg_last_update) auto
  moreover have "chain (nx(l := q)) q ys" using assms(2,3) by simp
  ultimately have "chain (nx(l := q)) p ((xs @ [l]) @ ys)"
    unfolding lseg_append by blast
  then show ?thesis by simp
qed

lemma set_remove1_chain: "chain nx p xs \<Longrightarrow> set (remove1 x xs) = set xs - {x}"
  by (simp add: chain_distinct)

lemma remove1_notin_append [simp]: "e \<notin> set xs \<Longrightarrow> remove1 e (xs @ e # ys) = xs @ ys"
  by (induction xs) auto


lemma find_unique:
  assumes "e \<in> set xs" and "P e" and "\<And>a. a \<in> set xs \<Longrightarrow> P a \<Longrightarrow> a = e"
  shows "find P xs = Some e"
proof -
  from assms(1,2) have "\<exists>x \<in> set xs. P x" by blast
  then obtain ys x zs where xs: "xs = ys @ x # zs" "P x" "\<forall>y \<in> set ys. \<not> P y"
    by (rule split_list_first_propE) blast
  with assms(3) have "x = e" by simp
  moreover from xs(3,2) have "find P (ys @ x # zs) = Some x" by (induction ys) auto
  ultimately show ?thesis using xs(1) by simp
qed

text \<open>The next id at or after \<open>n\<close> that leads to slot \<open>i\<close> of a table of \<open>size\<close> entries.\<close>

lemma next_slot_id:
  fixes n sz :: int and i :: nat
  assumes "0 \<le> n" and "n + sz < 2 ^ 31" and "int i < sz"
    and "v = (if crem n sz \<le> int i then i32 (n + (int i - crem n sz)) else i32 (n + (sz - (crem n sz - int i))))"
  shows "n \<le> v" and "v < n + sz" and "v mod sz = int i"
proof -
  let ?r = "n mod sz"
  have r: "0 \<le> ?r" "?r < sz" using assms(3) by simp_all
  let ?v = "if ?r \<le> int i then n + (int i - ?r) else n + (sz - (?r - int i))"
  have b: "n \<le> ?v" "?v < n + sz" using r assms(3) by (simp_all only: split: if_split) linarith+
  have "v = i32 ?v" using assms(1,4) by simp
  also have "\<dots> = ?v" using b assms(1,2) by (intro i32_id) linarith+
  finally have e: "v = ?v" .
  with b show "n \<le> v" "v < n + sz" by simp_all
  have a: "(n + (int i - ?r)) mod sz = int i"
  proof -
    have eq: "n + (int i - ?r) = int i + sz * (n div sz)" by (simp add: minus_mod_eq_mult_div [symmetric])
    show ?thesis unfolding eq using assms(3) by simp
  qed
  have "(n + (sz - (?r - int i))) mod sz = (n + (int i - ?r) + sz) mod sz" by (simp add: algebra_simps)
  with a e show "v mod sz = int i" by simp
qed

end
