(* ===== verification/Fifo.thy ===== *)
theory Fifo
  imports Prelude
begin

text \<open>
  The contract of a first-in first-out queue, as the kernel's clients of \<open>queue.c\<close> and of
  the thread queues of \<open>thread.c\<close> rely on it. A provider fixes a representation relation
  between its state and the list of queued elements, an enqueue and a dequeue; \<open>room\<close> says
  when an element may be added (an intrusive queue cannot hold an element twice, an array
  queue cannot grow past its size). The two loops below are the ones the kernel runs over its
  queues: filling a queue and draining it until it yields \<open>NULL\<close>.
\<close>

fun enq_all :: "('a \<Rightarrow> 's \<Rightarrow> 's) \<Rightarrow> 'a list \<Rightarrow> 's \<Rightarrow> 's" where
  "enq_all enq [] s = s"
| "enq_all enq (x # xs) s = enq_all enq xs (enq x s)"

fun deq_many :: "('s \<Rightarrow> 'a ptr \<times> 's) \<Rightarrow> nat \<Rightarrow> 's \<Rightarrow> 'a list \<times> 's" where
  "deq_many deq 0 s = ([], s)"
| "deq_many deq (Suc n) s =
     (case deq s of
        (None, s') \<Rightarrow> ([], s')
      | (Some x, s') \<Rightarrow> (case deq_many deq n s' of (ys, s'') \<Rightarrow> (x # ys, s'')))"

locale fifo =
  fixes rep :: "'s \<Rightarrow> 'a list \<Rightarrow> bool"
    and enq :: "'a \<Rightarrow> 's \<Rightarrow> 's"
    and deq :: "'s \<Rightarrow> 'a ptr \<times> 's"
    and room :: "'s \<Rightarrow> 'a \<Rightarrow> 'a list \<Rightarrow> bool"
  assumes rep_enq: "rep s xs \<Longrightarrow> room s x xs \<Longrightarrow> rep (enq x s) (xs @ [x])"
    and deq_empty: "rep s [] \<Longrightarrow> fst (deq s) = None \<and> rep (snd (deq s)) []"
    and deq_front: "rep s (x # xs) \<Longrightarrow> fst (deq s) = Some x \<and> rep (snd (deq s)) xs"
begin

lemma deq_many_rep:
  assumes "rep s xs" and "n \<le> length xs"
  shows "fst (deq_many deq n s) = take n xs \<and> rep (snd (deq_many deq n s)) (drop n xs)"
  using assms
proof (induction n arbitrary: s xs)
  case 0
  then show ?case by simp
next
  case (Suc n)
  then obtain y ys where xs: "xs = y # ys" by (cases xs) auto
  with Suc.prems deq_front [of s y ys] obtain s' where
    s': "deq s = (Some y, s')" "rep s' ys" by (cases "deq s") auto
  from Suc.IH [OF s'(2)] Suc.prems xs s'(1) show ?case
    by (auto split: prod.splits)
qed

lemma drain_all:
  assumes "rep s xs"
  shows "fst (deq_many deq (Suc (length xs)) s) = xs \<and>
         rep (snd (deq_many deq (Suc (length xs)) s)) []"
  using assms
proof (induction xs arbitrary: s)
  case Nil
  with deq_empty [of s] show ?case by (auto split: prod.splits option.splits)
next
  case (Cons y ys)
  with deq_front [of s y ys] obtain s' where
    s': "deq s = (Some y, s')" "rep s' ys" by (cases "deq s") auto
  from Cons.IH [OF s'(2)] s'(1) show ?case
    by (auto split: prod.splits)
qed

lemma deq_order:
  assumes "rep s [x, y]"
  shows "fst (deq s) = Some x \<and> fst (deq (snd (deq s))) = Some y"
  using assms deq_front by blast

end

text \<open>
  A queue whose elements are linked through a field of their own can take any element that is
  not queued yet, so filling it with distinct elements never fails.
\<close>

locale linked_fifo = fifo rep enq deq room
  for rep :: "'s \<Rightarrow> 'a list \<Rightarrow> bool" and enq deq room +
  assumes room_fresh: "x \<notin> set xs \<Longrightarrow> room s x xs"
begin

lemma enq_all_rep:
  assumes "rep s xs" and "distinct ys" and "set ys \<inter> set xs = {}"
  shows "rep (enq_all enq ys s) (xs @ ys)"
  using assms
proof (induction ys arbitrary: s xs)
  case Nil
  then show ?case by simp
next
  case (Cons y ys)
  then have "rep (enq y s) (xs @ [y])" by (auto intro: rep_enq room_fresh)
  with Cons.prems Cons.IH [of "enq y s" "xs @ [y]"] show ?case by auto
qed

lemma fill_then_drain:
  assumes "rep s []" and "distinct ys"
  shows "fst (deq_many deq (Suc (length ys)) (enq_all enq ys s)) = ys"
  using drain_all enq_all_rep [OF assms(1,2)] by force

end

end
