(* ===== verification/Queue.thy ===== *)
theory Queue
  imports Fifo
begin

text \<open>
  The two queues of \<open>queue.c\<close>. The first is an intrusive linked list: the elements carry
  their own \<open>next\<close> pointer, so the state of a queue is its header together with the heap of
  \<open>next\<close> fields. The second is a ring buffer over an allocated array.
\<close>

type_synonym addr = nat
type_synonym next_heap = "addr \<Rightarrow> addr ptr"

section \<open>The linked queue\<close>

record kqueue =
  q_head :: "addr ptr"
  q_tail :: "addr ptr"
  q_count :: int

definition queue_init :: "kqueue \<Rightarrow> int \<times> kqueue" where
  "queue_init q = (0, q\<lparr>q_head := None, q_tail := None, q_count := 0\<rparr>)"

text \<open>
  The search loop of \<open>queue_remove_item\<close>; on a cyclic list that does not hold the element it
  does not return, which is the value \<open>None\<close>.
\<close>

partial_function (option) queue_remove_loop ::
  "kqueue \<Rightarrow> next_heap \<Rightarrow> addr \<Rightarrow> addr ptr \<Rightarrow> addr ptr \<Rightarrow> (int \<times> kqueue \<times> next_heap) option" where
  "queue_remove_loop q nx elem temp prev =
     (case temp of
        None \<Rightarrow> Some (-1, q, nx)
      | Some t \<Rightarrow>
          if t = elem then
            (let nx' = (case prev of Some l \<Rightarrow> nx(l := nx t) | None \<Rightarrow> nx);
                 q1 = (case prev of Some l \<Rightarrow> q | None \<Rightarrow> q\<lparr>q_head := nx t\<rparr>);
                 q2 = (if q_tail q1 = Some t then q1\<lparr>q_tail := prev\<rparr> else q1)
             in Some (0, q2\<lparr>q_count := q_count q2 - 1\<rparr>, nx'))
          else queue_remove_loop q nx elem (nx t) (Some t))"

definition queue_remove_item ::
  "kqueue \<Rightarrow> next_heap \<Rightarrow> addr \<Rightarrow> (int \<times> kqueue \<times> next_heap) option" where
  "queue_remove_item q nx e = queue_remove_loop q nx e (q_head q) None"

definition queue_enqueue :: "addr \<Rightarrow> kqueue \<times> next_heap \<Rightarrow> kqueue \<times> next_heap" where
  "queue_enqueue e s =
     (let (q, nx) = s;
          (q1, nx1) = (case q_tail q of
                         None \<Rightarrow> (q\<lparr>q_tail := Some e, q_head := Some e\<rparr>, nx)
                       | Some l \<Rightarrow> (q\<lparr>q_tail := Some e\<rparr>, nx(l := Some e)))
      in (q1\<lparr>q_count := q_count q1 + 1\<rparr>, nx1(e := None)))"

definition queue_dequeue :: "kqueue \<times> next_heap \<Rightarrow> addr ptr \<times> (kqueue \<times> next_heap)" where
  "queue_dequeue s =
     (let (q, nx) = s;
          elem = q_head q;
          q1 = (case q_head q of Some h \<Rightarrow> q\<lparr>q_head := nx h\<rparr> | None \<Rightarrow> q);
          q2 = (if q_tail q1 = elem then q1\<lparr>q_tail := None\<rparr> else q1);
          q3 = (if elem \<noteq> None then q2\<lparr>q_count := q_count q2 - 1\<rparr> else q2)
      in (elem, (q3, nx)))"

definition queue_peek :: "kqueue \<Rightarrow> addr ptr" where
  "queue_peek q = q_head q"

text \<open>
  What a queue represents: the list of its elements from head to tail. The tail pointer is
  the last node, and the count is the number of nodes.
\<close>

definition queue_rep :: "kqueue \<times> next_heap \<Rightarrow> addr list \<Rightarrow> bool" where
  "queue_rep s xs \<longleftrightarrow>
     (case s of (q, nx) \<Rightarrow>
        chain nx (q_head q) xs \<and>
        q_tail q = (if xs = [] then None else Some (last xs)) \<and>
        q_count q = int (length xs))"

lemma queue_init_rep: "queue_rep (snd (queue_init q), nx) []"
  by (simp add: queue_rep_def queue_init_def)

lemma queue_rep_distinct: "queue_rep s xs \<Longrightarrow> distinct xs"
  by (cases s) (auto simp: queue_rep_def dest: chain_distinct)

lemma queue_enqueue_rep:
  assumes "queue_rep s xs" and "e \<notin> set xs"
  shows "queue_rep (queue_enqueue e s) (xs @ [e])"
proof (cases xs rule: rev_cases)
  case Nil
  with assms show ?thesis
    by (cases s) (auto simp: queue_rep_def queue_enqueue_def)
next
  case (snoc ys l)
  obtain q nx where s: "s = (q, nx)" by (cases s)
  with assms snoc have c: "chain nx (q_head q) (ys @ [l])"
    and t: "q_tail q = Some l" and n: "q_count q = int (length xs)"
    by (auto simp: queue_rep_def)
  from c assms(2) snoc have "chain (nx(l := Some e, e := None)) (q_head q) (ys @ [l, e])"
    by (intro chain_append_node) auto
  with s t n snoc show ?thesis by (simp add: queue_rep_def queue_enqueue_def)
qed

lemma queue_dequeue_empty:
  "queue_rep s [] \<Longrightarrow> fst (queue_dequeue s) = None \<and> queue_rep (snd (queue_dequeue s)) []"
  by (cases s) (auto simp: queue_rep_def queue_dequeue_def)

lemma queue_dequeue_front:
  assumes "queue_rep s (x # xs)"
  shows "fst (queue_dequeue s) = Some x \<and> queue_rep (snd (queue_dequeue s)) xs"
proof -
  obtain q nx where s: "s = (q, nx)" by (cases s)
  from assms have "distinct (x # xs)" by (rule queue_rep_distinct)
  then have "xs \<noteq> [] \<Longrightarrow> last xs \<noteq> x" by auto
  with assms s show ?thesis
    by (auto simp: queue_rep_def queue_dequeue_def)
qed

interpretation lq: linked_fifo queue_rep queue_enqueue queue_dequeue "\<lambda>_ x xs. x \<notin> set xs"
  by unfold_locales
    (simp_all add: queue_enqueue_rep queue_dequeue_empty queue_dequeue_front)

text \<open>
  The search loop, started in the middle of the list with the nodes already passed: it
  unlinks the first occurrence, and reports failure only when the element is not there.
\<close>

lemma queue_remove_loop_absent:
  assumes "chain nx temp ys" and "e \<notin> set ys"
  shows "queue_remove_loop q nx e temp prev = Some (-1, q, nx)"
  using assms
proof (induction ys arbitrary: temp prev)
  case Nil
  then show ?case by (simp add: queue_remove_loop.simps)
next
  case (Cons y ys)
  then show ?case by (subst queue_remove_loop.simps) auto
qed

lemma queue_remove_loop_skip:
  assumes "lseg nx temp ys (Some e)" and "e \<notin> set ys"
  shows "queue_remove_loop q nx e temp l =
         queue_remove_loop q nx e (Some e) (if ys = [] then l else Some (last ys))"
  using assms
proof (induction ys arbitrary: temp l)
  case Nil
  then show ?case by simp
next
  case (Cons y ys)
  from Cons.prems have t: "temp = Some y" and y: "y \<noteq> e" by auto
  have "queue_remove_loop q nx e temp l = queue_remove_loop q nx e (nx y) (Some y)"
    by (subst queue_remove_loop.simps) (simp add: t y)
  also have "\<dots> = queue_remove_loop q nx e (Some e) (if ys = [] then Some y else Some (last ys))"
    using Cons by simp
  finally show ?case by simp
qed

lemma queue_remove_item_rep:
  assumes rep: "queue_rep (q, nx) xs" and e: "e \<in> set xs"
  shows "\<exists>q' nx'. queue_remove_item q nx e = Some (0, q', nx') \<and>
                  queue_rep (q', nx') (remove1 e xs)"
proof -
  from e obtain ys zs where xs: "xs = ys @ e # zs" and ey: "e \<notin> set ys"
    by (auto dest: split_list_first)
  from rep have d: "distinct xs" by (rule queue_rep_distinct)
  from rep xs have c: "chain nx (q_head q) (ys @ e # zs)"
    and t: "q_tail q = Some (last (e # zs))" and n: "q_count q = int (length xs)"
    by (auto simp: queue_rep_def)
  from c have seg: "lseg nx (q_head q) ys (Some e)" and rest: "chain nx (nx e) zs"
    by (auto dest: chain_split)
  have r: "remove1 e xs = ys @ zs" using xs ey by simp
  show ?thesis
  proof (cases ys rule: rev_cases)
    case Nil
    from d xs have "zs \<noteq> [] \<Longrightarrow> last zs \<noteq> e" by auto
    with Nil seg rest r t n xs show ?thesis
      by (auto simp: queue_remove_item_def queue_remove_loop.simps queue_rep_def Let_def)
  next
    case (snoc us l)
    have step: "queue_remove_item q nx e = queue_remove_loop q nx e (Some e) (Some l)"
      using queue_remove_loop_skip [OF seg ey] snoc by (simp add: queue_remove_item_def)
    from c snoc have "chain (nx(l := nx e)) (q_head q) (us @ l # zs)"
      by (intro chain_unlink) simp
    moreover from d xs have "zs \<noteq> [] \<Longrightarrow> last zs \<noteq> e" by auto
    ultimately show ?thesis using step r t n xs snoc
      by (auto simp: queue_remove_loop.simps queue_rep_def Let_def)
  qed
qed

section \<open>The fixed queue\<close>

text \<open>
  The table of a fixed queue is the block that \<open>kmalloc\<close> returned, whatever it contains; the
  result of the allocation is a parameter (\<open>None\<close> when memory is exhausted).
\<close>

record fixed_queue =
  fq_table :: "addr ptr list"
  fq_head :: int
  fq_tail :: int
  fq_count :: int
  fq_size :: int

definition fixed_queue_init ::
  "fixed_queue \<Rightarrow> int \<Rightarrow> addr ptr list option \<Rightarrow> int \<times> fixed_queue" where
  "fixed_queue_init q sz mem =
     (if sz \<le> 0 then (ERR_INVALID_ARGS, q)
      else case mem of
        None \<Rightarrow> (ERR_NO_MEMORY, q)
      | Some t \<Rightarrow>
          (B_NO_ERROR,
           q\<lparr>fq_table := t, fq_head := 0, fq_tail := 0, fq_count := 0, fq_size := sz\<rparr>))"

definition fixed_queue_enqueue :: "fixed_queue \<Rightarrow> addr ptr \<Rightarrow> int \<times> fixed_queue" where
  "fixed_queue_enqueue q e =
     (if fq_count q = fq_size q then (ERR_NO_MEMORY, q)
      else
        (let q1 = q\<lparr>fq_table := (fq_table q)[nat (fq_head q) := e], fq_head := fq_head q + 1\<rparr>;
             q2 = (if fq_size q1 \<le> fq_head q1 then q1\<lparr>fq_head := 0\<rparr> else q1)
         in (B_NO_ERROR, q2\<lparr>fq_count := fq_count q2 + 1\<rparr>)))"

definition fixed_queue_dequeue :: "fixed_queue \<Rightarrow> addr ptr \<times> fixed_queue" where
  "fixed_queue_dequeue q =
     (if fq_count q \<le> 0 then (None, q)
      else
        (let e = fq_table q ! nat (fq_tail q);
             q1 = q\<lparr>fq_tail := fq_tail q + 1\<rparr>;
             q2 = (if fq_size q1 \<le> fq_tail q1 then q1\<lparr>fq_tail := 0\<rparr> else q1)
         in (e, q2\<lparr>fq_count := fq_count q2 - 1\<rparr>)))"

definition fixed_queue_peek :: "fixed_queue \<Rightarrow> addr ptr" where
  "fixed_queue_peek q =
     (if fq_count q \<le> 0 then None else fq_table q ! nat (fq_tail q))"

text \<open>
  The ring as a list: \<open>count\<close> cells from the tail on, wrapping at \<open>size\<close>. The head is the
  cell after the last of them.
\<close>

definition fq_wf :: "fixed_queue \<Rightarrow> bool" where
  "fq_wf q \<longleftrightarrow>
     0 < fq_size q \<and> int (length (fq_table q)) = fq_size q \<and>
     0 \<le> fq_tail q \<and> fq_tail q < fq_size q \<and>
     0 \<le> fq_count q \<and> fq_count q \<le> fq_size q \<and>
     fq_head q = (fq_tail q + fq_count q) mod fq_size q"

definition fq_list :: "fixed_queue \<Rightarrow> addr ptr list" where
  "fq_list q =
     map (\<lambda>i. fq_table q ! nat ((fq_tail q + int i) mod fq_size q)) [0..<nat (fq_count q)]"

lemma fq_init_wf:
  "0 < sz \<Longrightarrow> length t = nat sz \<Longrightarrow>
     fst (fixed_queue_init q sz (Some t)) = B_NO_ERROR \<and>
     fq_wf (snd (fixed_queue_init q sz (Some t))) \<and>
     fq_list (snd (fixed_queue_init q sz (Some t))) = []"
  by (simp add: fixed_queue_init_def fq_wf_def fq_list_def)

lemma ring_step: "0 \<le> h \<Longrightarrow> h < n \<Longrightarrow> (if n \<le> h + 1 then 0 else h + 1) = (h + 1) mod (n::int)"
  by (cases "n = h + 1") auto

lemma ring_shift: "((t + 1) mod n + (c - 1)) mod n = (t + c) mod (n::int)"
proof -
  have "((t + 1) mod n + (c - 1)) mod n = ((t + 1) + (c - 1)) mod n" by (rule mod_add_left_eq)
  then show ?thesis by (simp add: algebra_simps)
qed

lemma ring_shift_cell: "((t + 1) mod n + c) mod n = (t + (1 + c)) mod (n::int)"
  by (simp add: mod_add_left_eq add.assoc)

lemma ring_cells_differ:
  fixes n t :: int
  assumes "0 < n" and "0 \<le> t" and "i \<noteq> j" and "int i < n" and "int j < n"
  shows "(t + int i) mod n \<noteq> (t + int j) mod n"
proof
  assume "(t + int i) mod n = (t + int j) mod n"
  then have "n dvd (t + int i) - (t + int j)" by (rule mod_eq_dvd_iff [THEN iffD1])
  then have "n dvd int i - int j" by simp
  then have "\<bar>n\<bar> \<le> \<bar>int i - int j\<bar>" using assms(3) by (intro dvd_imp_le_int) auto
  with assms(1,4,5) show False by linarith
qed

lemma fq_enqueue_full:
  "fq_count q = fq_size q \<Longrightarrow> fixed_queue_enqueue q e = (ERR_NO_MEMORY, q)"
  by (simp add: fixed_queue_enqueue_def)

lemma fq_enqueue_wf:
  assumes "fq_wf q"
  shows "fq_wf (snd (fixed_queue_enqueue q e))"
proof (cases "fq_count q = fq_size q")
  case True
  with assms show ?thesis by (simp add: fq_enqueue_full)
next
  case False
  from assms have "0 \<le> fq_head q" and "fq_head q < fq_size q" by (auto simp: fq_wf_def)
  then have "(if fq_size q \<le> fq_head q + 1 then 0 else fq_head q + 1)
      = (fq_head q + 1) mod fq_size q"
    by (rule ring_step)
  also have "\<dots> = (fq_tail q + (fq_count q + 1)) mod fq_size q"
    using assms by (simp add: fq_wf_def mod_add_left_eq add.assoc)
  finally have "(if fq_size q \<le> fq_head q + 1 then 0 else fq_head q + 1)
      = (fq_tail q + (fq_count q + 1)) mod fq_size q" .
  with False assms show ?thesis
    by (auto simp: fixed_queue_enqueue_def fq_wf_def Let_def split: if_splits)
qed

lemma fq_enqueue_list:
  assumes wf: "fq_wf q" and room: "fq_count q < fq_size q"
  shows "fq_list (snd (fixed_queue_enqueue q e)) = fq_list q @ [e]"
proof -
  let ?q = "snd (fixed_queue_enqueue q e)"
  let ?h = "nat ((fq_tail q + fq_count q) mod fq_size q)"
  have f: "fq_tail ?q = fq_tail q" "fq_size ?q = fq_size q" "fq_count ?q = fq_count q + 1"
    "fq_table ?q = (fq_table q)[?h := e]"
    using wf room by (auto simp: fixed_queue_enqueue_def Let_def fq_wf_def)
  have h: "?h < length (fq_table q)" using wf by (auto simp: fq_wf_def nat_less_iff)
  have old: "fq_table ?q ! nat ((fq_tail q + int i) mod fq_size q) =
      fq_table q ! nat ((fq_tail q + int i) mod fq_size q)" if "i < nat (fq_count q)" for i
  proof -
    from wf room that have "(fq_tail q + int i) mod fq_size q \<noteq>
        (fq_tail q + int (nat (fq_count q))) mod fq_size q"
      by (intro ring_cells_differ) (auto simp: fq_wf_def)
    with wf have "nat ((fq_tail q + int i) mod fq_size q) \<noteq> ?h"
      by (auto simp: fq_wf_def nat_eq_iff)
    then show ?thesis by (simp add: f)
  qed
  have "nat (fq_count q + 1) = Suc (nat (fq_count q))" using wf by (auto simp: fq_wf_def)
  with old h wf show ?thesis by (simp add: fq_list_def f fq_wf_def)
qed

lemma fq_dequeue_wf:
  assumes "fq_wf q"
  shows "fq_wf (snd (fixed_queue_dequeue q))"
proof (cases "fq_count q \<le> 0")
  case True
  with assms show ?thesis by (simp add: fixed_queue_dequeue_def)
next
  case False
  let ?t = "(fq_tail q + 1) mod fq_size q"
  from assms have t: "(if fq_size q \<le> fq_tail q + 1 then 0 else fq_tail q + 1) = ?t"
    by (intro ring_step) (auto simp: fq_wf_def)
  have "fq_head q = (?t + (fq_count q - 1)) mod fq_size q"
    using assms by (simp add: fq_wf_def ring_shift)
  with False assms t show ?thesis
    by (auto simp: fixed_queue_dequeue_def fq_wf_def Let_def split: if_splits)
qed

lemma fq_dequeue_list:
  assumes wf: "fq_wf q" and ne: "fq_list q = e # es"
  shows "fst (fixed_queue_dequeue q) = e \<and> fq_list (snd (fixed_queue_dequeue q)) = es"
proof -
  from ne have "length (e # es) = nat (fq_count q)"
    by (metis fq_list_def length_map length_upt minus_nat.diff_0)
  then have c: "nat (fq_count q) = Suc (length es)" and c0: "0 < fq_count q" by auto
  let ?q = "snd (fixed_queue_dequeue q)"
  from wf have "(if fq_size q \<le> fq_tail q + 1 then 0 else fq_tail q + 1)
      = (fq_tail q + 1) mod fq_size q"
    by (intro ring_step) (auto simp: fq_wf_def)
  with c0 have f: "fq_tail ?q = (fq_tail q + 1) mod fq_size q" "fq_size ?q = fq_size q"
    "fq_count ?q = fq_count q - 1" "fq_table ?q = fq_table q"
    "fst (fixed_queue_dequeue q) = fq_table q ! nat (fq_tail q)"
    by (auto simp: fixed_queue_dequeue_def Let_def)
  let ?cell = "\<lambda>i. fq_table q ! nat ((fq_tail q + int i) mod fq_size q)"
  have "e # es = map ?cell (0 # map Suc [0..<length es])"
    using ne by (simp only: fq_list_def c map_Suc_upt upt_conv_Cons [of 0 "Suc (length es)"])
  then have e: "e = ?cell 0" and es: "es = map (?cell \<circ> Suc) [0..<length es]"
    by simp_all
  have "nat (fq_count q - 1) = length es" using c c0 by simp
  then have "fq_list ?q = es"
    by (subst es) (simp add: fq_list_def f ring_shift_cell)
  with e wf f show ?thesis by (simp add: fq_wf_def)
qed

lemma fq_list_length: "fq_wf q \<Longrightarrow> int (length (fq_list q)) = fq_count q"
  by (simp add: fq_list_def fq_wf_def)


lemma fq_list_count: "fq_wf q \<Longrightarrow> fq_list q = map Some xs \<Longrightarrow> fq_count q = int (length xs)"
  using fq_list_length by fastforce

interpretation fq: fifo "\<lambda>q xs. fq_wf q \<and> fq_list q = map Some xs"
    "\<lambda>x q. snd (fixed_queue_enqueue q (Some x))" fixed_queue_dequeue
    "\<lambda>q x xs. int (length xs) < fq_size q"
proof unfold_locales
  fix q x and xs :: "addr list"
  assume "fq_wf q \<and> fq_list q = map Some xs" and "int (length xs) < fq_size q"
  then show "fq_wf (snd (fixed_queue_enqueue q (Some x))) \<and>
      fq_list (snd (fixed_queue_enqueue q (Some x))) = map Some (xs @ [x])"
    by (simp add: fq_enqueue_wf fq_enqueue_list fq_list_count)
next
  fix q
  assume "fq_wf q \<and> fq_list q = map Some ([] :: addr list)"
  then show "fst (fixed_queue_dequeue q) = None \<and> fq_wf (snd (fixed_queue_dequeue q)) \<and>
      fq_list (snd (fixed_queue_dequeue q)) = map Some ([] :: addr list)"
    using fq_list_count [of q "[]"] by (simp add: fixed_queue_dequeue_def)
next
  fix q x and xs :: "addr list"
  assume "fq_wf q \<and> fq_list q = map Some (x # xs)"
  then show "fst (fixed_queue_dequeue q) = Some x \<and> fq_wf (snd (fixed_queue_dequeue q)) \<and>
      fq_list (snd (fixed_queue_dequeue q)) = map Some xs"
    using fq_dequeue_wf fq_dequeue_list by auto
qed

section \<open>Properties\<close>

text \<open>Calls on one queue, and what they answer on a list: an element is added that is not queued.\<close>

datatype queue_call = Q_enq addr | Q_deq | Q_peek | Q_remove addr

datatype queue_answer = QA_none | QA_elem "addr ptr" | QA_code int

fun queue_step :: "queue_call \<Rightarrow> kqueue \<times> next_heap \<Rightarrow> (queue_answer \<times> kqueue \<times> next_heap) option" where
  "queue_step (Q_enq e) s = Some (QA_none, queue_enqueue e s)"
| "queue_step Q_deq s = (case queue_dequeue s of (e, s') \<Rightarrow> Some (QA_elem e, s'))"
| "queue_step Q_peek s = Some (QA_elem (queue_peek (fst s)), s)"
| "queue_step (Q_remove e) s = (case queue_remove_item (fst s) (snd s) e of None \<Rightarrow> None | Some (r, s') \<Rightarrow> Some (QA_code r, s'))"

fun queue_run :: "queue_call list \<Rightarrow> kqueue \<times> next_heap \<Rightarrow> (queue_answer list \<times> kqueue \<times> next_heap) option" where
  "queue_run [] s = Some ([], s)"
| "queue_run (c # cs) s =
     (case queue_step c s of
        None \<Rightarrow> None
      | Some (r, s1) \<Rightarrow> (case queue_run cs s1 of None \<Rightarrow> None | Some (rs, s2) \<Rightarrow> Some (r # rs, s2)))"

fun list_step :: "queue_call \<Rightarrow> addr list \<Rightarrow> (queue_answer \<times> addr list) option" where
  "list_step (Q_enq e) xs = (if e \<in> set xs then None else Some (QA_none, xs @ [e]))"
| "list_step Q_deq xs = (case xs of [] \<Rightarrow> Some (QA_elem None, []) | x # ys \<Rightarrow> Some (QA_elem (Some x), ys))"
| "list_step Q_peek xs = Some (QA_elem (case xs of [] \<Rightarrow> None | x # ys \<Rightarrow> Some x), xs)"
| "list_step (Q_remove e) xs = Some (QA_code (if e \<in> set xs then 0 else -1), remove1 e xs)"

fun list_run :: "queue_call list \<Rightarrow> addr list \<Rightarrow> (queue_answer list \<times> addr list) option" where
  "list_run [] xs = Some ([], xs)"
| "list_run (c # cs) xs =
     (case list_step c xs of
        None \<Rightarrow> None
      | Some (r, ys) \<Rightarrow> (case list_run cs ys of None \<Rightarrow> None | Some (rs, zs) \<Rightarrow> Some (r # rs, zs)))"

lemma queue_step_rep:
  assumes rep: "queue_rep s xs" and spec: "list_step c xs = Some (r, ys)"
  shows "\<exists>s'. queue_step c s = Some (r, s') \<and> queue_rep s' ys"
proof (cases c)
  case (Q_enq e)
  with spec queue_enqueue_rep [OF rep, of e] show ?thesis by (auto split: if_splits)
next
  case Q_deq
  obtain p s' where d: "queue_dequeue s = (p, s')" by (cases "queue_dequeue s")
  show ?thesis
  proof (cases xs)
    case Nil
    with Q_deq d spec queue_dequeue_empty [of s] rep show ?thesis by simp
  next
    case (Cons x zs)
    with Q_deq d spec queue_dequeue_front [of s x zs] rep show ?thesis by simp
  qed
next
  case Q_peek
  with spec rep show ?thesis by (cases xs) (auto simp: queue_peek_def queue_rep_def)
next
  case (Q_remove e)
  obtain q nx where s: "s = (q, nx)" by (cases s)
  show ?thesis
  proof (cases "e \<in> set xs")
    case True
    with Q_remove spec s queue_remove_item_rep [of q nx xs e] rep show ?thesis by auto
  next
    case False
    with rep s have "queue_remove_item q nx e = Some (-1, q, nx)"
      unfolding queue_remove_item_def by (intro queue_remove_loop_absent) (auto simp: queue_rep_def)
    with False Q_remove spec s rep show ?thesis by (simp add: remove1_idem)
  qed
qed

lemma queue_run_rep:
  "queue_rep s xs \<Longrightarrow> list_run cs xs = Some (rs, ys) \<Longrightarrow> \<exists>s'. queue_run cs s = Some (rs, s') \<and> queue_rep s' ys"
proof (induction cs arbitrary: s xs rs)
  case (Cons c cs)
  then obtain r zs rs' where l: "list_step c xs = Some (r, zs)" "list_run cs zs = Some (rs', ys)" "rs = r # rs'"
    by (auto split: option.splits)
  from queue_step_rep [OF Cons.prems(1) l(1)] obtain s1 where "queue_step c s = Some (r, s1)" "queue_rep s1 zs" by blast
  with Cons.IH [OF _ l(2)] l(3) show ?case by fastforce
qed simp

text \<open>
  (C9) From \<open>queue_init\<close> on, any sequence of \<open>queue_enqueue\<close>, \<open>queue_dequeue\<close>, \<open>queue_peek\<close> and
  \<open>queue_remove_item\<close>, in which no element is added that is in the queue already, returns and
  answers what the same calls answer on a list: elements leave at the front in the order in
  which they came, \<open>NULL\<close> stands for an empty queue, and removal tells whether the element was
  there. Afterwards head, tail, count and links are those of the list that is left.
\<close>

theorem queue_fifo_order:
  assumes "list_run cs [] = Some (rs, xs)"
  shows "\<exists>s. queue_run cs (snd (queue_init q), nx) = Some (rs, s) \<and>
           chain (snd s) (q_head (fst s)) xs \<and> q_tail (fst s) = (if xs = [] then None else Some (last xs)) \<and>
           q_count (fst s) = int (length xs)"
  using queue_run_rep [OF queue_init_rep assms, of q nx] by (auto simp: queue_rep_def split: prod.splits)

theorem queue_fifo_order_witness:
  "\<exists>s. queue_run [Q_enq 4, Q_enq 2, Q_deq, Q_deq, Q_deq, Q_enq 7, Q_enq 5, Q_enq 4, Q_remove 5, Q_peek] (\<lparr>q_head = None, q_tail = None, q_count = 0\<rparr>, \<lambda>_. None) =
       Some ([QA_none, QA_none, QA_elem (Some 4), QA_elem (Some 2), QA_elem None, QA_none, QA_none, QA_none, QA_code 0, QA_elem (Some 7)], s) \<and>
     q_tail (fst s) = Some 4 \<and> q_count (fst s) = 2"
proof -
  have "list_run [Q_enq 4, Q_enq 2, Q_deq, Q_deq, Q_deq, Q_enq 7, Q_enq 5, Q_enq 4, Q_remove 5, Q_peek] [] =
      Some ([QA_none, QA_none, QA_elem (Some 4), QA_elem (Some 2), QA_elem None, QA_none, QA_none, QA_none, QA_code 0, QA_elem (Some 7)], [7, 4])" by simp
  from queue_fifo_order [OF this, of "\<lparr>q_head = None, q_tail = None, q_count = 0\<rparr>" "\<lambda>_. None"] show ?thesis
    by (auto simp: queue_init_def)
qed

text \<open>
  \<open>queue_remove_item\<close> always returns on a well-formed queue. It removes exactly the given
  node, keeping the head, the tail and the count right and the order of the others, and
  reports failure without changing anything when the node is not queued.
\<close>

theorem queue_remove_item_correct:
  assumes "queue_rep (q, nx) xs"
  shows "\<exists>q' nx'. queue_remove_item q nx e = Some (if e \<in> set xs then 0 else -1, q', nx') \<and>
           queue_rep (q', nx') (remove1 e xs) \<and>
           (e \<notin> set xs \<longrightarrow> q' = q \<and> nx' = nx)"
proof (cases "e \<in> set xs")
  case True
  with queue_remove_item_rep [OF assms] show ?thesis by auto
next
  case False
  with assms have "queue_remove_item q nx e = Some (-1, q, nx)"
    unfolding queue_remove_item_def by (intro queue_remove_loop_absent) (auto simp: queue_rep_def)
  with False assms show ?thesis by (simp add: remove1_idem)
qed

theorem queue_remove_item_correct_witness:
  "\<exists>q' nx'. queue_remove_item \<lparr>q_head = Some 1, q_tail = Some 2, q_count = 2\<rparr> [1 \<mapsto> 2] 2
              = Some (if 2 \<in> set [1, 2 :: addr] then 0 else -1, q', nx') \<and>
            queue_rep (q', nx') (remove1 2 [1, 2]) \<and>
            (2 \<notin> set [1, 2 :: addr] \<longrightarrow>
               q' = \<lparr>q_head = Some 1, q_tail = Some 2, q_count = 2\<rparr> \<and> nx' = [1 \<mapsto> 2])"
  by (rule queue_remove_item_correct) (simp add: queue_rep_def)

text \<open>
  The ring buffer is a bounded first-in first-out queue: an enqueue on a full ring fails
  with \<open>ERR_NO_MEMORY\<close> and changes nothing, otherwise it appends the element and succeeds;
  every stored pointer comes back, oldest first, and no operation indexes outside the table.
\<close>

theorem fixed_queue_refines_bounded_list:
  assumes wf: "fq_wf q"
  shows "fq_wf (snd (fixed_queue_enqueue q e)) \<and> fq_wf (snd (fixed_queue_dequeue q)) \<and>
         (int (length (fq_list q)) = fq_size q \<longrightarrow>
            fixed_queue_enqueue q e = (ERR_NO_MEMORY, q)) \<and>
         (int (length (fq_list q)) < fq_size q \<longrightarrow>
            fst (fixed_queue_enqueue q e) = B_NO_ERROR \<and>
            fq_list (snd (fixed_queue_enqueue q e)) = fq_list q @ [e]) \<and>
         (\<forall>x xs. fq_list q = x # xs \<longrightarrow>
            fst (fixed_queue_dequeue q) = x \<and> fq_list (snd (fixed_queue_dequeue q)) = xs \<and>
            fixed_queue_peek q = x) \<and>
         nat (fq_head q) < length (fq_table q) \<and> nat (fq_tail q) < length (fq_table q)"
proof -
  have peek: "fixed_queue_peek q = fst (fixed_queue_dequeue q)"
    by (simp add: fixed_queue_peek_def fixed_queue_dequeue_def Let_def)
  have ok: "fst (fixed_queue_enqueue q e) = B_NO_ERROR" if "fq_count q < fq_size q"
    using that by (simp add: fixed_queue_enqueue_def Let_def)
  have "0 \<le> fq_head q \<and> fq_head q < fq_size q" using wf by (simp add: fq_wf_def)
  with wf have bnd: "nat (fq_head q) < length (fq_table q)" "nat (fq_tail q) < length (fq_table q)"
    by (auto simp: fq_wf_def nat_less_iff)
  from wf have len: "int (length (fq_list q)) = fq_count q" by (rule fq_list_length)
  show ?thesis
    using wf bnd len ok
    by (simp add: peek fq_enqueue_wf fq_dequeue_wf fq_enqueue_full fq_enqueue_list fq_dequeue_list)
qed

theorem fixed_queue_refines_bounded_list_witness:
  "fq_list (snd (fixed_queue_enqueue
     \<lparr>fq_table = [Some 5, None], fq_head = 1, fq_tail = 0, fq_count = 1, fq_size = 2\<rparr> (Some 9)))
   = [Some 5, Some 9]"
proof -
  let ?q = "\<lparr>fq_table = [Some 5, None], fq_head = 1, fq_tail = 0, fq_count = 1, fq_size = 2\<rparr>"
  have "fq_wf ?q" by (simp add: fq_wf_def)
  note fixed_queue_refines_bounded_list [OF this, of "Some 9"]
  moreover have "fq_list ?q = [Some 5]" by (simp add: fq_list_def)
  ultimately show ?thesis by simp
qed

end
