(* ===== verification/Thread_Queue.thy ===== *)
theory Thread_Queue
  imports Queue
begin

text \<open>
  The thread queues of \<open>thread.c\<close>: the run queues of the scheduler and the wait queues of the
  semaphores. A thread is linked through its own \<open>q_next\<close> field, so it is on at most one
  queue at a time. The last section shows that these pointer operations implement the
  operations on lists of threads that the scheduler and semaphore models use.
\<close>

text \<open>
  \<open>thread_enqueue\<close> on a queue whose head is set and whose tail is \<open>NULL\<close> would dereference
  \<open>NULL\<close>; no operation builds such a queue (\<open>tq_rep\<close> below), and the model leaves the heap
  alone there.
\<close>

record thread_queue =
  tq_head :: "addr ptr"
  tq_tail :: "addr ptr"

definition thread_enqueue ::
  "addr \<Rightarrow> thread_queue \<times> next_heap \<Rightarrow> thread_queue \<times> next_heap" where
  "thread_enqueue t s =
     (let (q, nx) = s; nx0 = nx(t := None)
      in case tq_head q of
           None \<Rightarrow> (q\<lparr>tq_head := Some t, tq_tail := Some t\<rparr>, nx0)
         | Some h \<Rightarrow>
             (q\<lparr>tq_tail := Some t\<rparr>,
              (case tq_tail q of Some l \<Rightarrow> nx0(l := Some t) | None \<Rightarrow> nx0)))"

definition thread_lookat_queue :: "thread_queue \<Rightarrow> addr ptr" where
  "thread_lookat_queue q = tq_head q"

definition thread_dequeue ::
  "thread_queue \<times> next_heap \<Rightarrow> addr ptr \<times> (thread_queue \<times> next_heap)" where
  "thread_dequeue s =
     (let (q, nx) = s
      in case tq_head q of
           None \<Rightarrow> (None, (q, nx))
         | Some t \<Rightarrow>
             (let q1 = q\<lparr>tq_head := nx t\<rparr>;
                  q2 = (if tq_tail q1 = Some t then q1\<lparr>tq_tail := None\<rparr> else q1)
              in (Some t, (q2, nx))))"

text \<open>
  \<open>thread_dequeue_id\<close> compares the \<open>id\<close> fields of the threads it passes; \<open>ids\<close> is that
  field of every thread structure.
\<close>

partial_function (option) thread_dequeue_id_loop ::
  "(addr \<Rightarrow> int) \<Rightarrow> int \<Rightarrow> thread_queue \<Rightarrow> next_heap \<Rightarrow> addr ptr \<Rightarrow> addr ptr \<Rightarrow>
   (addr ptr \<times> (thread_queue \<times> next_heap)) option" where
  "thread_dequeue_id_loop ids thr_id q nx t prev =
     (case t of
        None \<Rightarrow> Some (None, (q, nx))
      | Some a \<Rightarrow>
          if ids a = thr_id then
            (let q1 = (case prev of None \<Rightarrow> q\<lparr>tq_head := nx a\<rparr> | Some l \<Rightarrow> q);
                 nx1 = (case prev of None \<Rightarrow> nx | Some l \<Rightarrow> nx(l := nx a));
                 q2 = (if tq_tail q1 = Some a then q1\<lparr>tq_tail := prev\<rparr> else q1)
             in Some (Some a, (q2, nx1)))
          else thread_dequeue_id_loop ids thr_id q nx (nx a) (Some a))"

definition thread_dequeue_id ::
  "(addr \<Rightarrow> int) \<Rightarrow> int \<Rightarrow> thread_queue \<times> next_heap \<Rightarrow>
   (addr ptr \<times> (thread_queue \<times> next_heap)) option" where
  "thread_dequeue_id ids thr_id s =
     thread_dequeue_id_loop ids thr_id (fst s) (snd s) (tq_head (fst s)) None"

text \<open>
  The representation differs from \<open>queue_rep\<close> in one point: \<open>thread_enqueue\<close> tests the head
  and not the tail, so the tail of an empty queue does not matter.
\<close>

definition tq_rep :: "thread_queue \<times> next_heap \<Rightarrow> addr list \<Rightarrow> bool" where
  "tq_rep s xs \<longleftrightarrow>
     chain (snd s) (tq_head (fst s)) xs \<and>
     (xs \<noteq> [] \<longrightarrow> tq_tail (fst s) = Some (last xs))"

lemma tq_rep_distinct: "tq_rep s xs \<Longrightarrow> distinct xs"
  by (auto simp: tq_rep_def dest: chain_distinct)

lemma tq_rep_head: "tq_rep s xs \<Longrightarrow> tq_head (fst s) = None \<longleftrightarrow> xs = []"
  by (cases xs) (auto simp: tq_rep_def)

lemma thread_enqueue_rep:
  assumes "tq_rep s xs" and "t \<notin> set xs"
  shows "tq_rep (thread_enqueue t s) (xs @ [t])"
proof (cases xs rule: rev_cases)
  case Nil
  with assms show ?thesis by (cases s) (auto simp: tq_rep_def thread_enqueue_def)
next
  case (snoc ys l)
  obtain q nx where s: "s = (q, nx)" by (cases s)
  with assms snoc have c: "chain nx (tq_head q) (ys @ [l])" and tl: "tq_tail q = Some l"
    by (auto simp: tq_rep_def)
  from snoc s tq_rep_head [OF assms(1)] obtain h where h: "tq_head q = Some h" by auto
  from c assms(2) snoc have "chain (nx(l := Some t, t := None)) (tq_head q) (ys @ [l, t])"
    by (intro chain_append_node) auto
  moreover have "nx(l := Some t, t := None) = nx(t := None, l := Some t)"
    using assms(2) snoc by (auto simp: fun_upd_twist)
  ultimately show ?thesis using s h tl snoc by (simp add: tq_rep_def thread_enqueue_def)
qed

lemma thread_dequeue_empty:
  "tq_rep s [] \<Longrightarrow> fst (thread_dequeue s) = None \<and> tq_rep (snd (thread_dequeue s)) []"
  by (cases s) (auto simp: tq_rep_def thread_dequeue_def)

lemma thread_dequeue_front:
  assumes "tq_rep s (x # xs)"
  shows "fst (thread_dequeue s) = Some x \<and> tq_rep (snd (thread_dequeue s)) xs"
proof -
  obtain q nx where s: "s = (q, nx)" by (cases s)
  from assms have "distinct (x # xs)" by (rule tq_rep_distinct)
  then have "xs \<noteq> [] \<Longrightarrow> last xs \<noteq> x" by auto
  with assms s show ?thesis by (auto simp: tq_rep_def thread_dequeue_def Let_def)
qed

interpretation tq: linked_fifo tq_rep thread_enqueue thread_dequeue "\<lambda>_ t ts. t \<notin> set ts"
  by unfold_locales (simp_all add: thread_enqueue_rep thread_dequeue_empty thread_dequeue_front)

lemma thread_dequeue_id_skip:
  assumes "lseg nx p ys r" and "\<forall>y \<in> set ys. ids y \<noteq> i"
  shows "thread_dequeue_id_loop ids i q nx p l =
         thread_dequeue_id_loop ids i q nx r (if ys = [] then l else Some (last ys))"
  using assms
proof (induction ys arbitrary: p l)
  case Nil
  then show ?case by simp
next
  case (Cons y ys)
  from Cons.prems have p: "p = Some y" and y: "ids y \<noteq> i" by auto
  have "thread_dequeue_id_loop ids i q nx p l = thread_dequeue_id_loop ids i q nx (nx y) (Some y)"
    by (subst thread_dequeue_id_loop.simps) (simp add: p y)
  also have "\<dots> = thread_dequeue_id_loop ids i q nx r (if ys = [] then Some y else Some (last ys))"
    using Cons by simp
  finally show ?case by simp
qed

text \<open>Dequeuing by id, on lists: the first thread with that id, and the others in order.\<close>

fun remove_id :: "(addr \<Rightarrow> int) \<Rightarrow> int \<Rightarrow> addr list \<Rightarrow> addr ptr \<times> addr list" where
  "remove_id ids i [] = (None, [])"
| "remove_id ids i (x # xs) =
     (if ids x = i then (Some x, xs)
      else (case remove_id ids i xs of (r, ys) \<Rightarrow> (r, x # ys)))"

lemma remove_id_absent: "\<forall>x \<in> set xs. ids x \<noteq> i \<Longrightarrow> remove_id ids i xs = (None, xs)"
  by (induction xs) auto

lemma remove_id_split:
  "\<forall>y \<in> set ys. ids y \<noteq> i \<Longrightarrow> ids x = i \<Longrightarrow>
     remove_id ids i (ys @ x # zs) = (Some x, ys @ zs)"
  by (induction ys) auto

lemma thread_dequeue_id_rep:
  assumes rep: "tq_rep (q, nx) xs"
  shows "\<exists>r s'. thread_dequeue_id ids i (q, nx) = Some (r, s') \<and>
                r = fst (remove_id ids i xs) \<and> tq_rep s' (snd (remove_id ids i xs))"
proof (cases "\<exists>x \<in> set xs. ids x = i")
  case False
  from rep have "chain nx (tq_head q) xs" by (simp add: tq_rep_def)
  from thread_dequeue_id_skip [OF this, of ids i q None] False
  have "thread_dequeue_id ids i (q, nx) = Some (None, (q, nx))"
    by (auto simp: thread_dequeue_id_def thread_dequeue_id_loop.simps)
  with False rep remove_id_absent [of xs ids i] show ?thesis by auto
next
  case True
  then obtain ys x zs where xs: "xs = ys @ x # zs" and x: "ids x = i"
    and ys: "\<forall>y \<in> set ys. ids y \<noteq> i" by (rule split_list_first_propE) blast
  from rep have d: "distinct xs" by (rule tq_rep_distinct)
  from rep xs have c: "chain nx (tq_head q) (ys @ x # zs)" and t: "tq_tail q = Some (last (x # zs))"
    by (auto simp: tq_rep_def)
  from c have seg: "lseg nx (tq_head q) ys (Some x)" and rest: "chain nx (nx x) zs"
    by (auto dest: chain_split)
  have r: "remove_id ids i xs = (Some x, ys @ zs)" using xs x ys by (simp add: remove_id_split)
  have step: "thread_dequeue_id ids i (q, nx) =
      thread_dequeue_id_loop ids i q nx (Some x) (if ys = [] then None else Some (last ys))"
    using thread_dequeue_id_skip [OF seg ys] by (simp add: thread_dequeue_id_def)
  have lst: "zs \<noteq> [] \<Longrightarrow> last zs \<noteq> x" using d xs by auto
  show ?thesis
  proof (cases ys rule: rev_cases)
    case Nil
    with step x r rest t lst seg show ?thesis
      by (auto simp: thread_dequeue_id_loop.simps tq_rep_def Let_def)
  next
    case (snoc us l)
    with c have "chain (nx(l := nx x)) (tq_head q) (us @ l # zs)"
      by (intro chain_unlink) simp
    with snoc step x r t lst show ?thesis
      by (auto simp: thread_dequeue_id_loop.simps tq_rep_def Let_def)
  qed
qed

section \<open>Properties\<close>

text \<open>
  Draining a thread queue into another one, the loop with which the semaphore code moves
  the threads it wakes to its release queue, keeps their order: the first thread to wait is the
  first to be released.
\<close>

theorem thread_queue_wakes_in_order:
  assumes "tq_rep s []" and "distinct ts"
  shows "fst (deq_many thread_dequeue (Suc (length ts)) (enq_all thread_enqueue ts s)) = ts"
  using assms by (rule tq.fill_then_drain)

theorem thread_queue_wakes_in_order_witness:
  "fst (deq_many thread_dequeue (Suc (length [3, 1, 2 :: addr]))
     (enq_all thread_enqueue [3, 1, 2] (\<lparr>tq_head = None, tq_tail = None\<rparr>, \<lambda>_. None))) = [3, 1, 2]"
  by (rule thread_queue_wakes_in_order) (simp_all add: tq_rep_def)

text \<open>
  \<open>thread_dequeue_id\<close> returns on every well-formed queue, and implements the removal of
  the first thread with the given id from the list of waiting threads; a queue without such a
  thread is left as it was and the result is \<open>NULL\<close>.
\<close>

theorem thread_dequeue_id_refines:
  assumes "tq_rep (q, nx) xs"
  shows "\<exists>s'. thread_dequeue_id ids i (q, nx) = Some (fst (remove_id ids i xs), s') \<and>
              tq_rep s' (snd (remove_id ids i xs))"
  using thread_dequeue_id_rep [OF assms, of ids i] by auto

theorem thread_dequeue_id_refines_witness:
  "\<exists>s'. thread_dequeue_id int 8 (\<lparr>tq_head = Some 6, tq_tail = Some 8\<rparr>, [6 \<mapsto> 8])
          = Some (fst (remove_id int 8 [6, 8]), s') \<and>
        tq_rep s' (snd (remove_id int 8 [6, 8]))"
  by (rule thread_dequeue_id_refines) (simp add: tq_rep_def)

end
