(* ===== verification/Khash.thy ===== *)
theory Khash
  imports Queue
begin

text \<open>
  The generic chained hash table of \<open>khash.c\<close>. Elements are linked into their bucket through
  a field at \<open>next_ptr_offset\<close>; the heap of that field is the \<open>next_heap\<close> of the model. The
  comparison and hash functions are the ones the client registered. The locale \<open>hash_keyed\<close>
  is the contract those functions have to meet; it is interpreted on the functions with which
  \<open>thread.c\<close> sets up the table of all threads.
\<close>

section \<open>Operations\<close>

record 'k hash_table =
  ht_table :: "nat \<Rightarrow> addr ptr"
  ht_size :: nat
  ht_num_elems :: int
  ht_compare :: "(addr \<Rightarrow> 'k \<Rightarrow> int) option"
  ht_hash :: "addr ptr \<Rightarrow> 'k option \<Rightarrow> nat \<Rightarrow> nat"

record hash_iterator =
  hi_ptr :: "addr ptr"
  hi_bucket :: int

text \<open>
  \<open>hash_init\<close> checks the first allocation and not the second one: when the bucket array
  cannot be allocated, the initialisation loop writes through \<open>NULL\<close>.
\<close>

definition hash_init ::
  "nat \<Rightarrow> (addr \<Rightarrow> 'k \<Rightarrow> int) option \<Rightarrow> (addr ptr \<Rightarrow> 'k option \<Rightarrow> nat \<Rightarrow> nat) \<Rightarrow> bool \<Rightarrow> bool \<Rightarrow>
   'k hash_table option outcome" where
  "hash_init table_size compare_func hash_func mem_header mem_table =
     (if \<not> mem_header then Returns None
      else if \<not> mem_table \<and> 0 < table_size then Faults
      else Returns (Some \<lparr>ht_table = (\<lambda>i. None), ht_size = table_size, ht_num_elems = 0,
                          ht_compare = compare_func, ht_hash = hash_func\<rparr>))"

definition hash_insert ::
  "addr \<Rightarrow> 'k hash_table \<times> next_heap \<Rightarrow> int \<times> ('k hash_table \<times> next_heap)" where
  "hash_insert e s =
     (let (t, nx) = s;
          h = ht_hash t (Some e) None (ht_size t);
          nx1 = nx(e := ht_table t h);
          t1 = t\<lparr>ht_table := (ht_table t)(h := Some e), ht_num_elems := ht_num_elems t + 1\<rparr>
      in (0, (t1, nx1)))"

partial_function (option) hash_remove_loop ::
  "addr \<Rightarrow> nat \<Rightarrow> 'k hash_table \<Rightarrow> next_heap \<Rightarrow> addr ptr \<Rightarrow> addr ptr \<Rightarrow>
   (int \<times> ('k hash_table \<times> next_heap)) option" where
  "hash_remove_loop e h t nx i last_i =
     (case i of
        None \<Rightarrow> Some (ERR_GENERAL, (t, nx))
      | Some a \<Rightarrow>
          if a = e then
            (let nx1 = (case last_i of Some l \<Rightarrow> nx(l := nx a) | None \<Rightarrow> nx);
                 t1 = (case last_i of Some l \<Rightarrow> t
                       | None \<Rightarrow> t\<lparr>ht_table := (ht_table t)(h := nx a)\<rparr>)
             in Some (B_NO_ERROR, (t1\<lparr>ht_num_elems := ht_num_elems t1 - 1\<rparr>, nx1)))
          else hash_remove_loop e h t nx (nx a) (Some a))"

definition hash_remove ::
  "addr \<Rightarrow> 'k hash_table \<times> next_heap \<Rightarrow> (int \<times> ('k hash_table \<times> next_heap)) option" where
  "hash_remove e s =
     (let (t, nx) = s; h = ht_hash t (Some e) None (ht_size t)
      in hash_remove_loop e h t nx (ht_table t h) None)"

partial_function (option) hash_search ::
  "(addr \<Rightarrow> bool) \<Rightarrow> next_heap \<Rightarrow> addr ptr \<Rightarrow> addr ptr option" where
  "hash_search found nx i =
     (case i of
        None \<Rightarrow> Some None
      | Some a \<Rightarrow> if found a then Some (Some a) else hash_search found nx (nx a))"

definition hash_find :: "addr \<Rightarrow> 'k hash_table \<times> next_heap \<Rightarrow> addr ptr option" where
  "hash_find e s =
     (let (t, nx) = s; h = ht_hash t (Some e) None (ht_size t)
      in hash_search (\<lambda>a. a = e) nx (ht_table t h))"

definition hash_lookup :: "'k \<Rightarrow> 'k hash_table \<times> next_heap \<Rightarrow> addr ptr option" where
  "hash_lookup k s =
     (let (t, nx) = s
      in case ht_compare t of
           None \<Rightarrow> Some None
         | Some cmp \<Rightarrow>
             (let h = ht_hash t None (Some k) (ht_size t)
              in hash_search (\<lambda>a. cmp a k = 0) nx (ht_table t h)))"

definition hash_rewind :: "hash_iterator \<Rightarrow> hash_iterator" where
  "hash_rewind i = i\<lparr>hi_ptr := None, hi_bucket := -1\<rparr>"

text \<open>\<open>hash_open\<close> takes an iterator or allocates one; \<open>mem\<close> is the result of that allocation.\<close>

definition hash_open :: "hash_iterator option \<Rightarrow> hash_iterator option \<Rightarrow> hash_iterator option" where
  "hash_open i mem =
     (case i of
        Some it \<Rightarrow> Some (hash_rewind it)
      | None \<Rightarrow> (case mem of None \<Rightarrow> None | Some it \<Rightarrow> Some (hash_rewind it)))"

function hash_scan :: "'k hash_table \<Rightarrow> nat \<Rightarrow> nat option" where
  "hash_scan t index =
     (if index < ht_size t then
        (if ht_table t index \<noteq> None then Some index else hash_scan t (Suc index))
      else None)"
  by pat_completeness auto
termination
  by (relation "measure (\<lambda>(t, index). ht_size t - index)") auto

declare hash_scan.simps [simp del]

definition hash_next_bucket :: "'k hash_table \<Rightarrow> hash_iterator \<Rightarrow> hash_iterator" where
  "hash_next_bucket t i =
     (case hash_scan t (nat (hi_bucket i + 1)) of
        Some b \<Rightarrow> i\<lparr>hi_bucket := int b, hi_ptr := ht_table t b\<rparr>
      | None \<Rightarrow> i)"

definition hash_next ::
  "'k hash_table \<times> next_heap \<Rightarrow> hash_iterator \<Rightarrow> addr ptr \<times> hash_iterator" where
  "hash_next s i =
     (let (t, nx) = s;
          i' = (case hi_ptr i of
                  None \<Rightarrow> hash_next_bucket t i
                | Some p \<Rightarrow>
                    (let i1 = i\<lparr>hi_ptr := nx p\<rparr>
                     in if hi_ptr i1 = None then hash_next_bucket t i1 else i1))
      in (hi_ptr i', i'))"

text \<open>
  \<open>hash_hash_str\<close> reads characters up to the terminating zero; \<open>char\<close> is signed on the
  targets of the kernel, so a character is sign-extended before it is mixed in.
\<close>

fun hash_str_loop :: "8 word list \<Rightarrow> 32 word \<Rightarrow> 32 word" where
  "hash_str_loop [] h = h"
| "hash_str_loop (ch # str) h =
     (if ch = 0 then h
      else hash_str_loop str
             (Bit_Operations.xor (push_bit 4 (Bit_Operations.xor h (drop_bit 28 h))) (scast ch)))"

definition hash_hash_str :: "8 word list \<Rightarrow> 32 word" where
  "hash_hash_str str = hash_str_loop str 0"

section \<open>Representation\<close>

text \<open>
  \<open>B b\<close> is the list of elements of bucket \<open>b\<close>. Every element sits in the bucket its hash
  names, the hash stays inside the table, and the element count is the total.
\<close>

definition ht_rep :: "'k hash_table \<times> next_heap \<Rightarrow> (nat \<Rightarrow> addr list) \<Rightarrow> bool" where
  "ht_rep s B \<longleftrightarrow>
     (case s of (t, nx) \<Rightarrow>
        (\<forall>b < ht_size t. chain nx (ht_table t b) (B b) \<and>
            (\<forall>e \<in> set (B b). ht_hash t (Some e) None (ht_size t) = b)) \<and>
        ht_num_elems t = int (length (concat (map B [0..<ht_size t]))))"

lemma ht_repD:
  assumes "ht_rep (t, nx) B" and "b < ht_size t"
  shows "chain nx (ht_table t b) (B b)" and "distinct (B b)"
    and "e \<in> set (B b) \<Longrightarrow> ht_hash t (Some e) None (ht_size t) = b"
  using assms by (auto simp: ht_rep_def dest: chain_distinct)

lemma distinct_buckets:
  assumes "\<And>b. b < n \<Longrightarrow> distinct (B b)" and "\<And>b e. b < n \<Longrightarrow> e \<in> set (B b) \<Longrightarrow> f e = b"
  shows "distinct (concat (map B [0..<n]))"
  using assms
proof (induction n)
  case 0
  then show ?case by simp
next
  case (Suc n)
  have "set (concat (map B [0..<n])) \<inter> set (B n) = {}"
  proof (rule ccontr)
    assume "set (concat (map B [0..<n])) \<inter> set (B n) \<noteq> {}"
    then obtain e b where "b < n" "e \<in> set (B b)" "e \<in> set (B n)" by auto
    with Suc.prems(2) [of b e] Suc.prems(2) [of n e] show False by simp
  qed
  with Suc show ?case by auto
qed

lemma ht_rep_elems_distinct:
  assumes "ht_rep (t, nx) B"
  shows "distinct (concat (map B [0..<ht_size t]))"
  by (rule distinct_buckets [where f = "\<lambda>e. ht_hash t (Some e) None (ht_size t)"])
    (use ht_repD [OF assms] in auto)

lemma hash_init_rep:
  "hash_init n cmp hsh True True = Returns (Some t) \<Longrightarrow> ht_rep (t, nx) (\<lambda>b. [])"
  by (auto simp: hash_init_def ht_rep_def)

lemma length_buckets_upd:
  "b < n \<Longrightarrow> int (length (concat (map (B(b := xs)) [0..<n]))) =
     int (length (concat (map B [0..<n]))) + int (length xs) - int (length (B b))"
proof (induction n)
  case (Suc n)
  show ?case
  proof (cases "b = n")
    case True
    then have "map (B(b := xs)) [0..<n] = map B [0..<n]" by (intro map_cong) auto
    then have "concat (map (B(b := xs)) [0..<n]) = concat (map B [0..<n])" by (rule arg_cong)
    with True show ?thesis by (simp del: fun_upd_apply add: fun_upd_same)
  next
    case False
    with Suc show ?thesis by simp
  qed
qed simp

text \<open>Inserting a fresh element puts it at the front of its bucket.\<close>

lemma hash_insert_rep:
  assumes rep: "ht_rep (t, nx) B" and h: "h = ht_hash t (Some e) None (ht_size t)"
    and hb: "h < ht_size t" and fresh: "e \<notin> set (concat (map B [0..<ht_size t]))"
  shows "ht_rep (snd (hash_insert e (t, nx))) (B(h := e # B h))"
proof -
  let ?t = "t\<lparr>ht_table := (ht_table t)(h := Some e), ht_num_elems := ht_num_elems t + 1\<rparr>"
  let ?nx = "nx(e := ht_table t h)"
  have run: "snd (hash_insert e (t, nx)) = (?t, ?nx)"
    by (simp add: hash_insert_def h [symmetric])
  have buckets: "chain ?nx (ht_table ?t b) ((B(h := e # B h)) b) \<and>
      (\<forall>x \<in> set ((B(h := e # B h)) b). ht_hash ?t (Some x) None (ht_size ?t) = b)"
    if b: "b < ht_size t" for b
  proof -
    from fresh b hb have nin: "e \<notin> set (B b)" "e \<notin> set (B h)" by auto
    show ?thesis
    proof (cases "b = h")
      case True
      then show ?thesis
        using ht_repD(1,3) [OF rep hb] nin h by simp
    next
      case False
      then show ?thesis using ht_repD(1,3) [OF rep b] nin by simp
    qed
  qed
  have "ht_num_elems ?t = int (length (concat (map (B(h := e # B h)) [0..<ht_size ?t])))"
    using length_buckets_upd [OF hb, of B "e # B h"] rep
    by (simp add: ht_rep_def del: fun_upd_apply)
  with buckets show ?thesis unfolding run ht_rep_def by simp
qed

lemma hash_search_skip:
  assumes "lseg nx p ys q" and "\<forall>y \<in> set ys. \<not> found y"
  shows "hash_search found nx p = hash_search found nx q"
  using assms
proof (induction ys arbitrary: p)
  case Nil
  then show ?case by simp
next
  case (Cons y ys)
  then show ?case by (subst hash_search.simps) auto
qed

lemma hash_search_find:
  assumes "chain nx p xs"
  shows "hash_search found nx p = Some (find found xs)"
proof (cases "\<exists>x \<in> set xs. found x")
  case False
  with assms have "hash_search found nx p = hash_search found nx None"
    by (intro hash_search_skip) auto
  moreover from False have "find found xs = None" by (simp add: find_None_iff)
  ultimately show ?thesis by (simp add: hash_search.simps)
next
  case True
  then obtain ys x zs where xs: "xs = ys @ x # zs" "found x" "\<forall>y \<in> set ys. \<not> found y"
    by (rule split_list_first_propE) blast
  with assms have "hash_search found nx p = hash_search found nx (Some x)"
    by (intro hash_search_skip) (auto simp: lseg_append)
  moreover from xs have "find found xs = Some x"
    by (induction ys arbitrary: xs) auto
  ultimately show ?thesis using xs(2) by (simp add: hash_search.simps)
qed

lemma hash_find_rep:
  assumes "ht_rep (t, nx) B" and "ht_hash t (Some e) None (ht_size t) < ht_size t"
  shows "hash_find e (t, nx) =
    Some (if e \<in> set (concat (map B [0..<ht_size t])) then Some e else None)"
proof -
  let ?h = "ht_hash t (Some e) None (ht_size t)"
  have "?h = b" if "b < ht_size t" "e \<in> set (B b)" for b
    using ht_repD(3) [OF assms(1) that] .
  then have iff: "e \<in> set (concat (map B [0..<ht_size t])) \<longleftrightarrow> e \<in> set (B ?h)"
    using assms(2) by fastforce
  have "find (\<lambda>a. a = e) xs = (if e \<in> set xs then Some e else None)" for xs
    by (induction xs) auto
  with hash_search_find [OF ht_repD(1) [OF assms]] iff show ?thesis
    by (simp add: hash_find_def Let_def)
qed

lemma hash_remove_loop_absent:
  assumes "chain nx i ys" and "e \<notin> set ys"
  shows "hash_remove_loop e h t nx i l = Some (ERR_GENERAL, (t, nx))"
  using assms
proof (induction ys arbitrary: i l)
  case Nil
  then show ?case by (simp add: hash_remove_loop.simps)
next
  case (Cons y ys)
  then show ?case by (subst hash_remove_loop.simps) auto
qed

lemma hash_remove_loop_skip:
  assumes "lseg nx i ys (Some e)" and "e \<notin> set ys"
  shows "hash_remove_loop e h t nx i l =
         hash_remove_loop e h t nx (Some e) (if ys = [] then l else Some (last ys))"
  using assms
proof (induction ys arbitrary: i l)
  case Nil
  then show ?case by simp
next
  case (Cons y ys)
  from Cons.prems have i: "i = Some y" and y: "y \<noteq> e" by auto
  have "hash_remove_loop e h t nx i l = hash_remove_loop e h t nx (nx y) (Some y)"
    by (subst hash_remove_loop.simps) (simp add: i y)
  also have "\<dots> = hash_remove_loop e h t nx (Some e) (if ys = [] then Some y else Some (last ys))"
    using Cons by simp
  finally show ?case by simp
qed

lemma hash_remove_rep:
  assumes rep: "ht_rep (t, nx) B" and h: "h = ht_hash t (Some e) None (ht_size t)"
    and hb: "h < ht_size t" and e: "e \<in> set (B h)"
  shows "\<exists>s'. hash_remove e (t, nx) = Some (B_NO_ERROR, s') \<and>
              ht_rep s' (B(h := remove1 e (B h))) \<and>
              ht_size (fst s') = ht_size t \<and> ht_hash (fst s') = ht_hash t \<and>
              ht_compare (fst s') = ht_compare t"
proof -
  from e obtain ys zs where B: "B h = ys @ e # zs" and ey: "e \<notin> set ys"
    by (auto dest: split_list_first)
  from ht_repD(1) [OF rep hb] B have c: "chain nx (ht_table t h) (ys @ e # zs)" by simp
  then have seg: "lseg nx (ht_table t h) ys (Some e)" and rest: "chain nx (nx e) zs"
    by (auto dest: chain_split)
  let ?l = "if ys = [] then None else Some (last ys)"
  let ?nx = "case ?l of Some l \<Rightarrow> nx(l := nx e) | None \<Rightarrow> nx"
  let ?tab = "case ?l of Some l \<Rightarrow> ht_table t | None \<Rightarrow> (ht_table t)(h := nx e)"
  let ?t = "t\<lparr>ht_table := ?tab, ht_num_elems := ht_num_elems t - 1\<rparr>"
  have run: "hash_remove e (t, nx) = Some (B_NO_ERROR, (?t, ?nx))"
    using hash_remove_loop_skip [OF seg ey, of h t None]
    by (cases "ys = []")
      (simp_all add: hash_remove_def h [symmetric] hash_remove_loop.simps)
  have "chain ?nx (?tab h) (ys @ zs)"
  proof (cases ys rule: rev_cases)
    case Nil
    with rest show ?thesis by simp
  next
    case (snoc us l)
    with c have "chain (nx(l := nx e)) (ht_table t h) (us @ l # zs)"
      by (intro chain_unlink) simp
    with snoc show ?thesis by simp
  qed
  moreover have "chain ?nx (?tab b) (B b)" if "b < ht_size t" "b \<noteq> h" for b
  proof -
    have "set (B b) \<inter> set (B h) = {}" using that hb ht_repD(3) [OF rep] by blast
    with B that ht_repD(1) [OF rep that(1)] show ?thesis by (cases ys rule: rev_cases) auto
  qed
  ultimately have "ht_rep (?t, ?nx) (B(h := remove1 e (B h)))"
    using rep hb B ey length_buckets_upd [OF hb, of B "ys @ zs"]
    by (auto simp: ht_rep_def)
  with run show ?thesis by simp
qed

section \<open>Iteration\<close>

text \<open>
  \<open>iter_rest s B i\<close> is what is still to come for an iterator: the rest of its bucket after
  the current element, then the later buckets.
\<close>

definition iter_rest ::
  "'k hash_table \<times> next_heap \<Rightarrow> (nat \<Rightarrow> addr list) \<Rightarrow> hash_iterator \<Rightarrow> addr list \<Rightarrow> bool" where
  "iter_rest s B i R \<longleftrightarrow>
     -1 \<le> hi_bucket i \<and>
     (\<exists>ys. R = ys @ concat (map B [nat (hi_bucket i + 1)..<ht_size (fst s)]) \<and>
           (case hi_ptr i of None \<Rightarrow> ys = [] | Some p \<Rightarrow> chain (snd s) (snd s p) ys))"

lemma iter_rest_rewind: "iter_rest s B (hash_rewind i) (concat (map B [0..<ht_size (fst s)]))"
  by (simp add: iter_rest_def hash_rewind_def)

lemma hash_scan_rep:
  assumes "ht_rep (t, nx) B"
  shows "case hash_scan t k of
           None \<Rightarrow> concat (map B [k..<ht_size t]) = []
         | Some b \<Rightarrow> b < ht_size t \<and> B b \<noteq> [] \<and>
             concat (map B [k..<ht_size t]) = B b @ concat (map B [Suc b..<ht_size t])"
  using assms
proof (induction t k rule: hash_scan.induct)
  case (1 t k)
  note rep = "1.prems"
  show ?case
  proof (cases "k < ht_size t")
    case False
    then show ?thesis by (simp add: hash_scan.simps [of t k])
  next
    case True
    then have split: "concat (map B [k..<ht_size t]) = B k @ concat (map B [Suc k..<ht_size t])"
      by (simp add: upt_conv_Cons)
    from ht_repD(1) [OF rep True] have empty: "ht_table t k = None \<longleftrightarrow> B k = []"
      by (cases "B k") auto
    show ?thesis
    proof (cases "ht_table t k = None")
      case False
      with True empty split show ?thesis by (auto simp: hash_scan.simps [of t k])
    next
      case None: True
      with True have "hash_scan t k = hash_scan t (Suc k)" by (simp add: hash_scan.simps [of t k])
      with "1.IH" [OF True] rep None empty split show ?thesis by (auto split: option.splits)
    qed
  qed
qed


lemma hash_next_bucket_rest:
  assumes rep: "ht_rep (t, nx) B" and b: "-1 \<le> hi_bucket i" and p: "hi_ptr i = None"
    and R: "R = concat (map B [nat (hi_bucket i + 1)..<ht_size t])"
  shows "hi_ptr (hash_next_bucket t i) = (case R of [] \<Rightarrow> None | x # _ \<Rightarrow> Some x) \<and>
         iter_rest (t, nx) B (hash_next_bucket t i) (tl R)"
proof (cases "hash_scan t (nat (hi_bucket i + 1))")
  case None
  with hash_scan_rep [OF rep, of "nat (hi_bucket i + 1)"] R have "R = []" by simp
  with None b p R show ?thesis by (simp add: hash_next_bucket_def iter_rest_def)
next
  case (Some k)
  with hash_scan_rep [OF rep, of "nat (hi_bucket i + 1)"] R
  have k: "k < ht_size t" "B k \<noteq> []" "R = B k @ concat (map B [Suc k..<ht_size t])" by auto
  then obtain x xs where x: "B k = x # xs" by (cases "B k") auto
  with ht_repD(1) [OF rep k(1)] have c: "ht_table t k = Some x" "chain nx (nx x) xs" by auto
  have "nat (int k + 1) = Suc k" by simp
  with Some k x c show ?thesis by (simp add: hash_next_bucket_def iter_rest_def)
qed

lemma hash_next_rest:
  assumes rep: "ht_rep (t, nx) B" and it: "iter_rest (t, nx) B i R"
  shows "fst (hash_next (t, nx) i) = (case R of [] \<Rightarrow> None | x # _ \<Rightarrow> Some x) \<and>
         iter_rest (t, nx) B (snd (hash_next (t, nx) i)) (tl R)"
proof (cases "hi_ptr i")
  case None
  with it have "-1 \<le> hi_bucket i" "R = concat (map B [nat (hi_bucket i + 1)..<ht_size t])"
    by (auto simp: iter_rest_def)
  from hash_next_bucket_rest [OF rep this(1) None this(2)] None show ?thesis
    by (simp add: hash_next_def)
next
  case (Some p)
  with it obtain ys where ys: "chain nx (nx p) ys" and b: "-1 \<le> hi_bucket i"
    and R: "R = ys @ concat (map B [nat (hi_bucket i + 1)..<ht_size t])"
    by (auto simp: iter_rest_def)
  show ?thesis
  proof (cases ys)
    case Nil
    with ys have "nx p = None" by simp
    with Nil R b hash_next_bucket_rest [OF rep, of "i\<lparr>hi_ptr := None\<rparr>" R] Some show ?thesis
      by (simp add: hash_next_def)
  next
    case (Cons z zs)
    with ys R b Some show ?thesis by (auto simp: hash_next_def iter_rest_def)
  qed
qed

text \<open>The loop with which the kernel walks a table: \<open>hash_next\<close> until it returns \<open>NULL\<close>.\<close>

fun hash_walk :: "nat \<Rightarrow> 'k hash_table \<times> next_heap \<Rightarrow> hash_iterator \<Rightarrow> addr list option" where
  "hash_walk 0 s i = None"
| "hash_walk (Suc fuel) s i =
     (case hash_next s i of
        (None, _) \<Rightarrow> Some []
      | (Some x, i') \<Rightarrow> map_option ((#) x) (hash_walk fuel s i'))"

lemma hash_walk_rest:
  assumes "ht_rep (t, nx) B" and "iter_rest (t, nx) B i R" and "length R < fuel"
  shows "hash_walk fuel (t, nx) i = Some R"
  using assms(2,3)
proof (induction R arbitrary: i fuel)
  case Nil
  then obtain f where "fuel = Suc f" by (cases fuel) auto
  with hash_next_rest [OF assms(1) Nil.prems(1)] show ?case by (auto split: prod.splits)
next
  case (Cons x R)
  then obtain f where f: "fuel = Suc f" by (cases fuel) auto
  from hash_next_rest [OF assms(1) Cons.prems(1)] obtain i' where
    "hash_next (t, nx) i = (Some x, i')" "iter_rest (t, nx) B i' R"
    by (cases "hash_next (t, nx) i") auto
  with Cons.IH [of i' f] Cons.prems(2) f show ?case by simp
qed

definition elems :: "(nat \<Rightarrow> addr list) \<Rightarrow> nat \<Rightarrow> addr set" where
  "elems B n = (\<Union>b < n. set (B b))"

lemma elems_concat: "set (concat (map B [0..<n])) = elems B n"
  by (auto simp: elems_def)

lemma in_elems: "e \<in> elems B n \<longleftrightarrow> (\<exists>b < n. e \<in> set (B b))"
  by (auto simp: elems_def)

lemma elems_insert: "h < n \<Longrightarrow> elems (B(h := e # B h)) n = insert e (elems B n)"
  by (auto simp: elems_def split: if_splits)

lemma elems_remove:
  assumes "h < n" and "\<And>b. b < n \<Longrightarrow> e \<in> set (B b) \<Longrightarrow> b = h" and "distinct (B h)"
  shows "elems (B(h := remove1 e (B h))) n = elems B n - {e}"
proof -
  have "x \<in> set ((B(h := remove1 e (B h))) b) \<longleftrightarrow> x \<in> set (B b) \<and> x \<noteq> e" if "b < n" for x b
    using assms(2) [OF that] assms(3) by auto
  then show ?thesis unfolding elems_def by blast
qed

lemma elems_empty [simp]: "elems (\<lambda>_. []) n = {}"
  by (simp add: elems_def)

section \<open>Tables keyed by their elements\<close>

text \<open>
  What a client's functions must satisfy for the table to be a dictionary: the comparison
  decides whether an element has a key, hashing an element and hashing its key agree, and the
  hash stays below the number of buckets.
\<close>

locale hash_keyed =
  fixes key_of :: "addr \<Rightarrow> 'k"
    and cmp :: "addr \<Rightarrow> 'k \<Rightarrow> int"
    and hsh :: "addr ptr \<Rightarrow> 'k option \<Rightarrow> nat \<Rightarrow> nat"
    and n :: nat
  assumes cmp_zero: "cmp e k = 0 \<longleftrightarrow> key_of e = k"
    and hash_agree: "hsh (Some e) None n = hsh None (Some (key_of e)) n"
    and hash_range: "hsh None (Some k) n < n"
begin

definition keyed :: "'k hash_table \<times> next_heap \<Rightarrow> (nat \<Rightarrow> addr list) \<Rightarrow> bool" where
  "keyed s B \<longleftrightarrow>
     ht_rep s B \<and> ht_size (fst s) = n \<and> ht_compare (fst s) = Some cmp \<and>
     ht_hash (fst s) = hsh \<and> inj_on key_of (elems B n)"

lemma keyedD:
  assumes "keyed (t, nx) B"
  shows "ht_rep (t, nx) B" and "ht_size t = n" and "ht_compare t = Some cmp"
    and "ht_hash t = hsh" and "inj_on key_of (elems B n)"
  using assms by (simp_all add: keyed_def)

lemma keyed_bucket:
  assumes "keyed (t, nx) B" and "b < n" and "e \<in> set (B b)"
  shows "b = hsh None (Some (key_of e)) n"
  using ht_repD(3) [OF keyedD(1) [OF assms(1)], of b e] keyedD [OF assms(1)] assms(2,3)
  by (simp add: hash_agree)

lemma lookup_found:
  assumes s: "keyed (t, nx) B" and e: "e \<in> elems B n"
  shows "hash_lookup (key_of e) (t, nx) = Some (Some e)"
proof -
  let ?h = "hsh None (Some (key_of e)) n"
  from e obtain b where "b < n" "e \<in> set (B b)" by (auto simp: in_elems)
  with keyed_bucket [OF s] have eb: "e \<in> set (B ?h)" by metis
  have "a = e" if "a \<in> set (B ?h)" "key_of a = key_of e" for a
  proof -
    from that(1) hash_range have "a \<in> elems B n" by (auto simp: in_elems)
    with keyedD(5) [OF s] that(2) e show ?thesis by (auto dest: inj_onD)
  qed
  with eb have "find (\<lambda>a. cmp a (key_of e) = 0) (B ?h) = Some e"
    by (intro find_unique) (auto simp: cmp_zero)
  with hash_search_find [OF ht_repD(1) [OF keyedD(1) [OF s]], of ?h "\<lambda>a. cmp a (key_of e) = 0"]
  show ?thesis using keyedD [OF s] hash_range by (simp add: hash_lookup_def)
qed

lemma lookup_missing:
  assumes s: "keyed (t, nx) B" and k: "k \<notin> key_of ` elems B n"
  shows "hash_lookup k (t, nx) = Some None"
proof -
  let ?h = "hsh None (Some k) n"
  have "find (\<lambda>a. cmp a k = 0) (B ?h) = None"
    using k hash_range [of k] by (force simp: find_None_iff cmp_zero in_elems)
  with hash_search_find [OF ht_repD(1) [OF keyedD(1) [OF s]], of ?h "\<lambda>a. cmp a k = 0"]
  show ?thesis using keyedD [OF s] hash_range by (simp add: hash_lookup_def)
qed

lemma insert_keyed:
  assumes s: "keyed (t, nx) B" and k: "key_of e \<notin> key_of ` elems B n"
  defines "h \<equiv> hsh None (Some (key_of e)) n"
  shows "keyed (snd (hash_insert e (t, nx))) (B(h := e # B h))"
    and "elems (B(h := e # B h)) n = insert e (elems B n)"
proof -
  have hn: "h < n" by (simp add: h_def hash_range)
  show elems: "elems (B(h := e # B h)) n = insert e (elems B n)"
    using hn by (rule elems_insert)
  from k have fresh: "e \<notin> set (concat (map B [0..<ht_size t]))"
    unfolding elems_concat keyedD(2) [OF s] by blast
  have "ht_rep (snd (hash_insert e (t, nx))) (B(h := e # B h))"
    by (rule hash_insert_rep [OF keyedD(1) [OF s] _ _ fresh])
      (use hn keyedD [OF s] in \<open>simp_all add: h_def hash_agree\<close>)
  moreover have "inj_on key_of (insert e (elems B n))"
    using k keyedD(5) [OF s] by auto
  ultimately show "keyed (snd (hash_insert e (t, nx))) (B(h := e # B h))"
    using keyedD [OF s] elems by (simp add: keyed_def hash_insert_def Let_def del: fun_upd_apply)
qed

lemma lookup_after_insert:
  assumes s: "keyed (t, nx) B" and k: "key_of e \<notin> key_of ` elems B n"
  shows "hash_lookup (key_of e) (snd (hash_insert e (t, nx))) = Some (Some e)"
    and "k' \<noteq> key_of e \<Longrightarrow> hash_lookup k' (snd (hash_insert e (t, nx))) = hash_lookup k' (t, nx)"
proof -
  let ?E = "elems B n"
  obtain t' nx' where s': "snd (hash_insert e (t, nx)) = (t', nx')" by (cases "snd (hash_insert e (t, nx))")
  note new = insert_keyed [OF s k, unfolded s']
  from lookup_found [OF new(1)] new(2)
  show "hash_lookup (key_of e) (snd (hash_insert e (t, nx))) = Some (Some e)"
    by (metis insertI1 s')
  assume k': "k' \<noteq> key_of e"
  show "hash_lookup k' (snd (hash_insert e (t, nx))) = hash_lookup k' (t, nx)"
  proof (cases "k' \<in> key_of ` ?E")
    case True
    then obtain a where a: "a \<in> ?E" "k' = key_of a" by auto
    with lookup_found [OF s a(1)] lookup_found [OF new(1)] new(2) show ?thesis
      by (metis insertI2 s')
  next
    case False
    with lookup_missing [OF s False] lookup_missing [OF new(1)] new(2) k' show ?thesis
      by (metis image_insert insertE s')
  qed
qed

lemma remove_keyed_rep:
  assumes s: "keyed (t, nx) B" and e: "e \<in> elems B n"
  shows "\<exists>t' nx' B'. hash_remove e (t, nx) = Some (B_NO_ERROR, (t', nx')) \<and>
              keyed (t', nx') B' \<and> elems B' n = elems B n - {e}"
proof -
  let ?h = "hsh None (Some (key_of e)) n" and ?E = "elems B n"
  from e obtain b where "b < n" "e \<in> set (B b)" by (auto simp: in_elems)
  with keyed_bucket [OF s] have eb: "e \<in> set (B ?h)" by metis
  obtain t' nx' where run: "hash_remove e (t, nx) = Some (B_NO_ERROR, (t', nx'))"
    and rep: "ht_rep (t', nx') (B(?h := remove1 e (B ?h)))"
    and t': "ht_size t' = ht_size t" "ht_hash t' = ht_hash t" "ht_compare t' = ht_compare t"
    using hash_remove_rep [OF keyedD(1) [OF s], of ?h e] keyedD [OF s] hash_range eb
    by (auto simp: hash_agree)
  have dist: "distinct (B ?h)"
    using ht_repD(2) [OF keyedD(1) [OF s]] keyedD(2) [OF s] hash_range by simp
  have elems: "elems (B(?h := remove1 e (B ?h))) n = ?E - {e}"
    using keyed_bucket [OF s] hash_range dist by (intro elems_remove) auto
  have "inj_on key_of (?E - {e})" using keyedD(5) [OF s] by (rule inj_on_diff)
  then have "keyed (t', nx') (B(?h := remove1 e (B ?h)))"
    using rep t' keyedD [OF s] elems by (simp add: keyed_def elems_concat del: fun_upd_apply)
  with run elems show ?thesis by blast
qed

lemma remove_keyed:
  assumes s: "keyed (t, nx) B" and e: "e \<in> elems B n"
  shows "\<exists>s'. hash_remove e (t, nx) = Some (B_NO_ERROR, s') \<and>
              hash_lookup (key_of e) s' = Some None \<and>
              (\<forall>k. k \<noteq> key_of e \<longrightarrow> hash_lookup k s' = hash_lookup k (t, nx))"
proof -
  let ?E = "elems B n"
  from remove_keyed_rep [OF s e] obtain t' nx' B' where run: "hash_remove e (t, nx) = Some (B_NO_ERROR, (t', nx'))"
    and new: "keyed (t', nx') B'" and elems: "elems B' n = ?E - {e}"
    by blast
  have "key_of e \<notin> key_of ` (?E - {e})"
    using keyedD(5) [OF s] e by (auto dest: inj_onD)
  with lookup_missing [OF new] elems have gone: "hash_lookup (key_of e) (t', nx') = Some None"
    by simp
  have "hash_lookup k (t', nx') = hash_lookup k (t, nx)" if k: "k \<noteq> key_of e" for k
  proof (cases "k \<in> key_of ` ?E")
    case True
    then obtain a where a: "a \<in> ?E" "k = key_of a" by auto
    with k have "a \<in> ?E - {e}" by auto
    with a lookup_found [OF s a(1)] lookup_found [OF new] elems show ?thesis by metis
  next
    case False
    with lookup_missing [OF s False] lookup_missing [OF new, of k] elems show ?thesis by auto
  qed
  with run gone show ?thesis by blast
qed

text \<open>The dictionary a table stands for, without its buckets: the set of its elements.\<close>

definition indexes :: "'k hash_table \<times> next_heap \<Rightarrow> addr set \<Rightarrow> bool" where
  "indexes s E \<longleftrightarrow> (\<exists>B. keyed s B \<and> elems B n = E)"

lemma indexes_finite: "indexes s E \<Longrightarrow> finite E"
  unfolding indexes_def elems_def by auto

lemma indexes_functions: "indexes (t, nx) E \<Longrightarrow> t\<lparr>ht_compare := Some cmp, ht_hash := hsh\<rparr> = t"
  by (auto simp: indexes_def keyed_def intro!: hash_table.equality)

lemma indexes_inj: "indexes s E \<Longrightarrow> inj_on key_of E"
  by (cases s) (auto simp: indexes_def dest: keyedD(5))

lemma indexes_found: "indexes s E \<Longrightarrow> e \<in> E \<Longrightarrow> hash_lookup (key_of e) s = Some (Some e)"
  by (cases s) (auto simp: indexes_def intro: lookup_found)

lemma indexes_missing: "indexes s E \<Longrightarrow> k \<notin> key_of ` E \<Longrightarrow> hash_lookup k s = Some None"
  by (cases s) (auto simp: indexes_def intro: lookup_missing)

lemma indexes_insert:
  assumes "indexes s E" and "key_of e \<notin> key_of ` E"
  shows "indexes (snd (hash_insert e s)) (insert e E)"
proof -
  from assms(1) obtain t nx B where s: "s = (t, nx)" "keyed (t, nx) B" "elems B n = E"
    by (cases s) (auto simp: indexes_def)
  from insert_keyed [OF s(2), of e] assms(2) s(1,3) show ?thesis by (auto simp: indexes_def)
qed

lemma indexes_remove:
  assumes "indexes s E" and "e \<in> E"
  shows "\<exists>s'. hash_remove e s = Some (B_NO_ERROR, s') \<and> indexes s' (E - {e})"
proof -
  from assms(1) obtain t nx B where s: "s = (t, nx)" "keyed (t, nx) B" "elems B n = E"
    by (cases s) (auto simp: indexes_def)
  from remove_keyed_rep [OF s(2), of e] assms(2) s(1,3) show ?thesis by (auto simp: indexes_def)
qed

lemma indexes_empty:
  "indexes (\<lparr>ht_table = (\<lambda>i. None), ht_size = n, ht_num_elems = 0, ht_compare = Some cmp, ht_hash = hsh\<rparr>, nx) {}"
  unfolding indexes_def by (rule exI [of _ "\<lambda>_. []"]) (simp add: keyed_def ht_rep_def)

end

text \<open>The functions read the keys in memory; only those of the elements in the table matter.\<close>

lemma indexes_transfer:
  assumes h: "hash_keyed key cmp hsh n" and h': "hash_keyed key' cmp' hsh' n"
    and s: "hash_keyed.indexes key cmp hsh n (t\<lparr>ht_compare := Some cmp, ht_hash := hsh\<rparr>, nx) E"
    and same: "\<And>e. e \<in> E \<Longrightarrow> key' e = key e" "\<And>k. hsh' None (Some k) n = hsh None (Some k) n"
  shows "hash_keyed.indexes key' cmp' hsh' n (t\<lparr>ht_compare := Some cmp', ht_hash := hsh'\<rparr>, nx) E"
proof -
  note K = hash_keyed.keyed_def [OF h] and K' = hash_keyed.keyed_def [OF h']
  from s obtain B where B: "hash_keyed.keyed key cmp hsh n (t\<lparr>ht_compare := Some cmp, ht_hash := hsh\<rparr>, nx) B" "elems B n = E"
    by (auto simp: hash_keyed.indexes_def [OF h])
  have eq: "hsh' (Some e) None n = hsh (Some e) None n" if "e \<in> E" for e
    using same(1) [OF that] same(2) hash_keyed.hash_agree [OF h] hash_keyed.hash_agree [OF h'] by metis
  have "e \<in> E" if "b < n" "e \<in> set (B b)" for b e
    using B(2) that by (auto simp: in_elems)
  with B(1) eq have "ht_rep (t\<lparr>ht_compare := Some cmp', ht_hash := hsh'\<rparr>, nx) B"
    by (auto simp: K ht_rep_def)
  moreover have "inj_on key' E" using B by (simp add: K inj_on_def same(1))
  ultimately have "hash_keyed.keyed key' cmp' hsh' n (t\<lparr>ht_compare := Some cmp', ht_hash := hsh'\<rparr>, nx) B"
    using B by (simp add: K K')
  with B(2) show ?thesis by (auto simp: hash_keyed.indexes_def [OF h'])
qed

text \<open>The table of all threads: keyed by thread id, with 15 buckets (\<open>thread.c\<close>).\<close>

definition thread_struct_compare :: "(addr \<Rightarrow> int) \<Rightarrow> addr \<Rightarrow> int \<Rightarrow> int" where
  "thread_struct_compare ids t key = (if ids t = key then 0 else 1)"

text \<open>
  The ids are reduced as unsigned numbers, because the range is unsigned. With neither a thread
  nor a key the code reads through \<open>NULL\<close>; \<open>khash.c\<close> always passes one of them.
\<close>

definition thread_struct_hash :: "(addr \<Rightarrow> int) \<Rightarrow> addr ptr \<Rightarrow> int option \<Rightarrow> nat \<Rightarrow> nat" where
  "thread_struct_hash ids t key rng =
     (case t of
        Some a \<Rightarrow> nat (ids a mod 2 ^ 32) mod rng
      | None \<Rightarrow> (case key of Some k \<Rightarrow> nat (k mod 2 ^ 32) mod rng | None \<Rightarrow> 0))"

definition thread_get_thread_struct_locked ::
  "int \<Rightarrow> int hash_table \<times> next_heap \<Rightarrow> addr ptr option" where
  "thread_get_thread_struct_locked i thread_hash = hash_lookup i thread_hash"

interpretation threads: hash_keyed ids "thread_struct_compare ids" "thread_struct_hash ids" 15
  for ids :: "addr \<Rightarrow> int"
  by unfold_locales (auto simp: thread_struct_compare_def thread_struct_hash_def)

text \<open>The thread table over an empty heap, as \<open>thread_init\<close> creates it.\<close>

definition thread_table :: "(addr \<Rightarrow> int) \<Rightarrow> addr list \<Rightarrow> int hash_table \<times> next_heap" where
  "thread_table ids ts =
     foldr (\<lambda>t s. snd (hash_insert t s)) ts
       (\<lparr>ht_table = (\<lambda>i. None), ht_size = 15, ht_num_elems = 0,
         ht_compare = Some (thread_struct_compare ids), ht_hash = thread_struct_hash ids\<rparr>,
        \<lambda>_. None)"

lemma thread_table_keyed:
  assumes "distinct (map ids ts)"
  shows "\<exists>B. threads.keyed ids (thread_table ids ts) B \<and>
             elems B 15 = set ts"
  using assms
proof (induction ts)
  case Nil
  have "threads.keyed ids (thread_table ids []) (\<lambda>_. [])"
    by (simp add: threads.keyed_def thread_table_def ht_rep_def)
  then show ?case by (intro exI [of _ "\<lambda>_. []"]) simp
next
  case (Cons t ts)
  then obtain B where B: "threads.keyed ids (thread_table ids ts) B"
    "elems B 15 = set ts" by auto
  from Cons.prems B(2) have fresh: "ids t \<notin> ids ` elems B 15" by simp
  obtain tb nx where tab: "thread_table ids ts = (tb, nx)" by (cases "thread_table ids ts")
  have eq: "thread_table ids (t # ts) = snd (hash_insert t (tb, nx))"
    using tab by (simp add: thread_table_def)
  note new = threads.insert_keyed [OF B(1) [unfolded tab] fresh]
  show ?case unfolding eq
    by (intro exI conjI, rule new(1), subst new(2)) (simp add: B(2))
qed

section \<open>Properties\<close>

text \<open>
  (C3) The thread table is a dictionary from ids to threads: for threads with distinct ids,
  looking an id up always returns, with the thread that has it, or with \<open>NULL\<close> when no
  thread has it.
\<close>

theorem thread_lookup_correct:
  assumes "distinct (map ids ts)"
  shows "thread_get_thread_struct_locked i (thread_table ids ts) = Some (find (\<lambda>t. ids t = i) ts)"
proof -
  obtain B where B: "threads.keyed ids (thread_table ids ts) B"
    "elems B 15 = set ts" using thread_table_keyed [OF assms] by blast
  obtain tb nx where tab: "thread_table ids ts = (tb, nx)" by (cases "thread_table ids ts")
  show ?thesis
  proof (cases "find (\<lambda>t. ids t = i) ts")
    case None
    with B(2) have "i \<notin> ids ` elems B 15" by (auto simp: find_None_iff)
    from threads.lookup_missing [OF B(1) [unfolded tab] this] None tab show ?thesis
      by (simp add: thread_get_thread_struct_locked_def)
  next
    case (Some t)
    then have "t \<in> set ts" "ids t = i" by (auto simp: find_Some_iff)
    with threads.lookup_found [OF B(1) [unfolded tab], of t] B(2) Some tab show ?thesis
      by (simp add: thread_get_thread_struct_locked_def)
  qed
qed

theorem thread_lookup_correct_witness:
  "thread_get_thread_struct_locked 16 (thread_table int [31, 16, 2])
     = Some (find (\<lambda>t. int t = 16) [31, 16, 2])"
  by (rule thread_lookup_correct) simp

text \<open>
  Removing a thread from the table always returns and succeeds exactly when the thread is
  there; afterwards its id is unknown and every other id still finds its thread.
\<close>

theorem thread_remove_correct:
  assumes "distinct (map ids ts)" and "t \<in> set ts"
  shows "\<exists>s'. hash_remove t (thread_table ids ts) = Some (B_NO_ERROR, s') \<and>
              thread_get_thread_struct_locked (ids t) s' = Some None \<and>
              (\<forall>i. i \<noteq> ids t \<longrightarrow>
                 thread_get_thread_struct_locked i s' =
                 thread_get_thread_struct_locked i (thread_table ids ts))"
proof -
  obtain B where B: "threads.keyed ids (thread_table ids ts) B"
    "elems B 15 = set ts" using thread_table_keyed [OF assms(1)] by blast
  obtain tb nx where tab: "thread_table ids ts = (tb, nx)" by (cases "thread_table ids ts")
  from threads.remove_keyed [OF B(1) [unfolded tab], of t] B(2) assms(2) tab
  show ?thesis by (simp add: thread_get_thread_struct_locked_def)
qed

theorem thread_remove_correct_witness:
  "\<exists>s'. hash_remove 16 (thread_table int [31, 16, 2]) = Some (B_NO_ERROR, s') \<and>
        thread_get_thread_struct_locked (int 16) s' = Some None \<and>
        (\<forall>i. i \<noteq> int 16 \<longrightarrow>
           thread_get_thread_struct_locked i s' =
           thread_get_thread_struct_locked i (thread_table int [31, 16, 2]))"
  by (rule thread_remove_correct) simp_all

text \<open>
  Walking a table with a rewound iterator yields every element exactly once, bucket by
  bucket, and then \<open>NULL\<close>; one step more than the number of elements is enough.
\<close>

theorem hash_walk_visits_each_once:
  assumes "ht_rep (t, nx) B"
  shows "hash_walk (Suc (nat (ht_num_elems t))) (t, nx) (hash_rewind i)
           = Some (concat (map B [0..<ht_size t])) \<and>
         distinct (concat (map B [0..<ht_size t]))"
proof -
  have "length (concat (map B [0..<ht_size t])) < Suc (nat (ht_num_elems t))"
    using assms by (simp add: ht_rep_def)
  with hash_walk_rest [OF assms] iter_rest_rewind [of "(t, nx)" B i]
  show ?thesis using ht_rep_elems_distinct [OF assms] by (auto simp del: hash_walk.simps)
qed

theorem hash_walk_visits_each_once_witness:
  "\<exists>(t :: int hash_table) nx B. hash_walk (Suc (nat (ht_num_elems t))) (t, nx) (hash_rewind \<lparr>hi_ptr = Some 9, hi_bucket = 3\<rparr>)
             = Some (concat (map B [0..<ht_size t])) \<and>
            distinct (concat (map B [0..<ht_size t])) \<and>
            set (concat (map B [0..<ht_size t])) = {31, 16, 2}"
proof -
  have "distinct (map int [31, 16, 2])" by simp
  from thread_table_keyed [OF this] obtain B where
    B: "threads.keyed int (thread_table int [31, 16, 2]) B"
      "elems B 15 = {31, 16, 2}" by auto
  obtain t nx where tab: "thread_table int [31, 16, 2] = (t, nx)"
    by (cases "thread_table int [31, 16, 2]")
  from B(1) tab have "ht_rep (t, nx) B" "ht_size t = 15"
    by (auto dest: threads.keyedD)
  with hash_walk_visits_each_once [OF this(1), of "\<lparr>hi_ptr = Some 9, hi_bucket = 3\<rparr>"] B(2)
  show ?thesis
    by (intro exI [of _ t] exI [of _ nx] exI [of _ B])
      (simp add: elems_concat del: hash_walk.simps set_concat)
qed

end
