(* ===== verification/Fd.thy ===== *)
theory Fd
  imports Prelude
begin

text \<open>
  File descriptors: \<open>fd.c\<close> and the parts of \<open>vfs.c\<close> that work on descriptor tables
  (\<open>vfs_dup\<close>, \<open>vfs_dup2\<close>, \<open>vfs_resize_fd_table\<close> and the VFS's own operation table). A
  descriptor is a heap object with a reference count; a process has an I/O context with a
  table of descriptor pointers and a mutex. The operations a descriptor dispatches to are a
  table of optional functions; the file systems behind them see only the rest of the world
  (\<open>'w\<close>), through the parameter \<open>calls\<close>. The locale \<open>fd_provider\<close> is the contract between
  the descriptor layer and such a table, and the VFS's table is shown to meet it.
\<close>

section \<open>State\<close>

type_synonym fdp = nat
type_synonym byte = "8 word"

record fdesc =
  fd_type :: int
  fd_refs :: int
  fd_opsp :: nat
  fd_vnode :: "nat ptr"
  fd_cookie :: nat

record io_context =
  ioc_size :: int
  ioc_used :: int
  ioc_fds :: "fdp ptr list"
  ioc_locked :: bool

text \<open>
  \<open>cur_ctx\<close> is the context of the current thread's process, \<open>kern_ctx\<close> the kernel process's;
  they are the same when a kernel thread runs. A freed descriptor is \<open>None\<close> in the heap.
\<close>

record 'w fdstate =
  fd_heap :: "fdp \<Rightarrow> fdesc option"
  fd_ctxs :: "io_context list"
  cur_ctx :: nat
  kern_ctx :: nat
  fd_world :: 'w

record 'w fd_ops =
  op_read :: "(fdp \<Rightarrow> nat \<Rightarrow> int \<Rightarrow> nat \<Rightarrow> 'w fdstate \<Rightarrow> ((int \<times> nat) \<times> 'w fdstate) outcome) option"
  op_write :: "(fdp \<Rightarrow> nat \<Rightarrow> int \<Rightarrow> nat \<Rightarrow> 'w fdstate \<Rightarrow> ((int \<times> nat) \<times> 'w fdstate) outcome) option"
  op_ioctl :: "(fdp \<Rightarrow> nat \<Rightarrow> nat \<Rightarrow> nat \<Rightarrow> 'w fdstate \<Rightarrow> (int \<times> 'w fdstate) outcome) option"
  op_read_dir :: "(fdp \<Rightarrow> nat \<Rightarrow> nat \<Rightarrow> 'w fdstate \<Rightarrow> ((int \<times> nat) \<times> 'w fdstate) outcome) option"
  op_rewind_dir :: "(fdp \<Rightarrow> 'w fdstate \<Rightarrow> (int \<times> 'w fdstate) outcome) option"
  op_stat :: "(fdp \<Rightarrow> 'w fdstate \<Rightarrow> ((int \<times> byte list) \<times> 'w fdstate) outcome) option"
  op_close :: "(fdp \<Rightarrow> int \<Rightarrow> nat \<Rightarrow> 'w fdstate \<Rightarrow> (int \<times> 'w fdstate) outcome) option"
  op_free :: "(fdp \<Rightarrow> 'w fdstate \<Rightarrow> (unit \<times> 'w fdstate) outcome) option"

definition get_current_io_context :: "bool \<Rightarrow> 'w fdstate \<Rightarrow> nat" where
  "get_current_io_context in_kernel s = (if in_kernel then kern_ctx s else cur_ctx s)"

definition ctx :: "'w fdstate \<Rightarrow> nat \<Rightarrow> io_context" where
  "ctx s c = fd_ctxs s ! c"

definition set_ctx :: "nat \<Rightarrow> io_context \<Rightarrow> 'w fdstate \<Rightarrow> 'w fdstate" where
  "set_ctx c x s = s\<lparr>fd_ctxs := (fd_ctxs s)[c := x]\<rparr>"

definition lock_ctx :: "nat \<Rightarrow> 'w fdstate \<Rightarrow> 'w fdstate outcome" where
  "lock_ctx c s = (if ioc_locked (ctx s c) then Blocks
                   else Returns (set_ctx c (ctx s c\<lparr>ioc_locked := True\<rparr>) s))"

definition unlock_ctx :: "nat \<Rightarrow> 'w fdstate \<Rightarrow> 'w fdstate" where
  "unlock_ctx c s = set_ctx c (ctx s c\<lparr>ioc_locked := False\<rparr>) s"

definition set_desc :: "fdp \<Rightarrow> fdesc option \<Rightarrow> 'w fdstate \<Rightarrow> 'w fdstate" where
  "set_desc f d s = s\<lparr>fd_heap := (fd_heap s)(f := d)\<rparr>"

section \<open>Descriptor operations\<close>

text \<open>
  \<open>alloc_fd\<close>: \<open>mem\<close> is the block \<open>kmalloc\<close> returned with its previous contents, if any.
\<close>

definition alloc_fd :: "(fdp \<times> fdesc) option \<Rightarrow> 'w fdstate \<Rightarrow> fdp ptr \<times> 'w fdstate" where
  "alloc_fd mem s =
     (case mem of
        None \<Rightarrow> (None, s)
      | Some (f, junk) \<Rightarrow>
          (Some f, set_desc f (Some (junk\<lparr>fd_vnode := None, fd_cookie := 0, fd_refs := 1\<rparr>)) s))"

fun first_free :: "'a ptr list \<Rightarrow> nat \<Rightarrow> nat option" where
  "first_free [] i = None"
| "first_free (x # xs) i = (if x = None then Some i else first_free xs (Suc i))"

definition new_fd :: "nat \<Rightarrow> fdp \<Rightarrow> 'w fdstate \<Rightarrow> (int \<times> 'w fdstate) outcome" where
  "new_fd c f s =
     obind (lock_ctx c s) (\<lambda>s.
       let x = ctx s c
       in case first_free (take (nat (ioc_size x)) (ioc_fds x)) 0 of
            None \<Rightarrow> Returns (ERR_NO_MORE_HANDLES, unlock_ctx c s)
          | Some i \<Rightarrow>
              Returns (int i,
                unlock_ctx c
                  (set_ctx c (x\<lparr>ioc_fds := (ioc_fds x)[i := Some f], ioc_used := ioc_used x + 1\<rparr>) s)))"

definition put_fd ::
  "(nat \<Rightarrow> (fdp \<Rightarrow> 'w fdstate \<Rightarrow> (unit \<times> 'w fdstate) outcome) option) \<Rightarrow> fdp \<Rightarrow> 'w fdstate \<Rightarrow>
   (unit \<times> 'w fdstate) outcome" where
  "put_fd frees f s =
     (case fd_heap s f of
        None \<Rightarrow> Faults
      | Some d \<Rightarrow>
          (let s1 = set_desc f (Some (d\<lparr>fd_refs := fd_refs d - 1\<rparr>)) s
           in if fd_refs d = 1 then
                obind (case frees (fd_opsp d) of None \<Rightarrow> Returns ((), s1) | Some g \<Rightarrow> g f s1)
                  (\<lambda>(_, s2). Returns ((), set_desc f None s2))
              else Returns ((), s1)))"

definition valid_fd :: "io_context \<Rightarrow> int \<Rightarrow> bool" where
  "valid_fd x fd \<longleftrightarrow> 0 \<le> fd \<and> fd < ioc_size x \<and> ioc_fds x ! nat fd \<noteq> None"

definition get_fd :: "nat \<Rightarrow> int \<Rightarrow> 'w fdstate \<Rightarrow> (fdp ptr \<times> 'w fdstate) outcome" where
  "get_fd c fd s =
     obind (lock_ctx c s) (\<lambda>s.
       if valid_fd (ctx s c) fd then
         (let f = the (ioc_fds (ctx s c) ! nat fd)
          in case fd_heap s f of
               None \<Rightarrow> Faults
             | Some d \<Rightarrow>
                 Returns (Some f,
                   unlock_ctx c (set_desc f (Some (d\<lparr>fd_refs := fd_refs d + 1\<rparr>)) s)))
       else Returns (None, unlock_ctx c s))"

definition remove_fd ::
  "(nat \<Rightarrow> (fdp \<Rightarrow> 'w fdstate \<Rightarrow> (unit \<times> 'w fdstate) outcome) option) \<Rightarrow> nat \<Rightarrow> int \<Rightarrow>
   'w fdstate \<Rightarrow> (unit \<times> 'w fdstate) outcome" where
  "remove_fd frees c fd s =
     obind (lock_ctx c s) (\<lambda>s.
       let x = ctx s c
       in if valid_fd x fd then
            put_fd frees (the (ioc_fds x ! nat fd))
              (unlock_ctx c
                (set_ctx c (x\<lparr>ioc_fds := (ioc_fds x)[nat fd := None], ioc_used := ioc_used x - 1\<rparr>) s))
          else Returns ((), unlock_ctx c s))"

section \<open>System calls\<close>

type_synonym 'w ret = "(int \<times> 'w fdstate) outcome"

text \<open>
  Every call but one has the same frame: take a reference to the descriptor, dispatch, drop
  the reference. \<open>with_fd\<close> is that frame; \<open>body\<close> is the dispatch.
\<close>

definition with_fd ::
  "(nat \<Rightarrow> 'w fd_ops) \<Rightarrow> nat \<Rightarrow> int \<Rightarrow>
   (fdp \<Rightarrow> 'w fd_ops \<Rightarrow> 'w fdstate \<Rightarrow> (int \<times> 'w fdstate) outcome) \<Rightarrow>
   'w fdstate \<Rightarrow> (int \<times> 'w fdstate) outcome" where
  "with_fd ops c fd body s =
     obind (get_fd c fd s) (\<lambda>(descriptor, s1).
       case descriptor of
         None \<Rightarrow> Returns (EBADF, s1)
       | Some f \<Rightarrow>
           (case fd_heap s1 f of
              None \<Rightarrow> Faults
            | Some d \<Rightarrow>
                obind (body f (ops (fd_opsp d)) s1) (\<lambda>(retval, s2).
                  obind (put_fd (\<lambda>i. op_free (ops i)) f s2) (\<lambda>(_, s3). Returns (retval, s3)))))"

definition length_or_error :: "((int \<times> nat) \<times> 'w fdstate) \<Rightarrow> int \<times> 'w fdstate" where
  "length_or_error r = (case r of ((retval, len), s) \<Rightarrow> (if 0 \<le> retval then s32 len else retval, s))"

definition call_read :: "nat \<Rightarrow> int \<Rightarrow> nat \<Rightarrow> fdp \<Rightarrow> 'w fd_ops \<Rightarrow> 'w fdstate \<Rightarrow> (int \<times> 'w fdstate) outcome" where
  "call_read buffer pos len f o1 s =
     (case op_read o1 of
        Some g \<Rightarrow> obind (g f buffer pos len s) (\<lambda>r. Returns (length_or_error r))
      | None \<Rightarrow> Returns (EINVAL, s))"

definition call_write :: "nat \<Rightarrow> int \<Rightarrow> nat \<Rightarrow> fdp \<Rightarrow> 'w fd_ops \<Rightarrow> 'w fdstate \<Rightarrow> (int \<times> 'w fdstate) outcome" where
  "call_write buffer pos len f o1 s =
     (case op_write o1 of
        Some g \<Rightarrow> obind (g f buffer pos len s) (\<lambda>r. Returns (length_or_error r))
      | None \<Rightarrow> Returns (EINVAL, s))"

definition call_ioctl :: "nat \<Rightarrow> nat \<Rightarrow> nat \<Rightarrow> fdp \<Rightarrow> 'w fd_ops \<Rightarrow> 'w fdstate \<Rightarrow> (int \<times> 'w fdstate) outcome" where
  "call_ioctl op buffer len f o1 s =
     (case op_ioctl o1 of Some g \<Rightarrow> g f op buffer len s | None \<Rightarrow> Returns (EOPNOTSUPP, s))"

definition call_read_dir :: "nat \<Rightarrow> nat \<Rightarrow> fdp \<Rightarrow> 'w fd_ops \<Rightarrow> 'w fdstate \<Rightarrow> (int \<times> 'w fdstate) outcome" where
  "call_read_dir buffer bufsize f o1 s =
     (case op_read_dir o1 of
        Some g \<Rightarrow> obind (g f buffer bufsize s) (\<lambda>r. Returns (length_or_error r))
      | None \<Rightarrow> Returns (EOPNOTSUPP, s))"

definition call_rewind_dir :: "fdp \<Rightarrow> 'w fd_ops \<Rightarrow> 'w fdstate \<Rightarrow> (int \<times> 'w fdstate) outcome" where
  "call_rewind_dir f o1 s =
     (case op_rewind_dir o1 of Some g \<Rightarrow> g f s | None \<Rightarrow> Returns (EOPNOTSUPP, s))"

definition call_close :: "int \<Rightarrow> nat \<Rightarrow> fdp \<Rightarrow> 'w fd_ops \<Rightarrow> 'w fdstate \<Rightarrow> (int \<times> 'w fdstate) outcome" where
  "call_close fd c f o1 s =
     (case op_close o1 of Some g \<Rightarrow> g f fd c s | None \<Rightarrow> Returns (EOPNOTSUPP, s))"

definition user_read ::
  "(nat \<Rightarrow> 'w fd_ops) \<Rightarrow> int \<Rightarrow> nat \<Rightarrow> int \<Rightarrow> nat \<Rightarrow> 'w fdstate \<Rightarrow> 'w ret" where
  "user_read ops fd buffer pos len s =
     (if kernel_addr buffer then Returns (EINVAL, s)
      else with_fd ops (get_current_io_context False s) fd (call_read buffer pos len) s)"

definition user_write ::
  "(nat \<Rightarrow> 'w fd_ops) \<Rightarrow> int \<Rightarrow> nat \<Rightarrow> int \<Rightarrow> nat \<Rightarrow> 'w fdstate \<Rightarrow> 'w ret" where
  "user_write ops fd buffer pos len s =
     (if kernel_addr buffer then Returns (EINVAL, s)
      else with_fd ops (get_current_io_context False s) fd (call_write buffer pos len) s)"

text \<open>\<open>user_ioctl\<close> returns without dropping its reference.\<close>

definition user_ioctl ::
  "(nat \<Rightarrow> 'w fd_ops) \<Rightarrow> int \<Rightarrow> nat \<Rightarrow> nat \<Rightarrow> nat \<Rightarrow> 'w fdstate \<Rightarrow> 'w ret" where
  "user_ioctl ops fd op buffer len s =
     (if kernel_addr buffer then Returns (EINVAL, s)
      else obind (get_fd (get_current_io_context False s) fd s) (\<lambda>(descriptor, s1).
        case descriptor of
          None \<Rightarrow> Returns (EBADF, s1)
        | Some f \<Rightarrow>
            (case fd_heap s1 f of
               None \<Rightarrow> Faults
             | Some d \<Rightarrow> call_ioctl op buffer len f (ops (fd_opsp d)) s1)))"

definition user_read_dir ::
  "(nat \<Rightarrow> 'w fd_ops) \<Rightarrow> int \<Rightarrow> nat \<Rightarrow> nat \<Rightarrow> 'w fdstate \<Rightarrow> 'w ret" where
  "user_read_dir ops fd buffer bufsize s =
     (if kernel_addr buffer then Returns (EINVAL, s)
      else with_fd ops (get_current_io_context False s) fd (call_read_dir buffer bufsize) s)"

definition user_rewind_dir ::
  "(nat \<Rightarrow> 'w fd_ops) \<Rightarrow> int \<Rightarrow> 'w fdstate \<Rightarrow> 'w ret" where
  "user_rewind_dir ops fd s =
     with_fd ops (get_current_io_context False s) fd call_rewind_dir s"

text \<open>
  \<open>user_memcpy\<close> is the architecture's copy to user space; it touches only the world and
  returns a negative code on a fault.
\<close>

definition call_fstat ::
  "(nat \<Rightarrow> byte list \<Rightarrow> 'w \<Rightarrow> int \<times> 'w) \<Rightarrow> nat \<Rightarrow> fdp \<Rightarrow> 'w fd_ops \<Rightarrow> 'w fdstate \<Rightarrow>
   (int \<times> 'w fdstate) outcome" where
  "call_fstat user_memcpy stat f o1 s =
     (case op_stat o1 of
        None \<Rightarrow> Returns (EOPNOTSUPP, s)
      | Some g \<Rightarrow>
          obind (g f s) (\<lambda>((retval, kstat), s1).
            if 0 \<le> retval then
              (case user_memcpy stat kstat (fd_world s1) of
                 (rc, w) \<Rightarrow> Returns (rc, s1\<lparr>fd_world := w\<rparr>))
            else Returns (retval, s1)))"

definition user_fstat ::
  "(nat \<Rightarrow> byte list \<Rightarrow> 'w \<Rightarrow> int \<times> 'w) \<Rightarrow> (nat \<Rightarrow> 'w fd_ops) \<Rightarrow> int \<Rightarrow> nat \<Rightarrow>
   'w fdstate \<Rightarrow> 'w ret" where
  "user_fstat user_memcpy ops fd stat s =
     (if kernel_addr stat then Returns (EINVAL, s)
      else with_fd ops (get_current_io_context False s) fd (call_fstat user_memcpy stat) s)"

definition user_close ::
  "(nat \<Rightarrow> 'w fd_ops) \<Rightarrow> int \<Rightarrow> 'w fdstate \<Rightarrow> 'w ret" where
  "user_close ops fd s =
     (let c = get_current_io_context False s in with_fd ops c fd (call_close fd c) s)"

definition sys_read ::
  "(nat \<Rightarrow> 'w fd_ops) \<Rightarrow> int \<Rightarrow> nat \<Rightarrow> int \<Rightarrow> nat \<Rightarrow> 'w fdstate \<Rightarrow> 'w ret" where
  "sys_read ops fd buffer pos len s =
     with_fd ops (get_current_io_context True s) fd (call_read buffer pos len) s"

definition sys_write ::
  "(nat \<Rightarrow> 'w fd_ops) \<Rightarrow> int \<Rightarrow> nat \<Rightarrow> int \<Rightarrow> nat \<Rightarrow> 'w fdstate \<Rightarrow> 'w ret" where
  "sys_write ops fd buffer pos len s =
     with_fd ops (get_current_io_context True s) fd (call_write buffer pos len) s"

text \<open>
  \<open>CHECK_SYS_ADDR\<close> asks for an address that is below the kernel's half and above it at once,
  so it never refuses.
\<close>

definition sys_ioctl ::
  "(nat \<Rightarrow> 'w fd_ops) \<Rightarrow> int \<Rightarrow> nat \<Rightarrow> nat \<Rightarrow> nat \<Rightarrow> 'w fdstate \<Rightarrow> 'w ret" where
  "sys_ioctl ops fd op buffer len s =
     (if buffer < KERNEL_BASE \<and> KERNEL_TOP \<le> buffer then Returns (EINVAL, s)
      else with_fd ops (get_current_io_context True s) fd (call_ioctl op buffer len) s)"

text \<open>The two directory calls of the kernel use the context of the current process.\<close>

definition sys_read_dir ::
  "(nat \<Rightarrow> 'w fd_ops) \<Rightarrow> int \<Rightarrow> nat \<Rightarrow> nat \<Rightarrow> 'w fdstate \<Rightarrow> 'w ret" where
  "sys_read_dir ops fd buffer bufsize s =
     with_fd ops (get_current_io_context False s) fd (call_read_dir buffer bufsize) s"

definition sys_rewind_dir ::
  "(nat \<Rightarrow> 'w fd_ops) \<Rightarrow> int \<Rightarrow> 'w fdstate \<Rightarrow> 'w ret" where
  "sys_rewind_dir ops fd s =
     with_fd ops (get_current_io_context False s) fd call_rewind_dir s"

definition sys_close ::
  "(nat \<Rightarrow> 'w fd_ops) \<Rightarrow> int \<Rightarrow> 'w fdstate \<Rightarrow> 'w ret" where
  "sys_close ops fd s =
     (let c = get_current_io_context True s in with_fd ops c fd (call_close fd c) s)"


section \<open>The VFS's operation table and the calls on descriptor tables\<close>

text \<open>
  What the VFS needs of a file system, as functions on the rest of the world. The arguments
  are the vnode (with its mount) and the file cookie. \<open>fc_dec_vnode\<close> is the release of the
  vnode reference the descriptor held.
\<close>

record 'w fs_calls =
  fc_read :: "nat \<Rightarrow> nat \<Rightarrow> nat \<Rightarrow> int \<Rightarrow> nat \<Rightarrow> 'w \<Rightarrow> (int \<times> nat) \<times> 'w"
  fc_write :: "nat \<Rightarrow> nat \<Rightarrow> nat \<Rightarrow> int \<Rightarrow> nat \<Rightarrow> 'w \<Rightarrow> (int \<times> nat) \<times> 'w"
  fc_ioctl :: "nat \<Rightarrow> nat \<Rightarrow> nat \<Rightarrow> nat \<Rightarrow> nat \<Rightarrow> 'w \<Rightarrow> int \<times> 'w"
  fc_read_dir :: "(nat \<Rightarrow> nat \<Rightarrow> nat \<Rightarrow> nat \<Rightarrow> 'w \<Rightarrow> (int \<times> nat) \<times> 'w) option"
  fc_rewind_dir :: "(nat \<Rightarrow> nat \<Rightarrow> 'w \<Rightarrow> int \<times> 'w) option"
  fc_rstat :: "nat \<Rightarrow> 'w \<Rightarrow> (int \<times> byte list) \<times> 'w"
  fc_close :: "nat \<Rightarrow> nat \<Rightarrow> 'w \<Rightarrow> 'w"
  fc_freecookie :: "nat \<Rightarrow> nat \<Rightarrow> 'w \<Rightarrow> 'w"
  fc_dec_vnode :: "nat \<Rightarrow> 'w \<Rightarrow> 'w"

text \<open>A call on the descriptor's vnode: a descriptor without one is a \<open>NULL\<close> dereference.\<close>

definition on_vnode ::
  "fdp \<Rightarrow> (nat \<Rightarrow> nat \<Rightarrow> 'w \<Rightarrow> 'r \<times> 'w) \<Rightarrow> 'w fdstate \<Rightarrow> ('r \<times> 'w fdstate) outcome" where
  "on_vnode f g s =
     (case fd_heap s f of
        None \<Rightarrow> Faults
      | Some d \<Rightarrow>
          (case fd_vnode d of
             None \<Rightarrow> Faults
           | Some v \<Rightarrow> (case g v (fd_cookie d) (fd_world s) of (r, w) \<Rightarrow> Returns (r, s\<lparr>fd_world := w\<rparr>))))"

definition vfs_read ::
  "'w fs_calls \<Rightarrow> fdp \<Rightarrow> nat \<Rightarrow> int \<Rightarrow> nat \<Rightarrow>
   'w fdstate \<Rightarrow> ((int \<times> nat) \<times> 'w fdstate) outcome" where
  "vfs_read calls f buffer pos len = on_vnode f (\<lambda>v k. fc_read calls v k buffer pos len)"

definition vfs_write ::
  "'w fs_calls \<Rightarrow> fdp \<Rightarrow> nat \<Rightarrow> int \<Rightarrow> nat \<Rightarrow>
   'w fdstate \<Rightarrow> ((int \<times> nat) \<times> 'w fdstate) outcome" where
  "vfs_write calls f buffer pos len = on_vnode f (\<lambda>v k. fc_write calls v k buffer pos len)"

definition vfs_ioctl ::
  "'w fs_calls \<Rightarrow> fdp \<Rightarrow> nat \<Rightarrow> nat \<Rightarrow> nat \<Rightarrow> 'w fdstate \<Rightarrow> 'w ret" where
  "vfs_ioctl calls f op buffer len = on_vnode f (\<lambda>v k. fc_ioctl calls v k op buffer len)"

definition vfs_read_dir ::
  "'w fs_calls \<Rightarrow> fdp \<Rightarrow> nat \<Rightarrow> nat \<Rightarrow>
   'w fdstate \<Rightarrow> ((int \<times> nat) \<times> 'w fdstate) outcome" where
  "vfs_read_dir calls f buffer bufsize =
     on_vnode f (\<lambda>v k w. case fc_read_dir calls of
       Some g \<Rightarrow> g v k buffer bufsize w | None \<Rightarrow> ((EOPNOTSUPP, 0), w))"

definition vfs_rewind_dir ::
  "'w fs_calls \<Rightarrow> fdp \<Rightarrow> 'w fdstate \<Rightarrow> 'w ret" where
  "vfs_rewind_dir calls f =
     on_vnode f (\<lambda>v k w. case fc_rewind_dir calls of Some g \<Rightarrow> g v k w | None \<Rightarrow> (EOPNOTSUPP, w))"

definition vfs_rstat ::
  "'w fs_calls \<Rightarrow> fdp \<Rightarrow> 'w fdstate \<Rightarrow> ((int \<times> byte list) \<times> 'w fdstate) outcome" where
  "vfs_rstat calls f = on_vnode f (\<lambda>v k. fc_rstat calls v)"

definition vfs_free_fd :: "'w fs_calls \<Rightarrow> fdp \<Rightarrow> 'w fdstate \<Rightarrow> (unit \<times> 'w fdstate) outcome" where
  "vfs_free_fd calls f s =
     (case fd_heap s f of
        None \<Rightarrow> Faults
      | Some d \<Rightarrow>
          (case fd_vnode d of
             None \<Rightarrow> Returns ((), s)
           | Some v \<Rightarrow>
               (let w1 = fc_close calls v (fd_cookie d) (fd_world s);
                    w2 = fc_freecookie calls v (fd_cookie d) w1
                in Returns ((), s\<lparr>fd_world := fc_dec_vnode calls v w2\<rparr>))))"

definition vfs_close ::
  "(nat \<Rightarrow> (fdp \<Rightarrow> 'w fdstate \<Rightarrow> (unit \<times> 'w fdstate) outcome) option) \<Rightarrow> fdp \<Rightarrow> int \<Rightarrow> nat \<Rightarrow>
   'w fdstate \<Rightarrow> 'w ret" where
  "vfs_close frees f fd c s = obind (remove_fd frees c fd s) (\<lambda>(_, s1). Returns (0, s1))"

definition vfsops :: "'w fs_calls \<Rightarrow> 'w fd_ops" where
  "vfsops calls =
     \<lparr>op_read = Some (vfs_read calls), op_write = Some (vfs_write calls),
      op_ioctl = Some (vfs_ioctl calls), op_read_dir = Some (vfs_read_dir calls),
      op_rewind_dir = Some (vfs_rewind_dir calls), op_stat = Some (vfs_rstat calls),
      op_close = Some (vfs_close (\<lambda>_. Some (vfs_free_fd calls))),
      op_free = Some (vfs_free_fd calls)\<rparr>"

definition vfs_dup ::
  "(nat \<Rightarrow> (fdp \<Rightarrow> 'w fdstate \<Rightarrow> (unit \<times> 'w fdstate) outcome) option) \<Rightarrow> int \<Rightarrow> bool \<Rightarrow>
   'w fdstate \<Rightarrow> 'w ret" where
  "vfs_dup frees fd in_kernel s =
     (let c = get_current_io_context in_kernel s
      in obind (get_fd c fd s) (\<lambda>(f, s1).
           case f of
             None \<Rightarrow> Returns (ERR_INVALID_HANDLE, s1)
           | Some f \<Rightarrow>
               obind (new_fd c f s1) (\<lambda>(rc, s2).
                 if rc < 0 then obind (put_fd frees f s2) (\<lambda>(_, s3). Returns (rc, s3))
                 else Returns (rc, s2))))"

text \<open>
  \<open>vfs_dup2\<close> leaves through \<open>success\<close> without unlocking when both handles are the same.
\<close>

definition vfs_dup2 ::
  "(nat \<Rightarrow> (fdp \<Rightarrow> 'w fdstate \<Rightarrow> (unit \<times> 'w fdstate) outcome) option) \<Rightarrow> int \<Rightarrow> int \<Rightarrow> bool \<Rightarrow>
   'w fdstate \<Rightarrow> 'w ret" where
  "vfs_dup2 frees ofd nfd in_kernel s =
     (if ofd < 0 \<or> nfd < 0 then Returns (ERR_INVALID_HANDLE, s)
      else
        (let c = get_current_io_context in_kernel s
         in obind (lock_ctx c s) (\<lambda>s.
              let x = ctx s c
              in if ioc_size x \<le> ofd \<or> ioc_fds x ! nat ofd = None then
                   Returns (ERR_INVALID_HANDLE, unlock_ctx c s)
                 else if ioc_size x \<le> nfd then Returns (ERR_INVALID_HANDLE, unlock_ctx c s)
                 else if ofd = nfd then Returns (nfd, s)
                 else
                   (let evicted = ioc_fds x ! nat nfd;
                        f = the (ioc_fds x ! nat ofd);
                        s1 = set_ctx c (x\<lparr>ioc_fds := (ioc_fds x)[nat nfd := Some f]\<rparr>) s
                    in case fd_heap s1 f of
                         None \<Rightarrow> Faults
                       | Some d \<Rightarrow>
                           (let s2 = unlock_ctx c (set_desc f (Some (d\<lparr>fd_refs := fd_refs d + 1\<rparr>)) s1)
                            in case evicted of
                                 None \<Rightarrow> Returns (nfd, s2)
                               | Some e \<Rightarrow> obind (put_fd frees e s2) (\<lambda>(_, s3). Returns (nfd, s3)))))))"

definition MAX_FD_TABLE_SIZE :: int where
  "MAX_FD_TABLE_SIZE = 2048"

definition vfs_resize_fd_table :: "nat \<Rightarrow> int \<Rightarrow> bool \<Rightarrow> 'w fdstate \<Rightarrow> 'w ret" where
  "vfs_resize_fd_table c new_size mem s =
     (if new_size < 0 \<or> MAX_FD_TABLE_SIZE < new_size then Returns (-1, s)
      else obind (lock_ctx c s) (\<lambda>s.
        let x = ctx s c
        in if new_size < ioc_size x then
             (if \<exists>f \<in> set (drop (nat new_size) (ioc_fds x)). f \<noteq> None then
                Returns (-1, unlock_ctx c s)
              else if \<not> mem then Returns (-1, unlock_ctx c s)
              else Returns (0, unlock_ctx c
                (set_ctx c (x\<lparr>ioc_fds := take (nat new_size) (ioc_fds x), ioc_size := new_size\<rparr>) s)))
           else if \<not> mem then Returns (-1, unlock_ctx c s)
           else Returns (0, unlock_ctx c
             (set_ctx c (x\<lparr>ioc_fds := ioc_fds x @ replicate (nat (new_size - ioc_size x)) None,
                          ioc_size := new_size\<rparr>) s))))"

section \<open>Reference counts\<close>

text \<open>
  \<open>held f\<close> counts the references to \<open>f\<close> that calls in progress own. The invariant: the count
  in a descriptor is the number of table slots that point to it plus the references held, a
  descriptor with no reference is freed, and nobody points to freed memory. Every context is
  unlocked between calls.
\<close>

definition slots :: "'w fdstate \<Rightarrow> fdp \<Rightarrow> nat" where
  "slots s f = count_list (concat (map ioc_fds (fd_ctxs s))) (Some f)"

definition refs_of :: "'w fdstate \<Rightarrow> (fdp \<Rightarrow> nat) \<Rightarrow> fdp \<Rightarrow> nat" where
  "refs_of s held f = slots s f + held f"

definition desc_ok :: "fdesc option \<Rightarrow> nat \<Rightarrow> bool" where
  "desc_ok d n \<longleftrightarrow>
     (case d of None \<Rightarrow> n = 0
      | Some d \<Rightarrow> fd_refs d = int n \<and> 0 < n \<and> fd_vnode d \<noteq> None)"

definition ctx_ok :: "io_context \<Rightarrow> bool" where
  "ctx_ok x \<longleftrightarrow> int (length (ioc_fds x)) = ioc_size x \<and> \<not> ioc_locked x"

definition fd_inv :: "'w fdstate \<Rightarrow> (fdp \<Rightarrow> nat) \<Rightarrow> bool" where
  "fd_inv s held \<longleftrightarrow>
     (\<forall>f. desc_ok (fd_heap s f) (refs_of s held f)) \<and>
     (\<forall>x \<in> set (fd_ctxs s). ctx_ok x) \<and>
     cur_ctx s < length (fd_ctxs s) \<and> kern_ctx s < length (fd_ctxs s)"

lemma ctx_set_ctx [simp]: "c < length (fd_ctxs s) \<Longrightarrow> ctx (set_ctx c x s) c = x"
  by (simp add: ctx_def set_ctx_def)

lemma set_ctx_set_ctx [simp]: "set_ctx c y (set_ctx c x s) = set_ctx c y s"
  by (simp add: set_ctx_def)

lemma set_ctx_ctx [simp]: "set_ctx c (ctx s c) s = s"
  by (simp add: set_ctx_def ctx_def)

lemma set_desc_set_ctx [simp]: "set_desc f d (set_ctx c x s) = set_ctx c x (set_desc f d s)"
  by (simp add: set_desc_def set_ctx_def)

lemma set_ctx_set_desc_id [simp]: "set_ctx c (ctx s c) (set_desc f d s) = set_desc f d s"
  by (simp add: set_ctx_def ctx_def set_desc_def)

lemma set_simps [simp]:
  "fd_heap (set_ctx c x s) = fd_heap s" "length (fd_ctxs (set_ctx c x s)) = length (fd_ctxs s)"
  "ctx (set_desc f d s) c = ctx s c" "fd_heap (set_desc f d s) = (fd_heap s)(f := d)"
  "fd_ctxs (set_desc f d s) = fd_ctxs s" "cur_ctx (set_desc f d s) = cur_ctx s"
  "kern_ctx (set_desc f d s) = kern_ctx s" "cur_ctx (set_ctx c x s) = cur_ctx s"
  "kern_ctx (set_ctx c x s) = kern_ctx s"
  by (simp_all add: set_ctx_def set_desc_def ctx_def)

lemma relock_id: "\<not> ioc_locked x \<Longrightarrow> x\<lparr>ioc_locked := False\<rparr> = x"
  by (cases x) simp

lemma fd_invD:
  assumes "fd_inv s held"
  shows "desc_ok (fd_heap s f) (refs_of s held f)"
    and "c < length (fd_ctxs s) \<Longrightarrow> ctx_ok (ctx s c)"
    and "get_current_io_context k s < length (fd_ctxs s)"
  using assms by (auto simp: fd_inv_def ctx_def get_current_io_context_def)

lemma get_fd_eq:
  assumes "c < length (fd_ctxs s)" and "\<not> ioc_locked (ctx s c)"
  shows "get_fd c fd s =
    (if valid_fd (ctx s c) fd then
       (case fd_heap s (the (ioc_fds (ctx s c) ! nat fd)) of
          None \<Rightarrow> Faults
        | Some d \<Rightarrow> Returns (ioc_fds (ctx s c) ! nat fd,
            set_desc (the (ioc_fds (ctx s c) ! nat fd)) (Some (d\<lparr>fd_refs := fd_refs d + 1\<rparr>)) s))
     else Returns (None, s))"
  using assms
  by (auto simp: get_fd_def lock_ctx_def unlock_ctx_def valid_fd_def relock_id Let_def
      split: option.splits)

lemma new_fd_eq:
  assumes "c < length (fd_ctxs s)" and "ctx_ok (ctx s c)"
  shows "new_fd c f s =
    (case first_free (ioc_fds (ctx s c)) 0 of
       None \<Rightarrow> Returns (ERR_NO_MORE_HANDLES, s)
     | Some i \<Rightarrow> Returns (int i, set_ctx c ((ctx s c)\<lparr>ioc_fds := (ioc_fds (ctx s c))[i := Some f],
                                              ioc_used := ioc_used (ctx s c) + 1\<rparr>) s))"
proof -
  have "take (nat (ioc_size (ctx s c))) (ioc_fds (ctx s c)) = ioc_fds (ctx s c)"
    using assms(2) by (metis ctx_ok_def nat_int order_refl take_all_iff)
  with assms show ?thesis
    by (auto simp: new_fd_def lock_ctx_def unlock_ctx_def ctx_ok_def relock_id Let_def
        split: option.splits)
qed

lemma remove_fd_eq:
  assumes "c < length (fd_ctxs s)" and "\<not> ioc_locked (ctx s c)"
  shows "remove_fd frees c fd s =
    (if valid_fd (ctx s c) fd then
       put_fd frees (the (ioc_fds (ctx s c) ! nat fd))
         (set_ctx c ((ctx s c)\<lparr>ioc_fds := (ioc_fds (ctx s c))[nat fd := None],
                               ioc_used := ioc_used (ctx s c) - 1\<rparr>) s)
     else Returns ((), s))"
  using assms
  by (auto simp: remove_fd_def lock_ctx_def unlock_ctx_def valid_fd_def relock_id Let_def)

text \<open>Writing one table slot moves one reference between the table and its writer.\<close>

lemma slots_set_slot:
  assumes "c < length (fd_ctxs s)" and "i < length (ioc_fds (ctx s c))"
    and "ioc_fds x = (ioc_fds (ctx s c))[i := v]"
  shows "slots (set_ctx c x s) g + (if ioc_fds (ctx s c) ! i = Some g then 1 else 0) =
         slots s g + (if v = Some g then 1 else 0)"
proof -
  have "slots (set_ctx c x s) g + count_list (ioc_fds (ctx s c)) (Some g) =
        slots s g + count_list (ioc_fds x) (Some g)"
    using count_list_concat_update [OF assms(1), of ioc_fds x "Some g"]
    by (simp add: slots_def set_ctx_def ctx_def)
  moreover have "count_list (ioc_fds x) (Some g) + (if ioc_fds (ctx s c) ! i = Some g then 1 else 0)
      = count_list (ioc_fds (ctx s c)) (Some g) + (if v = Some g then 1 else 0)"
    using count_list_update [OF assms(2), of v "Some g"] by (simp add: assms(3))
  ultimately show ?thesis by linarith
qed

lemma fd_inv_set_slot:
  assumes inv: "fd_inv s held" and c: "c < length (fd_ctxs s)"
    and i: "i < length (ioc_fds (ctx s c))"
    and x: "ioc_fds x = (ioc_fds (ctx s c))[i := v]" "ioc_size x = ioc_size (ctx s c)" "\<not> ioc_locked x"
    and bal: "\<And>g. held' g + (if v = Some g then 1 else 0) =
                   held g + (if ioc_fds (ctx s c) ! i = Some g then 1 else 0)"
  shows "fd_inv (set_ctx c x s) held'"
proof -
  have "refs_of (set_ctx c x s) held' g = refs_of s held g" for g
    using slots_set_slot [OF c i x(1), of g] bal [of g] by (simp add: refs_of_def)
  moreover have "ctx_ok x" using x fd_invD(2) [OF inv c] by (simp add: ctx_ok_def)
  ultimately show ?thesis
    using inv by (auto simp: fd_inv_def set_ctx_def dest!: set_update_subset_insert [THEN subsetD])
qed

lemma slots_set_desc [simp]: "slots (set_desc f d s) g = slots s g"
  by (simp add: slots_def)

text \<open>A slot that is in use points to a live descriptor.\<close>

lemma slot_live:
  assumes "fd_inv s held" and "c < length (fd_ctxs s)" and "i < length (ioc_fds (ctx s c))"
    and "ioc_fds (ctx s c) ! i = Some f"
  obtains d where "fd_heap s f = Some d" and "fd_vnode d \<noteq> None"
    and "fd_refs d = int (refs_of s held f)"
proof -
  from assms(2-4) have "Some f \<in> set (concat (map ioc_fds (fd_ctxs s)))"
    by (auto simp: ctx_def intro!: bexI [of _ "fd_ctxs s ! c"]) (metis nth_mem)
  then have "slots s f \<noteq> 0" by (auto simp: slots_def count_list_0_iff)
  with fd_invD(1) [OF assms(1), of f] show thesis
    using that by (auto simp: desc_ok_def refs_of_def split: option.splits)
qed

lemma held_live:
  assumes "fd_inv s held" and "0 < held f"
  obtains d where "fd_heap s f = Some d" and "fd_vnode d \<noteq> None"
    and "fd_refs d = int (refs_of s held f)"
  using fd_invD(1) [OF assms(1), of f] assms(2) that
  by (auto simp: desc_ok_def refs_of_def split: option.splits)

lemma fd_inv_ref:
  assumes "fd_inv s held" and "fd_heap s f = Some d"
  shows "fd_inv (set_desc f (Some (d\<lparr>fd_refs := fd_refs d + 1\<rparr>)) s) (held(f := held f + 1))"
  using assms fd_invD(1) [OF assms(1), of f]
  by (auto simp: fd_inv_def refs_of_def desc_ok_def split: option.splits)

lemma fd_inv_world: "fd_inv s held \<Longrightarrow> fd_inv (s\<lparr>fd_world := w\<rparr>) held"
  by (simp add: fd_inv_def refs_of_def slots_def)

lemma get_fd_inv:
  assumes inv: "fd_inv s held" and c: "c < length (fd_ctxs s)"
  shows "(\<not> valid_fd (ctx s c) fd \<and> get_fd c fd s = Returns (None, s)) \<or>
         (\<exists>f s'. valid_fd (ctx s c) fd \<and> ioc_fds (ctx s c) ! nat fd = Some f \<and>
                 get_fd c fd s = Returns (Some f, s') \<and> fd_inv s' (held(f := held f + 1)) \<and>
                 fd_ctxs s' = fd_ctxs s \<and> cur_ctx s' = cur_ctx s \<and> kern_ctx s' = kern_ctx s)"
proof (cases "valid_fd (ctx s c) fd")
  case False
  with get_fd_eq [OF c] fd_invD(2) [OF inv c] show ?thesis by (simp add: ctx_ok_def)
next
  case True
  then obtain f where f: "ioc_fds (ctx s c) ! nat fd = Some f" by (auto simp: valid_fd_def)
  have "nat fd < length (ioc_fds (ctx s c))"
    using True fd_invD(2) [OF inv c] by (auto simp: valid_fd_def ctx_ok_def)
  from slot_live [OF inv c this f] obtain d where d: "fd_heap s f = Some d" by blast
  with True f get_fd_eq [OF c, of fd] fd_invD(2) [OF inv c] fd_inv_ref [OF inv d]
  show ?thesis by (simp add: ctx_ok_def)
qed


section \<open>The contract of an operation table\<close>

text \<open>
  \<open>keeps c f op\<close>: run on behalf of a caller that owns a reference to \<open>f\<close>, the operation
  returns and leaves the reference counts consistent. \<open>frees_ok\<close>: a clean-up routine
  touches only the world.
\<close>

definition keeps :: "nat \<Rightarrow> fdp \<Rightarrow> ('w fdstate \<Rightarrow> ('r \<times> 'w fdstate) outcome) \<Rightarrow> bool" where
  "keeps c f op \<longleftrightarrow>
     (\<forall>s held. fd_inv s held \<longrightarrow> 0 < held f \<longrightarrow> c < length (fd_ctxs s) \<longrightarrow>
        (\<exists>r s'. op s = Returns (r, s') \<and> fd_inv s' held \<and> length (fd_ctxs s') = length (fd_ctxs s)))"

definition frees_ok :: "(nat \<Rightarrow> (fdp \<Rightarrow> 'w fdstate \<Rightarrow> (unit \<times> 'w fdstate) outcome) option) \<Rightarrow> bool" where
  "frees_ok frees \<longleftrightarrow>
     (\<forall>i g f s d. frees i = Some g \<longrightarrow> fd_heap s f = Some d \<longrightarrow> fd_vnode d \<noteq> None \<longrightarrow>
        (\<exists>w. g f s = Returns ((), s\<lparr>fd_world := w\<rparr>)))"

lemma keepsI:
  "(\<And>s held. fd_inv s held \<Longrightarrow> 0 < held f \<Longrightarrow> c < length (fd_ctxs s) \<Longrightarrow>
      \<exists>r s'. op s = Returns (r, s') \<and> fd_inv s' held \<and> length (fd_ctxs s') = length (fd_ctxs s)) \<Longrightarrow>
   keeps c f op"
  by (auto simp: keeps_def)

lemma keepsD:
  assumes "keeps c f op" and "fd_inv s held" and "0 < held f" and "c < length (fd_ctxs s)"
  obtains r s' where "op s = Returns (r, s')" and "fd_inv s' held"
    and "length (fd_ctxs s') = length (fd_ctxs s)"
  using assms unfolding keeps_def by blast

lemma keeps_return: "keeps c f (\<lambda>s. Returns (r, s))"
  by (simp add: keeps_def)

lemma keeps_length_or_error:
  assumes "keeps c f op"
  shows "keeps c f (\<lambda>s. obind (op s) (\<lambda>r. Returns (length_or_error r)))"
proof (rule keepsI)
  fix s :: "'a fdstate" and held
  assume "fd_inv s held" "0 < held f" "c < length (fd_ctxs s)"
  with assms obtain r s' where "op s = Returns (r, s')" "fd_inv s' held"
    "length (fd_ctxs s') = length (fd_ctxs s)" by (rule keepsD)
  then show "\<exists>r s'. obind (op s) (\<lambda>r. Returns (length_or_error r)) = Returns (r, s') \<and>
      fd_inv s' held \<and> length (fd_ctxs s') = length (fd_ctxs s)"
    by (auto simp: length_or_error_def split: prod.splits)
qed

lemma put_fd_inv:
  assumes inv: "fd_inv s held" and h: "0 < held f" and fr: "frees_ok frees"
  shows "\<exists>s'. put_fd frees f s = Returns ((), s') \<and> fd_inv s' (held(f := held f - 1)) \<and>
              fd_ctxs s' = fd_ctxs s \<and> cur_ctx s' = cur_ctx s \<and> kern_ctx s' = kern_ctx s \<and>
              fd_heap s' f = (if refs_of s held f = 1 then None else
                map_option (\<lambda>d. d\<lparr>fd_refs := fd_refs d - 1\<rparr>) (fd_heap s f))"
proof -
  from inv h obtain d where d: "fd_heap s f = Some d" and v: "fd_vnode d \<noteq> None"
    and r: "fd_refs d = int (refs_of s held f)" by (rule held_live)
  let ?d = "d\<lparr>fd_refs := fd_refs d - 1\<rparr>" and ?held = "held(f := held f - 1)"
  have n: "0 < refs_of s held f" using h by (simp add: refs_of_def)
  have refs: "refs_of t ?held g = (if g = f then refs_of s held g - 1 else refs_of s held g)"
    if "fd_ctxs t = fd_ctxs s" for t g
    using that h by (simp add: refs_of_def slots_def)
  show ?thesis
  proof (cases "refs_of s held f = 1")
    case False
    with d r h have "put_fd frees f s = Returns ((), set_desc f (Some ?d) s)"
      by (simp add: put_fd_def)
    moreover have "fd_inv (set_desc f (Some ?d) s) ?held"
      using inv v r False n refs [of "set_desc f (Some ?d) s"] d
      by (auto simp: fd_inv_def desc_ok_def)
    ultimately show ?thesis using False d by simp
  next
    case True
    let ?s = "set_desc f (Some (d\<lparr>fd_refs := 0\<rparr>)) s"
    obtain w where w: "(case frees (fd_opsp d) of None \<Rightarrow> Returns ((), ?s) | Some g \<Rightarrow> g f ?s)
        = Returns ((), ?s\<lparr>fd_world := w\<rparr>)"
    proof (cases "frees (fd_opsp d)")
      case None
      then show thesis using that [of "fd_world ?s"] by simp
    next
      case (Some g)
      have "fd_heap ?s f = Some (d\<lparr>fd_refs := 0\<rparr>)" by simp
      with fr Some v obtain w where "g f ?s = Returns ((), ?s\<lparr>fd_world := w\<rparr>)"
        unfolding frees_ok_def by (metis fdesc.select_convs(4) fdesc.surjective fdesc.update_convs(2))
      with Some that show thesis by simp
    qed
    let ?t = "set_desc f None (?s\<lparr>fd_world := w\<rparr>)"
    have run: "put_fd frees f s = Returns ((), ?t)"
      using d r True w by (simp add: put_fd_def Let_def)
    have "fd_inv ?t ?held"
      using inv True refs [of ?t]
      by (auto simp: fd_inv_def desc_ok_def set_desc_def)
    with run True show ?thesis by (auto simp: set_desc_def)
  qed
qed

lemma fun_upd_back: "0 < (held f :: nat) \<Longrightarrow> (held(f := held f - 1))(f := (held(f := held f - 1)) f + 1) = held"
  by auto

lemma new_fd_inv:
  assumes inv: "fd_inv s held" and h: "0 < held f" and c: "c < length (fd_ctxs s)"
  shows "\<exists>r s'. new_fd c f s = Returns (r, s') \<and> length (fd_ctxs s') = length (fd_ctxs s) \<and>
           (if r < 0 then r = ERR_NO_MORE_HANDLES \<and> s' = s else fd_inv s' (held(f := held f - 1)))"
proof (cases "first_free (ioc_fds (ctx s c)) 0")
  case None
  with new_fd_eq [OF c fd_invD(2) [OF inv c]] show ?thesis
    by (simp add: ERR_NO_MORE_HANDLES_def ERR_GENERAL_def)
next
  case (Some i)
  have "first_free xs k = Some i \<Longrightarrow> k \<le> i \<and> i - k < length xs \<and> xs ! (i - k) = None"
    for xs :: "fdp ptr list" and k
    by (induction xs arbitrary: k) (force simp: nth_Cons' split: if_splits)+
  from this [OF Some] have i: "i < length (ioc_fds (ctx s c))" "ioc_fds (ctx s c) ! i = None"
    by auto
  let ?x = "(ctx s c)\<lparr>ioc_fds := (ioc_fds (ctx s c))[i := Some f], ioc_used := ioc_used (ctx s c) + 1\<rparr>"
  have "fd_inv (set_ctx c ?x s) (held(f := held f - 1))"
    by (rule fd_inv_set_slot [OF inv c i(1)])
      (use i h fd_invD(2) [OF inv c] in \<open>auto simp: ctx_ok_def\<close>)
  with new_fd_eq [OF c fd_invD(2) [OF inv c]] Some show ?thesis by simp
qed

lemma remove_fd_valid:
  assumes inv: "fd_inv s held" and c: "c < length (fd_ctxs s)" and fr: "frees_ok frees"
    and valid: "valid_fd (ctx s c) fd"
  shows "\<exists>s'. remove_fd frees c fd s = Returns ((), s') \<and> fd_inv s' held \<and>
              fd_ctxs s' = (fd_ctxs s)[c := (ctx s c)\<lparr>ioc_fds := (ioc_fds (ctx s c))[nat fd := None],
                                                   ioc_used := ioc_used (ctx s c) - 1\<rparr>] \<and>
              cur_ctx s' = cur_ctx s \<and> kern_ctx s' = kern_ctx s"
proof -
  note ok = fd_invD(2) [OF inv c]
  from valid obtain f where f: "ioc_fds (ctx s c) ! nat fd = Some f" by (auto simp: valid_fd_def)
  have i: "nat fd < length (ioc_fds (ctx s c))"
    using valid ok by (auto simp: valid_fd_def ctx_ok_def)
  let ?x = "(ctx s c)\<lparr>ioc_fds := (ioc_fds (ctx s c))[nat fd := None], ioc_used := ioc_used (ctx s c) - 1\<rparr>"
  have "fd_inv (set_ctx c ?x s) (held(f := held f + 1))"
    by (rule fd_inv_set_slot [OF inv c i]) (use f ok in \<open>auto simp: ctx_ok_def\<close>)
  from put_fd_inv [OF this _ fr, of f] obtain s' where
    "put_fd frees f (set_ctx c ?x s) = Returns ((), s')" "fd_inv s' held"
    "fd_ctxs s' = fd_ctxs (set_ctx c ?x s)" "cur_ctx s' = cur_ctx s" "kern_ctx s' = kern_ctx s" by auto
  with remove_fd_eq [OF c] ok valid f show ?thesis by (simp add: ctx_ok_def set_ctx_def)
qed

lemma remove_fd_inv:
  assumes inv: "fd_inv s held" and c: "c < length (fd_ctxs s)" and fr: "frees_ok frees"
  shows "\<exists>s'. remove_fd frees c fd s = Returns ((), s') \<and> fd_inv s' held \<and>
              length (fd_ctxs s') = length (fd_ctxs s)"
proof (cases "valid_fd (ctx s c) fd")
  case False
  with remove_fd_eq [OF c] fd_invD(2) [OF inv c] inv show ?thesis by (simp add: ctx_ok_def)
next
  case True
  from remove_fd_valid [OF inv c fr True] show ?thesis by auto
qed

lemma call_read_fun:
  "call_read b p n f o1 =
     (case op_read o1 of
        Some g \<Rightarrow> (\<lambda>s. obind (g f b p n s) (\<lambda>r. Returns (length_or_error r)))
      | None \<Rightarrow> (\<lambda>s. Returns (EINVAL, s)))"
  by (auto simp: call_read_def fun_eq_iff split: option.splits)

lemma call_write_fun:
  "call_write b p n f o1 =
     (case op_write o1 of
        Some g \<Rightarrow> (\<lambda>s. obind (g f b p n s) (\<lambda>r. Returns (length_or_error r)))
      | None \<Rightarrow> (\<lambda>s. Returns (EINVAL, s)))"
  by (auto simp: call_write_def fun_eq_iff split: option.splits)

lemma call_read_dir_fun:
  "call_read_dir b n f o1 =
     (case op_read_dir o1 of
        Some g \<Rightarrow> (\<lambda>s. obind (g f b n s) (\<lambda>r. Returns (length_or_error r)))
      | None \<Rightarrow> (\<lambda>s. Returns (EOPNOTSUPP, s)))"
  by (auto simp: call_read_dir_def fun_eq_iff split: option.splits)

locale fd_provider =
  fixes ops :: "nat \<Rightarrow> 'w fd_ops"
  assumes free_ok: "frees_ok (\<lambda>i. op_free (ops i))"
    and read_ok: "op_read (ops i) = Some g1 \<Longrightarrow> keeps c f (g1 f b p n)"
    and write_ok: "op_write (ops i) = Some g2 \<Longrightarrow> keeps c f (g2 f b p n)"
    and ioctl_ok: "op_ioctl (ops i) = Some g3 \<Longrightarrow> keeps c f (g3 f m b n)"
    and read_dir_ok: "op_read_dir (ops i) = Some g4 \<Longrightarrow> keeps c f (g4 f b n)"
    and rewind_dir_ok: "op_rewind_dir (ops i) = Some g5 \<Longrightarrow> keeps c f (g5 f)"
    and stat_ok: "op_stat (ops i) = Some g6 \<Longrightarrow> keeps c f (g6 f)"
    and close_ok: "op_close (ops i) = Some g7 \<Longrightarrow> keeps c f (g7 f fd c)"
begin

lemma with_fd_keeps:
  assumes inv: "fd_inv s held" and c: "c < length (fd_ctxs s)"
    and body: "\<And>f i. keeps c f (body f (ops i))"
  shows "\<exists>r s'. with_fd ops c fd body s = Returns (r, s') \<and> fd_inv s' held \<and>
                length (fd_ctxs s') = length (fd_ctxs s)"
  using get_fd_inv [OF inv c, of fd]
proof (elim disjE exE conjE)
  assume "get_fd c fd s = Returns (None, s)"
  then show ?thesis using inv by (simp add: with_fd_def)
next
  fix f s1
  assume g: "get_fd c fd s = Returns (Some f, s1)" and inv1: "fd_inv s1 (held(f := held f + 1))"
    and c1: "fd_ctxs s1 = fd_ctxs s"
  from inv1 obtain d where d: "fd_heap s1 f = Some d" by (rule held_live [where f = f]) auto
  obtain r s2 where b: "body f (ops (fd_opsp d)) s1 = Returns (r, s2)"
    and inv2: "fd_inv s2 (held(f := held f + 1))" and c2: "length (fd_ctxs s2) = length (fd_ctxs s1)"
    by (rule keepsD [OF body inv1]) (use c c1 in auto)
  from put_fd_inv [OF inv2 _ free_ok, of f] obtain s3 where
    "put_fd (\<lambda>i. op_free (ops i)) f s2 = Returns ((), s3)" "fd_inv s3 held"
    "fd_ctxs s3 = fd_ctxs s2" by auto
  with g d b c1 c2 show ?thesis by (simp add: with_fd_def)
qed

lemma call_read_keeps: "keeps c f (call_read b p n f (ops i))"
  by (cases "op_read (ops i)")
    (simp_all add: call_read_fun keeps_return keeps_length_or_error read_ok)

lemma call_write_keeps: "keeps c f (call_write b p n f (ops i))"
  by (cases "op_write (ops i)")
    (simp_all add: call_write_fun keeps_return keeps_length_or_error write_ok)

lemma call_ioctl_keeps: "keeps c f (call_ioctl m b n f (ops i))"
  by (rule keepsI) (auto simp: call_ioctl_def split: option.splits elim!: keepsD [OF ioctl_ok])

lemma call_read_dir_keeps: "keeps c f (call_read_dir b n f (ops i))"
  by (cases "op_read_dir (ops i)")
    (simp_all add: call_read_dir_fun keeps_return keeps_length_or_error read_dir_ok)

lemma call_rewind_dir_keeps: "keeps c f (call_rewind_dir f (ops i))"
  by (rule keepsI)
    (auto simp: call_rewind_dir_def split: option.splits elim!: keepsD [OF rewind_dir_ok])

lemma call_close_keeps: "keeps c f (call_close fd c f (ops i))"
  by (rule keepsI) (auto simp: call_close_def split: option.splits elim!: keepsD [OF close_ok])

lemma fstat_keeps: "keeps c f (call_fstat um st f (ops i))"
  by (rule keepsI)
    (auto simp: call_fstat_def split: option.splits prod.splits elim!: keepsD [OF stat_ok]
      intro: fd_inv_world)

lemmas syscall_keeps =
  call_read_keeps call_write_keeps call_ioctl_keeps call_read_dir_keeps call_rewind_dir_keeps
  call_close_keeps fstat_keeps

end

lemma on_vnode_keeps: "keeps c f (on_vnode f g)"
proof (rule keepsI)
  fix s :: "'a fdstate" and held
  assume inv: "fd_inv s held" and "0 < held f"
  then obtain d where "fd_heap s f = Some d" "fd_vnode d \<noteq> None" by (rule held_live)
  then show "\<exists>r s'. on_vnode f g s = Returns (r, s') \<and> fd_inv s' held \<and>
      length (fd_ctxs s') = length (fd_ctxs s)"
    using fd_inv_world [OF inv] by (auto simp: on_vnode_def split: prod.splits)
qed

lemma vfs_free_ok: "frees_ok (\<lambda>_. Some (vfs_free_fd calls))"
  by (auto simp: frees_ok_def vfs_free_fd_def Let_def)

lemma vfs_close_keeps: "keeps c f (vfs_close (\<lambda>_. Some (vfs_free_fd calls)) f fd c)"
proof (rule keepsI)
  fix s :: "'a fdstate" and held
  assume inv: "fd_inv s held" and c: "c < length (fd_ctxs s)"
  obtain s' where "remove_fd (\<lambda>_. Some (vfs_free_fd calls)) c fd s = Returns ((), s')"
    "fd_inv s' held" "length (fd_ctxs s') = length (fd_ctxs s)"
    using remove_fd_inv [OF inv c vfs_free_ok [of calls]] by blast
  then show "\<exists>r s'. vfs_close (\<lambda>_. Some (vfs_free_fd calls)) f fd c s = Returns (r, s') \<and>
      fd_inv s' held \<and> length (fd_ctxs s') = length (fd_ctxs s)"
    by (simp add: vfs_close_def)
qed

interpretation vfs: fd_provider "\<lambda>_. vfsops calls" for calls
  by unfold_locales
    (auto simp: vfsops_def vfs_free_ok vfs_read_def vfs_write_def vfs_ioctl_def vfs_read_dir_def
      vfs_rewind_dir_def vfs_rstat_def on_vnode_keeps vfs_close_keeps)

section \<open>Runs of calls\<close>

text \<open>
  The calls of a process and of the kernel on descriptors, in the order they are made;
  \<open>F_switch\<close> gives the processor to another process.
\<close>

datatype fd_call =
    F_read int nat int nat | F_write int nat int nat | F_ioctl int nat nat nat
  | F_read_dir int nat nat | F_rewind_dir int | F_fstat int nat | F_close int
  | F_kread int nat int nat | F_kwrite int nat int nat | F_kioctl int nat nat nat
  | F_kread_dir int nat nat | F_krewind_dir int | F_kclose int
  | F_dup int bool | F_dup2 int int bool | F_resize int bool | F_switch nat

fun fd_step ::
  "(nat \<Rightarrow> byte list \<Rightarrow> 'w \<Rightarrow> int \<times> 'w) \<Rightarrow> 'w fs_calls \<Rightarrow> fd_call \<Rightarrow> 'w fdstate \<Rightarrow> 'w ret" where
  "fd_step um calls (F_read fd b p n) s = user_read (\<lambda>_. vfsops calls) fd b p n s"
| "fd_step um calls (F_write fd b p n) s = user_write (\<lambda>_. vfsops calls) fd b p n s"
| "fd_step um calls (F_ioctl fd m b n) s = user_ioctl (\<lambda>_. vfsops calls) fd m b n s"
| "fd_step um calls (F_read_dir fd b n) s = user_read_dir (\<lambda>_. vfsops calls) fd b n s"
| "fd_step um calls (F_rewind_dir fd) s = user_rewind_dir (\<lambda>_. vfsops calls) fd s"
| "fd_step um calls (F_fstat fd st) s = user_fstat um (\<lambda>_. vfsops calls) fd st s"
| "fd_step um calls (F_close fd) s = user_close (\<lambda>_. vfsops calls) fd s"
| "fd_step um calls (F_kread fd b p n) s = sys_read (\<lambda>_. vfsops calls) fd b p n s"
| "fd_step um calls (F_kwrite fd b p n) s = sys_write (\<lambda>_. vfsops calls) fd b p n s"
| "fd_step um calls (F_kioctl fd m b n) s = sys_ioctl (\<lambda>_. vfsops calls) fd m b n s"
| "fd_step um calls (F_kread_dir fd b n) s = sys_read_dir (\<lambda>_. vfsops calls) fd b n s"
| "fd_step um calls (F_krewind_dir fd) s = sys_rewind_dir (\<lambda>_. vfsops calls) fd s"
| "fd_step um calls (F_kclose fd) s = sys_close (\<lambda>_. vfsops calls) fd s"
| "fd_step um calls (F_dup fd k) s = vfs_dup (\<lambda>_. Some (vfs_free_fd calls)) fd k s"
| "fd_step um calls (F_dup2 ofd nfd k) s = vfs_dup2 (\<lambda>_. Some (vfs_free_fd calls)) ofd nfd k s"
| "fd_step um calls (F_resize n mem) s = vfs_resize_fd_table (get_current_io_context False s) n mem s"
| "fd_step um calls (F_switch c) s =
     Returns (0, if c < length (fd_ctxs s) then s\<lparr>cur_ctx := c\<rparr> else s)"

fun fd_run ::
  "(nat \<Rightarrow> byte list \<Rightarrow> 'w \<Rightarrow> int \<times> 'w) \<Rightarrow> 'w fs_calls \<Rightarrow> fd_call list \<Rightarrow> 'w fdstate \<Rightarrow> 'w fdstate outcome" where
  "fd_run um calls [] s = Returns s"
| "fd_run um calls (x # xs) s = obind (fd_step um calls x s) (\<lambda>(_, s). fd_run um calls xs s)"

text \<open>The two calls that break the balance: an \<open>ioctl\<close>, and a duplicate onto itself.\<close>

fun unbalanced :: "fd_call \<Rightarrow> bool" where
  "unbalanced (F_ioctl fd m b n) = True"
| "unbalanced (F_dup2 ofd nfd k) = (ofd = nfd)"
| "unbalanced _ = False"

lemma fd_inv_set_table:
  assumes inv: "fd_inv s held" and c: "c < length (fd_ctxs s)" and x: "ctx_ok x"
    and same: "\<And>g. count_list (ioc_fds x) (Some g) = count_list (ioc_fds (ctx s c)) (Some g)"
  shows "fd_inv (set_ctx c x s) held"
proof -
  have "refs_of (set_ctx c x s) held g = refs_of s held g" for g
    using count_list_concat_update [OF c, of ioc_fds x "Some g"] same [of g]
    by (simp add: refs_of_def slots_def set_ctx_def ctx_def)
  with inv x show ?thesis
    by (auto simp: fd_inv_def set_ctx_def dest!: set_update_subset_insert [THEN subsetD])
qed

lemma vfs_resize_fd_table_inv:
  assumes inv: "fd_inv s held" and c: "c < length (fd_ctxs s)"
  shows "\<exists>r s'. vfs_resize_fd_table c n mem s = Returns (r, s') \<and> fd_inv s' held \<and>
                length (fd_ctxs s') = length (fd_ctxs s)"
proof -
  note ok = fd_invD(2) [OF inv c]
  let ?x = "ctx s c"
  have grow: "fd_inv (set_ctx c (?x\<lparr>ioc_fds := ioc_fds ?x @ replicate (nat (n - ioc_size ?x)) None,
        ioc_size := n, ioc_locked := False\<rparr>) s) held" if "ioc_size ?x \<le> n"
    by (rule fd_inv_set_table [OF inv c]) (use that ok in \<open>auto simp: ctx_ok_def\<close>)
  have shrink: "fd_inv (set_ctx c (?x\<lparr>ioc_fds := take (nat n) (ioc_fds ?x),
        ioc_size := n, ioc_locked := False\<rparr>) s) held"
    if "n < ioc_size ?x" "0 \<le> n" "\<forall>f \<in> set (drop (nat n) (ioc_fds ?x)). f = None"
  proof (rule fd_inv_set_table [OF inv c])
    show "ctx_ok (?x\<lparr>ioc_fds := take (nat n) (ioc_fds ?x), ioc_size := n, ioc_locked := False\<rparr>)"
      using that ok by (auto simp: ctx_ok_def)
    fix g
    have "count_list (drop (nat n) (ioc_fds ?x)) (Some g) = 0"
      using that(3) by (auto simp: count_list_0_iff)
    then show "count_list (ioc_fds (?x\<lparr>ioc_fds := take (nat n) (ioc_fds ?x), ioc_size := n,
        ioc_locked := False\<rparr>)) (Some g) = count_list (ioc_fds ?x) (Some g)"
      using count_list_append [of "take (nat n) (ioc_fds ?x)" "drop (nat n) (ioc_fds ?x)" "Some g"]
      by simp
  qed
  from ok c inv grow shrink show ?thesis
    by (auto simp: vfs_resize_fd_table_def lock_ctx_def unlock_ctx_def ctx_ok_def Let_def relock_id)
qed

lemma vfs_dup_inv:
  assumes inv: "fd_inv s held" and fr: "frees_ok frees"
  shows "\<exists>r s'. vfs_dup frees fd k s = Returns (r, s') \<and> fd_inv s' held \<and>
                length (fd_ctxs s') = length (fd_ctxs s)"
proof -
  let ?c = "get_current_io_context k s"
  have c: "?c < length (fd_ctxs s)" by (rule fd_invD(3) [OF inv])
  from get_fd_inv [OF inv c, of fd] show ?thesis
  proof (elim disjE exE conjE)
    assume "get_fd ?c fd s = Returns (None, s)"
    with inv show ?thesis by (simp add: vfs_dup_def)
  next
    fix f s1
    assume g: "get_fd ?c fd s = Returns (Some f, s1)" and inv1: "fd_inv s1 (held(f := held f + 1))"
      and c1: "fd_ctxs s1 = fd_ctxs s"
    from c c1 have cc: "?c < length (fd_ctxs s1)" by simp
    from new_fd_inv [OF inv1 _ cc, of f] obtain r s2 where n: "new_fd ?c f s1 = Returns (r, s2)"
      and len: "length (fd_ctxs s2) = length (fd_ctxs s)"
      and res: "if r < 0 then r = ERR_NO_MORE_HANDLES \<and> s2 = s1 else fd_inv s2 ((held(f := held f + 1))(f := (held(f := held f + 1)) f - 1))"
      unfolding c1 by auto
    have upd: "(held(f := held f + 1))(f := (held(f := held f + 1)) f - 1) = held" by auto
    show ?thesis
    proof (cases "r < 0")
      case False
      with g n len res [unfolded upd] show ?thesis by (simp add: vfs_dup_def Let_def)
    next
      case True
      from put_fd_inv [OF inv1 _ fr, of f] obtain s3 where
        "put_fd frees f s1 = Returns ((), s3)" "fd_inv s3 held" "fd_ctxs s3 = fd_ctxs s1" by auto
      with g n len res True c1 show ?thesis by (simp add: vfs_dup_def Let_def)
    qed
  qed
qed

lemma vfs_dup2_inv:
  assumes inv: "fd_inv s held" and fr: "frees_ok frees" and ne: "ofd \<noteq> nfd"
  shows "\<exists>r s'. vfs_dup2 frees ofd nfd k s = Returns (r, s') \<and> fd_inv s' held \<and>
                length (fd_ctxs s') = length (fd_ctxs s)"
proof -
  let ?c = "get_current_io_context k s"
  have c: "?c < length (fd_ctxs s)" by (rule fd_invD(3) [OF inv])
  let ?x = "ctx s ?c"
  note ok = fd_invD(2) [OF inv c]
  have len: "ioc_size ?x = int (length (ioc_fds ?x))" and ul: "\<not> ioc_locked ?x"
    using ok by (auto simp: ctx_ok_def)
  show ?thesis
  proof (cases "ofd < 0 \<or> nfd < 0 \<or> ioc_size ?x \<le> ofd \<or> ioc_fds ?x ! nat ofd = None \<or> ioc_size ?x \<le> nfd")
    case True
    with inv c ul show ?thesis
      by (auto simp: vfs_dup2_def lock_ctx_def unlock_ctx_def Let_def relock_id)
  next
    case False
    then obtain f where f: "ioc_fds ?x ! nat ofd = Some f" and i: "nat ofd < length (ioc_fds ?x)"
      and j: "nat nfd < length (ioc_fds ?x)" using len by auto
    from slot_live [OF inv c i f] obtain d where d: "fd_heap s f = Some d" by blast
    let ?s1 = "set_desc f (Some (d\<lparr>fd_refs := fd_refs d + 1\<rparr>)) s"
    let ?s2 = "set_ctx ?c (?x\<lparr>ioc_fds := (ioc_fds ?x)[nat nfd := Some f]\<rparr>) ?s1"
    let ?e = "ioc_fds ?x ! nat nfd"
    let ?held = "\<lambda>g. held g + (if ?e = Some g then 1 else 0)"
    have inv2: "fd_inv ?s2 ?held"
      by (rule fd_inv_set_slot [OF fd_inv_ref [OF inv d]]) (use c j ul in auto)
    have run: "vfs_dup2 frees ofd nfd k s =
        (case ?e of None \<Rightarrow> Returns (nfd, ?s2)
         | Some e \<Rightarrow> obind (put_fd frees e ?s2) (\<lambda>(_, s3). Returns (nfd, s3)))"
      using False ne c ul f d
      by (simp add: vfs_dup2_def lock_ctx_def unlock_ctx_def Let_def relock_id split: option.splits)
    show ?thesis
    proof (cases ?e)
      case None
      with run inv2 show ?thesis by simp
    next
      case (Some e)
      have "?held = held(e := held e + 1)" using Some by auto
      with inv2 have "fd_inv ?s2 (held(e := held e + 1))" by simp
      from put_fd_inv [OF this _ fr, of e] obtain s3 where
        "put_fd frees e ?s2 = Returns ((), s3)" "fd_inv s3 held" "fd_ctxs s3 = fd_ctxs ?s2" by auto
      with run Some show ?thesis by simp
    qed
  qed
qed

lemma fd_step_inv:
  assumes inv: "fd_inv s held" and b: "\<not> unbalanced x"
  shows "\<exists>r s'. fd_step um calls x s = Returns (r, s') \<and> fd_inv s' held"
proof -
  note c = fd_invD(3) [OF inv]
  note frame = vfs.with_fd_keeps [OF inv c, where calls = calls]
  note rd = frame [where body = "call_read b p n" for b p n, OF vfs.call_read_keeps]
  note wr = frame [where body = "call_write b p n" for b p n, OF vfs.call_write_keeps]
  note io = frame [where body = "call_ioctl m b n" for m b n, OF vfs.call_ioctl_keeps]
  note dir = frame [where body = "call_read_dir b n" for b n, OF vfs.call_read_dir_keeps]
  note rew = frame [where body = call_rewind_dir, OF vfs.call_rewind_dir_keeps]
  note fst = frame [where body = "call_fstat u st" for u st, OF vfs.fstat_keeps]
  have cl: "\<exists>r s'. with_fd (\<lambda>_. vfsops calls) (get_current_io_context k s) fd
      (call_close fd (get_current_io_context k s)) s = Returns (r, s') \<and> fd_inv s' held" for k fd
    using frame [where body = "call_close fd (get_current_io_context k s)", OF vfs.call_close_keeps, of fd]
    by blast
  show ?thesis
  proof (cases x)
    case (F_read fd b p n)
    with rd inv show ?thesis by (fastforce simp: user_read_def)
  next
    case (F_write fd b p n)
    with wr inv show ?thesis by (fastforce simp: user_write_def)
  next
    case (F_ioctl fd m b n)
    with b show ?thesis by simp
  next
    case (F_read_dir fd b n)
    with dir inv show ?thesis by (fastforce simp: user_read_dir_def)
  next
    case (F_rewind_dir fd)
    with rew inv show ?thesis by (fastforce simp: user_rewind_dir_def)
  next
    case (F_fstat fd st)
    with fst inv show ?thesis by (fastforce simp: user_fstat_def)
  next
    case (F_close fd)
    with cl inv show ?thesis by (fastforce simp: user_close_def Let_def)
  next
    case (F_kread fd b p n)
    with rd inv show ?thesis by (fastforce simp: sys_read_def)
  next
    case (F_kwrite fd b p n)
    with wr inv show ?thesis by (fastforce simp: sys_write_def)
  next
    case (F_kioctl fd m b n)
    with io inv show ?thesis by (fastforce simp: sys_ioctl_def)
  next
    case (F_kread_dir fd b n)
    with dir inv show ?thesis by (fastforce simp: sys_read_dir_def)
  next
    case (F_krewind_dir fd)
    with rew inv show ?thesis by (fastforce simp: sys_rewind_dir_def)
  next
    case (F_kclose fd)
    with cl inv show ?thesis by (fastforce simp: sys_close_def Let_def)
  next
    case (F_dup fd k)
    with vfs_dup_inv [OF inv vfs_free_ok [of calls], of fd k] show ?thesis by auto
  next
    case (F_dup2 ofd nfd k)
    with b vfs_dup2_inv [OF inv vfs_free_ok [of calls], of ofd nfd k] show ?thesis by auto
  next
    case (F_resize n mem)
    with vfs_resize_fd_table_inv [OF inv c, of False n mem] show ?thesis by auto
  next
    case (F_switch d)
    with inv show ?thesis by (auto simp: fd_inv_def refs_of_def slots_def)
  qed
qed

section \<open>Properties\<close>

text \<open>
  (C1) Whatever calls the processes and the kernel make on descriptors (an \<open>ioctl\<close> from user
  space and a duplicate of a handle onto itself apart), in any order, every call returns,
  none touches a freed descriptor, and afterwards the count of every descriptor is the number
  of table slots that point to it: none is freed early and none is leaked.
\<close>

theorem fd_calls_balanced:
  assumes "fd_inv s (\<lambda>_. 0)" and "\<forall>x \<in> set xs. \<not> unbalanced x"
  shows "\<exists>s'. fd_run um calls xs s = Returns s' \<and> fd_inv s' (\<lambda>_. 0)"
  using assms
proof (induction xs arbitrary: s)
  case Nil
  then show ?case by simp
next
  case (Cons x xs)
  from Cons.prems fd_step_inv [of s "\<lambda>_. 0" x um calls] obtain r s1 where
    "fd_step um calls x s = Returns (r, s1)" "fd_inv s1 (\<lambda>_. 0)" by auto
  with Cons show ?case by simp
qed

text \<open>A file system whose calls count themselves in the world, and a process with two handles.\<close>

definition demo_calls :: "nat fs_calls" where
  "demo_calls = \<lparr>fc_read = \<lambda>v k b p n w. ((0, n), w + 1), fc_write = \<lambda>v k b p n w. ((0, n), w + 1),
     fc_ioctl = \<lambda>v k m b n w. (0, w + 1), fc_read_dir = None, fc_rewind_dir = None,
     fc_rstat = \<lambda>v w. ((0, []), w + 1), fc_close = \<lambda>v k w. w + 100, fc_freecookie = \<lambda>v k w. w,
     fc_dec_vnode = \<lambda>v w. w + 1000\<rparr>"

definition demo_desc :: "int \<Rightarrow> fdesc" where
  "demo_desc n = \<lparr>fd_type = 0, fd_refs = n, fd_opsp = 0, fd_vnode = Some 7, fd_cookie = 9\<rparr>"

definition demo_fds :: "nat fdstate" where
  "demo_fds = \<lparr>fd_heap = (\<lambda>_. None)(4 := Some (demo_desc 1)),
     fd_ctxs = [\<lparr>ioc_size = 2, ioc_used = 0, ioc_fds = [None, None], ioc_locked = False\<rparr>,
                \<lparr>ioc_size = 3, ioc_used = 1, ioc_fds = [Some 4, None, None], ioc_locked = False\<rparr>],
     cur_ctx = 1, kern_ctx = 0, fd_world = 0\<rparr>"

lemma demo_fds_inv: "fd_inv demo_fds (\<lambda>_. 0)"
  by (simp add: fd_inv_def demo_fds_def refs_of_def slots_def desc_ok_def ctx_ok_def demo_desc_def)

theorem fd_calls_balanced_witness:
  "\<exists>s'. fd_run (\<lambda>_ _ w. (0, w)) demo_calls
     [F_dup 0 False, F_read 1 8 0 5, F_close 0, F_dup2 1 2 False, F_resize 4 True, F_close 1] demo_fds = Returns s' \<and>
     fd_inv s' (\<lambda>_. 0)"
  by (rule fd_calls_balanced) (simp_all add: demo_fds_inv)

text \<open>
  A new descriptor gets the lowest handle that is free: everything below it is in use,
  the slot was empty, and no other slot, context or descriptor changes. When the table is full
  the caller gets \<open>ERR_NO_MORE_HANDLES\<close> and nothing changes. The context is never left locked.
\<close>

theorem new_fd_lowest_free:
  assumes "ctx_ok (ctx s c)" and "c < length (fd_ctxs s)"
  shows "(None \<notin> set (ioc_fds (ctx s c)) \<and> new_fd c f s = Returns (ERR_NO_MORE_HANDLES, s)) \<or>
         (\<exists>i < length (ioc_fds (ctx s c)).
            ioc_fds (ctx s c) ! i = None \<and> (\<forall>j < i. ioc_fds (ctx s c) ! j \<noteq> None) \<and>
            new_fd c f s = Returns (int i,
              s\<lparr>fd_ctxs := (fd_ctxs s)[c := (ctx s c)\<lparr>ioc_fds := (ioc_fds (ctx s c))[i := Some f],
                                                 ioc_used := ioc_used (ctx s c) + 1\<rparr>]\<rparr>))"
proof -
  have free: "case first_free xs k of None \<Rightarrow> None \<notin> set xs
      | Some i \<Rightarrow> k \<le> i \<and> i - k < length xs \<and> xs ! (i - k) = None \<and> (\<forall>j < i - k. xs ! j \<noteq> None)"
    for xs :: "fdp ptr list" and k
  proof (induction xs arbitrary: k)
    case (Cons x xs)
    from Cons.IH [of "Suc k"] show ?case
      by (auto split: option.splits simp: nth_Cons' Suc_diff_le)
  qed simp
  from free [of "ioc_fds (ctx s c)" 0] new_fd_eq [OF assms(2,1), of f] show ?thesis
    by (auto simp: set_ctx_def split: option.splits)
qed

theorem new_fd_lowest_free_witness:
  "(None \<notin> set (ioc_fds (ctx demo_fds 1)) \<and> new_fd 1 6 demo_fds = Returns (ERR_NO_MORE_HANDLES, demo_fds)) \<or>
   (\<exists>i < length (ioc_fds (ctx demo_fds 1)).
      ioc_fds (ctx demo_fds 1) ! i = None \<and> (\<forall>j < i. ioc_fds (ctx demo_fds 1) ! j \<noteq> None) \<and>
      new_fd 1 6 demo_fds = Returns (int i,
        demo_fds\<lparr>fd_ctxs := (fd_ctxs demo_fds)[1 := (ctx demo_fds 1)\<lparr>
          ioc_fds := (ioc_fds (ctx demo_fds 1))[i := Some 6], ioc_used := ioc_used (ctx demo_fds 1) + 1\<rparr>]\<rparr>))"
  by (rule new_fd_lowest_free) (simp_all add: demo_fds_def ctx_def ctx_ok_def)

text \<open>
  Closing a valid handle succeeds and empties exactly that slot; the descriptor is freed
  when this was its last slot and only loses one reference otherwise; every later read,
  write or close through the handle is refused with \<open>EBADF\<close> and changes nothing.
\<close>

theorem user_close_correct:
  assumes "fd_inv s (\<lambda>_. 0)" and "valid_fd (ctx s (cur_ctx s)) fd"
    and "ioc_fds (ctx s (cur_ctx s)) ! nat fd = Some f"
  shows "\<exists>s'. user_close (\<lambda>_. vfsops calls) fd s = Returns (0, s') \<and> fd_inv s' (\<lambda>_. 0) \<and>
           fd_ctxs s' = (fd_ctxs s)[cur_ctx s := (ctx s (cur_ctx s))\<lparr>
             ioc_fds := (ioc_fds (ctx s (cur_ctx s)))[nat fd := None],
             ioc_used := ioc_used (ctx s (cur_ctx s)) - 1\<rparr>] \<and>
           (fd_heap s' f = None \<longleftrightarrow> slots s f = 1) \<and>
           (\<forall>b p n. \<not> kernel_addr b \<longrightarrow>
              user_read (\<lambda>_. vfsops calls) fd b p n s' = Returns (EBADF, s') \<and>
              user_write (\<lambda>_. vfsops calls) fd b p n s' = Returns (EBADF, s')) \<and>
           user_close (\<lambda>_. vfsops calls) fd s' = Returns (EBADF, s')"
proof -
  let ?c = "cur_ctx s" and ?fr = "\<lambda>_::nat. Some (vfs_free_fd calls)"
  let ?x = "(ctx s ?c)\<lparr>ioc_fds := (ioc_fds (ctx s ?c))[nat fd := None], ioc_used := ioc_used (ctx s ?c) - 1\<rparr>"
  note inv = assms(1)
  have c: "?c < length (fd_ctxs s)" using inv by (simp add: fd_inv_def)
  note ok = fd_invD(2) [OF inv c]
  from get_fd_inv [OF inv c, of fd] assms(2,3) obtain s1 where
    g: "get_fd ?c fd s = Returns (Some f, s1)" and inv1: "fd_inv s1 ((\<lambda>_. 0)(f := 1))"
    and c1: "fd_ctxs s1 = fd_ctxs s" "cur_ctx s1 = ?c" by (auto simp: fun_upd_def)
  have x1: "ctx s1 c' = ctx s c'" for c' using c1 by (simp add: ctx_def)
  from remove_fd_valid [OF inv1 _ vfs_free_ok, of ?c fd] c c1 assms(2) obtain s2 where
    rm: "remove_fd ?fr ?c fd s1 = Returns ((), s2)" and inv2: "fd_inv s2 ((\<lambda>_. 0)(f := 1))"
    and c2: "fd_ctxs s2 = (fd_ctxs s)[?c := ?x]" "cur_ctx s2 = ?c" by (auto simp: x1)
  from put_fd_inv [OF inv2 _ vfs_free_ok, of f calls] obtain s3 where
    p: "put_fd ?fr f s2 = Returns ((), s3)" and inv3': "fd_inv s3 ((\<lambda>_. 0)(f := 1, f := 0))"
    and c3: "fd_ctxs s3 = fd_ctxs s2" "cur_ctx s3 = cur_ctx s2" by auto
  have "(\<lambda>_. 0 :: nat)(f := 1, f := 0) = (\<lambda>_. 0)" by auto
  with inv3' have inv3: "fd_inv s3 (\<lambda>_. 0)" by simp
  from held_live [OF inv1, of f] obtain d where d: "fd_heap s1 f = Some d" by auto
  have run: "user_close (\<lambda>_. vfsops calls) fd s = Returns (0, s3)"
    using g d rm p
    by (simp add: user_close_def get_current_io_context_def with_fd_def call_close_def vfsops_def vfs_close_def)
  have ctxs: "fd_ctxs s3 = (fd_ctxs s)[?c := ?x]" using c2 c3 by simp
  then have "s3\<lparr>fd_heap := fd_heap s3\<rparr> = s3" and x3: "ctx s3 ?c = ?x" using c by (simp_all add: ctx_def)
  have i: "nat fd < length (ioc_fds (ctx s ?c))" using assms(2) ok by (auto simp: valid_fd_def ctx_ok_def)
  have "slots s3 f = slots (set_ctx ?c ?x s) f" using ctxs by (simp add: slots_def set_ctx_def)
  with slots_set_slot [OF c i, of ?x None f] assms(3) have "slots s f = slots s3 f + 1" by simp
  with fd_invD(1) [OF inv3, of f] have freed: "fd_heap s3 f = None \<longleftrightarrow> slots s f = 1"
    by (auto simp: desc_ok_def refs_of_def split: option.splits)
  have "\<not> valid_fd (ctx s3 ?c) fd" using i x3 by (auto simp: valid_fd_def)
  moreover have "?c < length (fd_ctxs s3)" using c ctxs by simp
  moreover have "\<not> ioc_locked (ctx s3 ?c)" using ok x3 by (simp add: ctx_ok_def)
  ultimately have "get_fd ?c fd s3 = Returns (None, s3)" by (simp add: get_fd_eq)
  then have "with_fd ops ?c fd body s3 = Returns (EBADF, s3)" for ops body by (simp add: with_fd_def)
  with run inv3 ctxs freed c2 c3 show ?thesis
    by (simp add: user_close_def user_read_def user_write_def get_current_io_context_def)
qed

theorem user_close_correct_witness:
  "\<exists>s'. user_close (\<lambda>_. vfsops demo_calls) 0 demo_fds = Returns (0, s') \<and> fd_heap s' 4 = None \<and>
        user_close (\<lambda>_. vfsops demo_calls) 0 s' = Returns (EBADF, s')"
  using user_close_correct [OF demo_fds_inv, of 0 4 demo_calls]
  by (auto simp: demo_fds_def ctx_def valid_fd_def slots_def)

text \<open>
  An \<open>ioctl\<close> from user space never drops the reference it took: after the call the
  descriptor has one reference more than it has owners, so it stays allocated after its last
  handle is closed.
\<close>

theorem user_ioctl_leaks:
  assumes "fd_inv s (\<lambda>_. 0)" and "\<not> kernel_addr buffer"
    and "valid_fd (ctx s (cur_ctx s)) fd" and "ioc_fds (ctx s (cur_ctx s)) ! nat fd = Some f"
  shows "\<exists>r s' d. user_ioctl (\<lambda>_. vfsops calls) fd m buffer n s = Returns (r, s') \<and>
           fd_heap s' f = Some d \<and> fd_refs d = int (slots s' f) + 1 \<and> slots s' f = slots s f \<and>
           \<not> fd_inv s' (\<lambda>_. 0)"
proof -
  let ?c = "cur_ctx s"
  note inv = assms(1)
  have c: "?c < length (fd_ctxs s)" using inv by (simp add: fd_inv_def)
  from get_fd_inv [OF inv c, of fd] assms(3,4) obtain s1 where
    g: "get_fd ?c fd s = Returns (Some f, s1)" and inv1: "fd_inv s1 ((\<lambda>_. 0)(f := 1))"
    and c1: "fd_ctxs s1 = fd_ctxs s" by (auto simp: fun_upd_def)
  from inv1 obtain d where d: "fd_heap s1 f = Some d" and "fd_vnode d \<noteq> None"
    and r: "fd_refs d = int (slots s1 f) + 1" by (rule held_live [where f = f]) (simp_all add: refs_of_def)
  then obtain v where v: "fd_vnode d = Some v" by blast
  obtain rc w where w: "fc_ioctl calls v (fd_cookie d) m buffer n (fd_world s1) = (rc, w)" by force
  have run: "user_ioctl (\<lambda>_. vfsops calls) fd m buffer n s = Returns (rc, s1\<lparr>fd_world := w\<rparr>)"
    using assms(2) g d v w
    by (simp add: user_ioctl_def get_current_io_context_def call_ioctl_def vfsops_def vfs_ioctl_def on_vnode_def)
  have "\<not> desc_ok (Some d) (slots s1 f)" using r by (simp add: desc_ok_def)
  with d have "\<not> fd_inv (s1\<lparr>fd_world := w\<rparr>) (\<lambda>_. 0)"
    using fd_invD(1) [of "s1\<lparr>fd_world := w\<rparr>" "\<lambda>_. 0" f] by (auto simp: refs_of_def slots_def)
  with run d r c1 show ?thesis by (auto simp: slots_def)
qed

theorem user_ioctl_leaks_witness:
  "\<exists>r s' d. user_ioctl (\<lambda>_. vfsops demo_calls) 0 5 16 4 demo_fds = Returns (r, s') \<and>
     fd_heap s' 4 = Some d \<and> fd_refs d = int (slots s' 4) + 1 \<and> slots s' 4 = slots demo_fds 4 \<and>
     \<not> fd_inv s' (\<lambda>_. 0)"
  by (rule user_ioctl_leaks [OF demo_fds_inv])
    (simp_all add: demo_fds_def ctx_def valid_fd_def kernel_addr_def KERNEL_BASE_def)

text \<open>
  Duplicating a valid handle onto itself returns that handle with the context's mutex
  still locked: every later call of the process on a handle waits for it for ever.
\<close>

theorem vfs_dup2_same_handle_locks:
  assumes "fd_inv s (\<lambda>_. 0)" and "valid_fd (ctx s (get_current_io_context k s)) fd"
  shows "\<exists>s'. vfs_dup2 frees fd fd k s = Returns (fd, s') \<and>
           (\<forall>fd'. get_fd (get_current_io_context k s) fd' s' = Blocks)"
proof -
  have c: "get_current_io_context k s < length (fd_ctxs s)" by (rule fd_invD(3) [OF assms(1)])
  with fd_invD(2) [OF assms(1) c] assms(2) show ?thesis
    by (auto simp: vfs_dup2_def valid_fd_def lock_ctx_def ctx_ok_def Let_def get_fd_def)
qed

theorem vfs_dup2_same_handle_locks_witness:
  "\<exists>s'. vfs_dup2 (\<lambda>_. Some (vfs_free_fd demo_calls)) 0 0 False demo_fds = Returns (0, s') \<and>
     (\<forall>fd'. get_fd (get_current_io_context False demo_fds) fd' s' = Blocks)"
  by (rule vfs_dup2_same_handle_locks [OF demo_fds_inv])
    (simp add: demo_fds_def ctx_def valid_fd_def get_current_io_context_def)

end
