(* ===== verification/Usermem.thy ===== *)
theory Usermem
  imports Prelude
begin

text \<open>
  Copies between the kernel and user memory: \<open>user_memcpy\<close> and its relatives in \<open>vm.c\<close> and
  \<open>arch/x86/arch_cpu.c\<close>. User memory is a partial map from addresses to bytes; an access to an
  address outside it is a page fault, which the thread's fault handler turns into the error
  return of the copy in progress. What was copied before the fault stays copied.
\<close>

type_synonym byte = "8 word"
type_synonym umem = "nat \<Rightarrow> byte option"

definition ERR_VM_BAD_USER_MEMORY :: int where
  "ERR_VM_BAD_USER_MEMORY = - 4096 - 10"

text \<open>A copy in: the bytes that arrived and the result.\<close>

fun user_memcpy_in :: "umem \<Rightarrow> nat \<Rightarrow> nat \<Rightarrow> byte list \<times> int" where
  "user_memcpy_in um src 0 = ([], 0)"
| "user_memcpy_in um src (Suc n) =
     (case um src of
        None \<Rightarrow> ([], ERR_VM_BAD_USER_MEMORY)
      | Some b \<Rightarrow> (case user_memcpy_in um (Suc src) n of (bs, rc) \<Rightarrow> (b # bs, rc)))"

fun user_memcpy_out :: "umem \<Rightarrow> nat \<Rightarrow> byte list \<Rightarrow> int \<times> umem" where
  "user_memcpy_out um dest [] = (0, um)"
| "user_memcpy_out um dest (b # bs) =
     (if um dest = None then (ERR_VM_BAD_USER_MEMORY, um)
      else user_memcpy_out (um(dest := Some b)) (Suc dest) bs)"

text \<open>\<open>user_strncpy\<close> stops after the terminating zero or after \<open>n\<close> bytes.\<close>

fun user_strncpy_in :: "umem \<Rightarrow> nat \<Rightarrow> nat \<Rightarrow> byte list \<times> int" where
  "user_strncpy_in um src 0 = ([], 0)"
| "user_strncpy_in um src (Suc n) =
     (case um src of
        None \<Rightarrow> ([], ERR_VM_BAD_USER_MEMORY)
      | Some b \<Rightarrow>
          (if b = 0 then ([0], 0)
           else (case user_strncpy_in um (Suc src) n of (bs, rc) \<Rightarrow> (b # bs, rc))))"

text \<open>\<open>user_strcpy\<close> out of the kernel: the string with its terminating zero.\<close>

definition user_strcpy_out :: "umem \<Rightarrow> nat \<Rightarrow> byte list \<Rightarrow> int \<times> umem" where
  "user_strcpy_out um dest str =
     user_memcpy_out um dest (takeWhile (\<lambda>b. b \<noteq> 0) str @ [0])"

definition user_memset :: "umem \<Rightarrow> nat \<Rightarrow> byte \<Rightarrow> nat \<Rightarrow> int \<times> umem" where
  "user_memset um s c n = user_memcpy_out um s (replicate n c)"

section \<open>Lemmas\<close>

definition mapped :: "umem \<Rightarrow> nat \<Rightarrow> nat \<Rightarrow> bool" where
  "mapped um a n \<longleftrightarrow> (\<forall>i < n. um (a + i) \<noteq> None)"

definition ubytes :: "umem \<Rightarrow> nat \<Rightarrow> nat \<Rightarrow> byte list" where
  "ubytes um a n = map (\<lambda>i. the (um (a + i))) [0..<n]"

lemma mapped_0 [simp]: "mapped um a 0"
  by (simp add: mapped_def)

lemma mapped_Suc [simp]: "mapped um a (Suc n) \<longleftrightarrow> um a \<noteq> None \<and> mapped um (Suc a) n"
  by (auto simp: mapped_def less_Suc_eq_0_disj)

lemma ubytes_0 [simp]: "ubytes um a 0 = []"
  by (simp add: ubytes_def)

lemma ubytes_Suc [simp]: "ubytes um a (Suc n) = the (um a) # ubytes um (Suc a) n"
  by (simp add: ubytes_def upt_conv_Cons map_Suc_upt [symmetric] del: upt_Suc map_Suc_upt)

lemma length_ubytes [simp]: "length (ubytes um a n) = n"
  by (simp add: ubytes_def)

lemma mapped_add: "mapped um a (m + n) \<longleftrightarrow> mapped um a m \<and> mapped um (a + m) n"
  by (induction m arbitrary: a) auto

lemma ubytes_add: "ubytes um a (m + n) = ubytes um a m @ ubytes um (a + m) n"
  by (induction m arbitrary: a) auto

lemma user_memcpy_in_ok: "mapped um a n \<Longrightarrow> user_memcpy_in um a n = (ubytes um a n, 0)"
  by (induction n arbitrary: a) auto

lemma user_memcpy_in_result: "snd (user_memcpy_in um a n) = (if mapped um a n then 0 else ERR_VM_BAD_USER_MEMORY)"
  by (induction n arbitrary: a) (auto simp: case_prod_unfold split: option.splits)

lemma user_memcpy_in_length: "length (fst (user_memcpy_in um a n)) \<le> n"
  by (induction n arbitrary: a) (auto simp: case_prod_unfold split: option.splits)

lemma mapped_mono: "dom um \<subseteq> dom um' \<Longrightarrow> mapped um a n \<Longrightarrow> mapped um' a n"
  by (force simp: mapped_def)

lemma user_memcpy_out_dom: "dom (snd (user_memcpy_out um a bs)) = dom um"
  by (induction bs arbitrary: um a) (auto split: if_splits)

lemma user_memcpy_out_below: "c < a \<Longrightarrow> snd (user_memcpy_out um a bs) c = um c"
  by (induction bs arbitrary: um a) auto

lemma user_memcpy_out_ok:
  "mapped um a (length bs) \<Longrightarrow>
     \<exists>um'. user_memcpy_out um a bs = (0, um') \<and> ubytes um' a (length bs) = bs \<and>
           (\<forall>c. c < a \<or> a + length bs \<le> c \<longrightarrow> um' c = um c)"
proof (induction bs arbitrary: um a)
  case (Cons b bs)
  have "mapped (um(a := Some b)) (Suc a) (length bs)"
    by (rule mapped_mono [of um]) (use Cons.prems in auto)
  from Cons.IH [OF this] obtain um' where "user_memcpy_out (um(a := Some b)) (Suc a) bs = (0, um')"
    and "ubytes um' (Suc a) (length bs) = bs"
    and fr: "\<forall>c. c < Suc a \<or> Suc a + length bs \<le> c \<longrightarrow> um' c = (um(a := Some b)) c" by blast
  moreover have "um' a = Some b" using fr by simp
  ultimately show ?case using Cons.prems by auto
qed simp

lemma user_memcpy_out_append:
  "user_memcpy_out um a (xs @ ys) =
     (case user_memcpy_out um a xs of (rc, um') \<Rightarrow>
        if rc = 0 then user_memcpy_out um' (a + length xs) ys else (rc, um'))"
  by (induction xs arbitrary: um a) (simp_all add: ERR_VM_BAD_USER_MEMORY_def case_prod_unfold)

lemma user_memcpy_out_result: "fst (user_memcpy_out um a bs) \<in> {0, ERR_VM_BAD_USER_MEMORY}"
  by (induction bs arbitrary: um a) auto

lemma user_memcpy_out_fault:
  "\<not> mapped um a (length bs) \<Longrightarrow> fst (user_memcpy_out um a bs) = ERR_VM_BAD_USER_MEMORY"
proof (induction bs arbitrary: um a)
  case (Cons b bs)
  show ?case
  proof (cases "um a = None")
    case False
    with Cons.prems have "\<not> mapped um (Suc a) (length bs)" by simp
    moreover have "dom (um(a := Some b)) = dom um" using False by auto
    ultimately have "\<not> mapped (um(a := Some b)) (Suc a) (length bs)"
      using mapped_mono [of "um(a := Some b)" um] by auto
    with Cons.IH False show ?thesis by simp
  qed simp
qed simp

end
