(* ===== verification/Cbuf.thy ===== *)
theory Cbuf
  imports Usermem "HOL-Library.Multiset"
begin

unbundle bit_operations_syntax

text \<open>
  The chained buffers of \<open>cbuf.c\<close>, in which ports keep their messages. The region of 2048
  buffers is an array: a buffer's address is its index. A chain is a singly linked list of
  buffers, each with a window (\<open>data\<close>, \<open>len\<close>) into its own 2028 bytes of storage. Buffers
  that are not in use lie on one of two free lists, or have never been handed out by the
  allocation bitmap. The spin locks make every routine one atomic step and have no state
  here; the semaphore that guards the free list has, because \<open>cbuf_get_chain\<close> drops and takes it.
\<close>

section \<open>State\<close>

definition CBUF_LEN :: nat where
  "CBUF_LEN = 2048"

definition CBUF_DAT :: nat where
  "CBUF_DAT = CBUF_LEN - 4 - 2 * 4 - 4 - 4"

definition CBUF_BITMAP_SIZE :: nat where
  "CBUF_BITMAP_SIZE = (4 * 1024 * 1024) div CBUF_LEN"

definition ALLOCATE_CHUNK :: nat where
  "ALLOCATE_CHUNK = 4096 * 16"

definition CHAIN_HEAD :: "32 word" where
  "CHAIN_HEAD = 1"

definition CHAIN_TAIL :: "32 word" where
  "CHAIN_TAIL = 2"

record cbuf =
  cb_next :: "nat ptr"
  cb_len :: nat
  cb_total_len :: nat
  cb_data :: nat
  cb_flags :: "32 word"
  cb_dat :: "byte list"

type_synonym cmem = "nat \<Rightarrow> cbuf"

record cbufst =
  cb_mem :: cmem
  cb_bitmap :: "nat \<Rightarrow> bool"
  cb_free :: "nat ptr"
  cb_noblock :: "nat ptr"
  cb_sem_held :: bool

definition is_head :: "cbuf \<Rightarrow> bool" where
  "is_head b \<longleftrightarrow> cb_flags b AND CHAIN_HEAD \<noteq> 0"

definition take_sem :: "cbufst \<Rightarrow> cbufst outcome" where
  "take_sem s = (if cb_sem_held s then Blocks else Returns (s\<lparr>cb_sem_held := True\<rparr>))"

definition drop_sem :: "cbufst \<Rightarrow> cbufst" where
  "drop_sem s = s\<lparr>cb_sem_held := False\<rparr>"

section \<open>Allocation\<close>

definition initialize_cbuf :: "cbuf \<Rightarrow> cbuf" where
  "initialize_cbuf b = b\<lparr>cb_len := CBUF_DAT, cb_data := 0, cb_flags := 0, cb_total_len := 0\<rparr>"

text \<open>
  The scan of \<open>_cbuf_alloc\<close>: \<open>start\<close> is \<open>None\<close> for \<open>-1\<close>. It takes the first run of free
  buffers, up to the size asked for.
\<close>

function alloc_scan ::
  "nat \<Rightarrow> nat \<Rightarrow> nat option \<Rightarrow> nat \<Rightarrow> (nat \<Rightarrow> bool) \<Rightarrow> nat option \<times> nat \<times> (nat \<Rightarrow> bool)" where
  "alloc_scan sz i start len_found bm =
     (if i < CBUF_BITMAP_SIZE then
        (if \<not> bm i then
           (let bm1 = bm(i := True);
                start1 = (if start = None then Some i else start);
                len1 = u32_add len_found CBUF_LEN
            in if sz \<le> len1 then (start1, len1, bm1) else alloc_scan sz (Suc i) start1 len1 bm1)
         else if start \<noteq> None then (start, len_found, bm)
         else alloc_scan sz (Suc i) start len_found bm)
      else (start, len_found, bm))"
  by pat_completeness auto
termination
  by (relation "measure (\<lambda>(sz, i, start, len_found, bm). CBUF_BITMAP_SIZE - i)") auto

declare alloc_scan.simps [simp del]

definition cbuf_alloc :: "nat \<Rightarrow> cbufst \<Rightarrow> nat ptr \<times> nat \<times> cbufst" where
  "cbuf_alloc sz s =
     (case alloc_scan sz 0 None 0 (cb_bitmap s) of
        (start, len_found, bm) \<Rightarrow>
          (start, if start = None then 0 else len_found, s\<lparr>cb_bitmap := bm\<rparr>))"

text \<open>
  The inner loop of \<open>allocate_cbuf_mem\<close>. It leaves \<open>buf\<close> one past the last buffer of the run.
\<close>

fun init_bufs ::
  "nat \<Rightarrow> nat \<Rightarrow> nat ptr \<Rightarrow> nat ptr \<Rightarrow> nat \<Rightarrow> cmem \<Rightarrow> nat \<times> nat ptr \<times> cmem" where
  "init_bufs 0 buf last_buf head_buf sz m = (buf, last_buf, m)"
| "init_bufs (Suc i) buf last_buf head_buf sz m =
     (let m1 = m(buf := initialize_cbuf (m buf));
          m2 = (case last_buf of
                  None \<Rightarrow> m1
                | Some l \<Rightarrow> m1(l := (m1 l)\<lparr>cb_next := Some buf\<rparr>));
          m3 = (if Some buf = head_buf then
                  m2(buf := (m2 buf)\<lparr>cb_flags := cb_flags (m2 buf) OR CHAIN_HEAD,
                                     cb_total_len := (sz div CBUF_LEN) * CBUF_DAT\<rparr>)
                else m2)
      in init_bufs i (Suc buf) (Some buf) head_buf sz m3)"

partial_function (option) alloc_runs ::
  "nat \<Rightarrow> nat ptr \<Rightarrow> nat ptr \<Rightarrow> nat ptr \<Rightarrow> cbufst \<Rightarrow> (nat ptr \<times> nat ptr \<times> cbufst) option" where
  "alloc_runs sz buf last_buf head_buf s =
     (if 0 < sz then
        (case cbuf_alloc sz s of
           (b, found, s1) \<Rightarrow>
             (case b of
                None \<Rightarrow> Some (buf, head_buf, s1)
              | Some start \<Rightarrow>
                  (let size1 = u32_sub sz found;
                       head1 = (if head_buf = None then Some start else head_buf)
                   in case init_bufs (found div CBUF_LEN) start last_buf head1 size1 (cb_mem s1) of
                        (buf1, last1, m1) \<Rightarrow>
                          alloc_runs size1 (Some buf1) last1 head1 (s1\<lparr>cb_mem := m1\<rparr>))))
      else Some (buf, head_buf, s))"

definition page_align :: "nat \<Rightarrow> nat" where
  "page_align sz = u32_add sz 4095 div 4096 * 4096"

text \<open>
  The last write goes to \<open>buf\<close>, the buffer after the run: outside the region when the run is
  the last one.
\<close>

definition allocate_cbuf_mem :: "nat \<Rightarrow> cbufst \<Rightarrow> (nat ptr \<times> cbufst) outcome" where
  "allocate_cbuf_mem sz s =
     obind (looped (alloc_runs (page_align sz) None None None s)) (\<lambda>(buf, head_buf, s1).
       case buf of
         None \<Rightarrow> Returns (head_buf, s1)
       | Some b \<Rightarrow>
           if b < CBUF_BITMAP_SIZE then
             Returns (head_buf,
               s1\<lparr>cb_mem := (cb_mem s1)(b := (cb_mem s1 b)
                    \<lparr>cb_next := None, cb_flags := cb_flags (cb_mem s1 b) OR CHAIN_TAIL\<rparr>)\<rparr>)
           else Faults)"

partial_function (option) clear_chain :: "nat ptr \<Rightarrow> nat ptr \<Rightarrow> cmem \<Rightarrow> (nat ptr \<times> cmem) option" where
  "clear_chain buf tl_buf m =
     (case buf of
        None \<Rightarrow> Some (tl_buf, m)
      | Some b \<Rightarrow>
          (let m1 = m(b := initialize_cbuf (m b)) in clear_chain (cb_next (m1 b)) (Some b) m1))"

definition cbuf_free_chain_noblock :: "nat ptr \<Rightarrow> cbufst \<Rightarrow> cbufst outcome" where
  "cbuf_free_chain_noblock buf s =
     (if buf = None then Returns s
      else obind (looped (clear_chain buf None (cb_mem s))) (\<lambda>(last_buf, m).
        case last_buf of
          None \<Rightarrow> Faults
        | Some l \<Rightarrow>
            Returns (s\<lparr>cb_mem := m(l := (m l)\<lparr>cb_next := cb_noblock s\<rparr>), cb_noblock := buf\<rparr>)))"

definition cbuf_free_chain :: "nat ptr \<Rightarrow> cbufst \<Rightarrow> cbufst outcome" where
  "cbuf_free_chain buf s =
     (if buf = None then Returns s
      else obind (looped (clear_chain buf None (cb_mem s))) (\<lambda>(last_buf, m).
        obind (take_sem (s\<lparr>cb_mem := m\<rparr>)) (\<lambda>s1.
        case last_buf of
          None \<Rightarrow> Faults
        | Some l \<Rightarrow>
            Returns (drop_sem
              (s1\<lparr>cb_mem := (cb_mem s1)(l := (cb_mem s1 l)\<lparr>cb_next := cb_free s1\<rparr>),
                  cb_free := buf\<rparr>)))))"

text \<open>
  The loop of \<open>cbuf_get_chain\<close>; \<open>None\<close> inside the result is its \<open>return NULL\<close>. It is entered
  with the semaphore taken and left with it released.
\<close>

partial_function (option) get_loop ::
  "nat \<Rightarrow> nat ptr \<Rightarrow> nat ptr \<Rightarrow> nat \<Rightarrow> cbufst \<Rightarrow>
   ((nat ptr \<times> nat ptr \<times> nat) option \<times> cbufst) outcome option" where
  "get_loop len chn tl_buf chain_len s =
     (if chain_len < len then
        (case cb_free s of
           None \<Rightarrow>
             (case allocate_cbuf_mem ALLOCATE_CHUNK (drop_sem s) of
                Faults \<Rightarrow> Some Faults
              | Blocks \<Rightarrow> Some Blocks
              | Returns r \<Rightarrow>
                  (case r of (temp, s1) \<Rightarrow>
                    if temp = None then
                      Some (obind (if chn = None then Returns s1 else cbuf_free_chain chn s1)
                        (\<lambda>s2. Returns (None, s2)))
                    else
                      (case obind (cbuf_free_chain temp s1) take_sem of
                         Faults \<Rightarrow> Some Faults
                       | Blocks \<Rightarrow> Some Blocks
                       | Returns s2 \<Rightarrow> get_loop len chn tl_buf chain_len s2)))
         | Some temp \<Rightarrow>
             (let b = cb_mem s temp
              in get_loop len (Some temp) (if chn = None then Some temp else tl_buf)
                   (u32_add chain_len (cb_len b))
                   (s\<lparr>cb_free := cb_next b, cb_mem := (cb_mem s)(temp := b\<lparr>cb_next := chn\<rparr>)\<rparr>)))
      else Some (Returns (Some (chn, tl_buf, chain_len), drop_sem s)))"

text \<open>The end of both routines that build a chain: the first and the last buffer are fixed up.\<close>

definition fixup_chain :: "nat \<Rightarrow> nat ptr \<Rightarrow> nat ptr \<Rightarrow> nat \<Rightarrow> cbufst \<Rightarrow> (nat ptr \<times> cbufst) outcome" where
  "fixup_chain len chn tl_buf chain_len s =
     (case (chn, tl_buf) of
        (Some h, Some t) \<Rightarrow>
          (let m = cb_mem s;
               m1 = m(h := (m h)\<lparr>cb_total_len := len, cb_flags := cb_flags (m h) OR CHAIN_HEAD\<rparr>);
               m2 = m1(t := (m1 t)\<lparr>cb_len := u32_sub (cb_len (m1 t)) (u32_sub chain_len len),
                                   cb_flags := cb_flags (m1 t) OR CHAIN_TAIL\<rparr>)
           in Returns (chn, s\<lparr>cb_mem := m2\<rparr>))
      | _ \<Rightarrow> Faults)"

definition cbuf_get_chain :: "nat \<Rightarrow> cbufst \<Rightarrow> (nat ptr \<times> cbufst) outcome" where
  "cbuf_get_chain len s =
     (if len = 0 then Faults
      else obind (take_sem s) (\<lambda>s1.
        obind (looped_outcome (get_loop len None None 0 s1)) (\<lambda>(r, s2).
          case r of
            None \<Rightarrow> Returns (None, s2)
          | Some (chn, tl_buf, chain_len) \<Rightarrow> fixup_chain len chn tl_buf chain_len s2)))"

partial_function (option) get_noblock_loop ::
  "nat \<Rightarrow> nat ptr \<Rightarrow> nat ptr \<Rightarrow> nat \<Rightarrow> cbufst \<Rightarrow>
   ((nat ptr \<times> nat ptr \<times> nat) option \<times> cbufst) outcome option" where
  "get_noblock_loop len chn tl_buf chain_len s =
     (if chain_len < len then
        (case cb_noblock s of
           None \<Rightarrow>
             Some (obind (if chn = None then Returns s else cbuf_free_chain_noblock chn s)
               (\<lambda>s2. Returns (None, s2)))
         | Some temp \<Rightarrow>
             (let b = cb_mem s temp
              in get_noblock_loop len (Some temp) (if chn = None then Some temp else tl_buf)
                   (u32_add chain_len (cb_len b))
                   (s\<lparr>cb_noblock := cb_next b, cb_mem := (cb_mem s)(temp := b\<lparr>cb_next := chn\<rparr>)\<rparr>)))
      else Some (Returns (Some (chn, tl_buf, chain_len), s)))"

definition cbuf_get_chain_noblock :: "nat \<Rightarrow> cbufst \<Rightarrow> (nat ptr \<times> cbufst) outcome" where
  "cbuf_get_chain_noblock len s =
     obind (looped_outcome (get_noblock_loop len None None 0 s)) (\<lambda>(r, s1).
       case r of
         None \<Rightarrow> Returns (None, s1)
       | Some (chn, tl_buf, chain_len) \<Rightarrow> fixup_chain len chn tl_buf chain_len s1)"

section \<open>Start-up\<close>

text \<open>
  \<open>cbuf_init\<close>: the semaphore and the two regions come from other parts of the kernel; a
  failed creation of the first region panics, and the check of the bitmap region tests the
  first region again. The bitmap region itself is then written: without it the loop faults.
\<close>

definition cbuf_init :: "int \<Rightarrow> int \<Rightarrow> int \<Rightarrow> cmem \<Rightarrow> (int \<times> cbufst) outcome" where
  "cbuf_init free_list_sem cbuf_region_id cbuf_bitmap_region_id region =
     (if free_list_sem < 0 \<or> cbuf_region_id < 0 \<or> cbuf_bitmap_region_id < 0 then Faults
      else
        (let s = \<lparr>cb_mem = region, cb_bitmap = (\<lambda>_. False), cb_free = None, cb_noblock = None,
                  cb_sem_held = False\<rparr>
         in obind (allocate_cbuf_mem ALLOCATE_CHUNK s) (\<lambda>(buf, s1).
              if buf = None then Returns (ENOMEM, s1)
              else obind (cbuf_free_chain_noblock buf s1) (\<lambda>s2.
                obind (allocate_cbuf_mem ALLOCATE_CHUNK s2) (\<lambda>(buf, s3).
                  if buf = None then Returns (ENOMEM, s3)
                  else obind (cbuf_free_chain buf s3) (\<lambda>s4. Returns (B_NO_ERROR, s4)))))))"

section \<open>The region as a whole\<close>

text \<open>
  \<open>cb_rep s F N cs k\<close>: the first \<open>k\<close> chunks of 32 buffers have been handed out, and each of
  their buffers is on the free list \<open>F\<close>, on the non-blocking list \<open>N\<close>, or on exactly one of the
  live chains \<open>cs\<close>. Buffers on a free list are reset.
\<close>

definition hd_ptr :: "nat list \<Rightarrow> nat ptr" where
  "hd_ptr xs = (case xs of [] \<Rightarrow> None | x # _ \<Rightarrow> Some x)"

definition nexts :: "cmem \<Rightarrow> nat \<Rightarrow> nat ptr" where
  "nexts m = (\<lambda>i. cb_next (m i))"

definition buf_ok :: "cbuf \<Rightarrow> bool" where
  "buf_ok b \<longleftrightarrow> length (cb_dat b) = CBUF_DAT \<and> cb_data b + cb_len b \<le> CBUF_DAT"

definition reset_buf :: "cbuf \<Rightarrow> bool" where
  "reset_buf b \<longleftrightarrow> cb_len b = CBUF_DAT \<and> cb_data b = 0 \<and> cb_flags b = 0 \<and> cb_total_len b = 0"

definition cb_rep :: "cbufst \<Rightarrow> nat list \<Rightarrow> nat list \<Rightarrow> nat list list \<Rightarrow> nat \<Rightarrow> bool" where
  "cb_rep s F N cs k \<longleftrightarrow>
     cb_free s = hd_ptr F \<and> cb_noblock s = hd_ptr N \<and>
     (\<forall>c \<in> set (F # N # cs). chain (nexts (cb_mem s)) (hd_ptr c) c) \<and>
     distinct (concat (F # N # cs)) \<and> set (concat (F # N # cs)) = {..<32 * k} \<and>
     (\<forall>i. cb_bitmap s i \<longleftrightarrow> i < 32 * k) \<and> k \<le> 63 \<and>
     (\<forall>i \<ge> 32 * k. cb_next (cb_mem s i) = None) \<and>
     (\<forall>i. buf_ok (cb_mem s i)) \<and> (\<forall>i \<in> set F \<union> set N. reset_buf (cb_mem s i))"

lemma hd_ptr_simps [simp]: "hd_ptr [] = None" "hd_ptr (x # xs) = Some x"
  by (simp_all add: hd_ptr_def)

lemma hd_ptr_append: "hd_ptr (xs @ ys) = (if xs = [] then hd_ptr ys else hd_ptr xs)"
  by (cases xs) auto

lemma chain_hd_ptr: "chain nx p xs \<Longrightarrow> p = hd_ptr xs"
  by (cases xs) auto

lemma nexts_upd [simp]: "nexts (m(i := b)) = (nexts m)(i := cb_next b)"
  by (auto simp: nexts_def)

lemma chain_nexts_cong:
  "(\<And>i. i \<in> set xs \<Longrightarrow> cb_next (m i) = cb_next (m' i)) \<Longrightarrow> chain (nexts m) p xs = chain (nexts m') p xs"
  by (rule lseg_cong) (simp add: nexts_def)

lemma CBUF_DAT_eq: "CBUF_DAT = 2028"
  by (simp add: CBUF_DAT_def CBUF_LEN_def)

lemma CBUF_BITMAP_SIZE_eq: "CBUF_BITMAP_SIZE = 2048"
  by (simp add: CBUF_BITMAP_SIZE_def CBUF_LEN_def)

lemma initialize_cbuf_simps [simp]:
  "cb_next (initialize_cbuf b) = cb_next b" "cb_dat (initialize_cbuf b) = cb_dat b"
  "cb_len (initialize_cbuf b) = CBUF_DAT" "cb_data (initialize_cbuf b) = 0"
  "cb_flags (initialize_cbuf b) = 0" "cb_total_len (initialize_cbuf b) = 0"
  by (simp_all add: initialize_cbuf_def)

lemma initialize_buf_ok: "buf_ok b \<Longrightarrow> buf_ok (initialize_cbuf b)"
  by (simp add: buf_ok_def)

lemma reset_initialize [simp]: "reset_buf (initialize_cbuf b)"
  by (simp add: reset_buf_def)

lemma reset_buf_next [simp]: "reset_buf (b\<lparr>cb_next := p\<rparr>) = reset_buf b"
  by (simp add: reset_buf_def)

lemma buf_ok_next [simp]: "buf_ok (b\<lparr>cb_next := p\<rparr>) = buf_ok b"
  by (simp add: buf_ok_def)

section \<open>The allocator takes the next chunk\<close>

lemma alloc_scan_skip:
  assumes "i \<le> n" and "n \<le> CBUF_BITMAP_SIZE"
  shows "alloc_scan sz i None f (\<lambda>j. j < n) = alloc_scan sz n None f (\<lambda>j. j < n)"
  using assms(1)
proof (induction rule: inc_induct)
  case (step i)
  with assms(2) show ?case by (subst alloc_scan.simps) simp
qed simp

lemma alloc_scan_run:
  assumes "n + 32 \<le> CBUF_BITMAP_SIZE" and "j < 32"
  shows "alloc_scan 65536 (n + j) (if j = 0 then None else Some n) (2048 * j) (\<lambda>i. i < n + j) =
         (Some n, 65536, \<lambda>i. i < n + 32)"
  using assms(2)
proof (induction "31 - j" arbitrary: j)
  case 0
  then have "j = 31" by simp
  moreover have "(\<lambda>i. i < n + 31)(n + 31 := True) = (\<lambda>i. i < n + 32)" by (auto simp: fun_eq_iff)
  ultimately show ?case
    using assms(1) by (subst alloc_scan.simps) (simp add: CBUF_LEN_def)
next
  case (Suc x)
  then have j: "j < 31" by simp
  have "(\<lambda>i. i < n + j)(n + j := True) = (\<lambda>i. i < n + Suc j)" by (auto simp: fun_eq_iff)
  moreover have "u32_add (2048 * j) CBUF_LEN = 2048 * Suc j" using j by (simp add: CBUF_LEN_def)
  ultimately show ?case
    using Suc(1) [of "Suc j"] Suc(2) j assms(1)
    by (subst alloc_scan.simps) (cases j; simp add: Let_def)
qed

lemma cbuf_alloc_chunk:
  assumes "cb_bitmap s = (\<lambda>i. i < 32 * k)" and "k < 64"
  shows "cbuf_alloc 65536 s = (Some (32 * k), 65536, s\<lparr>cb_bitmap := (\<lambda>i. i < 32 * Suc k)\<rparr>)"
proof -
  have "alloc_scan 65536 0 None 0 (\<lambda>i. i < 32 * k) = (Some (32 * k), 65536, \<lambda>i. i < 32 * k + 32)"
    using alloc_scan_skip [of 0 "32 * k" 65536 0] alloc_scan_run [of "32 * k" 0] assms(2)
    by (simp add: CBUF_BITMAP_SIZE_eq)
  with assms(1) show ?thesis by (simp add: cbuf_alloc_def add.commute)
qed

lemma init_bufs_spec:
  assumes "init_bufs c b l h sz m = (b', l', m')" and "\<And>x. l = Some x \<Longrightarrow> x < b"
    and "\<And>i. b \<le> i \<Longrightarrow> cb_next (m i) = None" and "\<And>i. length (cb_dat (m i)) = CBUF_DAT"
  shows "b' = b + c \<and> l' = (if c = 0 then l else Some (b + c - 1)) \<and>
    (\<forall>i. cb_dat (m' i) = cb_dat (m i)) \<and>
    (\<forall>i. i < b \<and> Some i \<noteq> l \<or> b + c \<le> i \<longrightarrow> m' i = m i) \<and>
    (\<forall>i. b \<le> i \<and> i < b + c \<longrightarrow> buf_ok (m' i) \<and>
         cb_next (m' i) = (if Suc i < b + c then Some (Suc i) else None)) \<and>
    (\<forall>x. l = Some x \<longrightarrow> m' x = (m x)\<lparr>cb_next := if c = 0 then cb_next (m x) else Some b\<rparr>)"
  using assms
proof (induction c arbitrary: b l m)
  case 0
  then show ?case by simp
next
  case (Suc c)
  define m1 where "m1 = m(b := initialize_cbuf (m b))"
  define m2 where "m2 = (case l of None \<Rightarrow> m1 | Some x \<Rightarrow> m1(x := (m1 x)\<lparr>cb_next := Some b\<rparr>))"
  define m3 where "m3 = (if Some b = h then m2(b := (m2 b)\<lparr>cb_flags := cb_flags (m2 b) OR CHAIN_HEAD,
    cb_total_len := (sz div CBUF_LEN) * CBUF_DAT\<rparr>) else m2)"
  have run: "init_bufs c (Suc b) (Some b) h sz m3 = (b', l', m')"
    using Suc.prems(1) unfolding init_bufs.simps Let_def m1_def m2_def m3_def .
  have m3: "\<And>i. cb_dat (m3 i) = cb_dat (m i)" "\<And>i. i \<noteq> b \<Longrightarrow> Some i \<noteq> l \<Longrightarrow> m3 i = m i"
    "\<And>x. l = Some x \<Longrightarrow> m3 x = (m x)\<lparr>cb_next := Some b\<rparr>"
    "cb_next (m3 b) = None" "cb_len (m3 b) = CBUF_DAT" "cb_data (m3 b) = 0"
    using Suc.prems(2,3) by (auto simp: m3_def m2_def m1_def split: option.splits)
  have nx3: "cb_next (m3 i) = None" if "Suc b \<le> i" for i
    using that Suc.prems(2) [of i] Suc.prems(3) [of i] m3(2) [of i] by (cases "Some i = l") auto
  have IH: "b' = Suc b + c \<and> l' = (if c = 0 then Some b else Some (Suc b + c - 1)) \<and>
    (\<forall>i. cb_dat (m' i) = cb_dat (m3 i)) \<and>
    (\<forall>i. i < Suc b \<and> Some i \<noteq> Some b \<or> Suc b + c \<le> i \<longrightarrow> m' i = m3 i) \<and>
    (\<forall>i. Suc b \<le> i \<and> i < Suc b + c \<longrightarrow> buf_ok (m' i) \<and>
         cb_next (m' i) = (if Suc i < Suc b + c then Some (Suc i) else None)) \<and>
    (\<forall>x. Some b = Some x \<longrightarrow> m' x = (m3 x)\<lparr>cb_next := if c = 0 then cb_next (m3 x) else Some (Suc b)\<rparr>)"
    by (rule Suc.IH [OF run]) (use nx3 m3(1) Suc.prems(4) in auto)
  then have b: "m' b = (m3 b)\<lparr>cb_next := if c = 0 then None else Some (Suc b)\<rparr>" using m3(4) by simp
  have "buf_ok (m' b)" using m3(1,5,6) Suc.prems(4) [of b] b by (simp add: buf_ok_def)
  then have range: "buf_ok (m' i) \<and> cb_next (m' i) = (if Suc i < b + Suc c then Some (Suc i) else None)"
    if "b \<le> i" "i < b + Suc c" for i
    using that IH b m3(4) by (cases "i = b") auto
  have "m' x = (m x)\<lparr>cb_next := Some b\<rparr>" if "l = Some x" for x
    using IH m3(3) that Suc.prems(2) [of x] by auto
  moreover have "m' i = m i" if "i < b \<and> Some i \<noteq> l \<or> b + Suc c \<le> i" for i
    using that IH m3(2) [of i] Suc.prems(2) [of i] by fastforce
  moreover have "l' = Some (b + Suc c - 1)" "b' = b + Suc c" "\<forall>i. cb_dat (m' i) = cb_dat (m i)"
    using IH m3(1) by auto
  ultimately show ?case using range by auto
qed

lemma page_align_chunk: "page_align ALLOCATE_CHUNK = 65536"
  by (simp add: page_align_def ALLOCATE_CHUNK_def)

lemma alloc_runs_chunk:
  assumes "cb_bitmap s = (\<lambda>i. i < 32 * k)" and "k < 64"
    and "init_bufs 32 (32 * k) None (Some (32 * k)) 0 (cb_mem s) = (b', l', m')"
  shows "alloc_runs 65536 None None None s =
         Some (Some b', Some (32 * k), s\<lparr>cb_bitmap := (\<lambda>i. i < 32 * Suc k), cb_mem := m'\<rparr>)"
proof -
  have stop: "alloc_runs 0 p l h t = Some (p, h, t)" for p l h t
    by (subst alloc_runs.simps) simp
  have n: "65536 div CBUF_LEN = 32" by (simp add: CBUF_LEN_def)
  show ?thesis
    by (subst alloc_runs.simps)
      (use assms(3) in \<open>simp add: cbuf_alloc_chunk [OF assms(1,2)] Let_def n stop\<close>)
qed

lemma chain_upt:
  assumes "\<And>i. b \<le> i \<Longrightarrow> i < b + c \<Longrightarrow> nx i = (if Suc i < b + c then Some (Suc i) else None)"
  shows "chain nx (hd_ptr [b..<b + c]) [b..<b + c]"
  using assms
proof (induction c arbitrary: b)
  case 0
  then show ?case by simp
next
  case (Suc c)
  have "nx i = (if Suc i < Suc b + c then Some (Suc i) else None)"
    if "Suc b \<le> i" "i < Suc b + c" for i using Suc.prems [of i] that by auto
  from Suc.IH [OF this] have "chain nx (hd_ptr [Suc b..<Suc b + c]) [Suc b..<Suc b + c]" by blast
  moreover have "nx b = hd_ptr [Suc b..<Suc b + c]"
    using Suc.prems [of b] by (cases c) (simp_all add: upt_conv_Cons del: upt_Suc)
  ultimately show ?case by (simp add: upt_conv_Cons del: upt_Suc)
qed

lemma allocate_chunk:
  assumes rep: "cb_rep s F N cs k"
  shows "if k < 63 then
           \<exists>s'. allocate_cbuf_mem ALLOCATE_CHUNK s = Returns (Some (32 * k), s') \<and>
                cb_rep s' F N ([32 * k..<32 * k + 32] # cs) (Suc k) \<and>
                cb_sem_held s' = cb_sem_held s \<and> (\<forall>i < 32 * k. cb_mem s' i = cb_mem s i)
         else allocate_cbuf_mem ALLOCATE_CHUNK s = Faults"
proof -
  have bm: "cb_bitmap s = (\<lambda>i. i < 32 * k)" and k: "k \<le> 63"
    and fresh: "\<And>i. 32 * k \<le> i \<Longrightarrow> cb_next (cb_mem s i) = None"
    and ok: "\<And>i. buf_ok (cb_mem s i)"
    using rep by (auto simp: cb_rep_def fun_eq_iff)
  obtain b' l' m' where run: "init_bufs 32 (32 * k) None (Some (32 * k)) 0 (cb_mem s) = (b', l', m')"
    by (metis prod_cases3)
  have dat: "length (cb_dat (cb_mem s i)) = CBUF_DAT" for i using ok by (simp add: buf_ok_def)
  note sp = init_bufs_spec [OF run, simplified, OF fresh dat]
  have b': "b' = 32 * k + 32" using sp by simp
  have ar: "alloc_runs 65536 None None None s =
      Some (Some b', Some (32 * k), s\<lparr>cb_bitmap := (\<lambda>i. i < 32 * Suc k), cb_mem := m'\<rparr>)"
    by (rule alloc_runs_chunk [OF bm _ run]) (use k in simp)
  show ?thesis
  proof (cases "k < 63")
    case False
    with k have "k = 63" by simp
    with b' show ?thesis
      by (simp add: allocate_cbuf_mem_def page_align_chunk ar looped_def CBUF_BITMAP_SIZE_eq)
  next
    case True
    let ?m = "m'(b' := (m' b')\<lparr>cb_next := None, cb_flags := cb_flags (m' b') OR CHAIN_TAIL\<rparr>)"
    let ?s = "s\<lparr>cb_bitmap := (\<lambda>i. i < 32 * Suc k), cb_mem := ?m\<rparr>"
    let ?c = "[32 * k..<32 * k + 32]"
    have run': "allocate_cbuf_mem ALLOCATE_CHUNK s = Returns (Some (32 * k), ?s)"
      using True b'
      by (simp add: allocate_cbuf_mem_def page_align_chunk ar looped_def CBUF_BITMAP_SIZE_eq)
    have low: "?m i = cb_mem s i" if "i < 32 * k" for i using that sp b' by auto
    have chunk: "buf_ok (?m i) \<and> cb_next (?m i) = (if Suc i < 32 * k + 32 then Some (Suc i) else None)"
      if "32 * k \<le> i" "i < 32 * k + 32" for i using that sp b' by auto
    have high: "cb_next (?m i) = None \<and> buf_ok (?m i)" if "32 * Suc k \<le> i" for i
      using that sp b' fresh [of i] ok [of i] by (auto simp: buf_ok_def)
    have mem: "set (concat (F # N # cs)) = {..<32 * k}" using rep by (simp add: cb_rep_def)
    have old: "chain (nexts ?m) (hd_ptr c) c" if "c \<in> set (F # N # cs)" for c
    proof -
      have "chain (nexts (cb_mem s)) (hd_ptr c) c" using rep that unfolding cb_rep_def by blast
      moreover have "i < 32 * k" if "i \<in> set c" for i
        using that \<open>c \<in> set (F # N # cs)\<close> mem by (metis UN_I lessThan_iff set_concat)
      ultimately show ?thesis
        by (subst chain_nexts_cong [of _ ?m "cb_mem s"]) (use low in simp_all)
    qed
    have new: "chain (nexts ?m) (hd_ptr ?c) ?c"
      by (rule chain_upt) (use chunk in \<open>simp add: nexts_def\<close>)
    have disj: "set ?c \<inter> set (concat (F # N # cs)) = {}" unfolding mem by auto
    have allok: "buf_ok (?m i)" for i
      using low [of i] chunk [of i] high [of i] ok [of i]
      by (cases "i < 32 * k"; cases "i < 32 * k + 32") auto
    have "\<forall>i \<in> set F \<union> set N. reset_buf (?m i)"
    proof
      fix i assume i: "i \<in> set F \<union> set N"
      with mem have "i < 32 * k" by auto
      with low [of i] i rep show "reset_buf (?m i)" by (auto simp: cb_rep_def)
    qed
    moreover have "set (concat (F # N # ?c # cs)) = {..<32 * Suc k}"
    proof -
      have "set (concat (F # N # ?c # cs)) = {32 * k..<32 * k + 32} \<union> set (concat (F # N # cs))"
        by (simp add: Un_ac del: upt_Suc)
      then show ?thesis unfolding mem by (auto simp del: upt_Suc)
    qed
    moreover have "distinct (concat (F # N # ?c # cs))"
      using rep disj by (auto simp: cb_rep_def)
    ultimately have "cb_rep ?s F N (?c # cs) (Suc k)"
      using rep old new high allok True by (simp add: cb_rep_def)
    with run' low True show ?thesis by auto
  qed
qed

section \<open>Freeing a chain\<close>

lemma clear_chain_spec:
  "chain (nexts m) p xs \<Longrightarrow>
     clear_chain p t m = Some (if xs = [] then t else Some (last xs),
       \<lambda>i. if i \<in> set xs then initialize_cbuf (m i) else m i)"
proof (induction xs arbitrary: p t m)
  case Nil
  then show ?case by (subst clear_chain.simps) simp
next
  case (Cons x xs)
  define m1 where "m1 = m(x := initialize_cbuf (m x))"
  from Cons.prems have p: "p = Some x" and c: "chain (nexts m) (cb_next (m x)) xs"
    by (auto simp: nexts_def)
  from chain_distinct [OF Cons.prems] have x: "x \<notin> set xs" by simp
  have "chain (nexts m1) (cb_next (m x)) xs"
    using c x unfolding m1_def by (subst chain_nexts_cong [of _ _ m]) auto
  note IH = Cons.IH [OF this, of "Some x"]
  have "clear_chain p t m = clear_chain (cb_next (m x)) (Some x) m1"
    using p by (subst clear_chain.simps) (simp add: Let_def m1_def)
  moreover have "(\<lambda>i. if i \<in> set xs then initialize_cbuf (m1 i) else m1 i) =
      (\<lambda>i. if i \<in> set (x # xs) then initialize_cbuf (m i) else m i)"
    using x by (auto simp: fun_eq_iff m1_def)
  ultimately show ?case using IH by simp
qed

lemma cb_rep_perm:
  assumes "cb_rep s F N cs k" and "mset cs' = mset cs"
  shows "cb_rep s F N cs' k"
proof -
  have st: "set cs' = set cs" using assms(2) by (rule mset_eq_setD)
  have "mset (concat cs') = mset (concat cs)" 
  proof -
    have "mset (concat xss) = sum_mset (image_mset mset (mset xss))" for xss :: "nat list list"
      unfolding mset_concat by (simp only: mset_map [symmetric] sum_mset_sum_list)
    then show ?thesis using assms(2) by simp
  qed
  then have "distinct (concat cs') = distinct (concat cs)" by (rule mset_eq_imp_distinct_iff)
  with assms(1) st show ?thesis by (auto simp: cb_rep_def)
qed

lemma free_rep:
  assumes rep: "cb_rep s F N (c # cs) k" and c: "c \<noteq> []"
  defines "m \<equiv> \<lambda>i. if i \<in> set c then initialize_cbuf (cb_mem s i) else cb_mem s i"
  shows "cb_rep (s\<lparr>cb_mem := m(last c := (m (last c))\<lparr>cb_next := cb_free s\<rparr>), cb_free := hd_ptr c\<rparr>)
           (c @ F) N cs k"
    and "cb_rep (s\<lparr>cb_mem := m(last c := (m (last c))\<lparr>cb_next := cb_noblock s\<rparr>), cb_noblock := hd_ptr c\<rparr>)
           F (c @ N) cs k"
proof -
  have dist: "distinct (concat (F # N # c # cs))" and ch: "\<And>d. d \<in> set (F # N # c # cs) \<Longrightarrow>
      chain (nexts (cb_mem s)) (hd_ptr d) d" using rep by (auto simp: cb_rep_def)
  have nm: "nexts m = nexts (cb_mem s)" by (auto simp: nexts_def m_def)
  have lc: "last c \<in> set c" using c by simp
  have other: "chain (nexts (m(last c := (m (last c))\<lparr>cb_next := p\<rparr>))) (hd_ptr d) d"
    if "d \<in> set (F # N # cs)" for d p
  proof -
    have "last c \<notin> set d" using dist that lc by auto
    with ch [of d] that show ?thesis by (auto simp: nm)
  qed
  have link: "chain (nexts (m(last c := (m (last c))\<lparr>cb_next := hd_ptr d\<rparr>))) (hd_ptr c) (c @ d)"
    if "d \<in> {F, N}" for d
  proof -
    have "chain (nexts (cb_mem s)) (hd_ptr c) (butlast c @ [last c])" using ch [of c] c by simp
    moreover have "chain (nexts (cb_mem s)) (hd_ptr d) d" using ch [of d] that by auto
    moreover have "last c \<notin> set d" using dist that lc by auto
    ultimately have "chain ((nexts (cb_mem s))(last c := hd_ptr d)) (hd_ptr c) (butlast c @ last c # d)"
      by (rule chain_link)
    moreover have "butlast c @ last c # d = c @ d" using c by (metis append.assoc append_Cons append_Nil append_butlast_last_id)
    ultimately show ?thesis by (simp add: nm)
  qed
  have ok: "buf_ok ((m(last c := (m (last c))\<lparr>cb_next := p\<rparr>)) i)" for i p
    using rep by (auto simp: cb_rep_def m_def initialize_buf_ok)
  have res: "reset_buf ((m(last c := (m (last c))\<lparr>cb_next := p\<rparr>)) i)"
    if "i \<in> set c \<union> set F \<union> set N" for i p
    using rep that by (auto simp: cb_rep_def m_def)
  have hi: "cb_next ((m(last c := (m (last c))\<lparr>cb_next := p\<rparr>)) i) = None" if "32 * k \<le> i" for i p
  proof -
    have "set c \<subseteq> {..<32 * k}" using rep by (auto simp: cb_rep_def)
    with lc that have "i \<noteq> last c" by auto
    with rep that show ?thesis by (auto simp: cb_rep_def m_def)
  qed
  have st: "set (concat (F # N # c # cs)) = {..<32 * k}" using rep by (simp add: cb_rep_def)
  show "cb_rep (s\<lparr>cb_mem := m(last c := (m (last c))\<lparr>cb_next := cb_free s\<rparr>), cb_free := hd_ptr c\<rparr>)
           (c @ F) N cs k"
    using rep dist other link [of F] ok res hi c st
    by (simp add: cb_rep_def hd_ptr_append Un_ac Int_Un_distrib Int_Un_distrib2 Int_commute del: fun_upd_apply nexts_upd)
  show "cb_rep (s\<lparr>cb_mem := m(last c := (m (last c))\<lparr>cb_next := cb_noblock s\<rparr>), cb_noblock := hd_ptr c\<rparr>)
           F (c @ N) cs k"
    using rep dist other link [of N] ok res hi c st
    by (simp add: cb_rep_def hd_ptr_append Un_ac Int_Un_distrib Int_Un_distrib2 Int_commute del: fun_upd_apply nexts_upd)
qed

lemma cb_rep_drop_sem [simp]: "cb_rep (s\<lparr>cb_sem_held := b\<rparr>) F N cs k = cb_rep s F N cs k"
  by (simp add: cb_rep_def)

lemma free_chain_rep:
  assumes rep: "cb_rep s F N (c # cs) k" and c: "c \<noteq> []"
  shows "\<not> cb_sem_held s \<Longrightarrow>
           \<exists>s'. cbuf_free_chain (hd_ptr c) s = Returns s' \<and> cb_rep s' (c @ F) N cs k \<and>
                \<not> cb_sem_held s' \<and> (\<forall>i. i \<notin> set c \<longrightarrow> cb_mem s' i = cb_mem s i)"
    and "\<exists>s'. cbuf_free_chain_noblock (hd_ptr c) s = Returns s' \<and> cb_rep s' F (c @ N) cs k \<and>
              cb_sem_held s' = cb_sem_held s \<and> (\<forall>i. i \<notin> set c \<longrightarrow> cb_mem s' i = cb_mem s i)"
proof -
  let ?m = "\<lambda>i. if i \<in> set c then initialize_cbuf (cb_mem s i) else cb_mem s i"
  have "chain (nexts (cb_mem s)) (hd_ptr c) c" using rep by (simp add: cb_rep_def)
  from clear_chain_spec [OF this, of None] c
  have cl: "clear_chain (hd_ptr c) None (cb_mem s) = Some (Some (last c), ?m)" by simp
  have hd: "hd_ptr c \<noteq> None" using c by (cases c) auto
  have lc: "last c \<in> set c" using c by simp
  note fr = free_rep [OF rep c]
  show "\<exists>s'. cbuf_free_chain_noblock (hd_ptr c) s = Returns s' \<and> cb_rep s' F (c @ N) cs k \<and>
      cb_sem_held s' = cb_sem_held s \<and> (\<forall>i. i \<notin> set c \<longrightarrow> cb_mem s' i = cb_mem s i)"
    using cl hd lc fr(2) by (auto simp: cbuf_free_chain_noblock_def looped_def)
  assume held: "\<not> cb_sem_held s"
  show "\<exists>s'. cbuf_free_chain (hd_ptr c) s = Returns s' \<and> cb_rep s' (c @ F) N cs k \<and>
      \<not> cb_sem_held s' \<and> (\<forall>i. i \<notin> set c \<longrightarrow> cb_mem s' i = cb_mem s i)"
    using cl hd lc fr(1) held
    by (auto simp: cbuf_free_chain_def looped_def take_sem_def drop_sem_def)
qed

section \<open>Building a chain\<close>

text \<open>Taking the first buffer of the free list into the chain under construction.\<close>

lemma take_free_rep:
  assumes rep: "cb_rep s (t # F) N (c # cs) k"
  shows "cb_rep (s\<lparr>cb_free := cb_next (cb_mem s t),
                   cb_mem := (cb_mem s)(t := (cb_mem s t)\<lparr>cb_next := hd_ptr c\<rparr>)\<rparr>) F N ((t # c) # cs) k"
    and "reset_buf (cb_mem s t)"
proof -
  let ?m = "(cb_mem s)(t := (cb_mem s t)\<lparr>cb_next := hd_ptr c\<rparr>)"
  have dist: "distinct (concat ((t # F) # N # c # cs))" using rep by (simp add: cb_rep_def)
  have ch: "chain (nexts (cb_mem s)) (hd_ptr d) d" if "d \<in> set ((t # F) # N # c # cs)" for d
    using rep that unfolding cb_rep_def by blast
  from ch [of "t # F"] have F: "chain (nexts (cb_mem s)) (cb_next (cb_mem s t)) F"
    by (simp add: nexts_def)
  then have nt: "cb_next (cb_mem s t) = hd_ptr F" by (rule chain_hd_ptr)
  have keep: "chain (nexts ?m) (hd_ptr d) d" if "d \<in> set (F # N # c # cs)" for d
  proof -
    have "t \<notin> set d" using dist that by auto
    moreover have "chain (nexts (cb_mem s)) (hd_ptr d) d" using F nt ch that by auto
    ultimately show ?thesis by simp
  qed
  from keep [of c] have "chain (nexts ?m) (hd_ptr (t # c)) (t # c)" by simp
  with keep have "\<forall>d \<in> set (F # N # (t # c) # cs). chain (nexts ?m) (hd_ptr d) d"
    by (simp del: nexts_upd)
  moreover have "t < 32 * k" using rep by (auto simp: cb_rep_def)
  then have "\<forall>i \<ge> 32 * k. cb_next (?m i) = None" using rep by (auto simp: cb_rep_def)
  moreover have "set (concat (F # N # (t # c) # cs)) = set (concat ((t # F) # N # c # cs))" by auto
  then have "set (concat (F # N # (t # c) # cs)) = {..<32 * k}" using rep by (simp add: cb_rep_def)
  moreover have "\<forall>i \<in> set F \<union> set N. reset_buf (?m i)" using rep by (auto simp: cb_rep_def)
  moreover have "\<forall>i. buf_ok (?m i)" using rep by (auto simp: cb_rep_def)
  moreover have "distinct (concat (F # N # (t # c) # cs))" using dist by auto
  ultimately show "cb_rep (s\<lparr>cb_free := cb_next (cb_mem s t), cb_mem := ?m\<rparr>) F N ((t # c) # cs) k"
    using rep nt by (simp add: cb_rep_def del: nexts_upd)
  show "reset_buf (cb_mem s t)" using rep by (simp add: cb_rep_def)
qed

lemma cb_rep_empty: "cb_rep s F N ([] # cs) k \<longleftrightarrow> cb_rep s F N cs k"
  by (simp add: cb_rep_def)

text \<open>
  What the loop of \<open>cbuf_get_chain\<close> comes to when \<open>a\<close> buffers are left to it: a chain that is
  just long enough, or a fault while the last chunk is allocated. The other live chains \<open>cs\<close>
  keep the contents they have in \<open>m\<close>.
\<close>

definition got :: "nat \<Rightarrow> nat list \<Rightarrow> nat list list \<Rightarrow> cmem \<Rightarrow> nat \<Rightarrow>
    ((nat ptr \<times> nat ptr \<times> nat) option \<times> cbufst) outcome option \<Rightarrow> bool" where
  "got len N cs m a r \<longleftrightarrow>
     (if len \<le> CBUF_DAT * a then
        \<exists>F k c s. r = Some (Returns (Some (hd_ptr c, if c = [] then None else Some (last c),
                                          CBUF_DAT * length c), s)) \<and>
          cb_rep s F N (c # cs) k \<and> \<not> cb_sem_held s \<and> length F + length c + 32 * (63 - k) = a \<and>
          (\<forall>i \<in> set c. reset_buf (cb_mem s i)) \<and> len \<le> CBUF_DAT * length c \<and>
          (c = [] \<or> CBUF_DAT * (length c - 1) < len) \<and>
          (\<forall>d \<in> set cs. \<forall>i \<in> set d. cb_mem s i = m i)
      else r = Some Faults)"

lemma got_mem:
  assumes "got len N cs m' a r" and "\<And>d i. d \<in> set cs \<Longrightarrow> i \<in> set d \<Longrightarrow> m' i = m i"
  shows "got len N cs m a r"
proof -
  have "(\<forall>d \<in> set cs. \<forall>i \<in> set d. x i = m' i) = (\<forall>d \<in> set cs. \<forall>i \<in> set d. x i = m i)" for x :: cmem
    using assms(2) by auto
  with assms(1) show ?thesis unfolding got_def by (simp only:)
qed

lemma get_loop_spec:
  assumes "cb_rep s F N (c # cs) k" and "cb_sem_held s"
    and "\<forall>i \<in> set c. reset_buf (cb_mem s i)"
    and "tl_buf = (if c = [] then None else Some (last c))"
    and "c = [] \<or> CBUF_DAT * (length c - 1) < len"
  shows "got len N cs (cb_mem s) (length F + length c + 32 * (63 - k))
           (get_loop len (hd_ptr c) tl_buf (CBUF_DAT * length c) s)"
  using assms
proof (induction "33 * (63 - k) + length F" arbitrary: s F c k tl_buf rule: less_induct)
  case less
  note rep = less.prems(1)
  show ?case
  proof (cases "CBUF_DAT * length c < len")
    case False
    then have "get_loop len (hd_ptr c) tl_buf (CBUF_DAT * length c) s =
        Some (Returns (Some (hd_ptr c, tl_buf, CBUF_DAT * length c), s\<lparr>cb_sem_held := False\<rparr>))"
      by (subst get_loop.simps) (simp add: drop_sem_def)
    moreover have "len \<le> CBUF_DAT * (length F + length c + 32 * (63 - k))"
      using False by (simp add: algebra_simps)
    moreover have "cb_rep (s\<lparr>cb_sem_held := False\<rparr>) F N (c # cs) k" using rep by simp
    ultimately show ?thesis
      using less.prems(3,4,5) False unfolding got_def
      by (intro if_P [THEN iffD2] exI [of _ F] exI [of _ k] exI [of _ c] exI [of _ "s\<lparr>cb_sem_held := False\<rparr>"]) simp_all
  next
    case more: True
    show ?thesis
    proof (cases F)
      case (Cons t F1)
      let ?s = "s\<lparr>cb_free := cb_next (cb_mem s t),
                   cb_mem := (cb_mem s)(t := (cb_mem s t)\<lparr>cb_next := hd_ptr c\<rparr>)\<rparr>"
      note tk = take_free_rep [OF rep [unfolded Cons]]
      have dist: "distinct (concat ((t # F1) # N # c # cs))" and small: "set (concat (F # N # c # cs)) = {..<32 * k}"
        and k: "k \<le> 63" using rep Cons by (auto simp: cb_rep_def)
      have "length (concat (F # N # c # cs)) = 32 * k"
        using dist small Cons by (metis card_lessThan distinct_card)
      then have lc: "length c \<le> 2016" using k by simp
      have len_t: "cb_len (cb_mem s t) = CBUF_DAT" using tk(2) by (simp add: reset_buf_def)
      have step: "get_loop len (hd_ptr c) tl_buf (CBUF_DAT * length c) s =
          get_loop len (hd_ptr (t # c)) (if hd_ptr c = None then Some t else tl_buf)
            (CBUF_DAT * length (t # c)) ?s"
      proof -
        have "u32_add (CBUF_DAT * length c) (cb_len (cb_mem s t)) = CBUF_DAT * length (t # c)"
          using lc len_t by (simp add: CBUF_DAT_eq)
        moreover have "cb_free s = Some t" using rep Cons by (simp add: cb_rep_def)
        moreover have "c = [] \<longleftrightarrow> hd_ptr c = None" by (cases c) auto
        ultimately show ?thesis
          using more by (subst get_loop.simps) (simp only: if_True option.case Let_def hd_ptr_simps)
      qed
      have "got len N cs (cb_mem ?s) (length F1 + length (t # c) + 32 * (63 - k))
          (get_loop len (hd_ptr (t # c)) (if hd_ptr c = None then Some t else tl_buf)
            (CBUF_DAT * length (t # c)) ?s)"
      proof (rule less.hyps [OF _ tk(1)])
        show "33 * (63 - k) + length F1 < 33 * (63 - k) + length F" using Cons by simp
        show "cb_sem_held ?s" using less.prems(2) by simp
        show "\<forall>i \<in> set (t # c). reset_buf (cb_mem ?s i)" using less.prems(3) tk(2) by simp
        show "(if hd_ptr c = None then Some t else tl_buf) = (if t # c = [] then None else Some (last (t # c)))"
          using less.prems(4) by (cases c) auto
        show "t # c = [] \<or> CBUF_DAT * (length (t # c) - 1) < len" using more by simp
      qed
      then have "got len N cs (cb_mem s) (length F1 + length (t # c) + 32 * (63 - k))
          (get_loop len (hd_ptr (t # c)) (if hd_ptr c = None then Some t else tl_buf)
            (CBUF_DAT * length (t # c)) ?s)"
        by (rule got_mem) (use dist in auto)
      then show ?thesis unfolding step using Cons by simp
    next
      case Nil
      from rep have rep0: "cb_rep (drop_sem s) [] N (c # cs) k" by (simp add: drop_sem_def Nil)
      have fl: "cb_free s = None" using rep Nil by (simp add: cb_rep_def)
      show ?thesis
      proof (cases "k < 63")
        case False
        with allocate_chunk [OF rep0] have "allocate_cbuf_mem ALLOCATE_CHUNK (drop_sem s) = Faults" by simp
        with more fl have "get_loop len (hd_ptr c) tl_buf (CBUF_DAT * length c) s = Some Faults"
          by (subst get_loop.simps) simp
        moreover have "k = 63" using False rep by (simp add: cb_rep_def)
        moreover have "\<not> len \<le> CBUF_DAT * (length F + length c + 32 * (63 - k))"
          using more Nil \<open>k = 63\<close> by simp
        ultimately show ?thesis by (simp add: got_def)
      next
        case True
        let ?n = "[32 * k..<32 * k + 32]"
        from allocate_chunk [OF rep0] True obtain s1 where
          al: "allocate_cbuf_mem ALLOCATE_CHUNK (drop_sem s) = Returns (Some (32 * k), s1)"
          and rep1: "cb_rep s1 [] N (?n # c # cs) (Suc k)" and h1: "\<not> cb_sem_held s1"
          and m1: "\<forall>i < 32 * k. cb_mem s1 i = cb_mem s i" by (auto simp: drop_sem_def)
        have hd: "hd_ptr ?n = Some (32 * k)" by (simp add: upt_conv_Cons)
        from free_chain_rep(1) [OF rep1 _ h1] hd obtain s2 where
          fr: "cbuf_free_chain (Some (32 * k)) s1 = Returns s2" and rep2: "cb_rep s2 ?n N (c # cs) (Suc k)"
          and h2: "\<not> cb_sem_held s2" and m2: "\<forall>i. i \<notin> set ?n \<longrightarrow> cb_mem s2 i = cb_mem s1 i"
          by (metis append_Nil2 hd_ptr_simps(1) option.distinct(1))
        let ?s = "s2\<lparr>cb_sem_held := True\<rparr>"
        have step: "get_loop len (hd_ptr c) tl_buf (CBUF_DAT * length c) s =
            get_loop len (hd_ptr c) tl_buf (CBUF_DAT * length c) ?s"
          using more fl al fr h2 by (subst get_loop.simps) (simp add: take_sem_def)
        have same: "cb_mem s2 i = cb_mem s i" if "i \<in> set (concat (c # cs))" for i
        proof -
          have "i < 32 * k" using rep that by (auto simp: cb_rep_def)
          with m1 m2 show ?thesis by auto
        qed
        have "got len N cs (cb_mem ?s) (length ?n + length c + 32 * (63 - Suc k)) (get_loop len (hd_ptr c) tl_buf (CBUF_DAT * length c) ?s)"
        proof (rule less.hyps)
          show "33 * (63 - Suc k) + length ?n < 33 * (63 - k) + length F" using True by simp
          show "cb_rep ?s ?n N (c # cs) (Suc k)" using rep2 by simp
          show "\<forall>i \<in> set c. reset_buf (cb_mem ?s i)" using less.prems(3) same by simp
        qed (use less.prems in simp_all)
        then have "got len N cs (cb_mem s) (length ?n + length c + 32 * (63 - Suc k))
            (get_loop len (hd_ptr c) tl_buf (CBUF_DAT * length c) ?s)"
          by (rule got_mem) (use same in auto)
        moreover have "length ?n + length c + 32 * (63 - Suc k) = length F + length c + 32 * (63 - k)"
          using True Nil by simp
        ultimately show ?thesis unfolding step by (simp only:)
      qed
    qed
  qed
qed

text \<open>A finished chain: its head carries the flag and the sum of the lengths of its buffers.\<close>

definition bytes_in :: "cmem \<Rightarrow> nat list \<Rightarrow> nat" where
  "bytes_in m c = sum_list (map (\<lambda>i. cb_len (m i)) c)"

definition whole_chain :: "cmem \<Rightarrow> nat list \<Rightarrow> bool" where
  "whole_chain m c \<longleftrightarrow> c \<noteq> [] \<and> is_head (m (hd c)) \<and> cb_total_len (m (hd c)) = bytes_in m c"

lemma bytes_in_simps [simp]:
  "bytes_in m [] = 0" "bytes_in m (i # c) = cb_len (m i) + bytes_in m c"
  "bytes_in m (c @ d) = bytes_in m c + bytes_in m d"
  by (simp_all add: bytes_in_def)

lemma bytes_in_cong: "(\<And>i. i \<in> set c \<Longrightarrow> cb_len (m i) = cb_len (m' i)) \<Longrightarrow> bytes_in m c = bytes_in m' c"
  by (simp add: bytes_in_def cong: map_cong)

lemma bytes_in_const: "(\<And>i. i \<in> set c \<Longrightarrow> cb_len (m i) = n) \<Longrightarrow> bytes_in m c = n * length c"
  by (induction c) auto

lemma whole_chain_cong: "(\<And>i. i \<in> set c \<Longrightarrow> m i = m' i) \<Longrightarrow> whole_chain m c = whole_chain m' c"
  using bytes_in_cong [of c m m'] by (cases c) (auto simp: whole_chain_def)

lemma CHAIN_HEAD_nonzero [simp]: "CHAIN_HEAD \<noteq> 0"
  by (simp add: CHAIN_HEAD_def)

lemma head_flag [simp]: "(w OR CHAIN_HEAD) AND CHAIN_HEAD \<noteq> 0"
  by (simp add: CHAIN_HEAD_def bit.conj_disj_distrib2)

lemma head_flag_tail [simp]: "(w OR CHAIN_TAIL) AND CHAIN_HEAD = w AND CHAIN_HEAD"
  by (simp add: CHAIN_HEAD_def CHAIN_TAIL_def bit.conj_disj_distrib2)

lemma cb_rep_mem:
  assumes "cb_rep s F N cs k" and "\<And>i. cb_next (m i) = cb_next (cb_mem s i)"
    and "\<And>i. buf_ok (m i)" and "\<And>i. i \<in> set F \<union> set N \<Longrightarrow> m i = cb_mem s i"
  shows "cb_rep (s\<lparr>cb_mem := m\<rparr>) F N cs k"
proof -
  have "nexts m = nexts (cb_mem s)" using assms(2) by (simp add: nexts_def)
  with assms show ?thesis by (auto simp: cb_rep_def)
qed

lemma fixup_chain_spec:
  assumes rep: "cb_rep s F N (c # cs) k" and c: "c \<noteq> []"
    and r: "\<forall>i \<in> set c. reset_buf (cb_mem s i)"
    and len: "len \<le> CBUF_DAT * length c" "CBUF_DAT * (length c - 1) < len"
  shows "\<exists>s'. fixup_chain len (hd_ptr c) (Some (last c)) (CBUF_DAT * length c) s = Returns (Some (hd c), s') \<and>
           cb_rep s' F N (c # cs) k \<and> cb_sem_held s' = cb_sem_held s \<and>
           whole_chain (cb_mem s') c \<and> bytes_in (cb_mem s') c = len \<and>
           (\<forall>i. i \<notin> set c \<longrightarrow> cb_mem s' i = cb_mem s i)"
proof -
  let ?m = "cb_mem s" and ?h = "hd c" and ?t = "last c"
  let ?m1 = "?m(?h := (?m ?h)\<lparr>cb_total_len := len, cb_flags := cb_flags (?m ?h) OR CHAIN_HEAD\<rparr>)"
  let ?cut = "CBUF_DAT * length c - len"
  define m2 where "m2 = ?m1(?t := (?m1 ?t)\<lparr>cb_len := u32_sub (cb_len (?m1 ?t)) ?cut,
    cb_flags := cb_flags (?m1 ?t) OR CHAIN_TAIL\<rparr>)"
  have mem: "?h \<in> set c" "?t \<in> set c" using c by simp_all
  have d: "distinct c" and ndist: "distinct (concat (F # N # c # cs))" using rep by (auto simp: cb_rep_def)
  have lens: "cb_len (?m i) = CBUF_DAT" "cb_data (?m i) = 0" if "i \<in> set c" for i
    using r that by (auto simp: reset_buf_def)
  obtain n where n: "length c = Suc n" using c by (cases c) auto
  have cut: "?cut < CBUF_DAT" using len n by (simp add: CBUF_DAT_eq)
  have len_t: "cb_len (m2 ?t) = CBUF_DAT - ?cut" using mem lens cut by (simp add: m2_def)
  have len_o: "cb_len (m2 i) = CBUF_DAT" if "i \<in> set c" "i \<noteq> ?t" for i
    using that lens [OF that(1)] by (auto simp: m2_def)
  have "bytes_in m2 (butlast c) = CBUF_DAT * length (butlast c)"
  proof (rule bytes_in_const)
    fix i assume i: "i \<in> set (butlast c)"
    moreover have "distinct (butlast c @ [?t])" using d c by simp
    ultimately have "i \<noteq> ?t" by auto
    with i show "cb_len (m2 i) = CBUF_DAT" by (intro len_o) (auto dest: in_set_butlastD)
  qed
  moreover have "bytes_in m2 c = bytes_in m2 (butlast c) + cb_len (m2 ?t)"
    using c by (metis append_butlast_last_id bytes_in_simps(1,2,3) add_0_right)
  ultimately have sum: "bytes_in m2 c = len" using len_t len cut n by (simp add: algebra_simps)
  have "is_head (m2 ?h)" by (simp add: m2_def is_head_def)
  moreover have "cb_total_len (m2 ?h) = len" by (simp add: m2_def)
  ultimately have whole: "whole_chain m2 c" using c sum by (simp add: whole_chain_def)
  have out: "m2 i = ?m i" if "i \<notin> set c" for i using that mem by (auto simp: m2_def)
  have hp: "hd_ptr c = Some ?h" using c by (cases c) auto
  have "u32_sub (CBUF_DAT * length c) len = ?cut" using len by simp
  then have "fixup_chain len (hd_ptr c) (Some ?t) (CBUF_DAT * length c) s = Returns (Some ?h, s\<lparr>cb_mem := m2\<rparr>)"
    by (simp add: fixup_chain_def hp Let_def m2_def)
  moreover have "cb_rep (s\<lparr>cb_mem := m2\<rparr>) F N (c # cs) k"
  proof (rule cb_rep_mem [OF rep])
    show "cb_next (m2 i) = cb_next (?m i)" for i by (simp add: m2_def)
    show "buf_ok (m2 i)" for i
    proof (cases "i \<in> set c")
      case True
      have "length (cb_dat (m2 i)) = length (cb_dat (?m i))" "cb_data (m2 i) = cb_data (?m i)"
        by (simp_all add: m2_def)
      moreover have "cb_len (m2 i) \<le> CBUF_DAT" using True len_t len_o [of i] by (cases "i = ?t") auto
      moreover have "buf_ok (?m i)" using rep by (simp add: cb_rep_def)
      ultimately show ?thesis using lens [OF True] by (simp add: buf_ok_def)
    qed (use out rep in \<open>simp add: cb_rep_def\<close>)
    show "m2 i = ?m i" if "i \<in> set F \<union> set N" for i by (rule out) (use that ndist in auto)
  qed
  ultimately show ?thesis using whole sum out by auto
qed

lemma get_chain_rep:
  assumes rep: "cb_rep s F N cs k" and "\<not> cb_sem_held s" and "0 < len"
  shows "if len \<le> CBUF_DAT * (length F + 32 * (63 - k)) then
           \<exists>c s' F' k'. cbuf_get_chain len s = Returns (Some (hd c), s') \<and> cb_rep s' F' N (c # cs) k' \<and>
             \<not> cb_sem_held s' \<and> whole_chain (cb_mem s') c \<and> bytes_in (cb_mem s') c = len \<and>
             CBUF_DAT * (length c - 1) < len \<and> length F' + length c + 32 * (63 - k') = length F + 32 * (63 - k) \<and>
             (\<forall>d \<in> set cs. \<forall>i \<in> set d. cb_mem s' i = cb_mem s i)
         else cbuf_get_chain len s = Faults"
proof -
  let ?s = "s\<lparr>cb_sem_held := True\<rparr>"
  have "cb_rep ?s F N ([] # cs) k" using rep by (simp add: cb_rep_empty)
  from get_loop_spec [OF this, of None len]
  have g: "got len N cs (cb_mem s) (length F + 32 * (63 - k)) (get_loop len None None 0 ?s)" by simp
  show ?thesis
  proof (cases "len \<le> CBUF_DAT * (length F + 32 * (63 - k))")
    case False
    with g assms(2,3) show ?thesis by (simp add: got_def cbuf_get_chain_def take_sem_def looped_outcome_def)
  next
    case True
    with g assms(3) obtain F1 k1 c s1 where run: "get_loop len None None 0 ?s =
          Some (Returns (Some (hd_ptr c, if c = [] then None else Some (last c), CBUF_DAT * length c), s1))"
      and rep1: "cb_rep s1 F1 N (c # cs) k1" and h1: "\<not> cb_sem_held s1"
      and cnt: "length F1 + length c + 32 * (63 - k1) = length F + 32 * (63 - k)"
      and r: "\<forall>i \<in> set c. reset_buf (cb_mem s1 i)" and len: "len \<le> CBUF_DAT * length c"
      and c': "c = [] \<or> CBUF_DAT * (length c - 1) < len"
      and fr: "\<forall>d \<in> set cs. \<forall>i \<in> set d. cb_mem s1 i = cb_mem s i"
      unfolding got_def if_P [OF True] by blast
    from len assms(3) have c: "c \<noteq> []" by auto
    with c' have len': "CBUF_DAT * (length c - 1) < len" by simp
    from fixup_chain_spec [OF rep1 c r len len'] obtain s2 where
      f: "fixup_chain len (hd_ptr c) (Some (last c)) (CBUF_DAT * length c) s1 = Returns (Some (hd c), s2)"
      and rep2: "cb_rep s2 F1 N (c # cs) k1" and h2: "\<not> cb_sem_held s2"
      and w: "whole_chain (cb_mem s2) c" "bytes_in (cb_mem s2) c = len"
      and out: "\<forall>i. i \<notin> set c \<longrightarrow> cb_mem s2 i = cb_mem s1 i" using h1 by auto
    have "cbuf_get_chain len s = Returns (Some (hd c), s2)"
      using assms(2,3) run c f by (simp add: cbuf_get_chain_def take_sem_def looped_outcome_def)
    moreover have "cb_mem s2 i = cb_mem s i" if "d \<in> set cs" "i \<in> set d" for d i
    proof -
      have "distinct (concat (F1 # N # c # cs))" using rep1 by (simp add: cb_rep_def)
      with that have "i \<notin> set c" by auto
      with out fr that show ?thesis by auto
    qed
    ultimately show ?thesis using True rep2 h2 w cnt len' by auto
  qed
qed

text \<open>The non-blocking list is never refilled: a request it cannot meet gives everything back.\<close>

lemma take_noblock_rep:
  assumes rep: "cb_rep s F (t # N) (c # cs) k"
  shows "cb_rep (s\<lparr>cb_noblock := cb_next (cb_mem s t),
                   cb_mem := (cb_mem s)(t := (cb_mem s t)\<lparr>cb_next := hd_ptr c\<rparr>)\<rparr>) F N ((t # c) # cs) k"
    and "reset_buf (cb_mem s t)"
proof -
  let ?swap = "\<lambda>s. s\<lparr>cb_free := cb_noblock s, cb_noblock := cb_free s\<rparr>"
  have swap: "cb_rep (?swap x) N' F' cs' k" if "cb_rep x F' N' cs' k" for x F' N' cs'
    using that by (auto simp: cb_rep_def)
  note tk = take_free_rep [OF swap [OF rep]]
  from swap [OF tk(1)] show "cb_rep (s\<lparr>cb_noblock := cb_next (cb_mem s t),
      cb_mem := (cb_mem s)(t := (cb_mem s t)\<lparr>cb_next := hd_ptr c\<rparr>)\<rparr>) F N ((t # c) # cs) k"
    by (cases s) simp
  from tk(2) show "reset_buf (cb_mem s t)" by simp
qed

definition got_noblock :: "nat \<Rightarrow> nat list \<Rightarrow> nat list list \<Rightarrow> cbufst \<Rightarrow> nat multiset \<Rightarrow> nat \<Rightarrow>
    ((nat ptr \<times> nat ptr \<times> nat) option \<times> cbufst) outcome option \<Rightarrow> bool" where
  "got_noblock len F cs s0 M k r \<longleftrightarrow>
     (\<exists>s N c. cb_sem_held s = cb_sem_held s0 \<and> (\<forall>d \<in> set cs. \<forall>i \<in> set d. cb_mem s i = cb_mem s0 i) \<and>
        mset N + mset c = M \<and> cb_rep s F N (c # cs) k \<and>
        (if len \<le> CBUF_DAT * size M then
           r = Some (Returns (Some (hd_ptr c, if c = [] then None else Some (last c), CBUF_DAT * length c), s)) \<and>
           (\<forall>i \<in> set c. reset_buf (cb_mem s i)) \<and> len \<le> CBUF_DAT * length c \<and>
           (c = [] \<or> CBUF_DAT * (length c - 1) < len)
         else r = Some (Returns (None, s)) \<and> c = []))"

lemma got_noblock_mem:
  assumes "got_noblock len F cs s' M k r" and "cb_sem_held s' = cb_sem_held s"
    and "\<And>d i. d \<in> set cs \<Longrightarrow> i \<in> set d \<Longrightarrow> cb_mem s' i = cb_mem s i"
  shows "got_noblock len F cs s M k r"
proof -
  have "(\<forall>d \<in> set cs. \<forall>i \<in> set d. x i = cb_mem s' i) = (\<forall>d \<in> set cs. \<forall>i \<in> set d. x i = cb_mem s i)" for x :: cmem
    using assms(3) by auto
  with assms(1,2) show ?thesis unfolding got_noblock_def by (simp only:)
qed

lemma got_noblock_done:
  assumes "cb_rep s F N (c # cs) k" and "\<forall>i \<in> set c. reset_buf (cb_mem s i)"
    and "tl_buf = (if c = [] then None else Some (last c))"
    and "c = [] \<or> CBUF_DAT * (length c - 1) < len" and "\<not> CBUF_DAT * length c < len"
  shows "got_noblock len F cs s (mset (c @ N)) k (get_noblock_loop len (hd_ptr c) tl_buf (CBUF_DAT * length c) s)"
proof -
  have "len \<le> CBUF_DAT * size (mset (c @ N))" using assms(5) by (simp add: algebra_simps)
  moreover have "get_noblock_loop len (hd_ptr c) tl_buf (CBUF_DAT * length c) s =
      Some (Returns (Some (hd_ptr c, tl_buf, CBUF_DAT * length c), s))"
    using assms(5) by (subst get_noblock_loop.simps) simp
  ultimately show ?thesis
    using assms unfolding got_noblock_def
    by (intro exI [of _ s] exI [of _ N] exI [of _ c]) simp
qed

lemma get_noblock_loop_spec:
  assumes "cb_rep s F N (c # cs) k" and "\<forall>i \<in> set c. reset_buf (cb_mem s i)"
    and "tl_buf = (if c = [] then None else Some (last c))"
    and "c = [] \<or> CBUF_DAT * (length c - 1) < len"
  shows "got_noblock len F cs s (mset (c @ N)) k (get_noblock_loop len (hd_ptr c) tl_buf (CBUF_DAT * length c) s)"
  using assms
proof (induction N arbitrary: s c tl_buf)
  case Nil
  note rep = Nil.prems(1)
  have nb: "cb_noblock s = None" using rep by (simp add: cb_rep_def)
  show ?case
  proof (cases "CBUF_DAT * length c < len")
    case False
    with Nil.prems show ?thesis by (rule got_noblock_done)
  next
    case more: True
    have dist: "distinct (concat (F # [] # c # cs))" using rep by (simp add: cb_rep_def)
    have "\<exists>N' s'. get_noblock_loop len (hd_ptr c) tl_buf (CBUF_DAT * length c) s = Some (Returns (None, s')) \<and>
        cb_rep s' F N' cs k \<and> cb_sem_held s' = cb_sem_held s \<and> mset N' = mset c \<and>
        (\<forall>i. i \<notin> set c \<longrightarrow> cb_mem s' i = cb_mem s i)"
    proof (cases "c = []")
      case True
      then have "get_noblock_loop len (hd_ptr c) tl_buf (CBUF_DAT * length c) s = Some (Returns (None, s))"
        using more nb by (subst get_noblock_loop.simps) simp
      with rep True show ?thesis by (auto simp: cb_rep_empty)
    next
      case False
      from free_chain_rep(2) [OF rep False] obtain s' where fr: "cbuf_free_chain_noblock (hd_ptr c) s = Returns s'"
        and rep': "cb_rep s' F c cs k" and h: "cb_sem_held s' = cb_sem_held s"
        and m: "\<forall>i. i \<notin> set c \<longrightarrow> cb_mem s' i = cb_mem s i" by auto
      from False obtain h where "hd_ptr c = Some h" by (cases c) auto
      with more nb fr have "get_noblock_loop len (hd_ptr c) tl_buf (CBUF_DAT * length c) s = Some (Returns (None, s'))"
        by (subst get_noblock_loop.simps) simp
      with rep' h m show ?thesis by auto
    qed
    then obtain N' s' where r: "get_noblock_loop len (hd_ptr c) tl_buf (CBUF_DAT * length c) s = Some (Returns (None, s'))"
      and rep': "cb_rep s' F N' cs k" and h: "cb_sem_held s' = cb_sem_held s" and M: "mset N' = mset c"
      and m: "\<forall>i. i \<notin> set c \<longrightarrow> cb_mem s' i = cb_mem s i" by blast
    have "\<forall>d \<in> set cs. \<forall>i \<in> set d. cb_mem s' i = cb_mem s i" using m dist by auto
    then show ?thesis
      using r rep' h M more unfolding got_noblock_def
      by (intro exI [of _ s'] exI [of _ N'] exI [of _ "[]"]) (simp add: cb_rep_empty)
  qed
next
  case (Cons t N)
  note rep = Cons.prems(1)
  show ?case
  proof (cases "CBUF_DAT * length c < len")
    case False
    with Cons.prems show ?thesis by (rule got_noblock_done)
  next
    case True
    let ?s = "s\<lparr>cb_noblock := cb_next (cb_mem s t),
                 cb_mem := (cb_mem s)(t := (cb_mem s t)\<lparr>cb_next := hd_ptr c\<rparr>)\<rparr>"
    note tk = take_noblock_rep [OF rep]
    have dist: "distinct (concat (F # (t # N) # c # cs))" and all: "set (concat (F # (t # N) # c # cs)) = {..<32 * k}"
      and k: "k \<le> 63" using rep by (auto simp: cb_rep_def)
    have "length (concat (F # (t # N) # c # cs)) = 32 * k"
      using dist all by (metis card_lessThan distinct_card)
    then have lc: "length c \<le> 2016" using k by simp
    have step: "get_noblock_loop len (hd_ptr c) tl_buf (CBUF_DAT * length c) s =
        get_noblock_loop len (hd_ptr (t # c)) (if hd_ptr c = None then Some t else tl_buf)
          (CBUF_DAT * length (t # c)) ?s"
    proof -
      have "u32_add (CBUF_DAT * length c) (cb_len (cb_mem s t)) = CBUF_DAT * length (t # c)"
        using lc tk(2) by (simp add: CBUF_DAT_eq reset_buf_def)
      moreover have "cb_noblock s = Some t" using rep by (simp add: cb_rep_def)
      ultimately show ?thesis
        using True by (subst get_noblock_loop.simps) (simp only: if_True option.case Let_def hd_ptr_simps)
    qed
    have "got_noblock len F cs ?s (mset ((t # c) @ N)) k
        (get_noblock_loop len (hd_ptr (t # c)) (if hd_ptr c = None then Some t else tl_buf)
          (CBUF_DAT * length (t # c)) ?s)"
    proof (rule Cons.IH [OF tk(1)])
      show "\<forall>i \<in> set (t # c). reset_buf (cb_mem ?s i)" using Cons.prems(2) tk(2) by simp
      show "(if hd_ptr c = None then Some t else tl_buf) = (if t # c = [] then None else Some (last (t # c)))"
        using Cons.prems(3) by (cases c) auto
      show "t # c = [] \<or> CBUF_DAT * (length (t # c) - 1) < len" using True by simp
    qed
    then have "got_noblock len F cs s (mset ((t # c) @ N)) k
        (get_noblock_loop len (hd_ptr (t # c)) (if hd_ptr c = None then Some t else tl_buf)
          (CBUF_DAT * length (t # c)) ?s)"
      by (rule got_noblock_mem) (use dist in auto)
    then show ?thesis unfolding step by simp
  qed
qed

section \<open>Properties\<close>

text \<open>The region as the virtual memory system hands it out: zero-filled.\<close>

definition zero_cbuf :: cbuf where
  "zero_cbuf = \<lparr>cb_next = None, cb_len = 0, cb_total_len = 0, cb_data = 0, cb_flags = 0,
                cb_dat = replicate CBUF_DAT 0\<rparr>"

lemma cbuf_init_rep:
  assumes "0 \<le> sem" and "0 \<le> rid" and "0 \<le> bid"
  shows "\<exists>s. cbuf_init sem rid bid (\<lambda>_. zero_cbuf) = Returns (B_NO_ERROR, s) \<and>
             cb_rep s [32..<64] [0..<32] [] 2 \<and> \<not> cb_sem_held s"
proof -
  let ?s0 = "\<lparr>cb_mem = (\<lambda>_. zero_cbuf), cb_bitmap = (\<lambda>_. False), cb_free = None, cb_noblock = None,
              cb_sem_held = False\<rparr>"
  have "cb_rep ?s0 [] [] [] 0" by (simp add: cb_rep_def zero_cbuf_def buf_ok_def)
  from allocate_chunk [OF this] obtain s1 where a1: "allocate_cbuf_mem ALLOCATE_CHUNK ?s0 = Returns (Some 0, s1)"
    and r1: "cb_rep s1 [] [] [[0..<32]] 1" and h1: "\<not> cb_sem_held s1" by auto
  have hp: "hd_ptr [0..<32] = Some 0" "hd_ptr [32..<64] = Some 32" by (simp_all add: upt_conv_Cons)
  from free_chain_rep(2) [OF r1] hp obtain s2 where f1: "cbuf_free_chain_noblock (Some 0) s1 = Returns s2"
    and r2: "cb_rep s2 [] [0..<32] [] 1" and h2: "\<not> cb_sem_held s2"
    using h1 by (metis append_Nil2 hd_ptr_simps(1) option.distinct(1))
  have "(32 * 1 :: nat) = 32" "(32 + 32 :: nat) = 64" "Suc 1 = 2" by simp_all
  with allocate_chunk [OF r2] obtain s3 where a2: "allocate_cbuf_mem ALLOCATE_CHUNK s2 = Returns (Some 32, s3)"
    and r3: "cb_rep s3 [] [0..<32] [[32..<64]] 2" and h3: "\<not> cb_sem_held s3"
    using h2 by (auto simp: numeral_2_eq_2 [symmetric])
  from free_chain_rep(1) [OF r3 _ h3] hp obtain s4 where f2: "cbuf_free_chain (Some 32) s3 = Returns s4"
    and r4: "cb_rep s4 [32..<64] [0..<32] [] 2" and h4: "\<not> cb_sem_held s4"
    by (metis append_Nil2 hd_ptr_simps(1) option.distinct(1))
  from a1 f1 a2 f2 r4 h4 assms show ?thesis by (simp add: cbuf_init_def)
qed

text \<open>
  When its semaphore and regions were created, \<open>cbuf_init\<close> on the zero-filled region leaves
  the allocator in a consistent state: 32 reset buffers on each of the two free lists, no live
  chain, and the semaphore free.
\<close>

theorem cbuf_init_correct:
  assumes "0 \<le> sem" and "0 \<le> rid" and "0 \<le> bid"
  shows "\<exists>s. cbuf_init sem rid bid (\<lambda>_. zero_cbuf) = Returns (B_NO_ERROR, s) \<and>
             cb_rep s [32..<64] [0..<32] [] 2 \<and> \<not> cb_sem_held s"
  using assms by (rule cbuf_init_rep)

theorem cbuf_init_correct_witness:
  "\<exists>s. cbuf_init 3 4 5 (\<lambda>_. zero_cbuf) = Returns (B_NO_ERROR, s) \<and>
       cb_rep s [32..<64] [0..<32] [] 2 \<and> \<not> cb_sem_held s"
  by (rule cbuf_init_correct) simp_all

text \<open>
  (C7) \<open>cbuf_get_chain\<close>, for every request and every state the calls before it can leave: when the
  free buffers and the chunks still to be handed out (the last one excluded) can hold the bytes,
  the caller gets a whole chain of exactly that many bytes made of buffers no other chain uses,
  all other live chains keep their contents, no buffer is lost, and the semaphore is free again.
  Otherwise the code does not return \<open>NULL\<close>: it writes behind the end of the region.
\<close>

theorem cbuf_get_chain_correct:
  assumes "cb_rep s F N cs k" and "\<not> cb_sem_held s" and "0 < len"
  shows "if len \<le> CBUF_DAT * (length F + 32 * (63 - k)) then
           \<exists>c s' F' k'. cbuf_get_chain len s = Returns (Some (hd c), s') \<and> cb_rep s' F' N (c # cs) k' \<and>
             \<not> cb_sem_held s' \<and> whole_chain (cb_mem s') c \<and> bytes_in (cb_mem s') c = len \<and>
             CBUF_DAT * (length c - 1) < len \<and> length F' + length c + 32 * (63 - k') = length F + 32 * (63 - k) \<and>
             (\<forall>d \<in> set cs. \<forall>i \<in> set d. cb_mem s' i = cb_mem s i)
         else cbuf_get_chain len s = Faults"
  using assms by (rule get_chain_rep)

theorem cbuf_get_chain_correct_witness:
  "\<exists>s. cbuf_init 3 4 5 (\<lambda>_. zero_cbuf) = Returns (B_NO_ERROR, s) \<and>
       (\<exists>c s'. cbuf_get_chain 100000 s = Returns (Some (hd c), s') \<and> bytes_in (cb_mem s') c = 100000) \<and>
       cbuf_get_chain (128 * 1024 * 1024) s = Faults"
proof -
  from cbuf_init_rep [of 3 4 5] obtain s where s: "cbuf_init 3 4 5 (\<lambda>_. zero_cbuf) = Returns (B_NO_ERROR, s)"
    "cb_rep s [32..<64] [0..<32] [] 2" "\<not> cb_sem_held s" by auto
  from cbuf_get_chain_correct [OF s(2,3), of 100000]
  have "\<exists>c s'. cbuf_get_chain 100000 s = Returns (Some (hd c), s') \<and> bytes_in (cb_mem s') c = 100000"
    by (auto simp: CBUF_DAT_eq)
  moreover from cbuf_get_chain_correct [OF s(2,3), of "128 * 1024 * 1024"]
  have "cbuf_get_chain (128 * 1024 * 1024) s = Faults" by (simp add: CBUF_DAT_eq)
  ultimately show ?thesis using s(1) by blast
qed

text \<open>
  Freeing a live chain puts exactly its buffers back, reset, at the front of the free list
  (or of the non-blocking list); no other chain changes and the semaphore is free afterwards.
\<close>

theorem cbuf_free_chain_correct:
  assumes "cb_rep s F N (c # cs) k" and "c \<noteq> []" and "\<not> cb_sem_held s"
  shows "(\<exists>s'. cbuf_free_chain (hd_ptr c) s = Returns s' \<and> cb_rep s' (c @ F) N cs k \<and>
               \<not> cb_sem_held s' \<and> (\<forall>i. i \<notin> set c \<longrightarrow> cb_mem s' i = cb_mem s i)) \<and>
         (\<exists>s'. cbuf_free_chain_noblock (hd_ptr c) s = Returns s' \<and> cb_rep s' F (c @ N) cs k \<and>
               \<not> cb_sem_held s' \<and> (\<forall>i. i \<notin> set c \<longrightarrow> cb_mem s' i = cb_mem s i))"
  using free_chain_rep(1) [OF assms] free_chain_rep(2) [OF assms(1,2)] assms(3) by simp

theorem cbuf_free_chain_correct_witness:
  "\<exists>s c s1 s2. cbuf_init 3 4 5 (\<lambda>_. zero_cbuf) = Returns (B_NO_ERROR, s) \<and>
     cbuf_get_chain 5000 s = Returns (hd_ptr c, s1) \<and>
     cbuf_free_chain (hd_ptr c) s1 = Returns s2 \<and> (\<exists>F k. cb_rep s2 F [0..<32] [] k)"
proof -
  from cbuf_init_rep [of 3 4 5] obtain s where s: "cbuf_init 3 4 5 (\<lambda>_. zero_cbuf) = Returns (B_NO_ERROR, s)"
    "cb_rep s [32..<64] [0..<32] [] 2" "\<not> cb_sem_held s" by auto
  from get_chain_rep [OF s(2,3), of 5000] obtain c s1 F k where g: "cbuf_get_chain 5000 s = Returns (Some (hd c), s1)"
    and r: "cb_rep s1 F [0..<32] [c] k" and h: "\<not> cb_sem_held s1" and w: "whole_chain (cb_mem s1) c"
    by (auto simp: CBUF_DAT_eq)
  from w have c: "c \<noteq> []" and hp: "hd_ptr c = Some (hd c)" by (auto simp: whole_chain_def hd_ptr_def split: list.split)
  from cbuf_free_chain_correct [OF r c h] s(1) g hp show ?thesis by metis
qed

text \<open>
  The non-blocking allocator either returns a whole chain of the size asked for, taken from
  its own list, or gives every buffer it had taken back and returns \<open>NULL\<close>; the blocking list,
  the other chains and the number of buffers are untouched. It never allocates.
\<close>

theorem cbuf_get_chain_noblock_correct:
  assumes "cb_rep s F N cs k" and "0 < len"
  shows "if len \<le> CBUF_DAT * length N then
           \<exists>c s' N'. cbuf_get_chain_noblock len s = Returns (Some (hd c), s') \<and>
             cb_rep s' F N' (c # cs) k \<and> mset N' + mset c = mset N \<and>
             whole_chain (cb_mem s') c \<and> bytes_in (cb_mem s') c = len \<and>
             (\<forall>d \<in> set cs. \<forall>i \<in> set d. cb_mem s' i = cb_mem s i)
         else
           \<exists>s' N'. cbuf_get_chain_noblock len s = Returns (None, s') \<and> cb_rep s' F N' cs k \<and>
             mset N' = mset N \<and> (\<forall>d \<in> set cs. \<forall>i \<in> set d. cb_mem s' i = cb_mem s i)"
proof -
  have "cb_rep s F N ([] # cs) k" using assms(1) by (simp add: cb_rep_empty)
  from get_noblock_loop_spec [OF this, of None len]
  have g: "got_noblock len F cs s (mset N) k (get_noblock_loop len None None 0 s)" by simp
  show ?thesis
  proof (cases "len \<le> CBUF_DAT * length N")
    case False
    with g show ?thesis
      by (auto simp: got_noblock_def cbuf_get_chain_noblock_def looped_outcome_def cb_rep_empty)
  next
    case True
    with g assms(2) obtain s1 N1 c where run: "get_noblock_loop len None None 0 s =
          Some (Returns (Some (hd_ptr c, if c = [] then None else Some (last c), CBUF_DAT * length c), s1))"
      and rep1: "cb_rep s1 F N1 (c # cs) k" and M: "mset N1 + mset c = mset N"
      and r: "\<forall>i \<in> set c. reset_buf (cb_mem s1 i)" and len: "len \<le> CBUF_DAT * length c"
      and c': "c = [] \<or> CBUF_DAT * (length c - 1) < len"
      and fr: "\<forall>d \<in> set cs. \<forall>i \<in> set d. cb_mem s1 i = cb_mem s i"
      unfolding got_noblock_def by (simp only: size_mset if_True) blast
    from len assms(2) have c: "c \<noteq> []" by auto
    with c' have len': "CBUF_DAT * (length c - 1) < len" by simp
    from fixup_chain_spec [OF rep1 c r len len'] obtain s2 where
      f: "fixup_chain len (hd_ptr c) (Some (last c)) (CBUF_DAT * length c) s1 = Returns (Some (hd c), s2)"
      and rep2: "cb_rep s2 F N1 (c # cs) k"
      and w: "whole_chain (cb_mem s2) c" "bytes_in (cb_mem s2) c = len"
      and out: "\<forall>i. i \<notin> set c \<longrightarrow> cb_mem s2 i = cb_mem s1 i" by auto
    have "cbuf_get_chain_noblock len s = Returns (Some (hd c), s2)"
      using run c f by (simp add: cbuf_get_chain_noblock_def looped_outcome_def)
    moreover have "cb_mem s2 i = cb_mem s i" if "d \<in> set cs" "i \<in> set d" for d i
    proof -
      have "distinct (concat (F # N1 # c # cs))" using rep1 by (simp add: cb_rep_def)
      with that have "i \<notin> set c" by auto
      with out fr that show ?thesis by simp
    qed
    ultimately show ?thesis using True rep2 M w by auto
  qed
qed

theorem cbuf_get_chain_noblock_correct_witness:
  "\<exists>s. cbuf_init 3 4 5 (\<lambda>_. zero_cbuf) = Returns (B_NO_ERROR, s) \<and>
       (\<exists>c s'. cbuf_get_chain_noblock 60000 s = Returns (Some (hd c), s') \<and> bytes_in (cb_mem s') c = 60000) \<and>
       (\<exists>s'. cbuf_get_chain_noblock 70000 s = Returns (None, s'))"
proof -
  from cbuf_init_rep [of 3 4 5] obtain s where s: "cbuf_init 3 4 5 (\<lambda>_. zero_cbuf) = Returns (B_NO_ERROR, s)"
    "cb_rep s [32..<64] [0..<32] [] 2" by auto
  from cbuf_get_chain_noblock_correct [OF s(2), of 60000]
  have "\<exists>c s'. cbuf_get_chain_noblock 60000 s = Returns (Some (hd c), s') \<and> bytes_in (cb_mem s') c = 60000"
    by (auto simp: CBUF_DAT_eq)
  moreover from cbuf_get_chain_noblock_correct [OF s(2), of 70000]
  have "\<exists>s'. cbuf_get_chain_noblock 70000 s = Returns (None, s')" by (auto simp: CBUF_DAT_eq)
  ultimately show ?thesis using s(1) by blast
qed

end
