(* ===== verification/Cksum.thy ===== *)
theory Cksum
  imports Usermem
begin

unbundle bit_operations_syntax

text \<open>
  The Internet checksum of \<open>misc.c\<close>, on a little-endian machine: the 32-bit accumulator, its
  early folding when the top bit is reached and the final folding are as in the code.
\<close>

text \<open>\<open>sum += x\<close> and the folding of the upper half.\<close>

definition word16_at :: "byte \<Rightarrow> byte \<Rightarrow> 32 word" where
  "word16_at lo hi = word_of_nat (unat lo + 256 * unat hi)"

definition fold16 :: "32 word \<Rightarrow> 32 word" where
  "fold16 acc = (acc AND 0xffff) + drop_bit 16 acc"

fun ones_sum_loop :: "32 word \<Rightarrow> byte list \<Rightarrow> 32 word" where
  "ones_sum_loop acc (a # b # bs) =
     (let sum1 = acc + word16_at a b;
          sum2 = (if sum1 AND 0x80000000 \<noteq> 0 then fold16 sum1 else sum1)
      in ones_sum_loop sum2 bs)"
| "ones_sum_loop acc [a] = acc + word16_at a 0"
| "ones_sum_loop acc [] = acc"

lemma unat_low16: "unat ((s :: 32 word) AND 0xffff) = unat s mod 65536"
proof -
  have "s AND 0xffff = take_bit 16 s" by (simp add: take_bit_eq_mask mask_eq_exp_minus_1)
  then show ?thesis by (simp add: take_bit_eq_mod unat_mod_distrib)
qed

lemma unat_high16: "unat (drop_bit 16 (s :: 32 word)) = unat s div 65536"
  by (simp add: drop_bit_eq_div unat_div_distrib)

lemma unat_fold16: "unat (fold16 s) = unat s mod 65536 + unat s div 65536"
proof -
  have "unat s < 4294967296" using unsigned_less [of s] by simp
  then have "unat (s AND 0xffff) + unat (drop_bit 16 s) < 2 ^ 32"
    by (simp add: unat_low16 unat_high16)
  then show ?thesis by (simp add: fold16_def unat_add_lem [THEN iffD1] unat_low16 unat_high16)
qed

function fold_all :: "32 word \<Rightarrow> 32 word" where
  "fold_all acc = (if drop_bit 16 acc \<noteq> 0 then fold_all (fold16 acc) else acc)"
  by pat_completeness auto
termination
proof (relation "measure unat")
  fix s :: "32 word"
  assume "drop_bit 16 s \<noteq> 0"
  then have "unat s div 65536 \<noteq> 0" using unat_high16 [of s] by (metis unsigned_0 word_unat_eq_iff)
  then have "unat s mod 65536 + unat s div 65536 < unat s"
    using mult_div_mod_eq [of 65536 "unat s"] by linarith
  then show "(fold16 s, s) \<in> measure unat" by (simp add: unat_fold16)
qed simp

declare fold_all.simps [simp del]

definition ones_sum16 :: "32 word \<Rightarrow> byte list \<Rightarrow> 16 word" where
  "ones_sum16 acc buf = ucast (fold_all (ones_sum_loop acc buf))"

definition cksum16 :: "byte list \<Rightarrow> 16 word" where
  "cksum16 buf = NOT (ones_sum16 0 buf)"

definition cksum16_2 :: "byte list \<Rightarrow> byte list \<Rightarrow> 16 word" where
  "cksum16_2 buf1 buf2 = NOT (ones_sum16 (ucast (ones_sum16 0 buf1)) buf2)"

section \<open>The sum modulo 65535\<close>

text \<open>The sum of the 16-bit words of a byte sequence, the odd last byte padded with zero.\<close>

fun wsum :: "byte list \<Rightarrow> nat" where
  "wsum (a # b # bs) = unat a + 256 * unat b + wsum bs"
| "wsum [a] = unat a"
| "wsum [] = 0"

text \<open>
  The ones complement sum of the words is the value between 1 and 65535 that equals their sum
  modulo 65535, or 0 when all bytes are 0.
\<close>

definition ones_complement :: "nat \<Rightarrow> nat" where
  "ones_complement n = (if n = 0 then 0 else (n - 1) mod 65535 + 1)"

definition swap16 :: "16 word \<Rightarrow> 16 word" where
  "swap16 acc = push_bit 8 (acc AND 0xff) OR (drop_bit 8 acc AND 0xff)"

lemma unat_byte: "unat (a :: byte) < 256"
  using unsigned_less [of a] by simp

lemma unat_word16_at: "unat (word16_at a b) = unat a + 256 * unat b"
proof -
  have "unat a + 256 * unat b < 2 ^ 32" using unat_byte [of a] unat_byte [of b] by simp
  then show ?thesis unfolding word16_at_def unat_of_nat by simp
qed

lemma bit31_iff: "(s :: 32 word) AND 0x80000000 \<noteq> 0 \<longleftrightarrow> 2 ^ 31 \<le> unat s"
proof -
  have "s AND 0x80000000 \<noteq> 0 \<longleftrightarrow> bit s 31"
    using bit_iff_and_push_bit_not_eq_0 [of s 31] by simp
  also have "\<dots> \<longleftrightarrow> bit (unat s) 31" by (simp add: bit_unsigned_iff)
  also have "\<dots> \<longleftrightarrow> odd (unat s div 2 ^ 31)" by (simp add: bit_iff_odd)
  also have "\<dots> \<longleftrightarrow> 2 ^ 31 \<le> unat s"
  proof -
    have "unat s < 2 ^ 32" using unsigned_less [of s] by simp
    then have "unat s div 2 ^ 31 < 2" by simp
    then have "unat s div 2 ^ 31 = (if 2 ^ 31 \<le> unat s then 1 else 0)"
      by (auto simp: div_eq_0_iff)
    then show ?thesis by simp
  qed
  finally show ?thesis .
qed

lemma fold_mod: "(x mod 65536 + x div 65536) mod 65535 = (x :: nat) mod 65535"
proof -
  have "x = 65535 * (x div 65536) + (x mod 65536 + x div 65536)"
    using mult_div_mod_eq [of 65536 x] by linarith
  then show ?thesis by (metis mod_mult_self4)
qed

lemma fold_pos: "0 < x \<Longrightarrow> 0 < x mod 65536 + x div (65536 :: nat)"
  by (metis add_is_0 div_mult_mod_eq gr0I mult_zero_left plus_nat.add_0)

text \<open>
  One value of the accumulator stands for another: equal modulo 65535, and zero only together.
\<close>

definition ones_eq :: "nat \<Rightarrow> nat \<Rightarrow> bool" where
  "ones_eq x y \<longleftrightarrow> x mod 65535 = y mod 65535 \<and> (x = 0 \<longleftrightarrow> y = 0)"

lemma ones_eq_refl [simp]: "ones_eq x x"
  by (simp add: ones_eq_def)

lemma ones_eq_trans: "ones_eq x y \<Longrightarrow> ones_eq y z \<Longrightarrow> ones_eq x z"
  by (simp add: ones_eq_def)

lemma ones_eq_sym: "ones_eq x y \<Longrightarrow> ones_eq y x"
  by (auto simp: ones_eq_def)

lemma ones_eq_add: "ones_eq a b \<Longrightarrow> ones_eq c d \<Longrightarrow> ones_eq (a + c) (b + d)"
  by (auto simp: ones_eq_def intro: mod_add_cong)

lemma ones_eq_mult: "ones_eq a b \<Longrightarrow> 0 < k \<Longrightarrow> ones_eq (k * a) (k * b)"
  by (auto simp: ones_eq_def intro: mod_mult_cong)

lemma ones_eq_65536: "ones_eq (65536 * a) a"
proof -
  have "65536 * a = 65535 * a + a" by simp
  then show ?thesis by (simp only: ones_eq_def mod_mult_self4) simp
qed

lemma ones_eq_unique: "ones_eq x y \<Longrightarrow> x < 65536 \<Longrightarrow> y < 65536 \<Longrightarrow> x = y"
proof -
  assume e: "ones_eq x y" and "x < 65536" "y < 65536"
  then consider "x < 65535 \<and> y < 65535" | "x = 65535" | "y = 65535" by linarith
  then show "x = y" using e \<open>x < 65536\<close> \<open>y < 65536\<close> by cases (auto simp: ones_eq_def mod_eq_0_iff_dvd dest: dvd_imp_le)
qed

lemma ones_complement_eq: "ones_eq (ones_complement n) n" and ones_complement_less: "ones_complement n < 65536"
proof -
  have "n = 65535 * ((n - 1) div 65535) + ones_complement n" if "0 < n"
    using that mult_div_mod_eq [of 65535 "n - 1"] by (simp add: ones_complement_def)
  then have "n mod 65535 = ones_complement n mod 65535" if "0 < n" using that by (metis mod_mult_self4)
  then show "ones_eq (ones_complement n) n" by (cases n) (auto simp: ones_eq_def ones_complement_def)
  have "(n - 1) mod 65535 < 65535" by simp
  then show "ones_complement n < 65536" by (simp add: ones_complement_def)
qed

lemma ones_eq_fold: "ones_eq (unat (fold16 s)) (unat s)"
  using fold_mod [of "unat s"] fold_pos [of "unat s"] by (auto simp: ones_eq_def unat_fold16)

lemma fold_all_spec: "ones_eq (unat (fold_all s)) (unat s) \<and> unat (fold_all s) < 65536"
proof (induction s rule: fold_all.induct)
  case (1 s)
  show ?case
  proof (cases "drop_bit 16 s = 0")
    case True
    then have "unat s < 65536" using unat_high16 [of s] by (simp add: div_eq_0_iff)
    with True fold_all.simps [of s] show ?thesis by simp
  next
    case False
    then have "fold_all s = fold_all (fold16 s)" using fold_all.simps [of s] by simp
    with 1 [OF False] ones_eq_fold [of s] show ?thesis by (auto intro: ones_eq_trans)
  qed
qed

lemma ones_sum_loop_spec:
  "unat acc < 2 ^ 31 \<Longrightarrow> ones_eq (unat (ones_sum_loop acc bs)) (unat acc + wsum bs)"
proof (induction acc bs rule: ones_sum_loop.induct)
  case (1 acc a b bs)
  let ?s1 = "acc + word16_at a b"
  let ?s2 = "if ?s1 AND 0x80000000 \<noteq> 0 then fold16 ?s1 else ?s1"
  have w: "unat (word16_at a b) < 65536"
    using unat_byte [of a] unat_byte [of b] by (simp add: unat_word16_at)
  with 1(2) have u1: "unat ?s1 = unat acc + (unat a + 256 * unat b)"
    by (subst unat_add_lem [THEN iffD1]) (simp_all add: unat_word16_at)
  have lt: "unat ?s2 < 2 ^ 31"
  proof (cases "?s1 AND 0x80000000 = 0")
    case True
    then show ?thesis using bit31_iff [of ?s1] by simp
  next
    case False
    have "unat ?s1 < 2 ^ 32" using unsigned_less [of ?s1] by simp
    then have "unat ?s1 div 65536 < 65536" by (simp add: div_less_iff_less_mult)
    moreover have "unat ?s1 mod 65536 < 65536" by simp
    ultimately show ?thesis using False by (simp add: unat_fold16)
  qed
  have "ones_eq (unat ?s2) (unat ?s1)" using ones_eq_fold by simp
  then have "ones_eq (unat ?s2 + wsum bs) (unat acc + wsum (a # b # bs))"
    using ones_eq_add [of "unat ?s2" "unat ?s1" "wsum bs" "wsum bs"] u1 by (simp add: add_ac)
  with 1(1) [OF refl refl lt] show ?case by (simp add: Let_def ones_eq_trans)
next
  case (2 acc a)
  have w: "unat (word16_at a 0) < 65536" using unat_byte [of a] by (simp add: unat_word16_at)
  with 2 have "unat (acc + word16_at a 0) = unat acc + unat a"
    by (subst unat_add_lem [THEN iffD1]) (simp_all add: unat_word16_at)
  then show ?case by simp
qed simp

lemma ones_sum16_spec:
  assumes "unat acc < 2 ^ 31"
  shows "ones_eq (unat (ones_sum16 acc bs)) (unat acc + wsum bs)"
proof -
  have "unat (ones_sum16 acc bs) = unat (fold_all (ones_sum_loop acc bs))"
    using fold_all_spec [of "ones_sum_loop acc bs"] by (simp add: ones_sum16_def unsigned_ucast_eq take_bit_nat_eq_self)
  with fold_all_spec [of "ones_sum_loop acc bs"] ones_sum_loop_spec [OF assms] show ?thesis
    by (auto intro: ones_eq_trans)
qed

text \<open>Appending after an odd number of bytes shifts the rest by eight bits.\<close>

lemma wsum_Cons: "ones_eq (wsum (a # bs)) (unat a + 256 * wsum bs)"
proof (induction bs arbitrary: a rule: wsum.induct)
  case (1 b c bs)
  from 1 [of c] have "ones_eq (wsum (c # bs)) (unat c + 256 * wsum bs)" .
  moreover have "ones_eq (unat c) (65536 * unat c)" by (rule ones_eq_sym [OF ones_eq_65536])
  ultimately have "ones_eq (wsum (c # bs)) (65536 * unat c + 256 * wsum bs)"
    by (meson ones_eq_add ones_eq_refl ones_eq_trans)
  then have "ones_eq (unat a + 256 * unat b + wsum (c # bs))
      (unat a + 256 * unat b + (65536 * unat c + 256 * wsum bs))"
    by (rule ones_eq_add [OF ones_eq_refl])
  then show ?case by (simp add: algebra_simps)
qed simp_all

lemma wsum_append:
  "ones_eq (wsum (xs @ ys)) (wsum xs + (if even (length xs) then wsum ys else 256 * wsum ys))"
proof (induction xs rule: wsum.induct)
  case (1 a b bs)
  then show ?case
    using ones_eq_add [OF ones_eq_refl 1, of "unat a + 256 * unat b"] by (simp add: add.assoc)
next
  case (2 a)
  show ?case using wsum_Cons [of a ys] by simp
qed simp

lemma swap16_spec: "ones_eq (unat (swap16 s)) (256 * unat s)"
proof -
  let ?l = "push_bit 8 (s AND 0xff)" and ?h = "drop_bit 8 s AND 0xff"
  have s: "unat s < 65536" using unsigned_less [of s] by simp
  have tb: "x AND 0xff = take_bit 8 x" for x :: "16 word"
    by (simp add: take_bit_eq_mask mask_eq_exp_minus_1)
  have mask: "unat (x AND 0xff) = unat x mod 256" for x :: "16 word"
    unfolding tb by (simp add: take_bit_eq_mod unat_mod_distrib)
  note low = mask [of s]
  have "unat (drop_bit 8 s) = unat s div 256" by (simp add: drop_bit_eq_div unat_div_distrib)
  then have high: "unat ?h = unat s div 256" using mask [of "drop_bit 8 s"] s by simp
  have l: "unat ?l = 256 * (unat s mod 256)"
  proof -
    have "?l = (s AND 0xff) * 256" by (simp add: push_bit_eq_mult)
    moreover have "unat (s AND 0xff) * 256 < 2 ^ 16" unfolding low by simp
    ultimately show ?thesis
      using unat_mult_lem [of "s AND 0xff" "256 :: 16 word"] low by simp
  qed
  have "?l AND ?h = 0"
    unfolding tb by (rule bit_word_eqI) (auto simp: bit_simps)
  then have "swap16 s = ?l + ?h" by (simp only: swap16_def disjunctive_add_eq_or)
  moreover have lt: "unat ?l + unat ?h < 2 ^ LENGTH(16)" unfolding l high using s by simp
  have "unat (?l + ?h) = unat ?l + unat ?h" by (rule unat_add_lem [THEN iffD1, OF lt])
  ultimately have u: "unat (swap16 s) = 256 * (unat s mod 256) + unat s div 256"
    by (simp only: l high)
  have "256 * unat s = 256 * (unat s mod 256) + 65536 * (unat s div 256)"
    using mult_div_mod_eq [of 256 "unat s"] by linarith
  then show ?thesis
    unfolding u by (simp only:) (intro ones_eq_add ones_eq_refl ones_eq_sym [OF ones_eq_65536])
qed

end
