(* ===== verification/Cbuf_Ops.thy ===== *)
theory Cbuf_Ops
  imports Cbuf Cksum
begin

text \<open>
  The operations of \<open>cbuf.c\<close> on the contents of a chain: copies in and out, from and to kernel
  and user memory, duplication, merging, truncation and the checksum. Positions are offsets
  into the bytes of the whole chain.
\<close>

section \<open>Copies\<close>

text \<open>
  The search for the buffer that holds an offset. \<open>Some None\<close> is the early return with
  \<open>ERR_GENERAL\<close>: the chain ended first.
\<close>

partial_function (option) cb_seek :: "cmem \<Rightarrow> nat ptr \<Rightarrow> nat \<Rightarrow> (nat ptr \<times> nat) option option" where
  "cb_seek m buf offset =
     (if 0 < offset then
        (case buf of
           None \<Rightarrow> Some None
         | Some b \<Rightarrow>
             if offset < cb_len (m b) then Some (Some (buf, offset))
             else cb_seek m (cb_next (m b)) (offset - cb_len (m b)))
      else Some (Some (buf, 0)))"

definition put_bytes :: "nat \<Rightarrow> byte list \<Rightarrow> cbuf \<Rightarrow> cbuf" where
  "put_bytes pos bs b = b\<lparr>cb_dat := take pos (cb_dat b) @ bs @ drop (pos + length bs) (cb_dat b)\<rparr>"

text \<open>A copy that leaves the storage of its buffer overwrites the next buffer: \<open>Faults\<close>.\<close>

partial_function (option) copy_to :: "cmem \<Rightarrow> nat ptr \<Rightarrow> nat \<Rightarrow> byte list \<Rightarrow> (int \<times> cmem) outcome option" where
  "copy_to m buf buf_offset src =
     (if src \<noteq> [] then
        (case buf of
           None \<Rightarrow> Some (Returns (ERR_GENERAL, m))
         | Some b \<Rightarrow>
             (let n = min (length src) (u32_sub (cb_len (m b)) buf_offset);
                  pos = cb_data (m b) + buf_offset
              in if CBUF_DAT < pos + n then Some Faults
                 else copy_to (m(b := put_bytes pos (take n src) (m b))) (cb_next (m b)) 0 (drop n src)))
      else Some (Returns (B_NO_ERROR, m)))"

definition cbuf_memcpy_to_chain :: "nat \<Rightarrow> nat \<Rightarrow> byte list \<Rightarrow> cbufst \<Rightarrow> (int \<times> cbufst) outcome" where
  "cbuf_memcpy_to_chain chn offset src s =
     (if \<not> is_head (cb_mem s chn) then Returns (ERR_INVALID_ARGS, s)
      else if cb_total_len (cb_mem s chn) < u32_add (length src) offset then Returns (ERR_INVALID_ARGS, s)
      else obind (looped (cb_seek (cb_mem s) (Some chn) offset)) (\<lambda>r.
        case r of
          None \<Rightarrow> Returns (ERR_GENERAL, s)
        | Some (buf, buf_offset) \<Rightarrow>
            obind (looped_outcome (copy_to (cb_mem s) buf buf_offset src)) (\<lambda>(rc, m).
              Returns (rc, s\<lparr>cb_mem := m\<rparr>))))"

text \<open>
  From user memory. The code stores the result of the comparison with zero in \<open>err\<close>, so a
  fault gives \<open>1\<close>.
\<close>

partial_function (option) user_copy_to ::
  "umem \<Rightarrow> cmem \<Rightarrow> nat ptr \<Rightarrow> nat \<Rightarrow> nat \<Rightarrow> nat \<Rightarrow> int \<Rightarrow> (int \<times> cmem) outcome option" where
  "user_copy_to um m buf buf_offset src len err =
     (if 0 < len then
        (case buf of
           None \<Rightarrow> Some (Returns (ERR_GENERAL, m))
         | Some b \<Rightarrow>
             (let n = min len (u32_sub (cb_len (m b)) buf_offset);
                  pos = cb_data (m b) + buf_offset
              in if CBUF_DAT < pos + n then Some Faults
                 else (case user_memcpy_in um src n of
                   (bs, rc) \<Rightarrow>
                     (let m1 = m(b := put_bytes pos bs (m b))
                      in if rc < 0 then Some (Returns (1, m1))
                         else user_copy_to um m1 (cb_next (m b)) 0 (src + n) (len - n) 0))))
      else Some (Returns (err, m)))"

definition cbuf_user_memcpy_to_chain ::
  "umem \<Rightarrow> nat \<Rightarrow> nat \<Rightarrow> nat \<Rightarrow> nat \<Rightarrow> cbufst \<Rightarrow> (int \<times> cbufst) outcome" where
  "cbuf_user_memcpy_to_chain um chn offset src len s =
     (if \<not> is_head (cb_mem s chn) then Returns (ERR_INVALID_ARGS, s)
      else if cb_total_len (cb_mem s chn) < u32_add len offset then Returns (ERR_INVALID_ARGS, s)
      else obind (looped (cb_seek (cb_mem s) (Some chn) offset)) (\<lambda>r.
        case r of
          None \<Rightarrow> Returns (ERR_GENERAL, s)
        | Some (buf, buf_offset) \<Rightarrow>
            obind (looped_outcome (user_copy_to um (cb_mem s) buf buf_offset src len B_NO_ERROR))
              (\<lambda>(rc, m). Returns (rc, s\<lparr>cb_mem := m\<rparr>))))"

text \<open>The bytes a buffer's window gives from a position on.\<close>

definition get_bytes :: "nat \<Rightarrow> nat \<Rightarrow> cbuf \<Rightarrow> byte list" where
  "get_bytes pos n b = take n (drop pos (cb_dat b))"

partial_function (option) copy_from ::
  "cmem \<Rightarrow> nat ptr \<Rightarrow> nat \<Rightarrow> nat \<Rightarrow> byte list \<Rightarrow> (int \<times> byte list) outcome option" where
  "copy_from m buf buf_offset len dest =
     (if 0 < len then
        (case buf of
           None \<Rightarrow> Some (Returns (ERR_GENERAL, dest))
         | Some b \<Rightarrow>
             (let n = min len (u32_sub (cb_len (m b)) buf_offset);
                  pos = cb_data (m b) + buf_offset
              in if CBUF_DAT < pos + n then Some Faults
                 else copy_from m (cb_next (m b)) 0 (len - n) (dest @ get_bytes pos n (m b))))
      else Some (Returns (B_NO_ERROR, dest)))"

text \<open>The second component of the result is what was written to \<open>dest\<close>, from its start.\<close>

definition cbuf_memcpy_from_chain :: "nat \<Rightarrow> nat \<Rightarrow> nat \<Rightarrow> cbufst \<Rightarrow> (int \<times> byte list) outcome" where
  "cbuf_memcpy_from_chain chn offset len s =
     (if \<not> is_head (cb_mem s chn) then Returns (ERR_INVALID_ARGS, [])
      else if cb_total_len (cb_mem s chn) < u32_add len offset then Returns (ERR_INVALID_ARGS, [])
      else obind (looped (cb_seek (cb_mem s) (Some chn) offset)) (\<lambda>r.
        case r of
          None \<Rightarrow> Returns (ERR_GENERAL, [])
        | Some (buf, buf_offset) \<Rightarrow> looped_outcome (copy_from (cb_mem s) buf buf_offset len [])))"

partial_function (option) user_copy_from ::
  "cmem \<Rightarrow> nat ptr \<Rightarrow> nat \<Rightarrow> nat \<Rightarrow> nat \<Rightarrow> int \<Rightarrow> umem \<Rightarrow> (int \<times> umem) outcome option" where
  "user_copy_from m buf buf_offset dest len err um =
     (if 0 < len then
        (case buf of
           None \<Rightarrow> Some (Returns (ERR_GENERAL, um))
         | Some b \<Rightarrow>
             (let n = min len (u32_sub (cb_len (m b)) buf_offset);
                  pos = cb_data (m b) + buf_offset
              in if CBUF_DAT < pos + n then Some Faults
                 else (case user_memcpy_out um dest (get_bytes pos n (m b)) of
                   (rc, um1) \<Rightarrow>
                     if rc < 0 then Some (Returns (1, um1))
                     else user_copy_from m (cb_next (m b)) 0 (dest + n) (len - n) 0 um1)))
      else Some (Returns (err, um)))"

definition cbuf_user_memcpy_from_chain ::
  "nat \<Rightarrow> nat \<Rightarrow> nat \<Rightarrow> nat \<Rightarrow> cbufst \<Rightarrow> umem \<Rightarrow> (int \<times> umem) outcome" where
  "cbuf_user_memcpy_from_chain dest chn offset len s um =
     (if \<not> is_head (cb_mem s chn) then Returns (ERR_INVALID_ARGS, um)
      else if cb_total_len (cb_mem s chn) < u32_add len offset then Returns (ERR_INVALID_ARGS, um)
      else obind (looped (cb_seek (cb_mem s) (Some chn) offset)) (\<lambda>r.
        case r of
          None \<Rightarrow> Returns (ERR_GENERAL, um)
        | Some (buf, buf_offset) \<Rightarrow>
            looped_outcome (user_copy_from (cb_mem s) buf buf_offset dest len B_NO_ERROR um)))"

section \<open>Duplication\<close>

text \<open>
  The copy between two chains: both have their own position. \<open>Some (Returns None)\<close> is the
  failure of the code, after which the new chain is freed.
\<close>

partial_function (option) dup_loop ::
  "cmem \<Rightarrow> nat ptr \<Rightarrow> nat \<Rightarrow> nat ptr \<Rightarrow> nat \<Rightarrow> nat \<Rightarrow> (bool \<times> cmem) outcome option" where
  "dup_loop m buf buf_offset destbuf dest_buf_offset len =
     (if 0 < len then
        (case (buf, destbuf) of
           (None, _) \<Rightarrow> Some (Returns (False, m))
         | (_, None) \<Rightarrow> Some (Returns (False, m))
         | (Some b, Some d) \<Rightarrow>
             (let n = min (min (u32_sub (cb_len (m d)) dest_buf_offset) (u32_sub (cb_len (m b)) buf_offset)) len;
                  pos = cb_data (m b) + buf_offset;
                  dpos = cb_data (m d) + dest_buf_offset
              in if CBUF_DAT < pos + n \<or> CBUF_DAT < dpos + n then Some Faults
                 else
                   (let m1 = m(d := put_bytes dpos (get_bytes pos n (m b)) (m d));
                        src_end = (n + buf_offset = cb_len (m b));
                        dest_end = (n + dest_buf_offset = cb_len (m d))
                    in dup_loop m1
                         (if src_end then cb_next (m b) else buf)
                         (if src_end then 0 else buf_offset + n)
                         (if dest_end then cb_next (m d) else destbuf)
                         (if dest_end then 0 else dest_buf_offset + n)
                         (len - n))))
      else Some (Returns (True, m)))"

definition cbuf_duplicate_chain :: "nat ptr \<Rightarrow> nat \<Rightarrow> nat \<Rightarrow> cbufst \<Rightarrow> (nat ptr \<times> cbufst) outcome" where
  "cbuf_duplicate_chain chn offset len s =
     (case chn of
        None \<Rightarrow> Returns (None, s)
      | Some c \<Rightarrow>
          if \<not> is_head (cb_mem s c) then Returns (None, s)
          else if cb_total_len (cb_mem s c) \<le> offset then Returns (None, s)
          else
            (let len1 = min len (cb_total_len (cb_mem s c) - offset)
             in obind (cbuf_get_chain len1 s) (\<lambda>(newbuf, s1).
                  if newbuf = None then Returns (None, s1)
                  else obind (looped (cb_seek (cb_mem s1) chn offset)) (\<lambda>r.
                    case r of
                      None \<Rightarrow> obind (cbuf_free_chain newbuf s1) (\<lambda>s2. Returns (None, s2))
                    | Some (buf, buf_offset) \<Rightarrow>
                        obind (looped_outcome (dup_loop (cb_mem s1) buf buf_offset newbuf 0 len1)) (\<lambda>(ok, m).
                          if ok then Returns (newbuf, s1\<lparr>cb_mem := m\<rparr>)
                          else obind (cbuf_free_chain newbuf (s1\<lparr>cb_mem := m\<rparr>)) (\<lambda>s2. Returns (None, s2)))))))"

section \<open>Merging, lengths and truncation\<close>

partial_function (option) last_buf :: "cmem \<Rightarrow> nat \<Rightarrow> nat option" where
  "last_buf m b = (case cb_next (m b) of None \<Rightarrow> Some b | Some n \<Rightarrow> last_buf m n)"

definition cbuf_merge_chains :: "nat ptr \<Rightarrow> nat ptr \<Rightarrow> cbufst \<Rightarrow> (nat ptr \<times> cbufst) outcome" where
  "cbuf_merge_chains chain1 chain2 s =
     (case (chain1, chain2) of
        (None, None) \<Rightarrow> Returns (None, s)
      | (None, _) \<Rightarrow> Returns (chain2, s)
      | (_, None) \<Rightarrow> Returns (chain1, s)
      | (Some c1, Some c2) \<Rightarrow>
          if \<not> is_head (cb_mem s c1) then Returns (None, s)
          else if \<not> is_head (cb_mem s c2) then Returns (None, s)
          else obind (looped (last_buf (cb_mem s) c1)) (\<lambda>b.
            (let m = cb_mem s;
                 m1 = m(b := (m b)\<lparr>cb_next := chain2, cb_flags := cb_flags (m b) AND NOT CHAIN_TAIL\<rparr>);
                 m2 = m1(c1 := (m1 c1)\<lparr>cb_total_len := u32_add (cb_total_len (m1 c1)) (cb_total_len (m1 c2))\<rparr>);
                 m3 = m2(c2 := (m2 c2)\<lparr>cb_flags := cb_flags (m2 c2) AND NOT CHAIN_HEAD\<rparr>)
             in Returns (chain1, s\<lparr>cb_mem := m3\<rparr>))))"

partial_function (option) sum_lens :: "cmem \<Rightarrow> nat ptr \<Rightarrow> nat \<Rightarrow> nat option" where
  "sum_lens m buf len =
     (case buf of
        None \<Rightarrow> Some len
      | Some b \<Rightarrow> sum_lens m (cb_next (m b)) (u32_add len (cb_len (m b))))"

text \<open>The error code for a null pointer is returned as a \<open>size_t\<close>.\<close>

definition cbuf_get_len :: "nat ptr \<Rightarrow> cbufst \<Rightarrow> nat outcome" where
  "cbuf_get_len buf s =
     (case buf of
        None \<Rightarrow> Returns (nat (ERR_INVALID_ARGS + 2 ^ 32))
      | Some b \<Rightarrow>
          if is_head (cb_mem s b) then Returns (cb_total_len (cb_mem s b))
          else looped (sum_lens (cb_mem s) buf 0))"

text \<open>A pointer into a buffer's storage: the buffer and the position in it.\<close>

partial_function (option) get_ptr_loop :: "cmem \<Rightarrow> nat ptr \<Rightarrow> nat \<Rightarrow> (nat \<times> nat) option option" where
  "get_ptr_loop m buf offset =
     (case buf of
        None \<Rightarrow> Some None
      | Some b \<Rightarrow>
          if offset < cb_len (m b) then Some (Some (b, cb_data (m b) + offset))
          else get_ptr_loop m (cb_next (m b)) (offset - cb_len (m b)))"

definition cbuf_get_ptr :: "nat ptr \<Rightarrow> nat \<Rightarrow> cbufst \<Rightarrow> (nat \<times> nat) option outcome" where
  "cbuf_get_ptr buf offset s = looped (get_ptr_loop (cb_mem s) buf offset)"

partial_function (option) contig_loop :: "cmem \<Rightarrow> nat ptr \<Rightarrow> nat \<Rightarrow> nat \<Rightarrow> int option" where
  "contig_loop m buf start stop =
     (case buf of
        None \<Rightarrow> Some 0
      | Some b \<Rightarrow>
          if start < cb_len (m b) then Some (if stop \<le> cb_len (m b) - start then 1 else 0)
          else contig_loop m (cb_next (m b)) (start - cb_len (m b)) (u32_sub stop (cb_len (m b))))"

definition cbuf_is_contig_region :: "nat ptr \<Rightarrow> nat \<Rightarrow> nat \<Rightarrow> cbufst \<Rightarrow> int outcome" where
  "cbuf_is_contig_region buf start stop s = looped (contig_loop (cb_mem s) buf start stop)"

text \<open>The checksum over a chain: partial sums are byte-swapped when they change parity.\<close>

partial_function (option) cksum_start :: "cmem \<Rightarrow> nat ptr \<Rightarrow> nat \<Rightarrow> (nat ptr \<times> nat) option" where
  "cksum_start m buf offset =
     (case buf of
        None \<Rightarrow> Some (None, offset)
      | Some b \<Rightarrow>
          if offset < cb_len (m b) then Some (buf, offset)
          else cksum_start m (cb_next (m b)) (offset - cb_len (m b)))"

partial_function (option) cksum_loop ::
  "cmem \<Rightarrow> nat ptr \<Rightarrow> nat \<Rightarrow> nat \<Rightarrow> 16 word \<Rightarrow> bool \<Rightarrow> (16 word \<times> bool) outcome option" where
  "cksum_loop m buf offset len acc swapped =
     (case buf of
        None \<Rightarrow> Some (Returns (acc, swapped))
      | Some b \<Rightarrow>
          if 0 < len then
            (let pos = cb_data (m b) + offset;
                 plen = min len (u32_sub (cb_len (m b)) offset)
             in if CBUF_DAT < pos + plen then Some Faults
                else
                  (let acc1 = ones_sum16 (ucast acc) (get_bytes pos plen (m b));
                       len1 = len - plen;
                       buf1 = cb_next (m b);
                       odd_step = (buf1 \<noteq> None \<and> 0 < len1 \<and>
                                   (odd offset \<and> even plen \<or> even offset \<and> odd plen))
                   in cksum_loop m buf1 0 len1
                        (if odd_step then swap16 acc1 else acc1)
                        (if odd_step then \<not> swapped else swapped)))
          else Some (Returns (acc, swapped)))"

definition cbuf_ones_cksum16 :: "nat ptr \<Rightarrow> nat \<Rightarrow> nat \<Rightarrow> cbufst \<Rightarrow> 16 word outcome" where
  "cbuf_ones_cksum16 buf offset len s =
     (case buf of
        None \<Rightarrow> Returns 0
      | Some b \<Rightarrow>
          if \<not> is_head (cb_mem s b) then Returns 0
          else obind (looped (cksum_start (cb_mem s) buf offset)) (\<lambda>(buf1, offset1).
            obind (looped_outcome (cksum_loop (cb_mem s) buf1 offset1 len 0 False)) (\<lambda>(acc, swapped).
              Returns (NOT (if swapped then swap16 acc else acc)))))"

partial_function (option) trunc_head_loop :: "nat \<Rightarrow> cmem \<Rightarrow> nat ptr \<Rightarrow> nat \<Rightarrow> cmem option" where
  "trunc_head_loop hd_buf m buf trunc_bytes =
     (case buf of
        None \<Rightarrow> Some m
      | Some b \<Rightarrow>
          if 0 < trunc_bytes then
            (let n = min trunc_bytes (cb_len (m b));
                 m1 = m(b := (m b)\<lparr>cb_len := cb_len (m b) - n, cb_data := cb_data (m b) + n\<rparr>);
                 m2 = m1(hd_buf := (m1 hd_buf)\<lparr>cb_total_len := u32_sub (cb_total_len (m1 hd_buf)) n\<rparr>)
             in trunc_head_loop hd_buf m2 (cb_next (m2 b)) (trunc_bytes - n))
          else Some m)"

definition cbuf_truncate_head :: "nat ptr \<Rightarrow> nat \<Rightarrow> cbufst \<Rightarrow> (int \<times> cbufst) outcome" where
  "cbuf_truncate_head buf trunc_bytes s =
     (case buf of
        None \<Rightarrow> Returns (ERR_INVALID_ARGS, s)
      | Some b \<Rightarrow>
          if \<not> is_head (cb_mem s b) then Returns (ERR_INVALID_ARGS, s)
          else obind (looped (trunc_head_loop b (cb_mem s) buf trunc_bytes)) (\<lambda>m.
            Returns (0, s\<lparr>cb_mem := m\<rparr>)))"

partial_function (option) trunc_seek :: "cmem \<Rightarrow> nat ptr \<Rightarrow> nat \<Rightarrow> (nat ptr \<times> nat) option" where
  "trunc_seek m buf offset =
     (case buf of
        None \<Rightarrow> Some (None, 0)
      | Some b \<Rightarrow>
          if 0 < offset then
            (if offset < cb_len (m b) then Some (buf, offset)
             else trunc_seek m (cb_next (m b)) (offset - cb_len (m b)))
          else Some (buf, 0))"

partial_function (option) clear_rest :: "nat \<Rightarrow> cmem \<Rightarrow> nat ptr \<Rightarrow> cmem option" where
  "clear_rest hd_buf m buf =
     (case buf of
        None \<Rightarrow> Some m
      | Some b \<Rightarrow>
          (let m1 = m(hd_buf := (m hd_buf)\<lparr>cb_total_len := u32_sub (cb_total_len (m hd_buf)) (cb_len (m b))\<rparr>);
               m2 = m1(b := (m1 b)\<lparr>cb_len := 0\<rparr>)
           in clear_rest hd_buf m2 (cb_next (m2 b))))"

definition cbuf_truncate_tail :: "nat ptr \<Rightarrow> nat \<Rightarrow> cbufst \<Rightarrow> (int \<times> cbufst) outcome" where
  "cbuf_truncate_tail buf trunc_bytes s =
     (case buf of
        None \<Rightarrow> Returns (ERR_INVALID_ARGS, s)
      | Some h \<Rightarrow>
          if \<not> is_head (cb_mem s h) then Returns (ERR_INVALID_ARGS, s)
          else obind (looped (trunc_seek (cb_mem s) buf (u32_sub (cb_total_len (cb_mem s h)) trunc_bytes)))
            (\<lambda>(buf1, buf_offset).
              case buf1 of
                None \<Rightarrow> Returns (ERR_GENERAL, s)
              | Some b \<Rightarrow>
                  (let m = cb_mem s;
                       cut = u32_sub (cb_len (m b)) buf_offset;
                       m1 = m(h := (m h)\<lparr>cb_total_len := u32_sub (cb_total_len (m h)) cut\<rparr>);
                       m2 = m1(b := (m1 b)\<lparr>cb_len := u32_sub (cb_len (m1 b)) cut\<rparr>)
                   in obind (looped (clear_rest h m2 (cb_next (m2 b)))) (\<lambda>m3.
                        Returns (B_NO_ERROR, s\<lparr>cb_mem := m3\<rparr>)))))"

section \<open>The bytes of a chain\<close>

definition window :: "cbuf \<Rightarrow> byte list" where
  "window b = take (cb_len b) (drop (cb_data b) (cb_dat b))"

definition chain_bytes :: "cmem \<Rightarrow> nat list \<Rightarrow> byte list" where
  "chain_bytes m c = concat (map (\<lambda>i. window (m i)) c)"

definition bufs_ok :: "cmem \<Rightarrow> nat list \<Rightarrow> bool" where
  "bufs_ok m c \<longleftrightarrow> (\<forall>i \<in> set c. buf_ok (m i))"

lemma chain_bytes_simps [simp]:
  "chain_bytes m [] = []" "chain_bytes m (i # c) = window (m i) @ chain_bytes m c"
  "chain_bytes m (c @ d) = chain_bytes m c @ chain_bytes m d"
  by (simp_all add: chain_bytes_def)

lemma bufs_ok_simps [simp]:
  "bufs_ok m []" "bufs_ok m (i # c) \<longleftrightarrow> buf_ok (m i) \<and> bufs_ok m c"
  "bufs_ok m (c @ d) \<longleftrightarrow> bufs_ok m c \<and> bufs_ok m d"
  by (auto simp: bufs_ok_def)

lemma length_window [simp]: "buf_ok b \<Longrightarrow> length (window b) = cb_len b"
  by (auto simp: buf_ok_def window_def)

lemma length_chain_bytes [simp]: "bufs_ok m c \<Longrightarrow> length (chain_bytes m c) = bytes_in m c"
  by (induction c) auto

lemma chain_bytes_cong: "(\<And>i. i \<in> set c \<Longrightarrow> m i = m' i) \<Longrightarrow> chain_bytes m c = chain_bytes m' c"
  by (simp add: chain_bytes_def cong: map_cong)

lemma bufs_ok_cong: "(\<And>i. i \<in> set c \<Longrightarrow> m i = m' i) \<Longrightarrow> bufs_ok m c = bufs_ok m' c"
  by (simp add: bufs_ok_def)

lemma chain_upd_notin:
  assumes "i \<notin> set c"
  shows "chain (nexts (m(i := b))) p c = chain (nexts m) p c"
    and "chain_bytes (m(i := b)) c = chain_bytes m c"
    and "bufs_ok (m(i := b)) c = bufs_ok m c" and "bytes_in (m(i := b)) c = bytes_in m c"
proof -
  show "chain (nexts (m(i := b))) p c = chain (nexts m) p c" using assms by simp
  show "chain_bytes (m(i := b)) c = chain_bytes m c" using assms by (intro chain_bytes_cong) auto
  show "bufs_ok (m(i := b)) c = bufs_ok m c" using assms by (intro bufs_ok_cong) auto
  show "bytes_in (m(i := b)) c = bytes_in m c" using assms by (intro bytes_in_cong) auto
qed

text \<open>The first buffer of a chain, its successor and the rest.\<close>

lemma chain_Cons:
  assumes "chain (nexts m) p (i # c)"
  shows "p = Some i" and "chain (nexts m) (cb_next (m i)) c" and "cb_next (m i) = hd_ptr c"
    and "i \<notin> set c"
  using assms chain_distinct [OF assms] chain_hd_ptr [of "nexts m" "cb_next (m i)" c]
  by (auto simp: nexts_def)

lemma get_bytes_window:
  assumes "bo + n \<le> cb_len b"
  shows "get_bytes (cb_data b + bo) n b = take n (drop bo (window b))"
  using assms by (simp add: get_bytes_def window_def drop_take add.commute min_def)

lemma take_splice:
  assumes "a + length bs \<le> n" and "n \<le> length d"
  shows "take n (take a d @ bs @ drop (a + length bs) d) = take a (take n d) @ bs @ drop (a + length bs) (take n d)"
proof -
  have "min a n = a" "length (take a d) = a" using assms by auto
  then show ?thesis using assms(1) by (simp add: drop_take)
qed

lemma window_put_bytes:
  assumes "buf_ok b" and "bo + length bs \<le> cb_len b"
  shows "window (put_bytes (cb_data b + bo) bs b) = take bo (window b) @ bs @ drop (bo + length bs) (window b)"
    and "buf_ok (put_bytes (cb_data b + bo) bs b)"
proof -
  let ?d = "cb_dat b" and ?k = "cb_data b"
  have len: "length ?d = CBUF_DAT" "?k + cb_len b \<le> length ?d" "?k \<le> length ?d" using assms(1) by (auto simp: buf_ok_def)
  have "drop ?k (take (?k + bo) ?d) = take bo (drop ?k ?d)" by (simp add: drop_take)
  moreover have "drop (?k + bo + length bs) ?d = drop (bo + length bs) (drop ?k ?d)" by (simp add: add_ac)
  moreover have "?k - length (take (?k + bo) ?d) = 0" using len by (simp add: min_def)
  ultimately have "drop ?k (take (?k + bo) ?d @ bs @ drop (?k + bo + length bs) ?d) =
      take bo (drop ?k ?d) @ bs @ drop (bo + length bs) (drop ?k ?d)"
    using len assms(2) by simp
  then show "window (put_bytes (?k + bo) bs b) = take bo (window b) @ bs @ drop (bo + length bs) (window b)"
    using take_splice [OF assms(2), of "drop ?k ?d"] len by (simp add: window_def put_bytes_def)
  show "buf_ok (put_bytes (?k + bo) bs b)"
    using len assms(2) by (simp add: buf_ok_def put_bytes_def)
qed

lemma put_bytes_header [simp]:
  "cb_next (put_bytes k bs b) = cb_next b" "cb_len (put_bytes k bs b) = cb_len b"
  "cb_data (put_bytes k bs b) = cb_data b" "cb_total_len (put_bytes k bs b) = cb_total_len b"
  "cb_flags (put_bytes k bs b) = cb_flags b"
  by (simp_all add: put_bytes_def)

section \<open>Finding a position\<close>

text \<open>A position in a chain: the buffers from there on, and an offset into the first of them.\<close>

definition at_pos :: "cmem \<Rightarrow> nat list \<Rightarrow> nat \<Rightarrow> bool" where
  "at_pos m c bo \<longleftrightarrow> bo = 0 \<or> c \<noteq> [] \<and> bo < cb_len (m (hd c))"

lemma cb_seek_spec:
  assumes "chain (nexts m) p c"
  shows "off \<le> bytes_in m c \<Longrightarrow>
           \<exists>c1 c2 bo. c = c1 @ c2 \<and> cb_seek m p off = Some (Some (hd_ptr c2, bo)) \<and>
             off = bytes_in m c1 + bo \<and> chain (nexts m) (hd_ptr c2) c2 \<and> at_pos m c2 bo"
    and "bytes_in m c < off \<Longrightarrow> cb_seek m p off = Some None"
  using assms
proof (induction c arbitrary: p off)
  case Nil
  { case 1
    then show ?case by (subst cb_seek.simps) (auto simp: at_pos_def)
  next
    case 2
    then show ?case by (subst cb_seek.simps) simp }
next
  case (Cons i c)
  { case 1
    note ch = chain_Cons [OF 1(2)]
    show ?case
    proof (cases "off < cb_len (m i) \<or> off = 0")
      case True
      then have "cb_seek m p off = Some (Some (Some i, off))" using ch(1) by (subst cb_seek.simps) auto
      with True 1(2) ch(1) show ?thesis
        by (intro exI [of _ "[]"] exI [of _ "i # c"] exI [of _ off]) (auto simp: at_pos_def)
    next
      case False
      then have step: "cb_seek m p off = cb_seek m (cb_next (m i)) (off - cb_len (m i))"
        using ch(1) by (subst cb_seek.simps) simp
      have "off - cb_len (m i) \<le> bytes_in m c" using 1(1) by simp
      from Cons.IH(1) [OF this ch(2)] obtain c1 c2 bo where "c = c1 @ c2"
        "cb_seek m (cb_next (m i)) (off - cb_len (m i)) = Some (Some (hd_ptr c2, bo))"
        "off - cb_len (m i) = bytes_in m c1 + bo" "chain (nexts m) (hd_ptr c2) c2" "at_pos m c2 bo" by blast
      with step False show ?thesis by (intro exI [of _ "i # c1"] exI [of _ c2] exI [of _ bo]) auto
    qed
  next
    case 2
    note ch = chain_Cons [OF 2(2)]
    have "cb_seek m p off = cb_seek m (cb_next (m i)) (off - cb_len (m i))"
      using ch(1) 2(1) by (subst cb_seek.simps) simp
    with Cons.IH(2) [OF _ ch(2), of "off - cb_len (m i)"] 2(1) show ?case by simp }
qed

section \<open>The copies on bytes\<close>

definition splice_at :: "nat \<Rightarrow> byte list \<Rightarrow> byte list \<Rightarrow> byte list" where
  "splice_at a bs d = take a d @ bs @ drop (a + length bs) d"

text \<open>Only stored bytes of the buffers in \<open>c\<close> differ.\<close>

definition dat_only :: "nat list \<Rightarrow> cmem \<Rightarrow> cmem \<Rightarrow> bool" where
  "dat_only c m m' \<longleftrightarrow>
     (\<forall>i. i \<notin> set c \<longrightarrow> m' i = m i) \<and> (\<forall>i. m' i = (m i)\<lparr>cb_dat := cb_dat (m' i)\<rparr>) \<and>
     (\<forall>i. buf_ok (m i) \<longrightarrow> buf_ok (m' i))"

lemma dat_only_refl [simp]: "dat_only c m m"
  by (simp add: dat_only_def)

lemma dat_only_put:
  assumes "i \<in> set c" and "\<And>b. b = m i \<Longrightarrow> buf_ok b \<Longrightarrow> buf_ok (put_bytes k bs b)"
  shows "dat_only c m (m(i := put_bytes k bs (m i)))"
  using assms by (auto simp: dat_only_def put_bytes_def)

lemma dat_only_trans: "dat_only c m m1 \<Longrightarrow> dat_only c m1 m2 \<Longrightarrow> dat_only c m m2"
  unfolding dat_only_def by (metis cbuf.surjective cbuf.update_convs(6))

lemma dat_only_mono: "dat_only c m m' \<Longrightarrow> set c \<subseteq> set d \<Longrightarrow> dat_only d m m'"
  by (auto simp: dat_only_def)

lemma dat_only_fields:
  assumes "dat_only c m m'"
  shows "cb_next (m' i) = cb_next (m i)" and "cb_len (m' i) = cb_len (m i)"
    and "cb_data (m' i) = cb_data (m i)" and "cb_flags (m' i) = cb_flags (m i)"
    and "cb_total_len (m' i) = cb_total_len (m i)" and "nexts m' = nexts m"
    and "bytes_in m' d = bytes_in m d" and "whole_chain m' d = whole_chain m d"
    and "is_head (m' i) = is_head (m i)" and "buf_ok (m i) \<Longrightarrow> buf_ok (m' i)"
    and "bufs_ok m d \<Longrightarrow> bufs_ok m' d"
proof -
  have eq: "\<And>i. m' i = (m i)\<lparr>cb_dat := cb_dat (m' i)\<rparr>" using assms by (simp add: dat_only_def)
  show f: "\<And>i. cb_next (m' i) = cb_next (m i)" "\<And>i. cb_len (m' i) = cb_len (m i)"
    "\<And>i. cb_data (m' i) = cb_data (m i)" "\<And>i. cb_flags (m' i) = cb_flags (m i)"
    "\<And>i. cb_total_len (m' i) = cb_total_len (m i)" by (subst eq, simp)+
  show "nexts m' = nexts m" by (simp add: nexts_def f)
  show b: "bytes_in m' d = bytes_in m d" by (simp add: bytes_in_def f)
  show h: "\<And>i. is_head (m' i) = is_head (m i)" by (simp add: is_head_def f)
  show "whole_chain m' d = whole_chain m d" by (simp add: whole_chain_def f b h)
  show ok: "\<And>i. buf_ok (m i) \<Longrightarrow> buf_ok (m' i)" using assms by (simp add: dat_only_def)
  then show "bufs_ok m d \<Longrightarrow> bufs_ok m' d" by (simp add: bufs_ok_def)
qed

lemma take_drop_app: "take n xs @ drop n xs @ ys = xs @ ys"
  by (metis append.assoc append_take_drop_id)

lemma splice_at_Nil [simp]: "splice_at a [] d = d"
  by (simp add: splice_at_def)

lemma at_pos_le: "at_pos m (i # c) bo \<Longrightarrow> bo \<le> cb_len (m i)"
  by (auto simp: at_pos_def)

lemma at_pos_0 [simp]: "at_pos m c 0"
  by (simp add: at_pos_def)

lemma copy_to_spec:
  assumes "chain (nexts m) p c" and "bufs_ok m c" and "at_pos m c bo"
    and "bo + length src \<le> bytes_in m c"
  shows "\<exists>m'. copy_to m p bo src = Some (Returns (B_NO_ERROR, m')) \<and>
              chain_bytes m' c = splice_at bo src (chain_bytes m c) \<and> dat_only c m m'"
  using assms
proof (induction c arbitrary: p bo src m)
  case Nil
  then show ?case by (subst copy_to.simps) (simp add: splice_at_def)
next
  case (Cons i c)
  note ch = chain_Cons [OF Cons.prems(1)]
  show ?case
  proof (cases "src = []")
    case True
    then show ?thesis by (subst copy_to.simps) (simp del: chain_bytes_simps)
  next
    case False
    let ?b = "m i" and ?w = "window (m i)"
    define n where "n = min (length src) (cb_len ?b - bo)"
    define m1 where "m1 = m(i := put_bytes (cb_data ?b + bo) (take n src) ?b)"
    have bo: "bo \<le> cb_len ?b" using Cons.prems(3) by (rule at_pos_le)
    have ok: "buf_ok ?b" "bufs_ok m c" using Cons.prems(2) by auto
    have n: "bo + length (take n src) \<le> cb_len ?b" using bo by (simp add: n_def)
    have "cb_data ?b + bo + n \<le> CBUF_DAT" using ok(1) bo by (auto simp: buf_ok_def n_def)
    then have step: "copy_to m p bo src = copy_to m1 (cb_next ?b) 0 (drop n src)"
      using False ch(1) bo by (subst copy_to.simps) (simp add: Let_def n_def m1_def)
    note upd = chain_upd_notin [OF ch(4), of m "put_bytes (cb_data ?b + bo) (take n src) ?b", folded m1_def]
    have "chain (nexts m1) (cb_next ?b) c" using ch(2) upd(1) by simp
    moreover have "length (drop n src) \<le> bytes_in m1 c" using Cons.prems(4) upd(4) bo by (auto simp: n_def)
    ultimately obtain m' where r: "copy_to m1 (cb_next ?b) 0 (drop n src) = Some (Returns (B_NO_ERROR, m'))"
      and b: "chain_bytes m' c = splice_at 0 (drop n src) (chain_bytes m c)" and d: "dat_only c m1 m'"
      using Cons.IH [of m1 "cb_next ?b" 0 "drop n src"] ok(2) upd(2,3) by auto
    have "m' i = m1 i" using d ch(4) by (simp add: dat_only_def)
    then have w: "window (m' i) = splice_at bo (take n src) ?w"
      using window_put_bytes(1) [OF ok(1) n] by (simp add: m1_def splice_at_def)
    have "splice_at bo (take n src) ?w @ splice_at 0 (drop n src) (chain_bytes m c) =
        splice_at bo src (?w @ chain_bytes m c)"
      using bo ok by (cases "length src \<le> cb_len ?b - bo") (auto simp: splice_at_def n_def take_drop_app add.commute)
    moreover have "dat_only (i # c) m m1"
      unfolding m1_def by (rule dat_only_put) (use window_put_bytes(2) [OF ok(1) n] in auto)
    with dat_only_mono [OF d, of "i # c"] have "dat_only (i # c) m m'" by (auto intro: dat_only_trans)
    ultimately show ?thesis using step r w b by simp
  qed
qed

lemma copy_from_spec:
  assumes "chain (nexts m) p c" and "bufs_ok m c" and "at_pos m c bo" and "bo + len \<le> bytes_in m c"
  shows "copy_from m p bo len dest = Some (Returns (B_NO_ERROR, dest @ take len (drop bo (chain_bytes m c))))"
  using assms
proof (induction c arbitrary: p bo len dest)
  case Nil
  then show ?case by (subst copy_from.simps) simp
next
  case (Cons i c)
  note ch = chain_Cons [OF Cons.prems(1)]
  show ?case
  proof (cases "len = 0")
    case True
    then show ?thesis by (subst copy_from.simps) simp
  next
    case False
    let ?b = "m i" and ?w = "window (m i)"
    define n where "n = min len (cb_len ?b - bo)"
    have bo: "bo \<le> cb_len ?b" using Cons.prems(3) by (rule at_pos_le)
    have ok: "buf_ok ?b" "bufs_ok m c" using Cons.prems(2) by auto
    have "cb_data ?b + bo + n \<le> CBUF_DAT" using ok(1) bo by (auto simp: buf_ok_def n_def)
    moreover have "get_bytes (cb_data ?b + bo) n ?b = take n (drop bo ?w)"
      using bo by (intro get_bytes_window) (simp add: n_def)
    ultimately have "copy_from m p bo len dest = copy_from m (cb_next ?b) 0 (len - n) (dest @ take n (drop bo ?w))"
      using False ch(1) bo by (subst copy_from.simps) (simp add: Let_def n_def)
    also have "\<dots> = Some (Returns (B_NO_ERROR, (dest @ take n (drop bo ?w)) @ take (len - n) (drop 0 (chain_bytes m c))))"
      using Cons.prems(4) bo ok by (intro Cons.IH ch(2)) (auto simp: n_def)
    finally have "copy_from m p bo len dest =
        Some (Returns (B_NO_ERROR, dest @ take n (drop bo ?w) @ take (len - n) (chain_bytes m c)))" by simp
    moreover have "take n (drop bo ?w) @ take (len - n) (chain_bytes m c) = take len (drop bo (?w @ chain_bytes m c))"
      using bo ok by (auto simp: n_def min_def)
    ultimately show ?thesis by simp
  qed
qed

text \<open>Copies from and to user memory, with and without a fault.\<close>

lemma user_copy_to_mapped:
  assumes "chain (nexts m) p c" and "bufs_ok m c" and "at_pos m c bo" and "bo + len \<le> bytes_in m c"
    and "mapped um src len" and "0 < len \<or> err = B_NO_ERROR"
  shows "user_copy_to um m p bo src len err = copy_to m p bo (ubytes um src len)"
  using assms
proof (induction c arbitrary: p bo src len err m)
  case Nil
  then show ?case by (subst user_copy_to.simps, subst copy_to.simps) simp
next
  case (Cons i c)
  note ch = chain_Cons [OF Cons.prems(1)]
  show ?case
  proof (cases "len = 0")
    case True
    with Cons.prems(6) show ?thesis by (subst user_copy_to.simps, subst copy_to.simps) simp
  next
    case False
    let ?b = "m i"
    define n where "n = min len (cb_len ?b - bo)"
    have bo: "bo \<le> cb_len ?b" using Cons.prems(3) by (rule at_pos_le)
    have ok: "buf_ok ?b" "bufs_ok m c" using Cons.prems(2) by auto
    have len: "len = n + (len - n)" by (simp add: n_def)
    then have mp: "mapped um src n" "mapped um (src + n) (len - n)"
      using Cons.prems(5) mapped_add [of um src n "len - n"] by auto
    have ub: "ubytes um src len = ubytes um src n @ ubytes um (src + n) (len - n)"
      using ubytes_add [of um src n "len - n"] len by simp
    define m1 where "m1 = m(i := put_bytes (cb_data ?b + bo) (ubytes um src n) ?b)"
    have "cb_data ?b + bo + n \<le> CBUF_DAT" using ok(1) bo by (auto simp: buf_ok_def n_def)
    note fits = this
    have "user_copy_to um m p bo src len err = user_copy_to um m1 (cb_next ?b) 0 (src + n) (len - n) 0"
      using False ch(1) bo fits user_memcpy_in_ok [OF mp(1)]
      by (subst user_copy_to.simps) (simp add: Let_def n_def [symmetric] m1_def)
    also have "\<dots> = copy_to m1 (cb_next ?b) 0 (ubytes um (src + n) (len - n))"
    proof (rule Cons.IH)
      note upd = chain_upd_notin [OF ch(4), of m "put_bytes (cb_data ?b + bo) (ubytes um src n) ?b", folded m1_def]
      show "chain (nexts m1) (cb_next ?b) c" using ch(2) upd(1) by simp
      show "bufs_ok m1 c" using ok(2) upd(3) by simp
      show "0 + (len - n) \<le> bytes_in m1 c" using Cons.prems(4) upd(4) bo by (auto simp: n_def)
    qed (use mp(2) in \<open>simp_all add: B_NO_ERROR_def\<close>)
    also have "\<dots> = copy_to m p bo (ubytes um src len)"
    proof -
      have "ubytes um src len \<noteq> []" using False by (metis length_0_conv length_ubytes)
      moreover have "take n (ubytes um src len) = ubytes um src n"
        "drop n (ubytes um src len) = ubytes um (src + n) (len - n)" by (simp_all add: ub)
      ultimately show ?thesis
        using ch(1) bo fits
        by (subst copy_to.simps [of m p]) (simp add: Let_def n_def [symmetric] m1_def)
    qed
    finally show ?thesis .
  qed
qed

lemma user_copy_to_fault:
  assumes "chain (nexts m) p c" and "bufs_ok m c" and "at_pos m c bo" and "bo + len \<le> bytes_in m c"
    and "\<not> mapped um src len"
  shows "\<exists>m'. user_copy_to um m p bo src len err = Some (Returns (1, m')) \<and> dat_only c m m'"
  using assms
proof (induction c arbitrary: p bo src len err m)
  case Nil
  then show ?case by simp
next
  case (Cons i c)
  note ch = chain_Cons [OF Cons.prems(1)]
  let ?b = "m i"
  define n where "n = min len (cb_len ?b - bo)"
  have bo: "bo \<le> cb_len ?b" using Cons.prems(3) by (rule at_pos_le)
  have ok: "buf_ok ?b" "bufs_ok m c" using Cons.prems(2) by auto
  have pos: "0 < len" using Cons.prems(5) by (cases len) auto
  obtain bs rc where in_: "user_memcpy_in um src n = (bs, rc)" by force
  then have bs: "length bs \<le> n" and rc: "rc = (if mapped um src n then 0 else ERR_VM_BAD_USER_MEMORY)"
    using user_memcpy_in_length [of um src n] user_memcpy_in_result [of um src n] by auto
  define m1 where "m1 = m(i := put_bytes (cb_data ?b + bo) bs ?b)"
  have "bo + length bs \<le> cb_len ?b" using bo bs by (auto simp: n_def)
  then have d1: "dat_only (i # c) m m1"
    unfolding m1_def using window_put_bytes(2) [OF ok(1)] by (intro dat_only_put) auto
  have fits: "cb_data ?b + bo + n \<le> CBUF_DAT" using ok(1) bo by (auto simp: buf_ok_def n_def)
  have step: "user_copy_to um m p bo src len err =
      (if rc < 0 then Some (Returns (1, m1)) else user_copy_to um m1 (cb_next ?b) 0 (src + n) (len - n) 0)"
    using pos ch(1) bo fits in_
    by (subst user_copy_to.simps) (simp add: Let_def n_def [symmetric] m1_def)
  show ?case
  proof (cases "mapped um src n")
    case False
    with step rc d1 show ?thesis by (auto simp: ERR_VM_BAD_USER_MEMORY_def)
  next
    case True
    note upd = chain_upd_notin [OF ch(4), of m "put_bytes (cb_data ?b + bo) bs ?b", folded m1_def]
    have "len = n + (len - n)" by (simp add: n_def)
    then have "\<not> mapped um (src + n) (len - n)"
      using Cons.prems(5) mapped_add [of um src n "len - n"] True by auto
    moreover have "0 + (len - n) \<le> bytes_in m1 c" using Cons.prems(4) upd(4) bo by (auto simp: n_def)
    ultimately obtain m' where "user_copy_to um m1 (cb_next ?b) 0 (src + n) (len - n) 0 = Some (Returns (1, m'))"
      and d: "dat_only c m1 m'"
      using Cons.IH [of m1 "cb_next ?b" 0 "len - n" "src + n" 0] ch(2) upd(1,3) ok(2) by auto
    with step rc True dat_only_mono [OF d, of "i # c"] d1 show ?thesis by (auto intro: dat_only_trans)
  qed
qed

lemma user_copy_from_spec:
  assumes "chain (nexts m) p c" and "bufs_ok m c" and "at_pos m c bo" and "bo + len \<le> bytes_in m c"
    and "0 < len \<or> err = B_NO_ERROR"
  shows "user_copy_from m p bo dest len err um =
     Some (Returns (case user_memcpy_out um dest (take len (drop bo (chain_bytes m c))) of
       (rc, um') \<Rightarrow> (if rc < 0 then 1 else 0, um')))"
  using assms
proof (induction c arbitrary: p bo dest len err um)
  case Nil
  then show ?case by (subst user_copy_from.simps) (simp add: B_NO_ERROR_def)
next
  case (Cons i c)
  note ch = chain_Cons [OF Cons.prems(1)]
  show ?case
  proof (cases "len = 0")
    case True
    with Cons.prems(5) show ?thesis by (subst user_copy_from.simps) (simp add: B_NO_ERROR_def)
  next
    case False
    let ?b = "m i" and ?w = "window (m i)"
    define n where "n = min len (cb_len ?b - bo)"
    let ?bs = "take n (drop bo ?w)"
    have bo: "bo \<le> cb_len ?b" using Cons.prems(3) by (rule at_pos_le)
    have ok: "buf_ok ?b" "bufs_ok m c" using Cons.prems(2) by auto
    have fits: "cb_data ?b + bo + n \<le> CBUF_DAT" using ok(1) bo by (auto simp: buf_ok_def n_def)
    have g: "get_bytes (cb_data ?b + bo) n ?b = ?bs" using bo by (intro get_bytes_window) (simp add: n_def)
    have lb: "length ?bs = n" using ok(1) bo by (simp add: n_def)
    obtain rc um1 where out: "user_memcpy_out um dest ?bs = (rc, um1)" by force
    then have rc: "rc = 0 \<or> rc = ERR_VM_BAD_USER_MEMORY" using user_memcpy_out_result [of um dest ?bs] by simp
    have step: "user_copy_from m p bo dest len err um =
        (if rc < 0 then Some (Returns (1, um1))
         else user_copy_from m (cb_next ?b) 0 (dest + n) (len - n) 0 um1)"
      using False ch(1) bo fits g out
      by (subst user_copy_from.simps) (simp add: Let_def n_def [symmetric])
    have "0 + (len - n) \<le> bytes_in m c" using Cons.prems(4) bo by (auto simp: n_def)
    then have IH: "user_copy_from m (cb_next ?b) 0 (dest + n) (len - n) 0 um1 =
        Some (Returns (case user_memcpy_out um1 (dest + n) (take (len - n) (chain_bytes m c)) of
          (rc, um') \<Rightarrow> (if rc < 0 then 1 else 0, um')))"
      using Cons.IH [OF ch(2) ok(2), of 0 "len - n" 0] by (simp add: B_NO_ERROR_def)
    have "take len (drop bo (?w @ chain_bytes m c)) = ?bs @ take (len - n) (chain_bytes m c)"
      using bo ok by (auto simp: n_def min_def)
    then have "user_memcpy_out um dest (take len (drop bo (chain_bytes m (i # c)))) =
        (if rc = 0 then user_memcpy_out um1 (dest + n) (take (len - n) (chain_bytes m c)) else (rc, um1))"
      using out lb by (simp add: user_memcpy_out_append)
    with step IH rc show ?thesis by (auto simp: ERR_VM_BAD_USER_MEMORY_def)
  qed
qed

section \<open>The copies on whole chains\<close>

text \<open>A live chain of the region: linked, whole, and each buffer's window inside its storage.\<close>

definition live :: "cmem \<Rightarrow> nat list \<Rightarrow> bool" where
  "live m c \<longleftrightarrow> whole_chain m c \<and> chain (nexts m) (Some (hd c)) c \<and> bufs_ok m c"

lemma live_rep:
  assumes "cb_rep s F N cs k" and "c \<in> set cs" and "whole_chain (cb_mem s) c"
  shows "live (cb_mem s) c"
proof -
  have "chain (nexts (cb_mem s)) (hd_ptr c) c" using assms(1,2) unfolding cb_rep_def by auto
  moreover have "hd_ptr c = Some (hd c)" using assms(3) by (cases c) (auto simp: whole_chain_def)
  ultimately show ?thesis using assms by (auto simp: live_def bufs_ok_def cb_rep_def)
qed

lemma dat_only_rep:
  assumes "cb_rep s F N cs k" and "c \<in> set cs" and "dat_only c (cb_mem s) m"
  shows "cb_rep (s\<lparr>cb_mem := m\<rparr>) F N cs k"
proof (rule cb_rep_mem [OF assms(1)])
  show "cb_next (m i) = cb_next (cb_mem s i)" for i by (rule dat_only_fields(1) [OF assms(3)])
  show "buf_ok (m i)" for i
    using assms(1) dat_only_fields(10) [OF assms(3)] by (simp add: cb_rep_def)
  show "m i = cb_mem s i" if "i \<in> set F \<union> set N" for i
  proof -
    have "distinct (concat (F # N # cs))" using assms(1) by (simp add: cb_rep_def)
    with that assms(2) have "i \<notin> set c" by auto
    with assms(3) show ?thesis by (simp add: dat_only_def)
  qed
qed

lemma dat_only_live: "dat_only d m m' \<Longrightarrow> live m c \<Longrightarrow> live m' c"
  by (simp add: live_def dat_only_fields)

lemma splice_at_app: "splice_at (length xs + a) bs (xs @ d) = xs @ splice_at a bs d"
  by (simp add: splice_at_def add.assoc)

lemma live_seek:
  assumes "live m c" and "off \<le> bytes_in m c"
  obtains c1 c2 bo where "c = c1 @ c2" and "cb_seek m (Some (hd c)) off = Some (Some (hd_ptr c2, bo))"
    and "off = bytes_in m c1 + bo" and "chain (nexts m) (hd_ptr c2) c2" and "at_pos m c2 bo"
    and "bufs_ok m c1" and "bufs_ok m c2" and "is_head (m (hd c))"
    and "cb_total_len (m (hd c)) = bytes_in m c" and "set c1 \<inter> set c2 = {}"
proof -
  have ch: "chain (nexts m) (Some (hd c)) c" and ok: "bufs_ok m c"
    and w: "is_head (m (hd c))" "cb_total_len (m (hd c)) = bytes_in m c"
    using assms(1) by (auto simp: live_def whole_chain_def)
  from cb_seek_spec(1) [OF ch assms(2)] obtain c1 c2 bo where s: "c = c1 @ c2"
    "cb_seek m (Some (hd c)) off = Some (Some (hd_ptr c2, bo))"
    "off = bytes_in m c1 + bo" "chain (nexts m) (hd_ptr c2) c2" "at_pos m c2 bo" by blast
  have "distinct (c1 @ c2)" using chain_distinct [OF ch] s(1) by simp
  then have "set c1 \<inter> set c2 = {}" by simp
  moreover have "bufs_ok m c1" "bufs_ok m c2" using ok unfolding s(1) by simp_all
  ultimately show thesis using that s w by blast
qed

lemma dat_only_splice:
  assumes "chain_bytes m' c2 = splice_at bo src (chain_bytes m c2)" and "dat_only c2 m m'"
    and "set c1 \<inter> set c2 = {}" and "bufs_ok m c1"
  shows "chain_bytes m' (c1 @ c2) = splice_at (bytes_in m c1 + bo) src (chain_bytes m (c1 @ c2))"
proof -
  have "chain_bytes m' c1 = chain_bytes m c1"
    using assms(2,3) by (intro chain_bytes_cong) (auto simp: dat_only_def)
  with assms(1,4) splice_at_app [of "chain_bytes m c1" bo src "chain_bytes m c2"] show ?thesis by simp
qed

lemma memcpy_to_chain_live:
  assumes "live (cb_mem s) c" and "off + length src \<le> bytes_in (cb_mem s) c" and "bytes_in (cb_mem s) c < 2 ^ 32"
  shows "\<exists>m. cbuf_memcpy_to_chain (hd c) off src s = Returns (B_NO_ERROR, s\<lparr>cb_mem := m\<rparr>) \<and>
             chain_bytes m c = splice_at off src (chain_bytes (cb_mem s) c) \<and> dat_only c (cb_mem s) m"
proof -
  from assms(2) have "off \<le> bytes_in (cb_mem s) c" by simp
  with assms(1) obtain c1 c2 bo where c: "c = c1 @ c2"
    and sk: "cb_seek (cb_mem s) (Some (hd c)) off = Some (Some (hd_ptr c2, bo))"
    and off: "off = bytes_in (cb_mem s) c1 + bo" and ch: "chain (nexts (cb_mem s)) (hd_ptr c2) c2"
    and pos: "at_pos (cb_mem s) c2 bo" and ok: "bufs_ok (cb_mem s) c1" "bufs_ok (cb_mem s) c2"
    and h: "is_head (cb_mem s (hd c))" "cb_total_len (cb_mem s (hd c)) = bytes_in (cb_mem s) c"
    and disj: "set c1 \<inter> set c2 = {}" by (rule live_seek)
  have "bo + length src \<le> bytes_in (cb_mem s) c2" using assms(2) c off by simp
  from copy_to_spec [OF ch ok(2) pos this] obtain m where
    r: "copy_to (cb_mem s) (hd_ptr c2) bo src = Some (Returns (B_NO_ERROR, m))"
    and b: "chain_bytes m c2 = splice_at bo src (chain_bytes (cb_mem s) c2)"
    and d: "dat_only c2 (cb_mem s) m" by blast
  have "cbuf_memcpy_to_chain (hd c) off src s = Returns (B_NO_ERROR, s\<lparr>cb_mem := m\<rparr>)"
    using h assms(2,3) sk r
    by (simp add: cbuf_memcpy_to_chain_def looped_def looped_outcome_def add.commute)
  with dat_only_splice [OF b d disj ok(1)] dat_only_mono [OF d, of c] c off show ?thesis by auto
qed

lemma memcpy_from_chain_live:
  assumes "live (cb_mem s) c" and "off + len \<le> bytes_in (cb_mem s) c" and "bytes_in (cb_mem s) c < 2 ^ 32"
  shows "cbuf_memcpy_from_chain (hd c) off len s =
           Returns (B_NO_ERROR, take len (drop off (chain_bytes (cb_mem s) c)))"
    and "0 < len \<Longrightarrow> cbuf_user_memcpy_from_chain dest (hd c) off len s um = Returns
           (case user_memcpy_out um dest (take len (drop off (chain_bytes (cb_mem s) c))) of
              (rc, um') \<Rightarrow> (if rc < 0 then 1 else 0, um'))"
proof -
  from assms(2) have "off \<le> bytes_in (cb_mem s) c" by simp
  with assms(1) obtain c1 c2 bo where c: "c = c1 @ c2"
    and sk: "cb_seek (cb_mem s) (Some (hd c)) off = Some (Some (hd_ptr c2, bo))"
    and off: "off = bytes_in (cb_mem s) c1 + bo" and ch: "chain (nexts (cb_mem s)) (hd_ptr c2) c2"
    and pos: "at_pos (cb_mem s) c2 bo" and ok: "bufs_ok (cb_mem s) c1" "bufs_ok (cb_mem s) c2"
    and h: "is_head (cb_mem s (hd c))" "cb_total_len (cb_mem s (hd c)) = bytes_in (cb_mem s) c"
    and disj: "set c1 \<inter> set c2 = {}" by (rule live_seek)
  have len: "bo + len \<le> bytes_in (cb_mem s) c2" using assms(2) c off by simp
  have dr: "drop bo (chain_bytes (cb_mem s) c2) = drop off (chain_bytes (cb_mem s) c)"
    using ok(1) by (simp add: c off)
  show "cbuf_memcpy_from_chain (hd c) off len s =
      Returns (B_NO_ERROR, take len (drop off (chain_bytes (cb_mem s) c)))"
    using h assms(2,3) sk copy_from_spec [OF ch ok(2) pos len, of "[]"] dr
    by (simp add: cbuf_memcpy_from_chain_def looped_def looped_outcome_def add.commute)
  assume "0 < len"
  then show "cbuf_user_memcpy_from_chain dest (hd c) off len s um = Returns
      (case user_memcpy_out um dest (take len (drop off (chain_bytes (cb_mem s) c))) of
         (rc, um') \<Rightarrow> (if rc < 0 then 1 else 0, um'))"
    using h assms(2,3) sk user_copy_from_spec [OF ch ok(2) pos len, of B_NO_ERROR dest um] dr
    by (simp add: cbuf_user_memcpy_from_chain_def looped_def looped_outcome_def add.commute)
qed

lemma user_memcpy_to_chain_live:
  assumes "live (cb_mem s) c" and "off + len \<le> bytes_in (cb_mem s) c" and "bytes_in (cb_mem s) c < 2 ^ 32"
  shows "\<exists>m. cbuf_user_memcpy_to_chain um (hd c) off src len s =
               Returns (if mapped um src len then 0 else 1, s\<lparr>cb_mem := m\<rparr>) \<and>
             (mapped um src len \<longrightarrow> chain_bytes m c = splice_at off (ubytes um src len) (chain_bytes (cb_mem s) c)) \<and>
             dat_only c (cb_mem s) m"
proof -
  from assms(2) have "off \<le> bytes_in (cb_mem s) c" by simp
  with assms(1) obtain c1 c2 bo where c: "c = c1 @ c2"
    and sk: "cb_seek (cb_mem s) (Some (hd c)) off = Some (Some (hd_ptr c2, bo))"
    and off: "off = bytes_in (cb_mem s) c1 + bo" and ch: "chain (nexts (cb_mem s)) (hd_ptr c2) c2"
    and pos: "at_pos (cb_mem s) c2 bo" and ok: "bufs_ok (cb_mem s) c1" "bufs_ok (cb_mem s) c2"
    and h: "is_head (cb_mem s (hd c))" "cb_total_len (cb_mem s (hd c)) = bytes_in (cb_mem s) c"
    and disj: "set c1 \<inter> set c2 = {}" by (rule live_seek)
  have len: "bo + len \<le> bytes_in (cb_mem s) c2" using assms(2) c off by simp
  have run: "cbuf_user_memcpy_to_chain um (hd c) off src len s = Returns (rc, s\<lparr>cb_mem := m\<rparr>)"
    if "user_copy_to um (cb_mem s) (hd_ptr c2) bo src len B_NO_ERROR = Some (Returns (rc, m))" for rc m
    using h assms(2,3) sk that
    by (simp add: cbuf_user_memcpy_to_chain_def looped_def looped_outcome_def add.commute)
  show ?thesis
  proof (cases "mapped um src len")
    case True
    have "bo + length (ubytes um src len) \<le> bytes_in (cb_mem s) c2" using len by simp
    from copy_to_spec [OF ch ok(2) pos this] obtain m where
      r: "copy_to (cb_mem s) (hd_ptr c2) bo (ubytes um src len) = Some (Returns (B_NO_ERROR, m))"
      and b: "chain_bytes m c2 = splice_at bo (ubytes um src len) (chain_bytes (cb_mem s) c2)"
      and d: "dat_only c2 (cb_mem s) m" by blast
    from r have "user_copy_to um (cb_mem s) (hd_ptr c2) bo src len B_NO_ERROR = Some (Returns (0, m))"
      by (simp add: user_copy_to_mapped [OF ch ok(2) pos len True] B_NO_ERROR_def)
    from run [OF this] dat_only_splice [OF b d disj ok(1)] dat_only_mono [OF d, of c] c off True
    show ?thesis by auto
  next
    case False
    from user_copy_to_fault [OF ch ok(2) pos len False, of B_NO_ERROR] obtain m where
      "user_copy_to um (cb_mem s) (hd_ptr c2) bo src len B_NO_ERROR = Some (Returns (1, m))"
      and d: "dat_only c2 (cb_mem s) m" by blast
    from run [OF this(1)] dat_only_mono [OF d, of c] c False show ?thesis by auto
  qed
qed

section \<open>Truncation and merging\<close>

lemma window_advance:
  assumes "buf_ok b" and "n \<le> cb_len b"
  shows "window (b\<lparr>cb_len := cb_len b - n, cb_data := cb_data b + n\<rparr>) = drop n (window b)"
    and "buf_ok (b\<lparr>cb_len := cb_len b - n, cb_data := cb_data b + n\<rparr>)"
  using assms by (auto simp: window_def buf_ok_def drop_take add.commute)

lemma window_total [simp]: "window (b\<lparr>cb_total_len := t\<rparr>) = window b" "buf_ok (b\<lparr>cb_total_len := t\<rparr>) = buf_ok b"
  "is_head (b\<lparr>cb_total_len := t\<rparr>) = is_head b"
  by (simp_all add: window_def buf_ok_def is_head_def)

text \<open>
  What the truncations change: windows of the buffers in \<open>c\<close>, and the total of the head \<open>h\<close>.
\<close>

definition cut_only :: "nat list \<Rightarrow> nat \<Rightarrow> cmem \<Rightarrow> cmem \<Rightarrow> bool" where
  "cut_only c h m m' \<longleftrightarrow>
     (\<forall>i. cb_next (m' i) = cb_next (m i) \<and> cb_flags (m' i) = cb_flags (m i) \<and>
          (buf_ok (m i) \<longrightarrow> buf_ok (m' i)) \<and> (i \<noteq> h \<longrightarrow> cb_total_len (m' i) = cb_total_len (m i)) \<and>
          (i \<notin> set c \<longrightarrow> m' i = (m i)\<lparr>cb_total_len := cb_total_len (m' i)\<rparr>))"

lemma cut_only_refl [simp]: "cut_only c h m m"
  by (simp add: cut_only_def)

lemma cut_only_trans:
  assumes "cut_only c h m m1" and "cut_only d h m1 m2" and "set c \<subseteq> set e" and "set d \<subseteq> set e"
  shows "cut_only e h m m2"
proof -
  have "m2 i = (m i)\<lparr>cb_total_len := cb_total_len (m2 i)\<rparr>" if "i \<notin> set e" for i
  proof -
    have "i \<notin> set c" "i \<notin> set d" using that assms(3,4) by auto
    then have "m1 i = (m i)\<lparr>cb_total_len := cb_total_len (m1 i)\<rparr>" "m2 i = (m1 i)\<lparr>cb_total_len := cb_total_len (m2 i)\<rparr>"
      using assms(1,2) unfolding cut_only_def by blast+
    then show ?thesis by (metis cbuf.surjective cbuf.update_convs(3))
  qed
  with assms(1,2) show ?thesis by (simp add: cut_only_def)
qed

lemma cut_only_simps:
  assumes "cut_only c h m m'"
  shows "nexts m' = nexts m" and "is_head (m' i) = is_head (m i)" and "bufs_ok m d \<Longrightarrow> bufs_ok m' d"
    and "cb_next (m' i) = cb_next (m i)"
    and "set c \<inter> set d = {} \<Longrightarrow> chain_bytes m' d = chain_bytes m d"
    and "set c \<inter> set d = {} \<Longrightarrow> bytes_in m' d = bytes_in m d"
proof -
  show nx: "nexts m' = nexts m" using assms by (simp add: cut_only_def nexts_def)
  show "is_head (m' i) = is_head (m i)" using assms by (simp add: cut_only_def is_head_def)
  show "bufs_ok m d \<Longrightarrow> bufs_ok m' d" using assms by (simp add: cut_only_def bufs_ok_def)
  show "cb_next (m' i) = cb_next (m i)" using assms by (simp add: cut_only_def)
  have out: "\<exists>t. m' i = (m i)\<lparr>cb_total_len := t\<rparr>" if "i \<notin> set c" for i
    using assms that unfolding cut_only_def by blast
  show "chain_bytes m' d = chain_bytes m d" if d: "set c \<inter> set d = {}"
  proof -
    have "window (m' i) = window (m i)" if "i \<in> set d" for i using out [of i] d that by fastforce
    then show ?thesis by (simp add: chain_bytes_def cong: map_cong)
  qed
  show "bytes_in m' d = bytes_in m d" if d: "set c \<inter> set d = {}"
  proof (rule bytes_in_cong)
    fix i assume "i \<in> set d"
    with out [of i] d show "cb_len (m' i) = cb_len (m i)" by fastforce
  qed
qed

lemma trunc_head_loop_spec:
  assumes "chain (nexts m) p c" and "bufs_ok m c" and "bytes_in m c \<le> cb_total_len (m h)"
  shows "\<exists>m'. trunc_head_loop h m p n = Some m' \<and> cut_only c h m m' \<and>
              chain_bytes m' c = drop n (chain_bytes m c) \<and>
              cb_total_len (m' h) = cb_total_len (m h) - min n (bytes_in m c)"
  using assms
proof (induction c arbitrary: p n m)
  case Nil
  then show ?case by (subst trunc_head_loop.simps) simp
next
  case (Cons i c)
  note ch = chain_Cons [OF Cons.prems(1)]
  show ?case
  proof (cases "n = 0")
    case True
    with ch(1) show ?thesis by (subst trunc_head_loop.simps) simp
  next
    case False
    let ?b = "m i"
    define k where "k = min n (cb_len ?b)"
    define m1 where "m1 = m(i := ?b\<lparr>cb_len := cb_len ?b - k, cb_data := cb_data ?b + k\<rparr>)"
    define m2 where "m2 = m1(h := (m1 h)\<lparr>cb_total_len := u32_sub (cb_total_len (m1 h)) k\<rparr>)"
    have ok: "buf_ok ?b" "bufs_ok m c" using Cons.prems(2) by auto
    have k: "k \<le> cb_len ?b" by (simp add: k_def)
    have th: "cb_total_len (m1 h) = cb_total_len (m h)" by (simp add: m1_def)
    then have t2: "cb_total_len (m2 h) = cb_total_len (m h) - k"
      using k Cons.prems(3) by (simp add: m2_def)
    have cut: "cut_only [i] h m m2"
      using window_advance(2) [OF ok(1) k] by (auto simp: cut_only_def m2_def m1_def)
    have w: "window (m2 i) = drop k (window ?b)"
      using window_advance(1) [OF ok(1) k] by (cases "i = h") (simp_all add: m2_def m1_def)
    have nx: "cb_next (m2 i) = cb_next ?b" by (rule cut_only_simps(4) [OF cut])
    have dis: "set [i] \<inter> set c = {}" using ch(4) by simp
    note c2 = cut_only_simps(5,6) [OF cut dis]
    have step: "trunc_head_loop h m p n = trunc_head_loop h m2 (cb_next (m2 i)) (n - k)"
      using False ch(1) by (subst trunc_head_loop.simps) (simp add: Let_def k_def m1_def m2_def)
    have "chain (nexts m2) (cb_next (m2 i)) c" using ch(2) nx cut_only_simps(1) [OF cut] by simp
    moreover have "bufs_ok m2 c" by (rule cut_only_simps(3) [OF cut ok(2)])
    moreover have "bytes_in m2 c \<le> cb_total_len (m2 h)" using Cons.prems(3) c2 t2 k by simp
    ultimately obtain m' where r: "trunc_head_loop h m2 (cb_next (m2 i)) (n - k) = Some m'"
      and cut': "cut_only c h m2 m'" and b: "chain_bytes m' c = drop (n - k) (chain_bytes m c)"
      and t: "cb_total_len (m' h) = cb_total_len (m2 h) - min (n - k) (bytes_in m c)"
      using Cons.IH [of m2 "cb_next (m2 i)" "n - k"] c2 by auto
    have "\<exists>t. m' i = (m2 i)\<lparr>cb_total_len := t\<rparr>" using cut' ch(4) unfolding cut_only_def by blast
    then have "window (m' i) = drop k (window ?b)" using w by auto
    with b ok have "chain_bytes m' (i # c) = drop n (chain_bytes m (i # c))"
      by (cases "n \<le> cb_len ?b") (auto simp: k_def)
    moreover have "cut_only (i # c) h m m'" by (rule cut_only_trans [OF cut cut']) auto
    moreover have "k + min (n - k) (bytes_in m c) = min n (cb_len ?b + bytes_in m c)"
      unfolding k_def by arith
    then have "cb_total_len (m' h) = cb_total_len (m h) - min n (bytes_in m (i # c))"
      using t t2 by simp
    ultimately show ?thesis using step r by simp
  qed
qed

lemma trunc_seek_spec:
  assumes "chain (nexts m) p c"
  shows "off < bytes_in m c \<Longrightarrow>
           \<exists>c1 i c2 bo. c = c1 @ i # c2 \<and> trunc_seek m p off = Some (Some i, bo) \<and>
             off = bytes_in m c1 + bo \<and> bo \<le> cb_len (m i) \<and> cb_next (m i) = hd_ptr c2"
    and "bytes_in m c < off \<or> bytes_in m c = off \<and> 0 < off \<and> (\<forall>i \<in> set c. 0 < cb_len (m i)) \<Longrightarrow>
           trunc_seek m p off = Some (None, 0)"
  using assms
proof (induction c arbitrary: p off)
  case Nil
  { case 1
    then show ?case by simp
  next
    case 2
    then show ?case by (subst trunc_seek.simps) simp }
next
  case (Cons i c)
  { case 1
    note ch = chain_Cons [OF 1(2)]
    show ?case
    proof (cases "off < cb_len (m i) \<or> off = 0")
      case True
      then have "trunc_seek m p off = Some (Some i, off)" using ch(1) by (subst trunc_seek.simps) auto
      with True ch(3) show ?thesis by (intro exI [of _ "[]"] exI [of _ i] exI [of _ c] exI [of _ off]) auto
    next
      case False
      then have step: "trunc_seek m p off = trunc_seek m (cb_next (m i)) (off - cb_len (m i))"
        using ch(1) by (subst trunc_seek.simps) simp
      from 1(1) False have "off - cb_len (m i) < bytes_in m c" by simp arith
      from Cons.IH(1) [OF this ch(2)] obtain c1 j c2 bo where "c = c1 @ j # c2"
        "trunc_seek m (cb_next (m i)) (off - cb_len (m i)) = Some (Some j, bo)"
        "off - cb_len (m i) = bytes_in m c1 + bo" "bo \<le> cb_len (m j)" "cb_next (m j) = hd_ptr c2" by blast
      with step False show ?thesis
        by (intro exI [of _ "i # c1"] exI [of _ j] exI [of _ c2] exI [of _ bo]) auto
    qed
  next
    case 2
    note ch = chain_Cons [OF 2(2)]
    have step: "trunc_seek m p off = trunc_seek m (cb_next (m i)) (off - cb_len (m i))"
      using ch(1) 2(1) by (subst trunc_seek.simps) auto
    show ?case
    proof (cases "c = [] \<and> off = cb_len (m i)")
      case True
      with ch(3) have "trunc_seek m (cb_next (m i)) (off - cb_len (m i)) = Some (None, 0)"
        by (subst trunc_seek.simps) simp
      with step show ?thesis by simp
    next
      case False
      have "c \<noteq> [] \<Longrightarrow> \<forall>j \<in> set c. 0 < cb_len (m j) \<Longrightarrow> 0 < bytes_in m c" by (cases c) auto
      with 2(1) False have "bytes_in m c < off - cb_len (m i) \<or>
          bytes_in m c = off - cb_len (m i) \<and> 0 < off - cb_len (m i) \<and> (\<forall>j \<in> set c. 0 < cb_len (m j))"
        by auto
      from Cons.IH(2) [OF this ch(2)] step show ?thesis by simp
    qed }
qed

lemma clear_rest_spec:
  assumes "chain (nexts m) p c" and "h \<notin> set c" and "bytes_in m c \<le> cb_total_len (m h)"
  shows "\<exists>m'. clear_rest h m p = Some m' \<and> cut_only c h m m' \<and> chain_bytes m' c = [] \<and>
              cb_total_len (m' h) = cb_total_len (m h) - bytes_in m c"
  using assms
proof (induction c arbitrary: p m)
  case Nil
  then show ?case by (subst clear_rest.simps) simp
next
  case (Cons i c)
  note ch = chain_Cons [OF Cons.prems(1)]
  let ?b = "m i"
  define m1 where "m1 = m(h := (m h)\<lparr>cb_total_len := u32_sub (cb_total_len (m h)) (cb_len ?b)\<rparr>)"
  define m2 where "m2 = m1(i := (m1 i)\<lparr>cb_len := 0\<rparr>)"
  have hi: "h \<noteq> i" "h \<notin> set c" using Cons.prems(2) by auto
  have t2: "cb_total_len (m2 h) = cb_total_len (m h) - cb_len ?b"
    using Cons.prems(3) hi(1) by (simp add: m2_def m1_def)
  have cut: "cut_only [i] h m m2" by (auto simp: cut_only_def m2_def m1_def buf_ok_def)
  have w: "window (m2 i) = []" by (simp add: m2_def window_def)
  have nx: "cb_next (m2 i) = cb_next ?b" by (rule cut_only_simps(4) [OF cut])
  have dis: "set [i] \<inter> set c = {}" using ch(4) by simp
  note c2 = cut_only_simps(5,6) [OF cut dis]
  have step: "clear_rest h m p = clear_rest h m2 (cb_next (m2 i))"
    using ch(1) by (subst clear_rest.simps) (simp add: Let_def m1_def m2_def)
  have "chain (nexts m2) (cb_next (m2 i)) c" using ch(2) nx cut_only_simps(1) [OF cut] by simp
  moreover have "bytes_in m2 c \<le> cb_total_len (m2 h)" using Cons.prems(3) c2 t2 by simp
  ultimately obtain m' where r: "clear_rest h m2 (cb_next (m2 i)) = Some m'"
    and cut': "cut_only c h m2 m'" and b: "chain_bytes m' c = []"
    and t: "cb_total_len (m' h) = cb_total_len (m2 h) - bytes_in m c"
    using Cons.IH [of m2 "cb_next (m2 i)"] c2 hi(2) by auto
  have "\<exists>t. m' i = (m2 i)\<lparr>cb_total_len := t\<rparr>" using cut' ch(4) unfolding cut_only_def by blast
  then have "window (m' i) = []" using w by auto
  moreover have "cut_only (i # c) h m m'" by (rule cut_only_trans [OF cut cut']) auto
  ultimately show ?case using step r b t t2 by simp
qed

lemma cut_only_rep:
  assumes "cb_rep s F N cs k" and "c \<in> set cs" and "cut_only c h (cb_mem s) m" and "h \<in> set c"
  shows "cb_rep (s\<lparr>cb_mem := m\<rparr>) F N cs k" and "\<And>d i. d \<in> set cs \<Longrightarrow> d \<noteq> c \<Longrightarrow> i \<in> set d \<Longrightarrow> m i = cb_mem s i"
proof -
  have same: "m i = cb_mem s i" if "i \<notin> set c" for i
  proof -
    have eq: "m i = (cb_mem s i)\<lparr>cb_total_len := cb_total_len (m i)\<rparr>"
      and t: "cb_total_len (m i) = cb_total_len (cb_mem s i)"
      using spec [OF assms(3) [unfolded cut_only_def], of i] that assms(4) by auto
    from eq have "m i = (cb_mem s i)\<lparr>cb_total_len := cb_total_len (cb_mem s i)\<rparr>" unfolding t .
    then show ?thesis by (cases "cb_mem s i") simp
  qed
  have dist: "distinct (concat (F # N # cs))" using assms(1) by (simp add: cb_rep_def)
  show "cb_rep (s\<lparr>cb_mem := m\<rparr>) F N cs k"
  proof (rule cb_rep_mem [OF assms(1)])
    show "cb_next (m i) = cb_next (cb_mem s i)" for i using assms(3) by (simp add: cut_only_def)
    show "buf_ok (m i)" for i using assms(1,3) by (simp add: cut_only_def cb_rep_def)
    show "m i = cb_mem s i" if "i \<in> set F \<union> set N" for i
      by (rule same) (use that dist assms(2) in auto)
  qed
  show "m i = cb_mem s i" if "d \<in> set cs" "d \<noteq> c" "i \<in> set d" for d i
  proof (rule same)
    from dist have "distinct (concat cs)" by simp
    with that assms(2) show "i \<notin> set c" by (auto simp: distinct_concat_iff)
  qed
qed

text \<open>The total of a live chain after a truncation is again the sum of the lengths.\<close>

lemma live_cut:
  assumes "live m c" and "cut_only c (hd c) m m'" and "cb_total_len (m' (hd c)) = length (chain_bytes m' c)"
  shows "live m' c"
proof -
  have ok: "bufs_ok m' c" using assms(1) cut_only_simps(3) [OF assms(2)] by (simp add: live_def)
  with assms show ?thesis
    by (simp add: live_def whole_chain_def cut_only_simps(1,2) [OF assms(2)])
qed

lemma truncate_head_live:
  assumes "live (cb_mem s) c"
  shows "\<exists>m. cbuf_truncate_head (Some (hd c)) n s = Returns (0, s\<lparr>cb_mem := m\<rparr>) \<and>
             cut_only c (hd c) (cb_mem s) m \<and> live m c \<and>
             chain_bytes m c = drop n (chain_bytes (cb_mem s) c)"
proof -
  let ?m = "cb_mem s" and ?h = "hd c"
  have ch: "chain (nexts ?m) (Some ?h) c" and ok: "bufs_ok ?m c" and h: "is_head (?m ?h)"
    and t: "cb_total_len (?m ?h) = bytes_in ?m c" using assms by (auto simp: live_def whole_chain_def)
  from trunc_head_loop_spec [OF ch ok, of ?h n] t obtain m where
    r: "trunc_head_loop ?h ?m (Some ?h) n = Some m" and cut: "cut_only c ?h ?m m"
    and b: "chain_bytes m c = drop n (chain_bytes ?m c)"
    and tm: "cb_total_len (m ?h) = bytes_in ?m c - min n (bytes_in ?m c)" by auto
  have "live m c" by (rule live_cut [OF assms cut]) (use tm b ok in \<open>simp add: min_def\<close>)
  with r h cut b show ?thesis
    by (intro exI [of _ m]) (simp add: cbuf_truncate_head_def looped_def)
qed

lemma truncate_tail_live:
  assumes "live (cb_mem s) c" and "0 < n" and "n \<le> bytes_in (cb_mem s) c"
  shows "\<exists>m. cbuf_truncate_tail (Some (hd c)) n s = Returns (B_NO_ERROR, s\<lparr>cb_mem := m\<rparr>) \<and>
             cut_only c (hd c) (cb_mem s) m \<and> live m c \<and>
             chain_bytes m c = take (bytes_in (cb_mem s) c - n) (chain_bytes (cb_mem s) c)"
proof -
  let ?m = "cb_mem s" and ?h = "hd c"
  have ch: "chain (nexts ?m) (Some ?h) c" and ok: "bufs_ok ?m c" and h: "is_head (?m ?h)"
    and t: "cb_total_len (?m ?h) = bytes_in ?m c" using assms by (auto simp: live_def whole_chain_def)
  let ?off = "bytes_in ?m c - n"
  have "?off < bytes_in ?m c" using assms(2,3) by simp
  from trunc_seek_spec(1) [OF ch this] obtain c1 i c2 bo where c: "c = c1 @ i # c2"
    and sk: "trunc_seek ?m (Some ?h) ?off = Some (Some i, bo)" and off: "?off = bytes_in ?m c1 + bo"
    and bo: "bo \<le> cb_len (?m i)" and nx: "cb_next (?m i) = hd_ptr c2" by blast
  have dist: "distinct (c1 @ i # c2)" using chain_distinct [OF ch] c by simp
  have c2: "chain (nexts ?m) (hd_ptr c2) c2" using chain_split(2) [of "nexts ?m" "Some ?h" c1 i c2] ch c nx
    by (simp add: nexts_def)
  let ?cut = "u32_sub (cb_len (?m i)) bo"
  define m1 where "m1 = ?m(?h := (?m ?h)\<lparr>cb_total_len := u32_sub (cb_total_len (?m ?h)) ?cut\<rparr>)"
  define m2 where "m2 = m1(i := (m1 i)\<lparr>cb_len := u32_sub (cb_len (m1 i)) ?cut\<rparr>)"
  have oki: "buf_ok (?m i)" using ok c by simp
  have w2: "window (m2 i) = take bo (window (?m i))" and ok2: "buf_ok (m2 i)"
    using oki bo by (auto simp: m2_def m1_def window_def buf_ok_def min_def)
  have cut2: "cut_only [i] ?h ?m m2"
    using ok2 by (auto simp: cut_only_def m2_def m1_def)
  have t2: "cb_total_len (m2 ?h) = bytes_in ?m c1 + bo + bytes_in ?m c2"
    using t bo by (simp add: m2_def m1_def c)
  have hc: "?h \<notin> set c2" using dist unfolding c by (cases c1) auto
  have d2: "set [i] \<inter> set c1 = {}" "set [i] \<inter> set c2 = {}" using dist by auto
  have nx2: "cb_next (m2 i) = hd_ptr c2" using cut_only_simps(4) [OF cut2] nx by simp
  have "chain (nexts m2) (hd_ptr c2) c2" using c2 cut_only_simps(1) [OF cut2] by simp
  moreover have "bytes_in m2 c2 \<le> cb_total_len (m2 ?h)" using t2 cut_only_simps(6) [OF cut2 d2(2)] by simp
  ultimately obtain m3 where r: "clear_rest ?h m2 (hd_ptr c2) = Some m3" and cut3: "cut_only c2 ?h m2 m3"
    and b3: "chain_bytes m3 c2 = []" and t3: "cb_total_len (m3 ?h) = bytes_in ?m c1 + bo"
    using clear_rest_spec [of m2 "hd_ptr c2" c2 ?h] hc t2 cut_only_simps(6) [OF cut2 d2(2)] by auto
  have cut: "cut_only c ?h ?m m3" by (rule cut_only_trans [OF cut2 cut3]) (auto simp: c)
  have "set c2 \<inter> set (c1 @ [i]) = {}" using dist by auto
  from cut_only_simps(5) [OF cut3 this] have "chain_bytes m3 (c1 @ [i]) = chain_bytes m2 (c1 @ [i])" .
  then have b: "chain_bytes m3 c = chain_bytes ?m c1 @ take bo (window (?m i))"
    using b3 w2 cut_only_simps(5) [OF cut2 d2(1)] by (simp add: c)
  have "chain_bytes m3 c = take ?off (chain_bytes ?m c)"
    using b ok bo unfolding off by (simp add: c)
  moreover have "live m3 c"
    by (rule live_cut [OF assms(1) cut]) (use t3 b ok bo in \<open>simp add: c min_def\<close>)
  moreover have "cbuf_truncate_tail (Some ?h) n s = Returns (B_NO_ERROR, s\<lparr>cb_mem := m3\<rparr>)"
  proof -
    have sk': "looped (trunc_seek ?m (Some ?h) (u32_sub (cb_total_len (?m ?h)) n)) = Returns (Some i, bo)"
      using sk t assms(3) by (simp add: looped_def)
    have "cbuf_truncate_tail (Some ?h) n s = obind (looped (clear_rest ?h m2 (cb_next (m2 i))))
        (\<lambda>m3. Returns (B_NO_ERROR, s\<lparr>cb_mem := m3\<rparr>))"
      by (simp only: cbuf_truncate_tail_def option.case h not_True_eq_False if_False sk' obind.simps
          prod.case Let_def m1_def m2_def)
    then show ?thesis using r nx2 by (simp add: looped_def)
  qed
  ultimately show ?thesis using cut by auto
qed

end
