(* ===== verification/Cbuf_Props.thy ===== *)
theory Cbuf_Props
  imports Cbuf_Ops
begin

unbundle bit_operations_syntax

text \<open>
  Merging, duplication and the checksum of chains, and the properties of the operations on
  the contents of a chain: what they do to the bytes, when they refuse, and that no operation
  disturbs another live chain or loses a buffer.
\<close>

section \<open>Merging\<close>

lemma last_buf_spec:
  "chain (nexts m) p (x # xs) \<Longrightarrow> last_buf m x = Some (last (x # xs))"
proof (induction xs arbitrary: p x)
  case Nil
  then show ?case by (subst last_buf.simps) (simp add: nexts_def)
next
  case (Cons y ys)
  then have "cb_next (m x) = Some y" and "chain (nexts m) (Some y) (y # ys)" by (auto simp: nexts_def)
  with Cons.IH [of "Some y" y] show ?case by (subst last_buf.simps) simp
qed

lemma tail_flag_head [simp]: "(w AND NOT CHAIN_TAIL) AND CHAIN_HEAD = w AND CHAIN_HEAD"
proof -
  have "NOT CHAIN_TAIL AND CHAIN_HEAD = CHAIN_HEAD" by (simp add: CHAIN_TAIL_def CHAIN_HEAD_def)
  then show ?thesis by (simp add: and.assoc)
qed

lemma merge_rep:
  assumes rep: "cb_rep s F N (c # d # cs) k"
    and w: "whole_chain (cb_mem s) c" "whole_chain (cb_mem s) d"
  shows "\<exists>s'. cbuf_merge_chains (Some (hd c)) (Some (hd d)) s = Returns (Some (hd c), s') \<and>
              cb_rep s' F N ((c @ d) # cs) k \<and> cb_sem_held s' = cb_sem_held s \<and>
              whole_chain (cb_mem s') (c @ d) \<and>
              chain_bytes (cb_mem s') (c @ d) = chain_bytes (cb_mem s) c @ chain_bytes (cb_mem s) d \<and>
              (\<forall>i. i \<notin> set c \<union> set d \<longrightarrow> cb_mem s' i = cb_mem s i)"
proof -
  let ?m = "cb_mem s" and ?h = "hd c" and ?l = "last c" and ?g = "hd d"
  have c: "c \<noteq> []" "d \<noteq> []" using w by (auto simp: whole_chain_def)
  have chs: "chain (nexts ?m) (hd_ptr e) e" if "e \<in> set (F # N # c # d # cs)" for e
    using rep that unfolding cb_rep_def by blast
  have dist: "distinct (concat (F # N # c # d # cs))" using rep by (simp add: cb_rep_def)
  have in_: "?h \<in> set c" "?l \<in> set c" "?g \<in> set d" using c by auto
  have cd: "set c \<inter> set d = {}" using dist by auto
  define m1 where "m1 = ?m(?l := (?m ?l)\<lparr>cb_next := Some ?g, cb_flags := cb_flags (?m ?l) AND NOT CHAIN_TAIL\<rparr>)"
  define m2 where "m2 = m1(?h := (m1 ?h)\<lparr>cb_total_len := u32_add (cb_total_len (m1 ?h)) (cb_total_len (m1 ?g))\<rparr>)"
  define m3 where "m3 = m2(?g := (m2 ?g)\<lparr>cb_flags := cb_flags (m2 ?g) AND NOT CHAIN_HEAD\<rparr>)"
  have ne: "?g \<noteq> ?h" "?g \<noteq> ?l" using in_ cd by auto
  have f3: "cb_len (m3 i) = cb_len (?m i)" "cb_data (m3 i) = cb_data (?m i)" "cb_dat (m3 i) = cb_dat (?m i)"
    "cb_next (m3 i) = (if i = ?l then Some ?g else cb_next (?m i))" for i
    by (auto simp: m3_def m2_def m1_def)
  have nx3: "nexts m3 = (nexts ?m)(?l := Some ?g)" by (auto simp: nexts_def f3)
  have same: "m3 i = ?m i" if "i \<notin> set c \<union> set d" for i
    using that in_ by (auto simp: m3_def m2_def m1_def)
  have bytes: "bytes_in m3 e = bytes_in ?m e" and win: "chain_bytes m3 e = chain_bytes ?m e" for e
    by (simp_all add: bytes_in_def f3 chain_bytes_def window_def)
  have hl: "hd_ptr c = Some ?h" "hd_ptr d = Some ?g" using c by (cases c; cases d; simp)+
  have tot: "cb_total_len (?m ?h) = bytes_in ?m c" "cb_total_len (?m ?g) = bytes_in ?m d"
    and heads: "is_head (?m ?h)" "is_head (?m ?g)" using w by (auto simp: whole_chain_def)
  have small: "bytes_in ?m c + bytes_in ?m d < 2 ^ 32"
  proof -
    have le: "bytes_in ?m e \<le> CBUF_DAT * length e" for e
    proof (induction e)
      case (Cons i e)
      have "buf_ok (?m i)" using rep by (simp add: cb_rep_def)
      then have "cb_len (?m i) \<le> CBUF_DAT" by (simp add: buf_ok_def)
      with Cons show ?case by simp
    qed simp
    have st: "set (concat (F # N # c # d # cs)) = {..<32 * k}" and k: "k \<le> 63"
      using rep by (simp_all add: cb_rep_def)
    have "length (concat (F # N # c # d # cs)) = 32 * k"
      using distinct_card [OF dist] st by simp
    then have "length c + length d \<le> 2016" using k by simp
    then have "CBUF_DAT * length c + CBUF_DAT * length d < 2 ^ 32" by (simp add: CBUF_DAT_eq)
    with le [of c] le [of d] show ?thesis by linarith
  qed
  have "is_head (m3 ?h)"
    using heads ne by (auto simp: m3_def m2_def m1_def is_head_def)
  moreover have "cb_total_len (m3 ?h) = bytes_in ?m c + bytes_in ?m d"
    using tot small ne by (auto simp: m3_def m2_def m1_def)
  ultimately have whole: "whole_chain m3 (c @ d)" using c by (simp add: whole_chain_def bytes)
  have link: "chain (nexts m3) (hd_ptr (c @ d)) (c @ d)"
  proof -
    have "chain (nexts ?m) (hd_ptr c) (butlast c @ [?l])" using chs [of c] c by simp
    moreover have "chain (nexts ?m) (Some ?g) d" using chs [of d] hl by simp
    moreover have "?l \<notin> set d" using in_ cd by auto
    ultimately have "chain ((nexts ?m)(?l := Some ?g)) (hd_ptr c) (butlast c @ ?l # d)" by (rule chain_link)
    moreover have "butlast c @ ?l # d = c @ d" using c by (metis append.assoc append_Cons append_Nil append_butlast_last_id)
    ultimately show ?thesis using c by (simp add: nx3 hd_ptr_append)
  qed
  have keep: "chain (nexts m3) (hd_ptr e) e" if "e \<in> set (F # N # cs)" for e
  proof -
    have "?l \<notin> set e" using dist that in_ by auto
    with chs [of e] that show ?thesis by (auto simp: nx3)
  qed
  have run: "cbuf_merge_chains (Some ?h) (Some ?g) s = Returns (Some ?h, s\<lparr>cb_mem := m3\<rparr>)"
  proof -
    have "looped (last_buf ?m ?h) = Returns ?l"
      using last_buf_spec [of ?m "hd_ptr c" "hd c" "tl c"] chs [of c] c by (simp add: looped_def)
    then show ?thesis
      by (simp only: cbuf_merge_chains_def option.case prod.case heads not_True_eq_False if_False obind.simps
          Let_def m1_def m2_def m3_def)
  qed
  have lim: "\<forall>i \<ge> 32 * k. cb_next (m3 i) = None"
  proof (intro allI impI)
    fix i assume i: "32 * k \<le> i"
    have "set c \<subseteq> {..<32 * k}" using rep by (auto simp: cb_rep_def)
    with in_ i have "i \<noteq> ?l" by auto
    with rep i show "cb_next (m3 i) = None" by (simp add: cb_rep_def f3)
  qed
  have ok: "\<forall>i. buf_ok (m3 i)" using rep by (simp add: cb_rep_def buf_ok_def f3)
  have rs: "\<forall>i \<in> set F \<union> set N. reset_buf (m3 i)"
  proof
    fix i assume i: "i \<in> set F \<union> set N"
    then have "i \<notin> set c \<union> set d" using dist by auto
    with same rep i show "reset_buf (m3 i)" by (auto simp: cb_rep_def)
  qed
  have "\<forall>e \<in> set (F # N # (c @ d) # cs). chain (nexts m3) (hd_ptr e) e"
    using keep link by simp
  moreover have "concat (F # N # (c @ d) # cs) = concat (F # N # c # d # cs)" by simp
  ultimately have "cb_rep (s\<lparr>cb_mem := m3\<rparr>) F N ((c @ d) # cs) k"
    using rep lim ok rs unfolding cb_rep_def by simp
  with run whole win same show ?thesis by auto
qed

section \<open>Duplication\<close>

lemma splice_splice:
  assumes "a + length ys \<le> length d"
  shows "splice_at (a + length ys) xs (splice_at a ys d) = splice_at a (ys @ xs) d"
proof (cases ys)
  case Nil
  then show ?thesis by (simp add: splice_at_def)
next
  case (Cons y zs)
  with assms have "a < length d" by simp
  with assms show ?thesis by (simp add: splice_at_def min_def add_ac)
qed

text \<open>One step of a position through a chain.\<close>

lemma at_pos_step:
  assumes "chain (nexts m) (hd_ptr (i # c)) (i # c)" and "bo + n \<le> cb_len (m i)"
  shows "\<exists>c'. (if n + bo = cb_len (m i) then cb_next (m i) else Some i) = hd_ptr c' \<and>
              chain (nexts m) (hd_ptr c') c' \<and> at_pos m c' (if n + bo = cb_len (m i) then 0 else bo + n) \<and>
              (c' = (if n + bo = cb_len (m i) then c else i # c))"
  using assms chain_Cons [OF assms(1)] by (auto simp: at_pos_def)

lemma drop_step:
  assumes "buf_ok (m i)" and "bo + n \<le> cb_len (m i)"
  shows "drop (if n + bo = cb_len (m i) then 0 else bo + n)
           (chain_bytes m (if n + bo = cb_len (m i) then c else i # c)) = drop n (drop bo (chain_bytes m (i # c)))"
  using assms by (auto simp: add.commute)

lemma dup_loop_spec:
  assumes "chain (nexts m) (hd_ptr c) c" and "bufs_ok m c" and "at_pos m c bo"
    and "chain (nexts m) (hd_ptr d) d" and "bufs_ok m d" and "at_pos m d o1"
    and "set c \<inter> set d = {}" and "bo + len \<le> bytes_in m c" and "o1 + len \<le> bytes_in m d"
  shows "\<exists>m'. dup_loop m (hd_ptr c) bo (hd_ptr d) o1 len = Some (Returns (True, m')) \<and>
              chain_bytes m' d = splice_at o1 (take len (drop bo (chain_bytes m c))) (chain_bytes m d) \<and>
              dat_only d m m'"
  using assms
proof (induction "length c + length d" arbitrary: c d m bo o1 len rule: less_induct)
  case less
  show ?case
  proof (cases "len = 0")
    case True
    then show ?thesis by (subst dup_loop.simps) simp
  next
    case pos: False
    with less.prems(8,9) obtain i c0 j d0 where c: "c = i # c0" and d: "d = j # d0"
      by (cases c; cases d) auto
    let ?b = "m i" and ?e = "m j"
    define n where "n = min (min (cb_len ?e - o1) (cb_len ?b - bo)) len"
    have bo: "bo \<le> cb_len ?b" "o1 \<le> cb_len ?e"
      using less.prems(3,6) unfolding c d by (auto dest: at_pos_le)
    have ok: "buf_ok ?b" "bufs_ok m c0" "buf_ok ?e" "bufs_ok m d0" using less.prems(2,5) c d by auto
    have ij: "i \<noteq> j" "j \<notin> set c" "j \<notin> set c0" "j \<notin> set d0"
      using less.prems(7) c d chain_Cons(4) [of m "hd_ptr d" j d0] less.prems(4) by auto
    have n: "bo + n \<le> cb_len ?b" "o1 + n \<le> cb_len ?e" "n \<le> len" using bo by (auto simp: n_def)
    let ?bs = "take n (drop bo (window ?b))"
    have g: "get_bytes (cb_data ?b + bo) n ?b = ?bs" by (rule get_bytes_window [OF n(1)])
    have lb: "length ?bs = n" using ok(1) n(1) by simp
    define m1 where "m1 = m(j := put_bytes (cb_data ?e + o1) ?bs ?e)"
    have fits: "cb_data ?b + bo + n \<le> CBUF_DAT" "cb_data ?e + o1 + n \<le> CBUF_DAT"
      using ok n by (auto simp: buf_ok_def)
    have pb: "o1 + length ?bs \<le> cb_len ?e" using n(2) lb by simp
    have d1: "dat_only d m m1"
      unfolding m1_def d using window_put_bytes(2) [OF ok(3) pb] by (intro dat_only_put) auto
    note f1 = dat_only_fields [OF d1]
    note u = chain_upd_notin [of j _ m "put_bytes (cb_data ?e + o1) ?bs ?e", folded m1_def]
    let ?ce = "n + bo = cb_len ?b" and ?de = "n + o1 = cb_len ?e"
    let ?c' = "if ?ce then c0 else c" and ?d' = "if ?de then d0 else d"
    let ?bo' = "if ?ce then 0 else bo + n" and ?o' = "if ?de then 0 else o1 + n"
    have step: "dup_loop m (hd_ptr c) bo (hd_ptr d) o1 len =
        dup_loop m1 (if ?ce then cb_next ?b else hd_ptr c) ?bo' (if ?de then cb_next ?e else hd_ptr d) ?o' (len - n)"
      using pos fits g bo
      by (subst dup_loop.simps) (simp add: c d Let_def n_def [symmetric] m1_def)
    from at_pos_step [of m i c0 bo n] less.prems(1) n(1) c
    have c1: "(if ?ce then cb_next ?b else hd_ptr c) = hd_ptr ?c'" "chain (nexts m) (hd_ptr ?c') ?c'"
      "at_pos m ?c' ?bo'" by (auto split: if_splits)
    from at_pos_step [of m j d0 o1 n] less.prems(4) n(2) d
    have d1': "(if ?de then cb_next ?e else hd_ptr d) = hd_ptr ?d'" "chain (nexts m) (hd_ptr ?d') ?d'"
      "at_pos m ?d' ?o'" by (auto split: if_splits)
    have jc: "j \<notin> set ?c'" using ij by auto
    have at1: "at_pos m1 e x = at_pos m e x" for e x by (simp add: at_pos_def f1)
    have src: "drop ?bo' (chain_bytes m1 ?c') = drop n (drop bo (chain_bytes m c))"
      using drop_step [of m i bo n c0] ok(1) n(1) u(2) [OF jc] by (simp only: c)
    have w1: "chain_bytes m1 d = splice_at o1 ?bs (chain_bytes m d)"
    proof -
      have "window (m1 j) = splice_at o1 ?bs (window ?e)"
        using window_put_bytes(1) [OF ok(3) pb] by (simp add: m1_def splice_at_def)
      moreover have "splice_at o1 ?bs (window ?e @ chain_bytes m d0) = splice_at o1 ?bs (window ?e) @ chain_bytes m d0"
        using pb bo(2) ok(3) by (simp add: splice_at_def)
      ultimately show ?thesis using u(2) [OF ij(4)] by (simp add: d)
    qed
    have bs: "?bs = take n (drop bo (chain_bytes m c))" using n(1) ok(1) by (simp add: c)
    have rest: "\<exists>m'. dup_loop m1 (hd_ptr ?c') ?bo' (hd_ptr ?d') ?o' (len - n) = Some (Returns (True, m')) \<and>
        chain_bytes m' ?d' = splice_at ?o' (take (len - n) (drop ?bo' (chain_bytes m1 ?c'))) (chain_bytes m1 ?d') \<and>
        dat_only ?d' m1 m'"
    proof (cases "n = len")
      case True
      then show ?thesis by (subst dup_loop.simps) simp
    next
      case False
      then have "?ce \<or> ?de" using bo by (auto simp: n_def)
      then have "length ?c' + length ?d' < length c + length d" using c d by auto
      then show ?thesis
      proof (rule less.hyps)
        show "chain (nexts m1) (hd_ptr ?c') ?c'" "chain (nexts m1) (hd_ptr ?d') ?d'"
          using c1(2) d1'(2) f1(6) by simp_all
        show "bufs_ok m1 ?c'" "bufs_ok m1 ?d'" using f1(11) less.prems(2,5) ok by auto
        show "at_pos m1 ?c' ?bo'" "at_pos m1 ?d' ?o'" using c1(3) d1'(3) by (simp_all add: at1)
        show "set ?c' \<inter> set ?d' = {}" using less.prems(7) c d by auto
        show "?bo' + (len - n) \<le> bytes_in m1 ?c'" "?o' + (len - n) \<le> bytes_in m1 ?d'"
          using less.prems(8,9) n c d by (auto simp: f1)
      qed
    qed
    then obtain m' where r: "dup_loop m1 (hd_ptr ?c') ?bo' (hd_ptr ?d') ?o' (len - n) = Some (Returns (True, m'))"
      and b: "chain_bytes m' ?d' = splice_at ?o' (take (len - n) (drop ?bo' (chain_bytes m1 ?c'))) (chain_bytes m1 ?d')"
      and d2: "dat_only ?d' m1 m'" by blast
    have b': "chain_bytes m' d = splice_at (o1 + n) (take (len - n) (drop n (drop bo (chain_bytes m c)))) (chain_bytes m1 d)"
    proof (cases ?de)
      case True
      have "chain_bytes m' ([j] @ d0) = splice_at (bytes_in m1 [j] + 0)
          (take (len - n) (drop ?bo' (chain_bytes m1 ?c'))) (chain_bytes m1 ([j] @ d0))"
        by (rule dat_only_splice) (use b d2 True ij(4) f1(11) [of "[j]"] ok(3) in auto)
      moreover have "bytes_in m1 [j] = o1 + n" using True by (simp add: f1)
      ultimately show ?thesis using src by (simp add: d)
    next
      case False
      with b src show ?thesis by simp
    qed
    have "o1 + length ?bs \<le> length (chain_bytes m d)" using pb ok d by simp
    from splice_splice [OF this, of "take (len - n) (drop n (drop bo (chain_bytes m c)))"]
    have "chain_bytes m' d = splice_at o1 (?bs @ take (len - n) (drop n (drop bo (chain_bytes m c)))) (chain_bytes m d)"
      unfolding b' w1 lb .
    moreover have "?bs @ take (len - n) (drop n (drop bo (chain_bytes m c))) = take len (drop bo (chain_bytes m c))"
      unfolding bs using n(3) by (metis le_add_diff_inverse take_add)
    moreover have "set ?d' \<subseteq> set d" using d by auto
    from dat_only_trans [OF d1 dat_only_mono [OF d2 this]] have "dat_only d m m'" .
    ultimately show ?thesis using step r c1(1) d1'(1) by simp
  qed
qed

lemma get_chain_live:
  assumes "cb_rep s F N cs k" and "\<not> cb_sem_held s" and "0 < len"
    and "len \<le> CBUF_DAT * (length F + 32 * (63 - k))"
  obtains c s' F' k' where "cbuf_get_chain len s = Returns (Some (hd c), s')" and "cb_rep s' F' N (c # cs) k'"
    and "\<not> cb_sem_held s'" and "live (cb_mem s') c" and "bytes_in (cb_mem s') c = len"
    and "\<forall>d \<in> set cs. \<forall>i \<in> set d. cb_mem s' i = cb_mem s i"
    and "length F' + length c + 32 * (63 - k') = length F + 32 * (63 - k)"
proof -
  from get_chain_rep [OF assms(1-3)] assms(4) obtain c s' F' k' where
    g: "cbuf_get_chain len s = Returns (Some (hd c), s')" and rep: "cb_rep s' F' N (c # cs) k'"
    and h: "\<not> cb_sem_held s'" and w: "whole_chain (cb_mem s') c" "bytes_in (cb_mem s') c = len"
    and n: "length F' + length c + 32 * (63 - k') = length F + 32 * (63 - k)"
    and fr: "\<forall>d \<in> set cs. \<forall>i \<in> set d. cb_mem s' i = cb_mem s i" by auto
  have "live (cb_mem s') c" by (rule live_rep [OF rep _ w(1)]) simp
  with that g rep h w(2) n fr show thesis by blast
qed

lemma live_cong: "(\<And>i. i \<in> set c \<Longrightarrow> m i = m' i) \<Longrightarrow> live m c = live m' c"
  using whole_chain_cong [of c m m'] chain_nexts_cong [of c m m' "Some (hd c)"] bufs_ok_cong [of c m m']
  by (simp add: live_def)

lemma rep_small:
  assumes "cb_rep s F N cs k" and "c \<in> set cs"
  shows "bytes_in (cb_mem s) c < 2 ^ 32"
proof -
  have le: "bytes_in (cb_mem s) e \<le> CBUF_DAT * length e" for e
  proof (induction e)
    case (Cons i e)
    have "buf_ok (cb_mem s i)" using assms(1) by (simp add: cb_rep_def)
    then have "cb_len (cb_mem s i) \<le> CBUF_DAT" by (simp add: buf_ok_def)
    with Cons show ?case by simp
  qed simp
  have st: "set (concat (F # N # cs)) = {..<32 * k}" and dist: "distinct (concat (F # N # cs))"
    and k: "k \<le> 63" using assms(1) by (simp_all add: cb_rep_def)
  have "set c \<subseteq> set (concat (F # N # cs))" using assms(2) by auto
  then have "set c \<subseteq> {..<32 * k}" unfolding st .
  moreover have "distinct c" using dist assms(2) by (simp add: distinct_concat_iff)
  ultimately have "length c \<le> 32 * k"
    using card_mono [of "{..<32 * k}" "set c"] distinct_card [of c] by simp
  then have "CBUF_DAT * length c < 2 ^ 32" using k by (simp add: CBUF_DAT_eq)
  with le [of c] show ?thesis by linarith
qed

lemma duplicate_rep:
  assumes rep: "cb_rep s F N cs k" and c: "c \<in> set cs" and w: "whole_chain (cb_mem s) c"
    and h: "\<not> cb_sem_held s" and off: "off < bytes_in (cb_mem s) c" and len: "0 < len"
  defines "n \<equiv> min len (bytes_in (cb_mem s) c - off)"
  assumes room: "n \<le> CBUF_DAT * (length F + 32 * (63 - k))"
  shows "\<exists>e s' F' k'. cbuf_duplicate_chain (Some (hd c)) off len s = Returns (Some (hd e), s') \<and>
           cb_rep s' F' N (e # cs) k' \<and> \<not> cb_sem_held s' \<and> whole_chain (cb_mem s') e \<and>
           chain_bytes (cb_mem s') e = take len (drop off (chain_bytes (cb_mem s) c)) \<and>
           (\<forall>d \<in> set cs. \<forall>i \<in> set d. cb_mem s' i = cb_mem s i)"
proof -
  have n: "0 < n" using off len by (simp add: n_def)
  obtain e s1 F1 k1 where
    g: "cbuf_get_chain n s = Returns (Some (hd e), s1)" and rep1: "cb_rep s1 F1 N (e # cs) k1"
    and h1: "\<not> cb_sem_held s1" and le: "live (cb_mem s1) e" and be: "bytes_in (cb_mem s1) e = n"
    and fr: "\<forall>d \<in> set cs. \<forall>i \<in> set d. cb_mem s1 i = cb_mem s i"
    by (rule get_chain_live [OF rep h n room])
  let ?m = "cb_mem s1"
  have eqc: "?m i = cb_mem s i" if "i \<in> set c" for i using fr c that by simp
  have lc: "live ?m c" using live_rep [OF rep c w] live_cong [of c ?m "cb_mem s"] eqc by simp
  have bc: "bytes_in ?m c = bytes_in (cb_mem s) c" "chain_bytes ?m c = chain_bytes (cb_mem s) c"
    using bytes_in_cong [of c ?m "cb_mem s"] chain_bytes_cong [of c ?m "cb_mem s"] eqc by simp_all
  have "off \<le> bytes_in ?m c" using off bc by simp
  with lc obtain c1 c2 bo where cc: "c = c1 @ c2"
    and sk: "cb_seek ?m (Some (hd c)) off = Some (Some (hd_ptr c2, bo))"
    and offe: "off = bytes_in ?m c1 + bo" and ch: "chain (nexts ?m) (hd_ptr c2) c2"
    and pos: "at_pos ?m c2 bo" and ok: "bufs_ok ?m c1" "bufs_ok ?m c2" by (rule live_seek)
  have oke: "bufs_ok ?m e" and ne: "e \<noteq> []" using le by (simp_all add: live_def whole_chain_def)
  have hpe: "hd_ptr e = Some (hd e)" using ne by (cases e) auto
  then have che: "chain (nexts ?m) (hd_ptr e) e" using le by (simp only: live_def)
  have dist: "distinct (concat (F1 # N # e # cs))" using rep1 by (simp add: cb_rep_def)
  have "set c \<inter> set e = {}" using dist c by auto
  then have disj: "set c2 \<inter> set e = {}" using cc by auto
  have b1: "bo + n \<le> bytes_in ?m c2" using off bc(1) offe unfolding n_def cc by simp
  from dup_loop_spec [OF ch ok(2) pos che oke at_pos_0 disj b1] be obtain m' where
    r: "dup_loop ?m (hd_ptr c2) bo (Some (hd e)) 0 n = Some (Returns (True, m'))"
    and b: "chain_bytes m' e = splice_at 0 (take n (drop bo (chain_bytes ?m c2))) (chain_bytes ?m e)"
    and d: "dat_only e ?m m'" by (auto simp: hpe)
  have dr: "drop bo (chain_bytes ?m c2) = drop off (chain_bytes (cb_mem s) c)"
  proof -
    have "drop off (chain_bytes ?m (c1 @ c2)) = drop bo (chain_bytes ?m c2)" using ok(1) by (simp add: offe)
    then show ?thesis unfolding cc [symmetric] bc(2) by simp
  qed
  have lenb: "length (chain_bytes (cb_mem s) c) = bytes_in (cb_mem s) c"
    using live_rep [OF rep c w] by (simp add: live_def)
  have tk: "take n (drop off (chain_bytes (cb_mem s) c)) = take len (drop off (chain_bytes (cb_mem s) c))"
    by (simp add: n_def lenb min_def)
  have "length (chain_bytes ?m e) = n" using oke be by simp
  moreover have "length (take n (drop off (chain_bytes (cb_mem s) c))) = n" by (simp add: n_def lenb)
  ultimately have "chain_bytes m' e = take n (drop off (chain_bytes (cb_mem s) c))"
    unfolding b dr by (simp add: splice_at_def)
  moreover have "cbuf_duplicate_chain (Some (hd c)) off len s = Returns (Some (hd e), s1\<lparr>cb_mem := m'\<rparr>)"
    using w off g sk r
    by (simp add: cbuf_duplicate_chain_def whole_chain_def n_def [symmetric] Let_def looped_def looped_outcome_def)
  moreover have "cb_rep (s1\<lparr>cb_mem := m'\<rparr>) F1 N (e # cs) k1" by (rule dat_only_rep [OF rep1 _ d]) simp
  moreover have "whole_chain m' e" using le dat_only_fields(8) [OF d] by (simp add: live_def)
  moreover have "m' i = cb_mem s i" if "x \<in> set cs" "i \<in> set x" for x i
  proof -
    have "i \<notin> set e" using dist that by auto
    with d fr that show ?thesis by (simp add: dat_only_def)
  qed
  ultimately show ?thesis using h1 tk
    by (rule_tac exI [of _ e], rule_tac exI [of _ "s1\<lparr>cb_mem := m'\<rparr>"], rule_tac exI [of _ F1],
        rule_tac exI [of _ k1]) simp
qed

section \<open>The checksum\<close>

lemma cksum_start_spec:
  assumes "chain (nexts m) p c" and "off < bytes_in m c"
  shows "\<exists>c1 i c2 bo. c = c1 @ i # c2 \<and> cksum_start m p off = Some (Some i, bo) \<and>
           off = bytes_in m c1 + bo \<and> bo < cb_len (m i) \<and> chain (nexts m) (Some i) (i # c2)"
  using assms
proof (induction c arbitrary: p off)
  case Nil
  then show ?case by simp
next
  case (Cons i c)
  note ch = chain_Cons [OF Cons.prems(1)]
  show ?case
  proof (cases "off < cb_len (m i)")
    case True
    then have "cksum_start m p off = Some (Some i, off)" using ch(1) by (subst cksum_start.simps) simp
    with True Cons.prems(1) ch(1) show ?thesis
      by (intro exI [of _ "[]"] exI [of _ i] exI [of _ c] exI [of _ off]) simp
  next
    case False
    have step: "cksum_start m p off = cksum_start m (cb_next (m i)) (off - cb_len (m i))"
      using ch(1) False by (subst cksum_start.simps) simp
    have "off - cb_len (m i) < bytes_in m c" using Cons.prems(2) False by simp
    from Cons.IH [OF ch(2) this] obtain c1 j c2 bo where "c = c1 @ j # c2"
      "cksum_start m (cb_next (m i)) (off - cb_len (m i)) = Some (Some j, bo)"
      "off - cb_len (m i) = bytes_in m c1 + bo" "bo < cb_len (m j)" "chain (nexts m) (Some j) (j # c2)" by blast
    with step False show ?thesis
      by (intro exI [of _ "i # c1"] exI [of _ j] exI [of _ c2] exI [of _ bo]) simp
  qed
qed

text \<open>
  The loop with \<open>xs\<close> already summed: \<open>acc\<close> is the sum of \<open>xs\<close>, shifted by eight bits when
  \<open>swapped\<close> is set, and it is set exactly when an odd number of bytes is behind.
\<close>

definition shifted :: "bool \<Rightarrow> nat \<Rightarrow> nat" where
  "shifted b n = (if b then 256 * n else n)"

lemma shifted_add: "shifted b (m + n) = shifted b m + shifted b n"
  by (simp add: shifted_def algebra_simps)

lemma ones_eq_shifted: "ones_eq m n \<Longrightarrow> ones_eq (shifted b m) (shifted b n)"
  using ones_eq_mult [of m n 256] by (simp add: shifted_def)

lemma ones_eq_shifted2: "ones_eq (256 * shifted b n) (shifted (\<not> b) n)"
  using ones_eq_65536 [of n] by (simp add: shifted_def)

lemma shifted_append:
  assumes "swapped \<longleftrightarrow> odd (length xs)" and "ones_eq a (shifted swapped (wsum xs))"
  shows "ones_eq (a + wsum ys) (shifted swapped (wsum (xs @ ys)))"
proof -
  have "ones_eq (wsum ys) (shifted swapped (if even (length xs) then wsum ys else 256 * wsum ys))"
    using assms(1) ones_eq_sym [OF ones_eq_65536 [of "wsum ys"]] by (simp add: shifted_def)
  with assms(2) have "ones_eq (a + wsum ys)
      (shifted swapped (wsum xs + (if even (length xs) then wsum ys else 256 * wsum ys)))"
    unfolding shifted_add by (rule ones_eq_add)
  then show ?thesis
    using ones_eq_shifted [OF ones_eq_sym [OF wsum_append [of xs ys]], of swapped] by (rule ones_eq_trans)
qed

lemma cksum_loop_spec:
  assumes "chain (nexts m) p c" and "bufs_ok m c" and "at_pos m c bo" and "even bo"
    and "swapped \<longleftrightarrow> odd (length xs)" and "ones_eq (unat acc) (shifted swapped (wsum xs))"
    and "len \<le> bytes_in m c - bo"
  shows "\<exists>acc' sw'. cksum_loop m p bo len acc swapped = Some (Returns (acc', sw')) \<and>
           ones_eq (unat acc') (shifted sw' (wsum (xs @ take len (drop bo (chain_bytes m c)))))"
  using assms
proof (induction c arbitrary: p bo len acc swapped xs)
  case Nil
  then show ?case by (subst cksum_loop.simps) simp
next
  case (Cons i c)
  note ch = chain_Cons [OF Cons.prems(1)]
  show ?case
  proof (cases "len = 0")
    case True
    then show ?thesis using ch(1) Cons.prems(6) by (subst cksum_loop.simps) simp
  next
    case False
    let ?b = "m i"
    have bo: "bo \<le> cb_len ?b" using Cons.prems(3) by (rule at_pos_le)
    have ok: "buf_ok ?b" "bufs_ok m c" using Cons.prems(2) by auto
    define n where "n = min len (cb_len ?b - bo)"
    let ?bs = "take n (drop bo (window ?b))"
    have n: "bo + n \<le> cb_len ?b" using bo by (simp add: n_def)
    have g: "get_bytes (cb_data ?b + bo) n ?b = ?bs" by (rule get_bytes_window [OF n])
    have lb: "length ?bs = n" using ok(1) n by simp
    have fits: "cb_data ?b + bo + n \<le> CBUF_DAT" using ok(1) n by (auto simp: buf_ok_def)
    define a1 where "a1 = ones_sum16 (ucast acc) ?bs"
    define turn where "turn \<longleftrightarrow> cb_next ?b \<noteq> None \<and> 0 < len - n \<and> odd n"
    have step: "cksum_loop m p bo len acc swapped =
        cksum_loop m (cb_next ?b) 0 (len - n) (if turn then swap16 a1 else a1) (if turn then \<not> swapped else swapped)"
      using False ch(1) fits g bo Cons.prems(4)
      by (subst cksum_loop.simps, cases "cb_next ?b") (simp_all add: Let_def n_def [symmetric] a1_def turn_def)
    have small: "unat acc < 65536" using unsigned_less [of acc] by simp
    then have "unat (ucast acc :: 32 word) = unat acc" by (simp add: unsigned_ucast_eq take_bit_nat_eq_self)
    with small have "ones_eq (unat a1) (unat acc + wsum ?bs)"
      using ones_sum16_spec [of "ucast acc" ?bs] by (simp add: a1_def)
    then have a1: "ones_eq (unat a1) (shifted swapped (wsum (xs @ ?bs)))"
      using shifted_append [OF Cons.prems(5,6)] by (rule ones_eq_trans)
    let ?acc = "if turn then swap16 a1 else a1" and ?sw = "if turn then \<not> swapped else swapped"
    have acc: "ones_eq (unat ?acc) (shifted ?sw (wsum (xs @ ?bs)))"
    proof (cases turn)
      case True
      have "ones_eq (unat (swap16 a1)) (256 * unat a1)" by (rule swap16_spec)
      then have "ones_eq (unat (swap16 a1)) (256 * shifted swapped (wsum (xs @ ?bs)))"
        using ones_eq_mult [OF a1, of 256] by (auto intro: ones_eq_trans)
      with ones_eq_shifted2 have "ones_eq (unat (swap16 a1)) (shifted (\<not> swapped) (wsum (xs @ ?bs)))"
        by (rule ones_eq_trans [rotated])
      with True show ?thesis by simp
    qed (use a1 in simp)
    have app: "take len (drop bo (chain_bytes m (i # c))) = ?bs @ take (len - n) (chain_bytes m c)"
      using bo ok by (auto simp: n_def min_def)
    show ?thesis
    proof (cases "len - n = 0 \<or> c = []")
      case True
      then have run: "cksum_loop m (cb_next ?b) 0 (len - n) ?acc ?sw = Some (Returns (?acc, ?sw))"
        using ch(3) by (subst cksum_loop.simps) (auto split: option.splits)
      have "take (len - n) (chain_bytes m c) = []" using True by auto
      then have app': "take len (drop bo (chain_bytes m (i # c))) = ?bs" unfolding app by simp
      from trans [OF step run] acc show ?thesis unfolding app' by blast
    next
      case more: False
      then have "cb_next ?b \<noteq> None" using ch(3) by (cases c) auto
      with more have "turn \<longleftrightarrow> odd n" by (auto simp: turn_def)
      with Cons.prems(5) lb have "?sw \<longleftrightarrow> odd (length (xs @ ?bs))" by auto
      moreover have "len - n \<le> bytes_in m c - 0" using Cons.prems(7) bo by (auto simp: n_def)
      ultimately obtain acc' sw' where
        "cksum_loop m (cb_next ?b) 0 (len - n) ?acc ?sw = Some (Returns (acc', sw'))"
        "ones_eq (unat acc') (shifted sw' (wsum ((xs @ ?bs) @ take (len - n) (drop 0 (chain_bytes m c)))))"
        using Cons.IH [OF ch(2) ok(2) at_pos_0, of ?sw "xs @ ?bs" ?acc "len - n"] acc by auto
      with step show ?thesis unfolding app by (simp only: drop_0 append_assoc) blast
    qed
  qed
qed

lemma cksum_start_at:
  assumes "chain (nexts m) p (c1 @ b # c2)" and "o1 < cb_len (m b)"
  shows "cksum_start m p (bytes_in m c1 + o1) = Some (Some b, o1)"
  using assms
proof (induction c1 arbitrary: p)
  case Nil
  then show ?case by (subst cksum_start.simps) simp
next
  case (Cons i c1)
  then have "p = Some i" and ch: "chain (nexts m) (cb_next (m i)) (c1 @ b # c2)" by (simp_all add: nexts_def)
  with Cons.IH [OF ch Cons.prems(2)] show ?case by (subst cksum_start.simps) simp
qed

lemma cksum_live:
  assumes "live (cb_mem s) c" and c: "c = c1 @ b # c2" and off: "off = bytes_in (cb_mem s) c1 + o1"
    and ev: "even o1" and o1: "o1 < cb_len (cb_mem s b)" and len: "len \<le> bytes_in (cb_mem s) c - off"
  shows "cbuf_ones_cksum16 (Some (hd c)) off len s =
           Returns (NOT (word_of_nat (ones_complement (wsum (take len (drop off (chain_bytes (cb_mem s) c)))))))"
proof -
  let ?m = "cb_mem s" and ?X = "take len (drop off (chain_bytes (cb_mem s) c))"
  have ch: "chain (nexts ?m) (Some (hd c)) c" and oks: "bufs_ok ?m c" and h: "is_head (?m (hd c))"
    using assms(1) by (auto simp: live_def whole_chain_def)
  have ch2: "chain (nexts ?m) (Some b) (b # c2)" using ch unfolding c by (auto simp: lseg_append)
  have ok: "bufs_ok ?m c1" "bufs_ok ?m (b # c2)" using oks unfolding c by simp_all
  have st: "cksum_start ?m (Some (hd c)) off = Some (Some b, o1)"
    unfolding off by (rule cksum_start_at [of ?m _ c1 b c2]) (use ch o1 in \<open>simp_all add: c\<close>)
  have pos: "at_pos ?m (b # c2) o1" using o1 by (simp add: at_pos_def)
  have l: "len \<le> bytes_in ?m (b # c2) - o1" using len by (simp add: c off bytes_in_def)
  have "chain_bytes ?m c = chain_bytes ?m c1 @ chain_bytes ?m (b # c2)" by (simp add: c chain_bytes_def)
  then have X: "?X = take len (drop o1 (chain_bytes ?m (b # c2)))" using ok(1) by (simp add: off)
  have z: "ones_eq (unat (0 :: 16 word)) (shifted False (wsum []))" by (simp add: shifted_def)
  have f: "False \<longleftrightarrow> odd (length ([] :: byte list))" by simp
  from cksum_loop_spec [OF ch2 ok(2) pos ev f z l] obtain acc sw where
    r: "cksum_loop ?m (Some b) o1 len 0 False = Some (Returns (acc, sw))"
    and a: "ones_eq (unat acc) (shifted sw (wsum ?X))" unfolding X by auto
  let ?r = "if sw then swap16 acc else acc"
  have "ones_eq (unat ?r) (wsum ?X)"
  proof (cases sw)
    case True
    have "ones_eq (unat (swap16 acc)) (256 * (256 * wsum ?X))"
      using ones_eq_trans [OF swap16_spec ones_eq_mult [OF a, of 256]] True by (simp add: shifted_def)
    then have "ones_eq (unat (swap16 acc)) (65536 * wsum ?X)" by simp
    with True ones_eq_65536 show ?thesis by (auto intro: ones_eq_trans)
  qed (use a in \<open>simp add: shifted_def\<close>)
  then have "ones_eq (unat ?r) (ones_complement (wsum ?X))"
    using ones_complement_eq by (blast intro: ones_eq_trans ones_eq_sym)
  then have "unat ?r = ones_complement (wsum ?X)"
    by (rule ones_eq_unique) (use unsigned_less [of ?r] ones_complement_less in simp_all)
  then have "?r = word_of_nat (ones_complement (wsum ?X))" using word_unat_eq_iff [of ?r "word_of_nat (ones_complement (wsum ?X))"] ones_complement_less [of "wsum ?X"]
    by (simp add: unsigned_of_nat take_bit_nat_eq_self)
  with h st r show ?thesis
    by (simp add: cbuf_ones_cksum16_def looped_def looped_outcome_def)
qed

section \<open>Lengths and pointers\<close>

lemma get_len_live: "live (cb_mem s) c \<Longrightarrow> cbuf_get_len (Some (hd c)) s = Returns (bytes_in (cb_mem s) c)"
  by (simp add: cbuf_get_len_def live_def whole_chain_def)

lemma get_ptr_loop_spec:
  assumes "chain (nexts m) p c"
  shows "off < bytes_in m c \<Longrightarrow>
           \<exists>c1 i c2 bo. c = c1 @ i # c2 \<and> off = bytes_in m c1 + bo \<and> bo < cb_len (m i) \<and>
             get_ptr_loop m p off = Some (Some (i, cb_data (m i) + bo))"
    and "bytes_in m c \<le> off \<Longrightarrow> get_ptr_loop m p off = Some None"
  using assms
proof (induction c arbitrary: p off)
  case Nil
  { case 1
    then show ?case by simp
  next
    case 2
    then show ?case by (subst get_ptr_loop.simps) simp }
next
  case (Cons i c)
  { case 1
    note ch = chain_Cons [OF 1(2)]
    show ?case
    proof (cases "off < cb_len (m i)")
      case True
      then have "get_ptr_loop m p off = Some (Some (i, cb_data (m i) + off))"
        using ch(1) by (subst get_ptr_loop.simps) simp
      with True show ?thesis by (intro exI [of _ "[]"] exI [of _ i] exI [of _ c] exI [of _ off]) simp
    next
      case False
      have step: "get_ptr_loop m p off = get_ptr_loop m (cb_next (m i)) (off - cb_len (m i))"
        using ch(1) False by (subst get_ptr_loop.simps) simp
      have "off - cb_len (m i) < bytes_in m c" using 1(1) False by simp
      from Cons.IH(1) [OF this ch(2)] obtain c1 j c2 bo where "c = c1 @ j # c2"
        "off - cb_len (m i) = bytes_in m c1 + bo" "bo < cb_len (m j)"
        "get_ptr_loop m (cb_next (m i)) (off - cb_len (m i)) = Some (Some (j, cb_data (m j) + bo))" by blast
      with step False show ?thesis
        by (intro exI [of _ "i # c1"] exI [of _ j] exI [of _ c2] exI [of _ bo]) simp
    qed
  next
    case 2
    note ch = chain_Cons [OF 2(2)]
    have "get_ptr_loop m p off = get_ptr_loop m (cb_next (m i)) (off - cb_len (m i))"
      using ch(1) 2(1) by (subst get_ptr_loop.simps) simp
    with Cons.IH(2) [OF _ ch(2), of "off - cb_len (m i)"] 2(1) show ?case by simp }
qed

section \<open>Properties\<close>

lemma not_fits:
  assumes "live (cb_mem s) c" and "bytes_in (cb_mem s) c < off + len" and "off + len < 2 ^ 32"
  shows "cb_total_len (cb_mem s (hd c)) < u32_add len off" and "is_head (cb_mem s (hd c))"
  using assms by (simp_all add: live_def whole_chain_def add.commute)

text \<open>
  (C8) A copy into a live chain either lies inside it, and then it replaces exactly the bytes
  from the offset on, in whatever buffers they lie, and reading the same range gives the bytes
  back; or it does not, and is refused with \<open>ERR_INVALID_ARGS\<close> and changes nothing. No other
  chain, no length and no free list changes.
\<close>

theorem cbuf_copy_roundtrip:
  assumes "cb_rep s F N cs k" and "c \<in> set cs" and "whole_chain (cb_mem s) c"
    and "off + length src < 2 ^ 32"
  shows "if off + length src \<le> bytes_in (cb_mem s) c then
           \<exists>s'. cbuf_memcpy_to_chain (hd c) off src s = Returns (B_NO_ERROR, s') \<and>
             cb_rep s' F N cs k \<and> whole_chain (cb_mem s') c \<and>
             chain_bytes (cb_mem s') c = splice_at off src (chain_bytes (cb_mem s) c) \<and>
             (\<forall>i. i \<notin> set c \<longrightarrow> cb_mem s' i = cb_mem s i) \<and>
             cbuf_memcpy_from_chain (hd c) off (length src) s' = Returns (B_NO_ERROR, src)
         else cbuf_memcpy_to_chain (hd c) off src s = Returns (ERR_INVALID_ARGS, s) \<and>
              cbuf_memcpy_from_chain (hd c) off (length src) s = Returns (ERR_INVALID_ARGS, [])"
proof -
  have live: "live (cb_mem s) c" by (rule live_rep [OF assms(1-3)])
  show ?thesis
  proof (cases "off + length src \<le> bytes_in (cb_mem s) c")
    case False
    then have "bytes_in (cb_mem s) c < off + length src" by simp
    from not_fits [OF live this assms(4)] False show ?thesis
      by (simp add: cbuf_memcpy_to_chain_def cbuf_memcpy_from_chain_def)
  next
    case True
    from memcpy_to_chain_live [OF live True rep_small [OF assms(1,2)]] obtain m where
      r: "cbuf_memcpy_to_chain (hd c) off src s = Returns (B_NO_ERROR, s\<lparr>cb_mem := m\<rparr>)"
      and b: "chain_bytes m c = splice_at off src (chain_bytes (cb_mem s) c)"
      and d: "dat_only c (cb_mem s) m" by blast
    let ?s = "s\<lparr>cb_mem := m\<rparr>"
    have live': "live (cb_mem ?s) c" using dat_only_live [OF d live] by simp
    have bi: "bytes_in m c = bytes_in (cb_mem s) c" by (rule dat_only_fields(7) [OF d])
    have "cbuf_memcpy_from_chain (hd c) off (length src) ?s =
        Returns (B_NO_ERROR, take (length src) (drop off (chain_bytes m c)))"
      using memcpy_from_chain_live(1) [OF live', of off "length src"] True bi rep_small [OF assms(1,2)] by simp
    moreover have "off \<le> length (chain_bytes (cb_mem s) c)" using True live by (simp add: live_def)
    then have "take (length src) (drop off (chain_bytes m c)) = src"
      unfolding b by (simp add: splice_at_def)
    ultimately show ?thesis
      using True r b d dat_only_rep [OF assms(1,2) d] live' by (auto simp: live_def dat_only_def)
  qed
qed

lemma booted_chain:
  assumes "0 < len" and "len \<le> 100000"
  shows "\<exists>s c k F. cb_rep s F [0..<32] [c] k \<and> \<not> cb_sem_held s \<and> whole_chain (cb_mem s) c \<and>
           bytes_in (cb_mem s) c = len \<and> CBUF_DAT * (length c - 1) < len \<and> 1000 \<le> length F + 32 * (63 - k)"
proof -
  from cbuf_init_rep [of 3 4 5] obtain s where s: "cb_rep s [32..<64] [0..<32] [] 2" "\<not> cb_sem_held s" by auto
  from get_chain_rep [OF s assms(1)] assms(2) obtain c s1 F k where
    r: "cb_rep s1 F [0..<32] [c] k" "\<not> cb_sem_held s1" "whole_chain (cb_mem s1) c" "bytes_in (cb_mem s1) c = len"
    and "CBUF_DAT * (length c - 1) < len" and "length F + length c + 32 * (63 - k) = 32 + 32 * 61"
    by (auto simp: CBUF_DAT_eq)
  moreover from this assms(2) have "1000 \<le> length F + 32 * (63 - k)" unfolding CBUF_DAT_eq by linarith
  ultimately show ?thesis by blast
qed

theorem cbuf_copy_roundtrip_witness:
  "\<exists>s c s'. cbuf_memcpy_to_chain (hd c) 2020 (replicate 3000 7) s = Returns (B_NO_ERROR, s') \<and>
     cbuf_memcpy_from_chain (hd c) 2020 3000 s' = Returns (B_NO_ERROR, replicate 3000 7) \<and>
     cbuf_memcpy_to_chain (hd c) 5020 [1] s = Returns (ERR_INVALID_ARGS, s)"
proof -
  from booted_chain [of 5020] obtain s c k F where r: "cb_rep s F [0..<32] [c] k"
    "whole_chain (cb_mem s) c" "bytes_in (cb_mem s) c = 5020" by auto
  have c: "c \<in> set [c]" by simp
  from cbuf_copy_roundtrip [OF r(1) c r(2), of 2020 "replicate 3000 7"] r(3)
  have "\<exists>s'. cbuf_memcpy_to_chain (hd c) 2020 (replicate 3000 7) s = Returns (B_NO_ERROR, s') \<and>
      cbuf_memcpy_from_chain (hd c) 2020 3000 s' = Returns (B_NO_ERROR, replicate 3000 7)"
    by (simp only: length_replicate) auto
  moreover from cbuf_copy_roundtrip [OF r(1) c r(2), of 5020 "[1]"] r(3)
  have "cbuf_memcpy_to_chain (hd c) 5020 [1] s = Returns (ERR_INVALID_ARGS, s)" by simp
  ultimately show ?thesis by blast
qed

lemma user_copy_pieces:
  assumes "cb_rep s F N cs k" and "c \<in> set cs" and "whole_chain (cb_mem s) c"
    and "0 < len" and "off + len \<le> bytes_in (cb_mem s) c"
  shows "\<exists>s'. cbuf_user_memcpy_to_chain um (hd c) off src len s = Returns (if mapped um src len then 0 else 1, s') \<and>
           cb_rep s' F N cs k \<and> whole_chain (cb_mem s') c \<and>
           (mapped um src len \<longrightarrow>
              chain_bytes (cb_mem s') c = splice_at off (ubytes um src len) (chain_bytes (cb_mem s) c)) \<and>
           (\<forall>i. i \<notin> set c \<longrightarrow> cb_mem s' i = cb_mem s i)"
    and "\<exists>um'. cbuf_user_memcpy_from_chain dest (hd c) off len s um =
           Returns (if mapped um dest len then 0 else 1, um') \<and>
           snd (user_memcpy_out um dest (take len (drop off (chain_bytes (cb_mem s) c)))) = um' \<and>
           (mapped um dest len \<longrightarrow> ubytes um' dest len = take len (drop off (chain_bytes (cb_mem s) c)))"
proof -
  note live = live_rep [OF assms(1-3)] and small = rep_small [OF assms(1,2)]
  from user_memcpy_to_chain_live [OF live assms(5) small, of um src] obtain m where
    "cbuf_user_memcpy_to_chain um (hd c) off src len s = Returns (if mapped um src len then 0 else 1, s\<lparr>cb_mem := m\<rparr>)"
    "mapped um src len \<longrightarrow> chain_bytes m c = splice_at off (ubytes um src len) (chain_bytes (cb_mem s) c)"
    and d: "dat_only c (cb_mem s) m" by blast
  then show "\<exists>s'. cbuf_user_memcpy_to_chain um (hd c) off src len s = Returns (if mapped um src len then 0 else 1, s') \<and>
      cb_rep s' F N cs k \<and> whole_chain (cb_mem s') c \<and>
      (mapped um src len \<longrightarrow>
         chain_bytes (cb_mem s') c = splice_at off (ubytes um src len) (chain_bytes (cb_mem s) c)) \<and>
      (\<forall>i. i \<notin> set c \<longrightarrow> cb_mem s' i = cb_mem s i)"
    using dat_only_rep [OF assms(1,2) d] dat_only_fields(8) [OF d] assms(3)
    by (intro exI [of _ "s\<lparr>cb_mem := m\<rparr>"]) (simp add: dat_only_def)
  let ?bs = "take len (drop off (chain_bytes (cb_mem s) c))"
  have lb: "length ?bs = len" using assms(5) live by (simp add: live_def)
  have out: "cbuf_user_memcpy_from_chain dest (hd c) off len s um = Returns
      (case user_memcpy_out um dest ?bs of (rc, um') \<Rightarrow> (if rc < 0 then 1 else 0, um'))"
    by (rule memcpy_from_chain_live(2) [OF live assms(5) small assms(4)])
  show "\<exists>um'. cbuf_user_memcpy_from_chain dest (hd c) off len s um =
      Returns (if mapped um dest len then 0 else 1, um') \<and>
      snd (user_memcpy_out um dest ?bs) = um' \<and>
      (mapped um dest len \<longrightarrow> ubytes um' dest len = ?bs)"
  proof (cases "mapped um dest len")
    case True
    with user_memcpy_out_ok [of um dest ?bs] out lb show ?thesis by auto
  next
    case False
    then have "fst (user_memcpy_out um dest ?bs) = ERR_VM_BAD_USER_MEMORY"
      using user_memcpy_out_fault [of um dest ?bs] lb by simp
    with out False show ?thesis by (auto simp: ERR_VM_BAD_USER_MEMORY_def split: prod.splits)
  qed
qed

text \<open>
  The copies between a live chain and user memory. A copy in succeeds when every address
  of the source is mapped, and then the bytes are those of a kernel copy; otherwise it returns 1.
  A copy out returns 0 or 1 with the user memory that \<open>user_memcpy\<close> would leave for the same
  bytes in one piece. A fault is never reported as a negative code, which is what the callers in
  \<open>port.c\<close> test for.
\<close>

theorem cbuf_user_copy_correct:
  assumes "cb_rep s F N cs k" and "c \<in> set cs" and "whole_chain (cb_mem s) c"
    and "0 < len" and "off + len \<le> bytes_in (cb_mem s) c"
  shows "(\<exists>s'. cbuf_user_memcpy_to_chain um (hd c) off src len s = Returns (if mapped um src len then 0 else 1, s') \<and>
           cb_rep s' F N cs k \<and> whole_chain (cb_mem s') c \<and>
           (mapped um src len \<longrightarrow>
              chain_bytes (cb_mem s') c = splice_at off (ubytes um src len) (chain_bytes (cb_mem s) c)) \<and>
           (\<forall>i. i \<notin> set c \<longrightarrow> cb_mem s' i = cb_mem s i)) \<and>
    (\<exists>um'. cbuf_user_memcpy_from_chain dest (hd c) off len s um =
           Returns (if mapped um dest len then 0 else 1, um') \<and>
           snd (user_memcpy_out um dest (take len (drop off (chain_bytes (cb_mem s) c)))) = um' \<and>
           (mapped um dest len \<longrightarrow> ubytes um' dest len = take len (drop off (chain_bytes (cb_mem s) c))))"
  by (intro conjI) (rule user_copy_pieces [OF assms])+

theorem cbuf_user_copy_correct_witness:
  "\<exists>s c s' um'. cbuf_user_memcpy_to_chain (\<lambda>a. if a < 4096 then Some 7 else None) (hd c) 10 90 5 s = Returns (0, s') \<and>
     cbuf_user_memcpy_from_chain 4090 (hd c) 10 50 s (\<lambda>a. if a < 4096 then Some 7 else None) = Returns (1, um')"
proof -
  let ?um = "\<lambda>a. if a < 4096 then Some 7 else None"
  from booted_chain [of 5020] obtain s c k F where r: "cb_rep s F [0..<32] [c] k"
    "whole_chain (cb_mem s) c" "bytes_in (cb_mem s) c = 5020" by auto
  have c: "c \<in> set [c]" by simp
  have m: "mapped ?um 90 5" "\<not> mapped ?um 4090 50" by (auto simp: mapped_def intro: exI [of _ 40])
  from cbuf_user_copy_correct [THEN conjunct1, OF r(1) c r(2), of 5 10 ?um 90] r(3) m(1)
  have "\<exists>s'. cbuf_user_memcpy_to_chain ?um (hd c) 10 90 5 s = Returns (0, s')" by auto
  moreover from cbuf_user_copy_correct [THEN conjunct2, OF r(1) c r(2), of 50 10 4090 ?um] r(3) m(2)
  have "\<exists>um'. cbuf_user_memcpy_from_chain 4090 (hd c) 10 50 s ?um = Returns (1, um')" by auto
  ultimately show ?thesis by blast
qed

lemma truncate_pieces:
  assumes "cb_rep s F N cs k" and "c \<in> set cs" and "whole_chain (cb_mem s) c"
  shows "\<exists>s'. cbuf_truncate_head (Some (hd c)) n s = Returns (0, s') \<and>
           cb_rep s' F N cs k \<and> whole_chain (cb_mem s') c \<and>
           chain_bytes (cb_mem s') c = drop n (chain_bytes (cb_mem s) c) \<and>
           (\<forall>d \<in> set cs. d \<noteq> c \<longrightarrow> chain_bytes (cb_mem s') d = chain_bytes (cb_mem s) d)"
    and "if 0 < n \<and> n \<le> bytes_in (cb_mem s) c then
           \<exists>s'. cbuf_truncate_tail (Some (hd c)) n s = Returns (B_NO_ERROR, s') \<and>
             cb_rep s' F N cs k \<and> whole_chain (cb_mem s') c \<and>
             chain_bytes (cb_mem s') c = take (bytes_in (cb_mem s) c - n) (chain_bytes (cb_mem s) c) \<and>
             (\<forall>d \<in> set cs. d \<noteq> c \<longrightarrow> chain_bytes (cb_mem s') d = chain_bytes (cb_mem s) d)
         else (n < 2 ^ 32 \<and> (\<forall>i \<in> set c. 0 < cb_len (cb_mem s i)) \<longrightarrow>
                 cbuf_truncate_tail (Some (hd c)) n s = Returns (ERR_GENERAL, s))"
proof -
  note live = live_rep [OF assms] and small = rep_small [OF assms(1,2)]
  have ne: "hd c \<in> set c" using assms(3) by (simp add: whole_chain_def)
  have others: "chain_bytes m d = chain_bytes (cb_mem s) d"
    if "cut_only c (hd c) (cb_mem s) m" "d \<in> set cs" "d \<noteq> c" for m d
    by (rule chain_bytes_cong) (rule cut_only_rep(2) [OF assms(1,2) that(1) ne that(2,3)])
  from truncate_head_live [OF live, of n] obtain m where
    "cbuf_truncate_head (Some (hd c)) n s = Returns (0, s\<lparr>cb_mem := m\<rparr>)"
    and cut: "cut_only c (hd c) (cb_mem s) m" and "live m c"
    and "chain_bytes m c = drop n (chain_bytes (cb_mem s) c)" by blast
  then show "\<exists>s'. cbuf_truncate_head (Some (hd c)) n s = Returns (0, s') \<and>
      cb_rep s' F N cs k \<and> whole_chain (cb_mem s') c \<and>
      chain_bytes (cb_mem s') c = drop n (chain_bytes (cb_mem s) c) \<and>
      (\<forall>d \<in> set cs. d \<noteq> c \<longrightarrow> chain_bytes (cb_mem s') d = chain_bytes (cb_mem s) d)"
    using cut_only_rep(1) [OF assms(1,2) cut ne] others [OF cut]
    by (intro exI [of _ "s\<lparr>cb_mem := m\<rparr>"]) (simp add: live_def)
  show "if 0 < n \<and> n \<le> bytes_in (cb_mem s) c then
      \<exists>s'. cbuf_truncate_tail (Some (hd c)) n s = Returns (B_NO_ERROR, s') \<and>
        cb_rep s' F N cs k \<and> whole_chain (cb_mem s') c \<and>
        chain_bytes (cb_mem s') c = take (bytes_in (cb_mem s) c - n) (chain_bytes (cb_mem s) c) \<and>
        (\<forall>d \<in> set cs. d \<noteq> c \<longrightarrow> chain_bytes (cb_mem s') d = chain_bytes (cb_mem s) d)
    else (n < 2 ^ 32 \<and> (\<forall>i \<in> set c. 0 < cb_len (cb_mem s i)) \<longrightarrow>
            cbuf_truncate_tail (Some (hd c)) n s = Returns (ERR_GENERAL, s))"
  proof (cases "0 < n \<and> n \<le> bytes_in (cb_mem s) c")
    case True
    then obtain m where "cbuf_truncate_tail (Some (hd c)) n s = Returns (B_NO_ERROR, s\<lparr>cb_mem := m\<rparr>)"
      and cut: "cut_only c (hd c) (cb_mem s) m" and "live m c"
      and "chain_bytes m c = take (bytes_in (cb_mem s) c - n) (chain_bytes (cb_mem s) c)"
      using truncate_tail_live [OF live, of n] by blast
    with True show ?thesis
      using cut_only_rep(1) [OF assms(1,2) cut ne] others [OF cut]
      by (intro if_P [THEN iffD2] exI [of _ "s\<lparr>cb_mem := m\<rparr>"]) (simp_all add: live_def)
  next
    case False
    have ch: "chain (nexts (cb_mem s)) (Some (hd c)) c" and h: "is_head (cb_mem s (hd c))"
      and t: "cb_total_len (cb_mem s (hd c)) = bytes_in (cb_mem s) c" and "c \<noteq> []"
      using live by (auto simp: live_def whole_chain_def)
    have "cbuf_truncate_tail (Some (hd c)) n s = Returns (ERR_GENERAL, s)"
      if n: "n < 2 ^ 32" and pos: "\<forall>i \<in> set c. 0 < cb_len (cb_mem s i)"
    proof -
      let ?off = "u32_sub (bytes_in (cb_mem s) c) n"
      have "0 < bytes_in (cb_mem s) c" using pos \<open>c \<noteq> []\<close> by (cases c) auto
      then have "bytes_in (cb_mem s) c < ?off \<or> bytes_in (cb_mem s) c = ?off \<and> 0 < ?off \<and>
          (\<forall>i \<in> set c. 0 < cb_len (cb_mem s i))"
        using False n pos by (auto simp: u32_sub_def)
      from trunc_seek_spec(2) [OF ch this] h t show ?thesis
        by (simp add: cbuf_truncate_tail_def looped_def)
    qed
    then show ?thesis unfolding if_not_P [OF False] by blast
  qed
qed

text \<open>
  Cutting bytes off a live chain: \<open>cbuf_truncate_head\<close> drops them from the front (all of
  them when there are fewer), \<open>cbuf_truncate_tail\<close> from the end, the total stays the sum of the
  lengths, and no buffer leaves the chain. Cutting more from the end than there is, or cutting
  zero bytes from the end of a chain without empty buffers, is refused with \<open>ERR_GENERAL\<close>.
\<close>

theorem cbuf_truncate_correct:
  assumes "cb_rep s F N cs k" and "c \<in> set cs" and "whole_chain (cb_mem s) c"
  shows "(\<exists>s'. cbuf_truncate_head (Some (hd c)) n s = Returns (0, s') \<and>
           cb_rep s' F N cs k \<and> whole_chain (cb_mem s') c \<and>
           chain_bytes (cb_mem s') c = drop n (chain_bytes (cb_mem s) c) \<and>
           (\<forall>d \<in> set cs. d \<noteq> c \<longrightarrow> chain_bytes (cb_mem s') d = chain_bytes (cb_mem s) d)) \<and>
    (if 0 < n \<and> n \<le> bytes_in (cb_mem s) c then
           \<exists>s'. cbuf_truncate_tail (Some (hd c)) n s = Returns (B_NO_ERROR, s') \<and>
             cb_rep s' F N cs k \<and> whole_chain (cb_mem s') c \<and>
             chain_bytes (cb_mem s') c = take (bytes_in (cb_mem s) c - n) (chain_bytes (cb_mem s) c) \<and>
             (\<forall>d \<in> set cs. d \<noteq> c \<longrightarrow> chain_bytes (cb_mem s') d = chain_bytes (cb_mem s) d)
         else (n < 2 ^ 32 \<and> (\<forall>i \<in> set c. 0 < cb_len (cb_mem s i)) \<longrightarrow>
                 cbuf_truncate_tail (Some (hd c)) n s = Returns (ERR_GENERAL, s)))"
  by (intro conjI) (rule truncate_pieces [OF assms])+

theorem cbuf_truncate_correct_witness:
  "\<exists>s c s1 s2. cbuf_truncate_head (Some (hd c)) 3000 s = Returns (0, s1) \<and> bytes_in (cb_mem s1) c = 2020 \<and>
     cbuf_truncate_tail (Some (hd c)) 5000 s = Returns (B_NO_ERROR, s2) \<and> bytes_in (cb_mem s2) c = 20"
proof -
  from booted_chain [of 5020] obtain s c k F where r: "cb_rep s F [0..<32] [c] k"
    "whole_chain (cb_mem s) c" "bytes_in (cb_mem s) c = 5020" by auto
  have c: "c \<in> set [c]" by simp
  have ok: "bufs_ok (cb_mem t) c" if "cb_rep t F [0..<32] [c] k" for t
    using that by (simp add: cb_rep_def bufs_ok_def)
  have len: "length (chain_bytes (cb_mem s) c) = 5020" using ok [OF r(1)] r(3) by simp
  from cbuf_truncate_correct [THEN conjunct1, OF r(1) c r(2), of 3000] obtain s1 where
    s1: "cbuf_truncate_head (Some (hd c)) 3000 s = Returns (0, s1)" "cb_rep s1 F [0..<32] [c] k"
    "chain_bytes (cb_mem s1) c = drop 3000 (chain_bytes (cb_mem s) c)" by blast
  from cbuf_truncate_correct [THEN conjunct2, OF r(1) c r(2), of 5000] r(3) obtain s2 where
    s2: "cbuf_truncate_tail (Some (hd c)) 5000 s = Returns (B_NO_ERROR, s2)" "cb_rep s2 F [0..<32] [c] k"
    "chain_bytes (cb_mem s2) c = take 20 (chain_bytes (cb_mem s) c)" by auto
  have "bytes_in (cb_mem s1) c = 2020" using length_chain_bytes [OF ok [OF s1(2)]] s1(3) len by simp
  moreover have "bytes_in (cb_mem s2) c = 20" using length_chain_bytes [OF ok [OF s2(2)]] s2(3) len by simp
  ultimately show ?thesis using s1(1) s2(1) by blast
qed

text \<open>
  Merging two live chains of the region gives one live chain with the bytes of the first
  followed by those of the second and their total; no buffer is copied, lost or shared, and
  nothing outside the two chains changes.
\<close>

theorem cbuf_merge_chains_correct:
  assumes "cb_rep s F N (c # d # cs) k" and "whole_chain (cb_mem s) c" and "whole_chain (cb_mem s) d"
  shows "\<exists>s'. cbuf_merge_chains (Some (hd c)) (Some (hd d)) s = Returns (Some (hd c), s') \<and>
              cb_rep s' F N ((c @ d) # cs) k \<and> cb_sem_held s' = cb_sem_held s \<and>
              whole_chain (cb_mem s') (c @ d) \<and>
              chain_bytes (cb_mem s') (c @ d) = chain_bytes (cb_mem s) c @ chain_bytes (cb_mem s) d \<and>
              (\<forall>i. i \<notin> set c \<union> set d \<longrightarrow> cb_mem s' i = cb_mem s i)"
  using assms by (rule merge_rep)

theorem cbuf_merge_chains_correct_witness:
  "\<exists>s c d s'. bytes_in (cb_mem s) c = 5020 \<and> bytes_in (cb_mem s) d = 32 \<and>
     cbuf_merge_chains (Some (hd c)) (Some (hd d)) s = Returns (Some (hd c), s') \<and>
     cb_total_len (cb_mem s' (hd c)) = 5052"
proof -
  from booted_chain [of 5020] obtain s0 d k F where r: "cb_rep s0 F [0..<32] [d] k" "\<not> cb_sem_held s0"
    "whole_chain (cb_mem s0) d" "bytes_in (cb_mem s0) d = 5020" "1000 \<le> length F + 32 * (63 - k)" by auto
  from get_chain_rep [OF r(1,2), of 32] r(5) obtain c s F1 k1 where
    q: "cb_rep s F1 [0..<32] [c, d] k1" "whole_chain (cb_mem s) c" "bytes_in (cb_mem s) c = 32"
    and same: "\<forall>i \<in> set d. cb_mem s i = cb_mem s0 i" by (auto simp: CBUF_DAT_eq)
  have w: "whole_chain (cb_mem s) d" "bytes_in (cb_mem s) d = 5020"
    using r(3,4) whole_chain_cong [of d "cb_mem s" "cb_mem s0"] bytes_in_cong [of d "cb_mem s" "cb_mem s0"] same
    by simp_all
  have p: "cb_rep s F1 [0..<32] [d, c] k1" by (rule cb_rep_perm [OF q(1)]) simp
  from cbuf_merge_chains_correct [OF p w(1) q(2)] obtain s' where
    m: "cbuf_merge_chains (Some (hd d)) (Some (hd c)) s = Returns (Some (hd d), s')"
    "cb_rep s' F1 [0..<32] [d @ c] k1" "whole_chain (cb_mem s') (d @ c)"
    "chain_bytes (cb_mem s') (d @ c) = chain_bytes (cb_mem s) d @ chain_bytes (cb_mem s) c" by blast
  have ok: "bufs_ok (cb_mem s) (d @ c)" "bufs_ok (cb_mem s') (d @ c)"
    using p m(2) by (simp_all add: cb_rep_def bufs_ok_def)
  have "bytes_in (cb_mem s') (d @ c) = 5052"
    using length_chain_bytes [OF ok(2)] ok(1) w(2) q(3) unfolding m(4) by simp
  moreover have "hd (d @ c) = hd d" using w(1) by (simp add: whole_chain_def)
  ultimately have "cb_total_len (cb_mem s' (hd d)) = 5052" using m(3) by (simp only: whole_chain_def)
  with m(1) w(2) q(3) show ?thesis by blast
qed

text \<open>
  Duplicating a range of a live chain gives a new live chain with exactly the bytes of the
  range (cut at the end of the source), made of free buffers, whenever the region has room for
  them; the source and all other chains keep their contents.
\<close>

theorem cbuf_duplicate_chain_correct:
  assumes "cb_rep s F N cs k" and "c \<in> set cs" and "whole_chain (cb_mem s) c" and "\<not> cb_sem_held s"
    and "off < bytes_in (cb_mem s) c" and "0 < len"
    and "min len (bytes_in (cb_mem s) c - off) \<le> CBUF_DAT * (length F + 32 * (63 - k))"
  shows "\<exists>e s' F' k'. cbuf_duplicate_chain (Some (hd c)) off len s = Returns (Some (hd e), s') \<and>
           cb_rep s' F' N (e # cs) k' \<and> \<not> cb_sem_held s' \<and> whole_chain (cb_mem s') e \<and>
           chain_bytes (cb_mem s') e = take len (drop off (chain_bytes (cb_mem s) c)) \<and>
           (\<forall>d \<in> set cs. \<forall>i \<in> set d. cb_mem s' i = cb_mem s i)"
  using assms by (rule duplicate_rep)

theorem cbuf_duplicate_chain_correct_witness:
  "\<exists>s c e s'. cbuf_duplicate_chain (Some (hd c)) 1000 9000 s = Returns (Some (hd e), s') \<and>
     chain_bytes (cb_mem s') e = drop 1000 (chain_bytes (cb_mem s) c) \<and> bytes_in (cb_mem s) c = 5020"
proof -
  from booted_chain [of 5020] obtain s c k F where r: "cb_rep s F [0..<32] [c] k" "\<not> cb_sem_held s"
    "whole_chain (cb_mem s) c" "bytes_in (cb_mem s) c = 5020" "1000 \<le> length F + 32 * (63 - k)" by auto
  have c: "c \<in> set [c]" by simp
  have "bufs_ok (cb_mem s) c" using r(1) by (simp add: cb_rep_def bufs_ok_def)
  then have "length (chain_bytes (cb_mem s) c) = 5020" using r(4) by simp
  with cbuf_duplicate_chain_correct [OF r(1) c r(3,2), of 1000 9000] r(4,5) show ?thesis
    by (auto simp: CBUF_DAT_eq)
qed

text \<open>
  (C10) The checksum over the scattered buffers of a live chain, with its byte swaps at odd
  boundaries, is the Internet checksum of the bytes: the complement of the ones complement sum
  of their 16-bit words, the low byte first and an odd last byte padded with zero. The range
  may start in any buffer, at an even offset within that buffer, and must lie in the chain.
\<close>

theorem cbuf_ones_cksum16_correct:
  assumes "cb_rep s F N cs k" and "c1 @ b # c2 \<in> set cs" and "whole_chain (cb_mem s) (c1 @ b # c2)"
    and "off = bytes_in (cb_mem s) c1 + o1" and "even o1" and "o1 < cb_len (cb_mem s b)"
    and "len \<le> bytes_in (cb_mem s) (c1 @ b # c2) - off"
  shows "cbuf_ones_cksum16 (Some (hd (c1 @ b # c2))) off len s =
           Returns (NOT (word_of_nat (ones_complement (wsum (take len (drop off (chain_bytes (cb_mem s) (c1 @ b # c2))))))))"
  using live_rep [OF assms(1-3)] refl assms(4-7) by (rule cksum_live)

theorem cbuf_ones_cksum16_correct_witness:
  "\<exists>s c. bytes_in (cb_mem s) c = 7 \<and>
     cbuf_ones_cksum16 (Some (hd c)) 0 5 s =
       Returns (NOT (word_of_nat (ones_complement (wsum (take 5 (chain_bytes (cb_mem s) c))))))"
proof -
  from booted_chain [of 7] obtain s c k F where r: "cb_rep s F [0..<32] [c] k"
    "whole_chain (cb_mem s) c" "bytes_in (cb_mem s) c = 7" "CBUF_DAT * (length c - 1) < 7" by auto
  from r(4) have "length c - 1 = 0" unfolding CBUF_DAT_eq by simp
  moreover have "c \<noteq> []" using r(2) by (simp add: whole_chain_def)
  ultimately obtain b where c: "c = [] @ b # []" by (cases c) auto
  have "[] @ b # [] \<in> set [c]" using c by simp
  from cbuf_ones_cksum16_correct [OF r(1) this, of 0 0 5] r(2,3) show ?thesis
    unfolding c by (intro exI [of _ s] exI [of _ "[] @ b # []"]) (auto simp: bytes_in_def)
qed

definition odd_mem :: cmem where
  "odd_mem = (\<lambda>i. if i = 0
     then \<lparr>cb_next = Some 1, cb_len = 3, cb_total_len = 5, cb_data = 0, cb_flags = CHAIN_HEAD, cb_dat = [1, 2, 3]\<rparr>
     else \<lparr>cb_next = None, cb_len = 2, cb_total_len = 0, cb_data = 0, cb_flags = CHAIN_TAIL, cb_dat = [4, 5]\<rparr>)"

definition odd_state :: cbufst where
  "odd_state = \<lparr>cb_mem = odd_mem, cb_bitmap = (\<lambda>i. i < 2), cb_free = None, cb_noblock = None, cb_sem_held = False\<rparr>"

text \<open>
  From an odd offset the swaps go wrong as soon as the range spans two buffers: the bytes
  1, 2, 3 in one buffer and 4, 5 in the next, from offset 1 on, have another checksum than the
  bytes 2, 3, 4, 5 in one piece.
\<close>

theorem cbuf_ones_cksum16_odd_offset:
  "chain_bytes (cb_mem odd_state) [0, 1] = [1, 2, 3, 4, 5] \<and>
   (\<exists>x. cbuf_ones_cksum16 (Some 0) 1 4 odd_state = Returns x \<and> x \<noteq> cksum16 [2, 3, 4, 5])"
proof -
  have w: "word16_at 2 3 = 0x302" "word16_at 4 5 = 0x504" by (simp_all add: word16_at_def)
  have f: "fold_all x = x" if "drop_bit 16 x = 0" for x using that fold_all.simps [of x] by simp
  have sums: "ones_sum16 0 [2, 3] = 0x302" "ones_sum16 0x203 [4, 5] = 0x707" "ones_sum16 0 [2, 3, 4, 5] = 0x806"
    by (simp_all add: ones_sum16_def Let_def w f)
  have sw: "swap16 0x302 = 0x203" "swap16 0x707 = 0x707" by (simp_all add: swap16_def)
  have st: "cksum_start odd_mem (Some 0) 1 = Some (Some 0, 1)"
    by (subst cksum_start.simps) (simp add: odd_mem_def)
  have l2: "cksum_loop odd_mem (Some 1) 0 2 0x203 True = Some (Returns (0x707, True))"
    by (subst cksum_loop.simps, subst cksum_loop.simps)
      (simp add: odd_mem_def Let_def get_bytes_def sums CBUF_DAT_eq)
  have l1: "cksum_loop odd_mem (Some 0) 1 4 0 False = Some (Returns (0x707, True))"
  proof -
    have m0: "odd_mem 0 = \<lparr>cb_next = Some 1, cb_len = 3, cb_total_len = 5, cb_data = 0,
        cb_flags = CHAIN_HEAD, cb_dat = [1, 2, 3]\<rparr>" by (simp add: odd_mem_def)
    show ?thesis
      by (subst cksum_loop.simps) (use l2 in \<open>simp add: m0 Let_def get_bytes_def sums sw CBUF_DAT_eq\<close>)
  qed
  have "is_head (odd_mem 0)" by (simp add: odd_mem_def is_head_def)
  then have "cbuf_ones_cksum16 (Some 0) 1 4 odd_state = Returns (NOT 0x707)"
    by (simp add: cbuf_ones_cksum16_def odd_state_def st [unfolded One_nat_def] l1 [unfolded One_nat_def] looped_def looped_outcome_def sw)
  moreover have "cksum16 [2, 3, 4, 5] = NOT 0x806" by (simp only: cksum16_def sums)
  moreover have "chain_bytes (cb_mem odd_state) [0, 1] = [1, 2, 3, 4, 5]"
    by (simp add: odd_state_def odd_mem_def chain_bytes_def window_def)
  ultimately show ?thesis by simp
qed

end
