(* ===== verification/Timer.thy ===== *)
theory Timer
  imports Prelude
begin

text \<open>
  The timer queues of \<open>timer.c\<close>. Every CPU has a list of pending events, linked through
  \<open>next\<close> and sorted by the time they are due; the hardware timer of a CPU is armed for the
  head of its list. \<open>timer_interrupt\<close> runs the callbacks that are due. The clock is an
  argument: \<open>clock n\<close> is the answer to the \<open>n\<close>-th call of \<open>system_time\<close>.
\<close>

section \<open>State\<close>

datatype timer_mode = TIMER_MODE_ONESHOT | TIMER_MODE_PERIODIC

record timer_event =
  te_next :: "nat ptr"
  te_mode :: timer_mode
  te_sched_time :: int
  te_periodic_time :: int
  te_func :: "nat ptr"
  te_data :: nat

record 'w timers =
  tm_event :: "nat \<Rightarrow> timer_event"
  tm_events :: "nat \<Rightarrow> nat ptr"
  tm_locked :: "nat \<Rightarrow> bool"
  tm_hardware :: "nat \<Rightarrow> int option"
  tm_curr_cpu :: nat
  tm_num_cpus :: nat
  tm_reads :: nat
  tm_world :: 'w

definition INT_NO_RESCHEDULE :: int where
  "INT_NO_RESCHEDULE = 0"

definition INT_RESCHEDULE :: int where
  "INT_RESCHEDULE = 1"

text \<open>\<open>bigtime_t\<close> has 64 bits; a sum that leaves its range wraps around.\<close>

definition s64 :: "int \<Rightarrow> int" where
  "s64 x = (x + 2 ^ 63) mod 2 ^ 64 - 2 ^ 63"

lemma s64_id [simp]: "- (2 ^ 63) \<le> x \<Longrightarrow> x < 2 ^ 63 \<Longrightarrow> s64 x = x"
  by (simp add: s64_def)

definition system_time :: "(nat \<Rightarrow> int) \<Rightarrow> 'w timers \<Rightarrow> int \<times> 'w timers" where
  "system_time clock s = (clock (tm_reads s), s\<lparr>tm_reads := Suc (tm_reads s)\<rparr>)"

definition acquire_timers :: "nat \<Rightarrow> 'w timers \<Rightarrow> 'w timers outcome" where
  "acquire_timers cpu s =
     (if tm_locked s cpu then Blocks else Returns (s\<lparr>tm_locked := (tm_locked s)(cpu := True)\<rparr>))"

definition release_timers :: "nat \<Rightarrow> 'w timers \<Rightarrow> 'w timers" where
  "release_timers cpu s = s\<lparr>tm_locked := (tm_locked s)(cpu := False)\<rparr>"

definition put_event :: "nat \<Rightarrow> timer_event \<Rightarrow> 'w timers \<Rightarrow> 'w timers" where
  "put_event e ev s = s\<lparr>tm_event := (tm_event s)(e := ev)\<rparr>"

definition put_head :: "nat \<Rightarrow> nat ptr \<Rightarrow> 'w timers \<Rightarrow> 'w timers" where
  "put_head cpu p s = s\<lparr>tm_events := (tm_events s)(cpu := p)\<rparr>"

section \<open>The hardware timer\<close>

text \<open>
  The hardware timer belongs to the CPU that runs the code: \<open>Some t\<close> is a pending
  interrupt in \<open>t\<close> microseconds. Without a local APIC it is the interval timer, a counter of
  16 bits; \<open>set_isa_hardware_timer\<close> computes what is written to it.
\<close>

definition arch_timer_set_hardware_timer :: "int \<Rightarrow> 'w timers \<Rightarrow> 'w timers" where
  "arch_timer_set_hardware_timer t s =
     s\<lparr>tm_hardware := (tm_hardware s)(tm_curr_cpu s := Some t)\<rparr>"

definition arch_timer_clear_hardware_timer :: "'w timers \<Rightarrow> 'w timers" where
  "arch_timer_clear_hardware_timer s =
     s\<lparr>tm_hardware := (tm_hardware s)(tm_curr_cpu s := None)\<rparr>"

definition pit_clock_rate :: int where
  "pit_clock_rate = 1193180"

definition pit_max_timer_interval :: int where
  "pit_max_timer_interval = 65535 * 1000000 div pit_clock_rate"

definition isa_clocks :: "int \<Rightarrow> int" where
  "isa_clocks relative_timeout =
     (if relative_timeout \<le> 0 then 2
      else if relative_timeout < pit_max_timer_interval
        then (relative_timeout * pit_clock_rate div 1000000) mod 2 ^ 16
      else 65535)"

text \<open>
  The interval timer fires less than a microsecond later than asked, and a timeout it cannot hold is cut to the
  longest one: the interrupt then finds nothing due and arms the timer again.
\<close>

lemma isa_clocks_bounds:
  "1 \<le> isa_clocks t \<and> isa_clocks t \<le> 65535 \<and>
   (2 \<le> t \<longrightarrow> isa_clocks t * 1000000 < (t + 1) * pit_clock_rate)"
proof -
  have mx: "pit_max_timer_interval = 54924" by (simp add: pit_max_timer_interval_def pit_clock_rate_def)
  consider "t \<le> 0" | "0 < t" "t < 54924" | "54924 \<le> t" by linarith
  then show ?thesis
  proof cases
    case 2
    let ?q = "t * 1193180 div 1000000"
    have "1 \<le> ?q" and "?q \<le> 65535" and q: "?q * 1000000 \<le> t * 1193180" using 2 by linarith+
    then have "isa_clocks t = ?q" using 2 mx by (simp add: isa_clocks_def pit_clock_rate_def)
    with \<open>1 \<le> ?q\<close> \<open>?q \<le> 65535\<close> q show ?thesis by (simp add: pit_clock_rate_def)
  qed (auto simp: isa_clocks_def mx pit_clock_rate_def)
qed

section \<open>The queue of a CPU\<close>

partial_function (option) add_event_loop ::
  "(nat \<Rightarrow> timer_event) \<Rightarrow> int \<Rightarrow> nat ptr \<Rightarrow> nat ptr \<Rightarrow> (nat ptr \<times> nat ptr) option" where
  "add_event_loop ev t prev nxt =
     (case nxt of
        None \<Rightarrow> Some (prev, None)
      | Some n \<Rightarrow>
          if te_sched_time (ev n) < t then add_event_loop ev t (Some n) (te_next (ev n))
          else Some (prev, nxt))"

definition add_event_to_list :: "nat \<Rightarrow> nat \<Rightarrow> 'w timers \<Rightarrow> 'w timers outcome" where
  "add_event_to_list e cpu s =
     obind (looped (add_event_loop (tm_event s) (te_sched_time (tm_event s e)) None (tm_events s cpu)))
       (\<lambda>(prev, nxt). Returns
          (case prev of
             Some l \<Rightarrow>
               (let s1 = put_event e ((tm_event s e)\<lparr>te_next := te_next (tm_event s l)\<rparr>) s
                in put_event l ((tm_event s1 l)\<lparr>te_next := Some e\<rparr>) s1)
           | None \<Rightarrow> put_head cpu (Some e) (put_event e ((tm_event s e)\<lparr>te_next := nxt\<rparr>) s)))"

text \<open>
  A callback is called through its pointer: what it does to the state is the argument
  \<open>call\<close>, with the function, its datum and the state.
\<close>

type_synonym 'w callback = "nat \<Rightarrow> nat \<Rightarrow> 'w timers \<Rightarrow> (int \<times> 'w timers) outcome"

definition run_callback :: "'w callback \<Rightarrow> nat \<Rightarrow> int \<Rightarrow> 'w timers \<Rightarrow> (int \<times> 'w timers) outcome" where
  "run_callback call e rc s =
     (case te_func (tm_event s e) of
        None \<Rightarrow> Returns (rc, s)
      | Some f \<Rightarrow>
          obind (call f (te_data (tm_event s e)) s) (\<lambda>(r, s1).
            Returns (if r = INT_RESCHEDULE then INT_RESCHEDULE else rc, s1)))"

text \<open>A time that happens to be zero would mean "not scheduled" and becomes one.\<close>

definition nonzero_time :: "int \<Rightarrow> int" where
  "nonzero_time t = (if t = 0 then 1 else t)"

definition reschedule_periodic ::
  "(nat \<Rightarrow> int) \<Rightarrow> nat \<Rightarrow> nat \<Rightarrow> 'w timers \<Rightarrow> 'w timers outcome" where
  "reschedule_periodic clock cpu e s =
     (let (now, s1) = system_time clock s;
          t = nonzero_time (s64 (now + te_periodic_time (tm_event s1 e)))
      in add_event_to_list e cpu (put_event e ((tm_event s1 e)\<lparr>te_sched_time := t\<rparr>) s1))"

text \<open>The body of the scan for one event that is due: \<open>fire\<close>.\<close>

definition fire ::
  "'w callback \<Rightarrow> (nat \<Rightarrow> int) \<Rightarrow> nat \<Rightarrow> nat \<Rightarrow> int \<Rightarrow> 'w timers \<Rightarrow> (int \<times> 'w timers) outcome" where
  "fire call clock cpu e rc s =
     (let mode = te_mode (tm_event s e);
          s1 = put_head cpu (te_next (tm_event s e)) s;
          s2 = put_event e ((tm_event s1 e)\<lparr>te_sched_time := 0\<rparr>) s1
      in obind (run_callback call e rc (release_timers cpu s2)) (\<lambda>(rc1, s3).
           obind (acquire_timers cpu s3) (\<lambda>s4.
             if mode = TIMER_MODE_PERIODIC
             then obind (reschedule_periodic clock cpu e s4) (\<lambda>s5. Returns (rc1, s5))
             else Returns (rc1, s4))))"

partial_function (option) timer_scan ::
  "'w callback \<Rightarrow> (nat \<Rightarrow> int) \<Rightarrow> nat \<Rightarrow> int \<Rightarrow> int \<Rightarrow> 'w timers \<Rightarrow> (int \<times> 'w timers) outcome option" where
  "timer_scan call clock cpu curr_time rc s =
     (case tm_events s cpu of
        None \<Rightarrow> Some (Returns (rc, s))
      | Some e \<Rightarrow>
          if te_sched_time (tm_event s e) < curr_time then
            (case fire call clock cpu e rc s of
               Returns p \<Rightarrow> timer_scan call clock cpu curr_time (fst p) (snd p)
             | Faults \<Rightarrow> Some Faults
             | Blocks \<Rightarrow> Some Blocks)
          else Some (Returns (rc, s)))"

definition arm_for_head :: "(nat \<Rightarrow> int) \<Rightarrow> nat \<Rightarrow> nat \<Rightarrow> 'w timers \<Rightarrow> 'w timers" where
  "arm_for_head clock cpu e s =
     (let (now, s1) = system_time clock s
      in arch_timer_set_hardware_timer (s64 (te_sched_time (tm_event s1 e) - now)) s1)"

definition timer_interrupt ::
  "'w callback \<Rightarrow> (nat \<Rightarrow> int) \<Rightarrow> 'w timers \<Rightarrow> (int \<times> 'w timers) outcome" where
  "timer_interrupt call clock s =
     (let (curr_time, s1) = system_time clock s; cpu = tm_curr_cpu s1
      in obind (acquire_timers cpu s1) (\<lambda>s2.
           obind (looped_outcome (timer_scan call clock cpu curr_time INT_NO_RESCHEDULE s2)) (\<lambda>(rc, s3).
             let s4 = (case tm_events s3 cpu of Some e \<Rightarrow> arm_for_head clock cpu e s3 | None \<Rightarrow> s3)
             in Returns (rc, release_timers cpu s4))))"

definition timer_setup_timer :: "nat ptr \<Rightarrow> nat \<Rightarrow> nat \<Rightarrow> 'w timers \<Rightarrow> 'w timers" where
  "timer_setup_timer f d e s =
     put_event e ((tm_event s e)\<lparr>te_func := f, te_data := d, te_sched_time := 0\<rparr>) s"

text \<open>Setting an event that is in a list already is a panic.\<close>

definition timer_set_event ::
  "(nat \<Rightarrow> int) \<Rightarrow> int \<Rightarrow> timer_mode \<Rightarrow> nat ptr \<Rightarrow> 'w timers \<Rightarrow> (int \<times> 'w timers) outcome" where
  "timer_set_event clock relative_time mode event s =
     (case event of
        None \<Rightarrow> Returns (ERR_INVALID_ARGS, s)
      | Some e \<Rightarrow>
          (let rel = (if relative_time < 0 then 0 else relative_time)
           in if te_sched_time (tm_event s e) \<noteq> 0 then Faults
              else
                (let (now, s1) = system_time clock s;
                     t = nonzero_time (s64 (now + rel));
                     ev = (tm_event s1 e)\<lparr>te_sched_time := t, te_mode := mode\<rparr>;
                     ev1 = (if mode = TIMER_MODE_PERIODIC then ev\<lparr>te_periodic_time := rel\<rparr> else ev);
                     s2 = put_event e ev1 s1; cpu = tm_curr_cpu s2
                 in obind (acquire_timers cpu s2) (\<lambda>s3.
                      obind (add_event_to_list e cpu s3) (\<lambda>s4.
                        let s5 = (if tm_events s4 cpu = Some e then arch_timer_set_hardware_timer rel s4 else s4)
                        in Returns (0, release_timers cpu s5))))))"

section \<open>Cancelling\<close>

partial_function (option) cancel_search ::
  "(nat \<Rightarrow> timer_event) \<Rightarrow> nat \<Rightarrow> nat ptr \<Rightarrow> nat ptr \<Rightarrow> (bool \<times> nat ptr) option" where
  "cancel_search ev event prev e =
     (case e of
        None \<Rightarrow> Some (False, prev)
      | Some a \<Rightarrow> if a = event then Some (True, prev) else cancel_search ev event e (te_next (ev a)))"

definition cancel_unlink :: "nat \<Rightarrow> nat \<Rightarrow> nat ptr \<Rightarrow> 'w timers \<Rightarrow> 'w timers outcome" where
  "cancel_unlink cpu e prev s =
     obind (if tm_events s cpu = Some e then Returns (put_head cpu (te_next (tm_event s e)) s)
            else (case prev of
                    None \<Rightarrow> Faults
                  | Some l \<Rightarrow> Returns (put_event l ((tm_event s l)\<lparr>te_next := te_next (tm_event s e)\<rparr>) s)))
       (\<lambda>s1. Returns (put_event e ((tm_event s1 e)\<lparr>te_next := None\<rparr>) s1))"

definition rearm :: "(nat \<Rightarrow> int) \<Rightarrow> nat \<Rightarrow> 'w timers \<Rightarrow> 'w timers" where
  "rearm clock cpu s =
     (case tm_events s cpu of
        None \<Rightarrow> arch_timer_clear_hardware_timer s
      | Some e \<Rightarrow> arm_for_head clock cpu e s)"

text \<open>On a miss the queue is read, to arm the hardware timer, after its lock was released.\<close>

definition local_timer_cancel ::
  "(nat \<Rightarrow> int) \<Rightarrow> nat \<Rightarrow> nat \<Rightarrow> 'w timers \<Rightarrow> (int \<times> 'w timers) outcome" where
  "local_timer_cancel clock cpu event s =
     obind (acquire_timers cpu s) (\<lambda>s1.
       obind (looped (cancel_search (tm_event s1) event None (tm_events s1 cpu))) (\<lambda>(foundit, prev).
         if foundit
         then obind (cancel_unlink cpu event prev s1) (\<lambda>s2. Returns (0, release_timers cpu (rearm clock cpu s2)))
         else Returns (ERR_GENERAL, rearm clock cpu (release_timers cpu s1))))"

definition local_timer_cancel_event ::
  "(nat \<Rightarrow> int) \<Rightarrow> nat \<Rightarrow> 'w timers \<Rightarrow> (int \<times> 'w timers) outcome" where
  "local_timer_cancel_event clock event s = local_timer_cancel clock (tm_curr_cpu s) event s"

text \<open>
  The walk over the other CPUs. The previous-element pointer is not reset from one CPU to the
  next.
\<close>

fun cancel_others ::
  "nat \<Rightarrow> nat \<Rightarrow> nat ptr \<Rightarrow> nat list \<Rightarrow> 'w timers \<Rightarrow> (bool \<times> 'w timers) outcome" where
  "cancel_others event here prev [] s = Returns (False, s)"
| "cancel_others event here prev (cpu # cpus) s =
     (if cpu = here then cancel_others event here prev cpus s
      else obind (acquire_timers cpu s) (\<lambda>s1.
        obind (looped (cancel_search (tm_event s1) event prev (tm_events s1 cpu))) (\<lambda>(foundit, prev1).
          if foundit
          then obind (cancel_unlink cpu event prev1 s1) (\<lambda>s2. Returns (True, release_timers cpu s2))
          else cancel_others event here prev1 cpus (release_timers cpu s1))))"

definition timer_cancel_event ::
  "(nat \<Rightarrow> int) \<Rightarrow> nat \<Rightarrow> 'w timers \<Rightarrow> (int \<times> 'w timers) outcome" where
  "timer_cancel_event clock event s =
     (if te_sched_time (tm_event s event) = 0 then Returns (0, s)
      else
        (let here = tm_curr_cpu s
         in obind (local_timer_cancel clock here event s) (\<lambda>(rc, s1).
              if rc < 0
              then obind (cancel_others event here None [0..<tm_num_cpus s] s1) (\<lambda>(foundit, s2).
                     Returns (if foundit then 0 else ERR_GENERAL, s2))
              else Returns (ERR_GENERAL, s1))))"

section \<open>The queues as sorted lists\<close>

definition links :: "'w timers \<Rightarrow> nat \<Rightarrow> nat ptr" where
  "links s = (\<lambda>a. te_next (tm_event s a))"

definition due_at :: "'w timers \<Rightarrow> nat \<Rightarrow> int" where
  "due_at s a = te_sched_time (tm_event s a)"

definition tm_rep :: "'w timers \<Rightarrow> (nat \<Rightarrow> nat list) \<Rightarrow> bool" where
  "tm_rep s L \<longleftrightarrow>
     (\<forall>c. chain (links s) (tm_events s c) (L c) \<and> sorted (map (due_at s) (L c)) \<and>
          (\<forall>a \<in> set (L c). due_at s a \<noteq> 0)) \<and>
     (\<forall>c d. c \<noteq> d \<longrightarrow> set (L c) \<inter> set (L d) = {})"

text \<open>What an operation on a queue leaves alone: everything but the links of the events.\<close>

definition relinked :: "'w timers \<Rightarrow> 'w timers \<Rightarrow> bool" where
  "relinked s s' \<longleftrightarrow>
     (\<forall>a. tm_event s' a = (tm_event s a)\<lparr>te_next := te_next (tm_event s' a)\<rparr>) \<and>
     s' = s\<lparr>tm_event := tm_event s', tm_events := tm_events s'\<rparr>"

named_theorems tm_simps

lemma links_put_event [tm_simps]: "links (put_event e v s) = (links s)(e := te_next v)"
  by (auto simp: links_def put_event_def)

lemma links_put_head [tm_simps]: "links (put_head c p s) = links s"
  by (simp add: links_def put_head_def)

lemma due_at_put_event [tm_simps]:
  "due_at (put_event e v s) a = (if a = e then te_sched_time v else due_at s a)"
  by (simp add: due_at_def put_event_def)

lemma due_at_put_head [tm_simps]: "due_at (put_head c p s) = due_at s"
  by (auto simp: due_at_def put_head_def)

lemma events_put_event [tm_simps]: "tm_events (put_event e v s) = tm_events s"
  by (simp add: put_event_def)

lemma events_put_head [tm_simps]: "tm_events (put_head c p s) = (tm_events s)(c := p)"
  by (simp add: put_head_def)

lemma event_put_event [tm_simps]: "tm_event (put_event e v s) = (tm_event s)(e := v)"
  by (simp add: put_event_def)

lemma event_put_head [tm_simps]: "tm_event (put_head c p s) = tm_event s"
  by (simp add: put_head_def)

lemma relinked_refl: "relinked s s"
  by (simp add: relinked_def)

lemma relinked_due: "relinked s s' \<Longrightarrow> due_at s' = due_at s"
proof (rule ext)
  fix a
  assume "relinked s s'"
  then have "tm_event s' a = (tm_event s a)\<lparr>te_next := te_next (tm_event s' a)\<rparr>" by (simp add: relinked_def)
  then have "te_sched_time (tm_event s' a) = te_sched_time ((tm_event s a)\<lparr>te_next := te_next (tm_event s' a)\<rparr>)"
    by (rule arg_cong)
  then show "due_at s' a = due_at s a" by (simp add: due_at_def)
qed

text \<open>The state matters to the representation only through the events and the list heads.\<close>

lemma tm_rep_transfer:
  "tm_rep s L \<Longrightarrow> tm_event s' = tm_event s \<Longrightarrow> tm_events s' = tm_events s \<Longrightarrow> tm_rep s' L"
  by (simp add: tm_rep_def links_def due_at_def [abs_def])

lemma tm_repD:
  assumes "tm_rep s L"
  shows "chain (links s) (tm_events s c) (L c)" and "sorted (map (due_at s) (L c))"
    and "a \<in> set (L c) \<Longrightarrow> due_at s a \<noteq> 0" and "c \<noteq> d \<Longrightarrow> a \<in> set (L c) \<Longrightarrow> a \<notin> set (L d)"
  using assms unfolding tm_rep_def by (simp_all, blast)

text \<open>An operation that relinks the queue of one CPU keeps the others.\<close>

lemma tm_rep_update:
  assumes "tm_rep s L" and "relinked s s'"
    and "chain (links s') (tm_events s' c) xs" and "sorted (map (due_at s) xs)"
    and "\<forall>a \<in> set xs. due_at s a \<noteq> 0"
    and "\<forall>d. d \<noteq> c \<longrightarrow> tm_events s' d = tm_events s d \<and> set xs \<inter> set (L d) = {}"
    and "\<forall>a. a \<notin> set xs \<union> set (L c) \<longrightarrow> links s' a = links s a"
  shows "tm_rep s' (L(c := xs))"
proof -
  note due = relinked_due [OF assms(2)]
  have other: "chain (links s') (tm_events s' d) (L d)" if "d \<noteq> c" for d
  proof -
    have "links s' a = links s a" if "a \<in> set (L d)" for a
      using assms(6,7) tm_repD(4) [OF assms(1)] that \<open>d \<noteq> c\<close> by blast
    then have "lseg (links s') (tm_events s d) (L d) None = lseg (links s) (tm_events s d) (L d) None"
      by (rule lseg_cong)
    with tm_repD(1) [OF assms(1), of d] assms(6) that show ?thesis by simp
  qed
  have dis: "set ((L(c := xs)) i) \<inter> set ((L(c := xs)) j) = {}" if "i \<noteq> j" for i j
    using assms(6) tm_repD(4) [OF assms(1), of i j] that by (auto simp: Int_commute)
  show ?thesis
    unfolding tm_rep_def due
    using assms(3-5) other dis tm_repD(2,3) [OF assms(1)] by simp
qed

section \<open>Inserting an event\<close>

definition insert_event :: "(nat \<Rightarrow> int) \<Rightarrow> nat \<Rightarrow> nat list \<Rightarrow> nat list" where
  "insert_event due e xs =
     takeWhile (\<lambda>a. due a < due e) xs @ e # dropWhile (\<lambda>a. due a < due e) xs"

lemma set_insert_event: "set (insert_event due e xs) = insert e (set xs)"
proof -
  have "set xs = set (takeWhile (\<lambda>a. due a < due e) xs @ dropWhile (\<lambda>a. due a < due e) xs)" by simp
  then show ?thesis unfolding set_append insert_event_def by auto
qed

lemma sorted_insert_event:
  assumes "sorted (map due xs)"
  shows "sorted (map due (insert_event due e xs))"
proof -
  let ?P = "\<lambda>a. due a < due e"
  have "sorted (map due (takeWhile ?P xs @ dropWhile ?P xs))" using assms by simp
  then have s: "sorted (map due (takeWhile ?P xs))" "sorted (map due (dropWhile ?P xs))"
    "\<forall>a \<in> set (takeWhile ?P xs). \<forall>b \<in> set (dropWhile ?P xs). due a \<le> due b"
    unfolding map_append sorted_append by auto
  have "due e \<le> due b" if "b \<in> set (dropWhile ?P xs)" for b
  proof (cases "dropWhile ?P xs")
    case Nil
    with that show ?thesis by simp
  next
    case (Cons x ys)
    then have "\<not> ?P x" using hd_dropWhile [of ?P xs] by simp
    with s(2) that Cons show ?thesis by fastforce
  qed
  moreover have "due a \<le> due e" if "a \<in> set (takeWhile ?P xs)" for a
    using set_takeWhileD [OF that] by simp
  ultimately show ?thesis using s by (auto simp: insert_event_def sorted_append)
qed

lemma add_event_loop_spec:
  assumes "chain (\<lambda>a. te_next (ev a)) p xs"
  shows "\<exists>q. add_event_loop ev t l p =
           Some (if takeWhile (\<lambda>a. te_sched_time (ev a) < t) xs = [] then l
                 else Some (last (takeWhile (\<lambda>a. te_sched_time (ev a) < t) xs)), q) \<and>
         lseg (\<lambda>a. te_next (ev a)) p (takeWhile (\<lambda>a. te_sched_time (ev a) < t) xs) q \<and>
         chain (\<lambda>a. te_next (ev a)) q (dropWhile (\<lambda>a. te_sched_time (ev a) < t) xs)"
  using assms
proof (induction xs arbitrary: p l)
  case Nil
  then show ?case by (simp add: add_event_loop.simps)
next
  case (Cons x xs)
  then have p: "p = Some x" and ch: "chain (\<lambda>a. te_next (ev a)) (te_next (ev x)) xs" by auto
  show ?case
  proof (cases "te_sched_time (ev x) < t")
    case True
    then have "add_event_loop ev t l p = add_event_loop ev t (Some x) (te_next (ev x))"
      by (simp add: add_event_loop.simps [of ev t l] p)
    with Cons.IH [OF ch, of "Some x"] True p show ?thesis by auto
  next
    case False
    with Cons.prems p show ?thesis by (simp add: add_event_loop.simps)
  qed
qed

lemma add_event_rep:
  assumes "tm_rep s L" and "\<forall>c. e \<notin> set (L c)" and "due_at s e \<noteq> 0"
  obtains s' where "add_event_to_list e cpu s = Returns s'" and "relinked s s'"
    and "tm_rep s' (L(cpu := insert_event (due_at s) e (L cpu)))"
proof -
  let ?P = "\<lambda>a. te_sched_time (tm_event s a) < te_sched_time (tm_event s e)"
  let ?xs = "insert_event (due_at s) e (L cpu)"
  have xs: "?xs = takeWhile ?P (L cpu) @ e # dropWhile ?P (L cpu)"
    by (simp add: insert_event_def due_at_def)
  have ch: "chain (links s) (tm_events s cpu) (L cpu)" by (rule tm_repD(1) [OF assms(1)])
  from add_event_loop_spec [OF ch [unfolded links_def], of "te_sched_time (tm_event s e)" None]
  obtain q where loop: "add_event_loop (tm_event s) (te_sched_time (tm_event s e)) None (tm_events s cpu) =
      Some (if takeWhile ?P (L cpu) = [] then None else Some (last (takeWhile ?P (L cpu))), q)"
    and l: "lseg (links s) (tm_events s cpu) (takeWhile ?P (L cpu)) q"
    and r: "chain (links s) q (dropWhile ?P (L cpu))" by (auto simp: links_def)
  have e: "e \<notin> set (takeWhile ?P (L cpu))" "e \<notin> set (dropWhile ?P (L cpu))"
    using assms(2) by (auto dest: set_takeWhileD set_dropWhileD)
  have all: "sorted (map (due_at s) ?xs)" "\<forall>a \<in> set ?xs. due_at s a \<noteq> 0"
    "\<forall>d. d \<noteq> cpu \<longrightarrow> set ?xs \<inter> set (L d) = {}"
    using tm_repD [OF assms(1)] assms(2,3) by (auto simp: set_insert_event sorted_insert_event)
  show ?thesis
  proof (cases "takeWhile ?P (L cpu)" rule: rev_cases)
    case Nil
    let ?s = "put_head cpu (Some e) (put_event e ((tm_event s e)\<lparr>te_next := q\<rparr>) s)"
    have st: "add_event_to_list e cpu s = Returns ?s"
      using loop Nil by (simp add: add_event_to_list_def looped_def)
    have rl: "relinked s ?s" by (simp add: relinked_def put_head_def put_event_def)
    have "chain (links ?s) (tm_events ?s cpu) ?xs"
      using r e Nil by (simp add: tm_simps xs)
    then have "tm_rep ?s (L(cpu := ?xs))"
      using all by (intro tm_rep_update [OF assms(1) rl]) (auto simp: tm_simps set_insert_event)
    with st rl show ?thesis by (rule that)
  next
    case (snoc ys y)
    let ?t = "put_event e ((tm_event s e)\<lparr>te_next := te_next (tm_event s y)\<rparr>) s"
    let ?s = "put_event y ((tm_event ?t y)\<lparr>te_next := Some e\<rparr>) ?t"
    have st: "add_event_to_list e cpu s = Returns ?s"
      using loop snoc by (simp add: add_event_to_list_def looped_def Let_def)
    have y: "y \<noteq> e" using e snoc by auto
    then have rl: "relinked s ?s" by (auto simp: relinked_def put_event_def)
    have "distinct (L cpu)" using ch by (rule chain_distinct)
    then have "distinct (takeWhile ?P (L cpu) @ dropWhile ?P (L cpu))" by simp
    then have d: "y \<notin> set ys" "y \<notin> set (dropWhile ?P (L cpu))" using snoc by auto
    have q: "q = links s y" using l snoc by (auto simp: lseg_append)
    have "lseg ((links s)(y := Some e)) (tm_events s cpu) (ys @ [y]) (Some e)"
      using l d snoc by (intro lseg_last_update) auto
    then have "lseg (links ?s) (tm_events s cpu) (ys @ [y]) (Some e)"
      using e snoc y by (simp add: tm_simps fun_upd_twist [of e y] del: lseg_append)
    moreover have "chain (links ?s) (links ?s e) (dropWhile ?P (L cpu))"
      using r d(2) e y q by (simp add: tm_simps) (simp add: links_def)
    ultimately have "chain (links ?s) (tm_events s cpu) ((ys @ [y]) @ e # dropWhile ?P (L cpu))"
      unfolding lseg_append by auto
    then have "chain (links ?s) (tm_events ?s cpu) ?xs"
      by (simp add: tm_simps xs snoc)
    moreover have "y \<in> set (L cpu)" using snoc set_takeWhileD [of y ?P "L cpu"] by simp
    ultimately have "tm_rep ?s (L(cpu := ?xs))"
      using all by (intro tm_rep_update [OF assms(1) rl]) (auto simp: tm_simps set_insert_event)
    with st rl show ?thesis by (rule that)
  qed
qed

section \<open>Setting an event\<close>

lemma tm_rep_fresh:
  assumes "tm_rep s L" and "\<forall>c. e \<notin> set (L c)"
  shows "tm_rep (put_event e v s) L"
proof -
  have "map (due_at (put_event e v s)) (L c) = map (due_at s) (L c)" for c
    by (rule map_cong [OF refl]) (use assms(2) in \<open>auto simp: due_at_put_event\<close>)
  moreover have "\<forall>a \<in> set (L c). due_at (put_event e v s) a = due_at s a" for c
    using assms(2) by (auto simp: due_at_put_event)
  ultimately have "\<forall>c. map (due_at (put_event e v s)) (L c) = map (due_at s) (L c)"
    "\<forall>c. \<forall>a \<in> set (L c). due_at (put_event e v s) a = due_at s a" by auto
  with assms show ?thesis unfolding tm_rep_def by (simp add: links_put_event events_put_event del: map_eq_conv)
qed

lemma due_at_reads [tm_simps]:
  "due_at (s\<lparr>tm_reads := n\<rparr>) = due_at s" "due_at (s\<lparr>tm_locked := l\<rparr>) = due_at s"
  "due_at (s\<lparr>tm_hardware := h\<rparr>) = due_at s" "due_at (s\<lparr>tm_world := w\<rparr>) = due_at s"
  by (auto simp: due_at_def)

lemma relinked_rest:
  assumes "relinked s s'"
  shows "tm_locked s' = tm_locked s" and "tm_hardware s' = tm_hardware s" and "tm_curr_cpu s' = tm_curr_cpu s"
    and "tm_num_cpus s' = tm_num_cpus s" and "tm_reads s' = tm_reads s" and "tm_world s' = tm_world s"
proof -
  have e: "s' = s\<lparr>tm_event := tm_event s', tm_events := tm_events s'\<rparr>" using assms by (simp add: relinked_def)
  show "tm_locked s' = tm_locked s" by (subst e) simp
  show "tm_hardware s' = tm_hardware s" by (subst e) simp
  show "tm_curr_cpu s' = tm_curr_cpu s" by (subst e) simp
  show "tm_num_cpus s' = tm_num_cpus s" by (subst e) simp
  show "tm_reads s' = tm_reads s" by (subst e) simp
  show "tm_world s' = tm_world s" by (subst e) simp
qed

definition setup_of :: "timer_event \<Rightarrow> nat ptr \<times> nat \<times> timer_mode \<times> int" where
  "setup_of ev = (te_func ev, te_data ev, te_mode ev, te_periodic_time ev)"

lemma relinked_setup: "relinked s s' \<Longrightarrow> setup_of (tm_event s' a) = setup_of (tm_event s a)"
proof -
  assume "relinked s s'"
  then have "tm_event s' a = (tm_event s a)\<lparr>te_next := te_next (tm_event s' a)\<rparr>" by (simp add: relinked_def)
  then have "setup_of (tm_event s' a) = setup_of ((tm_event s a)\<lparr>te_next := te_next (tm_event s' a)\<rparr>)"
    by (rule arg_cong)
  then show ?thesis by (simp add: setup_of_def)
qed

lemma fun_upd_False [simp]: "\<not> f c \<Longrightarrow> f(c := False) = f"
  by (rule ext) simp

lemma nonzero_time_neq [simp]: "nonzero_time t \<noteq> 0"
  by (simp add: nonzero_time_def)

lemma chain_hd: "chain nx p xs \<Longrightarrow> p = Some e \<longleftrightarrow> (xs \<noteq> [] \<and> hd xs = e)"
  by (cases xs) auto

lemma timer_set_event_spec:
  assumes "tm_rep s L" and "\<forall>c. e \<notin> set (L c)" and "te_sched_time (tm_event s e) = 0"
    and "\<not> tm_locked s (tm_curr_cpu s)"
  shows "\<exists>s' t xs.
    timer_set_event clock relative_time mode (Some e) s = Returns (0, s') \<and>
    t = nonzero_time (s64 (clock (tm_reads s) + max 0 relative_time)) \<and>
    xs = insert_event ((due_at s)(e := t)) e (L (tm_curr_cpu s)) \<and>
    tm_rep s' (L(tm_curr_cpu s := xs)) \<and> due_at s' = (due_at s)(e := t) \<and>
    te_mode (tm_event s' e) = mode \<and>
    (mode = TIMER_MODE_PERIODIC \<longrightarrow> te_periodic_time (tm_event s' e) = max 0 relative_time) \<and>
    tm_hardware s' = (if hd xs = e then (tm_hardware s)(tm_curr_cpu s := Some (max 0 relative_time))
                      else tm_hardware s) \<and>
    tm_locked s' = tm_locked s \<and> tm_world s' = tm_world s \<and> tm_curr_cpu s' = tm_curr_cpu s"
proof -
  let ?c = "tm_curr_cpu s" and ?rel = "max 0 relative_time"
  let ?t = "nonzero_time (s64 (clock (tm_reads s) + ?rel))"
  let ?ev = "let ev = (tm_event s e)\<lparr>te_sched_time := ?t, te_mode := mode\<rparr>
             in if mode = TIMER_MODE_PERIODIC then ev\<lparr>te_periodic_time := ?rel\<rparr> else ev"
  let ?s1 = "put_event e ?ev (s\<lparr>tm_reads := Suc (tm_reads s)\<rparr>)"
  let ?s2 = "?s1\<lparr>tm_locked := (tm_locked s)(?c := True)\<rparr>"
  have due: "due_at ?s2 = (due_at s)(e := ?t)" by (rule ext) (simp add: tm_simps Let_def)
  have "tm_rep (s\<lparr>tm_reads := Suc (tm_reads s)\<rparr>) L" using assms(1) by (rule tm_rep_transfer) simp_all
  then have "tm_rep ?s1 L" using assms(2) by (rule tm_rep_fresh)
  then have r2: "tm_rep ?s2 L" by (rule tm_rep_transfer) simp_all
  obtain s3 where s3: "add_event_to_list e ?c ?s2 = Returns s3" "relinked ?s2 s3"
    "tm_rep s3 (L(?c := insert_event (due_at ?s2) e (L ?c)))"
    using add_event_rep [OF r2 assms(2), of ?c] due by auto
  let ?xs = "insert_event ((due_at s)(e := ?t)) e (L ?c)"
  let ?s4 = "if tm_events s3 ?c = Some e then arch_timer_set_hardware_timer ?rel s3 else s3"
  let ?s' = "release_timers ?c ?s4"
  have rel: "(if relative_time < 0 then 0 else relative_time) = ?rel" by auto
  have run: "timer_set_event clock relative_time mode (Some e) s = Returns (0, ?s')"
    using assms(3,4) s3(1)
    by (simp add: timer_set_event_def rel system_time_def acquire_timers_def put_event_def Let_def cong: if_cong)
  note rest = relinked_rest [OF s3(2)]
  have ev: "tm_event ?s' = tm_event s3" "tm_events ?s' = tm_events s3"
    by (simp_all add: release_timers_def arch_timer_set_hardware_timer_def)
  have rep: "tm_rep ?s' (L(?c := ?xs))"
    using s3(3) unfolding due by (rule tm_rep_transfer [OF _ ev]) 
  have "due_at ?s' = due_at s3" by (rule ext) (simp add: due_at_def ev)
  then have d: "due_at ?s' = (due_at s)(e := ?t)" using relinked_due [OF s3(2)] due by simp
  have su: "setup_of (tm_event ?s' e) = setup_of ?ev"
    using relinked_setup [OF s3(2), of e] ev by (simp add: put_event_def)
  have "?xs \<noteq> []" by (simp add: insert_event_def)
  then have "tm_events s3 ?c = Some e \<longleftrightarrow> hd ?xs = e"
    using chain_hd [OF tm_repD(1) [OF s3(3), of ?c]] due by simp
  then have hw: "tm_hardware ?s' = (if hd ?xs = e then (tm_hardware s)(?c := Some ?rel) else tm_hardware s)"
    using rest(2,3) by (simp add: release_timers_def arch_timer_set_hardware_timer_def put_event_def)
  have lk: "tm_locked ?s' = tm_locked s"
    using rest(1) assms(4) by (simp add: release_timers_def arch_timer_set_hardware_timer_def)
  have wd: "tm_world ?s' = tm_world s" and cc: "tm_curr_cpu ?s' = tm_curr_cpu s"
    using rest(3,6) by (simp_all add: release_timers_def arch_timer_set_hardware_timer_def put_event_def)
  have mode: "te_mode (tm_event ?s' e) = mode"
    and per: "mode = TIMER_MODE_PERIODIC \<longrightarrow> te_periodic_time (tm_event ?s' e) = ?rel"
    using su by (simp_all add: setup_of_def Let_def split: if_splits)
  show ?thesis
    by (rule exI [of _ ?s'], rule exI [of _ ?t], rule exI [of _ ?xs], intro conjI)
      (fact run refl rep d mode per hw lk wd cc)+
qed

text \<open>
  (C22) \<open>timer_set_event\<close> puts a timer that is not pending into the queue of the current CPU
  at its place in time, \<open>relative_time\<close> microseconds from now (a negative time counts as
  zero, a sum that wraps to zero as one), leaves every other queue and event alone, arms the
  hardware timer exactly when the new event is the next one, and releases its lock.
\<close>

theorem timer_set_event_correct:
  assumes "tm_rep s L" and "\<forall>c. e \<notin> set (L c)" and "te_sched_time (tm_event s e) = 0"
    and "\<not> tm_locked s (tm_curr_cpu s)"
  shows "\<exists>s' t xs.
    timer_set_event clock relative_time mode (Some e) s = Returns (0, s') \<and>
    t = nonzero_time (s64 (clock (tm_reads s) + max 0 relative_time)) \<and>
    xs = insert_event ((due_at s)(e := t)) e (L (tm_curr_cpu s)) \<and>
    tm_rep s' (L(tm_curr_cpu s := xs)) \<and> due_at s' = (due_at s)(e := t) \<and>
    te_mode (tm_event s' e) = mode \<and>
    (mode = TIMER_MODE_PERIODIC \<longrightarrow> te_periodic_time (tm_event s' e) = max 0 relative_time) \<and>
    tm_hardware s' = (if hd xs = e then (tm_hardware s)(tm_curr_cpu s := Some (max 0 relative_time))
                      else tm_hardware s) \<and>
    tm_locked s' = tm_locked s"
  using timer_set_event_spec [OF assms, of clock relative_time mode] by (elim exE conjE) (intro exI conjI; assumption)

section \<open>Cancelling an event\<close>

lemma cancel_search_found:
  assumes "lseg (\<lambda>a. te_next (ev a)) p ys (Some e)" and "e \<notin> set ys"
  shows "cancel_search ev e l p = Some (True, if ys = [] then l else Some (last ys))"
  using assms
proof (induction ys arbitrary: p l)
  case Nil
  then show ?case by (simp add: cancel_search.simps)
next
  case (Cons y ys)
  then have "cancel_search ev e l p = cancel_search ev e (Some y) (te_next (ev y))"
    by (simp add: cancel_search.simps [of ev e l])
  with Cons show ?case by simp
qed

lemma cancel_search_missing:
  assumes "chain (\<lambda>a. te_next (ev a)) p xs" and "e \<notin> set xs"
  shows "\<exists>q. cancel_search ev e l p = Some (False, q)"
  using assms
proof (induction xs arbitrary: p l)
  case Nil
  then show ?case by (simp add: cancel_search.simps)
next
  case (Cons x xs)
  then have "cancel_search ev e l p = cancel_search ev e (Some x) (te_next (ev x))"
    by (simp add: cancel_search.simps [of ev e l])
  with Cons show ?case by simp
qed

lemma cancel_unlink_rep:
  assumes "tm_rep s L" and "L c = ys @ e # zs"
  obtains s' where "cancel_unlink c e (if ys = [] then l else Some (last ys)) s = Returns s'"
    and "relinked s s'" and "tm_rep s' (L(c := ys @ zs))"
proof -
  have ch: "chain (links s) (tm_events s c) (ys @ e # zs)" using tm_repD(1) [OF assms(1), of c] assms(2) by simp
  then have dist: "distinct (ys @ e # zs)" by (rule chain_distinct)
  have all: "sorted (map (due_at s) (ys @ zs))" "\<forall>a \<in> set (ys @ zs). due_at s a \<noteq> 0"
    "\<forall>d. d \<noteq> c \<longrightarrow> set (ys @ zs) \<inter> set (L d) = {}"
    using tm_repD(2) [OF assms(1), of c] tm_repD(3) [OF assms(1), of _ c] tm_repD(4) [OF assms(1), of c] assms(2)
    by (auto simp: sorted_append)
  have upd: "tm_rep t (L(c := ys @ zs))"
    if "relinked s t" "chain (links t) (tm_events t c) (ys @ zs)" "\<forall>d. d \<noteq> c \<longrightarrow> tm_events t d = tm_events s d"
      "\<forall>a. a \<notin> set (ys @ e # zs) \<longrightarrow> links t a = links s a" for t
    using that all assms(2) by (intro tm_rep_update [OF assms(1) that(1)]) auto
  show ?thesis
  proof (cases ys rule: rev_cases)
    case Nil
    let ?t = "put_head c (links s e) s"
    let ?s = "put_event e ((tm_event s e)\<lparr>te_next := None\<rparr>) ?t"
    have run: "cancel_unlink c e (if ys = [] then l else Some (last ys)) s = Returns ?s"
      using ch Nil by (simp add: cancel_unlink_def tm_simps links_def)
    have rl: "relinked s ?s" by (simp add: relinked_def put_head_def put_event_def)
    have "chain (links ?s) (tm_events ?s c) (ys @ zs)" using ch Nil dist by (simp add: tm_simps)
    then have "tm_rep ?s (L(c := ys @ zs))" by (rule upd [OF rl]) (simp_all add: tm_simps)
    with run rl show ?thesis by (rule that)
  next
    case (snoc us y)
    let ?t = "put_event y ((tm_event s y)\<lparr>te_next := links s e\<rparr>) s"
    let ?s = "put_event e ((tm_event ?t e)\<lparr>te_next := None\<rparr>) ?t"
    have ne: "tm_events s c \<noteq> Some e" using ch dist snoc by (cases us) auto
    have run: "cancel_unlink c e (if ys = [] then l else Some (last ys)) s = Returns ?s"
      using ne snoc by (simp add: cancel_unlink_def links_def)
    have y: "y \<noteq> e" using dist snoc by auto
    have rl: "relinked s ?s" using y by (auto simp: relinked_def put_event_def)
    have "chain ((links s)(y := links s e)) (tm_events s c) (us @ y # zs)"
      using ch snoc by (intro chain_unlink) simp
    then have "chain (links ?s) (tm_events ?s c) (ys @ zs)"
      using dist snoc by (simp add: tm_simps)
    then have "tm_rep ?s (L(c := ys @ zs))" using snoc by (intro upd [OF rl]) (auto simp: tm_simps)
    with run rl show ?thesis by (rule that)
  qed
qed

text \<open>Arming the hardware timer changes nothing the queues are made of.\<close>

lemma rearm_simps [simp]:
  "tm_event (rearm clock c s) = tm_event s" "tm_events (rearm clock c s) = tm_events s"
  "tm_locked (rearm clock c s) = tm_locked s" "tm_curr_cpu (rearm clock c s) = tm_curr_cpu s"
  "tm_num_cpus (rearm clock c s) = tm_num_cpus s" "tm_world (rearm clock c s) = tm_world s"
  by (simp_all add: rearm_def arm_for_head_def system_time_def arch_timer_set_hardware_timer_def
      arch_timer_clear_hardware_timer_def split: option.split)

lemma release_simps [simp]:
  "tm_event (release_timers c s) = tm_event s" "tm_events (release_timers c s) = tm_events s"
  "tm_hardware (release_timers c s) = tm_hardware s" "tm_curr_cpu (release_timers c s) = tm_curr_cpu s"
  "tm_num_cpus (release_timers c s) = tm_num_cpus s" "tm_reads (release_timers c s) = tm_reads s"
  "tm_world (release_timers c s) = tm_world s"
  by (simp_all add: release_timers_def)

definition armed_for :: "(nat \<Rightarrow> int) \<Rightarrow> int \<Rightarrow> nat list \<Rightarrow> int option" where
  "armed_for due now xs = (case xs of [] \<Rightarrow> None | a # _ \<Rightarrow> Some (s64 (due a - now)))"

lemma rearm_hardware:
  assumes "tm_rep s L"
  shows "tm_hardware (rearm clock c s) =
         (tm_hardware s)(tm_curr_cpu s := armed_for (due_at s) (clock (tm_reads s)) (L c))"
  using tm_repD(1) [OF assms, of c]
  by (cases "L c") (auto simp: rearm_def armed_for_def arm_for_head_def system_time_def due_at_def
      arch_timer_set_hardware_timer_def arch_timer_clear_hardware_timer_def)

lemma local_timer_cancel_spec:
  assumes "tm_rep s L" and "\<not> tm_locked s c"
  shows "\<exists>s'. local_timer_cancel clock c e s = Returns (if e \<in> set (L c) then 0 else ERR_GENERAL, s') \<and>
           tm_rep s' (L(c := remove1 e (L c))) \<and> due_at s' = due_at s \<and> tm_locked s' = tm_locked s \<and>
           tm_curr_cpu s' = tm_curr_cpu s \<and> tm_num_cpus s' = tm_num_cpus s \<and> tm_world s' = tm_world s \<and>
           tm_hardware s' = (tm_hardware s)(tm_curr_cpu s :=
             armed_for (due_at s) (clock (tm_reads s)) (remove1 e (L c)))"
proof -
  let ?s1 = "s\<lparr>tm_locked := (tm_locked s)(c := True)\<rparr>"
  have acq: "acquire_timers c s = Returns ?s1" using assms(2) by (simp add: acquire_timers_def)
  have rep1: "tm_rep ?s1 L" using assms(1) by (rule tm_rep_transfer) simp_all
  note ch = tm_repD(1) [OF assms(1), of c]
  show ?thesis
  proof (cases "e \<in> set (L c)")
    case True
    then obtain ys zs where xs: "L c = ys @ e # zs" and e: "e \<notin> set ys" by (auto dest: split_list_first)
    have "cancel_search (tm_event s) e None (tm_events s c) = Some (True, if ys = [] then None else Some (last ys))"
      using chain_split(1) [OF ch [unfolded xs]] e by (intro cancel_search_found) (simp_all add: links_def)
    moreover obtain s2 where s2: "cancel_unlink c e (if ys = [] then None else Some (last ys)) ?s1 = Returns s2"
      "relinked ?s1 s2" "tm_rep s2 (L(c := ys @ zs))" by (rule cancel_unlink_rep [OF rep1 xs])
    ultimately have run: "local_timer_cancel clock c e s = Returns (0, release_timers c (rearm clock c s2))"
      by (simp add: local_timer_cancel_def acq looped_def)
    let ?s3 = "release_timers c (rearm clock c s2)"
    note rest = relinked_rest [OF s2(2), simplified]
    have rm: "remove1 e (L c) = ys @ zs" using xs e by simp
    have due: "due_at s2 = due_at s" using relinked_due [OF s2(2)] by (simp add: tm_simps)
    show ?thesis
      unfolding rm if_P [OF True]
    proof (intro exI conjI)
      show "local_timer_cancel clock c e s = Returns (0, ?s3)" by (rule run)
      show "tm_rep ?s3 (L(c := ys @ zs))" using s2(3) by (rule tm_rep_transfer) simp_all
      show "due_at ?s3 = due_at s" using due by (simp add: due_at_def [abs_def])
      show "tm_locked ?s3 = tm_locked s" using rest(1) assms(2) by (simp add: release_timers_def)
      show "tm_curr_cpu ?s3 = tm_curr_cpu s" "tm_num_cpus ?s3 = tm_num_cpus s" "tm_world ?s3 = tm_world s"
        using rest by simp_all
      show "tm_hardware ?s3 = (tm_hardware s)(tm_curr_cpu s :=
          armed_for (due_at s) (clock (tm_reads s)) (ys @ zs))"
        using rearm_hardware [OF s2(3), of clock c] rest due by simp
    qed
  next
    case False
    with cancel_search_missing [OF ch [unfolded links_def]] obtain q where
      "cancel_search (tm_event s) e None (tm_events s c) = Some (False, q)" by blast
    then have run: "local_timer_cancel clock c e s = Returns (ERR_GENERAL, rearm clock c (release_timers c ?s1))"
      by (simp add: local_timer_cancel_def acq looped_def)
    have rep: "tm_rep (release_timers c ?s1) L" using assms(1) by (rule tm_rep_transfer) simp_all
    let ?s3 = "rearm clock c (release_timers c ?s1)"
    have rm: "remove1 e (L c) = L c" using False by (simp add: remove1_idem)
    show ?thesis
      unfolding rm if_not_P [OF False]
    proof (intro exI conjI)
      show "local_timer_cancel clock c e s = Returns (ERR_GENERAL, ?s3)" by (rule run)
      show "tm_rep ?s3 (L(c := L c))" unfolding fun_upd_triv using rep by (rule tm_rep_transfer) simp_all
      show "due_at ?s3 = due_at s" by (simp add: due_at_def [abs_def])
      show "tm_locked ?s3 = tm_locked s" using assms(2) by (auto simp: release_timers_def)
      show "tm_curr_cpu ?s3 = tm_curr_cpu s" "tm_num_cpus ?s3 = tm_num_cpus s" "tm_world ?s3 = tm_world s"
        by simp_all
      have "due_at (release_timers c ?s1) = due_at s" by (simp add: due_at_def [abs_def])
      then show "tm_hardware ?s3 = (tm_hardware s)(tm_curr_cpu s :=
          armed_for (due_at s) (clock (tm_reads s)) (L c))"
        using rearm_hardware [OF rep, of clock c] by simp
    qed
  qed
qed

text \<open>The walk over the other CPUs finds an event whatever it left in the previous-element pointer.\<close>

lemma cancel_others_spec:
  assumes "tm_rep s L" and "\<forall>c. \<not> tm_locked s c" and "e \<notin> set (L here)"
  shows "\<exists>s'. cancel_others e here prev cpus s = Returns (\<exists>c \<in> set cpus. e \<in> set (L c), s') \<and>
           tm_rep s' (\<lambda>c. if c \<in> set cpus then remove1 e (L c) else L c) \<and>
           due_at s' = due_at s \<and> tm_locked s' = tm_locked s \<and> tm_hardware s' = tm_hardware s"
  using assms(1,2)
proof (induction cpus arbitrary: s prev)
  case Nil
  then show ?case by auto
next
  case (Cons c cpus)
  let ?s1 = "s\<lparr>tm_locked := (tm_locked s)(c := True)\<rparr>"
  have acq: "acquire_timers c s = Returns ?s1" using Cons.prems(2) by (simp add: acquire_timers_def)
  have rep1: "tm_rep ?s1 L" using Cons.prems(1) by (rule tm_rep_transfer) simp_all
  note ch = tm_repD(1) [OF Cons.prems(1), of c]
  let ?U = "\<lambda>cs d. if d \<in> set cs then remove1 e (L d) else L d"
  show ?case
  proof (cases "e \<in> set (L c)")
    case True
    then have here: "c \<noteq> here" using assms(3) by blast
    from True obtain ys zs where xs: "L c = ys @ e # zs" and e: "e \<notin> set ys" by (auto dest: split_list_first)
    have "cancel_search (tm_event s) e prev (tm_events s c) = Some (True, if ys = [] then prev else Some (last ys))"
      using chain_split(1) [OF ch [unfolded xs]] e by (intro cancel_search_found) (simp_all add: links_def)
    moreover obtain s2 where s2: "cancel_unlink c e (if ys = [] then prev else Some (last ys)) ?s1 = Returns s2"
      "relinked ?s1 s2" "tm_rep s2 (L(c := ys @ zs))" by (rule cancel_unlink_rep [OF rep1 xs])
    ultimately have run: "cancel_others e here prev (c # cpus) s = Returns (True, release_timers c s2)"
      using here by (simp add: acq looped_def)
    note rest = relinked_rest [OF s2(2), simplified]
    have "e \<notin> set (L d)" if "d \<noteq> c" for d using tm_repD(4) [OF Cons.prems(1)] True that by blast
    then have L: "?U (c # cpus) = L(c := ys @ zs)" using xs e by (auto simp: remove1_idem)
    have due: "due_at s2 = due_at s" using relinked_due [OF s2(2)] by (simp add: tm_simps)
    show ?thesis
      unfolding L
    proof (intro exI conjI)
      show "cancel_others e here prev (c # cpus) s =
          Returns (\<exists>c \<in> set (c # cpus). e \<in> set (L c), release_timers c s2)" using run True by simp
      show "tm_rep (release_timers c s2) (L(c := ys @ zs))" using s2(3) by (rule tm_rep_transfer) simp_all
      show "due_at (release_timers c s2) = due_at s" using due by (simp add: due_at_def [abs_def])
      show "tm_locked (release_timers c s2) = tm_locked s"
        using rest(1) Cons.prems(2) by (simp add: release_timers_def)
      show "tm_hardware (release_timers c s2) = tm_hardware s" using rest by simp
    qed
  next
    case False
    have L: "?U (c # cpus) = ?U cpus" using False by (auto simp: remove1_idem)
    have mem: "(\<exists>c \<in> set (c # cpus). e \<in> set (L c)) \<longleftrightarrow> (\<exists>c \<in> set cpus. e \<in> set (L c))" using False by simp
    have step: "\<exists>q. cancel_others e here prev (c # cpus) s = cancel_others e here q cpus s"
    proof (cases "c = here")
      case True
      then show ?thesis by auto
    next
      case c: False
      from cancel_search_missing [OF ch [unfolded links_def] False] obtain q where
        "cancel_search (tm_event s) e prev (tm_events s c) = Some (False, q)" by blast
      moreover have "release_timers c ?s1 = s" using Cons.prems(2) by (simp add: release_timers_def)
      ultimately show ?thesis using c by (auto simp: acq looped_def)
    qed
    then obtain q where q: "cancel_others e here prev (c # cpus) s = cancel_others e here q cpus s" by blast
    from Cons.IH [OF Cons.prems, of q] show ?thesis unfolding L mem q .
  qed
qed

text \<open>
  \<open>timer_cancel_event\<close> takes a pending timer out of the queue it is in, on whatever CPU,
  and leaves every other timer where it was; the hardware timer of the current CPU is armed for
  what is left of its queue and no lock stays held. The return value is the wrong way round for
  the common case: a timer found on the current CPU gives \<open>ERR_GENERAL\<close>, as if it had not been
  found, and only one found on another CPU gives 0.
\<close>

theorem timer_cancel_event_correct:
  assumes "tm_rep s L" and "\<forall>c. \<not> tm_locked s c"
    and "e \<in> set (L c)" and "c < tm_num_cpus s"
  shows "\<exists>s'. timer_cancel_event clock e s = Returns (if c = tm_curr_cpu s then ERR_GENERAL else 0, s') \<and>
           tm_rep s' (L(c := remove1 e (L c))) \<and> due_at s' = due_at s \<and> tm_locked s' = tm_locked s \<and>
           tm_hardware s' = (tm_hardware s)(tm_curr_cpu s :=
             armed_for (due_at s) (clock (tm_reads s)) (remove1 e (L (tm_curr_cpu s))))"
proof -
  let ?h = "tm_curr_cpu s"
  have pending: "te_sched_time (tm_event s e) \<noteq> 0" using tm_repD(3) [OF assms(1,3)] by (simp add: due_at_def)
  have only: "e \<notin> set (L d)" if "d \<noteq> c" for d 
    using tm_repD(4) [OF assms(1), of c d e] assms(3) that by auto
  obtain s1 where s1: "local_timer_cancel clock ?h e s = Returns (if e \<in> set (L ?h) then 0 else ERR_GENERAL, s1)"
    "tm_rep s1 (L(?h := remove1 e (L ?h)))" "due_at s1 = due_at s" "tm_locked s1 = tm_locked s"
    "tm_hardware s1 = (tm_hardware s)(?h := armed_for (due_at s) (clock (tm_reads s)) (remove1 e (L ?h)))"
    using local_timer_cancel_spec [OF assms(1), of ?h clock e] assms(2) by auto
  show ?thesis
  proof (cases "c = ?h")
    case True
    then have "e \<in> set (L ?h)" using assms(3) by simp
    then have "timer_cancel_event clock e s = Returns (ERR_GENERAL, s1)"
      using pending s1(1) by (simp add: timer_cancel_event_def Let_def)
    with s1 True show ?thesis by auto
  next
    case False
    then have e: "e \<notin> set (L ?h)" using only by auto
    have rep1: "tm_rep s1 L" using s1(2) e by (simp add: remove1_idem)
    obtain s2 where s2: "cancel_others e ?h None [0..<tm_num_cpus s] s1 =
        Returns (\<exists>c \<in> set [0..<tm_num_cpus s]. e \<in> set (L c), s2)"
      "tm_rep s2 (\<lambda>d. if d \<in> set [0..<tm_num_cpus s] then remove1 e (L d) else L d)"
      "due_at s2 = due_at s1" "tm_locked s2 = tm_locked s1" "tm_hardware s2 = tm_hardware s1"
      using cancel_others_spec [OF rep1, of e ?h None "[0..<tm_num_cpus s]"] assms(2) s1(4) e by auto
    have "(\<lambda>d. if d \<in> set [0..<tm_num_cpus s] then remove1 e (L d) else L d) = L(c := remove1 e (L c))"
      using only assms(4) by (auto simp: remove1_idem)
    with s2(2) have rep: "tm_rep s2 (L(c := remove1 e (L c)))" by simp
    have "\<exists>c \<in> set [0..<tm_num_cpus s]. e \<in> set (L c)" using assms(3,4) by auto
    then have "timer_cancel_event clock e s = Returns (0, s2)"
      using pending s1(1) s2(1) e by (simp add: timer_cancel_event_def ERR_GENERAL_def Let_def)
    with rep s2 s1 False show ?thesis by auto
  qed
qed

section \<open>The timer interrupt\<close>

text \<open>
  The callbacks of the kernel (\<open>sem_timeout\<close>, \<open>reschedule_event\<close>) do not touch the timer
  queues: they work on the rest of the kernel, the field \<open>tm_world\<close>, and return whether to
  reschedule.
\<close>

definition quiet_callback ::
  "(nat \<Rightarrow> nat \<Rightarrow> 'w \<Rightarrow> int) \<Rightarrow> (nat \<Rightarrow> nat \<Rightarrow> 'w \<Rightarrow> 'w) \<Rightarrow> 'w callback" where
  "quiet_callback r upd f d s = Returns (r f d (tm_world s), s\<lparr>tm_world := upd f d (tm_world s)\<rparr>)"

definition call_event ::
  "(nat \<Rightarrow> nat \<Rightarrow> 'w \<Rightarrow> int) \<Rightarrow> (nat \<Rightarrow> nat \<Rightarrow> 'w \<Rightarrow> 'w) \<Rightarrow> 'w timers \<Rightarrow> nat \<Rightarrow> int \<times> 'w \<Rightarrow> int \<times> 'w" where
  "call_event r upd s e p =
     (case te_func (tm_event s e) of
        None \<Rightarrow> p
      | Some f \<Rightarrow>
          (if r f (te_data (tm_event s e)) (snd p) = INT_RESCHEDULE then INT_RESCHEDULE else fst p,
           upd f (te_data (tm_event s e)) (snd p)))"

definition periodic :: "'w timers \<Rightarrow> nat \<Rightarrow> bool" where
  "periodic s e \<longleftrightarrow> te_mode (tm_event s e) = TIMER_MODE_PERIODIC"

definition period :: "'w timers \<Rightarrow> nat \<Rightarrow> int" where
  "period s e = te_periodic_time (tm_event s e)"

definition same_setup :: "'w timers \<Rightarrow> 'w timers \<Rightarrow> bool" where
  "same_setup s s' \<longleftrightarrow> (\<forall>a. setup_of (tm_event s' a) = setup_of (tm_event s a))"

lemma same_setupD:
  assumes "same_setup s s'"
  shows "call_event r upd s' = call_event r upd s" and "periodic s' = periodic s" and "period s' = period s"
proof -
  have e: "setup_of (tm_event s' a) = setup_of (tm_event s a)" for a using assms by (simp add: same_setup_def)
  then have "te_func (tm_event s' a) = te_func (tm_event s a)" "te_data (tm_event s' a) = te_data (tm_event s a)"
    and e1: "te_mode (tm_event s' a) = te_mode (tm_event s a)"
    and e2: "te_periodic_time (tm_event s' a) = te_periodic_time (tm_event s a)" for a
    by (simp_all add: setup_of_def)
  then show "call_event r upd s' = call_event r upd s" by (intro ext) (simp add: call_event_def split: option.split)
  show "periodic s' = periodic s" "period s' = period s"
    by (rule ext, simp add: periodic_def period_def e1 e2)+
qed

text \<open>Taking the head off a queue.\<close>

lemma tm_rep_pop:
  assumes "tm_rep s L" and "L c = e # xs"
  shows "tm_rep (put_head c (te_next (tm_event s e)) s) (L(c := xs))"
proof -
  let ?s = "put_head c (te_next (tm_event s e)) s"
  have "relinked s ?s" by (simp add: relinked_def put_head_def)
  moreover have "chain (links ?s) (tm_events ?s c) xs"
    using tm_repD(1) [OF assms(1), of c] assms(2) by (simp add: tm_simps) (simp add: links_def)
  moreover have "sorted (map (due_at s) xs)" using tm_repD(2) [OF assms(1), of c] assms(2) by simp
  moreover have "\<forall>a \<in> set xs. due_at s a \<noteq> 0"
    using tm_repD(3) [OF assms(1), of _ c] assms(2) by simp
  moreover have "\<forall>d. d \<noteq> c \<longrightarrow> tm_events ?s d = tm_events s d \<and> set xs \<inter> set (L d) = {}"
    using tm_repD(4) [OF assms(1), of c] assms(2) by (auto simp: tm_simps)
  moreover have "\<forall>a. a \<notin> set xs \<union> set (L c) \<longrightarrow> links ?s a = links s a" by (simp add: tm_simps)
  ultimately show ?thesis by (rule tm_rep_update [OF assms(1)])
qed

text \<open>What stays the same while the events of a CPU are run.\<close>

definition interrupt_frame :: "'w timers \<Rightarrow> 'w timers \<Rightarrow> bool" where
  "interrupt_frame s s' \<longleftrightarrow>
     same_setup s s' \<and> tm_locked s' = tm_locked s \<and> tm_hardware s' = tm_hardware s \<and>
     tm_curr_cpu s' = tm_curr_cpu s \<and> tm_reads s \<le> tm_reads s'"

lemma interrupt_frame_refl: "interrupt_frame s s"
  by (simp add: interrupt_frame_def same_setup_def)

lemma interrupt_frame_trans: "interrupt_frame s s' \<Longrightarrow> interrupt_frame s' s'' \<Longrightarrow> interrupt_frame s s''"
  by (simp add: interrupt_frame_def same_setup_def)

lemma run_quiet_callback:
  "run_callback (quiet_callback r upd) e rc s =
   Returns (fst (call_event r upd s e (rc, tm_world s)), s\<lparr>tm_world := snd (call_event r upd s e (rc, tm_world s))\<rparr>)"
  by (simp add: run_callback_def quiet_callback_def call_event_def split: option.split)

lemma fire_spec:
  assumes "tm_rep s L" and "tm_locked s cpu" and "L cpu = e # xs" and "0 < clock (tm_reads s)"
    and "periodic s e \<longrightarrow> 0 \<le> period s e \<and> clock (tm_reads s) + period s e < 2 ^ 63"
  shows "\<exists>s1. fire (quiet_callback r upd) clock cpu e rc s =
             Returns (fst (call_event r upd s e (rc, tm_world s)), s1) \<and>
           tm_world s1 = snd (call_event r upd s e (rc, tm_world s)) \<and> interrupt_frame s s1 \<and>
           due_at s1 = (due_at s)(e := if periodic s e then clock (tm_reads s) + period s e else 0) \<and>
           tm_rep s1 (L(cpu := if periodic s e then insert_event (due_at s1) e xs else xs))"
proof -
  let ?p = "call_event r upd s e (rc, tm_world s)"
  let ?s1 = "put_head cpu (te_next (tm_event s e)) s"
  let ?s2 = "put_event e ((tm_event ?s1 e)\<lparr>te_sched_time := 0\<rparr>) ?s1"
  let ?s3 = "release_timers cpu ?s2\<lparr>tm_world := snd ?p\<rparr>"
  let ?s4 = "?s3\<lparr>tm_locked := (tm_locked ?s3)(cpu := True)\<rparr>"
  have fresh: "\<forall>c. e \<notin> set ((L(cpu := xs)) c)"
    using tm_repD(4) [OF assms(1), of cpu _ e] tm_repD(1) [OF assms(1), of cpu] assms(3)
    by (auto dest: chain_head_notin)
  have rep2: "tm_rep ?s2 (L(cpu := xs))" by (rule tm_rep_fresh [OF tm_rep_pop [of s L cpu e xs] fresh]) (rule assms)+
  have ev4: "tm_event ?s4 = tm_event ?s2" "tm_events ?s4 = tm_events ?s2" by simp_all
  have rep4: "tm_rep ?s4 (L(cpu := xs))" by (rule tm_rep_transfer [OF rep2 ev4])
  have due4: "due_at ?s4 = (due_at s)(e := 0)"
    by (rule ext) (simp add: due_at_def put_event_def put_head_def)
  have su4: "setup_of (tm_event ?s4 a) = setup_of (tm_event s a)" for a
    by (simp add: put_event_def put_head_def setup_of_def)
  have lock4: "tm_locked ?s4 = tm_locked s"
    using assms(2) by (simp add: release_timers_def put_event_def put_head_def fun_upd_idem)
  have rest4: "tm_hardware ?s4 = tm_hardware s" "tm_curr_cpu ?s4 = tm_curr_cpu s" "tm_reads ?s4 = tm_reads s"
    "tm_world ?s4 = snd ?p"
    by (simp_all add: put_event_def put_head_def)
  have frame4: "interrupt_frame s ?s4"
    unfolding interrupt_frame_def same_setup_def using su4 lock4 rest4 by simp
  have cb: "run_callback (quiet_callback r upd) e rc (release_timers cpu ?s2) = Returns (fst ?p, ?s3)"
  proof -
    have "same_setup s (release_timers cpu ?s2)"
      by (simp add: same_setup_def setup_of_def put_event_def put_head_def)
    then have "call_event r upd (release_timers cpu ?s2) = call_event r upd s" by (rule same_setupD)
    then show ?thesis unfolding run_quiet_callback by (simp add: put_event_def put_head_def)
  qed
  have acq: "acquire_timers cpu ?s3 = Returns ?s4" by (simp add: acquire_timers_def release_timers_def)
  have run: "fire (quiet_callback r upd) clock cpu e rc s =
      (if periodic s e then obind (reschedule_periodic clock cpu e ?s4) (\<lambda>s5. Returns (fst ?p, s5))
       else Returns (fst ?p, ?s4))"
    unfolding fire_def Let_def cb obind.simps prod.case acq by (simp add: periodic_def)
  obtain s4 where s4: "s4 = ?s4" by simp
  note rep4 = rep4 [folded s4] and due4 = due4 [folded s4] and su4 = su4 [folded s4] and lock4 = lock4 [folded s4]
    and rest4 = rest4 [folded s4] and frame4 = frame4 [folded s4] and run = run [folded s4]
  show ?thesis
  proof (cases "periodic s e")
    case False
    show ?thesis
      unfolding if_not_P [OF False]
      using run False rep4 due4 frame4 rest4(4) by (intro exI [of _ s4] conjI) simp_all
  next
    case True
    let ?t = "clock (tm_reads s) + period s e"
    have t: "0 < ?t" "?t < 2 ^ 63" using True assms(4,5) by auto
    let ?r = "s4\<lparr>tm_reads := Suc (tm_reads s)\<rparr>"
    let ?s5 = "put_event e ((tm_event ?r e)\<lparr>te_sched_time := ?t\<rparr>) ?r"
    have per: "te_periodic_time (tm_event ?r e) = period s e"
      using su4 [of e] by (simp add: setup_of_def period_def)
    have nz: "nonzero_time (s64 ?t) = ?t" using t by (simp add: nonzero_time_def)
    have resched: "reschedule_periodic clock cpu e s4 = add_event_to_list e cpu ?s5"
      unfolding reschedule_periodic_def system_time_def Let_def prod.case per rest4(3) nz ..
    have "tm_rep ?r (L(cpu := xs))" by (rule tm_rep_transfer [OF rep4]) simp_all
    then have rep5: "tm_rep ?s5 (L(cpu := xs))" using fresh by (rule tm_rep_fresh)
    have due5: "due_at ?s5 = (due_at s)(e := ?t)"
    proof (rule ext)
      fix a
      have "due_at ?r a = due_at s4 a" by (simp add: due_at_def)
      with due4 show "due_at ?s5 a = ((due_at s)(e := ?t)) a" by (simp add: due_at_put_event)
    qed
    have "due_at ?s5 e \<noteq> 0" unfolding due5 using t(1) by simp
    then obtain s6 where s6: "add_event_to_list e cpu ?s5 = Returns s6" "relinked ?s5 s6"
      "tm_rep s6 ((L(cpu := xs))(cpu := insert_event (due_at ?s5) e ((L(cpu := xs)) cpu)))"
      by (rule add_event_rep [OF rep5 fresh])
    note rest6 = relinked_rest [OF s6(2)]
    have due6: "due_at s6 = (due_at s)(e := ?t)" using relinked_due [OF s6(2)] due5 by simp
    have rep6: "tm_rep s6 (L(cpu := insert_event (due_at s6) e xs))" using s6(3) due5 due6 by simp
    have w6: "tm_world s6 = snd ?p" using rest6(6) rest4 by (simp add: put_event_def)
    have rd: "tm_reads s6 = Suc (tm_reads s)" using rest6(5) by (simp add: put_event_def)
    have su6: "setup_of (tm_event s6 a) = setup_of (tm_event s a)" for a
      using relinked_setup [OF s6(2), of a] su4 [of a] su4 [of e]
      by (cases "a = e") (simp_all add: event_put_event setup_of_def)
    have "tm_locked s6 = tm_locked s" "tm_hardware s6 = tm_hardware s" "tm_curr_cpu s6 = tm_curr_cpu s"
      using rest6(1-3) lock4 rest4 by (simp_all add: put_event_def)
    then have frame6: "interrupt_frame s s6"
      using su6 rd by (simp add: interrupt_frame_def same_setup_def)
    have "fire (quiet_callback r upd) clock cpu e rc s = Returns (fst ?p, s6)"
      using run True resched s6(1) by simp
    with w6 frame6 due6 rep6 True show ?thesis by auto
  qed
qed

lemma insert_event_append:
  "\<forall>a \<in> set xs. due a < due e \<Longrightarrow> insert_event due e (xs @ ys) = xs @ insert_event due e ys"
  by (simp add: insert_event_def)

lemma timer_scan_end:
  assumes "tm_rep s L" and "\<forall>a \<in> set (L cpu). now \<le> due_at s a"
  shows "timer_scan call clock cpu now rc s = Some (Returns (rc, s))"
proof (cases "L cpu")
  case Nil
  with tm_repD(1) [OF assms(1), of cpu] show ?thesis by (simp add: timer_scan.simps)
next
  case (Cons a xs)
  with tm_repD(1) [OF assms(1), of cpu] have "tm_events s cpu = Some a" by simp
  with assms(2) Cons show ?thesis by (simp add: timer_scan.simps due_at_def)
qed

lemma timer_scan_step:
  assumes "tm_rep s L" and "L cpu = e # xs" and "due_at s e < now"
    and "fire call clock cpu e rc s = Returns (rc1, s1)"
  shows "timer_scan call clock cpu now rc s = timer_scan call clock cpu now rc1 s1"
proof -
  have "tm_events s cpu = Some e" using tm_repD(1) [OF assms(1), of cpu] assms(2) by simp
  with assms(3,4) show ?thesis by (simp add: timer_scan.simps [of call clock cpu now rc s] due_at_def)
qed

text \<open>
  One scan, with the queue split into the events that are due and the rest. A periodic event
  goes back behind everything that is due, so the scan ends.
\<close>

definition scanned :: "(nat \<Rightarrow> nat \<Rightarrow> 'w \<Rightarrow> int) \<Rightarrow> (nat \<Rightarrow> nat \<Rightarrow> 'w \<Rightarrow> 'w) \<Rightarrow> int \<Rightarrow> nat \<Rightarrow> nat list \<Rightarrow> nat list \<Rightarrow>
    (nat \<Rightarrow> nat list) \<Rightarrow> 'w timers \<Rightarrow> int \<Rightarrow> 'w timers \<Rightarrow> nat list \<Rightarrow> bool" where
  "scanned r upd now cpu due rest L s rc s' xs \<longleftrightarrow>
     tm_world s' = snd (fold (call_event r upd s) due (rc, tm_world s)) \<and> interrupt_frame s s' \<and>
     tm_rep s' (L(cpu := xs)) \<and> set xs = set rest \<union> {a \<in> set due. periodic s a} \<and>
     (\<forall>a \<in> set xs. now \<le> due_at s' a) \<and> (\<forall>a \<in> set due. \<not> periodic s a \<longrightarrow> due_at s' a = 0) \<and>
     (\<forall>a. a \<notin> set due \<longrightarrow> due_at s' a = due_at s a)"

lemma timer_scan_spec:
  assumes "tm_rep s L" and "tm_locked s cpu" and "L cpu = due @ rest"
    and "\<forall>a \<in> set due. due_at s a < now" and "\<forall>a \<in> set rest. now \<le> due_at s a"
    and "0 < now" and "\<forall>n \<ge> tm_reads s. now \<le> clock n"
    and "\<forall>a \<in> set due. periodic s a \<longrightarrow> 0 \<le> period s a \<and> (\<forall>n. clock n + period s a < 2 ^ 63)"
  shows "\<exists>s' xs. timer_scan (quiet_callback r upd) clock cpu now rc s =
             Some (Returns (fst (fold (call_event r upd s) due (rc, tm_world s)), s')) \<and>
           scanned r upd now cpu due rest L s rc s' xs"
  using assms
proof (induction due arbitrary: s L rest rc)
  case Nil
  then have "\<forall>a \<in> set (L cpu). now \<le> due_at s a" by simp
  from timer_scan_end [OF Nil.prems(1) this] Nil.prems show ?case
    by (intro exI [of _ s] exI [of _ rest])
      (auto simp: scanned_def interrupt_frame_refl fun_upd_idem)
next
  case (Cons e ds)
  have L: "L cpu = e # (ds @ rest)" using Cons.prems(3) by simp
  have clk: "now \<le> clock (tm_reads s)" using Cons.prems(7) by simp
  have per: "periodic s e \<longrightarrow> 0 \<le> period s e \<and> clock (tm_reads s) + period s e < 2 ^ 63"
    using Cons.prems(8) by simp
  have pos: "0 < clock (tm_reads s)" using clk Cons.prems(6) by simp
  let ?p = "call_event r upd s e (rc, tm_world s)"
  from fire_spec [where clock = clock and r = r and upd = upd and rc = rc, OF Cons.prems(1,2) L pos per] obtain s1 where
    fire: "fire (quiet_callback r upd) clock cpu e rc s = Returns (fst ?p, s1)"
    and w1: "tm_world s1 = snd ?p" and frame: "interrupt_frame s s1"
    and due1: "due_at s1 = (due_at s)(e := if periodic s e then clock (tm_reads s) + period s e else 0)"
    and rep1: "tm_rep s1 (L(cpu := if periodic s e then insert_event (due_at s1) e (ds @ rest) else ds @ rest))"
    by blast
  have same: "same_setup s s1" and lock1: "tm_locked s1 = tm_locked s" and rd: "tm_reads s \<le> tm_reads s1"
    using frame by (simp_all add: interrupt_frame_def)
  note conf1 = same_setupD [OF same]
  have "distinct (L cpu)" using tm_repD(1) [OF Cons.prems(1), of cpu] by (rule chain_distinct)
  then have e: "e \<notin> set ds" "e \<notin> set rest" using L by auto
  let ?rest = "if periodic s e then insert_event (due_at s1) e rest else rest"
  have later: "now \<le> due_at s1 e" if "periodic s e" using that due1 clk per by simp
  have dsd: "\<forall>a \<in> set ds. due_at s1 a < now" using Cons.prems(4) due1 e by auto
  then have "\<forall>a \<in> set ds. due_at s1 a < due_at s1 e" if "periodic s e" using later [OF that] by fastforce
  then have split: "(if periodic s e then insert_event (due_at s1) e (ds @ rest) else ds @ rest) = ds @ ?rest"
    by (simp add: insert_event_append)
  let ?L = "L(cpu := ds @ ?rest)"
  have rest1: "\<forall>a \<in> set ?rest. now \<le> due_at s1 a"
    using Cons.prems(5) due1 e later by (auto simp: set_insert_event)
  have "\<exists>s' xs. timer_scan (quiet_callback r upd) clock cpu now (fst ?p) s1 =
             Some (Returns (fst (fold (call_event r upd s1) ds (fst ?p, tm_world s1)), s')) \<and>
           scanned r upd now cpu ds ?rest ?L s1 (fst ?p) s' xs"
  proof (rule Cons.IH)
    show "tm_rep s1 ?L" using rep1 unfolding split .
    show "?L cpu = ds @ ?rest" by simp
    show "tm_locked s1 cpu" using lock1 Cons.prems(2) by simp
    show "\<forall>n \<ge> tm_reads s1. now \<le> clock n" using Cons.prems(7) rd by auto
    show "\<forall>a \<in> set ds. periodic s1 a \<longrightarrow> 0 \<le> period s1 a \<and> (\<forall>n. clock n + period s1 a < 2 ^ 63)"
      using Cons.prems(8) unfolding conf1 by simp
  qed (fact dsd rest1 Cons.prems(6))+
  then obtain s' xs where
    scan: "timer_scan (quiet_callback r upd) clock cpu now (fst ?p) s1 =
      Some (Returns (fst (fold (call_event r upd s1) ds (fst ?p, tm_world s1)), s'))"
    and post: "scanned r upd now cpu ds ?rest ?L s1 (fst ?p) s' xs" by blast
  have "timer_scan (quiet_callback r upd) clock cpu now rc s =
      timer_scan (quiet_callback r upd) clock cpu now (fst ?p) s1"
    using L Cons.prems(4) by (intro timer_scan_step [OF Cons.prems(1) L _ fire]) simp
  moreover have fold: "fold (call_event r upd s1) ds (fst ?p, tm_world s1) =
      fold (call_event r upd s) (e # ds) (rc, tm_world s)"
    using w1 conf1(1) by simp
  moreover have "scanned r upd now cpu (e # ds) rest L s rc s' xs"
  proof -
    have "set xs = set rest \<union> {a \<in> set (e # ds). periodic s a}"
      using post conf1(2) by (auto simp: scanned_def set_insert_event)
    moreover have "due_at s' e = due_at s1 e" using post e by (simp add: scanned_def)
    ultimately show ?thesis
      using post fold conf1 due1 e interrupt_frame_trans [OF frame]
      unfolding scanned_def by auto
  qed
  ultimately show ?case using scan by auto
qed

lemma sorted_split_at:
  assumes "sorted (map f xs)"
  shows "\<forall>a \<in> set (dropWhile (\<lambda>a. f a < t) xs). t \<le> f a"
proof (cases "dropWhile (\<lambda>a. f a < t) xs")
  case (Cons y ys)
  then have "t \<le> f y" using hd_dropWhile [of "\<lambda>a. f a < t" xs] by simp
  moreover have "sorted (map f (takeWhile (\<lambda>a. f a < t) xs @ y # ys))" using assms Cons by (metis takeWhile_dropWhile_id)
  then have "\<forall>a \<in> set ys. f y \<le> f a" by (simp add: sorted_append)
  ultimately show ?thesis using Cons by fastforce
next
  case Nil
  show ?thesis unfolding Nil by simp
qed

text \<open>
  (C23) The timer interrupt returns: it calls, in the order of their times, the callback of
  every event of its CPU that was due when it started, once each, asks for a reschedule exactly
  when one of them did, takes the one-shot events off the queue (their time becomes zero), puts
  the periodic ones back one period ahead, and leaves a sorted queue with nothing due in it, the
  hardware timer armed for the head and no lock held.
\<close>

theorem timer_interrupt_correct:
  assumes "tm_rep s L" and "\<forall>c. \<not> tm_locked s c"
    and "mono clock" and "0 < clock (tm_reads s)"
    and "\<forall>a \<in> set (L (tm_curr_cpu s)). periodic s a \<longrightarrow> 0 \<le> period s a \<and> (\<forall>n. clock n + period s a < 2 ^ 63)"
  shows "\<exists>s' xs due. due = takeWhile (\<lambda>a. due_at s a < clock (tm_reads s)) (L (tm_curr_cpu s)) \<and>
    timer_interrupt (quiet_callback r upd) clock s =
      Returns (fst (fold (call_event r upd s) due (INT_NO_RESCHEDULE, tm_world s)), s') \<and>
    tm_world s' = snd (fold (call_event r upd s) due (INT_NO_RESCHEDULE, tm_world s)) \<and>
    tm_rep s' (L(tm_curr_cpu s := xs)) \<and>
    set xs = {a \<in> set (L (tm_curr_cpu s)). a \<in> set due \<longrightarrow> periodic s a} \<and>
    (\<forall>a \<in> set xs. clock (tm_reads s) \<le> due_at s' a) \<and>
    (\<forall>a \<in> set due. \<not> periodic s a \<longrightarrow> due_at s' a = 0) \<and>
    (xs \<noteq> [] \<longrightarrow> (\<exists>n > tm_reads s. tm_hardware s' (tm_curr_cpu s) = Some (s64 (due_at s' (hd xs) - clock n)))) \<and>
    tm_locked s' = tm_locked s"
proof -
  let ?c = "tm_curr_cpu s" and ?now = "clock (tm_reads s)"
  let ?due = "takeWhile (\<lambda>a. due_at s a < ?now) (L ?c)" and ?rest = "dropWhile (\<lambda>a. due_at s a < ?now) (L ?c)"
  let ?s1 = "s\<lparr>tm_reads := Suc (tm_reads s)\<rparr>"
  let ?s2 = "?s1\<lparr>tm_locked := (tm_locked s)(?c := True)\<rparr>"
  have same: "same_setup s ?s2" by (simp add: same_setup_def)
  note conf = same_setupD [OF same]
  have due2: "due_at ?s2 = due_at s" by (simp add: due_at_def [abs_def])
  have mem: "a \<in> set (L ?c)" if "a \<in> set ?due" for a using that by (auto dest: set_takeWhileD)
  have rep2: "tm_rep ?s2 L" using assms(1) by (rule tm_rep_transfer) simp_all
  have "\<exists>s' xs. timer_scan (quiet_callback r upd) clock ?c ?now INT_NO_RESCHEDULE ?s2 =
             Some (Returns (fst (fold (call_event r upd ?s2) ?due (INT_NO_RESCHEDULE, tm_world ?s2)), s')) \<and>
           scanned r upd ?now ?c ?due ?rest L ?s2 INT_NO_RESCHEDULE s' xs"
  proof (rule timer_scan_spec [OF rep2])
    show "L ?c = ?due @ ?rest" by simp
    show "\<forall>a \<in> set ?due. due_at ?s2 a < ?now" unfolding due2 by (auto dest: set_takeWhileD)
    show "\<forall>a \<in> set ?rest. ?now \<le> due_at ?s2 a"
      unfolding due2 by (rule sorted_split_at) (rule tm_repD(2) [OF assms(1)])
    show "\<forall>n \<ge> tm_reads ?s2. ?now \<le> clock n" using assms(3) by (simp add: mono_def)
    show "\<forall>a \<in> set ?due. periodic ?s2 a \<longrightarrow> 0 \<le> period ?s2 a \<and> (\<forall>n. clock n + period ?s2 a < 2 ^ 63)"
      using assms(5) mem conf by auto
  qed (use assms(4) in simp_all)
  then obtain s3 xs where
    scan: "timer_scan (quiet_callback r upd) clock ?c ?now INT_NO_RESCHEDULE ?s2 =
      Some (Returns (fst (fold (call_event r upd s) ?due (INT_NO_RESCHEDULE, tm_world s)), s3))"
    and post: "scanned r upd ?now ?c ?due ?rest L ?s2 INT_NO_RESCHEDULE s3 xs"
    unfolding conf by auto
  let ?s4 = "case tm_events s3 ?c of Some e \<Rightarrow> arm_for_head clock ?c e s3 | None \<Rightarrow> s3"
  let ?s' = "release_timers ?c ?s4"
  have acq: "acquire_timers ?c ?s1 = Returns ?s2" using assms(2) by (simp add: acquire_timers_def)
  have run: "timer_interrupt (quiet_callback r upd) clock s =
      Returns (fst (fold (call_event r upd s) ?due (INT_NO_RESCHEDULE, tm_world s)), ?s')"
    using acq scan
    by (simp add: timer_interrupt_def system_time_def looped_outcome_def Let_def split: option.split)
  have rep3: "tm_rep s3 (L(?c := xs))" and fr: "interrupt_frame ?s2 s3" using post by (simp_all add: scanned_def)
  have fr3: "tm_locked s3 = (tm_locked s)(?c := True)" "tm_curr_cpu s3 = ?c" "tm_reads s < tm_reads s3"
    using fr by (simp_all add: interrupt_frame_def)
  have ev: "tm_event ?s' = tm_event s3" "tm_events ?s' = tm_events s3" "tm_locked ?s4 = tm_locked s3"
    "tm_world ?s' = tm_world s3"
    by (simp_all add: arm_for_head_def system_time_def arch_timer_set_hardware_timer_def split: option.split)
  have due': "due_at ?s' = due_at s3" using ev(1) by (simp add: due_at_def [abs_def])
  have hw: "\<exists>n > tm_reads s. tm_hardware ?s' ?c = Some (s64 (due_at ?s' (hd xs) - clock n))" if "xs \<noteq> []"
  proof -
    from that obtain e ys where xs: "xs = e # ys" by (cases xs) auto
    then have "tm_events s3 ?c = Some e" using tm_repD(1) [OF rep3, of ?c] by simp
    then have "tm_hardware ?s' ?c = Some (s64 (due_at ?s' (hd xs) - clock (tm_reads s3)))"
      unfolding due' using fr3(2) xs
      by (simp add: arm_for_head_def system_time_def arch_timer_set_hardware_timer_def due_at_def)
    with fr3(3) show ?thesis by blast
  qed
  show ?thesis
  proof (rule exI [of _ ?s'], rule exI [of _ xs], rule exI [of _ ?due], intro conjI)
    show "tm_world ?s' = snd (fold (call_event r upd s) ?due (INT_NO_RESCHEDULE, tm_world s))"
      using post unfolding scanned_def conf ev(4) by simp
    show "tm_rep ?s' (L(?c := xs))" using rep3 ev(1,2) by (rule tm_rep_transfer)
    have "set (L ?c) = set (?due @ ?rest)" by simp
    moreover have "distinct (?due @ ?rest)" using chain_distinct [OF tm_repD(1) [OF assms(1), of ?c]] by simp
    moreover have "set xs = set ?rest \<union> {a \<in> set ?due. periodic s a}" using post conf by (simp add: scanned_def)
    ultimately show "set xs = {a \<in> set (L ?c). a \<in> set ?due \<longrightarrow> periodic s a}"
      unfolding distinct_append set_append by blast
    show "\<forall>a \<in> set xs. ?now \<le> due_at ?s' a" "\<forall>a \<in> set ?due. \<not> periodic s a \<longrightarrow> due_at ?s' a = 0"
      using post conf unfolding scanned_def due' by simp_all
    show "xs \<noteq> [] \<longrightarrow> (\<exists>n > tm_reads s. tm_hardware ?s' ?c = Some (s64 (due_at ?s' (hd xs) - clock n)))"
      using hw by blast
    show "tm_locked ?s' = tm_locked s" using ev(3) fr3(1) assms(2) by (simp add: release_timers_def)
  qed (use run in simp_all)
qed

section \<open>Witnesses\<close>

text \<open>
  Two CPUs at time 100: on CPU 0 event 1 (one-shot, due at 50), event 2 (periodic, every 20,
  due at 60) and event 3 (due at 200); on CPU 1 event 4.
\<close>

definition demo_event :: "nat ptr \<Rightarrow> timer_mode \<Rightarrow> int \<Rightarrow> nat \<Rightarrow> timer_event" where
  "demo_event nxt mode t d =
     \<lparr>te_next = nxt, te_mode = mode, te_sched_time = t, te_periodic_time = 20, te_func = Some 0, te_data = d\<rparr>"

definition demo_timers :: "nat list timers" where
  "demo_timers =
     \<lparr>tm_event = (\<lambda>a.
        if a = 1 then demo_event (Some 2) TIMER_MODE_ONESHOT 50 7
        else if a = 2 then demo_event (Some 3) TIMER_MODE_PERIODIC 60 8
        else if a = 3 then demo_event None TIMER_MODE_ONESHOT 200 9
        else if a = 4 then demo_event None TIMER_MODE_ONESHOT 300 10
        else demo_event None TIMER_MODE_ONESHOT 0 11),
      tm_events = (\<lambda>c. if c = 0 then Some 1 else if c = 1 then Some 4 else None),
      tm_locked = (\<lambda>c. False), tm_hardware = (\<lambda>c. None), tm_curr_cpu = 0, tm_num_cpus = 2,
      tm_reads = 0, tm_world = []\<rparr>"

definition demo_lists :: "nat \<Rightarrow> nat list" where
  "demo_lists c = (if c = 0 then [1, 2, 3] else if c = 1 then [4] else [])"

lemma demo_rep: "tm_rep demo_timers demo_lists"
  by (auto simp: tm_rep_def demo_timers_def demo_lists_def demo_event_def links_def due_at_def)

theorem timer_set_event_correct_witness:
  "\<exists>s'. timer_set_event (\<lambda>n. 100) 50 TIMER_MODE_ONESHOT (Some 5) demo_timers = Returns (0, s') \<and>
        tm_rep s' (demo_lists(0 := [1, 2, 5, 3])) \<and> te_sched_time (tm_event s' 5) = 150"
proof -
  have "\<forall>c. 5 \<notin> set (demo_lists c)" "te_sched_time (tm_event demo_timers 5) = 0" "tm_curr_cpu demo_timers = 0"
    "\<not> tm_locked demo_timers (tm_curr_cpu demo_timers)"
    by (simp_all add: demo_lists_def demo_timers_def demo_event_def)
  with timer_set_event_correct [OF demo_rep this(1,2,4), of "\<lambda>n. 100" 50 TIMER_MODE_ONESHOT] obtain s' where
    "timer_set_event (\<lambda>n. 100) 50 TIMER_MODE_ONESHOT (Some 5) demo_timers = Returns (0, s')"
    "tm_rep s' (demo_lists(0 := insert_event ((due_at demo_timers)(5 := 150)) 5 (demo_lists 0)))"
    "due_at s' = (due_at demo_timers)(5 := 150)"
    by (auto simp: nonzero_time_def)
  moreover have "insert_event ((due_at demo_timers)(5 := 150)) 5 (demo_lists 0) = [1, 2, 5, 3]"
    by (simp add: insert_event_def demo_lists_def demo_timers_def demo_event_def due_at_def)
  moreover have "te_sched_time (tm_event s' 5) = due_at s' 5" by (simp add: due_at_def)
  ultimately show ?thesis by auto
qed

theorem timer_cancel_event_correct_witness:
  "\<exists>s1 s2. timer_cancel_event (\<lambda>n. 100) 2 demo_timers = Returns (ERR_GENERAL, s1) \<and>
          tm_rep s1 (demo_lists(0 := [1, 3])) \<and>
          timer_cancel_event (\<lambda>n. 100) 4 demo_timers = Returns (0, s2) \<and> tm_rep s2 (demo_lists(1 := []))"
proof -
  have d: "\<forall>c. \<not> tm_locked demo_timers c" "tm_curr_cpu demo_timers = 0" "tm_num_cpus demo_timers = 2"
    "2 \<in> set (demo_lists 0)" "4 \<in> set (demo_lists 1)" "remove1 2 (demo_lists 0) = [1, 3]" "remove1 4 (demo_lists 1) = []"
    by (simp_all add: demo_lists_def demo_timers_def)
  from timer_cancel_event_correct [OF demo_rep d(1) d(4), of "\<lambda>n. 100"] d
  have "\<exists>s1. timer_cancel_event (\<lambda>n. 100) 2 demo_timers = Returns (ERR_GENERAL, s1) \<and> tm_rep s1 (demo_lists(0 := [1, 3]))"
    by auto
  moreover from timer_cancel_event_correct [OF demo_rep d(1) d(5), of "\<lambda>n. 100"] d
  have "\<exists>s2. timer_cancel_event (\<lambda>n. 100) 4 demo_timers = Returns (0, s2) \<and> tm_rep s2 (demo_lists(1 := []))"
    by auto
  ultimately show ?thesis by blast
qed

theorem timer_interrupt_correct_witness:
  "\<exists>s'. timer_interrupt (quiet_callback (\<lambda>f d w. if d = 8 then INT_RESCHEDULE else INT_NO_RESCHEDULE) (\<lambda>f d w. w @ [d]))
          (\<lambda>n. 100) demo_timers = Returns (INT_RESCHEDULE, s') \<and> tm_world s' = [7, 8] \<and>
        te_sched_time (tm_event s' 1) = 0"
proof -
  have d: "\<forall>c. \<not> tm_locked demo_timers c" "mono (\<lambda>n::nat. 100::int)" "0 < (100::int)"
    "\<forall>a \<in> set (demo_lists (tm_curr_cpu demo_timers)). periodic demo_timers a \<longrightarrow>
       0 \<le> period demo_timers a \<and> (\<forall>n::nat. 100 + period demo_timers a < 2 ^ 63)"
    by (simp_all add: demo_timers_def mono_def demo_lists_def period_def demo_event_def)
  have due: "takeWhile (\<lambda>a. due_at demo_timers a < 100) (demo_lists (tm_curr_cpu demo_timers)) = [1, 2]"
    and one: "\<not> periodic demo_timers 1"
    by (simp_all add: demo_timers_def demo_lists_def due_at_def demo_event_def periodic_def)
  let ?r = "\<lambda>f d (w::nat list). if d = (8::nat) then INT_RESCHEDULE else INT_NO_RESCHEDULE"
  have "fold (call_event ?r (\<lambda>f d w. w @ [d]) demo_timers) [1, 2] (INT_NO_RESCHEDULE, tm_world demo_timers) =
      (INT_RESCHEDULE, [7, 8])"
    by (simp add: call_event_def demo_timers_def demo_event_def)
  with timer_interrupt_correct [OF demo_rep d(1,2) d(3,4), of ?r "\<lambda>f d w. w @ [d]"] one
  show ?thesis unfolding due by (auto simp: due_at_def)
qed

end
