(* ===== verification/Sched.thy ===== *)
theory Sched
  imports Timer Thread_Queue "HOL-Library.Word"
begin

unbundle bit_operations_syntax

text \<open>
  Threads, run queues and the scheduler of \<open>thread.c\<close>. A thread queue is the list of its
  threads: \<open>Thread_Queue\<close> shows that the linked queues implement the list operations. The
  state of the kernel that the scheduler and the semaphores share is \<open>ks\<close>; it is the world of
  the timer queues, so a kernel call is a function on \<open>ks timers\<close>.
\<close>

section \<open>State\<close>

datatype thread_state =
  THREAD_STATE_READY | THREAD_STATE_RUNNING | THREAD_STATE_WAITING | THREAD_STATE_SUSPENDED |
  THREAD_STATE_FREE_ON_RESCHED | THREAD_STATE_BIRTH

record thread =
  th_id :: int
  th_priority :: int
  th_state :: thread_state
  th_next_state :: thread_state
  th_cpu :: "nat ptr"
  th_signals :: "32 word"
  th_in_kernel :: bool
  th_kernel_proc :: bool
  th_sem_blocking :: int
  th_sem_count :: int
  th_acquire_count :: int
  th_deleted_retcode :: int
  th_errcode :: int
  th_sem_flags :: "32 word"
  th_return_sem :: int
  th_kernel_time :: int
  th_last_time :: int

record sem_entry =
  se_id :: int
  se_count :: int
  se_q :: "nat list"
  se_name :: "8 word list ptr"
  se_owner :: int

text \<open>
  \<open>ks_all\<close> lists the threads of the thread table (\<open>Khash\<close> shows that a lookup by id finds the
  thread in it). The arguments of a timeout live on the stack of the thread that waits:
  \<open>ks_timeout t\<close> for thread \<open>t\<close>. \<open>ks_overrun\<close> counts the bytes written past the end of a
  name buffer.
\<close>

record timeout_args =
  ta_thread :: int
  ta_sem :: int
  ta_count :: int

record ks =
  ks_thread :: "nat \<Rightarrow> thread"
  ks_all :: "nat list"
  ks_run_q :: "nat \<Rightarrow> nat list"
  ks_dead_q :: "nat list"
  ks_current :: nat
  ks_preempted :: "nat \<Rightarrow> bool"
  ks_rand :: "32 word"
  ks_sems :: "nat \<Rightarrow> sem_entry"
  ks_sems_active :: bool
  ks_next_sem :: int
  ks_timeout :: "nat \<Rightarrow> timeout_args"
  ks_overrun :: nat

type_synonym kt = "ks timers"

definition in_world :: "(ks \<Rightarrow> ks) \<Rightarrow> kt \<Rightarrow> kt" where
  "in_world f k = k\<lparr>tm_world := f (tm_world k)\<rparr>"

definition set_thread :: "nat \<Rightarrow> (thread \<Rightarrow> thread) \<Rightarrow> ks \<Rightarrow> ks" where
  "set_thread t f s = s\<lparr>ks_thread := (ks_thread s)(t := f (ks_thread s t))\<rparr>"

definition set_run_q :: "nat \<Rightarrow> nat list \<Rightarrow> ks \<Rightarrow> ks" where
  "set_run_q p ts s = s\<lparr>ks_run_q := (ks_run_q s)(p := ts)\<rparr>"

section \<open>Run queues\<close>

definition THREAD_IDLE_PRIORITY :: nat where
  "THREAD_IDLE_PRIORITY = 0"

definition THREAD_NUM_PRIORITY_LEVELS :: nat where
  "THREAD_NUM_PRIORITY_LEVELS = 64"

definition THREAD_MAX_PRIORITY :: nat where
  "THREAD_MAX_PRIORITY = THREAD_NUM_PRIORITY_LEVELS - 16 - 1"

definition THREAD_MIN_PRIORITY :: nat where
  "THREAD_MIN_PRIORITY = THREAD_IDLE_PRIORITY + 1"

definition THREAD_MIN_RT_PRIORITY :: nat where
  "THREAD_MIN_RT_PRIORITY = THREAD_MAX_PRIORITY + 1"

definition THREAD_MAX_RT_PRIORITY :: nat where
  "THREAD_MAX_RT_PRIORITY = THREAD_NUM_PRIORITY_LEVELS - 1"

text \<open>A priority out of range is cut, in the thread itself.\<close>

definition thread_enqueue_run_q :: "nat \<Rightarrow> ks \<Rightarrow> ks" where
  "thread_enqueue_run_q t s =
     (let p = th_priority (ks_thread s t);
          p1 = (if int THREAD_MAX_PRIORITY < p then int THREAD_MAX_PRIORITY else p);
          p2 = (if p1 < 0 then 0 else p1);
          s1 = set_thread t (\<lambda>r. r\<lparr>th_priority := p2\<rparr>) s
      in set_run_q (nat p2) (ks_run_q s1 (nat p2) @ [t]) s1)"

definition thread_lookat_run_q :: "nat \<Rightarrow> ks \<Rightarrow> nat ptr" where
  "thread_lookat_run_q p s = (case ks_run_q s p of [] \<Rightarrow> None | t # _ \<Rightarrow> Some t)"

definition thread_dequeue_run_q :: "nat \<Rightarrow> ks \<Rightarrow> nat ptr \<times> ks" where
  "thread_dequeue_run_q p s =
     (case ks_run_q s p of [] \<Rightarrow> (None, s) | t # ts \<Rightarrow> (Some t, set_run_q p ts s))"

text \<open>The wake-up loops put a list of threads into the run queues.\<close>

definition ready_all :: "nat list \<Rightarrow> ks \<Rightarrow> ks" where
  "ready_all ts s = fold thread_enqueue_run_q ts s"

section \<open>The scheduler\<close>

text \<open>The pseudo-random numbers of \<open>_rand\<close>: a 32-bit linear congruence, seeded by the clock.\<close>

definition next_rand :: "(nat \<Rightarrow> int) \<Rightarrow> kt \<Rightarrow> int \<times> kt" where
  "next_rand clock k =
     (let (seed, k1) = (if ks_rand (tm_world k) = 0
                        then (case system_time clock k of (now, k1) \<Rightarrow> (word_of_int now, k1))
                        else (ks_rand (tm_world k), k));
          nxt = seed * 1103515245 + 12345
      in (uint ((drop_bit 16 nxt) AND 0x7FFF), in_world (\<lambda>s. s\<lparr>ks_rand := nxt\<rparr>) k1))"

fun search_rt :: "nat list \<Rightarrow> ks \<Rightarrow> nat ptr \<times> ks" where
  "search_rt [] s = (None, s)"
| "search_rt (p # ps) s =
     (case thread_dequeue_run_q p s of (Some t, s1) \<Rightarrow> (Some t, s1) | (None, s1) \<Rightarrow> search_rt ps s1)"

text \<open>
  The regular queues, highest first; a queue that has a thread is skipped about three times
  in eight. \<open>skipped\<close> is the last one skipped (\<open>last_thread_pri\<close>).
\<close>

fun search_regular :: "(nat \<Rightarrow> int) \<Rightarrow> nat list \<Rightarrow> nat option \<Rightarrow> kt \<Rightarrow> nat ptr \<times> nat option \<times> kt" where
  "search_regular clock [] skipped k = (None, skipped, k)"
| "search_regular clock (p # ps) skipped k =
     (case thread_lookat_run_q p (tm_world k) of
        None \<Rightarrow> search_regular clock ps skipped k
      | Some _ \<Rightarrow>
          (let (r, k1) = next_rand clock k
           in if 0x3000 < r
              then (case thread_dequeue_run_q p (tm_world k1) of (t, s) \<Rightarrow> (t, skipped, in_world (\<lambda>_. s) k1))
              else search_regular clock ps (Some p) k1))"

definition rt_queues :: "nat list" where
  "rt_queues = rev [THREAD_MIN_RT_PRIORITY..<Suc THREAD_MAX_RT_PRIORITY]"

definition regular_queues :: "nat list" where
  "regular_queues = rev [Suc THREAD_IDLE_PRIORITY..<Suc THREAD_MAX_PRIORITY]"

text \<open>When there is no thread at all the scheduler panics.\<close>

definition choose_thread :: "(nat \<Rightarrow> int) \<Rightarrow> kt \<Rightarrow> (nat \<times> kt) outcome" where
  "choose_thread clock k =
     (case search_rt rt_queues (tm_world k) of
        (Some t, s) \<Rightarrow> Returns (t, in_world (\<lambda>_. s) k)
      | (None, s) \<Rightarrow>
          (case search_regular clock regular_queues None (in_world (\<lambda>_. s) k) of
             (Some t, _, k1) \<Rightarrow> Returns (t, k1)
           | (None, skipped, k1) \<Rightarrow>
               (case thread_dequeue_run_q (case skipped of Some p \<Rightarrow> p | None \<Rightarrow> THREAD_IDLE_PRIORITY) (tm_world k1) of
                  (Some t, s1) \<Rightarrow> Returns (t, in_world (\<lambda>_. s1) k1)
                | (None, _) \<Rightarrow> Faults)))"

definition put_old_thread :: "ks \<Rightarrow> ks" where
  "put_old_thread s =
     (let old = ks_current s; nxt = th_next_state (ks_thread s old);
          s1 = (case nxt of
                  THREAD_STATE_RUNNING \<Rightarrow> thread_enqueue_run_q old s
                | THREAD_STATE_READY \<Rightarrow> thread_enqueue_run_q old s
                | THREAD_STATE_FREE_ON_RESCHED \<Rightarrow> s\<lparr>ks_dead_q := ks_dead_q s @ [old]\<rparr>
                | _ \<Rightarrow> s)
      in set_thread old (\<lambda>r. r\<lparr>th_state := th_next_state r\<rparr>) s1)"

text \<open>The events of the kernel: the quantum timer of a CPU and the timer on a thread's stack.\<close>

definition quantum_event :: "nat \<Rightarrow> nat" where
  "quantum_event cpu = 2 * cpu"

definition stack_event :: "nat \<Rightarrow> nat" where
  "stack_event t = 2 * t + 1"

definition RESCHEDULE_EVENT :: nat where
  "RESCHEDULE_EVENT = 0"

definition SEM_TIMEOUT :: nat where
  "SEM_TIMEOUT = 1"

definition reschedule_event :: "nat \<Rightarrow> ks \<Rightarrow> int \<times> ks" where
  "reschedule_event cpu s = (INT_RESCHEDULE, s\<lparr>ks_preempted := (ks_preempted s)(cpu := True)\<rparr>)"

definition restart_quantum :: "(nat \<Rightarrow> int) \<Rightarrow> nat \<Rightarrow> kt \<Rightarrow> kt outcome" where
  "restart_quantum clock cpu k =
     obind (if ks_preempted (tm_world k) cpu then Returns (0, k)
            else local_timer_cancel clock cpu (quantum_event cpu) k) (\<lambda>(_, k1).
       let k2 = in_world (\<lambda>s. s\<lparr>ks_preempted := (ks_preempted s)(cpu := False)\<rparr>) k1;
           k3 = timer_setup_timer (Some RESCHEDULE_EVENT) 0 (quantum_event cpu) k2
       in obind (timer_set_event clock 10000 TIMER_MODE_ONESHOT (Some (quantum_event cpu)) k3) (\<lambda>(_, k4). Returns k4))"

definition thread_context_switch :: "(nat \<Rightarrow> int) \<Rightarrow> nat \<Rightarrow> nat \<Rightarrow> kt \<Rightarrow> kt" where
  "thread_context_switch clock old nxt k =
     (let (now, k1) = system_time clock k
      in in_world (\<lambda>s.
           let s1 = set_thread old (\<lambda>r. r\<lparr>th_kernel_time := th_kernel_time r + (now - th_last_time r)\<rparr>) s;
               s2 = set_thread nxt (\<lambda>r. r\<lparr>th_last_time := now\<rparr>) s1;
               s3 = set_thread nxt (\<lambda>r. r\<lparr>th_cpu := th_cpu (ks_thread s2 old)\<rparr>) s2;
               s4 = s3\<lparr>ks_current := nxt\<rparr>
           in set_thread old (\<lambda>r. r\<lparr>th_cpu := None\<rparr>) s4) k1)"

definition thread_resched :: "(nat \<Rightarrow> int) \<Rightarrow> kt \<Rightarrow> kt outcome" where
  "thread_resched clock k =
     (let old = ks_current (tm_world k); k1 = in_world put_old_thread k
      in obind (choose_thread clock k1) (\<lambda>(nxt, k2).
           let k3 = in_world (set_thread nxt (\<lambda>r. r\<lparr>th_state := THREAD_STATE_RUNNING,
                                                   th_next_state := THREAD_STATE_READY\<rparr>)) k2
           in case th_cpu (ks_thread (tm_world k3) old) of
                None \<Rightarrow> Faults
              | Some cpu \<Rightarrow>
                  obind (restart_quantum clock cpu k3) (\<lambda>k4.
                    Returns (if nxt = old then k4 else thread_context_switch clock old nxt k4))))"

section \<open>What the scheduler chooses\<close>

text \<open>
  \<open>took p t k k'\<close>: the thread \<open>t\<close> was taken from the head of queue \<open>p\<close>; nothing else changed
  but the random state and the number of clock readings.
\<close>

definition idled :: "kt \<Rightarrow> kt \<Rightarrow> bool" where
  "idled k k' \<longleftrightarrow> (\<exists>r n. k' = k\<lparr>tm_reads := n, tm_world := (tm_world k)\<lparr>ks_rand := r\<rparr>\<rparr>)"

definition took :: "nat \<Rightarrow> nat \<Rightarrow> kt \<Rightarrow> kt \<Rightarrow> bool" where
  "took p t k k' \<longleftrightarrow>
     (\<exists>r n ts. ks_run_q (tm_world k) p = t # ts \<and>
        k' = k\<lparr>tm_reads := n, tm_world := (set_run_q p ts (tm_world k))\<lparr>ks_rand := r\<rparr>\<rparr>)"

lemma idled_refl: "idled k k"
  by (auto simp: idled_def intro!: exI [of _ "ks_rand (tm_world k)"] exI [of _ "tm_reads k"])

lemma idled_trans: "idled k k' \<Longrightarrow> idled k' k'' \<Longrightarrow> idled k k''"
  unfolding idled_def by (elim exE) (simp, intro exI, rule refl)

lemma idled_took: "idled k k' \<Longrightarrow> took p t k' k'' \<Longrightarrow> took p t k k''"
  by (fastforce simp: idled_def took_def set_run_q_def)

lemma idled_run_q: "idled k k' \<Longrightarrow> ks_run_q (tm_world k') = ks_run_q (tm_world k)"
  by (auto simp: idled_def)

lemma next_rand_idled: "idled k (snd (next_rand clock k))"
proof (cases "ks_rand (tm_world k) = 0")
  case True
  then show ?thesis
    unfolding idled_def by (simp add: next_rand_def in_world_def system_time_def Let_def) (intro exI, rule refl)
next
  case False
  then have "snd (next_rand clock k) =
      k\<lparr>tm_reads := tm_reads k, tm_world := (tm_world k)\<lparr>ks_rand := ks_rand (tm_world k) * 1103515245 + 12345\<rparr>\<rparr>"
    by (simp add: next_rand_def in_world_def Let_def)
  then show ?thesis unfolding idled_def by blast
qed

lemma take_took:
  assumes "ks_run_q (tm_world k) p = t # ts"
  shows "thread_dequeue_run_q p (tm_world k) = (Some t, set_run_q p ts (tm_world k))"
    and "took p t k (in_world (\<lambda>_. set_run_q p ts (tm_world k)) k)"
proof -
  show "thread_dequeue_run_q p (tm_world k) = (Some t, set_run_q p ts (tm_world k))"
    using assms by (simp add: thread_dequeue_run_q_def)
  have "in_world (\<lambda>_. set_run_q p ts (tm_world k)) k =
      k\<lparr>tm_reads := tm_reads k, tm_world := (set_run_q p ts (tm_world k))\<lparr>ks_rand := ks_rand (tm_world k)\<rparr>\<rparr>"
    by (simp add: in_world_def set_run_q_def)
  with assms show "took p t k (in_world (\<lambda>_. set_run_q p ts (tm_world k)) k)"
    unfolding took_def by blast
qed

lemma search_rt_spec:
  "case search_rt ps (tm_world k) of
     (Some t, s) \<Rightarrow> \<exists>p \<in> set ps. took p t k (in_world (\<lambda>_. s) k)
   | (None, s) \<Rightarrow> s = tm_world k \<and> (\<forall>p \<in> set ps. ks_run_q (tm_world k) p = [])"
proof (induction ps)
  case (Cons p ps)
  show ?case
  proof (cases "ks_run_q (tm_world k) p")
    case Nil
    then have "thread_dequeue_run_q p (tm_world k) = (None, tm_world k)" by (simp add: thread_dequeue_run_q_def)
    with Cons.IH Nil show ?thesis by (auto split: option.splits prod.splits)
  next
    case (Cons t ts)
    from take_took [OF Cons] show ?thesis by auto
  qed
qed simp

lemma search_regular_spec:
  "case search_regular clock ps skipped k of
     (Some t, _, k1) \<Rightarrow> \<exists>p \<in> set ps. took p t k k1
   | (None, sk, k1) \<Rightarrow> idled k k1 \<and>
       ((sk = skipped \<and> (\<forall>p \<in> set ps. ks_run_q (tm_world k) p = [])) \<or>
        (\<exists>p \<in> set ps. sk = Some p \<and> ks_run_q (tm_world k) p \<noteq> []))"
proof (induction ps arbitrary: skipped k)
  case Nil
  then show ?case by (simp add: idled_refl)
next
  case (Cons p ps)
  show ?case
  proof (cases "ks_run_q (tm_world k) p")
    case Nil
    then have "thread_lookat_run_q p (tm_world k) = None" by (simp add: thread_lookat_run_q_def)
    with Cons.IH [of k skipped] Nil show ?thesis by (auto split: option.splits prod.splits)
  next
    case q: (Cons t ts)
    obtain r k1 where rand: "next_rand clock k = (r, k1)" by (cases "next_rand clock k")
    with next_rand_idled [of k clock] have idl: "idled k k1" by simp
    then have q1: "ks_run_q (tm_world k1) p = t # ts" using q idled_run_q [OF idl] by simp
    have look: "thread_lookat_run_q p (tm_world k) = Some t" using q by (simp add: thread_lookat_run_q_def)
    show ?thesis
    proof (cases "0x3000 < r")
      case True
      then have "search_regular clock (p # ps) skipped k =
          (Some t, skipped, in_world (\<lambda>_. set_run_q p ts (tm_world k1)) k1)"
        using look rand take_took(1) [OF q1] by simp
      with idled_took [OF idl take_took(2) [OF q1]] show ?thesis by auto
    next
      case False
      then have step: "search_regular clock (p # ps) skipped k = search_regular clock ps (Some p) k1"
        using look rand by simp
      obtain res sk k2 where res: "search_regular clock ps (Some p) k1 = (res, sk, k2)"
        by (cases "search_regular clock ps (Some p) k1")
      show ?thesis
      proof (cases res)
        case None
        with Cons.IH [of k1 "Some p"] res have "idled k1 k2"
          "(sk = Some p) \<or> (\<exists>p \<in> set ps. sk = Some p \<and> ks_run_q (tm_world k1) p \<noteq> [])" by auto
        with idled_trans [OF idl] idled_run_q [OF idl] q None res step show ?thesis by auto
      next
        case (Some u)
        with Cons.IH [of k1 "Some p"] res obtain p' where "p' \<in> set ps" "took p' u k1 k2" by auto
        with idled_took [OF idl] Some res step show ?thesis by auto
      qed
    qed
  qed
qed

lemma choose_thread_spec:
  assumes "\<exists>p < THREAD_NUM_PRIORITY_LEVELS. ks_run_q (tm_world k) p \<noteq> []"
  obtains p t k' where "choose_thread clock k = Returns (t, k')" and "took p t k k'"
    and "p < THREAD_NUM_PRIORITY_LEVELS"
    and "p \<le> THREAD_MAX_PRIORITY \<longrightarrow>
      (\<forall>q. THREAD_MAX_PRIORITY < q \<and> q < THREAD_NUM_PRIORITY_LEVELS \<longrightarrow> ks_run_q (tm_world k) q = [])"
    and "p = THREAD_IDLE_PRIORITY \<longrightarrow>
      (\<forall>q. THREAD_IDLE_PRIORITY < q \<and> q < THREAD_NUM_PRIORITY_LEVELS \<longrightarrow> ks_run_q (tm_world k) q = [])"
proof -
  let ?rt = rt_queues and ?rg = regular_queues
  note prio = THREAD_MIN_RT_PRIORITY_def THREAD_MAX_RT_PRIORITY_def THREAD_MAX_PRIORITY_def
    THREAD_NUM_PRIORITY_LEVELS_def THREAD_IDLE_PRIORITY_def
  have rt: "set ?rt = {q. THREAD_MAX_PRIORITY < q \<and> q < THREAD_NUM_PRIORITY_LEVELS}"
    and rg: "set ?rg = {q. THREAD_IDLE_PRIORITY < q \<and> q \<le> THREAD_MAX_PRIORITY}"
    unfolding rt_queues_def regular_queues_def set_rev set_upt by (auto simp: prio)
  obtain r s where sr: "search_rt ?rt (tm_world k) = (r, s)" by (cases "search_rt ?rt (tm_world k)")
  show ?thesis
  proof (cases r)
    case (Some t)
    with search_rt_spec [of k ?rt] sr obtain p where p: "p \<in> set ?rt" "took p t k (in_world (\<lambda>_. s) k)" by auto
    have "choose_thread clock k = Returns (t, in_world (\<lambda>_. s) k)" using sr Some by (simp add: choose_thread_def)
    from that [OF this p(2)] p(1) rt show ?thesis by (auto simp: prio)
  next
    case None
    with search_rt_spec [of k ?rt] sr have s: "s = tm_world k" and emp: "\<forall>q \<in> set ?rt. ks_run_q (tm_world k) q = []"
      by auto
    have world: "in_world (\<lambda>_. s) k = k" using s by (simp add: in_world_def)
    obtain r2 sk k1 where sg: "search_regular clock ?rg None k = (r2, sk, k1)"
      by (cases "search_regular clock ?rg None k")
    show ?thesis
    proof (cases r2)
      case (Some t)
      with search_regular_spec [where k = k and clock = clock and ps = ?rg and skipped = None] sg obtain p where p: "p \<in> set ?rg" "took p t k k1" by auto
      have "choose_thread clock k = Returns (t, k1)" using sr sg Some None world by (simp add: choose_thread_def)
      from that [OF this p(2)] p(1) rg rt emp show ?thesis by (auto simp: prio)
    next
      case none: None
      let ?p = "case sk of Some p \<Rightarrow> p | None \<Rightarrow> THREAD_IDLE_PRIORITY"
      from none search_regular_spec [where k = k and clock = clock and ps = ?rg and skipped = None] sg have idl: "idled k k1"
        and sk: "(sk = None \<and> (\<forall>p \<in> set ?rg. ks_run_q (tm_world k) p = [])) \<or>
          (\<exists>p \<in> set ?rg. sk = Some p \<and> ks_run_q (tm_world k) p \<noteq> [])" by auto
      have "ks_run_q (tm_world k) ?p \<noteq> []"
      proof (cases sk)
        case None
        with sk have "\<forall>p \<in> set ?rg. ks_run_q (tm_world k) p = []" by auto
        moreover from assms obtain q where q: "q < THREAD_NUM_PRIORITY_LEVELS" "ks_run_q (tm_world k) q \<noteq> []" by blast
        ultimately have "q \<notin> set ?rt" "q \<notin> set ?rg" using emp by blast+
        then have "q = THREAD_IDLE_PRIORITY" using q(1) unfolding rt rg by (simp add: THREAD_IDLE_PRIORITY_def)
        with q(2) None show ?thesis by simp
      next
        case (Some p)
        with sk show ?thesis by auto
      qed
      then obtain t ts where q: "ks_run_q (tm_world k1) ?p = t # ts"
        using idled_run_q [OF idl] by (metis neq_Nil_conv)
      have run: "choose_thread clock k = Returns (t, in_world (\<lambda>_. set_run_q ?p ts (tm_world k1)) k1)"
        using sr sg None none world take_took(1) [OF q] by (simp add: choose_thread_def)
      have tk: "took ?p t k (in_world (\<lambda>_. set_run_q ?p ts (tm_world k1)) k1)"
        using idled_took [OF idl take_took(2) [OF q]] .
      have zero: "THREAD_IDLE_PRIORITY = 0" by (simp add: THREAD_IDLE_PRIORITY_def)
      have le: "?p \<le> THREAD_MAX_PRIORITY" using sk unfolding rg by (auto simp: zero)
      have idle: "?p = THREAD_IDLE_PRIORITY \<longrightarrow> (\<forall>p \<in> set ?rg. ks_run_q (tm_world k) p = [])"
        using sk unfolding rg by auto
      show ?thesis
      proof (rule that [OF run tk])
        show "?p < THREAD_NUM_PRIORITY_LEVELS" using le by (simp add: prio)
        show "?p \<le> THREAD_MAX_PRIORITY \<longrightarrow>
            (\<forall>q. THREAD_MAX_PRIORITY < q \<and> q < THREAD_NUM_PRIORITY_LEVELS \<longrightarrow> ks_run_q (tm_world k) q = [])"
          using emp rt by blast
        show "?p = THREAD_IDLE_PRIORITY \<longrightarrow>
            (\<forall>q. THREAD_IDLE_PRIORITY < q \<and> q < THREAD_NUM_PRIORITY_LEVELS \<longrightarrow> ks_run_q (tm_world k) q = [])"
        proof (intro impI allI)
          fix q
          assume "?p = THREAD_IDLE_PRIORITY" and q: "THREAD_IDLE_PRIORITY < q \<and> q < THREAD_NUM_PRIORITY_LEVELS"
          then have "\<forall>p \<in> set ?rg. ks_run_q (tm_world k) p = []" using idle by blast
          moreover have "q \<in> set ?rg \<or> q \<in> set ?rt" using q unfolding rt rg by auto
          ultimately show "ks_run_q (tm_world k) q = []" using emp by blast
        qed
      qed
    qed
  qed
qed

section \<open>The quantum timer\<close>

text \<open>
  What a reschedule needs: well-formed timer queues with no lock held, a current thread that
  knows its CPU, and the quantum timer of this CPU pending here or, after it fired, nowhere.
\<close>

definition sched_ok :: "kt \<Rightarrow> (nat \<Rightarrow> nat list) \<Rightarrow> bool" where
  "sched_ok k L \<longleftrightarrow>
     tm_rep k L \<and> (\<forall>c. \<not> tm_locked k c) \<and>
     th_cpu (ks_thread (tm_world k) (ks_current (tm_world k))) = Some (tm_curr_cpu k) \<and>
     (\<forall>c. quantum_event (tm_curr_cpu k) \<in> set (L c) \<longrightarrow>
          c = tm_curr_cpu k \<and> \<not> ks_preempted (tm_world k) (tm_curr_cpu k))"

lemma tm_rep_in_world [simp]: "tm_rep (in_world f k) L = tm_rep k L"
  by (rule iffI) (rule tm_rep_transfer, assumption, simp_all add: in_world_def)+

lemma in_world_simps [simp]:
  "tm_world (in_world f k) = f (tm_world k)" "tm_locked (in_world f k) = tm_locked k"
  "tm_curr_cpu (in_world f k) = tm_curr_cpu k" "tm_num_cpus (in_world f k) = tm_num_cpus k"
  "tm_event (in_world f k) = tm_event k" "tm_events (in_world f k) = tm_events k"
  "tm_reads (in_world f k) = tm_reads k"
  by (simp_all add: in_world_def)

lemma timer_setup_rest [simp]:
  "tm_world (timer_setup_timer f d e k) = tm_world k" "tm_locked (timer_setup_timer f d e k) = tm_locked k"
  "tm_curr_cpu (timer_setup_timer f d e k) = tm_curr_cpu k"
  "te_sched_time (tm_event (timer_setup_timer f d e k) e) = 0"
  by (simp_all add: timer_setup_timer_def put_event_def)

lemma timer_setup_rep: "tm_rep k L \<Longrightarrow> \<forall>c. e \<notin> set (L c) \<Longrightarrow> tm_rep (timer_setup_timer f d e k) L"
  unfolding timer_setup_timer_def by (rule tm_rep_fresh)

lemma restart_quantum_spec:
  assumes "tm_rep k L" and "\<forall>c. \<not> tm_locked k c" and "cpu = tm_curr_cpu k"
    and "\<forall>c. quantum_event cpu \<in> set (L c) \<longrightarrow> c = cpu \<and> \<not> ks_preempted (tm_world k) cpu"
  shows "\<exists>k' xs. restart_quantum clock cpu k = Returns k' \<and>
           tm_world k' = (tm_world k)\<lparr>ks_preempted := (ks_preempted (tm_world k))(cpu := False)\<rparr> \<and>
           tm_curr_cpu k' = tm_curr_cpu k \<and> tm_locked k' = tm_locked k \<and>
           tm_rep k' (L(cpu := xs)) \<and> set xs = insert (quantum_event cpu) (set (L cpu))"
proof -
  let ?q = "quantum_event cpu"
  let ?L1 = "L(cpu := remove1 ?q (L cpu))"
  have "\<exists>r k1. (if ks_preempted (tm_world k) cpu then Returns (0, k) else local_timer_cancel clock cpu ?q k) = Returns (r, k1) \<and>
      tm_rep k1 ?L1 \<and> tm_locked k1 = tm_locked k \<and> tm_curr_cpu k1 = tm_curr_cpu k \<and> tm_world k1 = tm_world k"
  proof (cases "ks_preempted (tm_world k) cpu")
    case True
    then have "?q \<notin> set (L cpu)" using assms(4) by blast
    then have "?L1 = L" by (simp add: remove1_idem)
    with assms(1) True show ?thesis by simp
  next
    case False
    have "\<not> tm_locked k cpu" using assms(2) by simp
    from local_timer_cancel_spec [OF assms(1) this, of clock ?q] show ?thesis
      unfolding if_not_P [OF False] by (elim exE conjE) (intro exI conjI; assumption)
  qed
  then obtain r k1 where
    k1: "(if ks_preempted (tm_world k) cpu then Returns (0, k) else local_timer_cancel clock cpu ?q k) = Returns (r, k1)"
    and rep1: "tm_rep k1 ?L1" and lk1: "tm_locked k1 = tm_locked k" and c1: "tm_curr_cpu k1 = tm_curr_cpu k"
    and w1: "tm_world k1 = tm_world k" by blast
  let ?k2 = "in_world (\<lambda>s. s\<lparr>ks_preempted := (ks_preempted s)(cpu := False)\<rparr>) k1"
  let ?k3 = "timer_setup_timer (Some RESCHEDULE_EVENT) 0 ?q ?k2"
  have dist: "distinct (L cpu)" using tm_repD(1) [OF assms(1), of cpu] by (rule chain_distinct)
  then have fresh: "\<forall>c. ?q \<notin> set (?L1 c)" using assms(4) by auto
  have "tm_rep ?k2 ?L1" using rep1 by simp
  then have rep3: "tm_rep ?k3 ?L1" using fresh by (rule timer_setup_rep)
  have z: "te_sched_time (tm_event ?k3 ?q) = 0" by simp
  have lk: "\<not> tm_locked ?k3 (tm_curr_cpu ?k3)" using assms(2) lk1 by simp
  from timer_set_event_spec [OF rep3 fresh z lk, of clock 10000 TIMER_MODE_ONESHOT] obtain k4 t xs where
    k4: "timer_set_event clock 10000 TIMER_MODE_ONESHOT (Some ?q) ?k3 = Returns (0, k4)"
    and xs: "xs = insert_event ((due_at ?k3)(?q := t)) ?q (?L1 (tm_curr_cpu ?k3))"
    and rep4: "tm_rep k4 (?L1(tm_curr_cpu ?k3 := xs))"
    and rest4: "tm_locked k4 = tm_locked ?k3" "tm_world k4 = tm_world ?k3" "tm_curr_cpu k4 = tm_curr_cpu ?k3" by blast
  have run: "restart_quantum clock cpu k = Returns k4"
    unfolding restart_quantum_def k1 by (simp add: k4 Let_def)
  have cc: "tm_curr_cpu ?k3 = cpu" using c1 assms(3) by simp
  have rep: "tm_rep k4 (L(cpu := xs))" using rep4 unfolding cc by simp
  have "set xs = insert ?q (set (L cpu))" using dist unfolding xs cc by (simp add: set_insert_event)
  with run rep rest4 lk1 c1 w1 show ?thesis by auto
qed

lemma took_world:
  assumes "took p t k k'"
  shows "\<exists>r ts. ks_run_q (tm_world k) p = t # ts \<and> tm_world k' = (set_run_q p ts (tm_world k))\<lparr>ks_rand := r\<rparr>"
    and "tm_rep k' L = tm_rep k L" and "tm_locked k' = tm_locked k" and "tm_curr_cpu k' = tm_curr_cpu k"
proof -
  from assms obtain r n ts where t: "ks_run_q (tm_world k) p = t # ts"
    "k' = k\<lparr>tm_reads := n, tm_world := (set_run_q p ts (tm_world k))\<lparr>ks_rand := r\<rparr>\<rparr>" by (auto simp: took_def)
  then show "\<exists>r ts. ks_run_q (tm_world k) p = t # ts \<and> tm_world k' = (set_run_q p ts (tm_world k))\<lparr>ks_rand := r\<rparr>"
    by auto
  show "tm_rep k' L = tm_rep k L"
    using t(2) by (intro iffI) (rule tm_rep_transfer, assumption, simp_all)+
  show "tm_locked k' = tm_locked k" "tm_curr_cpu k' = tm_curr_cpu k" using t(2) by simp_all
qed

section \<open>Rescheduling\<close>

text \<open>What a reschedule does not touch in a thread.\<close>

definition sem_fields :: "thread \<Rightarrow> int \<times> int \<times> int \<times> int \<times> int \<times> int \<times> 32 word \<times> 32 word" where
  "sem_fields r = (th_id r, th_sem_blocking r, th_sem_count r, th_acquire_count r, th_deleted_retcode r,
     th_errcode r, th_sem_flags r, th_signals r)"

definition sems_kept :: "ks \<Rightarrow> ks \<Rightarrow> bool" where
  "sems_kept s s' \<longleftrightarrow>
     ks_sems s' = ks_sems s \<and> ks_sems_active s' = ks_sems_active s \<and> ks_next_sem s' = ks_next_sem s \<and>
     ks_all s' = ks_all s \<and> ks_timeout s' = ks_timeout s \<and> ks_overrun s' = ks_overrun s \<and>
     (\<forall>t. sem_fields (ks_thread s' t) = sem_fields (ks_thread s t))"

lemma sems_kept_refl [simp]: "sems_kept s s"
  by (simp add: sems_kept_def)

lemma sems_kept_trans: "sems_kept s s' \<Longrightarrow> sems_kept s' s'' \<Longrightarrow> sems_kept s s''"
  by (simp add: sems_kept_def)

lemma sems_kept_set_thread: "(\<And>r. sem_fields (f r) = sem_fields r) \<Longrightarrow> sems_kept s (set_thread t f s)"
  by (simp add: sems_kept_def set_thread_def)

lemma sems_kept_enqueue: "sems_kept s (thread_enqueue_run_q t s)"
  by (simp add: sems_kept_def thread_enqueue_run_q_def set_thread_def set_run_q_def sem_fields_def Let_def)

lemma sems_kept_put_old: "sems_kept s (put_old_thread s)"
proof -
  have "sems_kept s (case th_next_state (ks_thread s (ks_current s)) of
      THREAD_STATE_RUNNING \<Rightarrow> thread_enqueue_run_q (ks_current s) s
    | THREAD_STATE_READY \<Rightarrow> thread_enqueue_run_q (ks_current s) s
    | THREAD_STATE_FREE_ON_RESCHED \<Rightarrow> s\<lparr>ks_dead_q := ks_dead_q s @ [ks_current s]\<rparr>
    | _ \<Rightarrow> s)"
    by (auto simp: sems_kept_enqueue sems_kept_def split: thread_state.split)
       (simp_all add: sems_kept_enqueue [unfolded sems_kept_def])
  then show ?thesis
    unfolding put_old_thread_def Let_def
    by (rule sems_kept_trans) (rule sems_kept_set_thread, simp add: sem_fields_def)
qed

lemma put_old_simps [simp]:
  "ks_current (put_old_thread s) = ks_current s" "ks_preempted (put_old_thread s) = ks_preempted s"
  "th_cpu (ks_thread (put_old_thread s) t) = th_cpu (ks_thread s t)"
  "th_state (ks_thread (put_old_thread s) (ks_current s)) = th_next_state (ks_thread s (ks_current s))"
  "u \<noteq> ks_current s \<Longrightarrow> th_state (ks_thread (put_old_thread s) u) = th_state (ks_thread s u)"
  by (simp_all add: put_old_thread_def thread_enqueue_run_q_def set_thread_def set_run_q_def Let_def
      split: thread_state.split)

lemma context_switch_world:
  "ks_run_q (tm_world (thread_context_switch clock old nxt k)) = ks_run_q (tm_world k)"
  "ks_dead_q (tm_world (thread_context_switch clock old nxt k)) = ks_dead_q (tm_world k)"
  "ks_current (tm_world (thread_context_switch clock old nxt k)) = nxt"
  "ks_preempted (tm_world (thread_context_switch clock old nxt k)) = ks_preempted (tm_world k)"
  "th_state (ks_thread (tm_world (thread_context_switch clock old nxt k)) t) = th_state (ks_thread (tm_world k) t)"
  "th_next_state (ks_thread (tm_world (thread_context_switch clock old nxt k)) t) = th_next_state (ks_thread (tm_world k) t)"
  "sems_kept (tm_world k) (tm_world (thread_context_switch clock old nxt k))"
  "tm_locked (thread_context_switch clock old nxt k) = tm_locked k"
  "tm_curr_cpu (thread_context_switch clock old nxt k) = tm_curr_cpu k"
  "tm_event (thread_context_switch clock old nxt k) = tm_event k"
  "tm_events (thread_context_switch clock old nxt k) = tm_events k"
  by (simp_all add: thread_context_switch_def system_time_def set_thread_def sems_kept_def sem_fields_def Let_def)

lemma context_switch_cpu:
  "nxt \<noteq> old \<Longrightarrow> th_cpu (ks_thread (tm_world (thread_context_switch clock old nxt k)) nxt) = th_cpu (ks_thread (tm_world k) old)"
  by (simp add: thread_context_switch_def system_time_def set_thread_def Let_def)

text \<open>
  The queues once the old thread is where its next state puts it: at the end of the queue of its
  priority, which is cut to the regular range, when it stays ready; with the dead threads when
  it is to be freed; nowhere otherwise.
\<close>

definition queues_back :: "ks \<Rightarrow> nat \<Rightarrow> nat list" where
  "queues_back s p =
     (let r = ks_thread s (ks_current s)
      in ks_run_q s p @
         (if th_next_state r \<in> {THREAD_STATE_RUNNING, THREAD_STATE_READY} \<and>
             int p = max 0 (min (int THREAD_MAX_PRIORITY) (th_priority r)) then [ks_current s] else []))"

definition dead_back :: "ks \<Rightarrow> nat list" where
  "dead_back s =
     ks_dead_q s @ (if th_next_state (ks_thread s (ks_current s)) = THREAD_STATE_FREE_ON_RESCHED then [ks_current s] else [])"

lemma put_old_queues:
  "ks_run_q (put_old_thread s) = queues_back s" "ks_dead_q (put_old_thread s) = dead_back s"
proof -
  show "ks_run_q (put_old_thread s) = queues_back s"
    by (rule ext) (cases "th_next_state (ks_thread s (ks_current s))";
      auto simp: put_old_thread_def queues_back_def thread_enqueue_run_q_def set_thread_def set_run_q_def Let_def)
  show "ks_dead_q (put_old_thread s) = dead_back s"
    by (cases "th_next_state (ks_thread s (ks_current s))")
      (simp_all add: put_old_thread_def dead_back_def thread_enqueue_run_q_def set_thread_def set_run_q_def Let_def)
qed

definition rescheduled :: "kt \<Rightarrow> (nat \<Rightarrow> nat list) \<Rightarrow> kt \<Rightarrow> nat list \<Rightarrow> nat \<Rightarrow> nat \<Rightarrow> nat list \<Rightarrow> bool" where
  "rescheduled k L k' xs p t ts \<longleftrightarrow>
     (let s = tm_world k; s' = tm_world k'; cpu = tm_curr_cpu k
      in p < THREAD_NUM_PRIORITY_LEVELS \<and> queues_back s p = t # ts \<and>
         (p \<le> THREAD_MAX_PRIORITY \<longrightarrow>
            (\<forall>q. THREAD_MAX_PRIORITY < q \<and> q < THREAD_NUM_PRIORITY_LEVELS \<longrightarrow> queues_back s q = [])) \<and>
         (p = THREAD_IDLE_PRIORITY \<longrightarrow>
            (\<forall>q. THREAD_IDLE_PRIORITY < q \<and> q < THREAD_NUM_PRIORITY_LEVELS \<longrightarrow> queues_back s q = [])) \<and>
         ks_run_q s' = (queues_back s)(p := ts) \<and> ks_dead_q s' = dead_back s \<and>
         ks_current s' = t \<and> th_state (ks_thread s' t) = THREAD_STATE_RUNNING \<and>
         th_next_state (ks_thread s' t) = THREAD_STATE_READY \<and>
         (t \<noteq> ks_current s \<longrightarrow> th_state (ks_thread s' (ks_current s)) = th_next_state (ks_thread s (ks_current s))) \<and>
         (\<forall>u. u \<noteq> t \<and> u \<noteq> ks_current s \<longrightarrow> th_state (ks_thread s' u) = th_state (ks_thread s u)) \<and>
         sems_kept s s' \<and> sched_ok k' (L(cpu := xs)) \<and> set xs = insert (quantum_event cpu) (set (L cpu)))"

lemma thread_resched_spec:
  assumes ok: "sched_ok k L"
    and some: "\<exists>p < THREAD_NUM_PRIORITY_LEVELS. ks_run_q (put_old_thread (tm_world k)) p \<noteq> []"
  shows "\<exists>k' xs p t ts. thread_resched clock k = Returns k' \<and> rescheduled k L k' xs p t ts"
proof -
  let ?s = "tm_world k" and ?old = "ks_current (tm_world k)" and ?cpu = "tm_curr_cpu k"
  let ?k1 = "in_world put_old_thread k"
  have ok': "tm_rep k L" "\<forall>c. \<not> tm_locked k c" "th_cpu (ks_thread ?s ?old) = Some ?cpu"
    "\<forall>c. quantum_event ?cpu \<in> set (L c) \<longrightarrow> c = ?cpu \<and> \<not> ks_preempted ?s ?cpu"
    using ok by (simp_all add: sched_ok_def)
  have "\<exists>p < THREAD_NUM_PRIORITY_LEVELS. ks_run_q (tm_world ?k1) p \<noteq> []" using some by simp
  then obtain p t k2 where ch: "choose_thread clock ?k1 = Returns (t, k2)" and tk: "took p t ?k1 k2"
    and p: "p < THREAD_NUM_PRIORITY_LEVELS"
    and rt: "p \<le> THREAD_MAX_PRIORITY \<longrightarrow>
      (\<forall>q. THREAD_MAX_PRIORITY < q \<and> q < THREAD_NUM_PRIORITY_LEVELS \<longrightarrow> ks_run_q (tm_world ?k1) q = [])"
    and idle: "p = THREAD_IDLE_PRIORITY \<longrightarrow>
      (\<forall>q. THREAD_IDLE_PRIORITY < q \<and> q < THREAD_NUM_PRIORITY_LEVELS \<longrightarrow> ks_run_q (tm_world ?k1) q = [])"
    by (rule choose_thread_spec)
  from took_world(1) [OF tk] obtain r ts where q: "ks_run_q (put_old_thread ?s) p = t # ts"
    and w2: "tm_world k2 = (set_run_q p ts (put_old_thread ?s))\<lparr>ks_rand := r\<rparr>" by auto
  note tw = took_world(2-4) [OF tk]
  let ?k3 = "in_world (set_thread t (\<lambda>r. r\<lparr>th_state := THREAD_STATE_RUNNING, th_next_state := THREAD_STATE_READY\<rparr>)) k2"
  have cpu3: "th_cpu (ks_thread (tm_world ?k3) ?old) = Some ?cpu"
    using ok'(3) w2 by (auto simp: set_thread_def set_run_q_def)
  have pre3: "ks_preempted (tm_world ?k3) = ks_preempted ?s" using w2 by (simp add: set_thread_def set_run_q_def)
  have rep3: "tm_rep ?k3 L" using ok'(1) tw by simp
  have c3: "?cpu = tm_curr_cpu ?k3" using tw by simp
  have q3: "\<forall>c. quantum_event ?cpu \<in> set (L c) \<longrightarrow> c = ?cpu \<and> \<not> ks_preempted (tm_world ?k3) ?cpu"
    using ok'(4) pre3 by simp
  have l3: "\<forall>c. \<not> tm_locked ?k3 c" using ok'(2) tw by simp
  from restart_quantum_spec [OF rep3 l3 c3 q3, of clock] obtain k4 xs where
    rq: "restart_quantum clock ?cpu ?k3 = Returns k4"
    and w4: "tm_world k4 = (tm_world ?k3)\<lparr>ks_preempted := (ks_preempted (tm_world ?k3))(?cpu := False)\<rparr>"
    and c4: "tm_curr_cpu k4 = tm_curr_cpu ?k3" and l4: "tm_locked k4 = tm_locked ?k3"
    and rep4: "tm_rep k4 (L(?cpu := xs))" and xs: "set xs = insert (quantum_event ?cpu) (set (L ?cpu))" by blast
  let ?k5 = "if t = ?old then k4 else thread_context_switch clock ?old t k4"
  have run: "thread_resched clock k = Returns ?k5"
    using cpu3 ch rq by (simp add: thread_resched_def Let_def)
  have kept2: "sems_kept (put_old_thread ?s) (tm_world k2)"
    using w2 by (simp add: sems_kept_def set_run_q_def)
  have kept3: "sems_kept (tm_world k2) (tm_world ?k3)"
    unfolding in_world_simps by (rule sems_kept_set_thread) (simp add: sem_fields_def)
  have kept4: "sems_kept (tm_world ?k3) (tm_world k4)" using w4 by (simp add: sems_kept_def)
  have kept5: "sems_kept (tm_world k4) (tm_world ?k5)" by (simp add: context_switch_world)
  have kept: "sems_kept ?s (tm_world ?k5)"
    using sems_kept_put_old kept2 kept3 kept4 kept5 by (blast intro: sems_kept_trans)
  have w4': "ks_run_q (tm_world k4) = (ks_run_q (put_old_thread ?s))(p := ts)"
    "ks_dead_q (tm_world k4) = ks_dead_q (put_old_thread ?s)" "ks_current (tm_world k4) = ?old"
    "ks_preempted (tm_world k4) ?cpu = False" "th_state (ks_thread (tm_world k4) t) = THREAD_STATE_RUNNING"
    "th_cpu (ks_thread (tm_world k4) ?old) = Some ?cpu" "th_next_state (ks_thread (tm_world k4) t) = THREAD_STATE_READY"
    "\<And>u. u \<noteq> t \<Longrightarrow> u \<noteq> ?old \<Longrightarrow> th_state (ks_thread (tm_world k4) u) = th_state (ks_thread ?s u)"
    "t \<noteq> ?old \<Longrightarrow> th_state (ks_thread (tm_world k4) ?old) = th_next_state (ks_thread ?s ?old)"
    using w2 w4 cpu3 by (simp_all add: set_thread_def set_run_q_def)
  have w5: "ks_run_q (tm_world ?k5) = (ks_run_q (put_old_thread ?s))(p := ts)"
    "ks_dead_q (tm_world ?k5) = ks_dead_q (put_old_thread ?s)" "ks_current (tm_world ?k5) = t"
    "ks_preempted (tm_world ?k5) ?cpu = False" "th_state (ks_thread (tm_world ?k5) t) = THREAD_STATE_RUNNING"
    "th_cpu (ks_thread (tm_world ?k5) t) = Some ?cpu" "th_next_state (ks_thread (tm_world ?k5) t) = THREAD_STATE_READY"
    "\<forall>u. u \<noteq> t \<and> u \<noteq> ?old \<longrightarrow> th_state (ks_thread (tm_world ?k5) u) = th_state (ks_thread ?s u)"
    "t \<noteq> ?old \<longrightarrow> th_state (ks_thread (tm_world ?k5) ?old) = th_next_state (ks_thread ?s ?old)"
    using w4' by (auto simp: context_switch_world context_switch_cpu)
  have c5: "tm_curr_cpu ?k5 = ?cpu" using c4 c3 by (simp add: context_switch_world)
  have l5: "\<forall>c. \<not> tm_locked ?k5 c" using l4 l3 by (simp add: context_switch_world)
  have rep5: "tm_rep ?k5 (L(?cpu := xs))" using rep4
    by (rule tm_rep_transfer) (simp_all add: context_switch_world)
  have "sched_ok ?k5 (L(?cpu := xs))"
    unfolding sched_ok_def c5 using rep5 l5 w5 ok'(4) by auto
  with run p q rt idle w5 kept xs show ?thesis
    by (intro exI [of _ ?k5] exI [of _ xs] exI [of _ p] exI [of _ t] exI [of _ ts])
      (simp add: rescheduled_def put_old_queues Let_def)
qed

text \<open>
  (C21) A reschedule always finds a thread when a run queue has one, or the current thread stays
  ready: it takes the head of one queue and no other thread moves; a regular queue is used only
  when the real-time queues are empty, and the idle queue only when all others are. The old
  thread takes its next state: when that is ready or running it is the last in the queue of its
  priority, cut to the regular range, when it is to be freed it is the last of the dead threads,
  and otherwise it is in no queue. The new thread runs, the quantum timer is pending again, and
  no semaphore and no wait is touched.
\<close>

theorem thread_resched_correct:
  assumes "sched_ok k L"
    and "\<exists>p < THREAD_NUM_PRIORITY_LEVELS. queues_back (tm_world k) p \<noteq> []"
  shows "\<exists>k' xs p t ts. thread_resched clock k = Returns k' \<and> rescheduled k L k' xs p t ts"
  using assms unfolding put_old_queues [symmetric] by (rule thread_resched_spec)

text \<open>
  No thread ever enters a real-time queue: \<open>thread_enqueue_run_q\<close>, the only way into a run
  queue, cuts the priority to the largest regular one.
\<close>

lemma rt_queues_stay_empty:
  assumes "THREAD_MAX_PRIORITY < p"
  shows "ks_run_q (ready_all ts s) p = ks_run_q s p"
proof (induction ts arbitrary: s)
  case (Cons t ts)
  have "ks_run_q (thread_enqueue_run_q t s) p = ks_run_q s p"
    using assms by (auto simp: thread_enqueue_run_q_def set_run_q_def set_thread_def Let_def)
  with Cons.IH [of "thread_enqueue_run_q t s"] show ?case by (simp add: ready_all_def)
qed (simp add: ready_all_def)

section \<open>A small system\<close>

text \<open>
  Threads 0 (the idle thread, ready) and 1 (running, priority 10) on one CPU with no timer
  pending; threads 2 and above do not run. No semaphore exists yet.
\<close>

definition demo_thread :: "int \<Rightarrow> int \<Rightarrow> thread_state \<Rightarrow> thread" where
  "demo_thread i p st =
     \<lparr>th_id = i, th_priority = p, th_state = st, th_next_state = THREAD_STATE_READY,
      th_cpu = (if st = THREAD_STATE_RUNNING then Some 0 else None), th_signals = 0, th_in_kernel = True,
      th_kernel_proc = False, th_sem_blocking = -1, th_sem_count = 0, th_acquire_count = 0,
      th_deleted_retcode = 0, th_errcode = 0, th_sem_flags = 0, th_return_sem = -1,
      th_kernel_time = 0, th_last_time = 0\<rparr>"

definition demo_ks :: ks where
  "demo_ks =
     \<lparr>ks_thread = (\<lambda>t. if t = 0 then demo_thread 0 0 THREAD_STATE_READY
                      else if t = 1 then demo_thread 1 10 THREAD_STATE_RUNNING
                      else demo_thread (int t) 10 THREAD_STATE_SUSPENDED),
      ks_all = [0, 1, 2, 3], ks_run_q = (\<lambda>p. if p = 0 then [0] else []), ks_dead_q = [], ks_current = 1,
      ks_preempted = (\<lambda>c. True), ks_rand = 0,
      ks_sems = (\<lambda>i. \<lparr>se_id = -1, se_count = 0, se_q = [], se_name = None, se_owner = 0\<rparr>),
      ks_sems_active = True, ks_next_sem = 0, ks_timeout = (\<lambda>t. \<lparr>ta_thread = 0, ta_sem = 0, ta_count = 0\<rparr>),
      ks_overrun = 0\<rparr>"

definition demo_kt :: "ks \<Rightarrow> kt" where
  "demo_kt s =
     \<lparr>tm_event = (\<lambda>a. \<lparr>te_next = None, te_mode = TIMER_MODE_ONESHOT, te_sched_time = 0, te_periodic_time = 0,
                      te_func = None, te_data = 0\<rparr>),
      tm_events = (\<lambda>c. None), tm_locked = (\<lambda>c. False), tm_hardware = (\<lambda>c. None), tm_curr_cpu = 0,
      tm_num_cpus = 1, tm_reads = 0, tm_world = s\<rparr>"

lemma demo_kt_world [simp]: "tm_world (demo_kt s) = s"
  by (simp add: demo_kt_def)

lemma demo_sched_ok:
  "th_cpu (ks_thread s (ks_current s)) = Some 0 \<Longrightarrow> sched_ok (demo_kt s) (\<lambda>c. [])"
  by (simp add: sched_ok_def tm_rep_def demo_kt_def)

theorem thread_resched_correct_witness:
  "\<exists>k'. thread_resched (\<lambda>n. 5) (demo_kt demo_ks) = Returns k' \<and> ks_current (tm_world k') \<in> {0, 1}"
proof -
  have ok: "sched_ok (demo_kt demo_ks) (\<lambda>c. [])"
    by (rule demo_sched_ok) (simp add: demo_ks_def demo_thread_def)
  have q: "queues_back demo_ks = (\<lambda>p. if p = 0 then [0] else if p = 10 then [1] else [])"
    by (rule ext) (simp add: queues_back_def demo_ks_def demo_thread_def THREAD_MAX_PRIORITY_def THREAD_NUM_PRIORITY_LEVELS_def)
  then have "\<exists>p < THREAD_NUM_PRIORITY_LEVELS. queues_back (tm_world (demo_kt demo_ks)) p \<noteq> []"
    by (intro exI [of _ 10]) (simp add: THREAD_NUM_PRIORITY_LEVELS_def)
  from thread_resched_correct [OF ok this, of "\<lambda>n. 5"] obtain k' xs p t ts where
    "thread_resched (\<lambda>n. 5) (demo_kt demo_ks) = Returns k'" "rescheduled (demo_kt demo_ks) (\<lambda>c. []) k' xs p t ts" by blast
  moreover from this(2) have "ks_current (tm_world k') = t" "queues_back demo_ks p = t # ts"
    by (simp_all add: rescheduled_def Let_def)
  ultimately show ?thesis unfolding q by (auto split: if_splits)
qed

end
