(* ===== verification/Sem.thy ===== *)
theory Sem
  imports Sched Usermem
begin

text \<open>
  The semaphores of \<open>sem.c\<close>: the table, the calls, blocking and waking, timeouts and
  interruption. Interrupts are off and the semaphore's lock is held in each critical section,
  so a section is one step here and the spin locks are not part of the state. A thread that
  blocks leaves the call at \<open>thread_resched\<close>; what it does when it runs again is the second
  half of the call.
\<close>

section \<open>Constants\<close>

definition MAX_SEMS :: nat where
  "MAX_SEMS = 4096"

definition B_CAN_INTERRUPT :: "32 word" where
  "B_CAN_INTERRUPT = 1"

definition B_DO_NOT_RESCHEDULE :: "32 word" where
  "B_DO_NOT_RESCHEDULE = 2"

definition B_TIMEOUT :: "32 word" where
  "B_TIMEOUT = 8"

definition B_ABSOLUTE_TIMEOUT :: "32 word" where
  "B_ABSOLUTE_TIMEOUT = 16"

definition SIG_SUSPEND :: "32 word" where
  "SIG_SUSPEND = 1"

definition SIG_KILL :: "32 word" where
  "SIG_KILL = 2"

definition sem_slot :: "int \<Rightarrow> nat" where
  "sem_slot i = nat (i mod int MAX_SEMS)"

definition set_sem :: "nat \<Rightarrow> (sem_entry \<Rightarrow> sem_entry) \<Rightarrow> ks \<Rightarrow> ks" where
  "set_sem n f s = s\<lparr>ks_sems := (ks_sems s)(n := f (ks_sems s n))\<rparr>"

definition thread_get_thread_struct :: "int \<Rightarrow> ks \<Rightarrow> nat ptr" where
  "thread_get_thread_struct i s = find (\<lambda>t. th_id (ks_thread s t) = i) (ks_all s)"

section \<open>Creating and deleting\<close>

text \<open>
  The name is copied to a buffer of \<open>min (length + 1) 32\<close> bytes, but the copy always writes
  32: \<open>ks_overrun\<close> counts the bytes beyond the buffer. \<open>mem\<close> tells whether the allocation
  succeeds. A name is the characters before the terminating zero.
\<close>

definition default_sem_name :: "byte list" where
  "default_sem_name = map of_char ''default_sem_name''"

definition next_sem_id :: "nat \<Rightarrow> int \<Rightarrow> int" where
  "next_sem_id i next_sem =
     (if crem next_sem (int MAX_SEMS) \<le> int i
      then i32 (next_sem + (int i - crem next_sem (int MAX_SEMS)))
      else i32 (next_sem + (int MAX_SEMS - (crem next_sem (int MAX_SEMS) - int i))))"

definition create_sem_etc :: "bool \<Rightarrow> int \<Rightarrow> byte list ptr \<Rightarrow> int \<Rightarrow> ks \<Rightarrow> int \<times> ks" where
  "create_sem_etc mem n name owner s =
     (if \<not> ks_sems_active s then (B_NO_MORE_SEMS, s)
      else if \<not> mem then (ENOMEM, s)
      else
        (let temp_name = (case name of Some c \<Rightarrow> take (SYS_MAX_OS_NAME_LEN - 1) c | None \<Rightarrow> default_sem_name);
             over = (case name of Some c \<Rightarrow> SYS_MAX_OS_NAME_LEN - min (length c + 1) SYS_MAX_OS_NAME_LEN | None \<Rightarrow> 0);
             s1 = s\<lparr>ks_overrun := ks_overrun s + over\<rparr>
         in case find (\<lambda>i. se_id (ks_sems s i) = -1) [0..<MAX_SEMS] of
              None \<Rightarrow> (B_NO_MORE_SEMS, s1)
            | Some i \<Rightarrow>
                (let new = next_sem_id i (ks_next_sem s)
                 in (new, (set_sem i (\<lambda>_. \<lparr>se_id = new, se_count = n, se_q = [], se_name = Some temp_name,
                                          se_owner = owner\<rparr>) s1)\<lparr>ks_next_sem := i32 (new + 1)\<rparr>))))"

text \<open>Making every waiter of a deleted semaphore ready.\<close>

definition sem_deleted :: "int \<Rightarrow> nat \<Rightarrow> ks \<Rightarrow> ks" where
  "sem_deleted return_code t s =
     set_thread t (\<lambda>r. r\<lparr>th_state := THREAD_STATE_READY, th_errcode := B_BAD_SEM_ID,
                         th_deleted_retcode := return_code, th_sem_count := 0\<rparr>) s"

definition resched_after :: "(nat \<Rightarrow> int) \<Rightarrow> bool \<Rightarrow> nat list \<Rightarrow> kt \<Rightarrow> kt outcome" where
  "resched_after clock again woken k =
     (if woken = [] then Returns k
      else (let k1 = in_world (ready_all woken) k in if again then thread_resched clock k1 else Returns k1))"

definition delete_sem_etc :: "(nat \<Rightarrow> int) \<Rightarrow> int \<Rightarrow> int \<Rightarrow> kt \<Rightarrow> (int \<times> kt) outcome" where
  "delete_sem_etc clock i return_code k =
     (let s = tm_world k; slot = sem_slot i
      in if \<not> ks_sems_active s then Returns (B_NO_MORE_SEMS, k)
         else if i < 0 then Returns (B_BAD_SEM_ID, k)
         else if se_id (ks_sems s slot) \<noteq> i then Returns (B_BAD_SEM_ID, k)
         else
           (let q = se_q (ks_sems s slot); s1 = fold (sem_deleted return_code) q s;
                s2 = set_sem slot (\<lambda>e. e\<lparr>se_id := -1, se_q := [], se_name := None\<rparr>) s1
            in obind (resched_after clock True q (in_world (\<lambda>_. s2) k)) (\<lambda>k1. Returns (B_NO_ERROR, k1))))"

definition delete_sem :: "(nat \<Rightarrow> int) \<Rightarrow> int \<Rightarrow> kt \<Rightarrow> (int \<times> kt) outcome" where
  "delete_sem clock i k = delete_sem_etc clock i 0 k"

section \<open>Taking a thread off a semaphore\<close>

text \<open>
  The loop that wakes more threads works on the counts of \<open>t\<close>, at first the thread that was
  taken off, and not on those of the thread at the head of the queue.
\<close>

function wake_more ::
  "nat \<Rightarrow> nat list \<Rightarrow> int \<Rightarrow> nat list \<Rightarrow> ks \<Rightarrow> nat list \<times> int \<times> nat list \<times> ks" where
  "wake_more t [] c woken s = ([], c, woken, s)"
| "wake_more t (h # q) c woken s =
     (if 0 < c then
        (let delta = min (th_sem_count (ks_thread s t)) c;
             s1 = set_thread t (\<lambda>r. r\<lparr>th_sem_count := th_sem_count r - delta\<rparr>) s
         in if th_sem_count (ks_thread s1 t) \<le> 0
            then wake_more h q (c - delta) (woken @ [h]) (set_thread h (\<lambda>r. r\<lparr>th_state := THREAD_STATE_READY\<rparr>) s1)
            else wake_more t (h # q) (c - delta) woken s1)
      else (h # q, c, woken, s))"
  by pat_completeness auto
termination
  by (relation "measure (\<lambda>(t, q, c, w, s). 2 * length q + (if 0 < c then 1 else 0))")
     (auto simp: set_thread_def min_def split: if_splits)

definition remove_thread_from_sem :: "nat \<Rightarrow> nat \<Rightarrow> int \<Rightarrow> ks \<Rightarrow> int \<times> nat list \<times> ks" where
  "remove_thread_from_sem t slot sem_errcode s =
     (case remove_id (\<lambda>x. th_id (ks_thread s x)) (th_id (ks_thread s t)) (se_q (ks_sems s slot)) of
        (t1, rest) \<Rightarrow>
          (let s0 = set_sem slot (\<lambda>e. e\<lparr>se_q := rest\<rparr>) s
           in if t1 \<noteq> Some t then (ERR_NOT_FOUND, [], s0)
              else
                (let c = i32 (se_count (ks_sems s slot) + th_acquire_count (ks_thread s t));
                     s1 = set_thread t (\<lambda>r. r\<lparr>th_state := THREAD_STATE_READY, th_errcode := sem_errcode\<rparr>) s0
                 in case wake_more t rest c [t] s1 of
                      (q, c1, woken, s2) \<Rightarrow> (B_NO_ERROR, woken, set_sem slot (\<lambda>e. e\<lparr>se_q := q, se_count := c1\<rparr>) s2))))"

text \<open>The timer callback: a semaphore that is gone is a panic.\<close>

definition sem_timeout :: "nat \<Rightarrow> ks \<Rightarrow> (int \<times> ks) outcome" where
  "sem_timeout d s =
     (let args = ks_timeout s d; slot = sem_slot (ta_sem args)
      in case thread_get_thread_struct (ta_thread args) s of
           None \<Rightarrow> Returns (INT_NO_RESCHEDULE, s)
         | Some t \<Rightarrow>
             if se_id (ks_sems s slot) \<noteq> ta_sem args then Faults
             else (case remove_thread_from_sem t slot B_TIMED_OUT s of
                     (_, woken, s1) \<Rightarrow> Returns (INT_RESCHEDULE, ready_all woken s1)))"

text \<open>Every timer callback of the kernel.\<close>

definition kernel_callback :: "ks callback" where
  "kernel_callback f d k =
     (if f = RESCHEDULE_EVENT
      then (case reschedule_event (tm_curr_cpu k) (tm_world k) of (r, s) \<Rightarrow> Returns (r, in_world (\<lambda>_. s) k))
      else if f = SEM_TIMEOUT
      then obind (sem_timeout d (tm_world k)) (\<lambda>(r, s). Returns (r, in_world (\<lambda>_. s) k))
      else Faults)"

definition sem_interrupt_thread :: "nat \<Rightarrow> ks \<Rightarrow> (int \<times> ks) outcome" where
  "sem_interrupt_thread t s =
     (let r = ks_thread s t; slot = sem_slot (th_sem_blocking r)
      in if th_state r \<noteq> THREAD_STATE_WAITING then Returns (ERR_INVALID_ARGS, s)
         else if th_sem_blocking r < 0 then Returns (ERR_INVALID_ARGS, s)
         else if th_sem_flags r AND B_CAN_INTERRUPT = 0 then Returns (ERR_SEM_NOT_INTERRUPTABLE, s)
         else if se_id (ks_sems s slot) \<noteq> th_sem_blocking r then Faults
         else (case remove_thread_from_sem t slot EINTR s of
                 (rc, woken, s1) \<Rightarrow>
                   if rc = ERR_NOT_FOUND then Faults else Returns (B_NO_ERROR, ready_all woken s1)))"

section \<open>Acquiring\<close>

text \<open>
  \<open>Done\<close>: the call returned. \<open>Suspended p\<close>: the caller is off the CPU; when it runs again it
  goes on with its local variable \<open>t\<close> equal to \<open>p\<close>. \<open>late_kill\<close> tells whether another CPU
  delivers a kill signal between the release of the semaphore's lock and the second check.
\<close>

datatype acquire_result = Done int | Suspended "nat ptr"

definition start_timeout ::
  "(nat \<Rightarrow> int) \<Rightarrow> nat \<Rightarrow> int \<Rightarrow> int \<Rightarrow> 32 word \<Rightarrow> int \<Rightarrow> kt \<Rightarrow> kt outcome" where
  "start_timeout clock t i n flags timeout k =
     (let rel = i32 timeout;
          (rel1, k1) = (if flags AND B_ABSOLUTE_TIMEOUT \<noteq> 0
                        then (case system_time clock k of (now, k1) \<Rightarrow> (i32 (rel - now), k1)) else (rel, k));
          k2 = in_world (\<lambda>s. s\<lparr>ks_timeout := (ks_timeout s)(t :=
                 \<lparr>ta_thread = th_id (ks_thread s t), ta_sem = i, ta_count = n\<rparr>)\<rparr>) k1;
          k3 = timer_setup_timer (Some SEM_TIMEOUT) t (stack_event t) k2
      in obind (timer_set_event clock rel1 TIMER_MODE_ONESHOT (Some (stack_event t)) k3) (\<lambda>(_, k4). Returns k4))"

definition killed :: "nat \<Rightarrow> 32 word \<Rightarrow> ks \<Rightarrow> bool" where
  "killed t flags s \<longleftrightarrow> flags AND B_CAN_INTERRUPT \<noteq> 0 \<and> th_signals (ks_thread s t) AND SIG_KILL \<noteq> 0"

definition block_on_sem :: "nat \<Rightarrow> int \<Rightarrow> int \<Rightarrow> 32 word \<Rightarrow> ks \<Rightarrow> ks" where
  "block_on_sem t i n flags s =
     (let slot = sem_slot i;
          s1 = set_thread t (\<lambda>r. r\<lparr>th_next_state := THREAD_STATE_WAITING, th_sem_flags := flags,
                 th_sem_blocking := i, th_acquire_count := n,
                 th_sem_count := min (- se_count (ks_sems s slot)) n,
                 th_deleted_retcode := 0, th_errcode := B_NO_ERROR\<rparr>) s
      in set_sem slot (\<lambda>e. e\<lparr>se_q := se_q e @ [t]\<rparr>) s1)"

text \<open>After the second check for a kill signal \<open>t\<close> is \<open>NULL\<close>: the loop that empties the wake-up queue used it.\<close>

definition late_check :: "nat \<Rightarrow> int \<Rightarrow> 32 word \<Rightarrow> ks \<Rightarrow> nat ptr \<times> ks" where
  "late_check t i flags s =
     (if killed t flags s then
        (if se_id (ks_sems s (sem_slot i)) = i
         then (case remove_thread_from_sem t (sem_slot i) EINTR s of (_, woken, s1) \<Rightarrow> (None, ready_all woken s1))
         else (None, s))
      else (Some t, s))"

definition acquire_sem_etc ::
  "(nat \<Rightarrow> int) \<Rightarrow> bool \<Rightarrow> int \<Rightarrow> int \<Rightarrow> 32 word \<Rightarrow> int \<Rightarrow> kt \<Rightarrow> (acquire_result \<times> kt) outcome" where
  "acquire_sem_etc clock late_kill i n flags timeout k =
     (let s = tm_world k; slot = sem_slot i; t = ks_current s; c = se_count (ks_sems s slot)
      in if \<not> ks_sems_active s then Returns (Done B_NO_MORE_SEMS, k)
         else if i < 0 then Returns (Done B_BAD_SEM_ID, k)
         else if n \<le> 0 then Returns (Done ERR_INVALID_ARGS, k)
         else if se_id (ks_sems s slot) \<noteq> i then Returns (Done B_BAD_SEM_ID, k)
         else if i32 (c - n) < 0 \<and> flags AND B_TIMEOUT \<noteq> 0 \<and> timeout \<le> 0 then Returns (Done ERR_SEM_TIMED_OUT, k)
         else
           (let s1 = set_sem slot (\<lambda>e. e\<lparr>se_count := i32 (c - n)\<rparr>) s
            in if 0 \<le> i32 (c - n) then Returns (Done 0, in_world (\<lambda>_. s1) k)
               else if killed t flags s1
               then Returns (Done EINTR, in_world (\<lambda>_. set_sem slot (\<lambda>e. e\<lparr>se_count := i32 (se_count e + n)\<rparr>) s1) k)
               else
                 (let k1 = in_world (\<lambda>_. block_on_sem t i n flags s1) k
                  in obind (if flags AND (B_TIMEOUT OR B_ABSOLUTE_TIMEOUT) \<noteq> 0
                            then start_timeout clock t i n flags timeout k1 else Returns k1) (\<lambda>k2.
                       let k3 = (if late_kill
                                 then in_world (set_thread t (\<lambda>r. r\<lparr>th_signals := th_signals r OR SIG_KILL\<rparr>)) k2 else k2)
                       in case late_check t i flags (tm_world k3) of
                            (p, s4) \<Rightarrow>
                              obind (thread_resched clock (in_world (\<lambda>_. s4) k3)) (\<lambda>k4. Returns (Suspended p, k4))))))"

definition acquire_resumed :: "(nat \<Rightarrow> int) \<Rightarrow> 32 word \<Rightarrow> nat ptr \<Rightarrow> kt \<Rightarrow> (int \<times> kt) outcome" where
  "acquire_resumed clock flags p k =
     (case p of
        None \<Rightarrow> Faults
      | Some t \<Rightarrow>
          (let err = th_errcode (ks_thread (tm_world k) t)
           in if flags AND B_TIMEOUT \<noteq> 0 \<and> err \<noteq> ERR_SEM_TIMED_OUT
              then obind (timer_cancel_event clock (stack_event t) k) (\<lambda>(_, k1). Returns (err, k1))
              else Returns (err, k)))"

definition acquire_sem :: "(nat \<Rightarrow> int) \<Rightarrow> bool \<Rightarrow> int \<Rightarrow> kt \<Rightarrow> (acquire_result \<times> kt) outcome" where
  "acquire_sem clock late_kill i k = acquire_sem_etc clock late_kill i 1 0 0 k"

section \<open>Releasing\<close>

text \<open>
  A semaphore with a negative count and no waiter would be a \<open>NULL\<close> dereference. The
  threads to wake are collected and made ready after the semaphore's lock is released.
\<close>

function release_loop :: "nat \<Rightarrow> int \<Rightarrow> nat list \<Rightarrow> ks \<Rightarrow> (nat list \<times> ks) outcome" where
  "release_loop slot n woken s =
     (if 0 < n then
        (if se_count (ks_sems s slot) < 0 then
           (case se_q (ks_sems s slot) of
              [] \<Rightarrow> Faults
            | t # q \<Rightarrow>
                (let delta = min n (th_sem_count (ks_thread s t));
                     s1 = set_thread t (\<lambda>r. r\<lparr>th_sem_count := th_sem_count r - delta\<rparr>) s;
                     add = (\<lambda>e. e\<lparr>se_count := i32 (se_count e + delta)\<rparr>)
                 in if th_sem_count (ks_thread s1 t) \<le> 0
                    then release_loop slot (n - delta) (woken @ [t])
                           (set_sem slot add (set_sem slot (\<lambda>e. e\<lparr>se_q := q\<rparr>)
                             (set_thread t (\<lambda>r. r\<lparr>th_state := THREAD_STATE_READY, th_sem_count := 0,
                                                 th_deleted_retcode := 0\<rparr>) s1)))
                    else release_loop slot (n - delta) woken (set_sem slot add s1)))
         else release_loop slot 0 woken (set_sem slot (\<lambda>e. e\<lparr>se_count := i32 (se_count e + n)\<rparr>) s))
      else Returns (woken, s))"
  by pat_completeness auto
termination
  by (relation "measure (\<lambda>(slot, n, w, s). 2 * length (se_q (ks_sems s slot)) + (if 0 < n then 1 else 0))")
     (auto simp: set_thread_def set_sem_def min_def split: if_splits)

declare release_loop.simps [simp del]

definition release_sem_etc ::
  "(nat \<Rightarrow> int) \<Rightarrow> int \<Rightarrow> int \<Rightarrow> 32 word \<Rightarrow> kt \<Rightarrow> (int \<times> kt) outcome" where
  "release_sem_etc clock i n flags k =
     (let s = tm_world k; slot = sem_slot i
      in if \<not> ks_sems_active s then Returns (B_NO_MORE_SEMS, k)
         else if i < 0 then Returns (B_BAD_SEM_ID, k)
         else if n \<le> 0 then Returns (ERR_INVALID_ARGS, k)
         else if se_id (ks_sems s slot) \<noteq> i then Returns (B_BAD_SEM_ID, k)
         else
           obind (release_loop slot n [] s) (\<lambda>(woken, s1).
             obind (resched_after clock (flags AND B_DO_NOT_RESCHEDULE = 0) woken (in_world (\<lambda>_. s1) k)) (\<lambda>k1.
               Returns (0, k1))))"

definition release_sem :: "(nat \<Rightarrow> int) \<Rightarrow> int \<Rightarrow> kt \<Rightarrow> (int \<times> kt) outcome" where
  "release_sem clock i k = release_sem_etc clock i 1 0 k"

section \<open>Information and ownership\<close>

record sem_info =
  si_sem :: int
  si_proc :: int
  si_name :: "byte list"
  si_count :: int
  si_latest_holder :: int

text \<open>\<open>thread_count\<close> is whether the caller's pointer is not \<open>NULL\<close>.\<close>

definition get_sem_count :: "int \<Rightarrow> bool \<Rightarrow> ks \<Rightarrow> int \<times> int option" where
  "get_sem_count i thread_count s =
     (if \<not> ks_sems_active s then (B_NO_MORE_SEMS, None)
      else if i < 0 then (B_BAD_SEM_ID, None)
      else if \<not> thread_count then (ERR_INVALID_ARGS, None)
      else if se_id (ks_sems s (sem_slot i)) \<noteq> i then (B_BAD_SEM_ID, None)
      else (B_NO_ERROR, Some (se_count (ks_sems s (sem_slot i)))))"

text \<open>The id of the first waiter is read whether there is one or not.\<close>

definition fill_sem_info :: "sem_entry \<Rightarrow> ks \<Rightarrow> sem_info outcome" where
  "fill_sem_info e s =
     (case se_name e of
        None \<Rightarrow> Faults
      | Some name \<Rightarrow>
          (case se_q e of
             [] \<Rightarrow> Faults
           | t # _ \<Rightarrow>
               Returns \<lparr>si_sem = se_id e, si_proc = se_owner e, si_name = take (SYS_MAX_OS_NAME_LEN - 1) name,
                        si_count = se_count e, si_latest_holder = th_id (ks_thread s t)\<rparr>))"

definition get_sem_info :: "int \<Rightarrow> bool \<Rightarrow> ks \<Rightarrow> (int \<times> sem_info option) outcome" where
  "get_sem_info i info s =
     (if \<not> ks_sems_active s then Returns (B_NO_MORE_SEMS, None)
      else if i < 0 then Returns (B_BAD_SEM_ID, None)
      else if \<not> info then Returns (ERR_INVALID_ARGS, None)
      else if se_id (ks_sems s (sem_slot i)) \<noteq> i then Returns (B_BAD_SEM_ID, None)
      else obind (fill_sem_info (ks_sems s (sem_slot i)) s) (\<lambda>x. Returns (B_NO_ERROR, Some x)))"

text \<open>
  The cookie is the slot to start from; a value whose sign bit is set indexes the table at a
  negative slot. The result is the error, the new cookie and the information.
\<close>

definition get_next_sem_info ::
  "int \<Rightarrow> nat option \<Rightarrow> ks \<Rightarrow> (int \<times> nat option \<times> sem_info option) outcome" where
  "get_next_sem_info proc cookie s =
     (if \<not> ks_sems_active s then Returns (B_NO_MORE_SEMS, cookie, None)
      else case cookie of
        None \<Rightarrow> Returns (ERR_INVALID_ARGS, cookie, None)
      | Some c \<Rightarrow>
          if proc < 0 then Returns (ERR_INVALID_ARGS, cookie, None)
          else if s32 c < 0 then Faults
          else if MAX_SEMS \<le> c then Returns (B_BAD_SEM_ID, cookie, None)
          else
            (case find (\<lambda>i. se_id (ks_sems s i) \<noteq> -1 \<and> se_owner (ks_sems s i) = proc) [c..<MAX_SEMS] of
               None \<Rightarrow> Returns (ERR_SEM_NOT_FOUND, cookie, None)
             | Some i \<Rightarrow>
                 obind (fill_sem_info (ks_sems s i) s) (\<lambda>x.
                   if i + 1 = MAX_SEMS then Returns (ERR_SEM_NOT_FOUND, cookie, Some x)
                   else Returns (B_NO_ERROR, Some (i + 1), Some x))))"

definition set_sem_owner :: "int \<Rightarrow> int \<Rightarrow> ks \<Rightarrow> int \<times> ks" where
  "set_sem_owner i proc s =
     (if \<not> ks_sems_active s then (B_NO_MORE_SEMS, s)
      else if i < 0 then (B_BAD_SEM_ID, s)
      else if proc < 0 then (ERR_INVALID_ARGS, s)
      else if se_id (ks_sems s (sem_slot i)) \<noteq> i then (B_BAD_SEM_ID, s)
      else (B_NO_ERROR, set_sem (sem_slot i) (\<lambda>e. e\<lparr>se_owner := proc\<rparr>) s))"

text \<open>Deleting the semaphores of a process, slot by slot.\<close>

fun delete_owned_loop :: "(nat \<Rightarrow> int) \<Rightarrow> int \<Rightarrow> nat list \<Rightarrow> int \<Rightarrow> kt \<Rightarrow> (int \<times> kt) outcome" where
  "delete_owned_loop clock owner [] n k = Returns (n, k)"
| "delete_owned_loop clock owner (i # is) n k =
     (let e = ks_sems (tm_world k) i
      in if se_id e \<noteq> -1 \<and> se_owner e = owner
         then obind (delete_sem_etc clock (se_id e) 0 k) (\<lambda>(_, k1). delete_owned_loop clock owner is (n + 1) k1)
         else delete_owned_loop clock owner is n k)"

definition sem_delete_owned_sems :: "(nat \<Rightarrow> int) \<Rightarrow> int \<Rightarrow> kt \<Rightarrow> (int \<times> kt) outcome" where
  "sem_delete_owned_sems clock owner k =
     (if owner < 0 then Returns (B_BAD_SEM_ID, k)
      else delete_owned_loop clock owner [0..<MAX_SEMS] 0 k)"

definition sem_init :: "ks \<Rightarrow> ks" where
  "sem_init s =
     s\<lparr>ks_sems := (\<lambda>i. \<lparr>se_id = -1, se_count = 0, se_q = [], se_name = None, se_owner = 0\<rparr>), ks_sems_active := True\<rparr>"

section \<open>System calls\<close>

text \<open>
  The name of a user's semaphore is copied in; the copy stops at the terminating zero or after
  31 bytes. \<open>proc\<close> is the id of the current process.
\<close>

definition user_create_sem ::
  "umem \<Rightarrow> bool \<Rightarrow> int \<Rightarrow> int \<Rightarrow> nat ptr \<Rightarrow> ks \<Rightarrow> int \<times> ks" where
  "user_create_sem um mem proc n uname s =
     (case uname of
        None \<Rightarrow> create_sem_etc mem n None proc s
      | Some a \<Rightarrow>
          if kernel_addr a then (ERR_VM_BAD_USER_MEMORY, s)
          else (case user_strncpy_in um a (SYS_MAX_OS_NAME_LEN - 1) of
                  (bs, rc) \<Rightarrow> if rc < 0 then (rc, s)
                             else create_sem_etc mem n (Some (takeWhile (\<lambda>b. b \<noteq> 0) bs)) proc s))"

definition user_acquire_sem_etc ::
  "(nat \<Rightarrow> int) \<Rightarrow> bool \<Rightarrow> int \<Rightarrow> int \<Rightarrow> 32 word \<Rightarrow> int \<Rightarrow> kt \<Rightarrow> (acquire_result \<times> kt) outcome" where
  "user_acquire_sem_etc clock late_kill i n flags timeout k =
     acquire_sem_etc clock late_kill i n (flags OR B_CAN_INTERRUPT) timeout k"

text \<open>
  The count is copied out even when there was none to copy: \<open>stack\<close> is what the uninitialised
  variable held. An \<open>int32\<close> is four bytes, the least significant first.
\<close>

definition int32_bytes :: "int \<Rightarrow> byte list" where
  "int32_bytes x = map (\<lambda>i. word_of_int (x div 2 ^ (8 * i))) [0..<4]"

definition user_get_sem_count :: "int \<Rightarrow> int \<Rightarrow> nat \<Rightarrow> ks \<Rightarrow> umem \<Rightarrow> int \<times> umem" where
  "user_get_sem_count stack i uthread_count s um =
     (let (rc, c) = get_sem_count i True s;
          (rc2, um1) = user_memcpy_out um uthread_count (int32_bytes (case c of Some x \<Rightarrow> x | None \<Rightarrow> stack))
      in (if rc2 < 0 then rc2 else rc, um1))"

end
