(* ===== verification/Sem_Props.thy ===== *)
theory Sem_Props
  imports Sem
begin

text \<open>
  The semaphores' invariant and the correctness of the calls. The count of a semaphore is the
  number of free units or, below zero, the units its waiters still need; waiters are served in
  the order of the queue.
\<close>

section \<open>The invariant of one semaphore\<close>

definition needs :: "ks \<Rightarrow> nat \<Rightarrow> int" where
  "needs s t = th_sem_count (ks_thread s t)"

definition needed :: "ks \<Rightarrow> nat list \<Rightarrow> int" where
  "needed s ts = (\<Sum>t\<leftarrow>ts. needs s t)"

definition entry_ok :: "ks \<Rightarrow> nat \<Rightarrow> bool" where
  "entry_ok s n \<longleftrightarrow>
     (let e = ks_sems s n in
        (0 \<le> se_count e \<longrightarrow> se_q e = []) \<and> (se_count e < 0 \<longrightarrow> se_count e = - needed s (se_q e)) \<and>
        distinct (se_q e) \<and> (\<forall>t \<in> set (se_q e). 0 < needs s t) \<and>
        - (2 ^ 31) \<le> se_count e \<and> se_count e < 2 ^ 31)"

lemma needed_simps [simp]: "needed s [] = 0" "needed s (t # ts) = needs s t + needed s ts"
  "needed s (ts @ us) = needed s ts + needed s us"
  by (simp_all add: needed_def)

lemma needed_nonneg: "\<forall>t \<in> set ts. 0 < needs s t \<Longrightarrow> 0 \<le> needed s ts"
  by (induction ts) auto

lemma needed_pos: "\<forall>t \<in> set ts. 0 < needs s t \<Longrightarrow> ts \<noteq> [] \<Longrightarrow> 0 < needed s ts"
  by (cases ts) (auto dest: needed_nonneg)

lemma needed_cong: "(\<And>t. t \<in> set ts \<Longrightarrow> needs s' t = needs s t) \<Longrightarrow> needed s' ts = needed s ts"
  by (induction ts) auto

lemma entry_ok_queue:
  assumes "entry_ok s n"
  shows "se_q (ks_sems s n) = [] \<longleftrightarrow> 0 \<le> se_count (ks_sems s n)"
  using assms needed_pos [of "se_q (ks_sems s n)" s] by (auto simp: entry_ok_def Let_def)

section \<open>Releasing\<close>

text \<open>Who is served by \<open>n\<close> units: the longest prefix of the queue whose needs they cover.\<close>

fun served :: "(nat \<Rightarrow> int) \<Rightarrow> int \<Rightarrow> nat list \<Rightarrow> nat list" where
  "served need n [] = []"
| "served need n (t # ts) = (if need t \<le> n then t # served need (n - need t) ts else [])"

lemma served_prefix: "\<exists>ys. xs = served need n xs @ ys"
  by (induction need n xs rule: served.induct) auto

definition unserved :: "(nat \<Rightarrow> int) \<Rightarrow> int \<Rightarrow> nat list \<Rightarrow> nat list" where
  "unserved need n ts = drop (length (served need n ts)) ts"

lemma served_unserved: "served need n ts @ unserved need n ts = ts"
  using served_prefix [of ts need n] by (auto simp: unserved_def) (metis append_eq_conv_conj)

lemma unserved_simps [simp]:
  "unserved need n [] = []"
  "unserved need n (t # ts) = (if need t \<le> n then unserved need (n - need t) ts else t # ts)"
  by (simp_all add: unserved_def)

lemma served_cong: "(\<And>t. t \<in> set ts \<Longrightarrow> f t = g t) \<Longrightarrow> served f n ts = served g n ts"
  by (induction ts arbitrary: n) auto

lemma unserved_cong: "(\<And>t. t \<in> set ts \<Longrightarrow> f t = g t) \<Longrightarrow> unserved f n ts = unserved g n ts"
  using served_cong [of ts f g n] by (simp add: unserved_def)

lemma served_none: "\<forall>t \<in> set ts. 0 < need t \<Longrightarrow> n \<le> 0 \<Longrightarrow> served need n ts = []"
  by (cases ts) auto

text \<open>The rest of the units goes to the first waiter that is not served.\<close>

definition released_thread :: "nat list \<Rightarrow> nat list \<Rightarrow> int \<Rightarrow> nat \<Rightarrow> thread \<Rightarrow> thread" where
  "released_thread woken rest left t r =
     (if t \<in> set woken
      then r\<lparr>th_state := THREAD_STATE_READY, th_sem_count := 0, th_deleted_retcode := 0\<rparr>
      else if rest \<noteq> [] \<and> t = hd rest then r\<lparr>th_sem_count := th_sem_count r - left\<rparr> else r)"

definition released :: "nat \<Rightarrow> int \<Rightarrow> ks \<Rightarrow> ks" where
  "released slot n s =
     (let q = se_q (ks_sems s slot); woken = served (needs s) n q; rest = unserved (needs s) n q
      in s\<lparr>ks_sems := (ks_sems s)(slot := (ks_sems s slot)\<lparr>se_q := rest, se_count := se_count (ks_sems s slot) + n\<rparr>),
           ks_thread := (\<lambda>t. released_thread woken rest (n - needed s woken) t (ks_thread s t))\<rparr>)"

lemma release_loop_step:
  "0 < n \<Longrightarrow> se_count (ks_sems s slot) < 0 \<Longrightarrow> se_q (ks_sems s slot) = t # q \<Longrightarrow>
   release_loop slot n woken s =
     (let delta = min n (needs s t);
          s1 = set_thread t (\<lambda>r. r\<lparr>th_sem_count := th_sem_count r - delta\<rparr>) s;
          add = (\<lambda>e. e\<lparr>se_count := i32 (se_count e + delta)\<rparr>)
      in if needs s t \<le> delta
         then release_loop slot (n - delta) (woken @ [t])
                (set_sem slot add (set_sem slot (\<lambda>e. e\<lparr>se_q := q\<rparr>)
                  (set_thread t (\<lambda>r. r\<lparr>th_state := THREAD_STATE_READY, th_sem_count := 0,
                                      th_deleted_retcode := 0\<rparr>) s1)))
         else release_loop slot (n - delta) woken (set_sem slot add s1))"
  by (subst release_loop.simps) (simp add: needs_def set_thread_def Let_def)

lemma release_loop_stop: "n \<le> 0 \<Longrightarrow> release_loop slot n woken s = Returns (woken, s)"
  by (subst release_loop.simps) simp

lemma same_queue: "se_q e = q \<Longrightarrow> e\<lparr>se_q := q, se_count := c\<rparr> = e\<lparr>se_count := c\<rparr>"
  by (cases e) simp

lemma same_queue' [simp]: "se_q e = q \<Longrightarrow> e\<lparr>se_q := q\<rparr> = e"
  by (cases e) simp

lemma if_same_fun [simp]: "(\<lambda>u. if u = t then f t else f u) = f"
  by (rule ext) simp

lemma release_loop_spec:
  assumes "entry_ok s slot" and "0 \<le> n" and "se_count (ks_sems s slot) + n < 2 ^ 31"
  shows "release_loop slot n w s =
         Returns (w @ served (needs s) n (se_q (ks_sems s slot)), released slot n s)"
  using assms
proof (induction "se_q (ks_sems s slot)" arbitrary: s n w)
  case Nil
  let ?e = "ks_sems s slot"
  have q: "se_q ?e = []" using Nil.hyps by simp
  then have c: "0 \<le> se_count ?e" using Nil.prems(1) by (simp add: entry_ok_queue [symmetric])
  have "released slot n s = set_sem slot (\<lambda>e. e\<lparr>se_count := se_count e + n\<rparr>) s"
    unfolding released_def q by (simp add: set_sem_def released_thread_def same_queue [OF q])
  moreover have "set_sem slot (\<lambda>e. e\<lparr>se_count := se_count e + 0\<rparr>) s = s"
    by (simp add: set_sem_def)
  ultimately show ?case
    using c Nil.prems(2,3) by (cases "n = 0") (subst release_loop.simps, simp add: q release_loop_stop set_sem_def)+
next
  case (Cons t q)
  let ?e = "ks_sems s slot"
  have q: "se_q ?e = t # q" using Cons.hyps(2) by simp
  have ok: "se_count ?e < 0" "se_count ?e = - (needs s t + needed s q)" "t \<notin> set q" "distinct q" "0 < needs s t"
    "\<forall>u \<in> set q. 0 < needs s u" "- (2 ^ 31) \<le> se_count ?e" "se_count ?e < 2 ^ 31"
    using Cons.prems(1) entry_ok_queue [OF Cons.prems(1)] q by (auto simp: entry_ok_def Let_def)
  show ?case
  proof (cases "n = 0")
    case True
    then have "released slot n s = s"
      unfolding released_def q using ok(5) by (simp add: released_thread_def same_queue' [OF q] Let_def cong: if_cong)
    with True q ok(5) show ?thesis by (simp add: release_loop_stop)
  next
    case False
    then have n: "0 < n" using Cons.prems(2) by simp
    show ?thesis
    proof (cases "needs s t \<le> n")
      case True
      then have m: "min n (needs s t) = needs s t" by simp
      let ?s1 = "set_thread t (\<lambda>r. r\<lparr>th_sem_count := th_sem_count r - needs s t\<rparr>) s"
      let ?s2 = "set_sem slot (\<lambda>e. e\<lparr>se_count := i32 (se_count e + needs s t)\<rparr>) (set_sem slot (\<lambda>e. e\<lparr>se_q := q\<rparr>)
          (set_thread t (\<lambda>r. r\<lparr>th_state := THREAD_STATE_READY, th_sem_count := 0, th_deleted_retcode := 0\<rparr>) ?s1))"
      have e2: "ks_sems ?s2 slot = ?e\<lparr>se_q := q, se_count := se_count ?e + needs s t\<rparr>"
        using ok Cons.prems(3) True by (simp add: set_sem_def set_thread_def)
      have nd: "needs ?s2 u = needs s u" if "u \<in> set q" for u
        using that ok(3) by (auto simp: needs_def set_sem_def set_thread_def)
      then have nq: "needed ?s2 q = needed s q" by (rule needed_cong)
      have np: "q = [] \<or> 0 < needed s q" using needed_pos [OF ok(6)] by blast
      have ok2: "entry_ok ?s2 slot"
        using ok nd nq needed_nonneg [OF ok(6)] np unfolding entry_ok_def e2 by (auto simp: Let_def)
      have "q = se_q (ks_sems ?s2 slot)" using e2 by simp
      note IH = Cons.hyps(1) [OF this ok2]
      have "release_loop slot n w s = release_loop slot (n - needs s t) (w @ [t]) ?s2"
        using release_loop_step [OF n ok(1) q, of w] m by (simp add: Let_def)
      also have "\<dots> = Returns ((w @ [t]) @ served (needs ?s2) (n - needs s t) q, released slot (n - needs s t) ?s2)"
        using IH [of "n - needs s t" "w @ [t]"] True Cons.prems(3) e2 by simp
      also have "served (needs ?s2) (n - needs s t) q = served (needs s) (n - needs s t) q"
        by (rule served_cong) (rule nd)
      also have "released slot (n - needs s t) ?s2 = released slot n s"
      proof -
        let ?w = "served (needs s) (n - needs s t) q" and ?r = "unserved (needs s) (n - needs s t) q"
        have w: "served (needs ?s2) (n - needs s t) q = ?w" by (rule served_cong) (rule nd)
        have r: "unserved (needs ?s2) (n - needs s t) q = ?r" by (rule unserved_cong) (rule nd)
        have sub: "set ?w \<subseteq> set q" "set ?r \<subseteq> set q"
          using served_unserved [of "needs s" "n - needs s t" q] by (metis Un_upper1 set_append, metis Un_upper2 set_append)
        then have nw: "needed ?s2 ?w = needed s ?w" by (intro needed_cong nd) auto
        have tw: "t \<notin> set ?w" using sub ok(3) by auto
        have hr: "?r \<noteq> [] \<longrightarrow> t \<noteq> hd ?r"
        proof
          assume "?r \<noteq> []"
          then have "hd ?r \<in> set ?r" by (rule hd_in_set)
          with sub(2) have "hd ?r \<in> set q" by (rule subsetD)
          with ok(3) show "t \<noteq> hd ?r" by metis
        qed
        have lhs: "released slot (n - needs s t) ?s2 =
          ?s2\<lparr>ks_sems := (ks_sems ?s2)(slot := (ks_sems ?s2 slot)\<lparr>se_q := ?r, se_count := se_count (ks_sems ?s2 slot) + (n - needs s t)\<rparr>),
             ks_thread := (\<lambda>u. released_thread ?w ?r (n - needs s t - needed s ?w) u (ks_thread ?s2 u))\<rparr>"
          using e2 w r nw by (simp add: released_def Let_def)
        have rhs: "released slot n s =
          s\<lparr>ks_sems := (ks_sems s)(slot := ?e\<lparr>se_q := ?r, se_count := se_count ?e + n\<rparr>),
            ks_thread := (\<lambda>u. released_thread (t # ?w) ?r (n - (needs s t + needed s ?w)) u (ks_thread s u))\<rparr>"
          using q True by (simp add: released_def Let_def)
        have th: "(\<lambda>u. released_thread ?w ?r (n - needs s t - needed s ?w) u (ks_thread ?s2 u)) =
          (\<lambda>u. released_thread (t # ?w) ?r (n - (needs s t + needed s ?w)) u (ks_thread s u))"
          using tw hr by (intro ext) (auto simp: released_thread_def set_sem_def set_thread_def algebra_simps)
        show ?thesis
          unfolding lhs rhs th unfolding e2 by (simp add: set_sem_def set_thread_def)
      qed
      finally show ?thesis using q True by simp
    next
      case False
      then have m: "min n (needs s t) = n" by simp
      let ?s2 = "set_sem slot (\<lambda>e. e\<lparr>se_count := i32 (se_count e + n)\<rparr>) (set_thread t (\<lambda>r. r\<lparr>th_sem_count := th_sem_count r - n\<rparr>) s)"
      have "release_loop slot n w s = release_loop slot (n - n) w ?s2"
        using release_loop_step [OF n ok(1) q, of w] m False by (simp add: Let_def)
      also have "\<dots> = Returns (w, ?s2)" by (simp add: release_loop_stop)
      also have "?s2 = released slot n s"
        unfolding released_def q using False ok Cons.prems(3) n
        by (simp add: set_sem_def set_thread_def released_thread_def same_queue [OF q] Let_def fun_upd_def cong: if_cong)
      finally show ?thesis using q False by simp
    qed
  qed
qed

end
