(* ===== verification/Sem_Inv.thy ===== *)
theory Sem_Inv
  imports Sem_Props
begin

text \<open>
  The invariant of the threads and semaphores together: every thread sits in the queue its
  state names, and every semaphore's count agrees with the needs of its waiters. Each call
  keeps it, so in a reachable state no call faults.
\<close>

section \<open>Where threads are\<close>

text \<open>
  \<open>eff\<close>: the state a thread has once the current reschedule is over. \<open>placed W s\<close>: the ready
  threads are those of the run queues and those of \<open>W\<close>, which a call has woken and not yet put
  into a run queue.
\<close>

definition eff :: "ks \<Rightarrow> nat \<Rightarrow> thread_state" where
  "eff s t = (if t = ks_current s then th_next_state (ks_thread s t) else th_state (ks_thread s t))"

definition placed :: "nat list \<Rightarrow> ks \<Rightarrow> bool" where
  "placed W s \<longleftrightarrow>
     th_state (ks_thread s (ks_current s)) = THREAD_STATE_RUNNING \<and>
     eff s (ks_current s) \<in> {THREAD_STATE_READY, THREAD_STATE_WAITING} \<and>
     distinct W \<and> ks_current s \<notin> set W \<and>
     (\<forall>t. t \<noteq> ks_current s \<longrightarrow> th_state (ks_thread s t) \<noteq> THREAD_STATE_RUNNING) \<and>
     (\<forall>p. distinct (ks_run_q s p)) \<and>
     (\<forall>p p'. p \<noteq> p' \<longrightarrow> set (ks_run_q s p) \<inter> set (ks_run_q s p') = {}) \<and>
     (\<forall>p. THREAD_MAX_PRIORITY < p \<longrightarrow> ks_run_q s p = []) \<and>
     (\<forall>p. set (ks_run_q s p) \<inter> insert (ks_current s) (set W) = {}) \<and>
     (\<forall>t. t \<noteq> ks_current s \<longrightarrow>
        (th_state (ks_thread s t) = THREAD_STATE_READY \<longleftrightarrow> t \<in> set W \<or> (\<exists>p. t \<in> set (ks_run_q s p))))"

definition waiting_ok :: "ks \<Rightarrow> bool" where
  "waiting_ok s \<longleftrightarrow>
     (\<forall>t. eff s t = THREAD_STATE_WAITING \<longleftrightarrow> (\<exists>n < MAX_SEMS. t \<in> set (se_q (ks_sems s n))))"

definition slot_ok :: "ks \<Rightarrow> nat \<Rightarrow> bool" where
  "slot_ok s n \<longleftrightarrow>
     (let e = ks_sems s n in
        if se_id e = -1 then se_q e = []
        else 0 \<le> se_id e \<and> sem_slot (se_id e) = n \<and> se_id e < ks_next_sem s \<and> se_name e \<noteq> None \<and>
             entry_ok s n \<and> (\<forall>t \<in> set (se_q e). th_sem_blocking (ks_thread s t) = se_id e))"

definition sems_ok :: "ks \<Rightarrow> bool" where
  "sems_ok s \<longleftrightarrow> ks_sems_active s \<and> 0 \<le> ks_next_sem s \<and> ks_next_sem s < 2 ^ 31 \<and> (\<forall>n < MAX_SEMS. slot_ok s n)"

text \<open>The idle thread never waits.\<close>

definition kernel_ok :: "nat \<Rightarrow> nat list \<Rightarrow> ks \<Rightarrow> bool" where
  "kernel_ok idle W s \<longleftrightarrow> placed W s \<and> waiting_ok s \<and> sems_ok s \<and> eff s idle = THREAD_STATE_READY"

definition kinv :: "nat \<Rightarrow> kt \<Rightarrow> bool" where
  "kinv idle k \<longleftrightarrow>
     (\<exists>L. sched_ok k L) \<and> kernel_ok idle [] (tm_world k) \<and>
     eff (tm_world k) (ks_current (tm_world k)) = THREAD_STATE_READY"

section \<open>Enqueueing in a run queue\<close>

lemma enqueue_simps [simp]:
  "ks_current (thread_enqueue_run_q t s) = ks_current s"
  "ks_sems (thread_enqueue_run_q t s) = ks_sems s"
  "ks_sems_active (thread_enqueue_run_q t s) = ks_sems_active s"
  "ks_next_sem (thread_enqueue_run_q t s) = ks_next_sem s"
  "ks_preempted (thread_enqueue_run_q t s) = ks_preempted s"
  "ks_overrun (thread_enqueue_run_q t s) = ks_overrun s"
  "ks_timeout (thread_enqueue_run_q t s) = ks_timeout s"
  "th_state (ks_thread (thread_enqueue_run_q t s) u) = th_state (ks_thread s u)"
  "th_next_state (ks_thread (thread_enqueue_run_q t s) u) = th_next_state (ks_thread s u)"
  "th_cpu (ks_thread (thread_enqueue_run_q t s) u) = th_cpu (ks_thread s u)"
  "th_sem_blocking (ks_thread (thread_enqueue_run_q t s) u) = th_sem_blocking (ks_thread s u)"
  "th_sem_count (ks_thread (thread_enqueue_run_q t s) u) = th_sem_count (ks_thread s u)"
  "th_acquire_count (ks_thread (thread_enqueue_run_q t s) u) = th_acquire_count (ks_thread s u)"
  "th_errcode (ks_thread (thread_enqueue_run_q t s) u) = th_errcode (ks_thread s u)"
  "eff (thread_enqueue_run_q t s) u = eff s u"
  by (simp_all add: thread_enqueue_run_q_def set_thread_def set_run_q_def eff_def Let_def)

lemma enqueue_run_q:
  obtains p where "p \<le> THREAD_MAX_PRIORITY" and
    "ks_run_q (thread_enqueue_run_q t s) = (ks_run_q s)(p := ks_run_q s p @ [t])"
proof -
  let ?p = "th_priority (ks_thread s t)"
  let ?p1 = "if int THREAD_MAX_PRIORITY < ?p then int THREAD_MAX_PRIORITY else ?p"
  let ?n = "nat (if ?p1 < 0 then 0 else ?p1)"
  have "?n \<le> THREAD_MAX_PRIORITY" by auto
  moreover have "ks_run_q (thread_enqueue_run_q t s) = (ks_run_q s)(?n := ks_run_q s ?n @ [t])"
    by (simp add: thread_enqueue_run_q_def set_thread_def set_run_q_def Let_def)
  ultimately show thesis by (rule that)
qed

lemma placed_enqueue:
  assumes "placed (t # W) s"
  shows "placed W (thread_enqueue_run_q t s)"
proof -
  obtain p where p: "p \<le> THREAD_MAX_PRIORITY"
    and q: "ks_run_q (thread_enqueue_run_q t s) = (ks_run_q s)(p := ks_run_q s p @ [t])" by (rule enqueue_run_q)
  have a: "t \<notin> set W" "t \<noteq> ks_current s" "\<forall>p. t \<notin> set (ks_run_q s p)"
    "\<forall>p p'. p \<noteq> p' \<longrightarrow> set (ks_run_q s p) \<inter> set (ks_run_q s p') = {}"
    using assms by (auto simp: placed_def)
  have d: "\<forall>x y. x \<noteq> y \<longrightarrow> set (ks_run_q (thread_enqueue_run_q t s) x) \<inter> set (ks_run_q (thread_enqueue_run_q t s) y) = {}"
    using a(3,4) unfolding q by auto
  have e: "(\<exists>x. u \<in> set (ks_run_q (thread_enqueue_run_q t s) x)) \<longleftrightarrow> u = t \<or> (\<exists>x. u \<in> set (ks_run_q s x))" for u
    unfolding q by auto
  show ?thesis
    using assms a(1,2,3) d p unfolding placed_def enqueue_simps e by (auto simp: q)
qed

lemma ready_all_simps [simp]: "ready_all [] s = s" "ready_all (t # ts) s = ready_all ts (thread_enqueue_run_q t s)"
  by (simp_all add: ready_all_def)

lemma ready_all_fields [simp]:
  "ks_current (ready_all ts s) = ks_current s"
  "ks_sems (ready_all ts s) = ks_sems s"
  "ks_sems_active (ready_all ts s) = ks_sems_active s"
  "ks_next_sem (ready_all ts s) = ks_next_sem s"
  "ks_preempted (ready_all ts s) = ks_preempted s"
  "ks_overrun (ready_all ts s) = ks_overrun s"
  "th_state (ks_thread (ready_all ts s) u) = th_state (ks_thread s u)"
  "th_next_state (ks_thread (ready_all ts s) u) = th_next_state (ks_thread s u)"
  "th_cpu (ks_thread (ready_all ts s) u) = th_cpu (ks_thread s u)"
  "th_sem_blocking (ks_thread (ready_all ts s) u) = th_sem_blocking (ks_thread s u)"
  "th_sem_count (ks_thread (ready_all ts s) u) = th_sem_count (ks_thread s u)"
  "th_acquire_count (ks_thread (ready_all ts s) u) = th_acquire_count (ks_thread s u)"
  "th_errcode (ks_thread (ready_all ts s) u) = th_errcode (ks_thread s u)"
  "eff (ready_all ts s) u = eff s u"
  by (induction ts arbitrary: s) simp_all

lemma placed_ready_all: "placed W s \<Longrightarrow> placed [] (ready_all W s)"
proof (induction W arbitrary: s)
  case (Cons t W)
  from Cons.IH [OF placed_enqueue [OF Cons.prems]] show ?case by simp
qed simp

lemma sems_ok_transfer:
  assumes "sems_ok s" and "ks_sems s' = ks_sems s" and "ks_sems_active s' = ks_sems_active s"
    and "ks_next_sem s' = ks_next_sem s"
    and "\<And>t. th_sem_blocking (ks_thread s' t) = th_sem_blocking (ks_thread s t)"
    and "\<And>t. th_sem_count (ks_thread s' t) = th_sem_count (ks_thread s t)"
  shows "sems_ok s'"
proof -
  have "needs s' t = needs s t" for t using assms(6) by (simp add: needs_def)
  moreover have "needed s' ts = needed s ts" for ts using assms(6) by (intro needed_cong) (simp add: needs_def)
  ultimately have "slot_ok s' n = slot_ok s n" for n using assms(2,4,5) by (simp add: slot_ok_def entry_ok_def Let_def)
  with assms show ?thesis by (simp add: sems_ok_def)
qed

lemma kernel_ok_ready_all:
  assumes "kernel_ok idle W s"
  shows "kernel_ok idle [] (ready_all W s)"
proof -
  have "sems_ok s" using assms by (simp add: kernel_ok_def)
  then have "sems_ok (ready_all W s)" by (rule sems_ok_transfer) simp_all
  moreover have "waiting_ok (ready_all W s)" using assms by (simp add: kernel_ok_def waiting_ok_def)
  ultimately show ?thesis using assms placed_ready_all by (simp add: kernel_ok_def)
qed

section \<open>Rescheduling\<close>

lemma put_old_run_q:
  assumes "placed [] s" and "s1 = put_old_thread s"
  shows "\<forall>p. distinct (ks_run_q s1 p)"
    and "\<forall>p p'. p \<noteq> p' \<longrightarrow> set (ks_run_q s1 p) \<inter> set (ks_run_q s1 p') = {}"
    and "\<forall>p. THREAD_MAX_PRIORITY < p \<longrightarrow> ks_run_q s1 p = []"
    and "\<And>t. (\<exists>p. t \<in> set (ks_run_q s1 p)) \<longleftrightarrow> eff s t = THREAD_STATE_READY"
proof -
  let ?old = "ks_current s"
  have base: "\<forall>p. distinct (ks_run_q s p)" "\<forall>p p'. p \<noteq> p' \<longrightarrow> set (ks_run_q s p) \<inter> set (ks_run_q s p') = {}"
    "\<forall>p. THREAD_MAX_PRIORITY < p \<longrightarrow> ks_run_q s p = []" "\<forall>p. ?old \<notin> set (ks_run_q s p)"
    "\<forall>t. t \<noteq> ?old \<longrightarrow> (th_state (ks_thread s t) = THREAD_STATE_READY \<longleftrightarrow> (\<exists>p. t \<in> set (ks_run_q s p)))"
    "th_next_state (ks_thread s ?old) \<in> {THREAD_STATE_READY, THREAD_STATE_WAITING}"
    using assms(1) by (auto simp: placed_def eff_def)
  consider (ready) "th_next_state (ks_thread s ?old) = THREAD_STATE_READY"
    | (wait) "th_next_state (ks_thread s ?old) = THREAD_STATE_WAITING" using base(6) by auto
  then have "(\<forall>p. distinct (ks_run_q s1 p)) \<and>
      (\<forall>p p'. p \<noteq> p' \<longrightarrow> set (ks_run_q s1 p) \<inter> set (ks_run_q s1 p') = {}) \<and>
      (\<forall>p. THREAD_MAX_PRIORITY < p \<longrightarrow> ks_run_q s1 p = []) \<and>
      (\<forall>t. (\<exists>p. t \<in> set (ks_run_q s1 p)) \<longleftrightarrow> eff s t = THREAD_STATE_READY)"
  proof cases
    case ready
    obtain p where p: "p \<le> THREAD_MAX_PRIORITY"
      and q: "ks_run_q (thread_enqueue_run_q ?old s) = (ks_run_q s)(p := ks_run_q s p @ [?old])" by (rule enqueue_run_q)
    have "ks_run_q s1 = (ks_run_q s)(p := ks_run_q s p @ [?old])"
      using ready q by (simp add: assms(2) put_old_thread_def set_thread_def Let_def)
    with base p ready show ?thesis by (auto simp: eff_def)
  next
    case wait
    then have "ks_run_q s1 = ks_run_q s" by (simp add: assms(2) put_old_thread_def set_thread_def Let_def)
    with base wait show ?thesis by (auto simp: eff_def)
  qed
  then show "\<forall>p. distinct (ks_run_q s1 p)"
    and "\<forall>p p'. p \<noteq> p' \<longrightarrow> set (ks_run_q s1 p) \<inter> set (ks_run_q s1 p') = {}"
    and "\<forall>p. THREAD_MAX_PRIORITY < p \<longrightarrow> ks_run_q s1 p = []"
    and "\<And>t. (\<exists>p. t \<in> set (ks_run_q s1 p)) \<longleftrightarrow> eff s t = THREAD_STATE_READY" by blast+
qed

lemma resched_kinv_timers:
  assumes "sched_ok k L" and "kernel_ok idle [] (tm_world k)"
  shows "\<exists>k' xs. thread_resched clock k = Returns k' \<and> kinv idle k' \<and> sems_kept (tm_world k) (tm_world k') \<and>
           (\<forall>t. eff (tm_world k') t = eff (tm_world k) t) \<and> sched_ok k' (L(tm_curr_cpu k := xs)) \<and>
           set xs = insert (quantum_event (tm_curr_cpu k)) (set (L (tm_curr_cpu k)))"
proof -
  let ?s = "tm_world k" and ?old = "ks_current (tm_world k)"
  have pl: "placed [] ?s" and w: "waiting_ok ?s" and sem: "sems_ok ?s" and id: "eff ?s idle = THREAD_STATE_READY"
    using assms(2) by (simp_all add: kernel_ok_def)
  note q = put_old_run_q [OF pl refl]
  from id q(4) obtain p where "idle \<in> set (ks_run_q (put_old_thread ?s) p)" by blast
  moreover from this q(3) have "\<not> THREAD_MAX_PRIORITY < p" by auto
  ultimately have "\<exists>p < THREAD_NUM_PRIORITY_LEVELS. ks_run_q (put_old_thread ?s) p \<noteq> []"
    by (intro exI [of _ p]) (auto simp: THREAD_MAX_PRIORITY_def THREAD_NUM_PRIORITY_LEVELS_def)
  from thread_resched_spec [OF assms(1) this, of clock] obtain k' xs p t ts where
    run: "thread_resched clock k = Returns k'" and r: "rescheduled k L k' xs p t ts" by blast
  let ?s' = "tm_world k'"
  have r': "ks_run_q (put_old_thread ?s) p = t # ts" "ks_run_q ?s' = (ks_run_q (put_old_thread ?s))(p := ts)"
    "ks_current ?s' = t" "th_state (ks_thread ?s' t) = THREAD_STATE_RUNNING" "th_next_state (ks_thread ?s' t) = THREAD_STATE_READY"
    "t \<noteq> ?old \<longrightarrow> th_state (ks_thread ?s' ?old) = th_next_state (ks_thread ?s ?old)"
    "\<forall>u. u \<noteq> t \<and> u \<noteq> ?old \<longrightarrow> th_state (ks_thread ?s' u) = th_state (ks_thread ?s u)"
    "sems_kept ?s ?s'" "sched_ok k' (L(tm_curr_cpu k := xs))"
    using r by (simp_all add: rescheduled_def put_old_queues Let_def)
  have xs: "set xs = insert (quantum_event (tm_curr_cpu k)) (set (L (tm_curr_cpu k)))" using r by (simp add: rescheduled_def Let_def)
  have ready: "eff ?s t = THREAD_STATE_READY" using q(4) [of t] r'(1) by (metis list.set_intros(1))
  have eff': "eff ?s' u = eff ?s u" for u
    using r'(3,5,6,7) ready by (cases "u = t") (simp_all add: eff_def)
  have uniq: "t \<notin> set ts" "\<And>x. x \<noteq> p \<Longrightarrow> t \<notin> set (ks_run_q (put_old_thread ?s) x)"
    using q(1,2) r'(1) by (metis distinct.simps(2)) (metis q(2) r'(1) IntI empty_iff list.set_intros(1))
  have st: "th_state (ks_thread ?s' u) = eff ?s u" if "u \<noteq> t" for u
    using that r'(6,7) by (cases "u = ?old") (simp_all add: eff_def)
  have norun: "eff ?s u \<noteq> THREAD_STATE_RUNNING" for u using pl by (auto simp: placed_def eff_def)
  have sub: "set (ks_run_q ?s' x) \<subseteq> set (ks_run_q (put_old_thread ?s) x)" for x using r'(1) unfolding r'(2) by auto
  have mem: "(\<exists>x. u \<in> set (ks_run_q ?s' x)) \<longleftrightarrow> eff ?s u = THREAD_STATE_READY" if "u \<noteq> t" for u
  proof
    assume "\<exists>x. u \<in> set (ks_run_q ?s' x)"
    with sub show "eff ?s u = THREAD_STATE_READY" using q(4) [of u] by blast
  next
    assume "eff ?s u = THREAD_STATE_READY"
    then obtain x where "u \<in> set (ks_run_q (put_old_thread ?s) x)" using q(4) by blast
    with that r'(1) have "u \<in> set (ks_run_q ?s' x)" unfolding r'(2) by auto
    then show "\<exists>x. u \<in> set (ks_run_q ?s' x)" by blast
  qed
  have a1: "\<forall>x. distinct (ks_run_q ?s' x)" using q(1) r'(1) unfolding r'(2) by (metis distinct.simps(2) fun_upd_other fun_upd_same)
  have a2: "\<forall>x y. x \<noteq> y \<longrightarrow> set (ks_run_q ?s' x) \<inter> set (ks_run_q ?s' y) = {}" using q(2) sub by blast
  have a3: "\<forall>x. THREAD_MAX_PRIORITY < x \<longrightarrow> ks_run_q ?s' x = []" using q(3) r'(1) unfolding r'(2) by (metis fun_upd_apply list.discI)
  have a4: "\<forall>x. t \<notin> set (ks_run_q ?s' x)" using uniq unfolding r'(2) by auto
  have "placed [] ?s'"
    unfolding placed_def r'(3) using r'(4) ready eff' a1 a2 a3 a4 st norun mem by simp
  moreover have "waiting_ok ?s'"
  proof -
    have "ks_sems ?s' = ks_sems ?s" using r'(8) by (simp add: sems_kept_def)
    with w show ?thesis unfolding waiting_ok_def eff' by simp
  qed
  moreover have "sems_ok ?s'"
    using sem by (rule sems_ok_transfer) (use r'(8) in \<open>simp_all add: sems_kept_def sem_fields_def\<close>)
  moreover have "eff ?s' idle = THREAD_STATE_READY" using id eff' by simp
  ultimately have "kernel_ok idle [] ?s'" by (simp add: kernel_ok_def)
  with r'(3,9) eff' ready have "kinv idle k'" unfolding kinv_def by auto
  with run r'(3,8,9) eff' xs show ?thesis by blast
qed

lemma resched_kinv:
  assumes "sched_ok k L" and "kernel_ok idle [] (tm_world k)"
  shows "\<exists>k'. thread_resched clock k = Returns k' \<and> kinv idle k' \<and> sems_kept (tm_world k) (tm_world k') \<and>
           (\<forall>t. eff (tm_world k') t = eff (tm_world k) t)"
  using resched_kinv_timers [OF assms] by blast

section \<open>Waking waiters\<close>

lemma sched_ok_in_world:
  assumes "sched_ok k L" and "ks_current (f (tm_world k)) = ks_current (tm_world k)"
    and "ks_preempted (f (tm_world k)) = ks_preempted (tm_world k)"
    and "th_cpu (ks_thread (f (tm_world k)) (ks_current (tm_world k))) = th_cpu (ks_thread (tm_world k) (ks_current (tm_world k)))"
  shows "sched_ok (in_world f k) L"
  using assms by (simp add: sched_ok_def)

lemma slot_bound: "sem_slot i < MAX_SEMS"
  by (simp add: sem_slot_def MAX_SEMS_def nat_less_iff)

lemma slot_ok_waiter:
  assumes "slot_ok s n" and "t \<in> set (se_q (ks_sems s n))"
  shows "th_sem_blocking (ks_thread s t) = se_id (ks_sems s n)" and "sem_slot (se_id (ks_sems s n)) = n"
    and "0 \<le> se_id (ks_sems s n)" and "entry_ok s n"
proof -
  have "se_id (ks_sems s n) \<noteq> -1" using assms by (metis slot_ok_def empty_iff list.set(1))
  with assms(1) have "0 \<le> se_id (ks_sems s n) \<and> sem_slot (se_id (ks_sems s n)) = n \<and> entry_ok s n \<and>
      (\<forall>t \<in> set (se_q (ks_sems s n)). th_sem_blocking (ks_thread s t) = se_id (ks_sems s n))"
    by (simp add: slot_ok_def Let_def)
  with assms(2) show "th_sem_blocking (ks_thread s t) = se_id (ks_sems s n)" "sem_slot (se_id (ks_sems s n)) = n"
    "0 \<le> se_id (ks_sems s n)" "entry_ok s n" by blast+
qed

lemma one_queue:
  assumes "sems_ok s" and "n < MAX_SEMS" "m < MAX_SEMS" and "t \<in> set (se_q (ks_sems s n))" "t \<in> set (se_q (ks_sems s m))"
  shows "m = n"
proof -
  have ok: "slot_ok s n" "slot_ok s m" using assms(1,2,3) by (simp_all add: sems_ok_def)
  have "sem_slot (th_sem_blocking (ks_thread s t)) = n"
    using slot_ok_waiter(1,2) [OF ok(1) assms(4)] by metis
  moreover have "sem_slot (th_sem_blocking (ks_thread s t)) = m"
    using slot_ok_waiter(1,2) [OF ok(2) assms(5)] by metis
  ultimately show ?thesis by metis
qed

lemma kernel_ok_wake:
  assumes ok: "kernel_ok idle [] s" and n: "n < MAX_SEMS"
    and ws: "distinct ws" "set ws \<subseteq> set (se_q (ks_sems s n))" "ks_current s \<notin> set ws"
    and q: "ks_sems s' = (ks_sems s)(n := e)" "set (se_q e) = set (se_q (ks_sems s n)) - set ws"
    and same: "ks_run_q s' = ks_run_q s" "ks_current s' = ks_current s"
      "th_next_state (ks_thread s' (ks_current s)) = th_next_state (ks_thread s (ks_current s))"
    and st: "\<And>t. th_state (ks_thread s' t) = (if t \<in> set ws then THREAD_STATE_READY else th_state (ks_thread s t))"
    and sems: "sems_ok s'"
  shows "kernel_ok idle ws s'"
proof -
  have pl: "placed [] s" and w: "waiting_ok s" and so: "sems_ok s" and id: "eff s idle = THREAD_STATE_READY"
    using ok by (simp_all add: kernel_ok_def)
  have wait: "eff s t = THREAD_STATE_WAITING" if "t \<in> set ws" for t
    using that w ws(2) n unfolding waiting_ok_def by blast
  have wait': "th_state (ks_thread s t) = THREAD_STATE_WAITING" "t \<noteq> ks_current s" if "t \<in> set ws" for t
    using that wait [OF that] ws(3) by (auto simp: eff_def split: if_splits)
  have eff': "eff s' t = (if t \<in> set ws then THREAD_STATE_READY else eff s t)" for t
    using st same(2,3) ws(3) by (auto simp: eff_def)
  have notq: "t \<notin> set (ks_run_q s p)" if "t \<in> set ws" for t p
    using wait' [OF that] pl by (auto simp: placed_def)
  have "placed ws s'"
    unfolding placed_def same eff' st using pl ws notq by (auto simp: placed_def eff_def dest: wait')
  moreover have "waiting_ok s'"
    unfolding waiting_ok_def eff'
  proof (intro allI)
    fix t
    show "(if t \<in> set ws then THREAD_STATE_READY else eff s t) = THREAD_STATE_WAITING \<longleftrightarrow>
        (\<exists>m < MAX_SEMS. t \<in> set (se_q (ks_sems s' m)))"
    proof (cases "t \<in> set ws")
      case True
      have "t \<notin> set (se_q (ks_sems s' m))" if "m < MAX_SEMS" for m
        using one_queue [OF so n that, of t] True ws(2) q by auto
      with True show ?thesis by auto
    next
      case False
      have "t \<in> set (se_q (ks_sems s' m)) \<longleftrightarrow> t \<in> set (se_q (ks_sems s m))" for m
        using False q by auto
      with False w show ?thesis by (simp add: waiting_ok_def)
    qed
  qed
  moreover have "eff s' idle = THREAD_STATE_READY" using id eff' by simp
  ultimately show ?thesis using sems by (simp add: kernel_ok_def)
qed

text \<open>Making the woken threads ready, with or without a reschedule.\<close>

lemma resched_after_kinv:
  assumes "sched_ok k L" and "kernel_ok idle W (tm_world k)"
    and "eff (tm_world k) (ks_current (tm_world k)) = THREAD_STATE_READY"
  shows "\<exists>k'. resched_after clock again W k = Returns k' \<and> kinv idle k' \<and>
           ks_sems (tm_world k') = ks_sems (tm_world k) \<and> ks_sems_active (tm_world k') = ks_sems_active (tm_world k) \<and>
           ks_next_sem (tm_world k') = ks_next_sem (tm_world k) \<and>
           (\<forall>t. th_errcode (ks_thread (tm_world k') t) = th_errcode (ks_thread (tm_world k) t)) \<and>
           (\<forall>t. th_sem_count (ks_thread (tm_world k') t) = th_sem_count (ks_thread (tm_world k) t)) \<and>
           (\<forall>t. eff (tm_world k') t = eff (tm_world k) t)"
proof (cases "W = []")
  case True
  then have "resched_after clock again W k = Returns k" by (simp add: resched_after_def)
  moreover have "kinv idle k" using assms True by (auto simp: kinv_def)
  ultimately show ?thesis by blast
next
  case False
  let ?k1 = "in_world (ready_all W) k"
  have s1: "sched_ok ?k1 L" using assms(1) by (rule sched_ok_in_world) simp_all
  have o1: "kernel_ok idle [] (tm_world ?k1)" using kernel_ok_ready_all [OF assms(2)] by simp
  show ?thesis
  proof (cases again)
    case True
    from resched_kinv [OF s1 o1, of clock] obtain k' where "thread_resched clock ?k1 = Returns k'" "kinv idle k'"
      "sems_kept (tm_world ?k1) (tm_world k')"
      "\<forall>t. eff (tm_world k') t = eff (tm_world ?k1) t" by blast
    with False True show ?thesis by (intro exI [of _ k']) (simp add: resched_after_def sems_kept_def sem_fields_def)
  next
    case nag: False
    have "kinv idle ?k1" using s1 o1 assms(3) by (auto simp: kinv_def)
    with False nag assms(3) show ?thesis by (intro exI [of _ ?k1]) (simp add: resched_after_def)
  qed
qed

end
