(* ===== verification/Sem_Calls.thy ===== *)
theory Sem_Calls
  imports Sem_Inv
begin

text \<open>
  Each call of \<open>sem.c\<close> from a state that satisfies the invariant: what it returns, what it
  does to the table and to the waiters, and that the invariant holds again.
\<close>

lemma kinvD:
  assumes "kinv idle k"
  obtains L where "sched_ok k L" and "kernel_ok idle [] (tm_world k)" and "sems_ok (tm_world k)"
    and "eff (tm_world k) (ks_current (tm_world k)) = THREAD_STATE_READY"
    and "\<forall>n < MAX_SEMS. slot_ok (tm_world k) n"
    and "\<forall>n < MAX_SEMS. ks_current (tm_world k) \<notin> set (se_q (ks_sems (tm_world k) n))"
proof -
  from assms obtain L where a: "sched_ok k L" "kernel_ok idle [] (tm_world k)"
    "eff (tm_world k) (ks_current (tm_world k)) = THREAD_STATE_READY" by (auto simp: kinv_def)
  have "\<forall>n < MAX_SEMS. ks_current (tm_world k) \<notin> set (se_q (ks_sems (tm_world k) n))"
  proof (intro allI impI notI)
    fix n
    assume "n < MAX_SEMS" "ks_current (tm_world k) \<in> set (se_q (ks_sems (tm_world k) n))"
    with a(2) have "eff (tm_world k) (ks_current (tm_world k)) = THREAD_STATE_WAITING"
      unfolding kernel_ok_def waiting_ok_def by blast
    with a(3) show False by simp
  qed
  with a show thesis by (intro that [of L]) (simp_all add: kernel_ok_def sems_ok_def)
qed

lemma slot_ok_live:
  assumes "slot_ok s n" and "se_id (ks_sems s n) = i" and "0 \<le> i"
  shows "entry_ok s n" and "i < ks_next_sem s" and "se_name (ks_sems s n) \<noteq> None"
    and "\<forall>t \<in> set (se_q (ks_sems s n)). th_sem_blocking (ks_thread s t) = i"
proof -
  have "se_id (ks_sems s n) \<noteq> -1" using assms(2,3) by simp
  with assms show "entry_ok s n" "i < ks_next_sem s" "se_name (ks_sems s n) \<noteq> None"
    "\<forall>t \<in> set (se_q (ks_sems s n)). th_sem_blocking (ks_thread s t) = i"
    by (simp_all add: slot_ok_def Let_def)
qed

text \<open>A table in which one entry changed.\<close>

lemma sems_ok_upd:
  assumes "sems_ok s" and "ks_sems s' = (ks_sems s)(n := e)" and "ks_sems_active s' = ks_sems_active s"
    and "ks_next_sem s \<le> ks_next_sem s'" "ks_next_sem s' < 2 ^ 31"
    and "\<And>m t. m < MAX_SEMS \<Longrightarrow> m \<noteq> n \<Longrightarrow> t \<in> set (se_q (ks_sems s m)) \<Longrightarrow>
      th_sem_blocking (ks_thread s' t) = th_sem_blocking (ks_thread s t) \<and> needs s' t = needs s t"
    and "slot_ok s' n"
  shows "sems_ok s'"
  unfolding sems_ok_def
proof (intro conjI allI impI)
  show "ks_sems_active s'" "0 \<le> ks_next_sem s'" "ks_next_sem s' < 2 ^ 31"
    using assms(1,3-5) by (simp_all add: sems_ok_def)
next
  fix m
  assume m: "m < MAX_SEMS"
  show "slot_ok s' m"
  proof (cases "m = n")
    case False
    have old: "slot_ok s m" using assms(1) m by (simp add: sems_ok_def)
    have e: "ks_sems s' m = ks_sems s m" using assms(2) False by simp
    have "needed s' (se_q (ks_sems s m)) = needed s (se_q (ks_sems s m))"
      using assms(6) [OF m False] by (intro needed_cong) simp
    then have "entry_ok s m \<Longrightarrow> entry_ok s' m" using assms(6) [OF m False] by (simp add: entry_ok_def e Let_def)
    with old assms(4) assms(6) [OF m False] show ?thesis by (auto simp: slot_ok_def e Let_def)
  qed (use assms(7) in simp)
qed

text \<open>A change of the table that moves no thread.\<close>

lemma kernel_ok_sems:
  assumes "kernel_ok idle W s" and "ks_thread s' = ks_thread s" "ks_run_q s' = ks_run_q s" "ks_current s' = ks_current s"
    and "\<And>m. m < MAX_SEMS \<Longrightarrow> se_q (ks_sems s' m) = se_q (ks_sems s m)" and "sems_ok s'"
  shows "kernel_ok idle W s'"
proof -
  have e: "eff s' t = eff s t" for t using assms(2,4) by (simp add: eff_def)
  have "placed W s'" using assms(1) unfolding kernel_ok_def placed_def e assms(2-4) by blast
  moreover have "waiting_ok s'" using assms(1,5) unfolding kernel_ok_def waiting_ok_def e by auto
  ultimately show ?thesis using assms(1,6) e by (simp add: kernel_ok_def)
qed

section \<open>Deleting\<close>

lemma fold_sem_deleted:
  "ks_thread (fold (sem_deleted c) q s) t =
     (if t \<in> set q then (ks_thread s t)\<lparr>th_state := THREAD_STATE_READY, th_errcode := B_BAD_SEM_ID,
        th_deleted_retcode := c, th_sem_count := 0\<rparr> else ks_thread s t)"
  "ks_sems (fold (sem_deleted c) q s) = ks_sems s" "ks_current (fold (sem_deleted c) q s) = ks_current s"
  "ks_run_q (fold (sem_deleted c) q s) = ks_run_q s" "ks_preempted (fold (sem_deleted c) q s) = ks_preempted s"
  "ks_sems_active (fold (sem_deleted c) q s) = ks_sems_active s"
  "ks_next_sem (fold (sem_deleted c) q s) = ks_next_sem s"
  by (induction q arbitrary: s) (auto simp: sem_deleted_def set_thread_def)

lemma set_sem_simps [simp]:
  "ks_sems (set_sem n f s) = (ks_sems s)(n := f (ks_sems s n))" "ks_thread (set_sem n f s) = ks_thread s"
  "ks_run_q (set_sem n f s) = ks_run_q s" "ks_current (set_sem n f s) = ks_current s"
  "ks_preempted (set_sem n f s) = ks_preempted s" "ks_sems_active (set_sem n f s) = ks_sems_active s"
  "ks_next_sem (set_sem n f s) = ks_next_sem s" "ks_overrun (set_sem n f s) = ks_overrun s"
  "eff (set_sem n f s) t = eff s t"
  by (simp_all add: set_sem_def eff_def)

definition sem_gone :: "int \<Rightarrow> ks \<Rightarrow> ks \<Rightarrow> bool" where
  "sem_gone i s s' \<longleftrightarrow>
     (let slot = sem_slot i
      in se_id (ks_sems s' slot) = -1 \<and> (\<forall>m. m \<noteq> slot \<longrightarrow> ks_sems s' m = ks_sems s m) \<and>
         ks_next_sem s' = ks_next_sem s \<and>
         (\<forall>t. th_errcode (ks_thread s' t) = (if t \<in> set (se_q (ks_sems s slot)) then B_BAD_SEM_ID else th_errcode (ks_thread s t))) \<and>
         (\<forall>t \<in> set (se_q (ks_sems s slot)). eff s' t = THREAD_STATE_READY) \<and>
         (\<forall>t. t \<notin> set (se_q (ks_sems s slot)) \<longrightarrow> eff s' t = eff s t))"

lemma delete_sem_etc_spec:
  assumes "kinv idle k" and "0 \<le> i" and "se_id (ks_sems (tm_world k) (sem_slot i)) = i"
  shows "\<exists>k'. delete_sem_etc clock i c k = Returns (B_NO_ERROR, k') \<and> kinv idle k' \<and> sem_gone i (tm_world k) (tm_world k')"
proof -
  let ?s = "tm_world k" and ?n = "sem_slot i"
  let ?q = "se_q (ks_sems ?s ?n)"
  from assms(1) obtain L where so: "sched_ok k L" and ok: "kernel_ok idle [] ?s" and sem: "sems_ok ?s"
    and cur: "eff ?s (ks_current ?s) = THREAD_STATE_READY" and slots: "\<forall>n < MAX_SEMS. slot_ok ?s n"
    and nocurs: "\<forall>n < MAX_SEMS. ks_current ?s \<notin> set (se_q (ks_sems ?s n))" by (rule kinvD) blast
  have n: "?n < MAX_SEMS" by (rule slot_bound)
  have slot: "slot_ok ?s ?n" and nocur: "ks_current ?s \<notin> set ?q" using slots nocurs n by blast+
  have dq: "distinct ?q" using slot by (cases "?q = []") (auto simp: entry_ok_def Let_def neq_Nil_conv dest: slot_ok_waiter(4))
  let ?s2 = "set_sem ?n (\<lambda>e. e\<lparr>se_id := -1, se_q := [], se_name := None\<rparr>) (fold (sem_deleted c) ?q ?s)"
  obtain s2 where s2: "s2 = ?s2" by simp
  have f: "ks_sems s2 = (ks_sems ?s)(?n := (ks_sems ?s ?n)\<lparr>se_id := -1, se_q := [], se_name := None\<rparr>)"
    "ks_current s2 = ks_current ?s" "ks_run_q s2 = ks_run_q ?s" "ks_preempted s2 = ks_preempted ?s"
    "ks_sems_active s2 = ks_sems_active ?s" "ks_next_sem s2 = ks_next_sem ?s"
    "\<And>t. ks_thread s2 t = (if t \<in> set ?q then (ks_thread ?s t)\<lparr>th_state := THREAD_STATE_READY, th_errcode := B_BAD_SEM_ID,
        th_deleted_retcode := c, th_sem_count := 0\<rparr> else ks_thread ?s t)"
    by (simp_all add: s2 fold_sem_deleted)
  have sem2: "sems_ok s2"
  proof (rule sems_ok_upd [OF sem f(1,5)])
    show "slot_ok s2 ?n" by (simp add: slot_ok_def f(1))
  next
    fix m t
    assume m: "m < MAX_SEMS" "m \<noteq> ?n" and t: "t \<in> set (se_q (ks_sems ?s m))"
    then have "t \<notin> set ?q" using one_queue [OF sem n m(1)] by blast
    then show "th_sem_blocking (ks_thread s2 t) = th_sem_blocking (ks_thread ?s t) \<and> needs s2 t = needs ?s t"
      by (simp add: needs_def f(7))
  qed (use sem in \<open>simp_all add: f(6) sems_ok_def\<close>)
  have ok2: "kernel_ok idle ?q s2"
    by (rule kernel_ok_wake [OF ok n dq _ nocur f(1) _ f(3,2) _ _ sem2]) (simp_all add: f(7))
  have so2: "sched_ok (in_world (\<lambda>_. s2) k) L"
    using so by (rule sched_ok_in_world) (simp_all add: f(2,4,7))
  have e2: "eff s2 t = (if t \<in> set ?q then THREAD_STATE_READY else eff ?s t)" for t
    using nocur by (auto simp: eff_def f(2,7))
  have cur2: "eff s2 (ks_current s2) = THREAD_STATE_READY" using cur by (simp add: e2 f(2))
  from resched_after_kinv [OF so2, of idle ?q clock True] ok2 cur2 obtain k' where
    run: "resched_after clock True ?q (in_world (\<lambda>_. s2) k) = Returns k'" and kinv: "kinv idle k'"
    and k': "ks_sems (tm_world k') = ks_sems s2" "ks_next_sem (tm_world k') = ks_next_sem s2"
      "\<forall>t. th_errcode (ks_thread (tm_world k') t) = th_errcode (ks_thread s2 t)"
      "\<forall>t. eff (tm_world k') t = eff s2 t" by auto
  have "delete_sem_etc clock i c k = Returns (B_NO_ERROR, k')"
    using assms(2,3) sem run by (simp add: delete_sem_etc_def Let_def sems_ok_def s2)
  moreover have "sem_gone i ?s (tm_world k')"
    using k' by (auto simp: sem_gone_def Let_def f e2)
  ultimately show ?thesis using kinv by blast
qed

section \<open>Releasing\<close>

lemma split_sets: "w @ r = ts \<Longrightarrow> distinct ts \<Longrightarrow> distinct w \<and> set w \<subseteq> set ts \<and> set r = set ts - set w"
  by auto

lemmas served_sets = split_sets [OF served_unserved]

lemma served_le: "0 \<le> n \<Longrightarrow> needed s (served (needs s) n ts) \<le> n"
  by (induction ts arbitrary: n) (auto, smt (verit))

lemma unserved_hd: "unserved (needs s) n ts = u # us \<Longrightarrow> n - needed s (served (needs s) n ts) < needs s u"
proof (induction ts arbitrary: n)
  case (Cons a ts)
  show ?case
  proof (cases "needs s a \<le> n")
    case True
    then have "n - needs s a - needed s (served (needs s) (n - needs s a) ts) < needs s u"
      using Cons.prems by (intro Cons.IH) simp
    with True show ?thesis by simp
  qed (use Cons.prems in simp)
qed simp

lemma released_fields:
  "ks_sems (released n c s) = (ks_sems s)(n := (ks_sems s n)\<lparr>se_q := unserved (needs s) c (se_q (ks_sems s n)),
     se_count := se_count (ks_sems s n) + c\<rparr>)"
  "ks_run_q (released n c s) = ks_run_q s" "ks_current (released n c s) = ks_current s"
  "ks_preempted (released n c s) = ks_preempted s" "ks_sems_active (released n c s) = ks_sems_active s"
  "ks_next_sem (released n c s) = ks_next_sem s"
  "th_state (ks_thread (released n c s) t) =
     (if t \<in> set (served (needs s) c (se_q (ks_sems s n))) then THREAD_STATE_READY else th_state (ks_thread s t))"
  "th_next_state (ks_thread (released n c s) t) = th_next_state (ks_thread s t)"
  "th_cpu (ks_thread (released n c s) t) = th_cpu (ks_thread s t)"
  "th_sem_blocking (ks_thread (released n c s) t) = th_sem_blocking (ks_thread s t)"
  "th_errcode (ks_thread (released n c s) t) = th_errcode (ks_thread s t)"
  "t \<notin> set (se_q (ks_sems s n)) \<Longrightarrow> needs (released n c s) t = needs s t"
proof -
  have "hd (unserved (needs s) c q) \<in> set q" if "unserved (needs s) c q \<noteq> []" for q
    using that by (metis Un_iff hd_in_set served_unserved set_append)
  moreover have "set (served (needs s) c q) \<subseteq> set q" for q
    by (metis Un_iff served_unserved set_append subsetI)
  ultimately show "t \<notin> set (se_q (ks_sems s n)) \<Longrightarrow> needs (released n c s) t = needs s t"
    by (auto simp: needs_def released_def released_thread_def Let_def)
qed (simp_all add: released_def released_thread_def Let_def)

lemma released_entry:
  assumes ok: "entry_ok s n" and c: "0 \<le> c" "se_count (ks_sems s n) + c < 2 ^ 31"
  shows "entry_ok (released n c s) n"
proof -
  let ?q = "se_q (ks_sems s n)" and ?s' = "released n c s"
  let ?w = "served (needs s) c ?q" and ?r = "unserved (needs s) c ?q"
  have q: "?w @ ?r = ?q" by (rule served_unserved)
  have e: "ks_sems ?s' n = (ks_sems s n)\<lparr>se_q := ?r, se_count := se_count (ks_sems s n) + c\<rparr>"
    by (simp add: released_fields)
  have o: "0 \<le> se_count (ks_sems s n) \<longrightarrow> ?q = []" "se_count (ks_sems s n) < 0 \<longrightarrow> se_count (ks_sems s n) = - needed s ?q"
    "distinct ?q" "\<forall>t \<in> set ?q. 0 < needs s t" "- (2 ^ 31) \<le> se_count (ks_sems s n)"
    using ok by (simp_all add: entry_ok_def Let_def)
  show ?thesis
  proof (cases "se_count (ks_sems s n) < 0")
    case False
    with o have "?q = []" by simp
    with o False c show ?thesis by (simp add: entry_ok_def e Let_def)
  next
    case True
    then have cnt: "se_count (ks_sems s n) + c = c - needed s ?w - needed s ?r"
      using o(2) needed_simps(3) [of s ?w ?r] unfolding q by simp
    have le: "needed s ?w \<le> c" using c(1) by (rule served_le)
    show ?thesis
    proof (cases ?r)
      case Nil
      with cnt le c o show ?thesis by (simp add: entry_ok_def e Let_def)
    next
      case (Cons u us)
      have less: "c - needed s ?w < needs s u" using unserved_hd [OF Cons] .
      have d: "distinct (u # us)" "set (u # us) \<inter> set ?w = {}" "\<forall>t \<in> set (u # us). 0 < needs s t"
        using o(3,4) q Cons by (metis distinct_append, metis distinct_append Int_commute, metis Un_iff set_append)
      have nu: "needs ?s' t = (if t = u then needs s t - (c - needed s ?w) else needs s t)" if "t \<in> set (u # us)" for t
        using that d(2) Cons by (auto simp: needs_def released_def released_thread_def Let_def)
      have "needed ?s' us = needed s us" using d(1) nu by (intro needed_cong) auto
      then have nd: "needed ?s' (u # us) = needed s (u # us) - (c - needed s ?w)" using nu [of u] by simp
      have "0 \<le> needed s us" using d(3) by (intro needed_nonneg) auto
      with less cnt Cons have neg: "se_count (ks_sems s n) + c < 0" by simp
      have "\<forall>t \<in> set (u # us). 0 < needs ?s' t" using nu d(3) less by auto
      with d(1) nd neg cnt c o Cons show ?thesis by (simp add: entry_ok_def e Let_def)
    qed
  qed
qed

definition sem_released :: "int \<Rightarrow> int \<Rightarrow> ks \<Rightarrow> ks \<Rightarrow> bool" where
  "sem_released i n s s' \<longleftrightarrow>
     (let slot = sem_slot i; q = se_q (ks_sems s slot); woken = served (needs s) n q
      in ks_sems s' = (ks_sems s)(slot := (ks_sems s slot)\<lparr>se_q := unserved (needs s) n q, se_count := se_count (ks_sems s slot) + n\<rparr>) \<and>
         ks_next_sem s' = ks_next_sem s \<and>
         (\<forall>t. th_errcode (ks_thread s' t) = th_errcode (ks_thread s t)) \<and>
         (\<forall>t. eff s' t = (if t \<in> set woken then THREAD_STATE_READY else eff s t)))"

lemma release_sem_etc_spec:
  assumes "kinv idle k" and "0 \<le> i" and "se_id (ks_sems (tm_world k) (sem_slot i)) = i" and "0 < c"
    and "se_count (ks_sems (tm_world k) (sem_slot i)) + c < 2 ^ 31"
  shows "\<exists>k'. release_sem_etc clock i c flags k = Returns (0, k') \<and> kinv idle k' \<and> sem_released i c (tm_world k) (tm_world k')"
proof -
  let ?s = "tm_world k" and ?n = "sem_slot i"
  let ?q = "se_q (ks_sems ?s ?n)"
  let ?w = "served (needs ?s) c ?q" and ?r = "unserved (needs ?s) c ?q"
  from assms(1) obtain L where so: "sched_ok k L" and ok: "kernel_ok idle [] ?s" and sem: "sems_ok ?s"
    and cur: "eff ?s (ks_current ?s) = THREAD_STATE_READY" and slots: "\<forall>n < MAX_SEMS. slot_ok ?s n"
    and nocurs: "\<forall>n < MAX_SEMS. ks_current ?s \<notin> set (se_q (ks_sems ?s n))" by (rule kinvD) blast
  have n: "?n < MAX_SEMS" by (rule slot_bound)
  have slot: "slot_ok ?s ?n" and nocur: "ks_current ?s \<notin> set ?q" using slots nocurs n by blast+
  note live = slot_ok_live [OF slot assms(3,2)]
  have ent: "entry_ok ?s ?n" by (rule live(1))
  have dq: "distinct ?q" using ent by (simp add: entry_ok_def Let_def)
  then have sub: "distinct ?w" "set ?w \<subseteq> set ?q" "set ?r = set ?q - set ?w"
    using served_sets [of ?q "needs ?s" c] by blast+
  obtain s2 where s2: "s2 = released ?n c ?s" by simp
  note f = released_fields [where n = ?n and c = c and s = ?s, folded s2]
  have loop: "release_loop ?n c [] ?s = Returns (?w, s2)"
    using release_loop_spec [OF ent] assms(4,5) by (simp add: s2)
  have ent2: "entry_ok s2 ?n" unfolding s2 using ent assms(4,5) by (intro released_entry) simp_all
  have sem2: "sems_ok s2"
  proof (rule sems_ok_upd [OF sem f(1,5)])
    have "set ?r \<subseteq> set ?q" using sub(3) by blast
    then have "\<forall>t \<in> set ?r. th_sem_blocking (ks_thread s2 t) = i" using live(4) by (auto simp: f(10))
    then show "slot_ok s2 ?n" using ent2 live(2,3) assms(2,3) by (simp add: slot_ok_def f(1,6) Let_def)
  next
    fix m t
    assume m: "m < MAX_SEMS" "m \<noteq> ?n" and t: "t \<in> set (se_q (ks_sems ?s m))"
    then have "t \<notin> set ?q" using one_queue [OF sem n m(1)] by blast
    then show "th_sem_blocking (ks_thread s2 t) = th_sem_blocking (ks_thread ?s t) \<and> needs s2 t = needs ?s t"
      by (simp add: f)
  qed (use sem in \<open>simp_all add: f(6) sems_ok_def\<close>)
  have ok2: "kernel_ok idle ?w s2"
    by (rule kernel_ok_wake [OF ok n sub(1,2) _ f(1) _ f(2,3) f(8) f(7) sem2]) (use sub nocur in auto)
  have so2: "sched_ok (in_world (\<lambda>_. s2) k) L"
    using so by (rule sched_ok_in_world) (simp_all add: f)
  have e2: "eff s2 t = (if t \<in> set ?w then THREAD_STATE_READY else eff ?s t)" for t
    using nocur sub(2) by (auto simp: eff_def f)
  have cur2: "eff s2 (ks_current s2) = THREAD_STATE_READY" using cur by (simp add: e2 f)
  from resched_after_kinv [OF so2, of idle ?w clock "flags AND B_DO_NOT_RESCHEDULE = 0"] ok2 cur2 obtain k' where
    run: "resched_after clock (flags AND B_DO_NOT_RESCHEDULE = 0) ?w (in_world (\<lambda>_. s2) k) = Returns k'" and kinv: "kinv idle k'"
    and k': "ks_sems (tm_world k') = ks_sems s2" "ks_next_sem (tm_world k') = ks_next_sem s2"
      "\<forall>t. th_errcode (ks_thread (tm_world k') t) = th_errcode (ks_thread s2 t)"
      "\<forall>t. eff (tm_world k') t = eff s2 t" by auto
  have "release_sem_etc clock i c flags k = Returns (0, k')"
    using assms(2,3,4) sem run loop by (simp add: release_sem_etc_def Let_def sems_ok_def)
  moreover have "sem_released i c ?s (tm_world k')"
    using k' by (simp add: sem_released_def Let_def f e2)
  ultimately show ?thesis using kinv by blast
qed

section \<open>Acquiring\<close>

lemma set_thread_simps [simp]:
  "ks_thread (set_thread t f s) = (ks_thread s)(t := f (ks_thread s t))" "ks_sems (set_thread t f s) = ks_sems s"
  "ks_run_q (set_thread t f s) = ks_run_q s" "ks_current (set_thread t f s) = ks_current s"
  "ks_preempted (set_thread t f s) = ks_preempted s" "ks_sems_active (set_thread t f s) = ks_sems_active s"
  "ks_next_sem (set_thread t f s) = ks_next_sem s" "ks_overrun (set_thread t f s) = ks_overrun s"
  by (simp_all add: set_thread_def)

lemma min_needs: "(c::int) < n \<Longrightarrow> min (- (c - n)) n = (if 0 \<le> c then n - c else n)"
  by auto

lemma sem_taken:
  assumes "sems_ok s" and "m < MAX_SEMS" and "se_id (ks_sems s m) = i" "0 \<le> i"
    and "n \<le> se_count (ks_sems s m)" "0 < n"
  shows "sems_ok (set_sem m (\<lambda>e. e\<lparr>se_count := se_count e - n\<rparr>) s)"
proof -
  let ?s' = "set_sem m (\<lambda>e. e\<lparr>se_count := se_count e - n\<rparr>) s"
  have slot: "slot_ok s m" using assms(1,2) by (simp add: sems_ok_def)
  note live = slot_ok_live [OF slot assms(3,4)]
  have q: "se_q (ks_sems s m) = []" using entry_ok_queue [OF live(1)] assms(5,6) by simp
  have "entry_ok ?s' m" using live(1) assms(5,6) q by (simp add: entry_ok_def Let_def)
  then have "slot_ok ?s' m" using slot live assms(3,4) q by (simp add: slot_ok_def Let_def)
  then show ?thesis
    by (intro sems_ok_upd [OF assms(1), where n = m]) (use assms(1) in \<open>simp_all add: sems_ok_def needs_def\<close>)
qed

text \<open>The queue, the counts and the thread after the caller has blocked.\<close>

lemma block_ok:
  assumes ok: "kernel_ok idle [] s" and cur: "eff s (ks_current s) = THREAD_STATE_READY" and id: "ks_current s \<noteq> idle"
    and sem: "se_id (ks_sems s (sem_slot i)) = i" "0 \<le> i" and c: "c = se_count (ks_sems s (sem_slot i))"
    and n: "0 < n" "c < n" "- (2 ^ 31) \<le> c - n"
    and s1: "s1 = block_on_sem (ks_current s) i n flags (set_sem (sem_slot i) (\<lambda>e. e\<lparr>se_count := c - n\<rparr>) s)"
  shows "kernel_ok idle [] s1"
    and "ks_sems s1 = (ks_sems s)(sem_slot i :=
      (ks_sems s (sem_slot i))\<lparr>se_count := c - n, se_q := se_q (ks_sems s (sem_slot i)) @ [ks_current s]\<rparr>)"
    and "ks_current s1 = ks_current s" and "ks_preempted s1 = ks_preempted s" and "ks_next_sem s1 = ks_next_sem s"
    and "\<And>t. th_cpu (ks_thread s1 t) = th_cpu (ks_thread s t)"
    and "\<And>t. th_signals (ks_thread s1 t) = th_signals (ks_thread s t)"
    and "\<And>t. eff s1 t = (if t = ks_current s then THREAD_STATE_WAITING else eff s t)"
    and "th_errcode (ks_thread s1 (ks_current s)) = B_NO_ERROR"
    and "th_sem_count (ks_thread s1 (ks_current s)) = (if 0 \<le> c then n - c else n)"
    and "th_acquire_count (ks_thread s1 (ks_current s)) = n"
proof -
  let ?n = "sem_slot i" and ?t = "ks_current s"
  let ?q = "se_q (ks_sems s ?n)"
  have nb: "?n < MAX_SEMS" by (rule slot_bound)
  have pl: "placed [] s" and w: "waiting_ok s" and so: "sems_ok s" and ide: "eff s idle = THREAD_STATE_READY"
    using ok by (simp_all add: kernel_ok_def)
  have slot: "slot_ok s ?n" using so nb by (simp add: sems_ok_def)
  note live = slot_ok_live [OF slot sem]
  have notq: "?t \<notin> set (se_q (ks_sems s m))" if "m < MAX_SEMS" for m
    using w cur that unfolding waiting_ok_def by (metis thread_state.distinct(3))
  show sems: "ks_sems s1 = (ks_sems s)(?n := (ks_sems s ?n)\<lparr>se_count := c - n, se_q := ?q @ [?t]\<rparr>)"
    and fields: "ks_current s1 = ?t" "ks_preempted s1 = ks_preempted s" "ks_next_sem s1 = ks_next_sem s"
      "\<And>t. th_cpu (ks_thread s1 t) = th_cpu (ks_thread s t)" "\<And>t. th_signals (ks_thread s1 t) = th_signals (ks_thread s t)"
    and eff1: "\<And>t. eff s1 t = (if t = ?t then THREAD_STATE_WAITING else eff s t)"
    and "th_errcode (ks_thread s1 ?t) = B_NO_ERROR"
    and cnt: "th_sem_count (ks_thread s1 ?t) = (if 0 \<le> c then n - c else n)"
    and "th_acquire_count (ks_thread s1 ?t) = n"
    using min_needs [OF n(2)] by (simp_all add: s1 block_on_sem_def Let_def eff_def)
  have rest: "ks_run_q s1 = ks_run_q s" "ks_sems_active s1 = ks_sems_active s"
    "\<And>t. th_state (ks_thread s1 t) = th_state (ks_thread s t)" "th_sem_blocking (ks_thread s1 ?t) = i"
    "\<And>t. t \<noteq> ?t \<Longrightarrow> th_sem_blocking (ks_thread s1 t) = th_sem_blocking (ks_thread s t) \<and> needs s1 t = needs s t"
    by (simp_all add: s1 block_on_sem_def Let_def needs_def)
  have "placed [] s1" using pl unfolding placed_def fields rest eff1 by auto
  moreover have "waiting_ok s1"
    unfolding waiting_ok_def
  proof
    fix t
    have "(\<exists>m < MAX_SEMS. t \<in> set (se_q (ks_sems s1 m))) \<longleftrightarrow> t = ?t \<or> (\<exists>m < MAX_SEMS. t \<in> set (se_q (ks_sems s m)))"
    proof -
      have "t \<in> set (se_q (ks_sems s1 m)) \<longleftrightarrow> (m = ?n \<and> t = ?t) \<or> t \<in> set (se_q (ks_sems s m))" for m
        by (auto simp: sems)
      with nb show ?thesis by blast
    qed
    then show "eff s1 t = THREAD_STATE_WAITING \<longleftrightarrow> (\<exists>m < MAX_SEMS. t \<in> set (se_q (ks_sems s1 m)))"
      using w unfolding eff1 waiting_ok_def by simp
  qed
  moreover have "sems_ok s1"
  proof (rule sems_ok_upd [OF so sems])
    have nd: "needed s1 ?q = needed s ?q" using notq [OF nb] rest(5) by (intro needed_cong) metis
    have pos: "\<forall>t \<in> set ?q. 0 < needs s1 t" using live(1) notq [OF nb] rest(5) by (metis entry_ok_def)
    have e: "ks_sems s1 ?n = (ks_sems s ?n)\<lparr>se_count := c - n, se_q := ?q @ [?t]\<rparr>" by (simp add: sems)
    have o: "0 \<le> c \<longrightarrow> ?q = []" "c < 0 \<longrightarrow> c = - needed s ?q" "distinct ?q" "c < 2 ^ 31"
      using live(1) by (simp_all add: entry_ok_def Let_def c)
    have nt: "needs s1 ?t = (if 0 \<le> c then n - c else n)" using cnt by (simp add: needs_def)
    have "c - n = - needed s1 (?q @ [?t])" using o nt nd by auto
    moreover have "\<forall>t \<in> set (?q @ [?t]). 0 < needs s1 t" using pos nt n by auto
    moreover have "distinct (?q @ [?t])" using o notq [OF nb] by simp
    ultimately have "entry_ok s1 ?n" using n o(4) by (simp add: entry_ok_def e Let_def)
    moreover have "\<forall>t \<in> set (?q @ [?t]). th_sem_blocking (ks_thread s1 t) = i"
      using live(4) rest(4,5) notq [OF nb] by (metis in_set_conv_decomp append_Nil2 in_set_conv_decomp_first list.set_intros(1) rotate1.simps(2) set_ConsD set_rotate1)
    ultimately show "slot_ok s1 ?n" using live(2,3) sem by (simp add: slot_ok_def e fields Let_def)
  next
    fix m t
    assume "m < MAX_SEMS" "m \<noteq> ?n" and t: "t \<in> set (se_q (ks_sems s m))"
    then have "t \<noteq> ?t" using notq by blast
    then show "th_sem_blocking (ks_thread s1 t) = th_sem_blocking (ks_thread s t) \<and> needs s1 t = needs s t"
      by (rule rest(5))
  qed (use so in \<open>simp_all add: fields rest sems_ok_def\<close>)
  moreover have "eff s1 idle = THREAD_STATE_READY" using ide id eff1 by simp
  ultimately show "kernel_ok idle [] s1" by (simp add: kernel_ok_def)
qed

text \<open>
  What \<open>acquire_sem_etc\<close> without a timeout does: it takes the units, refuses a thread that is
  being killed, or queues the caller for what is missing and switches to another thread.
\<close>

definition sem_blocked :: "int \<Rightarrow> int \<Rightarrow> ks \<Rightarrow> ks \<Rightarrow> bool" where
  "sem_blocked i n s s' \<longleftrightarrow>
     (let slot = sem_slot i; e = ks_sems s slot; t = ks_current s
      in ks_sems s' = (ks_sems s)(slot := e\<lparr>se_count := se_count e - n, se_q := se_q e @ [t]\<rparr>) \<and>
         ks_current s' \<noteq> t \<and> ks_next_sem s' = ks_next_sem s \<and>
         needs s' t = (if 0 \<le> se_count e then n - se_count e else n) \<and> th_acquire_count (ks_thread s' t) = n \<and>
         th_errcode (ks_thread s' t) = B_NO_ERROR \<and>
         (\<forall>u. eff s' u = (if u = t then THREAD_STATE_WAITING else eff s u)))"

definition no_timeout :: "32 word \<Rightarrow> bool" where
  "no_timeout flags \<longleftrightarrow> flags AND (B_TIMEOUT OR B_ABSOLUTE_TIMEOUT) = 0"

lemma no_timeout_flag:
  assumes "no_timeout flags"
  shows "flags AND B_TIMEOUT = 0"
proof -
  have "flags AND 8 = (flags AND 24) AND 8" by (simp add: and.assoc)
  with assms show ?thesis by (simp add: no_timeout_def B_TIMEOUT_def B_ABSOLUTE_TIMEOUT_def)
qed

text \<open>The timer of a wait: it is set for the thread's own event, which must not be pending.\<close>

definition waits_timed :: "kt \<Rightarrow> nat \<Rightarrow> int \<Rightarrow> int \<Rightarrow> kt \<Rightarrow> bool" where
  "waits_timed k t i n k' \<longleftrightarrow>
     (\<exists>L. sched_ok k' L \<and> stack_event t \<in> set (L (tm_curr_cpu k))) \<and>
     ks_timeout (tm_world k') t = \<lparr>ta_thread = th_id (ks_thread (tm_world k) t), ta_sem = i, ta_count = n\<rparr>"

definition timer_idle :: "nat \<Rightarrow> kt \<Rightarrow> bool" where
  "timer_idle t k \<longleftrightarrow> (\<exists>L. sched_ok k L \<and> (\<forall>c. stack_event t \<notin> set (L c)))"

lemma start_timeout_spec:
  assumes ok: "sched_ok k L" and fresh: "\<forall>c. stack_event t \<notin> set (L c)"
  shows "\<exists>k' xs. start_timeout clock t i n flags timeout k = Returns k' \<and> sched_ok k' (L(tm_curr_cpu k := xs)) \<and>
           set xs = insert (stack_event t) (set (L (tm_curr_cpu k))) \<and> tm_curr_cpu k' = tm_curr_cpu k \<and>
           tm_world k' = (tm_world k)\<lparr>ks_timeout := (ks_timeout (tm_world k))
             (t := \<lparr>ta_thread = th_id (ks_thread (tm_world k) t), ta_sem = i, ta_count = n\<rparr>)\<rparr>"
proof -
  let ?s = "tm_world k" and ?cpu = "tm_curr_cpu k"
  obtain rel k1 where rel: "(if flags AND B_ABSOLUTE_TIMEOUT \<noteq> 0
      then (case system_time clock k of (now, k1) \<Rightarrow> (i32 (i32 timeout - now), k1)) else (i32 timeout, k)) = (rel, k1)"
    by (cases "if flags AND B_ABSOLUTE_TIMEOUT \<noteq> 0
      then (case system_time clock k of (now, k1) \<Rightarrow> (i32 (i32 timeout - now), k1)) else (i32 timeout, k)")
  then have k1: "\<exists>r. k1 = k\<lparr>tm_reads := r\<rparr>"
    by (auto simp: system_time_def split: if_splits intro: exI [of _ "tm_reads k"])
  then have w1: "tm_world k1 = ?s" "tm_locked k1 = tm_locked k" "tm_curr_cpu k1 = ?cpu" by auto
  have rep1: "tm_rep k1 L" using ok k1 by (auto simp: sched_ok_def intro: tm_rep_transfer)
  let ?f = "\<lambda>s. s\<lparr>ks_timeout := (ks_timeout s)(t := \<lparr>ta_thread = th_id (ks_thread s t), ta_sem = i, ta_count = n\<rparr>)\<rparr>"
  let ?f' = "\<lambda>s. s\<lparr>ks_timeout := (ks_timeout s)(t := \<lparr>ta_thread = th_id (ks_thread (tm_world k) t), ta_sem = i, ta_count = n\<rparr>)\<rparr>"
  let ?k3 = "timer_setup_timer (Some SEM_TIMEOUT) t (stack_event t) (in_world ?f k1)"
  have rep3: "tm_rep ?k3 L" by (rule timer_setup_rep) (use rep1 fresh in simp_all)
  have lk: "\<not> tm_locked ?k3 (tm_curr_cpu ?k3)" using ok w1 by (simp add: sched_ok_def)
  have z: "te_sched_time (tm_event ?k3 (stack_event t)) = 0" by simp
  from timer_set_event_spec [OF rep3 fresh z lk, of clock rel TIMER_MODE_ONESHOT] obtain k4 v xs where
    k4: "timer_set_event clock rel TIMER_MODE_ONESHOT (Some (stack_event t)) ?k3 = Returns (0, k4)"
    and xs: "xs = insert_event ((due_at ?k3)(stack_event t := v)) (stack_event t) (L (tm_curr_cpu ?k3))"
    and rep4: "tm_rep k4 (L(tm_curr_cpu ?k3 := xs))" and rest: "tm_locked k4 = tm_locked ?k3" "tm_world k4 = tm_world ?k3"
      "tm_curr_cpu k4 = tm_curr_cpu ?k3" by blast
  have cpu: "tm_curr_cpu ?k3 = ?cpu" using w1 by simp
  have w4: "tm_world k4 = ?f ?s" using rest(2) w1 by simp
  have "distinct (L ?cpu)" using tm_repD(1) [OF rep1, of ?cpu] by (rule chain_distinct)
  then have sx: "set xs = insert (stack_event t) (set (L ?cpu))" unfolding xs cpu by (simp add: set_insert_event)
  have q: "quantum_event c \<noteq> stack_event t" for c unfolding quantum_event_def stack_event_def by presburger
  have th: "th_id (ks_thread (tm_world k1) t) = th_id (ks_thread ?s t)" using w1 by simp
  have "sched_ok k4 (L(?cpu := xs))"
    using ok rep4 rest w1 w4 sx q [of ?cpu] unfolding sched_ok_def cpu by auto
  moreover have "start_timeout clock t i n flags timeout k = Returns k4"
    using k4 rel th by (simp add: start_timeout_def Let_def)
  ultimately show ?thesis using sx w4 rest(3) cpu by auto
qed

lemma kernel_ok_timeout [simp]: "kernel_ok idle W (s\<lparr>ks_timeout := f\<rparr>) = kernel_ok idle W s"
proof -
  let ?s = "s\<lparr>ks_timeout := f\<rparr>"
  have e: "eff ?s t = eff s t" "needs ?s t = needs s t" for t by (simp_all add: eff_def needs_def)
  then have "needed ?s ts = needed s ts" for ts by (simp add: needed_def)
  then have "slot_ok ?s n = slot_ok s n" for n using e by (simp add: slot_ok_def entry_ok_def Let_def)
  moreover have "placed W ?s = placed W s" "waiting_ok ?s = waiting_ok s" using e by (simp_all add: placed_def waiting_ok_def)
  ultimately show ?thesis using e by (simp add: kernel_ok_def sems_ok_def)
qed

lemma acquire_sem_timed_spec:
  assumes "kinv idle k" and "ks_current (tm_world k) \<noteq> idle" and "no_timeout flags \<or> timer_idle (ks_current (tm_world k)) k"
    and "0 \<le> i" and "se_id (ks_sems (tm_world k) (sem_slot i)) = i" and "0 < n"
    and "- (2 ^ 31) \<le> se_count (ks_sems (tm_world k) (sem_slot i)) - n"
  defines "s \<equiv> tm_world k" and "c \<equiv> se_count (ks_sems (tm_world k) (sem_slot i))"
  shows "\<exists>r k'. acquire_sem_etc clock False i n flags timeout k = Returns (r, k') \<and> kinv idle k' \<and>
           (n \<le> c \<longrightarrow> r = Done 0 \<and> tm_world k' = set_sem (sem_slot i) (\<lambda>e. e\<lparr>se_count := se_count e - n\<rparr>) s) \<and>
           (c < n \<and> flags AND B_TIMEOUT \<noteq> 0 \<and> timeout \<le> 0 \<longrightarrow> r = Done ERR_SEM_TIMED_OUT \<and> k' = k) \<and>
           (c < n \<and> \<not> (flags AND B_TIMEOUT \<noteq> 0 \<and> timeout \<le> 0) \<and> killed (ks_current s) flags s \<longrightarrow> r = Done EINTR \<and> tm_world k' = s) \<and>
           (c < n \<and> \<not> (flags AND B_TIMEOUT \<noteq> 0 \<and> timeout \<le> 0) \<and> \<not> killed (ks_current s) flags s \<longrightarrow>
              r = Suspended (Some (ks_current s)) \<and> sem_blocked i n s (tm_world k') \<and>
              (\<not> no_timeout flags \<longrightarrow> waits_timed k (ks_current s) i n k'))"
proof -
  let ?n = "sem_slot i" and ?t = "ks_current s"
  from assms(1) obtain L where so: "sched_ok k L" and ok: "kernel_ok idle [] s" and sem: "sems_ok s"
    and cur: "eff s ?t = THREAD_STATE_READY" and slots: "\<forall>n < MAX_SEMS. slot_ok s n"
    unfolding s_def by (rule kinvD) blast
  have nb: "?n < MAX_SEMS" by (rule slot_bound)
  have slot: "slot_ok s ?n" using slots nb by blast
  note live = slot_ok_live [OF slot assms(5) [folded s_def] assms(4)]
  have c: "c < 2 ^ 31" using live(1) by (simp add: entry_ok_def c_def s_def Let_def)
  have i1: "i32 (c - n) = c - n" and i2: "i32 (c - n + n) = c"
    using c assms(6,7) by (simp_all add: c_def entry_ok_def Let_def)
  let ?s1 = "set_sem ?n (\<lambda>e. e\<lparr>se_count := c - n\<rparr>) s"
  consider (free) "n \<le> c" | (now) "c < n" "flags AND B_TIMEOUT \<noteq> 0 \<and> timeout \<le> 0"
    | (kill) "c < n" "killed ?t flags ?s1" "\<not> (flags AND B_TIMEOUT \<noteq> 0 \<and> timeout \<le> 0)"
    | (block) "c < n" "\<not> killed ?t flags ?s1" "\<not> (flags AND B_TIMEOUT \<noteq> 0 \<and> timeout \<le> 0)" by linarith
  then show ?thesis
  proof cases
    case free
    have same: "?s1 = set_sem ?n (\<lambda>e. e\<lparr>se_count := se_count e - n\<rparr>) s" by (simp add: set_sem_def c_def s_def)
    have "sems_ok ?s1" unfolding same
      using sem nb assms(5) assms(4) free assms(6) by (intro sem_taken) (simp_all add: s_def c_def)
    then have "kernel_ok idle [] ?s1" by (intro kernel_ok_sems [OF ok]) simp_all
    moreover have "sched_ok (in_world (\<lambda>_. ?s1) k) L"
      using so by (rule sched_ok_in_world) (simp_all add: s_def)
    ultimately have "kinv idle (in_world (\<lambda>_. ?s1) k)" using cur by (auto simp: kinv_def)
    moreover have "acquire_sem_etc clock False i n flags timeout k = Returns (Done 0, in_world (\<lambda>_. ?s1) k)"
      using assms(4-6) sem free i1 by (simp add: acquire_sem_etc_def Let_def s_def c_def sems_ok_def)
    ultimately show ?thesis using free same by auto
  next
    case now
    then have "acquire_sem_etc clock False i n flags timeout k = Returns (Done ERR_SEM_TIMED_OUT, k)"
      using assms(4-6) sem i1 by (simp add: acquire_sem_etc_def Let_def s_def c_def sems_ok_def)
    with now assms(1) show ?thesis by auto
  next
    case kill
    have undone: "set_sem ?n (\<lambda>e. e\<lparr>se_count := i32 (se_count e + n)\<rparr>) ?s1 = s"
      using i2 by (simp add: set_sem_def c_def s_def)
    then have "acquire_sem_etc clock False i n flags timeout k = Returns (Done EINTR, in_world (\<lambda>_. s) k)"
      using assms(4-6) sem kill i1 by (cases "flags AND B_TIMEOUT = 0") (simp_all add: acquire_sem_etc_def Let_def s_def c_def sems_ok_def)
    moreover have "in_world (\<lambda>_. s) k = k" by (simp add: in_world_def s_def)
    moreover have "killed ?t flags s" using kill(2) by (simp add: killed_def)
    ultimately show ?thesis using kill(1,3) assms(1) by (auto simp: s_def)
  next
    case block
    obtain s2 where s2: "s2 = block_on_sem ?t i n flags ?s1" by simp
    note b = block_ok [OF ok cur assms(2) [folded s_def] assms(5) [folded s_def] assms(4) _ assms(6) block(1) _ s2]
    have cc: "c = se_count (ks_sems s (sem_slot i))" by (simp add: c_def s_def)
    note b = b [OF cc assms(7) [folded c_def]]
    let ?k1 = "in_world (\<lambda>_. s2) k"
    have so2: "sched_ok ?k1 M" if "sched_ok k M" for M
      using that by (rule sched_ok_in_world) (simp_all add: b(3,4,6) s_def)
    have tid: "th_id (ks_thread s2 ?t) = th_id (ks_thread s ?t)"
      using s2 by (simp add: block_on_sem_def set_thread_def set_sem_def Let_def)
    obtain k2 M f where k2: "(if flags AND (B_TIMEOUT OR B_ABSOLUTE_TIMEOUT) \<noteq> 0
          then start_timeout clock ?t i n flags timeout ?k1 else Returns ?k1) = Returns k2"
      and so3: "sched_ok k2 M" and w2: "tm_world k2 = s2\<lparr>ks_timeout := f\<rparr>" and cpu2: "tm_curr_cpu k2 = tm_curr_cpu k"
      and timed: "\<not> no_timeout flags \<longrightarrow> stack_event ?t \<in> set (M (tm_curr_cpu k)) \<and>
        f ?t = \<lparr>ta_thread = th_id (ks_thread s ?t), ta_sem = i, ta_count = n\<rparr>"
    proof (cases "no_timeout flags")
      case True
      with so2 [OF so] show ?thesis by (intro that [of ?k1 L "ks_timeout s2"]) (simp_all add: no_timeout_def)
    next
      case False
      with assms(3) obtain M where M: "sched_ok k M" "\<forall>c. stack_event ?t \<notin> set (M c)" by (auto simp: timer_idle_def s_def)
      from start_timeout_spec [OF so2 [OF M(1)] M(2), of clock i n flags timeout] obtain k' xs where k':
        "start_timeout clock ?t i n flags timeout ?k1 = Returns k'" "sched_ok k' (M(tm_curr_cpu k := xs))"
        "set xs = insert (stack_event ?t) (set (M (tm_curr_cpu k)))" "tm_curr_cpu k' = tm_curr_cpu k"
        "tm_world k' = s2\<lparr>ks_timeout := (ks_timeout s2)(?t := \<lparr>ta_thread = th_id (ks_thread s2 ?t), ta_sem = i, ta_count = n\<rparr>)\<rparr>"
        by auto
      with False tid show ?thesis by (intro that [OF _ k'(2) k'(5) k'(4)]) (simp_all add: no_timeout_def)
    qed
    have nk: "\<not> killed ?t flags (tm_world k2)" using block(2) b(7) w2 by (simp add: killed_def)
    have ok2: "kernel_ok idle [] (tm_world k2)" using b(1) w2 by simp
    from resched_kinv_timers [OF so3 ok2, of clock] obtain k' ys where run: "thread_resched clock k2 = Returns k'"
      and kinv: "kinv idle k'" and kept': "sems_kept (tm_world k2) (tm_world k')" and e': "\<forall>t. eff (tm_world k') t = eff (tm_world k2) t"
      and so4: "sched_ok k' (M(tm_curr_cpu k2 := ys))" "set ys = insert (quantum_event (tm_curr_cpu k2)) (set (M (tm_curr_cpu k2)))" by blast
    have e: "\<forall>t. eff (tm_world k') t = eff s2 t" using e' w2 by (simp add: eff_def)
    have same: "in_world (\<lambda>_. tm_world k2) k2 = k2" by (simp add: in_world_def)
    have late: "late_check ?t i flags (tm_world k2) = (Some ?t, tm_world k2)" using nk by (simp add: late_check_def)
    have s2': "block_on_sem (ks_current (tm_world k)) i n flags
        (set_sem (sem_slot i) (\<lambda>e. e\<lparr>se_count := se_count (ks_sems (tm_world k) (sem_slot i)) - n\<rparr>) (tm_world k)) = s2"
      using s2 by (simp add: s_def c_def)
    note rewr = s2' late [unfolded s_def] run same
    have "acquire_sem_etc clock False i n flags timeout k = Returns (Suspended (Some ?t), k')"
    proof (cases "flags AND (B_TIMEOUT OR B_ABSOLUTE_TIMEOUT) = 0")
      case True
      then have "no_timeout flags" by (simp add: no_timeout_def)
      with True k2 have "flags AND B_TIMEOUT = 0" "in_world (\<lambda>_. s2) k = k2" using no_timeout_flag by auto
      then show ?thesis using True assms(4-6) sem block(1,2) i1 rewr
        by (simp add: acquire_sem_etc_def Let_def s_def c_def sems_ok_def)
    next
      case False
      then have "start_timeout clock (ks_current (tm_world k)) i n flags timeout (in_world (\<lambda>_. s2) k) = Returns k2"
        using k2 by (simp add: s_def)
      moreover have "\<not> (flags AND B_TIMEOUT \<noteq> 0 \<and> timeout \<le> 0)" using block(3) by blast
      ultimately show ?thesis using False assms(4-6) sem block(1,2) i1 rewr
        by (cases "flags AND B_TIMEOUT = 0") (simp_all add: acquire_sem_etc_def Let_def s_def c_def sems_ok_def)
    qed
    moreover have "\<not> no_timeout flags \<longrightarrow> waits_timed k ?t i n k'"
    proof
      assume nt: "\<not> no_timeout flags"
      have "ks_timeout (tm_world k') ?t = f ?t" using kept' w2 by (simp add: sems_kept_def)
      moreover have "stack_event ?t \<in> set ((M(tm_curr_cpu k2 := ys)) (tm_curr_cpu k))" using nt timed so4(2) cpu2 by simp
      ultimately show "waits_timed k ?t i n k'" using nt timed so4(1) by (auto simp: waits_timed_def s_def)
    qed
    moreover have "sem_blocked i n s (tm_world k')"
    proof -
      have k: "ks_sems (tm_world k') = ks_sems s2" "ks_next_sem (tm_world k') = ks_next_sem s2"
        "sem_fields (ks_thread (tm_world k') ?t) = sem_fields (ks_thread s2 ?t)"
        using kept' w2 by (simp_all add: sems_kept_def)
      have "eff (tm_world k') (ks_current (tm_world k')) = THREAD_STATE_READY" using kinv by (simp add: kinv_def)
      then have "ks_current (tm_world k') \<noteq> ?t" using e b(8) by auto
      with k e b(2,5,8-11) show ?thesis
        by (simp add: sem_blocked_def sem_fields_def needs_def c_def s_def Let_def)
    qed
    moreover have "\<not> killed ?t flags s" using block(2) by (simp add: killed_def)
    ultimately show ?thesis using block(1,3) kinv by auto
  qed
qed

lemma acquire_sem_etc_spec:
  assumes "kinv idle k" and "ks_current (tm_world k) \<noteq> idle" and "no_timeout flags"
    and "0 \<le> i" and "se_id (ks_sems (tm_world k) (sem_slot i)) = i" and "0 < n"
    and "- (2 ^ 31) \<le> se_count (ks_sems (tm_world k) (sem_slot i)) - n"
  defines "s \<equiv> tm_world k" and "c \<equiv> se_count (ks_sems (tm_world k) (sem_slot i))"
  shows "\<exists>r k'. acquire_sem_etc clock False i n flags timeout k = Returns (r, k') \<and> kinv idle k' \<and>
           (n \<le> c \<longrightarrow> r = Done 0 \<and> tm_world k' = set_sem (sem_slot i) (\<lambda>e. e\<lparr>se_count := se_count e - n\<rparr>) s) \<and>
           (c < n \<and> killed (ks_current s) flags s \<longrightarrow> r = Done EINTR \<and> tm_world k' = s) \<and>
           (c < n \<and> \<not> killed (ks_current s) flags s \<longrightarrow> r = Suspended (Some (ks_current s)) \<and> sem_blocked i n s (tm_world k'))"
proof -
  from acquire_sem_timed_spec [OF assms(1,2) disjI1 [OF assms(3)] assms(4-7), of clock timeout] obtain r k' where
    "acquire_sem_etc clock False i n flags timeout k = Returns (r, k')" "kinv idle k'"
    "n \<le> c \<longrightarrow> r = Done 0 \<and> tm_world k' = set_sem (sem_slot i) (\<lambda>e. e\<lparr>se_count := se_count e - n\<rparr>) s"
    "c < n \<and> killed (ks_current s) flags s \<longrightarrow> r = Done EINTR \<and> tm_world k' = s"
    "c < n \<and> \<not> killed (ks_current s) flags s \<longrightarrow> r = Suspended (Some (ks_current s)) \<and> sem_blocked i n s (tm_world k')"
    unfolding s_def c_def using no_timeout_flag [OF assms(3)] by auto
  then show ?thesis by blast
qed

section \<open>Taking a thread off its semaphore\<close>

text \<open>
  A waiter that has not been given any unit yet, whose semaphore had none when it came, is
  taken off cleanly: the count is again what the other waiters need.
\<close>

definition whole_waiter :: "nat \<Rightarrow> ks \<Rightarrow> bool" where
  "whole_waiter t s \<longleftrightarrow>
     (let q = se_q (ks_sems s (sem_slot (th_sem_blocking (ks_thread s t))))
      in t \<in> set q \<and> th_sem_count (ks_thread s t) = th_acquire_count (ks_thread s t) \<and>
         (\<forall>u \<in> set q. th_id (ks_thread s u) = th_id (ks_thread s t) \<longrightarrow> u = t))"

definition sem_removed :: "nat \<Rightarrow> int \<Rightarrow> ks \<Rightarrow> ks \<Rightarrow> bool" where
  "sem_removed t e s s' \<longleftrightarrow>
     (let slot = sem_slot (th_sem_blocking (ks_thread s t)); q = remove1 t (se_q (ks_sems s slot))
      in ks_sems s' = (ks_sems s)(slot := (ks_sems s slot)\<lparr>se_q := q, se_count := - needed s q\<rparr>) \<and>
         ks_current s' = ks_current s \<and> ks_preempted s' = ks_preempted s \<and> ks_next_sem s' = ks_next_sem s \<and>
         (\<forall>u. th_cpu (ks_thread s' u) = th_cpu (ks_thread s u)) \<and>
         (\<forall>u. th_errcode (ks_thread s' u) = (if u = t then e else th_errcode (ks_thread s u))) \<and>
         (\<forall>u. eff s' u = (if u = t then THREAD_STATE_READY else eff s u)))"

lemma remove_whole_waiter:
  assumes ok: "kernel_ok idle [] s" and cur: "eff s (ks_current s) = THREAD_STATE_READY"
    and t: "whole_waiter t s" and i: "i = th_sem_blocking (ks_thread s t)"
  shows "\<exists>s'. remove_thread_from_sem t (sem_slot i) e s = (B_NO_ERROR, [t], s') \<and>
           kernel_ok idle [] (ready_all [t] s') \<and> sem_removed t e s (ready_all [t] s') \<and> se_id (ks_sems s (sem_slot i)) = i"
proof -
  let ?n = "sem_slot i"
  let ?q = "se_q (ks_sems s ?n)" and ?rest = "remove1 t (se_q (ks_sems s ?n))"
  have n: "?n < MAX_SEMS" by (rule slot_bound)
  have sem: "sems_ok s" and w: "waiting_ok s" using ok by (simp_all add: kernel_ok_def)
  then have slot: "slot_ok s ?n" using n by (simp add: sems_ok_def)
  have tq: "t \<in> set ?q" and whole: "th_sem_count (ks_thread s t) = th_acquire_count (ks_thread s t)"
    and uniq: "\<forall>u \<in> set ?q. th_id (ks_thread s u) = th_id (ks_thread s t) \<longrightarrow> u = t"
    using t by (simp_all add: whole_waiter_def i Let_def)
  have id: "se_id (ks_sems s ?n) = i" and nonneg: "0 \<le> i" and ent: "entry_ok s ?n"
    using slot_ok_waiter [OF slot tq] i by simp_all
  note live = slot_ok_live [OF slot id nonneg]
  obtain ys zs where split: "?q = ys @ t # zs" using tq by (meson split_list)
  have o: "se_count (ks_sems s ?n) = - needed s ?q" "distinct ?q" "\<forall>u \<in> set ?q. 0 < needs s u"
    "- (2 ^ 31) \<le> se_count (ks_sems s ?n)"
    using ent split by (auto simp: entry_ok_def Let_def)
  have rest: "?rest = ys @ zs" using o(2) unfolding split by simp
  have rem: "remove_id (\<lambda>x. th_id (ks_thread s x)) (th_id (ks_thread s t)) ?q = (Some t, ?rest)"
    unfolding rest unfolding split using o(2) uniq split by (intro remove_id_split) auto
  have nq: "needed s ?q = needs s t + needed s ?rest" unfolding rest unfolding split by simp
  have pos: "0 \<le> needed s ?rest" using o(3) by (intro needed_nonneg) (auto dest: in_set_remove1 [THEN iffD1, rotated] notin_set_remove1)
  have cnt: "i32 (se_count (ks_sems s ?n) + th_acquire_count (ks_thread s t)) = - needed s ?rest"
    using o(1,4) nq whole pos o(3) tq by (auto simp: needs_def)
  let ?s1 = "set_thread t (\<lambda>r. r\<lparr>th_state := THREAD_STATE_READY, th_errcode := e\<rparr>) (set_sem ?n (\<lambda>e. e\<lparr>se_q := ?rest\<rparr>) s)"
  have wake: "wake_more t ?rest (- needed s ?rest) [t] ?s1 = (?rest, - needed s ?rest, [t], ?s1)"
    using pos by (cases ?rest) simp_all
  obtain s2 where s2: "s2 = set_sem ?n (\<lambda>e. e\<lparr>se_q := ?rest, se_count := - needed s ?rest\<rparr>) ?s1" by simp
  have run: "remove_thread_from_sem t ?n e s = (B_NO_ERROR, [t], s2)"
    by (simp add: remove_thread_from_sem_def rem cnt wake s2 Let_def)
  have tc: "t \<noteq> ks_current s"
  proof
    assume "t = ks_current s"
    moreover have "eff s t = THREAD_STATE_WAITING" using w n tq unfolding waiting_ok_def by blast
    ultimately show False using cur by simp
  qed
  have f: "ks_sems s2 = (ks_sems s)(?n := (ks_sems s ?n)\<lparr>se_q := ?rest, se_count := - needed s ?rest\<rparr>)"
    "ks_run_q s2 = ks_run_q s" "ks_current s2 = ks_current s" "ks_preempted s2 = ks_preempted s"
    "ks_sems_active s2 = ks_sems_active s" "ks_next_sem s2 = ks_next_sem s"
    "\<And>u. th_next_state (ks_thread s2 u) = th_next_state (ks_thread s u)"
    "\<And>u. th_state (ks_thread s2 u) = (if u = t then THREAD_STATE_READY else th_state (ks_thread s u))"
    "\<And>u. th_errcode (ks_thread s2 u) = (if u = t then e else th_errcode (ks_thread s u))"
    "\<And>u. th_cpu (ks_thread s2 u) = th_cpu (ks_thread s u)"
    "\<And>u. th_sem_blocking (ks_thread s2 u) = th_sem_blocking (ks_thread s u)" "\<And>u. needs s2 u = needs s u"
    by (simp_all add: s2 needs_def)
  have srest: "set ?rest = set ?q - {t}" using o(2) by simp
  have nd: "needed s2 ?rest = needed s ?rest" by (intro needed_cong) (simp add: f(12))
  have nz: "needed s ?rest = 0 \<Longrightarrow> ?rest = []"
    using o(3) srest needed_pos [of ?rest s] by force
  have bound: "needed s ?rest \<le> 2 ^ 31" using o(1,4) nq o(3) tq by force
  have "entry_ok s2 ?n"
    using nz pos bound nd o(2,3) srest by (auto simp: entry_ok_def f(1) f(12) Let_def)
  then have slot2: "slot_ok s2 ?n" using live id nonneg srest by (simp add: slot_ok_def f Let_def)
  have sem2: "sems_ok s2"
    by (rule sems_ok_upd [OF sem f(1,5) _ _ _ slot2]) (use sem in \<open>simp_all add: f sems_ok_def\<close>)
  have "kernel_ok idle [t] s2"
    by (rule kernel_ok_wake [OF ok n _ _ _ f(1) _ f(2,3,7) _ sem2]) (use tq tc srest in \<open>auto simp: f(8)\<close>)
  then have "kernel_ok idle [] (ready_all [t] s2)" by (rule kernel_ok_ready_all)
  moreover have "sem_removed t e s (ready_all [t] s2)"
    using tc by (simp add: sem_removed_def Let_def f i eff_def)
  ultimately show ?thesis using run id by blast
qed

lemma kinv_in_world:
  assumes "kinv idle k" and "kernel_ok idle [] s'" and "ks_current s' = ks_current (tm_world k)"
    and "ks_preempted s' = ks_preempted (tm_world k)" and "\<forall>u. th_cpu (ks_thread s' u) = th_cpu (ks_thread (tm_world k) u)"
    and "eff s' (ks_current s') = THREAD_STATE_READY"
  shows "kinv idle (in_world (\<lambda>_. s') k)"
proof -
  from assms(1) obtain L where "sched_ok k L" by (auto simp: kinv_def)
  then have "sched_ok (in_world (\<lambda>_. s') k) L"
    by (rule sched_ok_in_world) (use assms(3-5) in simp_all)
  then show ?thesis using assms(2,6) by (auto simp: kinv_def)
qed

lemma removed_kinv:
  assumes "kinv idle k" and "kernel_ok idle [] s'" and "sem_removed t e (tm_world k) s'" and "t \<noteq> ks_current (tm_world k)"
  shows "kinv idle (in_world (\<lambda>_. s') k)"
  by (rule kinv_in_world [OF assms(1,2)]) (use assms in \<open>auto simp: sem_removed_def Let_def kinv_def\<close>)

lemma whole_waiter_waits:
  assumes "kinv idle k" and "whole_waiter t (tm_world k)"
  shows "t \<noteq> ks_current (tm_world k)" and "th_state (ks_thread (tm_world k) t) = THREAD_STATE_WAITING"
proof -
  have t: "t \<in> set (se_q (ks_sems (tm_world k) (sem_slot (th_sem_blocking (ks_thread (tm_world k) t)))))"
    using assms(2) by (simp add: whole_waiter_def Let_def)
  from assms(1) show "t \<noteq> ks_current (tm_world k)" by (rule kinvD) (use t slot_bound in blast)
  moreover from assms(1) t have "eff (tm_world k) t = THREAD_STATE_WAITING"
    unfolding kinv_def kernel_ok_def waiting_ok_def using slot_bound by blast
  ultimately show "th_state (ks_thread (tm_world k) t) = THREAD_STATE_WAITING" by (simp add: eff_def)
qed

lemma sem_interrupt_thread_spec:
  assumes "kinv idle k" and "whole_waiter t (tm_world k)"
    and "th_sem_flags (ks_thread (tm_world k) t) AND B_CAN_INTERRUPT \<noteq> 0"
  shows "\<exists>s'. sem_interrupt_thread t (tm_world k) = Returns (B_NO_ERROR, s') \<and>
           kinv idle (in_world (\<lambda>_. s') k) \<and> sem_removed t EINTR (tm_world k) s'"
proof -
  let ?s = "tm_world k" and ?i = "th_sem_blocking (ks_thread (tm_world k) t)"
  have ok: "kernel_ok idle [] ?s" "eff ?s (ks_current ?s) = THREAD_STATE_READY" using assms(1) by (simp_all add: kinv_def)
  from remove_whole_waiter [OF ok assms(2) refl, of EINTR] obtain s' where
    r: "remove_thread_from_sem t (sem_slot ?i) EINTR ?s = (B_NO_ERROR, [t], s')"
    and k: "kernel_ok idle [] (ready_all [t] s')" "sem_removed t EINTR ?s (ready_all [t] s')"
    and i: "se_id (ks_sems ?s (sem_slot ?i)) = ?i" by blast
  have slot: "slot_ok ?s (sem_slot ?i)" using ok(1) slot_bound by (simp add: kernel_ok_def sems_ok_def)
  have "0 \<le> ?i" using slot_ok_waiter(3) [OF slot, of t] assms(2) i by (simp add: whole_waiter_def Let_def)
  then have "sem_interrupt_thread t ?s = Returns (B_NO_ERROR, ready_all [t] s')"
    using whole_waiter_waits [OF assms(1,2)] assms(3) i r
    by (simp add: sem_interrupt_thread_def Let_def B_NO_ERROR_def ERR_NOT_FOUND_def ERR_GENERAL_def)
  moreover have "kinv idle (in_world (\<lambda>_. ready_all [t] s') k)"
    using removed_kinv [OF assms(1) k] whole_waiter_waits [OF assms(1,2)] by blast
  ultimately show ?thesis using k(2) by blast
qed

text \<open>The timer callback, for a thread that still waits for the semaphore of its arguments.\<close>

lemma sem_timeout_spec:
  assumes "kinv idle k" and "whole_waiter t (tm_world k)"
    and "thread_get_thread_struct (ta_thread (ks_timeout (tm_world k) d)) (tm_world k) = Some t"
    and "ta_sem (ks_timeout (tm_world k) d) = th_sem_blocking (ks_thread (tm_world k) t)"
  shows "\<exists>s'. sem_timeout d (tm_world k) = Returns (INT_RESCHEDULE, s') \<and>
           kinv idle (in_world (\<lambda>_. s') k) \<and> sem_removed t B_TIMED_OUT (tm_world k) s'"
proof -
  let ?s = "tm_world k" and ?i = "th_sem_blocking (ks_thread (tm_world k) t)"
  have ok: "kernel_ok idle [] ?s" "eff ?s (ks_current ?s) = THREAD_STATE_READY" using assms(1) by (simp_all add: kinv_def)
  from remove_whole_waiter [OF ok assms(2) refl, of B_TIMED_OUT] obtain s' where
    r: "remove_thread_from_sem t (sem_slot ?i) B_TIMED_OUT ?s = (B_NO_ERROR, [t], s')"
    and k: "kernel_ok idle [] (ready_all [t] s')" "sem_removed t B_TIMED_OUT ?s (ready_all [t] s')"
    and i: "se_id (ks_sems ?s (sem_slot ?i)) = ?i" by blast
  have "sem_timeout d ?s = Returns (INT_RESCHEDULE, ready_all [t] s')"
    using assms(3,4) i r by (simp add: sem_timeout_def Let_def)
  moreover have "kinv idle (in_world (\<lambda>_. ready_all [t] s') k)"
    using removed_kinv [OF assms(1) k] whole_waiter_waits [OF assms(1,2)] by blast
  ultimately show ?thesis using k(2) by blast
qed

end
