(* ===== verification/Sem_Correct.thy ===== *)
theory Sem_Correct
  imports Sem_Calls
begin

text \<open>
  The correctness of the semaphores: each call's result, the invariant in every reachable
  state, and the calls that lose units or fault.
\<close>

section \<open>Creating\<close>

lemma next_sem_id_spec:
  assumes "0 \<le> n" and "n + int MAX_SEMS < 2 ^ 31" and "i < MAX_SEMS"
  shows "n \<le> next_sem_id i n" and "next_sem_id i n < n + int MAX_SEMS" and "sem_slot (next_sem_id i n) = i"
  using next_slot_id [OF assms(1,2) _ next_sem_id_def] assms(3) by (simp_all add: sem_slot_def)

definition name_overrun :: "byte list ptr \<Rightarrow> nat" where
  "name_overrun name = (case name of None \<Rightarrow> 0 | Some c \<Rightarrow> SYS_MAX_OS_NAME_LEN - min (length c + 1) SYS_MAX_OS_NAME_LEN)"

definition sem_created :: "int \<Rightarrow> int \<Rightarrow> int \<Rightarrow> ks \<Rightarrow> ks \<Rightarrow> bool" where
  "sem_created i n owner s s' \<longleftrightarrow>
     0 \<le> i \<and> (\<forall>m < MAX_SEMS. se_id (ks_sems s m) < i) \<and> i < ks_next_sem s' \<and>
     se_id (ks_sems s (sem_slot i)) = -1 \<and> se_id (ks_sems s' (sem_slot i)) = i \<and>
     se_count (ks_sems s' (sem_slot i)) = n \<and> se_q (ks_sems s' (sem_slot i)) = [] \<and>
     se_owner (ks_sems s' (sem_slot i)) = owner \<and> (\<forall>m. m \<noteq> sem_slot i \<longrightarrow> ks_sems s' m = ks_sems s m)"

lemma create_sem_etc_spec:
  assumes "kinv idle k" and "0 \<le> n" "n < 2 ^ 31" and "ks_next_sem (tm_world k) + int MAX_SEMS < 2 ^ 31"
  shows "\<exists>r s'. create_sem_etc mem n name owner (tm_world k) = (r, s') \<and> kinv idle (in_world (\<lambda>_. s') k) \<and>
           ks_overrun s' = ks_overrun (tm_world k) + (if mem then name_overrun name else 0) \<and>
           (if mem \<and> (\<exists>m < MAX_SEMS. se_id (ks_sems (tm_world k) m) = -1)
            then sem_created r n owner (tm_world k) s' \<and> ks_next_sem (tm_world k) \<le> r \<and>
                 r < ks_next_sem (tm_world k) + int MAX_SEMS \<and> ks_next_sem s' = r + 1
            else r = (if mem then B_NO_MORE_SEMS else ENOMEM) \<and> ks_sems s' = ks_sems (tm_world k) \<and>
                 ks_next_sem s' = ks_next_sem (tm_world k))"
proof -
  let ?s = "tm_world k"
  from assms(1) obtain L where ok: "kernel_ok idle [] ?s" and sem: "sems_ok ?s" and slots: "\<forall>n < MAX_SEMS. slot_ok ?s n"
    and cur: "eff ?s (ks_current ?s) = THREAD_STATE_READY" by (rule kinvD) blast
  have act: "ks_sems_active ?s" using sem by (simp add: sems_ok_def)
  let ?s1 = "?s\<lparr>ks_overrun := ks_overrun ?s + name_overrun name\<rparr>"
  let ?nm = "case name of Some c \<Rightarrow> take (SYS_MAX_OS_NAME_LEN - 1) c | None \<Rightarrow> default_sem_name"
  have over: "(case name of Some c \<Rightarrow> SYS_MAX_OS_NAME_LEN - min (length c + 1) SYS_MAX_OS_NAME_LEN | None \<Rightarrow> 0) = name_overrun name"
    by (simp add: name_overrun_def split: option.split)
  have kinv': "kinv idle (in_world (\<lambda>_. s') k)"
    if "sems_ok s'" "ks_thread s' = ks_thread ?s" "ks_run_q s' = ks_run_q ?s" "ks_current s' = ks_current ?s"
      "ks_preempted s' = ks_preempted ?s" "\<And>m. m < MAX_SEMS \<Longrightarrow> se_q (ks_sems s' m) = se_q (ks_sems ?s m)" for s'
    by (rule kinv_in_world [OF assms(1) kernel_ok_sems [OF ok that(2-4,6,1)]]) (use that cur in \<open>simp_all add: eff_def\<close>)
  have in_id: "in_world (\<lambda>_. ?s) k = k" by (simp add: in_world_def)
  show ?thesis
  proof (cases mem)
    case False
    then have "create_sem_etc mem n name owner ?s = (ENOMEM, ?s)" using act by (simp add: create_sem_etc_def)
    with False assms(1) in_id show ?thesis by simp
  next
    case mem: True
    show ?thesis
    proof (cases "find (\<lambda>i. se_id (ks_sems ?s i) = -1) [0..<MAX_SEMS]")
      case None
      then have full: "\<not> (\<exists>m < MAX_SEMS. se_id (ks_sems ?s m) = -1)" by (auto simp: find_None_iff)
      have "create_sem_etc mem n name owner ?s = (B_NO_MORE_SEMS, ?s1)"
        using mem act None by (simp add: create_sem_etc_def over Let_def)
      moreover have "sems_ok ?s1" using sem by (rule sems_ok_transfer) simp_all
      then have "kinv idle (in_world (\<lambda>_. ?s1) k)" by (rule kinv') simp_all
      ultimately show ?thesis using mem full by auto
    next
      case (Some i)
      then have i: "i < MAX_SEMS" "se_id (ks_sems ?s i) = -1" by (auto simp: find_Some_iff)
      let ?new = "next_sem_id i (ks_next_sem ?s)"
      have nn: "0 \<le> ks_next_sem ?s" using sem by (simp add: sems_ok_def)
      note new = next_sem_id_spec [OF nn assms(4) i(1)]
      have n1: "i32 (?new + 1) = ?new + 1" using new nn assms(4) by simp
      let ?e = "\<lparr>se_id = ?new, se_count = n, se_q = [], se_name = Some ?nm, se_owner = owner\<rparr>"
      obtain s2 where s2: "s2 = (set_sem i (\<lambda>_. ?e) ?s1)\<lparr>ks_next_sem := ?new + 1\<rparr>" by simp
      have run: "create_sem_etc mem n name owner ?s = (?new, s2)"
        using mem act Some by (simp add: create_sem_etc_def over n1 s2 Let_def)
      have f: "ks_sems s2 = (ks_sems ?s)(i := ?e)" "ks_sems_active s2 = ks_sems_active ?s" "ks_next_sem s2 = ?new + 1"
        "ks_thread s2 = ks_thread ?s" "ks_run_q s2 = ks_run_q ?s" "ks_current s2 = ks_current ?s"
        "ks_preempted s2 = ks_preempted ?s" "ks_overrun s2 = ks_overrun ?s + name_overrun name"
        by (simp_all add: s2)
      have q: "se_q (ks_sems ?s i) = []" using slots i by (simp add: slot_ok_def Let_def)
      have "slot_ok s2 i" using new nn assms(2,3) by (simp add: slot_ok_def entry_ok_def f Let_def)
      then have sem2: "sems_ok s2"
        using new nn assms(4) by (intro sems_ok_upd [OF sem f(1,2)]) (simp_all add: f needs_def)
      have "kinv idle (in_world (\<lambda>_. s2) k)"
        by (rule kinv' [OF sem2]) (use q in \<open>simp_all add: f\<close>)
      moreover have "se_id (ks_sems ?s m) < ?new" if "m < MAX_SEMS" for m
      proof (cases "se_id (ks_sems ?s m) = -1")
        case False
        with slots that have "se_id (ks_sems ?s m) < ks_next_sem ?s" by (simp add: slot_ok_def Let_def)
        with new(1) show ?thesis by simp
      qed (use new(1) nn in simp)
      then have "sem_created ?new n owner ?s s2" using new nn i by (simp add: sem_created_def f)
      moreover have "\<exists>m < MAX_SEMS. se_id (ks_sems ?s m) = -1" using i by blast
      ultimately show ?thesis using run mem f(3,8) new by simp
    qed
  qed
qed

lemma set_sem_owner_spec:
  assumes "kinv idle k"
  shows "\<exists>r s'. set_sem_owner i proc (tm_world k) = (r, s') \<and> kinv idle (in_world (\<lambda>_. s') k)"
proof -
  let ?s = "tm_world k" and ?n = "sem_slot i"
  from assms obtain L where ok: "kernel_ok idle [] ?s" and sem: "sems_ok ?s" and slots: "\<forall>n < MAX_SEMS. slot_ok ?s n"
    and cur: "eff ?s (ks_current ?s) = THREAD_STATE_READY" by (rule kinvD) blast
  have slot: "slot_ok ?s ?n" using slots slot_bound by blast
  let ?s2 = "set_sem ?n (\<lambda>e. e\<lparr>se_owner := proc\<rparr>) ?s"
  have "slot_ok ?s2 ?n" using slot by (simp add: slot_ok_def entry_ok_def needs_def needed_def Let_def split: if_splits)
  then have "sems_ok ?s2" using sem by (intro sems_ok_upd [OF sem, where n = ?n]) (simp_all add: needs_def sems_ok_def)
  then have ok2: "kernel_ok idle [] ?s2" by (intro kernel_ok_sems [OF ok]) simp_all
  have "kinv idle (in_world (\<lambda>_. ?s2) k)"
    by (rule kinv_in_world [OF assms ok2]) (use cur in \<open>simp_all add: eff_def\<close>)
  moreover have "in_world (\<lambda>_. ?s) k = k" by (simp add: in_world_def)
  ultimately show ?thesis using assms by (auto simp: set_sem_owner_def Let_def)
qed

section \<open>Reachable states\<close>

datatype sem_call =
  Create bool int "byte list ptr" int | Delete int | Acquire int int "32 word" int |
  Release int int "32 word" | Set_Owner int int | Interrupt nat | Resched

definition of_world :: "kt \<Rightarrow> (int \<times> ks) outcome \<Rightarrow> kt outcome" where
  "of_world k r = obind r (\<lambda>(_, s). Returns (in_world (\<lambda>_. s) k))"

fun run_call :: "(nat \<Rightarrow> int) \<Rightarrow> sem_call \<Rightarrow> kt \<Rightarrow> kt outcome" where
  "run_call clock (Create mem n name owner) k = of_world k (Returns (create_sem_etc mem n name owner (tm_world k)))"
| "run_call clock (Delete i) k = obind (delete_sem clock i k) (\<lambda>(_, k1). Returns k1)"
| "run_call clock (Acquire i n flags timeout) k =
     obind (acquire_sem_etc clock False i n flags timeout k) (\<lambda>(_, k1). Returns k1)"
| "run_call clock (Release i n flags) k = obind (release_sem_etc clock i n flags k) (\<lambda>(_, k1). Returns k1)"
| "run_call clock (Set_Owner i proc) k = of_world k (Returns (set_sem_owner i proc (tm_world k)))"
| "run_call clock (Interrupt t) k = of_world k (sem_interrupt_thread t (tm_world k))"
| "run_call clock Resched k = thread_resched clock k"

text \<open>
  What the callers must keep to: counts and ids stay within 32 bits, a new semaphore's count
  is not negative, the idle thread does not wait, and only whole waiters are interrupted.
\<close>

fun call_ok :: "nat \<Rightarrow> sem_call \<Rightarrow> ks \<Rightarrow> bool" where
  "call_ok idle (Create mem n name owner) s \<longleftrightarrow> 0 \<le> n \<and> n < 2 ^ 31 \<and> ks_next_sem s + int MAX_SEMS < 2 ^ 31"
| "call_ok idle (Acquire i n flags timeout) s \<longleftrightarrow>
     ks_current s \<noteq> idle \<and> no_timeout flags \<and> - (2 ^ 31) \<le> se_count (ks_sems s (sem_slot i)) - n"
| "call_ok idle (Release i n flags) s \<longleftrightarrow> se_count (ks_sems s (sem_slot i)) + n < 2 ^ 31"
| "call_ok idle (Interrupt t) s \<longleftrightarrow> (th_state (ks_thread s t) = THREAD_STATE_WAITING \<longrightarrow> whole_waiter t s)"
| "call_ok idle _ s \<longleftrightarrow> True"

inductive sem_reach :: "nat \<Rightarrow> (nat \<Rightarrow> int) \<Rightarrow> kt \<Rightarrow> kt \<Rightarrow> bool" for idle clock k0 where
  start: "sem_reach idle clock k0 k0"
| step: "sem_reach idle clock k0 k \<Longrightarrow> call_ok idle c (tm_world k) \<Longrightarrow> run_call clock c k = Returns k' \<Longrightarrow>
         sem_reach idle clock k0 k'"

lemma in_world_same [simp]: "in_world (\<lambda>_. tm_world k) k = k"
  by (simp add: in_world_def)

lemma run_call_kinv:
  assumes k: "kinv idle k" and c: "call_ok idle c (tm_world k)"
  shows "\<exists>k'. run_call clock c k = Returns k' \<and> kinv idle k'"
proof (cases c)
  case (Create mem n name owner)
  with c have "0 \<le> n" "n < 2 ^ 31" "ks_next_sem (tm_world k) + int MAX_SEMS < 2 ^ 31" by simp_all
  from create_sem_etc_spec [OF k this, of mem name owner] show ?thesis
    unfolding Create by (elim exE conjE) (simp add: of_world_def)
next
  case (Delete i)
  show ?thesis
  proof (cases "0 \<le> i \<and> se_id (ks_sems (tm_world k) (sem_slot i)) = i")
    case True
    with delete_sem_etc_spec [OF k, of i clock 0] show ?thesis
      unfolding Delete delete_sem_def run_call.simps by (elim conjE) (auto simp: delete_sem_def)
  next
    case False
    then show ?thesis using k by (auto simp: Delete delete_sem_def delete_sem_etc_def Let_def)
  qed
next
  case (Acquire i n flags timeout)
  show ?thesis
  proof (cases "0 \<le> i \<and> 0 < n \<and> se_id (ks_sems (tm_world k) (sem_slot i)) = i")
    case True
    then have a: "0 \<le> i" "se_id (ks_sems (tm_world k) (sem_slot i)) = i" "0 < n" by simp_all
    from c have b: "ks_current (tm_world k) \<noteq> idle" "no_timeout flags"
      "- (2 ^ 31) \<le> se_count (ks_sems (tm_world k) (sem_slot i)) - n" unfolding Acquire by simp_all
    from acquire_sem_etc_spec [OF k b(1,2) a b(3), of clock timeout] show ?thesis
      unfolding Acquire by (elim exE conjE) simp
  next
    case False
    then show ?thesis using k by (auto simp: Acquire acquire_sem_etc_def Let_def)
  qed
next
  case (Release i n flags)
  show ?thesis
  proof (cases "0 \<le> i \<and> 0 < n \<and> se_id (ks_sems (tm_world k) (sem_slot i)) = i")
    case True
    then have a: "0 \<le> i" "se_id (ks_sems (tm_world k) (sem_slot i)) = i" "0 < n" by simp_all
    from release_sem_etc_spec [OF k a, of clock flags] c show ?thesis
      unfolding Release by auto
  next
    case False
    then show ?thesis using k by (auto simp: Release release_sem_etc_def Let_def)
  qed
next
  case (Set_Owner i proc)
  from set_sem_owner_spec [OF k, of i proc] show ?thesis
    unfolding Set_Owner by (elim exE conjE) (simp add: of_world_def)
next
  case (Interrupt t)
  show ?thesis
  proof (cases "th_state (ks_thread (tm_world k) t) = THREAD_STATE_WAITING \<and>
      th_sem_flags (ks_thread (tm_world k) t) AND B_CAN_INTERRUPT \<noteq> 0")
    case True
    with c have "whole_waiter t (tm_world k)" by (simp add: Interrupt)
    from sem_interrupt_thread_spec [OF k this] True show ?thesis
      unfolding Interrupt by (auto simp: of_world_def)
  next
    case False
    then show ?thesis using k by (auto simp: Interrupt of_world_def sem_interrupt_thread_def Let_def)
  qed
next
  case Resched
  from k obtain L where "sched_ok k L" "kernel_ok idle [] (tm_world k)" by (auto simp: kinv_def)
  from resched_kinv [OF this, of clock] show ?thesis unfolding Resched by auto
qed

lemma sem_reach_kinv: "sem_reach idle clock k0 k \<Longrightarrow> kinv idle k0 \<Longrightarrow> kinv idle k"
proof (induction rule: sem_reach.induct)
  case (step k c k')
  then show ?case using run_call_kinv [of idle k c clock] by auto
qed

section \<open>The small system with a semaphore\<close>

text \<open>Semaphore 0 has no free unit; thread 2 waits for one, thread 1 runs and thread 0 is idle.\<close>

definition demo_sem_ks :: ks where
  "demo_sem_ks = demo_ks\<lparr>
     ks_thread := (ks_thread demo_ks)(2 := (demo_thread 2 10 THREAD_STATE_WAITING)\<lparr>th_sem_blocking := 0,
       th_sem_count := 1, th_acquire_count := 1, th_sem_flags := B_CAN_INTERRUPT\<rparr>),
     ks_sems := (ks_sems demo_ks)(0 := \<lparr>se_id = 0, se_count = -1, se_q = [2], se_name = Some [], se_owner = 1\<rparr>),
     ks_next_sem := 1, ks_timeout := (\<lambda>t. \<lparr>ta_thread = 2, ta_sem = 0, ta_count = 1\<rparr>)\<rparr>"

lemma demo_sem_thread:
  "ks_thread demo_sem_ks t = (if t = 2 then (demo_thread 2 10 THREAD_STATE_WAITING)\<lparr>th_sem_blocking := 0,
       th_sem_count := 1, th_acquire_count := 1, th_sem_flags := B_CAN_INTERRUPT\<rparr>
     else if t = 0 then demo_thread 0 0 THREAD_STATE_READY else if t = 1 then demo_thread 1 10 THREAD_STATE_RUNNING
     else demo_thread (int t) 10 THREAD_STATE_SUSPENDED)"
  by (simp add: demo_sem_ks_def demo_ks_def)

lemma demo_sem_fields:
  "ks_run_q demo_sem_ks = (\<lambda>p. if p = 0 then [0] else [])" "ks_current demo_sem_ks = 1"
  "ks_sems demo_sem_ks n = (if n = 0 then \<lparr>se_id = 0, se_count = -1, se_q = [2], se_name = Some [], se_owner = 1\<rparr>
     else \<lparr>se_id = -1, se_count = 0, se_q = [], se_name = None, se_owner = 0\<rparr>)"
  "ks_sems_active demo_sem_ks" "ks_next_sem demo_sem_ks = 1" "ks_all demo_sem_ks = [0, 1, 2, 3]"
  "ks_timeout demo_sem_ks = (\<lambda>t. \<lparr>ta_thread = 2, ta_sem = 0, ta_count = 1\<rparr>)" "ks_overrun demo_sem_ks = 0"
  by (simp_all add: demo_sem_ks_def demo_ks_def)

lemma sem_slot_0 [simp]: "sem_slot 0 = 0"
  by (simp add: sem_slot_def MAX_SEMS_def)

lemma demo_sem_kinv: "kinv 0 (demo_kt demo_sem_ks)"
proof -
  have st: "th_state (ks_thread demo_sem_ks t) = (if t = 2 then THREAD_STATE_WAITING else if t = 0 then THREAD_STATE_READY
      else if t = 1 then THREAD_STATE_RUNNING else THREAD_STATE_SUSPENDED)" for t
    by (simp add: demo_sem_thread demo_thread_def)
  have nx: "th_next_state (ks_thread demo_sem_ks 1) = THREAD_STATE_READY"
    by (simp add: demo_sem_thread demo_thread_def)
  have e: "eff demo_sem_ks t = (if t = 2 then THREAD_STATE_WAITING else if t \<le> 1 then THREAD_STATE_READY else THREAD_STATE_SUSPENDED)" for t
    using nx by (auto simp: eff_def st demo_sem_fields(2))
  have "placed [] demo_sem_ks"
    unfolding placed_def demo_sem_fields(1,2) e st by (auto simp: THREAD_MAX_PRIORITY_def)
  moreover have "waiting_ok demo_sem_ks"
    unfolding waiting_ok_def e by (auto simp: demo_sem_fields MAX_SEMS_def split: if_splits)
  moreover have "slot_ok demo_sem_ks n" for n
    by (cases "n = 0") (simp_all add: slot_ok_def entry_ok_def demo_sem_fields demo_sem_thread needs_def demo_thread_def Let_def)
  then have "sems_ok demo_sem_ks" by (simp add: sems_ok_def demo_sem_fields)
  moreover have "sched_ok (demo_kt demo_sem_ks) (\<lambda>c. [])"
    by (rule demo_sched_ok) (simp add: demo_sem_fields demo_sem_thread demo_thread_def)
  ultimately show ?thesis using e by (auto simp: kinv_def kernel_ok_def demo_sem_fields)
qed

lemma demo_timer_idle: "timer_idle t (demo_kt demo_sem_ks)"
proof -
  have "sched_ok (demo_kt demo_sem_ks) (\<lambda>c. [])"
    by (rule demo_sched_ok) (simp add: demo_sem_fields(2) demo_sem_thread demo_thread_def)
  then show ?thesis by (auto simp: timer_idle_def)
qed

lemma demo_whole_waiter: "whole_waiter 2 demo_sem_ks"
  by (simp add: whole_waiter_def demo_sem_fields demo_sem_thread demo_thread_def Let_def)

end
