(* ===== verification/Sem_Main.thy ===== *)
theory Sem_Main
  imports Sem_Correct
begin

text \<open>
  The properties of the semaphores, each over any state that satisfies the invariant \<open>kinv\<close>,
  and the calls after which the counts no longer agree with the waiters.
\<close>

section \<open>Safety\<close>

text \<open>
  (C11) From a state in which every thread is in the queue its state names, the counts of the
  semaphores are what their waiters need, and the ids are unique, every sequence of semaphore
  calls whose arguments stay in range leads to such a state again, and in it no further call
  panics, dereferences \<open>NULL\<close> or fails to return.
\<close>

theorem sem_calls_safe:
  assumes "kinv idle k0" and "sem_reach idle clock k0 k"
  shows "kinv idle k \<and> (\<forall>c. call_ok idle c (tm_world k) \<longrightarrow> (\<exists>k'. run_call clock c k = Returns k' \<and> kinv idle k'))"
  using sem_reach_kinv [OF assms(2,1)] run_call_kinv [of idle k _ clock] by blast

theorem sem_calls_safe_witness:
  "kinv 0 (demo_kt demo_sem_ks) \<and>
   (\<exists>k'. run_call (\<lambda>n. 5) (Acquire 0 1 0 0) (demo_kt demo_sem_ks) = Returns k' \<and> kinv 0 k')"
proof -
  have "call_ok 0 (Acquire 0 1 0 0) (tm_world (demo_kt demo_sem_ks))"
    by (simp add: demo_sem_fields no_timeout_def)
  with sem_calls_safe [OF demo_sem_kinv sem_reach.start, of "\<lambda>n. 5"] show ?thesis by blast
qed

section \<open>A kill signal between the two checks\<close>

text \<open>A reschedule works in any state in which some run queue has a thread.\<close>

lemma put_old_keeps_queue: "ks_run_q s p \<noteq> [] \<Longrightarrow> ks_run_q (put_old_thread s) p \<noteq> []"
proof -
  assume q: "ks_run_q s p \<noteq> []"
  have "ks_run_q (thread_enqueue_run_q (ks_current s) s) p \<noteq> []"
    using q by (rule_tac t = "ks_current s" and s = s in enqueue_run_q) (auto simp: fun_upd_def)
  with q show ?thesis
    by (simp add: put_old_thread_def Let_def split: thread_state.split)
qed

lemma ready_all_keeps_queue: "ks_run_q s p \<noteq> [] \<Longrightarrow> ks_run_q (ready_all ts s) p \<noteq> []"
proof (induction ts arbitrary: s)
  case (Cons t ts)
  have "ks_run_q (thread_enqueue_run_q t s) p \<noteq> []"
    using Cons.prems by (rule_tac t = t and s = s in enqueue_run_q) (auto simp: fun_upd_def)
  with Cons.IH show ?case by simp
qed simp

lemma wake_more_rest:
  "wake_more t q c w s = (q', c', w', s') \<Longrightarrow>
     ks_run_q s' = ks_run_q s \<and> ks_current s' = ks_current s \<and> ks_preempted s' = ks_preempted s \<and>
     (\<forall>u. th_cpu (ks_thread s' u) = th_cpu (ks_thread s u))"
  by (induction t q c w s rule: wake_more.induct) (auto simp: Let_def split: if_splits)

lemma remove_thread_rest:
  "remove_thread_from_sem t n e s = (r, w, s') \<Longrightarrow>
     ks_run_q s' = ks_run_q s \<and> ks_current s' = ks_current s \<and> ks_preempted s' = ks_preempted s \<and>
     (\<forall>u. th_cpu (ks_thread s' u) = th_cpu (ks_thread s u))"
  by (auto simp: remove_thread_from_sem_def Let_def split: prod.splits if_splits dest!: wake_more_rest)

lemma kill_bit: "(x OR SIG_KILL) AND SIG_KILL \<noteq> 0"
proof -
  have "(x OR 2) AND 2 = (2 :: 32 word)" by (rule bit_word_eqI) (auto simp: bit_simps)
  then show ?thesis by (simp add: SIG_KILL_def)
qed

lemma late_kill_spec:
  assumes k: "kinv idle k" and id: "ks_current (tm_world k) \<noteq> idle" and flags: "no_timeout flags" "flags AND B_CAN_INTERRUPT \<noteq> 0"
    and i: "0 \<le> i" "se_id (ks_sems (tm_world k) (sem_slot i)) = i" and n: "0 < n"
    and c: "- (2 ^ 31) \<le> se_count (ks_sems (tm_world k) (sem_slot i)) - n" "se_count (ks_sems (tm_world k) (sem_slot i)) < n"
    and nk: "\<not> killed (ks_current (tm_world k)) flags (tm_world k)"
  shows "\<exists>k'. acquire_sem_etc clock True i n flags timeout k = Returns (Suspended None, k')"
proof -
  let ?s = "tm_world k" and ?n = "sem_slot i"
  let ?t = "ks_current ?s" and ?c = "se_count (ks_sems (tm_world k) (sem_slot i))"
  from k obtain L where so: "sched_ok k L" and ok: "kernel_ok idle [] ?s" and sem: "sems_ok ?s"
    and cur: "eff ?s ?t = THREAD_STATE_READY" and slots: "\<forall>n < MAX_SEMS. slot_ok ?s n" by (rule kinvD) blast
  have "slot_ok ?s ?n" using slots slot_bound by blast
  from slot_ok_live(1) [OF this i(2,1)] have i1: "i32 (?c - n) = ?c - n"
    using c(1) n by (simp add: entry_ok_def Let_def)
  from ok id have "th_state (ks_thread ?s idle) = THREAD_STATE_READY" by (simp add: kernel_ok_def eff_def split: if_splits)
  then obtain p where p: "idle \<in> set (ks_run_q ?s p)" "THREAD_MAX_PRIORITY < p \<longrightarrow> ks_run_q ?s p = []"
    using ok id by (auto simp: kernel_ok_def placed_def)
  then have q: "ks_run_q ?s p \<noteq> []" and p2: "p < THREAD_NUM_PRIORITY_LEVELS"
    by (auto simp: THREAD_MAX_PRIORITY_def THREAD_NUM_PRIORITY_LEVELS_def)
  obtain s1 where s1: "s1 = block_on_sem ?t i n flags (set_sem ?n (\<lambda>e. e\<lparr>se_count := ?c - n\<rparr>) ?s)" by simp
  obtain s2 where s2: "s2 = set_thread ?t (\<lambda>r. r\<lparr>th_signals := th_signals r OR SIG_KILL\<rparr>) s1" by simp
  have f1: "ks_run_q s1 = ks_run_q ?s" "ks_current s1 = ?t" "ks_preempted s1 = ks_preempted ?s"
    "\<And>u. th_cpu (ks_thread s1 u) = th_cpu (ks_thread ?s u)" "\<And>m. se_id (ks_sems s1 m) = se_id (ks_sems ?s m)"
    by (simp_all add: s1 block_on_sem_def Let_def)
  have f2: "ks_run_q s2 = ks_run_q ?s" "ks_current s2 = ?t" "ks_preempted s2 = ks_preempted ?s"
    "\<And>u. th_cpu (ks_thread s2 u) = th_cpu (ks_thread ?s u)" "\<And>m. se_id (ks_sems s2 m) = se_id (ks_sems ?s m)"
    by (simp_all add: s2 f1)
  obtain r w s3 where rm: "remove_thread_from_sem ?t ?n EINTR s2 = (r, w, s3)"
    by (cases "remove_thread_from_sem ?t ?n EINTR s2")
  note f3 = remove_thread_rest [OF rm]
  have kill2: "killed ?t flags s2" using flags(2) kill_bit by (simp add: killed_def s2)
  have late: "late_check ?t i flags s2 = (None, ready_all w s3)"
    using kill2 i(2) rm by (simp add: late_check_def f2)
  have q3: "ks_run_q (put_old_thread (ready_all w s3)) p \<noteq> []"
    using q f3 f2(1) by (intro put_old_keeps_queue ready_all_keeps_queue) simp
  have so3: "sched_ok (in_world (\<lambda>_. ready_all w s3) k) L"
    using so by (rule sched_ok_in_world) (use f2 f3 in simp_all)
  have "\<exists>p < THREAD_NUM_PRIORITY_LEVELS. ks_run_q (put_old_thread (tm_world (in_world (\<lambda>_. ready_all w s3) k))) p \<noteq> []"
    using q3 p2 by auto
  from thread_resched_spec [OF so3 this, of clock] obtain k' where
    run: "thread_resched clock (in_world (\<lambda>_. ready_all w s3) k) = Returns k'" by blast
  have c1: "\<not> 0 \<le> ?c - n" using c(2) by simp
  have nk1: "\<not> killed ?t flags (set_sem ?n (\<lambda>e. e\<lparr>se_count := ?c - n\<rparr>) ?s)" using nk by (simp add: killed_def)
  have comp: "in_world (set_thread ?t (\<lambda>r. r\<lparr>th_signals := th_signals r OR SIG_KILL\<rparr>)) (in_world (\<lambda>_. s1) k) = in_world (\<lambda>_. s2) k"
    "in_world (\<lambda>_. ready_all w s3) (in_world (\<lambda>_. s2) k) = in_world (\<lambda>_. ready_all w s3) k"
    by (simp_all add: in_world_def s2)
  have "acquire_sem_etc clock True i n flags timeout k = Returns (Suspended None, k')"
    unfolding acquire_sem_etc_def Let_def i1
    using sem i n c1 nk1 flags(1) no_timeout_flag [OF flags(1)]
    by (simp add: sems_ok_def s1 [symmetric] s2 [symmetric] no_timeout_def comp late run)
  then show ?thesis by blast
qed

section \<open>The calls\<close>

text \<open>
  (C12) \<open>acquire_sem_etc\<close>: bad arguments and dead ids are refused with the state unchanged; when
  there are enough units they are taken; when there are not, a caller with \<open>B_TIMEOUT\<close> and no
  time to wait gets \<open>ERR_SEM_TIMED_OUT\<close> with the state unchanged, and one with a kill signal
  pending gets \<open>EINTR\<close> with the count restored. Otherwise the caller is queued last, for exactly
  the units that are missing, its timer is in the list of its CPU when it has a timeout, and
  another thread runs. When a kill signal reaches an interruptible caller without a timeout
  between the two checks, the call instead goes on with \<open>NULL\<close> for its thread, and faults when
  it is resumed. The caller is not the idle thread, its timer is not pending when the call
  starts, and the count does not underflow.
\<close>

theorem acquire_sem_correct:
  assumes "kinv idle k" and "ks_current (tm_world k) \<noteq> idle"
    and "no_timeout flags \<or> timer_idle (ks_current (tm_world k)) k"
    and "- (2 ^ 31) \<le> se_count (ks_sems (tm_world k) (sem_slot i)) - n"
  shows "(\<exists>r k'. acquire_sem_etc clock False i n flags timeout k = Returns (r, k') \<and> kinv idle k' \<and>
           (let s = tm_world k; e = ks_sems s (sem_slot i); t = ks_current s
            in if i < 0 then r = Done B_BAD_SEM_ID \<and> k' = k
               else if n \<le> 0 then r = Done ERR_INVALID_ARGS \<and> k' = k
               else if se_id e \<noteq> i then r = Done B_BAD_SEM_ID \<and> k' = k
               else if n \<le> se_count e
               then r = Done 0 \<and> tm_world k' = set_sem (sem_slot i) (\<lambda>e. e\<lparr>se_count := se_count e - n\<rparr>) s
               else if flags AND B_TIMEOUT \<noteq> 0 \<and> timeout \<le> 0 then r = Done ERR_SEM_TIMED_OUT \<and> k' = k
               else if killed t flags s then r = Done EINTR \<and> tm_world k' = s
               else r = Suspended (Some t) \<and> sem_blocked i n s (tm_world k') \<and>
                    (no_timeout flags \<or> waits_timed k t i n k'))) \<and>
         (let s = tm_world k; e = ks_sems s (sem_slot i)
          in 0 \<le> i \<and> 0 < n \<and> se_id e = i \<and> se_count e < n \<and> no_timeout flags \<and>
             flags AND B_CAN_INTERRUPT \<noteq> 0 \<and> \<not> killed (ks_current s) flags s \<longrightarrow>
             (\<exists>k'. acquire_sem_etc clock True i n flags timeout k = Returns (Suspended None, k')) \<and>
             (\<forall>k''. acquire_resumed clock flags None k'' = Faults))"
proof (rule conjI, goal_cases)
  case 1
  show ?case
  proof (cases "0 \<le> i \<and> 0 < n \<and> se_id (ks_sems (tm_world k) (sem_slot i)) = i")
    case True
    then have a: "0 \<le> i" "se_id (ks_sems (tm_world k) (sem_slot i)) = i" "0 < n" by simp_all
    from acquire_sem_timed_spec [OF assms(1-3) a assms(4), of clock timeout]
    show ?thesis by (elim ex_forward) (use a in \<open>auto simp: Let_def not_le\<close>)
  next
    case False
    have "ks_sems_active (tm_world k)" using assms(1) by (simp add: kinv_def kernel_ok_def sems_ok_def)
    with False assms(1) show ?thesis by (auto simp: acquire_sem_etc_def Let_def)
  qed
next
  case 2
  show ?case
    unfolding Let_def using late_kill_spec [OF assms(1,2) _ _ _ _ _ assms(4), of flags clock timeout]
    by (auto simp: acquire_resumed_def)
qed

theorem acquire_sem_correct_witness:
  "(\<exists>k'. acquire_sem_etc (\<lambda>n. 5) False 0 1 0 0 (demo_kt demo_sem_ks) = Returns (Suspended (Some 1), k') \<and>
        se_count (ks_sems (tm_world k') 0) = -2 \<and> se_q (ks_sems (tm_world k') 0) = [2, 1]) \<and>
   acquire_sem_etc (\<lambda>n. 5) False 0 1 B_TIMEOUT 0 (demo_kt demo_sem_ks) = Returns (Done ERR_SEM_TIMED_OUT, demo_kt demo_sem_ks) \<and>
   (\<exists>k'. acquire_sem_etc (\<lambda>n. 5) False 0 1 B_TIMEOUT 7 (demo_kt demo_sem_ks) = Returns (Suspended (Some 1), k') \<and>
        waits_timed (demo_kt demo_sem_ks) 1 0 1 k')"
proof -
  let ?k = "demo_kt demo_sem_ks"
  have cur: "ks_current (tm_world ?k) \<noteq> 0" and lo: "- (2 ^ 31) \<le> se_count (ks_sems (tm_world ?k) (sem_slot 0)) - 1"
    and nt: "no_timeout 0" and t: "B_TIMEOUT AND B_TIMEOUT \<noteq> 0" "\<not> no_timeout B_TIMEOUT"
    by (simp_all add: demo_sem_fields no_timeout_def B_TIMEOUT_def B_ABSOLUTE_TIMEOUT_def)
  have idle: "timer_idle (ks_current (tm_world ?k)) ?k" by (rule demo_timer_idle)
  from acquire_sem_correct [OF demo_sem_kinv cur disjI1 [OF nt] lo, of "\<lambda>n. 5" 0] obtain k1 where
    "acquire_sem_etc (\<lambda>n. 5) False 0 1 0 0 ?k = Returns (Suspended (Some 1), k1)" "sem_blocked 0 1 demo_sem_ks (tm_world k1)"
    by (auto simp: demo_sem_fields killed_def Let_def)
  moreover from acquire_sem_correct [OF demo_sem_kinv cur disjI2 [OF idle] lo, of "\<lambda>n. 5" B_TIMEOUT 0]
  have "acquire_sem_etc (\<lambda>n. 5) False 0 1 B_TIMEOUT 0 ?k = Returns (Done ERR_SEM_TIMED_OUT, ?k)"
    using t by (auto simp: demo_sem_fields Let_def)
  moreover have "\<not> killed 1 B_TIMEOUT demo_sem_ks"
    by (simp add: killed_def demo_sem_thread demo_thread_def B_TIMEOUT_def B_CAN_INTERRUPT_def)
  with acquire_sem_correct [OF demo_sem_kinv cur disjI2 [OF idle] lo, of "\<lambda>n. 5" B_TIMEOUT 7] obtain k2 where
    "acquire_sem_etc (\<lambda>n. 5) False 0 1 B_TIMEOUT 7 ?k = Returns (Suspended (Some 1), k2)" "waits_timed ?k 1 0 1 k2"
    using t by (auto simp: demo_sem_fields Let_def)
  ultimately show ?thesis by (auto simp: sem_blocked_def demo_sem_fields Let_def)
qed

text \<open>
  (C13) \<open>release_sem_etc\<close>: the units go to the waiters in the order of the queue. The longest
  prefix whose needs they cover is made ready, the first waiter left keeps the rest of them,
  and the count grows by exactly the number of units; no other thread changes its state.
\<close>

theorem release_sem_correct:
  assumes "kinv idle k" and "se_count (ks_sems (tm_world k) (sem_slot i)) + n < 2 ^ 31"
  shows "\<exists>r k'. release_sem_etc clock i n flags k = Returns (r, k') \<and> kinv idle k' \<and>
           (if i < 0 then r = B_BAD_SEM_ID \<and> k' = k
            else if n \<le> 0 then r = ERR_INVALID_ARGS \<and> k' = k
            else if se_id (ks_sems (tm_world k) (sem_slot i)) \<noteq> i then r = B_BAD_SEM_ID \<and> k' = k
            else r = 0 \<and> sem_released i n (tm_world k) (tm_world k'))"
proof (cases "0 \<le> i \<and> 0 < n \<and> se_id (ks_sems (tm_world k) (sem_slot i)) = i")
  case True
  then have a: "0 \<le> i" "se_id (ks_sems (tm_world k) (sem_slot i)) = i" "0 < n" by simp_all
  from release_sem_etc_spec [OF assms(1) a assms(2), of clock flags] a show ?thesis by auto
next
  case False
  have "ks_sems_active (tm_world k)" using assms(1) by (simp add: kinv_def kernel_ok_def sems_ok_def)
  with False assms(1) show ?thesis by (auto simp: release_sem_etc_def Let_def)
qed

theorem release_sem_correct_witness:
  "\<exists>k'. release_sem_etc (\<lambda>n. 5) 0 3 0 (demo_kt demo_sem_ks) = Returns (0, k') \<and>
        se_count (ks_sems (tm_world k') 0) = 2 \<and> eff (tm_world k') 2 = THREAD_STATE_READY"
proof -
  have "se_count (ks_sems (tm_world (demo_kt demo_sem_ks)) (sem_slot 0)) + 3 < 2 ^ 31"
    by (simp add: demo_sem_fields)
  from release_sem_correct [OF demo_sem_kinv this, of "\<lambda>n. 5" 0] obtain r k' where
    "release_sem_etc (\<lambda>n. 5) 0 3 0 (demo_kt demo_sem_ks) = Returns (r, k')"
    "r = 0 \<and> sem_released 0 3 demo_sem_ks (tm_world k')"
    by (auto simp: demo_sem_fields)
  then show ?thesis by (auto simp: sem_released_def demo_sem_fields demo_sem_thread demo_thread_def needs_def Let_def)
qed

lemma served_enough:
  assumes "\<forall>u \<in> set ts. 0 \<le> f u" and "(\<Sum>u\<leftarrow>ys @ [t]. f u) \<le> n" and "ts = ys @ t # zs"
  shows "t \<in> set (served f n ts)"
  using assms
proof (induction ys arbitrary: ts n)
  case (Cons y ys)
  have le: "f y + (\<Sum>u\<leftarrow>ys @ [t]. f u) \<le> n" using Cons.prems(2) by simp
  have "0 \<le> (\<Sum>u\<leftarrow>ys @ [t]. f u)" using Cons.prems(1,3) by (intro sum_list_nonneg) auto
  with le have "f y \<le> n" by linarith
  moreover have "t \<in> set (served f (n - f y) (ys @ t # zs))"
    using Cons.prems le by (intro Cons.IH) auto
  ultimately show ?case using Cons.prems(3) by simp
qed simp

text \<open>
  (C14) A waiter is woken as soon as the units released cover what it and the waiters in front
  of it need: it is ready or running when the call returns, and has left the queue.
\<close>

theorem release_sem_wakes:
  assumes "kinv idle k" and "0 \<le> i" and "se_id (ks_sems (tm_world k) (sem_slot i)) = i"
    and "se_q (ks_sems (tm_world k) (sem_slot i)) = ys @ t # zs"
    and "0 < n" and "needed (tm_world k) (ys @ [t]) \<le> n" and "n < 2 ^ 31"
  shows "\<exists>k'. release_sem_etc clock i n flags k = Returns (0, k') \<and> eff (tm_world k') t = THREAD_STATE_READY \<and>
           t \<notin> set (se_q (ks_sems (tm_world k') (sem_slot i)))"
proof -
  let ?s = "tm_world k" and ?n = "sem_slot i"
  have slot: "slot_ok ?s ?n" using assms(1) slot_bound by (simp add: kinv_def kernel_ok_def sems_ok_def)
  note live = slot_ok_live [OF slot assms(3,2)]
  have o: "se_count (ks_sems ?s ?n) < 0" "distinct (se_q (ks_sems ?s ?n))" "\<forall>u \<in> set (se_q (ks_sems ?s ?n)). 0 < needs ?s u"
    using live(1) assms(4) by (auto simp: entry_ok_def Let_def)
  from o(1) assms(7) have "se_count (ks_sems ?s ?n) + n < 2 ^ 31" by simp
  from release_sem_etc_spec [OF assms(1-3,5) this, of clock flags] obtain k' where
    k': "release_sem_etc clock i n flags k = Returns (0, k')" "sem_released i n ?s (tm_world k')" by blast
  have "t \<in> set (served (needs ?s) n (se_q (ks_sems ?s ?n)))"
    by (rule served_enough [OF _ assms(6) [unfolded needed_def] assms(4)]) (use o(3) in force)
  moreover from this served_sets [OF o(2), of "needs ?s" n]
  have "t \<notin> set (unserved (needs ?s) n (se_q (ks_sems ?s ?n)))" by blast
  ultimately show ?thesis using k' by (auto simp: sem_released_def Let_def)
qed

theorem release_sem_wakes_witness:
  "\<exists>k'. release_sem_etc (\<lambda>n. 5) 0 1 0 (demo_kt demo_sem_ks) = Returns (0, k') \<and>
        eff (tm_world k') 2 = THREAD_STATE_READY"
proof -
  have "(0::int) \<le> 0" "se_id (ks_sems (tm_world (demo_kt demo_sem_ks)) (sem_slot 0)) = 0"
    "se_q (ks_sems (tm_world (demo_kt demo_sem_ks)) (sem_slot 0)) = [] @ 2 # []" "(0::int) < 1"
    "needed (tm_world (demo_kt demo_sem_ks)) ([] @ [2]) \<le> 1" "(1::int) < 2 ^ 31"
    by (simp_all add: demo_sem_fields demo_sem_thread demo_thread_def needs_def)
  from release_sem_wakes [OF demo_sem_kinv this, of "\<lambda>n. 5" 0] show ?thesis by blast
qed

text \<open>
  (C15) \<open>delete_sem_etc\<close> of a live semaphore wakes every waiter with \<open>B_BAD_SEM_ID\<close>, and from
  then on its id is refused by every call; of any other id it is refused with the state
  unchanged. No other semaphore and no other thread is touched.
\<close>

theorem delete_sem_correct:
  assumes "kinv idle k"
  shows "\<exists>r k'. delete_sem_etc clock i c k = Returns (r, k') \<and> kinv idle k' \<and>
           (if i < 0 \<or> se_id (ks_sems (tm_world k) (sem_slot i)) \<noteq> i then r = B_BAD_SEM_ID \<and> k' = k
            else r = B_NO_ERROR \<and> sem_gone i (tm_world k) (tm_world k')) \<and>
           delete_sem_etc clock i c k' = Returns (B_BAD_SEM_ID, k') \<and>
           acquire_sem clock False i k' = Returns (Done B_BAD_SEM_ID, k') \<and>
           release_sem clock i k' = Returns (B_BAD_SEM_ID, k')"
proof (cases "0 \<le> i \<and> se_id (ks_sems (tm_world k) (sem_slot i)) = i")
  case True
  then have a: "0 \<le> i" "se_id (ks_sems (tm_world k) (sem_slot i)) = i" by simp_all
  from delete_sem_etc_spec [OF assms a, of clock c] obtain k' where
    k': "delete_sem_etc clock i c k = Returns (B_NO_ERROR, k')" "kinv idle k'" "sem_gone i (tm_world k) (tm_world k')" by blast
  have act: "ks_sems_active (tm_world k')" using k'(2) by (simp add: kinv_def kernel_ok_def sems_ok_def)
  have "se_id (ks_sems (tm_world k') (sem_slot i)) \<noteq> i" using k'(3) a(1) by (simp add: sem_gone_def Let_def)
  with act k' a show ?thesis
    by (simp add: delete_sem_etc_def [of _ _ _ k'] acquire_sem_def acquire_sem_etc_def release_sem_def release_sem_etc_def Let_def)
next
  case False
  have "ks_sems_active (tm_world k)" using assms by (simp add: kinv_def kernel_ok_def sems_ok_def)
  with False assms show ?thesis
    by (auto simp: delete_sem_etc_def acquire_sem_def acquire_sem_etc_def release_sem_def release_sem_etc_def Let_def)
qed

theorem delete_sem_correct_witness:
  "\<exists>k'. delete_sem_etc (\<lambda>n. 5) 0 7 (demo_kt demo_sem_ks) = Returns (B_NO_ERROR, k') \<and>
        th_errcode (ks_thread (tm_world k') 2) = B_BAD_SEM_ID \<and> eff (tm_world k') 2 = THREAD_STATE_READY"
  using delete_sem_correct [OF demo_sem_kinv, of "\<lambda>n. 5" 0 7]
  by (auto simp: demo_sem_fields sem_gone_def Let_def)

text \<open>
  (C16) \<open>create_sem_etc\<close>, as long as the counter of ids is more than \<open>MAX_SEMS\<close> below
  \<open>2 ^ 31\<close> (nothing in the code keeps it there, so this is a hypothesis): the new id is at least
  the counter, at most \<open>MAX_SEMS - 1\<close> above it, larger than every id in the table, and leads to its
  own slot, which was free; the counter moves just past it; the other slots are untouched.
  Without memory or a free slot the table and the counter are. When a name is given the copy
  writes 32 bytes into a buffer of its length plus one.
\<close>

theorem create_sem_correct:
  assumes "kinv idle k" and "0 \<le> n" "n < 2 ^ 31" and "ks_next_sem (tm_world k) + int MAX_SEMS < 2 ^ 31"
  shows "\<exists>r s'. create_sem_etc mem n name owner (tm_world k) = (r, s') \<and> kinv idle (in_world (\<lambda>_. s') k) \<and>
           ks_overrun s' = ks_overrun (tm_world k) + (if mem then name_overrun name else 0) \<and>
           (if mem \<and> (\<exists>m < MAX_SEMS. se_id (ks_sems (tm_world k) m) = -1)
            then sem_created r n owner (tm_world k) s' \<and> ks_next_sem (tm_world k) \<le> r \<and>
                 r < ks_next_sem (tm_world k) + int MAX_SEMS \<and> ks_next_sem s' = r + 1
            else r = (if mem then B_NO_MORE_SEMS else ENOMEM) \<and> ks_sems s' = ks_sems (tm_world k) \<and>
                 ks_next_sem s' = ks_next_sem (tm_world k))"
  using assms by (rule create_sem_etc_spec)

theorem create_sem_correct_witness:
  "\<exists>r s'. create_sem_etc True 5 (Some [115, 101, 109]) 1 demo_sem_ks = (r, s') \<and> ks_overrun s' = 28 \<and> 0 < r \<and>
          se_count (ks_sems s' (sem_slot r)) = 5"
proof -
  have "(0::int) \<le> 5" "(5::int) < 2 ^ 31" "ks_next_sem (tm_world (demo_kt demo_sem_ks)) + int MAX_SEMS < 2 ^ 31"
    by (simp_all add: demo_sem_fields MAX_SEMS_def)
  from create_sem_correct [OF demo_sem_kinv this, of True "Some [115, 101, 109]" 1, unfolded demo_kt_world simp_thms if_True]
  obtain r s' where
    run: "create_sem_etc True 5 (Some [115, 101, 109]) 1 demo_sem_ks = (r, s')"
    and over: "ks_overrun s' = ks_overrun demo_sem_ks + name_overrun (Some [115, 101, 109])"
    and made: "(\<exists>m < MAX_SEMS. se_id (ks_sems demo_sem_ks m) = -1) \<longrightarrow> sem_created r 5 1 demo_sem_ks s'"
    by auto
  have "\<exists>m < MAX_SEMS. se_id (ks_sems demo_sem_ks m) = -1"
    by (intro exI [of _ 1]) (simp add: demo_sem_fields MAX_SEMS_def)
  then have c: "sem_created r 5 1 demo_sem_ks s'" using made by blast
  then have "se_id (ks_sems demo_sem_ks 0) < r" by (simp add: sem_created_def MAX_SEMS_def)
  moreover have "se_count (ks_sems s' (sem_slot r)) = 5" using c by (simp add: sem_created_def)
  ultimately show ?thesis
    using run over by (simp add: demo_sem_fields name_overrun_def SYS_MAX_OS_NAME_LEN_def)
qed

text \<open>
  (C17) Interruption and timeout of a waiter that has been given no unit yet (the case of one
  that has is the next section's) and whose wait can be interrupted: it is taken off the queue
  and made ready with \<open>EINTR\<close> or \<open>B_TIMED_OUT\<close>, the count becomes what the others need, and
  nobody else is woken.
\<close>

theorem sem_interrupt_correct:
  assumes "kinv idle k" and "whole_waiter t (tm_world k)"
    and "th_sem_flags (ks_thread (tm_world k) t) AND B_CAN_INTERRUPT \<noteq> 0"
    and "thread_get_thread_struct (ta_thread (ks_timeout (tm_world k) d)) (tm_world k) = Some t"
    and "ta_sem (ks_timeout (tm_world k) d) = th_sem_blocking (ks_thread (tm_world k) t)"
  shows "(\<exists>s'. sem_interrupt_thread t (tm_world k) = Returns (B_NO_ERROR, s') \<and>
           kinv idle (in_world (\<lambda>_. s') k) \<and> sem_removed t EINTR (tm_world k) s') \<and>
         (\<exists>s'. sem_timeout d (tm_world k) = Returns (INT_RESCHEDULE, s') \<and>
           kinv idle (in_world (\<lambda>_. s') k) \<and> sem_removed t B_TIMED_OUT (tm_world k) s')"
  using sem_interrupt_thread_spec [OF assms(1-3)] sem_timeout_spec [OF assms(1,2,4,5)] by blast

theorem sem_interrupt_correct_witness:
  "\<exists>s'. sem_interrupt_thread 2 demo_sem_ks = Returns (B_NO_ERROR, s') \<and> th_errcode (ks_thread s' 2) = EINTR \<and>
        se_count (ks_sems s' 0) = 0"
proof -
  have "whole_waiter 2 (tm_world (demo_kt demo_sem_ks))" using demo_whole_waiter by simp
  moreover have "th_sem_flags (ks_thread (tm_world (demo_kt demo_sem_ks)) 2) AND B_CAN_INTERRUPT \<noteq> 0"
    by (simp add: demo_sem_thread B_CAN_INTERRUPT_def)
  moreover have "thread_get_thread_struct (ta_thread (ks_timeout (tm_world (demo_kt demo_sem_ks)) 0)) (tm_world (demo_kt demo_sem_ks)) = Some 2"
    by (simp add: thread_get_thread_struct_def demo_sem_fields demo_sem_thread demo_thread_def)
  moreover have "ta_sem (ks_timeout (tm_world (demo_kt demo_sem_ks)) 0) = th_sem_blocking (ks_thread (tm_world (demo_kt demo_sem_ks)) 2)"
    by (simp add: demo_sem_thread demo_sem_fields)
  ultimately obtain s' where "sem_interrupt_thread 2 demo_sem_ks = Returns (B_NO_ERROR, s')" "sem_removed 2 EINTR demo_sem_ks s'"
    using sem_interrupt_correct [OF demo_sem_kinv, of 2 0] by auto
  then show ?thesis by (simp add: sem_removed_def demo_sem_thread demo_sem_fields Let_def)
qed

section \<open>Where the counts or the callers go wrong\<close>

text \<open>
  (C18) Two threads wait, and the first, \<open>t\<close>, has been given \<open>free\<close> of the units it asked for,
  at least as many as both still need together. When \<open>t\<close> is interrupted, the loop that hands
  the units back subtracts \<open>t\<close>'s own need from them as well as the second waiter's: \<open>u\<close> is
  woken, and the count is what \<open>u\<close> leaves of the units less the need of \<open>t\<close>, so that many units
  are gone. (With no second waiter the loop does not run and none are.)
\<close>

theorem interrupted_waiter_loses_units:
  fixes s :: ks
  assumes "entry_ok s n" and "se_q (ks_sems s n) = [t, u]" and "th_id (ks_thread s u) \<noteq> th_id (ks_thread s t)"
    and "free = th_acquire_count (ks_thread s t) - needs s t"
    and "needs s u + needs s t \<le> free" and "free < 2 ^ 31"
  shows "\<exists>woken s'. remove_thread_from_sem t n e s = (B_NO_ERROR, woken, s') \<and> woken = [t, u] \<and>
           se_q (ks_sems s' n) = [] \<and> se_count (ks_sems s' n) = free - needs s u - needs s t \<and> 0 < needs s t"
proof -
  have o: "se_count (ks_sems s n) = - (needs s t + needs s u)" "0 < needs s t" "0 < needs s u" "t \<noteq> u"
    using assms(1,2) by (auto simp: entry_ok_def Let_def)
  have rem: "remove_id (\<lambda>x. th_id (ks_thread s x)) (th_id (ks_thread s t)) (se_q (ks_sems s n)) = (Some t, [u])"
    by (simp add: assms(2))
  have c: "i32 (se_count (ks_sems s n) + th_acquire_count (ks_thread s t)) = free - needs s u"
    using o assms(4-6) by simp
  obtain s1 where s1: "s1 = set_thread t (\<lambda>r. r\<lparr>th_state := THREAD_STATE_READY, th_errcode := e\<rparr>)
    (set_sem n (\<lambda>e. e\<lparr>se_q := [u]\<rparr>) s)" by simp
  have n1: "th_sem_count (ks_thread s1 t) = needs s t" by (simp add: s1 needs_def)
  have pos: "0 < free - needs s u" and le: "needs s t \<le> free - needs s u" using o assms(5) by simp_all
  let ?s2 = "set_thread t (\<lambda>r. r\<lparr>th_sem_count := th_sem_count r - needs s t\<rparr>) s1"
  have wake: "wake_more t [u] (free - needs s u) [t] s1 =
      ([], free - needs s u - needs s t, [t, u], set_thread u (\<lambda>r. r\<lparr>th_state := THREAD_STATE_READY\<rparr>) ?s2)"
    using pos le n1 by (simp add: min_def Let_def)
  have "remove_thread_from_sem t n e s = (B_NO_ERROR, [t, u],
      set_sem n (\<lambda>e. e\<lparr>se_q := [], se_count := free - needs s u - needs s t\<rparr>)
        (set_thread u (\<lambda>r. r\<lparr>th_state := THREAD_STATE_READY\<rparr>) ?s2))"
    unfolding remove_thread_from_sem_def rem prod.case Let_def c s1 [symmetric] wake by simp
  with o(2) show ?thesis by simp
qed

text \<open>Three units were free; thread 2 asked for five and thread 3 for one. Two should be left.\<close>

definition demo_short_ks :: ks where
  "demo_short_ks = demo_ks\<lparr>
     ks_thread := (\<lambda>t. (demo_thread (int t) 10 THREAD_STATE_WAITING)\<lparr>th_sem_blocking := 0,
       th_sem_count := (if t = 2 then 2 else 1), th_acquire_count := (if t = 2 then 5 else 1)\<rparr>),
     ks_sems := (ks_sems demo_ks)(0 := \<lparr>se_id = 0, se_count = -3, se_q = [2, 3], se_name = Some [], se_owner = 1\<rparr>)\<rparr>"

theorem interrupted_waiter_loses_units_witness:
  "\<exists>s'. remove_thread_from_sem 2 0 EINTR demo_short_ks = (B_NO_ERROR, [2, 3], s') \<and> se_count (ks_sems s' 0) = 0"
proof -
  have t: "ks_thread demo_short_ks t = (demo_thread (int t) 10 THREAD_STATE_WAITING)\<lparr>th_sem_blocking := 0,
       th_sem_count := (if t = 2 then 2 else 1), th_acquire_count := (if t = 2 then 5 else 1)\<rparr>" for t
    by (simp add: demo_short_ks_def)
  have q: "ks_sems demo_short_ks 0 = \<lparr>se_id = 0, se_count = -3, se_q = [2, 3], se_name = Some [], se_owner = 1\<rparr>"
    by (simp add: demo_short_ks_def)
  have a: "entry_ok demo_short_ks 0" "se_q (ks_sems demo_short_ks 0) = [2, 3]"
    "th_id (ks_thread demo_short_ks 3) \<noteq> th_id (ks_thread demo_short_ks 2)"
    "3 = th_acquire_count (ks_thread demo_short_ks 2) - needs demo_short_ks 2"
    "needs demo_short_ks 3 + needs demo_short_ks 2 \<le> 3" "(3::int) < 2 ^ 31"
    by (simp_all add: entry_ok_def q t needs_def demo_thread_def)
  have "needs demo_short_ks 3 = 1" "needs demo_short_ks 2 = 2" by (simp_all add: t needs_def)
  with interrupted_waiter_loses_units [OF a, of EINTR] show ?thesis by auto
qed

text \<open>
  A kill signal that reaches a thread after it has queued itself and before it takes the
  thread lock makes the call fault: the loop that makes the woken threads ready leaves its
  variable \<open>NULL\<close>, and the thread dereferences it when it runs again.
\<close>

theorem late_kill_faults:
  assumes "kinv idle k" and "ks_current (tm_world k) \<noteq> idle" and "no_timeout flags" "flags AND B_CAN_INTERRUPT \<noteq> 0"
    and "0 \<le> i" "se_id (ks_sems (tm_world k) (sem_slot i)) = i" and "0 < n"
    and "- (2 ^ 31) \<le> se_count (ks_sems (tm_world k) (sem_slot i)) - n" "se_count (ks_sems (tm_world k) (sem_slot i)) < n"
    and "\<not> killed (ks_current (tm_world k)) flags (tm_world k)"
  shows "\<exists>p k'. acquire_sem_etc clock True i n flags timeout k = Returns (Suspended p, k') \<and>
           (\<forall>k''. acquire_resumed clock flags p k'' = Faults)"
  using late_kill_spec [OF assms, of clock timeout] by (auto simp: acquire_resumed_def)

theorem late_kill_faults_witness:
  "\<exists>p k'. acquire_sem_etc (\<lambda>n. 5) True 0 1 1 0 (demo_kt demo_sem_ks) = Returns (Suspended p, k') \<and>
          acquire_resumed (\<lambda>n. 5) 1 p k' = Faults"
proof -
  have "ks_current (tm_world (demo_kt demo_sem_ks)) \<noteq> 0" "no_timeout 1" "(1::32 word) AND B_CAN_INTERRUPT \<noteq> 0"
    "(0::int) \<le> 0" "se_id (ks_sems (tm_world (demo_kt demo_sem_ks)) (sem_slot 0)) = 0" "(0::int) < 1"
    "- (2 ^ 31) \<le> se_count (ks_sems (tm_world (demo_kt demo_sem_ks)) (sem_slot 0)) - 1"
    "se_count (ks_sems (tm_world (demo_kt demo_sem_ks)) (sem_slot 0)) < 1"
    "\<not> killed (ks_current (tm_world (demo_kt demo_sem_ks))) 1 (tm_world (demo_kt demo_sem_ks))"
    by (simp_all add: demo_sem_fields demo_sem_thread demo_thread_def no_timeout_def B_CAN_INTERRUPT_def
        B_TIMEOUT_def B_ABSOLUTE_TIMEOUT_def killed_def)
  from late_kill_faults [OF demo_sem_kinv this, of "\<lambda>n. 5" 0] show ?thesis by blast
qed

text \<open>A timer that fires between the deletion of the semaphore and the waiter's cancellation.\<close>

lemma deleted_sem_timer_panics:
  assumes "kinv idle k" and "0 \<le> i" and "se_id (ks_sems (tm_world k) (sem_slot i)) = i"
    and "delete_sem_etc clock i c k = Returns (r, k')"
    and "ta_sem (ks_timeout (tm_world k') d) = i"
    and "thread_get_thread_struct (ta_thread (ks_timeout (tm_world k') d)) (tm_world k') = Some t"
  shows "sem_timeout d (tm_world k') = Faults"
proof -
  from delete_sem_etc_spec [OF assms(1-3), of clock c] assms(4) have "sem_gone i (tm_world k) (tm_world k')" by auto
  then have "se_id (ks_sems (tm_world k') (sem_slot i)) \<noteq> i" using assms(2) by (simp add: sem_gone_def Let_def)
  with assms(5,6) show ?thesis by (simp add: sem_timeout_def Let_def)
qed

text \<open>The information calls need a waiter.\<close>

lemma get_sem_info_needs_waiter:
  assumes "sems_ok s" and "0 \<le> i" and "se_id (ks_sems s (sem_slot i)) = i"
  shows "get_sem_info i True s = Faults \<longleftrightarrow> se_q (ks_sems s (sem_slot i)) = []"
proof -
  have slot: "slot_ok s (sem_slot i)" using assms(1) slot_bound by (simp add: sems_ok_def)
  from slot_ok_live(3) [OF slot assms(3,2)] obtain c where "se_name (ks_sems s (sem_slot i)) = Some c" by blast
  moreover have "ks_sems_active s" using assms(1) by (simp add: sems_ok_def)
  ultimately show ?thesis
    using assms(2,3) by (cases "se_q (ks_sems s (sem_slot i))") (simp_all add: get_sem_info_def fill_sem_info_def)
qed

end
