(* ===== verification/Lock.thy ===== *)
theory Lock
  imports Sem_Main
begin

text \<open>
  The locks of \<open>lock.c\<close>: the mutex, an atomic counter in front of a semaphore, and the
  recursive lock. A lock call is a few steps between which other threads run: reading and
  changing the counter, the semaphore call, and what follows it. The lock's client sees of the
  semaphore only what the locale \<open>unit_semaphore\<close> says; the kernel's semaphores provide it.
\<close>

section \<open>Operations\<close>

record mutex =
  mx_count :: int
  mx_sem :: int

record rlock =
  rl_holder :: int
  rl_recursion :: int
  rl_sem :: int

text \<open>The atomic part of the two mutex calls: whether the semaphore is needed, and the new count.\<close>

definition mutex_lock_add :: "mutex \<Rightarrow> bool \<times> mutex" where
  "mutex_lock_add m = (1 \<le> mx_count m, m\<lparr>mx_count := i32 (mx_count m + 1)\<rparr>)"

definition mutex_unlock_sub :: "mutex \<Rightarrow> bool \<times> mutex" where
  "mutex_unlock_sub m = (1 < mx_count m, m\<lparr>mx_count := i32 (mx_count m - 1)\<rparr>)"

definition mutex_lock :: "(nat \<Rightarrow> int) \<Rightarrow> bool \<Rightarrow> mutex \<Rightarrow> kt \<Rightarrow> (acquire_result \<times> mutex \<times> kt) outcome" where
  "mutex_lock clock late_kill m k =
     (case mutex_lock_add m of
        (wait, m1) \<Rightarrow> if wait then obind (acquire_sem clock late_kill (mx_sem m1) k) (\<lambda>(r, k1). Returns (r, m1, k1))
                     else Returns (Done 0, m1, k))"

definition mutex_unlock :: "(nat \<Rightarrow> int) \<Rightarrow> mutex \<Rightarrow> kt \<Rightarrow> (mutex \<times> kt) outcome" where
  "mutex_unlock clock m k =
     (case mutex_unlock_sub m of
        (wake, m1) \<Rightarrow> if wake then obind (release_sem clock (mx_sem m1) k) (\<lambda>(_, k1). Returns (m1, k1))
                     else Returns (m1, k))"

definition c_string :: "string \<Rightarrow> byte list" where
  "c_string cs = map of_char cs"

definition mutex_init :: "bool \<Rightarrow> int \<Rightarrow> mutex ptr \<Rightarrow> byte list ptr \<Rightarrow> ks \<Rightarrow> int \<times> mutex ptr \<times> ks" where
  "mutex_init mem kernel_proc m in_name s =
     (case m of
        None \<Rightarrow> (ERR_INVALID_ARGS, None, s)
      | Some m0 \<Rightarrow>
          (let name = (case in_name of None \<Rightarrow> c_string ''mutex_sem'' | Some n \<Rightarrow> n)
           in case create_sem_etc mem 0 (Some name) kernel_proc s of
                (i, s1) \<Rightarrow> (if i < 0 then i else 0, Some (m0\<lparr>mx_count := 0, mx_sem := i\<rparr>), s1)))"

definition mutex_destroy :: "(nat \<Rightarrow> int) \<Rightarrow> mutex ptr \<Rightarrow> kt \<Rightarrow> kt outcome" where
  "mutex_destroy clock m k =
     (case m of
        None \<Rightarrow> Returns k
      | Some m0 \<Rightarrow> if 0 \<le> mx_sem m0 then obind (delete_sem clock (mx_sem m0) k) (\<lambda>(_, k1). Returns k1) else Returns k)"

definition recursive_lock_get_recursion :: "int \<Rightarrow> rlock \<Rightarrow> int" where
  "recursive_lock_get_recursion thid l = (if rl_holder l = thid then rl_recursion l else -1)"

definition recursive_lock_create :: "bool \<Rightarrow> int \<Rightarrow> rlock ptr \<Rightarrow> ks \<Rightarrow> int \<times> rlock ptr \<times> ks" where
  "recursive_lock_create mem kernel_proc l s =
     (case l of
        None \<Rightarrow> (ERR_INVALID_ARGS, None, s)
      | Some l0 \<Rightarrow>
          (case create_sem_etc mem 1 (Some (c_string ''recursive_lock_sem'')) kernel_proc s of
             (i, s1) \<Rightarrow> (B_NO_ERROR, Some (l0\<lparr>rl_holder := -1, rl_recursion := 0, rl_sem := i\<rparr>), s1)))"

definition recursive_lock_destroy :: "(nat \<Rightarrow> int) \<Rightarrow> rlock ptr \<Rightarrow> kt \<Rightarrow> (rlock ptr \<times> kt) outcome" where
  "recursive_lock_destroy clock l k =
     (case l of
        None \<Rightarrow> Returns (None, k)
      | Some l0 \<Rightarrow>
          obind (if 0 < rl_sem l0 then delete_sem clock (rl_sem l0) k else Returns (0, k)) (\<lambda>(_, k1).
            Returns (Some (l0\<lparr>rl_sem := -1\<rparr>), k1)))"

text \<open>
  The parts of the recursive lock: what the caller does once it has the semaphore, a nested
  lock, and the counting of an unlock, which panics when the caller does not hold the lock.
\<close>

definition rlock_take :: "int \<Rightarrow> rlock \<Rightarrow> rlock" where
  "rlock_take thid l = l\<lparr>rl_holder := thid, rl_recursion := i32 (rl_recursion l + 1)\<rparr>"

definition rlock_nest :: "rlock \<Rightarrow> rlock" where
  "rlock_nest l = l\<lparr>rl_recursion := i32 (rl_recursion l + 1)\<rparr>"

definition rlock_leave :: "int \<Rightarrow> rlock \<Rightarrow> (bool \<times> rlock) outcome" where
  "rlock_leave thid l =
     (if thid \<noteq> rl_holder l then Faults
      else (let l1 = l\<lparr>rl_recursion := i32 (rl_recursion l - 1)\<rparr>
            in if rl_recursion l1 = 0 then Returns (True, l1\<lparr>rl_holder := -1\<rparr>) else Returns (False, l1)))"

text \<open>\<open>Inl p\<close>: the caller waits; it takes the lock when it runs again.\<close>

definition recursive_lock_lock ::
  "(nat \<Rightarrow> int) \<Rightarrow> bool \<Rightarrow> int \<Rightarrow> rlock \<Rightarrow> kt \<Rightarrow> ((nat ptr + bool) \<times> rlock \<times> kt) outcome" where
  "recursive_lock_lock clock late_kill thid l k =
     (if thid \<noteq> rl_holder l then
        obind (acquire_sem clock late_kill (rl_sem l) k) (\<lambda>(r, k1).
          case r of Done _ \<Rightarrow> Returns (Inr True, rlock_take thid l, k1) | Suspended p \<Rightarrow> Returns (Inl p, l, k1))
      else Returns (Inr False, rlock_nest l, k))"

definition recursive_lock_unlock :: "(nat \<Rightarrow> int) \<Rightarrow> int \<Rightarrow> rlock \<Rightarrow> kt \<Rightarrow> (bool \<times> rlock \<times> kt) outcome" where
  "recursive_lock_unlock clock thid l k =
     obind (rlock_leave thid l) (\<lambda>(out, l1).
       if out then obind (release_sem clock (rl_sem l1) k) (\<lambda>(_, k1). Returns (True, l1, k1)) else Returns (False, l1, k))"

section \<open>The semaphore as the locks see it\<close>

text \<open>
  \<open>acq\<close> takes one unit for the current thread and tells whether it has to wait, \<open>rel\<close> gives
  one back, \<open>sched\<close> is what the rest of the kernel does meanwhile. Waiters are served in order.
\<close>

locale unit_semaphore =
  fixes ok :: "'s \<Rightarrow> bool" and cur :: "'s \<Rightarrow> nat" and cnt :: "'s \<Rightarrow> int" and waiters :: "'s \<Rightarrow> nat list"
    and acq :: "'s \<Rightarrow> (bool \<times> 's) option" and rel :: "'s \<Rightarrow> 's option" and sched :: "'s \<Rightarrow> 's \<Rightarrow> bool" and idle :: nat
  assumes cnt_waiters: "ok s \<Longrightarrow> int (length (waiters s)) = max 0 (- cnt s)"
    and distinct_waiters: "ok s \<Longrightarrow> distinct (waiters s)"
    and cur_free: "ok s \<Longrightarrow> cur s \<notin> set (waiters s)"
    and acq_free: "ok s \<Longrightarrow> cur s \<noteq> idle \<Longrightarrow> 1 \<le> cnt s \<Longrightarrow>
      \<exists>s'. acq s = Some (False, s') \<and> ok s' \<and> cnt s' = cnt s - 1 \<and> waiters s' = waiters s"
    and acq_wait: "ok s \<Longrightarrow> cur s \<noteq> idle \<Longrightarrow> cnt s \<le> 0 \<Longrightarrow> - (2 ^ 31) < cnt s \<Longrightarrow>
      \<exists>s'. acq s = Some (True, s') \<and> ok s' \<and> cnt s' = cnt s - 1 \<and> waiters s' = waiters s @ [cur s]"
    and rel_unit: "ok s \<Longrightarrow> cnt s + 1 < 2 ^ 31 \<Longrightarrow>
      \<exists>s'. rel s = Some s' \<and> ok s' \<and> cnt s' = cnt s + 1 \<and> waiters s' = tl (waiters s)"
    and sched_keeps: "ok s \<Longrightarrow> sched s s' \<Longrightarrow> ok s' \<and> cnt s' = cnt s \<and> waiters s' = waiters s"

section \<open>Threads that use one lock\<close>

text \<open>
  Where a thread is in its use of the lock. \<open>Wanting\<close>: about to call the semaphore; \<open>Waiting\<close>:
  inside that call; \<open>Got\<close>: has the unit and not yet written the holder; \<open>Releasing\<close>: about to
  give the unit back.
\<close>

datatype lock_phase = Out | Wanting | Waiting | Got | Holding | Releasing

definition num :: "(nat \<Rightarrow> lock_phase) \<Rightarrow> lock_phase \<Rightarrow> int" where
  "num ph P = int (card {t. ph t = P})"

lemma fin_phase: "finite {t. ph t \<noteq> Out} \<Longrightarrow> P \<noteq> Out \<Longrightarrow> finite {t. ph t = P}"
  by (rule finite_subset [of _ "{t. ph t \<noteq> Out}"]) auto

lemma num_upd:
  assumes "finite {t. ph t \<noteq> Out}" and "Q \<noteq> Out"
  shows "num (ph(t := P)) Q = num ph Q - (if ph t = Q then 1 else 0) + (if P = Q then 1 else 0)"
proof -
  have fin: "finite {u. ph u = Q}" using assms by (rule fin_phase)
  have set_eq: "{u. (ph(t := P)) u = Q} = (if P = Q then insert t ({u. ph u = Q} - {t}) else {u. ph u = Q} - {t})"
    by auto
  have del: "int (card ({u. ph u = Q} - {t})) = num ph Q - (if ph t = Q then 1 else 0)"
  proof (cases "ph t = Q")
    case True
    then have "card {u. ph u = Q} = Suc (card ({u. ph u = Q} - {t}))"
      using fin by (intro card.remove) auto
    with True show ?thesis by (simp add: num_def)
  next
    case False
    then have "{u. ph u = Q} - {t} = {u. ph u = Q}" by auto
    with False show ?thesis by (simp add: num_def)
  qed
  have "num (ph(t := P)) Q = int (card {u. (ph(t := P)) u = Q})" by (simp only: num_def)
  also have "\<dots> = int (card ({u. ph u = Q} - {t})) + (if P = Q then 1 else 0)"
    unfolding set_eq using fin by (cases "P = Q") (simp_all add: card_insert_disjoint del: insert_Diff_single)
  also note del
  finally show ?thesis .
qed

lemma phase_threads:
  assumes "{t. ph t \<noteq> Out} \<subseteq> T" and "t \<in> T \<or> ph t \<noteq> Out"
  shows "{u. (ph(t := P)) u \<noteq> Out} \<subseteq> T"
proof -
  have "t \<in> T" using assms by blast
  with assms(1) show ?thesis by auto
qed

lemma num_nonneg [simp]: "0 \<le> num ph P"
  by (simp add: num_def)

lemma sum_part:
  "P \<in> {Got, Holding, Releasing} \<Longrightarrow> num ph P \<le> num ph Got + num ph Holding + num ph Releasing"
  by (cases P) (simp_all add: add_nonneg_nonneg)

lemma sum_two:
  "P \<in> {Got, Holding, Releasing} \<Longrightarrow> Q \<in> {Got, Holding, Releasing} \<Longrightarrow> P \<noteq> Q \<Longrightarrow>
     num ph P + num ph Q \<le> num ph Got + num ph Holding + num ph Releasing"
  by (cases P; cases Q) simp_all

lemma num_pos:
  assumes "finite {t. ph t \<noteq> Out}" and "ph t = P" "P \<noteq> Out"
  shows "1 \<le> num ph P"
proof -
  have "finite {u. ph u = P}" using assms by (intro fin_phase)
  moreover have "t \<in> {u. ph u = P}" using assms by simp
  ultimately have "card {u. ph u = P} \<noteq> 0" by auto
  then show ?thesis by (simp add: num_def)
qed

lemma num_one:
  assumes "finite {t. ph t \<noteq> Out}" and "num ph P \<le> 1" "P \<noteq> Out" and "ph t = P" "ph u = P"
  shows "t = u"
proof -
  have "finite {v. ph v = P}" using assms by (intro fin_phase)
  then show ?thesis using assms(2,4,5) by (auto simp: num_def card_le_Suc0_iff_eq)
qed

lemma num_ge_list:
  assumes "finite {t. ph t \<noteq> Out}" and "distinct ts" and "set ts \<subseteq> {t. ph t = P}" "P \<noteq> Out"
  shows "int (length ts) \<le> num ph P"
proof -
  have "finite {v. ph v = P}" using assms by (intro fin_phase)
  with assms(3) have "card (set ts) \<le> card {v. ph v = P}" by (rule card_mono [rotated])
  with assms(2) show ?thesis by (simp add: num_def distinct_card)
qed

section \<open>The mutex\<close>

inductive mutex_step ::
  "('s \<Rightarrow> nat) \<Rightarrow> ('s \<Rightarrow> (bool \<times> 's) option) \<Rightarrow> ('s \<Rightarrow> 's option) \<Rightarrow> ('s \<Rightarrow> 's \<Rightarrow> bool) \<Rightarrow> nat set \<Rightarrow>
   mutex \<times> (nat \<Rightarrow> lock_phase) \<times> 's \<Rightarrow> mutex \<times> (nat \<Rightarrow> lock_phase) \<times> 's \<Rightarrow> bool"
  for cur acq rel sched T where
  lock_add: "cur s \<in> T \<Longrightarrow> ph (cur s) = Out \<Longrightarrow> mutex_lock_add m = (wait, m') \<Longrightarrow>
    mutex_step cur acq rel sched T (m, ph, s) (m', ph(cur s := (if wait then Wanting else Holding)), s)"
| lock_acquire: "ph (cur s) = Wanting \<Longrightarrow> acq s = Some (waits, s') \<Longrightarrow>
    mutex_step cur acq rel sched T (m, ph, s) (m, ph(cur s := (if waits then Waiting else Holding)), s')"
| lock_resumed: "ph (cur s) = Waiting \<Longrightarrow>
    mutex_step cur acq rel sched T (m, ph, s) (m, ph(cur s := Holding), s)"
| unlock_sub: "ph (cur s) = Holding \<Longrightarrow> mutex_unlock_sub m = (wake, m') \<Longrightarrow>
    mutex_step cur acq rel sched T (m, ph, s) (m', ph(cur s := (if wake then Releasing else Out)), s)"
| unlock_release: "ph (cur s) = Releasing \<Longrightarrow> rel s = Some s' \<Longrightarrow>
    mutex_step cur acq rel sched T (m, ph, s) (m, ph(cur s := Out), s')"
| switch: "sched s s' \<Longrightarrow> mutex_step cur acq rel sched T (m, ph, s) (m, ph, s')"

text \<open>
  The invariant: the count is the number of threads that want the mutex or have it, and when
  it is not zero there is exactly one unit: free in the semaphore, granted to a thread that was
  waiting, held, or on its way back.
\<close>

definition units :: "(nat \<Rightarrow> lock_phase) \<Rightarrow> int \<Rightarrow> nat list \<Rightarrow> int" where
  "units ph c ws = (num ph Waiting - int (length ws)) + num ph Got + num ph Holding + num ph Releasing + max 0 c"

definition mutex_inv ::
  "('s \<Rightarrow> bool) \<Rightarrow> ('s \<Rightarrow> int) \<Rightarrow> ('s \<Rightarrow> nat list) \<Rightarrow> nat set \<Rightarrow> mutex \<times> (nat \<Rightarrow> lock_phase) \<times> 's \<Rightarrow> bool" where
  "mutex_inv ok cnt waiters T x \<longleftrightarrow>
     (case x of (m, ph, s) \<Rightarrow>
        ok s \<and> {t. ph t \<noteq> Out} \<subseteq> T \<and> set (waiters s) \<subseteq> {t. ph t = Waiting} \<and> num ph Got = 0 \<and>
        mx_count m = num ph Wanting + num ph Waiting + num ph Holding \<and>
        units ph (cnt s) (waiters s) = (if mx_count m = 0 then 0 else 1))"

lemma num_le_threads:
  assumes "finite T" and "{t. ph t \<noteq> Out} \<subseteq> T"
  shows "num ph Wanting + num ph Waiting + num ph Holding \<le> int (card T)"
proof -
  have fin: "finite {t. ph t \<noteq> Out}" using assms by (rule finite_subset [rotated])
  let ?S = "\<lambda>P. {t. ph t = P}"
  have f: "finite (?S P)" if "P \<noteq> Out" for P using that fin by (intro fin_phase)
  have "card (?S Wanting \<union> ?S Waiting \<union> ?S Holding) = card (?S Wanting \<union> ?S Waiting) + card (?S Holding)"
    using f by (intro card_Un_disjoint) auto
  also have "card (?S Wanting \<union> ?S Waiting) = card (?S Wanting) + card (?S Waiting)"
    using f by (intro card_Un_disjoint) auto
  finally have "card (?S Wanting \<union> ?S Waiting \<union> ?S Holding) = card (?S Wanting) + card (?S Waiting) + card (?S Holding)" .
  moreover have "card (?S Wanting \<union> ?S Waiting \<union> ?S Holding) \<le> card T"
    using assms by (intro card_mono) auto
  ultimately show ?thesis by (simp add: num_def)
qed

context unit_semaphore
begin

lemma mutex_inv_step:
  assumes step: "mutex_step cur acq rel sched T x y" and inv: "mutex_inv ok cnt waiters T x"
    and T: "finite T" "idle \<notin> T" "int (card T) < 2 ^ 31 - 1"
  shows "mutex_inv ok cnt waiters T y"
  using step inv
proof (cases rule: mutex_step.cases)
  case (lock_add s ph m wait m')
  have i: "ok s" "{t. ph t \<noteq> Out} \<subseteq> T" "set (waiters s) \<subseteq> {t. ph t = Waiting}" "num ph Got = 0"
    "mx_count m = num ph Wanting + num ph Waiting + num ph Holding"
    "units ph (cnt s) (waiters s) = (if mx_count m = 0 then 0 else 1)"
    using inv unfolding lock_add(1) by (simp_all add: mutex_inv_def)
  have fin: "finite {t. ph t \<noteq> Out}" using i(2) T(1) by (rule finite_subset)
  have cur: "cur s \<notin> set (waiters s)" "ph (cur s) \<noteq> Waiting" using cur_free [OF i(1)] lock_add(4) by simp_all
  have le: "mx_count m \<le> int (card T)" unfolding i(5) by (rule num_le_threads [OF T(1) i(2)])
  have nn: "0 \<le> mx_count m" using i(5) num_nonneg [of ph] by (metis add_nonneg_nonneg)
  have m': "wait = (1 \<le> mx_count m)" "mx_count m' = mx_count m + 1"
    using lock_add(5) le nn T(3) by (auto simp: mutex_lock_add_def)
  obtain ph' where ph': "ph' = ph(cur s := (if wait then Wanting else Holding))" by simp
  have n: "num ph' Q = num ph Q + (if (if wait then Wanting else Holding) = Q then 1 else 0)" if "Q \<noteq> Out" for Q
    using num_upd [OF fin that] lock_add(4) that by (simp add: ph')
  have "units ph' (cnt s) (waiters s) = units ph (cnt s) (waiters s) + (if wait then 0 else 1)"
    by (simp add: units_def n)
  then have "units ph' (cnt s) (waiters s) = 1" using i(6) m'(1) nn by (cases wait) auto
  moreover have "mx_count m' = num ph' Wanting + num ph' Waiting + num ph' Holding" using m' i(5) by (simp add: n)
  moreover have "{t. ph' t \<noteq> Out} \<subseteq> T" unfolding ph' using lock_add(3) by (intro phase_threads i(2)) simp
  moreover have "set (waiters s) \<subseteq> {t. ph' t = Waiting}" using i(3) cur by (auto simp: ph')
  ultimately show ?thesis
    unfolding lock_add(2) ph' [symmetric] mutex_inv_def using i(1,4) m'(2) nn by (simp add: n)
next
  case (lock_acquire ph s waits s' m)
  have i: "ok s" "{t. ph t \<noteq> Out} \<subseteq> T" "set (waiters s) \<subseteq> {t. ph t = Waiting}" "num ph Got = 0"
    "mx_count m = num ph Wanting + num ph Waiting + num ph Holding"
    "units ph (cnt s) (waiters s) = (if mx_count m = 0 then 0 else 1)"
    using inv unfolding lock_acquire(1) by (simp_all add: mutex_inv_def)
  have fin: "finite {t. ph t \<noteq> Out}" using i(2) T(1) by (rule finite_subset)
  have "cur s \<in> T" by (rule subsetD [OF i(2)]) (simp add: lock_acquire(3))
  then have cT: "cur s \<in> T" "cur s \<noteq> idle" using T(2) by auto
  obtain ph' where ph': "ph' = ph(cur s := (if waits then Waiting else Holding))" by simp
  have n: "num ph' Q = num ph Q - (if Q = Wanting then 1 else 0) + (if (if waits then Waiting else Holding) = Q then 1 else 0)"
    if "Q \<noteq> Out" for Q
    using num_upd [OF fin that, where t = "cur s"] lock_acquire(3) that by (auto simp: ph')
  have len: "int (length (waiters s)) \<le> num ph Waiting"
    using num_ge_list [OF fin distinct_waiters [OF i(1)] i(3)] by simp
  have lo: "- (2 ^ 31) < cnt s"
  proof -
    have "num ph Waiting \<le> int (card T)"
      using num_le_threads [OF T(1) i(2)] num_nonneg [of ph Wanting] num_nonneg [of ph Holding] by linarith
    with len cnt_waiters [OF i(1)] T(3) show ?thesis by simp
  qed
  have "ok s' \<and> cnt s' = cnt s - 1 \<and> waits = (cnt s \<le> 0) \<and> waiters s' = (if waits then waiters s @ [cur s] else waiters s)"
    using acq_free [OF i(1) cT(2)] acq_wait [OF i(1) cT(2) _ lo] lock_acquire(4) by (cases "1 \<le> cnt s") auto
  then have s': "ok s'" "cnt s' = cnt s - 1" "waits = (cnt s \<le> 0)" "waiters s' = (if waits then waiters s @ [cur s] else waiters s)"
    by blast+
  have "units ph' (cnt s') (waiters s') = units ph (cnt s) (waiters s)"
    using s'(2-4) by (auto simp: units_def n)
  moreover have "mx_count m = num ph' Wanting + num ph' Waiting + num ph' Holding" using i(5) by (simp add: n)
  moreover have "{t. ph' t \<noteq> Out} \<subseteq> T" unfolding ph' using cT by (intro phase_threads i(2)) simp
  moreover have "set (waiters s') \<subseteq> {t. ph' t = Waiting}" using i(3) s'(4) lock_acquire(3) by (auto simp: ph')
  ultimately show ?thesis
    unfolding lock_acquire(2) ph' [symmetric] mutex_inv_def using i(4,6) s'(1) by (simp add: n)
next
  case (lock_resumed ph s m)
  have i: "ok s" "{t. ph t \<noteq> Out} \<subseteq> T" "set (waiters s) \<subseteq> {t. ph t = Waiting}" "num ph Got = 0"
    "mx_count m = num ph Wanting + num ph Waiting + num ph Holding"
    "units ph (cnt s) (waiters s) = (if mx_count m = 0 then 0 else 1)"
    using inv unfolding lock_resumed(1) by (simp_all add: mutex_inv_def)
  have fin: "finite {t. ph t \<noteq> Out}" using i(2) T(1) by (rule finite_subset)
  obtain ph' where ph': "ph' = ph(cur s := Holding)" by simp
  have n: "num ph' Q = num ph Q - (if Q = Waiting then 1 else 0) + (if Holding = Q then 1 else 0)" if "Q \<noteq> Out" for Q
    using num_upd [OF fin that, where t = "cur s"] lock_resumed(3) that by (auto simp: ph')
  have "units ph' (cnt s) (waiters s) = units ph (cnt s) (waiters s)" by (simp add: units_def n)
  moreover have "mx_count m = num ph' Wanting + num ph' Waiting + num ph' Holding" using i(5) by (simp add: n)
  moreover have "set (waiters s) \<subseteq> {t. ph' t = Waiting}" using cur_free [OF i(1)] i(3) by (auto simp: ph')
  moreover have "{t. ph' t \<noteq> Out} \<subseteq> T" unfolding ph' using lock_resumed(3) by (intro phase_threads i(2)) simp
  ultimately show ?thesis
    unfolding lock_resumed(2) ph' [symmetric] mutex_inv_def using i(1,4,6) by (simp add: n)
next
  case (unlock_sub ph s m wake m')
  have i: "ok s" "{t. ph t \<noteq> Out} \<subseteq> T" "set (waiters s) \<subseteq> {t. ph t = Waiting}" "num ph Got = 0"
    "mx_count m = num ph Wanting + num ph Waiting + num ph Holding"
    "units ph (cnt s) (waiters s) = (if mx_count m = 0 then 0 else 1)"
    using inv unfolding unlock_sub(1) by (simp_all add: mutex_inv_def)
  have fin: "finite {t. ph t \<noteq> Out}" using i(2) T(1) by (rule finite_subset)
  have hold: "1 \<le> num ph Holding" using fin unlock_sub(3) by (rule num_pos) simp
  have le: "mx_count m \<le> int (card T)" unfolding i(5) by (rule num_le_threads [OF T(1) i(2)])
  have pos: "1 \<le> mx_count m" using i(5) hold num_nonneg [of ph Wanting] num_nonneg [of ph Waiting] by linarith
  have m': "wake = (1 < mx_count m)" "mx_count m' = mx_count m - 1"
    using unlock_sub(4) le pos T(3) by (auto simp: mutex_unlock_sub_def)
  obtain ph' where ph': "ph' = ph(cur s := (if wake then Releasing else Out))" by simp
  have n: "num ph' Q = num ph Q - (if Q = Holding then 1 else 0) + (if (if wake then Releasing else Out) = Q then 1 else 0)"
    if "Q \<noteq> Out" for Q
    using num_upd [OF fin that, where t = "cur s"] unlock_sub(3) that by (auto simp: ph')
  have "units ph' (cnt s) (waiters s) = units ph (cnt s) (waiters s) - (if wake then 0 else 1)"
    by (simp add: units_def n)
  then have "units ph' (cnt s) (waiters s) = (if mx_count m' = 0 then 0 else 1)" using i(6) m' pos by (cases wake) auto
  moreover have "mx_count m' = num ph' Wanting + num ph' Waiting + num ph' Holding" using m' i(5) by (simp add: n)
  moreover have "set (waiters s) \<subseteq> {t. ph' t = Waiting}" using cur_free [OF i(1)] i(3) by (auto simp: ph')
  moreover have "{t. ph' t \<noteq> Out} \<subseteq> T" unfolding ph' using unlock_sub(3) by (intro phase_threads i(2)) simp
  ultimately show ?thesis
    unfolding unlock_sub(2) ph' [symmetric] mutex_inv_def using i(1,4) by (simp add: n)
next
  case (unlock_release ph s s' m)
  have i: "ok s" "{t. ph t \<noteq> Out} \<subseteq> T" "set (waiters s) \<subseteq> {t. ph t = Waiting}" "num ph Got = 0"
    "mx_count m = num ph Wanting + num ph Waiting + num ph Holding"
    "units ph (cnt s) (waiters s) = (if mx_count m = 0 then 0 else 1)"
    using inv unfolding unlock_release(1) by (simp_all add: mutex_inv_def)
  have fin: "finite {t. ph t \<noteq> Out}" using i(2) T(1) by (rule finite_subset)
  have relp: "1 \<le> num ph Releasing" using fin unlock_release(3) by (rule num_pos) simp
  have len: "int (length (waiters s)) \<le> num ph Waiting"
    using num_ge_list [OF fin distinct_waiters [OF i(1)] i(3)] by simp
  have free: "max 0 (cnt s) = 0"
  proof -
    have "units ph (cnt s) (waiters s) \<le> 1" using i(6) by simp
    then have "max 0 (cnt s) \<le> 0"
      using relp len num_nonneg [of ph Holding] i(4) unfolding units_def by linarith
    then show ?thesis by simp
  qed
  then have "cnt s + 1 < 2 ^ 31" by simp
  from rel_unit [OF i(1) this] unlock_release(4) have s': "ok s'" "cnt s' = cnt s + 1" "waiters s' = tl (waiters s)" by auto
  obtain ph' where ph': "ph' = ph(cur s := Out)" by simp
  have n: "num ph' Q = num ph Q - (if Q = Releasing then 1 else 0)" if "Q \<noteq> Out" for Q
    using num_upd [OF fin that, where t = "cur s"] unlock_release(3) that by (auto simp: ph')
  have "int (length (waiters s')) = int (length (waiters s)) - (if cnt s < 0 then 1 else 0)"
    using cnt_waiters [OF i(1)] s'(3) by (cases "waiters s") auto
  then have "units ph' (cnt s') (waiters s') = units ph (cnt s) (waiters s)"
    using free s'(2) by (auto simp: units_def n)
  moreover have "mx_count m = num ph' Wanting + num ph' Waiting + num ph' Holding" using i(5) by (simp add: n)
  moreover have "set (waiters s') \<subseteq> {t. ph' t = Waiting}"
    using cur_free [OF i(1)] i(3) s'(3) by (cases "waiters s") (auto simp: ph')
  moreover have "{t. ph' t \<noteq> Out} \<subseteq> T" unfolding ph' using unlock_release(3) by (intro phase_threads i(2)) simp
  ultimately show ?thesis
    unfolding unlock_release(2) ph' [symmetric] mutex_inv_def using i(4,6) s'(1) by (simp add: n)
next
  case (switch s s' m ph)
  with inv sched_keeps [of s s'] show ?thesis by (simp add: mutex_inv_def)
qed

lemma mutex_inv_steps:
  assumes "(mutex_step cur acq rel sched T)\<^sup>*\<^sup>* x y" and "mutex_inv ok cnt waiters T x"
    and "finite T" "idle \<notin> T" "int (card T) < 2 ^ 31 - 1"
  shows "mutex_inv ok cnt waiters T y"
  using assms(1,2) by (induction rule: rtranclp_induct) (auto intro: mutex_inv_step [OF _ _ assms(3-5)])

lemma mutex_exclusive:
  assumes "mutex_inv ok cnt waiters T (m, ph, s)" and "finite T"
  shows "ph t = Holding \<Longrightarrow> ph u = Holding \<Longrightarrow> t = u"
    and "mx_count m \<noteq> 0 \<Longrightarrow>
      0 < cnt s \<or> (\<exists>t \<in> T. ph t = Holding \<or> ph t = Releasing \<or> (ph t = Waiting \<and> t \<notin> set (waiters s)))"
proof -
  have i: "ok s" "{t. ph t \<noteq> Out} \<subseteq> T" "set (waiters s) \<subseteq> {t. ph t = Waiting}" "num ph Got = 0"
    "units ph (cnt s) (waiters s) = (if mx_count m = 0 then 0 else 1)"
    using assms(1) by (simp_all add: mutex_inv_def)
  have fin: "finite {t. ph t \<noteq> Out}" using i(2) assms(2) by (rule finite_subset)
  have len: "int (length (waiters s)) \<le> num ph Waiting"
    using num_ge_list [OF fin distinct_waiters [OF i(1)] i(3)] by simp
  have "units ph (cnt s) (waiters s) \<le> 1" using i(5) by simp
  then have "num ph Holding \<le> 1"
    using len num_nonneg [of ph Releasing] max.cobounded1 [of 0 "cnt s"] i(4) unfolding units_def by linarith
  from num_one [OF fin this] show "ph t = Holding \<Longrightarrow> ph u = Holding \<Longrightarrow> t = u" by simp
  assume "mx_count m \<noteq> 0"
  then have one: "units ph (cnt s) (waiters s) = 1" using i(5) by simp
  show "0 < cnt s \<or> (\<exists>t \<in> T. ph t = Holding \<or> ph t = Releasing \<or> (ph t = Waiting \<and> t \<notin> set (waiters s)))"
  proof (rule ccontr)
    assume none: "\<not> (0 < cnt s \<or> (\<exists>t \<in> T. ph t = Holding \<or> ph t = Releasing \<or> (ph t = Waiting \<and> t \<notin> set (waiters s))))"
    have "ph t = Holding \<Longrightarrow> t \<in> T" "ph t = Releasing \<Longrightarrow> t \<in> T" "ph t = Waiting \<Longrightarrow> t \<in> T" for t
      using i(2) by force+
    then have "{t. ph t = Holding} = {}" "{t. ph t = Releasing} = {}" "{t. ph t = Waiting} \<subseteq> set (waiters s)"
      using none by blast+
    then have z: "num ph Holding = 0" "num ph Releasing = 0" "num ph Waiting \<le> int (length (waiters s))"
      by (simp_all add: num_def) (meson card_length card_mono dual_order.trans List.finite_set)
    moreover have "max 0 (cnt s) = 0" using none by simp
    ultimately show False using one i(4) unfolding units_def by linarith
  qed
qed

end

section \<open>The recursive lock\<close>

text \<open>\<open>tid\<close> is the id of a thread; nesting stays below \<open>2 ^ 31\<close>.\<close>

inductive rlock_step ::
  "('s \<Rightarrow> nat) \<Rightarrow> ('s \<Rightarrow> (bool \<times> 's) option) \<Rightarrow> ('s \<Rightarrow> 's option) \<Rightarrow> ('s \<Rightarrow> 's \<Rightarrow> bool) \<Rightarrow> nat set \<Rightarrow> (nat \<Rightarrow> int) \<Rightarrow>
   rlock \<times> (nat \<Rightarrow> lock_phase) \<times> 's \<Rightarrow> rlock \<times> (nat \<Rightarrow> lock_phase) \<times> 's \<Rightarrow> bool"
  for cur acq rel sched T tid where
  lock_enter: "cur s \<in> T \<Longrightarrow> ph (cur s) \<in> {Out, Holding} \<Longrightarrow> tid (cur s) \<noteq> rl_holder l \<Longrightarrow>
    rlock_step cur acq rel sched T tid (l, ph, s) (l, ph(cur s := Wanting), s)"
| lock_nest: "cur s \<in> T \<Longrightarrow> ph (cur s) \<in> {Out, Holding} \<Longrightarrow> tid (cur s) = rl_holder l \<Longrightarrow> rl_recursion l + 1 < 2 ^ 31 \<Longrightarrow>
    rlock_step cur acq rel sched T tid (l, ph, s) (rlock_nest l, ph(cur s := Holding), s)"
| lock_acquire: "ph (cur s) = Wanting \<Longrightarrow> acq s = Some (waits, s') \<Longrightarrow>
    rlock_step cur acq rel sched T tid (l, ph, s) (l, ph(cur s := (if waits then Waiting else Got)), s')"
| lock_resumed: "ph (cur s) = Waiting \<Longrightarrow>
    rlock_step cur acq rel sched T tid (l, ph, s) (l, ph(cur s := Got), s)"
| lock_take: "ph (cur s) = Got \<Longrightarrow>
    rlock_step cur acq rel sched T tid (l, ph, s) (rlock_take (tid (cur s)) l, ph(cur s := Holding), s)"
| unlock_leave: "ph (cur s) = Holding \<Longrightarrow> rlock_leave (tid (cur s)) l = Returns (free, l') \<Longrightarrow>
    rlock_step cur acq rel sched T tid (l, ph, s) (l', ph(cur s := (if free then Releasing else Holding)), s)"
| unlock_release: "ph (cur s) = Releasing \<Longrightarrow> rel s = Some s' \<Longrightarrow>
    rlock_step cur acq rel sched T tid (l, ph, s) (l, ph(cur s := Out), s')"
| switch: "sched s s' \<Longrightarrow> rlock_step cur acq rel sched T tid (l, ph, s) (l, ph, s')"

definition rlock_inv ::
  "('s \<Rightarrow> bool) \<Rightarrow> ('s \<Rightarrow> int) \<Rightarrow> ('s \<Rightarrow> nat list) \<Rightarrow> nat set \<Rightarrow> (nat \<Rightarrow> int) \<Rightarrow> rlock \<times> (nat \<Rightarrow> lock_phase) \<times> 's \<Rightarrow> bool" where
  "rlock_inv ok cnt waiters T tid x \<longleftrightarrow>
     (case x of (l, ph, s) \<Rightarrow>
        ok s \<and> {t. ph t \<noteq> Out} \<subseteq> T \<and> set (waiters s) \<subseteq> {t. ph t = Waiting} \<and>
        units ph (cnt s) (waiters s) = 1 \<and>
        (\<forall>t \<in> T. rl_holder l = tid t \<longleftrightarrow> ph t = Holding) \<and>
        ((\<forall>t. ph t \<noteq> Holding) \<longrightarrow> rl_recursion l = 0) \<and>
        ((\<exists>t. ph t = Holding) \<longrightarrow> 1 \<le> rl_recursion l \<and> rl_recursion l < 2 ^ 31))"

context unit_semaphore
begin

lemma units_one:
  assumes "ok s" and "finite {t. ph t \<noteq> Out}" and "set (waiters s) \<subseteq> {t. ph t = Waiting}"
    and "units ph (cnt s) (waiters s) \<le> 1"
  shows "num ph Got + num ph Holding + num ph Releasing \<le> 1"
    and "ph t \<in> {Got, Holding, Releasing} \<Longrightarrow> cnt s \<le> 0"
proof -
  have len: "int (length (waiters s)) \<le> num ph Waiting"
    using num_ge_list [OF assms(2) distinct_waiters [OF assms(1)] assms(3)] by simp
  then show "num ph Got + num ph Holding + num ph Releasing \<le> 1"
    using assms(4) max.cobounded1 [of 0 "cnt s"] unfolding units_def by linarith
  assume p: "ph t \<in> {Got, Holding, Releasing}"
  then have "1 \<le> num ph (ph t)" by (intro num_pos [OF assms(2)]) auto
  also have "\<dots> \<le> num ph Got + num ph Holding + num ph Releasing" using p by (rule sum_part)
  finally have "1 \<le> num ph Got + num ph Holding + num ph Releasing" .
  with len assms(4) have "max 0 (cnt s) \<le> 0" unfolding units_def by linarith
  then show "cnt s \<le> 0" by simp
qed

lemma only_one:
  assumes "ok s" and fin: "finite {t. ph t \<noteq> Out}" and "set (waiters s) \<subseteq> {t. ph t = Waiting}"
    and "units ph (cnt s) (waiters s) \<le> 1"
    and t: "ph t \<in> {Got, Holding, Releasing}" and u: "ph u \<in> {Got, Holding, Releasing}"
  shows "u = t"
proof -
  have one: "num ph Got + num ph Holding + num ph Releasing \<le> 1" by (rule units_one(1) [OF assms(1-4)])
  have pos: "1 \<le> num ph (ph t)" "1 \<le> num ph (ph u)" using t u by (auto intro!: num_pos [OF fin])
  have same: "ph u = ph t"
    using one pos sum_two [OF t u, of ph] by (cases "ph u = ph t") auto
  have "num ph (ph t) \<le> 1" using one sum_part [OF t, of ph] by linarith
  from num_one [OF fin this] t same show ?thesis by auto
qed

lemma rlock_inv_step:
  assumes step: "rlock_step cur acq rel sched T tid x y" and inv: "rlock_inv ok cnt waiters T tid x"
    and T: "finite T" "idle \<notin> T" "int (card T) < 2 ^ 31 - 1" and tid: "inj_on tid T" "\<forall>t \<in> T. tid t \<noteq> -1"
  shows "rlock_inv ok cnt waiters T tid y"
proof -
  obtain l ph s where x: "x = (l, ph, s)" by (cases x)
  have i: "ok s" "{t. ph t \<noteq> Out} \<subseteq> T" "set (waiters s) \<subseteq> {t. ph t = Waiting}" "units ph (cnt s) (waiters s) = 1"
    "\<forall>t \<in> T. rl_holder l = tid t \<longleftrightarrow> ph t = Holding" "(\<forall>t. ph t \<noteq> Holding) \<longrightarrow> rl_recursion l = 0"
    "(\<exists>t. ph t = Holding) \<longrightarrow> 1 \<le> rl_recursion l \<and> rl_recursion l < 2 ^ 31"
    using inv unfolding x by (simp_all add: rlock_inv_def)
  have fin: "finite {t. ph t \<noteq> Out}" using i(2) T(1) by (rule finite_subset)
  have inT: "ph t \<noteq> Out \<Longrightarrow> t \<in> T" for t using i(2) by blast
  have n: "num (ph(cur s := P)) Q = num ph Q - (if ph (cur s) = Q then 1 else 0) + (if P = Q then 1 else 0)" if "Q \<noteq> Out" for P Q
    using num_upd [OF fin that] by blast
  have free: "cur s \<notin> set (waiters s)" using i(1) by (rule cur_free)
  have le1: "units ph (cnt s) (waiters s) \<le> 1" using i(4) by simp
  note one = only_one [OF i(1) fin i(3) le1]
  have wt: "set (waiters s) \<subseteq> {t. (ph(cur s := P)) t = Waiting}" for P using free i(3) by auto
  have pT: "{t. (ph(cur s := P)) t \<noteq> Out} \<subseteq> T" if "cur s \<in> T" for P using i(2) that by auto
  show ?thesis
    using step unfolding x
  proof (cases rule: rlock_step.cases)
    case lock_enter
    have no: "ph (cur s) \<noteq> Holding" using i(5) lock_enter(2,4) by auto
    then have out: "ph (cur s) = Out" using lock_enter(3) by simp
    have "units (ph(cur s := Wanting)) (cnt s) (waiters s) = 1" using i(4) out by (simp add: units_def n)
    moreover have "(ph(cur s := Wanting)) t = Holding \<longleftrightarrow> ph t = Holding" for t using no by auto
    ultimately show ?thesis
      unfolding lock_enter(1) rlock_inv_def using i(1,5-7) wt [of Wanting] pT [OF lock_enter(2), of Wanting] by auto
  next
    case lock_nest
    have h: "ph (cur s) = Holding" using i(5) lock_nest(2,4) by metis
    then have same: "ph(cur s := Holding) = ph" by (rule fun_upd_idem)
    have "1 \<le> rl_recursion l" using i(7) h by blast
    then have l': "rl_recursion (rlock_nest l) = rl_recursion l + 1" "rl_holder (rlock_nest l) = rl_holder l"
      using lock_nest(5) by (simp_all add: rlock_nest_def)
    have "\<not> (\<forall>t. ph t \<noteq> Holding)" using h by blast
    with \<open>1 \<le> rl_recursion l\<close> lock_nest(5) show ?thesis
      unfolding lock_nest(1) rlock_inv_def same prod.case l' using i(1-5) by simp
  next
    case (lock_acquire waits s')
    have cT: "cur s \<in> T" using lock_acquire(2) by (intro inT) simp
    then have ci: "cur s \<noteq> idle" using T(2) by auto
    have lo: "- (2 ^ 31) < cnt s"
    proof -
      have "int (length (waiters s)) \<le> int (card T)"
      proof -
        have "set (waiters s) \<subseteq> T" using i(2,3) by force
        with T(1) have "card (set (waiters s)) \<le> card T" by (rule card_mono)
        then show ?thesis using distinct_card [OF distinct_waiters [OF i(1)]] by simp
      qed
      with cnt_waiters [OF i(1)] T(3) show ?thesis by simp
    qed
    have "ok s' \<and> cnt s' = cnt s - 1 \<and> waits = (cnt s \<le> 0) \<and> waiters s' = (if waits then waiters s @ [cur s] else waiters s)"
      using acq_free [OF i(1) ci] acq_wait [OF i(1) ci _ lo] lock_acquire(3) by (cases "1 \<le> cnt s") auto
    then have s': "ok s'" "cnt s' = cnt s - 1" "waits = (cnt s \<le> 0)" "waiters s' = (if waits then waiters s @ [cur s] else waiters s)"
      by blast+
    let ?P = "if waits then Waiting else Got"
    have "units (ph(cur s := ?P)) (cnt s') (waiters s') = 1"
      using i(4) s'(2-4) lock_acquire(2) by (auto simp: units_def n)
    moreover have "set (waiters s') \<subseteq> {t. (ph(cur s := ?P)) t = Waiting}" using i(3) s'(4) free by auto
    moreover have "(ph(cur s := ?P)) t = Holding \<longleftrightarrow> ph t = Holding" for t using lock_acquire(2) by auto
    ultimately show ?thesis
      unfolding lock_acquire(1) rlock_inv_def using i(5-7) s'(1) pT [OF cT, of ?P] by auto
  next
    case lock_resumed
    have cT: "cur s \<in> T" using lock_resumed(2) by (intro inT) simp
    have "units (ph(cur s := Got)) (cnt s) (waiters s) = 1" using i(4) lock_resumed(2) by (simp add: units_def n)
    moreover have "(ph(cur s := Got)) t = Holding \<longleftrightarrow> ph t = Holding" for t using lock_resumed(2) by auto
    ultimately show ?thesis
      unfolding lock_resumed(1) rlock_inv_def using i(1,5-7) wt [of Got] pT [OF cT, of Got] by auto
  next
    case lock_take
    have cT: "cur s \<in> T" using lock_take(2) by (intro inT) simp
    have nh: "ph t \<noteq> Holding" for t
    proof
      assume "ph t = Holding"
      with one [of "cur s" t] lock_take(2) show False by auto
    qed
    have "units (ph(cur s := Holding)) (cnt s) (waiters s) = 1" using i(4) lock_take(2) by (simp add: units_def n)
    moreover have "\<forall>t \<in> T. tid (cur s) = tid t \<longleftrightarrow> (ph(cur s := Holding)) t = Holding"
      using nh tid(1) cT by (auto dest: inj_onD)
    ultimately show ?thesis
      unfolding lock_take(1) rlock_inv_def using i(1,6) nh wt [of Holding] pT [OF cT, of Holding] by (auto simp: rlock_take_def)
  next
    case (unlock_leave free l')
    have cT: "cur s \<in> T" using unlock_leave(2) by (intro inT) simp
    have r: "1 \<le> rl_recursion l" "rl_recursion l < 2 ^ 31" using i(7) unlock_leave(2) by blast+
    have l': "free = (rl_recursion l = 1)" "rl_recursion l' = rl_recursion l - 1"
      "rl_holder l' = (if free then -1 else rl_holder l)"
      using unlock_leave(3) r by (auto simp: rlock_leave_def Let_def split: if_splits)
    show ?thesis
    proof (cases free)
      case False
      then have "rl_recursion l \<noteq> 1" "rl_holder l' = rl_holder l" using l' by simp_all
      moreover have same: "ph(cur s := (if free then Releasing else Holding)) = ph"
        using False unlock_leave(2) by (intro fun_upd_idem) simp
      moreover have "\<not> (\<forall>t. ph t \<noteq> Holding)" using unlock_leave(2) by blast
      ultimately show ?thesis
        unfolding unlock_leave(1) rlock_inv_def same prod.case using i(1-5) l'(2) r by simp
    next
      case True
      have nh: "t \<noteq> cur s \<Longrightarrow> ph t \<noteq> Holding" for t using one [of "cur s" t] unlock_leave(2) by auto
      have "units (ph(cur s := Releasing)) (cnt s) (waiters s) = 1" using i(4) unlock_leave(2) by (simp add: units_def n)
      then show ?thesis
        unfolding unlock_leave(1) rlock_inv_def
        using True i(1) l' nh tid(2) wt [of Releasing] pT [OF cT, of Releasing] by auto
    qed
  next
    case (unlock_release s')
    have cT: "cur s \<in> T" using unlock_release(2) by (intro inT) simp
    have "cnt s \<le> 0" using units_one(2) [OF i(1) fin i(3) le1, of "cur s"] unlock_release(2) by simp
    then have "cnt s + 1 < 2 ^ 31" by simp
    from rel_unit [OF i(1) this] unlock_release(3) have s': "ok s'" "cnt s' = cnt s + 1" "waiters s' = tl (waiters s)" by auto
    have "int (length (waiters s')) = int (length (waiters s)) - (if cnt s < 0 then 1 else 0)"
      using cnt_waiters [OF i(1)] s'(3) by (cases "waiters s") auto
    then have "units (ph(cur s := Out)) (cnt s') (waiters s') = 1"
      using i(4) s'(2) \<open>cnt s \<le> 0\<close> unlock_release(2) by (auto simp: units_def n)
    moreover have "set (waiters s') \<subseteq> {t. (ph(cur s := Out)) t = Waiting}"
      using wt [of Out] s'(3) by (cases "waiters s") auto
    moreover have "(ph(cur s := Out)) t = Holding \<longleftrightarrow> ph t = Holding" for t using unlock_release(2) by auto
    ultimately show ?thesis
      unfolding unlock_release(1) rlock_inv_def using i(5-7) s'(1) pT [OF cT, of Out] by auto
  next
    case (switch s')
    with i sched_keeps [OF i(1)] show ?thesis by (simp add: rlock_inv_def)
  qed
qed

lemma rlock_inv_steps:
  assumes "(rlock_step cur acq rel sched T tid)\<^sup>*\<^sup>* x y" and "rlock_inv ok cnt waiters T tid x"
    and "finite T" "idle \<notin> T" "int (card T) < 2 ^ 31 - 1" and "inj_on tid T" "\<forall>t \<in> T. tid t \<noteq> -1"
  shows "rlock_inv ok cnt waiters T tid y"
  using assms(1,2) by (induction rule: rtranclp_induct) (auto intro: rlock_inv_step [OF _ _ assms(3-7)])

end

section \<open>The kernel's semaphores provide it\<close>

text \<open>
  Semaphore \<open>i\<close>, used one unit at a time and without flags. \<open>others\<close>: whatever the rest of the
  kernel does that keeps the kernel's invariant and leaves this semaphore's entry alone.
\<close>

definition lock_sem_ok :: "nat \<Rightarrow> int \<Rightarrow> kt \<Rightarrow> bool" where
  "lock_sem_ok idle i k \<longleftrightarrow>
     kinv idle k \<and> 0 \<le> i \<and> se_id (ks_sems (tm_world k) (sem_slot i)) = i \<and>
     int (length (se_q (ks_sems (tm_world k) (sem_slot i)))) = max 0 (- se_count (ks_sems (tm_world k) (sem_slot i)))"

definition lock_acq :: "(nat \<Rightarrow> int) \<Rightarrow> int \<Rightarrow> kt \<Rightarrow> (bool \<times> kt) option" where
  "lock_acq clock i k =
     (case acquire_sem clock False i k of
        Returns (Done r, k1) \<Rightarrow> if r = 0 then Some (False, k1) else None
      | Returns (Suspended (Some _), k1) \<Rightarrow> Some (True, k1)
      | _ \<Rightarrow> None)"

definition lock_rel :: "(nat \<Rightarrow> int) \<Rightarrow> int \<Rightarrow> kt \<Rightarrow> kt option" where
  "lock_rel clock i k = (case release_sem clock i k of Returns (r, k1) \<Rightarrow> if r = 0 then Some k1 else None | _ \<Rightarrow> None)"

definition others :: "nat \<Rightarrow> int \<Rightarrow> kt \<Rightarrow> kt \<Rightarrow> bool" where
  "others idle i k k' \<longleftrightarrow> kinv idle k' \<and> ks_sems (tm_world k') (sem_slot i) = ks_sems (tm_world k) (sem_slot i)"

text \<open>When the waiters are as many as the missing units, each needs one.\<close>

lemma needs_one:
  assumes "\<forall>t \<in> set ts. 0 < needs s t" and "needed s ts = int (length ts)" and "t \<in> set ts"
  shows "needs s t = 1"
  using assms
proof (induction ts)
  case (Cons u us)
  have "int (length us) \<le> needed s us" if "\<forall>t \<in> set us. 0 < needs s t" for us
    using that by (induction us) auto
  from this [of us] Cons.prems(1,2) have "needs s u = 1" "needed s us = int (length us)" by auto
  with Cons show ?case by auto
qed simp

lemma kernel_unit_semaphore:
  "unit_semaphore (lock_sem_ok idle i) (\<lambda>k. ks_current (tm_world k)) (\<lambda>k. se_count (ks_sems (tm_world k) (sem_slot i)))
     (\<lambda>k. se_q (ks_sems (tm_world k) (sem_slot i))) (lock_acq clock i) (lock_rel clock i) (others idle i) idle"
proof
  fix k :: kt
  let ?e = "ks_sems (tm_world k) (sem_slot i)"
  assume ok: "lock_sem_ok idle i k"
  then have k: "kinv idle k" and i: "0 \<le> i" "se_id ?e = i" and len: "int (length (se_q ?e)) = max 0 (- se_count ?e)"
    by (simp_all add: lock_sem_ok_def)
  have slot: "slot_ok (tm_world k) (sem_slot i)" using k slot_bound by (simp add: kinv_def kernel_ok_def sems_ok_def)
  note live = slot_ok_live [OF slot i(2,1)]
  show "int (length (se_q ?e)) = max 0 (- se_count ?e)" by (rule len)
  show "distinct (se_q ?e)" using live(1) by (simp add: entry_ok_def Let_def)
  show "ks_current (tm_world k) \<notin> set (se_q ?e)" using k by (rule kinvD) (use slot_bound in blast)
  have nt: "no_timeout 0" by (simp add: no_timeout_def)
  have nk: "\<not> killed t 0 s" for t s by (simp add: killed_def)
  {
    assume cur: "ks_current (tm_world k) \<noteq> idle" and c: "1 \<le> se_count ?e"
    then have lo: "- (2 ^ 31) \<le> se_count ?e - 1" by simp
    from acquire_sem_etc_spec [OF k cur nt i _ lo, of clock 0] c obtain k' where
      r: "acquire_sem_etc clock False i 1 0 0 k = Returns (Done 0, k')" "kinv idle k'"
        "tm_world k' = set_sem (sem_slot i) (\<lambda>e. e\<lparr>se_count := se_count e - 1\<rparr>) (tm_world k)" by auto
    have "lock_acq clock i k = Some (False, k')" using r(1) by (simp add: lock_acq_def acquire_sem_def)
    moreover have "lock_sem_ok idle i k'" using r(2,3) i len c by (simp add: lock_sem_ok_def)
    ultimately show "\<exists>k'. lock_acq clock i k = Some (False, k') \<and> lock_sem_ok idle i k' \<and>
        se_count (ks_sems (tm_world k') (sem_slot i)) = se_count ?e - 1 \<and> se_q (ks_sems (tm_world k') (sem_slot i)) = se_q ?e"
      using r(3) by auto
  }
  {
    assume cur: "ks_current (tm_world k) \<noteq> idle" and c: "se_count ?e \<le> 0" "- (2 ^ 31) < se_count ?e"
    then have lo: "- (2 ^ 31) \<le> se_count ?e - 1" by simp
    from acquire_sem_etc_spec [OF k cur nt i _ lo, of clock 0] c nk obtain k' where
      r: "acquire_sem_etc clock False i 1 0 0 k = Returns (Suspended (Some (ks_current (tm_world k))), k')" "kinv idle k'"
        "sem_blocked i 1 (tm_world k) (tm_world k')" by auto
    have e: "ks_sems (tm_world k') (sem_slot i) = ?e\<lparr>se_count := se_count ?e - 1, se_q := se_q ?e @ [ks_current (tm_world k)]\<rparr>"
      using r(3) by (simp add: sem_blocked_def Let_def)
    have "lock_acq clock i k = Some (True, k')" using r(1) by (simp add: lock_acq_def acquire_sem_def)
    moreover have "lock_sem_ok idle i k'" using r(2) i len c by (simp add: lock_sem_ok_def e)
    ultimately show "\<exists>k'. lock_acq clock i k = Some (True, k') \<and> lock_sem_ok idle i k' \<and>
        se_count (ks_sems (tm_world k') (sem_slot i)) = se_count ?e - 1 \<and>
        se_q (ks_sems (tm_world k') (sem_slot i)) = se_q ?e @ [ks_current (tm_world k)]"
      by (intro exI [of _ k']) (simp add: e)
  }
  {
    assume c: "se_count ?e + 1 < 2 ^ 31"
    from release_sem_etc_spec [OF k i _ c, of clock 0] obtain k' where
      r: "release_sem_etc clock i 1 0 k = Returns (0, k')" "kinv idle k'" "sem_released i 1 (tm_world k) (tm_world k')" by auto
    have tl: "unserved (needs (tm_world k)) 1 (se_q ?e) = tl (se_q ?e)"
    proof (cases "se_q ?e")
      case (Cons t q)
      have neg: "se_count ?e < 0" using len Cons by auto
      then have "needed (tm_world k) (se_q ?e) = int (length (se_q ?e))" "\<forall>t \<in> set (se_q ?e). 0 < needs (tm_world k) t"
        using live(1) len by (simp_all add: entry_ok_def Let_def)
      from needs_one [OF this(2,1)] have one: "\<forall>t \<in> set (se_q ?e). needs (tm_world k) t = 1" by blast
      have "unserved (needs (tm_world k)) 0 q = q" using one Cons by (cases q) auto
      with one Cons show ?thesis by simp
    qed simp
    have e: "ks_sems (tm_world k') (sem_slot i) = ?e\<lparr>se_q := tl (se_q ?e), se_count := se_count ?e + 1\<rparr>"
      using r(3) by (simp add: sem_released_def tl Let_def)
    have "lock_rel clock i k = Some k'" using r(1) by (simp add: lock_rel_def release_sem_def)
    moreover have "lock_sem_ok idle i k'" using r(2) i len by (auto simp: lock_sem_ok_def e)
    ultimately show "\<exists>k'. lock_rel clock i k = Some k' \<and> lock_sem_ok idle i k' \<and>
        se_count (ks_sems (tm_world k') (sem_slot i)) = se_count ?e + 1 \<and> se_q (ks_sems (tm_world k') (sem_slot i)) = tl (se_q ?e)"
      by (intro exI [of _ k']) (simp add: e)
  }
  fix k' :: kt
  assume "others idle i k k'"
  with i len show "lock_sem_ok idle i k' \<and> se_count (ks_sems (tm_world k') (sem_slot i)) = se_count ?e \<and>
      se_q (ks_sems (tm_world k') (sem_slot i)) = se_q ?e"
    by (simp add: others_def lock_sem_ok_def)
qed

interpretation ksem: unit_semaphore "lock_sem_ok idle i" "\<lambda>k. ks_current (tm_world k)"
  "\<lambda>k. se_count (ks_sems (tm_world k) (sem_slot i))" "\<lambda>k. se_q (ks_sems (tm_world k) (sem_slot i))"
  "lock_acq clock i" "lock_rel clock i" "others idle i" idle for idle i clock
  by (rule kernel_unit_semaphore)

section \<open>Correctness\<close>

definition mutex_kernel_step :: "(nat \<Rightarrow> int) \<Rightarrow> nat \<Rightarrow> nat set \<Rightarrow> mutex \<times> (nat \<Rightarrow> lock_phase) \<times> kt \<Rightarrow> mutex \<times> (nat \<Rightarrow> lock_phase) \<times> kt \<Rightarrow> bool" where
  "mutex_kernel_step clock idle T x y \<longleftrightarrow>
     mutex_step (\<lambda>k. ks_current (tm_world k)) (lock_acq clock (mx_sem (fst x))) (lock_rel clock (mx_sem (fst x)))
       (others idle (mx_sem (fst x))) T x y"

lemma mutex_step_sem: "mutex_step cur acq rel sched T x y \<Longrightarrow> mx_sem (fst y) = mx_sem (fst x)"
  by (induction rule: mutex_step.induct) (auto simp: mutex_lock_add_def mutex_unlock_sub_def)

lemma mutex_kernel_steps:
  assumes "(mutex_kernel_step clock idle T)\<^sup>*\<^sup>* x y"
  shows "(mutex_step (\<lambda>k. ks_current (tm_world k)) (lock_acq clock (mx_sem (fst x))) (lock_rel clock (mx_sem (fst x)))
       (others idle (mx_sem (fst x))) T)\<^sup>*\<^sup>* x y \<and> mx_sem (fst y) = mx_sem (fst x)"
  using assms
proof (induction rule: rtranclp_induct)
  case (step y z)
  from step.hyps(2) step.IH have "mutex_step (\<lambda>k. ks_current (tm_world k)) (lock_acq clock (mx_sem (fst x)))
      (lock_rel clock (mx_sem (fst x))) (others idle (mx_sem (fst x))) T y z"
    by (simp add: mutex_kernel_step_def)
  with step.IH mutex_step_sem [OF this] show ?case by (auto intro: rtranclp.rtrancl_into_rtrancl)
qed simp

lemma num_Out: "P \<noteq> Out \<Longrightarrow> num (\<lambda>t. Out) P = 0"
  by (simp add: num_def)

text \<open>
  (C19) The mutex on the kernel's semaphores: threads that run the steps of \<open>mutex_lock\<close> and
  \<open>mutex_unlock\<close>, in any order and between any other work of the kernel, never hold it
  together. While the count is not zero there is a thread that holds it, is giving it back or
  was granted it, or a free unit of the semaphore: no wake-up is lost.
\<close>

theorem mutex_mutual_exclusion:
  assumes "lock_sem_ok idle (mx_sem m0) k0" and "mx_count m0 = 0"
    and "se_count (ks_sems (tm_world k0) (sem_slot (mx_sem m0))) = 0"
    and "finite T" "idle \<notin> T" "int (card T) < 2 ^ 31 - 1"
    and "(mutex_kernel_step clock idle T)\<^sup>*\<^sup>* (m0, \<lambda>t. Out, k0) (m, ph, k)"
  shows "(\<forall>t u. ph t = Holding \<and> ph u = Holding \<longrightarrow> t = u) \<and>
         mx_count m = num ph Wanting + num ph Waiting + num ph Holding \<and>
         (mx_count m \<noteq> 0 \<longrightarrow>
            (let e = ks_sems (tm_world k) (sem_slot (mx_sem m))
             in 0 < se_count e \<or> (\<exists>t \<in> T. ph t = Holding \<or> ph t = Releasing \<or> (ph t = Waiting \<and> t \<notin> set (se_q e)))))"
proof -
  let ?i = "mx_sem m0"
  have q: "se_q (ks_sems (tm_world k0) (sem_slot ?i)) = []" using assms(1,3) by (simp add: lock_sem_ok_def)
  have inv0: "mutex_inv (lock_sem_ok idle ?i) (\<lambda>k. se_count (ks_sems (tm_world k) (sem_slot ?i)))
      (\<lambda>k. se_q (ks_sems (tm_world k) (sem_slot ?i))) T (m0, \<lambda>t. Out, k0)"
    using assms(1-3) q by (simp add: mutex_inv_def units_def num_Out)
  from mutex_kernel_steps [OF assms(7)] have steps: "(mutex_step (\<lambda>k. ks_current (tm_world k)) (lock_acq clock ?i) (lock_rel clock ?i)
      (others idle ?i) T)\<^sup>*\<^sup>* (m0, \<lambda>t. Out, k0) (m, ph, k)" and sem: "mx_sem m = ?i" by simp_all
  from ksem.mutex_inv_steps [OF steps inv0 assms(4-6)]
  have inv: "mutex_inv (lock_sem_ok idle ?i) (\<lambda>k. se_count (ks_sems (tm_world k) (sem_slot ?i)))
      (\<lambda>k. se_q (ks_sems (tm_world k) (sem_slot ?i))) T (m, ph, k)" .
  from ksem.mutex_exclusive [OF inv assms(4)] inv show ?thesis
    unfolding sem by (auto simp: mutex_inv_def Let_def)
qed

text \<open>The small system with semaphore 0 free of waiters, for a mutex and for a recursive lock.\<close>

definition demo_lock_ks :: "int \<Rightarrow> ks" where
  "demo_lock_ks c = demo_ks\<lparr>
     ks_sems := (ks_sems demo_ks)(0 := \<lparr>se_id = 0, se_count = c, se_q = [], se_name = Some [], se_owner = 1\<rparr>),
     ks_next_sem := 1\<rparr>"

lemma demo_lock_sem_ok:
  assumes "0 \<le> c" "c < 2 ^ 31"
  shows "lock_sem_ok 0 0 (demo_kt (demo_lock_ks c))"
proof -
  let ?s = "demo_lock_ks c"
  have f: "ks_thread ?s t = (if t = 0 then demo_thread 0 0 THREAD_STATE_READY else if t = 1 then demo_thread 1 10 THREAD_STATE_RUNNING
      else demo_thread (int t) 10 THREAD_STATE_SUSPENDED)" "ks_run_q ?s = (\<lambda>p. if p = 0 then [0] else [])" "ks_current ?s = 1"
    "ks_sems ?s n = (if n = 0 then \<lparr>se_id = 0, se_count = c, se_q = [], se_name = Some [], se_owner = 1\<rparr>
       else \<lparr>se_id = -1, se_count = 0, se_q = [], se_name = None, se_owner = 0\<rparr>)" "ks_sems_active ?s" "ks_next_sem ?s = 1" for t n
    by (simp_all add: demo_lock_ks_def demo_ks_def)
  have st: "th_state (ks_thread ?s t) = (if t = 0 then THREAD_STATE_READY else if t = 1 then THREAD_STATE_RUNNING
      else THREAD_STATE_SUSPENDED)" for t
    by (simp add: f demo_thread_def)
  have e: "eff ?s t = (if t \<le> 1 then THREAD_STATE_READY else THREAD_STATE_SUSPENDED)" for t
    by (auto simp: eff_def st) (simp_all add: f demo_thread_def)
  have "placed [] ?s" unfolding placed_def f(2,3) e st by (auto simp: THREAD_MAX_PRIORITY_def)
  moreover have "waiting_ok ?s" unfolding waiting_ok_def e f(4) by auto
  moreover have "slot_ok ?s n" for n
    by (cases "n = 0") (use assms in \<open>simp_all add: slot_ok_def entry_ok_def f(4,6) Let_def\<close>)
  then have "sems_ok ?s" by (simp add: sems_ok_def f)
  moreover have "sched_ok (demo_kt ?s) (\<lambda>c. [])" by (rule demo_sched_ok) (simp add: f demo_thread_def)
  ultimately have "kinv 0 (demo_kt ?s)" using e by (auto simp: kinv_def kernel_ok_def f)
  then show ?thesis using assms by (simp add: lock_sem_ok_def f)
qed

lemma demo_lock_current [simp]: "ks_current (demo_lock_ks c) = 1"
  by (simp add: demo_lock_ks_def demo_ks_def)

lemma demo_lock_count: "se_count (ks_sems (tm_world (demo_kt (demo_lock_ks c))) (sem_slot 0)) = c"
  by (simp add: demo_lock_ks_def)

theorem mutex_mutual_exclusion_witness:
  "let m = \<lparr>mx_count = 1, mx_sem = 0\<rparr>; ph = (\<lambda>t. Out)(1 := Holding)
   in mutex_lock_add \<lparr>mx_count = 0, mx_sem = 0\<rparr> = (False, m) \<and> mx_count m = num ph Wanting + num ph Waiting + num ph Holding"
proof -
  let ?free = "\<lparr>mx_count = 0, mx_sem = 0\<rparr>" and ?m = "\<lparr>mx_count = 1, mx_sem = 0\<rparr>"
  let ?k = "demo_kt (demo_lock_ks 0)"
  have cur: "ks_current (tm_world ?k) = 1" by simp
  have add: "mutex_lock_add ?free = (False, ?m)" by (simp add: mutex_lock_add_def)
  have "mutex_kernel_step (\<lambda>n. 5) 0 {1} (?free, \<lambda>t. Out, ?k)
      (?m, (\<lambda>t. Out)(ks_current (tm_world ?k) := (if False then Wanting else Holding)), ?k)"
    unfolding mutex_kernel_step_def by (rule mutex_step.lock_add) (simp_all add: add)
  then have step: "(mutex_kernel_step (\<lambda>n. 5) 0 {1})\<^sup>*\<^sup>* (?free, \<lambda>t. Out, ?k) (?m, (\<lambda>t. Out)(1 := Holding), ?k)"
    unfolding cur by simp
  have "lock_sem_ok 0 (mx_sem ?free) ?k" "mx_count ?free = 0"
    "se_count (ks_sems (tm_world ?k) (sem_slot (mx_sem ?free))) = 0" "finite {1::nat}" "0 \<notin> {1::nat}" "int (card {1::nat}) < 2 ^ 31 - 1"
    using demo_lock_sem_ok [of 0] demo_lock_count [of 0] by simp_all
  from mutex_mutual_exclusion [OF this step] add show ?thesis by (simp add: Let_def)
qed

definition rlock_kernel_step :: "(nat \<Rightarrow> int) \<Rightarrow> nat \<Rightarrow> nat set \<Rightarrow> (nat \<Rightarrow> int) \<Rightarrow> rlock \<times> (nat \<Rightarrow> lock_phase) \<times> kt \<Rightarrow> rlock \<times> (nat \<Rightarrow> lock_phase) \<times> kt \<Rightarrow> bool" where
  "rlock_kernel_step clock idle T tid x y \<longleftrightarrow>
     rlock_step (\<lambda>k. ks_current (tm_world k)) (lock_acq clock (rl_sem (fst x))) (lock_rel clock (rl_sem (fst x)))
       (others idle (rl_sem (fst x))) T tid x y"

lemma rlock_step_sem: "rlock_step cur acq rel sched T tid x y \<Longrightarrow> rl_sem (fst y) = rl_sem (fst x)"
  by (induction rule: rlock_step.induct) (auto simp: rlock_nest_def rlock_take_def rlock_leave_def Let_def split: if_splits)

lemma rlock_kernel_steps:
  assumes "(rlock_kernel_step clock idle T tid)\<^sup>*\<^sup>* x y"
  shows "(rlock_step (\<lambda>k. ks_current (tm_world k)) (lock_acq clock (rl_sem (fst x))) (lock_rel clock (rl_sem (fst x)))
       (others idle (rl_sem (fst x))) T tid)\<^sup>*\<^sup>* x y \<and> rl_sem (fst y) = rl_sem (fst x)"
  using assms
proof (induction rule: rtranclp_induct)
  case (step y z)
  from step.hyps(2) step.IH have "rlock_step (\<lambda>k. ks_current (tm_world k)) (lock_acq clock (rl_sem (fst x)))
      (lock_rel clock (rl_sem (fst x))) (others idle (rl_sem (fst x))) T tid y z"
    by (simp add: rlock_kernel_step_def)
  with step.IH rlock_step_sem [OF this] show ?case by (auto intro: rtranclp.rtrancl_into_rtrancl)
qed simp

text \<open>
  (C20) The recursive lock on the kernel's semaphores: at most one thread holds it, the holder
  field names exactly that thread, its depth is at least one while it is held and zero
  otherwise, and an unlock by the holder never panics and frees the lock exactly at depth one.
\<close>

theorem recursive_lock_exclusion:
  assumes "lock_sem_ok idle (rl_sem l0) k0" and "rl_holder l0 = -1" "rl_recursion l0 = 0"
    and "se_count (ks_sems (tm_world k0) (sem_slot (rl_sem l0))) = 1"
    and "finite T" "idle \<notin> T" "int (card T) < 2 ^ 31 - 1" and "inj_on tid T" "\<forall>t \<in> T. tid t \<noteq> -1"
    and "(rlock_kernel_step clock idle T tid)\<^sup>*\<^sup>* (l0, \<lambda>t. Out, k0) (l, ph, k)"
  shows "(\<forall>t u. ph t = Holding \<and> ph u = Holding \<longrightarrow> t = u) \<and>
         (\<forall>t \<in> T. rl_holder l = tid t \<longleftrightarrow> ph t = Holding) \<and>
         ((\<forall>t. ph t \<noteq> Holding) \<longrightarrow> rl_recursion l = 0) \<and>
         (\<forall>t \<in> T. ph t = Holding \<longrightarrow> 1 \<le> recursive_lock_get_recursion (tid t) l \<and>
            (\<exists>l'. rlock_leave (tid t) l = Returns (rl_recursion l = 1, l') \<and> rl_recursion l' = rl_recursion l - 1))"
proof -
  let ?i = "rl_sem l0"
  have q: "se_q (ks_sems (tm_world k0) (sem_slot ?i)) = []" using assms(1,4) by (simp add: lock_sem_ok_def)
  have inv0: "rlock_inv (lock_sem_ok idle ?i) (\<lambda>k. se_count (ks_sems (tm_world k) (sem_slot ?i)))
      (\<lambda>k. se_q (ks_sems (tm_world k) (sem_slot ?i))) T tid (l0, \<lambda>t. Out, k0)"
    using assms(1-4,9) q by (auto simp: rlock_inv_def units_def num_Out)
  from rlock_kernel_steps [OF assms(10)] have steps: "(rlock_step (\<lambda>k. ks_current (tm_world k)) (lock_acq clock ?i) (lock_rel clock ?i)
      (others idle ?i) T tid)\<^sup>*\<^sup>* (l0, \<lambda>t. Out, k0) (l, ph, k)" by simp
  from ksem.rlock_inv_steps [OF steps inv0 assms(5-9)]
  have inv: "lock_sem_ok idle ?i k" "{t. ph t \<noteq> Out} \<subseteq> T" "set (se_q (ks_sems (tm_world k) (sem_slot ?i))) \<subseteq> {t. ph t = Waiting}"
    "units ph (se_count (ks_sems (tm_world k) (sem_slot ?i))) (se_q (ks_sems (tm_world k) (sem_slot ?i))) = 1"
    "\<forall>t \<in> T. rl_holder l = tid t \<longleftrightarrow> ph t = Holding" "(\<forall>t. ph t \<noteq> Holding) \<longrightarrow> rl_recursion l = 0"
    "(\<exists>t. ph t = Holding) \<longrightarrow> 1 \<le> rl_recursion l \<and> rl_recursion l < 2 ^ 31"
    by (simp_all add: rlock_inv_def)
  have fin: "finite {t. ph t \<noteq> Out}" using inv(2) assms(5) by (rule finite_subset)
  have excl: "t = u" if "ph t = Holding" "ph u = Holding" for t u
    using ksem.only_one [OF inv(1) fin inv(3)] inv(4) that by simp
  have leave: "1 \<le> recursive_lock_get_recursion (tid t) l \<and>
      (\<exists>l'. rlock_leave (tid t) l = Returns (rl_recursion l = 1, l') \<and> rl_recursion l' = rl_recursion l - 1)"
    if t: "t \<in> T" "ph t = Holding" for t
  proof -
    have h: "rl_holder l = tid t" "1 \<le> rl_recursion l" "rl_recursion l < 2 ^ 31" using inv(5,7) t by blast+
    then have "i32 (rl_recursion l - 1) = rl_recursion l - 1" by simp
    with h show ?thesis by (simp add: recursive_lock_get_recursion_def rlock_leave_def Let_def)
  qed
  show ?thesis using excl inv(5,6) leave by blast
qed

theorem recursive_lock_exclusion_witness:
  "let l = \<lparr>rl_holder = -1, rl_recursion = 0, rl_sem = 0\<rparr>; ph = (\<lambda>t. Out)(1 := Wanting)
   in (\<forall>t u. ph t = Holding \<and> ph u = Holding \<longrightarrow> t = u) \<and> recursive_lock_get_recursion 1 l = -1"
proof -
  let ?l = "\<lparr>rl_holder = -1, rl_recursion = 0, rl_sem = 0\<rparr>" and ?k = "demo_kt (demo_lock_ks 1)"
  have cur: "ks_current (tm_world ?k) = 1" by simp
  have "rlock_kernel_step (\<lambda>n. 5) 0 {1} int (?l, \<lambda>t. Out, ?k) (?l, (\<lambda>t. Out)(ks_current (tm_world ?k) := Wanting), ?k)"
    unfolding rlock_kernel_step_def by (rule rlock_step.lock_enter) simp_all
  then have step: "(rlock_kernel_step (\<lambda>n. 5) 0 {1} int)\<^sup>*\<^sup>* (?l, \<lambda>t. Out, ?k) (?l, (\<lambda>t. Out)(1 := Wanting), ?k)"
    unfolding cur by simp
  have "lock_sem_ok 0 (rl_sem ?l) ?k" "rl_holder ?l = -1" "rl_recursion ?l = 0"
    "se_count (ks_sems (tm_world ?k) (sem_slot (rl_sem ?l))) = 1" "finite {1::nat}" "0 \<notin> {1::nat}" "int (card {1::nat}) < 2 ^ 31 - 1"
    "inj_on int {1}" "\<forall>t \<in> {1}. int t \<noteq> -1"
    using demo_lock_sem_ok [of 1] demo_lock_count [of 1] by simp_all
  from recursive_lock_exclusion [OF this step] show ?thesis by (simp add: recursive_lock_get_recursion_def Let_def)
qed

end
