(* ===== verification/Port.thy ===== *)
theory Port
  imports Sem_Main Cbuf_Props
begin

text \<open>
  The ports of \<open>port.c\<close>: bounded queues of messages. A port has a ring of message slots, the
  semaphore \<open>read_sem\<close> that counts the messages and \<open>write_sem\<close> that counts the empty slots; the
  bytes of a message are a chain of \<open>cbuf.c\<close>. A call that has to wait leaves at the semaphore;
  what it does when it runs again is the second half of the call.
\<close>

section \<open>State\<close>

definition MAX_PORTS :: nat where
  "MAX_PORTS = 4096"

definition MAX_QUEUE_LENGTH :: int where
  "MAX_QUEUE_LENGTH = 4096"

definition PORT_MAX_MESSAGE_SIZE :: nat where
  "PORT_MAX_MESSAGE_SIZE = 65536"

definition PORT_FLAG_USE_USER_MEMCPY :: "32 word" where
  "PORT_FLAG_USE_USER_MEMCPY = 0x80000000"

record port_msg =
  pm_code :: int
  pm_cbuf :: "nat ptr"
  pm_len :: nat

text \<open>\<open>pe_queue\<close> is \<open>None\<close> when the queue is not allocated; \<open>delete_port\<close> frees it.\<close>

record port_entry =
  pe_id :: int
  pe_owner :: int
  pe_capacity :: int
  pe_name :: "byte list ptr"
  pe_read_sem :: int
  pe_write_sem :: int
  pe_head :: int
  pe_tail :: int
  pe_total :: int
  pe_closed :: bool
  pe_queue :: "port_msg list ptr"

text \<open>
  The kernel, its buffers, its memory and the memory of the current process. \<open>pt_leaked\<close> counts
  the blocks and chains that nobody can free any more, \<open>pt_freed_twice\<close> the blocks given back twice.
\<close>

record ports =
  pt_entry :: "nat \<Rightarrow> port_entry"
  pt_active :: bool
  pt_next :: int
  pt_kernel :: kt
  pt_cbufs :: cbufst
  pt_kmem :: "nat \<Rightarrow> byte"
  pt_umem :: umem
  pt_leaked :: nat
  pt_freed_twice :: nat

definition port_slot :: "int \<Rightarrow> nat" where
  "port_slot i = nat (i mod int MAX_PORTS)"

definition set_port :: "nat \<Rightarrow> (port_entry \<Rightarrow> port_entry) \<Rightarrow> ports \<Rightarrow> ports" where
  "set_port n f p = p\<lparr>pt_entry := (pt_entry p)(n := f (pt_entry p n))\<rparr>"

definition the_port :: "int \<Rightarrow> ports \<Rightarrow> port_entry" where
  "the_port i p = pt_entry p (port_slot i)"

definition port_init :: "int \<Rightarrow> (nat \<Rightarrow> port_entry) \<Rightarrow> ports \<Rightarrow> ports outcome" where
  "port_init region table p =
     (if region < 0 then Faults
      else Returns (p\<lparr>pt_entry := (\<lambda>i. (table i)\<lparr>pe_id := -1\<rparr>), pt_active := True\<rparr>))"

section \<open>Creating, closing and deleting\<close>

definition default_port_name :: "byte list" where
  "default_port_name = map of_char ''default_port_name''"

definition next_port_id :: "nat \<Rightarrow> int \<Rightarrow> int" where
  "next_port_id i next_port =
     (if crem next_port (int MAX_PORTS) \<le> int i
      then i32 (next_port + (int i - crem next_port (int MAX_PORTS)))
      else i32 (next_port + (int MAX_PORTS - (crem next_port (int MAX_PORTS) - int i))))"

text \<open>
  \<open>mem\<close>: whether the allocations of the name, the queue and the two semaphores' names succeed;
  \<open>junk\<close>: what the new queue's memory held, which the code does not clear. The entry keeps the
  field \<open>closed\<close> of the slot's last owner.
\<close>

record port_mem =
  mem_name :: bool
  mem_queue :: bool
  mem_read_sem :: bool
  mem_write_sem :: bool

definition port_overrun :: "byte list ptr \<Rightarrow> nat" where
  "port_overrun name =
     (case name of None \<Rightarrow> 0 | Some c \<Rightarrow> SYS_MAX_OS_NAME_LEN - min (length c + 1) SYS_MAX_OS_NAME_LEN)"

definition create_port ::
  "(nat \<Rightarrow> int) \<Rightarrow> port_mem \<Rightarrow> (nat \<Rightarrow> port_msg) \<Rightarrow> int \<Rightarrow> int \<Rightarrow> byte list ptr \<Rightarrow> ports \<Rightarrow> (int \<times> ports) outcome" where
  "create_port clock mem junk owner queue_length name p =
     (if \<not> pt_active p then Returns (B_BAD_PORT_ID, p)
      else if \<not> mem_name mem then Returns (ENOMEM, p)
      else
        (let temp_name = (case name of Some c \<Rightarrow> take (SYS_MAX_OS_NAME_LEN - 1) c | None \<Rightarrow> default_port_name);
             p1 = p\<lparr>pt_kernel := in_world (\<lambda>s. s\<lparr>ks_overrun := ks_overrun s + port_overrun name\<rparr>) (pt_kernel p)\<rparr>
         in if queue_length < 1 \<or> MAX_QUEUE_LENGTH < queue_length
            then Returns (EINVAL, p1\<lparr>pt_leaked := pt_leaked p1 + 1\<rparr>)
            else if \<not> mem_queue mem then Returns (ENOMEM, p1)
            else
              (let (sem_r, s2) = create_sem_etc (mem_read_sem mem) 0 (Some temp_name) (-1) (tm_world (pt_kernel p1));
                   k2 = in_world (\<lambda>_. s2) (pt_kernel p1)
               in if sem_r < 0 then Returns (sem_r, p1\<lparr>pt_kernel := k2\<rparr>)
                  else
                    (let (sem_w, s3) = create_sem_etc (mem_write_sem mem) queue_length (Some temp_name) (-1) (tm_world k2);
                         k3 = in_world (\<lambda>_. s3) k2
                     in if sem_w < 0
                        then obind (delete_sem clock sem_r k3) (\<lambda>(_, k4). Returns (sem_w, p1\<lparr>pt_kernel := k4\<rparr>))
                        else
                          (case find (\<lambda>i. pe_id (pt_entry p i) = -1) [0..<MAX_PORTS] of
                             Some i \<Rightarrow>
                               (let new = next_port_id i (pt_next p);
                                    p3 = p1\<lparr>pt_kernel := k3, pt_next := i32 (new + 1)\<rparr>
                                in Returns (new, set_port i (\<lambda>e. e\<lparr>pe_id := new, pe_capacity := queue_length,
                                     pe_name := Some temp_name, pe_read_sem := sem_r, pe_write_sem := sem_w,
                                     pe_queue := Some (map junk [0..<nat queue_length]), pe_head := 0, pe_tail := 0,
                                     pe_total := 0, pe_owner := owner\<rparr>) p3))
                           | None \<Rightarrow>
                               obind (delete_sem clock sem_w k3) (\<lambda>(_, k4).
                                 obind (delete_sem clock sem_r k4) (\<lambda>(_, k5).
                                   Returns (B_NO_MORE_PORTS, p1\<lparr>pt_kernel := k5, pt_freed_twice := pt_freed_twice p1 + 2\<rparr>))))))))"

definition port_lookup_fails :: "int \<Rightarrow> ports \<Rightarrow> bool" where
  "port_lookup_fails i p \<longleftrightarrow> \<not> pt_active p \<or> i < 0 \<or> pe_id (the_port i p) \<noteq> i"

definition close_port :: "int \<Rightarrow> ports \<Rightarrow> int \<times> ports" where
  "close_port i p =
     (if port_lookup_fails i p then (B_BAD_PORT_ID, p)
      else (B_NO_ERROR, set_port (port_slot i) (\<lambda>e. e\<lparr>pe_closed := True\<rparr>) p))"

fun free_msgs :: "port_msg list \<Rightarrow> cbufst \<Rightarrow> cbufst outcome" where
  "free_msgs [] c = Returns c"
| "free_msgs (m # ms) c = obind (cbuf_free_chain (pm_cbuf m) c) (free_msgs ms)"

definition delete_port :: "(nat \<Rightarrow> int) \<Rightarrow> int \<Rightarrow> ports \<Rightarrow> (int \<times> ports) outcome" where
  "delete_port clock i p =
     (if port_lookup_fails i p then Returns (B_BAD_PORT_ID, p)
      else
        (let e = the_port i p;
             p1 = set_port (port_slot i) (\<lambda>e. e\<lparr>pe_id := -1, pe_name := None, pe_queue := None\<rparr>) p
         in case pe_queue e of
              None \<Rightarrow> Faults
            | Some q \<Rightarrow>
                if int (length q) < pe_capacity e then Faults
                else obind (free_msgs (take (nat (pe_capacity e)) q) (pt_cbufs p1)) (\<lambda>c.
                  obind (delete_sem clock (pe_read_sem e) (pt_kernel p1)) (\<lambda>(_, k1).
                    obind (delete_sem clock (pe_write_sem e) k1) (\<lambda>(_, k2).
                      Returns (B_NO_ERROR, p1\<lparr>pt_cbufs := c, pt_kernel := k2\<rparr>))))))"

fun delete_ports_loop :: "(nat \<Rightarrow> int) \<Rightarrow> int \<Rightarrow> nat list \<Rightarrow> int \<Rightarrow> ports \<Rightarrow> (int \<times> ports) outcome" where
  "delete_ports_loop clock owner [] n p = Returns (n, p)"
| "delete_ports_loop clock owner (i # is) n p =
     (let e = pt_entry p i
      in if pe_id e \<noteq> -1 \<and> pe_owner e = owner
         then obind (delete_port clock (pe_id e) p) (\<lambda>(_, p1). delete_ports_loop clock owner is (n + 1) p1)
         else delete_ports_loop clock owner is n p)"

definition delete_owned_ports :: "(nat \<Rightarrow> int) \<Rightarrow> int \<Rightarrow> ports \<Rightarrow> (int \<times> ports) outcome" where
  "delete_owned_ports clock owner p =
     (if \<not> pt_active p then Returns (B_BAD_PORT_ID, p) else delete_ports_loop clock owner [0..<MAX_PORTS] 0 p)"

definition set_port_owner :: "int \<Rightarrow> int \<Rightarrow> ports \<Rightarrow> int \<times> ports" where
  "set_port_owner i proc p =
     (if port_lookup_fails i p then (B_BAD_PORT_ID, p)
      else (B_NO_ERROR, set_port (port_slot i) (\<lambda>e. e\<lparr>pe_owner := proc\<rparr>) p))"

section \<open>Information\<close>

text \<open>Every slot's name is compared, the unused slots' (whose name is \<open>NULL\<close>) as well.\<close>

fun find_name :: "byte list \<Rightarrow> nat list \<Rightarrow> ports \<Rightarrow> int outcome" where
  "find_name name [] p = Returns B_BAD_PORT_ID"
| "find_name name (i # is) p =
     (case pe_name (pt_entry p i) of
        None \<Rightarrow> Faults
      | Some c \<Rightarrow> if c = name then Returns (pe_id (pt_entry p i)) else find_name name is p)"

definition find_port :: "byte list ptr \<Rightarrow> ports \<Rightarrow> int outcome" where
  "find_port name p =
     (if \<not> pt_active p then Returns B_BAD_PORT_ID
      else case name of None \<Rightarrow> Returns B_BAD_PORT_ID | Some c \<Rightarrow> find_name c [0..<MAX_PORTS] p)"

text \<open>
  The bytes written to \<open>info->name\<close> end without a zero. A count that could not be read leaves
  the field as it was.
\<close>

record port_info =
  pi_port :: int
  pi_name :: "byte list"
  pi_capacity :: int
  pi_queue_count :: int
  pi_total :: int

definition fill_port_info :: "port_entry \<Rightarrow> port_info \<Rightarrow> ports \<Rightarrow> port_info outcome" where
  "fill_port_info e info p =
     (case pe_name e of
        None \<Rightarrow> Faults
      | Some c \<Rightarrow>
          Returns (info\<lparr>pi_port := pe_id e, pi_name := take (SYS_MAX_OS_NAME_LEN - 1) c, pi_capacity := pe_capacity e,
             pi_queue_count := (case get_sem_count (pe_read_sem e) True (tm_world (pt_kernel p)) of
                                  (_, Some n) \<Rightarrow> n | (_, None) \<Rightarrow> pi_queue_count info),
             pi_total := pe_total e\<rparr>))"

definition get_port_info :: "int \<Rightarrow> port_info ptr \<Rightarrow> ports \<Rightarrow> (int \<times> port_info ptr) outcome" where
  "get_port_info i info p =
     (if \<not> pt_active p then Returns (B_BAD_PORT_ID, info)
      else case info of
        None \<Rightarrow> Returns (EINVAL, info)
      | Some x \<Rightarrow>
          if port_lookup_fails i p then Returns (B_BAD_PORT_ID, info)
          else obind (fill_port_info (the_port i p) x p) (\<lambda>y. Returns (B_NO_ERROR, Some y)))"

text \<open>The cookie is the slot to start from; a negative one indexes in front of the table.\<close>

definition get_next_port_info ::
  "int \<Rightarrow> int ptr \<Rightarrow> port_info \<Rightarrow> ports \<Rightarrow> (int \<times> int ptr \<times> port_info) outcome" where
  "get_next_port_info proc cookie info p =
     (if \<not> pt_active p then Returns (B_BAD_PORT_ID, cookie, info)
      else case cookie of
        None \<Rightarrow> Returns (EINVAL, cookie, info)
      | Some c \<Rightarrow>
          if int MAX_PORTS \<le> c then Returns (B_BAD_PORT_ID, cookie, info)
          else if c < 0 then Faults
          else
            (let info1 = info\<lparr>pi_port := -1\<rparr>
             in case find (\<lambda>i. pe_id (pt_entry p i) \<noteq> -1 \<and> pe_owner (pt_entry p i) = proc) [nat c..<MAX_PORTS] of
                  None \<Rightarrow> Returns (B_BAD_PORT_ID, cookie, info1)
                | Some i \<Rightarrow> obind (fill_port_info (pt_entry p i) info1 p) (\<lambda>y.
                    Returns (B_NO_ERROR, Some (int i + 1), y))))"

definition port_count :: "int \<Rightarrow> int \<Rightarrow> ports \<Rightarrow> int" where
  "port_count stack i p =
     (if port_lookup_fails i p then B_BAD_PORT_ID
      else (let c = (case snd (get_sem_count (pe_read_sem (the_port i p)) True (tm_world (pt_kernel p))) of
                       Some n \<Rightarrow> n | None \<Rightarrow> stack)
            in if c < 0 then 0 else c))"

section \<open>Waiting for a message\<close>

text \<open>
  \<open>PWaits w\<close>: the caller waits in \<open>acquire_sem_etc\<close>; \<open>w\<close> is that call's local variable. The
  second half starts from the result of the semaphore call and the local variables.
\<close>

datatype port_result = PDone int | PWaits "nat ptr"

definition after_acquire ::
  "(acquire_result \<times> kt) outcome \<Rightarrow> (int \<Rightarrow> ports \<Rightarrow> (int \<times> ports) outcome) \<Rightarrow> ports \<Rightarrow> (port_result \<times> ports) outcome" where
  "after_acquire r rest p =
     obind r (\<lambda>(a, k).
       case a of
         Done res \<Rightarrow> obind (rest res (p\<lparr>pt_kernel := k\<rparr>)) (\<lambda>(x, p1). Returns (PDone x, p1))
       | Suspended w \<Rightarrow> Returns (PWaits w, p\<lparr>pt_kernel := k\<rparr>))"

definition after_resume ::
  "(nat \<Rightarrow> int) \<Rightarrow> 32 word \<Rightarrow> nat ptr \<Rightarrow> (int \<Rightarrow> ports \<Rightarrow> (int \<times> ports) outcome) \<Rightarrow> ports \<Rightarrow> (int \<times> ports) outcome" where
  "after_resume clock flags w rest p =
     obind (acquire_resumed clock flags w (pt_kernel p)) (\<lambda>(res, k). rest res (p\<lparr>pt_kernel := k\<rparr>))"

definition release_port_sem :: "(nat \<Rightarrow> int) \<Rightarrow> int \<Rightarrow> int \<Rightarrow> ports \<Rightarrow> (int \<times> ports) outcome" where
  "release_port_sem clock sem ret p =
     obind (release_sem clock sem (pt_kernel p)) (\<lambda>(_, k). Returns (ret, p\<lparr>pt_kernel := k\<rparr>))"

text \<open>The message at a ring index, as the code reads it: an index equal to the capacity is behind the queue.\<close>

definition ring_at :: "int \<Rightarrow> port_entry \<Rightarrow> port_msg outcome" where
  "ring_at t e =
     (if t < 0 then Faults
      else if pe_capacity e < t then Faults
      else case pe_queue e of
        None \<Rightarrow> Faults
      | Some q \<Rightarrow> if nat t < length q then Returns (q ! nat t) else Faults)"

definition port_buffer_size_rest :: "(nat \<Rightarrow> int) \<Rightarrow> int \<Rightarrow> int \<Rightarrow> ports \<Rightarrow> (int \<times> ports) outcome" where
  "port_buffer_size_rest clock i res p =
     (if res = ERR_SEM_DELETED then Returns (B_BAD_PORT_ID, p)
      else if res = ERR_SEM_TIMED_OUT then Returns (B_TIMED_OUT, p)
      else
        (let e = the_port i p
         in obind (ring_at (pe_head e) e) (\<lambda>m. release_port_sem clock (pe_read_sem e) (s32 (pm_len m)) p)))"

definition port_buffer_size_etc ::
  "(nat \<Rightarrow> int) \<Rightarrow> bool \<Rightarrow> int \<Rightarrow> 32 word \<Rightarrow> int \<Rightarrow> ports \<Rightarrow> (port_result \<times> ports) outcome" where
  "port_buffer_size_etc clock late_kill i flags timeout p =
     (if port_lookup_fails i p then Returns (PDone B_BAD_PORT_ID, p)
      else after_acquire (acquire_sem_etc clock late_kill (pe_read_sem (the_port i p)) 1
             (flags AND (B_TIMEOUT OR B_CAN_INTERRUPT)) timeout (pt_kernel p)) (port_buffer_size_rest clock i) p)"

definition port_buffer_size_resumed ::
  "(nat \<Rightarrow> int) \<Rightarrow> int \<Rightarrow> 32 word \<Rightarrow> nat ptr \<Rightarrow> ports \<Rightarrow> (int \<times> ports) outcome" where
  "port_buffer_size_resumed clock i flags w p =
     after_resume clock (flags AND (B_TIMEOUT OR B_CAN_INTERRUPT)) w (port_buffer_size_rest clock i) p"

definition port_buffer_size :: "(nat \<Rightarrow> int) \<Rightarrow> bool \<Rightarrow> int \<Rightarrow> ports \<Rightarrow> (port_result \<times> ports) outcome" where
  "port_buffer_size clock late_kill i p = port_buffer_size_etc clock late_kill i 0 0 p"

section \<open>Reading\<close>

definition port_flags :: "32 word \<Rightarrow> 32 word" where
  "port_flags flags = flags AND (PORT_FLAG_USE_USER_MEMCPY OR B_CAN_INTERRUPT OR B_TIMEOUT)"

definition user_copy :: "32 word \<Rightarrow> bool" where
  "user_copy flags \<longleftrightarrow> flags AND PORT_FLAG_USE_USER_MEMCPY \<noteq> 0"

definition kmem_write :: "nat \<Rightarrow> byte list \<Rightarrow> (nat \<Rightarrow> byte) \<Rightarrow> nat \<Rightarrow> byte" where
  "kmem_write a bs km = (\<lambda>x. if a \<le> x \<and> x < a + length bs then bs ! (x - a) else km x)"

definition kmem_read :: "nat \<Rightarrow> nat \<Rightarrow> (nat \<Rightarrow> byte) \<Rightarrow> byte list" where
  "kmem_read a n km = map (\<lambda>i. km (a + i)) [0..<n]"

text \<open>
  Copying a message of \<open>siz > 0\<close> bytes out: the result of the comparison with zero, the two
  memories. The result of the copy to kernel memory is not looked at.
\<close>

definition copy_out :: "32 word \<Rightarrow> nat \<Rightarrow> nat ptr \<Rightarrow> nat \<Rightarrow> ports \<Rightarrow> (bool \<times> ports) outcome" where
  "copy_out flags buffer store siz p =
     (case store of
        None \<Rightarrow> Faults
      | Some c \<Rightarrow>
          if user_copy flags then
            obind (cbuf_user_memcpy_from_chain buffer c 0 siz (pt_cbufs p) (pt_umem p)) (\<lambda>(rc, um).
              Returns (rc < 0, p\<lparr>pt_umem := um\<rparr>))
          else
            obind (cbuf_memcpy_from_chain c 0 siz (pt_cbufs p)) (\<lambda>(_, bs).
              Returns (False, p\<lparr>pt_kmem := kmem_write buffer bs (pt_kmem p)\<rparr>)))"

text \<open>The second component of the result is \<open>*msg_code\<close> when it is written.\<close>

definition read_port_rest ::
  "(nat \<Rightarrow> int) \<Rightarrow> int \<Rightarrow> nat \<Rightarrow> nat \<Rightarrow> 32 word \<Rightarrow> int \<Rightarrow> ports \<Rightarrow> ((int \<times> int option) \<times> ports) outcome" where
  "read_port_rest clock i buffer buffer_size flags res p =
     (if res = ERR_SEM_DELETED \<or> res = EINTR then Returns ((B_BAD_PORT_ID, None), p)
      else if res = ERR_SEM_TIMED_OUT then Returns ((B_BAD_PORT_ID, None), p)
      else if res \<noteq> B_NO_ERROR then Returns ((res, None), p)
      else
        (let e = the_port i p; t = pe_tail e
         in obind (ring_at t e) (\<lambda>m.
              let siz = min buffer_size (pm_len m);
                  p1 = set_port (port_slot i) (\<lambda>e. e\<lparr>pe_tail := crem (pe_tail e + 1) (pe_capacity e),
                    pe_queue := map_option (\<lambda>q. q[nat t := m\<lparr>pm_cbuf := None\<rparr>]) (pe_queue e)\<rparr>) p
              in obind (if 0 < siz then copy_out flags buffer (pm_cbuf m) siz p1 else Returns (False, p1)) (\<lambda>(bad, p2).
                   obind (cbuf_free_chain (pm_cbuf m) (pt_cbufs p2)) (\<lambda>c.
                     obind (release_port_sem clock (pe_write_sem e) (if bad then 1 else s32 siz) (p2\<lparr>pt_cbufs := c\<rparr>)) (\<lambda>(x, p3).
                       Returns ((x, Some (pm_code m)), p3)))))))"

datatype read_result = RDone int "int option" | RWaits "nat ptr"

definition read_port_etc ::
  "(nat \<Rightarrow> int) \<Rightarrow> bool \<Rightarrow> int \<Rightarrow> bool \<Rightarrow> nat ptr \<Rightarrow> nat \<Rightarrow> 32 word \<Rightarrow> int \<Rightarrow> ports \<Rightarrow> (read_result \<times> ports) outcome" where
  "read_port_etc clock late_kill i msg_code buffer buffer_size flags0 timeout p =
     (if \<not> pt_active p then Returns (RDone B_BAD_PORT_ID None, p)
      else if i < 0 then Returns (RDone B_BAD_PORT_ID None, p)
      else if \<not> msg_code then Returns (RDone EINVAL None, p)
      else if buffer = None \<and> 0 < buffer_size then Returns (RDone EINVAL None, p)
      else if timeout < 0 then Returns (RDone EINVAL None, p)
      else if port_lookup_fails i p then Returns (RDone B_BAD_PORT_ID None, p)
      else
        (let flags = port_flags flags0; a = (case buffer of None \<Rightarrow> 0 | Some x \<Rightarrow> x)
         in obind (acquire_sem_etc clock late_kill (pe_read_sem (the_port i p)) 1 flags timeout (pt_kernel p)) (\<lambda>(r, k).
              case r of
                Done res \<Rightarrow>
                  obind (read_port_rest clock i a buffer_size flags res (p\<lparr>pt_kernel := k\<rparr>)) (\<lambda>((x, code), p1).
                    Returns (RDone x code, p1))
              | Suspended w \<Rightarrow> Returns (RWaits w, p\<lparr>pt_kernel := k\<rparr>))))"

definition read_port_resumed ::
  "(nat \<Rightarrow> int) \<Rightarrow> int \<Rightarrow> nat \<Rightarrow> nat \<Rightarrow> 32 word \<Rightarrow> nat ptr \<Rightarrow> ports \<Rightarrow> ((int \<times> int option) \<times> ports) outcome" where
  "read_port_resumed clock i buffer buffer_size flags0 w p =
     obind (acquire_resumed clock (port_flags flags0) w (pt_kernel p)) (\<lambda>(res, k).
       read_port_rest clock i buffer buffer_size (port_flags flags0) res (p\<lparr>pt_kernel := k\<rparr>))"

definition read_port ::
  "(nat \<Rightarrow> int) \<Rightarrow> bool \<Rightarrow> int \<Rightarrow> bool \<Rightarrow> nat ptr \<Rightarrow> nat \<Rightarrow> ports \<Rightarrow> (read_result \<times> ports) outcome" where
  "read_port clock late_kill i msg_code buffer buffer_size p = read_port_etc clock late_kill i msg_code buffer buffer_size 0 0 p"

section \<open>Writing\<close>

text \<open>Copying a message of \<open>n > 0\<close> bytes in: the result of the copy, and the chain.\<close>

definition copy_in :: "32 word \<Rightarrow> nat \<Rightarrow> nat \<Rightarrow> nat \<Rightarrow> ports \<Rightarrow> (int \<times> ports) outcome" where
  "copy_in flags buffer n c p =
     (if user_copy flags
      then obind (cbuf_user_memcpy_to_chain (pt_umem p) c 0 buffer n (pt_cbufs p)) (\<lambda>(rc, s). Returns (rc, p\<lparr>pt_cbufs := s\<rparr>))
      else obind (cbuf_memcpy_to_chain c 0 (kmem_read buffer n (pt_kmem p)) (pt_cbufs p)) (\<lambda>(rc, s). Returns (rc, p\<lparr>pt_cbufs := s\<rparr>)))"

definition store_msg :: "(nat \<Rightarrow> int) \<Rightarrow> int \<Rightarrow> port_msg \<Rightarrow> ports \<Rightarrow> (int \<times> ports) outcome" where
  "store_msg clock i m p =
     (let e = the_port i p; h = pe_head e
      in if h < 0 then Faults
         else if pe_capacity e \<le> h then Faults
         else case pe_queue e of
           None \<Rightarrow> Faults
         | Some q \<Rightarrow>
             if length q \<le> nat h then Faults
             else release_port_sem clock (pe_read_sem e) B_NO_ERROR
               (set_port (port_slot i) (\<lambda>e. e\<lparr>pe_queue := Some (q[nat h := m]), pe_head := crem (pe_head e + 1) (pe_capacity e),
                  pe_total := i32 (pe_total e + 1)\<rparr>) p))"

text \<open>A copy that fails leaves with the empty slot and the chain taken.\<close>

definition write_port_rest ::
  "(nat \<Rightarrow> int) \<Rightarrow> int \<Rightarrow> int \<Rightarrow> nat \<Rightarrow> nat \<Rightarrow> 32 word \<Rightarrow> int \<Rightarrow> ports \<Rightarrow> (int \<times> ports) outcome" where
  "write_port_rest clock i code buffer n flags res p =
     (if res = ERR_SEM_DELETED \<or> res = EINTR then Returns (B_BAD_PORT_ID, p)
      else if res = ERR_SEM_TIMED_OUT then Returns (B_TIMED_OUT, p)
      else if res \<noteq> B_NO_ERROR then Returns (res, p)
      else if 0 < n then
        obind (cbuf_get_chain n (pt_cbufs p)) (\<lambda>(store, c).
          let p1 = p\<lparr>pt_cbufs := c\<rparr>
          in case store of
               None \<Rightarrow> Returns (ENOMEM, p1)
             | Some h \<Rightarrow>
                 obind (copy_in flags buffer n h p1) (\<lambda>(rc, p2).
                   if rc < 0 then Returns (rc, p2\<lparr>pt_leaked := pt_leaked p2 + 1\<rparr>)
                   else store_msg clock i \<lparr>pm_code = code, pm_cbuf = Some h, pm_len = n\<rparr> p2))
      else store_msg clock i \<lparr>pm_code = code, pm_cbuf = None, pm_len = 0\<rparr> p)"

definition write_port_etc ::
  "(nat \<Rightarrow> int) \<Rightarrow> bool \<Rightarrow> int \<Rightarrow> int \<Rightarrow> nat \<Rightarrow> nat \<Rightarrow> 32 word \<Rightarrow> int \<Rightarrow> ports \<Rightarrow> (port_result \<times> ports) outcome" where
  "write_port_etc clock late_kill i code buffer n flags0 timeout p =
     (if \<not> pt_active p then Returns (PDone B_BAD_PORT_ID, p)
      else if i < 0 then Returns (PDone B_BAD_PORT_ID, p)
      else if PORT_MAX_MESSAGE_SIZE < n then Returns (PDone EINVAL, p)
      else if port_lookup_fails i p then Returns (PDone B_BAD_PORT_ID, p)
      else if pe_closed (the_port i p) then Returns (PDone B_BAD_PORT_ID, p)
      else
        (let flags = port_flags flags0
         in after_acquire (acquire_sem_etc clock late_kill (pe_write_sem (the_port i p)) 1
              (flags AND (B_TIMEOUT OR B_CAN_INTERRUPT)) timeout (pt_kernel p)) (write_port_rest clock i code buffer n flags) p))"

definition write_port_resumed ::
  "(nat \<Rightarrow> int) \<Rightarrow> int \<Rightarrow> int \<Rightarrow> nat \<Rightarrow> nat \<Rightarrow> 32 word \<Rightarrow> nat ptr \<Rightarrow> ports \<Rightarrow> (int \<times> ports) outcome" where
  "write_port_resumed clock i code buffer n flags0 w p =
     after_resume clock (port_flags flags0 AND (B_TIMEOUT OR B_CAN_INTERRUPT)) w
       (write_port_rest clock i code buffer n (port_flags flags0)) p"

definition write_port ::
  "(nat \<Rightarrow> int) \<Rightarrow> bool \<Rightarrow> int \<Rightarrow> int \<Rightarrow> nat \<Rightarrow> nat \<Rightarrow> ports \<Rightarrow> (port_result \<times> ports) outcome" where
  "write_port clock late_kill i code buffer n p = write_port_etc clock late_kill i code buffer n 0 0 p"

section \<open>System calls\<close>

text \<open>The name of a user's port, copied in like a semaphore's.\<close>

definition user_name :: "umem \<Rightarrow> nat \<Rightarrow> int + byte list" where
  "user_name um a =
     (if kernel_addr a then Inl ERR_VM_BAD_USER_MEMORY
      else case user_strncpy_in um a (SYS_MAX_OS_NAME_LEN - 1) of
        (bs, rc) \<Rightarrow> if rc < 0 then Inl rc else Inr (takeWhile (\<lambda>b. b \<noteq> 0) bs))"

definition user_create_port ::
  "(nat \<Rightarrow> int) \<Rightarrow> port_mem \<Rightarrow> (nat \<Rightarrow> port_msg) \<Rightarrow> int \<Rightarrow> int \<Rightarrow> nat ptr \<Rightarrow> ports \<Rightarrow> (int \<times> ports) outcome" where
  "user_create_port clock mem junk owner queue_length uname p =
     (case uname of
        None \<Rightarrow> create_port clock mem junk owner queue_length None p
      | Some a \<Rightarrow>
          (case user_name (pt_umem p) a of
             Inl rc \<Rightarrow> Returns (rc, p)
           | Inr c \<Rightarrow> create_port clock mem junk owner queue_length (Some c) p))"

definition user_find_port :: "nat ptr \<Rightarrow> ports \<Rightarrow> int outcome" where
  "user_find_port uname p =
     (case uname of
        None \<Rightarrow> Returns EINVAL
      | Some a \<Rightarrow> (case user_name (pt_umem p) a of Inl rc \<Rightarrow> Returns rc | Inr c \<Rightarrow> find_port (Some c) p))"

text \<open>\<open>layout\<close>: the bytes of a \<open>port_info\<close>; \<open>stack\<close>: what the local variable held.\<close>

definition user_get_port_info ::
  "(port_info \<Rightarrow> byte list) \<Rightarrow> port_info \<Rightarrow> int \<Rightarrow> nat ptr \<Rightarrow> ports \<Rightarrow> (int \<times> ports) outcome" where
  "user_get_port_info layout stack i uinfo p =
     (case uinfo of
        None \<Rightarrow> Returns (EINVAL, p)
      | Some a \<Rightarrow>
          if kernel_addr a then Returns (ERR_VM_BAD_USER_MEMORY, p)
          else obind (get_port_info i (Some stack) p) (\<lambda>(res, info).
            let (rc, um) = user_memcpy_out (pt_umem p) a (layout (case info of Some x \<Rightarrow> x | None \<Rightarrow> stack))
            in Returns (if rc < 0 then rc else res, p\<lparr>pt_umem := um\<rparr>)))"

definition bytes_int32 :: "byte list \<Rightarrow> int" where
  "bytes_int32 bs = i32 (\<Sum>i < length bs. uint (bs ! i) * 2 ^ (8 * i))"

text \<open>The new cookie is not copied back: the first four bytes of the information are.\<close>

definition user_get_next_port_info ::
  "(port_info \<Rightarrow> byte list) \<Rightarrow> port_info \<Rightarrow> int \<Rightarrow> nat ptr \<Rightarrow> nat ptr \<Rightarrow> ports \<Rightarrow> (int \<times> ports) outcome" where
  "user_get_next_port_info layout stack proc ucookie uinfo p =
     (case (ucookie, uinfo) of
        (Some ca, Some a) \<Rightarrow>
          if kernel_addr ca \<or> kernel_addr a then Returns (ERR_VM_BAD_USER_MEMORY, p)
          else
            (case user_memcpy_in (pt_umem p) ca 4 of
               (bs, rc) \<Rightarrow>
                 if rc < 0 then Returns (rc, p)
                 else obind (get_next_port_info proc (Some (bytes_int32 bs)) stack p) (\<lambda>(res, _, info).
                   let (rc1, um1) = user_memcpy_out (pt_umem p) ca (take 4 (layout info))
                   in if rc1 < 0 then Returns (rc1, p\<lparr>pt_umem := um1\<rparr>)
                      else (let (rc2, um2) = user_memcpy_out um1 a (layout info)
                            in Returns (if rc2 < 0 then rc2 else res, p\<lparr>pt_umem := um2\<rparr>))))
      | _ \<Rightarrow> Returns (EINVAL, p))"

definition user_port_buffer_size_etc ::
  "(nat \<Rightarrow> int) \<Rightarrow> bool \<Rightarrow> int \<Rightarrow> 32 word \<Rightarrow> int \<Rightarrow> ports \<Rightarrow> (port_result \<times> ports) outcome" where
  "user_port_buffer_size_etc clock late_kill i flags timeout p =
     port_buffer_size_etc clock late_kill i (flags OR B_CAN_INTERRUPT) timeout p"

text \<open>The code is copied out whatever the result was.\<close>

definition user_read_port_finish :: "int \<Rightarrow> nat \<Rightarrow> int \<Rightarrow> int option \<Rightarrow> ports \<Rightarrow> int \<times> ports" where
  "user_read_port_finish stack umsg_code res code p =
     (case user_memcpy_out (pt_umem p) umsg_code (int32_bytes (case code of Some x \<Rightarrow> x | None \<Rightarrow> stack)) of
        (rc, um) \<Rightarrow> (if rc < 0 then rc else res, p\<lparr>pt_umem := um\<rparr>))"

definition user_read_port_etc ::
  "(nat \<Rightarrow> int) \<Rightarrow> bool \<Rightarrow> int \<Rightarrow> int \<Rightarrow> nat ptr \<Rightarrow> nat ptr \<Rightarrow> nat \<Rightarrow> 32 word \<Rightarrow> int \<Rightarrow> ports \<Rightarrow> (port_result \<times> ports) outcome" where
  "user_read_port_etc clock late_kill stack i umsg_code umsg_buffer n uflags utimeout p =
     (case (umsg_code, umsg_buffer) of
        (Some ca, Some a) \<Rightarrow>
          if kernel_addr ca \<or> kernel_addr a then Returns (PDone ERR_VM_BAD_USER_MEMORY, p)
          else
            obind (read_port_etc clock late_kill i True (Some a) n (uflags OR PORT_FLAG_USE_USER_MEMCPY OR B_CAN_INTERRUPT)
                     utimeout p) (\<lambda>(r, p1).
              case r of
                RDone x code \<Rightarrow> (case user_read_port_finish stack ca x code p1 of (y, p2) \<Rightarrow> Returns (PDone y, p2))
              | RWaits w \<Rightarrow> Returns (PWaits w, p1))
      | _ \<Rightarrow> Returns (PDone EINVAL, p))"

definition user_write_port_etc ::
  "(nat \<Rightarrow> int) \<Rightarrow> bool \<Rightarrow> int \<Rightarrow> int \<Rightarrow> nat ptr \<Rightarrow> nat \<Rightarrow> 32 word \<Rightarrow> int \<Rightarrow> ports \<Rightarrow> (port_result \<times> ports) outcome" where
  "user_write_port_etc clock late_kill i code umsg_buffer n uflags utimeout p =
     (case umsg_buffer of
        None \<Rightarrow> Returns (PDone EINVAL, p)
      | Some a \<Rightarrow>
          if kernel_addr a then Returns (PDone ERR_VM_BAD_USER_MEMORY, p)
          else write_port_etc clock late_kill i code a n (uflags OR PORT_FLAG_USE_USER_MEMCPY OR B_CAN_INTERRUPT) utimeout p)"

end
