(* ===== verification/Port_Props.thy ===== *)
theory Port_Props
  imports Port
begin

text \<open>
  What a port is for its users: a queue of messages. \<open>port_rep\<close> ties the ring, the chains and
  the two semaphores of a port in which no call is waiting to the list of its messages.
\<close>

section \<open>The semaphores without waiting\<close>

definition sem_free :: "int \<Rightarrow> int \<Rightarrow> ks \<Rightarrow> bool" where
  "sem_free i c s \<longleftrightarrow> 0 \<le> i \<and> se_id (ks_sems s (sem_slot i)) = i \<and> se_count (ks_sems s (sem_slot i)) = c"

lemma acquire_one:
  assumes "kinv idle k" and "ks_current (tm_world k) \<noteq> idle" and "sem_free i c (tm_world k)" and "1 \<le> c"
  shows "\<exists>k'. acquire_sem_etc clock late i 1 flags timeout k = Returns (Done B_NO_ERROR, k') \<and> kinv idle k' \<and>
           tm_world k' = set_sem (sem_slot i) (\<lambda>e. e\<lparr>se_count := c - 1\<rparr>) (tm_world k)"
proof -
  let ?s = "tm_world k"
  have i: "0 \<le> i" "se_id (ks_sems ?s (sem_slot i)) = i" and c: "se_count (ks_sems ?s (sem_slot i)) = c"
    using assms(3) by (simp_all add: sem_free_def)
  have sems: "sems_ok ?s" using assms(1) by (simp add: kinv_def kernel_ok_def)
  then have slot: "slot_ok ?s (sem_slot i)" using slot_bound by (simp add: sems_ok_def)
  have cb: "c < 2 ^ 31" using slot_ok_live(1) [OF slot i(2,1)] c by (simp add: entry_ok_def Let_def)
  have "no_timeout 0" by (simp add: no_timeout_def)
  from acquire_sem_etc_spec [OF assms(1,2) this i, of 1 clock 0] assms(4) c obtain k1 where
    k1: "acquire_sem_etc clock False i 1 0 0 k = Returns (Done 0, k1)" "kinv idle k1" by auto
  let ?k = "in_world (\<lambda>_. set_sem (sem_slot i) (\<lambda>e. e\<lparr>se_count := c - 1\<rparr>) ?s) k"
  have run: "acquire_sem_etc clock l i 1 f t k = Returns (Done 0, ?k)" for l f t
    using sems i c assms(4) cb by (simp add: acquire_sem_etc_def sems_ok_def Let_def)
  with k1 have "kinv idle ?k" by simp
  with run show ?thesis by (simp add: B_NO_ERROR_def)
qed

lemma release_one:
  assumes "kinv idle k" and "sem_free i c (tm_world k)" and "0 \<le> c" and "c + 1 < 2 ^ 31"
  shows "\<exists>k'. release_sem clock i k = Returns (0, k') \<and> kinv idle k' \<and>
           tm_world k' = set_sem (sem_slot i) (\<lambda>e. e\<lparr>se_count := c + 1\<rparr>) (tm_world k)"
proof -
  let ?e = "ks_sems (tm_world k) (sem_slot i)"
  have i: "0 \<le> i" "se_id ?e = i" and c: "se_count ?e = c" using assms(2) by (simp_all add: sem_free_def)
  have act: "ks_sems_active (tm_world k)" using assms(1) by (simp add: kinv_def kernel_ok_def sems_ok_def)
  from release_sem_etc_spec [OF assms(1) i, of 1 clock 0] c assms(4) obtain k1 where
    k1: "release_sem_etc clock i 1 0 k = Returns (0, k1)" "kinv idle k1" by auto
  let ?k = "in_world (\<lambda>_. set_sem (sem_slot i) (\<lambda>e. e\<lparr>se_count := c + 1\<rparr>) (tm_world k)) k"
  have "release_loop (sem_slot i) 1 [] (tm_world k) =
      Returns ([], set_sem (sem_slot i) (\<lambda>e. e\<lparr>se_count := i32 (se_count e + 1)\<rparr>) (tm_world k))"
    using c assms(3) by (subst release_loop.simps) (simp add: release_loop_stop)
  also have "set_sem (sem_slot i) (\<lambda>e. e\<lparr>se_count := i32 (se_count e + 1)\<rparr>) (tm_world k) =
      set_sem (sem_slot i) (\<lambda>e. e\<lparr>se_count := c + 1\<rparr>) (tm_world k)"
    using c assms(3,4) by (simp add: set_sem_def)
  finally have run: "release_sem_etc clock i 1 0 k = Returns (0, ?k)"
    using act i by (simp add: release_sem_etc_def resched_after_def Let_def)
  with k1 have "kinv idle ?k" by simp
  with run show ?thesis by (auto simp: release_sem_def)
qed

section \<open>The ring\<close>

text \<open>The ring index of the \<open>j\<close>-th message.\<close>

definition ring :: "port_entry \<Rightarrow> nat \<Rightarrow> nat" where
  "ring e j = (nat (pe_tail e) + j) mod nat (pe_capacity e)"

text \<open>A message in the ring: its code, and a chain with its bytes; the empty message has none.\<close>

definition msg_at :: "cmem \<Rightarrow> port_msg \<Rightarrow> nat list \<Rightarrow> int \<times> byte list \<Rightarrow> bool" where
  "msg_at m r c x \<longleftrightarrow>
     pm_code r = fst x \<and> pm_len r = length (snd x) \<and> pm_cbuf r = hd_ptr c \<and> chain_bytes m c = snd x \<and>
     (c = [] \<longleftrightarrow> snd x = []) \<and> (c \<noteq> [] \<longrightarrow> whole_chain m c) \<and> length (snd x) \<le> PORT_MAX_MESSAGE_SIZE"

definition ring_ok :: "port_entry \<Rightarrow> nat \<Rightarrow> bool" where
  "ring_ok e n \<longleftrightarrow>
     1 \<le> pe_capacity e \<and> pe_capacity e \<le> MAX_QUEUE_LENGTH \<and> 0 \<le> pe_tail e \<and> pe_tail e < pe_capacity e \<and>
     0 \<le> pe_head e \<and> pe_head e < pe_capacity e \<and> n \<le> nat (pe_capacity e) \<and> nat (pe_head e) = ring e n \<and>
     (\<exists>q. pe_queue e = Some q \<and> length q = nat (pe_capacity e))"

definition port_rep :: "nat \<Rightarrow> int \<Rightarrow> ports \<Rightarrow> (int \<times> byte list) list \<Rightarrow> nat list list \<Rightarrow> nat list list \<Rightarrow> nat list \<Rightarrow> nat list \<Rightarrow> nat \<Rightarrow> bool" where
  "port_rep idle i p ms chs rest F N k \<longleftrightarrow>
     (let e = the_port i p; s = tm_world (pt_kernel p); n = int (length ms)
      in pt_active p \<and> 0 \<le> i \<and> pe_id e = i \<and> ring_ok e (length ms) \<and> length chs = length ms \<and>
         (\<forall>j < length ms. msg_at (cb_mem (pt_cbufs p)) (the (pe_queue e) ! ring e j) (chs ! j) (ms ! j)) \<and>
         cb_rep (pt_cbufs p) F N (chs @ rest) k \<and> \<not> cb_sem_held (pt_cbufs p) \<and>
         kinv idle (pt_kernel p) \<and> ks_current s \<noteq> idle \<and>
         sem_free (pe_read_sem e) n s \<and> sem_free (pe_write_sem e) (pe_capacity e - n) s \<and>
         sem_slot (pe_read_sem e) \<noteq> sem_slot (pe_write_sem e))"

lemma the_port_set [simp]: "the_port i (set_port (port_slot i) f p) = f (the_port i p)"
  by (simp add: the_port_def set_port_def)

lemma set_port_rest [simp]:
  "pt_kernel (set_port n f p) = pt_kernel p" "pt_cbufs (set_port n f p) = pt_cbufs p"
  "pt_active (set_port n f p) = pt_active p" "pt_kmem (set_port n f p) = pt_kmem p"
  "pt_umem (set_port n f p) = pt_umem p" "pt_leaked (set_port n f p) = pt_leaked p"
  by (simp_all add: set_port_def)

lemma the_port_rest [simp]:
  "the_port i (p\<lparr>pt_kernel := k\<rparr>) = the_port i p" "the_port i (p\<lparr>pt_cbufs := c\<rparr>) = the_port i p"
  "the_port i (p\<lparr>pt_umem := u\<rparr>) = the_port i p" "the_port i (p\<lparr>pt_kmem := m\<rparr>) = the_port i p"
  by (simp_all add: the_port_def)

lemma ring_bound: "ring_ok e n \<Longrightarrow> ring e j < nat (pe_capacity e)"
  by (simp add: ring_def ring_ok_def)

lemma ring_mod: "t < c \<Longrightarrow> j \<le> c \<Longrightarrow> (t + j) mod c = (if t + j < c then t + j else t + j - c)" for t c j :: nat
  by (simp add: le_mod_geq)

lemma ring_inj:
  fixes t c j l :: nat
  assumes "t < c" "j < c" "l < c" and "(t + j) mod c = (t + l) mod c"
  shows "j = l"
proof -
  have "(if t + j < c then t + j else t + j - c) = (if t + l < c then t + l else t + l - c)"
    using ring_mod [of t c j] ring_mod [of t c l] assms by simp
  with assms(1-3) show ?thesis by (auto split: if_splits)
qed

lemma ring_distinct:
  assumes "ring_ok e n" and "j < nat (pe_capacity e)" "l < nat (pe_capacity e)" and "ring e j = ring e l"
  shows "j = l"
proof (rule ring_inj [OF _ assms(2,3)])
  show "nat (pe_tail e) < nat (pe_capacity e)" using assms(1) by (simp add: ring_ok_def)
  show "(nat (pe_tail e) + j) mod nat (pe_capacity e) = (nat (pe_tail e) + l) mod nat (pe_capacity e)"
    using assms(4) by (simp add: ring_def)
qed

lemma crem_ring: "1 \<le> c \<Longrightarrow> crem (int a + 1) c = int ((a + 1) mod nat c)"
  by (simp add: zmod_int add.commute)

lemma ring_next_head:
  assumes "ring_ok e n"
  shows "crem (pe_head e + 1) (pe_capacity e) = int (ring e (n + 1))"
proof -
  let ?c = "nat (pe_capacity e)" and ?t = "nat (pe_tail e)"
  have h: "nat (pe_head e) = (?t + n) mod ?c" "0 \<le> pe_head e" "1 \<le> pe_capacity e"
    using assms by (simp_all add: ring_ok_def ring_def)
  from h(1,2) have "pe_head e = int ((?t + n) mod ?c)" by (metis int_nat_eq)
  then have "crem (pe_head e + 1) (pe_capacity e) = int (((?t + n) mod ?c + 1) mod ?c)" by (simp only: crem_ring [OF h(3)])
  also have "((?t + n) mod ?c + 1) mod ?c = (?t + (n + 1)) mod ?c" by (simp add: mod_Suc_eq)
  finally show ?thesis by (simp add: ring_def)
qed

lemma ring_next_tail:
  assumes "ring_ok e n"
  shows "crem (pe_tail e + 1) (pe_capacity e) = int (ring e 1)"
proof -
  have h: "pe_tail e = int (nat (pe_tail e))" "1 \<le> pe_capacity e" using assms by (simp_all add: ring_ok_def)
  have "crem (pe_tail e + 1) (pe_capacity e) = int ((nat (pe_tail e) + 1) mod nat (pe_capacity e))"
    by (subst h(1), rule crem_ring [OF h(2)])
  then show ?thesis by (simp add: ring_def)
qed

lemma msg_at_cong:
  "(\<And>x. x \<in> set c \<Longrightarrow> m x = m' x) \<Longrightarrow> msg_at m r c x = msg_at m' r c x"
  using chain_bytes_cong [of c m m'] whole_chain_cong [of c m m'] by (simp add: msg_at_def)

section \<open>Putting a message into the ring\<close>

lemma sem_free_other:
  assumes "sem_free i c s" and "sem_slot i \<noteq> n" and "\<And>m. m \<noteq> n \<Longrightarrow> ks_sems s' m = ks_sems s m"
  shows "sem_free i c s'"
  using assms by (simp add: sem_free_def)

text \<open>The entry after a message was stored.\<close>

lemma ring_ok_store:
  assumes "ring_ok e n" and "n < nat (pe_capacity e)" and "pe_queue e = Some q"
    and "e' = e\<lparr>pe_queue := Some (q[nat (pe_head e) := m]), pe_head := crem (pe_head e + 1) (pe_capacity e), pe_total := t\<rparr>"
  shows "ring_ok e' (n + 1)" and "\<And>j. ring e' j = ring e j"
    and "j < n \<Longrightarrow> the (pe_queue e') ! ring e j = q ! ring e j" and "the (pe_queue e') ! ring e n = m"
proof -
  have h: "nat (pe_head e) = ring e n" using assms(1) by (simp add: ring_ok_def)
  have len: "length q = nat (pe_capacity e)" using assms(1,3) by (simp add: ring_ok_def)
  have hb: "ring e n < length q" using ring_bound [OF assms(1)] len by simp
  show r: "ring e' j = ring e j" for j by (simp add: ring_def assms(4))
  have nh: "pe_head e' = int (ring e (n + 1))" using ring_next_head [OF assms(1)] assms(4) by simp
  have "ring e (n + 1) < nat (pe_capacity e)" by (rule ring_bound [OF assms(1)])
  then show "ring_ok e' (n + 1)"
    using assms(1,2) len nh r [of "n + 1"] unfolding ring_ok_def r by (auto simp: assms(4))
  show "the (pe_queue e') ! ring e n = m" using hb h by (simp add: assms(4))
  assume "j < n"
  then have "ring e j \<noteq> ring e n" using ring_distinct [OF assms(1), of j n] assms(2) by auto
  then show "the (pe_queue e') ! ring e j = q ! ring e j" using h by (simp add: assms(4))
qed

lemma store_msg_spec:
  assumes act: "pt_active p" "0 \<le> i" "pe_id (the_port i p) = i" and ring: "ring_ok (the_port i p) n" "n < nat (pe_capacity (the_port i p))"
    and k: "kinv idle (pt_kernel p)" and sem: "sem_free (pe_read_sem (the_port i p)) (int n) (tm_world (pt_kernel p))"
  shows "\<exists>k' e'. store_msg clock i m p = Returns (B_NO_ERROR, (set_port (port_slot i) (\<lambda>_. e') p)\<lparr>pt_kernel := k'\<rparr>) \<and>
           (\<exists>q t. pe_queue (the_port i p) = Some q \<and>
             e' = (the_port i p)\<lparr>pe_queue := Some (q[nat (pe_head (the_port i p)) := m]),
               pe_head := crem (pe_head (the_port i p) + 1) (pe_capacity (the_port i p)), pe_total := t\<rparr>) \<and>
           kinv idle k' \<and>
           tm_world k' = set_sem (sem_slot (pe_read_sem (the_port i p))) (\<lambda>e. e\<lparr>se_count := int n + 1\<rparr>) (tm_world (pt_kernel p))"
proof -
  let ?e = "the_port i p"
  obtain q where q: "pe_queue ?e = Some q" "length q = nat (pe_capacity ?e)" using ring(1) by (auto simp: ring_ok_def)
  have hb: "0 \<le> pe_head ?e" "pe_head ?e < pe_capacity ?e" "nat (pe_head ?e) < length q" using ring(1) q(2) by (auto simp: ring_ok_def)
  have cap: "pe_capacity ?e \<le> 4096" using ring(1) by (simp add: ring_ok_def MAX_QUEUE_LENGTH_def)
  with ring(2) have "int n + 1 < 2 ^ 31" by simp
  from release_one [OF k sem _ this, of clock] obtain k' where
    k': "release_sem clock (pe_read_sem ?e) (pt_kernel p) = Returns (0, k')" "kinv idle k'"
      "tm_world k' = set_sem (sem_slot (pe_read_sem ?e)) (\<lambda>e. e\<lparr>se_count := int n + 1\<rparr>) (tm_world (pt_kernel p))" by auto
  let ?f = "\<lambda>e. e\<lparr>pe_queue := Some (q[nat (pe_head ?e) := m]), pe_head := crem (pe_head e + 1) (pe_capacity e),
    pe_total := i32 (pe_total e + 1)\<rparr>"
  have "store_msg clock i m p = Returns (B_NO_ERROR, (set_port (port_slot i) ?f p)\<lparr>pt_kernel := k'\<rparr>)"
    using hb q k'(1) by (simp add: store_msg_def release_port_sem_def Let_def)
  also have "set_port (port_slot i) ?f p = set_port (port_slot i) (\<lambda>_. ?f ?e) p"
    by (simp add: set_port_def the_port_def)
  finally have run: "store_msg clock i m p = Returns (B_NO_ERROR, (set_port (port_slot i) (\<lambda>_. ?f ?e) p)\<lparr>pt_kernel := k'\<rparr>)" .
  have eq: "\<exists>q' t. pe_queue ?e = Some q' \<and> ?f ?e = ?e\<lparr>pe_queue := Some (q'[nat (pe_head ?e) := m]),
      pe_head := crem (pe_head ?e + 1) (pe_capacity ?e), pe_total := t\<rparr>"
    using q(1) by blast
  show ?thesis by (rule exI [of _ k'], rule exI [of _ "?f ?e"], intro conjI run eq k'(2,3))
qed

section \<open>Writing\<close>

lemma rep_append:
  assumes rep: "port_rep idle i p ms chs rest F N k0" and room: "int (length ms) < pe_capacity (the_port i p)"
    and kern: "kinv idle k'" "ks_current (tm_world k') = ks_current (tm_world (pt_kernel p))"
    and sems: "sem_free (pe_read_sem (the_port i p)) (int (length ms) + 1) (tm_world k')"
      "sem_free (pe_write_sem (the_port i p)) (pe_capacity (the_port i p) - int (length ms) - 1) (tm_world k')"
    and bufs: "cb_rep cb (F' :: nat list) N (chs @ c # rest) k1" "\<not> cb_sem_held cb"
      "\<forall>d \<in> set chs. \<forall>x \<in> set d. cb_mem cb x = cb_mem (pt_cbufs p) x"
    and msg: "msg_at (cb_mem cb) m c x"
    and q: "pe_queue (the_port i p) = Some q"
    and e': "e' = (the_port i p)\<lparr>pe_queue := Some (q[nat (pe_head (the_port i p)) := m]),
       pe_head := crem (pe_head (the_port i p) + 1) (pe_capacity (the_port i p)), pe_total := t\<rparr>"
    and p': "p' = (set_port (port_slot i) (\<lambda>_. e') p)\<lparr>pt_kernel := k', pt_cbufs := cb\<rparr>"
  shows "port_rep idle i p' (ms @ [x]) (chs @ [c]) rest F' N k1"
proof -
  let ?e = "the_port i p" and ?n = "length ms"
  have r: "pt_active p" "0 \<le> i" "pe_id ?e = i" "ring_ok ?e ?n" "length chs = ?n"
    "\<forall>j < ?n. msg_at (cb_mem (pt_cbufs p)) (the (pe_queue ?e) ! ring ?e j) (chs ! j) (ms ! j)"
    "ks_current (tm_world (pt_kernel p)) \<noteq> idle" "sem_slot (pe_read_sem ?e) \<noteq> sem_slot (pe_write_sem ?e)"
    using rep by (simp_all add: port_rep_def Let_def)
  have n: "?n < nat (pe_capacity ?e)" using room by simp
  note st = ring_ok_store [OF r(4) n q e']
  have ep: "the_port i p' = e'" by (simp add: p' the_port_def set_port_def)
  have msgs: "msg_at (cb_mem cb) (the (pe_queue e') ! ring e' j) ((chs @ [c]) ! j) ((ms @ [x]) ! j)" if "j < ?n + 1" for j
  proof (cases "j < ?n")
    case True
    then have "chs ! j \<in> set chs" using r(5) by simp
    then have "msg_at (cb_mem cb) (q ! ring ?e j) (chs ! j) (ms ! j)"
      using r(6) q True bufs(3) msg_at_cong [of "chs ! j" "cb_mem cb" "cb_mem (pt_cbufs p)"] by simp
    with True st(2,3) r(5) show ?thesis by (simp add: nth_append)
  next
    case False
    then have "j = ?n" using that by simp
    with st(2,4) msg r(5) show ?thesis by (simp add: nth_append)
  qed
  have f: "pe_id e' = i" "pe_read_sem e' = pe_read_sem ?e" "pe_write_sem e' = pe_write_sem ?e" "pe_capacity e' = pe_capacity ?e"
    by (simp_all add: e' r(3))
  have p2: "pt_active p'" "pt_cbufs p' = cb" "pt_kernel p' = k'" by (simp_all add: p' r(1))
  have "sem_free (pe_write_sem ?e) (pe_capacity ?e - int (?n + 1)) (tm_world k')"
    using sems(2) by (simp add: algebra_simps)
  with kern r(2,7,8) f st(1) msgs bufs(1,2) r(5) sems(1) p2 show ?thesis
    unfolding port_rep_def Let_def ep by (simp add: add.commute)
qed

text \<open>The bytes that a write takes from the caller: what the message holds when a user address faults is not fixed.\<close>

definition written :: "32 word \<Rightarrow> nat \<Rightarrow> nat \<Rightarrow> ports \<Rightarrow> byte list \<Rightarrow> bool" where
  "written flags a n p bs \<longleftrightarrow>
     length bs = n \<and>
     (if user_copy flags then mapped (pt_umem p) a n \<longrightarrow> bs = ubytes (pt_umem p) a n else bs = kmem_read a n (pt_kmem p))"

lemma copy_in_spec:
  assumes live: "live (cb_mem (pt_cbufs p)) c" and n: "bytes_in (cb_mem (pt_cbufs p)) c = n" "n < 2 ^ 32"
  shows "\<exists>rc m. copy_in flags a n (hd c) p = Returns (rc, p\<lparr>pt_cbufs := (pt_cbufs p)\<lparr>cb_mem := m\<rparr>\<rparr>) \<and> 0 \<le> rc \<and>
           dat_only c (cb_mem (pt_cbufs p)) m \<and> written flags a n p (chain_bytes m c)"
proof (cases "user_copy flags")
  case True
  have "0 + n \<le> bytes_in (cb_mem (pt_cbufs p)) c" "bytes_in (cb_mem (pt_cbufs p)) c < 2 ^ 32" using n by simp_all
  from user_memcpy_to_chain_live [OF live this, of "pt_umem p" a] obtain m where
    m: "cbuf_user_memcpy_to_chain (pt_umem p) (hd c) 0 a n (pt_cbufs p) =
      Returns (if mapped (pt_umem p) a n then 0 else 1, (pt_cbufs p)\<lparr>cb_mem := m\<rparr>)"
    "mapped (pt_umem p) a n \<longrightarrow> chain_bytes m c = splice_at 0 (ubytes (pt_umem p) a n) (chain_bytes (cb_mem (pt_cbufs p)) c)"
    "dat_only c (cb_mem (pt_cbufs p)) m" by blast
  have "live m c" using dat_only_live [OF m(3) live] .
  then have len: "length (chain_bytes m c) = n" using n dat_only_fields(7) [OF m(3)] by (simp add: live_def)
  have "length (chain_bytes (cb_mem (pt_cbufs p)) c) = n" using live n by (simp add: live_def)
  with m(2) have "mapped (pt_umem p) a n \<longrightarrow> chain_bytes m c = ubytes (pt_umem p) a n" by (simp add: splice_at_def)
  with m(1,3) len True show ?thesis by (auto simp: copy_in_def written_def)
next
  case False
  have lk: "length (kmem_read a n (pt_kmem p)) = n" by (simp add: kmem_read_def)
  then have "0 + length (kmem_read a n (pt_kmem p)) \<le> bytes_in (cb_mem (pt_cbufs p)) c"
    "bytes_in (cb_mem (pt_cbufs p)) c < 2 ^ 32" using n by simp_all
  from memcpy_to_chain_live [OF live this] obtain m where
    m: "cbuf_memcpy_to_chain (hd c) 0 (kmem_read a n (pt_kmem p)) (pt_cbufs p) = Returns (B_NO_ERROR, (pt_cbufs p)\<lparr>cb_mem := m\<rparr>)"
    "chain_bytes m c = splice_at 0 (kmem_read a n (pt_kmem p)) (chain_bytes (cb_mem (pt_cbufs p)) c)"
    "dat_only c (cb_mem (pt_cbufs p)) m" by blast
  have "length (chain_bytes (cb_mem (pt_cbufs p)) c) = n" using live n by (simp add: live_def)
  with m(2) lk have "chain_bytes m c = kmem_read a n (pt_kmem p)" by (simp add: splice_at_def)
  with m(1,3) False lk show ?thesis by (auto simp: copy_in_def written_def B_NO_ERROR_def)
qed

lemma write_port_rep:
  assumes rep: "port_rep idle i p ms chs rest F N k0" and room: "int (length ms) < pe_capacity (the_port i p)"
    and opn: "\<not> pe_closed (the_port i p)" and n: "n \<le> PORT_MAX_MESSAGE_SIZE"
    and mem: "n \<le> CBUF_DAT * (length F + 32 * (63 - k0))"
  shows "\<exists>p' c bs F' k'. write_port_etc clock late i code a n flags timeout p = Returns (PDone B_NO_ERROR, p') \<and>
           port_rep idle i p' (ms @ [(code, bs)]) (chs @ [c]) rest F' N k' \<and> written (port_flags flags) a n p bs \<and>
           pt_kmem p' = pt_kmem p \<and> pt_umem p' = pt_umem p"
proof -
  let ?e = "the_port i p" and ?len = "length ms" and ?f = "port_flags flags"
  let ?w = "pe_write_sem ?e" and ?r = "pe_read_sem ?e"
  have r: "pt_active p" "0 \<le> i" "pe_id ?e = i" "ring_ok ?e ?len" "cb_rep (pt_cbufs p) F N (chs @ rest) k0" "\<not> cb_sem_held (pt_cbufs p)"
    "kinv idle (pt_kernel p)" "ks_current (tm_world (pt_kernel p)) \<noteq> idle" "sem_free ?r (int ?len) (tm_world (pt_kernel p))"
    "sem_free ?w (pe_capacity ?e - int ?len) (tm_world (pt_kernel p))" "sem_slot ?r \<noteq> sem_slot ?w"
    using rep by (simp_all add: port_rep_def Let_def)
  have one: "1 \<le> pe_capacity ?e - int ?len" and nlen: "?len < nat (pe_capacity ?e)" using room by simp_all
  from acquire_one [OF r(7,8,10) one, of clock late "?f AND (B_TIMEOUT OR B_CAN_INTERRUPT)" timeout] obtain k1 where
    acq: "acquire_sem_etc clock late ?w 1 (?f AND (B_TIMEOUT OR B_CAN_INTERRUPT)) timeout (pt_kernel p) = Returns (Done B_NO_ERROR, k1)"
    and inv1: "kinv idle k1" and w1: "tm_world k1 = set_sem (sem_slot ?w) (\<lambda>e. e\<lparr>se_count := pe_capacity ?e - int ?len - 1\<rparr>) (tm_world (pt_kernel p))"
    by blast
  obtain p1 where p1: "p1 = p\<lparr>pt_kernel := k1\<rparr>" by simp
  have e1: "the_port i p1 = ?e" by (simp add: p1)
  have run: "write_port_etc clock late i code a n flags timeout p =
      obind (write_port_rest clock i code a n ?f B_NO_ERROR p1) (\<lambda>(x, p2). Returns (PDone x, p2))"
    using r(1-3) n opn acq by (simp add: write_port_etc_def port_lookup_fails_def after_acquire_def Let_def p1)
  have no_err: "B_NO_ERROR \<noteq> ERR_SEM_DELETED" "B_NO_ERROR \<noteq> EINTR" "B_NO_ERROR \<noteq> ERR_SEM_TIMED_OUT" by (simp_all add: err_defs)
  have rs1: "sem_free ?r (int ?len) (tm_world k1)"
    using r(9) by (rule sem_free_other [where n = "sem_slot ?w"]) (use r(11) in \<open>simp_all add: w1\<close>)
  have finish: "\<exists>p' F' k'. write_port_etc clock late i code a n flags timeout p = Returns (PDone B_NO_ERROR, p') \<and>
      port_rep idle i p' (ms @ [(code, bs)]) (chs @ [c]) rest F' N k' \<and> pt_kmem p' = pt_kmem p \<and> pt_umem p' = pt_umem p"
    if go: "write_port_rest clock i code a n ?f B_NO_ERROR p1 = store_msg clock i m (p1\<lparr>pt_cbufs := cb\<rparr>)"
      and bufs: "cb_rep cb F2 N (chs @ c # rest) k2" "\<not> cb_sem_held cb" "\<forall>d \<in> set chs. \<forall>x \<in> set d. cb_mem cb x = cb_mem (pt_cbufs p) x"
      and msg: "msg_at (cb_mem cb) m c (code, bs)" for cb c m bs F2 k2
  proof -
    let ?p2 = "p1\<lparr>pt_cbufs := cb\<rparr>"
    have s: "pt_active ?p2" "pe_id (the_port i ?p2) = i" "ring_ok (the_port i ?p2) ?len" "?len < nat (pe_capacity (the_port i ?p2))"
      "kinv idle (pt_kernel ?p2)" "sem_free (pe_read_sem (the_port i ?p2)) (int ?len) (tm_world (pt_kernel ?p2))"
      using r inv1 rs1 nlen by (simp_all add: e1) (simp_all add: p1)
    from store_msg_spec [OF s(1) r(2) s(2-6), of clock m] obtain k2' e' q t where
      st: "store_msg clock i m ?p2 = Returns (B_NO_ERROR, (set_port (port_slot i) (\<lambda>_. e') ?p2)\<lparr>pt_kernel := k2'\<rparr>)"
      and q: "pe_queue ?e = Some q" and e': "e' = ?e\<lparr>pe_queue := Some (q[nat (pe_head ?e) := m]),
        pe_head := crem (pe_head ?e + 1) (pe_capacity ?e), pe_total := t\<rparr>"
      and inv2: "kinv idle k2'" and w2: "tm_world k2' = set_sem (sem_slot ?r) (\<lambda>e. e\<lparr>se_count := int ?len + 1\<rparr>) (tm_world k1)"
      by (auto simp: e1) (simp add: p1)
    let ?p' = "(set_port (port_slot i) (\<lambda>_. e') p)\<lparr>pt_kernel := k2', pt_cbufs := cb\<rparr>"
    have pe: "(set_port (port_slot i) (\<lambda>_. e') ?p2)\<lparr>pt_kernel := k2'\<rparr> = ?p'" by (simp add: p1 set_port_def)
    have "write_port_etc clock late i code a n flags timeout p = Returns (PDone B_NO_ERROR, ?p')"
      by (simp add: run go st pe)
    moreover have "port_rep idle i ?p' (ms @ [(code, bs)]) (chs @ [c]) rest F2 N k2"
    proof (rule rep_append [OF rep room inv2 _ _ _ bufs msg q e' refl])
      show "ks_current (tm_world k2') = ks_current (tm_world (pt_kernel p))" by (simp add: w2 w1)
      show "sem_free ?r (int ?len + 1) (tm_world k2')" using rs1 by (simp add: sem_free_def w2)
      show "sem_free ?w (pe_capacity ?e - int ?len - 1) (tm_world k2')" using r(10,11) by (simp add: sem_free_def w2 w1)
    qed
    ultimately show ?thesis by (intro exI [of _ ?p'] exI [of _ F2] exI [of _ k2]) simp
  qed
  show ?thesis
  proof (cases "n = 0")
    case True
    have go: "write_port_rest clock i code a n ?f B_NO_ERROR p1 =
        store_msg clock i \<lparr>pm_code = code, pm_cbuf = None, pm_len = 0\<rparr> (p1\<lparr>pt_cbufs := pt_cbufs p\<rparr>)"
      using True no_err by (simp add: write_port_rest_def p1)
    have "cb_rep (pt_cbufs p) F N ([] # chs @ rest) k0" using r(5) by (simp add: cb_rep_empty)
    then have "cb_rep (pt_cbufs p) F N (chs @ [] # rest) k0" by (rule cb_rep_perm) simp
    note rep0 = this
    have msg: "msg_at (cb_mem (pt_cbufs p)) \<lparr>pm_code = code, pm_cbuf = None, pm_len = 0\<rparr> [] (code, [])"
      by (simp add: msg_at_def chain_bytes_def PORT_MAX_MESSAGE_SIZE_def)
    have fr: "\<forall>d \<in> set chs. \<forall>x \<in> set d. cb_mem (pt_cbufs p) x = cb_mem (pt_cbufs p) x" by simp
    note finish [OF go rep0 r(6) fr msg]
    moreover have "written ?f a n p []" using True by (simp add: written_def kmem_read_def)
    ultimately show ?thesis by blast
  next
    case False
    then have pos: "0 < n" by simp
    obtain c s1 F1 k2 where
      g: "cbuf_get_chain n (pt_cbufs p) = Returns (Some (hd c), s1)" and rep1: "cb_rep s1 F1 N (c # chs @ rest) k2"
      and h1: "\<not> cb_sem_held s1" and live: "live (cb_mem s1) c" and bytes: "bytes_in (cb_mem s1) c = n"
      and fr: "\<forall>d \<in> set (chs @ rest). \<forall>x \<in> set d. cb_mem s1 x = cb_mem (pt_cbufs p) x"
      and left: "length F1 + length c + 32 * (63 - k2) = length F + 32 * (63 - k0)"
      by (rule get_chain_live [OF r(5,6) pos mem])
    let ?p2 = "p1\<lparr>pt_cbufs := s1\<rparr>"
    have "n < 2 ^ 32" using n by (simp add: PORT_MAX_MESSAGE_SIZE_def)
    with live bytes obtain rc m where ci: "copy_in ?f a n (hd c) ?p2 = Returns (rc, ?p2\<lparr>pt_cbufs := s1\<lparr>cb_mem := m\<rparr>\<rparr>)"
      and rc: "0 \<le> rc" and d: "dat_only c (cb_mem s1) m" and wr: "written ?f a n ?p2 (chain_bytes m c)"
      using copy_in_spec [of ?p2 c n ?f a] by auto
    have go: "write_port_rest clock i code a n ?f B_NO_ERROR p1 =
        store_msg clock i \<lparr>pm_code = code, pm_cbuf = Some (hd c), pm_len = n\<rparr> (p1\<lparr>pt_cbufs := s1\<lparr>cb_mem := m\<rparr>\<rparr>)"
      using pos no_err g ci rc by (simp add: write_port_rest_def p1)
    have "cb_rep (s1\<lparr>cb_mem := m\<rparr>) F1 N (c # chs @ rest) k2" by (rule dat_only_rep [OF rep1 _ d]) simp
    then have rep2: "cb_rep (s1\<lparr>cb_mem := m\<rparr>) F1 N (chs @ c # rest) k2" by (rule cb_rep_perm) simp
    have dist: "distinct (concat (F1 # N # c # chs @ rest))" using rep1 by (simp add: cb_rep_def)
    have fr2: "\<forall>d \<in> set chs. \<forall>x \<in> set d. cb_mem (s1\<lparr>cb_mem := m\<rparr>) x = cb_mem (pt_cbufs p) x"
    proof (intro ballI)
      fix dd x
      assume a: "dd \<in> set chs" "x \<in> set dd"
      then have "x \<notin> set c" using dist by auto
      then have "m x = cb_mem s1 x" using d by (simp add: dat_only_def)
      also have "\<dots> = cb_mem (pt_cbufs p) x" using fr a by auto
      finally show "cb_mem (s1\<lparr>cb_mem := m\<rparr>) x = cb_mem (pt_cbufs p) x" by simp
    qed
    have "live m c" by (rule dat_only_live [OF d live])
    then have wc: "whole_chain m c" "c \<noteq> []" by (simp_all add: live_def whole_chain_def)
    have len: "length (chain_bytes m c) = n" using wr by (simp add: written_def)
    have hc: "hd_ptr c = Some (hd c)" using wc(2) by (cases c) simp_all
    have msg: "msg_at (cb_mem (s1\<lparr>cb_mem := m\<rparr>)) \<lparr>pm_code = code, pm_cbuf = Some (hd c), pm_len = n\<rparr> c (code, chain_bytes m c)"
      using wc len pos hc n by (auto simp: msg_at_def)
    have "\<not> cb_sem_held (s1\<lparr>cb_mem := m\<rparr>)" using h1 by simp
    note fin = finish [OF go rep2 this fr2 msg]
    have "written ?f a n p (chain_bytes m c)" using wr by (simp add: written_def p1)
    with fin show ?thesis by blast
  qed
qed

section \<open>Reading\<close>

text \<open>The state after the bytes were given to the reader.\<close>

definition delivered :: "32 word \<Rightarrow> nat \<Rightarrow> byte list \<Rightarrow> ports \<Rightarrow> ports" where
  "delivered flags a bs p =
     (if user_copy flags then p\<lparr>pt_umem := snd (user_memcpy_out (pt_umem p) a bs)\<rparr>
      else p\<lparr>pt_kmem := kmem_write a bs (pt_kmem p)\<rparr>)"

lemma delivered_empty [simp]: "delivered flags a [] p = p"
proof -
  have "kmem_write a [] m = m" for m by (auto simp: kmem_write_def fun_eq_iff)
  then show ?thesis by (simp add: delivered_def)
qed

lemma delivered_rest [simp]:
  "pt_kernel (delivered f a bs p) = pt_kernel p" "pt_cbufs (delivered f a bs p) = pt_cbufs p"
  "pt_active (delivered f a bs p) = pt_active p" "the_port i (delivered f a bs p) = the_port i p"
  "pt_leaked (delivered f a bs p) = pt_leaked p"
  by (simp_all add: delivered_def)

lemma copy_out_spec:
  assumes "live (cb_mem (pt_cbufs p)) c" and "0 < siz" and "siz \<le> bytes_in (cb_mem (pt_cbufs p)) c"
    and "bytes_in (cb_mem (pt_cbufs p)) c < 2 ^ 32"
  shows "copy_out flags a (Some (hd c)) siz p = Returns (False, delivered flags a (take siz (chain_bytes (cb_mem (pt_cbufs p)) c)) p)"
proof -
  have "0 + siz \<le> bytes_in (cb_mem (pt_cbufs p)) c" using assms(3) by simp
  note m = memcpy_from_chain_live [OF assms(1) this assms(4)]
  show ?thesis
    using m(1) m(2) [OF assms(2), of a "pt_umem p"]
    by (cases "user_memcpy_out (pt_umem p) a (take siz (chain_bytes (cb_mem (pt_cbufs p)) c))")
       (simp add: copy_out_def delivered_def)
qed

text \<open>The entry after the first message was taken.\<close>

lemma ring_ok_take:
  assumes "ring_ok e (Suc n)" and "pe_queue e = Some q"
    and "e' = e\<lparr>pe_tail := crem (pe_tail e + 1) (pe_capacity e), pe_queue := Some (q[nat (pe_tail e) := m])\<rparr>"
  shows "ring_ok e' n" and "ring e' j = ring e (Suc j)" and "j < n \<Longrightarrow> the (pe_queue e') ! ring e' j = q ! ring e (Suc j)"
proof -
  let ?c = "nat (pe_capacity e)"
  have r: "1 \<le> pe_capacity e" "0 \<le> pe_tail e" "pe_tail e < pe_capacity e" "Suc n \<le> ?c" "length q = ?c"
    using assms(1,2) by (auto simp: ring_ok_def)
  have nt: "pe_tail e' = int (ring e 1)" using ring_next_tail [OF assms(1)] by (simp add: assms(3))
  show rj: "ring e' j = ring e (Suc j)" for j
    using nt by (simp add: ring_def assms(3) mod_simps)
  have "ring e 1 < ?c" by (rule ring_bound [OF assms(1)])
  with nt r have "0 \<le> pe_tail e'" "pe_tail e' < pe_capacity e" by simp_all
  with assms(1,2) r rj [of n] show "ring_ok e' n" by (simp add: ring_ok_def assms(3))
  assume j: "j < n"
  have t: "nat (pe_tail e) = ring e 0" using r by (simp add: ring_def)
  have "ring e (Suc j) \<noteq> ring e 0" using ring_distinct [OF assms(1), of "Suc j" 0] j r(1,4) by fastforce
  then show "the (pe_queue e') ! ring e' j = q ! ring e (Suc j)" unfolding rj t by (simp add: assms(3) t)
qed

lemma free_msg:
  assumes rep: "cb_rep s F N (c # cs) k" and h: "\<not> cb_sem_held s"
  obtains s' where "cbuf_free_chain (hd_ptr c) s = Returns s'" and "cb_rep s' (c @ F) N cs k" and "\<not> cb_sem_held s'"
    and "\<forall>d \<in> set cs. \<forall>x \<in> set d. cb_mem s' x = cb_mem s x"
proof (cases "c = []")
  case True
  with assms that [of s] show ?thesis by (simp add: cbuf_free_chain_def cb_rep_empty)
next
  case False
  from free_chain_rep(1) [OF rep False h] obtain s' where s': "cbuf_free_chain (hd_ptr c) s = Returns s'"
    "cb_rep s' (c @ F) N cs k" "\<not> cb_sem_held s'" "\<forall>i. i \<notin> set c \<longrightarrow> cb_mem s' i = cb_mem s i" by blast
  have "distinct (concat (F # N # c # cs))" using rep by (simp add: cb_rep_def)
  then have "\<forall>d \<in> set cs. \<forall>x \<in> set d. cb_mem s' x = cb_mem s x" using s'(4) by auto
  with s'(1-3) show ?thesis by (rule that)
qed

lemma read_port_rep:
  assumes rep: "port_rep idle i p ((code, bs) # ms) (c # chs) rest F N k0" and buf: "\<not> (buffer = None \<and> 0 < n)" and t: "0 \<le> timeout"
  shows "\<exists>p'. read_port_etc clock late i True buffer n flags timeout p = Returns (RDone (int (min n (length bs))) (Some code), p') \<and>
           port_rep idle i p' ms chs rest (c @ F) N k0 \<and>
           pt_umem p' = pt_umem (delivered (port_flags flags) (case buffer of None \<Rightarrow> 0 | Some x \<Rightarrow> x) (take n bs) p) \<and>
           pt_kmem p' = pt_kmem (delivered (port_flags flags) (case buffer of None \<Rightarrow> 0 | Some x \<Rightarrow> x) (take n bs) p)"
proof -
  let ?e = "the_port i p" and ?len = "length ms" and ?f = "port_flags flags" and ?a = "case buffer of None \<Rightarrow> 0 | Some x \<Rightarrow> x"
  let ?w = "pe_write_sem ?e" and ?r = "pe_read_sem ?e" and ?siz = "min n (length bs)"
  have r: "pt_active p" "0 \<le> i" "pe_id ?e = i" "ring_ok ?e (Suc ?len)" "cb_rep (pt_cbufs p) F N (c # chs @ rest) k0" "\<not> cb_sem_held (pt_cbufs p)"
    "kinv idle (pt_kernel p)" "ks_current (tm_world (pt_kernel p)) \<noteq> idle" "sem_free ?r (int ?len + 1) (tm_world (pt_kernel p))"
    "sem_free ?w (pe_capacity ?e - int ?len - 1) (tm_world (pt_kernel p))" "sem_slot ?r \<noteq> sem_slot ?w" "length chs = ?len"
    using rep by (simp_all add: port_rep_def Let_def algebra_simps)
  have msgs: "msg_at (cb_mem (pt_cbufs p)) (the (pe_queue ?e) ! ring ?e j) ((c # chs) ! j) (((code, bs) # ms) ! j)" if "j < Suc ?len" for j
    using rep that by (simp add: port_rep_def Let_def)
  obtain q where q: "pe_queue ?e = Some q" "length q = nat (pe_capacity ?e)" using r(4) by (auto simp: ring_ok_def)
  have tb: "0 \<le> pe_tail ?e" "pe_tail ?e < pe_capacity ?e" "Suc ?len \<le> nat (pe_capacity ?e)" "pe_capacity ?e \<le> 4096"
    using r(4) by (simp_all add: ring_ok_def MAX_QUEUE_LENGTH_def)
  obtain m where m: "m = q ! nat (pe_tail ?e)" by simp
  have at: "ring_at (pe_tail ?e) ?e = Returns m" using tb q m by (simp add: ring_at_def)
  have "ring ?e 0 = nat (pe_tail ?e)" using tb by (simp add: ring_def)
  with msgs [of 0] q(1) m have mm: "msg_at (cb_mem (pt_cbufs p)) m c (code, bs)" by simp
  then have mf: "pm_code m = code" "pm_len m = length bs" "pm_cbuf m = hd_ptr c" "chain_bytes (cb_mem (pt_cbufs p)) c = bs"
    "length bs \<le> 65536" "c = [] \<longleftrightarrow> bs = []" "c \<noteq> [] \<longrightarrow> whole_chain (cb_mem (pt_cbufs p)) c"
    by (simp_all add: msg_at_def PORT_MAX_MESSAGE_SIZE_def)
  have "1 \<le> int ?len + 1" by simp
  from acquire_one [OF r(7,8,9) this, of clock late ?f timeout] obtain k1 where
    acq: "acquire_sem_etc clock late ?r 1 ?f timeout (pt_kernel p) = Returns (Done B_NO_ERROR, k1)"
    and inv1: "kinv idle k1" and w1: "tm_world k1 = set_sem (sem_slot ?r) (\<lambda>e. e\<lparr>se_count := int ?len\<rparr>) (tm_world (pt_kernel p))"
    by auto
  have no_err: "B_NO_ERROR \<noteq> ERR_SEM_DELETED" "B_NO_ERROR \<noteq> EINTR" "B_NO_ERROR \<noteq> ERR_SEM_TIMED_OUT" by (simp_all add: err_defs)
  obtain e' where e': "e' = ?e\<lparr>pe_tail := crem (pe_tail ?e + 1) (pe_capacity ?e), pe_queue := Some (q[nat (pe_tail ?e) := m\<lparr>pm_cbuf := None\<rparr>])\<rparr>" by simp
  obtain p1 where p1: "p1 = (set_port (port_slot i) (\<lambda>_. e') p)\<lparr>pt_kernel := k1\<rparr>" by simp
  have sp: "set_port (port_slot i) (\<lambda>e. e\<lparr>pe_tail := crem (pe_tail e + 1) (pe_capacity e),
      pe_queue := map_option (\<lambda>q. q[nat (pe_tail ?e) := m\<lparr>pm_cbuf := None\<rparr>]) (pe_queue e)\<rparr>) (p\<lparr>pt_kernel := k1\<rparr>) = p1"
    using q(1) by (simp add: p1 set_port_def the_port_def e')
  have co: "(if 0 < ?siz then copy_out ?f ?a (pm_cbuf m) ?siz p1 else Returns (False, p1)) = Returns (False, delivered ?f ?a (take n bs) p1)"
  proof (cases "0 < ?siz")
    case True
    then have c: "c \<noteq> []" using mf(6) by auto
    then have hc: "pm_cbuf m = Some (hd c)" using mf(3) by (cases c) simp_all
    have live: "live (cb_mem (pt_cbufs p1)) c" using live_rep [OF r(5), of c] mf(7) c by (simp add: p1)
    have bl: "bytes_in (cb_mem (pt_cbufs p1)) c = length bs" using live mf(4) by (auto simp: live_def p1)
    have tk: "take ?siz bs = take n bs" by (simp add: min_def)
    have "?siz \<le> bytes_in (cb_mem (pt_cbufs p1)) c" "bytes_in (cb_mem (pt_cbufs p1)) c < 2 ^ 32" using bl mf(5) by simp_all
    from copy_out_spec [OF live True this, of ?f ?a] True hc tk mf(4) show ?thesis by (simp add: p1)
  qed (use mf(6) in \<open>auto simp: min_def split: if_splits\<close>)
  obtain p2 where p2: "p2 = delivered ?f ?a (take n bs) p1" by simp
  have f2: "pt_kernel p2 = k1" "pt_cbufs p2 = pt_cbufs p" "pt_active p2" "the_port i p2 = e'"
    using r(1) by (simp_all add: p2 p1)
  obtain cb where fc: "cbuf_free_chain (hd_ptr c) (pt_cbufs p) = Returns cb" and rep1: "cb_rep cb (c @ F) N (chs @ rest) k0"
    and h1: "\<not> cb_sem_held cb" and fr: "\<forall>d \<in> set (chs @ rest). \<forall>x \<in> set d. cb_mem cb x = cb_mem (pt_cbufs p) x"
    by (rule free_msg [OF r(5,6)])
  have ws1: "sem_free ?w (pe_capacity ?e - int ?len - 1) (tm_world k1)"
    using r(10) by (rule sem_free_other [where n = "sem_slot ?r"]) (use r(11) in \<open>simp_all add: w1\<close>)
  have "0 \<le> pe_capacity ?e - int ?len - 1" "pe_capacity ?e - int ?len - 1 + 1 < 2 ^ 31" using tb by simp_all
  from release_one [OF inv1 ws1 this, of clock] obtain k2 where
    rel: "release_sem clock ?w k1 = Returns (0, k2)" and inv2: "kinv idle k2"
    and w2: "tm_world k2 = set_sem (sem_slot ?w) (\<lambda>e. e\<lparr>se_count := pe_capacity ?e - int ?len\<rparr>) (tm_world k1)" by auto
  let ?p' = "p2\<lparr>pt_cbufs := cb, pt_kernel := k2\<rparr>"
  have si: "s32 ?siz = int ?siz" using mf(5) by simp
  have co2: "(if 0 < min n (pm_len m) then copy_out ?f ?a (pm_cbuf m) (min n (pm_len m)) p1 else Returns (False, p1)) = Returns (False, p2)"
    by (simp only: mf(2) co p2)
  have fc2: "cbuf_free_chain (pm_cbuf m) (pt_cbufs p) = Returns cb" using fc mf(3) by simp
  have si2: "s32 (min n (pm_len m)) = int ?siz" using si mf(2) by simp
  have rest: "read_port_rest clock i ?a n ?f B_NO_ERROR (p\<lparr>pt_kernel := k1\<rparr>) = Returns ((int ?siz, Some code), ?p')"
    unfolding read_port_rest_def Let_def the_port_rest
    by (simp add: no_err at sp co2 fc2 rel f2 mf(1) si2 release_port_sem_def e' del: min_less_iff_conj split del: if_split cong: if_cong)
  have run: "read_port_etc clock late i True buffer n flags timeout p = Returns (RDone (int ?siz) (Some code), ?p')"
  proof -
    have "\<not> timeout < 0" "\<not> i < 0" using t r(2) by simp_all
    with r(1,3) buf acq rest show ?thesis by (simp only: read_port_etc_def port_lookup_fails_def Let_def) simp
  qed
  note tk = ring_ok_take [OF r(4) q(1) e']
  have new: "msg_at (cb_mem cb) (the (pe_queue e') ! ring e' j) (chs ! j) (ms ! j)" if "j < ?len" for j
  proof -
    have "chs ! j \<in> set (chs @ rest)" using that r(12) by simp
    then have "\<forall>x \<in> set (chs ! j). cb_mem cb x = cb_mem (pt_cbufs p) x" using fr by blast
    then have eq: "msg_at (cb_mem cb) y (chs ! j) z = msg_at (cb_mem (pt_cbufs p)) y (chs ! j) z" for y z
      using msg_at_cong [of "chs ! j" "cb_mem cb" "cb_mem (pt_cbufs p)"] by simp
    show ?thesis using msgs [of "Suc j"] that q(1) unfolding eq by (simp add: tk(3))
  qed
  have sems: "sem_free ?r (int ?len) (tm_world k2)" "sem_free ?w (pe_capacity ?e - int ?len) (tm_world k2)"
    "ks_current (tm_world k2) \<noteq> idle"
    using r(8-11) by (simp_all add: sem_free_def w2 w1)
  have "port_rep idle i ?p' ms chs rest (c @ F) N k0"
    using f2 r(2,3,11,12) tk(1) new rep1 h1 inv2 sems unfolding port_rep_def Let_def by (simp add: e')
  with run show ?thesis by (intro exI [of _ ?p'] conjI) (simp_all add: p2 p1 delivered_def)
qed

end
