(* ===== verification/Port_Main.thy ===== *)
theory Port_Main
  imports Port_Props
begin

text \<open>
  The properties of \<open>port.c\<close>: a new port is an empty queue, a write appends a message, a read
  takes the first one, and a deletion gives all the chains back.
\<close>

section \<open>Creating a port\<close>

lemma next_port_id_spec:
  assumes "0 \<le> n" and "n + int MAX_PORTS < 2 ^ 31" and "i < MAX_PORTS"
  shows "n \<le> next_port_id i n" and "next_port_id i n < n + int MAX_PORTS" and "port_slot (next_port_id i n) = i"
  using next_slot_id [OF assms(1,2) _ next_port_id_def] assms(3) by (simp_all add: port_slot_def)

lemma create_sem_frame:
  assumes "sems_ok s" and "0 \<le> n" "ks_next_sem s + int MAX_SEMS < 2 ^ 31" and "create_sem_etc True n name owner s = (r, s')"
  shows "ks_next_sem s' \<le> ks_next_sem s + int MAX_SEMS" and "ks_current s' = ks_current s"
proof -
  have nn: "0 \<le> ks_next_sem s" "ks_sems_active s" using assms(1) by (simp_all add: sems_ok_def)
  have n1: "i32 (next_sem_id i (ks_next_sem s) + 1) \<le> ks_next_sem s + int MAX_SEMS"
    if "find (\<lambda>i. se_id (ks_sems s i) = -1) [0..<MAX_SEMS] = Some i" for i
  proof -
    from that have "i < MAX_SEMS" by (auto simp: find_Some_iff)
    from next_sem_id_spec(1,2) [OF nn(1) assms(3) this] nn(1) assms(3) show ?thesis by simp
  qed
  show "ks_next_sem s' \<le> ks_next_sem s + int MAX_SEMS" "ks_current s' = ks_current s"
    using assms(4) nn(2) n1 by (auto simp: create_sem_etc_def Let_def split: option.splits)
qed

lemma create_sem_made:
  assumes k: "kinv idle k" and n: "0 \<le> n" "n < 2 ^ 31" and nx: "ks_next_sem (tm_world k) + int MAX_SEMS < 2 ^ 31"
    and free: "m < MAX_SEMS" "se_id (ks_sems (tm_world k) m) = -1"
  obtains r s' where "create_sem_etc True n name owner (tm_world k) = (r, s')" and "kinv idle (in_world (\<lambda>_. s') k)"
    and "sem_created r n owner (tm_world k) s'" and "ks_next_sem s' \<le> ks_next_sem (tm_world k) + int MAX_SEMS"
    and "ks_current s' = ks_current (tm_world k)"
proof -
  have ex: "True \<and> (\<exists>m < MAX_SEMS. se_id (ks_sems (tm_world k) m) = -1)" using free by blast
  from create_sem_etc_spec [OF k n nx, of True name owner] obtain r s' where
    run: "create_sem_etc True n name owner (tm_world k) = (r, s')" and inv: "kinv idle (in_world (\<lambda>_. s') k)"
    and c: "sem_created r n owner (tm_world k) s'"
    unfolding if_P [OF ex] by blast
  have ok: "sems_ok (tm_world k)" using k by (simp add: kinv_def kernel_ok_def)
  from that [OF run inv c create_sem_frame [OF ok n(1) nx run]] show thesis .
qed

lemma kinv_overrun:
  assumes "kinv idle k"
  shows "kinv idle (in_world (\<lambda>s. s\<lparr>ks_overrun := n s\<rparr>) k)"
proof -
  let ?s = "tm_world k" and ?s' = "(tm_world k)\<lparr>ks_overrun := n (tm_world k)\<rparr>"
  from assms obtain L where ok: "kernel_ok idle [] ?s" and sem: "sems_ok ?s" and cur: "eff ?s (ks_current ?s) = THREAD_STATE_READY"
    by (rule kinvD) blast
  have "sems_ok ?s'" using sem by (rule sems_ok_transfer) simp_all
  then have "kernel_ok idle [] ?s'" by (intro kernel_ok_sems [OF ok]) simp_all
  then have "kinv idle (in_world (\<lambda>_. ?s') k)"
    by (rule kinv_in_world [OF assms]) (use cur in \<open>simp_all add: eff_def\<close>)
  then show ?thesis by (simp add: in_world_def)
qed

definition all_mem :: port_mem where
  "all_mem = \<lparr>mem_name = True, mem_queue = True, mem_read_sem = True, mem_write_sem = True\<rparr>"

text \<open>What the call leaves in the other slots, and in the fields it does not set.\<close>

definition port_created :: "(nat \<Rightarrow> port_msg) \<Rightarrow> int \<Rightarrow> int \<Rightarrow> int \<Rightarrow> ports \<Rightarrow> ports \<Rightarrow> bool" where
  "port_created junk i n owner p p' \<longleftrightarrow>
     (\<forall>m. m \<noteq> port_slot i \<longrightarrow> pt_entry p' m = pt_entry p m) \<and> pe_id (the_port i p) = -1 \<and> pt_next p \<le> i \<and>
     pe_capacity (the_port i p') = n \<and> pe_owner (the_port i p') = owner \<and> pe_closed (the_port i p') = pe_closed (the_port i p) \<and>
     pe_queue (the_port i p') = Some (map junk [0..<nat n]) \<and> pt_kmem p' = pt_kmem p \<and> pt_umem p' = pt_umem p"

lemma create_port_spec:
  assumes act: "pt_active p" and k: "kinv idle (pt_kernel p)" and cur: "ks_current (tm_world (pt_kernel p)) \<noteq> idle"
    and len: "1 \<le> n" "n \<le> MAX_QUEUE_LENGTH"
    and sems: "ks_next_sem (tm_world (pt_kernel p)) + 2 * int MAX_SEMS < 2 ^ 31"
      "m < MAX_SEMS" "se_id (ks_sems (tm_world (pt_kernel p)) m) = -1"
      "m' < MAX_SEMS" "se_id (ks_sems (tm_world (pt_kernel p)) m') = -1" "m \<noteq> m'"
    and slot: "j < MAX_PORTS" "pe_id (pt_entry p j) = -1" and nx: "0 \<le> pt_next p" "pt_next p + int MAX_PORTS < 2 ^ 31"
    and bufs: "cb_rep (pt_cbufs p) F N rest k0" "\<not> cb_sem_held (pt_cbufs p)"
  shows "\<exists>i p'. create_port clock all_mem junk owner n name p = Returns (i, p') \<and> port_rep idle i p' [] [] rest F N k0 \<and>
           port_created junk i n owner p p'"
proof -
  let ?nm = "Some (case name of Some c \<Rightarrow> take (SYS_MAX_OS_NAME_LEN - 1) c | None \<Rightarrow> default_port_name)"
  have n: "n < 2 ^ 31" "0 \<le> n" using len by (simp_all add: MAX_QUEUE_LENGTH_def)
  obtain k1 where k1: "k1 = in_world (\<lambda>s. s\<lparr>ks_overrun := ks_overrun s + port_overrun name\<rparr>) (pt_kernel p)" by simp
  obtain s0 where s0: "s0 = (tm_world (pt_kernel p))\<lparr>ks_overrun := ks_overrun (tm_world (pt_kernel p)) + port_overrun name\<rparr>" by simp
  have w1: "tm_world k1 = s0" by (simp add: k1 s0)
  have f0: "ks_sems s0 = ks_sems (tm_world (pt_kernel p))" "ks_next_sem s0 = ks_next_sem (tm_world (pt_kernel p))"
    "ks_current s0 = ks_current (tm_world (pt_kernel p))" by (simp_all add: s0)
  have inv1: "kinv idle k1" unfolding k1 by (rule kinv_overrun [OF k])
  obtain sr s2 where r: "create_sem_etc True 0 ?nm (-1) (tm_world k1) = (sr, s2)" and inv2: "kinv idle (in_world (\<lambda>_. s2) k1)"
    and c2: "sem_created sr 0 (-1) (tm_world k1) s2" and n2: "ks_next_sem s2 \<le> ks_next_sem (tm_world k1) + int MAX_SEMS"
    and u2: "ks_current s2 = ks_current (tm_world k1)"
    by (rule create_sem_made [OF inv1, of 0 m ?nm "-1"]) (use sems in \<open>simp_all add: w1 f0\<close>)
  obtain k2 where k2: "k2 = in_world (\<lambda>_. s2) k1" by simp
  have w2: "tm_world k2 = s2" by (simp add: k2)
  have "\<exists>m'' < MAX_SEMS. se_id (ks_sems s2 m'') = -1"
  proof (cases "m = sem_slot sr")
    case True
    then show ?thesis using c2 sems by (intro exI [of _ m']) (auto simp: sem_created_def w1 f0)
  next
    case False
    then show ?thesis using c2 sems by (intro exI [of _ m]) (auto simp: sem_created_def w1 f0)
  qed
  then obtain m2 where m2: "m2 < MAX_SEMS" "se_id (ks_sems (tm_world k2) m2) = -1" by (auto simp: w2)
  have b3: "ks_next_sem (tm_world k2) + int MAX_SEMS < 2 ^ 31" using n2 sems(1) by (simp add: w2 w1 f0)
  obtain sw s3 where w: "create_sem_etc True n ?nm (-1) (tm_world k2) = (sw, s3)" and inv3: "kinv idle (in_world (\<lambda>_. s3) k2)"
    and c3: "sem_created sw n (-1) (tm_world k2) s3" and u3: "ks_current s3 = ks_current (tm_world k2)"
    by (rule create_sem_made [OF _ n(2,1) b3 m2, of idle ?nm "-1"]) (use inv2 in \<open>simp add: k2\<close>)
  obtain k3 where k3: "k3 = in_world (\<lambda>_. s3) k2" by simp
  have pos: "0 \<le> sr" "0 \<le> sw" using c2 c3 by (simp_all add: sem_created_def)
  have ne: "sem_slot sr \<noteq> sem_slot sw" using c2 c3 by (auto simp: sem_created_def w2)
  obtain l where l: "find (\<lambda>i. pe_id (pt_entry p i) = -1) [0..<MAX_PORTS] = Some l"
    using slot by (cases "find (\<lambda>i. pe_id (pt_entry p i) = -1) [0..<MAX_PORTS]") (auto simp: find_None_iff)
  then have lb: "l < MAX_PORTS" "pe_id (pt_entry p l) = -1" by (auto simp: find_Some_iff)
  let ?new = "next_port_id l (pt_next p)"
  note new = next_port_id_spec [OF nx lb(1)]
  obtain e' where e': "e' = (pt_entry p l)\<lparr>pe_id := ?new, pe_capacity := n, pe_name := ?nm, pe_read_sem := sr, pe_write_sem := sw,
      pe_queue := Some (map junk [0..<nat n]), pe_head := 0, pe_tail := 0, pe_total := 0, pe_owner := owner\<rparr>" by simp
  obtain p' where p': "p' = p\<lparr>pt_entry := (pt_entry p)(l := e'), pt_kernel := k3, pt_next := i32 (?new + 1)\<rparr>" by simp
  have fits: "\<not> (n < 1 \<or> MAX_QUEUE_LENGTH < n)" using len by simp
  have run: "create_port clock all_mem junk owner n name p = Returns (?new, p')"
    unfolding create_port_def Let_def
    using act fits pos l r w [unfolded w2] by (simp add: all_mem_def k1 [symmetric] k2 [symmetric] k3 [symmetric] p' e' set_port_def)
  have ent: "the_port ?new p' = e'" by (simp add: the_port_def p' new(3))
  have rep: "port_rep idle ?new p' [] [] rest F N k0"
  proof -
    have sf: "sem_free sr 0 s3" "sem_free sw n s3"
      using c2 c3 ne pos by (simp_all add: sem_created_def sem_free_def w2)
    have ro: "ring_ok e' 0" using len by (simp add: ring_ok_def e' ring_def)
    have k3c: "kinv idle k3" "tm_world k3 = s3" "ks_current s3 \<noteq> idle" using inv3 u3 u2 cur by (simp_all add: k3 w2 w1 f0)
    have "0 \<le> ?new" using new(1) nx(1) by linarith
    then show ?thesis
      using act ro bufs sf ne k3c unfolding port_rep_def Let_def ent by (simp add: p') (simp add: e')
  qed
  have "port_created junk ?new n owner p p'"
    using lb(2) new by (simp add: port_created_def the_port_def p' e')
  with run rep show ?thesis by blast
qed

section \<open>Deleting a port\<close>

lemma free_msgs_spec:
  "list_all2 (\<lambda>q d. pm_cbuf q = hd_ptr d) qs ds \<Longrightarrow> cb_rep s F N (ds @ rest) k \<Longrightarrow> \<not> cb_sem_held s \<Longrightarrow>
     \<exists>s'. free_msgs qs s = Returns s' \<and> cb_rep s' (concat (rev ds) @ F) N rest k \<and> \<not> cb_sem_held s'"
proof (induction qs ds arbitrary: s F rule: list_all2_induct)
  case (Cons q qs d ds)
  then have rep: "cb_rep s F N (d # ds @ rest) k" by simp
  obtain s1 where s1: "cbuf_free_chain (hd_ptr d) s = Returns s1" "cb_rep s1 (d @ F) N (ds @ rest) k" "\<not> cb_sem_held s1"
    by (rule free_msg [OF rep Cons.prems(2)])
  from Cons.IH [OF s1(2,3)] s1(1) Cons.hyps show ?case by auto
qed simp

lemma mset_reindex:
  assumes "inj_on f {..<c}" and "\<And>j. j < c \<Longrightarrow> f j < (c :: nat)"
  shows "mset (map g [0..<c]) = mset (map (\<lambda>j. g (f j)) [0..<c])"
proof -
  have im: "f ` {..<c} = {..<c}" using assms by (intro endo_inj_surj) auto
  have "mset (map g [0..<c]) = image_mset g (mset_set {..<c})" by (simp add: lessThan_atLeast0 flip: mset_upt)
  also have "\<dots> = image_mset g (image_mset f (mset_set {..<c}))" using image_mset_mset_set [OF assms(1)] im by simp
  also have "\<dots> = mset (map (\<lambda>j. g (f j)) [0..<c])"
    by (simp add: image_mset.compositionality comp_def lessThan_atLeast0 flip: mset_upt)
  finally show ?thesis .
qed

lemma cb_rep_pad: "cb_rep s F N (replicate n [] @ cs) k \<longleftrightarrow> cb_rep s F N cs k"
  by (induction n) (simp_all add: cb_rep_empty)

text \<open>The chains of a port in the order of the ring's slots, which is not the order of the messages.\<close>

lemma ring_chains:
  assumes ok: "ring_ok e n" and q: "pe_queue e = Some q" and len: "length chs = n"
    and used: "\<And>j. j < n \<Longrightarrow> pm_cbuf (q ! ring e j) = hd_ptr (chs ! j)"
    and unused: "\<And>j. n \<le> j \<Longrightarrow> j < nat (pe_capacity e) \<Longrightarrow> pm_cbuf (q ! ring e j) = None"
  obtains ds where "list_all2 (\<lambda>q d. pm_cbuf q = hd_ptr d) q ds" and "mset ds = mset (chs @ replicate (nat (pe_capacity e) - n) [])"
proof -
  let ?c = "nat (pe_capacity e)" and ?xs = "chs @ replicate (nat (pe_capacity e) - n) []"
  have b: "n \<le> ?c" "length q = ?c" using ok q by (auto simp: ring_ok_def)
  have inj: "inj_on (ring e) {..<?c}" using ring_distinct [OF ok] by (intro inj_onI) simp
  have bd: "ring e j < ?c" for j by (rule ring_bound [OF ok])
  obtain g where g: "g = (\<lambda>x. ?xs ! the_inv_into {..<?c} (ring e) x)" by simp
  have g_ring: "g (ring e j) = ?xs ! j" if "j < ?c" for j using the_inv_into_f_f [OF inj] that by (simp add: g)
  have im: "ring e ` {..<?c} = {..<?c}" using inj bd by (intro endo_inj_surj) auto
  have ptr: "pm_cbuf (q ! x) = hd_ptr (g x)" if x: "x < ?c" for x
  proof -
    have "x \<in> ring e ` {..<?c}" using x im by simp
    then obtain j where j: "x = ring e j" "j < ?c" by auto
    show ?thesis using used [of j] unused [of j] j(2) len unfolding j(1) g_ring [OF j(2)] by (auto simp: nth_append)
  qed
  have "mset (map g [0..<?c]) = mset (map (\<lambda>j. ?xs ! j) [0..<?c])"
  proof -
    have "map (\<lambda>j. g (ring e j)) [0..<?c] = map (\<lambda>j. ?xs ! j) [0..<?c]" using g_ring by simp
    with mset_reindex [OF inj bd, of g] show ?thesis by metis
  qed
  also have "map (\<lambda>j. ?xs ! j) [0..<?c] = ?xs" using b len map_nth [of ?xs] by simp
  finally have "mset (map g [0..<?c]) = mset ?xs" .
  moreover have "list_all2 (\<lambda>q d. pm_cbuf q = hd_ptr d) q (map g [0..<?c])"
    using b ptr by (simp add: list_all2_conv_all_nth)
  ultimately show thesis using that by blast
qed

lemma delete_sem_gone:
  assumes "kinv idle k" and "0 \<le> i" and "se_id (ks_sems (tm_world k) (sem_slot i)) = i"
  obtains k' where "delete_sem clock i k = Returns (B_NO_ERROR, k')" and "kinv idle k'"
    and "se_id (ks_sems (tm_world k') (sem_slot i)) = -1"
    and "\<And>m. m \<noteq> sem_slot i \<Longrightarrow> ks_sems (tm_world k') m = ks_sems (tm_world k) m"
proof -
  from delete_sem_etc_spec [OF assms, of clock 0] obtain k' where
    "delete_sem_etc clock i 0 k = Returns (B_NO_ERROR, k')" "kinv idle k'" "sem_gone i (tm_world k) (tm_world k')" by blast
  then show thesis using that [of k'] by (simp add: delete_sem_def sem_gone_def Let_def)
qed

lemma delete_port_spec:
  assumes rep: "port_rep idle i p ms chs rest F N k0"
    and unused: "\<And>j q. pe_queue (the_port i p) = Some q \<Longrightarrow> length ms \<le> j \<Longrightarrow> j < nat (pe_capacity (the_port i p)) \<Longrightarrow>
      pm_cbuf (q ! ring (the_port i p) j) = None"
  shows "\<exists>p' F'. delete_port clock i p = Returns (B_NO_ERROR, p') \<and> cb_rep (pt_cbufs p') F' N rest k0 \<and>
           mset F' = mset F + mset (concat chs) \<and> kinv idle (pt_kernel p') \<and> port_lookup_fails i p' \<and>
           se_id (ks_sems (tm_world (pt_kernel p')) (sem_slot (pe_read_sem (the_port i p)))) = -1 \<and>
           se_id (ks_sems (tm_world (pt_kernel p')) (sem_slot (pe_write_sem (the_port i p)))) = -1"
proof -
  let ?e = "the_port i p" and ?n = "length ms"
  let ?r = "pe_read_sem ?e" and ?w = "pe_write_sem ?e"
  have r: "pt_active p" "0 \<le> i" "pe_id ?e = i" "ring_ok ?e ?n" "length chs = ?n"
    "cb_rep (pt_cbufs p) F N (chs @ rest) k0" "\<not> cb_sem_held (pt_cbufs p)" "kinv idle (pt_kernel p)" "sem_slot ?r \<noteq> sem_slot ?w"
    "\<forall>j < ?n. msg_at (cb_mem (pt_cbufs p)) (the (pe_queue ?e) ! ring ?e j) (chs ! j) (ms ! j)"
    "sem_free ?r (int ?n) (tm_world (pt_kernel p))" "sem_free ?w (pe_capacity ?e - int ?n) (tm_world (pt_kernel p))"
    using rep by (simp_all add: port_rep_def Let_def)
  obtain q where q: "pe_queue ?e = Some q" "length q = nat (pe_capacity ?e)" using r(4) by (auto simp: ring_ok_def)
  have cap: "0 \<le> pe_capacity ?e" using r(4) by (simp add: ring_ok_def)
  have used: "pm_cbuf (q ! ring ?e j) = hd_ptr (chs ! j)" if "j < ?n" for j
    using r(10) that q(1) by (simp add: msg_at_def)
  obtain ds where ds: "list_all2 (\<lambda>q d. pm_cbuf q = hd_ptr d) q ds"
    "mset ds = mset (chs @ replicate (nat (pe_capacity ?e) - ?n) [])"
    by (rule ring_chains [OF r(4) q(1) r(5) used unused [OF q(1)]])
  let ?pad = "replicate (nat (pe_capacity ?e) - ?n) []"
  have "cb_rep (pt_cbufs p) F N (?pad @ chs @ rest) k0" using r(6) by (simp add: cb_rep_pad)
  then have "cb_rep (pt_cbufs p) F N (ds @ rest) k0" by (rule cb_rep_perm) (simp add: ds(2))
  from free_msgs_spec [OF ds(1) this r(7)] obtain c where
    c: "free_msgs q (pt_cbufs p) = Returns c" "cb_rep c (concat (rev ds) @ F) N rest k0" by blast
  have cm: "mset (concat xs) = sum_mset (image_mset mset (mset xs))" for xs :: "nat list list"
    unfolding mset_concat by (simp only: mset_map [symmetric] sum_mset_sum_list)
  have "mset (concat (rev ds)) = mset (concat (chs @ ?pad))" unfolding cm by (simp add: ds(2))
  also have "concat (chs @ ?pad) = concat chs" by simp
  finally have F': "mset (concat (rev ds) @ F) = mset F + mset (concat chs)" by simp
  obtain k1 where k1: "delete_sem clock ?r (pt_kernel p) = Returns (B_NO_ERROR, k1)" "kinv idle k1"
    "se_id (ks_sems (tm_world k1) (sem_slot ?r)) = -1"
    "\<And>m. m \<noteq> sem_slot ?r \<Longrightarrow> ks_sems (tm_world k1) m = ks_sems (tm_world (pt_kernel p)) m"
    by (rule delete_sem_gone [OF r(8), of ?r clock]) (use r(11) in \<open>auto simp: sem_free_def\<close>)
  have w1: "0 \<le> ?w" "se_id (ks_sems (tm_world k1) (sem_slot ?w)) = ?w" using r(9,12) k1(4) [of "sem_slot ?w"] by (auto simp: sem_free_def)
  obtain k2 where k2: "delete_sem clock ?w k1 = Returns (B_NO_ERROR, k2)" "kinv idle k2"
    "se_id (ks_sems (tm_world k2) (sem_slot ?w)) = -1"
    "\<And>m. m \<noteq> sem_slot ?w \<Longrightarrow> ks_sems (tm_world k2) m = ks_sems (tm_world k1) m"
    by (rule delete_sem_gone [OF k1(2) w1, of clock]) auto
  obtain p1 where p1: "p1 = set_port (port_slot i) (\<lambda>e. e\<lparr>pe_id := -1, pe_name := None, pe_queue := None\<rparr>) p" by simp
  let ?p' = "p1\<lparr>pt_cbufs := c, pt_kernel := k2\<rparr>"
  have look: "\<not> port_lookup_fails i p" using r(1-3) by (simp add: port_lookup_fails_def)
  have "delete_port clock i p = Returns (B_NO_ERROR, ?p')"
    unfolding delete_port_def Let_def p1 [symmetric]
    using look q cap c(1) k1(1) k2(1) by (simp add: p1)
  moreover have "port_lookup_fails i ?p'" using r(2) by (simp add: port_lookup_fails_def p1)
  moreover have "se_id (ks_sems (tm_world k2) (sem_slot ?r)) = -1" using k1(3) k2(4) [of "sem_slot ?r"] r(9) by simp
  ultimately show ?thesis using c(2) F' k2(2,3)
    by (intro exI [of _ ?p'] exI [of _ "concat (rev ds) @ F"]) simp
qed

text \<open>The slots of the ring that hold no message point to no chain.\<close>

definition unused_clean :: "int \<Rightarrow> nat \<Rightarrow> ports \<Rightarrow> bool" where
  "unused_clean i n p \<longleftrightarrow>
     (\<forall>j q. pe_queue (the_port i p) = Some q \<longrightarrow> n \<le> j \<longrightarrow> j < nat (pe_capacity (the_port i p)) \<longrightarrow>
        pm_cbuf (q ! ring (the_port i p) j) = None)"

section \<open>A small system\<close>

definition demo_ports :: "cbufst \<Rightarrow> ports" where
  "demo_ports cb = \<lparr>
     pt_entry = (\<lambda>_. \<lparr>pe_id = -1, pe_owner = 0, pe_capacity = 0, pe_name = None, pe_read_sem = 0, pe_write_sem = 0,
       pe_head = 0, pe_tail = 0, pe_total = 0, pe_closed = False, pe_queue = None\<rparr>),
     pt_active = True, pt_next = 1, pt_kernel = demo_kt demo_sem_ks, pt_cbufs = cb, pt_kmem = of_nat, pt_umem = (\<lambda>_. None),
     pt_leaked = 0, pt_freed_twice = 0\<rparr>"

definition no_msg :: port_msg where
  "no_msg = \<lparr>pm_code = 0, pm_cbuf = None, pm_len = 0\<rparr>"

lemma demo_hyps:
  assumes "cb_rep cb [32..<64] [0..<32] [] 2" and "\<not> cb_sem_held cb"
  defines "p \<equiv> demo_ports cb"
  shows "pt_active p" "kinv 0 (pt_kernel p)" "ks_current (tm_world (pt_kernel p)) \<noteq> 0" "(1::int) \<le> 2" "(2::int) \<le> MAX_QUEUE_LENGTH"
    "ks_next_sem (tm_world (pt_kernel p)) + 2 * int MAX_SEMS < 2 ^ 31" "(1::nat) < MAX_SEMS"
    "se_id (ks_sems (tm_world (pt_kernel p)) 1) = -1" "(2::nat) < MAX_SEMS" "se_id (ks_sems (tm_world (pt_kernel p)) 2) = -1" "(1::nat) \<noteq> 2"
    "(0::nat) < MAX_PORTS" "pe_id (pt_entry p 0) = -1" "0 \<le> pt_next p" "pt_next p + int MAX_PORTS < 2 ^ 31"
    "cb_rep (pt_cbufs p) [32..<64] [0..<32] [] 2" "\<not> cb_sem_held (pt_cbufs p)"
  using assms(1,2) demo_sem_kinv
  by (simp_all add: p_def demo_ports_def demo_sem_fields MAX_QUEUE_LENGTH_def MAX_SEMS_def MAX_PORTS_def)

lemma demo_created:
  obtains cb i p where "create_port (\<lambda>n. 5) all_mem (\<lambda>_. no_msg) 7 2 None (demo_ports cb) = Returns (i, p)"
    and "port_rep 0 i p [] [] [] [32..<64] [0..<32] 2" and "port_created (\<lambda>_. no_msg) i 2 7 (demo_ports cb) p"
proof -
  from cbuf_init_rep [of 3 4 5] obtain cb where cb: "cb_rep cb [32..<64] [0..<32] [] 2" "\<not> cb_sem_held cb" by auto
  from create_port_spec [OF demo_hyps [OF cb], of "\<lambda>n. 5" "\<lambda>_. no_msg" 7 None] show thesis using that by blast
qed

lemma port_created_fields:
  "port_created junk i n owner (demo_ports cb) p \<Longrightarrow>
     pe_capacity (the_port i p) = n \<and> \<not> pe_closed (the_port i p) \<and> pe_queue (the_port i p) = Some (map junk [0..<nat n])"
  by (simp add: port_created_def demo_ports_def the_port_def)

lemma demo_written:
  obtains i p c bs F k where "port_rep 0 i p [(9, bs)] [c] [] F [0..<32] k" and "length bs = 3"
proof -
  obtain cb i p where rep: "port_rep 0 i p [] [] [] [32..<64] [0..<32] 2" and new: "port_created (\<lambda>_. no_msg) i 2 7 (demo_ports cb) p"
    by (rule demo_created)
  note f = port_created_fields [OF new]
  have h: "int (length ([] :: (int \<times> byte list) list)) < pe_capacity (the_port i p)" "\<not> pe_closed (the_port i p)" "3 \<le> PORT_MAX_MESSAGE_SIZE"
    "3 \<le> CBUF_DAT * (length [32..<64] + 32 * (63 - 2))"
    using f by (simp_all add: PORT_MAX_MESSAGE_SIZE_def CBUF_DAT_eq)
  from write_port_rep [OF rep h, of "\<lambda>n. 5" False 9 100 0 0] show thesis using that by (auto simp: written_def)
qed

section \<open>The properties\<close>

text \<open>
  \<open>create_port\<close>: when memory, two semaphores and a slot are free, the call returns an id
  larger than every earlier one whose port is an empty queue of the asked capacity, owned by
  the caller; the other ports are untouched. The field \<open>closed\<close> of the slot is kept, and the
  unused entries of the queue hold what the memory held.
\<close>

theorem create_port_correct:
  assumes "pt_active p" and "kinv idle (pt_kernel p)" and "ks_current (tm_world (pt_kernel p)) \<noteq> idle"
    and "1 \<le> n" "n \<le> MAX_QUEUE_LENGTH" and "ks_next_sem (tm_world (pt_kernel p)) + 2 * int MAX_SEMS < 2 ^ 31"
    and "m < MAX_SEMS" "se_id (ks_sems (tm_world (pt_kernel p)) m) = -1"
    and "m' < MAX_SEMS" "se_id (ks_sems (tm_world (pt_kernel p)) m') = -1" "m \<noteq> m'"
    and "j < MAX_PORTS" "pe_id (pt_entry p j) = -1" and "0 \<le> pt_next p" "pt_next p + int MAX_PORTS < 2 ^ 31"
    and "cb_rep (pt_cbufs p) F N rest k" "\<not> cb_sem_held (pt_cbufs p)"
  shows "\<exists>i p'. create_port clock all_mem junk owner n name p = Returns (i, p') \<and> port_rep idle i p' [] [] rest F N k \<and>
           port_created junk i n owner p p'"
  using assms by (rule create_port_spec)

theorem create_port_correct_witness:
  "\<exists>cb i p. create_port (\<lambda>n. 5) all_mem (\<lambda>_. no_msg) 7 2 None (demo_ports cb) = Returns (i, p) \<and> 1 \<le> i \<and>
     pe_capacity (the_port i p) = 2 \<and> pe_owner (the_port i p) = 7"
proof -
  from cbuf_init_rep [of 3 4 5] obtain cb where cb: "cb_rep cb [32..<64] [0..<32] [] 2" "\<not> cb_sem_held cb" by auto
  from create_port_correct [OF demo_hyps [OF cb], of "\<lambda>n. 5" "\<lambda>_. no_msg" 7 None] obtain i p where
    "create_port (\<lambda>n. 5) all_mem (\<lambda>_. no_msg) 7 2 None (demo_ports cb) = Returns (i, p)"
    "port_created (\<lambda>_. no_msg) i 2 7 (demo_ports cb) p" by blast
  then show ?thesis by (auto simp: port_created_def demo_ports_def)
qed

text \<open>
  (C24) \<open>write_port_etc\<close> on an open port with an empty slot and enough buffers never waits: it
  returns \<open>B_NO_ERROR\<close> and the message, its code and its bytes, is behind all the messages the
  port had, the other chains untouched. Of a user buffer with unmapped addresses only the
  length is certain, and the result is \<open>B_NO_ERROR\<close> all the same.
\<close>

theorem write_port_correct:
  assumes "port_rep idle i p ms chs rest F N k" and "int (length ms) < pe_capacity (the_port i p)"
    and "\<not> pe_closed (the_port i p)" and "n \<le> PORT_MAX_MESSAGE_SIZE" and "n \<le> CBUF_DAT * (length F + 32 * (63 - k))"
  shows "\<exists>p' c bs F' k'. write_port_etc clock late i code a n flags timeout p = Returns (PDone B_NO_ERROR, p') \<and>
           port_rep idle i p' (ms @ [(code, bs)]) (chs @ [c]) rest F' N k' \<and> written (port_flags flags) a n p bs \<and>
           pt_kmem p' = pt_kmem p \<and> pt_umem p' = pt_umem p"
  using assms by (rule write_port_rep)

theorem write_port_correct_witness:
  "\<exists>i p p' c F k. write_port_etc (\<lambda>n. 5) False i 9 100 3 0 0 p = Returns (PDone B_NO_ERROR, p') \<and>
     port_rep 0 i p' [(9, [100, 101, 102])] [c] [] F [0..<32] k"
proof -
  obtain cb i p where rep: "port_rep 0 i p [] [] [] [32..<64] [0..<32] 2" and new: "port_created (\<lambda>_. no_msg) i 2 7 (demo_ports cb) p"
    and run: "create_port (\<lambda>n. 5) all_mem (\<lambda>_. no_msg) 7 2 None (demo_ports cb) = Returns (i, p)"
    by (rule demo_created)
  note f = port_created_fields [OF new]
  have h: "int (length ([] :: (int \<times> byte list) list)) < pe_capacity (the_port i p)" "\<not> pe_closed (the_port i p)" "3 \<le> PORT_MAX_MESSAGE_SIZE"
    "3 \<le> CBUF_DAT * (length [32..<64] + 32 * (63 - 2))"
    using f by (simp_all add: PORT_MAX_MESSAGE_SIZE_def CBUF_DAT_eq)
  from write_port_correct [OF rep h, of "\<lambda>n. 5" False 9 100 0 0] obtain p' c bs F k where
    w: "write_port_etc (\<lambda>n. 5) False i 9 100 3 0 0 p = Returns (PDone B_NO_ERROR, p')"
    "port_rep 0 i p' [(9, bs)] [c] [] F [0..<32] k" "written (port_flags 0) 100 3 p bs" by auto
  have "pt_kmem p = of_nat" using new by (simp add: port_created_def demo_ports_def)
  then have "bs = [100, 101, 102]" using w(3) by (simp add: written_def user_copy_def port_flags_def kmem_read_def upt_conv_Cons)
  with w(1,2) show ?thesis by blast
qed

text \<open>
  (C25) \<open>read_port_etc\<close> on a port that has a message never waits: it takes the first message,
  returns its code and the number of bytes that fit in the buffer, delivers these bytes, and
  gives the buffers of the message back. A user buffer with unmapped addresses does not change
  the result.
\<close>

theorem read_port_correct:
  assumes "port_rep idle i p ((code, bs) # ms) (c # chs) rest F N k" and "\<not> (buffer = None \<and> 0 < n)" and "0 \<le> timeout"
  shows "\<exists>p'. read_port_etc clock late i True buffer n flags timeout p = Returns (RDone (int (min n (length bs))) (Some code), p') \<and>
           port_rep idle i p' ms chs rest (c @ F) N k \<and>
           pt_umem p' = pt_umem (delivered (port_flags flags) (case buffer of None \<Rightarrow> 0 | Some x \<Rightarrow> x) (take n bs) p) \<and>
           pt_kmem p' = pt_kmem (delivered (port_flags flags) (case buffer of None \<Rightarrow> 0 | Some x \<Rightarrow> x) (take n bs) p)"
  using assms by (rule read_port_rep)

theorem read_port_correct_witness:
  "\<exists>i p p' F k. read_port_etc (\<lambda>n. 5) False i True (Some 200) 10 0 0 p = Returns (RDone 3 (Some 9), p') \<and>
     port_rep 0 i p' [] [] [] F [0..<32] k"
proof -
  obtain i p c bs F k where rep: "port_rep 0 i p [(9, bs)] [c] [] F [0..<32] k" and len: "length bs = 3" by (rule demo_written)
  have "\<not> (Some 200 = None \<and> (0::nat) < 10)" "(0::int) \<le> 0" by simp_all
  from read_port_correct [OF rep this, of "\<lambda>n. 5" False 0] obtain p' where
    "read_port_etc (\<lambda>n. 5) False i True (Some 200) 10 0 0 p = Returns (RDone 3 (Some 9), p')"
    "port_rep 0 i p' [] [] [] (c @ F) [0..<32] k" using len by auto
  then show ?thesis by blast
qed

text \<open>
  \<open>delete_port\<close> of a port whose unused entries point to no chain gives the buffers of all
  its messages back, deletes its two semaphores, and the id is not known any more.
\<close>

theorem delete_port_correct:
  assumes "port_rep idle i p ms chs rest F N k" and "unused_clean i (length ms) p"
  shows "\<exists>p' F'. delete_port clock i p = Returns (B_NO_ERROR, p') \<and> cb_rep (pt_cbufs p') F' N rest k \<and>
           mset F' = mset F + mset (concat chs) \<and> kinv idle (pt_kernel p') \<and> port_lookup_fails i p' \<and>
           se_id (ks_sems (tm_world (pt_kernel p')) (sem_slot (pe_read_sem (the_port i p)))) = -1 \<and>
           se_id (ks_sems (tm_world (pt_kernel p')) (sem_slot (pe_write_sem (the_port i p)))) = -1"
  using assms(2) by (intro delete_port_spec [OF assms(1)]) (simp add: unused_clean_def)

theorem delete_port_correct_witness:
  "\<exists>i p p' F. delete_port (\<lambda>n. 5) i p = Returns (B_NO_ERROR, p') \<and> cb_rep (pt_cbufs p') F [0..<32] [] 2 \<and> port_lookup_fails i p'"
proof -
  obtain cb i p where rep: "port_rep 0 i p [] [] [] [32..<64] [0..<32] 2" and new: "port_created (\<lambda>_. no_msg) i 2 7 (demo_ports cb) p"
    by (rule demo_created)
  have ro: "ring_ok (the_port i p) 0" using rep by (simp add: port_rep_def Let_def)
  have "unused_clean i (length ([] :: (int \<times> byte list) list)) p"
    using port_created_fields [OF new] ring_bound [OF ro] by (auto simp: unused_clean_def no_msg_def)
  from delete_port_correct [OF rep this, of "\<lambda>n. 5"] show ?thesis by blast
qed

end
