(* ===== verification/Kheap.thy ===== *)
theory Kheap
  imports Usermem
begin

text \<open>
  The kernel's memory allocator, \<open>heap.c\<close>: 24 bins of fixed element sizes over one region.
  Each bin has a list of freed elements, linked through their first word, and a run of elements
  that were never given out. Every call holds \<open>heap_lock\<close> from its first access to its last, so
  each call is one step. Addresses are 32-bit, \<open>NULL\<close> is 0.
\<close>

section \<open>State\<close>

definition PAGE_SIZE :: nat where
  "PAGE_SIZE = 4096"

definition PAGE_ALIGN :: "nat \<Rightarrow> nat" where
  "PAGE_ALIGN x = u32_add x (PAGE_SIZE - 1) div PAGE_SIZE * PAGE_SIZE"

text \<open>The bit fields have 5 and 9 bits.\<close>

record heap_page =
  hpg_bin :: nat
  hpg_free :: nat
  hpg_cleaning :: bool
  hpg_in_use :: bool

record heap_bin =
  bn_size :: nat
  bn_grow :: nat
  bn_alloc :: nat
  bn_free_list :: nat
  bn_free :: nat
  bn_raw_list :: nat
  bn_raw :: nat

record kheap =
  hp_table :: "nat \<Rightarrow> heap_page"
  hp_ptr :: nat
  hp_base :: nat
  hp_size :: nat
  hp_bins :: "nat \<Rightarrow> heap_bin"
  hp_mem :: "nat \<Rightarrow> byte"

definition bin_count :: nat where
  "bin_count = 24"

definition bin_size :: "nat \<Rightarrow> nat" where
  "bin_size b = (if b < 8 then 16 * 2 ^ b else 0x1000 * (b - 7))"

definition init_bins :: "nat \<Rightarrow> heap_bin" where
  "init_bins b = \<lparr>bn_size = bin_size b, bn_grow = (if b < 8 then PAGE_SIZE else bin_size b), bn_alloc = 0,
     bn_free_list = 0, bn_free = 0, bn_raw_list = 0, bn_raw = 0\<rparr>"

definition set_bin :: "nat \<Rightarrow> (heap_bin \<Rightarrow> heap_bin) \<Rightarrow> kheap \<Rightarrow> kheap" where
  "set_bin b f h = h\<lparr>hp_bins := (hp_bins h)(b := f (hp_bins h b))\<rparr>"

definition set_page :: "nat \<Rightarrow> (heap_page \<Rightarrow> heap_page) \<Rightarrow> kheap \<Rightarrow> kheap" where
  "set_page i f h = h\<lparr>hp_table := (hp_table h)(i := f (hp_table h i))\<rparr>"

text \<open>The number of entries of the table, and the entry of an address.\<close>

definition page_count :: "kheap \<Rightarrow> nat" where
  "page_count h = hp_size h div PAGE_SIZE"

definition page_of :: "kheap \<Rightarrow> nat \<Rightarrow> nat" where
  "page_of h a = u32_sub a (hp_base h) div PAGE_SIZE"

text \<open>A word in memory, little endian.\<close>

definition load32 :: "(nat \<Rightarrow> byte) \<Rightarrow> nat \<Rightarrow> nat" where
  "load32 m a = unat (m a) + 2 ^ 8 * unat (m (a + 1)) + 2 ^ 16 * unat (m (a + 2)) + 2 ^ 24 * unat (m (a + 3))"

definition store32 :: "nat \<Rightarrow> nat \<Rightarrow> (nat \<Rightarrow> byte) \<Rightarrow> nat \<Rightarrow> byte" where
  "store32 a v m = m(a := of_nat v, a + 1 := of_nat (v div 2 ^ 8), a + 2 := of_nat (v div 2 ^ 16), a + 3 := of_nat (v div 2 ^ 24))"

definition store_bytes :: "nat \<Rightarrow> byte list \<Rightarrow> (nat \<Rightarrow> byte) \<Rightarrow> nat \<Rightarrow> byte" where
  "store_bytes a bs m = (\<lambda>x. if a \<le> x \<and> x < a + length bs then bs ! (x - a) else m x)"

section \<open>Operations\<close>

text \<open>The region begins with the table of its pages, two bytes for each.\<close>

definition heap_init :: "nat \<Rightarrow> nat \<Rightarrow> (nat \<Rightarrow> byte) \<Rightarrow> kheap" where
  "heap_init new_heap_base new_heap_size m =
     (let base = PAGE_ALIGN (u32_add new_heap_base (new_heap_size div PAGE_SIZE * 2))
      in \<lparr>hp_table = (\<lambda>_. \<lparr>hpg_bin = 0, hpg_free = 0, hpg_cleaning = False, hpg_in_use = False\<rparr>),
          hp_ptr = base, hp_base = base, hp_size = new_heap_size, hp_bins = init_bins,
          hp_mem = store_bytes new_heap_base (replicate (new_heap_size div PAGE_SIZE * 2) 0) m\<rparr>)"

text \<open>The first argument counts the iterations that are left.\<close>

fun mark_pages :: "nat \<Rightarrow> nat \<Rightarrow> nat \<Rightarrow> kheap \<Rightarrow> kheap outcome" where
  "mark_pages 0 a b h = Returns h"
| "mark_pages (Suc n) a b h =
     (let i = page_of h a; sz = bn_size (hp_bins h b)
      in if page_count h \<le> i then Faults
         else mark_pages n (a + PAGE_SIZE) b (set_page i (\<lambda>pg. pg\<lparr>hpg_in_use := True, hpg_cleaning := False, hpg_bin := b mod 32,
                hpg_free := (if b < bin_count \<and> sz < PAGE_SIZE then (PAGE_SIZE div sz) mod 512 else 1)\<rparr>) h))"

definition raw_alloc :: "nat \<Rightarrow> nat \<Rightarrow> kheap \<Rightarrow> (nat \<times> kheap) outcome" where
  "raw_alloc sz b h =
     (let new_heap_ptr = u32_add (hp_ptr h) (PAGE_ALIGN sz)
      in if u32_add (hp_base h) (hp_size h) < new_heap_ptr then Faults
         else obind (mark_pages ((new_heap_ptr - hp_ptr h + (PAGE_SIZE - 1)) div PAGE_SIZE) (hp_ptr h) b h) (\<lambda>h1.
                Returns (hp_ptr h, h1\<lparr>hp_ptr := new_heap_ptr\<rparr>)))"

definition page_taken :: "nat \<Rightarrow> kheap \<Rightarrow> kheap outcome" where
  "page_taken i h =
     (if page_count h \<le> i then Faults
      else Returns (set_page i (\<lambda>pg. pg\<lparr>hpg_free := (if hpg_free pg = 0 then 511 else hpg_free pg - 1)\<rparr>) h))"

fun pages_taken :: "nat \<Rightarrow> nat \<Rightarrow> kheap \<Rightarrow> kheap outcome" where
  "pages_taken 0 i h = Returns h"
| "pages_taken (Suc n) i h = obind (page_taken i h) (pages_taken n (i + 1))"

definition take_element :: "nat \<Rightarrow> kheap \<Rightarrow> (nat \<times> kheap) outcome" where
  "take_element b h =
     (let bin = hp_bins h b
      in if bn_free_list bin \<noteq> 0
         then Returns (bn_free_list bin,
                set_bin b (\<lambda>n. n\<lparr>bn_free_list := load32 (hp_mem h) (bn_free_list bin), bn_free := u32_sub (bn_free n) 1\<rparr>) h)
         else
           obind (if bn_raw bin = 0
                  then obind (raw_alloc (bn_grow bin) b h) (\<lambda>(r, h1).
                         Returns (set_bin b (\<lambda>n. n\<lparr>bn_raw_list := r, bn_raw := bn_grow n div bn_size n\<rparr>) h1))
                  else Returns h) (\<lambda>h1.
             Returns (bn_raw_list (hp_bins h1 b),
               set_bin b (\<lambda>n. n\<lparr>bn_raw := u32_sub (bn_raw n) 1, bn_raw_list := u32_add (bn_raw_list n) (bn_size n)\<rparr>) h1)))"

definition kmalloc :: "nat \<Rightarrow> kheap \<Rightarrow> (nat \<times> kheap) outcome" where
  "kmalloc sz h =
     (case find (\<lambda>b. sz \<le> bn_size (hp_bins h b)) [0..<bin_count] of
        None \<Rightarrow> Faults
      | Some b \<Rightarrow>
          obind (take_element b h) (\<lambda>(address, h1).
            let h2 = set_bin b (\<lambda>n. n\<lparr>bn_alloc := u32_add (bn_alloc n) 1\<rparr>) h1; i = page_of h2 address
            in obind (page_taken i h2) (\<lambda>h3.
                 obind (pages_taken (bn_size (hp_bins h2 b) div PAGE_SIZE - 1) (i + 1) h3) (\<lambda>h4. Returns (address, h4)))))"

text \<open>The loop of \<open>kfree\<close> has no iteration for an element smaller than a page.\<close>

fun pages_given :: "nat \<Rightarrow> nat \<Rightarrow> nat \<Rightarrow> kheap \<Rightarrow> kheap outcome" where
  "pages_given 0 i b h = Returns h"
| "pages_given (Suc n) i b h =
     (if page_count h \<le> i then Faults
      else if hpg_bin (hp_table h i) \<noteq> b then Faults
      else pages_given n (i + 1) b (set_page i (\<lambda>pg. pg\<lparr>hpg_free := (hpg_free pg + 1) mod 512\<rparr>) h))"

partial_function (option) in_free_list :: "(nat \<Rightarrow> byte) \<Rightarrow> nat \<Rightarrow> nat \<Rightarrow> bool option" where
  "in_free_list m temp address =
     (if temp = 0 then Some False else if temp = address then Some True else in_free_list m (load32 m temp) address)"

definition kfree :: "nat \<Rightarrow> kheap \<Rightarrow> kheap outcome" where
  "kfree address h =
     (if address = 0 then Returns h
      else if address < hp_base h \<or> u32_add (hp_base h) (hp_size h) \<le> address then Faults
      else
        (let i = page_of h address; b = hpg_bin (hp_table h i)
         in if page_count h \<le> i then Faults
            else if bin_count \<le> b then Faults
            else obind (pages_given (bn_size (hp_bins h b) div PAGE_SIZE) i b h) (\<lambda>h1.
              obind (looped (in_free_list (hp_mem h1) (bn_free_list (hp_bins h1 b)) address)) (\<lambda>found.
                if found then Faults
                else Returns (set_bin b (\<lambda>n. n\<lparr>bn_free_list := address, bn_alloc := u32_sub (bn_alloc n) 1,
                                bn_free := u32_add (bn_free n) 1\<rparr>)
                       (h1\<lparr>hp_mem := store32 address (bn_free_list (hp_bins h1 b)) (hp_mem h1)\<rparr>))))))"

definition kstrdup :: "byte list \<Rightarrow> kheap \<Rightarrow> (nat \<times> kheap) outcome" where
  "kstrdup str h =
     obind (kmalloc (length str + 1) h) (\<lambda>(buf, h1).
       Returns (buf, if buf \<noteq> 0 then h1\<lparr>hp_mem := store_bytes buf (str @ [0]) (hp_mem h1)\<rparr> else h1))"

section \<open>Basic lemmas\<close>

named_theorems heap_simps "fields of the heap after its parts were updated"

lemma set_bin_fields [simp, heap_simps]:
  "hp_table (set_bin b f h) = hp_table h" "hp_ptr (set_bin b f h) = hp_ptr h" "hp_base (set_bin b f h) = hp_base h"
  "hp_size (set_bin b f h) = hp_size h" "hp_mem (set_bin b f h) = hp_mem h"
  "hp_bins (set_bin b f h) = (hp_bins h)(b := f (hp_bins h b))"
  by (simp_all add: set_bin_def)

lemma set_page_fields [simp, heap_simps]:
  "hp_bins (set_page i f h) = hp_bins h" "hp_ptr (set_page i f h) = hp_ptr h" "hp_base (set_page i f h) = hp_base h"
  "hp_size (set_page i f h) = hp_size h" "hp_mem (set_page i f h) = hp_mem h"
  "hp_table (set_page i f h) = (hp_table h)(i := f (hp_table h i))"
  by (simp_all add: set_page_def)

lemma page_count_set [simp]: "page_count (set_bin b f h) = page_count h" "page_count (set_page i g h) = page_count h"
  by (simp_all add: page_count_def)

lemma page_of_set [simp]: "page_of (set_bin b f h) a = page_of h a" "page_of (set_page i g h) a = page_of h a"
  by (simp_all add: page_of_def)

lemma load_store_same:
  assumes "v < 2 ^ 32"
  shows "load32 (store32 a v m) a = v"
proof -
  have u: "unat (of_nat x :: 8 word) = x mod 256" for x by (simp add: unat_of_nat)
  have "load32 (store32 a v m) a = v mod 256 + 2 ^ 8 * (v div 2 ^ 8 mod 256) + 2 ^ 16 * (v div 2 ^ 16 mod 256) + 2 ^ 24 * (v div 2 ^ 24 mod 256)"
    by (simp add: load32_def store32_def u)
  also have "v div 2 ^ 24 mod 256 = v div 2 ^ 24" using assms by (simp add: div_less_iff_less_mult)
  finally have l: "load32 (store32 a v m) a =
      v mod 256 + 256 * (v div 256 mod 256) + 65536 * (v div 65536 mod 256) + 16777216 * (v div 16777216)" by simp
  have "256 * (v div 256) + v mod 256 = v" "256 * (v div 65536) + v div 256 mod 256 = v div 256"
    "256 * (v div 16777216) + v div 65536 mod 256 = v div 65536"
    using mult_div_mod_eq [of 256 v] mult_div_mod_eq [of 256 "v div 256"] mult_div_mod_eq [of 256 "v div 65536"]
    by (simp_all add: div_mult2_eq [symmetric] del: mult_div_mod_eq)
  with l show ?thesis by linarith
qed

lemma load_cong: "(\<And>x. a \<le> x \<Longrightarrow> x < a + 4 \<Longrightarrow> m x = m' x) \<Longrightarrow> load32 m a = load32 m' a"
  by (simp add: load32_def)

lemma store_outside: "x < a \<or> a + 4 \<le> x \<Longrightarrow> store32 a v m x = m x"
  by (auto simp: store32_def)

section \<open>The invariant\<close>

definition ptr_of :: "nat \<Rightarrow> nat ptr" where
  "ptr_of a = (if a = 0 then None else Some a)"

abbreviation links_of :: "(nat \<Rightarrow> byte) \<Rightarrow> nat \<Rightarrow> nat ptr" where
  "links_of m \<equiv> \<lambda>x. ptr_of (load32 m x)"

definition bin_grow :: "nat \<Rightarrow> nat" where
  "bin_grow b = (if b < 8 then PAGE_SIZE else bin_size b)"

definition raw_blocks :: "heap_bin \<Rightarrow> nat set" where
  "raw_blocks n = (\<lambda>k. bn_raw_list n + k * bn_size n) ` {..<bn_raw n}"

text \<open>The blocks, each with its bin: allocated (\<open>A\<close>), on the free lists (\<open>L\<close>), and never given out.\<close>

definition blocks :: "kheap \<Rightarrow> (nat \<Rightarrow> nat list) \<Rightarrow> (nat \<times> nat) set \<Rightarrow> (nat \<times> nat) set" where
  "blocks h L A = A \<union> {(a, b). b < bin_count \<and> a \<in> set (L b)} \<union> {(a, b). b < bin_count \<and> a \<in> raw_blocks (hp_bins h b)}"

definition block_ok :: "kheap \<Rightarrow> nat \<times> nat \<Rightarrow> bool" where
  "block_ok h = (\<lambda>(a, b). b < bin_count \<and> hp_base h \<le> a \<and> a + bin_size b \<le> hp_ptr h \<and>
     (\<forall>x. a \<le> x \<longrightarrow> x < a + bin_size b \<longrightarrow> hpg_bin (hp_table h (page_of h x)) = b))"

definition apart :: "nat \<times> nat \<Rightarrow> nat \<times> nat \<Rightarrow> bool" where
  "apart = (\<lambda>(a, b) (a', b'). a + bin_size b \<le> a' \<or> a' + bin_size b' \<le> a)"

definition all_apart :: "(nat \<times> nat) set \<Rightarrow> bool" where
  "all_apart S \<longleftrightarrow> (\<forall>x \<in> S. \<forall>y \<in> S. x \<noteq> y \<longrightarrow> apart x y)"

definition region_ok :: "kheap \<Rightarrow> bool" where
  "region_ok h \<longleftrightarrow> 0 < hp_base h \<and> hp_base h mod PAGE_SIZE = 0 \<and> hp_ptr h mod PAGE_SIZE = 0 \<and> hp_size h mod PAGE_SIZE = 0 \<and>
     hp_base h \<le> hp_ptr h \<and> hp_ptr h \<le> hp_base h + hp_size h \<and> hp_base h + hp_size h + 2 ^ 17 \<le> 2 ^ 32"

definition bin_ok :: "heap_bin \<Rightarrow> nat \<Rightarrow> (nat \<Rightarrow> byte) \<Rightarrow> nat list \<Rightarrow> bool" where
  "bin_ok n b m xs \<longleftrightarrow> bn_size n = bin_size b \<and> bn_grow n = bin_grow b \<and> bn_raw n < 2 ^ 32 \<and> bn_raw_list n < 2 ^ 32 \<and>
     chain (links_of m) (ptr_of (bn_free_list n)) xs \<and> set xs \<inter> raw_blocks n = {}"

definition heap_ok :: "kheap \<Rightarrow> (nat \<Rightarrow> nat list) \<Rightarrow> (nat \<times> nat) set \<Rightarrow> bool" where
  "heap_ok h L A \<longleftrightarrow> region_ok h \<and> (\<forall>b < bin_count. bin_ok (hp_bins h b) b (hp_mem h) (L b)) \<and>
     (\<forall>x \<in> blocks h L A. block_ok h x) \<and> all_apart (blocks h L A) \<and>
     (\<forall>(a, b) \<in> A. a \<notin> set (L b) \<and> a \<notin> raw_blocks (hp_bins h b))"

lemma bin_size_bounds: "b < bin_count \<Longrightarrow> 16 \<le> bin_size b \<and> bin_size b \<le> 65536"
proof -
  assume b: "b < bin_count"
  have "(2::nat) ^ b \<le> 2 ^ 7" if "b < 8" using that by (intro power_increasing) simp_all
  with b show ?thesis by (auto simp: bin_size_def bin_count_def)
qed

lemma bin_size_pages: "b < bin_count \<Longrightarrow> \<not> b < 8 \<Longrightarrow> bin_size b = PAGE_SIZE * (b - 7)"
  by (simp add: bin_size_def PAGE_SIZE_def)

lemma bin_grow_blocks: "b < bin_count \<Longrightarrow> bin_grow b = bin_grow b div bin_size b * bin_size b"
proof -
  assume b: "b < bin_count"
  have "(2::nat) ^ 12 = 2 ^ (12 - (4 + b)) * 2 ^ (4 + b)" if "b < 8" using that by (simp flip: power_add)
  then have "bin_size b dvd bin_grow b"
    by (auto simp: bin_grow_def bin_size_def PAGE_SIZE_def power_add intro: dvdI)
  then show ?thesis by simp
qed

lemma bin_grow_bounds: "b < bin_count \<Longrightarrow> PAGE_SIZE \<le> bin_grow b \<and> bin_grow b \<le> 65536 \<and> bin_grow b mod PAGE_SIZE = 0"
  using bin_size_bounds [of b] by (auto simp: bin_grow_def PAGE_SIZE_def bin_size_def)

lemma ptr_of_simps [simp]: "ptr_of 0 = None" "a \<noteq> 0 \<Longrightarrow> ptr_of a = Some a" "ptr_of a = None \<longleftrightarrow> a = 0" "ptr_of a = Some x \<longleftrightarrow> a = x \<and> a \<noteq> 0"
  by (auto simp: ptr_of_def)

lemma heap_okD:
  assumes "heap_ok h L A"
  shows "region_ok h" and "\<And>b. b < bin_count \<Longrightarrow> bin_ok (hp_bins h b) b (hp_mem h) (L b)"
    and "\<And>x. x \<in> blocks h L A \<Longrightarrow> block_ok h x" and "all_apart (blocks h L A)"
    and "\<And>a b. (a, b) \<in> A \<Longrightarrow> a \<notin> set (L b) \<and> a \<notin> raw_blocks (hp_bins h b)"
  using assms by (auto simp: heap_ok_def)

lemma heap_okI:
  assumes "region_ok h" and "\<And>b. b < bin_count \<Longrightarrow> bin_ok (hp_bins h b) b (hp_mem h) (L b)"
    and "\<And>x. x \<in> blocks h L A \<Longrightarrow> block_ok h x" and "all_apart (blocks h L A)"
    and "\<And>a b. (a, b) \<in> A \<Longrightarrow> a \<notin> set (L b) \<and> a \<notin> raw_blocks (hp_bins h b)"
  shows "heap_ok h L A"
  using assms by (auto simp: heap_ok_def)

text \<open>What the invariant looks at; the counts of the pages and of the bins are not among it.\<close>

lemma heap_ok_cong:
  assumes "heap_ok h L A" and "hp_ptr h' = hp_ptr h" "hp_base h' = hp_base h" "hp_size h' = hp_size h" "hp_mem h' = hp_mem h"
    and "\<And>i. hpg_bin (hp_table h' i) = hpg_bin (hp_table h i)"
    and "\<And>b. bn_size (hp_bins h' b) = bn_size (hp_bins h b) \<and> bn_grow (hp_bins h' b) = bn_grow (hp_bins h b) \<and>
      bn_free_list (hp_bins h' b) = bn_free_list (hp_bins h b) \<and> bn_raw_list (hp_bins h' b) = bn_raw_list (hp_bins h b) \<and>
      bn_raw (hp_bins h' b) = bn_raw (hp_bins h b)"
  shows "heap_ok h' L A"
proof -
  have raw: "raw_blocks (hp_bins h' b) = raw_blocks (hp_bins h b)" for b using assms(7) by (simp add: raw_blocks_def)
  have bl: "blocks h' L A = blocks h L A" by (simp add: blocks_def raw)
  have pg: "page_of h' x = page_of h x" for x using assms(3) by (simp add: page_of_def)
  have "block_ok h' x = block_ok h x" for x using assms(2,3,6) pg by (cases x) (simp add: block_ok_def)
  moreover have "region_ok h' = region_ok h" using assms(2-4) by (simp add: region_ok_def)
  moreover have "bin_ok (hp_bins h' b) b (hp_mem h') xs = bin_ok (hp_bins h b) b (hp_mem h) xs" for b xs
    using assms(5,7) raw by (simp add: bin_ok_def)
  ultimately show ?thesis using assms(1) unfolding heap_ok_def bl raw by simp
qed

section \<open>Taking an element\<close>

lemma free_list_head:
  assumes "heap_ok h L A" and "b < bin_count"
  shows "bn_free_list (hp_bins h b) = (case L b of [] \<Rightarrow> 0 | a # xs \<Rightarrow> a)" and "\<And>a xs. L b = a # xs \<Longrightarrow> a \<noteq> 0"
  using heap_okD(2) [OF assms] by (auto simp: bin_ok_def split: list.split)

lemma take_free:
  assumes ok: "heap_ok h L A" and b: "b < bin_count" and L: "L b = a # xs"
    and h': "h' = set_bin b (\<lambda>n. n\<lparr>bn_free_list := load32 (hp_mem h) a, bn_free := c\<rparr>) h"
  shows "heap_ok h' (L(b := xs)) (insert (a, b) A)" and "(a, b) \<notin> A" and "blocks h' (L(b := xs)) (insert (a, b) A) = blocks h L A"
proof -
  have bin: "bin_ok (hp_bins h b) b (hp_mem h) (a # xs)" using heap_okD(2) [OF ok b] L by simp
  have raw: "raw_blocks (hp_bins h' c) = raw_blocks (hp_bins h c)" for c by (simp add: h' raw_blocks_def)
  show bl: "blocks h' (L(b := xs)) (insert (a, b) A) = blocks h L A"
    using b L by (auto simp: blocks_def raw split: if_splits)
  show "(a, b) \<notin> A" using heap_okD(5) [OF ok, of a b] L by auto
  have "chain (links_of (hp_mem h)) (ptr_of (bn_free_list (hp_bins h b))) (a # xs)" using bin by (simp add: bin_ok_def)
  then have dist: "distinct (a # xs)" by (rule chain_distinct)
  have bins: "bin_ok (hp_bins h' c) c (hp_mem h') ((L(b := xs)) c)" if "c < bin_count" for c
    using heap_okD(2) [OF ok that] bin raw [of c] by (cases "c = b") (auto simp: bin_ok_def h')
  have blk: "block_ok h' x" if "x \<in> blocks h' (L(b := xs)) (insert (a, b) A)" for x
    using heap_okD(3) [OF ok that [unfolded bl]] by (cases x) (simp add: block_ok_def h')
  have reg: "region_ok h'" using heap_okD(1) [OF ok] by (simp add: region_ok_def h')
  have nr: "a \<notin> raw_blocks (hp_bins h b)" using bin by (auto simp: bin_ok_def)
  have al: "a' \<notin> set ((L(b := xs)) b') \<and> a' \<notin> raw_blocks (hp_bins h' b')" if "(a', b') \<in> insert (a, b) A" for a' b'
    using that heap_okD(5) [OF ok, of a' b'] L dist nr unfolding raw by (cases "b' = b") auto
  have ap: "all_apart (blocks h' (L(b := xs)) (insert (a, b) A))" unfolding bl by (rule heap_okD(4) [OF ok])
  show "heap_ok h' (L(b := xs)) (insert (a, b) A)" by (rule heap_okI [OF reg bins blk ap al])
qed

lemma raw_take:
  assumes "0 < bn_raw n" and "0 < bn_size n"
  shows "raw_blocks n = insert (bn_raw_list n) (raw_blocks (n\<lparr>bn_raw := bn_raw n - 1, bn_raw_list := bn_raw_list n + bn_size n\<rparr>))"
    and "bn_raw_list n \<notin> raw_blocks (n\<lparr>bn_raw := bn_raw n - 1, bn_raw_list := bn_raw_list n + bn_size n\<rparr>)"
proof -
  have "{..<bn_raw n} = insert 0 (Suc ` {..<bn_raw n - 1})" using assms(1) lessThan_Suc_eq_insert_0 [of "bn_raw n - 1"] by simp
  then show "raw_blocks n = insert (bn_raw_list n) (raw_blocks (n\<lparr>bn_raw := bn_raw n - 1, bn_raw_list := bn_raw_list n + bn_size n\<rparr>))"
    by (simp add: raw_blocks_def image_image add.assoc)
  show "bn_raw_list n \<notin> raw_blocks (n\<lparr>bn_raw := bn_raw n - 1, bn_raw_list := bn_raw_list n + bn_size n\<rparr>)"
    using assms(2) by (auto simp: raw_blocks_def)
qed

lemma take_raw:
  assumes ok: "heap_ok h L A" and b: "b < bin_count" and pos: "0 < bn_raw (hp_bins h b)"
    and a: "a = bn_raw_list (hp_bins h b)"
    and h': "h' = set_bin b (\<lambda>n. n\<lparr>bn_raw := u32_sub (bn_raw n) 1, bn_raw_list := u32_add (bn_raw_list n) (bn_size n)\<rparr>) h"
  shows "heap_ok h' L (insert (a, b) A)" and "(a, b) \<notin> A" and "blocks h' L (insert (a, b) A) = blocks h L A"
proof -
  let ?n = "hp_bins h b"
  let ?n' = "?n\<lparr>bn_raw := bn_raw ?n - 1, bn_raw_list := bn_raw_list ?n + bn_size ?n\<rparr>"
  have bin: "bin_ok ?n b (hp_mem h) (L b)" using heap_okD(2) [OF ok b] .
  have sz: "bn_size ?n = bin_size b" "0 < bn_size ?n" using bin bin_size_bounds [OF b] by (simp_all add: bin_ok_def)
  note rt = raw_take [OF pos sz(2)]
  have inb: "(a, b) \<in> blocks h L A" using rt(1) a b by (auto simp: blocks_def)
  from heap_okD(3) [OF ok inb] heap_okD(1) [OF ok] have lim: "bn_raw_list ?n + bn_size ?n < 2 ^ 32"
    by (simp add: block_ok_def region_ok_def a sz)
  have nb: "hp_bins h' b = ?n'" using lim pos by (simp add: h')
  have other: "hp_bins h' c = hp_bins h c" if "c \<noteq> b" for c using that by (simp add: h')
  have raw: "raw_blocks (hp_bins h' c) = raw_blocks (hp_bins h c) - (if c = b then {a} else {})" for c
    using rt nb other [of c] a by auto
  have inr: "a \<in> raw_blocks ?n" using rt(1) a by simp
  show bl: "blocks h' L (insert (a, b) A) = blocks h L A"
    using b inr by (auto simp: blocks_def raw split: if_splits)
  show nA: "(a, b) \<notin> A" using heap_okD(5) [OF ok, of a b] inr by auto
  have bins: "bin_ok (hp_bins h' c) c (hp_mem h') (L c)" if "c < bin_count" for c
  proof (cases "c = b")
    case True
    then show ?thesis using bin lim raw [of b] nb by (auto simp: bin_ok_def h')
  next
    case False
    then show ?thesis using heap_okD(2) [OF ok that] other [of c] by (simp add: h')
  qed
  have blk: "block_ok h' x" if "x \<in> blocks h' L (insert (a, b) A)" for x
    using heap_okD(3) [OF ok that [unfolded bl]] by (cases x) (simp add: block_ok_def h')
  have reg: "region_ok h'" using heap_okD(1) [OF ok] by (simp add: region_ok_def h')
  have nl: "a \<notin> set (L b)" using bin inr by (auto simp: bin_ok_def)
  have al: "a' \<notin> set (L b') \<and> a' \<notin> raw_blocks (hp_bins h' b')" if "(a', b') \<in> insert (a, b) A" for a' b'
    using that heap_okD(5) [OF ok, of a' b'] nl raw [of b'] by auto
  have ap: "all_apart (blocks h' L (insert (a, b) A))" unfolding bl by (rule heap_okD(4) [OF ok])
  show "heap_ok h' L (insert (a, b) A)" by (rule heap_okI [OF reg bins blk ap al])
qed

section \<open>Growing a bin\<close>

lemma page_multiple: "n mod PAGE_SIZE = 0 \<Longrightarrow> \<exists>c. n = c * PAGE_SIZE"
  by (auto simp: mod_eq_0_iff_dvd dvd_def mult.commute)

lemma page_of_add: "hp_base h \<le> a \<Longrightarrow> page_of h (a + k * PAGE_SIZE) = page_of h a + k"
  by (simp add: page_of_def PAGE_SIZE_def)

lemma page_of_below:
  assumes "region_ok h" and "hp_base h \<le> a" "a < hp_base h + hp_size h"
  shows "page_of h a < page_count h"
proof -
  have "hp_size h = page_count h * PAGE_SIZE" using assms(1) by (auto simp: region_ok_def page_count_def PAGE_SIZE_def)
  then show ?thesis using assms(2,3) by (simp add: page_of_def div_less_iff_less_mult PAGE_SIZE_def)
qed

lemma mark_pages_spec:
  assumes "region_ok h" and "hp_base h \<le> a" and "a + n * PAGE_SIZE \<le> hp_base h + hp_size h" and "b < bin_count"
  shows "\<exists>h'. mark_pages n a b h = Returns h' \<and> hp_ptr h' = hp_ptr h \<and> hp_base h' = hp_base h \<and> hp_size h' = hp_size h \<and>
           hp_bins h' = hp_bins h \<and> hp_mem h' = hp_mem h \<and>
           (\<forall>i. hpg_bin (hp_table h' i) = (if page_of h a \<le> i \<and> i < page_of h a + n then b else hpg_bin (hp_table h i)))"
  using assms
proof (induction n arbitrary: a h)
  case (Suc n)
  let ?i = "page_of h a"
  obtain h1 where h1: "h1 = set_page ?i (\<lambda>pg. pg\<lparr>hpg_in_use := True, hpg_cleaning := False, hpg_bin := b mod 32,
      hpg_free := (if b < bin_count \<and> bn_size (hp_bins h b) < PAGE_SIZE then (PAGE_SIZE div bn_size (hp_bins h b)) mod 512 else 1)\<rparr>) h"
    by simp
  have i: "?i < page_count h" using Suc.prems by (intro page_of_below) (simp_all add: PAGE_SIZE_def)
  have m: "b mod 32 = b" using Suc.prems(4) by (simp add: bin_count_def)
  have r1: "region_ok h1" using Suc.prems(1) by (simp add: region_ok_def h1)
  have n1: "hp_base h1 \<le> a + PAGE_SIZE" "a + PAGE_SIZE + n * PAGE_SIZE \<le> hp_base h1 + hp_size h1" using Suc.prems by (simp_all add: h1)
  from Suc.IH [OF r1 n1 Suc.prems(4)] obtain h' where h': "mark_pages n (a + PAGE_SIZE) b h1 = Returns h'"
    "hp_ptr h' = hp_ptr h" "hp_base h' = hp_base h" "hp_size h' = hp_size h" "hp_bins h' = hp_bins h" "hp_mem h' = hp_mem h"
    "\<forall>i. hpg_bin (hp_table h' i) = (if page_of h1 (a + PAGE_SIZE) \<le> i \<and> i < page_of h1 (a + PAGE_SIZE) + n then b else hpg_bin (hp_table h1 i))"
    by (auto simp: h1)
  have pg: "page_of h1 (a + PAGE_SIZE) = ?i + 1" using page_of_add [of h a 1] Suc.prems(2) by (simp add: h1)
  have t: "\<forall>i. hpg_bin (hp_table h' i) = (if ?i \<le> i \<and> i < ?i + Suc n then b else hpg_bin (hp_table h i))"
    using h'(7) unfolding pg by (auto simp: h1 m)
  have "mark_pages (Suc n) a b h = Returns h'" using i h'(1) by (simp add: h1 Let_def)
  with h'(2-6) t show ?case by blast
qed simp

lemma page_of_range:
  assumes "hp_base h \<le> p" and "(p - hp_base h) mod PAGE_SIZE = 0"
  shows "p \<le> x \<Longrightarrow> x < p + n * PAGE_SIZE \<Longrightarrow> page_of h p \<le> page_of h x \<and> page_of h x < page_of h p + n"
    and "hp_base h \<le> x \<Longrightarrow> x < p \<Longrightarrow> page_of h x < page_of h p"
proof -
  obtain c where c: "p = hp_base h + c * PAGE_SIZE" using assms page_multiple [OF assms(2)] by (metis le_add_diff_inverse)
  have pp: "page_of h p = c" using c by (simp add: page_of_def PAGE_SIZE_def)
  show "p \<le> x \<Longrightarrow> x < p + n * PAGE_SIZE \<Longrightarrow> page_of h p \<le> page_of h x \<and> page_of h x < page_of h p + n"
    using c unfolding pp by (simp add: page_of_def PAGE_SIZE_def div_less_iff_less_mult less_eq_div_iff_mult_less_eq; arith)
  show "hp_base h \<le> x \<Longrightarrow> x < p \<Longrightarrow> page_of h x < page_of h p"
    using c unfolding pp by (simp add: page_of_def PAGE_SIZE_def div_less_iff_less_mult)
qed

lemma PAGE_ALIGN_id: "n mod PAGE_SIZE = 0 \<Longrightarrow> n + PAGE_SIZE < 2 ^ 32 \<Longrightarrow> PAGE_ALIGN n = n"
proof -
  assume a: "n mod PAGE_SIZE = 0" "n + PAGE_SIZE < 2 ^ 32"
  from page_multiple [OF a(1)] obtain c where "n = c * PAGE_SIZE" by blast
  moreover have "u32_add n (PAGE_SIZE - 1) = n + (PAGE_SIZE - 1)" using a(2) by (simp add: PAGE_SIZE_def)
  ultimately show ?thesis by (simp add: PAGE_ALIGN_def PAGE_SIZE_def)
qed

lemma raw_alloc_spec:
  assumes r: "region_ok h" and b: "b < bin_count"
  shows "hp_ptr h + bin_grow b \<le> hp_base h + hp_size h \<Longrightarrow>
           \<exists>h'. raw_alloc (bin_grow b) b h = Returns (hp_ptr h, h') \<and> hp_ptr h' = hp_ptr h + bin_grow b \<and> hp_base h' = hp_base h \<and>
             hp_size h' = hp_size h \<and> hp_bins h' = hp_bins h \<and> hp_mem h' = hp_mem h \<and>
             (\<forall>x. hp_base h \<le> x \<longrightarrow> hpg_bin (hp_table h' (page_of h x)) =
                (if hp_ptr h \<le> x \<and> x < hp_ptr h + bin_grow b then b else hpg_bin (hp_table h (page_of h x))))"
    and "hp_base h + hp_size h < hp_ptr h + bin_grow b \<Longrightarrow> raw_alloc (bin_grow b) b h = Faults"
proof -
  note g = bin_grow_bounds [OF b]
  have al: "PAGE_ALIGN (bin_grow b) = bin_grow b" using g by (intro PAGE_ALIGN_id) (simp_all add: PAGE_SIZE_def)
  have lim: "hp_ptr h + bin_grow b < 2 ^ 32" "hp_base h + hp_size h < 2 ^ 32" using r g by (simp_all add: region_ok_def)
  have new: "u32_add (hp_ptr h) (PAGE_ALIGN (bin_grow b)) = hp_ptr h + bin_grow b"
    "u32_add (hp_base h) (hp_size h) = hp_base h + hp_size h" using lim by (simp_all add: al)
  show "hp_base h + hp_size h < hp_ptr h + bin_grow b \<Longrightarrow> raw_alloc (bin_grow b) b h = Faults"
    by (simp add: raw_alloc_def new Let_def)
  assume room: "hp_ptr h + bin_grow b \<le> hp_base h + hp_size h"
  have "bin_grow b mod PAGE_SIZE = 0" using g by simp
  from page_multiple [OF this] obtain c where c: "bin_grow b = c * PAGE_SIZE" by blast
  have n: "(bin_grow b + (PAGE_SIZE - Suc 0)) div PAGE_SIZE = c" using c by (simp add: PAGE_SIZE_def)
  have hb: "hp_base h \<le> hp_ptr h" using r by (simp add: region_ok_def)
  have "hp_ptr h + c * PAGE_SIZE \<le> hp_base h + hp_size h" using room c by simp
  from mark_pages_spec [OF r hb this b] obtain h1 where h1: "mark_pages c (hp_ptr h) b h = Returns h1" "hp_base h1 = hp_base h"
    "hp_size h1 = hp_size h" "hp_bins h1 = hp_bins h" "hp_mem h1 = hp_mem h"
    and t: "\<forall>i. hpg_bin (hp_table h1 i) = (if page_of h (hp_ptr h) \<le> i \<and> i < page_of h (hp_ptr h) + c then b else hpg_bin (hp_table h i))"
    by blast
  have md: "(hp_ptr h - hp_base h) mod PAGE_SIZE = 0" using r by (auto simp: region_ok_def mod_eq_0_iff_dvd)
  have tx: "hpg_bin (hp_table h1 (page_of h x)) =
      (if hp_ptr h \<le> x \<and> x < hp_ptr h + bin_grow b then b else hpg_bin (hp_table h (page_of h x)))" if x: "hp_base h \<le> x" for x
  proof -
    consider "x < hp_ptr h" | "hp_ptr h \<le> x" "x < hp_ptr h + c * PAGE_SIZE" | "hp_ptr h + c * PAGE_SIZE \<le> x" by linarith
    then show ?thesis
    proof cases
      case 1
      with page_of_range(2) [OF hb md x] t show ?thesis by simp
    next
      case 2
      with page_of_range(1) [OF hb md] t c show ?thesis by simp
    next
      case 3
      have "page_of h (hp_ptr h + c * PAGE_SIZE) \<le> page_of h x" using 3 hb by (simp add: page_of_def div_le_mono)
      then show ?thesis using t 3 c page_of_add [OF hb, of c] by auto
    qed
  qed
  have "raw_alloc (bin_grow b) b h = Returns (hp_ptr h, h1\<lparr>hp_ptr := hp_ptr h + bin_grow b\<rparr>)"
    using room h1(1) by (simp add: raw_alloc_def new n Let_def)
  with h1 tx show "\<exists>h'. raw_alloc (bin_grow b) b h = Returns (hp_ptr h, h') \<and> hp_ptr h' = hp_ptr h + bin_grow b \<and> hp_base h' = hp_base h \<and>
             hp_size h' = hp_size h \<and> hp_bins h' = hp_bins h \<and> hp_mem h' = hp_mem h \<and>
             (\<forall>x. hp_base h \<le> x \<longrightarrow> hpg_bin (hp_table h' (page_of h x)) =
                (if hp_ptr h \<le> x \<and> x < hp_ptr h + bin_grow b then b else hpg_bin (hp_table h (page_of h x))))"
    by (intro exI [of _ "h1\<lparr>hp_ptr := hp_ptr h + bin_grow b\<rparr>"]) simp
qed

lemma block_below:
  assumes "heap_ok h L A" and "(a, b) \<in> blocks h L A"
  shows "b < bin_count \<and> 0 < a \<and> hp_base h \<le> a \<and> a + bin_size b \<le> hp_ptr h \<and> a < hp_ptr h"
proof -
  have a: "b < bin_count" "hp_base h \<le> a" "a + bin_size b \<le> hp_ptr h" using heap_okD(3) [OF assms] by (simp_all add: block_ok_def)
  moreover have "0 < hp_base h" using heap_okD(1) [OF assms(1)] by (simp add: region_ok_def)
  moreover have "0 < bin_size b" using bin_size_bounds [OF a(1)] by simp
  ultimately show ?thesis by simp
qed

lemma apart_rows: "k \<noteq> k' \<Longrightarrow> apart (p + k * bin_size b, b) (p + k' * bin_size b, b)"
proof -
  have "p + k * bin_size b + bin_size b \<le> p + k' * bin_size b" if "k < k'" for k k'
  proof -
    have "(k + 1) * bin_size b \<le> k' * bin_size b" using that by (intro mult_le_mono1) simp
    then show ?thesis by simp
  qed
  then show "k \<noteq> k' \<Longrightarrow> apart (p + k * bin_size b, b) (p + k' * bin_size b, b)"
    by (cases k k' rule: linorder_cases) (auto simp: apart_def)
qed

lemma grown_ok:
  assumes ok: "heap_ok h L A" and b: "b < bin_count" and empty: "bn_raw (hp_bins h b) = 0"
    and f: "hp_ptr h1 = hp_ptr h + bin_grow b" "hp_base h1 = hp_base h" "hp_size h1 = hp_size h" "hp_bins h1 = hp_bins h" "hp_mem h1 = hp_mem h"
    and t: "\<And>x. hp_base h \<le> x \<Longrightarrow> hpg_bin (hp_table h1 (page_of h x)) =
      (if hp_ptr h \<le> x \<and> x < hp_ptr h + bin_grow b then b else hpg_bin (hp_table h (page_of h x)))"
    and room: "hp_ptr h + bin_grow b \<le> hp_base h + hp_size h"
    and h2: "h2 = set_bin b (\<lambda>n. n\<lparr>bn_raw_list := hp_ptr h, bn_raw := bn_grow n div bn_size n\<rparr>) h1"
  shows "heap_ok h2 L A" and "0 < bn_raw (hp_bins h2 b)"
proof -
  let ?m = "bin_grow b div bin_size b"
  have r: "region_ok h" by (rule heap_okD(1) [OF ok])
  have bn: "bn_size (hp_bins h b) = bin_size b" "bn_grow (hp_bins h b) = bin_grow b" using heap_okD(2) [OF ok b] by (simp_all add: bin_ok_def)
  have other: "hp_bins h2 c = hp_bins h c" if "c \<noteq> b" for c using that f by (simp add: h2)
  have nb: "hp_bins h2 b = (hp_bins h b)\<lparr>bn_raw_list := hp_ptr h, bn_raw := ?m\<rparr>" by (simp add: h2 f bn)
  have old: "raw_blocks (hp_bins h b) = {}" using empty by (simp add: raw_blocks_def)
  have new: "raw_blocks (hp_bins h2 b) = (\<lambda>k. hp_ptr h + k * bin_size b) ` {..<?m}" by (simp add: raw_blocks_def nb bn)
  have raw: "raw_blocks (hp_bins h2 c) = (if c = b then (\<lambda>k. hp_ptr h + k * bin_size b) ` {..<?m} else raw_blocks (hp_bins h c))" for c
    using new other [of c] by simp
  obtain R where R: "R = (\<lambda>k. (hp_ptr h + k * bin_size b, b)) ` {..<?m}" by simp
  have bl: "blocks h2 L A = blocks h L A \<union> R" using b old unfolding blocks_def raw R by auto
  have top: "k * bin_size b + bin_size b \<le> bin_grow b" if "k < ?m" for k
  proof -
    have "(k + 1) * bin_size b \<le> ?m * bin_size b" using that by (intro mult_le_mono1) simp
    then show ?thesis using bin_grow_blocks [OF b] by simp
  qed
  have f2: "hp_base h2 = hp_base h" "hp_ptr h2 = hp_ptr h + bin_grow b" "hp_table h2 = hp_table h1" by (simp_all add: h2 f)
  have pg: "page_of h2 x = page_of h x" for x by (simp add: page_of_def f2)
  have blk: "block_ok h2 x" if x: "x \<in> blocks h2 L A" for x
  proof (cases "x \<in> blocks h L A")
    case True
    with heap_okD(3) [OF ok True] t show ?thesis by (cases x) (simp add: block_ok_def pg f2)
  next
    case False
    then obtain k where k: "x = (hp_ptr h + k * bin_size b, b)" "k < ?m" using x unfolding bl R by blast
    have "hp_base h \<le> hp_ptr h" using r by (simp add: region_ok_def)
    with top [OF k(2)] b t k(1) show ?thesis by (simp add: block_ok_def pg f2)
  qed
  have ap: "all_apart (blocks h2 L A)"
    unfolding all_apart_def bl
  proof (intro ballI impI)
    fix x y
    assume xy: "x \<in> blocks h L A \<union> R" "y \<in> blocks h L A \<union> R" "x \<noteq> y"
    have low: "apart u v \<and> apart v u" if "u \<in> blocks h L A" "v \<in> R" for u v
      using that block_below [OF ok, of "fst u" "snd u"] unfolding R by (cases u) (auto simp: apart_def)
    consider "x \<in> blocks h L A" "y \<in> blocks h L A" | "x \<in> blocks h L A" "y \<in> R" | "x \<in> R" "y \<in> blocks h L A" | "x \<in> R" "y \<in> R"
      using xy by blast
    then show "apart x y"
    proof cases
      case 1
      with heap_okD(4) [OF ok] xy(3) show ?thesis by (simp add: all_apart_def)
    next
      case 4
      with xy(3) apart_rows show ?thesis unfolding R by fastforce
    qed (use low in blast)+
  qed
  have lim: "hp_ptr h < 2 ^ 32" "?m < 2 ^ 32"
  proof -
    show "hp_ptr h < 2 ^ 32" using r by (simp add: region_ok_def)
    have "?m \<le> bin_grow b" by (rule div_le_dividend)
    also have "\<dots> < 2 ^ 32" using bin_grow_bounds [OF b] by simp
    finally show "?m < 2 ^ 32" .
  qed
  have apart_new: "a \<notin> raw_blocks (hp_bins h2 b)" if "(a, b) \<in> blocks h L A" for a
    using block_below [OF ok that] unfolding new by auto
  have bins: "bin_ok (hp_bins h2 c) c (hp_mem h2) (L c)" if c: "c < bin_count" for c
  proof (cases "c = b")
    case True
    have "set (L b) \<inter> raw_blocks (hp_bins h2 b) = {}" using apart_new b by (auto simp: blocks_def)
    with True heap_okD(2) [OF ok b] lim nb show ?thesis by (simp add: bin_ok_def h2 f)
  next
    case False
    with heap_okD(2) [OF ok c] other [of c] show ?thesis by (simp add: h2 f)
  qed
  have reg: "region_ok h2"
  proof -
    have "(hp_ptr h + bin_grow b) mod PAGE_SIZE = 0" using r bin_grow_bounds [OF b] by (auto simp: region_ok_def mod_eq_0_iff_dvd)
    with r room show ?thesis by (simp add: region_ok_def h2 f)
  qed
  have al: "a \<notin> set (L c) \<and> a \<notin> raw_blocks (hp_bins h2 c)" if "(a, c) \<in> A" for a c
    using heap_okD(5) [OF ok that] apart_new [of a] other [of c] that by (cases "c = b") (auto simp: blocks_def)
  show "heap_ok h2 L A" by (rule heap_okI [OF reg bins blk ap al])
  have "(2::nat) ^ b \<le> 2 ^ 7" if "b < 8" using that by (intro power_increasing) simp_all
  then have "bin_size b \<le> bin_grow b" by (auto simp: bin_grow_def bin_size_def PAGE_SIZE_def)
  then show "0 < bn_raw (hp_bins h2 b)" using bin_size_bounds [OF b] by (simp add: nb div_greater_zero_iff)
qed

end
