(* ===== verification/Kheap_Props.thy ===== *)
theory Kheap_Props
  imports Kheap
begin

text \<open>
  The properties of \<open>heap.c\<close>: blocks never overlap, freeing and allocating keep the bins
  consistent, and where the page counts and the region's limit go wrong.
\<close>

section \<open>Allocating\<close>

definition room_for :: "nat \<Rightarrow> kheap \<Rightarrow> bool" where
  "room_for b h \<longleftrightarrow> bn_free_list (hp_bins h b) \<noteq> 0 \<or> 0 < bn_raw (hp_bins h b) \<or> hp_ptr h + bin_grow b \<le> hp_base h + hp_size h"

lemma take_element_spec:
  assumes ok: "heap_ok h L A" and b: "b < bin_count"
  shows "room_for b h \<Longrightarrow> \<exists>a h'. take_element b h = Returns (a, h') \<and> heap_ok h' (L(b := tl (L b))) (insert (a, b) A) \<and>
           (a, b) \<notin> A \<and> hp_mem h' = hp_mem h \<and> (L b \<noteq> [] \<longrightarrow> a = hd (L b) \<and> hp_table h' = hp_table h)"
    and "\<not> room_for b h \<Longrightarrow> take_element b h = Faults"
proof -
  note fl = free_list_head [OF ok b]
  have bin: "bin_ok (hp_bins h b) b (hp_mem h) (L b)" by (rule heap_okD(2) [OF ok b])
  have gr: "bn_grow (hp_bins h b) = bin_grow b" using bin by (simp add: bin_ok_def)
  note ra = raw_alloc_spec [OF heap_okD(1) [OF ok] b]
  show "\<not> room_for b h \<Longrightarrow> take_element b h = Faults"
    using ra(2) gr by (simp add: room_for_def take_element_def Let_def)
  assume room: "room_for b h"
  show "\<exists>a h'. take_element b h = Returns (a, h') \<and> heap_ok h' (L(b := tl (L b))) (insert (a, b) A) \<and>
           (a, b) \<notin> A \<and> hp_mem h' = hp_mem h \<and> (L b \<noteq> [] \<longrightarrow> a = hd (L b) \<and> hp_table h' = hp_table h)"
  proof (cases "L b")
    case (Cons a xs)
    then have head: "bn_free_list (hp_bins h b) = a" "a \<noteq> 0" using fl by simp_all
    obtain h' where h': "h' = set_bin b (\<lambda>n. n\<lparr>bn_free_list := load32 (hp_mem h) a, bn_free := u32_sub (bn_free (hp_bins h b)) 1\<rparr>) h" by simp
    have run: "take_element b h = Returns (a, h')" using head by (simp add: take_element_def h' set_bin_def Let_def)
    from take_free(1,2) [OF ok b Cons h'] run Cons show ?thesis by (intro exI [of _ a] exI [of _ h']) (simp add: h')
  next
    case Nil
    then have zero: "bn_free_list (hp_bins h b) = 0" using fl by simp
    have "\<exists>h1. (if bn_raw (hp_bins h b) = 0
        then obind (raw_alloc (bin_grow b) b h) (\<lambda>(r, h1). Returns (set_bin b (\<lambda>n. n\<lparr>bn_raw_list := r, bn_raw := bn_grow n div bn_size n\<rparr>) h1))
        else Returns h) = Returns h1 \<and> heap_ok h1 L A \<and> 0 < bn_raw (hp_bins h1 b) \<and> hp_mem h1 = hp_mem h"
    proof (cases "bn_raw (hp_bins h b) = 0")
      case True
      then have rm: "hp_ptr h + bin_grow b \<le> hp_base h + hp_size h" using room zero by (simp add: room_for_def)
      from ra(1) [OF this] obtain h1 where h1: "raw_alloc (bin_grow b) b h = Returns (hp_ptr h, h1)"
        "hp_ptr h1 = hp_ptr h + bin_grow b" "hp_base h1 = hp_base h" "hp_size h1 = hp_size h" "hp_bins h1 = hp_bins h" "hp_mem h1 = hp_mem h"
        and t: "\<And>x. hp_base h \<le> x \<Longrightarrow> hpg_bin (hp_table h1 (page_of h x)) =
          (if hp_ptr h \<le> x \<and> x < hp_ptr h + bin_grow b then b else hpg_bin (hp_table h (page_of h x)))" by blast
      from grown_ok [OF ok b True h1(2-6) t rm refl] show ?thesis using True h1(1,6) by simp
    qed (use ok in simp)
    then obtain h1 where h1: "(if bn_raw (hp_bins h b) = 0
        then obind (raw_alloc (bin_grow b) b h) (\<lambda>(r, h1). Returns (set_bin b (\<lambda>n. n\<lparr>bn_raw_list := r, bn_raw := bn_grow n div bn_size n\<rparr>) h1))
        else Returns h) = Returns h1" "heap_ok h1 L A" "0 < bn_raw (hp_bins h1 b)" "hp_mem h1 = hp_mem h" by blast
    obtain h' where h': "h' = set_bin b (\<lambda>n. n\<lparr>bn_raw := u32_sub (bn_raw n) 1, bn_raw_list := u32_add (bn_raw_list n) (bn_size n)\<rparr>) h1" by simp
    have run: "take_element b h = Returns (bn_raw_list (hp_bins h1 b), h')"
      unfolding take_element_def Let_def gr h1(1) using zero by (simp add: h')
    have same: "L(b := tl (L b)) = L" using Nil by (simp add: fun_upd_idem)
    from take_raw(1,2) [OF h1(2) b h1(3) refl h'] run h1(4) Nil same show ?thesis
      by (intro exI [of _ "bn_raw_list (hp_bins h1 b)"] exI [of _ h']) (simp add: h')
  qed
qed

text \<open>What the loops over the pages of a block do.\<close>

definition map_pages :: "(heap_page \<Rightarrow> heap_page) \<Rightarrow> nat \<Rightarrow> nat \<Rightarrow> kheap \<Rightarrow> kheap" where
  "map_pages f i n h = h\<lparr>hp_table := (\<lambda>j. if i \<le> j \<and> j < i + n then f (hp_table h j) else hp_table h j)\<rparr>"

definition less_free :: "heap_page \<Rightarrow> heap_page" where
  "less_free pg = pg\<lparr>hpg_free := (if hpg_free pg = 0 then 511 else hpg_free pg - 1)\<rparr>"

definition more_free :: "heap_page \<Rightarrow> heap_page" where
  "more_free pg = pg\<lparr>hpg_free := (hpg_free pg + 1) mod 512\<rparr>"

lemma map_pages_0 [simp]: "map_pages f i 0 h = h"
  by (rule kheap.equality) (auto simp: map_pages_def fun_eq_iff)

lemma map_pages_Suc: "map_pages f (Suc i) n (set_page i f h) = map_pages f i (Suc n) h"
  by (rule kheap.equality) (auto simp: map_pages_def set_page_def)

lemma map_pages_fields [simp]:
  "hp_bins (map_pages f i n h) = hp_bins h" "hp_ptr (map_pages f i n h) = hp_ptr h" "hp_base (map_pages f i n h) = hp_base h"
  "hp_size (map_pages f i n h) = hp_size h" "hp_mem (map_pages f i n h) = hp_mem h" "page_count (map_pages f i n h) = page_count h"
  "page_of (map_pages f i n h) a = page_of h a"
  by (simp_all add: map_pages_def page_count_def page_of_def)

lemma pages_taken_spec: "i + n \<le> page_count h \<Longrightarrow> pages_taken n i h = Returns (map_pages less_free i n h)"
proof (induction n arbitrary: i h)
  case (Suc n)
  have "page_taken i h = Returns (set_page i less_free h)"
    using Suc.prems by (simp add: page_taken_def less_free_def [abs_def])
  with Suc show ?case by (simp add: map_pages_Suc)
qed simp

lemma pages_given_spec:
  "i + n \<le> page_count h \<Longrightarrow> (\<And>j. i \<le> j \<Longrightarrow> j < i + n \<Longrightarrow> hpg_bin (hp_table h j) = b) \<Longrightarrow>
     pages_given n i b h = Returns (map_pages more_free i n h)"
proof (induction n arbitrary: i h)
  case (Suc n)
  have "pages_given (Suc n) i b h = pages_given n (i + 1) b (set_page i more_free h)"
    using Suc.prems by (simp add: more_free_def [abs_def])
  also have "\<dots> = Returns (map_pages more_free (i + 1) n (set_page i more_free h))"
    by (rule Suc.IH) (use Suc.prems in simp_all)
  finally show ?case by (simp add: map_pages_Suc)
qed simp

lemma heap_ok_pages:
  "heap_ok h L A \<Longrightarrow> (\<And>pg. hpg_bin (f pg) = hpg_bin pg) \<Longrightarrow> heap_ok (map_pages f i n h) L A"
  by (erule heap_ok_cong) (simp_all add: map_pages_def)

text \<open>The bin of a size, and the pages of a block.\<close>

definition bin_of :: "nat \<Rightarrow> nat option" where
  "bin_of sz = find (\<lambda>b. sz \<le> bin_size b) [0..<bin_count]"

lemma bin_of_SomeD: "bin_of sz = Some b \<Longrightarrow> b < bin_count \<and> sz \<le> bin_size b"
  by (auto simp: bin_of_def find_Some_iff)

lemma bin_of_None: "bin_of sz = None \<longleftrightarrow> 65536 < sz"
proof -
  have "bin_of sz = None \<longleftrightarrow> (\<forall>b < bin_count. bin_size b < sz)" by (auto simp: bin_of_def find_None_iff not_le)
  also have "\<dots> \<longleftrightarrow> 65536 < sz"
  proof
    assume "\<forall>b < bin_count. bin_size b < sz"
    then have "bin_size 23 < sz" by (simp add: bin_count_def)
    then show "65536 < sz" by (simp add: bin_size_def)
  qed (use bin_size_bounds in fastforce)
  finally show ?thesis .
qed

definition block_pages :: "nat \<Rightarrow> nat" where
  "block_pages b = max 1 (bin_size b div PAGE_SIZE)"

lemma block_pages_small: "b < 8 \<Longrightarrow> bin_size b div PAGE_SIZE = 0 \<and> block_pages b = 1"
proof -
  assume "b < 8"
  then have "(2::nat) ^ b \<le> 2 ^ 7" by (intro power_increasing) simp_all
  with \<open>b < 8\<close> have "bin_size b < PAGE_SIZE" by (simp add: bin_size_def PAGE_SIZE_def)
  then show ?thesis by (simp add: block_pages_def)
qed

lemma block_in_table:
  assumes "heap_ok h L A" and "(a, b) \<in> blocks h L A"
  shows "page_of h a + block_pages b \<le> page_count h"
    and "\<And>j. page_of h a \<le> j \<Longrightarrow> j < page_of h a + block_pages b \<Longrightarrow> hpg_bin (hp_table h j) = b"
proof -
  note bb = block_below [OF assms]
  have r: "region_ok h" by (rule heap_okD(1) [OF assms(1)])
  have inside: "a + k * PAGE_SIZE < a + bin_size b" if "k < block_pages b" for k
  proof (cases "bin_size b div PAGE_SIZE = 0")
    case True
    with that bb bin_size_bounds [of b] show ?thesis by (simp add: block_pages_def)
  next
    case False
    with that have "k + 1 \<le> bin_size b div PAGE_SIZE" by (simp add: block_pages_def)
    then have "(k + 1) * PAGE_SIZE \<le> bin_size b" by (simp add: less_eq_div_iff_mult_less_eq PAGE_SIZE_def)
    then show ?thesis by (simp add: PAGE_SIZE_def)
  qed
  have pos: "0 < block_pages b" by (simp add: block_pages_def)
  have "a + (block_pages b - 1) * PAGE_SIZE < hp_base h + hp_size h"
    using inside [of "block_pages b - 1"] pos bb r by (simp add: region_ok_def)
  from page_of_below [OF r _ this] bb have "page_of h (a + (block_pages b - 1) * PAGE_SIZE) < page_count h" by simp
  then show "page_of h a + block_pages b \<le> page_count h" using page_of_add [of h a "block_pages b - 1"] bb pos by simp
  fix j
  assume j: "page_of h a \<le> j" "j < page_of h a + block_pages b"
  then obtain k where k: "j = page_of h a + k" "k < block_pages b" by (metis le_add_diff_inverse nat_add_left_cancel_less)
  have "hpg_bin (hp_table h (page_of h (a + k * PAGE_SIZE))) = b"
    using heap_okD(3) [OF assms] inside [OF k(2)] by (simp add: block_ok_def)
  then show "hpg_bin (hp_table h j) = b" using page_of_add [of h a k] bb k(1) by simp
qed

lemma kmalloc_bin:
  assumes "heap_ok h L A"
  shows "find (\<lambda>b. sz \<le> bn_size (hp_bins h b)) [0..<bin_count] = bin_of sz"
  unfolding bin_of_def by (rule find_cong) (use heap_okD(2) [OF assms] in \<open>simp_all add: bin_ok_def\<close>)

lemma kmalloc_spec:
  assumes ok: "heap_ok h L A" and sz: "bin_of sz = Some b" and room: "room_for b h"
  shows "\<exists>a h'. kmalloc sz h = Returns (a, h') \<and> heap_ok h' (L(b := tl (L b))) (insert (a, b) A) \<and> (a, b) \<notin> A \<and>
           hp_mem h' = hp_mem h \<and> (L b \<noteq> [] \<longrightarrow> a = hd (L b) \<and>
             (\<forall>j. hp_table h' j = (if page_of h a \<le> j \<and> j < page_of h a + block_pages b then less_free (hp_table h j) else hp_table h j)))"
proof -
  have b: "b < bin_count" using bin_of_SomeD [OF sz] by simp
  from take_element_spec(1) [OF ok b room] obtain a h1 where
    te: "take_element b h = Returns (a, h1)" and ok1: "heap_ok h1 (L(b := tl (L b))) (insert (a, b) A)" and new: "(a, b) \<notin> A"
    and mem: "hp_mem h1 = hp_mem h" and reuse: "L b \<noteq> [] \<longrightarrow> a = hd (L b) \<and> hp_table h1 = hp_table h" by blast
  obtain h2 where h2: "h2 = set_bin b (\<lambda>n. n\<lparr>bn_alloc := u32_add (bn_alloc n) 1\<rparr>) h1" by simp
  have ok2: "heap_ok h2 (L(b := tl (L b))) (insert (a, b) A)" using ok1 by (rule heap_ok_cong) (simp_all add: h2)
  have inb: "(a, b) \<in> blocks h2 (L(b := tl (L b))) (insert (a, b) A)" by (simp add: blocks_def)
  note it = block_in_table(1) [OF ok2 inb]
  let ?i = "page_of h2 a" and ?n = "bn_size (hp_bins h2 b) div PAGE_SIZE - 1"
  have sz2: "bn_size (hp_bins h2 b) = bin_size b" using heap_okD(2) [OF ok2 b] by (simp add: bin_ok_def)
  have n: "block_pages b = Suc ?n" by (simp add: block_pages_def sz2)
  have pt: "page_taken ?i h2 = Returns (set_page ?i less_free h2)" using it n by (simp add: page_taken_def less_free_def [abs_def])
  have "pages_taken ?n (?i + 1) (set_page ?i less_free h2) = Returns (map_pages less_free (?i + 1) ?n (set_page ?i less_free h2))"
    by (rule pages_taken_spec) (use it n in simp)
  also have "\<dots> = Returns (map_pages less_free ?i (block_pages b) h2)" unfolding n by (simp add: map_pages_Suc)
  finally have ps: "pages_taken ?n (?i + 1) (set_page ?i less_free h2) = Returns (map_pages less_free ?i (block_pages b) h2)" .
  obtain h' where h': "h' = map_pages less_free ?i (block_pages b) h2" by simp
  have run: "kmalloc sz h = Returns (a, h')"
    unfolding kmalloc_def kmalloc_bin [OF ok] sz option.case te obind.simps prod.case Let_def h2 [symmetric] pt
    using ps by (simp add: h')
  have ok': "heap_ok h' (L(b := tl (L b))) (insert (a, b) A)" unfolding h' by (rule heap_ok_pages [OF ok2]) (simp add: less_free_def)
  have base: "page_of h2 a = page_of h a" if "L b \<noteq> []"
  proof -
    have "hp_base h1 = hp_base h" using te that free_list_head [OF ok b] by (auto simp: take_element_def Let_def split: list.splits)
    then show ?thesis by (simp add: page_of_def h2)
  qed
  show ?thesis
    by (rule exI [of _ a], rule exI [of _ h'], intro conjI impI allI run ok' new)
       (use mem reuse base in \<open>simp_all add: h' h2 map_pages_def\<close>)
qed

lemma kmalloc_panics:
  assumes ok: "heap_ok h L A" and "bin_of sz = None \<or> (\<exists>b. bin_of sz = Some b \<and> \<not> room_for b h)"
  shows "kmalloc sz h = Faults"
  using assms(2)
proof (elim disjE exE conjE)
  fix b
  assume sz: "bin_of sz = Some b" "\<not> room_for b h"
  then have "take_element b h = Faults" using take_element_spec(2) [OF ok] bin_of_SomeD by blast
  then show ?thesis using sz(1) by (simp add: kmalloc_def kmalloc_bin [OF ok])
qed (simp add: kmalloc_def kmalloc_bin [OF ok])

section \<open>Freeing\<close>

lemma in_free_list_spec: "chain (links_of m) (ptr_of p) xs \<Longrightarrow> in_free_list m p a = Some (a \<in> set xs)"
proof (induction xs arbitrary: p)
  case Nil
  then show ?case by (subst in_free_list.simps) simp
next
  case (Cons x xs)
  then have p: "p = x" "x \<noteq> 0" "chain (links_of m) (ptr_of (load32 m x)) xs" by simp_all
  then show ?case using Cons.IH [OF p(3)] by (subst in_free_list.simps) auto
qed

lemma heap_ok_store:
  assumes ok: "heap_ok h L A" and a: "(a, b) \<in> A" and same: "\<And>x. x < a \<or> a + bin_size b \<le> x \<Longrightarrow> m x = hp_mem h x" and c: "c < bin_count"
  shows "chain (links_of m) (ptr_of (bn_free_list (hp_bins h c))) (L c)"
proof -
  have ch: "chain (links_of (hp_mem h)) (ptr_of (bn_free_list (hp_bins h c))) (L c)" using heap_okD(2) [OF ok c] by (simp add: bin_ok_def)
  have "links_of (hp_mem h) x = links_of m x" if x: "x \<in> set (L c)" for x
  proof -
    have "(x, c) \<in> blocks h L A" "(a, b) \<in> blocks h L A" using x c a by (auto simp: blocks_def)
    moreover have "(x, c) \<noteq> (a, b)" using x heap_okD(5) [OF ok a] by auto
    ultimately have "apart (x, c) (a, b)" using heap_okD(4) [OF ok] by (simp add: all_apart_def)
    then have "hp_mem h y = m y" if "x \<le> y" "y < x + 4" for y
      using same [of y] that bin_size_bounds [OF c] by (auto simp: apart_def)
    then have "load32 (hp_mem h) x = load32 m x" by (rule load_cong)
    then show ?thesis by simp
  qed
  with ch show ?thesis using lseg_cong [of "L c" "links_of (hp_mem h)" "links_of m"] by simp
qed

text \<open>The owner of a block may write into it as it likes.\<close>

lemma heap_ok_client:
  assumes ok: "heap_ok h L A" and a: "(a, b) \<in> A" and same: "\<And>x. x < a \<or> a + bin_size b \<le> x \<Longrightarrow> m x = hp_mem h x"
  shows "heap_ok (h\<lparr>hp_mem := m\<rparr>) L A"
proof -
  have bl: "blocks (h\<lparr>hp_mem := m\<rparr>) L A = blocks h L A" by (simp add: blocks_def)
  have blk: "block_ok (h\<lparr>hp_mem := m\<rparr>) x = block_ok h x" for x by (cases x) (simp add: block_ok_def page_of_def)
  have "bin_ok (hp_bins h c) c m (L c)" if c: "c < bin_count" for c
    using heap_okD(2) [OF ok c] heap_ok_store [OF ok a same c] by (simp add: bin_ok_def)
  with ok show ?thesis unfolding heap_ok_def bl blk by (simp add: region_ok_def)
qed

text \<open>The part of \<open>kfree\<close> before the free list is looked at.\<close>

lemma kfree_start:
  assumes ok: "heap_ok h L A" and inb: "(a, b) \<in> blocks h L A"
  shows "kfree a h =
    (if a \<in> set (L b) then Faults
     else Returns (set_bin b (\<lambda>n. n\<lparr>bn_free_list := a, bn_alloc := u32_sub (bn_alloc n) 1, bn_free := u32_add (bn_free n) 1\<rparr>)
       ((map_pages more_free (page_of h a) (bin_size b div PAGE_SIZE) h)\<lparr>hp_mem := store32 a (bn_free_list (hp_bins h b)) (hp_mem h)\<rparr>)))"
proof -
  let ?i = "page_of h a" and ?n = "bin_size b div PAGE_SIZE"
  note bb = block_below [OF ok inb]
  have r: "region_ok h" by (rule heap_okD(1) [OF ok])
  have b: "b < bin_count" using bb by simp
  have bn: "bn_size (hp_bins h b) = bin_size b" "chain (links_of (hp_mem h)) (ptr_of (bn_free_list (hp_bins h b))) (L b)"
    using heap_okD(2) [OF ok b] by (simp_all add: bin_ok_def)
  have lim: "u32_add (hp_base h) (hp_size h) = hp_base h + hp_size h" using r by (simp add: region_ok_def)
  have rng: "a \<noteq> 0" "\<not> (a < hp_base h \<or> hp_base h + hp_size h \<le> a)" using bb r by (auto simp: region_ok_def)
  note it = block_in_table [OF ok inb]
  have "0 < block_pages b" "?n \<le> block_pages b" by (simp_all add: block_pages_def)
  then have i: "?i < page_count h" "?i + ?n \<le> page_count h" "hpg_bin (hp_table h ?i) = b"
    using it(1) it(2) [of ?i] by simp_all
  have pg: "pages_given ?n ?i b h = Returns (map_pages more_free ?i ?n h)"
    by (rule pages_given_spec) (use i it(2) \<open>?n \<le> block_pages b\<close> in simp_all)
  have fl: "looped (in_free_list (hp_mem h) (bn_free_list (hp_bins h b)) a) = Returns (a \<in> set (L b))"
    using in_free_list_spec [OF bn(2)] by (simp add: looped_def)
  show ?thesis
    using rng i b unfolding kfree_def Let_def lim by (simp add: bn(1) pg fl)
qed

lemma kfree_spec:
  assumes ok: "heap_ok h L A" and a: "(a, b) \<in> A"
  shows "\<exists>h'. kfree a h = Returns h' \<and> heap_ok h' (L(b := a # L b)) (A - {(a, b)}) \<and>
           (\<forall>x. x < a \<or> a + 4 \<le> x \<longrightarrow> hp_mem h' x = hp_mem h x) \<and> page_of h' = page_of h \<and>
           hp_table h' = hp_table (map_pages more_free (page_of h a) (bin_size b div PAGE_SIZE) h)"
proof -
  have inb: "(a, b) \<in> blocks h L A" using a by (simp add: blocks_def)
  note bb = block_below [OF ok inb]
  have b: "b < bin_count" and sz: "16 \<le> bin_size b" using bb bin_size_bounds [of b] by simp_all
  have fresh: "a \<notin> set (L b)" "a \<notin> raw_blocks (hp_bins h b)" using heap_okD(5) [OF ok a] by simp_all
  let ?v = "bn_free_list (hp_bins h b)"
  obtain h1 where h1: "h1 = map_pages more_free (page_of h a) (bin_size b div PAGE_SIZE) h" by simp
  have ok1: "heap_ok h1 L A" unfolding h1 by (rule heap_ok_pages [OF ok]) (simp add: more_free_def)
  obtain m where m: "m = store32 a ?v (hp_mem h)" by simp
  obtain h2 where h2: "h2 = h1\<lparr>hp_mem := m\<rparr>" by simp
  have same: "m x = hp_mem h1 x" if "x < a \<or> a + bin_size b \<le> x" for x using that sz by (auto simp: m h1 store_outside)
  have ok2: "heap_ok h2 L A" unfolding h2 by (rule heap_ok_client [OF ok1 a same])
  obtain h' where h': "h' = set_bin b (\<lambda>n. n\<lparr>bn_free_list := a, bn_alloc := u32_sub (bn_alloc n) 1, bn_free := u32_add (bn_free n) 1\<rparr>) h2" by simp
  have run: "kfree a h = Returns h'" using kfree_start [OF ok inb] fresh(1) by (simp add: h' h2 h1 m)
  have bin2: "bin_ok (hp_bins h2 b) b m (L b)" using heap_okD(2) [OF ok2 b] by (simp add: h2)
  have v: "?v < 2 ^ 32"
  proof (cases "L b")
    case Nil
    then show ?thesis using free_list_head(1) [OF ok b] by simp
  next
    case (Cons x xs)
    then have "(x, b) \<in> blocks h L A" using b by (auto simp: blocks_def)
    from block_below [OF ok this] heap_okD(1) [OF ok] Cons free_list_head(1) [OF ok b] show ?thesis by (simp add: region_ok_def)
  qed
  have link: "load32 m a = ?v" unfolding m by (rule load_store_same [OF v])
  have raw: "raw_blocks (hp_bins h' c) = raw_blocks (hp_bins h2 c)" for c by (simp add: h' raw_blocks_def)
  have bl: "blocks h' (L(b := a # L b)) (A - {(a, b)}) = blocks h2 L A" using a b by (auto simp: blocks_def raw split: if_splits)
  have bins: "bin_ok (hp_bins h' c) c (hp_mem h') ((L(b := a # L b)) c)" if c: "c < bin_count" for c
  proof (cases "c = b")
    case True
    have "0 < a" using bb by simp
    moreover have "hp_bins h2 b = hp_bins h b" by (simp add: h2 h1)
    ultimately show ?thesis
      using True bin2 link fresh(2) raw [of b] by (simp add: bin_ok_def h') (simp add: h2)
  next
    case False
    then show ?thesis using heap_okD(2) [OF ok2 c] raw [of c] by (simp add: bin_ok_def h')
  qed
  have reg: "region_ok h'" using heap_okD(1) [OF ok2] by (simp add: region_ok_def h')
  have blk: "block_ok h' x" if "x \<in> blocks h' (L(b := a # L b)) (A - {(a, b)})" for x
    using heap_okD(3) [OF ok2 that [unfolded bl]] by (cases x) (simp add: block_ok_def h')
  have ap: "all_apart (blocks h' (L(b := a # L b)) (A - {(a, b)}))" unfolding bl by (rule heap_okD(4) [OF ok2])
  have al: "x \<notin> set ((L(b := a # L b)) c) \<and> x \<notin> raw_blocks (hp_bins h' c)" if "(x, c) \<in> A - {(a, b)}" for x c
    using heap_okD(5) [OF ok2, of x c] that unfolding raw by auto
  have ok': "heap_ok h' (L(b := a # L b)) (A - {(a, b)})" by (rule heap_okI [OF reg bins blk ap al])
  have pg: "page_of h' = page_of h" by (simp add: fun_eq_iff page_of_def h' h2 h1)
  have out: "\<forall>x. x < a \<or> a + 4 \<le> x \<longrightarrow> hp_mem h' x = hp_mem h x" by (auto simp: h' h2 m store_outside)
  have tab: "hp_table h' = hp_table (map_pages more_free (page_of h a) (bin_size b div PAGE_SIZE) h)" by (simp add: h' h2 h1)
  show ?thesis using run ok' pg out tab by blast
qed

text \<open>The state after a free, field by field.\<close>

lemma kfree_fields:
  assumes ok: "heap_ok h L A" and a: "(a, b) \<in> A" and run: "kfree a h = Returns h'"
  shows "hp_bins h' = (hp_bins h)(b := (hp_bins h b)\<lparr>bn_free_list := a, bn_alloc := u32_sub (bn_alloc (hp_bins h b)) 1,
           bn_free := u32_add (bn_free (hp_bins h b)) 1\<rparr>)"
    and "hp_ptr h' = hp_ptr h" "hp_base h' = hp_base h" "hp_size h' = hp_size h"
    and "load32 (hp_mem h') a = bn_free_list (hp_bins h b)"
proof -
  have inb: "(a, b) \<in> blocks h L A" using a by (simp add: blocks_def)
  have b: "b < bin_count" using block_below [OF ok inb] by simp
  have fresh: "a \<notin> set (L b)" using heap_okD(5) [OF ok a] by simp
  let ?v = "bn_free_list (hp_bins h b)" and ?h1 = "map_pages more_free (page_of h a) (bin_size b div PAGE_SIZE) h"
  have "kfree a h = Returns (set_bin b (\<lambda>n. n\<lparr>bn_free_list := a, bn_alloc := u32_sub (bn_alloc n) 1,
      bn_free := u32_add (bn_free n) 1\<rparr>) (?h1\<lparr>hp_mem := store32 a ?v (hp_mem h)\<rparr>))"
    using kfree_start [OF ok inb] fresh by simp
  then have h': "h' = set_bin b (\<lambda>n. n\<lparr>bn_free_list := a, bn_alloc := u32_sub (bn_alloc n) 1,
      bn_free := u32_add (bn_free n) 1\<rparr>) (?h1\<lparr>hp_mem := store32 a ?v (hp_mem h)\<rparr>)" using run by simp
  have v: "?v < 2 ^ 32"
  proof (cases "L b")
    case Nil
    then show ?thesis using free_list_head(1) [OF ok b] by simp
  next
    case (Cons x xs)
    then have "(x, b) \<in> blocks h L A" using b by (auto simp: blocks_def)
    from block_below [OF ok this] heap_okD(1) [OF ok] Cons free_list_head(1) [OF ok b] show ?thesis by (simp add: region_ok_def)
  qed
  show "hp_bins h' = (hp_bins h)(b := (hp_bins h b)\<lparr>bn_free_list := a, bn_alloc := u32_sub (bn_alloc (hp_bins h b)) 1,
           bn_free := u32_add (bn_free (hp_bins h b)) 1\<rparr>)"
    "hp_ptr h' = hp_ptr h" "hp_base h' = hp_base h" "hp_size h' = hp_size h" by (simp_all add: h')
  show "load32 (hp_mem h') a = ?v" by (simp add: h' load_store_same [OF v])
qed

lemma u32_undo: "x < 2 ^ 32 \<Longrightarrow> u32_add (u32_sub x 1) 1 = x" "x < 2 ^ 32 \<Longrightarrow> u32_sub (u32_add x 1) 1 = x"
  by (cases "x = 0"; cases "x = 2 ^ 32 - 1"; simp add: u32_add_def u32_sub_def mod_if)+

section \<open>The properties\<close>

lemma PAGE_ALIGN_bounds:
  assumes "x + PAGE_SIZE < 2 ^ 32"
  shows "x \<le> PAGE_ALIGN x" and "PAGE_ALIGN x < x + PAGE_SIZE" and "PAGE_ALIGN x mod PAGE_SIZE = 0"
proof -
  have e: "PAGE_ALIGN x = (x + 4095) div 4096 * 4096" using assms by (simp add: PAGE_ALIGN_def PAGE_SIZE_def)
  have "(x + 4095) div 4096 * 4096 + (x + 4095) mod 4096 = x + 4095" by (rule div_mult_mod_eq)
  moreover have "(x + 4095) mod 4096 < 4096" by simp
  ultimately show "x \<le> PAGE_ALIGN x" "PAGE_ALIGN x < x + PAGE_SIZE" unfolding e PAGE_SIZE_def by linarith+
  show "PAGE_ALIGN x mod PAGE_SIZE = 0" unfolding e PAGE_SIZE_def by simp
qed

lemma heap_init_ok:
  assumes "0 < nb" and "0 < sz" and "sz mod PAGE_SIZE = 0" and "nb + 2 * sz + 2 ^ 18 \<le> 2 ^ 32"
  shows "heap_ok (heap_init nb sz m) (\<lambda>_. []) {} \<and>
         nb + sz < hp_base (heap_init nb sz m) + hp_size (heap_init nb sz m)"
proof -
  let ?h = "heap_init nb sz m" and ?x = "nb + sz div PAGE_SIZE * 2"
  from page_multiple [OF assms(3)] obtain c where c: "sz = c * PAGE_SIZE" by blast
  have c2: "0 < c" "c * 4096 = sz" using c assms(2) by (simp_all add: PAGE_SIZE_def)
  have x: "?x = nb + c * 2" using c by (simp add: PAGE_SIZE_def)
  have small: "?x + PAGE_SIZE < 2 ^ 32" unfolding x using assms(4) c2 by (simp add: PAGE_SIZE_def)
  have add: "u32_add nb (sz div PAGE_SIZE * 2) = ?x" using small by (simp add: PAGE_SIZE_def)
  note al = PAGE_ALIGN_bounds [OF small]
  have f: "hp_base ?h = PAGE_ALIGN ?x" "hp_ptr ?h = PAGE_ALIGN ?x" "hp_size ?h = sz" "hp_bins ?h = init_bins"
    by (simp_all add: heap_init_def add Let_def)
  have reg: "region_ok ?h"
    using al assms c2 unfolding region_ok_def f x PAGE_SIZE_def by simp
  have raw: "raw_blocks (init_bins b) = {}" for b by (simp add: raw_blocks_def init_bins_def)
  have "blocks ?h (\<lambda>_. []) {} = {}" by (simp add: blocks_def f raw)
  moreover have "bin_ok (init_bins b) b m2 []" for b m2 using raw [of b] by (simp add: bin_ok_def init_bins_def bin_grow_def)
  ultimately have "heap_ok ?h (\<lambda>_. []) {}" using reg by (simp add: heap_ok_def all_apart_def f)
  moreover have "nb + sz < hp_base ?h + hp_size ?h" using al(1) c2 unfolding f x by simp
  ultimately show ?thesis by blast
qed

lemma demo_heap_ok: "heap_ok (heap_init 0x1000 0x400000 (\<lambda>_. 0)) (\<lambda>_. []) {}"
  using heap_init_ok [of "0x1000" "0x400000" "\<lambda>_. 0"] by (simp add: PAGE_SIZE_def)

text \<open>
  After \<open>heap_init\<close> the allocator is consistent and owns no block. The limit that
  \<open>raw_alloc\<close> checks, \<open>heap_base + heap_size\<close>, lies beyond the end of the region: the size
  counts the pages of the table as well.
\<close>

theorem heap_init_correct:
  assumes "0 < nb" and "0 < sz" and "sz mod PAGE_SIZE = 0" and "nb + 2 * sz + 2 ^ 18 \<le> 2 ^ 32"
  shows "heap_ok (heap_init nb sz m) (\<lambda>_. []) {} \<and>
         nb + sz < hp_base (heap_init nb sz m) + hp_size (heap_init nb sz m)"
  using assms by (rule heap_init_ok)

theorem heap_init_correct_witness:
  "heap_ok (heap_init 0x1000 0x400000 (\<lambda>_. 0)) (\<lambda>_. []) {} \<and> hp_base (heap_init 0x1000 0x400000 (\<lambda>_. 0)) = 0x2000"
  using heap_init_correct [of "0x1000" "0x400000" "\<lambda>_. 0"]
  by (simp add: PAGE_SIZE_def heap_init_def PAGE_ALIGN_def Let_def)

text \<open>
  (C32) \<open>kmalloc\<close>: for a size up to 64k whose bin has an element or can grow, the call returns
  a block of that bin, at least as large as asked, that overlaps no block in use, and writes no
  memory; the allocator stays consistent. In every other case it panics; it never returns \<open>NULL\<close>.
\<close>

theorem kmalloc_correct:
  assumes "heap_ok h L A"
  shows "(bin_of sz = None \<longleftrightarrow> 65536 < sz) \<and>
    (case bin_of sz of
       None \<Rightarrow> kmalloc sz h = Faults
     | Some b \<Rightarrow>
         if room_for b h
         then \<exists>a h' L'. kmalloc sz h = Returns (a, h') \<and> heap_ok h' L' (insert (a, b) A) \<and> (a, b) \<notin> A \<and> a \<noteq> 0 \<and> sz \<le> bin_size b \<and>
                (\<forall>x \<in> A. apart (a, b) x) \<and> hp_mem h' = hp_mem h
         else kmalloc sz h = Faults)"
proof (cases "bin_of sz")
  case (Some b)
  show ?thesis
  proof (cases "room_for b h")
    case True
    from kmalloc_spec [OF assms Some True] obtain a h' where
      k: "kmalloc sz h = Returns (a, h')" "heap_ok h' (L(b := tl (L b))) (insert (a, b) A)" "(a, b) \<notin> A" "hp_mem h' = hp_mem h" by blast
    have inb: "(a, b) \<in> blocks h' (L(b := tl (L b))) (insert (a, b) A)" by (simp add: blocks_def)
    have "apart (a, b) x" if "x \<in> A" for x
    proof -
      have "x \<in> blocks h' (L(b := tl (L b))) (insert (a, b) A)" using that by (simp add: blocks_def)
      moreover have "(a, b) \<noteq> x" using that k(3) by auto
      ultimately show ?thesis using heap_okD(4) [OF k(2)] inb unfolding all_apart_def by blast
    qed
    moreover have "a \<noteq> 0" using block_below [OF k(2) inb] by simp
    ultimately have "\<exists>a h' L'. kmalloc sz h = Returns (a, h') \<and> heap_ok h' L' (insert (a, b) A) \<and> (a, b) \<notin> A \<and> a \<noteq> 0 \<and> sz \<le> bin_size b \<and>
        (\<forall>x \<in> A. apart (a, b) x) \<and> hp_mem h' = hp_mem h"
      using k bin_of_SomeD [OF Some] by blast
    with True Some bin_of_None [of sz] show ?thesis by simp
  qed (use Some bin_of_None [of sz] kmalloc_panics [OF assms] in simp)
qed (use bin_of_None [of sz] kmalloc_panics [OF assms] in simp)

lemma demo_room: "room_for 2 (heap_init 0x1000 0x400000 (\<lambda>_. 0))"
  by (simp add: room_for_def heap_init_def init_bins_def bin_grow_def PAGE_SIZE_def PAGE_ALIGN_def Let_def)

lemma demo_bin: "bin_of 50 = Some 2"
  by (simp add: bin_of_def bin_count_def bin_size_def upt_rec)

theorem kmalloc_correct_witness:
  "\<exists>a h'. kmalloc 50 (heap_init 0x1000 0x400000 (\<lambda>_. 0)) = Returns (a, h') \<and> a \<noteq> 0"
  using kmalloc_correct [OF demo_heap_ok, of 50] demo_room demo_bin by auto

text \<open>
  \<open>kfree\<close> of a block in use puts it in front of its bin's list, writes only the block's first
  word and keeps the allocator consistent; a block that is on the list already is a panic.
\<close>

theorem kfree_correct:
  assumes "heap_ok h L A"
  shows "((a, b) \<in> A \<longrightarrow> (\<exists>h'. kfree a h = Returns h' \<and> heap_ok h' (L(b := a # L b)) (A - {(a, b)}) \<and>
            (\<forall>x. x < a \<or> a + 4 \<le> x \<longrightarrow> hp_mem h' x = hp_mem h x))) \<and>
         (b < bin_count \<and> a \<in> set (L b) \<longrightarrow> kfree a h = Faults)"
proof (intro conjI impI)
  assume "(a, b) \<in> A"
  from kfree_spec [OF assms this] show "\<exists>h'. kfree a h = Returns h' \<and> heap_ok h' (L(b := a # L b)) (A - {(a, b)}) \<and>
      (\<forall>x. x < a \<or> a + 4 \<le> x \<longrightarrow> hp_mem h' x = hp_mem h x)" by blast
next
  assume b: "b < bin_count \<and> a \<in> set (L b)"
  then have "(a, b) \<in> blocks h L A" by (auto simp: blocks_def)
  from kfree_start [OF assms this] b show "kfree a h = Faults" by simp
qed

text \<open>The counts of the pages fit in their nine bits.\<close>

definition counts_ok :: "kheap \<Rightarrow> bool" where
  "counts_ok h \<longleftrightarrow> (\<forall>j. hpg_free (hp_table h j) < 512)"

lemma counts_ok_set_page: "counts_ok h \<Longrightarrow> (\<And>pg. hpg_free pg < 512 \<Longrightarrow> hpg_free (f pg) < 512) \<Longrightarrow> counts_ok (set_page i f h)"
  by (simp add: counts_ok_def)

lemma counts_ok_set_bin [simp]: "counts_ok (set_bin b f h) = counts_ok h" "counts_ok (h\<lparr>hp_ptr := p\<rparr>) = counts_ok h"
  by (simp_all add: counts_ok_def)

lemma mark_pages_counts: "counts_ok h \<Longrightarrow> mark_pages n a b h = Returns h' \<Longrightarrow> counts_ok h'"
proof (induction n arbitrary: a h)
  case (Suc n)
  obtain f :: "heap_page \<Rightarrow> heap_page" where f: "f = (\<lambda>pg. pg\<lparr>hpg_in_use := True, hpg_cleaning := False, hpg_bin := b mod 32,
      hpg_free := (if b < bin_count \<and> bn_size (hp_bins h b) < PAGE_SIZE then (PAGE_SIZE div bn_size (hp_bins h b)) mod 512 else 1)\<rparr>)"
    by simp
  have "page_count h > page_of h a" using Suc.prems(2) by (auto simp: Let_def split: if_splits)
  then have run: "mark_pages n (a + PAGE_SIZE) b (set_page (page_of h a) f h) = Returns h'"
    using Suc.prems(2) by (simp only: mark_pages.simps Let_def f not_le [symmetric] if_False simp_thms)
  show ?case by (rule Suc.IH [OF counts_ok_set_page run]) (use Suc.prems(1) in \<open>simp_all add: f\<close>)
qed simp

lemma take_element_counts: "counts_ok h \<Longrightarrow> take_element b h = Returns (a, h') \<Longrightarrow> counts_ok h'"
  by (auto simp: take_element_def raw_alloc_def Let_def obind_Returns_iff split: if_splits dest: mark_pages_counts)

lemma pages_taken_counts: "counts_ok h \<Longrightarrow> pages_taken n i h = Returns h' \<Longrightarrow> counts_ok h'"
proof (induction n arbitrary: i h)
  case (Suc n)
  then obtain h1 where h1: "page_taken i h = Returns h1" "pages_taken n (i + 1) h1 = Returns h'" by (auto simp: obind_Returns_iff)
  then have "counts_ok h1" using Suc.prems(1) by (auto simp: page_taken_def split: if_splits intro!: counts_ok_set_page)
  with Suc.IH h1(2) show ?case by blast
qed simp

lemma kmalloc_counts:
  assumes "counts_ok h" and "kmalloc sz h = Returns (a, h')"
  shows "counts_ok h'"
proof -
  from assms(2) obtain b h1 h2 n where te: "take_element b h = Returns (a, h1)"
    and pt: "page_taken (page_of h1 a) (set_bin b (\<lambda>n. n\<lparr>bn_alloc := u32_add (bn_alloc n) 1\<rparr>) h1) = Returns h2"
    and ps: "pages_taken n (page_of h1 a + 1) h2 = Returns h'"
    by (auto simp: kmalloc_def Let_def obind_Returns_iff split: option.splits)
  have "counts_ok h1" by (rule take_element_counts [OF assms(1) te])
  then have "counts_ok h2" using pt by (auto simp: page_taken_def split: if_splits intro!: counts_ok_set_page)
  then show ?thesis using ps by (rule pages_taken_counts)
qed

lemma pages_taken_fields:
  "pages_taken n i h = Returns h' \<Longrightarrow>
     hp_bins h' = hp_bins h \<and> hp_ptr h' = hp_ptr h \<and> hp_base h' = hp_base h \<and> hp_size h' = hp_size h"
proof (induction n arbitrary: i h)
  case (Suc n)
  from Suc.prems obtain h1 where "page_taken i h = Returns h1" and "pages_taken n (i + 1) h1 = Returns h'"
    by (auto simp: obind_Returns_iff)
  with Suc.IH [of "i + 1" h1] show ?case by (auto simp: page_taken_def split: if_splits)
qed simp

lemma mark_pages_bins: "mark_pages n a b h = Returns h' \<Longrightarrow> hp_bins h' = hp_bins h"
proof (induction n arbitrary: a h)
  case (Suc n)
  then show ?case by (auto simp: Let_def split: if_splits)
qed simp

lemma kmalloc_raw_counts:
  assumes ok: "heap_ok h L A" and sz: "bin_of sz = Some b" and e: "bn_free_list (hp_bins h b) = 0"
    and run: "kmalloc sz h = Returns (a, h')"
  shows "bn_alloc (hp_bins h' b) = u32_add (bn_alloc (hp_bins h b)) 1" and "bn_free (hp_bins h' b) = bn_free (hp_bins h b)"
proof -
  obtain x h1 h3 n i where te: "take_element b h = Returns (x, h1)"
    and pt: "page_taken i (set_bin b (\<lambda>n. n\<lparr>bn_alloc := u32_add (bn_alloc n) 1\<rparr>) h1) = Returns h3"
    and ps: "pages_taken n (i + 1) h3 = Returns h'"
    using run unfolding kmalloc_def kmalloc_bin [OF ok] sz option.case Let_def by (auto simp: obind_Returns_iff)
  have "bn_alloc (hp_bins h1 b) = bn_alloc (hp_bins h b)" "bn_free (hp_bins h1 b) = bn_free (hp_bins h b)"
    using te e by (auto simp: take_element_def raw_alloc_def Let_def obind_Returns_iff dest!: mark_pages_bins split: if_splits)
  with pages_taken_fields [OF ps] pt show "bn_alloc (hp_bins h' b) = u32_add (bn_alloc (hp_bins h b)) 1"
    "bn_free (hp_bins h' b) = bn_free (hp_bins h b)" by (auto simp: page_taken_def split: if_splits)
qed

lemma demo_block:
  obtains a h where "heap_ok h (\<lambda>_. []) {(a, 2)}" and "a \<noteq> 0" and "counts_ok h"
    and "bn_alloc (hp_bins h 2) = 1" and "bn_free (hp_bins h 2) = 0"
proof -
  from kmalloc_spec [OF demo_heap_ok demo_bin demo_room] obtain a h where
    h: "heap_ok h ((\<lambda>_. [])(2 := tl [])) {(a, 2)}" and run: "kmalloc 50 (heap_init 0x1000 0x400000 (\<lambda>_. 0)) = Returns (a, h)" by auto
  have "counts_ok h" by (rule kmalloc_counts [OF _ run]) (simp add: counts_ok_def heap_init_def Let_def)
  have e: "(\<lambda>_. [])(2 := tl []) = (\<lambda>_ :: nat. [] :: nat list)" by (simp add: fun_eq_iff)
  have ok: "heap_ok h (\<lambda>_. []) {(a, 2)}" using h unfolding e .
  have "(a, 2) \<in> blocks h (\<lambda>_. []) {(a, 2)}" by (simp add: blocks_def)
  from block_below [OF ok this] have "a \<noteq> 0" by simp
  moreover have "bn_alloc (hp_bins h 2) = 1" "bn_free (hp_bins h 2) = 0"
    using kmalloc_raw_counts [OF demo_heap_ok demo_bin _ run]
    by (simp_all add: heap_init_def init_bins_def Let_def u32_add_def)
  ultimately show thesis using ok \<open>counts_ok h\<close> that by blast
qed

theorem kfree_correct_witness:
  "\<exists>a h h'. a \<noteq> 0 \<and> kfree a h = Returns h' \<and> kfree a h' = Faults"
proof -
  obtain a h where ok: "heap_ok h (\<lambda>_. []) {(a, 2)}" "a \<noteq> 0" by (rule demo_block)
  from kfree_correct [OF ok(1), of a 2] obtain h' where
    h': "kfree a h = Returns h'" "heap_ok h' ((\<lambda>_. [])(2 := [a])) {}" by auto
  from kfree_correct [OF h'(2), of a 2] have "kfree a h' = Faults" by (simp add: bin_count_def)
  with ok(2) h'(1) show ?thesis by blast
qed

section \<open>Freeing and allocating again\<close>

text \<open>What an allocation from the list of free elements does to the bins and the region.\<close>

lemma kmalloc_fields:
  assumes ok: "heap_ok h L A" and sz: "bin_of sz = Some b" and ne: "bn_free_list (hp_bins h b) \<noteq> 0"
    and run: "kmalloc sz h = Returns (a, h')"
  shows "hp_bins h' = (hp_bins h)(b := (hp_bins h b)\<lparr>bn_free_list := load32 (hp_mem h) (bn_free_list (hp_bins h b)),
           bn_free := u32_sub (bn_free (hp_bins h b)) 1, bn_alloc := u32_add (bn_alloc (hp_bins h b)) 1\<rparr>)"
    and "hp_ptr h' = hp_ptr h" "hp_base h' = hp_base h" "hp_size h' = hp_size h"
proof -
  let ?h1 = "set_bin b (\<lambda>n. n\<lparr>bn_free_list := load32 (hp_mem h) (bn_free_list (hp_bins h b)), bn_free := u32_sub (bn_free n) 1\<rparr>) h"
  let ?h2 = "set_bin b (\<lambda>n. n\<lparr>bn_alloc := u32_add (bn_alloc n) 1\<rparr>) ?h1"
  have te: "take_element b h = Returns (bn_free_list (hp_bins h b), ?h1)" using ne by (simp add: take_element_def Let_def)
  obtain h3 n i where pt: "page_taken i ?h2 = Returns h3" and ps: "pages_taken n (i + 1) h3 = Returns h'"
    using run unfolding kmalloc_def kmalloc_bin [OF ok] sz option.case te obind.simps prod.case Let_def
    by (auto simp: obind_Returns_iff)
  have "hp_bins h3 = hp_bins ?h2 \<and> hp_ptr h3 = hp_ptr h \<and> hp_base h3 = hp_base h \<and> hp_size h3 = hp_size h"
    using pt by (auto simp: page_taken_def split: if_splits)
  with pages_taken_fields [OF ps] show "hp_ptr h' = hp_ptr h" "hp_base h' = hp_base h" "hp_size h' = hp_size h"
    "hp_bins h' = (hp_bins h)(b := (hp_bins h b)\<lparr>bn_free_list := load32 (hp_mem h) (bn_free_list (hp_bins h b)),
       bn_free := u32_sub (bn_free (hp_bins h b)) 1, bn_alloc := u32_add (bn_alloc (hp_bins h b)) 1\<rparr>)"
    by simp_all
qed

text \<open>
  (C33) A block that was freed is the next one its bin gives out. Freeing it puts it in front of
  the free list of its bin, which counts one allocation less and one free element more; after
  the next allocation every bin (its lists and both its counts) and the region are as they were,
  and of the memory only the first word of the block was written. The one exception is the count
  of free elements of the page of a small block, which \<open>kmalloc\<close> lowers and \<open>kfree\<close> never
  raises: it is one lower each time.
\<close>

theorem heap_reuse:
  assumes "heap_ok h L A" and "(a, b) \<in> A" and "bin_of sz = Some b" and "counts_ok h"
    and "bn_alloc (hp_bins h b) < 2 ^ 32" and "bn_free (hp_bins h b) < 2 ^ 32"
  shows "\<exists>h1 h2. kfree a h = Returns h1 \<and> kmalloc sz h1 = Returns (a, h2) \<and>
           heap_ok h1 (L(b := a # L b)) (A - {(a, b)}) \<and> heap_ok h2 L A \<and>
           hp_bins h1 = (hp_bins h)(b := (hp_bins h b)\<lparr>bn_free_list := a, bn_alloc := u32_sub (bn_alloc (hp_bins h b)) 1,
             bn_free := u32_add (bn_free (hp_bins h b)) 1\<rparr>) \<and>
           hp_bins h2 = hp_bins h \<and> hp_ptr h2 = hp_ptr h \<and> hp_base h2 = hp_base h \<and> hp_size h2 = hp_size h \<and>
           (\<forall>x. x < a \<or> a + 4 \<le> x \<longrightarrow> hp_mem h2 x = hp_mem h x) \<and>
           hp_table h2 = (if b < 8 then (hp_table h)(page_of h a := less_free (hp_table h (page_of h a))) else hp_table h)"
proof -
  have b: "b < bin_count" using bin_of_SomeD [OF assms(3)] by simp
  let ?n = "bin_size b div PAGE_SIZE"
  from kfree_spec [OF assms(1,2)] obtain h1 where h1: "kfree a h = Returns h1" "heap_ok h1 (L(b := a # L b)) (A - {(a, b)})"
    "page_of h1 = page_of h" "hp_table h1 = hp_table (map_pages more_free (page_of h a) ?n h)"
    and mem: "\<forall>x. x < a \<or> a + 4 \<le> x \<longrightarrow> hp_mem h1 x = hp_mem h x" by blast
  note f = kfree_fields [OF assms(1,2) h1(1)]
  have ne: "bn_free_list (hp_bins h1 b) \<noteq> 0" using free_list_head [OF h1(2) b] by simp
  then have "room_for b h1" by (simp add: room_for_def)
  from kmalloc_spec [OF h1(2) assms(3) this] obtain h2 where
    k: "kmalloc sz h1 = Returns (a, h2)" "heap_ok h2 ((L(b := a # L b))(b := L b)) (insert (a, b) (A - {(a, b)}))"
    and mem2: "hp_mem h2 = hp_mem h1"
    and t: "\<forall>j. hp_table h2 j = (if page_of h1 a \<le> j \<and> j < page_of h1 a + block_pages b then less_free (hp_table h1 j) else hp_table h1 j)"
    by auto
  note g = kmalloc_fields [OF h1(2) assms(3) ne k(1)]
  have "u32_add (u32_sub (bn_alloc (hp_bins h b)) 1) 1 = bn_alloc (hp_bins h b)"
    "u32_sub (u32_add (bn_free (hp_bins h b)) 1) 1 = bn_free (hp_bins h b)"
    using u32_undo assms(5,6) by simp_all
  then have bins: "hp_bins h2 = hp_bins h" using f(1,5) by (simp add: g(1))
  have same: "(L(b := a # L b))(b := L b) = L" "insert (a, b) (A - {(a, b)}) = A" using assms(2) by auto
  have undo: "less_free (more_free (hp_table h j)) = hp_table h j" for j
  proof -
    have "hpg_free (hp_table h j) < 512" using assms(4) by (simp add: counts_ok_def)
    then show ?thesis by (cases "hpg_free (hp_table h j) = 511") (auto simp: less_free_def more_free_def)
  qed
  have "hp_table h2 j = (if b < 8 then (hp_table h)(page_of h a := less_free (hp_table h (page_of h a))) else hp_table h) j" for j
  proof (cases "b < 8")
    case True
    with block_pages_small [OF True] t h1(3,4) show ?thesis by (auto simp: map_pages_def)
  next
    case False
    have n: "?n = b - 7" using bin_size_pages [OF b False] by (simp add: PAGE_SIZE_def)
    have "block_pages b = ?n" unfolding block_pages_def n using False by simp
    with False t h1(3,4) undo show ?thesis by (simp add: map_pages_def)
  qed
  then have "hp_table h2 = (if b < 8 then (hp_table h)(page_of h a := less_free (hp_table h (page_of h a))) else hp_table h)" by (rule ext)
  then show ?thesis
    using h1(1,2) k f g(2-4) bins mem mem2 unfolding same by (intro exI [of _ h1] exI [of _ h2]) simp
qed

theorem heap_reuse_witness:
  "\<exists>a h h1 h2. kfree a h = Returns h1 \<and> kmalloc 50 h1 = Returns (a, h2) \<and> hp_bins h2 = hp_bins h \<and>
     bn_alloc (hp_bins h1 2) = 0 \<and> bn_free (hp_bins h1 2) = 1 \<and>
     hpg_free (hp_table h2 (page_of h a)) = (hpg_free (hp_table h (page_of h a)) + 511) mod 512"
proof -
  obtain a h where ok: "heap_ok h (\<lambda>_. []) {(a, 2)}" "counts_ok h"
    and n: "bn_alloc (hp_bins h 2) = 1" "bn_free (hp_bins h 2) = 0" by (rule demo_block)
  have "(a, 2) \<in> {(a, 2 :: nat)}" by simp
  from heap_reuse [OF ok(1) this demo_bin ok(2)] n obtain h1 h2 where
    r: "kfree a h = Returns h1" "kmalloc 50 h1 = Returns (a, h2)" "hp_bins h2 = hp_bins h"
    and t: "hp_table h2 = (hp_table h)(page_of h a := less_free (hp_table h (page_of h a)))"
    and b1: "bn_alloc (hp_bins h1 2) = 0" "bn_free (hp_bins h1 2) = 1"
    by (auto simp: u32_sub_def u32_add_def)
  have "hpg_free (hp_table h (page_of h a)) < 512" using ok(2) by (simp add: counts_ok_def)
  then have "hpg_free (hp_table h2 (page_of h a)) = (hpg_free (hp_table h (page_of h a)) + 511) mod 512"
    unfolding t by (auto simp: less_free_def mod_if)
  with r b1 show ?thesis by blast
qed

section \<open>Copying a string\<close>

lemma kstrdup_spec:
  assumes ok: "heap_ok h L A" and b: "bin_of (length str + 1) = Some b" and room: "room_for b h"
  shows "\<exists>a h' L'. kstrdup str h = Returns (a, h') \<and> heap_ok h' L' (insert (a, b) A) \<and>
           (\<forall>i < length str. hp_mem h' (a + i) = str ! i) \<and> hp_mem h' (a + length str) = 0"
proof -
  from kmalloc_spec [OF ok b room] obtain a h1 where k: "kmalloc (length str + 1) h = Returns (a, h1)"
    "heap_ok h1 (L(b := tl (L b))) (insert (a, b) A)" by blast
  have "(a, b) \<in> blocks h1 (L(b := tl (L b))) (insert (a, b) A)" by (simp add: blocks_def)
  from block_below [OF k(2) this] have a: "a \<noteq> 0" by simp
  obtain m where m: "m = store_bytes a (str @ [0]) (hp_mem h1)" by simp
  have out: "m x = hp_mem h1 x" if "x < a \<or> a + bin_size b \<le> x" for x
    using that bin_of_SomeD [OF b] by (auto simp: m store_bytes_def)
  have "heap_ok (h1\<lparr>hp_mem := m\<rparr>) (L(b := tl (L b))) (insert (a, b) A)"
    by (rule heap_ok_client [OF k(2) insertI1 out])
  moreover have "kstrdup str h = Returns (a, h1\<lparr>hp_mem := m\<rparr>)" using k(1) a by (simp add: kstrdup_def m)
  moreover have "\<forall>i < length str. m (a + i) = str ! i" "m (a + length str) = 0"
    by (simp_all add: m store_bytes_def nth_append)
  ultimately show ?thesis by auto
qed

end
