(* ===== verification/Vm_Page.thy ===== *)
theory Vm_Page
  imports Kheap Fifo
begin

text \<open>
  The physical pages of \<open>vm_page.c\<close>: the table \<open>all_pages\<close> with one entry per page, the four
  doubly linked queues the entries hang in, and the calls that allocate pages and change their
  state. A pointer to a page is its index in the table; an access outside the table is a fault.
  A page that is busy, active, inactive, wired or unused belongs in the active queue.
\<close>

section \<open>State\<close>

datatype page_state =
  PAGE_STATE_ACTIVE | PAGE_STATE_INACTIVE | PAGE_STATE_BUSY | PAGE_STATE_MODIFIED |
  PAGE_STATE_FREE | PAGE_STATE_CLEAR | PAGE_STATE_WIRED | PAGE_STATE_UNUSED

record vm_page =
  pg_qprev :: "nat ptr"
  pg_qnext :: "nat ptr"
  pg_ppn :: nat
  pg_ref_count :: nat
  pg_state :: page_state

record page_queue =
  pq_head :: "nat ptr"
  pq_tail :: "nat ptr"
  pq_count :: int

datatype page_qid = Free_Q | Clear_Q | Modified_Q | Active_Q

text \<open>
  \<open>pp_modified_sem\<close> counts the units released to the semaphore \<open>modified_pages_available\<close>: the
  daemon that would acquire them is compiled out. \<open>pp_frame\<close> is the content of physical memory,
  by page number; the code reaches it through a temporary mapping.
\<close>

record pages =
  pp_q :: "page_qid \<Rightarrow> page_queue"
  pp_page :: "nat \<Rightarrow> vm_page"
  pp_num :: nat
  pp_offset :: nat
  pp_frame :: "nat \<Rightarrow> byte list"
  pp_modified_sem :: nat
  pp_max_commit :: int

definition set_q :: "page_qid \<Rightarrow> (page_queue \<Rightarrow> page_queue) \<Rightarrow> pages \<Rightarrow> pages" where
  "set_q q f s = s\<lparr>pp_q := (pp_q s)(q := f (pp_q s q))\<rparr>"

definition set_pg :: "nat \<Rightarrow> (vm_page \<Rightarrow> vm_page) \<Rightarrow> pages \<Rightarrow> pages" where
  "set_pg i f s = s\<lparr>pp_page := (pp_page s)(i := f (pp_page s i))\<rparr>"

section \<open>Queues\<close>

definition dequeue_page :: "page_qid \<Rightarrow> pages \<Rightarrow> nat ptr \<times> pages" where
  "dequeue_page q s =
     (case pq_tail (pp_q s q) of
        None \<Rightarrow> (None, s)
      | Some p \<Rightarrow>
          (let s1 = (if pq_head (pp_q s q) = Some p then set_q q (\<lambda>r. r\<lparr>pq_head := None\<rparr>) s else s);
               s2 = (case pg_qprev (pp_page s1 p) of
                       None \<Rightarrow> s1
                     | Some v \<Rightarrow> set_pg v (\<lambda>r. r\<lparr>pg_qnext := None\<rparr>) s1)
           in (Some p, set_q q (\<lambda>r. r\<lparr>pq_tail := pg_qprev (pp_page s2 p), pq_count := pq_count r - 1\<rparr>) s2)))"

definition enqueue_page :: "page_qid \<Rightarrow> nat \<Rightarrow> pages \<Rightarrow> pages" where
  "enqueue_page q p s =
     (let s1 = (case pq_head (pp_q s q) of
                  None \<Rightarrow> s
                | Some h \<Rightarrow> set_pg h (\<lambda>r. r\<lparr>pg_qprev := Some p\<rparr>) s);
          s2 = set_pg p (\<lambda>r. r\<lparr>pg_qnext := pq_head (pp_q s1 q)\<rparr>) s1;
          s3 = set_pg p (\<lambda>r. r\<lparr>pg_qprev := None\<rparr>) (set_q q (\<lambda>r. r\<lparr>pq_head := Some p\<rparr>) s2);
          s4 = (if pq_tail (pp_q s3 q) = None then set_q q (\<lambda>r. r\<lparr>pq_tail := Some p\<rparr>) s3 else s3);
          s5 = set_q q (\<lambda>r. r\<lparr>pq_count := pq_count r + 1\<rparr>) s4
      in if q = Modified_Q \<and> pq_count (pp_q s5 q) = 1
         then s5\<lparr>pp_modified_sem := pp_modified_sem s5 + 1\<rparr> else s5)"

definition remove_page_from_queue :: "page_qid \<Rightarrow> nat \<Rightarrow> pages \<Rightarrow> pages" where
  "remove_page_from_queue q p s =
     (let s1 = (case pg_qprev (pp_page s p) of
                  Some v \<Rightarrow> set_pg v (\<lambda>r. r\<lparr>pg_qnext := pg_qnext (pp_page s p)\<rparr>) s
                | None \<Rightarrow> set_q q (\<lambda>r. r\<lparr>pq_head := pg_qnext (pp_page s p)\<rparr>) s);
          s2 = (case pg_qnext (pp_page s1 p) of
                  Some n \<Rightarrow> set_pg n (\<lambda>r. r\<lparr>pg_qprev := pg_qprev (pp_page s1 p)\<rparr>) s1
                | None \<Rightarrow> set_q q (\<lambda>r. r\<lparr>pq_tail := pg_qprev (pp_page s1 p)\<rparr>) s1)
      in set_q q (\<lambda>r. r\<lparr>pq_count := pq_count r - 1\<rparr>) s2)"

definition move_page_to_queue :: "page_qid \<Rightarrow> page_qid \<Rightarrow> nat \<Rightarrow> pages \<Rightarrow> pages" where
  "move_page_to_queue from_q to_q p s =
     (if from_q \<noteq> to_q then enqueue_page to_q p (remove_page_from_queue from_q p s) else s)"

section \<open>Page states\<close>

fun queue_of :: "page_state \<Rightarrow> page_qid" where
  "queue_of PAGE_STATE_MODIFIED = Modified_Q"
| "queue_of PAGE_STATE_FREE = Free_Q"
| "queue_of PAGE_STATE_CLEAR = Clear_Q"
| "queue_of PAGE_STATE_BUSY = Active_Q"
| "queue_of PAGE_STATE_ACTIVE = Active_Q"
| "queue_of PAGE_STATE_INACTIVE = Active_Q"
| "queue_of PAGE_STATE_WIRED = Active_Q"
| "queue_of PAGE_STATE_UNUSED = Active_Q"

definition vm_page_set_state_nolock :: "nat \<Rightarrow> page_state \<Rightarrow> pages \<Rightarrow> pages" where
  "vm_page_set_state_nolock p st s =
     set_pg p (\<lambda>r. r\<lparr>pg_state := st\<rparr>)
       (move_page_to_queue (queue_of (pg_state (pp_page s p))) (queue_of st) p s)"

definition vm_page_set_state :: "nat \<Rightarrow> page_state \<Rightarrow> pages \<Rightarrow> int \<times> pages" where
  "vm_page_set_state p st s = (0, vm_page_set_state_nolock p st s)"

definition clear_page :: "nat \<Rightarrow> pages \<Rightarrow> pages" where
  "clear_page pa s = s\<lparr>pp_frame := (pp_frame s)(pa div PAGE_SIZE := replicate PAGE_SIZE 0)\<rparr>"

definition phys_addr :: "nat \<Rightarrow> pages \<Rightarrow> nat" where
  "phys_addr p s = pg_ppn (pp_page s p) * PAGE_SIZE mod 2 ^ 32"

section \<open>Allocation\<close>

text \<open>\<open>None\<close> for a request that is neither for a free nor for a cleared page.\<close>

definition vm_page_allocate_page :: "page_state \<Rightarrow> pages \<Rightarrow> (nat ptr \<times> pages) outcome" where
  "vm_page_allocate_page st s =
     (if st \<noteq> PAGE_STATE_FREE \<and> st \<noteq> PAGE_STATE_CLEAR then Returns (None, s)
      else
        (let (q, q_other) = (if st = PAGE_STATE_FREE then (Free_Q, Clear_Q) else (Clear_Q, Free_Q));
             (r, s1) = (case dequeue_page q s of
                          (None, s0) \<Rightarrow> dequeue_page q_other s0
                        | (Some p, s0) \<Rightarrow> (Some p, s0))
         in case r of
              None \<Rightarrow> Faults
            | Some p \<Rightarrow>
                (let old = pg_state (pp_page s1 p);
                     s2 = enqueue_page Active_Q p (set_pg p (\<lambda>r. r\<lparr>pg_state := PAGE_STATE_BUSY\<rparr>) s1)
                 in Returns (Some p,
                      if st = PAGE_STATE_CLEAR \<and> old = PAGE_STATE_FREE then clear_page (phys_addr p s2) s2 else s2))))"

text \<open>The test against \<open>num_pages\<close> lets the index one past the table through.\<close>

definition vm_lookup_page :: "nat \<Rightarrow> pages \<Rightarrow> nat ptr" where
  "vm_lookup_page page_num s =
     (if page_num < pp_offset s then None
      else if pp_num s < page_num - pp_offset s then None
      else Some (page_num - pp_offset s))"

definition vm_page_allocate_specific_page :: "nat \<Rightarrow> page_state \<Rightarrow> pages \<Rightarrow> (nat ptr \<times> pages) outcome" where
  "vm_page_allocate_specific_page page_num st s =
     (case vm_lookup_page page_num s of
        None \<Rightarrow> Returns (None, s)
      | Some p \<Rightarrow>
          if pp_num s \<le> p then Faults
          else
            (let old = pg_state (pp_page s p);
                 took = (case old of
                           PAGE_STATE_FREE \<Rightarrow> Some (remove_page_from_queue Free_Q p s)
                         | PAGE_STATE_CLEAR \<Rightarrow> Some (remove_page_from_queue Clear_Q p s)
                         | PAGE_STATE_UNUSED \<Rightarrow> Some s
                         | _ \<Rightarrow> None)
             in case took of
                  None \<Rightarrow> Returns (None, s)
                | Some s1 \<Rightarrow>
                    (let s2 = set_pg p (\<lambda>r. r\<lparr>pg_state := PAGE_STATE_BUSY\<rparr>) s1;
                         s3 = (if old \<noteq> PAGE_STATE_UNUSED then enqueue_page Active_Q p s2 else s2)
                     in Returns (Some p,
                          if st = PAGE_STATE_CLEAR \<and> (old = PAGE_STATE_FREE \<or> old = PAGE_STATE_UNUSED)
                          then clear_page (phys_addr p s3) s3 else s3))))"

definition is_spare :: "pages \<Rightarrow> nat \<Rightarrow> bool" where
  "is_spare s i \<longleftrightarrow> pg_state (pp_page s i) = PAGE_STATE_FREE \<or> pg_state (pp_page s i) = PAGE_STATE_CLEAR"

text \<open>
  The test of one candidate run: how many of the pages from \<open>i\<close> on were looked at, and whether
  all of them are spare. \<open>None\<close> when the walk leaves the table.
\<close>

function run_test :: "pages \<Rightarrow> nat \<Rightarrow> nat \<Rightarrow> nat \<Rightarrow> (nat \<times> bool) option" where
  "run_test s start len i =
     (if i < len then
        (if pp_num s \<le> u32_add start i then None
         else if is_spare s (u32_add start i) then run_test s start len (i + 1)
         else Some (i + 1, False))
      else Some (i, True))"
  by pat_completeness auto
termination
  by (relation "measure (\<lambda>(s, start, len, i). len - i)") auto

declare run_test.simps [simp del]

fun take_run :: "nat list \<Rightarrow> pages \<Rightarrow> pages" where
  "take_run [] s = s"
| "take_run (p # ps) s = take_run ps (vm_page_set_state_nolock p PAGE_STATE_BUSY s)"

partial_function (option) run_search :: "pages \<Rightarrow> nat \<Rightarrow> nat \<Rightarrow> nat ptr outcome option" where
  "run_search s len start =
     (if pp_num s \<le> u32_add start len then Some (Returns None)
      else
        (case run_test s start len 0 of
           None \<Rightarrow> Some Faults
         | Some (i, foundit) \<Rightarrow>
             (if foundit then Some (Returns (Some start))
              else if pp_num s \<le> u32_add start i then Some (Returns None)
              else run_search s len (u32_add start i))))"

definition vm_page_allocate_page_run :: "page_state \<Rightarrow> nat \<Rightarrow> pages \<Rightarrow> (nat ptr \<times> pages) outcome" where
  "vm_page_allocate_page_run st len s =
     obind (looped_outcome (run_search s len 0)) (\<lambda>r.
       case r of
         None \<Rightarrow> Returns (None, s)
       | Some start \<Rightarrow> Returns (Some start, take_run [start..<start + len] s))"

fun mark_run :: "nat list \<Rightarrow> pages \<Rightarrow> pages" where
  "mark_run [] s = s"
| "mark_run (p # ps) s =
     mark_run ps (if is_spare s p then vm_page_set_state_nolock p PAGE_STATE_UNUSED s else s)"

definition vm_mark_page_range_inuse :: "nat \<Rightarrow> nat \<Rightarrow> pages \<Rightarrow> (int \<times> pages) outcome" where
  "vm_mark_page_range_inuse start_page len s =
     (if start_page < pp_offset s then Returns (ERR_INVALID_ARGS, s)
      else
        (let start = start_page - pp_offset s
         in if pp_num s \<le> u32_add start len then Returns (ERR_INVALID_ARGS, s)
            else if pp_num s \<le> start + len then Faults
            else Returns (s32 len, mark_run [start..<start + len] s)))"

definition vm_mark_page_inuse :: "nat \<Rightarrow> pages \<Rightarrow> (int \<times> pages) outcome" where
  "vm_mark_page_inuse page s = vm_mark_page_range_inuse page 1 s"

definition vm_page_num_pages :: "pages \<Rightarrow> nat" where
  "vm_page_num_pages s = pp_num s"

definition vm_page_num_free_pages :: "pages \<Rightarrow> int" where
  "vm_page_num_free_pages s = pq_count (pp_q s Free_Q) + pq_count (pp_q s Clear_Q)"

section \<open>The page scrubber\<close>

text \<open>
  One round of the scrubber: it takes up to sixteen free pages, zeroes them with the lock
  released, and puts them on the clear queue. Other calls may run between the three parts.
\<close>

definition SCRUB_SIZE :: nat where
  "SCRUB_SIZE = 16"

definition scrub_take :: "pages \<Rightarrow> nat list \<times> pages" where
  "scrub_take s = (if 0 < pq_count (pp_q s Free_Q) then deq_many (dequeue_page Free_Q) SCRUB_SIZE s else ([], s))"

fun scrub_clear :: "nat list \<Rightarrow> pages \<Rightarrow> pages" where
  "scrub_clear [] s = s"
| "scrub_clear (p # ps) s = scrub_clear ps (clear_page (phys_addr p s) s)"

fun scrub_give :: "nat list \<Rightarrow> pages \<Rightarrow> pages" where
  "scrub_give [] s = s"
| "scrub_give (p # ps) s =
     scrub_give ps (enqueue_page Clear_Q p (set_pg p (\<lambda>r. r\<lparr>pg_state := PAGE_STATE_CLEAR\<rparr>) s))"

section \<open>Initialisation\<close>

text \<open>
  The boot loader passes the ranges of physical memory and the ranges it allocated as pairs of
  start and size. The table covers the memory between the first range and the last one, and
  its last entry is never initialised. \<open>junk\<close> is what the memory of the table held.
\<close>

definition last_phys_page :: "(nat \<times> nat) list \<Rightarrow> nat" where
  "last_phys_page rs = (if rs = [] then 0 else u32_sub (u32_add (fst (last rs)) (snd (last rs)) div PAGE_SIZE) 1)"

fun init_pages :: "nat list \<Rightarrow> pages \<Rightarrow> pages" where
  "init_pages [] s = s"
| "init_pages (i # is) s =
     init_pages is (enqueue_page Free_Q i
       (set_pg i (\<lambda>r. r\<lparr>pg_ppn := u32_add (pp_offset s) i, pg_state := PAGE_STATE_FREE, pg_ref_count := 0\<rparr>) s))"

fun mark_ranges :: "(nat \<times> nat) list \<Rightarrow> pages \<Rightarrow> pages outcome" where
  "mark_ranges [] s = Returns s"
| "mark_ranges ((a, n) # rs) s =
     obind (vm_mark_page_range_inuse (a div PAGE_SIZE) (n div PAGE_SIZE) s) (\<lambda>(_, s1). mark_ranges rs s1)"

definition vm_increase_max_commit :: "nat \<Rightarrow> pages \<Rightarrow> pages" where
  "vm_increase_max_commit delta s = s\<lparr>pp_max_commit := i32 (pp_max_commit s + int delta)\<rparr>"

definition empty_queue :: page_queue where
  "empty_queue = \<lparr>pq_head = None, pq_tail = None, pq_count = 0\<rparr>"

definition vm_page_init ::
  "(nat \<times> nat) list \<Rightarrow> (nat \<times> nat) list \<Rightarrow> (nat \<Rightarrow> vm_page) \<Rightarrow> pages \<Rightarrow> pages outcome" where
  "vm_page_init phys_mem phys_alloc junk s =
     (let off = fst (hd phys_mem) div PAGE_SIZE;
          num = u32_sub (last_phys_page phys_mem) off;
          s1 = s\<lparr>pp_q := (\<lambda>q. empty_queue), pp_page := junk, pp_num := num, pp_offset := off\<rparr>
      in if num = 0 then Faults
         else obind (mark_ranges phys_alloc (init_pages [0..<num - 1] s1)) (\<lambda>s2.
                Returns (vm_increase_max_commit (num * PAGE_SIZE mod 2 ^ 32) s2)))"

end
