(* ===== verification/Vm_Page_Inv.thy ===== *)
theory Vm_Page_Inv
  imports Vm_Page
begin

text \<open>
  The page queues as lists, and the invariant of the page table: every page hangs in exactly
  the queue its state asks for, except the pages a caller holds between two queue operations.
\<close>

section \<open>Queues as lists\<close>

abbreviation qnexts :: "pages \<Rightarrow> nat \<Rightarrow> nat ptr" where
  "qnexts s \<equiv> \<lambda>i. pg_qnext (pp_page s i)"

abbreviation qprevs :: "pages \<Rightarrow> nat \<Rightarrow> nat ptr" where
  "qprevs s \<equiv> \<lambda>i. pg_qprev (pp_page s i)"

text \<open>The list runs from the head, where pages enter, to the tail, where they leave.\<close>

definition q_rep :: "page_qid \<Rightarrow> pages \<Rightarrow> nat list \<Rightarrow> bool" where
  "q_rep q s xs \<longleftrightarrow>
     chain (qnexts s) (pq_head (pp_q s q)) xs \<and> chain (qprevs s) (pq_tail (pp_q s q)) (rev xs) \<and>
     pq_count (pp_q s q) = int (length xs)"

lemma q_rep_distinct: "q_rep q s xs \<Longrightarrow> distinct xs"
  by (auto simp: q_rep_def dest: chain_distinct)

lemma q_rep_frame:
  assumes "pp_q s' q = pp_q s q" and "\<And>i. i \<in> set xs \<Longrightarrow> qnexts s' i = qnexts s i \<and> qprevs s' i = qprevs s i"
  shows "q_rep q s' xs = q_rep q s xs"
proof -
  have "chain (qnexts s') p xs = chain (qnexts s) p xs" for p by (rule lseg_cong) (use assms(2) in auto)
  moreover have "chain (qprevs s') p (rev xs) = chain (qprevs s) p (rev xs)" for p
    by (rule lseg_cong) (use assms(2) in auto)
  ultimately show ?thesis using assms(1) by (simp add: q_rep_def)
qed

lemma set_pg_fields [simp]:
  "pp_q (set_pg p f s) = pp_q s" "pp_num (set_pg p f s) = pp_num s" "pp_offset (set_pg p f s) = pp_offset s"
  "pp_frame (set_pg p f s) = pp_frame s" "pp_modified_sem (set_pg p f s) = pp_modified_sem s"
  "pp_max_commit (set_pg p f s) = pp_max_commit s"
  "pp_page (set_pg p f s) = (pp_page s)(p := f (pp_page s p))"
  by (simp_all add: set_pg_def)

lemma set_q_fields [simp]:
  "pp_page (set_q q g s) = pp_page s" "pp_num (set_q q g s) = pp_num s" "pp_offset (set_q q g s) = pp_offset s"
  "pp_frame (set_q q g s) = pp_frame s" "pp_modified_sem (set_q q g s) = pp_modified_sem s"
  "pp_max_commit (set_q q g s) = pp_max_commit s"
  "pp_q (set_q q g s) = (pp_q s)(q := g (pp_q s q))"
  by (simp_all add: set_q_def)

text \<open>What a queue operation leaves alone: everything but links, headers and the semaphore.\<close>

definition only_links :: "pages \<Rightarrow> pages \<Rightarrow> bool" where
  "only_links s s' \<longleftrightarrow>
     pp_num s' = pp_num s \<and> pp_offset s' = pp_offset s \<and> pp_frame s' = pp_frame s \<and>
     pp_max_commit s' = pp_max_commit s \<and>
     (\<forall>i. pg_state (pp_page s' i) = pg_state (pp_page s i) \<and> pg_ppn (pp_page s' i) = pg_ppn (pp_page s i) \<and>
          pg_ref_count (pp_page s' i) = pg_ref_count (pp_page s i))"

lemma enqueue_only_links: "only_links s (enqueue_page q p s)"
  by (simp add: only_links_def enqueue_page_def Let_def split: option.split)

lemma dequeue_only_links: "only_links s (snd (dequeue_page q s))"
  by (simp add: only_links_def dequeue_page_def Let_def split: option.split)

lemma remove_only_links: "only_links s (remove_page_from_queue q p s)"
  by (simp add: only_links_def remove_page_from_queue_def Let_def split: option.split)

lemma only_links_trans: "only_links s t \<Longrightarrow> only_links t u \<Longrightarrow> only_links s u"
  by (simp add: only_links_def)

lemma enqueue_nexts: "qnexts (enqueue_page q p s) = (qnexts s)(p := pq_head (pp_q s q))"
  by (cases "pq_head (pp_q s q)"; cases "q = Modified_Q") (auto simp: enqueue_page_def Let_def fun_eq_iff)

lemma enqueue_prevs:
  "qprevs (enqueue_page q p s) =
     (case pq_head (pp_q s q) of None \<Rightarrow> qprevs s | Some x \<Rightarrow> (qprevs s)(x := Some p))(p := None)"
  by (cases "pq_head (pp_q s q)"; cases "q = Modified_Q") (auto simp: enqueue_page_def Let_def fun_eq_iff)

lemma enqueue_headers:
  "pq_head (pp_q (enqueue_page q p s) q) = Some p"
  "pq_tail (pp_q (enqueue_page q p s) q) = (if pq_tail (pp_q s q) = None then Some p else pq_tail (pp_q s q))"
  "pq_count (pp_q (enqueue_page q p s) q) = pq_count (pp_q s q) + 1"
  "r \<noteq> q \<Longrightarrow> pp_q (enqueue_page q p s) r = pp_q s r"
  by (cases "pq_head (pp_q s q)"; cases "pq_tail (pp_q s q)"; cases "q = Modified_Q"; simp add: enqueue_page_def Let_def)+

lemmas enqueue_page_eq = enqueue_nexts enqueue_prevs enqueue_headers

lemma enqueue_rep:
  assumes "q_rep q s xs" and "p \<notin> set xs"
  shows "q_rep q (enqueue_page q p s) (p # xs)"
proof (cases xs)
  case Nil
  with assms(1) show ?thesis by (simp add: q_rep_def enqueue_page_eq)
next
  case (Cons x ys)
  with assms(1) have f: "pq_head (pp_q s q) = Some x" "chain (qnexts s) (Some x) xs"
      "chain (qprevs s) (pq_tail (pp_q s q)) (rev ys @ [x])" "pq_count (pp_q s q) = int (length xs)"
    by (auto simp: q_rep_def)
  then obtain t where t: "pq_tail (pp_q s q) = Some t"
    by (cases "pq_tail (pp_q s q)") auto
  have "chain ((qprevs s)(x := Some p, p := None)) (Some t) (rev ys @ [x, p])"
    using f(3) assms(2) Cons unfolding t by (intro chain_append_node) simp_all
  then have "chain (qprevs (enqueue_page q p s)) (pq_tail (pp_q (enqueue_page q p s) q)) (rev (p # xs))"
    using Cons by (simp only: enqueue_page_eq f(1) t option.case if_False option.simps rev.simps append_assoc append.simps)
  moreover have "chain ((qnexts s)(p := Some x)) (Some x) xs" using f(2) lseg_update [OF assms(2)] by blast
  then have "chain (qnexts (enqueue_page q p s)) (pq_head (pp_q (enqueue_page q p s) q)) (p # xs)"
    by (simp only: enqueue_page_eq f(1) lseg.simps fun_upd_same simp_thms)
  ultimately show ?thesis using f(4) unfolding q_rep_def enqueue_page_eq by simp
qed

lemma dequeue_page_eq:
  assumes "pq_tail (pp_q s q) = Some p" and "qprevs s p \<noteq> Some p"
  shows "fst (dequeue_page q s) = Some p"
    and "qnexts (snd (dequeue_page q s)) = (case qprevs s p of None \<Rightarrow> qnexts s | Some x \<Rightarrow> (qnexts s)(x := None))"
    and "qprevs (snd (dequeue_page q s)) = qprevs s"
    and "pq_head (pp_q (snd (dequeue_page q s)) q) = (if pq_head (pp_q s q) = Some p then None else pq_head (pp_q s q))"
    and "pq_tail (pp_q (snd (dequeue_page q s)) q) = qprevs s p"
    and "pq_count (pp_q (snd (dequeue_page q s)) q) = pq_count (pp_q s q) - 1"
    and "r \<noteq> q \<Longrightarrow> pp_q (snd (dequeue_page q s)) r = pp_q s r"
  using assms by (cases "pg_qprev (pp_page s p)"; simp add: dequeue_page_def Let_def fun_eq_iff)+

lemma dequeue_rep:
  assumes "q_rep q s (xs @ [p])"
  shows "fst (dequeue_page q s) = Some p" and "q_rep q (snd (dequeue_page q s)) xs"
proof -
  from assms have d: "distinct (xs @ [p])" by (rule q_rep_distinct)
  from assms have f: "pq_tail (pp_q s q) = Some p" "chain (qprevs s) (qprevs s p) (rev xs)"
      "chain (qnexts s) (pq_head (pp_q s q)) (xs @ [p])" "pq_count (pp_q s q) = int (length xs) + 1"
    by (auto simp: q_rep_def)
  have ne: "qprevs s p \<noteq> Some p"
  proof
    assume e: "qprevs s p = Some p"
    from f(2) have "p \<in> set (rev xs)"
      by (cases "rev xs") (simp_all only: e lseg.simps option.simps list.set_intros simp_thms)
    with d show False by simp
  qed
  note eq = dequeue_page_eq [OF f(1) ne]
  show "fst (dequeue_page q s) = Some p" by (rule eq)
  show "q_rep q (snd (dequeue_page q s)) xs"
  proof (cases xs rule: rev_cases)
    case Nil
    with f show ?thesis by (simp add: q_rep_def eq)
  next
    case (snoc ys l)
    with f(2) have l: "qprevs s p = Some l" by simp
    from f(3) snoc have "lseg (qnexts s) (pq_head (pp_q s q)) (ys @ [l]) (Some p)" by (auto simp: lseg_append)
    then have c: "chain ((qnexts s)(l := None)) (pq_head (pp_q s q)) (ys @ [l])"
      using d snoc by (intro lseg_last_update) auto
    have "pq_head (pp_q s q) \<noteq> Some p" using f(3) d snoc by (cases ys) auto
    with c f snoc l show ?thesis by (simp add: q_rep_def eq)
  qed
qed

lemma dequeue_empty: "q_rep q s [] \<Longrightarrow> dequeue_page q s = (None, s)"
  by (simp add: q_rep_def dequeue_page_def)

interpretation pageq: linked_fifo "\<lambda>s xs. q_rep q s (rev xs)" "enqueue_page q" "dequeue_page q" "\<lambda>_ x xs. x \<notin> set xs"
  for q
  by unfold_locales (simp_all add: enqueue_rep dequeue_rep dequeue_empty)


lemma remove_page_eq:
  assumes "qprevs s p \<noteq> Some p" and "qnexts s p \<noteq> Some p"
  shows "qnexts (remove_page_from_queue q p s) =
           (case qprevs s p of None \<Rightarrow> qnexts s | Some v \<Rightarrow> (qnexts s)(v := qnexts s p))"
    and "qprevs (remove_page_from_queue q p s) =
           (case qnexts s p of None \<Rightarrow> qprevs s | Some n \<Rightarrow> (qprevs s)(n := qprevs s p))"
    and "pq_head (pp_q (remove_page_from_queue q p s) q) =
           (if qprevs s p = None then qnexts s p else pq_head (pp_q s q))"
    and "pq_tail (pp_q (remove_page_from_queue q p s) q) =
           (if qnexts s p = None then qprevs s p else pq_tail (pp_q s q))"
    and "pq_count (pp_q (remove_page_from_queue q p s) q) = pq_count (pp_q s q) - 1"
    and "r \<noteq> q \<Longrightarrow> pp_q (remove_page_from_queue q p s) r = pp_q s r"
  using assms by (cases "qprevs s p"; cases "qnexts s p"; auto simp: remove_page_from_queue_def Let_def fun_eq_iff)+

lemma remove_rep:
  assumes "q_rep q s (ys @ p # zs)"
  shows "q_rep q (remove_page_from_queue q p s) (ys @ zs)"
    and "qprevs s p = (if ys = [] then None else Some (last ys))"
    and "qnexts s p = (if zs = [] then None else Some (hd zs))"
proof -
  from assms have d: "distinct (ys @ p # zs)" by (rule q_rep_distinct)
  from assms have n: "chain (qnexts s) (pq_head (pp_q s q)) (ys @ p # zs)"
    and v: "chain (qprevs s) (pq_tail (pp_q s q)) (rev zs @ p # rev ys)"
    and c: "pq_count (pp_q s q) = int (length (ys @ zs)) + 1"
    by (simp_all add: q_rep_def)
  from chain_next [OF v] show pv: "qprevs s p = (if ys = [] then None else Some (last ys))"
    by (simp add: hd_rev)
  from chain_next [OF n] show nx: "qnexts s p = (if zs = [] then None else Some (hd zs))" .
  have ne: "qprevs s p \<noteq> Some p" "qnexts s p \<noteq> Some p"
    using d pv nx last_in_set [of ys] hd_in_set [of zs] by (auto split: if_splits)
  note eq = remove_page_eq [OF ne, of q]
  from chain_unlink_any [OF n] have
    "chain (qnexts (remove_page_from_queue q p s)) (pq_head (pp_q (remove_page_from_queue q p s) q)) (ys @ zs)"
    unfolding eq pv by (cases "ys = []") simp_all
  moreover from chain_unlink_any [OF v] have
    "chain (qprevs (remove_page_from_queue q p s)) (pq_tail (pp_q (remove_page_from_queue q p s) q)) (rev (ys @ zs))"
    unfolding eq nx by (cases "zs = []") (simp_all add: last_rev)
  ultimately show "q_rep q (remove_page_from_queue q p s) (ys @ zs)"
    using c unfolding q_rep_def eq by simp
qed

section \<open>The invariant\<close>

text \<open>
  \<open>Q\<close> lists the four queues; the pages of \<open>held\<close> are in none of them.
\<close>

definition pages_ok :: "pages \<Rightarrow> (page_qid \<Rightarrow> nat list) \<Rightarrow> nat set \<Rightarrow> bool" where
  "pages_ok s Q held \<longleftrightarrow>
     (\<forall>q. q_rep q s (Q q)) \<and>
     (\<forall>q i. i \<in> set (Q q) \<longleftrightarrow> i < pp_num s \<and> i \<notin> held \<and> queue_of (pg_state (pp_page s i)) = q)"

lemma pages_okD:
  assumes "pages_ok s Q held"
  shows "q_rep q s (Q q)"
    and "i \<in> set (Q q) \<longleftrightarrow> i < pp_num s \<and> i \<notin> held \<and> queue_of (pg_state (pp_page s i)) = q"
  using assms by (auto simp: pages_ok_def)

lemma pages_ok_disjoint: "pages_ok s Q held \<Longrightarrow> i \<in> set (Q q) \<Longrightarrow> i \<in> set (Q r) \<Longrightarrow> q = r"
  by (auto simp: pages_ok_def)

text \<open>An operation on one queue that touches the links of its own pages only.\<close>

lemma pages_ok_step:
  assumes ok: "pages_ok s Q held" and rep: "q_rep q s' xs"
    and links: "only_links s s'" and other: "\<And>r. r \<noteq> q \<Longrightarrow> pp_q s' r = pp_q s r"
    and touch: "\<And>i. i \<notin> set (Q q) \<Longrightarrow> i \<notin> held \<Longrightarrow> qnexts s' i = qnexts s i \<and> qprevs s' i = qprevs s i"
    and xs: "\<And>i. i \<in> set xs \<longleftrightarrow> i < pp_num s \<and> i \<notin> held' \<and> queue_of (pg_state (pp_page s i)) = q"
    and held: "\<And>i. i < pp_num s \<Longrightarrow> queue_of (pg_state (pp_page s i)) \<noteq> q \<Longrightarrow> i \<in> held' \<longleftrightarrow> i \<in> held"
  shows "pages_ok s' (Q(q := xs)) held'"
  unfolding pages_ok_def
proof (intro conjI allI)
  fix r
  show "q_rep r s' ((Q(q := xs)) r)"
  proof (cases "r = q")
    case True
    with rep show ?thesis by simp
  next
    case False
    have "q_rep r s' (Q r) = q_rep r s (Q r)"
      using other [OF False] touch pages_okD(2) [OF ok] False by (intro q_rep_frame) auto
    with pages_okD(1) [OF ok, of r] False show ?thesis by simp
  qed
next
  fix r i
  show "i \<in> set ((Q(q := xs)) r) \<longleftrightarrow> i < pp_num s' \<and> i \<notin> held' \<and> queue_of (pg_state (pp_page s' i)) = r"
    using links xs [of i] held [of i] pages_okD(2) [OF ok, of i r] by (auto simp: only_links_def)
qed

lemma enqueue_ok:
  assumes ok: "pages_ok s Q held" and p: "p \<in> held" "p < pp_num s" and q: "queue_of (pg_state (pp_page s p)) = q"
  shows "pages_ok (enqueue_page q p s) (Q(q := p # Q q)) (held - {p})"
proof (rule pages_ok_step [OF ok _ enqueue_only_links])
  note iff = pages_okD(2) [OF ok]
  from iff p have np: "p \<notin> set (Q r)" for r by simp
  from pages_okD(1) [OF ok] np show "q_rep q (enqueue_page q p s) (p # Q q)" by (rule enqueue_rep)
  show "r \<noteq> q \<Longrightarrow> pp_q (enqueue_page q p s) r = pp_q s r" for r by (rule enqueue_headers)
  have h: "pq_head (pp_q s q) = Some x \<Longrightarrow> x \<in> set (Q q)" for x
    using pages_okD(1) [OF ok, of q] by (cases "Q q") (auto simp: q_rep_def)
  show "qnexts (enqueue_page q p s) i = qnexts s i \<and> qprevs (enqueue_page q p s) i = qprevs s i"
    if "i \<notin> set (Q q)" "i \<notin> held" for i
    using that p h fun_cong [OF enqueue_nexts, of q p s i] fun_cong [OF enqueue_prevs, of q p s i]
    by (auto split: option.splits)
  show "i \<in> set (p # Q q) \<longleftrightarrow> i < pp_num s \<and> i \<notin> held - {p} \<and> queue_of (pg_state (pp_page s i)) = q" for i
    using iff [of i q] p q by auto
qed (use p q in auto)

lemma remove_ok:
  assumes ok: "pages_ok s Q held" and p: "p \<in> set (Q q)"
  shows "pages_ok (remove_page_from_queue q p s) (Q(q := remove1 p (Q q))) (insert p held)"
proof (rule pages_ok_step [OF ok _ remove_only_links])
  from p obtain ys zs where xs: "Q q = ys @ p # zs" "p \<notin> set ys" by (auto dest: split_list_first)
  then have r1: "remove1 p (Q q) = ys @ zs" by simp
  from pages_okD(1) [OF ok, of q] xs have rep: "q_rep q s (ys @ p # zs)" by simp
  note d = q_rep_distinct [OF rep]
  note rem = remove_rep [OF rep]
  show "q_rep q (remove_page_from_queue q p s) (remove1 p (Q q))" unfolding r1 by (rule rem)
  have ne: "qprevs s p \<noteq> Some p" "qnexts s p \<noteq> Some p"
    using d rem(2,3) last_in_set [of ys] hd_in_set [of zs] by (auto split: if_splits)
  note eq = remove_page_eq [OF ne]
  show "r \<noteq> q \<Longrightarrow> pp_q (remove_page_from_queue q p s) r = pp_q s r" for r by (rule eq)
  show "qnexts (remove_page_from_queue q p s) i = qnexts s i \<and> qprevs (remove_page_from_queue q p s) i = qprevs s i"
    if "i \<notin> set (Q q)" "i \<notin> held" for i
    using that xs rem(2,3) last_in_set [of ys] hd_in_set [of zs] fun_cong [OF eq(1), of q i] fun_cong [OF eq(2), of q i]
    by (auto split: if_splits)
  show "i \<in> set (remove1 p (Q q)) \<longleftrightarrow>
      i < pp_num s \<and> i \<notin> insert p held \<and> queue_of (pg_state (pp_page s i)) = q" for i
    using pages_okD(2) [OF ok, of i q] d xs unfolding r1 by auto
qed (use pages_okD(2) [OF ok] p in auto)

lemma dequeue_ok:
  assumes ok: "pages_ok s Q held" and Qq: "Q q = xs @ [p]"
  shows "fst (dequeue_page q s) = Some p"
    and "pages_ok (snd (dequeue_page q s)) (Q(q := xs)) (insert p held)"
proof -
  from pages_okD(1) [OF ok, of q] Qq have rep: "q_rep q s (xs @ [p])" by simp
  note d = q_rep_distinct [OF rep]
  note deq = dequeue_rep [OF rep]
  note links = remove_rep(2) [of q s xs p "[]", simplified, OF rep]
  from rep have t: "pq_tail (pp_q s q) = Some p" by (simp add: q_rep_def)
  have ne: "qprevs s p \<noteq> Some p" using d links last_in_set [of xs] by (auto split: if_splits)
  note eq = dequeue_page_eq [OF t ne]
  show "fst (dequeue_page q s) = Some p" by (rule eq)
  show "pages_ok (snd (dequeue_page q s)) (Q(q := xs)) (insert p held)"
  proof (rule pages_ok_step [OF ok deq(2) dequeue_only_links])
    show "r \<noteq> q \<Longrightarrow> pp_q (snd (dequeue_page q s)) r = pp_q s r" for r by (rule eq)
    show "qnexts (snd (dequeue_page q s)) i = qnexts s i \<and> qprevs (snd (dequeue_page q s)) i = qprevs s i"
      if "i \<notin> set (Q q)" "i \<notin> held" for i
      using that Qq links last_in_set [of xs] fun_cong [OF eq(2), of i] fun_cong [OF eq(3), of i]
      by (auto split: if_splits)
    show "i \<in> set xs \<longleftrightarrow> i < pp_num s \<and> i \<notin> insert p held \<and> queue_of (pg_state (pp_page s i)) = q" for i
      using pages_okD(2) [OF ok, of i q] d Qq by auto
  qed (use pages_okD(2) [OF ok, of p q] Qq in auto)
qed

text \<open>Writing to a page that nobody queues.\<close>

lemma set_held_ok:
  assumes "pages_ok s Q held" and "p \<in> held"
    and "\<And>r. pg_qnext (f r) = pg_qnext r" and "\<And>r. pg_qprev (f r) = pg_qprev r"
  shows "pages_ok (set_pg p f s) Q held"
proof -
  have "q_rep q (set_pg p f s) (Q q) = q_rep q s (Q q)" for q
    using assms pages_okD(2) [OF assms(1)] by (intro q_rep_frame) auto
  with assms show ?thesis by (auto simp: pages_ok_def)
qed

lemma frame_ok [simp]: "pages_ok (s\<lparr>pp_frame := m\<rparr>) Q held = pages_ok s Q held"
  by (simp add: pages_ok_def q_rep_def)

lemma clear_page_ok [simp]: "pages_ok (clear_page pa s) Q held = pages_ok s Q held"
  by (simp add: clear_page_def)


lemma pages_ok_cong:
  assumes "pp_q s' = pp_q s" and "pp_num s' = pp_num s"
    and "\<And>i. qnexts s' i = qnexts s i \<and> qprevs s' i = qprevs s i \<and>
              queue_of (pg_state (pp_page s' i)) = queue_of (pg_state (pp_page s i))"
  shows "pages_ok s' Q held = pages_ok s Q held"
proof -
  have "q_rep q s' (Q q) = q_rep q s (Q q)" for q using assms by (intro q_rep_frame) auto
  with assms show ?thesis by (simp add: pages_ok_def)
qed

lemma pages_ok_same: "Q' = Q \<Longrightarrow> held' = held \<Longrightarrow> pages_ok s Q held \<Longrightarrow> pages_ok s Q' held'"
  by simp

text \<open>Changing the state of a page, from the queue of the old state to that of the new one.\<close>

definition moved :: "page_qid \<Rightarrow> page_qid \<Rightarrow> nat \<Rightarrow> (page_qid \<Rightarrow> nat list) \<Rightarrow> page_qid \<Rightarrow> nat list" where
  "moved from_q to_q p Q =
     (if from_q = to_q then Q else Q(from_q := remove1 p (Q from_q), to_q := p # Q to_q))"

lemma enqueue_new_state_ok:
  assumes "pages_ok s Q held" and "p \<in> held" "p < pp_num s"
  shows "pages_ok (set_pg p (\<lambda>r. r\<lparr>pg_state := st\<rparr>) (enqueue_page (queue_of st) p s))
           (Q(queue_of st := p # Q (queue_of st))) (held - {p})"
proof -
  let ?s1 = "set_pg p (\<lambda>r. r\<lparr>pg_state := st\<rparr>) s"
  have "pages_ok ?s1 Q held" using assms by (intro set_held_ok) auto
  then have "pages_ok (enqueue_page (queue_of st) p ?s1) (Q(queue_of st := p # Q (queue_of st))) (held - {p})"
    using assms by (intro enqueue_ok) auto
  moreover have "pages_ok (set_pg p (\<lambda>r. r\<lparr>pg_state := st\<rparr>) (enqueue_page (queue_of st) p s)) Q' h' =
      pages_ok (enqueue_page (queue_of st) p ?s1) Q' h'" for Q' h'
  proof (rule pages_ok_cong)
    let ?a = "set_pg p (\<lambda>r. r\<lparr>pg_state := st\<rparr>) (enqueue_page (queue_of st) p s)"
    let ?b = "enqueue_page (queue_of st) p ?s1"
    show "pp_q ?a = pp_q ?b"
    proof
      show "pp_q ?a r = pp_q ?b r" for r
        by (cases "r = queue_of st") (auto intro!: page_queue.equality simp: enqueue_headers)
    qed
    show "pp_num ?a = pp_num ?b" using enqueue_only_links [of s] enqueue_only_links [of ?s1]
      by (simp add: only_links_def)
    fix i
    have "qnexts ?b i = qnexts (enqueue_page (queue_of st) p s) i"
      using fun_cong [OF enqueue_nexts, of "queue_of st" p s i] fun_cong [OF enqueue_nexts, of "queue_of st" p ?s1 i] by simp
    moreover have "qprevs ?b i = qprevs (enqueue_page (queue_of st) p s) i"
      using fun_cong [OF enqueue_prevs, of "queue_of st" p s i] fun_cong [OF enqueue_prevs, of "queue_of st" p ?s1 i]
      by (simp split: option.splits)
    ultimately show "qnexts ?a i = qnexts ?b i \<and> qprevs ?a i = qprevs ?b i \<and>
        queue_of (pg_state (pp_page ?a i)) = queue_of (pg_state (pp_page ?b i))"
      using enqueue_only_links [of s "queue_of st" p] enqueue_only_links [of ?s1 "queue_of st" p]
      by (auto simp: only_links_def)
  qed
  ultimately show ?thesis by simp
qed

lemma set_state_ok:
  assumes ok: "pages_ok s Q held" and p: "p < pp_num s" "p \<notin> held"
  shows "pages_ok (vm_page_set_state_nolock p st s)
           (moved (queue_of (pg_state (pp_page s p))) (queue_of st) p Q) held"
proof (cases "queue_of (pg_state (pp_page s p)) = queue_of st")
  case True
  have "pages_ok (set_pg p (\<lambda>r. r\<lparr>pg_state := st\<rparr>) s) Q held = pages_ok s Q held"
    using True by (intro pages_ok_cong) auto
  with ok True show ?thesis by (simp add: vm_page_set_state_nolock_def move_page_to_queue_def moved_def)
next
  case False
  let ?f = "queue_of (pg_state (pp_page s p))"
  let ?s1 = "remove_page_from_queue ?f p s" and ?Q1 = "Q(?f := remove1 p (Q ?f))"
  have m: "p \<in> set (Q ?f)" using pages_okD(2) [OF ok] p by simp
  have ok1: "pages_ok ?s1 ?Q1 (insert p held)" using ok m by (rule remove_ok)
  have n: "pp_num ?s1 = pp_num s" using remove_only_links [of s] by (simp add: only_links_def)
  have "pages_ok (set_pg p (\<lambda>r. r\<lparr>pg_state := st\<rparr>) (enqueue_page (queue_of st) p ?s1))
          (?Q1(queue_of st := p # ?Q1 (queue_of st))) (insert p held - {p})"
    using ok1 p n by (intro enqueue_new_state_ok) auto
  moreover have "insert p held - {p} = held" using p by auto
  moreover have "?Q1(queue_of st := p # ?Q1 (queue_of st)) = moved ?f (queue_of st) p Q"
    using False by (simp add: moved_def)
  ultimately show ?thesis using False by (simp add: vm_page_set_state_nolock_def move_page_to_queue_def)
qed

text \<open>What a change of state leaves alone.\<close>

definition same_but :: "nat set \<Rightarrow> page_state \<Rightarrow> pages \<Rightarrow> pages \<Rightarrow> bool" where
  "same_but A st s s' \<longleftrightarrow>
     pp_num s' = pp_num s \<and> pp_offset s' = pp_offset s \<and> pp_max_commit s' = pp_max_commit s \<and>
     (\<forall>i. pg_ppn (pp_page s' i) = pg_ppn (pp_page s i) \<and> pg_ref_count (pp_page s' i) = pg_ref_count (pp_page s i) \<and>
          pg_state (pp_page s' i) = (if i \<in> A then st else pg_state (pp_page s i)))"

lemma set_state_same:
  "same_but {p} st s (vm_page_set_state_nolock p st s)" "pp_frame (vm_page_set_state_nolock p st s) = pp_frame s"
proof -
  have "only_links s (move_page_to_queue f t p s)" for f t
    using only_links_trans [OF remove_only_links enqueue_only_links]
    by (auto simp: move_page_to_queue_def only_links_def)
  then show "same_but {p} st s (vm_page_set_state_nolock p st s)"
    and "pp_frame (vm_page_set_state_nolock p st s) = pp_frame s"
    by (auto simp: vm_page_set_state_nolock_def only_links_def same_but_def)
qed

end
