(* ===== verification/Vm_Page_Props.thy ===== *)
theory Vm_Page_Props
  imports Vm_Page_Inv
begin

text \<open>
  What the calls of \<open>vm_page.c\<close> promise: the queues stay consistent with the states under every
  interleaving of calls and scrubber rounds, an allocation takes the oldest page of the queue it
  prefers, the search for a run returns the first run there is, and a cleared page is zero.
\<close>

section \<open>The table and the cleared pages\<close>

definition zero_page :: "byte list" where
  "zero_page = replicate PAGE_SIZE 0"

definition table_ok :: "pages \<Rightarrow> bool" where
  "table_ok s \<longleftrightarrow>
     0 < pp_num s \<and> pp_offset s + pp_num s \<le> 2 ^ 20 \<and>
     (\<forall>i < pp_num s - 1. pg_ppn (pp_page s i) = pp_offset s + i)"

text \<open>The last entry of the table is in no queue; \<open>held\<close> are the pages the scrubber works on.\<close>

definition pages_inv :: "pages \<Rightarrow> (page_qid \<Rightarrow> nat list) \<Rightarrow> nat set \<Rightarrow> bool" where
  "pages_inv s Q held \<longleftrightarrow>
     table_ok s \<and> pages_ok s Q (insert (pp_num s - 1) held) \<and>
     (\<forall>i \<in> set (Q Clear_Q). pp_frame s (pp_offset s + i) = zero_page)"

lemma pages_invD:
  assumes "pages_inv s Q held"
  shows "table_ok s" and "pages_ok s Q (insert (pp_num s - 1) held)"
    and "i \<in> set (Q Clear_Q) \<Longrightarrow> pp_frame s (pp_offset s + i) = zero_page"
    and "i \<in> set (Q q) \<longleftrightarrow> i < pp_num s - 1 \<and> i \<notin> held \<and> queue_of (pg_state (pp_page s i)) = q"
proof -
  show "table_ok s" "pages_ok s Q (insert (pp_num s - 1) held)"
    "i \<in> set (Q Clear_Q) \<Longrightarrow> pp_frame s (pp_offset s + i) = zero_page"
    using assms by (auto simp: pages_inv_def)
  then show "i \<in> set (Q q) \<longleftrightarrow> i < pp_num s - 1 \<and> i \<notin> held \<and> queue_of (pg_state (pp_page s i)) = q"
    using pages_okD(2) [of s Q "insert (pp_num s - 1) held" i q] by (auto simp: table_ok_def)
qed

lemma queue_of_Free: "queue_of st = Free_Q \<longleftrightarrow> st = PAGE_STATE_FREE"
  by (cases st) auto

lemma queue_of_Clear: "queue_of st = Clear_Q \<longleftrightarrow> st = PAGE_STATE_CLEAR"
  by (cases st) auto

lemma table_ok_only_links: "only_links s s' \<Longrightarrow> table_ok s' = table_ok s"
  by (auto simp: table_ok_def only_links_def)

lemma table_ok_same_but: "same_but A st s s' \<Longrightarrow> table_ok s' = table_ok s"
  by (auto simp: table_ok_def same_but_def)

lemma phys_addr_page:
  assumes "table_ok s" and "i < pp_num s - 1"
  shows "phys_addr i s div PAGE_SIZE = pp_offset s + i"
proof -
  from assms have "pg_ppn (pp_page s i) = pp_offset s + i" "pp_offset s + i < 2 ^ 20" by (auto simp: table_ok_def)
  then have "phys_addr i s = (pp_offset s + i) * PAGE_SIZE" by (simp add: phys_addr_def PAGE_SIZE_def)
  then show ?thesis by (simp add: PAGE_SIZE_def)
qed

lemma clear_page_frame:
  assumes "table_ok s" and "i < pp_num s - 1"
  shows "pp_frame (clear_page (phys_addr i s) s) = (pp_frame s)(pp_offset s + i := zero_page)"
  using phys_addr_page [OF assms] by (simp add: clear_page_def zero_page_def)

lemma clear_page_fields [simp]:
  "pp_q (clear_page a s) = pp_q s" "pp_page (clear_page a s) = pp_page s" "pp_num (clear_page a s) = pp_num s"
  "pp_offset (clear_page a s) = pp_offset s" "pp_max_commit (clear_page a s) = pp_max_commit s"
  by (simp_all add: clear_page_def)

lemma table_ok_clear [simp]: "table_ok (clear_page a s) = table_ok s"
  by (simp add: table_ok_def)

section \<open>Allocating a page\<close>

text \<open>The pages of a queue in the order they leave it.\<close>

definition leaves :: "(page_qid \<Rightarrow> nat list) \<Rightarrow> page_state \<Rightarrow> nat list" where
  "leaves Q st = (if st = PAGE_STATE_FREE then rev (Q Free_Q) @ rev (Q Clear_Q) else rev (Q Clear_Q) @ rev (Q Free_Q))"

text \<open>The page \<open>p\<close> has gone from a spare state to busy; it is zero if it had to be.\<close>

definition taken :: "nat \<Rightarrow> bool \<Rightarrow> pages \<Rightarrow> pages \<Rightarrow> bool" where
  "taken p zero s s' \<longleftrightarrow>
     same_but {p} PAGE_STATE_BUSY s s' \<and>
     (\<forall>a. a \<noteq> pp_offset s + p \<longrightarrow> pp_frame s' a = pp_frame s a) \<and>
     (if zero then pp_frame s' (pp_offset s + p) = zero_page else pp_frame s' = pp_frame s)"

lemma dequeued_any:
  assumes ok: "pages_ok s Q H" and l: "leaves Q st = p # ps" and st: "st = PAGE_STATE_FREE \<or> st = PAGE_STATE_CLEAR"
  obtains q s1 where "(case dequeue_page (if st = PAGE_STATE_FREE then Free_Q else Clear_Q) s of
         (None, s0) \<Rightarrow> dequeue_page (if st = PAGE_STATE_FREE then Clear_Q else Free_Q) s0
       | (Some p, s0) \<Rightarrow> (Some p, s0)) = (Some p, s1)"
    and "q = Free_Q \<or> q = Clear_Q" and "p \<in> set (Q q)" and "only_links s s1"
    and "pages_ok s1 (Q(q := butlast (Q q))) (insert p H)" and "leaves (Q(q := butlast (Q q))) st = ps"
proof -
  let ?a = "if st = PAGE_STATE_FREE then Free_Q else Clear_Q"
  let ?b = "if st = PAGE_STATE_FREE then Clear_Q else Free_Q"
  have lv: "leaves Q st = rev (Q ?a) @ rev (Q ?b)" by (simp add: leaves_def)
  show thesis
  proof (cases "Q ?a" rule: rev_cases)
    case (snoc xs x)
    with lv l have "x = p" by simp
    with snoc have Qa: "Q ?a = xs @ [p]" by simp
    note d = dequeue_ok [OF ok Qa]
    then obtain t where t: "dequeue_page ?a s = (Some p, t)" by (cases "dequeue_page ?a s") auto
    then show thesis
      by (intro that [of t ?a])
        (use l d t Qa dequeue_only_links [of s ?a] in \<open>auto simp: leaves_def\<close>)
  next
    case Nil
    with lv l have "rev (Q ?b) = p # ps" by simp
    then have Qb: "Q ?b = rev ps @ [p]" by simp
    note d = dequeue_ok [OF ok Qb]
    then obtain t where t: "dequeue_page ?b s = (Some p, t)" by (cases "dequeue_page ?b s") auto
    moreover from pages_okD(1) [OF ok, of ?a] Nil have "dequeue_page ?a s = (None, s)" by (simp add: dequeue_empty)
    ultimately show thesis
      by (intro that [of t ?b])
        (use l Nil d t Qb dequeue_only_links [of s ?b] in \<open>auto simp: leaves_def\<close>)
  qed
qed

lemma busy_ok:
  assumes "pages_ok s Q (insert p H)" and "p < pp_num s" and "p \<notin> H"
  defines "s' \<equiv> enqueue_page Active_Q p (set_pg p (\<lambda>r. r\<lparr>pg_state := PAGE_STATE_BUSY\<rparr>) s)"
  shows "pages_ok s' (Q(Active_Q := p # Q Active_Q)) H"
    and "same_but {p} PAGE_STATE_BUSY s s'" and "pp_frame s' = pp_frame s"
proof -
  let ?s1 = "set_pg p (\<lambda>r. r\<lparr>pg_state := PAGE_STATE_BUSY\<rparr>) s"
  have "pages_ok ?s1 Q (insert p H)" using assms(1) by (intro set_held_ok) auto
  then have "pages_ok s' (Q(Active_Q := p # Q Active_Q)) (insert p H - {p})"
    unfolding s'_def using assms(2) by (intro enqueue_ok) auto
  moreover have "insert p H - {p} = H" using assms(3) by auto
  ultimately show "pages_ok s' (Q(Active_Q := p # Q Active_Q)) H" by simp
  show "same_but {p} PAGE_STATE_BUSY s s'" "pp_frame s' = pp_frame s"
    using enqueue_only_links [of ?s1 Active_Q p] unfolding s'_def by (auto simp: same_but_def only_links_def)
qed

lemma allocate_page_spec:
  assumes inv: "pages_inv s Q held" and l: "leaves Q st = p # ps"
    and st: "st = PAGE_STATE_FREE \<or> st = PAGE_STATE_CLEAR"
  obtains s' Q' where "vm_page_allocate_page st s = Returns (Some p, s')"
    and "pages_inv s' Q' held" and "taken p (st = PAGE_STATE_CLEAR) s s'"
    and "leaves Q' st = ps" and "p < pp_num s - 1" and "is_spare s p"
proof -
  let ?H = "insert (pp_num s - 1) held"
  note t = pages_invD(1) [OF inv] and ok = pages_invD(2) [OF inv]
  obtain q s1 where deq: "(case dequeue_page (if st = PAGE_STATE_FREE then Free_Q else Clear_Q) s of
         (None, s0) \<Rightarrow> dequeue_page (if st = PAGE_STATE_FREE then Clear_Q else Free_Q) s0
       | (Some p, s0) \<Rightarrow> (Some p, s0)) = (Some p, s1)"
    and q: "q = Free_Q \<or> q = Clear_Q" and p: "p \<in> set (Q q)" and links: "only_links s s1"
    and ok1: "pages_ok s1 (Q(q := butlast (Q q))) (insert p ?H)" and lv: "leaves (Q(q := butlast (Q q))) st = ps"
    using ok l st by (rule dequeued_any)
  from pages_invD(4) [OF inv] p have pn: "p < pp_num s - 1" "p < pp_num s" "p \<notin> held" "p \<notin> ?H" and
    pq: "queue_of (pg_state (pp_page s p)) = q" by auto
  obtain s2 where s2: "s2 = enqueue_page Active_Q p (set_pg p (\<lambda>r. r\<lparr>pg_state := PAGE_STATE_BUSY\<rparr>) s1)" by simp
  have n1: "pp_num s1 = pp_num s" using links by (simp add: only_links_def)
  have old: "pg_state (pp_page s1 p) = pg_state (pp_page s p)" using links by (simp add: only_links_def)
  have b: "pages_ok s2 (Q(q := butlast (Q q), Active_Q := p # (Q(q := butlast (Q q))) Active_Q)) ?H"
    "same_but {p} PAGE_STATE_BUSY s1 s2" "pp_frame s2 = pp_frame s1"
    using busy_ok [OF ok1] pn n1 unfolding s2 by (simp_all add: table_ok_def)
  have sb: "same_but {p} PAGE_STATE_BUSY s s2" using b(2) links by (auto simp: same_but_def only_links_def)
  have fr: "pp_frame s2 = pp_frame s" using b(3) links by (simp add: only_links_def)
  from t table_ok_same_but [OF sb] have t2: "table_ok s2" by simp
  from sb have n2: "pp_num s2 = pp_num s" "pp_offset s2 = pp_offset s" by (simp_all add: same_but_def)
  let ?zero = "st = PAGE_STATE_CLEAR \<and> pg_state (pp_page s p) = PAGE_STATE_FREE"
  let ?s' = "if ?zero then clear_page (phys_addr p s2) s2 else s2"
  have spare: "is_spare s p" using pq q by (auto simp: is_spare_def queue_of_Free queue_of_Clear)
  have frame: "pp_frame ?s' = (if ?zero then (pp_frame s)(pp_offset s + p := zero_page) else pp_frame s)"
    using clear_page_frame [OF t2, of p] pn n2 fr by simp
  have zero: "pp_frame s (pp_offset s + p) = zero_page" if "st = PAGE_STATE_CLEAR" "\<not> ?zero"
    using pages_invD(3) [OF inv, of p] pages_invD(4) [OF inv, of p Clear_Q] that spare pn by (auto simp: is_spare_def)
  have "vm_page_allocate_page st s = Returns (Some p, ?s')"
    using st deq old
    by (elim disjE) (simp_all add: vm_page_allocate_page_def s2 Let_def cong: option.case_cong prod.case_cong)
  moreover have "pages_inv ?s' (Q(q := butlast (Q q), Active_Q := p # (Q(q := butlast (Q q))) Active_Q)) held"
    using b(1) t2 n2 frame q pages_invD(3) [OF inv] by (auto simp: pages_inv_def dest: in_set_butlastD)
  moreover have "taken p (st = PAGE_STATE_CLEAR) s ?s'"
    using sb frame zero by (auto simp: taken_def same_but_def)
  moreover have "leaves (Q(q := butlast (Q q), Active_Q := p # (Q(q := butlast (Q q))) Active_Q)) st = ps"
    using lv q by (auto simp: leaves_def)
  ultimately show thesis using pn spare by (intro that)
qed

lemma allocate_page_empty:
  assumes inv: "pages_inv s Q held" and l: "leaves Q st = []"
    and st: "st = PAGE_STATE_FREE \<or> st = PAGE_STATE_CLEAR"
  shows "vm_page_allocate_page st s = Faults"
proof -
  from l have "Q Free_Q = []" "Q Clear_Q = []" by (auto simp: leaves_def split: if_splits)
  with pages_okD(1) [OF pages_invD(2) [OF inv], of Free_Q] pages_okD(1) [OF pages_invD(2) [OF inv], of Clear_Q]
  have "dequeue_page Free_Q s = (None, s)" "dequeue_page Clear_Q s = (None, s)" by (simp_all add: dequeue_empty)
  with st show ?thesis by (auto simp: vm_page_allocate_page_def)
qed


section \<open>A given page\<close>

lemma lookup_page_eq:
  "i < pp_num s \<Longrightarrow> vm_lookup_page (pp_offset s + i) s = Some i"
  by (simp add: vm_lookup_page_def)

lemma allocate_specific_spec:
  assumes inv: "pages_inv s Q held" and p: "p < pp_num s - 1" "p \<notin> held"
    and ok: "is_spare s p \<or> pg_state (pp_page s p) = PAGE_STATE_UNUSED"
  obtains s' Q' where "vm_page_allocate_specific_page (pp_offset s + p) st s = Returns (Some p, s')"
    and "pages_inv s' Q' held" and "same_but {p} PAGE_STATE_BUSY s s'"
    and "st = PAGE_STATE_CLEAR \<Longrightarrow> pp_frame s' (pp_offset s + p) = zero_page"
    and "\<And>a. a \<noteq> pp_offset s + p \<Longrightarrow> pp_frame s' a = pp_frame s a"
proof -
  let ?H = "insert (pp_num s - 1) held" and ?old = "pg_state (pp_page s p)"
  note t = pages_invD(1) [OF inv] and pok = pages_invD(2) [OF inv]
  let ?s1 = "if ?old = PAGE_STATE_UNUSED then s else remove_page_from_queue (queue_of ?old) p s"
  let ?s2 = "set_pg p (\<lambda>r. r\<lparr>pg_state := PAGE_STATE_BUSY\<rparr>) ?s1"
  let ?t = "if ?old = PAGE_STATE_UNUSED then ?s2 else enqueue_page Active_Q p ?s2"
  obtain s3 where s3: "s3 = ?t" by simp
  let ?zero = "st = PAGE_STATE_CLEAR \<and> (?old = PAGE_STATE_FREE \<or> ?old = PAGE_STATE_UNUSED)"
  let ?s4 = "if ?zero then clear_page (phys_addr p s3) s3 else s3"
  let ?Q' = "if ?old = PAGE_STATE_UNUSED then Q
             else Q(queue_of ?old := remove1 p (Q (queue_of ?old)), Active_Q := p # Q Active_Q)"
  have m: "p \<in> set (Q (queue_of ?old))" using pages_invD(4) [OF inv] p by simp
  have n: "pp_num s \<noteq> 0" "\<not> pp_num s \<le> p" using p by simp_all
  have run: "vm_page_allocate_specific_page (pp_offset s + p) st s = Returns (Some p, ?s4)"
    using ok n by (cases ?old) (simp_all add: vm_page_allocate_specific_page_def Let_def lookup_page_eq is_spare_def s3)
  have l1: "only_links s ?s1" using remove_only_links [of s] by (simp add: only_links_def)
  have "pages_ok s3 ?Q' ?H"
  proof (cases "?old = PAGE_STATE_UNUSED")
    case True
    have "pages_ok ?s2 Q ?H = pages_ok s Q ?H" using True by (intro pages_ok_cong) auto
    with True pok show ?thesis by (simp add: s3)
  next
    case False
    with ok have q: "queue_of ?old \<noteq> Active_Q" by (auto simp: is_spare_def)
    let ?r = "remove_page_from_queue (queue_of ?old) p s"
    have "pages_ok ?r (Q(queue_of ?old := remove1 p (Q (queue_of ?old)))) (insert p ?H)"
      using pok m by (rule remove_ok)
    from busy_ok(1) [OF this] p q l1 False show ?thesis by (simp add: only_links_def s3)
  qed
  moreover have sb: "same_but {p} PAGE_STATE_BUSY s s3"
    using l1 enqueue_only_links [of ?s2 Active_Q p] unfolding s3 by (auto simp: same_but_def only_links_def)
  then have n3: "pp_num s3 = pp_num s" "pp_offset s3 = pp_offset s" by (simp_all only: same_but_def)
  from t table_ok_same_but [OF sb] have t3: "table_ok s3" by simp
  have f3: "pp_frame s3 = pp_frame s"
    unfolding s3 using l1 enqueue_only_links [of ?s2 Active_Q p] by (auto simp: only_links_def)
  have frame: "pp_frame ?s4 = (if ?zero then (pp_frame s)(pp_offset s + p := zero_page) else pp_frame s)"
    using clear_page_frame [OF t3, of p] p n3 f3 by auto
  have sub: "set (?Q' Clear_Q) \<subseteq> set (Q Clear_Q)"
    by (auto dest: set_remove1_subset [THEN subsetD])
  ultimately have inv4: "pages_inv ?s4 ?Q' held"
    using t3 n3 pages_invD(3) [OF inv] unfolding pages_inv_def frame by auto
  have sb4: "same_but {p} PAGE_STATE_BUSY s ?s4" using sb by (simp add: same_but_def)
  have z: "pp_frame ?s4 (pp_offset s + p) = zero_page" if "st = PAGE_STATE_CLEAR"
    unfolding frame using that ok pages_invD(3) [OF inv, of p] pages_invD(4) [OF inv, of p Clear_Q] p
    by (auto simp: is_spare_def)
  show thesis
    by (rule that [OF run inv4 sb4 z], assumption) (unfold frame, auto split: if_split)
qed


section \<open>Changing the state of pages\<close>

lemma set_state_inv:
  assumes inv: "pages_inv s Q held" and p: "p < pp_num s - 1" "p \<notin> held"
    and zero: "st = PAGE_STATE_CLEAR \<Longrightarrow> pp_frame s (pp_offset s + p) = zero_page"
  shows "pages_inv (vm_page_set_state_nolock p st s)
           (moved (queue_of (pg_state (pp_page s p))) (queue_of st) p Q) held"
proof -
  let ?s' = "vm_page_set_state_nolock p st s"
  note same = set_state_same [of p st s]
  then have n: "pp_num ?s' = pp_num s" "pp_offset ?s' = pp_offset s" by (simp_all add: same_but_def)
  have "pages_ok ?s' (moved (queue_of (pg_state (pp_page s p))) (queue_of st) p Q) (insert (pp_num s - 1) held)"
    using pages_invD(2) [OF inv] p by (intro set_state_ok) auto
  moreover have "pp_frame s (pp_offset s + i) = zero_page"
    if "i \<in> set (moved (queue_of (pg_state (pp_page s p))) (queue_of st) p Q Clear_Q)" for i
    using that zero pages_invD(3) [OF inv, of i] queue_of_Clear [of st]
    by (auto simp: moved_def split: if_splits dest: set_remove1_subset [THEN subsetD])
  ultimately show ?thesis
    using pages_invD(1) [OF inv] table_ok_same_but [OF same(1)] n same(2) by (simp add: pages_inv_def)
qed

text \<open>A loop that sets the state of several pages to the same value.\<close>

fun set_states :: "page_state \<Rightarrow> nat list \<Rightarrow> pages \<Rightarrow> pages" where
  "set_states st [] s = s"
| "set_states st (p # ps) s = set_states st ps (vm_page_set_state_nolock p st s)"

lemma set_states_inv:
  assumes "pages_inv s Q held" and "\<forall>p \<in> set ps. p < pp_num s - 1 \<and> p \<notin> held" and "st \<noteq> PAGE_STATE_CLEAR"
  shows "(\<exists>Q'. pages_inv (set_states st ps s) Q' held) \<and> same_but (set ps) st s (set_states st ps s) \<and>
         pp_frame (set_states st ps s) = pp_frame s"
  using assms
proof (induction ps arbitrary: s Q)
  case Nil
  then show ?case by (auto simp: same_but_def)
next
  case (Cons p ps)
  let ?s = "vm_page_set_state_nolock p st s"
  note same = set_state_same [of p st s]
  then have n: "pp_num ?s = pp_num s" by (simp add: same_but_def)
  have "pages_inv ?s (moved (queue_of (pg_state (pp_page s p))) (queue_of st) p Q) held"
    using Cons.prems by (intro set_state_inv) auto
  from Cons.IH [OF this] Cons.prems n
  have ih: "\<exists>Q'. pages_inv (set_states st ps ?s) Q' held" "same_but (set ps) st ?s (set_states st ps ?s)"
    "pp_frame (set_states st ps ?s) = pp_frame ?s" by auto
  moreover have "same_but (set (p # ps)) st s (set_states st ps ?s)"
    using ih(2) same by (auto simp: same_but_def)
  ultimately show ?case using same(2) by simp
qed

lemma take_run_eq: "take_run ps s = set_states PAGE_STATE_BUSY ps s"
  by (induction ps arbitrary: s) simp_all

lemma mark_run_eq:
  "distinct ps \<Longrightarrow> mark_run ps s = set_states PAGE_STATE_UNUSED (filter (is_spare s) ps) s"
proof (induction ps arbitrary: s)
  case (Cons p ps)
  have "is_spare (vm_page_set_state_nolock p PAGE_STATE_UNUSED s) i = is_spare s i" if "i \<in> set ps" for i
    using that Cons.prems set_state_same(1) [of p PAGE_STATE_UNUSED s] by (auto simp: is_spare_def same_but_def)
  then have "filter (is_spare (vm_page_set_state_nolock p PAGE_STATE_UNUSED s)) ps = filter (is_spare s) ps"
    by (simp cong: filter_cong)
  with Cons show ?case by simp
qed simp

section \<open>Runs of pages\<close>

text \<open>The run of \<open>len\<close> pages from \<open>start\<close> on is inside the table and spare.\<close>

definition spare_run :: "pages \<Rightarrow> nat \<Rightarrow> nat \<Rightarrow> bool" where
  "spare_run s len start \<longleftrightarrow> start + len < pp_num s \<and> (\<forall>i < len. is_spare s (start + i))"

lemma run_test_spec:
  assumes "start + len < pp_num s" and "pp_num s < 2 ^ 32" and "i \<le> len" and "\<forall>j < i. is_spare s (start + j)"
  shows "run_test s start len i =
           (if \<forall>j < len. is_spare s (start + j) then Some (len, True)
            else Some (Suc (LEAST j. \<not> is_spare s (start + j)), False))"
  using assms
proof (induction "len - i" arbitrary: i)
  case 0
  then show ?case by (simp add: run_test.simps)
next
  case (Suc n)
  then have i: "i < len" by simp
  then have a: "u32_add start i = start + i" "start + i < pp_num s" using Suc.prems by simp_all
  show ?case
  proof (cases "is_spare s (start + i)")
    case True
    have "run_test s start len (i + 1) =
           (if \<forall>j < len. is_spare s (start + j) then Some (len, True)
            else Some (Suc (LEAST j. \<not> is_spare s (start + j)), False))"
      using Suc i True by (intro Suc.hyps(1)) (auto simp: less_Suc_eq)
    with i a True show ?thesis by (subst run_test.simps) simp
  next
    case False
    have "(LEAST j. \<not> is_spare s (start + j)) = i"
      using False Suc.prems(4) by (intro Least_equality) (auto simp: not_less [symmetric])
    with i a False show ?thesis by (subst run_test.simps) auto
  qed
qed

lemma run_search_spec:
  assumes n: "pp_num s < 2 ^ 31" "len < 2 ^ 31" and start: "start < pp_num s"
    and before: "\<And>k. k < start \<Longrightarrow> \<not> spare_run s len k"
  shows "run_search s len start =
           Some (Returns (if \<exists>k. spare_run s len k then Some (LEAST k. spare_run s len k) else None))"
  using start before
proof (induction "pp_num s - start" arbitrary: start rule: less_induct)
  case less
  have w: "u32_add start len = start + len" using n less.prems by simp
  show ?case
  proof (cases "pp_num s \<le> start + len")
    case True
    have "\<not> spare_run s len k" for k
      using True less.prems(2) [of k] by (cases "k < start") (auto simp: spare_run_def)
    with True w show ?thesis by (subst run_search.simps) simp
  next
    case False
    then have f: "start + len < pp_num s" by simp
    have t: "run_test s start len 0 =
        (if \<forall>j < len. is_spare s (start + j) then Some (len, True)
         else Some (Suc (LEAST j. \<not> is_spare s (start + j)), False))"
      using f n by (intro run_test_spec) auto
    show ?thesis
    proof (cases "\<forall>j < len. is_spare s (start + j)")
      case True
      then have r: "spare_run s len start" using f by (simp add: spare_run_def)
      then have "(LEAST k. spare_run s len k) = start"
        using less.prems(2) by (intro Least_equality) (auto simp: not_less [symmetric])
      with r t True f w show ?thesis by (subst run_search.simps) auto
    next
      case not_all: False
      let ?j = "LEAST j. \<not> is_spare s (start + j)"
      from not_all obtain j where j: "j < len" "\<not> is_spare s (start + j)" by blast
      then have lj: "?j < len" "\<not> is_spare s (start + ?j)"
        using LeastI [of "\<lambda>j. \<not> is_spare s (start + j)" j] Least_le [of "\<lambda>j. \<not> is_spare s (start + j)" j] by auto
      have w2: "u32_add start (Suc ?j) = start + Suc ?j" using n lj f by simp
      have step: "run_search s len start = run_search s len (start + Suc ?j)"
        using t not_all f w w2 lj by (subst run_search.simps) simp
      have "\<not> spare_run s len k" if "k < start + Suc ?j" for k
      proof (cases "k < start")
        case True
        with less.prems(2) show ?thesis by simp
      next
        case ge: False
        have "k + (start + ?j - k) = start + ?j" "start + ?j - k < len" using that ge lj by auto
        with lj(2) show ?thesis unfolding spare_run_def by metis
      qed
      then have "run_search s len (start + Suc ?j) =
          Some (Returns (if \<exists>k. spare_run s len k then Some (LEAST k. spare_run s len k) else None))"
        using f lj by (intro less.hyps) auto
      with step show ?thesis by simp
    qed
  qed
qed

lemma allocate_run_spec:
  assumes inv: "pages_inv s Q held" and len: "len < 2 ^ 31"
  shows "vm_page_allocate_page_run st len s =
           (if \<exists>k. spare_run s len k
            then Returns (Some (LEAST k. spare_run s len k),
                   set_states PAGE_STATE_BUSY [(LEAST k. spare_run s len k)..<(LEAST k. spare_run s len k) + len] s)
            else Returns (None, s))"
proof -
  from pages_invD(1) [OF inv] have n: "0 < pp_num s" "pp_num s < 2 ^ 31" by (auto simp: table_ok_def)
  have "run_search s len 0 =
      Some (Returns (if \<exists>k. spare_run s len k then Some (LEAST k. spare_run s len k) else None))"
    using n len by (intro run_search_spec) auto
  then show ?thesis by (simp add: vm_page_allocate_page_run_def looped_outcome_def take_run_eq)
qed


section \<open>The scrubber\<close>

lemma take_free_inv:
  fixes n :: nat
  assumes "pages_inv s Q held"
  defines "ps \<equiv> take n (rev (Q Free_Q))"
  shows "fst (deq_many (dequeue_page Free_Q) n s) = ps \<and>
    pages_inv (snd (deq_many (dequeue_page Free_Q) n s)) (Q(Free_Q := rev (drop n (rev (Q Free_Q))))) (held \<union> set ps) \<and>
    only_links s (snd (deq_many (dequeue_page Free_Q) n s))"
  using assms(1) unfolding ps_def
proof (induction n arbitrary: s Q held)
  case 0
  then show ?case by (simp add: only_links_def)
next
  case (Suc n)
  note ok = pages_invD(2) [OF Suc.prems]
  show ?case
  proof (cases "Q Free_Q" rule: rev_cases)
    case Nil
    with pages_okD(1) [OF ok, of Free_Q] have "dequeue_page Free_Q s = (None, s)" by (simp add: dequeue_empty)
    with Nil Suc.prems show ?thesis by (simp add: only_links_def fun_upd_idem)
  next
    case (snoc xs p)
    note d = dequeue_ok [OF ok snoc]
    then obtain t where t: "dequeue_page Free_Q s = (Some p, t)" by (cases "dequeue_page Free_Q s") auto
    have l: "only_links s t" using dequeue_only_links [of s Free_Q] t by simp
    have "insert p (insert (pp_num s - 1) held) = insert (pp_num t - 1) (insert p held)"
      using l by (auto simp: only_links_def)
    with d t have "pages_ok t (Q(Free_Q := xs)) (insert (pp_num t - 1) (insert p held))" by simp
    then have inv: "pages_inv t (Q(Free_Q := xs)) (insert p held)"
      using l pages_invD(1) [OF Suc.prems] pages_invD(3) [OF Suc.prems] table_ok_only_links [OF l]
      by (auto simp: pages_inv_def only_links_def)
    note ih = Suc.IH [OF inv, unfolded fun_upd_upd fun_upd_same]
    have "fst (deq_many (dequeue_page Free_Q) (Suc n) s) = p # fst (deq_many (dequeue_page Free_Q) n t)"
      and "snd (deq_many (dequeue_page Free_Q) (Suc n) s) = snd (deq_many (dequeue_page Free_Q) n t)"
      using t by (simp_all add: split_beta)
    moreover have "take (Suc n) (rev (Q Free_Q)) = p # take n (rev xs)" "drop (Suc n) (rev (Q Free_Q)) = drop n (rev xs)"
      using snoc by simp_all
    moreover have "held \<union> set (p # take n (rev xs)) = insert p held \<union> set (take n (rev xs))" by simp
    ultimately show ?thesis using ih only_links_trans [OF l] by (simp only: simp_thms)
  qed
qed

lemma scrub_clear_spec:
  assumes "table_ok s" and "\<forall>p \<in> set ps. p < pp_num s - 1"
  shows "pp_q (scrub_clear ps s) = pp_q s \<and> pp_page (scrub_clear ps s) = pp_page s \<and>
    pp_num (scrub_clear ps s) = pp_num s \<and> pp_offset (scrub_clear ps s) = pp_offset s \<and>
    (\<forall>a. pp_frame (scrub_clear ps s) a =
       (if a \<in> (\<lambda>p. pp_offset s + p) ` set ps then zero_page else pp_frame s a))"
  using assms
proof (induction ps arbitrary: s)
  case (Cons p ps)
  have f: "pp_frame (clear_page (phys_addr p s) s) = (pp_frame s)(pp_offset s + p := zero_page)"
    using Cons.prems by (intro clear_page_frame) auto
  show ?case using Cons.IH [of "clear_page (phys_addr p s) s"] Cons.prems by (auto simp: f)
qed simp

lemma scrub_clear_inv:
  assumes inv: "pages_inv s Q held" and ps: "set ps \<subseteq> held" "\<forall>p \<in> set ps. p < pp_num s - 1"
  shows "pages_inv (scrub_clear ps s) Q held"
proof -
  note sp = scrub_clear_spec [OF pages_invD(1) [OF inv] ps(2)]
  have "table_ok (scrub_clear ps s)" using sp pages_invD(1) [OF inv] by (simp add: table_ok_def)
  moreover have "pages_ok (scrub_clear ps s) Q H = pages_ok s Q H" for H
    using sp by (intro pages_ok_cong) auto
  ultimately show ?thesis using inv sp by (auto simp: pages_inv_def)
qed

lemma scrub_give_inv:
  assumes "pages_inv s Q held" and "set ps \<subseteq> held" and "distinct ps" and "\<forall>p \<in> set ps. p < pp_num s - 1"
    and "\<forall>p \<in> set ps. pp_frame s (pp_offset s + p) = zero_page"
  shows "pages_inv (scrub_give ps s) (Q(Clear_Q := rev ps @ Q Clear_Q)) (held - set ps) \<and>
    pp_frame (scrub_give ps s) = pp_frame s \<and> pp_num (scrub_give ps s) = pp_num s"
  using assms
proof (induction ps arbitrary: s Q held)
  case Nil
  then show ?case by (simp add: fun_upd_idem)
next
  case (Cons p ps)
  let ?s1 = "set_pg p (\<lambda>r. r\<lparr>pg_state := PAGE_STATE_CLEAR\<rparr>) s"
  let ?s2 = "enqueue_page Clear_Q p ?s1" and ?Q2 = "Q(Clear_Q := p # Q Clear_Q)"
  from Cons.prems have p: "p < pp_num s - 1" "p \<in> held" by auto
  have "pages_ok ?s1 Q (insert (pp_num s - 1) held)"
    using pages_invD(2) [OF Cons.prems(1)] p by (intro set_held_ok) auto
  then have "pages_ok ?s2 ?Q2 (insert (pp_num s - 1) held - {p})"
    using p by (intro enqueue_ok) auto
  moreover have "insert (pp_num s - 1) held - {p} = insert (pp_num s - 1) (held - {p})" using p by auto
  moreover have l: "only_links ?s1 ?s2" by (rule enqueue_only_links)
  moreover have "table_ok ?s1" using pages_invD(1) [OF Cons.prems(1)] by (simp add: table_ok_def)
  ultimately have inv: "pages_inv ?s2 ?Q2 (held - {p})"
    using table_ok_only_links [OF l] pages_invD(3) [OF Cons.prems(1)] Cons.prems(5)
    by (auto simp: pages_inv_def only_links_def)
  have "pages_inv (scrub_give ps ?s2) (?Q2(Clear_Q := rev ps @ ?Q2 Clear_Q)) (held - {p} - set ps) \<and>
      pp_frame (scrub_give ps ?s2) = pp_frame ?s2 \<and> pp_num (scrub_give ps ?s2) = pp_num ?s2"
    using Cons.prems l by (intro Cons.IH [OF inv]) (auto simp: only_links_def)
  moreover have "held - {p} - set ps = held - set (p # ps)" by auto
  moreover have "pp_frame ?s2 = pp_frame s" "pp_num ?s2 = pp_num s" using l by (simp_all add: only_links_def)
  moreover have "rev ps @ p # Q Clear_Q = rev (p # ps) @ Q Clear_Q" by simp
  ultimately show ?case unfolding fun_upd_upd fun_upd_same by (simp only: scrub_give.simps)
qed

end
