(* ===== verification/Vm_Page_Main.thy ===== *)
theory Vm_Page_Main
  imports Vm_Page_Props
begin

text \<open>
  The properties of the page table: initialisation, the invariant under every interleaving of
  calls with the page scrubber, the two allocators, and the race between the scrubber and the
  calls that look at states instead of queues.
\<close>

section \<open>Initialisation\<close>

lemma q_rep_empty: "q_rep q s [] \<longleftrightarrow> pp_q s q = empty_queue"
  by (cases "pp_q s q") (auto simp: q_rep_def empty_queue_def)

lemma init_pages_spec:
  assumes "pages_ok s (\<lambda>q. if q = Free_Q then rev [0..<k] else []) {i. k \<le> i}" and "k \<le> n" and "n \<le> pp_num s"
    and "\<forall>i < k. pg_ppn (pp_page s i) = pp_offset s + i \<and> pg_state (pp_page s i) = PAGE_STATE_FREE"
    and "pp_offset s + pp_num s \<le> 2 ^ 20"
  shows "pages_ok (init_pages [k..<n] s) (\<lambda>q. if q = Free_Q then rev [0..<n] else []) {i. n \<le> i} \<and>
    pp_num (init_pages [k..<n] s) = pp_num s \<and> pp_offset (init_pages [k..<n] s) = pp_offset s \<and>
    pp_frame (init_pages [k..<n] s) = pp_frame s \<and> pp_max_commit (init_pages [k..<n] s) = pp_max_commit s \<and>
    (\<forall>i < n. pg_ppn (pp_page (init_pages [k..<n] s) i) = pp_offset s + i \<and>
             pg_state (pp_page (init_pages [k..<n] s) i) = PAGE_STATE_FREE)"
  using assms
proof (induction "n - k" arbitrary: k s)
  case 0
  then have e: "n = k" by simp
  show ?case unfolding e using 0 by simp
next
  case (Suc m)
  then have k: "k < n" by simp
  let ?f = "\<lambda>r. r\<lparr>pg_ppn := u32_add (pp_offset s) k, pg_state := PAGE_STATE_FREE, pg_ref_count := 0\<rparr>"
  let ?s1 = "set_pg k ?f s" and ?Q = "\<lambda>q. if q = Free_Q then rev [0..<k] else []"
  let ?s2 = "enqueue_page Free_Q k ?s1"
  have "pages_ok ?s1 ?Q {i. k \<le> i}" using Suc.prems(1) by (intro set_held_ok) auto
  then have "pages_ok ?s2 (?Q(Free_Q := k # ?Q Free_Q)) ({i. k \<le> i} - {k})"
    using k Suc.prems by (intro enqueue_ok) auto
  moreover have "?Q(Free_Q := k # ?Q Free_Q) = (\<lambda>q. if q = Free_Q then rev [0..<Suc k] else [])" by auto
  moreover have "{i. k \<le> i} - {k} = {i. Suc k \<le> i}" by auto
  ultimately have ok2: "pages_ok ?s2 (\<lambda>q. if q = Free_Q then rev [0..<Suc k] else []) {i. Suc k \<le> i}" by (simp only:)
  have l: "only_links ?s1 ?s2" by (rule enqueue_only_links)
  have w: "u32_add (pp_offset s) k = pp_offset s + k" using k Suc.prems by simp
  have st: "\<forall>i < Suc k. pg_ppn (pp_page ?s2 i) = pp_offset s + i \<and> pg_state (pp_page ?s2 i) = PAGE_STATE_FREE"
    using l Suc.prems(4) w by (auto simp: only_links_def less_Suc_eq)
  have "[k..<n] = k # [Suc k..<n]" using k by (rule upt_conv_Cons)
  then have "init_pages [k..<n] s = init_pages [Suc k..<n] ?s2" by simp
  moreover have n2: "pp_num ?s2 = pp_num s" "pp_offset ?s2 = pp_offset s" "pp_frame ?s2 = pp_frame s"
    "pp_max_commit ?s2 = pp_max_commit s"
    using l by (simp_all add: only_links_def)
  moreover have "m = n - Suc k" using Suc.hyps(2) by simp
  ultimately show ?case
    using Suc.hyps(1) [of "Suc k" ?s2] ok2 st k Suc.prems n2 by (simp del: upt_Suc)
qed

text \<open>The pages of the table that the ranges mark, each range as a whole or not at all.\<close>

definition marked :: "pages \<Rightarrow> (nat \<times> nat) list \<Rightarrow> nat set" where
  "marked s rs =
     (\<Union>(a, n) \<in> set rs. if pp_offset s \<le> a div PAGE_SIZE \<and> a div PAGE_SIZE - pp_offset s + n div PAGE_SIZE < pp_num s
                      then {a div PAGE_SIZE - pp_offset s..<a div PAGE_SIZE - pp_offset s + n div PAGE_SIZE} else {})"

lemma marked_Cons: "marked s (r # rs) = marked s [r] \<union> marked s rs"
  by (simp add: marked_def)

lemma marked_cong: "pp_num s' = pp_num s \<Longrightarrow> pp_offset s' = pp_offset s \<Longrightarrow> marked s' rs = marked s rs"
  by (simp only: marked_def)

lemma mark_range_spec:
  assumes inv: "pages_inv s Q held" and w: "a + n < 2 ^ 32"
    and h: "\<forall>i \<in> held. \<not> (a - pp_offset s \<le> i \<and> i < a - pp_offset s + n)"
  obtains r s' Q' where "vm_mark_page_range_inuse a n s = Returns (r, s')" and "pages_inv s' Q' held"
    and "same_but {i. pp_offset s \<le> a \<and> a - pp_offset s + n < pp_num s \<and> a - pp_offset s \<le> i \<and>
                      i < a - pp_offset s + n \<and> is_spare s i} PAGE_STATE_UNUSED s s'"
    and "pp_frame s' = pp_frame s"
proof (cases "pp_offset s \<le> a \<and> a - pp_offset s + n < pp_num s")
  case False
  moreover from False w have "vm_mark_page_range_inuse a n s = Returns (ERR_INVALID_ARGS, s)"
    by (auto simp: vm_mark_page_range_inuse_def)
  moreover have e: "{i. pp_offset s \<le> a \<and> a - pp_offset s + n < pp_num s \<and> a - pp_offset s \<le> i \<and>
      i < a - pp_offset s + n \<and> is_spare s i} = {}" using False by auto
  ultimately show thesis using inv by (intro that) (simp_all only: e, simp add: same_but_def)
next
  case True
  let ?b = "a - pp_offset s"
  let ?ps = "filter (is_spare s) [?b..<?b + n]"
  have run: "vm_mark_page_range_inuse a n s = Returns (s32 n, mark_run [?b..<?b + n] s)"
    using True w by (auto simp: vm_mark_page_range_inuse_def Let_def)
  have eq: "mark_run [?b..<?b + n] s = set_states PAGE_STATE_UNUSED ?ps s" by (simp add: mark_run_eq)
  have "\<forall>p \<in> set ?ps. p < pp_num s - 1 \<and> p \<notin> held" using True h by auto
  from set_states_inv [OF inv this] obtain Q' where
    "pages_inv (set_states PAGE_STATE_UNUSED ?ps s) Q' held"
    "same_but (set ?ps) PAGE_STATE_UNUSED s (set_states PAGE_STATE_UNUSED ?ps s)"
    "pp_frame (set_states PAGE_STATE_UNUSED ?ps s) = pp_frame s" by auto
  moreover have "set ?ps = {i. pp_offset s \<le> a \<and> a - pp_offset s + n < pp_num s \<and> a - pp_offset s \<le> i \<and>
      i < a - pp_offset s + n \<and> is_spare s i}" using True by auto
  ultimately show thesis
    using run eq by (intro that [of "s32 n" "set_states PAGE_STATE_UNUSED ?ps s" Q']) simp_all
qed

lemma mark_ranges_spec:
  assumes "pages_inv s Q {}" and "\<forall>(a, n) \<in> set rs. a < 2 ^ 32 \<and> n < 2 ^ 32"
    and "\<forall>i < pp_num s - 1. pg_state (pp_page s i) = (if i \<in> M then PAGE_STATE_UNUSED else PAGE_STATE_FREE)"
  shows "\<exists>s' Q'. mark_ranges rs s = Returns s' \<and> pages_inv s' Q' {} \<and> pp_num s' = pp_num s \<and>
    pp_offset s' = pp_offset s \<and> pp_max_commit s' = pp_max_commit s \<and>
    (\<forall>i < pp_num s - 1. pg_state (pp_page s' i) =
       (if i \<in> M \<union> marked s rs then PAGE_STATE_UNUSED else PAGE_STATE_FREE))"
  using assms
proof (induction rs arbitrary: s Q M)
  case Nil
  then show ?case by (auto simp: marked_def)
next
  case (Cons r rs)
  obtain a n where r: "r = (a, n)" by (cases r)
  let ?a = "a div PAGE_SIZE" and ?n = "n div PAGE_SIZE"
  have "?a + ?n < 2 ^ 32" using Cons.prems(2) r by (auto simp: PAGE_SIZE_def)
  from Cons.prems(1) this obtain x s' Q' where m: "vm_mark_page_range_inuse ?a ?n s = Returns (x, s')"
    "pages_inv s' Q' {}"
    "same_but {i. pp_offset s \<le> ?a \<and> ?a - pp_offset s + ?n < pp_num s \<and> ?a - pp_offset s \<le> i \<and>
                  i < ?a - pp_offset s + ?n \<and> is_spare s i} PAGE_STATE_UNUSED s s'" "pp_frame s' = pp_frame s"
    by (rule mark_range_spec) auto
  from m(3) have n: "pp_num s' = pp_num s" "pp_offset s' = pp_offset s" "pp_max_commit s' = pp_max_commit s"
    by (simp_all add: same_but_def)
  let ?M = "M \<union> marked s [r]"
  have "\<forall>i < pp_num s' - 1. pg_state (pp_page s' i) = (if i \<in> ?M then PAGE_STATE_UNUSED else PAGE_STATE_FREE)"
    using m(3) Cons.prems(3) r unfolding same_but_def by (auto simp: marked_def is_spare_def)
  from Cons.IH [OF m(2) _ this] Cons.prems(2) obtain s2 Q2 where
    "mark_ranges rs s' = Returns s2" "pages_inv s2 Q2 {}" "pp_num s2 = pp_num s" "pp_offset s2 = pp_offset s"
    "pp_max_commit s2 = pp_max_commit s"
    "\<forall>i < pp_num s - 1. pg_state (pp_page s2 i) =
       (if i \<in> ?M \<union> marked s' rs then PAGE_STATE_UNUSED else PAGE_STATE_FREE)"
    using n by auto
  moreover have "?M \<union> marked s' rs = M \<union> marked s (r # rs)"
    using marked_Cons [of s r rs] marked_cong [OF n(1,2), of rs] by auto
  ultimately show ?case using m(1) r by auto
qed


lemma vm_page_init_spec:
  assumes nonempty: "phys_mem \<noteq> []" and top: "last_phys_page phys_mem < 2 ^ 20"
    and num: "fst (hd phys_mem) div PAGE_SIZE < last_phys_page phys_mem"
    and alloc: "\<forall>(a, n) \<in> set phys_alloc. a < 2 ^ 32 \<and> n < 2 ^ 32"
  obtains s' Q where "vm_page_init phys_mem phys_alloc junk s = Returns s'" and "pages_inv s' Q {}"
    and "pp_offset s' = fst (hd phys_mem) div PAGE_SIZE" and "pp_offset s' + pp_num s' = last_phys_page phys_mem"
    and "\<forall>i < pp_num s' - 1. pg_state (pp_page s' i) =
           (if i \<in> marked s' phys_alloc then PAGE_STATE_UNUSED else PAGE_STATE_FREE)"
proof -
  let ?off = "fst (hd phys_mem) div PAGE_SIZE" and ?num = "last_phys_page phys_mem - fst (hd phys_mem) div PAGE_SIZE"
  let ?s1 = "s\<lparr>pp_q := (\<lambda>q. empty_queue), pp_page := junk, pp_num := ?num, pp_offset := ?off\<rparr>"
  let ?s2 = "init_pages [0..<?num - 1] ?s1"
  have "pages_ok ?s1 (\<lambda>q. if q = Free_Q then rev [0..<0] else []) {i. 0 \<le> i}"
    by (simp add: pages_ok_def q_rep_empty)
  then have i: "pages_ok ?s2 (\<lambda>q. if q = Free_Q then rev [0..<?num - 1] else []) {i. ?num - 1 \<le> i}"
    "pp_num ?s2 = ?num" "pp_offset ?s2 = ?off"
    "\<forall>i < ?num - 1. pg_ppn (pp_page ?s2 i) = ?off + i \<and> pg_state (pp_page ?s2 i) = PAGE_STATE_FREE"
    using init_pages_spec [of ?s1 0 "?num - 1"] num top by auto
  have inv: "pages_inv ?s2 (\<lambda>q. if q = Free_Q then rev [0..<?num - 1] else []) {}"
  proof -
    have "pages_ok ?s2 (\<lambda>q. if q = Free_Q then rev [0..<?num - 1] else []) {?num - 1}"
      using i(1,2) by (auto simp: pages_ok_def)
    with i num top show ?thesis by (auto simp: pages_inv_def table_ok_def)
  qed
  have "\<forall>i < pp_num ?s2 - 1. pg_state (pp_page ?s2 i) = (if i \<in> {} then PAGE_STATE_UNUSED else PAGE_STATE_FREE)"
    using i by simp
  from mark_ranges_spec [OF inv alloc this] i(2,3) obtain s3 Q3 where m: "mark_ranges phys_alloc ?s2 = Returns s3"
    "pages_inv s3 Q3 {}" "pp_num s3 = ?num" "pp_offset s3 = ?off"
    "\<forall>i < ?num - 1. pg_state (pp_page s3 i) =
       (if i \<in> marked ?s2 phys_alloc then PAGE_STATE_UNUSED else PAGE_STATE_FREE)" by auto
  let ?s4 = "vm_increase_max_commit (?num * PAGE_SIZE mod 2 ^ 32) s3"
  have "vm_page_init phys_mem phys_alloc junk s = Returns ?s4"
    using num m(1) by (simp add: vm_page_init_def Let_def)
  moreover have "pages_inv ?s4 Q3 {}"
    using m(2) by (simp add: pages_inv_def table_ok_def pages_ok_def q_rep_def vm_increase_max_commit_def)
  moreover have "pp_num ?s4 = ?num" "pp_offset ?s4 = ?off" "pp_page ?s4 = pp_page s3"
    using m by (simp_all add: vm_increase_max_commit_def)
  moreover have "marked ?s4 phys_alloc = marked ?s2 phys_alloc"
    using m i by (intro marked_cong) (simp_all add: vm_increase_max_commit_def)
  ultimately show thesis using m num by (intro that) auto
qed

section \<open>The calls as steps\<close>

text \<open>
  The scrubber's round is three steps, between which other calls run; \<open>h\<close> are the pages it
  holds and \<open>c\<close> says whether they have been zeroed. The calls that go by the state of a page
  instead of taking it from a queue run only outside a round.
\<close>

type_synonym page_world = "pages \<times> nat list \<times> bool"

inductive page_step :: "page_world \<Rightarrow> page_world \<Rightarrow> bool" where
  allocate: "vm_page_allocate_page st s = Returns (r, s') \<Longrightarrow> page_step (s, h, c) (s', h, c)"
| specific: "p < pp_num s - 1 \<Longrightarrow> vm_page_allocate_specific_page (pp_offset s + p) st s = Returns (r, s') \<Longrightarrow>
     page_step (s, [], c) (s', [], c)"
| run: "len < 2 ^ 31 \<Longrightarrow> vm_page_allocate_page_run st len s = Returns (r, s') \<Longrightarrow> page_step (s, [], c) (s', [], c)"
| mark: "a + n < 2 ^ 32 \<Longrightarrow> vm_mark_page_range_inuse a n s = Returns (r, s') \<Longrightarrow> page_step (s, [], c) (s', [], c)"
| set: "p < pp_num s - 1 \<Longrightarrow> p \<notin> set h \<Longrightarrow> st \<noteq> PAGE_STATE_CLEAR \<Longrightarrow> vm_page_set_state p st s = (r, s') \<Longrightarrow>
     page_step (s, h, c) (s', h, c)"
| store: "p < pp_num s - 1 \<Longrightarrow> p \<notin> set h \<Longrightarrow> \<not> is_spare s p \<Longrightarrow>
     page_step (s, h, c) (s\<lparr>pp_frame := (pp_frame s)(pp_offset s + p := bs)\<rparr>, h, c)"
| scrub_1: "scrub_take s = (h, s') \<Longrightarrow> page_step (s, [], False) (s', h, False)"
| scrub_2: "page_step (s, h, False) (scrub_clear h s, h, True)"
| scrub_3: "page_step (s, h, True) (scrub_give h s, [], False)"

inductive page_reach :: "pages \<Rightarrow> page_world \<Rightarrow> bool" for s0 where
  start: "page_reach s0 (s0, [], False)"
| step: "page_reach s0 w \<Longrightarrow> page_step w w' \<Longrightarrow> page_reach s0 w'"

text \<open>The invariant of a table together with the pages the scrubber holds.\<close>

definition world_inv :: "page_world \<Rightarrow> bool" where
  "world_inv w \<longleftrightarrow>
     (case w of (s, h, c) \<Rightarrow>
        (\<exists>Q. pages_inv s Q (set h)) \<and> distinct h \<and> (\<forall>p \<in> set h. p < pp_num s - 1) \<and>
        (c \<longrightarrow> (\<forall>p \<in> set h. pp_frame s (pp_offset s + p) = zero_page)))"

lemma world_invI:
  assumes "pages_inv s Q (set h)" and "distinct h" and "\<forall>p \<in> set h. p < pp_num s - 1"
    and "c \<Longrightarrow> \<forall>p \<in> set h. pp_frame s (pp_offset s + p) = zero_page"
  shows "world_inv (s, h, c)"
  using assms by (auto simp: world_inv_def)


lemma allocate_step:
  assumes w: "world_inv (s, h, c)" and r: "vm_page_allocate_page st s = Returns (r, s')"
  shows "world_inv (s', h, c)"
proof (cases "st = PAGE_STATE_FREE \<or> st = PAGE_STATE_CLEAR")
  case False
  with r have "s' = s" by (auto simp: vm_page_allocate_page_def)
  with w show ?thesis by simp
next
  case True
  from w obtain Q where inv: "pages_inv s Q (set h)" and d: "distinct h" and n: "\<forall>p \<in> set h. p < pp_num s - 1"
    and z: "c \<Longrightarrow> \<forall>p \<in> set h. pp_frame s (pp_offset s + p) = zero_page" by (auto simp: world_inv_def)
  show ?thesis
  proof (cases "leaves Q st")
    case Nil
    with allocate_page_empty [OF inv _ True] r show ?thesis by simp
  next
    case (Cons p ps)
    from inv Cons True obtain s2 Q2 where a: "vm_page_allocate_page st s = Returns (Some p, s2)"
      "pages_inv s2 Q2 (set h)" "taken p (st = PAGE_STATE_CLEAR) s s2" by (rule allocate_page_spec)
    with r have "s2 = s'" by simp
    moreover have "pp_num s2 = pp_num s" "pp_offset s2 = pp_offset s"
      using a(3) by (simp_all add: taken_def same_but_def)
    moreover have "pp_frame s2 (pp_offset s + q) = zero_page" if "pp_frame s (pp_offset s + q) = zero_page" for q
      using a(3) that by (cases "q = p") (auto simp: taken_def split: if_splits)
    ultimately show ?thesis using a(2) d n z by (intro world_invI) auto
  qed
qed

lemma specific_step:
  assumes w: "world_inv (s, [], c)" and p: "p < pp_num s - 1"
    and r: "vm_page_allocate_specific_page (pp_offset s + p) st s = Returns (r, s')"
  shows "world_inv (s', [], c)"
proof -
  from w obtain Q where inv: "pages_inv s Q {}" by (auto simp: world_inv_def)
  show ?thesis
  proof (cases "is_spare s p \<or> pg_state (pp_page s p) = PAGE_STATE_UNUSED")
    case True
    from inv p _ True obtain s2 Q2 where "vm_page_allocate_specific_page (pp_offset s + p) st s = Returns (Some p, s2)"
      "pages_inv s2 Q2 {}" by (rule allocate_specific_spec [where st = st]) auto
    with r show ?thesis by (auto simp: world_inv_def)
  next
    case False
    with p r have "s' = s"
      by (cases "pg_state (pp_page s p)")
        (auto simp: vm_page_allocate_specific_page_def Let_def lookup_page_eq is_spare_def split: if_splits)
    with w show ?thesis by simp
  qed
qed

lemma run_step:
  assumes w: "world_inv (s, [], c)" and len: "len < 2 ^ 31" and r: "vm_page_allocate_page_run st len s = Returns (r, s')"
  shows "world_inv (s', [], c)"
proof -
  from w obtain Q where inv: "pages_inv s Q {}" by (auto simp: world_inv_def)
  let ?k = "LEAST k. spare_run s len k"
  show ?thesis
  proof (cases "\<exists>k. spare_run s len k")
    case True
    then have "spare_run s len ?k" by (rule LeastI_ex)
    then have "\<forall>p \<in> set [?k..<?k + len]. p < pp_num s - 1 \<and> p \<notin> {}" by (auto simp: spare_run_def)
    from set_states_inv [OF inv this, of PAGE_STATE_BUSY] allocate_run_spec [OF inv len, of st] True r
    show ?thesis by (auto simp: world_inv_def)
  next
    case False
    with allocate_run_spec [OF inv len, of st] r w show ?thesis by simp
  qed
qed

lemma set_step:
  assumes w: "world_inv (s, h, c)" and p: "p < pp_num s - 1" "p \<notin> set h" and st: "st \<noteq> PAGE_STATE_CLEAR"
  shows "world_inv (vm_page_set_state_nolock p st s, h, c)"
proof -
  from w obtain Q where inv: "pages_inv s Q (set h)" by (auto simp: world_inv_def)
  note same = set_state_same [of p st s]
  have "pages_inv (vm_page_set_state_nolock p st s)
      (moved (queue_of (pg_state (pp_page s p))) (queue_of st) p Q) (set h)"
    using inv p st by (intro set_state_inv) auto
  with w same show ?thesis unfolding world_inv_def by (auto simp: same_but_def)
qed

lemma scrub_1_step:
  assumes w: "world_inv (s, [], c)" and t: "scrub_take s = (h, s')"
  shows "world_inv (s', h, False)"
proof (cases "0 < pq_count (pp_q s Free_Q)")
  case False
  with t w show ?thesis by (auto simp: scrub_take_def world_inv_def)
next
  case True
  from w obtain Q where inv: "pages_inv s Q {}" by (auto simp: world_inv_def)
  from True t have e: "deq_many (dequeue_page Free_Q) SCRUB_SIZE s = (h, s')" by (simp add: scrub_take_def)
  note sp = take_free_inv [OF inv, of SCRUB_SIZE, unfolded e fst_conv snd_conv Un_empty_left]
  then have h: "h = take SCRUB_SIZE (rev (Q Free_Q))" by (rule conjunct1)
  have "pages_inv s' (Q(Free_Q := rev (drop SCRUB_SIZE (rev (Q Free_Q))))) (set h)" using sp by (simp only:)
  moreover have "distinct h" using q_rep_distinct [OF pages_okD(1) [OF pages_invD(2) [OF inv], of Free_Q]] unfolding h by simp
  moreover have "set h \<subseteq> set (Q Free_Q)" using set_take_subset [of SCRUB_SIZE "rev (Q Free_Q)"] unfolding h by simp
  then have "\<forall>p \<in> set h. p < pp_num s - 1" using pages_invD(4) [OF inv, of _ Free_Q] by blast
  moreover have "pp_num s' = pp_num s" using sp by (simp add: only_links_def)
  ultimately show ?thesis by (intro world_invI) auto
qed

lemma page_step_inv:
  assumes w: "world_inv (s, h, c)" and st: "page_step (s, h, c) w'"
  shows "world_inv w'"
  using st
proof (cases rule: page_step.cases)
  case (allocate st r s')
  with allocate_step w show ?thesis by simp
next
  case (specific p st r s')
  with specific_step w show ?thesis by simp
next
  case (run len st r s')
  with run_step w show ?thesis by simp
next
  case (mark a n r s')
  from w mark obtain Q where inv: "pages_inv s Q {}" by (auto simp: world_inv_def)
  from inv mark(3) obtain x s2 Q2 where "vm_mark_page_range_inuse a n s = Returns (x, s2)" "pages_inv s2 Q2 {}"
    by (rule mark_range_spec) simp
  with mark show ?thesis by (auto simp: world_inv_def)
next
  case (set p st r s')
  with set_step [of s h c p st] w show ?thesis by (auto simp: vm_page_set_state_def)
next
  case (store p bs)
  from w store obtain Q where inv: "pages_inv s Q (set h)" by (auto simp: world_inv_def)
  have "p \<notin> set (Q Clear_Q)" using store pages_invD(4) [OF inv, of p Clear_Q] by (auto simp: is_spare_def queue_of_Clear)
  then have "pages_inv (s\<lparr>pp_frame := (pp_frame s)(pp_offset s + p := bs)\<rparr>) Q (set h)"
    using inv by (auto simp: pages_inv_def table_ok_def)
  with w store show ?thesis unfolding world_inv_def by auto
next
  case (scrub_1 h s')
  with scrub_1_step w show ?thesis by simp
next
  case scrub_2
  from w scrub_2 obtain Q where inv: "pages_inv s Q (set h)" and n: "\<forall>p \<in> set h. p < pp_num s - 1"
    and d: "distinct h" by (auto simp: world_inv_def)
  note sp = scrub_clear_spec [OF pages_invD(1) [OF inv] n]
  have "pages_inv (scrub_clear h s) Q (set h)" using inv n by (intro scrub_clear_inv) auto
  with scrub_2 sp n d show ?thesis by (auto simp: world_inv_def)
next
  case scrub_3
  from w scrub_3 obtain Q where inv: "pages_inv s Q (set h)" and n: "\<forall>p \<in> set h. p < pp_num s - 1"
    and d: "distinct h" and z: "\<forall>p \<in> set h. pp_frame s (pp_offset s + p) = zero_page"
    by (auto simp: world_inv_def)
  from scrub_give_inv [OF inv subset_refl d n z] scrub_3 show ?thesis by (auto simp: world_inv_def)
qed

lemma page_reach_inv: "page_reach s0 w \<Longrightarrow> world_inv (s0, [], False) \<Longrightarrow> world_inv w"
proof (induction rule: page_reach.induct)
  case (step w w')
  then show ?case by (cases w) (auto dest: page_step_inv)
qed


section \<open>The scrubber's race\<close>

text \<open>
  The pages the scrubber holds keep the state \<open>free\<close>, so a call that looks at states takes them.
\<close>

lemma dequeue_last_header:
  assumes "q_rep q s [p]"
  shows "pp_q (snd (dequeue_page q s)) = (pp_q s)(q := empty_queue)" and "fst (dequeue_page q s) = Some p"
    and "pg_qprev (pp_page (snd (dequeue_page q s)) p) = None"
proof -
  from assms have f: "pq_head (pp_q s q) = Some p" "pq_tail (pp_q s q) = Some p" "pg_qprev (pp_page s p) = None"
    "pg_qnext (pp_page s p) = None" "pq_count (pp_q s q) = 1" by (auto simp: q_rep_def)
  then show "pp_q (snd (dequeue_page q s)) = (pp_q s)(q := empty_queue)" "fst (dequeue_page q s) = Some p"
    "pg_qprev (pp_page (snd (dequeue_page q s)) p) = None"
    by (auto simp: dequeue_page_def Let_def empty_queue_def)
qed

lemma race_spec:
  assumes inv: "pages_inv s Q {}" and free: "Q Free_Q = [p]" and clear: "Q Clear_Q = []"
  obtains s1 s2 s4 where "scrub_take s = ([p], s1)"
    and "vm_page_allocate_page_run st 1 s1 = Returns (Some p, s2)"
    and "vm_page_allocate_page PAGE_STATE_CLEAR (scrub_give [p] (scrub_clear [p] s2)) = Returns (Some p, s4)"
    and "pq_count (pp_q s2 Free_Q) = - 1"
proof -
  have reps: "q_rep Free_Q s [p]" "q_rep Clear_Q s []"
    using pages_okD(1) [OF pages_invD(2) [OF inv], of Free_Q] pages_okD(1) [OF pages_invD(2) [OF inv], of Clear_Q] free clear
    by simp_all
  have pn: "p < pp_num s - 1" "pg_state (pp_page s p) = PAGE_STATE_FREE"
    using pages_invD(4) [OF inv, of p Free_Q] free by (auto simp: queue_of_Free)
  have only: "is_spare s k \<Longrightarrow> k < pp_num s - 1 \<Longrightarrow> k = p" for k
    using pages_invD(4) [OF inv, of k Free_Q] pages_invD(4) [OF inv, of k Clear_Q] free clear
    by (auto simp: is_spare_def)
  obtain s1 where dq: "dequeue_page Free_Q s = (Some p, s1)"
    using dequeue_last_header(2) [OF reps(1)] by (cases "dequeue_page Free_Q s") auto
  note d = dequeue_last_header [OF reps(1), unfolded dq snd_conv fst_conv]
    and l1 = dequeue_only_links [of s Free_Q, unfolded dq snd_conv]
  have "dequeue_page Free_Q s1 = (None, s1)" using d by (simp add: dequeue_page_def empty_queue_def)
  moreover have "pq_count (pp_q s Free_Q) = 1" using reps by (simp add: q_rep_def)
  ultimately have take: "scrub_take s = ([p], s1)" using dq by (simp add: scrub_take_def SCRUB_SIZE_def eval_nat_numeral)
  have sp1: "is_spare s1 k = is_spare s k" "pp_num s1 = pp_num s" for k
    using l1 by (simp_all add: only_links_def is_spare_def)
  have runs: "spare_run s1 1 k \<longleftrightarrow> k = p" for k
    using sp1 only [of k] pn by (auto simp: spare_run_def is_spare_def)
  let ?s2 = "vm_page_set_state_nolock p PAGE_STATE_BUSY s1"
  have n: "0 < pp_num s" "pp_num s < 2 ^ 31" using pages_invD(1) [OF inv] by (auto simp: table_ok_def)
  have "(LEAST k. spare_run s1 1 k) = p" "\<exists>k. spare_run s1 1 k" unfolding runs by (auto intro: Least_equality)
  then have "run_search s1 1 0 = Some (Returns (Some p))"
    using run_search_spec [of s1 1 0] n sp1(2) by simp
  then have run: "vm_page_allocate_page_run st 1 s1 = Returns (Some p, ?s2)"
    by (simp add: vm_page_allocate_page_run_def looped_outcome_def)
  let ?r = "remove_page_from_queue Free_Q p s1"
  have e2: "?s2 = set_pg p (\<lambda>r. r\<lparr>pg_state := PAGE_STATE_BUSY\<rparr>) (enqueue_page Active_Q p ?r)"
    using l1 pn by (simp add: vm_page_set_state_nolock_def move_page_to_queue_def only_links_def)
  have cnt: "pq_count (pp_q ?r Free_Q) = - 1"
    using d(1) by (simp add: remove_page_from_queue_def Let_def empty_queue_def split: option.split)
  have clr: "pp_q ?r Clear_Q = empty_queue"
    using d(1) reps(2) by (simp add: remove_page_from_queue_def Let_def q_rep_empty split: option.split)
  have q2: "pq_count (pp_q ?s2 Free_Q) = - 1" "pp_q ?s2 Clear_Q = empty_queue"
    using cnt clr by (simp_all add: e2 enqueue_headers)
  let ?s3 = "scrub_give [p] (scrub_clear [p] ?s2)"
  have "pq_tail (pp_q ?s3 Clear_Q) = Some p"
    using q2(2) by (simp add: enqueue_headers empty_queue_def)
  then obtain t where "dequeue_page Clear_Q ?s3 = (Some p, t)"
    by (simp add: dequeue_page_def Let_def)
  then have "vm_page_allocate_page PAGE_STATE_CLEAR ?s3 =
      Returns (Some p, let s2 = enqueue_page Active_Q p (set_pg p (\<lambda>r. r\<lparr>pg_state := PAGE_STATE_BUSY\<rparr>) t)
                       in if pg_state (pp_page t p) = PAGE_STATE_FREE then clear_page (phys_addr p s2) s2 else s2)"
    by (simp add: vm_page_allocate_page_def Let_def)
  with take run q2(1) show thesis by (intro that)
qed

section \<open>Properties\<close>

text \<open>
  (C26) The page table. From \<open>vm_page_init\<close> on, under every interleaving of \<open>vm_page_allocate_page\<close>,
  of changes of state (of a page the scrubber does not hold, to any state but clear) and of writes
  to pages in use with the three steps of the scrubber, and with the allocation of a given page,
  the allocation of a run and \<open>vm_mark_page_range_inuse\<close> between two rounds of the scrubber, each
  page but the last entry of the table and the ones the scrubber holds is in exactly one queue,
  the one of its state, the counts of the queues are their lengths, and every page in the clear
  queue is zero. The last three calls go by the state of a page and not by its queue: in the
  middle of a round they can take a page the scrubber holds, and the claim fails then.
\<close>

theorem page_table_consistent:
  assumes "phys_mem \<noteq> []" and "last_phys_page phys_mem < 2 ^ 20"
    and "fst (hd phys_mem) div PAGE_SIZE < last_phys_page phys_mem"
    and "\<forall>(a, n) \<in> set phys_alloc. a < 2 ^ 32 \<and> n < 2 ^ 32"
    and "vm_page_init phys_mem phys_alloc junk s0 = Returns s1" and "page_reach s1 (s, h, c)"
  shows "distinct h \<and> (\<exists>Q. pages_inv s Q (set h) \<and>
           vm_page_num_free_pages s = int (length (Q Free_Q) + length (Q Clear_Q)))"
proof -
  from assms(1-4) obtain s' Q where "vm_page_init phys_mem phys_alloc junk s0 = Returns s'" "pages_inv s' Q {}"
    by (rule vm_page_init_spec)
  with assms(5) have "world_inv (s1, [], False)" by (auto simp: world_inv_def)
  with assms(6) have w: "world_inv (s, h, c)" by (rule page_reach_inv)
  then obtain Q where d: "distinct h" and Q: "pages_inv s Q (set h)" by (auto simp: world_inv_def)
  then have "vm_page_num_free_pages s = int (length (Q Free_Q) + length (Q Clear_Q))"
    using pages_okD(1) [OF pages_invD(2) [OF Q], of Free_Q] pages_okD(1) [OF pages_invD(2) [OF Q], of Clear_Q]
    by (simp add: vm_page_num_free_pages_def q_rep_def)
  with d Q show ?thesis by blast
qed

text \<open>A machine with eight pages of which the loader uses the first two.\<close>

definition demo_mem :: "(nat \<times> nat) list" where
  "demo_mem = [(0, 0x8000)]"

definition demo_alloc :: "(nat \<times> nat) list" where
  "demo_alloc = [(0, 0x2000)]"

definition demo_junk :: "nat \<Rightarrow> vm_page" where
  "demo_junk i = \<lparr>pg_qprev = None, pg_qnext = None, pg_ppn = 0, pg_ref_count = 0, pg_state = PAGE_STATE_ACTIVE\<rparr>"

definition demo_pages :: pages where
  "demo_pages = \<lparr>pp_q = (\<lambda>q. empty_queue), pp_page = demo_junk, pp_num = 0, pp_offset = 0, pp_frame = (\<lambda>a. []),
                 pp_modified_sem = 0, pp_max_commit = 0\<rparr>"

lemma demo_mem_ok:
  "demo_mem \<noteq> []" "last_phys_page demo_mem < 2 ^ 20" "fst (hd demo_mem) div PAGE_SIZE < last_phys_page demo_mem"
  "\<forall>(a, n) \<in> set demo_alloc. a < 2 ^ 32 \<and> n < 2 ^ 32"
  by (simp_all add: demo_mem_def demo_alloc_def last_phys_page_def PAGE_SIZE_def)

lemma demo_booted:
  obtains s Q where "vm_page_init demo_mem demo_alloc demo_junk demo_pages = Returns s" and "pages_inv s Q {}"
  using demo_mem_ok by (rule vm_page_init_spec)

theorem page_table_consistent_witness:
  "\<exists>s s' h. vm_page_init demo_mem demo_alloc demo_junk demo_pages = Returns s \<and>
     scrub_take s = (h, s') \<and> (\<exists>Q. pages_inv s' Q (set h))"
proof -
  from demo_booted obtain s Q where s: "vm_page_init demo_mem demo_alloc demo_junk demo_pages = Returns s"
    by (rule demo_booted)
  obtain h s' where t: "scrub_take s = (h, s')" by (cases "scrub_take s")
  have "page_reach s (s', h, False)"
    by (rule page_reach.step [OF page_reach.start page_step.scrub_1 [OF t]])
  from page_table_consistent [OF demo_mem_ok s this] s t show ?thesis by blast
qed

text \<open>
  (C27) \<open>vm_page_allocate_page\<close>: the page comes from the queue of the kind asked for, and from the
  other one only when that is empty, the page longest in its queue first; it is marked busy,
  and zero when a cleared page was asked for. The call panics exactly when both are empty.
\<close>

theorem vm_page_allocate_page_correct:
  assumes "pages_inv s Q held" and "st = PAGE_STATE_FREE \<or> st = PAGE_STATE_CLEAR"
  shows "case leaves Q st of
           [] \<Rightarrow> vm_page_allocate_page st s = Faults
         | p # ps \<Rightarrow> \<exists>s' Q'. vm_page_allocate_page st s = Returns (Some p, s') \<and> pages_inv s' Q' held \<and>
             taken p (st = PAGE_STATE_CLEAR) s s' \<and> leaves Q' st = ps"
proof (cases "leaves Q st")
  case Nil
  with allocate_page_empty [OF assms(1) Nil assms(2)] show ?thesis by simp
next
  case (Cons p ps)
  from assms(1) Cons assms(2) obtain s' Q' where "vm_page_allocate_page st s = Returns (Some p, s')"
    "pages_inv s' Q' held" "taken p (st = PAGE_STATE_CLEAR) s s'" "leaves Q' st = ps"
    by (rule allocate_page_spec)
  with Cons show ?thesis by auto
qed

theorem vm_page_allocate_page_correct_witness:
  "\<exists>s Q. vm_page_init demo_mem demo_alloc demo_junk demo_pages = Returns s \<and> pages_inv s Q {} \<and>
     (case leaves Q PAGE_STATE_CLEAR of
        [] \<Rightarrow> vm_page_allocate_page PAGE_STATE_CLEAR s = Faults
      | p # ps \<Rightarrow> \<exists>s' Q'. vm_page_allocate_page PAGE_STATE_CLEAR s = Returns (Some p, s') \<and> pages_inv s' Q' {} \<and>
          taken p True s s' \<and> leaves Q' PAGE_STATE_CLEAR = ps)"
proof -
  obtain s Q where s: "vm_page_init demo_mem demo_alloc demo_junk demo_pages = Returns s" "pages_inv s Q {}"
    by (rule demo_booted)
  from vm_page_allocate_page_correct [OF s(2) disjI2 [OF refl], unfolded simp_thms] s show ?thesis by blast
qed

text \<open>
  (C28) \<open>vm_page_allocate_page_run\<close>: the search, which skips past the page that broke a candidate,
  always ends and finds the lowest run of spare pages that ends before the last entry of the
  table; all its pages become busy and no other page changes. Without one the table is unchanged.
\<close>

theorem vm_page_allocate_page_run_correct:
  assumes "pages_inv s Q {}" and "len < 2 ^ 31"
  defines "k \<equiv> LEAST k. spare_run s len k"
  shows "if \<exists>k. spare_run s len k
         then \<exists>s' Q'. vm_page_allocate_page_run st len s = Returns (Some k, s') \<and> pages_inv s' Q' {} \<and>
                same_but {k..<k + len} PAGE_STATE_BUSY s s'
         else vm_page_allocate_page_run st len s = Returns (None, s)"
proof (cases "\<exists>k. spare_run s len k")
  case True
  then have "spare_run s len k" unfolding k_def by (rule LeastI_ex)
  then have "\<forall>p \<in> set [k..<k + len]. p < pp_num s - 1 \<and> p \<notin> {}" by (auto simp: spare_run_def)
  from set_states_inv [OF assms(1) this, of PAGE_STATE_BUSY] allocate_run_spec [OF assms(1,2), of st] True
  show ?thesis by (auto simp: k_def)
next
  case False
  with allocate_run_spec [OF assms(1,2), of st] show ?thesis by simp
qed

theorem vm_page_allocate_page_run_correct_witness:
  "\<exists>s Q. vm_page_init demo_mem demo_alloc demo_junk demo_pages = Returns s \<and> pages_inv s Q {} \<and>
     (if \<exists>k. spare_run s 3 k
      then \<exists>s' Q'. vm_page_allocate_page_run PAGE_STATE_CLEAR 3 s = Returns (Some (LEAST k. spare_run s 3 k), s') \<and>
             pages_inv s' Q' {} \<and>
             same_but {(LEAST k. spare_run s 3 k)..<(LEAST k. spare_run s 3 k) + 3} PAGE_STATE_BUSY s s'
      else vm_page_allocate_page_run PAGE_STATE_CLEAR 3 s = Returns (None, s))"
proof -
  obtain s Q where s: "vm_page_init demo_mem demo_alloc demo_junk demo_pages = Returns s" "pages_inv s Q {}"
    by (rule demo_booted)
  from vm_page_allocate_page_run_correct [OF s(2), of 3 PAGE_STATE_CLEAR] s show ?thesis by (intro exI conjI) simp_all
qed

text \<open>
  (C29) The scrubber and the searches by state race: while the scrubber works on a page with the
  lock released, the page still counts as free. A run allocation at that moment hands it out
  and corrupts the count of the free queue; the scrubber then queues it as clear, and the next
  request for a cleared page hands out the same page a second time.
\<close>

theorem scrubbed_page_allocated_twice:
  assumes "pages_inv s Q {}" and "Q Free_Q = [p]" and "Q Clear_Q = []"
  shows "\<exists>s1 s2 s4. scrub_take s = ([p], s1) \<and>
    vm_page_allocate_page_run st 1 s1 = Returns (Some p, s2) \<and> pq_count (pp_q s2 Free_Q) = - 1 \<and>
    vm_page_allocate_page PAGE_STATE_CLEAR (scrub_give [p] (scrub_clear [p] s2)) = Returns (Some p, s4)"
proof -
  from assms obtain s1 s2 s4 where "scrub_take s = ([p], s1)"
    "vm_page_allocate_page_run st 1 s1 = Returns (Some p, s2)"
    "vm_page_allocate_page PAGE_STATE_CLEAR (scrub_give [p] (scrub_clear [p] s2)) = Returns (Some p, s4)"
    "pq_count (pp_q s2 Free_Q) = - 1" by (rule race_spec)
  then show ?thesis by blast
qed

lemma demo_one_free:
  obtains s Q where "vm_page_init [(0, 0x4000)] [(0, 0x1000)] demo_junk demo_pages = Returns s"
    and "pages_inv s Q {}" and "Q Free_Q = [1]" and "Q Clear_Q = []"
proof -
  obtain s Q where s: "vm_page_init [(0, 0x4000)] [(0, 0x1000)] demo_junk demo_pages = Returns s" "pages_inv s Q {}"
    "pp_offset s = fst (hd [(0::nat, 0x4000::nat)]) div PAGE_SIZE" "pp_offset s + pp_num s = last_phys_page [(0, 0x4000)]"
    "\<forall>i < pp_num s - 1. pg_state (pp_page s i) =
       (if i \<in> marked s [(0, 0x1000)] then PAGE_STATE_UNUSED else PAGE_STATE_FREE)"
    by (rule vm_page_init_spec [of "[(0, 0x4000)]" "[(0, 0x1000)]" demo_junk demo_pages])
      (simp_all add: last_phys_page_def PAGE_SIZE_def)
  then have n: "pp_num s = 3" "pp_offset s = 0" by (simp_all add: last_phys_page_def PAGE_SIZE_def)
  then have st: "pg_state (pp_page s i) = (if i = 0 then PAGE_STATE_UNUSED else PAGE_STATE_FREE)" if "i < 2" for i
    using s(5) that by (simp add: marked_def PAGE_SIZE_def)
  have e: "i \<in> set (Q Free_Q) \<longleftrightarrow> i = 1" "i \<notin> set (Q Clear_Q)" for i
    using pages_invD(4) [OF s(2), of i Free_Q] pages_invD(4) [OF s(2), of i Clear_Q] n st [of i]
    by (auto simp: queue_of_Free queue_of_Clear split: if_splits)
  from e(1) have f: "set (Q Free_Q) = {1}" by blast
  have "distinct (Q Free_Q)" using pages_okD(1) [OF pages_invD(2) [OF s(2)]] by (rule q_rep_distinct)
  then have "length (Q Free_Q) = card (set (Q Free_Q))" by (simp add: distinct_card)
  then have "length (Q Free_Q) = Suc 0" unfolding f by simp
  then obtain x where "Q Free_Q = [x]" by (cases "Q Free_Q") auto
  with f have "Q Free_Q = [1]" by simp
  moreover from e(2) have "Q Clear_Q = []" by (cases "Q Clear_Q") (simp, metis list.set_intros(1))
  ultimately show thesis using s(1,2) by (intro that)
qed

theorem scrubbed_page_allocated_twice_witness:
  "\<exists>s s1 s2 s4. vm_page_init [(0, 0x4000)] [(0, 0x1000)] demo_junk demo_pages = Returns s \<and> scrub_take s = ([1], s1) \<and>
    vm_page_allocate_page_run PAGE_STATE_CLEAR 1 s1 = Returns (Some 1, s2) \<and> pq_count (pp_q s2 Free_Q) = - 1 \<and>
    vm_page_allocate_page PAGE_STATE_CLEAR (scrub_give [1] (scrub_clear [1] s2)) = Returns (Some 1, s4)"
proof -
  obtain s Q where s: "vm_page_init [(0, 0x4000)] [(0, 0x1000)] demo_junk demo_pages = Returns s"
    "pages_inv s Q {}" "Q Free_Q = [1]" "Q Clear_Q = []" by (rule demo_one_free)
  from scrubbed_page_allocated_twice [OF s(2-4), of PAGE_STATE_CLEAR] s(1) show ?thesis by blast
qed

end
