(* ===== verification/Vm_Map.thy ===== *)
theory Vm_Map
  imports Kheap
begin

text \<open>
  The virtual map of an address space (\<open>vm.c\<close>): the list of its regions in the order of their
  addresses, the search for a place for a new region, the lookup of an address with its hint,
  and the unlinking of a region. A pointer to a region is the address of its structure.
\<close>

section \<open>State\<close>

record vm_region =
  rg_name :: "byte list"
  rg_id :: int
  rg_base :: nat
  rg_size :: nat
  rg_lock :: int
  rg_wiring :: int
  rg_ref_count :: int
  rg_cache_ref :: "nat ptr"
  rg_cache_offset :: int
  rg_aspace :: nat
  rg_aspace_next :: "nat ptr"
  rg_cache_next :: "nat ptr"
  rg_cache_prev :: "nat ptr"

record vm_virtual_map =
  vm_region_list :: "nat ptr"
  vm_region_hint :: "nat ptr"
  vm_change_count :: int
  vm_base :: nat
  vm_size :: nat

type_synonym regions = "nat \<Rightarrow> vm_region"

definition ERR_VM_INVALID_ASPACE :: int where "ERR_VM_INVALID_ASPACE = - 4096 - 1"
definition ERR_VM_INVALID_REGION :: int where "ERR_VM_INVALID_REGION = - 4096 - 2"
definition ERR_VM_BAD_ADDRESS :: int where "ERR_VM_BAD_ADDRESS = - 4096 - 3"
definition ERR_VM_NO_REGION_SLOT :: int where "ERR_VM_NO_REGION_SLOT = - 4096 - 8"
definition ERR_VM_WOULD_OVERCOMMIT :: int where "ERR_VM_WOULD_OVERCOMMIT = - 4096 - 9"

lemmas err_vm_defs [err_defs] =
  ERR_VM_INVALID_ASPACE_def ERR_VM_INVALID_REGION_def ERR_VM_BAD_ADDRESS_def ERR_VM_NO_REGION_SLOT_def
  ERR_VM_WOULD_OVERCOMMIT_def

definition REGION_ADDR_ANY_ADDRESS :: int where "REGION_ADDR_ANY_ADDRESS = 0"
definition REGION_ADDR_EXACT_ADDRESS :: int where "REGION_ADDR_EXACT_ADDRESS = 1"

section \<open>A place for a region\<close>

definition region_end :: "vm_region \<Rightarrow> nat" where
  "region_end r = u32_add (rg_base r) (rg_size r)"

text \<open>Walk to the first region at or behind an address, keeping the one before it.\<close>

partial_function (option) slot_walk ::
  "regions \<Rightarrow> nat \<Rightarrow> nat ptr \<Rightarrow> nat ptr \<Rightarrow> (nat ptr \<times> nat ptr) option" where
  "slot_walk rg limit last_r next_r =
     (case next_r of
        None \<Rightarrow> Some (last_r, None)
      | Some n \<Rightarrow> if limit \<le> rg_base (rg n) then Some (last_r, next_r)
                  else slot_walk rg limit next_r (rg_aspace_next (rg n)))"

text \<open>Walk on to the first gap of the wanted size; the flag says whether one was found.\<close>

partial_function (option) gap_walk :: "regions \<Rightarrow> nat ptr \<Rightarrow> nat \<Rightarrow> nat \<Rightarrow> (nat \<times> bool) option" where
  "gap_walk rg next_r sz last_r =
     (case next_r of
        None \<Rightarrow> Some (last_r, False)
      | Some n \<Rightarrow> if u32_add (region_end (rg last_r)) sz \<le> rg_base (rg n) then Some (last_r, True)
                  else gap_walk rg (rg_aspace_next (rg n)) sz n)"

definition map_last :: "vm_virtual_map \<Rightarrow> nat" where
  "map_last m = u32_add (vm_base m) (u32_sub (vm_size m) 1)"

text \<open>
  The two ways to place a region: the result is the region to link it behind and its base, or
  nothing. In the search for any address the first test cannot fail after the walk, but it is
  kept: its other branch goes on from the first region.
\<close>

definition place_any ::
  "regions \<Rightarrow> vm_virtual_map \<Rightarrow> nat \<Rightarrow> nat ptr \<Rightarrow> nat ptr \<Rightarrow> (nat ptr \<times> nat) option outcome" where
  "place_any rg m sz last_r next_r =
     (let rest = (\<lambda>l n. obind (looped (gap_walk rg n sz l)) (\<lambda>(l1, found).
            if found \<or> u32_add (region_end (rg l1)) (u32_sub sz 1) \<le> map_last m
            then Returns (Some (Some l1, region_end (rg l1))) else Returns None))
      in case last_r of
           Some l \<Rightarrow> rest l next_r
         | None \<Rightarrow>
             (case next_r of
                None \<Rightarrow> Returns (Some (None, vm_base m))
              | Some n \<Rightarrow> if u32_add (vm_base m) sz \<le> rg_base (rg n) then Returns (Some (None, vm_base m))
                          else rest n (rg_aspace_next (rg n))))"

definition place_exact :: "regions \<Rightarrow> nat \<Rightarrow> nat \<Rightarrow> nat ptr \<Rightarrow> nat ptr \<Rightarrow> (nat ptr \<times> nat) option" where
  "place_exact rg start sz last_r next_r =
     (let ok = (case (last_r, next_r) of
                  (None, None) \<Rightarrow> True
                | (None, Some n) \<Rightarrow> u32_add start sz \<le> rg_base (rg n)
                | (Some l, Some n) \<Rightarrow> region_end (rg l) \<le> start \<and> u32_add start sz \<le> rg_base (rg n)
                | (Some l, None) \<Rightarrow> u32_add (rg_base (rg l)) (u32_sub (rg_size (rg l)) 1) \<le> u32_sub start 1)
      in if ok then Some (last_r, start) else None)"

definition link_region ::
  "nat \<Rightarrow> nat ptr \<Rightarrow> nat \<Rightarrow> nat \<Rightarrow> vm_virtual_map \<times> regions \<Rightarrow> vm_virtual_map \<times> regions" where
  "link_region region last_r nb sz s =
     (let (m, rg) = s;
          rg1 = rg(region := (rg region)\<lparr>rg_base := nb, rg_size := sz\<rparr>)
      in case last_r of
           Some l \<Rightarrow>
             (let rg2 = rg1(region := (rg1 region)\<lparr>rg_aspace_next := rg_aspace_next (rg1 l)\<rparr>)
              in (m\<lparr>vm_change_count := i32 (vm_change_count m + 1)\<rparr>,
                  rg2(l := (rg2 l)\<lparr>rg_aspace_next := Some region\<rparr>)))
         | None \<Rightarrow>
             (m\<lparr>vm_region_list := Some region, vm_change_count := i32 (vm_change_count m + 1)\<rparr>,
              rg1(region := (rg1 region)\<lparr>rg_aspace_next := vm_region_list m\<rparr>)))"

definition find_and_insert_region_slot ::
  "nat \<Rightarrow> nat \<Rightarrow> nat \<Rightarrow> int \<Rightarrow> nat \<Rightarrow> vm_virtual_map \<times> regions \<Rightarrow> (int \<times> (vm_virtual_map \<times> regions)) outcome" where
  "find_and_insert_region_slot start sz fin addr_type region s =
     (let (m, rg) = s
      in if start < vm_base m \<or> sz = 0 \<or> map_last m < u32_sub fin 1 \<or> fin < u32_add start sz
         then Returns (ERR_VM_BAD_ADDRESS, s)
         else obind (looped (slot_walk rg (u32_add start sz) None (vm_region_list m))) (\<lambda>(last_r, next_r).
           if addr_type \<noteq> REGION_ADDR_ANY_ADDRESS \<and> addr_type \<noteq> REGION_ADDR_EXACT_ADDRESS then Returns (EINVAL, s)
           else obind (if addr_type = REGION_ADDR_ANY_ADDRESS then place_any rg m sz last_r next_r
                       else Returns (place_exact rg start sz last_r next_r)) (\<lambda>spot.
             case spot of
               None \<Rightarrow> Returns (ERR_VM_NO_REGION_SLOT, s)
             | Some (l, nb) \<Rightarrow> Returns (B_NO_ERROR, link_region region l nb sz s))))"

section \<open>Lookup and removal\<close>

definition covers :: "vm_region \<Rightarrow> nat \<Rightarrow> bool" where
  "covers r a \<longleftrightarrow> rg_base r \<le> a \<and> a < region_end r"

partial_function (option) region_walk :: "(vm_region \<Rightarrow> bool) \<Rightarrow> regions \<Rightarrow> nat ptr \<Rightarrow> nat ptr option" where
  "region_walk P rg r =
     (case r of
        None \<Rightarrow> Some None
      | Some a \<Rightarrow> if P (rg a) then Some (Some a) else region_walk P rg (rg_aspace_next (rg a)))"

definition vm_virtual_map_lookup ::
  "regions \<Rightarrow> nat \<Rightarrow> vm_virtual_map \<Rightarrow> (nat ptr \<times> vm_virtual_map) outcome" where
  "vm_virtual_map_lookup rg address m =
     (let walk = obind (looped (region_walk (\<lambda>r. covers r address) rg (vm_region_list m))) (\<lambda>r.
            case r of
              None \<Rightarrow> Returns (None, m)
            | Some a \<Rightarrow> Returns (Some a, m\<lparr>vm_region_hint := Some a\<rparr>))
      in case vm_region_hint m of
           Some h \<Rightarrow> if covers (rg h) address then Returns (Some h, m) else walk
         | None \<Rightarrow> walk)"

text \<open>The loop of \<open>_vm_put_region\<close> that unlinks a region, and the hint that must not outlive it.\<close>

partial_function (option) unlink_loop ::
  "nat \<Rightarrow> nat ptr \<Rightarrow> nat ptr \<Rightarrow> vm_virtual_map \<times> regions \<Rightarrow> (bool \<times> (vm_virtual_map \<times> regions)) option" where
  "unlink_loop region last_r temp s =
     (case temp of
        None \<Rightarrow> Some (False, s)
      | Some t \<Rightarrow>
          if t = region then
            (let (m, rg) = s;
                 m1 = m\<lparr>vm_change_count := i32 (vm_change_count m + 1)\<rparr>
             in case last_r of
                  Some l \<Rightarrow> Some (True, (m1, rg(l := (rg l)\<lparr>rg_aspace_next := rg_aspace_next (rg t)\<rparr>)))
                | None \<Rightarrow> Some (True, (m1\<lparr>vm_region_list := rg_aspace_next (rg t)\<rparr>, rg)))
          else unlink_loop region temp (rg_aspace_next (snd s t)) s)"

definition unlink_region :: "nat \<Rightarrow> vm_virtual_map \<times> regions \<Rightarrow> (vm_virtual_map \<times> regions) outcome" where
  "unlink_region region s =
     obind (looped (unlink_loop region None (vm_region_list (fst s)) s)) (\<lambda>(found, (m, rg)).
       let m1 = (if vm_region_hint m = Some region then m\<lparr>vm_region_hint := None\<rparr> else m)
       in if found then Returns (m1, rg) else Faults)"

text \<open>
  The loop of \<open>find_region_by_address\<close> visits every region and keeps the last one that
  matches; the address behind the end of a region still matches it.
\<close>

partial_function (option) address_loop :: "regions \<Rightarrow> nat \<Rightarrow> nat ptr \<Rightarrow> int \<Rightarrow> int option" where
  "address_loop rg vaddress r res =
     (case r of
        None \<Rightarrow> Some res
      | Some a \<Rightarrow> address_loop rg vaddress (rg_aspace_next (rg a))
                    (if rg_base (rg a) \<le> vaddress \<and> vaddress \<le> region_end (rg a) then rg_id (rg a) else res))"

definition find_region_by_address :: "regions \<Rightarrow> nat \<Rightarrow> vm_virtual_map \<Rightarrow> int outcome" where
  "find_region_by_address rg vaddress m = looped (address_loop rg vaddress (vm_region_list m) (-1))"

end
