(* ===== verification/Vm_Map_Props.thy ===== *)
theory Vm_Map_Props
  imports Vm_Map
begin

text \<open>
  What the virtual map promises: its regions stay sorted, disjoint and inside the map, a new
  region goes to the lowest address where it fits or to the address asked for, a lookup finds
  the region that holds an address, and taking a region out leaves the others.
\<close>

abbreviation asnexts :: "regions \<Rightarrow> nat \<Rightarrow> nat ptr" where
  "asnexts rg \<equiv> \<lambda>i. rg_aspace_next (rg i)"

definition rtop :: "vm_region \<Rightarrow> nat" where
  "rtop r = rg_base r + rg_size r"

definition before :: "vm_region \<Rightarrow> vm_region \<Rightarrow> bool" where
  "before r1 r2 \<longleftrightarrow> rtop r1 \<le> rg_base r2"

definition within :: "vm_virtual_map \<Rightarrow> vm_region \<Rightarrow> bool" where
  "within m r \<longleftrightarrow> vm_base m \<le> rg_base r \<and> 0 < rg_size r \<and> rtop r \<le> vm_base m + vm_size m"

definition map_ok :: "vm_virtual_map \<Rightarrow> regions \<Rightarrow> nat list \<Rightarrow> bool" where
  "map_ok m rg xs \<longleftrightarrow>
     chain (asnexts rg) (vm_region_list m) xs \<and> sorted_wrt before (map rg xs) \<and> (\<forall>x \<in> set xs. within m (rg x)) \<and>
     (\<forall>h. vm_region_hint m = Some h \<longrightarrow> h \<in> set xs) \<and> 0 < vm_base m \<and> 0 < vm_size m \<and> vm_base m + vm_size m \<le> 2 ^ 32"

text \<open>The address \<open>a\<close> has room for \<open>n\<close> bytes that no region uses.\<close>

definition fits :: "vm_virtual_map \<Rightarrow> regions \<Rightarrow> nat list \<Rightarrow> nat \<Rightarrow> nat \<Rightarrow> bool" where
  "fits m rg xs n a \<longleftrightarrow>
     vm_base m \<le> a \<and> a + n \<le> vm_base m + vm_size m \<and> (\<forall>x \<in> set xs. a + n \<le> rg_base (rg x) \<or> rtop (rg x) \<le> a)"

lemma map_okD:
  assumes "map_ok m rg xs"
  shows "chain (asnexts rg) (vm_region_list m) xs" and "sorted_wrt before (map rg xs)"
    and "x \<in> set xs \<Longrightarrow> within m (rg x)" and "vm_region_hint m = Some h \<Longrightarrow> h \<in> set xs"
    and "0 < vm_base m" and "0 < vm_size m" and "vm_base m + vm_size m \<le> 2 ^ 32"
  using assms by (auto simp: map_ok_def)

lemma map_last_eq: "0 < vm_size m \<Longrightarrow> vm_base m + vm_size m \<le> 2 ^ 32 \<Longrightarrow> map_last m = vm_base m + vm_size m - 1"
  by (simp add: map_last_def)

lemma region_end_top: "rtop r < 2 ^ 32 \<Longrightarrow> region_end r = rtop r"
  by (simp add: region_end_def rtop_def)

definition front :: "nat list \<Rightarrow> nat ptr" where
  "front xs = (if xs = [] then None else Some (hd xs))"

lemma front_simps [simp]: "front [] = None" "front (x # xs) = Some x"
  by (simp_all add: front_def)

lemma chain_front: "chain nx p xs \<Longrightarrow> p = front xs"
  by (cases xs) auto

section \<open>The walks\<close>

lemma slot_walk_spec:
  assumes "chain (asnexts rg) p xs"
  shows "slot_walk rg lim l p =
     Some (if takeWhile (\<lambda>x. rg_base (rg x) < lim) xs = [] then l
           else Some (last (takeWhile (\<lambda>x. rg_base (rg x) < lim) xs)),
           front (dropWhile (\<lambda>x. rg_base (rg x) < lim) xs))"
  using assms
proof (induction xs arbitrary: p l)
  case Nil
  then show ?case by (simp add: slot_walk.simps)
next
  case (Cons x xs)
  then show ?case by (subst slot_walk.simps) auto
qed

text \<open>
  The walk over the gaps, started behind \<open>l\<close>: it stops at a region with enough room behind it,
  and no place before the end of that region has room.
\<close>

lemma gap_walk_spec:
  assumes "chain (asnexts rg) (asnexts rg l) zs" and "sorted_wrt before (map rg (l # zs))"
    and "\<And>x. x \<in> set (l # zs) \<Longrightarrow> rtop (rg x) + sz < 2 ^ 32"
    and "\<And>a. fits m rg (us @ l # zs) sz a \<Longrightarrow> rtop (rg l) \<le> a"
  shows "\<exists>vs l' ws found. gap_walk rg (asnexts rg l) sz l = Some (l', found) \<and> l # zs = vs @ l' # ws \<and>
     (\<forall>a. fits m rg (us @ l # zs) sz a \<longrightarrow> rtop (rg l') \<le> a) \<and>
     (if found then ws \<noteq> [] \<and> rtop (rg l') + sz \<le> rg_base (rg (hd ws)) else ws = [])"
  using assms
proof (induction zs arbitrary: l us)
  case Nil
  then show ?case by (intro exI [of _ "[]"] exI [of _ l] exI [of _ False]) (simp add: gap_walk.simps)
next
  case (Cons z zs)
  from Cons.prems(1) have n: "rg_aspace_next (rg l) = Some z" and c: "chain (asnexts rg) (asnexts rg z) zs" by auto
  have e: "u32_add (region_end (rg l)) sz = rtop (rg l) + sz"
    using Cons.prems(3) [of l] by (simp add: region_end_top)
  show ?case
  proof (cases "rtop (rg l) + sz \<le> rg_base (rg z)")
    case True
    with n e Cons.prems(4) show ?thesis
      by (intro exI [of _ "[]"] exI [of _ l] exI [of _ "z # zs"] exI [of _ True]) (simp add: gap_walk.simps)
  next
    case False
    have step: "gap_walk rg (asnexts rg l) sz l = gap_walk rg (asnexts rg z) sz z"
      using n e False by (subst gap_walk.simps) simp
    have "rtop (rg z) \<le> a" if f: "fits m rg (us @ l # z # zs) sz a" for a
    proof -
      from f have "a + sz \<le> rg_base (rg z) \<or> rtop (rg z) \<le> a" by (simp add: fits_def)
      with Cons.prems(4) [OF f] False show ?thesis by linarith
    qed
    then have "\<exists>vs l' ws found. gap_walk rg (asnexts rg z) sz z = Some (l', found) \<and> z # zs = vs @ l' # ws \<and>
        (\<forall>a. fits m rg ((us @ [l]) @ z # zs) sz a \<longrightarrow> rtop (rg l') \<le> a) \<and>
        (if found then ws \<noteq> [] \<and> rtop (rg l') + sz \<le> rg_base (rg (hd ws)) else ws = [])"
      using Cons.prems(2,3) c by (intro Cons.IH) auto
    then obtain vs l' ws found where i: "gap_walk rg (asnexts rg z) sz z = Some (l', found)" "z # zs = vs @ l' # ws"
      "\<forall>a. fits m rg (us @ l # z # zs) sz a \<longrightarrow> rtop (rg l') \<le> a"
      "if found then ws \<noteq> [] \<and> rtop (rg l') + sz \<le> rg_base (rg (hd ws)) else ws = []" by auto
    have "l # z # zs = (l # vs) @ l' # ws" using i(2) by simp
    with i(1,3,4) step show ?thesis by metis
  qed
qed

section \<open>Placing a region\<close>

lemma sorted_app_before:
  assumes "sorted_wrt before (map rg (ys @ zs))" and "y \<in> set ys" and "z \<in> set zs"
  shows "rtop (rg y) \<le> rg_base (rg z)"
  using assms by (auto simp: sorted_wrt_append before_def)

text \<open>Where a region may be linked: behind \<open>ys\<close>, in front of \<open>zs\<close>.\<close>

definition spot_ok :: "vm_virtual_map \<Rightarrow> regions \<Rightarrow> nat list \<Rightarrow> nat list \<Rightarrow> nat \<Rightarrow> nat \<Rightarrow> bool" where
  "spot_ok m rg ys zs sz nb \<longleftrightarrow>
     vm_base m \<le> nb \<and> nb + sz \<le> vm_base m + vm_size m \<and>
     (\<forall>y \<in> set ys. rtop (rg y) \<le> nb) \<and> (\<forall>z \<in> set zs. nb + sz \<le> rg_base (rg z))"

lemma spot_fits: "spot_ok m rg ys zs sz nb \<Longrightarrow> fits m rg (ys @ zs) sz nb"
  by (auto simp: spot_ok_def fits_def)

lemma ends_le:
  assumes "sorted_wrt before (map rg (us @ [l]))" and "\<And>x. x \<in> set us \<Longrightarrow> 0 < rg_size (rg x)" and "y \<in> set (us @ [l])"
  shows "rtop (rg y) \<le> rtop (rg l)"
  using assms by (auto simp: sorted_wrt_append before_def rtop_def)

lemma starts_ge:
  assumes "sorted_wrt before (map rg zs)" and "\<And>x. x \<in> set zs \<Longrightarrow> 0 < rg_size (rg x)" and "z \<in> set zs"
  shows "rg_base (rg (hd zs)) \<le> rg_base (rg z)"
  using assms by (cases zs) (auto simp: before_def rtop_def)

lemma any_spec:
  assumes ok: "map_ok m rg xs" and sz: "0 < sz" "sz \<le> vm_size m" and nowrap: "vm_base m + vm_size m + sz < 2 ^ 32"
  defines "ys \<equiv> takeWhile (\<lambda>x. rg_base (rg x) < vm_base m + sz) xs"
    and "zs \<equiv> dropWhile (\<lambda>x. rg_base (rg x) < vm_base m + sz) xs"
  shows "(\<exists>vs ws nb. place_any rg m sz (if ys = [] then None else Some (last ys)) (front zs) =
            Returns (Some (if vs = [] then None else Some (last vs), nb)) \<and> xs = vs @ ws \<and>
            spot_ok m rg vs ws sz nb \<and> (\<forall>a. fits m rg xs sz a \<longrightarrow> nb \<le> a)) \<or>
         (place_any rg m sz (if ys = [] then None else Some (last ys)) (front zs) = Returns None \<and>
            (\<forall>a. \<not> fits m rg xs sz a))"
proof -
  have xs: "xs = ys @ zs" by (simp add: ys_def zs_def)
  have ylim: "rg_base (rg y) < vm_base m + sz" if "y \<in> set ys" for y
    using that set_takeWhileD unfolding ys_def by metis
  have zlim: "zs \<noteq> [] \<Longrightarrow> vm_base m + sz \<le> rg_base (rg (hd zs))"
    using hd_dropWhile [of "\<lambda>x. rg_base (rg x) < vm_base m + sz" xs] by (auto simp: zs_def)
  note wn = map_okD(3) [OF ok] and st = map_okD(2) [OF ok]
  have pos: "0 < rg_size (rg x)" if "x \<in> set xs" for x using wn [OF that] by (simp add: within_def)
  have tp: "rtop (rg x) \<le> vm_base m + vm_size m" if "x \<in> set xs" for x using wn [OF that] by (simp add: within_def)
  show ?thesis
  proof (cases ys rule: rev_cases)
    case Nil
    have w: "u32_add (vm_base m) sz = vm_base m + sz" using sz nowrap by simp
    have "place_any rg m sz None (front zs) = Returns (Some (None, vm_base m))"
      using zlim w by (cases zs) (auto simp: place_any_def Let_def)
    moreover have "vm_base m + sz \<le> rg_base (rg z)" if "z \<in> set zs" for z
      using starts_ge [of rg zs z] zlim st pos that Nil xs by fastforce
    then have "spot_ok m rg [] xs sz (vm_base m)" using Nil xs sz by (simp add: spot_ok_def)
    ultimately show ?thesis using Nil
      by (intro disjI1 exI [of _ "[]"] exI [of _ xs] exI [of _ "vm_base m"]) (simp add: fits_def)
  next
    case (snoc us l)
    have c: "chain (asnexts rg) (asnexts rg l) zs"
      using map_okD(1) [OF ok] chain_split(2) xs snoc by fastforce
    have nx: "front zs = asnexts rg l" using chain_front [OF c] by simp
    have st': "sorted_wrt before (map rg (l # zs))" using st xs snoc by (simp add: sorted_wrt_append)
    have tsz: "rtop (rg x) + sz < 2 ^ 32" if "x \<in> set (l # zs)" for x
      using tp [of x] that xs snoc nowrap by auto
    have low: "rtop (rg l) \<le> a" if "fits m rg (us @ l # zs) sz a" for a
      using that ylim [of l] snoc by (auto simp: fits_def)
    obtain l' found vs ws where g: "gap_walk rg (asnexts rg l) sz l = Some (l', found)" "l # zs = vs @ l' # ws"
      "\<forall>a. fits m rg (us @ l # zs) sz a \<longrightarrow> rtop (rg l') \<le> a"
      "if found then ws \<noteq> [] \<and> rtop (rg l') + sz \<le> rg_base (rg (hd ws)) else ws = []"
      using gap_walk_spec [OF c st' tsz low] by blast
    have xs': "xs = (us @ vs @ [l']) @ ws" using xs snoc g(2) by simp
    have inl: "l' \<in> set (l # zs)" using g(2) by simp
    have e: "region_end (rg l') = rtop (rg l')" using tsz [OF inl] by (intro region_end_top) simp
    have lastc: "u32_add (region_end (rg l')) (u32_sub sz 1) \<le> map_last m \<longleftrightarrow> rtop (rg l') + sz \<le> vm_base m + vm_size m"
      using tsz [OF inl] sz map_okD(5-7) [OF ok] nowrap by (simp add: e map_last_eq) linarith
    have ys: "rtop (rg y) \<le> rtop (rg l')" if "y \<in> set (us @ vs @ [l'])" for y
      by (rule ends_le [of rg "us @ vs" l' y]) (use st pos that xs' in \<open>auto simp: sorted_wrt_append\<close>)
    have zs: "rg_base (rg (hd ws)) \<le> rg_base (rg z)" if "z \<in> set ws" for z
      by (rule starts_ge [of rg ws z]) (use st pos that xs' in \<open>auto simp: sorted_wrt_append\<close>)
    have wtop: "z \<in> set ws \<Longrightarrow> rg_base (rg z) \<le> vm_base m + vm_size m" for z
      using tp [of z] xs' by (simp add: rtop_def)
    have pl: "place_any rg m sz (if ys = [] then None else Some (last ys)) (front zs) =
        (if found \<or> rtop (rg l') + sz \<le> vm_base m + vm_size m then Returns (Some (Some l', rtop (rg l'))) else Returns None)"
      unfolding nx snoc by (simp add: place_any_def Let_def looped_def g(1) lastc [unfolded e One_nat_def] e)
    show ?thesis
    proof (cases "found \<or> rtop (rg l') + sz \<le> vm_base m + vm_size m")
      case True
      have "rtop (rg l') + sz \<le> vm_base m + vm_size m" using True g(4) wtop [of "hd ws"] by (auto split: if_splits)
      moreover have "\<forall>z \<in> set ws. rtop (rg l') + sz \<le> rg_base (rg z)" using g(4) zs by (fastforce split: if_splits)
      moreover have "vm_base m \<le> rtop (rg l')" using wn [of l'] xs' by (simp add: within_def rtop_def)
      ultimately have "spot_ok m rg (us @ vs @ [l']) ws sz (rtop (rg l'))" using ys by (simp add: spot_ok_def)
      moreover have "\<forall>a. fits m rg xs sz a \<longrightarrow> rtop (rg l') \<le> a" using g(3) xs snoc by simp
      ultimately show ?thesis using pl True xs'
        by (intro disjI1 exI [of _ "us @ vs @ [l']"] exI [of _ ws] exI [of _ "rtop (rg l')"]) simp
    next
      case False
      then have "\<not> fits m rg xs sz a" for a using g(3) xs snoc by (auto simp: fits_def)
      with pl False show ?thesis by simp
    qed
  qed
qed


lemma exact_spec:
  assumes ok: "map_ok m rg xs" and sz: "0 < sz" and b: "vm_base m \<le> start" "start + sz \<le> vm_base m + vm_size m"
    and nowrap: "vm_base m + vm_size m < 2 ^ 32"
  defines "ys \<equiv> takeWhile (\<lambda>x. rg_base (rg x) < start + sz) xs"
    and "zs \<equiv> dropWhile (\<lambda>x. rg_base (rg x) < start + sz) xs"
  shows "if fits m rg xs sz start
         then place_exact rg start sz (if ys = [] then None else Some (last ys)) (front zs) =
                Some (if ys = [] then None else Some (last ys), start) \<and> spot_ok m rg ys zs sz start
         else place_exact rg start sz (if ys = [] then None else Some (last ys)) (front zs) = None"
proof -
  have xs: "xs = ys @ zs" by (simp add: ys_def zs_def)
  have ylim: "rg_base (rg y) < start + sz" if "y \<in> set ys" for y
    using that set_takeWhileD unfolding ys_def by metis
  have zlim: "zs \<noteq> [] \<Longrightarrow> start + sz \<le> rg_base (rg (hd zs))"
    using hd_dropWhile [of "\<lambda>x. rg_base (rg x) < start + sz" xs] by (auto simp: zs_def)
  note wn = map_okD(3) [OF ok] and st = map_okD(2) [OF ok] and mb = map_okD(5) [OF ok]
  have pos: "0 < rg_size (rg x)" if "x \<in> set xs" for x using wn [OF that] by (simp add: within_def)
  have tp: "rtop (rg x) \<le> vm_base m + vm_size m" if "x \<in> set xs" for x using wn [OF that] by (simp add: within_def)
  have w: "u32_add start sz = start + sz" using b nowrap by simp
  have zs: "start + sz \<le> rg_base (rg z)" if "z \<in> set zs" for z
  proof -
    have "rg_base (rg (hd zs)) \<le> rg_base (rg z)"
      by (rule starts_ge) (use st pos that xs in \<open>auto simp: sorted_wrt_append\<close>)
    with zlim that show ?thesis by force
  qed
  show ?thesis
  proof (cases ys rule: rev_cases)
    case Nil
    then have f: "fits m rg xs sz start" using zs xs b by (auto simp: fits_def)
    have "place_exact rg start sz None (front zs) = Some (None, start)"
      using zlim w by (cases zs) (simp_all add: place_exact_def)
    with f Nil zs b show ?thesis by (simp add: spot_ok_def)
  next
    case (snoc us l)
    have l: "l \<in> set xs" using xs snoc by simp
    have e: "region_end (rg l) = rtop (rg l)" using tp [OF l] nowrap by (intro region_end_top) simp
    have e2: "u32_add (rg_base (rg l)) (u32_sub (rg_size (rg l)) 1) \<le> u32_sub start 1 \<longleftrightarrow> rtop (rg l) \<le> start"
      using tp [OF l] pos [OF l] nowrap mb b by (auto simp: rtop_def)
    have ends: "rtop (rg y) \<le> rtop (rg l)" if "y \<in> set ys" for y
      by (rule ends_le [of rg us]) (use st pos that xs snoc in \<open>auto simp: sorted_wrt_append\<close>)
    have f: "fits m rg xs sz start \<longleftrightarrow> rtop (rg l) \<le> start"
      using ylim [of l] ends zs xs snoc b by (fastforce simp: fits_def)
    have pl: "place_exact rg start sz (Some l) (front zs) = (if rtop (rg l) \<le> start then Some (Some l, start) else None)"
      using zlim w e2 by (cases zs) (simp_all add: place_exact_def e)
    show ?thesis
    proof (cases "rtop (rg l) \<le> start")
      case True
      then have "\<forall>y \<in> set ys. rtop (rg y) \<le> start" using ends by fastforce
      with True f pl snoc zs b show ?thesis by (simp add: spot_ok_def)
    next
      case False
      with f pl snoc show ?thesis by simp
    qed
  qed
qed

section \<open>Linking and unlinking\<close>

lemma link_region_fields:
  fixes region l nb sz m rg
  defines "s' \<equiv> link_region region l nb sz (m, rg)"
  assumes "l \<noteq> Some region"
  shows "vm_region_list (fst s') = (if l = None then Some region else vm_region_list m)"
    and "vm_region_hint (fst s') = vm_region_hint m" and "vm_base (fst s') = vm_base m" and "vm_size (fst s') = vm_size m"
    and "vm_change_count (fst s') = i32 (vm_change_count m + 1)"
    and "asnexts (snd s') = (case l of None \<Rightarrow> (asnexts rg)(region := vm_region_list m)
           | Some x \<Rightarrow> (asnexts rg)(region := asnexts rg x, x := Some region))"
    and "x \<noteq> region \<Longrightarrow> rg_base (snd s' x) = rg_base (rg x) \<and> rg_size (snd s' x) = rg_size (rg x)"
    and "rg_base (snd s' region) = nb \<and> rg_size (snd s' region) = sz"
  using assms(2) by (cases l; simp add: s'_def link_region_def fun_eq_iff)+

lemma chain_insert_after:
  assumes "chain nx p (vs @ ws)" and "r \<notin> set (vs @ ws)"
  shows "chain (if vs = [] then nx(r := p) else nx(r := nx (last vs), last vs := Some r))
           (if vs = [] then Some r else p) (vs @ r # ws)"
proof (cases vs rule: rev_cases)
  case Nil
  with assms show ?thesis by simp
next
  case (snoc us l)
  from assms snoc have d: "distinct (us @ [l] @ ws)" using chain_distinct by fastforce
  from assms(1) snoc have c: "lseg nx p us (Some l)" "chain nx (nx l) ws"
    by (auto simp: lseg_append)
  with d assms(2) snoc show ?thesis by (auto simp: lseg_append)
qed

lemma link_ok:
  assumes ok: "map_ok m rg (vs @ ws)" and r: "region \<notin> set (vs @ ws)" and sz: "0 < sz" and spot: "spot_ok m rg vs ws sz nb"
  defines "s' \<equiv> link_region region (if vs = [] then None else Some (last vs)) nb sz (m, rg)"
  shows "map_ok (fst s') (snd s') (vs @ region # ws)"
    and "rg_base (snd s' region) = nb" and "rg_size (snd s' region) = sz"
proof -
  have ne: "(if vs = [] then None else Some (last vs)) \<noteq> Some region"
    using r last_in_set [of vs] by (auto split: if_splits)
  note f = link_region_fields [where l = "if vs = [] then None else Some (last vs)" and region = region and nb = nb and sz = sz
      and m = m and rg = rg, OF ne, folded s'_def]
  have o: "rtop (snd s' x) = rtop (rg x)" "rg_base (snd s' x) = rg_base (rg x)" "rg_size (snd s' x) = rg_size (rg x)"
    if "x \<in> set (vs @ ws)" for x
  proof -
    have "x \<noteq> region" using that r by auto
    with f(7) show "rtop (snd s' x) = rtop (rg x)" "rg_base (snd s' x) = rg_base (rg x)" "rg_size (snd s' x) = rg_size (rg x)"
      by (simp_all add: rtop_def)
  qed
  show n: "rg_base (snd s' region) = nb" "rg_size (snd s' region) = sz" using f(8) by simp_all
  have t: "rtop (snd s' region) = nb + sz" using n by (simp add: rtop_def)
  have ch: "chain (asnexts (snd s')) (vm_region_list (fst s')) (vs @ region # ws)"
    using chain_insert_after [OF map_okD(1) [OF ok] r] unfolding f(1,6) by (cases "vs = []") simp_all
  have sw: "sorted_wrt before (map (snd s') us) \<longleftrightarrow> sorted_wrt before (map rg us)" if "set us \<subseteq> set (vs @ ws)" for us
    unfolding sorted_wrt_iff_nth_less using that o(1,2) [OF subsetD [OF that nth_mem]]
    by (simp add: before_def less_trans [of _ _ "length us"])
  have "sorted_wrt before (map (snd s') (vs @ region # ws))"
    using map_okD(2) [OF ok] spot sw [of vs] sw [of ws] by (auto simp: sorted_wrt_append before_def o t n spot_ok_def)
  moreover have "within (fst s') (snd s' x)" if "x \<in> set (vs @ region # ws)" for x
    using map_okD(3) [OF ok, of x] that spot sz f(3,4) by (cases "x = region") (auto simp: within_def o t n spot_ok_def)
  ultimately show "map_ok (fst s') (snd s') (vs @ region # ws)"
    using ch f(2-4) map_okD(4-7) [OF ok] by (auto simp: map_ok_def)
qed


text \<open>What the search answers, for both kinds of request.\<close>

definition slot_made :: "nat \<Rightarrow> nat \<Rightarrow> nat \<Rightarrow> nat list \<Rightarrow> vm_virtual_map \<times> regions \<Rightarrow> vm_virtual_map \<times> regions \<Rightarrow> bool" where
  "slot_made region nb sz xs s s' \<longleftrightarrow>
     (\<exists>vs ws. xs = vs @ ws \<and> s' = link_region region (if vs = [] then None else Some (last vs)) nb sz s \<and>
              map_ok (fst s') (snd s') (vs @ region # ws) \<and> rg_base (snd s' region) = nb \<and> rg_size (snd s' region) = sz)"

lemma slot_madeI:
  assumes "map_ok m rg (vs @ ws)" and "region \<notin> set (vs @ ws)" and "0 < sz" and "spot_ok m rg vs ws sz nb"
  shows "slot_made region nb sz (vs @ ws) (m, rg) (link_region region (if vs = [] then None else Some (last vs)) nb sz (m, rg))"
  using link_ok [OF assms] unfolding slot_made_def by blast

lemma any_address_spec:
  assumes ok: "map_ok m rg xs" and r: "region \<notin> set xs" and sz: "0 < sz" "sz < vm_size m"
    and nowrap: "vm_base m + vm_size m + sz < 2 ^ 32"
  shows "(\<exists>nb s'. find_and_insert_region_slot (vm_base m) sz (vm_base m + (vm_size m - 1)) REGION_ADDR_ANY_ADDRESS region (m, rg) =
            Returns (B_NO_ERROR, s') \<and> slot_made region nb sz xs (m, rg) s' \<and>
            fits m rg xs sz nb \<and> (\<forall>a. fits m rg xs sz a \<longrightarrow> nb \<le> a)) \<or>
         (find_and_insert_region_slot (vm_base m) sz (vm_base m + (vm_size m - 1)) REGION_ADDR_ANY_ADDRESS region (m, rg) =
            Returns (ERR_VM_NO_REGION_SLOT, (m, rg)) \<and> (\<forall>a. \<not> fits m rg xs sz a))"
proof -
  let ?ys = "takeWhile (\<lambda>x. rg_base (rg x) < vm_base m + sz) xs"
    and ?zs = "dropWhile (\<lambda>x. rg_base (rg x) < vm_base m + sz) xs"
  note d = map_okD [OF ok]
  have w: "u32_add (vm_base m) sz = vm_base m + sz" using sz nowrap by simp
  have chk: "\<not> (vm_base m < vm_base m \<or> sz = 0 \<or> map_last m < u32_sub (vm_base m + (vm_size m - 1)) 1 \<or>
      vm_base m + (vm_size m - 1) < u32_add (vm_base m) sz)"
    using sz d(5-7) w by (auto simp: map_last_eq)
  have find: "find_and_insert_region_slot (vm_base m) sz (vm_base m + (vm_size m - 1)) REGION_ADDR_ANY_ADDRESS region (m, rg) =
      obind (place_any rg m sz (if ?ys = [] then None else Some (last ?ys)) (front ?zs)) (\<lambda>spot.
        case spot of None \<Rightarrow> Returns (ERR_VM_NO_REGION_SLOT, (m, rg))
        | Some (l, nb) \<Rightarrow> Returns (B_NO_ERROR, link_region region l nb sz (m, rg)))"
    unfolding find_and_insert_region_slot_def Let_def split_conv if_not_P [OF chk]
    by (simp add: slot_walk_spec [OF d(1)] w looped_def REGION_ADDR_ANY_ADDRESS_def)
  show ?thesis
  proof (rule disjE [OF any_spec [OF ok sz(1) less_imp_le [OF sz(2)] nowrap]], goal_cases)
    case 1
    then obtain vs ws nb where p: "place_any rg m sz (if ?ys = [] then None else Some (last ?ys)) (front ?zs) =
        Returns (Some (if vs = [] then None else Some (last vs), nb))" "xs = vs @ ws"
      "spot_ok m rg vs ws sz nb" "\<forall>a. fits m rg xs sz a \<longrightarrow> nb \<le> a" by blast
    have "slot_made region nb sz xs (m, rg) (link_region region (if vs = [] then None else Some (last vs)) nb sz (m, rg))"
      using ok r sz p(3) unfolding p(2) by (intro slot_madeI) auto
    moreover have "fits m rg xs sz nb" unfolding p(2) using p(3) by (rule spot_fits)
    ultimately show ?case using p(1,4) unfolding find by (intro disjI1) auto
  next
    case 2
    then show ?case unfolding find by simp
  qed
qed

lemma exact_address_spec:
  assumes ok: "map_ok m rg xs" and r: "region \<notin> set xs" and sz: "0 < sz"
    and b: "vm_base m \<le> start" "start + sz \<le> vm_base m + vm_size m" and nowrap: "vm_base m + vm_size m < 2 ^ 32"
  shows "if fits m rg xs sz start
         then \<exists>s'. find_and_insert_region_slot start sz (start + sz) REGION_ADDR_EXACT_ADDRESS region (m, rg) =
                Returns (B_NO_ERROR, s') \<and> slot_made region start sz xs (m, rg) s'
         else find_and_insert_region_slot start sz (start + sz) REGION_ADDR_EXACT_ADDRESS region (m, rg) =
                Returns (ERR_VM_NO_REGION_SLOT, (m, rg))"
proof -
  let ?ys = "takeWhile (\<lambda>x. rg_base (rg x) < start + sz) xs" and ?zs = "dropWhile (\<lambda>x. rg_base (rg x) < start + sz) xs"
  note d = map_okD [OF ok]
  have xs: "xs = ?ys @ ?zs" by simp
  have w: "u32_add start sz = start + sz" using b nowrap by simp
  have chk: "\<not> (start < vm_base m \<or> sz = 0 \<or> map_last m < u32_sub (start + sz) 1 \<or> start + sz < u32_add start sz)"
    using sz d(5-7) w b by (auto simp: map_last_eq)
  have find: "find_and_insert_region_slot start sz (start + sz) REGION_ADDR_EXACT_ADDRESS region (m, rg) =
      (case place_exact rg start sz (if ?ys = [] then None else Some (last ?ys)) (front ?zs) of
         None \<Rightarrow> Returns (ERR_VM_NO_REGION_SLOT, (m, rg))
       | Some (l, nb) \<Rightarrow> Returns (B_NO_ERROR, link_region region l nb sz (m, rg)))"
    unfolding find_and_insert_region_slot_def Let_def split_conv if_not_P [OF chk]
    by (simp add: slot_walk_spec [OF d(1)] w looped_def REGION_ADDR_ANY_ADDRESS_def REGION_ADDR_EXACT_ADDRESS_def)
  note sp = exact_spec [OF ok sz b nowrap]
  show ?thesis
  proof (cases "fits m rg xs sz start")
    case True
    with sp have p: "place_exact rg start sz (if ?ys = [] then None else Some (last ?ys)) (front ?zs) =
        Some (if ?ys = [] then None else Some (last ?ys), start)" "spot_ok m rg ?ys ?zs sz start" by simp_all
    have "slot_made region start sz (?ys @ ?zs) (m, rg)
        (link_region region (if ?ys = [] then None else Some (last ?ys)) start sz (m, rg))"
      using ok r sz p(2) by (intro slot_madeI) auto
    with True p(1) show ?thesis unfolding find by simp
  next
    case False
    with sp show ?thesis unfolding find by simp
  qed
qed

section \<open>Looking up and unlinking\<close>

lemma region_walk_spec:
  assumes "chain (asnexts rg) p xs"
  shows "region_walk P rg p = Some (find (\<lambda>x. P (rg x)) xs)"
  using assms
proof (induction xs arbitrary: p)
  case Nil
  then show ?case by (simp add: region_walk.simps)
next
  case (Cons x xs)
  then show ?case by (subst region_walk.simps) auto
qed

lemma regions_disjoint:
  assumes ok: "map_ok m rg xs" and x: "x \<in> set xs" "y \<in> set xs"
    and a: "rg_base (rg x) \<le> a" "a < rtop (rg x)" "rg_base (rg y) \<le> a" "a < rtop (rg y)"
  shows "x = y"
proof (rule ccontr)
  assume ne: "x \<noteq> y"
  from x obtain i j where ij: "i < length xs" "x = xs ! i" "j < length xs" "y = xs ! j" by (auto simp: in_set_conv_nth)
  with ne have "i \<noteq> j" by auto
  then consider "i < j" | "j < i" by linarith
  then show False
  proof cases
    case 1
    with map_okD(2) [OF ok] ij have "rtop (rg x) \<le> rg_base (rg y)" by (auto simp: sorted_wrt_iff_nth_less before_def)
    with a show False by simp
  next
    case 2
    with map_okD(2) [OF ok] ij have "rtop (rg y) \<le> rg_base (rg x)" by (auto simp: sorted_wrt_iff_nth_less before_def)
    with a show False by simp
  qed
qed

definition holder :: "regions \<Rightarrow> nat list \<Rightarrow> nat \<Rightarrow> nat ptr" where
  "holder rg xs a = find (\<lambda>x. rg_base (rg x) \<le> a \<and> a < rtop (rg x)) xs"

lemma lookup_spec:
  assumes ok: "map_ok m rg xs" and nowrap: "vm_base m + vm_size m < 2 ^ 32"
  shows "\<exists>m'. vm_virtual_map_lookup rg a m = Returns (holder rg xs a, m') \<and> map_ok m' rg xs \<and>
           m' = m\<lparr>vm_region_hint := vm_region_hint m'\<rparr>"
proof -
  have cov: "covers (rg x) a \<longleftrightarrow> rg_base (rg x) \<le> a \<and> a < rtop (rg x)" if "x \<in> set xs" for x
    using map_okD(3) [OF ok that] nowrap by (simp add: covers_def region_end_top within_def)
  have fnd: "find (\<lambda>x. covers (rg x) a) xs = holder rg xs a"
    unfolding holder_def by (rule find_cong [OF refl]) (simp add: cov)
  have walk: "looped (region_walk (\<lambda>r. covers r a) rg (vm_region_list m)) = Returns (holder rg xs a)"
    by (simp add: region_walk_spec [OF map_okD(1) [OF ok]] looped_def fnd)
  have hint: "map_ok (m\<lparr>vm_region_hint := Some x\<rparr>) rg xs" if "holder rg xs a = Some x" for x
    using ok that by (auto simp: map_ok_def holder_def find_Some_iff within_def)
  have w: "\<exists>m'. obind (Returns (holder rg xs a)) (\<lambda>r. case r of None \<Rightarrow> Returns (None, m)
      | Some x \<Rightarrow> Returns (Some x, m\<lparr>vm_region_hint := Some x\<rparr>)) = Returns (holder rg xs a, m') \<and> map_ok m' rg xs \<and>
      m' = m\<lparr>vm_region_hint := vm_region_hint m'\<rparr>"
    using ok hint by (cases "holder rg xs a") auto
  show ?thesis
  proof (cases "vm_region_hint m")
    case None
    with w walk show ?thesis by (simp add: vm_virtual_map_lookup_def Let_def)
  next
    case (Some h)
    then have h: "h \<in> set xs" using map_okD(4) [OF ok] by blast
    show ?thesis
    proof (cases "covers (rg h) a")
      case True
      then have c: "rg_base (rg h) \<le> a" "a < rtop (rg h)" using cov [OF h] by simp_all
      have "holder rg xs a = Some h"
        unfolding holder_def using h c regions_disjoint [OF ok _ h] by (intro find_unique) auto
      with True Some ok show ?thesis by (simp add: vm_virtual_map_lookup_def)
    next
      case False
      with w walk Some show ?thesis by (simp add: vm_virtual_map_lookup_def Let_def)
    qed
  qed
qed


lemma unlink_loop_spec:
  assumes "chain (asnexts rg) p (vs @ region # ws)" and "region \<notin> set vs"
  shows "unlink_loop region l p (m, rg) =
     (let m1 = m\<lparr>vm_change_count := i32 (vm_change_count m + 1)\<rparr>
      in case (if vs = [] then l else Some (last vs)) of
           Some x \<Rightarrow> Some (True, (m1, rg(x := (rg x)\<lparr>rg_aspace_next := rg_aspace_next (rg region)\<rparr>)))
         | None \<Rightarrow> Some (True, (m1\<lparr>vm_region_list := rg_aspace_next (rg region)\<rparr>, rg)))"
  using assms
proof (induction vs arbitrary: p l)
  case Nil
  then show ?case by (subst unlink_loop.simps) (auto simp: Let_def split: option.split)
next
  case (Cons v vs)
  then have "p = Some v" "v \<noteq> region" "chain (asnexts rg) (rg_aspace_next (rg v)) (vs @ region # ws)" by auto
  with Cons.IH [of "rg_aspace_next (rg v)" "Some v"] Cons.prems show ?case
    by (subst unlink_loop.simps) (simp add: Let_def)
qed

text \<open>A region leaves the map; the structures of the others keep everything but their links.\<close>

definition same_regions :: "nat set \<Rightarrow> regions \<Rightarrow> regions \<Rightarrow> bool" where
  "same_regions A rg rg' \<longleftrightarrow>
     (\<forall>x \<in> A. (rg' x)\<lparr>rg_aspace_next := None\<rparr> = (rg x)\<lparr>rg_aspace_next := None\<rparr>)"

lemma same_regionsD:
  assumes "same_regions A rg rg'" and "x \<in> A"
  shows "rg_base (rg' x) = rg_base (rg x)" and "rg_size (rg' x) = rg_size (rg x)" and "rg_id (rg' x) = rg_id (rg x)"
    and "rtop (rg' x) = rtop (rg x)"
proof -
  have e: "(rg' x)\<lparr>rg_aspace_next := None\<rparr> = (rg x)\<lparr>rg_aspace_next := None\<rparr>" using assms by (simp add: same_regions_def)
  show b: "rg_base (rg' x) = rg_base (rg x)" using arg_cong [OF e, of rg_base] by simp
  show z: "rg_size (rg' x) = rg_size (rg x)" using arg_cong [OF e, of rg_size] by simp
  show "rg_id (rg' x) = rg_id (rg x)" using arg_cong [OF e, of rg_id] by simp
  show "rtop (rg' x) = rtop (rg x)" using b z by (simp add: rtop_def)
qed

lemma map_ok_sub:
  assumes ok: "map_ok m rg (vs @ region # ws)" and same: "same_regions (set (vs @ ws)) rg rg'"
    and ch: "chain (asnexts rg') (vm_region_list m') (vs @ ws)"
    and m: "vm_base m' = vm_base m" "vm_size m' = vm_size m"
    and h: "\<And>h. vm_region_hint m' = Some h \<Longrightarrow> vm_region_hint m = Some h \<and> h \<noteq> region"
  shows "map_ok m' rg' (vs @ ws)"
proof -
  note o = same_regionsD [OF same]
  have "sorted_wrt before (map rg (vs @ ws))" using map_okD(2) [OF ok] by (simp add: sorted_wrt_append)
  then have "sorted_wrt before (map rg' (vs @ ws))"
    unfolding sorted_wrt_iff_nth_less length_map using o(1,4) [OF nth_mem]
    by (simp add: before_def less_trans [of _ _ "length (vs @ ws)"] del: map_append)
  moreover have "within m' (rg' x)" if "x \<in> set (vs @ ws)" for x
    using map_okD(3) [OF ok, of x] that m o [OF that] by (auto simp: within_def)
  moreover have "h \<in> set (vs @ ws)" if "vm_region_hint m' = Some h" for h
    using h [OF that] map_okD(4) [OF ok, of h] by auto
  ultimately show ?thesis using ch m map_okD(5-7) [OF ok] by (simp add: map_ok_def)
qed

lemma unlink_spec:
  assumes ok: "map_ok m rg (vs @ region # ws)"
  shows "\<exists>m' rg'. unlink_region region (m, rg) = Returns (m', rg') \<and> map_ok m' rg' (vs @ ws) \<and>
    same_regions UNIV rg rg' \<and> rg' region = rg region \<and> vm_base m' = vm_base m \<and> vm_size m' = vm_size m \<and>
    vm_change_count m' = i32 (vm_change_count m + 1) \<and>
    vm_region_hint m' = (if vm_region_hint m = Some region then None else vm_region_hint m)"
proof -
  note c = map_okD(1) [OF ok]
  have d: "distinct (vs @ region # ws)" using c by (rule chain_distinct)
  then have nr: "region \<notin> set vs" by simp
  let ?h = "\<lambda>m. if vm_region_hint m = Some region then m\<lparr>vm_region_hint := None\<rparr> else m"
  let ?m1 = "m\<lparr>vm_change_count := i32 (vm_change_count m + 1)\<rparr>"
  note loop = unlink_loop_spec [OF c nr, of None m]
  show ?thesis
  proof (cases vs rule: rev_cases)
    case Nil
    let ?m2 = "?h (?m1\<lparr>vm_region_list := rg_aspace_next (rg region)\<rparr>)"
    have "unlink_region region (m, rg) = Returns (?m2, rg)"
      using loop Nil by (simp add: unlink_region_def looped_def Let_def)
    moreover have s: "same_regions UNIV rg rg" by (simp add: same_regions_def)
    moreover have "map_ok ?m2 rg (vs @ ws)"
      using c Nil by (intro map_ok_sub [OF ok]) (auto simp: same_regions_def split: if_splits)
    ultimately show ?thesis by (intro exI [of _ ?m2] exI [of _ rg]) auto
  next
    case (snoc us l)
    let ?rg = "rg(l := (rg l)\<lparr>rg_aspace_next := rg_aspace_next (rg region)\<rparr>)"
    have "unlink_region region (m, rg) = Returns (?h ?m1, ?rg)"
      using loop snoc by (simp add: unlink_region_def looped_def Let_def)
    moreover have s: "same_regions UNIV rg ?rg" by (simp add: same_regions_def)
    moreover have "asnexts ?rg = (asnexts rg)(l := asnexts rg region)" by auto
    then have ch: "chain (asnexts ?rg) (vm_region_list m) (vs @ ws)"
      using chain_unlink [of "asnexts rg" "vm_region_list m" us l region ws] c snoc by simp
    moreover have "map_ok (?h ?m1) ?rg (vs @ ws)"
      by (rule map_ok_sub [OF ok]) (use ch in \<open>auto simp: same_regions_def split: if_splits\<close>)
    moreover have "l \<noteq> region" using nr snoc by auto
    ultimately show ?thesis by (intro exI [of _ "?h ?m1"] exI [of _ ?rg]) auto
  qed
qed

lemma address_loop_spec:
  assumes "chain (asnexts rg) p xs"
  shows "address_loop rg a p r =
     Some (case filter (\<lambda>x. rg_base (rg x) \<le> a \<and> a \<le> region_end (rg x)) xs of
             [] \<Rightarrow> r | y # ys \<Rightarrow> rg_id (rg (last (y # ys))))"
  using assms
proof (induction xs arbitrary: p r)
  case Nil
  then show ?case by (simp add: address_loop.simps)
next
  case (Cons x xs)
  then show ?case by (subst address_loop.simps) (auto split: list.split)
qed


section \<open>Properties\<close>

text \<open>
  (C30) A place for a region at any address, asked for as \<open>map_backing_store\<close> does,
  between the base and the last address of the map. An empty request and one for the whole map
  or more are refused with \<open>ERR_VM_BAD_ADDRESS\<close> (the whole of an empty map would fit). Any other
  gets the lowest address of the map where the size fits between the regions, is linked there
  in address order, and the map stays sorted, disjoint and within its bounds; it gets
  \<open>ERR_VM_NO_REGION_SLOT\<close> exactly when the size fits nowhere. A refused request changes nothing.
  The end of the map plus the size must stay below \<open>2 ^ 32\<close>: this holds for every request below
  the size of a user address space, which ends below \<open>0x80000000\<close>, and for none in the kernel's,
  which ends at \<open>2 ^ 32\<close> and where the sums of the search wrap.
\<close>

theorem region_slot_any_correct:
  assumes "map_ok m rg xs" and "region \<notin> set xs" and "vm_base m + vm_size m + sz < 2 ^ 32"
  shows "if sz = 0 \<or> vm_size m \<le> sz
         then find_and_insert_region_slot (vm_base m) sz (vm_base m + (vm_size m - 1)) REGION_ADDR_ANY_ADDRESS region (m, rg) =
                Returns (ERR_VM_BAD_ADDRESS, (m, rg))
         else if \<exists>a. fits m rg xs sz a
         then \<exists>nb s'. find_and_insert_region_slot (vm_base m) sz (vm_base m + (vm_size m - 1)) REGION_ADDR_ANY_ADDRESS region (m, rg) =
                Returns (B_NO_ERROR, s') \<and> slot_made region nb sz xs (m, rg) s' \<and>
                nb = (LEAST a. fits m rg xs sz a)
         else find_and_insert_region_slot (vm_base m) sz (vm_base m + (vm_size m - 1)) REGION_ADDR_ANY_ADDRESS region (m, rg) =
                Returns (ERR_VM_NO_REGION_SLOT, (m, rg))"
proof (cases "sz = 0 \<or> vm_size m \<le> sz")
  case True
  have "u32_add (vm_base m) sz = vm_base m + sz" using assms(3) by (simp add: u32_add_def)
  with True map_okD(6) [OF assms(1)] show ?thesis by (auto simp: find_and_insert_region_slot_def)
next
  case False
  then have sz: "0 < sz" "sz < vm_size m" by simp_all
  show ?thesis
  proof (rule disjE [OF any_address_spec [OF assms(1,2) sz assms(3)]], goal_cases)
    case 1
    then obtain nb s' where f: "fits m rg xs sz nb" "\<forall>a. fits m rg xs sz a \<longrightarrow> nb \<le> a"
      and r: "find_and_insert_region_slot (vm_base m) sz (vm_base m + (vm_size m - 1)) REGION_ADDR_ANY_ADDRESS region (m, rg) =
        Returns (B_NO_ERROR, s')" "slot_made region nb sz xs (m, rg) s'" by blast
    from f have "(LEAST a. fits m rg xs sz a) = nb" by (intro Least_equality) auto
    with f(1) r False show ?case by auto
  next
    case 2
    with False show ?case by auto
  qed
qed

text \<open>The map of a process as \<open>thread.c\<close> creates it, with its stack region at the usual place.\<close>

definition demo_region :: vm_region where
  "demo_region = \<lparr>rg_name = [], rg_id = 0, rg_base = 0x70000000, rg_size = 0x1000, rg_lock = 1, rg_wiring = 0,
     rg_ref_count = 1, rg_cache_ref = None, rg_cache_offset = 0, rg_aspace = 0, rg_aspace_next = None,
     rg_cache_next = None, rg_cache_prev = None\<rparr>"

definition demo_regions :: regions where
  "demo_regions i = demo_region"

definition demo_map :: vm_virtual_map where
  "demo_map = \<lparr>vm_region_list = Some 7, vm_region_hint = None, vm_change_count = 1, vm_base = 0x100000, vm_size = 0x7fef0000\<rparr>"

lemma demo_map_ok: "map_ok demo_map demo_regions [7]"
  by (simp add: map_ok_def demo_map_def demo_regions_def demo_region_def within_def rtop_def)

lemma demo_map_fields: "vm_base demo_map = 0x100000" "vm_size demo_map = 0x7fef0000"
  by (simp_all add: demo_map_def)

theorem region_slot_any_correct_witness:
  "\<exists>nb s'. find_and_insert_region_slot 0x100000 0x2000 0x7ffeffff REGION_ADDR_ANY_ADDRESS 9 (demo_map, demo_regions) =
     Returns (B_NO_ERROR, s') \<and> slot_made 9 nb 0x2000 [7] (demo_map, demo_regions) s' \<and>
     nb = (LEAST a. fits demo_map demo_regions [7] 0x2000 a)"
proof -
  have "fits demo_map demo_regions [7] 0x2000 0x100000"
    by (simp add: fits_def demo_map_def demo_regions_def demo_region_def rtop_def)
  then have e: "\<exists>a. fits demo_map demo_regions [7] 0x2000 a" by (rule exI)
  have n: "\<not> (0x2000 = (0::nat) \<or> 0x7fef0000 \<le> (0x2000 :: nat))" by simp
  note r = region_slot_any_correct [OF demo_map_ok, of 9 "0x2000", unfolded demo_map_fields if_not_P [OF n] if_P [OF e]]
  then show ?thesis by simp
qed

text \<open>
  A place at a given address: when the range lies in the map, the request succeeds exactly
  when no region overlaps it, and the region is linked in address order at that address.
\<close>

theorem region_slot_exact_correct:
  assumes "map_ok m rg xs" and "region \<notin> set xs" and "0 < sz"
    and "vm_base m \<le> start" and "start + sz \<le> vm_base m + vm_size m" and "vm_base m + vm_size m < 2 ^ 32"
  shows "if fits m rg xs sz start
         then \<exists>s'. find_and_insert_region_slot start sz (start + sz) REGION_ADDR_EXACT_ADDRESS region (m, rg) =
                Returns (B_NO_ERROR, s') \<and> slot_made region start sz xs (m, rg) s'
         else find_and_insert_region_slot start sz (start + sz) REGION_ADDR_EXACT_ADDRESS region (m, rg) =
                Returns (ERR_VM_NO_REGION_SLOT, (m, rg))"
  using assms by (rule exact_address_spec)

theorem region_slot_exact_correct_witness:
  "\<not> fits demo_map demo_regions [7] 0x2000 0x6ffff000 \<and>
   find_and_insert_region_slot 0x6ffff000 0x2000 0x70001000 REGION_ADDR_EXACT_ADDRESS 9 (demo_map, demo_regions) =
     Returns (ERR_VM_NO_REGION_SLOT, (demo_map, demo_regions))"
proof -
  have n: "\<not> fits demo_map demo_regions [7] 0x2000 0x6ffff000"
    by (simp add: fits_def demo_map_def demo_regions_def demo_region_def rtop_def)
  with region_slot_exact_correct [OF demo_map_ok, of 9 "0x2000" "0x6ffff000"] show ?thesis
    by (simp add: demo_map_fields)
qed

text \<open>
  \<open>vm_virtual_map_lookup\<close>: the answer is the one region that holds the address, with or
  without the help of the hint, and \<open>NULL\<close> when no region does; only the hint may change, to a
  region of the map.
\<close>

theorem vm_virtual_map_lookup_correct:
  assumes "map_ok m rg xs" and "vm_base m + vm_size m < 2 ^ 32"
  shows "\<exists>r m'. vm_virtual_map_lookup rg a m = Returns (r, m') \<and> map_ok m' rg xs \<and>
           m' = m\<lparr>vm_region_hint := vm_region_hint m'\<rparr> \<and>
           (\<forall>x. r = Some x \<longleftrightarrow> x \<in> set xs \<and> rg_base (rg x) \<le> a \<and> a < rtop (rg x))"
proof -
  obtain m' where l: "vm_virtual_map_lookup rg a m = Returns (holder rg xs a, m')" "map_ok m' rg xs"
    "m' = m\<lparr>vm_region_hint := vm_region_hint m'\<rparr>" using lookup_spec [OF assms] by blast
  have "holder rg xs a = Some x \<longleftrightarrow> x \<in> set xs \<and> rg_base (rg x) \<le> a \<and> a < rtop (rg x)" for x
  proof
    assume "holder rg xs a = Some x"
    then show "x \<in> set xs \<and> rg_base (rg x) \<le> a \<and> a < rtop (rg x)"
      unfolding holder_def find_Some_iff by auto
  next
    assume x: "x \<in> set xs \<and> rg_base (rg x) \<le> a \<and> a < rtop (rg x)"
    then show "holder rg xs a = Some x"
      unfolding holder_def using regions_disjoint [OF assms(1)] by (intro find_unique) auto
  qed
  with l show ?thesis by blast
qed

theorem vm_virtual_map_lookup_correct_witness:
  "\<exists>r m'. vm_virtual_map_lookup demo_regions 0x70000fff demo_map = Returns (r, m') \<and> map_ok m' demo_regions [7] \<and>
     m' = demo_map\<lparr>vm_region_hint := vm_region_hint m'\<rparr> \<and> (\<forall>x. r = Some x \<longleftrightarrow> x = 7)"
  using vm_virtual_map_lookup_correct [OF demo_map_ok, of "0x70000fff"]
  by (simp add: demo_map_fields demo_regions_def demo_region_def rtop_def)

lemma i32_twice: "i32 (i32 (x + 1) + 1) = i32 (x + 2)"
  using mod_add_left_eq [of "x + 1 + 2 ^ 31" "2 ^ 32" 1] by (simp add: i32_def ac_simps)

text \<open>
  (C31) A region that was placed can be taken out again, whatever lookups came in between: these
  change nothing but the hint, which may now be \<open>NULL\<close> or any region of the map, the new one
  included. Unlinking gives back a map with the same regions in the same order at the same
  addresses; the hint is \<open>NULL\<close> when it was the region that left and the same as before
  otherwise, and the change count went up by two.
\<close>

theorem region_slot_unlink_roundtrip:
  assumes "map_ok m rg xs" and "region \<notin> set xs" and "slot_made region nb sz xs (m, rg) (m1, rg1)"
    and "\<forall>x. h = Some x \<longrightarrow> x \<in> insert region (set xs)"
  shows "\<exists>m2 rg2. unlink_region region (m1\<lparr>vm_region_hint := h\<rparr>, rg1) = Returns (m2, rg2) \<and> map_ok m2 rg2 xs \<and>
           (\<forall>x \<in> set xs. rg_base (rg2 x) = rg_base (rg x) \<and> rg_size (rg2 x) = rg_size (rg x)) \<and>
           vm_region_hint m2 = (if h = Some region then None else h) \<and> vm_base m2 = vm_base m \<and> vm_size m2 = vm_size m \<and>
           vm_change_count m2 = i32 (vm_change_count m + 2)"
proof -
  obtain vs ws where s': "xs = vs @ ws" "(m1, rg1) = link_region region (if vs = [] then None else Some (last vs)) nb sz (m, rg)"
    "map_ok m1 rg1 (vs @ region # ws)" using assms(3) by (auto simp: slot_made_def)
  have ok: "map_ok (m1\<lparr>vm_region_hint := h\<rparr>) rg1 (vs @ region # ws)"
    using s'(1,3) assms(4) by (auto simp: map_ok_def within_def)
  from unlink_spec [OF ok] obtain m2 rg2 where u: "unlink_region region (m1\<lparr>vm_region_hint := h\<rparr>, rg1) = Returns (m2, rg2)"
    "map_ok m2 rg2 xs" "same_regions UNIV rg1 rg2" "vm_base m2 = vm_base m1" "vm_size m2 = vm_size m1"
    "vm_change_count m2 = i32 (vm_change_count m1 + 1)" "vm_region_hint m2 = (if h = Some region then None else h)"
    using s'(1) by auto
  have ne: "(if vs = [] then None else Some (last vs)) \<noteq> Some region"
    using assms(2) s'(1) last_in_set [of vs] by (auto split: if_splits)
  note f = link_region_fields [OF ne, where nb = nb and sz = sz and m = m and rg = rg, folded s'(2), unfolded fst_conv snd_conv]
  have "rg_base (rg2 x) = rg_base (rg x) \<and> rg_size (rg2 x) = rg_size (rg x)" if "x \<in> set xs" for x
  proof -
    from that assms(2) have "x \<noteq> region" by auto
    with f(7) [of x] same_regionsD [OF u(3), of x] show ?thesis by simp
  qed
  moreover have "vm_change_count m2 = i32 (vm_change_count m + 2)" using u(6) f(5) by (simp add: i32_twice)
  ultimately show ?thesis using u(1-2,4,5,7) f(3,4) by (intro exI [of _ m2] exI [of _ rg2]) simp
qed

theorem region_slot_unlink_roundtrip_witness:
  "\<exists>m1 rg1 m2 rg2 m3 rg3. slot_made 9 0x71000000 0x2000 [7] (demo_map, demo_regions) (m1, rg1) \<and>
     vm_virtual_map_lookup rg1 0x71000010 m1 = Returns (Some 9, m2) \<and> vm_region_hint m2 = Some 9 \<and>
     unlink_region 9 (m2, rg1) = Returns (m3, rg3) \<and> map_ok m3 rg3 [7] \<and> vm_region_hint m3 = None"
proof -
  have sp: "spot_ok demo_map demo_regions [7] [] 0x2000 0x71000000"
    by (simp add: spot_ok_def demo_map_def demo_regions_def demo_region_def rtop_def)
  obtain m1 rg1 where l: "link_region 9 (Some 7) 0x71000000 0x2000 (demo_map, demo_regions) = (m1, rg1)"
    by (cases "link_region 9 (Some 7) 0x71000000 0x2000 (demo_map, demo_regions)")
  have m: "slot_made 9 0x71000000 0x2000 [7] (demo_map, demo_regions) (m1, rg1)"
    using slot_madeI [OF _ _ _ sp, of 9] demo_map_ok by (simp add: l)
  have n: "(Some 7 :: nat ptr) \<noteq> Some 9" by simp
  note f = link_region_fields [OF n, where nb = "0x71000000" and sz = "0x2000" and m = demo_map and rg = demo_regions, unfolded l fst_conv snd_conv]
  have walk: "region_walk (\<lambda>r. covers r 0x71000010) rg1 (vm_region_list m1) = Some (Some 9)"
  proof -
    have "vm_region_list m1 = Some 7" using f(1) by (simp add: demo_map_def)
    moreover have "rg_aspace_next (rg1 7) = Some 9" using fun_cong [OF f(6), of 7] by simp
    moreover have "\<not> covers (rg1 7) 0x71000010" using f(7) [of 7]
      by (simp add: covers_def region_end_def u32_add_def demo_regions_def demo_region_def)
    moreover have "covers (rg1 9) 0x71000010" using f(8) by (simp add: covers_def region_end_def u32_add_def)
    ultimately show ?thesis by (simp add: region_walk.simps)
  qed
  let ?m2 = "m1\<lparr>vm_region_hint := Some 9\<rparr>"
  have look: "vm_virtual_map_lookup rg1 0x71000010 m1 = Returns (Some 9, ?m2)"
    using walk f(2) by (simp add: vm_virtual_map_lookup_def looped_def demo_map_def)
  have "9 \<notin> set [7 :: nat]" "\<forall>x. Some (9::nat) = Some x \<longrightarrow> x \<in> insert 9 (set [7])" by simp_all
  from region_slot_unlink_roundtrip [OF demo_map_ok this(1) m this(2)] obtain m3 rg3 where
    "unlink_region 9 (?m2, rg1) = Returns (m3, rg3)" "map_ok m3 rg3 [7]" "vm_region_hint m3 = None" by auto
  with m look show ?thesis by (intro exI [of _ m1] exI [of _ rg1] exI [of _ ?m2] exI [of _ m3] exI [of _ rg3]) simp
qed

lemma wrapped_region_spec:
  assumes "map_ok m rg xs" and "region \<notin> set xs" and "vm_base m \<le> start" and "start < 2 ^ 32" and "sz < 2 ^ 32"
    and "start + sz = 2 ^ 32 + w" and "0 < w" and "w \<le> vm_base m"
  shows "find_and_insert_region_slot start sz w REGION_ADDR_EXACT_ADDRESS region (m, rg) =
           Returns (B_NO_ERROR, link_region region None start sz (m, rg))"
    and "\<not> map_ok (fst (link_region region None start sz (m, rg)))
             (snd (link_region region None start sz (m, rg))) (region # xs)"
proof -
  note d = map_okD [OF assms(1)]
  have w: "u32_add start sz = w" using assms(4-8) d(7) by (simp add: u32_add_def)
  have "takeWhile (\<lambda>x. rg_base (rg x) < w) xs = []" "dropWhile (\<lambda>x. rg_base (rg x) < w) xs = xs"
    using d(3) assms(8) by (cases xs; force simp: within_def)+
  then have walk: "slot_walk rg w None (vm_region_list m) = Some (None, front xs)"
    by (simp add: slot_walk_spec [OF d(1)])
  have pl: "place_exact rg start sz None (front xs) = Some (None, start)"
  proof (cases xs)
    case (Cons x ys)
    with d(3) [of x] assms(8) w show ?thesis by (simp add: place_exact_def within_def)
  qed (simp add: place_exact_def)
  have chk: "\<not> (start < vm_base m \<or> sz = 0 \<or> map_last m < u32_sub w 1 \<or> w < u32_add start sz)"
    using assms d(5-7) w by (auto simp: map_last_eq)
  show "find_and_insert_region_slot start sz w REGION_ADDR_EXACT_ADDRESS region (m, rg) =
      Returns (B_NO_ERROR, link_region region None start sz (m, rg))"
    unfolding find_and_insert_region_slot_def Let_def split_conv if_not_P [OF chk]
    by (simp add: w walk looped_def pl REGION_ADDR_ANY_ADDRESS_def REGION_ADDR_EXACT_ADDRESS_def)
  have "rg_base (snd (link_region region None start sz (m, rg)) region) = start"
    "rg_size (snd (link_region region None start sz (m, rg)) region) = sz"
    "vm_base (fst (link_region region None start sz (m, rg))) = vm_base m"
    "vm_size (fst (link_region region None start sz (m, rg))) = vm_size m"
    using link_region_fields [where l = None and region = region and nb = start and sz = sz and m = m and rg = rg] by simp_all
  then show "\<not> map_ok (fst (link_region region None start sz (m, rg)))
      (snd (link_region region None start sz (m, rg))) (region # xs)"
    using assms(6,7) d(7) by (auto simp: map_ok_def within_def rtop_def)
qed

text \<open>
  The bounds check works on sums that wrap: a request for an exact address whose end wraps
  around to a place below the map is accepted whatever regions it covers, and the region is put
  in front of the list, so the map is not sorted any more.
\<close>

theorem wrapped_region_accepted:
  assumes "map_ok m rg xs" and "region \<notin> set xs" and "vm_base m \<le> start" and "start < 2 ^ 32" and "sz < 2 ^ 32"
    and "start + sz = 2 ^ 32 + w" and "0 < w" and "w \<le> vm_base m"
  shows "find_and_insert_region_slot start sz w REGION_ADDR_EXACT_ADDRESS region (m, rg) =
           Returns (B_NO_ERROR, link_region region None start sz (m, rg)) \<and>
         \<not> map_ok (fst (link_region region None start sz (m, rg)))
             (snd (link_region region None start sz (m, rg))) (region # xs)"
  using wrapped_region_spec [OF assms] by blast

theorem wrapped_region_accepted_witness:
  "find_and_insert_region_slot 0x60000000 0xa0001000 0x1000 REGION_ADDR_EXACT_ADDRESS 9 (demo_map, demo_regions) =
     Returns (B_NO_ERROR, link_region 9 None 0x60000000 0xa0001000 (demo_map, demo_regions))"
  using wrapped_region_accepted [OF demo_map_ok, of 9 "0x60000000" "0xa0001000" "0x1000"]
  by (simp add: demo_map_fields)

end
