(* ===== verification/Rootfs.thy ===== *)
theory Rootfs
  imports Khash Usermem
begin

text \<open>
  The root file system, \<open>fs/rootfs.c\<close>: a tree of directories in memory, the only kind of node
  it has. The children of a directory are a list linked through \<open>dir_next\<close>, all nodes are in
  a hash table by id, and an open directory has a cookie that points to the entry the next read
  returns. The routines that call back into the VFS layer, \<open>rootfs_lookup\<close> and
  \<open>rootfs_unlink\<close>, are in \<open>Vfs\<close>.
\<close>

section \<open>Data\<close>

text \<open>
  Names are strings without their terminating zero; \<open>rn_room\<close> is the size of the block that
  holds the name. A node or cookie that was freed is no longer in \<open>rf_live\<close> or \<open>rf_cookies\<close>;
  reading it is a fault. \<open>rf_lock\<close> is the counter of the file system's mutex.
\<close>

record rootfs_vnode =
  rn_id :: nat
  rn_name :: string
  rn_room :: nat
  rn_parent :: "nat ptr"
  rn_dir_next :: "nat ptr"
  rn_dir_head :: "nat ptr"
  rn_jar_head :: "nat ptr"

record rootfs_cookie =
  rc_next :: "nat ptr"
  rc_prev :: "nat ptr"
  rc_ptr :: "nat ptr"
  rc_oflags :: int

record rootfs =
  rf_id :: nat
  rf_lock :: int
  rf_next_vnode_id :: nat
  rf_table :: "nat hash_table"
  rf_all_next :: next_heap
  rf_root :: nat
  rf_node :: "nat \<Rightarrow> rootfs_vnode"
  rf_live :: "nat set"
  rf_cookie :: "nat \<Rightarrow> rootfs_cookie"
  rf_cookies :: "nat set"

definition EPERM :: int where "EPERM = LONG_MIN + 15"
definition EEXIST :: int where "EEXIST = LONG_MIN + 24576 + 2"
definition ENOENT :: int where "ENOENT = LONG_MIN + 24576 + 3"
definition ESPIPE :: int where "ESPIPE = LONG_MIN + 28672 + 12"
definition ENOBUFS :: int where "ENOBUFS = LONG_MIN + 28672 + 35"
definition ERR_VFS_PATH_NOT_FOUND :: int where "ERR_VFS_PATH_NOT_FOUND = - 3072 - 3"
definition ERR_VFS_DIR_NOT_EMPTY :: int where "ERR_VFS_DIR_NOT_EMPTY = - 3072 - 10"
definition ERR_VFS_WRONG_STREAM_TYPE :: int where "ERR_VFS_WRONG_STREAM_TYPE = - 3072 - 12"

lemmas rootfs_err_defs [err_defs] =
  EPERM_def EEXIST_def ENOENT_def ESPIPE_def ENOBUFS_def ERR_VFS_PATH_NOT_FOUND_def
  ERR_VFS_DIR_NOT_EMPTY_def ERR_VFS_WRONG_STREAM_TYPE_def

datatype stream_type = STREAM_TYPE_ANY | STREAM_TYPE_FILE | STREAM_TYPE_DIR | STREAM_TYPE_DEVICE

type_synonym kernel_alloc = "nat set \<Rightarrow> nat ptr"

definition set_node :: "nat \<Rightarrow> (rootfs_vnode \<Rightarrow> rootfs_vnode) \<Rightarrow> rootfs \<Rightarrow> rootfs" where
  "set_node v f fs = fs\<lparr>rf_node := (rf_node fs)(v := f (rf_node fs v))\<rparr>"

definition set_cookie :: "nat \<Rightarrow> (rootfs_cookie \<Rightarrow> rootfs_cookie) \<Rightarrow> rootfs \<Rightarrow> rootfs" where
  "set_cookie c f fs = fs\<lparr>rf_cookie := (rf_cookie fs)(c := f (rf_cookie fs c))\<rparr>"

section \<open>The table of all nodes\<close>

definition ROOTFS_HASH_SIZE :: nat where "ROOTFS_HASH_SIZE = 16"

definition rootfs_vnode_hash_func :: "(nat \<Rightarrow> rootfs_vnode) \<Rightarrow> addr ptr \<Rightarrow> nat option \<Rightarrow> nat \<Rightarrow> nat" where
  "rootfs_vnode_hash_func m v key rng =
     (case v of
        Some a \<Rightarrow> rn_id (m a) mod rng
      | None \<Rightarrow> (case key of Some k \<Rightarrow> k mod rng | None \<Rightarrow> 0))"

definition rootfs_vnode_compare_func :: "(nat \<Rightarrow> rootfs_vnode) \<Rightarrow> addr \<Rightarrow> nat \<Rightarrow> int" where
  "rootfs_vnode_compare_func m v key = (if rn_id (m v) = key then 0 else - 1)"

interpretation rootnodes: hash_keyed "\<lambda>a. rn_id (m a)" "rootfs_vnode_compare_func m" "rootfs_vnode_hash_func m" 16
  for m :: "nat \<Rightarrow> rootfs_vnode"
  by unfold_locales (auto simp: rootfs_vnode_compare_func_def rootfs_vnode_hash_func_def)

text \<open>The registered functions read the memory as it is at the time of the call.\<close>

definition node_table :: "rootfs \<Rightarrow> nat hash_table \<times> next_heap" where
  "node_table fs =
     ((rf_table fs)\<lparr>ht_compare := Some (rootfs_vnode_compare_func (rf_node fs)),
                    ht_hash := rootfs_vnode_hash_func (rf_node fs)\<rparr>, rf_all_next fs)"

definition set_node_table :: "nat hash_table \<times> next_heap \<Rightarrow> rootfs \<Rightarrow> rootfs" where
  "set_node_table t fs = fs\<lparr>rf_table := fst t, rf_all_next := snd t\<rparr>"

section \<open>Nodes, directories and cookies\<close>

definition rootfs_create_vnode :: "kernel_alloc \<Rightarrow> rootfs \<Rightarrow> nat ptr \<times> rootfs" where
  "rootfs_create_vnode alloc fs =
     (case alloc (rf_live fs) of
        None \<Rightarrow> (None, fs)
      | Some v \<Rightarrow>
          (Some v, fs\<lparr>rf_live := insert v (rf_live fs), rf_next_vnode_id := (rf_next_vnode_id fs + 1) mod 2 ^ 64,
                      rf_node := (rf_node fs)(v := \<lparr>rn_id = rf_next_vnode_id fs, rn_name = '''', rn_room = 0,
                         rn_parent = None, rn_dir_next = None, rn_dir_head = None, rn_jar_head = None\<rparr>)\<rparr>))"

definition rootfs_delete_vnode :: "nat \<Rightarrow> bool \<Rightarrow> rootfs \<Rightarrow> (int \<times> rootfs) outcome" where
  "rootfs_delete_vnode v force_delete fs =
     (if v \<notin> rf_live fs then Faults
      else if \<not> force_delete \<and> (rn_dir_head (rf_node fs v) \<noteq> None \<or> rn_dir_next (rf_node fs v) \<noteq> None)
      then Returns (EPERM, fs)
      else obind (looped (hash_remove v (node_table fs))) (\<lambda>(_, t).
             (let fs1 = set_node_table t fs in Returns (0, fs1\<lparr>rf_live := rf_live fs1 - {v}\<rparr>))))"

definition insert_cookie_in_jar :: "nat \<Rightarrow> nat \<Rightarrow> rootfs \<Rightarrow> rootfs" where
  "insert_cookie_in_jar dir cookie fs =
     set_cookie cookie (\<lambda>r. r\<lparr>rc_prev := None\<rparr>)
       (set_node dir (\<lambda>r. r\<lparr>rn_jar_head := Some cookie\<rparr>)
          (set_cookie cookie (\<lambda>r. r\<lparr>rc_next := rn_jar_head (rf_node fs dir)\<rparr>) fs))"

definition remove_cookie_from_jar :: "nat \<Rightarrow> nat \<Rightarrow> rootfs \<Rightarrow> rootfs" where
  "remove_cookie_from_jar dir cookie fs =
     (let nxt = rc_next (rf_cookie fs cookie);
          fs1 = (case nxt of Some n \<Rightarrow> set_cookie n (\<lambda>r. r\<lparr>rc_prev := rc_prev (rf_cookie fs cookie)\<rparr>) fs | None \<Rightarrow> fs);
          fs2 = (case rc_prev (rf_cookie fs1 cookie) of
                   Some p \<Rightarrow> set_cookie p (\<lambda>r. r\<lparr>rc_next := rc_next (rf_cookie fs1 cookie)\<rparr>) fs1 | None \<Rightarrow> fs1);
          fs3 = (if rn_jar_head (rf_node fs2 dir) = Some cookie
                 then set_node dir (\<lambda>r. r\<lparr>rn_jar_head := rc_next (rf_cookie fs2 cookie)\<rparr>) fs2 else fs2)
      in set_cookie cookie (\<lambda>r. r\<lparr>rc_prev := None, rc_next := None\<rparr>) fs3)"

text \<open>No cookie of the directory may keep pointing to the entry \<open>v\<close>.\<close>

partial_function (option) jar_loop :: "nat \<Rightarrow> nat ptr \<Rightarrow> rootfs \<Rightarrow> rootfs outcome option" where
  "jar_loop v cookie fs =
     (case cookie of
        None \<Rightarrow> Some (Returns fs)
      | Some c \<Rightarrow>
          if c \<notin> rf_cookies fs then Some Faults
          else jar_loop v (rc_next (rf_cookie fs c))
                 (if rc_ptr (rf_cookie fs c) = Some v
                  then set_cookie c (\<lambda>r. r\<lparr>rc_ptr := rn_dir_next (rf_node fs v)\<rparr>) fs else fs))"

definition update_dircookies :: "nat \<Rightarrow> nat \<Rightarrow> rootfs \<Rightarrow> rootfs outcome" where
  "update_dircookies dir v fs = looped_outcome (jar_loop v (rn_jar_head (rf_node fs dir)) fs)"

partial_function (option) find_entry :: "rootfs \<Rightarrow> string \<Rightarrow> nat ptr \<Rightarrow> nat ptr outcome option" where
  "find_entry fs path v =
     (case v of
        None \<Rightarrow> Some (Returns None)
      | Some a \<Rightarrow>
          if a \<notin> rf_live fs then Some Faults
          else if rn_name (rf_node fs a) = path then Some (Returns (Some a))
          else find_entry fs path (rn_dir_next (rf_node fs a)))"

definition rootfs_find_in_dir :: "nat \<Rightarrow> string \<Rightarrow> rootfs \<Rightarrow> nat ptr outcome" where
  "rootfs_find_in_dir dir path fs =
     (if path = ''.'' then Returns (Some dir)
      else if dir \<notin> rf_live fs then Faults
      else if path = ''..'' then Returns (rn_parent (rf_node fs dir))
      else looped_outcome (find_entry fs path (rn_dir_head (rf_node fs dir))))"

definition rootfs_insert_in_dir :: "nat \<Rightarrow> nat \<Rightarrow> rootfs \<Rightarrow> rootfs" where
  "rootfs_insert_in_dir dir v fs =
     set_node dir (\<lambda>r. r\<lparr>rn_dir_head := Some v\<rparr>)
       (set_node v (\<lambda>r. r\<lparr>rn_dir_next := rn_dir_head (rf_node fs dir)\<rparr>) fs)"

partial_function (option) unlink_entry :: "nat \<Rightarrow> nat \<Rightarrow> nat ptr \<Rightarrow> nat ptr \<Rightarrow> rootfs \<Rightarrow> (int \<times> rootfs) outcome option" where
  "unlink_entry dir findit v last_v fs =
     (case v of
        None \<Rightarrow> Some (Returns (- 1, fs))
      | Some a \<Rightarrow>
          if a \<notin> rf_live fs then Some Faults
          else if a = findit then
            Some (obind (update_dircookies dir a fs) (\<lambda>fs1.
              (let nxt = rn_dir_next (rf_node fs1 a);
                   fs2 = (case last_v of
                            Some l \<Rightarrow> set_node l (\<lambda>r. r\<lparr>rn_dir_next := nxt\<rparr>) fs1
                          | None \<Rightarrow> set_node dir (\<lambda>r. r\<lparr>rn_dir_head := nxt\<rparr>) fs1)
               in Returns (0, set_node a (\<lambda>r. r\<lparr>rn_dir_next := None\<rparr>) fs2))))
          else unlink_entry dir findit (rn_dir_next (rf_node fs a)) (Some a) fs)"

definition rootfs_remove_from_dir :: "nat \<Rightarrow> nat \<Rightarrow> rootfs \<Rightarrow> (int \<times> rootfs) outcome" where
  "rootfs_remove_from_dir dir findit fs =
     (if dir \<notin> rf_live fs then Faults
      else looped_outcome (unlink_entry dir findit (rn_dir_head (rf_node fs dir)) None fs))"

definition rootfs_is_dir_empty :: "nat \<Rightarrow> rootfs \<Rightarrow> bool" where
  "rootfs_is_dir_empty dir fs \<longleftrightarrow> rn_dir_head (rf_node fs dir) = None"

section \<open>The mutex\<close>

text \<open>
  The mutex is only released by the thread that holds it, so taking it with a positive counter
  waits for a caller that does not come; this also holds for the calls the VFS layer makes while
  it is held, which pass \<open>r = true\<close> and leave it alone.
\<close>

definition fs_lock :: "rootfs \<Rightarrow> rootfs outcome" where
  "fs_lock fs = (if 1 \<le> rf_lock fs then Blocks else Returns (fs\<lparr>rf_lock := rf_lock fs + 1\<rparr>))"

definition fs_unlock :: "rootfs \<Rightarrow> rootfs" where
  "fs_unlock fs = fs\<lparr>rf_lock := rf_lock fs - 1\<rparr>"

definition lock_unless :: "bool \<Rightarrow> rootfs \<Rightarrow> rootfs outcome" where
  "lock_unless r fs = (if r then Returns fs else fs_lock fs)"

definition unlock_unless :: "bool \<Rightarrow> rootfs \<Rightarrow> rootfs" where
  "unlock_unless r fs = (if r then fs else fs_unlock fs)"

section \<open>Calls of the VFS layer\<close>

text \<open>
  \<open>junk\<close> is the memory of the new object before it is set up, \<open>dup\<close> tells whether \<open>kstrdup\<close>
  got memory. The mutex's semaphore and the table are taken to be created; their errors free
  the object again.
\<close>

definition rootfs_mount :: "kernel_alloc \<Rightarrow> bool \<Rightarrow> rootfs \<Rightarrow> nat \<Rightarrow> (int \<times> nat \<times> rootfs) outcome" where
  "rootfs_mount alloc dup junk fsid =
     (let fs0 = junk\<lparr>rf_id := fsid, rf_next_vnode_id := 0, rf_lock := 0,
                     rf_table := \<lparr>ht_table = (\<lambda>i. None), ht_size = ROOTFS_HASH_SIZE, ht_num_elems = 0,
                                  ht_compare = None, ht_hash = (\<lambda>a k n. 0)\<rparr>\<rparr>
      in case rootfs_create_vnode alloc fs0 of
           (None, fs1) \<Rightarrow> Returns (ERR_NO_MEMORY, 0, fs1)
         | (Some v, fs1) \<Rightarrow>
             (let fs2 = set_node v (\<lambda>r. r\<lparr>rn_parent := Some v\<rparr>) fs1
              in if \<not> dup then
                   obind (rootfs_delete_vnode v True fs2) (\<lambda>(_, fs3). Returns (ERR_NO_MEMORY, 0, fs3))
                 else
                   (let fs3 = set_node v (\<lambda>r. r\<lparr>rn_name := '''', rn_room := 1, rn_dir_head := None\<rparr>) fs2;
                        fs4 = fs3\<lparr>rf_root := v\<rparr>;
                        fs5 = set_node_table (snd (hash_insert v (node_table fs4))) fs4
                    in Returns (0, rn_id (rf_node fs5 v), fs5))))"

definition rootfs_getvnode :: "nat \<Rightarrow> bool \<Rightarrow> rootfs \<Rightarrow> ((int \<times> nat ptr) \<times> rootfs) outcome" where
  "rootfs_getvnode i r fs =
     obind (lock_unless r fs) (\<lambda>fs1.
       obind (looped (hash_lookup i (node_table fs1))) (\<lambda>v.
         Returns ((if v \<noteq> None then 0 else ERR_NOT_FOUND, v), unlock_unless r fs1)))"

definition rootfs_putvnode :: "nat ptr \<Rightarrow> bool \<Rightarrow> rootfs \<Rightarrow> (int \<times> rootfs) outcome" where
  "rootfs_putvnode v r fs = Returns (0, fs)"

definition rootfs_removevnode :: "nat \<Rightarrow> bool \<Rightarrow> rootfs \<Rightarrow> (int \<times> rootfs) outcome" where
  "rootfs_removevnode v r fs =
     obind (lock_unless r fs) (\<lambda>fs1.
       if v \<notin> rf_live fs1 \<or> rn_dir_next (rf_node fs1 v) \<noteq> None then Faults
       else obind (rootfs_delete_vnode v False fs1) (\<lambda>(_, fs2). Returns (0, unlock_unless r fs2)))"

definition rootfs_open :: "kernel_alloc \<Rightarrow> nat \<Rightarrow> stream_type \<Rightarrow> int \<Rightarrow> rootfs \<Rightarrow> ((int \<times> nat ptr) \<times> rootfs) outcome" where
  "rootfs_open alloc v st oflags fs =
     (if st \<noteq> STREAM_TYPE_ANY \<and> st \<noteq> STREAM_TYPE_DIR then Returns ((ERR_VFS_WRONG_STREAM_TYPE, None), fs)
      else case alloc (rf_cookies fs) of
        None \<Rightarrow> Returns ((ERR_NO_MEMORY, None), fs)
      | Some c \<Rightarrow>
          obind (fs_lock (fs\<lparr>rf_cookies := insert c (rf_cookies fs)\<rparr>)) (\<lambda>fs1.
            if v \<notin> rf_live fs1 then Faults
            else
              (let fs2 = set_cookie c (\<lambda>r. r\<lparr>rc_ptr := rn_dir_head (rf_node fs1 v), rc_oflags := oflags\<rparr>) fs1
               in Returns ((0, Some c), fs_unlock (insert_cookie_in_jar v c fs2)))))"

definition rootfs_close :: "nat \<Rightarrow> nat \<Rightarrow> rootfs \<Rightarrow> (int \<times> rootfs) outcome" where
  "rootfs_close v cookie fs = Returns (0, fs)"

definition rootfs_freecookie :: "nat \<Rightarrow> nat ptr \<Rightarrow> rootfs \<Rightarrow> (int \<times> rootfs) outcome" where
  "rootfs_freecookie v cookie fs =
     (case cookie of None \<Rightarrow> Returns (0, fs) | Some c \<Rightarrow> Returns (0, fs\<lparr>rf_cookies := rf_cookies fs - {c}\<rparr>))"

text \<open>A read returns the name of one entry, with its terminating zero, and the number of bytes.\<close>

definition name_bytes :: "string \<Rightarrow> byte list" where
  "name_bytes s = map of_char s"

definition rootfs_read ::
  "nat \<Rightarrow> nat \<Rightarrow> nat \<Rightarrow> umem \<times> rootfs \<Rightarrow> ((int \<times> nat) \<times> (umem \<times> rootfs)) outcome" where
  "rootfs_read cookie buf len s =
     obind (fs_lock (snd s)) (\<lambda>fs.
       if cookie \<notin> rf_cookies fs then Faults
       else case rc_ptr (rf_cookie fs cookie) of
         None \<Rightarrow> Returns ((0, 0), (fst s, fs_unlock fs))
       | Some e \<Rightarrow>
           if e \<notin> rf_live fs then Faults
           else if len < length (rn_name (rf_node fs e)) + 1 then Returns ((ENOBUFS, len), (fst s, fs_unlock fs))
           else
             (case user_strcpy_out (fst s) buf (name_bytes (rn_name (rf_node fs e))) of
                (err, um) \<Rightarrow>
                  if err < 0 then Returns ((err, len), (um, fs_unlock fs))
                  else Returns ((err, length (rn_name (rf_node fs e)) + 1),
                         (um, fs_unlock (set_cookie cookie (\<lambda>r. r\<lparr>rc_ptr := rn_dir_next (rf_node fs e)\<rparr>) fs)))))"

definition rootfs_write :: "nat \<Rightarrow> nat \<Rightarrow> rootfs \<Rightarrow> (int \<times> rootfs) outcome" where
  "rootfs_write cookie len fs = Returns (EPERM, fs)"

definition SEEK_SET :: int where "SEEK_SET = 0"

definition rootfs_seek :: "nat \<Rightarrow> nat \<Rightarrow> int \<Rightarrow> int \<Rightarrow> rootfs \<Rightarrow> (int \<times> rootfs) outcome" where
  "rootfs_seek v cookie pos st fs =
     obind (fs_lock fs) (\<lambda>fs1.
       if st = SEEK_SET then
         (if pos = 0 then
            (if v \<notin> rf_live fs1 \<or> cookie \<notin> rf_cookies fs1 then Faults
             else Returns (0, fs_unlock (set_cookie cookie (\<lambda>r. r\<lparr>rc_ptr := rn_dir_head (rf_node fs1 v)\<rparr>) fs1)))
          else Returns (ESPIPE, fs_unlock fs1))
       else Returns (EINVAL, fs_unlock fs1))"

text \<open>
  A request for another kind of node leaves through the exit that unlocks the mutex before it was
  locked.
\<close>

definition rootfs_create ::
  "kernel_alloc \<Rightarrow> bool \<Rightarrow> nat \<Rightarrow> string \<Rightarrow> stream_type \<Rightarrow> rootfs \<Rightarrow> (int \<times> rootfs) outcome" where
  "rootfs_create alloc dup dir name st fs =
     (if st \<noteq> STREAM_TYPE_DIR then Returns (EPERM, fs_unlock fs)
      else
        obind (fs_lock fs) (\<lambda>fs1.
        obind (rootfs_find_in_dir dir name fs1) (\<lambda>found.
          if found \<noteq> None then Returns (EEXIST, fs_unlock fs1)
          else case rootfs_create_vnode alloc fs1 of
            (None, fs2) \<Rightarrow> Returns (ENOMEM, fs_unlock fs2)
          | (Some v, fs2) \<Rightarrow>
              if \<not> dup then
                obind (rootfs_delete_vnode v False fs2) (\<lambda>(_, fs3). Returns (ENOMEM, fs_unlock fs3))
              else
                (let fs3 = set_node v (\<lambda>r. r\<lparr>rn_name := name, rn_room := length name + 1, rn_parent := Some dir\<rparr>) fs2;
                     fs4 = rootfs_insert_in_dir dir v fs3;
                     fs5 = set_node_table (snd (hash_insert v (node_table fs4))) fs4
                 in Returns (0, fs_unlock (set_node v (\<lambda>r. r\<lparr>rn_dir_head := None, rn_jar_head := None\<rparr>) fs5))))))"

definition rootfs_rename ::
  "bool \<Rightarrow> nat \<Rightarrow> string \<Rightarrow> nat \<Rightarrow> string \<Rightarrow> rootfs \<Rightarrow> (int \<times> rootfs) outcome" where
  "rootfs_rename dup olddir oldname newdir newname fs =
     obind (fs_lock fs) (\<lambda>fs1.
     obind (rootfs_find_in_dir olddir oldname fs1) (\<lambda>found1.
       case found1 of
         None \<Rightarrow> Returns (ERR_VFS_PATH_NOT_FOUND, fs_unlock fs1)
       | Some v1 \<Rightarrow>
           obind (rootfs_find_in_dir newdir newname fs1) (\<lambda>v2.
             if olddir = newdir then
               (if v2 \<noteq> None then Returns (EEXIST, fs_unlock fs1)
                else if v1 \<notin> rf_live fs1 then Faults
                else if length newname \<le> length oldname then
                  (if rn_room (rf_node fs1 v1) < length newname + 1 then Faults
                   else Returns (0, fs_unlock (set_node v1 (\<lambda>r. r\<lparr>rn_name := newname\<rparr>) fs1)))
                else if \<not> dup then Returns (ENOMEM, fs_unlock fs1)
                else Returns (0, fs_unlock (set_node v1 (\<lambda>r. r\<lparr>rn_name := newname, rn_room := length newname + 1\<rparr>) fs1)))
             else
               obind (rootfs_remove_from_dir olddir v1 fs1) (\<lambda>(_, fs2).
                 if newdir \<notin> rf_live fs2 \<or> v1 \<notin> rf_live fs2 then Faults
                 else Returns (0, fs_unlock (rootfs_insert_in_dir newdir v1 fs2))))))"

text \<open>\<open>st_ino\<close>, \<open>st_size\<close> and \<open>st_mode\<close>: a directory that everybody may read and write.\<close>

definition rootfs_rstat :: "nat \<Rightarrow> rootfs \<Rightarrow> (int \<times> (nat \<times> nat \<times> nat)) outcome" where
  "rootfs_rstat v fs =
     (if v \<notin> rf_live fs then Faults else Returns (0, (rn_id (rf_node fs v), 0, 16384 + 438)))"

definition rootfs_wstat :: "nat \<Rightarrow> rootfs \<Rightarrow> (int \<times> rootfs) outcome" where
  "rootfs_wstat v fs = Returns (EINVAL, fs)"

end
