(* ===== verification/Vnode.thy ===== *)
theory Vnode
  imports Rootfs
begin

text \<open>
  The vnode layer of \<open>fs/vfs.c\<close>. A vnode stands for a file of a mounted file system as long as
  somebody refers to it; all vnodes are in a hash table by the number of the mount and the
  number of the file, and each mount has a list of its vnodes. The first reference asks the
  file system for the file, the last one gives it back.
\<close>

section \<open>Data\<close>

record vnode =
  vn_mount_prev :: "nat ptr"
  vn_mount_next :: "nat ptr"
  vn_cache :: "nat ptr"
  vn_fsid :: nat
  vn_vnid :: nat
  vn_priv :: "nat ptr"
  vn_mount :: "nat ptr"
  vn_covered_by :: "nat ptr"
  vn_ref_count :: int
  vn_delete_me :: bool
  vn_busy :: bool

text \<open>\<open>mt_fs\<close> is the number of the file system's container in the list of registered ones.\<close>

record fs_mount =
  mt_fs :: nat
  mt_id :: nat
  mt_cookie :: nat
  mt_root :: "nat ptr"
  mt_covers :: "nat ptr"
  mt_head :: "nat ptr"
  mt_tail :: "nat ptr"

text \<open>
  \<open>vf_live\<close> and \<open>vf_mounts\<close> are the vnodes and mounts that are allocated. A file system keeps
  its state under the cookie of its mount. \<open>vf_cwd\<close> is the working directory of the kernel's
  and of the current process's I/O context.
\<close>

record 'f vfs =
  vf_vnode :: "nat \<Rightarrow> vnode"
  vf_live :: "nat set"
  vf_table :: "(nat \<times> nat) hash_table"
  vf_next :: next_heap
  vf_mount :: "nat \<Rightarrow> fs_mount"
  vf_mounts :: "nat set"
  vf_mtable :: "nat hash_table"
  vf_mnext :: next_heap
  vf_root :: "nat ptr"
  vf_cwd :: "bool \<Rightarrow> nat ptr"
  vf_next_fsid :: nat
  vf_fs :: "nat \<Rightarrow> 'f"

text \<open>
  The calls of a file system through which vnodes come and go. They may call back into this
  layer, so they take its whole state; \<open>r\<close> tells them that they are called from such a call.
\<close>

record 'f vnode_ops =
  op_getvnode :: "nat \<Rightarrow> nat \<Rightarrow> bool \<Rightarrow> 'f vfs \<Rightarrow> ((int \<times> nat ptr) \<times> 'f vfs) outcome"
  op_putvnode :: "nat \<Rightarrow> nat ptr \<Rightarrow> bool \<Rightarrow> 'f vfs \<Rightarrow> (int \<times> 'f vfs) outcome"
  op_removevnode :: "nat \<Rightarrow> nat ptr \<Rightarrow> bool \<Rightarrow> 'f vfs \<Rightarrow> (int \<times> 'f vfs) outcome"

text \<open>
  What the layer works with: the registered file systems, the release of a page cache by the VM,
  the kernel's allocator, and what other threads do while this one sleeps.
\<close>

record 'f vfs_env =
  env_ops :: "nat \<Rightarrow> 'f vnode_ops"
  env_cache :: "nat \<Rightarrow> 'f vfs \<Rightarrow> 'f vfs outcome"
  env_alloc :: kernel_alloc
  env_nap :: "'f vfs \<Rightarrow> 'f vfs"

definition set_vnode :: "nat \<Rightarrow> (vnode \<Rightarrow> vnode) \<Rightarrow> 'f vfs \<Rightarrow> 'f vfs" where
  "set_vnode v f s = s\<lparr>vf_vnode := (vf_vnode s)(v := f (vf_vnode s v))\<rparr>"

definition set_mount :: "nat \<Rightarrow> (fs_mount \<Rightarrow> fs_mount) \<Rightarrow> 'f vfs \<Rightarrow> 'f vfs" where
  "set_mount m f s = s\<lparr>vf_mount := (vf_mount s)(m := f (vf_mount s m))\<rparr>"

section \<open>The tables\<close>

definition mount_compare :: "(nat \<Rightarrow> fs_mount) \<Rightarrow> addr \<Rightarrow> nat \<Rightarrow> int" where
  "mount_compare h m key = (if mt_id (h m) = key then 0 else - 1)"

definition mount_hash :: "(nat \<Rightarrow> fs_mount) \<Rightarrow> addr ptr \<Rightarrow> nat option \<Rightarrow> nat \<Rightarrow> nat" where
  "mount_hash h m key rng =
     (case m of
        Some a \<Rightarrow> mt_id (h a) mod rng
      | None \<Rightarrow> (case key of Some k \<Rightarrow> k mod rng | None \<Rightarrow> 0))"

definition vkey :: "vnode \<Rightarrow> nat \<times> nat" where
  "vkey r = (vn_fsid r, vn_vnid r)"

definition vnode_compare :: "(nat \<Rightarrow> vnode) \<Rightarrow> addr \<Rightarrow> nat \<times> nat \<Rightarrow> int" where
  "vnode_compare h v key = (if vn_fsid (h v) = fst key \<and> vn_vnid (h v) = snd key then 0 else - 1)"

definition VHASH :: "nat \<Rightarrow> nat \<Rightarrow> nat" where
  "VHASH fsid vnid =
     unat (Bit_Operations.xor (word_of_nat (vnid div 2 ^ 32) + word_of_nat vnid) (word_of_nat fsid :: 32 word))"

definition vnode_hash :: "(nat \<Rightarrow> vnode) \<Rightarrow> addr ptr \<Rightarrow> (nat \<times> nat) option \<Rightarrow> nat \<Rightarrow> nat" where
  "vnode_hash h v key rng =
     (case v of
        Some a \<Rightarrow> VHASH (vn_fsid (h a)) (vn_vnid (h a)) mod rng
      | None \<Rightarrow> (case key of Some k \<Rightarrow> VHASH (fst k) (snd k) mod rng | None \<Rightarrow> 0))"

definition VNODE_HASH_TABLE_SIZE :: nat where "VNODE_HASH_TABLE_SIZE = 1024"
definition MOUNTS_HASH_TABLE_SIZE :: nat where "MOUNTS_HASH_TABLE_SIZE = 16"

interpretation vnodes: hash_keyed "\<lambda>a. vkey (h a)" "vnode_compare h" "vnode_hash h" 1024
  for h :: "nat \<Rightarrow> vnode"
  by unfold_locales (auto simp: vnode_compare_def vnode_hash_def vkey_def)

interpretation mounts: hash_keyed "\<lambda>a. mt_id (h a)" "mount_compare h" "mount_hash h" 16
  for h :: "nat \<Rightarrow> fs_mount"
  by unfold_locales (auto simp: mount_compare_def mount_hash_def)

definition vnode_table :: "'f vfs \<Rightarrow> (nat \<times> nat) hash_table \<times> next_heap" where
  "vnode_table s = ((vf_table s)\<lparr>ht_compare := Some (vnode_compare (vf_vnode s)),
                                 ht_hash := vnode_hash (vf_vnode s)\<rparr>, vf_next s)"

definition set_vnode_table :: "(nat \<times> nat) hash_table \<times> next_heap \<Rightarrow> 'f vfs \<Rightarrow> 'f vfs" where
  "set_vnode_table t s = s\<lparr>vf_table := fst t, vf_next := snd t\<rparr>"

definition mounts_table :: "'f vfs \<Rightarrow> nat hash_table \<times> next_heap" where
  "mounts_table s = ((vf_mtable s)\<lparr>ht_compare := Some (mount_compare (vf_mount s)),
                                   ht_hash := mount_hash (vf_mount s)\<rparr>, vf_mnext s)"

definition set_mounts_table :: "nat hash_table \<times> next_heap \<Rightarrow> 'f vfs \<Rightarrow> 'f vfs" where
  "set_mounts_table t s = s\<lparr>vf_mtable := fst t, vf_mnext := snd t\<rparr>"

definition fsid_to_mount :: "nat \<Rightarrow> 'f vfs \<Rightarrow> nat ptr outcome" where
  "fsid_to_mount i s = looped (hash_lookup i (mounts_table s))"

definition lookup_vnode :: "nat \<Rightarrow> nat \<Rightarrow> 'f vfs \<Rightarrow> nat ptr outcome" where
  "lookup_vnode fsid vnid s = looped (hash_lookup (fsid, vnid) (vnode_table s))"

section \<open>The list of a mount\<close>

text \<open>
  A new vnode goes to the head, and the old head is not told: its \<open>mount_prev\<close> stays \<open>NULL\<close>.
  Taking a vnode out writes through its links, wherever they lead.
\<close>

definition add_vnode_to_mount_list :: "nat \<Rightarrow> nat \<Rightarrow> 'f vfs \<Rightarrow> 'f vfs" where
  "add_vnode_to_mount_list v m s =
     (let s1 = set_vnode v (\<lambda>r. r\<lparr>vn_mount_next := mt_head (vf_mount s m), vn_mount_prev := None\<rparr>) s
      in set_mount m (\<lambda>r. r\<lparr>mt_head := Some v, mt_tail := (if mt_tail r = None then Some v else mt_tail r)\<rparr>) s1)"

definition remove_vnode_from_mount_list :: "nat \<Rightarrow> nat \<Rightarrow> 'f vfs \<Rightarrow> 'f vfs" where
  "remove_vnode_from_mount_list v m s =
     (let s1 = (case vn_mount_next (vf_vnode s v) of
                  Some n \<Rightarrow> set_vnode n (\<lambda>r. r\<lparr>vn_mount_prev := vn_mount_prev (vf_vnode s v)\<rparr>) s
                | None \<Rightarrow> set_mount m (\<lambda>r. r\<lparr>mt_tail := vn_mount_prev (vf_vnode s v)\<rparr>) s);
          s2 = (case vn_mount_prev (vf_vnode s1 v) of
                  Some p \<Rightarrow> set_vnode p (\<lambda>r. r\<lparr>vn_mount_next := vn_mount_next (vf_vnode s1 v)\<rparr>) s1
                | None \<Rightarrow> set_mount m (\<lambda>r. r\<lparr>mt_head := vn_mount_next (vf_vnode s1 v)\<rparr>) s1)
      in set_vnode v (\<lambda>r. r\<lparr>vn_mount_prev := None, vn_mount_next := None\<rparr>) s2)"

section \<open>References\<close>

definition create_new_vnode :: "'f vfs_env \<Rightarrow> 'f vfs \<Rightarrow> nat ptr \<times> 'f vfs" where
  "create_new_vnode E s =
     (case env_alloc E (vf_live s) of
        None \<Rightarrow> (None, s)
      | Some v \<Rightarrow>
          (Some v, set_vnode v (\<lambda>_. \<lparr>vn_mount_prev = None, vn_mount_next = None, vn_cache = None, vn_fsid = 0, vn_vnid = 0,
             vn_priv = None, vn_mount = None, vn_covered_by = None, vn_ref_count = 0, vn_delete_me = False, vn_busy = False\<rparr>)
             (s\<lparr>vf_live := insert v (vf_live s)\<rparr>)))"

text \<open>
  Dropping a reference, in the two parts between which the mutex is released: the last reference
  makes the vnode busy, then the file system is told and the vnode leaves the tables.
\<close>

definition dec_vnode_start :: "nat \<Rightarrow> 'f vfs \<Rightarrow> (bool \<times> 'f vfs) outcome" where
  "dec_vnode_start v s =
     (if v \<notin> vf_live s \<or> vn_busy (vf_vnode s v) then Faults
      else
        (let old_ref = vn_ref_count (vf_vnode s v)
         in Returns (old_ref = 1,
              set_vnode v (\<lambda>r. r\<lparr>vn_ref_count := i32 (old_ref - 1), vn_busy := (if old_ref = 1 then True else vn_busy r)\<rparr>) s)))"

definition mount_of :: "nat \<Rightarrow> 'f vfs \<Rightarrow> nat outcome" where
  "mount_of v s =
     (if v \<notin> vf_live s then Faults
      else case vn_mount (vf_vnode s v) of None \<Rightarrow> Faults | Some m \<Rightarrow> Returns m)"

definition dec_vnode_finish :: "'f vfs_env \<Rightarrow> nat \<Rightarrow> bool \<Rightarrow> bool \<Rightarrow> 'f vfs \<Rightarrow> (int \<times> 'f vfs) outcome" where
  "dec_vnode_finish E v free_mem r s =
     obind (case vn_cache (vf_vnode s v) of None \<Rightarrow> Returns s | Some c \<Rightarrow> env_cache E c s) (\<lambda>s0.
     (let s1 = set_vnode v (\<lambda>r. r\<lparr>vn_cache := None\<rparr>) s0 in
      obind (mount_of v s1) (\<lambda>m.
      (let mt = vf_mount s1 m; ops = env_ops E (mt_fs mt); p = vn_priv (vf_vnode s1 v) in
       obind (if vn_delete_me (vf_vnode s1 v) then op_removevnode ops (mt_cookie mt) p r s1
              else op_putvnode ops (mt_cookie mt) p r s1) (\<lambda>(_, s2).
       obind (looped (hash_remove v (vnode_table (remove_vnode_from_mount_list v m s2)))) (\<lambda>(_, t).
         (let s3 = set_vnode_table t (remove_vnode_from_mount_list v m s2)
          in Returns (1, if free_mem then s3\<lparr>vf_live := vf_live s3 - {v}\<rparr> else s3))))))))"

definition dec_vnode_ref_count :: "'f vfs_env \<Rightarrow> nat \<Rightarrow> bool \<Rightarrow> bool \<Rightarrow> 'f vfs \<Rightarrow> (int \<times> 'f vfs) outcome" where
  "dec_vnode_ref_count E v free_mem r s =
     obind (dec_vnode_start v s) (\<lambda>(last, s1).
       if last then dec_vnode_finish E v free_mem r s1 else Returns (0, s1))"

definition inc_vnode_ref_count :: "nat \<Rightarrow> 'f vfs \<Rightarrow> (int \<times> 'f vfs) outcome" where
  "inc_vnode_ref_count v s =
     (if v \<notin> vf_live s then Faults
      else Returns (0, set_vnode v (\<lambda>r. r\<lparr>vn_ref_count := i32 (vn_ref_count r + 1)\<rparr>) s))"

text \<open>
  \<open>continue\<close> in a \<open>do\<close> loop goes to its condition, which is \<open>0\<close>: a busy vnode is not looked up
  again after the sleep, and the pointer from before is used.
\<close>

definition get_vnode :: "'f vfs_env \<Rightarrow> nat \<Rightarrow> nat \<Rightarrow> bool \<Rightarrow> 'f vfs \<Rightarrow> ((int \<times> nat ptr) \<times> 'f vfs) outcome" where
  "get_vnode E fsid vnid r s =
     obind (lookup_vnode fsid vnid s) (\<lambda>found.
       case found of
         Some v \<Rightarrow>
           obind (inc_vnode_ref_count v (if vn_busy (vf_vnode s v) then env_nap E s else s)) (\<lambda>(_, s1).
             Returns ((B_NO_ERROR, Some v), s1))
       | None \<Rightarrow>
           (case create_new_vnode E s of
              (None, s1) \<Rightarrow> Returns ((ENOMEM, None), s1)
            | (Some v, s1) \<Rightarrow>
                obind (fsid_to_mount fsid s1) (\<lambda>mnt.
                  case mnt of
                    None \<Rightarrow> Returns ((ERR_INVALID_HANDLE, None), s1\<lparr>vf_live := vf_live s1 - {v}\<rparr>)
                  | Some m \<Rightarrow>
                      (let s2 = set_vnode v (\<lambda>r. r\<lparr>vn_fsid := fsid, vn_vnid := vnid, vn_mount := Some m, vn_busy := True\<rparr>) s1;
                           s3 = set_vnode_table (snd (hash_insert v (vnode_table s2))) s2;
                           s4 = add_vnode_to_mount_list v m s3
                       in obind (op_getvnode (env_ops E (mt_fs (vf_mount s4 m))) (mt_cookie (vf_mount s4 m)) vnid r s4) (\<lambda>((err, priv), s5).
                            (let s6 = set_vnode v (\<lambda>r. r\<lparr>vn_priv := priv\<rparr>) s5 in
                             if err < 0 then
                               (let s7 = remove_vnode_from_mount_list v m s6
                                in obind (looped (hash_remove v (vnode_table s7))) (\<lambda>(_, t).
                                     (let s8 = set_vnode_table t s7
                                      in Returns ((err, None), s8\<lparr>vf_live := vf_live s8 - {v}\<rparr>))))
                             else
                               Returns ((B_NO_ERROR, Some v),
                                 set_vnode v (\<lambda>r. r\<lparr>vn_busy := False, vn_ref_count := 1\<rparr>) s6)))))))"

definition put_vnode :: "'f vfs_env \<Rightarrow> nat \<Rightarrow> 'f vfs \<Rightarrow> 'f vfs outcome" where
  "put_vnode E v s = obind (dec_vnode_ref_count E v True False s) (\<lambda>(_, s1). Returns s1)"

section \<open>Calls for file systems and the VM\<close>

definition vfs_get_vnode :: "'f vfs_env \<Rightarrow> nat \<Rightarrow> nat \<Rightarrow> 'f vfs \<Rightarrow> ((int \<times> nat ptr) \<times> 'f vfs) outcome" where
  "vfs_get_vnode E fsid vnid s =
     obind (get_vnode E fsid vnid True s) (\<lambda>((err, v), s1).
       if err < 0 then Returns ((err, None), s1)
       else Returns ((B_NO_ERROR, (case v of Some a \<Rightarrow> vn_priv (vf_vnode s1 a) | None \<Rightarrow> None)), s1))"

definition vfs_put_vnode :: "'f vfs_env \<Rightarrow> nat \<Rightarrow> nat \<Rightarrow> 'f vfs \<Rightarrow> (int \<times> 'f vfs) outcome" where
  "vfs_put_vnode E fsid vnid s =
     obind (lookup_vnode fsid vnid s) (\<lambda>found.
       case found of
         None \<Rightarrow> Returns (B_NO_ERROR, s)
       | Some v \<Rightarrow> obind (dec_vnode_ref_count E v True True s) (\<lambda>(_, s1). Returns (B_NO_ERROR, s1)))"

definition vfs_vnode_acquire_ref :: "nat \<Rightarrow> 'f vfs \<Rightarrow> 'f vfs outcome" where
  "vfs_vnode_acquire_ref v s = obind (inc_vnode_ref_count v s) (\<lambda>(_, s1). Returns s1)"

definition vfs_vnode_release_ref :: "'f vfs_env \<Rightarrow> nat \<Rightarrow> 'f vfs \<Rightarrow> 'f vfs outcome" where
  "vfs_vnode_release_ref E v s = obind (dec_vnode_ref_count E v True False s) (\<lambda>(_, s1). Returns s1)"

definition vfs_remove_vnode :: "nat \<Rightarrow> nat \<Rightarrow> 'f vfs \<Rightarrow> (int \<times> 'f vfs) outcome" where
  "vfs_remove_vnode fsid vnid s =
     obind (lookup_vnode fsid vnid s) (\<lambda>found.
       case found of
         None \<Rightarrow> Returns (0, s)
       | Some v \<Rightarrow> Returns (0, set_vnode v (\<lambda>r. r\<lparr>vn_delete_me := True\<rparr>) s))"

definition vfs_get_cache_ptr :: "nat \<Rightarrow> 'f vfs \<Rightarrow> nat ptr" where
  "vfs_get_cache_ptr v s = vn_cache (vf_vnode s v)"

definition vfs_set_cache_ptr :: "nat \<Rightarrow> nat ptr \<Rightarrow> 'f vfs \<Rightarrow> int \<times> 'f vfs" where
  "vfs_set_cache_ptr v cache s =
     (if vn_cache (vf_vnode s v) = None then (0, set_vnode v (\<lambda>r. r\<lparr>vn_cache := cache\<rparr>) s) else (- 1, s))"

end
