(* ===== verification/Vfs.thy ===== *)
theory Vfs
  imports Vnode
begin

text \<open>
  Paths, mounts and the calls on files of \<open>fs/vfs.c\<close>, and the two routines of \<open>fs/rootfs.c\<close>
  that call back into the vnode layer. A path is a string; \<open>path_to_vnode\<close> cuts it into
  components as it goes and asks the file system of each directory for the next name.
\<close>

section \<open>The calls of a file system\<close>

text \<open>
  The rest of a file system's table of calls. The second argument is the private node of the
  vnode. \<open>call_mount\<close> sets up a new file system under a cookie of its choice and returns the
  number of its root. \<open>call_rename\<close> may be missing.
\<close>

record 'f path_calls =
  call_mount :: "nat \<Rightarrow> 'f vfs \<Rightarrow> ((int \<times> nat \<times> nat) \<times> 'f vfs) outcome"
  call_unmount :: "nat \<Rightarrow> 'f vfs \<Rightarrow> (int \<times> 'f vfs) outcome"
  call_sync :: "nat \<Rightarrow> 'f vfs \<Rightarrow> (int \<times> 'f vfs) outcome"
  call_lookup :: "nat \<Rightarrow> nat ptr \<Rightarrow> string \<Rightarrow> 'f vfs \<Rightarrow> ((int \<times> nat) \<times> 'f vfs) outcome"
  call_create :: "nat \<Rightarrow> nat ptr \<Rightarrow> string \<Rightarrow> stream_type \<Rightarrow> 'f vfs \<Rightarrow> (int \<times> 'f vfs) outcome"
  call_unlink :: "nat \<Rightarrow> nat ptr \<Rightarrow> string \<Rightarrow> 'f vfs \<Rightarrow> (int \<times> 'f vfs) outcome"
  call_rename :: "(nat \<Rightarrow> nat ptr \<Rightarrow> string \<Rightarrow> nat ptr \<Rightarrow> string \<Rightarrow> 'f vfs \<Rightarrow> (int \<times> 'f vfs) outcome) option"
  call_rstat :: "nat \<Rightarrow> nat ptr \<Rightarrow> 'f vfs \<Rightarrow> (int \<times> (nat \<times> nat \<times> nat)) outcome"
  call_wstat :: "nat \<Rightarrow> nat ptr \<Rightarrow> 'f vfs \<Rightarrow> (int \<times> 'f vfs) outcome"

definition SYS_MAX_NAME_LEN :: nat where "SYS_MAX_NAME_LEN = 128"
definition SYS_MAX_PATH_LEN :: nat where "SYS_MAX_PATH_LEN = 512"

text \<open>Functions on a file system's own state, called through the cookie of its mount.\<close>

definition set_fs :: "nat \<Rightarrow> 'f \<Rightarrow> 'f vfs \<Rightarrow> 'f vfs" where
  "set_fs c fs s = s\<lparr>vf_fs := (vf_fs s)(c := fs)\<rparr>"

definition on_fs :: "nat \<Rightarrow> ('f \<Rightarrow> ('r \<times> 'f) outcome) \<Rightarrow> 'f vfs \<Rightarrow> ('r \<times> 'f vfs) outcome" where
  "on_fs c f s = obind (f (vf_fs s c)) (\<lambda>(r, fs). Returns (r, set_fs c fs s))"

definition ERR_VFS_GENERAL :: int where "ERR_VFS_GENERAL = - 3072"
definition ERR_VFS_INVALID_FS :: int where "ERR_VFS_INVALID_FS = - 3072 - 1"
definition ERR_VFS_NOT_MOUNTPOINT :: int where "ERR_VFS_NOT_MOUNTPOINT = - 3072 - 2"
definition ERR_VFS_CROSS_FS_RENAME :: int where "ERR_VFS_CROSS_FS_RENAME = - 3072 - 9"
definition ERR_VFS_ALREADY_MOUNTPOINT :: int where "ERR_VFS_ALREADY_MOUNTPOINT = - 3072 - 13"
definition EBUSY :: int where "EBUSY = LONG_MIN + 14"

lemmas vfs_err_defs [err_defs] =
  ERR_VFS_GENERAL_def ERR_VFS_INVALID_FS_def ERR_VFS_NOT_MOUNTPOINT_def ERR_VFS_CROSS_FS_RENAME_def
  ERR_VFS_ALREADY_MOUNTPOINT_def EBUSY_def

section \<open>Paths\<close>

text \<open>
  The first component of a path that is not empty, and what follows the slashes behind it. The
  first character is taken whatever it is.
\<close>

definition next_component :: "string \<Rightarrow> string \<times> string" where
  "next_component p =
     (hd p # takeWhile (\<lambda>c. c \<noteq> CHR ''/'') (tl p),
      dropWhile (\<lambda>c. c = CHR ''/'') (dropWhile (\<lambda>c. c \<noteq> CHR ''/'') (tl p)))"

lemma next_component_shorter: "p \<noteq> [] \<Longrightarrow> length (snd (next_component p)) < length p"
  by (cases p) (auto simp: next_component_def intro!: le_imp_less_Suc le_trans [OF length_dropWhile_le])

text \<open>At the root of a mount the parent is looked up in the directory the mount covers.\<close>

definition leave_mount :: "'f vfs_env \<Rightarrow> string \<Rightarrow> nat \<Rightarrow> 'f vfs \<Rightarrow> (nat \<times> 'f vfs) outcome" where
  "leave_mount E name curr_v s =
     obind (mount_of curr_v s) (\<lambda>m.
       if name = ''..'' \<and> mt_root (vf_mount s m) = Some curr_v then
         (case mt_covers (vf_mount s m) of
            None \<Rightarrow> Returns (curr_v, s)
          | Some next_v \<Rightarrow>
              obind (inc_vnode_ref_count next_v s) (\<lambda>(_, s1).
              obind (dec_vnode_ref_count E curr_v True False s1) (\<lambda>(_, s2). Returns (next_v, s2))))
       else Returns (curr_v, s))"

text \<open>A directory that is covered by a mount stands for the root of that mount.\<close>

definition enter_mount :: "'f vfs_env \<Rightarrow> nat \<Rightarrow> 'f vfs \<Rightarrow> (nat \<times> 'f vfs) outcome" where
  "enter_mount E curr_v s =
     (if curr_v \<notin> vf_live s then Faults
      else case vn_covered_by (vf_vnode s curr_v) of
        None \<Rightarrow> Returns (curr_v, s)
      | Some next_v \<Rightarrow>
          obind (inc_vnode_ref_count next_v s) (\<lambda>(_, s1).
          obind (dec_vnode_ref_count E curr_v True False s1) (\<lambda>(_, s2). Returns (next_v, s2))))"

function path_loop ::
  "'f vfs_env \<Rightarrow> (nat \<Rightarrow> 'f path_calls) \<Rightarrow> string \<Rightarrow> nat \<Rightarrow> 'f vfs \<Rightarrow> ((int \<times> nat ptr) \<times> 'f vfs) outcome" where
  "path_loop E C p curr_v s =
     (if p = [] then Returns ((0, Some curr_v), s)
      else
        obind (leave_mount E (fst (next_component p)) curr_v s) (\<lambda>(dir, s1).
        obind (mount_of dir s1) (\<lambda>m.
        obind (call_lookup (C (mt_fs (vf_mount s1 m))) (mt_cookie (vf_mount s1 m)) (vn_priv (vf_vnode s1 dir))
                 (fst (next_component p)) s1) (\<lambda>((err, vnid), s2).
          if err < 0 then
            obind (dec_vnode_ref_count E dir True False s2) (\<lambda>(_, s3). Returns ((err, None), s3))
          else
            obind (lookup_vnode (vn_fsid (vf_vnode s2 dir)) vnid s2) (\<lambda>found.
              case found of
                None \<Rightarrow> Faults
              | Some next_v \<Rightarrow>
                  obind (dec_vnode_ref_count E dir True False s2) (\<lambda>(_, s3).
                  obind (enter_mount E next_v s3) (\<lambda>(v, s4).
                    path_loop E C (snd (next_component p)) v s4)))))))"
  by pat_completeness auto
termination
  by (relation "measure (\<lambda>(E, C, p, v, s). length p)") (simp_all add: next_component_shorter)

declare path_loop.simps [simp del]

definition path_to_vnode ::
  "'f vfs_env \<Rightarrow> (nat \<Rightarrow> 'f path_calls) \<Rightarrow> string \<Rightarrow> bool \<Rightarrow> 'f vfs \<Rightarrow> ((int \<times> nat ptr) \<times> 'f vfs) outcome" where
  "path_to_vnode E C path in_kernel s =
     (let absolute = (path \<noteq> [] \<and> hd path = CHR ''/'')
      in case (if absolute then vf_root s else vf_cwd s in_kernel) of
           None \<Rightarrow> Faults
         | Some v \<Rightarrow>
             obind (inc_vnode_ref_count v s) (\<lambda>(_, s1).
               path_loop E C (if absolute then dropWhile (\<lambda>c. c = CHR ''/'') path else path) v s1))"

text \<open>
  The directory of the last component. The name is copied to a buffer of \<open>SYS_MAX_NAME_LEN\<close>
  bytes without a check; the directory is what is left with a dot in place of the name.
\<close>

definition last_component :: "string \<Rightarrow> string" where
  "last_component path = rev (takeWhile (\<lambda>c. c \<noteq> CHR ''/'') (rev path))"

definition dir_part :: "string \<Rightarrow> string" where
  "dir_part path =
     (if CHR ''/'' \<notin> set path then ''.''
      else if last_component path = [] then path
      else take (length path - length (last_component path)) path @ ''.'')"

definition path_to_dir_vnode ::
  "'f vfs_env \<Rightarrow> (nat \<Rightarrow> 'f path_calls) \<Rightarrow> string \<Rightarrow> bool \<Rightarrow> 'f vfs \<Rightarrow> ((int \<times> nat ptr \<times> string) \<times> 'f vfs) outcome" where
  "path_to_dir_vnode E C path in_kernel s =
     (if SYS_MAX_NAME_LEN \<le> length (last_component path) then Faults
      else obind (path_to_vnode E C (dir_part path) in_kernel s) (\<lambda>((err, v), s1).
             Returns ((err, v, last_component path), s1)))"

section \<open>Calls on paths\<close>

text \<open>The common end: the file system is called on the vnode, and the vnode is put back.\<close>

definition call_on ::
  "'f vfs_env \<Rightarrow> (nat \<Rightarrow> 'f path_calls) \<Rightarrow> nat ptr \<Rightarrow> ('f path_calls \<Rightarrow> nat \<Rightarrow> nat ptr \<Rightarrow> 'f vfs \<Rightarrow> (int \<times> 'f vfs) outcome) \<Rightarrow>
   'f vfs \<Rightarrow> (int \<times> 'f vfs) outcome" where
  "call_on E C v f s =
     (case v of
        None \<Rightarrow> Faults
      | Some a \<Rightarrow>
          obind (mount_of a s) (\<lambda>m.
          obind (f (C (mt_fs (vf_mount s m))) (mt_cookie (vf_mount s m)) (vn_priv (vf_vnode s a)) s) (\<lambda>(err, s1).
          obind (dec_vnode_ref_count E a True False s1) (\<lambda>(_, s2). Returns (err, s2)))))"

definition vfs_create ::
  "'f vfs_env \<Rightarrow> (nat \<Rightarrow> 'f path_calls) \<Rightarrow> string \<Rightarrow> stream_type \<Rightarrow> bool \<Rightarrow> 'f vfs \<Rightarrow> (int \<times> 'f vfs) outcome" where
  "vfs_create E C path st in_kernel s =
     obind (path_to_dir_vnode E C path in_kernel s) (\<lambda>((err, v, filename), s1).
       if err < 0 then Returns (err, s1)
       else call_on E C v (\<lambda>calls c p. call_create calls c p filename st) s1)"

definition vfs_unlink ::
  "'f vfs_env \<Rightarrow> (nat \<Rightarrow> 'f path_calls) \<Rightarrow> string \<Rightarrow> bool \<Rightarrow> 'f vfs \<Rightarrow> (int \<times> 'f vfs) outcome" where
  "vfs_unlink E C path in_kernel s =
     obind (path_to_dir_vnode E C path in_kernel s) (\<lambda>((err, v, filename), s1).
       if err < 0 then Returns (err, s1)
       else call_on E C v (\<lambda>calls c p. call_unlink calls c p filename) s1)"

definition vfs_wstat ::
  "'f vfs_env \<Rightarrow> (nat \<Rightarrow> 'f path_calls) \<Rightarrow> string \<Rightarrow> bool \<Rightarrow> 'f vfs \<Rightarrow> (int \<times> 'f vfs) outcome" where
  "vfs_wstat E C path in_kernel s =
     obind (path_to_vnode E C path in_kernel s) (\<lambda>((err, v), s1).
       if err < 0 then Returns (err, s1) else call_on E C v call_wstat s1)"

text \<open>Both vnodes are put back on every way out once they were found.\<close>

definition vfs_rename ::
  "'f vfs_env \<Rightarrow> (nat \<Rightarrow> 'f path_calls) \<Rightarrow> string \<Rightarrow> string \<Rightarrow> bool \<Rightarrow> 'f vfs \<Rightarrow> (int \<times> 'f vfs) outcome" where
  "vfs_rename E C path newpath in_kernel s =
     obind (path_to_dir_vnode E C path in_kernel s) (\<lambda>((err, v1, filename1), s1).
       if err < 0 then Returns (err, s1)
       else case v1 of None \<Rightarrow> Faults | Some a1 \<Rightarrow>
         obind (path_to_dir_vnode E C newpath in_kernel s1) (\<lambda>((err2, v2, filename2), s2).
           if err2 < 0 then
             obind (dec_vnode_ref_count E a1 True False s2) (\<lambda>(_, s3). Returns (err2, s3))
           else case v2 of None \<Rightarrow> Faults | Some a2 \<Rightarrow>
             obind (if vn_fsid (vf_vnode s2 a1) \<noteq> vn_fsid (vf_vnode s2 a2) then Returns (ERR_VFS_CROSS_FS_RENAME, s2)
                    else obind (mount_of a1 s2) (\<lambda>m.
                      case call_rename (C (mt_fs (vf_mount s2 m))) of
                        None \<Rightarrow> Returns (EINVAL, s2)
                      | Some rn \<Rightarrow> rn (mt_cookie (vf_mount s2 m)) (vn_priv (vf_vnode s2 a1)) filename1
                                      (vn_priv (vf_vnode s2 a2)) filename2 s2)) (\<lambda>(err3, s3).
             obind (dec_vnode_ref_count E a2 True False s3) (\<lambda>(_, s4).
             obind (dec_vnode_ref_count E a1 True False s4) (\<lambda>(_, s5). Returns (err3, s5))))))"

definition vfs_get_vnode_from_path ::
  "'f vfs_env \<Rightarrow> (nat \<Rightarrow> 'f path_calls) \<Rightarrow> string \<Rightarrow> bool \<Rightarrow> 'f vfs \<Rightarrow> ((int \<times> nat ptr) \<times> 'f vfs) outcome" where
  "vfs_get_vnode_from_path E C path in_kernel s = path_to_vnode E C (take SYS_MAX_PATH_LEN path) in_kernel s"

definition vfs_put_vnode_ptr :: "'f vfs_env \<Rightarrow> nat \<Rightarrow> 'f vfs \<Rightarrow> (int \<times> 'f vfs) outcome" where
  "vfs_put_vnode_ptr E v s = obind (put_vnode E v s) (\<lambda>s1. Returns (0, s1))"

definition sys_rstat ::
  "'f vfs_env \<Rightarrow> (nat \<Rightarrow> 'f path_calls) \<Rightarrow> string \<Rightarrow> 'f vfs \<Rightarrow> ((int \<times> (nat \<times> nat \<times> nat)) \<times> 'f vfs) outcome" where
  "sys_rstat E C path s =
     obind (path_to_vnode E C (take SYS_MAX_PATH_LEN path) True s) (\<lambda>((err, v), s1).
       if err < 0 then Returns ((err, (0, 0, 0)), s1)
       else case v of None \<Rightarrow> Faults | Some a \<Rightarrow>
         obind (mount_of a s1) (\<lambda>m.
         obind (call_rstat (C (mt_fs (vf_mount s1 m))) (mt_cookie (vf_mount s1 m)) (vn_priv (vf_vnode s1 a)) s1) (\<lambda>st.
         obind (dec_vnode_ref_count E a True False s1) (\<lambda>(_, s2). Returns (st, s2)))))"

text \<open>A directory has the file type \<open>S_IFDIR\<close> in the upper bits of its mode.\<close>

definition S_ISDIR :: "nat \<Rightarrow> bool" where
  "S_ISDIR mode \<longleftrightarrow> mode div 4096 mod 16 = 4"

definition vfs_set_cwd ::
  "'f vfs_env \<Rightarrow> (nat \<Rightarrow> 'f path_calls) \<Rightarrow> string \<Rightarrow> bool \<Rightarrow> 'f vfs \<Rightarrow> (int \<times> 'f vfs) outcome" where
  "vfs_set_cwd E C path in_kernel s =
     obind (path_to_vnode E C path in_kernel s) (\<lambda>((rc, v), s1).
       if rc < 0 then Returns (rc, s1)
       else case v of None \<Rightarrow> Faults | Some a \<Rightarrow>
         obind (mount_of a s1) (\<lambda>m.
         obind (call_rstat (C (mt_fs (vf_mount s1 m))) (mt_cookie (vf_mount s1 m)) (vn_priv (vf_vnode s1 a)) s1) (\<lambda>(rc2, (_, _, mode)).
           if rc2 < 0 then obind (dec_vnode_ref_count E a True False s1) (\<lambda>(_, s2). Returns (rc2, s2))
           else if \<not> S_ISDIR mode then
             obind (dec_vnode_ref_count E a True False s1) (\<lambda>(_, s2). Returns (ERR_VFS_WRONG_STREAM_TYPE, s2))
           else
             (let old_cwd = vf_cwd s1 in_kernel; s2 = s1\<lparr>vf_cwd := (vf_cwd s1)(in_kernel := Some a)\<rparr>
              in case old_cwd of
                   None \<Rightarrow> Returns (B_NO_ERROR, s2)
                 | Some old \<Rightarrow> obind (dec_vnode_ref_count E old True False s2) (\<lambda>(_, s3). Returns (B_NO_ERROR, s3))))))"

section \<open>Mounting\<close>

text \<open>\<open>find_fs\<close>: the position of a name in the list of registered file systems.\<close>

fun find_fs :: "string list \<Rightarrow> string \<Rightarrow> nat option" where
  "find_fs [] n = None"
| "find_fs (x # xs) n = (if x = n then Some 0 else map_option Suc (find_fs xs n))"

text \<open>
  \<open>junk\<close> is what the memory of the new mount held before: the list of its vnodes is never set
  up. \<open>dup\<close> tells whether \<open>kstrdup\<close> got memory for the path. The first part ends with the number
  of the root or with the error whose exit frees the mount.
\<close>

definition mount_on ::
  "'f vfs_env \<Rightarrow> (nat \<Rightarrow> 'f path_calls) \<Rightarrow> nat \<Rightarrow> string \<Rightarrow> bool \<Rightarrow> 'f vfs \<Rightarrow> ((int + nat) \<times> 'f vfs) outcome" where
  "mount_on E C m path in_kernel s =
     (let calls = C (mt_fs (vf_mount s m)) in
      case vf_root s of
        None \<Rightarrow>
          if path \<noteq> ''/'' then Returns (Inl ERR_VFS_GENERAL, s)
          else obind (call_mount calls (mt_id (vf_mount s m)) s) (\<lambda>((err, c, rid), s1).
            if err < 0 then Returns (Inl ERR_VFS_GENERAL, s1)
            else Returns (Inr rid, set_mount m (\<lambda>r. r\<lparr>mt_cookie := c, mt_covers := None\<rparr>) s1))
      | Some root \<Rightarrow>
          obind (path_to_vnode E C path in_kernel s) (\<lambda>((err, covered), s1).
            if err < 0 then Returns (Inl err, s1)
            else case covered of
              None \<Rightarrow> Returns (Inl ERR_VFS_GENERAL, s1)
            | Some cv \<Rightarrow>
                obind (mount_of cv s1) (\<lambda>cm.
                  if cv \<noteq> root \<and> mt_root (vf_mount s1 cm) = Some cv then Returns (Inl ERR_VFS_ALREADY_MOUNTPOINT, s1)
                  else
                    obind (call_mount calls (mt_id (vf_mount s m)) (set_mount m (\<lambda>r. r\<lparr>mt_covers := Some cv\<rparr>) s1)) (\<lambda>((err2, c, rid), s2).
                      if err2 < 0 then
                        obind (dec_vnode_ref_count E cv True False s2) (\<lambda>(_, s3). Returns (Inl err2, s3))
                      else Returns (Inr rid, set_mount m (\<lambda>r. r\<lparr>mt_cookie := c\<rparr>) s2)))))"

definition vfs_mount ::
  "'f vfs_env \<Rightarrow> (nat \<Rightarrow> 'f path_calls) \<Rightarrow> string list \<Rightarrow> bool \<Rightarrow> fs_mount \<Rightarrow> string \<Rightarrow> string \<Rightarrow> bool \<Rightarrow> 'f vfs \<Rightarrow>
   (int \<times> 'f vfs) outcome" where
  "vfs_mount E C reg dup junk path fs_name in_kernel s =
     (case env_alloc E (vf_mounts s) of
        None \<Rightarrow> Returns (ENOMEM, s)
      | Some m \<Rightarrow>
          if \<not> dup then Returns (ENOMEM, s)
          else case find_fs reg fs_name of
            None \<Rightarrow> Returns (ERR_VFS_INVALID_FS, s)
          | Some k \<Rightarrow>
              (let s1 = set_mount m (\<lambda>_. junk\<lparr>mt_fs := k, mt_id := vf_next_fsid s\<rparr>)
                          (s\<lparr>vf_mounts := insert m (vf_mounts s), vf_next_fsid := (vf_next_fsid s + 1) mod 2 ^ 32\<rparr>)
               in obind (mount_on E C m path in_kernel s1) (\<lambda>(rid, s2).
                    case rid of
                      Inl err \<Rightarrow> Returns (err, s2\<lparr>vf_mounts := vf_mounts s2 - {m}\<rparr>)
                    | Inr i \<Rightarrow>
                        (let s3 = set_mounts_table (snd (hash_insert m (mounts_table s2))) s2
                         in obind (get_vnode E (mt_id (vf_mount s3 m)) i False s3) (\<lambda>((err, root), s4).
                              if err < 0 then
                                obind (call_unmount (C k) (mt_cookie (vf_mount s4 m)) s4) (\<lambda>(_, s5).
                                obind (case mt_covers (vf_mount s5 m) of
                                         None \<Rightarrow> Returns s5
                                       | Some cv \<Rightarrow> obind (dec_vnode_ref_count E cv True False s5) (\<lambda>(_, s6). Returns s6))
                                  (\<lambda>s6. Returns (err, s6\<lparr>vf_mounts := vf_mounts s6 - {m}\<rparr>)))
                              else
                                (let s5 = set_mount m (\<lambda>r. r\<lparr>mt_root := root\<rparr>) s4;
                                     s6 = (case mt_covers (vf_mount s5 m) of
                                             None \<Rightarrow> s5 | Some cv \<Rightarrow> set_vnode cv (\<lambda>r. r\<lparr>vn_covered_by := root\<rparr>) s5)
                                 in Returns (0, if vf_root s6 = None then s6\<lparr>vf_root := root\<rparr> else s6)))))))"

text \<open>
  Unmounting. The vnodes of the mount must all be unused but the root with its two references,
  which are taken off the counter for the test and are not put back before they are released.
\<close>

partial_function (option) any_in_use :: "nat ptr \<Rightarrow> 'f vfs \<Rightarrow> bool outcome option" where
  "any_in_use v s =
     (case v of
        None \<Rightarrow> Some (Returns False)
      | Some a \<Rightarrow>
          if a \<notin> vf_live s then Some Faults
          else if vn_busy (vf_vnode s a) \<or> vn_ref_count (vf_vnode s a) \<noteq> 0 then Some (Returns True)
          else any_in_use (vn_mount_next (vf_vnode s a)) s)"

partial_function (option) mark_busy :: "nat ptr \<Rightarrow> nat \<Rightarrow> 'f vfs \<Rightarrow> 'f vfs outcome option" where
  "mark_busy v root s =
     (case v of
        None \<Rightarrow> Some (Returns s)
      | Some a \<Rightarrow>
          if a \<notin> vf_live s then Some Faults
          else mark_busy (vn_mount_next (vf_vnode s a)) root
                 (if a \<noteq> root then set_vnode a (\<lambda>r. r\<lparr>vn_busy := True\<rparr>) s else s))"

definition release_mount ::
  "'f vfs_env \<Rightarrow> (nat \<Rightarrow> 'f path_calls) \<Rightarrow> nat \<Rightarrow> nat \<Rightarrow> 'f vfs \<Rightarrow> (int \<times> 'f vfs) outcome" where
  "release_mount E C m root s =
     obind (looped_outcome (mark_busy (mt_head (vf_mount s m)) root s)) (\<lambda>s1.
       case mt_covers (vf_mount s1 m) of
         None \<Rightarrow> Faults
       | Some cv \<Rightarrow>
           if cv \<notin> vf_live s1 then Faults
           else
             obind (dec_vnode_ref_count E cv True False (set_vnode cv (\<lambda>r. r\<lparr>vn_covered_by := None\<rparr>) s1)) (\<lambda>(_, s2).
             obind (dec_vnode_ref_count E root True False s2) (\<lambda>(_, s3).
             obind (dec_vnode_ref_count E root True False s3) (\<lambda>(_, s4).
             obind (looped (hash_remove m (mounts_table s4))) (\<lambda>(_, t).
             obind (call_unmount (C (mt_fs (vf_mount s4 m))) (mt_cookie (vf_mount s4 m)) (set_mounts_table t s4)) (\<lambda>(_, s5).
               Returns (0, s5\<lparr>vf_mounts := vf_mounts s5 - {m}\<rparr>)))))))"

definition vfs_unmount ::
  "'f vfs_env \<Rightarrow> (nat \<Rightarrow> 'f path_calls) \<Rightarrow> string \<Rightarrow> bool \<Rightarrow> 'f vfs \<Rightarrow> (int \<times> 'f vfs) outcome" where
  "vfs_unmount E C path in_kernel s =
     obind (path_to_vnode E C path in_kernel s) (\<lambda>((err, v), s1).
       if err < 0 then Returns (ERR_VFS_PATH_NOT_FOUND, s1)
       else case v of None \<Rightarrow> Faults | Some a \<Rightarrow>
         obind (fsid_to_mount (vn_fsid (vf_vnode s1 a)) s1) (\<lambda>mnt.
           case mnt of None \<Rightarrow> Faults | Some m \<Rightarrow>
             if mt_root (vf_mount s1 m) \<noteq> Some a then
               obind (dec_vnode_ref_count E a True False s1) (\<lambda>(_, s2). Returns (ERR_VFS_NOT_MOUNTPOINT, s2))
             else
               (let s2 = set_vnode a (\<lambda>r. r\<lparr>vn_ref_count := i32 (vn_ref_count r - 2)\<rparr>) s1
                in obind (looped_outcome (any_in_use (mt_head (vf_mount s2 m)) s2)) (\<lambda>used.
                     if used then
                       obind (dec_vnode_ref_count E a True False
                                (set_vnode a (\<lambda>r. r\<lparr>vn_ref_count := i32 (vn_ref_count r + 2)\<rparr>) s2)) (\<lambda>(_, s3).
                         Returns (EBUSY, s3))
                     else release_mount E C m a s2))))"

partial_function (option) sync_loop ::
  "(nat \<Rightarrow> 'f path_calls) \<Rightarrow> hash_iterator \<Rightarrow> 'f vfs \<Rightarrow> 'f vfs outcome option" where
  "sync_loop C i s =
     (case hash_next (mounts_table s) i of
        (None, _) \<Rightarrow> Some (Returns s)
      | (Some m, i') \<Rightarrow>
          (case call_sync (C (mt_fs (vf_mount s m))) (mt_cookie (vf_mount s m)) s of
             Returns (_, s1) \<Rightarrow> sync_loop C i' s1
           | Faults \<Rightarrow> Some Faults
           | Blocks \<Rightarrow> Some Blocks))"

definition vfs_sync :: "(nat \<Rightarrow> 'f path_calls) \<Rightarrow> 'f vfs \<Rightarrow> (int \<times> 'f vfs) outcome" where
  "vfs_sync C s =
     obind (looped_outcome (sync_loop C (hash_rewind \<lparr>hi_ptr = None, hi_bucket = 0\<rparr>) s)) (\<lambda>s1. Returns (0, s1))"

section \<open>Calls from the kernel and from user land\<close>

text \<open>The kernel's paths are cut to the size of the buffer they are copied to.\<close>

definition sys_mount where
  "sys_mount E C reg dup junk path fs_name s = vfs_mount E C reg dup junk (take SYS_MAX_PATH_LEN path) fs_name True s"

definition sys_unmount where
  "sys_unmount E C path s = vfs_unmount E C (take SYS_MAX_PATH_LEN path) True s"

definition sys_create where
  "sys_create E C path st s = vfs_create E C (take SYS_MAX_PATH_LEN path) st True s"

definition sys_unlink where
  "sys_unlink E C path s = vfs_unlink E C (take SYS_MAX_PATH_LEN path) True s"

definition sys_rename where
  "sys_rename E C oldpath newpath s =
     vfs_rename E C (take SYS_MAX_PATH_LEN oldpath) (take SYS_MAX_PATH_LEN newpath) True s"

definition sys_wstat where
  "sys_wstat E C path s = vfs_wstat E C (take SYS_MAX_PATH_LEN path) True s"

definition sys_setcwd where
  "sys_setcwd E C path s = vfs_set_cwd E C (take (SYS_MAX_PATH_LEN - 1) path) True s"

text \<open>A path in user memory, up to its zero or the room in the buffer; unmount does not check its address.\<close>

definition user_path :: "umem \<Rightarrow> nat \<Rightarrow> nat \<Rightarrow> int + string" where
  "user_path um a n =
     (case user_strncpy_in um a n of
        (bs, rc) \<Rightarrow> if rc < 0 then Inl rc else Inr (map (\<lambda>b. char_of (unat b)) (takeWhile (\<lambda>b. b \<noteq> 0) bs)))"

definition with_user_path ::
  "umem \<Rightarrow> nat \<Rightarrow> nat \<Rightarrow> (string \<Rightarrow> 'f vfs \<Rightarrow> (int \<times> 'f vfs) outcome) \<Rightarrow> 'f vfs \<Rightarrow> (int \<times> 'f vfs) outcome" where
  "with_user_path um a n f s = (case user_path um a n of Inl e \<Rightarrow> Returns (e, s) | Inr p \<Rightarrow> f p s)"

definition user_mount where
  "user_mount E C reg dup junk um upath udevice ufs_name s =
     (if kernel_addr upath \<or> kernel_addr ufs_name \<or> (case udevice of None \<Rightarrow> False | Some d \<Rightarrow> kernel_addr d)
      then Returns (ERR_VM_BAD_USER_MEMORY, s)
      else with_user_path um upath SYS_MAX_PATH_LEN (\<lambda>path.
           with_user_path um ufs_name SYS_MAX_OS_NAME_LEN (\<lambda>fs_name s1.
             case udevice of
               None \<Rightarrow> vfs_mount E C reg dup junk path fs_name False s1
             | Some d \<Rightarrow> with_user_path um d SYS_MAX_PATH_LEN (\<lambda>_. vfs_mount E C reg dup junk path fs_name False) s1)) s)"

definition user_unmount where
  "user_unmount E C um upath s = with_user_path um upath SYS_MAX_PATH_LEN (\<lambda>p. vfs_unmount E C p False) s"

definition user_create where
  "user_create E C um upath st s =
     (if kernel_addr upath then Returns (ERR_VM_BAD_USER_MEMORY, s)
      else with_user_path um upath (SYS_MAX_PATH_LEN - 1) (\<lambda>p. vfs_create E C p st False) s)"

definition user_unlink where
  "user_unlink E C um upath s =
     (if kernel_addr upath then Returns (ERR_VM_BAD_USER_MEMORY, s)
      else with_user_path um upath SYS_MAX_PATH_LEN (\<lambda>p. vfs_unlink E C p False) s)"

definition user_rename where
  "user_rename E C um uoldpath unewpath s =
     (if kernel_addr uoldpath \<or> kernel_addr unewpath then Returns (ERR_VM_BAD_USER_MEMORY, s)
      else with_user_path um uoldpath SYS_MAX_PATH_LEN (\<lambda>old_path.
           with_user_path um unewpath SYS_MAX_PATH_LEN (\<lambda>n. vfs_rename E C old_path n False)) s)"

definition user_setcwd where
  "user_setcwd E C um upath s =
     (if kernel_addr upath then Returns (ERR_VM_BAD_USER_MEMORY, s)
      else with_user_path um upath (SYS_MAX_PATH_LEN - 1) (\<lambda>p. vfs_set_cwd E C p False) s)"

section \<open>The root file system behind the vnode layer\<close>

definition rootfs_ops :: "rootfs vnode_ops" where
  "rootfs_ops =
     \<lparr>op_getvnode = (\<lambda>c i r. on_fs c (rootfs_getvnode i r)),
      op_putvnode = (\<lambda>c v r. on_fs c (rootfs_putvnode v r)),
      op_removevnode = (\<lambda>c v r s. case v of None \<Rightarrow> Faults | Some a \<Rightarrow> on_fs c (rootfs_removevnode a r) s)\<rparr>"

definition fs_unlock_at :: "nat \<Rightarrow> rootfs vfs \<Rightarrow> rootfs vfs" where
  "fs_unlock_at c s = set_fs c (fs_unlock (vf_fs s c)) s"

text \<open>
  A lookup takes a reference to what it found, and an unlink tells the vnode layer to delete the
  node with its last reference. Both hold the mutex while they do.
\<close>

definition rootfs_lookup ::
  "rootfs vfs_env \<Rightarrow> nat \<Rightarrow> nat \<Rightarrow> string \<Rightarrow> rootfs vfs \<Rightarrow> ((int \<times> nat) \<times> rootfs vfs) outcome" where
  "rootfs_lookup E c dir name s =
     obind (fs_lock (vf_fs s c)) (\<lambda>fs1.
     obind (rootfs_find_in_dir dir name fs1) (\<lambda>v.
       case v of
         None \<Rightarrow> Returns ((ENOENT, 0), fs_unlock_at c (set_fs c fs1 s))
       | Some a \<Rightarrow>
           if a \<notin> rf_live fs1 then Faults
           else
             obind (vfs_get_vnode E (rf_id fs1) (rn_id (rf_node fs1 a)) (set_fs c fs1 s)) (\<lambda>((err, _), s2).
               if err < 0 then Returns ((err, 0), fs_unlock_at c s2)
               else Returns ((B_NO_ERROR, rn_id (rf_node (vf_fs s2 c) a)), fs_unlock_at c s2))))"

definition rootfs_unlink ::
  "nat \<Rightarrow> nat \<Rightarrow> string \<Rightarrow> rootfs vfs \<Rightarrow> (int \<times> rootfs vfs) outcome" where
  "rootfs_unlink c dir name s =
     obind (fs_lock (vf_fs s c)) (\<lambda>fs1.
     obind (rootfs_find_in_dir dir name fs1) (\<lambda>v.
       case v of
         None \<Rightarrow> Returns (ERR_VFS_PATH_NOT_FOUND, fs_unlock_at c (set_fs c fs1 s))
       | Some a \<Rightarrow>
           if a \<notin> rf_live fs1 then Faults
           else if \<not> rootfs_is_dir_empty a fs1 then Returns (ERR_VFS_DIR_NOT_EMPTY, fs_unlock_at c (set_fs c fs1 s))
           else
             obind (rootfs_remove_from_dir dir a fs1) (\<lambda>(_, fs2).
             obind (vfs_remove_vnode (rf_id fs2) (rn_id (rf_node fs2 a)) (set_fs c fs2 s)) (\<lambda>(_, s2).
               Returns (0, fs_unlock_at c s2)))))"

text \<open>
  Unmounting deletes every node under the iterator that goes through them: the iterator then
  looks for the successor of a node that was freed.
\<close>

partial_function (option) delete_all :: "hash_iterator \<Rightarrow> rootfs \<Rightarrow> rootfs outcome option" where
  "delete_all i fs =
     (if (case hi_ptr i of None \<Rightarrow> False | Some p \<Rightarrow> p \<notin> rf_live fs) then Some Faults
      else case hash_next (node_table fs) i of
        (None, _) \<Rightarrow> Some (Returns fs)
      | (Some v, i') \<Rightarrow>
          (case rootfs_delete_vnode v True fs of
             Returns (_, fs1) \<Rightarrow> delete_all i' fs1
           | Faults \<Rightarrow> Some Faults
           | Blocks \<Rightarrow> Some Blocks))"

definition rootfs_unmount :: "rootfs vfs_env \<Rightarrow> nat \<Rightarrow> rootfs vfs \<Rightarrow> (int \<times> rootfs vfs) outcome" where
  "rootfs_unmount E c s =
     (let fs = vf_fs s c in
      if rf_root fs \<notin> rf_live fs then Faults
      else
        obind (vfs_put_vnode E (rf_id fs) (rn_id (rf_node fs (rf_root fs))) s) (\<lambda>(_, s1).
        obind (looped_outcome (delete_all (hash_rewind \<lparr>hi_ptr = None, hi_bucket = 0\<rparr>) (vf_fs s1 c))) (\<lambda>fs2.
          Returns (0, set_fs c fs2 s1))))"

definition rootfs_sync :: "nat \<Rightarrow> rootfs vfs \<Rightarrow> (int \<times> rootfs vfs) outcome" where
  "rootfs_sync c s = Returns (0, s)"

text \<open>
  The table of calls. A node that is not there is a \<open>NULL\<close> pointer. \<open>place\<close> is where \<open>kmalloc\<close>
  puts the object of a new mount, \<open>junk\<close> its memory, \<open>alloc\<close> and \<open>dup\<close> the memory for nodes and names.
\<close>

definition need :: "nat ptr \<Rightarrow> (nat \<Rightarrow> 'r outcome) \<Rightarrow> 'r outcome" where
  "need v f = (case v of None \<Rightarrow> Faults | Some a \<Rightarrow> f a)"

definition rootfs_calls :: "rootfs vfs_env \<Rightarrow> kernel_alloc \<Rightarrow> bool \<Rightarrow> (rootfs vfs \<Rightarrow> nat ptr) \<Rightarrow> rootfs \<Rightarrow> rootfs path_calls" where
  "rootfs_calls E alloc dup place junk =
     \<lparr>call_mount = (\<lambda>i s. case place s of
          None \<Rightarrow> Returns ((ERR_NO_MEMORY, 0, 0), s)
        | Some c \<Rightarrow> obind (rootfs_mount alloc dup junk i) (\<lambda>(err, rid, fs). Returns ((err, c, rid), set_fs c fs s))),
      call_unmount = rootfs_unmount E,
      call_sync = rootfs_sync,
      call_lookup = (\<lambda>c v n s. need v (\<lambda>d. rootfs_lookup E c d n s)),
      call_create = (\<lambda>c v n st s. need v (\<lambda>d. on_fs c (rootfs_create alloc dup d n st) s)),
      call_unlink = (\<lambda>c v n s. need v (\<lambda>d. rootfs_unlink c d n s)),
      call_rename = Some (\<lambda>c v n w n' s. need v (\<lambda>d. need w (\<lambda>e. on_fs c (rootfs_rename dup d n e n') s))),
      call_rstat = (\<lambda>c v s. need v (\<lambda>d. rootfs_rstat d (vf_fs s c))),
      call_wstat = (\<lambda>c v s. need v (\<lambda>d. on_fs c (rootfs_wstat d) s))\<rparr>"

section \<open>The start of the layer\<close>

text \<open>\<open>vfs_init\<close> with memory for the two tables: nothing is mounted.\<close>

definition vfs_init :: "(nat \<Rightarrow> 'f) \<Rightarrow> (nat \<Rightarrow> vnode) \<Rightarrow> (nat \<Rightarrow> fs_mount) \<Rightarrow> next_heap \<Rightarrow> 'f vfs" where
  "vfs_init fs vmem mmem nx =
     \<lparr>vf_vnode = vmem, vf_live = {},
      vf_table = \<lparr>ht_table = (\<lambda>i. None), ht_size = VNODE_HASH_TABLE_SIZE, ht_num_elems = 0,
                  ht_compare = Some (vnode_compare vmem), ht_hash = vnode_hash vmem\<rparr>, vf_next = nx,
      vf_mount = mmem, vf_mounts = {},
      vf_mtable = \<lparr>ht_table = (\<lambda>i. None), ht_size = MOUNTS_HASH_TABLE_SIZE, ht_num_elems = 0,
                   ht_compare = Some (mount_compare mmem), ht_hash = mount_hash mmem\<rparr>, vf_mnext = nx,
      vf_root = None, vf_cwd = (\<lambda>_. None), vf_next_fsid = 0, vf_fs = fs\<rparr>"

end
