(* ===== verification/Rootfs_Props.thy ===== *)
theory Rootfs_Props
  imports Rootfs
begin

text \<open>
  What \<open>fs/rootfs.c\<close> promises: the nodes form a forest of directories whose entries have
  different names, every node is in the table under its id, and each operation changes the
  entries of one directory as its name says. \<open>kids d\<close> is the list of the entries of \<open>d\<close>.
\<close>

section \<open>The invariant\<close>

text \<open>
  An entry's parent is its directory and has the smaller id, so the parents lead to the root.
  A node that is in no directory has no successor: the root, and nodes that were unlinked.
\<close>

definition dirs_ok :: "(nat \<Rightarrow> rootfs_vnode) \<Rightarrow> nat set \<Rightarrow> (nat \<Rightarrow> nat list) \<Rightarrow> bool" where
  "dirs_ok m L kids \<longleftrightarrow>
     (\<forall>d \<in> L. chain (\<lambda>a. rn_dir_next (m a)) (rn_dir_head (m d)) (kids d) \<and>
        inj_on (\<lambda>c. rn_name (m c)) (set (kids d)) \<and>
        (\<forall>c \<in> set (kids d). c \<in> L \<and> rn_parent (m c) = Some d \<and> rn_id (m d) < rn_id (m c) \<and>
            rn_name (m c) \<noteq> ''.'' \<and> rn_name (m c) \<noteq> ''..'')) \<and>
     (\<forall>v \<in> L. length (rn_name (m v)) < rn_room (m v) \<and> rn_parent (m v) \<noteq> None \<and>
        ((\<forall>d \<in> L. v \<notin> set (kids d)) \<longrightarrow> rn_dir_next (m v) = None))"

text \<open>An open directory: its cookie points to one of its entries or to the end.\<close>

definition jars_ok :: "rootfs \<Rightarrow> (nat \<Rightarrow> nat list) \<Rightarrow> bool" where
  "jars_ok fs kids \<longleftrightarrow>
     (\<forall>d \<in> rf_live fs. \<exists>cs. chain (\<lambda>c. rc_next (rf_cookie fs c)) (rn_jar_head (rf_node fs d)) cs \<and>
        (\<forall>c \<in> set cs. c \<in> rf_cookies fs \<and> (\<forall>e. rc_ptr (rf_cookie fs c) = Some e \<longrightarrow> e \<in> set (kids d))))"

definition nodes_ok :: "rootfs \<Rightarrow> bool" where
  "nodes_ok fs \<longleftrightarrow>
     rootnodes.indexes (rf_node fs) (node_table fs) (rf_live fs) \<and> rf_root fs \<in> rf_live fs \<and>
     rn_parent (rf_node fs (rf_root fs)) = Some (rf_root fs) \<and>
     (\<forall>v \<in> rf_live fs. rn_id (rf_node fs v) < rf_next_vnode_id fs)"

definition rootfs_ok :: "rootfs \<Rightarrow> (nat \<Rightarrow> nat list) \<Rightarrow> bool" where
  "rootfs_ok fs kids \<longleftrightarrow> nodes_ok fs \<and> dirs_ok (rf_node fs) (rf_live fs) kids \<and> jars_ok fs kids"

text \<open>A node that can be reached by names: the root or an entry of a directory.\<close>

definition attached :: "rootfs \<Rightarrow> (nat \<Rightarrow> nat list) \<Rightarrow> nat \<Rightarrow> bool" where
  "attached fs kids v \<longleftrightarrow> v \<in> rf_live fs \<and> (v = rf_root fs \<or> (\<exists>d \<in> rf_live fs. v \<in> set (kids d)))"

text \<open>The entry with a name.\<close>

definition entry :: "rootfs \<Rightarrow> (nat \<Rightarrow> nat list) \<Rightarrow> nat \<Rightarrow> string \<Rightarrow> nat ptr" where
  "entry fs kids d n =
     (if n = ''.'' then Some d else if n = ''..'' then rn_parent (rf_node fs d)
      else find (\<lambda>c. rn_name (rf_node fs c) = n) (kids d))"

lemma set_node_fields [simp]:
  "rf_id (set_node v f fs) = rf_id fs" "rf_lock (set_node v f fs) = rf_lock fs"
  "rf_next_vnode_id (set_node v f fs) = rf_next_vnode_id fs" "rf_table (set_node v f fs) = rf_table fs"
  "rf_all_next (set_node v f fs) = rf_all_next fs" "rf_root (set_node v f fs) = rf_root fs"
  "rf_node (set_node v f fs) = (rf_node fs)(v := f (rf_node fs v))" "rf_live (set_node v f fs) = rf_live fs"
  "rf_cookie (set_node v f fs) = rf_cookie fs" "rf_cookies (set_node v f fs) = rf_cookies fs"
  by (simp_all add: set_node_def)

lemma set_node_same: "f (rf_node fs v) = rf_node fs v \<Longrightarrow> set_node v f fs = fs"
  by (simp add: set_node_def)

lemma set_cookie_fields [simp]:
  "rf_id (set_cookie c f fs) = rf_id fs" "rf_lock (set_cookie c f fs) = rf_lock fs"
  "rf_next_vnode_id (set_cookie c f fs) = rf_next_vnode_id fs" "rf_table (set_cookie c f fs) = rf_table fs"
  "rf_all_next (set_cookie c f fs) = rf_all_next fs" "rf_root (set_cookie c f fs) = rf_root fs"
  "rf_node (set_cookie c f fs) = rf_node fs" "rf_live (set_cookie c f fs) = rf_live fs"
  "rf_cookie (set_cookie c f fs) = (rf_cookie fs)(c := f (rf_cookie fs c))" "rf_cookies (set_cookie c f fs) = rf_cookies fs"
  by (simp_all add: set_cookie_def)

lemma set_node_table_fields [simp]:
  "rf_id (set_node_table t fs) = rf_id fs" "rf_lock (set_node_table t fs) = rf_lock fs"
  "rf_next_vnode_id (set_node_table t fs) = rf_next_vnode_id fs" "rf_table (set_node_table t fs) = fst t"
  "rf_all_next (set_node_table t fs) = snd t" "rf_root (set_node_table t fs) = rf_root fs"
  "rf_node (set_node_table t fs) = rf_node fs" "rf_live (set_node_table t fs) = rf_live fs"
  "rf_cookie (set_node_table t fs) = rf_cookie fs" "rf_cookies (set_node_table t fs) = rf_cookies fs"
  by (simp_all add: set_node_table_def)

lemma fs_unlock_fields [simp]:
  "rf_id (fs_unlock fs) = rf_id fs" "rf_lock (fs_unlock fs) = rf_lock fs - 1"
  "rf_next_vnode_id (fs_unlock fs) = rf_next_vnode_id fs" "rf_table (fs_unlock fs) = rf_table fs"
  "rf_all_next (fs_unlock fs) = rf_all_next fs" "rf_root (fs_unlock fs) = rf_root fs"
  "rf_node (fs_unlock fs) = rf_node fs" "rf_live (fs_unlock fs) = rf_live fs"
  "rf_cookie (fs_unlock fs) = rf_cookie fs" "rf_cookies (fs_unlock fs) = rf_cookies fs"
  by (simp_all add: fs_unlock_def)

lemma fs_lock_free: "rf_lock fs = 0 \<Longrightarrow> fs_lock fs = Returns (fs\<lparr>rf_lock := 1\<rparr>)"
  by (simp add: fs_lock_def)

lemma fs_unlock_back: "rf_lock fs = 0 \<Longrightarrow> fs_unlock (fs\<lparr>rf_lock := 1\<rparr>) = fs"
  by (simp add: fs_unlock_def)

text \<open>The invariant does not look at the mutex.\<close>

lemma rootfs_ok_lock [simp]: "rootfs_ok (fs\<lparr>rf_lock := k\<rparr>) kids = rootfs_ok fs kids"
  by (simp add: rootfs_ok_def nodes_ok_def jars_ok_def node_table_def)

lemma rootfs_ok_unlock [simp]: "rootfs_ok (fs_unlock fs) kids = rootfs_ok fs kids"
  by (simp add: fs_unlock_def)

lemma attached_lock [simp]: "attached (fs\<lparr>rf_lock := k\<rparr>) kids v = attached fs kids v"
  by (simp add: attached_def)

lemma entry_lock [simp]: "entry (fs\<lparr>rf_lock := k\<rparr>) kids d n = entry fs kids d n"
  by (simp add: entry_def)

lemma dirs_okD:
  assumes "dirs_ok m L kids" and "d \<in> L"
  shows "chain (\<lambda>a. rn_dir_next (m a)) (rn_dir_head (m d)) (kids d)"
    and "distinct (kids d)" and "inj_on (\<lambda>c. rn_name (m c)) (set (kids d))"
    and "c \<in> set (kids d) \<Longrightarrow> c \<in> L \<and> rn_parent (m c) = Some d \<and> rn_id (m d) < rn_id (m c) \<and>
            rn_name (m c) \<noteq> ''.'' \<and> rn_name (m c) \<noteq> ''..''"
    and "length (rn_name (m d)) < rn_room (m d)"
    and "(\<And>e. e \<in> L \<Longrightarrow> d \<notin> set (kids e)) \<Longrightarrow> rn_dir_next (m d) = None"
    and "rn_parent (m d) \<noteq> None"
  using assms by (auto simp: dirs_ok_def dest: chain_distinct)

lemma dirs_okI:
  assumes "\<And>d. d \<in> L \<Longrightarrow> chain (\<lambda>a. rn_dir_next (m a)) (rn_dir_head (m d)) (kids d)"
    and "\<And>d. d \<in> L \<Longrightarrow> inj_on (\<lambda>c. rn_name (m c)) (set (kids d))"
    and "\<And>d c. d \<in> L \<Longrightarrow> c \<in> set (kids d) \<Longrightarrow> c \<in> L \<and> rn_parent (m c) = Some d \<and> rn_id (m d) < rn_id (m c) \<and>
           rn_name (m c) \<noteq> ''.'' \<and> rn_name (m c) \<noteq> ''..''"
    and "\<And>v. v \<in> L \<Longrightarrow> length (rn_name (m v)) < rn_room (m v) \<and> rn_parent (m v) \<noteq> None \<and>
           ((\<forall>d \<in> L. v \<notin> set (kids d)) \<longrightarrow> rn_dir_next (m v) = None)"
  shows "dirs_ok m L kids"
  using assms unfolding dirs_ok_def by blast

lemma rootfs_okD:
  assumes "rootfs_ok fs kids"
  shows "nodes_ok fs" and "dirs_ok (rf_node fs) (rf_live fs) kids" and "jars_ok fs kids"
    and "rootnodes.indexes (rf_node fs) (node_table fs) (rf_live fs)" and "rf_root fs \<in> rf_live fs"
    and "rn_parent (rf_node fs (rf_root fs)) = Some (rf_root fs)"
    and "v \<in> rf_live fs \<Longrightarrow> rn_id (rf_node fs v) < rf_next_vnode_id fs"
  using assms by (auto simp: rootfs_ok_def nodes_ok_def)

text \<open>A node is an entry of one directory only, and the root of none.\<close>

lemma one_parent:
  assumes "dirs_ok m L kids" and "d \<in> L" "e \<in> L" and "c \<in> set (kids d)" "c \<in> set (kids e)"
  shows "d = e"
  using dirs_okD(4) [OF assms(1,2,4)] dirs_okD(4) [OF assms(1,3,5)] by simp

lemma root_no_entry:
  assumes "rootfs_ok fs kids" and "d \<in> rf_live fs"
  shows "rf_root fs \<notin> set (kids d)"
  using dirs_okD(4) [OF rootfs_okD(2) [OF assms(1)] assms(2)] rootfs_okD(6) [OF assms(1)] by fastforce

lemma attached_parent:
  assumes "rootfs_ok fs kids" and "attached fs kids v"
  shows "\<exists>d. rn_parent (rf_node fs v) = Some d \<and> d \<in> rf_live fs"
  using assms dirs_okD(4) [OF rootfs_okD(2) [OF assms(1)]] rootfs_okD(5,6) [OF assms(1)]
  by (auto simp: attached_def)

section \<open>Looking up names and ids\<close>

lemma find_entry_spec:
  assumes "chain (\<lambda>a. rn_dir_next (rf_node fs a)) p cs" and "set cs \<subseteq> rf_live fs"
  shows "find_entry fs n p = Some (Returns (find (\<lambda>c. rn_name (rf_node fs c) = n) cs))"
  using assms
proof (induction cs arbitrary: p)
  case Nil
  then show ?case by (simp add: find_entry.simps)
next
  case (Cons c cs)
  then show ?case by (subst find_entry.simps) auto
qed

lemma find_in_dir_spec:
  assumes "rootfs_ok fs kids" and "d \<in> rf_live fs"
  shows "rootfs_find_in_dir d n fs = Returns (entry fs kids d n)"
proof -
  note k = dirs_okD [OF rootfs_okD(2) [OF assms(1)] assms(2)]
  have "find_entry fs n (rn_dir_head (rf_node fs d)) = Some (Returns (find (\<lambda>c. rn_name (rf_node fs c) = n) (kids d)))"
    by (rule find_entry_spec [OF k(1)]) (use k(4) in blast)
  with assms(2) show ?thesis by (simp add: rootfs_find_in_dir_def entry_def looped_outcome_def)
qed

text \<open>The node with an id.\<close>

definition node_with :: "rootfs \<Rightarrow> nat \<Rightarrow> nat ptr" where
  "node_with fs i = (if \<exists>v \<in> rf_live fs. rn_id (rf_node fs v) = i
                     then Some (THE v. v \<in> rf_live fs \<and> rn_id (rf_node fs v) = i) else None)"

lemma node_with_live:
  assumes "rootfs_ok fs kids" and "v \<in> rf_live fs"
  shows "node_with fs (rn_id (rf_node fs v)) = Some v"
proof -
  have "inj_on (\<lambda>a. rn_id (rf_node fs a)) (rf_live fs)"
    by (rule rootnodes.indexes_inj [OF rootfs_okD(4) [OF assms(1)]])
  with assms(2) have "(THE w. w \<in> rf_live fs \<and> rn_id (rf_node fs w) = rn_id (rf_node fs v)) = v"
    by (intro the_equality) (auto dest: inj_onD)
  with assms(2) show ?thesis by (auto simp: node_with_def)
qed

lemma node_with_Some:
  assumes "rootfs_ok fs kids"
  shows "node_with fs i = Some v \<longleftrightarrow> v \<in> rf_live fs \<and> rn_id (rf_node fs v) = i"
proof
  assume w: "node_with fs i = Some v"
  then obtain u where "u \<in> rf_live fs" "rn_id (rf_node fs u) = i" by (auto simp: node_with_def split: if_splits)
  with node_with_live [OF assms, of u] w show "v \<in> rf_live fs \<and> rn_id (rf_node fs v) = i" by auto
qed (use node_with_live [OF assms, of v] in auto)

lemma node_with_lock [simp]: "node_with (fs\<lparr>rf_lock := k\<rparr>) i = node_with fs i"
  by (simp add: node_with_def)

lemma hash_lookup_spec:
  assumes "rootfs_ok fs kids"
  shows "hash_lookup i (node_table fs) = Some (node_with fs i)"
proof (cases "node_with fs i")
  case None
  then have "i \<notin> (\<lambda>a. rn_id (rf_node fs a)) ` rf_live fs" by (auto simp: node_with_def split: if_splits)
  from rootnodes.indexes_missing [OF rootfs_okD(4) [OF assms] this] None show ?thesis by simp
next
  case (Some v)
  with node_with_Some [OF assms] have "v \<in> rf_live fs" "rn_id (rf_node fs v) = i" by auto
  with rootnodes.indexes_found [OF rootfs_okD(4) [OF assms] this(1)] Some show ?thesis by simp
qed

lemma getvnode_spec:
  assumes "rootfs_ok fs kids" and "r \<or> rf_lock fs = 0"
  shows "rootfs_getvnode i r fs = Returns ((if node_with fs i = None then ERR_NOT_FOUND else 0, node_with fs i), fs)"
proof (cases r)
  case True
  with hash_lookup_spec [OF assms(1)] show ?thesis
    by (simp add: rootfs_getvnode_def lock_unless_def unlock_unless_def looped_def)
next
  case False
  with assms have "rf_lock fs = 0" and ok: "rootfs_ok (fs\<lparr>rf_lock := 1\<rparr>) kids" by simp_all
  with False hash_lookup_spec [OF ok] show ?thesis
    by (simp add: rootfs_getvnode_def lock_unless_def unlock_unless_def fs_lock_free looped_def fs_unlock_back)
qed

section \<open>What the operations leave alone\<close>

definition keeps_nodes :: "nat set \<Rightarrow> rootfs \<Rightarrow> rootfs \<Rightarrow> bool" where
  "keeps_nodes S fs fs' \<longleftrightarrow>
     rf_root fs' = rf_root fs \<and> rf_id fs' = rf_id fs \<and> rf_lock fs' = rf_lock fs \<and>
     (\<forall>v \<in> S. rn_id (rf_node fs' v) = rn_id (rf_node fs v) \<and> rn_name (rf_node fs' v) = rn_name (rf_node fs v) \<and>
        rn_parent (rf_node fs' v) = rn_parent (rf_node fs v))"

lemma indexes_same:
  assumes "rootnodes.indexes (rf_node fs) (node_table fs) E"
    and "rf_table fs' = rf_table fs" "rf_all_next fs' = rf_all_next fs"
    and "\<And>a. a \<in> E \<Longrightarrow> rn_id (rf_node fs' a) = rn_id (rf_node fs a)"
  shows "rootnodes.indexes (rf_node fs') (node_table fs') E"
proof -
  have "rootnodes.indexes (rf_node fs')
      ((rf_table fs)\<lparr>ht_compare := Some (rootfs_vnode_compare_func (rf_node fs')),
         ht_hash := rootfs_vnode_hash_func (rf_node fs')\<rparr>, rf_all_next fs) E"
    by (rule indexes_transfer [OF rootnodes.hash_keyed_axioms rootnodes.hash_keyed_axioms assms(1) [unfolded node_table_def]])
      (simp_all only: assms(4) rootfs_vnode_hash_func_def option.case)
  then show ?thesis by (simp only: node_table_def assms(2,3))
qed

lemma nodes_ok_same:
  assumes ok: "nodes_ok fs" and rest: "rf_live fs' = rf_live fs" "rf_root fs' = rf_root fs" "rf_table fs' = rf_table fs"
      "rf_all_next fs' = rf_all_next fs" "rf_next_vnode_id fs' = rf_next_vnode_id fs"
    and node: "\<And>a. rn_id (rf_node fs' a) = rn_id (rf_node fs a)" "\<And>a. rn_parent (rf_node fs' a) = rn_parent (rf_node fs a)"
  shows "nodes_ok fs'"
proof -
  from ok have "rootnodes.indexes (rf_node fs) (node_table fs) (rf_live fs)" by (simp add: nodes_ok_def)
  from indexes_same [OF this rest(3,4) node(1)]
  have "rootnodes.indexes (rf_node fs') (node_table fs') (rf_live fs')" by (simp only: rest(1))
  with ok show ?thesis unfolding nodes_ok_def by (auto simp: rest(1,2,5) node)
qed

lemma jars_ok_same:
  assumes "jars_ok fs kids" and "rf_cookie fs' = rf_cookie fs" "rf_cookies fs' = rf_cookies fs"
    and "\<And>d. d \<in> rf_live fs' \<Longrightarrow> rn_jar_head (rf_node fs' d) = None \<or>
           d \<in> rf_live fs \<and> rn_jar_head (rf_node fs' d) = rn_jar_head (rf_node fs d) \<and> set (kids d) \<subseteq> set (kids' d)"
  shows "jars_ok fs' kids'"
  unfolding jars_ok_def
proof
  fix d assume "d \<in> rf_live fs'"
  from assms(4) [OF this] consider "rn_jar_head (rf_node fs' d) = None"
    | "d \<in> rf_live fs" "rn_jar_head (rf_node fs' d) = rn_jar_head (rf_node fs d)" "set (kids d) \<subseteq> set (kids' d)"
    by (elim disjE conjE) simp_all
  then show "\<exists>cs. chain (\<lambda>c. rc_next (rf_cookie fs' c)) (rn_jar_head (rf_node fs' d)) cs \<and>
      (\<forall>c \<in> set cs. c \<in> rf_cookies fs' \<and> (\<forall>e. rc_ptr (rf_cookie fs' c) = Some e \<longrightarrow> e \<in> set (kids' d)))"
  proof cases
    case 1
    then show ?thesis by simp
  next
    case 2
    with assms(1) obtain cs where "chain (\<lambda>c. rc_next (rf_cookie fs c)) (rn_jar_head (rf_node fs d)) cs"
      "\<forall>c \<in> set cs. c \<in> rf_cookies fs \<and> (\<forall>e. rc_ptr (rf_cookie fs c) = Some e \<longrightarrow> e \<in> set (kids d))"
      unfolding jars_ok_def by blast
    with 2 assms(2,3) show ?thesis by (intro exI [of _ cs]) auto
  qed
qed

section \<open>Creating a directory\<close>

lemma entry_NoneD:
  assumes "rootfs_ok fs kids" and "d \<in> rf_live fs" and "entry fs kids d n = None"
  shows "n \<noteq> ''.''" "n \<noteq> ''..''" "c \<in> set (kids d) \<Longrightarrow> rn_name (rf_node fs c) \<noteq> n"
  using assms(3) dirs_okD(7) [OF rootfs_okD(2) [OF assms(1)] assms(2)]
  by (auto simp: entry_def find_None_iff split: if_splits)

lemma dirs_ok_insert:
  assumes ok: "dirs_ok m L kids" and d: "d \<in> L" and v: "v \<notin> L"
    and n: "\<And>c. c \<in> set (kids d) \<Longrightarrow> rn_name (m c) \<noteq> n" "n \<noteq> ''.''" "n \<noteq> ''..''" and i: "rn_id (m d) < i"
    and mv: "m' v = \<lparr>rn_id = i, rn_name = n, rn_room = length n + 1, rn_parent = Some d,
               rn_dir_next = rn_dir_head (m d), rn_dir_head = None, rn_jar_head = None\<rparr>"
    and md: "m' d = (m d)\<lparr>rn_dir_head := Some v\<rparr>" and mo: "\<And>a. a \<noteq> v \<Longrightarrow> a \<noteq> d \<Longrightarrow> m' a = m a"
  shows "dirs_ok m' (insert v L) (kids(d := v # kids d, v := []))"
proof -
  note k = dirs_okD [OF ok]
  from d v have dv: "d \<noteq> v" by blast
  have vk: "v \<notin> set (kids e)" if "e \<in> L" for e using k(4) [OF that] v by blast
  have nx: "(\<lambda>a. rn_dir_next (m' a)) = (\<lambda>a. rn_dir_next (m a))(v := rn_dir_head (m d))"
  proof
    fix a show "rn_dir_next (m' a) = ((\<lambda>a. rn_dir_next (m a))(v := rn_dir_head (m d))) a"
      using mv md mo [of a] dv by (cases "a = d") auto
  qed
  have old: "m' c = (if c = d then (m c)\<lparr>rn_dir_head := Some v\<rparr> else m c)" if "c \<in> L" for c
  proof (cases "c = d")
    case True
    then show ?thesis using md by simp
  next
    case False
    from that v have "c \<noteq> v" by blast
    with mo [OF this False] False show ?thesis by simp
  qed
  have same: "rn_name (m' c) = rn_name (m c)" "rn_parent (m' c) = rn_parent (m c)" "rn_id (m' c) = rn_id (m c)"
    "rn_room (m' c) = rn_room (m c)" "rn_dir_next (m' c) = rn_dir_next (m c)" if "c \<in> L" for c
    using old [OF that] by simp_all
  have ch: "chain (\<lambda>a. rn_dir_next (m' a)) (rn_dir_head (m' e)) ((kids(d := v # kids d, v := [])) e)" if "e \<in> insert v L" for e
  proof (cases "e = v")
    case True
    with mv show ?thesis by simp
  next
    case False
    with that have e: "e \<in> L" by simp
    show ?thesis
      using k(1) [OF e] k(1) [OF d] vk [OF e] vk [OF d] False mo [of e] md dv
      by (cases "e = d") (simp_all add: nx)
  qed
  have kid: "c \<in> insert v L \<and> rn_parent (m' c) = Some e \<and> rn_id (m' e) < rn_id (m' c) \<and> rn_name (m' c) \<noteq> ''.'' \<and> rn_name (m' c) \<noteq> ''..''"
    if "e \<in> insert v L" "c \<in> set ((kids(d := v # kids d, v := [])) e)" for e c
  proof (cases "c = v")
    case True
    with that vk have "e = d" by (auto split: if_splits)
    with True show ?thesis using mv n i same(3) [OF d] by simp
  next
    case False
    with that v have "e \<in> L" "c \<in> set (kids e)" by (auto split: if_splits)
    with k(4) [of e c] same show ?thesis by auto
  qed
  have inj: "inj_on (\<lambda>c. rn_name (m' c)) (set ((kids(d := v # kids d, v := [])) e))" if "e \<in> insert v L" for e
  proof (cases "e = v")
    case False
    with that have e: "e \<in> L" by simp
    have "inj_on (\<lambda>c. rn_name (m' c)) (set (kids e))"
      using k(3) [OF e] k(4) [OF e] same(1) by (simp add: inj_on_def)
    with False e n(1) mv k(4) [OF d] same(1) show ?thesis by (auto simp: inj_on_insert)
  qed simp
  have last: "length (rn_name (m' a)) < rn_room (m' a) \<and> rn_parent (m' a) \<noteq> None \<and>
      ((\<forall>e \<in> insert v L. a \<notin> set ((kids(d := v # kids d, v := [])) e)) \<longrightarrow> rn_dir_next (m' a) = None)" if "a \<in> insert v L" for a
  proof (cases "a = v")
    case True
    with d dv mv show ?thesis by auto
  next
    case False
    with that have a: "a \<in> L" by simp
    have "a \<notin> set (kids e)" if "\<forall>e \<in> insert v L. a \<notin> set ((kids(d := v # kids d, v := [])) e)" "e \<in> L" for e
      using that v by (auto split: if_splits)
    with k(5-7) [OF a] same [OF a] show ?thesis by metis
  qed
  show ?thesis by (rule dirs_okI [OF ch inj kid last])
qed

lemma node_table_back:
  assumes "rootnodes.indexes (rf_node fs) t E"
  shows "node_table (set_node_table t fs) = t"
  using rootnodes.indexes_functions [of "rf_node fs" "fst t" "snd t"] assms by (simp add: node_table_def)

lemma insert_node_indexes:
  assumes "rootnodes.indexes (rf_node fs) (node_table fs) E" and "rn_id (rf_node fs v) \<notin> (\<lambda>a. rn_id (rf_node fs a)) ` E"
  shows "rootnodes.indexes (rf_node fs) (node_table (set_node_table (snd (hash_insert v (node_table fs))) fs)) (insert v E)"
proof -
  note i = rootnodes.indexes_insert [OF assms]
  from i show ?thesis by (simp only: node_table_back [OF i])
qed

lemma rootfs_create_exists:
  assumes "rootfs_ok fs kids" and "rf_lock fs = 0" and "d \<in> rf_live fs" and "entry fs kids d n \<noteq> None"
  shows "rootfs_create alloc dup d n STREAM_TYPE_DIR fs = Returns (EEXIST, fs)"
proof -
  from assms have "rootfs_find_in_dir d n (fs\<lparr>rf_lock := 1\<rparr>) = Returns (entry fs kids d n)"
    by (subst find_in_dir_spec [where kids = kids]) simp_all
  with assms(2,4) show ?thesis
    by (simp add: rootfs_create_def fs_lock_free fs_unlock_back)
qed

lemma rootfs_create_spec:
  assumes ok: "rootfs_ok fs kids" and lock: "rf_lock fs = 0" and d: "d \<in> rf_live fs"
    and none: "entry fs kids d n = None" and alloc: "alloc (rf_live fs) = Some v" and v: "v \<notin> rf_live fs"
    and next_id: "rf_next_vnode_id fs + 1 < 2 ^ 64"
  shows "\<exists>fs'. rootfs_create alloc True d n STREAM_TYPE_DIR fs = Returns (0, fs') \<and>
           rootfs_ok fs' (kids(d := v # kids d, v := [])) \<and> keeps_nodes (rf_live fs) fs fs' \<and>
           rf_live fs' = insert v (rf_live fs) \<and> rn_name (rf_node fs' v) = n \<and>
           rn_id (rf_node fs' v) = rf_next_vnode_id fs \<and> rf_next_vnode_id fs' = rf_next_vnode_id fs + 1"
proof -
  let ?i = "rf_next_vnode_id fs"
  let ?nv = "\<lparr>rn_id = ?i, rn_name = n, rn_room = length n + 1, rn_parent = Some d,
               rn_dir_next = rn_dir_head (rf_node fs d), rn_dir_head = None, rn_jar_head = None\<rparr>"
  let ?m = "(rf_node fs)(v := ?nv, d := (rf_node fs d)\<lparr>rn_dir_head := Some v\<rparr>)"
  let ?fs4 = "fs\<lparr>rf_lock := 1, rf_live := insert v (rf_live fs), rf_next_vnode_id := ?i + 1, rf_node := ?m\<rparr>"
  let ?fs5 = "set_node_table (snd (hash_insert v (node_table ?fs4))) ?fs4"
  from d v have dv: "d \<noteq> v" by blast
  have found: "rootfs_find_in_dir d n (fs\<lparr>rf_lock := 1\<rparr>) = Returns None"
    using ok d none by (subst find_in_dir_spec [where kids = kids]) simp_all
  have create: "rootfs_create_vnode alloc (fs\<lparr>rf_lock := 1\<rparr>) =
      (Some v, fs\<lparr>rf_lock := 1, rf_live := insert v (rf_live fs), rf_next_vnode_id := ?i + 1,
         rf_node := (rf_node fs)(v := \<lparr>rn_id = ?i, rn_name = '''', rn_room = 0, rn_parent = None,
           rn_dir_next = None, rn_dir_head = None, rn_jar_head = None\<rparr>)\<rparr>)"
    using alloc next_id by (simp add: rootfs_create_vnode_def)
  have id_upd: "m(v := m v) = m" for m :: "nat \<Rightarrow> rootfs_vnode" by simp
  have run: "rootfs_create alloc True d n STREAM_TYPE_DIR fs = Returns (0, fs_unlock ?fs5)"
  proof -
    have ins: "rootfs_insert_in_dir d v (set_node v (\<lambda>r. r\<lparr>rn_name := n, rn_room := length n + 1, rn_parent := Some d\<rparr>)
        (fs\<lparr>rf_lock := 1, rf_live := insert v (rf_live fs), rf_next_vnode_id := ?i + 1,
         rf_node := (rf_node fs)(v := \<lparr>rn_id = ?i, rn_name = '''', rn_room = 0, rn_parent = None,
           rn_dir_next = None, rn_dir_head = None, rn_jar_head = None\<rparr>)\<rparr>)) = ?fs4"
      using dv by (simp add: rootfs_insert_in_dir_def set_node_def)
    have "set_node v (\<lambda>r. r\<lparr>rn_dir_head := None, rn_jar_head := None\<rparr>) ?fs5 = ?fs5"
      using dv by (intro set_node_same) simp
    then show ?thesis
      unfolding rootfs_create_def Let_def
      by (simp add: fs_lock_free [OF lock] found create ins [unfolded Suc_eq_plus1 [symmetric]])
  qed
  note dirs = rootfs_okD(2) [OF ok] and ids = rootfs_okD(7) [OF ok]
  have "rootnodes.indexes (rf_node ?fs4) (node_table ?fs4) (rf_live fs)"
    by (rule indexes_same [OF rootfs_okD(4) [OF ok]]) (use dv v in auto)
  moreover have "rn_id (?m a) \<noteq> rn_id (?m v)" if "a \<in> rf_live fs" for a
    using ids [OF that] that v dv by auto
  then have "rn_id (rf_node ?fs4 v) \<notin> (\<lambda>a. rn_id (rf_node ?fs4 a)) ` rf_live fs" by (force simp del: fun_upd_apply)
  ultimately have tab: "rootnodes.indexes (rf_node ?fs5) (node_table ?fs5) (insert v (rf_live fs))"
    using insert_node_indexes [of ?fs4 "rf_live fs" v] by (simp del: fun_upd_apply)
  have "dirs_ok ?m (insert v (rf_live fs)) (kids(d := v # kids d, v := []))"
    by (rule dirs_ok_insert [where n = n and i = ?i, OF dirs d v]) (use entry_NoneD [OF ok d none] ids [OF d] dv in auto)
  moreover have "jars_ok ?fs5 (kids(d := v # kids d, v := []))"
    by (rule jars_ok_same [OF rootfs_okD(3) [OF ok]]) (use dv in auto)
  moreover have "rf_root fs \<noteq> v" using rootfs_okD(5) [OF ok] v by blast
  ultimately have "rootfs_ok ?fs5 (kids(d := v # kids d, v := []))"
    using tab rootfs_okD(5,6) [OF ok] ids dv by (auto simp: rootfs_ok_def nodes_ok_def less_Suc_eq)
  with run v dv lock show ?thesis by (auto simp: keeps_nodes_def)
qed

section \<open>Taking an entry out of its directory\<close>

lemma jar_loop_spec:
  assumes "chain (\<lambda>c. rc_next (rf_cookie fs c)) p cs" and "set cs \<subseteq> rf_cookies fs"
  shows "jar_loop v p fs = Some (Returns (fs\<lparr>rf_cookie := (\<lambda>c.
           if c \<in> set cs \<and> rc_ptr (rf_cookie fs c) = Some v
           then (rf_cookie fs c)\<lparr>rc_ptr := rn_dir_next (rf_node fs v)\<rparr> else rf_cookie fs c)\<rparr>))"
  using assms
proof (induction cs arbitrary: p fs)
  case Nil
  then show ?case by (simp add: jar_loop.simps)
next
  case (Cons c cs)
  let ?fs = "if rc_ptr (rf_cookie fs c) = Some v then set_cookie c (\<lambda>r. r\<lparr>rc_ptr := rn_dir_next (rf_node fs v)\<rparr>) fs else fs"
  from Cons.prems have p: "p = Some c" and c: "c \<in> rf_cookies fs" "c \<notin> set cs"
    using chain_distinct [OF Cons.prems(1)] by auto
  have nx: "(\<lambda>c. rc_next (rf_cookie ?fs c)) = (\<lambda>c. rc_next (rf_cookie fs c))" by auto
  have "jar_loop v (rc_next (rf_cookie fs c)) ?fs = Some (Returns (?fs\<lparr>rf_cookie := (\<lambda>c.
           if c \<in> set cs \<and> rc_ptr (rf_cookie ?fs c) = Some v
           then (rf_cookie ?fs c)\<lparr>rc_ptr := rn_dir_next (rf_node ?fs v)\<rparr> else rf_cookie ?fs c)\<rparr>))"
    by (rule Cons.IH) (use Cons.prems in \<open>auto simp: nx\<close>)
  moreover have "?fs\<lparr>rf_cookie := (\<lambda>c.
           if c \<in> set cs \<and> rc_ptr (rf_cookie ?fs c) = Some v
           then (rf_cookie ?fs c)\<lparr>rc_ptr := rn_dir_next (rf_node ?fs v)\<rparr> else rf_cookie ?fs c)\<rparr> =
      fs\<lparr>rf_cookie := (\<lambda>x. if x \<in> set (c # cs) \<and> rc_ptr (rf_cookie fs x) = Some v
           then (rf_cookie fs x)\<lparr>rc_ptr := rn_dir_next (rf_node fs v)\<rparr> else rf_cookie fs x)\<rparr>"
    using c(2) by (auto simp: set_cookie_def fun_eq_iff intro!: rootfs.equality)
  ultimately show ?case using p c(1) by (subst jar_loop.simps) simp
qed

lemma unlink_entry_skip:
  assumes "lseg (\<lambda>a. rn_dir_next (rf_node fs a)) p ys q" and "set ys \<subseteq> rf_live fs" and "v \<notin> set ys"
  shows "unlink_entry d v p l fs = unlink_entry d v q (if ys = [] then l else Some (last ys)) fs"
  using assms
proof (induction ys arbitrary: p l)
  case (Cons y ys)
  from Cons.prems have "p = Some y" "y \<in> rf_live fs" "y \<noteq> v" by auto
  then have "unlink_entry d v p l fs = unlink_entry d v (rn_dir_next (rf_node fs y)) (Some y) fs"
    by (subst unlink_entry.simps) simp
  with Cons.IH [of "rn_dir_next (rf_node fs y)" "Some y"] Cons.prems show ?case by simp
qed simp

lemma dirs_ok_unlink:
  assumes ok: "dirs_ok m L kids" and d: "d \<in> L" and k: "kids d = ys @ v # zs"
    and mv: "m' v = (m v)\<lparr>rn_dir_next := None\<rparr>"
    and ml: "case rev ys of [] \<Rightarrow> m' d = (m d)\<lparr>rn_dir_head := rn_dir_next (m v)\<rparr>
             | l # us \<Rightarrow> m' l = (m l)\<lparr>rn_dir_next := rn_dir_next (m v)\<rparr>"
    and mo: "\<And>a. a \<noteq> v \<Longrightarrow> (if ys = [] then a \<noteq> d else a \<noteq> last ys) \<Longrightarrow> m' a = m a"
  shows "dirs_ok m' L (kids(d := ys @ zs))"
proof -
  note D = dirs_okD [OF ok]
  have dist: "distinct (ys @ v # zs)" using D(2) [OF d] k by simp
  have vL: "v \<in> L" and vd: "v \<noteq> d" using D(4) [OF d, of v] k by auto
  have other: "c \<notin> set (kids e)" if "c \<in> set (kids d)" "e \<in> L" "e \<noteq> d" for c e
    using one_parent [OF ok d that(2) that(1)] that(3) by blast
  have new: "m' a = (if a = v then (m v)\<lparr>rn_dir_next := None\<rparr>
        else if ys = [] \<and> a = d then (m d)\<lparr>rn_dir_head := rn_dir_next (m v)\<rparr>
        else if ys \<noteq> [] \<and> a = last ys then (m (last ys))\<lparr>rn_dir_next := rn_dir_next (m v)\<rparr> else m a)" for a
  proof (cases ys rule: rev_cases)
    case Nil
    with mv ml mo [of a] show ?thesis by simp
  next
    case (snoc us l)
    with mv ml mo [of a] show ?thesis by simp
  qed
  have lv: "ys \<noteq> [] \<Longrightarrow> last ys \<noteq> v" using dist by (cases ys rule: rev_cases) auto
  have same: "rn_name (m' a) = rn_name (m a)" "rn_parent (m' a) = rn_parent (m a)" "rn_id (m' a) = rn_id (m a)"
    "rn_room (m' a) = rn_room (m a)" for a
    by (simp_all add: new)
  have hd: "rn_dir_head (m' e) = (if e = d \<and> ys = [] then rn_dir_next (m v) else rn_dir_head (m e))" for e
    using vd by (simp add: new)
  have nx: "rn_dir_next (m' a) = (if a = v then None else if ys \<noteq> [] \<and> a = last ys then rn_dir_next (m v) else rn_dir_next (m a))" for a
    by (simp add: new)
  have ch: "chain (\<lambda>a. rn_dir_next (m' a)) (rn_dir_head (m' e)) ((kids(d := ys @ zs)) e)" if e: "e \<in> L" for e
  proof (cases "e = d")
    case True
    let ?nx = "\<lambda>a. rn_dir_next (m a)"
    have "chain (if ys = [] then ?nx else ?nx(last ys := ?nx v)) (if ys = [] then ?nx v else rn_dir_head (m d)) (ys @ zs)"
      by (rule chain_unlink_any) (use D(1) [OF d] k in simp)
    moreover have "lseg (if ys = [] then ?nx else ?nx(last ys := ?nx v)) p (ys @ zs) None =
        lseg (\<lambda>a. rn_dir_next (m' a)) p (ys @ zs) None" for p
      by (rule lseg_cong) (use dist nx in auto)
    ultimately show ?thesis using True by (simp add: hd)
  next
    case False
    have "lseg (\<lambda>a. rn_dir_next (m a)) p (kids e) None = lseg (\<lambda>a. rn_dir_next (m' a)) p (kids e) None" for p
      by (rule lseg_cong) (use other [OF _ e False] nx k in auto)
    with D(1) [OF e] False show ?thesis by (simp add: hd)
  qed
  have sub: "set ((kids(d := ys @ zs)) e) \<subseteq> set (kids e)" for e using k by auto
  have inj: "inj_on (\<lambda>c. rn_name (m' c)) (set ((kids(d := ys @ zs)) e))" if "e \<in> L" for e
    using inj_on_subset [OF D(3) [OF that] sub] by (simp add: same)
  have kid: "c \<in> L \<and> rn_parent (m' c) = Some e \<and> rn_id (m' e) < rn_id (m' c) \<and> rn_name (m' c) \<noteq> ''.'' \<and> rn_name (m' c) \<noteq> ''..''"
    if "e \<in> L" "c \<in> set ((kids(d := ys @ zs)) e)" for e c
    using D(4) [OF that(1), of c] sub that(2) by (auto simp: same)
  have last: "length (rn_name (m' a)) < rn_room (m' a) \<and> rn_parent (m' a) \<noteq> None \<and>
      ((\<forall>e \<in> L. a \<notin> set ((kids(d := ys @ zs)) e)) \<longrightarrow> rn_dir_next (m' a) = None)" if a: "a \<in> L" for a
  proof -
    have "rn_dir_next (m' a) = None" if none: "\<forall>e \<in> L. a \<notin> set ((kids(d := ys @ zs)) e)"
    proof (cases "a = v")
      case False
      have "a \<notin> set (kids e)" if "e \<in> L" for e
        using none that False k by (cases "e = d") auto
      with D(6) [OF a] have "rn_dir_next (m a) = None" "a \<notin> set (kids d)" using d by auto
      with False k show ?thesis by (auto simp: nx)
    qed (simp add: nx)
    with D(5,7) [OF a] show ?thesis by (simp add: same)
  qed
  show ?thesis by (rule dirs_okI [OF ch inj kid last])
qed

lemma jars_ok_unlink:
  assumes ok: "jars_ok fs kids" and dirs: "dirs_ok (rf_node fs) (rf_live fs) kids" and d: "d \<in> rf_live fs"
    and k: "kids d = ys @ v # zs"
    and jar: "chain (\<lambda>c. rc_next (rf_cookie fs c)) (rn_jar_head (rf_node fs d)) cs"
      "\<forall>c \<in> set cs. c \<in> rf_cookies fs \<and> (\<forall>e. rc_ptr (rf_cookie fs c) = Some e \<longrightarrow> e \<in> set (kids d))"
    and fs': "rf_live fs' = rf_live fs" "rf_cookies fs' = rf_cookies fs"
      "\<And>a. rn_jar_head (rf_node fs' a) = rn_jar_head (rf_node fs a)"
      "rf_cookie fs' = (\<lambda>c. if c \<in> set cs \<and> rc_ptr (rf_cookie fs c) = Some v
           then (rf_cookie fs c)\<lparr>rc_ptr := rn_dir_next (rf_node fs v)\<rparr> else rf_cookie fs c)"
  shows "jars_ok fs' (kids(d := ys @ zs))"
  unfolding jars_ok_def
proof
  fix e assume "e \<in> rf_live fs'"
  then have e: "e \<in> rf_live fs" by (simp add: fs')
  note D = dirs_okD [OF dirs]
  have nxt: "rn_dir_next (rf_node fs v) = (if zs = [] then None else Some (hd zs))"
    by (rule chain_next [where nx = "\<lambda>a. rn_dir_next (rf_node fs a)" and ys = ys and p = v]) (use D(1) [OF d] k in simp)
  have cnx: "(\<lambda>c. rc_next (rf_cookie fs' c)) = (\<lambda>c. rc_next (rf_cookie fs c))" by (auto simp: fs')
  have v: "v \<notin> set (ys @ zs)" using D(2) [OF d] k by simp
  show "\<exists>cs. chain (\<lambda>c. rc_next (rf_cookie fs' c)) (rn_jar_head (rf_node fs' e)) cs \<and>
      (\<forall>c \<in> set cs. c \<in> rf_cookies fs' \<and> (\<forall>a. rc_ptr (rf_cookie fs' c) = Some a \<longrightarrow> a \<in> set ((kids(d := ys @ zs)) e)))"
  proof (cases "e = d")
    case True
    have "a \<in> set (ys @ zs)" if "c \<in> set cs" "rc_ptr (rf_cookie fs' c) = Some a" for c a
      using that jar(2) nxt k v by (cases zs) (auto simp: fs' split: if_splits)
    with jar True show ?thesis by (intro exI [of _ cs]) (simp add: cnx fs'(2,3))
  next
    case False
    from ok e obtain es where es: "chain (\<lambda>c. rc_next (rf_cookie fs c)) (rn_jar_head (rf_node fs e)) es"
      "\<forall>c \<in> set es. c \<in> rf_cookies fs \<and> (\<forall>a. rc_ptr (rf_cookie fs c) = Some a \<longrightarrow> a \<in> set (kids e))"
      unfolding jars_ok_def by blast
    have "v \<notin> set (kids e)" using one_parent [OF dirs d e, of v] False k by auto
    with es(2) have "a \<in> set (kids e)" if "c \<in> set es" "rc_ptr (rf_cookie fs' c) = Some a" for c a
      using that by (auto simp: fs' split: if_splits)
    with es False show ?thesis by (intro exI [of _ es]) (simp add: cnx fs'(2,3))
  qed
qed

lemma remove_from_dir_spec:
  assumes ok: "rootfs_ok fs kids" and d: "d \<in> rf_live fs" and v: "v \<in> set (kids d)"
  shows "\<exists>fs'. rootfs_remove_from_dir d v fs = Returns (0, fs') \<and> rootfs_ok fs' (kids(d := remove1 v (kids d))) \<and>
           keeps_nodes (rf_live fs) fs fs' \<and> rf_live fs' = rf_live fs \<and> rf_next_vnode_id fs' = rf_next_vnode_id fs"
proof -
  note dirs = rootfs_okD(2) [OF ok] and D = dirs_okD [OF rootfs_okD(2) [OF ok]]
  from v obtain ys zs where k: "kids d = ys @ v # zs" by (auto dest: split_list)
  then have r: "remove1 v (kids d) = ys @ zs" using D(2) [OF d] by (simp add: remove1_append)
  from rootfs_okD(3) [OF ok] d obtain cs where jar:
    "chain (\<lambda>c. rc_next (rf_cookie fs c)) (rn_jar_head (rf_node fs d)) cs"
    "\<forall>c \<in> set cs. c \<in> rf_cookies fs \<and> (\<forall>e. rc_ptr (rf_cookie fs c) = Some e \<longrightarrow> e \<in> set (kids d))"
    unfolding jars_ok_def by blast
  let ?c = "\<lambda>c. if c \<in> set cs \<and> rc_ptr (rf_cookie fs c) = Some v
           then (rf_cookie fs c)\<lparr>rc_ptr := rn_dir_next (rf_node fs v)\<rparr> else rf_cookie fs c"
  let ?fs1 = "fs\<lparr>rf_cookie := ?c\<rparr>"
  let ?fs2 = "if ys = [] then set_node d (\<lambda>r. r\<lparr>rn_dir_head := rn_dir_next (rf_node fs v)\<rparr>) ?fs1
              else set_node (last ys) (\<lambda>r. r\<lparr>rn_dir_next := rn_dir_next (rf_node fs v)\<rparr>) ?fs1"
  let ?fs' = "set_node v (\<lambda>r. r\<lparr>rn_dir_next := None\<rparr>) ?fs2"
  have vL: "v \<in> rf_live fs" and ysL: "set ys \<subseteq> rf_live fs" and vd: "v \<noteq> d" using D(4) [OF d] k by auto
  have lv: "v \<notin> set ys" and ly: "ys \<noteq> [] \<Longrightarrow> last ys \<noteq> v" using D(2) [OF d] k by (cases ys rule: rev_cases; auto)+
  have upd: "update_dircookies d v fs = Returns ?fs1"
  proof -
    from jar(2) have "set cs \<subseteq> rf_cookies fs" by blast
    from jar_loop_spec [OF jar(1) this] show ?thesis by (simp add: update_dircookies_def looped_outcome_def)
  qed
  have "unlink_entry d v (rn_dir_head (rf_node fs d)) None fs =
      unlink_entry d v (Some v) (if ys = [] then None else Some (last ys)) fs"
    by (rule unlink_entry_skip [OF _ ysL lv]) (use D(1) [OF d] k in \<open>simp add: lseg_append\<close>)
  moreover have "unlink_entry d v (Some v) (if ys = [] then None else Some (last ys)) fs = Some (Returns (0, ?fs'))"
    using vL upd by (subst unlink_entry.simps) (simp add: Let_def)
  ultimately have run: "rootfs_remove_from_dir d v fs = Returns (0, ?fs')"
    using d by (simp add: rootfs_remove_from_dir_def looped_outcome_def)
  have fields: "rn_id (rf_node ?fs' a) = rn_id (rf_node fs a)" "rn_name (rf_node ?fs' a) = rn_name (rf_node fs a)"
    "rn_parent (rf_node ?fs' a) = rn_parent (rf_node fs a)" "rn_jar_head (rf_node ?fs' a) = rn_jar_head (rf_node fs a)" for a
    by simp_all
  have rest: "rf_live ?fs' = rf_live fs" "rf_cookies ?fs' = rf_cookies fs" "rf_root ?fs' = rf_root fs" "rf_id ?fs' = rf_id fs"
    "rf_lock ?fs' = rf_lock fs" "rf_table ?fs' = rf_table fs" "rf_all_next ?fs' = rf_all_next fs"
    "rf_next_vnode_id ?fs' = rf_next_vnode_id fs" "rf_cookie ?fs' = ?c"
    by simp_all
  have "dirs_ok (rf_node ?fs') (rf_live fs) (kids(d := ys @ zs))"
  proof (rule dirs_ok_unlink [OF dirs d k])
    show "rf_node ?fs' v = (rf_node fs v)\<lparr>rn_dir_next := None\<rparr>" using vd ly by simp
    show "case rev ys of [] \<Rightarrow> rf_node ?fs' d = (rf_node fs d)\<lparr>rn_dir_head := rn_dir_next (rf_node fs v)\<rparr>
             | l # us \<Rightarrow> rf_node ?fs' l = (rf_node fs l)\<lparr>rn_dir_next := rn_dir_next (rf_node fs v)\<rparr>"
      using vd ly by (cases ys rule: rev_cases) auto
    show "rf_node ?fs' a = rf_node fs a" if "a \<noteq> v" "if ys = [] then a \<noteq> d else a \<noteq> last ys" for a
      using that by (simp split: if_splits)
  qed
  moreover have "jars_ok ?fs' (kids(d := ys @ zs))"
    by (rule jars_ok_unlink [OF rootfs_okD(3) [OF ok] dirs d k jar rest(1,2) fields(4) rest(9)])
  moreover have "nodes_ok ?fs'"
    by (rule nodes_ok_same [OF rootfs_okD(1) [OF ok] rest(1,3,6,7,8) fields(1,3)])
  ultimately have "rootfs_ok ?fs' (kids(d := remove1 v (kids d)))" by (simp only: rootfs_ok_def rest r)
  moreover have "keeps_nodes (rf_live fs) fs ?fs'" unfolding keeps_nodes_def rest fields by simp
  ultimately show ?thesis using run rest by blast
qed

section \<open>Renaming, deleting and reading\<close>

text \<open>Changing the name of an entry to one that is not taken.\<close>

lemma rename_dirs_ok:
  assumes ok: "dirs_ok m L kids" and d: "d \<in> L" and v: "v \<in> set (kids d)"
    and n: "\<And>c. c \<in> set (kids d) \<Longrightarrow> rn_name (m c) \<noteq> n" "n \<noteq> ''.''" "n \<noteq> ''..''" and k: "length n < k"
  shows "dirs_ok (m(v := (m v)\<lparr>rn_name := n, rn_room := k\<rparr>)) L kids"
proof (rule dirs_okI)
  note D = dirs_okD [OF ok]
  let ?m = "m(v := (m v)\<lparr>rn_name := n, rn_room := k\<rparr>)"
  have nx: "(\<lambda>a. rn_dir_next (?m a)) = (\<lambda>a. rn_dir_next (m a))" by auto
  fix e assume e: "e \<in> L"
  from D(1) [OF e] show "chain (\<lambda>a. rn_dir_next (?m a)) (rn_dir_head (?m e)) (kids e)"
    unfolding nx by (cases "e = v") simp_all
  show "inj_on (\<lambda>c. rn_name (?m c)) (set (kids e))"
  proof (cases "e = d")
    case True
    with D(3) [OF e] n(1) show ?thesis by (auto simp: inj_on_def)
  next
    case False
    then have "v \<notin> set (kids e)" using one_parent [OF ok d e v] by blast
    with D(3) [OF e] show ?thesis by (auto simp: inj_on_def)
  qed
  show "c \<in> L \<and> rn_parent (?m c) = Some e \<and> rn_id (?m e) < rn_id (?m c) \<and> rn_name (?m c) \<noteq> ''.'' \<and> rn_name (?m c) \<noteq> ''..''"
    if "c \<in> set (kids e)" for c
    using D(4) [OF e that] n(2,3) by auto
  show "length (rn_name (?m e)) < rn_room (?m e) \<and> rn_parent (?m e) \<noteq> None \<and>
      ((\<forall>d \<in> L. e \<notin> set (kids d)) \<longrightarrow> rn_dir_next (?m e) = None)"
    using D(5-7) [OF e] k by auto
qed

lemma rootfs_rename_spec:
  assumes ok: "rootfs_ok fs kids" and lock: "rf_lock fs = 0" and d: "d \<in> rf_live fs"
    and v: "entry fs kids d old = Some v" "old \<noteq> ''.''" "old \<noteq> ''..''" and none: "entry fs kids d new = None"
  shows "\<exists>fs'. rootfs_rename True d old d new fs = Returns (0, fs') \<and> rootfs_ok fs' kids \<and> rf_live fs' = rf_live fs \<and>
           rn_name (rf_node fs' v) = new \<and> keeps_nodes (rf_live fs - {v}) fs fs' \<and> rf_next_vnode_id fs' = rf_next_vnode_id fs \<and>
           rn_id (rf_node fs' v) = rn_id (rf_node fs v) \<and> rn_parent (rf_node fs' v) = rn_parent (rf_node fs v)"
proof -
  note dirs = rootfs_okD(2) [OF ok] and D = dirs_okD [OF rootfs_okD(2) [OF ok]]
  from v have vk: "v \<in> set (kids d)" and old: "rn_name (rf_node fs v) = old"
    by (auto simp: entry_def find_Some_iff)
  then have vL: "v \<in> rf_live fs" using D(4) [OF d] by blast
  let ?k = "if length new \<le> length old then rn_room (rf_node fs v) else length new + 1"
  let ?fs' = "set_node v (\<lambda>r. r\<lparr>rn_name := new, rn_room := ?k\<rparr>) fs"
  have room: "length new < ?k" using D(5) [OF vL] old by auto
  have run: "rootfs_rename True d old d new fs = Returns (0, ?fs')"
  proof -
    have "rootfs_find_in_dir d old (fs\<lparr>rf_lock := 1\<rparr>) = Returns (Some v)"
      "rootfs_find_in_dir d new (fs\<lparr>rf_lock := 1\<rparr>) = Returns None"
      using ok d v none by (simp_all add: find_in_dir_spec [where kids = kids])
    moreover have "length new \<le> length old \<Longrightarrow> \<not> rn_room (rf_node fs v) < length new + 1"
      using room by simp
    ultimately show ?thesis using vL lock
      by (simp add: rootfs_rename_def fs_lock_free [OF lock] fs_unlock_def set_node_def)
  qed
  have "dirs_ok (rf_node ?fs') (rf_live fs) kids"
    using rename_dirs_ok [OF dirs d vk _ _ _ room] entry_NoneD [OF ok d none] by (simp add: set_node_def)
  moreover have "jars_ok ?fs' kids"
    by (rule jars_ok_same [OF rootfs_okD(3) [OF ok]]) auto
  moreover have "nodes_ok ?fs'"
    by (rule nodes_ok_same [OF rootfs_okD(1) [OF ok]]) simp_all
  ultimately have "rootfs_ok ?fs' kids" by (simp add: rootfs_ok_def)
  with run show ?thesis by (auto simp: keeps_nodes_def)
qed

text \<open>The VFS layer gives up a node that was unlinked; it goes unless it has entries of its own.\<close>

lemma dirs_ok_delete:
  assumes ok: "dirs_ok m L kids" and v: "\<And>d. d \<in> L \<Longrightarrow> v \<notin> set (kids d)" "kids v = []"
  shows "dirs_ok m (L - {v}) kids"
proof (rule dirs_okI)
  note D = dirs_okD [OF ok]
  fix e assume e: "e \<in> L - {v}"
  then have eL: "e \<in> L" by blast
  from D(1,3) [OF eL] show "chain (\<lambda>a. rn_dir_next (m a)) (rn_dir_head (m e)) (kids e)"
    "inj_on (\<lambda>c. rn_name (m c)) (set (kids e))" by blast+
  show "c \<in> L - {v} \<and> rn_parent (m c) = Some e \<and> rn_id (m e) < rn_id (m c) \<and> rn_name (m c) \<noteq> ''.'' \<and> rn_name (m c) \<noteq> ''..''"
    if "c \<in> set (kids e)" for c
    using D(4) [OF eL that] v(1) [OF eL] that by auto
  have "\<forall>d \<in> L. e \<notin> set (kids d)" if "\<forall>d \<in> L - {v}. e \<notin> set (kids d)"
    using that v(2) by auto
  with D(5-7) [OF eL] show "length (rn_name (m e)) < rn_room (m e) \<and> rn_parent (m e) \<noteq> None \<and>
      ((\<forall>d \<in> L - {v}. e \<notin> set (kids d)) \<longrightarrow> rn_dir_next (m e) = None)" by blast
qed

lemma rootfs_removevnode_spec:
  assumes ok: "rootfs_ok fs kids" and v: "v \<in> rf_live fs" "\<not> attached fs kids v" and lock: "r \<or> rf_lock fs = 0"
  shows "\<exists>fs'. rootfs_removevnode v r fs = Returns (0, fs') \<and> rootfs_ok fs' kids \<and> keeps_nodes (rf_live fs) fs fs' \<and>
           rf_live fs' = (if kids v = [] then rf_live fs - {v} else rf_live fs) \<and> rf_next_vnode_id fs' = rf_next_vnode_id fs"
proof -
  note dirs = rootfs_okD(2) [OF ok] and D = dirs_okD [OF rootfs_okD(2) [OF ok]]
  from v have nk: "v \<notin> set (kids d)" if "d \<in> rf_live fs" for d using that by (auto simp: attached_def)
  have root: "v \<noteq> rf_root fs" using v by (auto simp: attached_def)
  have nxt: "rn_dir_next (rf_node fs v) = None" by (rule D(6) [OF v(1)]) (rule nk)
  let ?fs1 = "if r then fs else fs\<lparr>rf_lock := 1\<rparr>"
  have l: "lock_unless r fs = Returns ?fs1" "rootfs_ok ?fs1 kids" and u: "unlock_unless r ?fs1 = fs"
    "rf_node ?fs1 = rf_node fs" "rf_live ?fs1 = rf_live fs"
    using lock ok by (auto simp: lock_unless_def unlock_unless_def fs_lock_free fs_unlock_back)
  show ?thesis
  proof (cases "kids v = []")
    case False
    with D(1) [OF v(1)] have "rn_dir_head (rf_node fs v) \<noteq> None" by (cases "rn_dir_head (rf_node fs v)") auto
    with l u v nxt have "rootfs_removevnode v r fs = Returns (0, fs)"
      by (simp add: rootfs_removevnode_def rootfs_delete_vnode_def del: if_splits)
    with ok False show ?thesis by (auto simp: keeps_nodes_def)
  next
    case True
    with D(1) [OF v(1)] have hd: "rn_dir_head (rf_node fs v) = None" by simp
    note idx = rootfs_okD(4) [OF l(2)]
    from rootnodes.indexes_remove [OF idx, of v] v(1) u(3) obtain t where
      t: "hash_remove v (node_table ?fs1) = Some (B_NO_ERROR, t)" and it: "rootnodes.indexes (rf_node ?fs1) t (rf_live fs - {v})"
      by auto
    let ?fs2 = "set_node_table t ?fs1"
    let ?fs3 = "?fs2\<lparr>rf_live := rf_live fs - {v}\<rparr>"
    have "rootfs_delete_vnode v False ?fs1 = Returns (0, ?fs3)"
      using v hd nxt u t by (simp add: rootfs_delete_vnode_def looped_def Let_def)
    with l u v nxt have run: "rootfs_removevnode v r fs = Returns (0, unlock_unless r ?fs3)"
      by (simp add: rootfs_removevnode_def)
    have "node_table ?fs3 = node_table ?fs2" by (simp add: node_table_def)
    also have "\<dots> = t" by (rule node_table_back [OF it])
    finally have "nodes_ok ?fs3"
      using it rootfs_okD(5-7) [OF ok] root u by (auto simp: nodes_ok_def)
    moreover have "dirs_ok (rf_node ?fs3) (rf_live ?fs3) kids"
      using dirs_ok_delete [OF dirs nk True] u by simp
    moreover have "jars_ok ?fs3 kids"
      by (rule jars_ok_same [OF rootfs_okD(3) [OF ok]]) (auto simp: u)
    ultimately have "rootfs_ok ?fs3 kids" by (simp add: rootfs_ok_def)
    then have "rootfs_ok (unlock_unless r ?fs3) kids"
      by (cases r) (simp_all add: unlock_unless_def)
    with run True u lock show ?thesis by (auto simp: keeps_nodes_def unlock_unless_def)
  qed
qed

end
