(* ===== verification/Vnode_Props.thy ===== *)
theory Vnode_Props
  imports Vnode Rootfs_Props "HOL-Library.Multiset"
begin

text \<open>
  What the vnode layer promises: every vnode in the table has as many references as there are
  holders, no vnode without a holder exists, and it stands for a file its file system knows.
  The locale \<open>vnode_provider\<close> is what the layer needs of a file system; it is interpreted on
  the root file system in \<open>Vfs_Props\<close>.
\<close>

section \<open>Fields\<close>

lemma set_vnode_fields [simp]:
  "vf_vnode (set_vnode v f s) = (vf_vnode s)(v := f (vf_vnode s v))" "vf_live (set_vnode v f s) = vf_live s"
  "vf_table (set_vnode v f s) = vf_table s" "vf_next (set_vnode v f s) = vf_next s"
  "vf_mount (set_vnode v f s) = vf_mount s" "vf_mounts (set_vnode v f s) = vf_mounts s"
  "vf_mtable (set_vnode v f s) = vf_mtable s" "vf_mnext (set_vnode v f s) = vf_mnext s"
  "vf_root (set_vnode v f s) = vf_root s" "vf_cwd (set_vnode v f s) = vf_cwd s"
  "vf_next_fsid (set_vnode v f s) = vf_next_fsid s" "vf_fs (set_vnode v f s) = vf_fs s"
  by (simp_all add: set_vnode_def)

lemma set_mount_fields [simp]:
  "vf_mount (set_mount m f s) = (vf_mount s)(m := f (vf_mount s m))" "vf_live (set_mount m f s) = vf_live s"
  "vf_table (set_mount m f s) = vf_table s" "vf_next (set_mount m f s) = vf_next s"
  "vf_vnode (set_mount m f s) = vf_vnode s" "vf_mounts (set_mount m f s) = vf_mounts s"
  "vf_mtable (set_mount m f s) = vf_mtable s" "vf_mnext (set_mount m f s) = vf_mnext s"
  "vf_root (set_mount m f s) = vf_root s" "vf_cwd (set_mount m f s) = vf_cwd s"
  "vf_next_fsid (set_mount m f s) = vf_next_fsid s" "vf_fs (set_mount m f s) = vf_fs s"
  by (simp_all add: set_mount_def)

lemma set_vnode_table_fields [simp]:
  "vf_vnode (set_vnode_table t s) = vf_vnode s" "vf_live (set_vnode_table t s) = vf_live s"
  "vf_table (set_vnode_table t s) = fst t" "vf_next (set_vnode_table t s) = snd t"
  "vf_mount (set_vnode_table t s) = vf_mount s" "vf_mounts (set_vnode_table t s) = vf_mounts s"
  "vf_mtable (set_vnode_table t s) = vf_mtable s" "vf_mnext (set_vnode_table t s) = vf_mnext s"
  "vf_root (set_vnode_table t s) = vf_root s" "vf_cwd (set_vnode_table t s) = vf_cwd s"
  "vf_next_fsid (set_vnode_table t s) = vf_next_fsid s" "vf_fs (set_vnode_table t s) = vf_fs s"
  by (simp_all add: set_vnode_table_def)

lemma vkey_upd [simp]:
  "vkey (r\<lparr>vn_mount_prev := a\<rparr>) = vkey r" "vkey (r\<lparr>vn_mount_next := a\<rparr>) = vkey r" "vkey (r\<lparr>vn_cache := c\<rparr>) = vkey r"
  "vkey (r\<lparr>vn_priv := a\<rparr>) = vkey r" "vkey (r\<lparr>vn_mount := a\<rparr>) = vkey r" "vkey (r\<lparr>vn_covered_by := a\<rparr>) = vkey r"
  "vkey (r\<lparr>vn_ref_count := n\<rparr>) = vkey r" "vkey (r\<lparr>vn_delete_me := b\<rparr>) = vkey r" "vkey (r\<lparr>vn_busy := b\<rparr>) = vkey r"
  by (simp_all add: vkey_def)

section \<open>The tables as dictionaries\<close>

definition vindexed :: "'f vfs \<Rightarrow> nat set \<Rightarrow> bool" where
  "vindexed s E \<longleftrightarrow> vnodes.indexes (vf_vnode s) (vnode_table s) E"

definition mindexed :: "'f vfs \<Rightarrow> nat set \<Rightarrow> bool" where
  "mindexed s E \<longleftrightarrow> mounts.indexes (vf_mount s) (mounts_table s) E"

lemma vindexed_same:
  assumes "vindexed s E" and "vf_table s' = vf_table s" "vf_next s' = vf_next s"
    and "\<And>a. a \<in> E \<Longrightarrow> vkey (vf_vnode s' a) = vkey (vf_vnode s a)"
  shows "vindexed s' E"
proof -
  have "vnodes.indexes (vf_vnode s')
      ((vf_table s)\<lparr>ht_compare := Some (vnode_compare (vf_vnode s')), ht_hash := vnode_hash (vf_vnode s')\<rparr>, vf_next s) E"
    by (rule indexes_transfer [OF vnodes.hash_keyed_axioms vnodes.hash_keyed_axioms assms(1) [unfolded vindexed_def vnode_table_def]])
      (simp_all only: assms(4) vnode_hash_def option.case)
  then show ?thesis by (simp only: vindexed_def vnode_table_def assms(2,3))
qed

lemma mindexed_same:
  assumes "mindexed s E" and "vf_mtable s' = vf_mtable s" "vf_mnext s' = vf_mnext s"
    and "\<And>a. a \<in> E \<Longrightarrow> mt_id (vf_mount s' a) = mt_id (vf_mount s a)"
  shows "mindexed s' E"
proof -
  have "mounts.indexes (vf_mount s')
      ((vf_mtable s)\<lparr>ht_compare := Some (mount_compare (vf_mount s')), ht_hash := mount_hash (vf_mount s')\<rparr>, vf_mnext s) E"
    by (rule indexes_transfer [OF mounts.hash_keyed_axioms mounts.hash_keyed_axioms assms(1) [unfolded mindexed_def mounts_table_def]])
      (simp_all only: assms(4) mount_hash_def option.case)
  then show ?thesis by (simp only: mindexed_def mounts_table_def assms(2,3))
qed

lemma vnode_table_back: "vnodes.indexes (vf_vnode s) t E \<Longrightarrow> vnode_table (set_vnode_table t s) = t"
  using vnodes.indexes_functions [of "vf_vnode s" "fst t" "snd t"] by (simp add: vnode_table_def)

lemma vindexed_insert:
  assumes "vindexed s E" and "vkey (vf_vnode s v) \<notin> (\<lambda>a. vkey (vf_vnode s a)) ` E"
  shows "vindexed (set_vnode_table (snd (hash_insert v (vnode_table s))) s) (insert v E)"
proof -
  note i = vnodes.indexes_insert [OF assms(1) [unfolded vindexed_def] assms(2)]
  from i show ?thesis by (simp add: vindexed_def vnode_table_back [OF i])
qed

lemma vindexed_remove:
  assumes "vindexed s E" and "v \<in> E"
  shows "\<exists>t. hash_remove v (vnode_table s) = Some (B_NO_ERROR, t) \<and> vindexed (set_vnode_table t s) (E - {v})"
proof -
  from vnodes.indexes_remove [OF assms(1) [unfolded vindexed_def] assms(2)] obtain t where
    t: "hash_remove v (vnode_table s) = Some (B_NO_ERROR, t)" and i: "vnodes.indexes (vf_vnode s) t (E - {v})" by blast
  from t i show ?thesis by (auto simp: vindexed_def vnode_table_back [OF i])
qed

lemma vindexed_inj: "vindexed s E \<Longrightarrow> inj_on (\<lambda>a. vkey (vf_vnode s a)) E"
  unfolding vindexed_def by (rule vnodes.indexes_inj)

lemma lookup_vnode_found: "vindexed s E \<Longrightarrow> v \<in> E \<Longrightarrow> vkey (vf_vnode s v) = (f, i) \<Longrightarrow> lookup_vnode f i s = Returns (Some v)"
  using vnodes.indexes_found [of "vf_vnode s" "vnode_table s" E v] by (simp add: vindexed_def lookup_vnode_def looped_def)

lemma lookup_vnode_missing: "vindexed s E \<Longrightarrow> (f, i) \<notin> (\<lambda>a. vkey (vf_vnode s a)) ` E \<Longrightarrow> lookup_vnode f i s = Returns None"
  using vnodes.indexes_missing [of "vf_vnode s" "vnode_table s" E "(f, i)"] by (simp add: vindexed_def lookup_vnode_def looped_def)

lemma fsid_to_mount_found: "mindexed s E \<Longrightarrow> m \<in> E \<Longrightarrow> fsid_to_mount (mt_id (vf_mount s m)) s = Returns (Some m)"
  using mounts.indexes_found [of "vf_mount s" "mounts_table s" E m] by (simp add: mindexed_def fsid_to_mount_def looped_def)

lemma mindexed_inj: "mindexed s E \<Longrightarrow> inj_on (\<lambda>a. mt_id (vf_mount s a)) E"
  unfolding mindexed_def by (rule mounts.indexes_inj)

section \<open>What the list of a mount does not touch\<close>

definition lists_only :: "'f vfs \<Rightarrow> 'f vfs \<Rightarrow> bool" where
  "lists_only s s' \<longleftrightarrow>
     vf_live s' = vf_live s \<and> vf_table s' = vf_table s \<and> vf_next s' = vf_next s \<and> vf_mounts s' = vf_mounts s \<and>
     vf_mtable s' = vf_mtable s \<and> vf_mnext s' = vf_mnext s \<and> vf_root s' = vf_root s \<and> vf_cwd s' = vf_cwd s \<and>
     vf_next_fsid s' = vf_next_fsid s \<and> vf_fs s' = vf_fs s \<and>
     (\<forall>a. vkey (vf_vnode s' a) = vkey (vf_vnode s a) \<and> vn_cache (vf_vnode s' a) = vn_cache (vf_vnode s a) \<and>
        vn_priv (vf_vnode s' a) = vn_priv (vf_vnode s a) \<and> vn_mount (vf_vnode s' a) = vn_mount (vf_vnode s a) \<and>
        vn_covered_by (vf_vnode s' a) = vn_covered_by (vf_vnode s a) \<and> vn_ref_count (vf_vnode s' a) = vn_ref_count (vf_vnode s a) \<and>
        vn_delete_me (vf_vnode s' a) = vn_delete_me (vf_vnode s a) \<and> vn_busy (vf_vnode s' a) = vn_busy (vf_vnode s a)) \<and>
     (\<forall>m. mt_fs (vf_mount s' m) = mt_fs (vf_mount s m) \<and> mt_id (vf_mount s' m) = mt_id (vf_mount s m) \<and>
        mt_cookie (vf_mount s' m) = mt_cookie (vf_mount s m) \<and> mt_root (vf_mount s' m) = mt_root (vf_mount s m) \<and>
        mt_covers (vf_mount s' m) = mt_covers (vf_mount s m))"

lemma lists_only_add: "lists_only s (add_vnode_to_mount_list v m s)"
  by (simp add: lists_only_def add_vnode_to_mount_list_def Let_def)

lemma lists_only_remove: "lists_only s (remove_vnode_from_mount_list v m s)"
  by (simp add: lists_only_def remove_vnode_from_mount_list_def Let_def split: option.split)

text \<open>What a change of references does not touch: the vnodes in \<open>A\<close> and the mounts.\<close>

definition vframe :: "nat set \<Rightarrow> 'f vfs \<Rightarrow> 'f vfs \<Rightarrow> bool" where
  "vframe A s s' \<longleftrightarrow>
     vf_mounts s' = vf_mounts s \<and> vf_mtable s' = vf_mtable s \<and> vf_mnext s' = vf_mnext s \<and>
     vf_root s' = vf_root s \<and> vf_cwd s' = vf_cwd s \<and> vf_next_fsid s' = vf_next_fsid s \<and>
     (\<forall>a \<in> A. vkey (vf_vnode s' a) = vkey (vf_vnode s a) \<and> vn_covered_by (vf_vnode s' a) = vn_covered_by (vf_vnode s a) \<and>
        vn_priv (vf_vnode s' a) = vn_priv (vf_vnode s a) \<and> vn_mount (vf_vnode s' a) = vn_mount (vf_vnode s a) \<and>
        vn_delete_me (vf_vnode s' a) = vn_delete_me (vf_vnode s a)) \<and>
     (\<forall>m. mt_fs (vf_mount s' m) = mt_fs (vf_mount s m) \<and> mt_id (vf_mount s' m) = mt_id (vf_mount s m) \<and>
        mt_cookie (vf_mount s' m) = mt_cookie (vf_mount s m) \<and> mt_root (vf_mount s' m) = mt_root (vf_mount s m) \<and>
        mt_covers (vf_mount s' m) = mt_covers (vf_mount s m))"

lemma vframe_refl: "vframe A s s"
  by (simp add: vframe_def)

lemma vframe_trans: "vframe A s s' \<Longrightarrow> vframe A s' s'' \<Longrightarrow> vframe A s s''"
  by (simp add: vframe_def)

lemma vframe_mono: "vframe A s s' \<Longrightarrow> B \<subseteq> A \<Longrightarrow> vframe B s s'"
  by (auto simp: vframe_def)

lemma lists_only_vframe: "lists_only s s' \<Longrightarrow> vframe A s s'"
  by (simp add: lists_only_def vframe_def)

section \<open>The invariant\<close>

text \<open>
  A vnode with its references \<open>R\<close>: as many as its counter says, and a file behind it. What a file
  system keeps, its nodes and which of them are in no directory any more are parameters; \<open>G\<close> is
  what the invariant of the file system under a cookie speaks of besides its state.
\<close>

definition vnode_ok ::
  "('g \<Rightarrow> 'f \<Rightarrow> bool) \<Rightarrow> ('f \<Rightarrow> nat \<Rightarrow> nat ptr) \<Rightarrow> ('g \<Rightarrow> 'f \<Rightarrow> nat \<Rightarrow> bool) \<Rightarrow>
   'f vfs \<Rightarrow> nat multiset \<Rightarrow> (nat \<Rightarrow> 'g) \<Rightarrow> nat \<Rightarrow> bool" where
  "vnode_ok good node_of detached s R G v \<longleftrightarrow>
     (let r = vf_vnode s v in
      \<not> vn_busy r \<and> vn_cache r = None \<and> v \<in># R \<and> vn_ref_count r = int (count R v) \<and>
      (\<exists>m \<in> vf_mounts s. \<exists>p. vn_mount r = Some m \<and> vn_fsid r = mt_id (vf_mount s m) \<and> vn_priv r = Some p \<and>
         node_of (vf_fs s (mt_cookie (vf_mount s m))) (vn_vnid r) = Some p \<and>
         (vn_delete_me r \<longrightarrow> detached (G (mt_cookie (vf_mount s m))) (vf_fs s (mt_cookie (vf_mount s m))) (vn_vnid r))))"

definition vnodes_ok ::
  "('g \<Rightarrow> 'f \<Rightarrow> bool) \<Rightarrow> ('f \<Rightarrow> nat \<Rightarrow> nat ptr) \<Rightarrow> ('g \<Rightarrow> 'f \<Rightarrow> nat \<Rightarrow> bool) \<Rightarrow>
   'f vfs \<Rightarrow> nat multiset \<Rightarrow> (nat \<Rightarrow> 'g) \<Rightarrow> bool" where
  "vnodes_ok good node_of detached s R G \<longleftrightarrow>
     vindexed s (vf_live s) \<and> finite (vf_live s) \<and> mindexed s (vf_mounts s) \<and>
     inj_on (\<lambda>m. mt_cookie (vf_mount s m)) (vf_mounts s) \<and>
     (\<forall>m \<in> vf_mounts s. good (G (mt_cookie (vf_mount s m))) (vf_fs s (mt_cookie (vf_mount s m)))) \<and>
     (\<forall>v \<in> vf_live s. vnode_ok good node_of detached s R G v) \<and> set_mset R \<subseteq> vf_live s"

text \<open>Nobody holds the mutex of a mounted file system.\<close>

definition mutexes_free :: "('f \<Rightarrow> bool) \<Rightarrow> 'f vfs \<Rightarrow> bool" where
  "mutexes_free unlocked s \<longleftrightarrow> (\<forall>m \<in> vf_mounts s. unlocked (vf_fs s (mt_cookie (vf_mount s m))))"

lemma mutexes_free_same: "vframe A s s' \<Longrightarrow> vf_fs s' = vf_fs s \<Longrightarrow> mutexes_free unlocked s' = mutexes_free unlocked s"
  by (simp add: mutexes_free_def vframe_def)

section \<open>Files that a file system provides\<close>

text \<open>
  What the layer needs of a file system: it finds the node of an id, it takes a node back
  without a change, it deletes a node that is no longer in a directory, and it does none of this
  to other nodes. \<open>g\<close> is whatever its invariant speaks of besides its state.
\<close>

locale vnode_provider =
  fixes E :: "'f vfs_env"
    and good :: "'g \<Rightarrow> 'f \<Rightarrow> bool"
    and node_of :: "'f \<Rightarrow> nat \<Rightarrow> nat ptr"
    and unlocked :: "'f \<Rightarrow> bool"
    and detached :: "'g \<Rightarrow> 'f \<Rightarrow> nat \<Rightarrow> bool"
  assumes getvnode_found: "good g (vf_fs s c) \<Longrightarrow> r \<or> unlocked (vf_fs s c) \<Longrightarrow> node_of (vf_fs s c) i = Some p \<Longrightarrow>
      op_getvnode (env_ops E k) c i r s = Returns ((0, Some p), s)"
    and putvnode_same: "op_putvnode (env_ops E k) c q r s = Returns (0, s)"
    and removevnode_gone: "good g (vf_fs s c) \<Longrightarrow> r \<or> unlocked (vf_fs s c) \<Longrightarrow> node_of (vf_fs s c) i = Some p \<Longrightarrow>
      detached g (vf_fs s c) i \<Longrightarrow>
      \<exists>f'. op_removevnode (env_ops E k) c (Some p) r s = Returns (0, s\<lparr>vf_fs := (vf_fs s)(c := f')\<rparr>) \<and> good g f' \<and>
           unlocked f' = unlocked (vf_fs s c) \<and>
           (\<forall>j. j \<noteq> i \<longrightarrow> node_of f' j = node_of (vf_fs s c) j \<and> detached g f' j = detached g (vf_fs s c) j)"
    and memory_left: "finite L \<Longrightarrow> \<exists>v. env_alloc E L = Some v \<and> v \<notin> L"
begin

abbreviation vn_ok :: "'f vfs \<Rightarrow> nat multiset \<Rightarrow> (nat \<Rightarrow> 'g) \<Rightarrow> nat \<Rightarrow> bool" where
  "vn_ok \<equiv> vnode_ok good node_of detached"

abbreviation vcore :: "'f vfs \<Rightarrow> nat multiset \<Rightarrow> (nat \<Rightarrow> 'g) \<Rightarrow> bool" where
  "vcore \<equiv> vnodes_ok good node_of detached"

abbreviation idle :: "'f vfs \<Rightarrow> bool" where
  "idle \<equiv> mutexes_free unlocked"

lemmas vn_ok_def = vnode_ok_def [of good node_of detached]
lemmas vcore_def = vnodes_ok_def [of good node_of detached]

lemma vcoreD:
  assumes "vcore s R G"
  shows "vindexed s (vf_live s)" "finite (vf_live s)" "mindexed s (vf_mounts s)"
    "inj_on (\<lambda>m. mt_cookie (vf_mount s m)) (vf_mounts s)"
    "m \<in> vf_mounts s \<Longrightarrow> good (G (mt_cookie (vf_mount s m))) (vf_fs s (mt_cookie (vf_mount s m)))"
    "v \<in> vf_live s \<Longrightarrow> vn_ok s R G v" "v \<in># R \<longleftrightarrow> v \<in> vf_live s"
  using assms by (auto simp: vcore_def vn_ok_def Let_def)

lemma vn_okD:
  assumes "vn_ok s R G v"
  shows "\<not> vn_busy (vf_vnode s v)" "vn_cache (vf_vnode s v) = None" "v \<in># R" "vn_ref_count (vf_vnode s v) = int (count R v)"
    "\<exists>m \<in> vf_mounts s. \<exists>p. vn_mount (vf_vnode s v) = Some m \<and> vn_fsid (vf_vnode s v) = mt_id (vf_mount s m) \<and>
       vn_priv (vf_vnode s v) = Some p \<and> node_of (vf_fs s (mt_cookie (vf_mount s m))) (vn_vnid (vf_vnode s v)) = Some p \<and>
       (vn_delete_me (vf_vnode s v) \<longrightarrow>
          detached (G (mt_cookie (vf_mount s m))) (vf_fs s (mt_cookie (vf_mount s m))) (vn_vnid (vf_vnode s v)))"
  using assms by (simp_all add: vn_ok_def Let_def)

lemma vn_ok_same:
  assumes "vn_ok s R G a" and "vframe {a} s s'" and "vn_busy (vf_vnode s' a) = vn_busy (vf_vnode s a)"
    "vn_cache (vf_vnode s' a) = vn_cache (vf_vnode s a)"
    and "a \<in># R'" "vn_ref_count (vf_vnode s' a) = int (count R' a)"
    and "\<And>m. m \<in> vf_mounts s \<Longrightarrow> vn_mount (vf_vnode s a) = Some m \<Longrightarrow>
      node_of (vf_fs s' (mt_cookie (vf_mount s m))) (vn_vnid (vf_vnode s a)) =
        node_of (vf_fs s (mt_cookie (vf_mount s m))) (vn_vnid (vf_vnode s a)) \<and>
      (detached (G (mt_cookie (vf_mount s m))) (vf_fs s (mt_cookie (vf_mount s m))) (vn_vnid (vf_vnode s a)) \<longrightarrow>
       detached (G (mt_cookie (vf_mount s m))) (vf_fs s' (mt_cookie (vf_mount s m))) (vn_vnid (vf_vnode s a)))"
  shows "vn_ok s' R' G a"
proof -
  note d = vn_okD [OF assms(1)]
  from assms(2) have f: "vf_mounts s' = vf_mounts s" "vkey (vf_vnode s' a) = vkey (vf_vnode s a)"
    "vn_priv (vf_vnode s' a) = vn_priv (vf_vnode s a)" "vn_mount (vf_vnode s' a) = vn_mount (vf_vnode s a)"
    "vn_delete_me (vf_vnode s' a) = vn_delete_me (vf_vnode s a)"
    "\<And>m. mt_id (vf_mount s' m) = mt_id (vf_mount s m)" "\<And>m. mt_cookie (vf_mount s' m) = mt_cookie (vf_mount s m)"
    by (simp_all add: vframe_def)
  from d(5) obtain m p where m: "m \<in> vf_mounts s" "vn_mount (vf_vnode s a) = Some m" "vn_fsid (vf_vnode s a) = mt_id (vf_mount s m)"
    "vn_priv (vf_vnode s a) = Some p" "node_of (vf_fs s (mt_cookie (vf_mount s m))) (vn_vnid (vf_vnode s a)) = Some p"
    "vn_delete_me (vf_vnode s a) \<longrightarrow> detached (G (mt_cookie (vf_mount s m))) (vf_fs s (mt_cookie (vf_mount s m))) (vn_vnid (vf_vnode s a))"
    by blast
  from assms(7) [OF m(1,2)] m f d assms(3-6) show ?thesis
    by (auto simp: vn_ok_def Let_def vkey_def)
qed

lemma vcore_lists_only:
  assumes "vcore s R G" and l: "lists_only s s'"
  shows "vcore s' R G"
proof -
  note d = vcoreD [OF assms(1)]
  have f: "vf_live s' = vf_live s" "vf_mounts s' = vf_mounts s" "vf_fs s' = vf_fs s"
    "\<And>m. mt_cookie (vf_mount s' m) = mt_cookie (vf_mount s m)"
    using l by (simp_all add: lists_only_def)
  have "vindexed s' (vf_live s)" "mindexed s' (vf_mounts s)"
    using vindexed_same [OF d(1), of s'] mindexed_same [OF d(3), of s'] l by (simp_all add: lists_only_def)
  moreover have "vn_ok s' R G v" if "v \<in> vf_live s" for v
    by (rule vn_ok_same [OF d(6) [OF that] lists_only_vframe [OF l]])
      (use l vn_okD [OF d(6) [OF that]] in \<open>simp_all add: lists_only_def\<close>)
  ultimately show ?thesis using d assms(1) by (simp add: vcore_def f)
qed

section \<open>Taking a reference\<close>

lemma inc_ref:
  assumes ok: "vcore s R G" and v: "v \<in> vf_live s" and n: "size R < 2 ^ 31 - 1"
  shows "\<exists>s'. inc_vnode_ref_count v s = Returns (0, s') \<and> vcore s' (add_mset v R) G \<and> vframe UNIV s s' \<and>
           vf_fs s' = vf_fs s \<and> vf_live s' = vf_live s"
proof -
  note d = vcoreD [OF ok]
  let ?s' = "set_vnode v (\<lambda>r. r\<lparr>vn_ref_count := i32 (vn_ref_count r + 1)\<rparr>) s"
  have "count R v \<le> size R" by (rule count_le_size)
  then have rc: "i32 (vn_ref_count (vf_vnode s v) + 1) = int (count R v) + 1"
    using n vn_okD(4) [OF d(6) [OF v]] by (intro i32_id [THEN trans]) simp_all
  have fr: "vframe A s ?s'" for A by (simp add: vframe_def)
  have "vindexed ?s' (vf_live s)" "mindexed ?s' (vf_mounts s)"
    using vindexed_same [OF d(1), of ?s'] mindexed_same [OF d(3), of ?s'] by simp_all
  moreover have "vn_ok ?s' (add_mset v R) G a" if a: "a \<in> vf_live s" for a
    by (rule vn_ok_same [OF d(6) [OF a] fr]) (use vn_okD [OF d(6) [OF a]] rc in auto)
  ultimately have "vcore ?s' (add_mset v R) G" using d ok v by (simp add: vcore_def)
  with v fr show ?thesis by (simp add: inc_vnode_ref_count_def)
qed

lemma live_mount:
  assumes "vcore s R G" and "v \<in> vf_live s" and "m \<in> vf_mounts s" and "vn_fsid (vf_vnode s v) = mt_id (vf_mount s m)"
  shows "vn_mount (vf_vnode s v) = Some m"
    and "node_of (vf_fs s (mt_cookie (vf_mount s m))) (vn_vnid (vf_vnode s v)) = vn_priv (vf_vnode s v)"
    and "vn_priv (vf_vnode s v) \<noteq> None"
    and "vn_delete_me (vf_vnode s v) \<Longrightarrow>
      detached (G (mt_cookie (vf_mount s m))) (vf_fs s (mt_cookie (vf_mount s m))) (vn_vnid (vf_vnode s v))"
proof -
  note d = vcoreD [OF assms(1)]
  from vn_okD(5) [OF d(6) [OF assms(2)]] obtain m' p where m': "m' \<in> vf_mounts s" "vn_mount (vf_vnode s v) = Some m'"
    "vn_fsid (vf_vnode s v) = mt_id (vf_mount s m')" "vn_priv (vf_vnode s v) = Some p"
    "node_of (vf_fs s (mt_cookie (vf_mount s m'))) (vn_vnid (vf_vnode s v)) = Some p"
    "vn_delete_me (vf_vnode s v) \<longrightarrow>
      detached (G (mt_cookie (vf_mount s m'))) (vf_fs s (mt_cookie (vf_mount s m'))) (vn_vnid (vf_vnode s v))"
    by blast
  with assms(3,4) mindexed_inj [OF d(3)] have "m' = m" by (auto dest: inj_onD)
  with m' show "vn_mount (vf_vnode s v) = Some m" "vn_priv (vf_vnode s v) \<noteq> None"
    "node_of (vf_fs s (mt_cookie (vf_mount s m))) (vn_vnid (vf_vnode s v)) = vn_priv (vf_vnode s v)"
    "vn_delete_me (vf_vnode s v) \<Longrightarrow>
      detached (G (mt_cookie (vf_mount s m))) (vf_fs s (mt_cookie (vf_mount s m))) (vn_vnid (vf_vnode s v))"
    by simp_all
qed

text \<open>What a caller of \<open>get_vnode\<close> gets.\<close>

definition got_ref :: "'f vfs \<Rightarrow> nat multiset \<Rightarrow> (nat \<Rightarrow> 'g) \<Rightarrow> nat \<times> nat \<Rightarrow> nat \<Rightarrow> nat \<Rightarrow> 'f vfs \<Rightarrow> bool" where
  "got_ref s R G k p v s' \<longleftrightarrow>
     vcore s' (add_mset v R) G \<and> vframe (vf_live s) s s' \<and> vf_fs s' = vf_fs s \<and> vf_live s' = insert v (vf_live s) \<and>
     vkey (vf_vnode s' v) = k \<and> vn_priv (vf_vnode s' v) = Some p \<and>
     (v \<notin> vf_live s \<longrightarrow> vn_covered_by (vf_vnode s' v) = None \<and> \<not> vn_delete_me (vf_vnode s' v))"

lemma get_old:
  assumes ok: "vcore s R G" and v: "v \<in> vf_live s" and m: "m \<in> vf_mounts s" and k: "vkey (vf_vnode s v) = (mt_id (vf_mount s m), i)"
    and p: "node_of (vf_fs s (mt_cookie (vf_mount s m))) i = Some p" and n: "size R < 2 ^ 31 - 1"
  shows "\<exists>s'. get_vnode E (mt_id (vf_mount s m)) i r s = Returns ((B_NO_ERROR, Some v), s') \<and>
           got_ref s R G (mt_id (vf_mount s m), i) p v s'"
proof -
  note d = vcoreD [OF ok]
  from inc_ref [OF ok v n] obtain s' where s': "inc_vnode_ref_count v s = Returns (0, s')" "vcore s' (add_mset v R) G"
    "vframe UNIV s s'" "vf_fs s' = vf_fs s" "vf_live s' = vf_live s" by blast
  from k have "vn_fsid (vf_vnode s v) = mt_id (vf_mount s m)" "vn_vnid (vf_vnode s v) = i" by (simp_all add: vkey_def)
  with live_mount [OF ok v m] p have priv: "vn_priv (vf_vnode s v) = Some p" by simp
  have "get_vnode E (mt_id (vf_mount s m)) i r s = Returns ((B_NO_ERROR, Some v), s')"
    using lookup_vnode_found [OF d(1) v k] vn_okD(1) [OF d(6) [OF v]] s'(1) by (simp add: get_vnode_def)
  moreover have "got_ref s R G (mt_id (vf_mount s m), i) p v s'"
    unfolding got_ref_def using s' v k priv vframe_mono [OF s'(3), of "vf_live s"] by (auto simp: vframe_def)
  ultimately show ?thesis by blast
qed

lemma get_new:
  assumes ok: "vcore s R G" and m: "m \<in> vf_mounts s" and new: "(mt_id (vf_mount s m), i) \<notin> (\<lambda>a. vkey (vf_vnode s a)) ` vf_live s"
    and p: "node_of (vf_fs s (mt_cookie (vf_mount s m))) i = Some p"
    and r: "r \<or> unlocked (vf_fs s (mt_cookie (vf_mount s m)))"
  shows "\<exists>v s'. get_vnode E (mt_id (vf_mount s m)) i r s = Returns ((B_NO_ERROR, Some v), s') \<and>
           got_ref s R G (mt_id (vf_mount s m), i) p v s'"
proof -
  note d = vcoreD [OF ok]
  let ?f = "mt_id (vf_mount s m)" and ?c = "mt_cookie (vf_mount s m)"
  from memory_left [OF d(2)] obtain v where v: "env_alloc E (vf_live s) = Some v" "v \<notin> vf_live s" by blast
  then have vR: "count R v = 0" "v \<notin># R" using d(7) [of v] by (simp_all add: not_in_iff)
  obtain s1 where create: "create_new_vnode E s = (Some v, s1)"
    and s1: "s1 = set_vnode v (\<lambda>_. \<lparr>vn_mount_prev = None, vn_mount_next = None, vn_cache = None, vn_fsid = 0, vn_vnid = 0,
             vn_priv = None, vn_mount = None, vn_covered_by = None, vn_ref_count = 0, vn_delete_me = False, vn_busy = False\<rparr>)
             (s\<lparr>vf_live := insert v (vf_live s)\<rparr>)"
    using v(1) by (simp add: create_new_vnode_def)
  obtain s2 where s2: "s2 = set_vnode v (\<lambda>r. r\<lparr>vn_fsid := ?f, vn_vnid := i, vn_mount := Some m, vn_busy := True\<rparr>) s1" by simp
  obtain s3 where s3: "s3 = set_vnode_table (snd (hash_insert v (vnode_table s2))) s2" by simp
  obtain s4 where s4: "s4 = add_vnode_to_mount_list v m s3" by simp
  let ?s6 = "set_vnode v (\<lambda>r. r\<lparr>vn_priv := Some p\<rparr>) s4"
  let ?s' = "set_vnode v (\<lambda>r. r\<lparr>vn_busy := False, vn_ref_count := 1\<rparr>) ?s6"
  have l34: "lists_only s3 s4" unfolding s4 by (rule lists_only_add)
  have node2: "vf_vnode s2 v = \<lparr>vn_mount_prev = None, vn_mount_next = None, vn_cache = None, vn_fsid = ?f, vn_vnid = i,
             vn_priv = None, vn_mount = Some m, vn_covered_by = None, vn_ref_count = 0, vn_delete_me = False, vn_busy = True\<rparr>"
    "\<And>a. a \<noteq> v \<Longrightarrow> vf_vnode s2 a = vf_vnode s a" "vf_live s2 = insert v (vf_live s)" "vf_table s2 = vf_table s" "vf_next s2 = vf_next s"
    "vf_mount s2 = vf_mount s" "vf_mounts s2 = vf_mounts s" "vf_mtable s2 = vf_mtable s" "vf_mnext s2 = vf_mnext s" "vf_fs s2 = vf_fs s"
    "vf_root s2 = vf_root s" "vf_cwd s2 = vf_cwd s" "vf_next_fsid s2 = vf_next_fsid s"
    by (simp_all add: s2 s1)
  have old2: "vf_vnode s2 a = vf_vnode s a" if "a \<in> vf_live s" for a
    by (rule node2(2)) (use that v(2) in blast)
  have m1: "fsid_to_mount ?f s1 = Returns (Some m)"
  proof -
    have "mindexed s1 (vf_mounts s)" by (rule mindexed_same [OF d(3)]) (simp_all add: s1)
    from fsid_to_mount_found [OF this m] show ?thesis by (simp add: s1)
  qed
  have fs4: "vf_fs s4 = vf_fs s" "mt_cookie (vf_mount s4 m) = ?c" "mt_fs (vf_mount s4 m) = mt_fs (vf_mount s m)"
    using l34 node2 by (simp_all add: lists_only_def s3)
  have op: "op_getvnode (env_ops E k) ?c i r s4 = Returns ((0, Some p), s4)" for k
    by (rule getvnode_found [where g = "G ?c"]) (use d(5) [OF m] r p fs4 in simp_all)
  have run: "get_vnode E ?f i r s = Returns ((B_NO_ERROR, Some v), ?s')"
    using lookup_vnode_missing [OF d(1) new] create m1 op fs4
    by (simp add: get_vnode_def Let_def s4 [symmetric] s3 [symmetric] s2 [symmetric])
  have keys: "vkey (vf_vnode ?s' a) = vkey (vf_vnode s2 a)" for a
    using l34 by (simp add: lists_only_def s3)
  have v2: "vkey (vf_vnode s2 v) = (?f, i)" by (simp add: node2 vkey_def)
  have "vindexed s2 (vf_live s)"
    by (rule vindexed_same [OF d(1)]) (simp_all add: node2(4,5) old2)
  moreover have "vkey (vf_vnode s2 v) \<notin> (\<lambda>a. vkey (vf_vnode s2 a)) ` vf_live s"
  proof
    assume "vkey (vf_vnode s2 v) \<in> (\<lambda>a. vkey (vf_vnode s2 a)) ` vf_live s"
    then obtain a where a: "a \<in> vf_live s" "vkey (vf_vnode s2 v) = vkey (vf_vnode s2 a)" by blast
    with v(2) have "a \<noteq> v" by blast
    with a node2(2) [of a] v2 new show False by force
  qed
  ultimately have "vindexed s3 (insert v (vf_live s))" unfolding s3 by (rule vindexed_insert)
  then have vi: "vindexed ?s' (insert v (vf_live s))"
    by (rule vindexed_same) (use l34 in \<open>simp_all add: lists_only_def s3\<close>)
  have mi: "mindexed ?s' (vf_mounts s)"
    by (rule mindexed_same [OF d(3)]) (use l34 node2 in \<open>simp_all add: lists_only_def s3\<close>)
  have fr: "vframe (vf_live s) s ?s'"
    using l34 v(2) by (auto simp: vframe_def lists_only_def s3 node2(3-13) old2)
  have rest: "vf_live ?s' = insert v (vf_live s)" "vf_mounts ?s' = vf_mounts s" "vf_fs ?s' = vf_fs s"
    "\<And>m. mt_cookie (vf_mount ?s' m) = mt_cookie (vf_mount s m)" "\<And>m. mt_id (vf_mount ?s' m) = mt_id (vf_mount s m)"
    using l34 node2 by (simp_all add: lists_only_def s3)
  have nv: "\<not> vn_busy (vf_vnode ?s' v)" "vn_cache (vf_vnode ?s' v) = None" "vn_ref_count (vf_vnode ?s' v) = 1"
    "vn_mount (vf_vnode ?s' v) = Some m" "vn_priv (vf_vnode ?s' v) = Some p" "\<not> vn_delete_me (vf_vnode ?s' v)"
    "vn_covered_by (vf_vnode ?s' v) = None" "vn_fsid (vf_vnode ?s' v) = ?f" "vn_vnid (vf_vnode ?s' v) = i"
    using l34 node2(1) keys [of v] by (simp_all add: lists_only_def s3 vkey_def)
  have "vn_ok ?s' (add_mset v R) G a" if a: "a \<in> insert v (vf_live s)" for a
  proof (cases "a = v")
    case True
    show ?thesis unfolding vn_ok_def Let_def True rest nv(1-5,7-9) using m p vR nv(1,6) by auto
  next
    case False
    with a have aL: "a \<in> vf_live s" by simp
    show ?thesis
      by (rule vn_ok_same [OF d(6) [OF aL] vframe_mono [OF fr]])
        (use aL False vn_okD [OF d(6) [OF aL]] l34 node2(2) [OF False] node2(10) in \<open>simp_all add: lists_only_def s3\<close>)
  qed
  with vi mi d rest have "vcore ?s' (add_mset v R) G" unfolding vcore_def rest by auto
  moreover have "vkey (vf_vnode ?s' v) = (?f, i)" by (simp only: keys v2)
  ultimately have "got_ref s R G (?f, i) p v ?s'" using fr rest nv unfolding got_ref_def by blast
  with run show ?thesis by blast
qed

lemma get_ref:
  assumes "vcore s R G" and "m \<in> vf_mounts s" and "node_of (vf_fs s (mt_cookie (vf_mount s m))) i = Some p"
    and "r \<or> unlocked (vf_fs s (mt_cookie (vf_mount s m)))" and "size R < 2 ^ 31 - 1"
  shows "\<exists>v s'. get_vnode E (mt_id (vf_mount s m)) i r s = Returns ((B_NO_ERROR, Some v), s') \<and>
           got_ref s R G (mt_id (vf_mount s m), i) p v s'"
proof (cases "(mt_id (vf_mount s m), i) \<in> (\<lambda>a. vkey (vf_vnode s a)) ` vf_live s")
  case True
  then obtain v where "v \<in> vf_live s" "vkey (vf_vnode s v) = (mt_id (vf_mount s m), i)" by force
  from get_old [OF assms(1) this(1) assms(2) this(2) assms(3,5)] show ?thesis by blast
qed (use get_new [OF assms(1,2) _ assms(3,4)] in blast)

section \<open>Giving a reference back\<close>

text \<open>What is left after a reference was dropped; the files do not change unless one was deleted.\<close>

definition put_ref :: "'f vfs \<Rightarrow> nat multiset \<Rightarrow> (nat \<Rightarrow> 'g) \<Rightarrow> nat \<Rightarrow> 'f vfs \<Rightarrow> bool" where
  "put_ref s R G v s' \<longleftrightarrow>
     vcore s' (R - {#v#}) G \<and> vframe (vf_live s') s s' \<and> (\<forall>c. unlocked (vf_fs s' c) = unlocked (vf_fs s c)) \<and>
     vf_live s' = (if count R v = 1 then vf_live s - {v} else vf_live s) \<and>
     (count R v \<noteq> 1 \<or> \<not> vn_delete_me (vf_vnode s v) \<longrightarrow> vf_fs s' = vf_fs s)"

lemma drop_ref:
  assumes ok: "vcore s R G" and v: "v \<in># R" and c: "count R v \<noteq> 1" and n: "size R < 2 ^ 31"
  shows "\<exists>s'. dec_vnode_ref_count E v True r s = Returns (0, s') \<and> put_ref s R G v s'"
proof -
  note d = vcoreD [OF ok]
  from v d(7) have vL: "v \<in> vf_live s" by blast
  from v c have c2: "2 \<le> count R v" by (metis One_nat_def Suc_leI count_greater_zero_iff le_neq_implies_less numeral_2_eq_2)
  have "count R v \<le> size R" by (rule count_le_size)
  with n have rc: "i32 (int (count R v) - 1) = int (count R v) - 1" by (intro i32_id) simp_all
  let ?s' = "set_vnode v (\<lambda>r. r\<lparr>vn_ref_count := int (count R v) - 1, vn_busy := vn_busy r\<rparr>) s"
  have run: "dec_vnode_ref_count E v True r s = Returns (0, ?s')"
    using vL c2 vn_okD(1,4) [OF d(6) [OF vL]] rc by (simp add: dec_vnode_ref_count_def dec_vnode_start_def Let_def)
  have fr: "vframe A s ?s'" for A by (simp add: vframe_def vkey_def)
  have "vindexed ?s' (vf_live s)" "mindexed ?s' (vf_mounts s)"
    using vindexed_same [OF d(1), of ?s'] mindexed_same [OF d(3), of ?s'] by (simp_all add: vkey_def)
  moreover have "vn_ok ?s' (R - {#v#}) G a" if a: "a \<in> vf_live s" for a
    by (rule vn_ok_same [OF d(6) [OF a] fr])
      (use vn_okD [OF d(6) [OF a]] c2 in \<open>auto simp: of_nat_diff in_diff_count\<close>)
  moreover have "set_mset (R - {#v#}) \<subseteq> vf_live s" using d(7) by (auto dest: in_diffD)
  ultimately have "vcore ?s' (R - {#v#}) G" using d by (simp add: vcore_def)
  with run fr c show ?thesis by (auto simp: put_ref_def)
qed

text \<open>The last reference: the vnode leaves the tables and the file goes back to its file system.\<close>

lemma drop_last:
  assumes ok: "vcore s R G" and v: "count R v = 1" and r: "r \<or> idle s"
  shows "\<exists>s'. dec_vnode_ref_count E v True r s = Returns (1, s') \<and> put_ref s R G v s'"
proof -
  note d = vcoreD [OF ok]
  have vR: "v \<in># R" using v by (metis count_eq_zero_iff zero_neq_one)
  with d(7) have vL: "v \<in> vf_live s" by blast
  note o = vn_okD [OF d(6) [OF vL]]
  from o(5) obtain m p where m: "m \<in> vf_mounts s" "vn_mount (vf_vnode s v) = Some m" "vn_fsid (vf_vnode s v) = mt_id (vf_mount s m)"
    "vn_priv (vf_vnode s v) = Some p" "node_of (vf_fs s (mt_cookie (vf_mount s m))) (vn_vnid (vf_vnode s v)) = Some p"
    "vn_delete_me (vf_vnode s v) \<longrightarrow>
      detached (G (mt_cookie (vf_mount s m))) (vf_fs s (mt_cookie (vf_mount s m))) (vn_vnid (vf_vnode s v))"
    by blast
  let ?c = "mt_cookie (vf_mount s m)" and ?i = "vn_vnid (vf_vnode s v)"
  obtain s0 where s0: "s0 = set_vnode v (\<lambda>r. r\<lparr>vn_ref_count := 0, vn_busy := True\<rparr>) s" by simp
  have start: "dec_vnode_start v s = Returns (True, s0)"
    using vL o(1,4) v by (simp add: dec_vnode_start_def Let_def s0)
  obtain s1 where s1: "s1 = set_vnode v (\<lambda>r. r\<lparr>vn_cache := None\<rparr>) s0" by simp
  have n1: "vf_live s1 = vf_live s" "vf_table s1 = vf_table s" "vf_next s1 = vf_next s" "vf_mount s1 = vf_mount s"
    "vf_mounts s1 = vf_mounts s" "vf_mtable s1 = vf_mtable s" "vf_mnext s1 = vf_mnext s" "vf_fs s1 = vf_fs s"
    "vf_root s1 = vf_root s" "vf_cwd s1 = vf_cwd s" "vf_next_fsid s1 = vf_next_fsid s"
    "\<And>a. a \<noteq> v \<Longrightarrow> vf_vnode s1 a = vf_vnode s a" "\<And>a. vkey (vf_vnode s1 a) = vkey (vf_vnode s a)"
    "vn_mount (vf_vnode s1 v) = Some m" "vn_priv (vf_vnode s1 v) = Some p" "vn_delete_me (vf_vnode s1 v) = vn_delete_me (vf_vnode s v)"
    using m by (simp_all add: s1 s0 vkey_def)
  obtain f' where f': "(if vn_delete_me (vf_vnode s v) then op_removevnode (env_ops E (mt_fs (vf_mount s m))) ?c (Some p) r s1
        else op_putvnode (env_ops E (mt_fs (vf_mount s m))) ?c (Some p) r s1) = Returns (0, s1\<lparr>vf_fs := (vf_fs s)(?c := f')\<rparr>)"
    "good (G ?c) f'" "unlocked f' = unlocked (vf_fs s ?c)"
    "\<And>j. j \<noteq> ?i \<Longrightarrow> node_of f' j = node_of (vf_fs s ?c) j \<and> detached (G ?c) f' j = detached (G ?c) (vf_fs s ?c) j"
    "\<not> vn_delete_me (vf_vnode s v) \<Longrightarrow> f' = vf_fs s ?c"
  proof (cases "vn_delete_me (vf_vnode s v)")
    case True
    from removevnode_gone [of "G ?c" s1 ?c r ?i p] d(5) [OF m(1)] m True r [unfolded mutexes_free_def] obtain f' where
      "op_removevnode (env_ops E (mt_fs (vf_mount s m))) ?c (Some p) r s1 = Returns (0, s1\<lparr>vf_fs := (vf_fs s1)(?c := f')\<rparr>)"
      "good (G ?c) f'" "unlocked f' = unlocked (vf_fs s ?c)"
      "\<forall>j. j \<noteq> ?i \<longrightarrow> node_of f' j = node_of (vf_fs s ?c) j \<and> detached (G ?c) f' j = detached (G ?c) (vf_fs s ?c) j"
      unfolding n1 by blast
    with True n1 show thesis by (intro that [of f']) simp_all
  next
    case False
    have "s1\<lparr>vf_fs := (vf_fs s)(?c := vf_fs s ?c)\<rparr> = s1" using n1 by simp
    with False d(5) [OF m(1)] putvnode_same show thesis by (intro that [of "vf_fs s ?c"]) simp_all
  qed
  obtain s2 where s2: "s2 = s1\<lparr>vf_fs := (vf_fs s)(?c := f')\<rparr>" by simp
  obtain s3 where s3: "s3 = remove_vnode_from_mount_list v m s2" by simp
  have l: "lists_only s2 s3" unfolding s3 by (rule lists_only_remove)
  have "vindexed s3 (vf_live s)"
    by (rule vindexed_same [OF d(1)]) (use l n1 in \<open>simp_all add: lists_only_def s2\<close>)
  from vindexed_remove [OF this vL] obtain t where
    t: "hash_remove v (vnode_table s3) = Some (B_NO_ERROR, t)" "vindexed (set_vnode_table t s3) (vf_live s - {v})" by blast
  let ?s' = "(set_vnode_table t s3)\<lparr>vf_live := vf_live s - {v}\<rparr>"
  have L3: "vf_live s3 = vf_live s" using l n1 by (simp add: lists_only_def s2)
  have mo: "mount_of v s1 = Returns m" using n1 vL by (simp add: mount_of_def)
  have "vn_cache (vf_vnode s0 v) = None" "vn_delete_me (vf_vnode s0 v) = vn_delete_me (vf_vnode s v)"
    using o(2) by (simp_all add: s0)
  then have run: "dec_vnode_ref_count E v True r s = Returns (1, ?s')"
    using f'(1) [folded s2] t(1) mo n1(4,14-16)
    by (cases "vn_delete_me (vf_vnode s v)")
      (simp_all add: dec_vnode_ref_count_def start dec_vnode_finish_def Let_def s1 [symmetric] s3 [symmetric] looped_def L3)
  have rest: "vf_live ?s' = vf_live s - {v}" "vf_mounts ?s' = vf_mounts s" "vf_fs ?s' = (vf_fs s)(?c := f')"
    "\<And>m. mt_cookie (vf_mount ?s' m) = mt_cookie (vf_mount s m)"
    using l n1 by (simp_all add: lists_only_def s2)
  have fr: "vframe (vf_live s - {v}) s ?s'"
    using l n1 by (auto simp: vframe_def lists_only_def s2)
  have "vindexed ?s' (vf_live s - {v})" by (rule vindexed_same [OF t(2)]) simp_all
  moreover have "mindexed ?s' (vf_mounts s)"
    by (rule mindexed_same [OF d(3)]) (use l n1 in \<open>simp_all add: lists_only_def s2\<close>)
  moreover have "good (G (mt_cookie (vf_mount s n))) (((vf_fs s)(?c := f')) (mt_cookie (vf_mount s n)))" if "n \<in> vf_mounts s" for n
    using d(5) [OF that] f'(2) by simp
  moreover have "vn_ok ?s' (R - {#v#}) G a" if a: "a \<in> vf_live s - {v}" for a
  proof -
    from a have aL: "a \<in> vf_live s" and av: "a \<noteq> v" by auto
    note oa = vn_okD [OF d(6) [OF aL]]
    have key: "vn_vnid (vf_vnode s a) \<noteq> ?i" if n: "n \<in> vf_mounts s" "vn_mount (vf_vnode s a) = Some n" "mt_cookie (vf_mount s n) = ?c" for n
    proof
      assume i: "vn_vnid (vf_vnode s a) = ?i"
      from n(1,3) m(1) d(4) have "n = m" by (auto dest: inj_onD)
      with n oa(5) have "vn_fsid (vf_vnode s a) = mt_id (vf_mount s m)" by auto
      with i m(3) have "vkey (vf_vnode s a) = vkey (vf_vnode s v)" by (simp add: vkey_def)
      with vindexed_inj [OF d(1)] aL vL av show False by (auto dest: inj_onD)
    qed
    have same: "vn_busy (vf_vnode ?s' a) = vn_busy (vf_vnode s a)" "vn_cache (vf_vnode ?s' a) = vn_cache (vf_vnode s a)"
      "vn_ref_count (vf_vnode ?s' a) = vn_ref_count (vf_vnode s a)"
      using l n1(12) [OF av] by (simp_all add: lists_only_def s2)
    show ?thesis
    proof (rule vn_ok_same [OF d(6) [OF aL] vframe_mono [OF fr] same(1,2)])
      show "{a} \<subseteq> vf_live s - {v}" using a by blast
      show "a \<in># R - {#v#}" using oa(3) av by (simp add: in_diff_count)
      show "vn_ref_count (vf_vnode ?s' a) = int (count (R - {#v#}) a)" using oa(4) av same(3) by simp
    next
      fix n assume n: "n \<in> vf_mounts s" "vn_mount (vf_vnode s a) = Some n"
      show "node_of (vf_fs ?s' (mt_cookie (vf_mount s n))) (vn_vnid (vf_vnode s a)) =
          node_of (vf_fs s (mt_cookie (vf_mount s n))) (vn_vnid (vf_vnode s a)) \<and>
        (detached (G (mt_cookie (vf_mount s n))) (vf_fs s (mt_cookie (vf_mount s n))) (vn_vnid (vf_vnode s a)) \<longrightarrow>
         detached (G (mt_cookie (vf_mount s n))) (vf_fs ?s' (mt_cookie (vf_mount s n))) (vn_vnid (vf_vnode s a)))"
        unfolding rest using f'(4) key [OF n] by (cases "mt_cookie (vf_mount s n) = ?c") auto
    qed
  qed
  moreover have "set_mset (R - {#v#}) \<subseteq> vf_live s - {v}"
  proof
    fix x assume x: "x \<in># R - {#v#}"
    with v have "x \<noteq> v" by (auto simp: in_diff_count)
    moreover have "x \<in> vf_live s" using in_diffD [OF x] d(7) by blast
    ultimately show "x \<in> vf_live s - {v}" by blast
  qed
  moreover have "finite (vf_live s - {v})" using d(2) by simp
  ultimately have "vcore ?s' (R - {#v#}) G" unfolding vcore_def rest using d(4) by blast
  moreover have "unlocked (vf_fs ?s' c) = unlocked (vf_fs s c)" for c unfolding rest using f'(3) by simp
  moreover have "vf_fs ?s' = vf_fs s" if "\<not> vn_delete_me (vf_vnode s v)" unfolding rest using f'(5) [OF that] by simp
  ultimately have "put_ref s R G v ?s'" unfolding put_ref_def using fr v rest(1) by simp
  with run show ?thesis by blast
qed

lemma dec_ref:
  assumes "vcore s R G" and "v \<in># R" and "r \<or> idle s" and "size R < 2 ^ 31"
  shows "\<exists>e s'. dec_vnode_ref_count E v True r s = Returns (e, s') \<and> put_ref s R G v s'"
  using drop_ref [OF assms(1,2) _ assms(4)] drop_last [OF assms(1) _ assms(3)] by (cases "count R v = 1") blast+

end

end
