(* ===== verification/Vfs_Props.thy ===== *)
theory Vfs_Props
  imports Vfs Vnode_Props
begin

text \<open>
  What \<open>path_to_vnode\<close> promises: it follows the names of a path through the directories of the
  mounted file systems and across the mounts, as \<open>walk\<close> does on names and numbers alone, and at
  the end exactly the vnode it returns has one reference more than before. The locale
  \<open>path_provider\<close> adds to \<open>vnode_provider\<close> what a lookup in a directory has to do.
\<close>

section \<open>Trees of names\<close>

text \<open>
  A file is named by the number of its mount and its number there. \<open>tr_up\<close> leads from the root
  of a mount to the directory it covers, \<open>tr_down\<close> the other way; both leave other files alone.
\<close>

record name_tree =
  tr_names :: "nat \<times> nat \<Rightarrow> string \<Rightarrow> nat option"
  tr_up :: "nat \<times> nat \<Rightarrow> nat \<times> nat"
  tr_down :: "nat \<times> nat \<Rightarrow> nat \<times> nat"

definition walk_dir :: "name_tree \<Rightarrow> string \<Rightarrow> nat \<times> nat \<Rightarrow> nat \<times> nat" where
  "walk_dir T n k = (if n = ''..'' then tr_up T k else k)"

fun walk :: "name_tree \<Rightarrow> string list \<Rightarrow> nat \<times> nat \<Rightarrow> (nat \<times> nat) option" where
  "walk T [] k = Some k"
| "walk T (n # ns) k =
     (case tr_names T (walk_dir T n k) n of
        None \<Rightarrow> None
      | Some j \<Rightarrow> walk T ns (tr_down T (fst (walk_dir T n k), j)))"

text \<open>The names of a path that does not start with a slash.\<close>

function components :: "string \<Rightarrow> string list" where
  "components p = (if p = [] then [] else fst (next_component p) # components (snd (next_component p)))"
  by pat_completeness auto
termination
  by (relation "measure length") (simp_all add: next_component_shorter)

declare components.simps [simp del]

lemma components_Nil [simp]: "components [] = []"
  by (subst components.simps) simp

text \<open>A path that starts at the root or at the working directory, which somebody holds.\<close>

definition path_start :: "'f vfs \<Rightarrow> string \<Rightarrow> bool \<Rightarrow> nat ptr" where
  "path_start s path in_kernel = (if path \<noteq> [] \<and> hd path = CHR ''/'' then vf_root s else vf_cwd s in_kernel)"

text \<open>A vnode whose file the names lead to; \<open>firm\<close> says which files of a file system those are.\<close>

definition standing :: "('g \<Rightarrow> 'f \<Rightarrow> nat \<Rightarrow> bool) \<Rightarrow> 'f vfs \<Rightarrow> (nat \<Rightarrow> 'g) \<Rightarrow> nat \<Rightarrow> bool" where
  "standing firm s G v \<longleftrightarrow>
     (\<forall>m. vn_mount (vf_vnode s v) = Some m \<longrightarrow>
        firm (G (mt_cookie (vf_mount s m))) (vf_fs s (mt_cookie (vf_mount s m))) (vn_vnid (vf_vnode s v)))"

text \<open>
  \<open>T\<close> is the tree of the mounted file systems. The references \<open>R\<close> include those of the mounts:
  one to the root of each and one to the directory it covers.
\<close>

definition tree_ok ::
  "('g \<Rightarrow> 'f \<Rightarrow> nat \<Rightarrow> bool) \<Rightarrow> ('g \<Rightarrow> nat) \<Rightarrow> ('g \<Rightarrow> 'f \<Rightarrow> nat \<Rightarrow> string \<Rightarrow> nat option) \<Rightarrow>
   'f vfs \<Rightarrow> nat multiset \<Rightarrow> (nat \<Rightarrow> 'g) \<Rightarrow> name_tree \<Rightarrow> bool" where
  "tree_ok firm gid names s R G T \<longleftrightarrow>
     (\<forall>m \<in> vf_mounts s. gid (G (mt_cookie (vf_mount s m))) = mt_id (vf_mount s m) \<and>
        (\<forall>i. tr_names T (mt_id (vf_mount s m), i) =
               names (G (mt_cookie (vf_mount s m))) (vf_fs s (mt_cookie (vf_mount s m))) i)) \<and>
     (\<forall>v \<in> vf_live s. tr_down T (vkey (vf_vnode s v)) =
        (case vn_covered_by (vf_vnode s v) of None \<Rightarrow> vkey (vf_vnode s v) | Some w \<Rightarrow> vkey (vf_vnode s w))) \<and>
     (\<forall>v \<in> vf_live s. \<forall>m. vn_mount (vf_vnode s v) = Some m \<longrightarrow>
        tr_up T (vkey (vf_vnode s v)) =
          (if mt_root (vf_mount s m) = Some v
           then (case mt_covers (vf_mount s m) of None \<Rightarrow> vkey (vf_vnode s v) | Some w \<Rightarrow> vkey (vf_vnode s w))
           else vkey (vf_vnode s v))) \<and>
     (\<forall>k. k \<notin> (\<lambda>a. vkey (vf_vnode s a)) ` vf_live s \<longrightarrow> tr_down T k = k \<and> tr_up T k = k) \<and>
     (\<forall>v \<in> vf_live s. \<forall>w. vn_covered_by (vf_vnode s v) = Some w \<longrightarrow> v \<in># R \<and> w \<in># R \<and> standing firm s G w) \<and>
     (\<forall>m \<in> vf_mounts s. \<forall>v. mt_root (vf_mount s m) = Some v \<longrightarrow> v \<in># R) \<and>
     (\<forall>m \<in> vf_mounts s. \<forall>w. mt_covers (vf_mount s m) = Some w \<longrightarrow> w \<in># R \<and> standing firm s G w)"

context vnode_provider begin

text \<open>A change inside a file system that keeps the nodes the vnodes stand for.\<close>

lemma vcore_set_fs:
  assumes ok: "vcore s R G"
    and g: "\<And>m. m \<in> vf_mounts s \<Longrightarrow> mt_cookie (vf_mount s m) = c \<Longrightarrow> good g' f'"
    and v: "\<And>v m p. v \<in> vf_live s \<Longrightarrow> m \<in> vf_mounts s \<Longrightarrow> vn_mount (vf_vnode s v) = Some m \<Longrightarrow> mt_cookie (vf_mount s m) = c \<Longrightarrow>
      node_of (vf_fs s c) (vn_vnid (vf_vnode s v)) = Some p \<Longrightarrow>
      node_of f' (vn_vnid (vf_vnode s v)) = Some p \<and>
      (detached (G c) (vf_fs s c) (vn_vnid (vf_vnode s v)) \<longrightarrow> detached g' f' (vn_vnid (vf_vnode s v)))"
  shows "vcore (set_fs c f' s) R (G(c := g'))"
proof -
  note d = vcoreD [OF ok]
  have tab: "vindexed (set_fs c f' s) (vf_live s)" "mindexed (set_fs c f' s) (vf_mounts s)"
    using vindexed_same [OF d(1), of "set_fs c f' s"] mindexed_same [OF d(3), of "set_fs c f' s"] by (simp_all add: set_fs_def)
  have "vn_ok (set_fs c f' s) R (G(c := g')) a" if a: "a \<in> vf_live s" for a
  proof -
    note o = vn_okD [OF d(6) [OF a]]
    from o(5) obtain m p where m: "m \<in> vf_mounts s" "vn_mount (vf_vnode s a) = Some m" "vn_fsid (vf_vnode s a) = mt_id (vf_mount s m)"
      "vn_priv (vf_vnode s a) = Some p" "node_of (vf_fs s (mt_cookie (vf_mount s m))) (vn_vnid (vf_vnode s a)) = Some p"
      "vn_delete_me (vf_vnode s a) \<longrightarrow>
        detached (G (mt_cookie (vf_mount s m))) (vf_fs s (mt_cookie (vf_mount s m))) (vn_vnid (vf_vnode s a))" by blast
    with v [OF a m(1,2)] o(1-4) show ?thesis by (auto simp: vn_ok_def Let_def set_fs_def)
  qed
  with tab d g ok show ?thesis by (auto simp: vcore_def set_fs_def)
qed

end

section \<open>Directories that can be searched\<close>

locale path_provider = vnode_provider E good node_of unlocked detached
  for E :: "'f vfs_env" and good :: "'g \<Rightarrow> 'f \<Rightarrow> bool" and node_of unlocked detached +
  fixes C :: "nat \<Rightarrow> 'f path_calls"
    and firm :: "'g \<Rightarrow> 'f \<Rightarrow> nat \<Rightarrow> bool"
    and gid :: "'g \<Rightarrow> nat"
    and names :: "'g \<Rightarrow> 'f \<Rightarrow> nat \<Rightarrow> string \<Rightarrow> nat option"
  assumes firm_attached: "good g f \<Longrightarrow> node_of f i = Some p \<Longrightarrow> firm g f i \<Longrightarrow> \<not> detached g f i"
    and lookup_found: "vcore s R G \<Longrightarrow> size R < 2 ^ 31 - 1 \<Longrightarrow> unlocked (vf_fs s (mt_cookie (vf_mount s m))) \<Longrightarrow>
      m \<in> vf_mounts s \<Longrightarrow> gid (G (mt_cookie (vf_mount s m))) = mt_id (vf_mount s m) \<Longrightarrow>
      node_of (vf_fs s (mt_cookie (vf_mount s m))) i = Some p \<Longrightarrow>
      firm (G (mt_cookie (vf_mount s m))) (vf_fs s (mt_cookie (vf_mount s m))) i \<Longrightarrow>
      names (G (mt_cookie (vf_mount s m))) (vf_fs s (mt_cookie (vf_mount s m))) i n = Some j \<Longrightarrow>
      firm (G (mt_cookie (vf_mount s m))) (vf_fs s (mt_cookie (vf_mount s m))) j \<and>
      (\<exists>v q s'. call_lookup (C k) (mt_cookie (vf_mount s m)) (Some p) n s = Returns ((0, j), s') \<and>
                got_ref s R G (mt_id (vf_mount s m), j) q v s')"
    and lookup_missing: "vcore s R G \<Longrightarrow> unlocked (vf_fs s (mt_cookie (vf_mount s m))) \<Longrightarrow>
      m \<in> vf_mounts s \<Longrightarrow> node_of (vf_fs s (mt_cookie (vf_mount s m))) i = Some p \<Longrightarrow>
      firm (G (mt_cookie (vf_mount s m))) (vf_fs s (mt_cookie (vf_mount s m))) i \<Longrightarrow>
      names (G (mt_cookie (vf_mount s m))) (vf_fs s (mt_cookie (vf_mount s m))) i n = None \<Longrightarrow>
      call_lookup (C k) (mt_cookie (vf_mount s m)) (Some p) n s = Returns ((ENOENT, 0), s)"
begin

abbreviation stands :: "'f vfs \<Rightarrow> (nat \<Rightarrow> 'g) \<Rightarrow> nat \<Rightarrow> bool" where
  "stands \<equiv> standing firm"

abbreviation tree :: "'f vfs \<Rightarrow> nat multiset \<Rightarrow> (nat \<Rightarrow> 'g) \<Rightarrow> name_tree \<Rightarrow> bool" where
  "tree \<equiv> tree_ok firm gid names"

lemmas tree_def = tree_ok_def [of firm gid names]

lemma treeD:
  assumes "tree s R G T"
  shows "m \<in> vf_mounts s \<Longrightarrow> gid (G (mt_cookie (vf_mount s m))) = mt_id (vf_mount s m)"
    "m \<in> vf_mounts s \<Longrightarrow> tr_names T (mt_id (vf_mount s m), i) =
       names (G (mt_cookie (vf_mount s m))) (vf_fs s (mt_cookie (vf_mount s m))) i"
    "v \<in> vf_live s \<Longrightarrow> tr_down T (vkey (vf_vnode s v)) =
       (case vn_covered_by (vf_vnode s v) of None \<Rightarrow> vkey (vf_vnode s v) | Some w \<Rightarrow> vkey (vf_vnode s w))"
    "v \<in> vf_live s \<Longrightarrow> vn_mount (vf_vnode s v) = Some m \<Longrightarrow> tr_up T (vkey (vf_vnode s v)) =
       (if mt_root (vf_mount s m) = Some v
        then (case mt_covers (vf_mount s m) of None \<Rightarrow> vkey (vf_vnode s v) | Some w \<Rightarrow> vkey (vf_vnode s w))
        else vkey (vf_vnode s v))"
    "k \<notin> (\<lambda>a. vkey (vf_vnode s a)) ` vf_live s \<Longrightarrow> tr_down T k = k \<and> tr_up T k = k"
    "v \<in> vf_live s \<Longrightarrow> vn_covered_by (vf_vnode s v) = Some w \<Longrightarrow> v \<in># R \<and> w \<in># R \<and> stands s G w"
    "m \<in> vf_mounts s \<Longrightarrow> mt_root (vf_mount s m) = Some v \<Longrightarrow> v \<in># R"
    "m \<in> vf_mounts s \<Longrightarrow> mt_covers (vf_mount s m) = Some w \<Longrightarrow> w \<in># R \<and> stands s G w"
  using assms unfolding tree_def by (simp_all del: split_paired_All)

lemma treeI:
  assumes "\<And>m. m \<in> vf_mounts s \<Longrightarrow> gid (G (mt_cookie (vf_mount s m))) = mt_id (vf_mount s m)"
    "\<And>m i. m \<in> vf_mounts s \<Longrightarrow> tr_names T (mt_id (vf_mount s m), i) =
       names (G (mt_cookie (vf_mount s m))) (vf_fs s (mt_cookie (vf_mount s m))) i"
    "\<And>v. v \<in> vf_live s \<Longrightarrow> tr_down T (vkey (vf_vnode s v)) =
       (case vn_covered_by (vf_vnode s v) of None \<Rightarrow> vkey (vf_vnode s v) | Some w \<Rightarrow> vkey (vf_vnode s w))"
    "\<And>v m. v \<in> vf_live s \<Longrightarrow> vn_mount (vf_vnode s v) = Some m \<Longrightarrow> tr_up T (vkey (vf_vnode s v)) =
       (if mt_root (vf_mount s m) = Some v
        then (case mt_covers (vf_mount s m) of None \<Rightarrow> vkey (vf_vnode s v) | Some w \<Rightarrow> vkey (vf_vnode s w))
        else vkey (vf_vnode s v))"
    "\<And>k. k \<notin> (\<lambda>a. vkey (vf_vnode s a)) ` vf_live s \<Longrightarrow> tr_down T k = k \<and> tr_up T k = k"
    "\<And>v w. v \<in> vf_live s \<Longrightarrow> vn_covered_by (vf_vnode s v) = Some w \<Longrightarrow> v \<in># R \<and> w \<in># R \<and> stands s G w"
    "\<And>m v. m \<in> vf_mounts s \<Longrightarrow> mt_root (vf_mount s m) = Some v \<Longrightarrow> v \<in># R"
    "\<And>m w. m \<in> vf_mounts s \<Longrightarrow> mt_covers (vf_mount s m) = Some w \<Longrightarrow> w \<in># R \<and> stands s G w"
  shows "tree s R G T"
  unfolding tree_def using assms by (simp del: split_paired_All)

section \<open>What a change of references does to the tree: nothing\<close>

lemma stands_same:
  assumes "vframe {a} s s'" and "vf_fs s' = vf_fs s"
  shows "stands s' G a = stands s G a"
  using assms by (simp add: standing_def vframe_def vkey_def)

lemma tree_same:
  assumes T: "tree s R G T" and vi: "vindexed s (vf_live s)" and vi': "vindexed s' (vf_live s')"
    and sub: "set_mset R \<subseteq> vf_live s" "set_mset R \<subseteq> vf_live s'"
    and fs: "vf_fs s' = vf_fs s" and fr: "vframe (vf_live s \<inter> vf_live s') s s'"
    and new: "\<And>a. a \<in> vf_live s' \<Longrightarrow> a \<notin> vf_live s \<Longrightarrow> vn_covered_by (vf_vnode s' a) = None \<and>
        (\<forall>m. vn_mount (vf_vnode s' a) = Some m \<longrightarrow> m \<in> vf_mounts s)"
    and old: "\<And>a m. a \<in> vf_live s \<Longrightarrow> vn_mount (vf_vnode s a) = Some m \<Longrightarrow> m \<in> vf_mounts s"
    and has: "\<And>a. a \<in> vf_live s \<Longrightarrow> vn_mount (vf_vnode s a) \<noteq> None"
  shows "tree s' R G T"
proof -
  note t = treeD [OF T]
  have f: "vf_mounts s' = vf_mounts s" "mt_id (vf_mount s' m) = mt_id (vf_mount s m)"
    "mt_cookie (vf_mount s' m) = mt_cookie (vf_mount s m)" "mt_root (vf_mount s' m) = mt_root (vf_mount s m)"
    "mt_covers (vf_mount s' m) = mt_covers (vf_mount s m)" for m
    using fr by (simp_all add: vframe_def)
  have v: "vkey (vf_vnode s' a) = vkey (vf_vnode s a)" "vn_covered_by (vf_vnode s' a) = vn_covered_by (vf_vnode s a)"
    "vn_mount (vf_vnode s' a) = vn_mount (vf_vnode s a)" if "a \<in> vf_live s" "a \<in> vf_live s'" for a
    using fr that by (simp_all add: vframe_def)
  have R: "a \<in> vf_live s" "a \<in> vf_live s'" "vkey (vf_vnode s' a) = vkey (vf_vnode s a)" "stands s' G a = stands s G a" if "a \<in># R" for a
  proof -
    show a: "a \<in> vf_live s" "a \<in> vf_live s'" using sub that by auto
    then show "vkey (vf_vnode s' a) = vkey (vf_vnode s a)" by (rule v)
    show "stands s' G a = stands s G a" by (rule stands_same [OF vframe_mono [OF fr] fs]) (use a in blast)
  qed
  have free: "tr_down T (vkey (vf_vnode s b)) = vkey (vf_vnode s b) \<and> tr_up T (vkey (vf_vnode s b)) = vkey (vf_vnode s b)"
    if b: "b \<in> vf_live s" "b \<notin> vf_live s'" for b
  proof -
    from b sub(2) have bR: "b \<notin># R" by blast
    then have "vn_covered_by (vf_vnode s b) = None" using t(6) [OF b(1)] by (cases "vn_covered_by (vf_vnode s b)") auto
    moreover obtain m where m: "vn_mount (vf_vnode s b) = Some m" using has [OF b(1)] by blast
    moreover have "mt_root (vf_mount s m) \<noteq> Some b" using t(7) [OF old [OF b(1) m]] bR by blast
    ultimately show ?thesis using t(3) [OF b(1)] t(4) [OF b(1) m] by simp
  qed
  have fresh: "tr_down T (vkey (vf_vnode s' a)) = vkey (vf_vnode s' a) \<and> tr_up T (vkey (vf_vnode s' a)) = vkey (vf_vnode s' a)"
    if a: "a \<in> vf_live s'" "a \<notin> vf_live s" for a
  proof (cases "vkey (vf_vnode s' a) \<in> (\<lambda>a. vkey (vf_vnode s a)) ` vf_live s")
    case False
    with t(5) show ?thesis by blast
  next
    case True
    then obtain b where b: "b \<in> vf_live s" "vkey (vf_vnode s' a) = vkey (vf_vnode s b)" by blast
    have "b \<notin> vf_live s'"
    proof
      assume "b \<in> vf_live s'"
      with b v(1) have "vkey (vf_vnode s' a) = vkey (vf_vnode s' b)" by simp
      with vindexed_inj [OF vi'] a(1) \<open>b \<in> vf_live s'\<close> have "a = b" by (auto dest: inj_onD)
      with a b show False by simp
    qed
    with free b show ?thesis by simp
  qed
  show ?thesis
  proof (rule treeI, unfold f fs)
    fix k assume k: "k \<notin> (\<lambda>a. vkey (vf_vnode s' a)) ` vf_live s'"
    show "tr_down T k = k \<and> tr_up T k = k"
    proof (cases "k \<in> (\<lambda>a. vkey (vf_vnode s a)) ` vf_live s")
      case True
      then obtain b where b: "b \<in> vf_live s" "k = vkey (vf_vnode s b)" by blast
      have "b \<notin> vf_live s'"
      proof
        assume c: "b \<in> vf_live s'"
        with v(1) [OF b(1)] b(2) have "k = vkey (vf_vnode s' b)" by simp
        with c k show False by blast
      qed
      with free b show ?thesis by simp
    qed (rule t(5))
  next
    fix a assume a: "a \<in> vf_live s'"
    show "tr_down T (vkey (vf_vnode s' a)) = (case vn_covered_by (vf_vnode s' a) of None \<Rightarrow> vkey (vf_vnode s' a) | Some w \<Rightarrow> vkey (vf_vnode s' w))"
    proof (cases "a \<in> vf_live s")
      case True
      with t(3) [OF True] t(6) [OF True] R(3) show ?thesis by (simp add: v [OF True a] split: option.split)
    next
      case False
      with fresh [OF a] new [OF a] show ?thesis by simp
    qed
    show "tr_up T (vkey (vf_vnode s' a)) =
       (if mt_root (vf_mount s m) = Some a
        then (case mt_covers (vf_mount s m) of None \<Rightarrow> vkey (vf_vnode s' a) | Some w \<Rightarrow> vkey (vf_vnode s' w))
        else vkey (vf_vnode s' a))" if m: "vn_mount (vf_vnode s' a) = Some m" for m
    proof (cases "a \<in> vf_live s")
      case True
      with m v [OF True a] have m': "vn_mount (vf_vnode s a) = Some m" by simp
      from t(4) [OF True m'] t(8) [OF old [OF True m']] R(3) show ?thesis
        by (simp add: v [OF True a] split: option.split)
    next
      case False
      with m new [OF a] have "m \<in> vf_mounts s" by blast
      with t(7) R(1) False have "mt_root (vf_mount s m) \<noteq> Some a" by blast
      with fresh [OF a False] show ?thesis by simp
    qed
    show "a \<in># R \<and> w \<in># R \<and> stands s' G w" if w: "vn_covered_by (vf_vnode s' a) = Some w" for w
    proof -
      from w new [OF a] have aL: "a \<in> vf_live s" by auto
      with w v(2) [OF this a] have "vn_covered_by (vf_vnode s a) = Some w" by simp
      from t(6) [OF aL this] R(4) show ?thesis by blast
    qed
  next
    fix m assume m: "m \<in> vf_mounts s"
    show "gid (G (mt_cookie (vf_mount s m))) = mt_id (vf_mount s m)" by (rule t(1) [OF m])
    show "tr_names T (mt_id (vf_mount s m), i) = names (G (mt_cookie (vf_mount s m))) (vf_fs s (mt_cookie (vf_mount s m))) i" for i
      by (rule t(2) [OF m])
    show "v \<in># R" if "mt_root (vf_mount s m) = Some v" for v by (rule t(7) [OF m that])
    show "w \<in># R \<and> stands s' G w" if "mt_covers (vf_mount s m) = Some w" for w using t(8) [OF m that] R(4) by blast
  qed
qed

lemma tree_vcore:
  assumes "tree s R G T" and ok: "vcore s R1 G" "vcore s' R2 G" and R: "R \<subseteq># R1" "R \<subseteq># R2"
    and "vf_fs s' = vf_fs s" and fr: "vframe (vf_live s \<inter> vf_live s') s s'"
    and new: "\<And>a. a \<in> vf_live s' \<Longrightarrow> a \<notin> vf_live s \<Longrightarrow> vn_covered_by (vf_vnode s' a) = None"
  shows "tree s' R G T"
proof (rule tree_same [OF assms(1) vcoreD(1) [OF ok(1)] vcoreD(1) [OF ok(2)] _ _ assms(6) fr])
  show "set_mset R \<subseteq> vf_live s" using set_mset_mono [OF R(1)] vcoreD(7) [OF ok(1)] by blast
  show "set_mset R \<subseteq> vf_live s'" using set_mset_mono [OF R(2)] vcoreD(7) [OF ok(2)] by blast
  have "vf_mounts s' = vf_mounts s" using fr by (simp add: vframe_def)
  then show "vn_covered_by (vf_vnode s' a) = None \<and> (\<forall>m. vn_mount (vf_vnode s' a) = Some m \<longrightarrow> m \<in> vf_mounts s)"
    if a: "a \<in> vf_live s'" "a \<notin> vf_live s" for a
  proof -
    from vn_okD(5) [OF vcoreD(6) [OF ok(2) a(1)]] obtain m where "m \<in> vf_mounts s'" "vn_mount (vf_vnode s' a) = Some m" by blast
    then have "m \<in> vf_mounts s" "vn_mount (vf_vnode s' a) = Some m" using \<open>vf_mounts s' = vf_mounts s\<close> by simp_all
    with new [OF a] show ?thesis by simp
  qed
  show "m \<in> vf_mounts s" if a: "a \<in> vf_live s" "vn_mount (vf_vnode s a) = Some m" for a m
  proof -
    from vn_okD(5) [OF vcoreD(6) [OF ok(1) a(1)]] obtain m' where "m' \<in> vf_mounts s" "vn_mount (vf_vnode s a) = Some m'" by blast
    with a(2) show ?thesis by simp
  qed
  show "vn_mount (vf_vnode s a) \<noteq> None" if "a \<in> vf_live s" for a
    using vn_okD(5) [OF vcoreD(6) [OF ok(1) that]] by blast
qed

section \<open>A walker with one reference of its own\<close>

text \<open>The walker stands on \<open>v\<close>; apart from its reference everything is as it was in \<open>s0\<close>.\<close>

definition unchanged :: "'f vfs \<Rightarrow> 'f vfs \<Rightarrow> nat multiset \<Rightarrow> bool" where
  "unchanged s0 s R \<longleftrightarrow> vf_fs s = vf_fs s0 \<and> vframe (set_mset R) s0 s"

definition on_node :: "'f vfs \<Rightarrow> nat multiset \<Rightarrow> (nat \<Rightarrow> 'g) \<Rightarrow> name_tree \<Rightarrow> nat \<Rightarrow> bool" where
  "on_node s R G T v \<longleftrightarrow> vcore s (add_mset v R) G \<and> tree s R G T \<and> stands s G v"

lemma unchanged_trans: "unchanged s0 s R \<Longrightarrow> unchanged s s' R \<Longrightarrow> unchanged s0 s' R"
  by (auto simp: unchanged_def intro: vframe_trans)

lemma idle_unchanged: "unchanged s s' R \<Longrightarrow> idle s \<Longrightarrow> idle s'"
  using mutexes_free_same unfolding unchanged_def by blast

lemma not_deleted:
  assumes "vcore s R G" and "v \<in> vf_live s" and "stands s G v"
  shows "\<not> vn_delete_me (vf_vnode s v)"
  using vn_okD(5) [OF vcoreD(6) [OF assms(1,2)]] firm_attached [OF vcoreD(5) [OF assms(1)]] assms(3)
  by (auto simp: standing_def)

text \<open>Leaving a node does not delete it.\<close>

lemma leave_node:
  assumes ok: "vcore s (add_mset v R) G" and T: "tree s R0 G T" and st: "stands s G v" and R0: "R0 \<subseteq># R"
    and u: "idle s" and n: "size R < 2 ^ 31 - 1"
  shows "\<exists>e s'. dec_vnode_ref_count E v True False s = Returns (e, s') \<and> vcore s' R G \<and> tree s' R0 G T \<and>
           unchanged s s' R \<and> vf_live s' \<subseteq> vf_live s"
proof -
  have vR: "v \<in># add_mset v R" by simp
  then have vL: "v \<in> vf_live s" using vcoreD(7) [OF ok] by blast
  have n': "size (add_mset v R) < 2 ^ 31" using n by simp
  have u': "False \<or> idle s" using u by simp
  from dec_ref [OF ok vR u' n'] obtain e s' where s': "dec_vnode_ref_count E v True False s = Returns (e, s')"
    "put_ref s (add_mset v R) G v s'" by blast
  from s'(2) have p: "vcore s' R G" "vframe (vf_live s') s s'" "vf_fs s' = vf_fs s"
    and live: "vf_live s' = (if count (add_mset v R) v = 1 then vf_live s - {v} else vf_live s)"
    using not_deleted [OF ok vL st] unfolding put_ref_def by (auto simp only: add_mset_remove_trivial)
  then have p4: "vf_live s' \<subseteq> vf_live s" by auto
  have "tree s' R0 G T"
    by (rule tree_vcore [OF T ok p(1) _ R0 p(3)]) (use R0 p4 vframe_mono [OF p(2)] in \<open>auto intro: subset_mset.order_trans\<close>)
  moreover have "unchanged s s' R"
    unfolding unchanged_def using p(3) vframe_mono [OF p(2)] vcoreD(7) [OF p(1)] by blast
  ultimately show ?thesis using s'(1) p(1) p4 by blast
qed

text \<open>Going to another node that is held by somebody else.\<close>

lemma change_node:
  assumes ok: "on_node s R G T v" and w: "w \<in># R" "stands s G w"
    and u: "idle s" and n: "size R < 2 ^ 31 - 2"
  shows "\<exists>s1 s' e. inc_vnode_ref_count w s = Returns (0, s1) \<and> dec_vnode_ref_count E v True False s1 = Returns (e, s') \<and>
           on_node s' R G T w \<and> unchanged s s' R"
proof -
  from ok have c: "vcore s (add_mset v R) G" "tree s R G T" "stands s G v" by (simp_all add: on_node_def)
  from w(1) have wL: "w \<in> vf_live s" using vcoreD(7) [OF c(1), of w] by simp
  have n1: "size (add_mset v R) < 2 ^ 31 - 1" using n by simp
  from inc_ref [OF c(1) wL n1] obtain s1 where s1: "inc_vnode_ref_count w s = Returns (0, s1)"
    "vcore s1 (add_mset w (add_mset v R)) G" "vframe UNIV s s1" "vf_fs s1 = vf_fs s" "vf_live s1 = vf_live s" by blast
  have c1: "vcore s1 (add_mset v (add_mset w R)) G" using s1(2) by (simp add: add_mset_commute)
  have T1: "tree s1 R G T"
    by (rule tree_vcore [OF c(2,1) c1 _ _ s1(4)])
      (use s1(3,5) in \<open>auto intro: vframe_mono simp: subset_mset.le_iff_add exI [of _ "{#_, _#}"] exI [of _ "{#_#}"]\<close>)
  have st: "stands s1 G a = stands s G a" for a
    by (rule stands_same [OF vframe_mono [OF s1(3)] s1(4)]) simp
  have u1: "idle s1" using u mutexes_free_same [OF s1(3,4)] by simp
  have R: "R \<subseteq># add_mset w R" by simp
  have sv: "stands s1 G v" using c(3) st by simp
  have n2: "size (add_mset w R) < 2 ^ 31 - 1" using n by simp
  from leave_node [OF c1 T1 sv R u1 n2] obtain e s' where s':
    "dec_vnode_ref_count E v True False s1 = Returns (e, s')" "vcore s' (add_mset w R) G" "tree s' R G T"
    "unchanged s1 s' (add_mset w R)" by blast
  from s'(4) have f: "vf_fs s' = vf_fs s1" "vframe (insert w (set_mset R)) s1 s'" by (simp_all add: unchanged_def)
  have "stands s' G w = stands s1 G w" by (rule stands_same [OF vframe_mono [OF f(2)] f(1)]) simp
  with w(2) st have "stands s' G w" by simp
  with s'(2,3) have "on_node s' R G T w" by (simp add: on_node_def)
  moreover have "unchanged s s' R"
    unfolding unchanged_def using f(1) s1(4) vframe_trans [OF vframe_mono [OF s1(3)] vframe_mono [OF f(2)], of "set_mset R"] by auto
  ultimately show ?thesis using s1(1) s'(1) by blast
qed

section \<open>One component\<close>

lemma node_mount:
  assumes "on_node s R G T v"
  obtains m p where "m \<in> vf_mounts s" "vn_mount (vf_vnode s v) = Some m" "mount_of v s = Returns m"
    "vkey (vf_vnode s v) = (mt_id (vf_mount s m), vn_vnid (vf_vnode s v))" "vn_priv (vf_vnode s v) = Some p"
    "node_of (vf_fs s (mt_cookie (vf_mount s m))) (vn_vnid (vf_vnode s v)) = Some p" "v \<in> vf_live s"
    "firm (G (mt_cookie (vf_mount s m))) (vf_fs s (mt_cookie (vf_mount s m))) (vn_vnid (vf_vnode s v))"
proof -
  from assms have c: "vcore s (add_mset v R) G" "stands s G v" by (simp_all add: on_node_def)
  have vL: "v \<in> vf_live s" using vcoreD(7) [OF c(1), of v] by simp
  from vn_okD(5) [OF vcoreD(6) [OF c(1) vL]] obtain m p where m: "m \<in> vf_mounts s" "vn_mount (vf_vnode s v) = Some m"
    "vn_fsid (vf_vnode s v) = mt_id (vf_mount s m)" "vn_priv (vf_vnode s v) = Some p"
    "node_of (vf_fs s (mt_cookie (vf_mount s m))) (vn_vnid (vf_vnode s v)) = Some p" by blast
  moreover have "mount_of v s = Returns m" using m(2) vL by (simp add: mount_of_def)
  moreover have "vkey (vf_vnode s v) = (mt_id (vf_mount s m), vn_vnid (vf_vnode s v))" using m(3) by (simp add: vkey_def)
  moreover have "firm (G (mt_cookie (vf_mount s m))) (vf_fs s (mt_cookie (vf_mount s m))) (vn_vnid (vf_vnode s v))"
    using c(2) m(2) by (simp add: standing_def)
  ultimately show thesis using vL that by blast
qed

lemma leave_mount_spec:
  assumes v: "on_node s R G T v" and u: "idle s" and n: "size R < 2 ^ 31 - 2"
  shows "\<exists>w s'. leave_mount E name v s = Returns (w, s') \<and> on_node s' R G T w \<and> unchanged s s' R \<and>
           vkey (vf_vnode s' w) = walk_dir T name (vkey (vf_vnode s v))"
proof -
  from node_mount [OF v] obtain m where m: "m \<in> vf_mounts s" "vn_mount (vf_vnode s v) = Some m" "mount_of v s = Returns m"
    and vL: "v \<in> vf_live s" .
  from v have T: "tree s R G T" by (simp add: on_node_def)
  note up = treeD(4) [OF T vL m(2)]
  show ?thesis
  proof (cases "name = ''..'' \<and> mt_root (vf_mount s m) = Some v \<and> mt_covers (vf_mount s m) \<noteq> None")
    case False
    with m(3) have "leave_mount E name v s = Returns (v, s)" by (auto simp: leave_mount_def split: option.split)
    moreover have "walk_dir T name (vkey (vf_vnode s v)) = vkey (vf_vnode s v)"
      using False up by (auto simp: walk_dir_def)
    ultimately show ?thesis using v by (auto simp: unchanged_def vframe_refl)
  next
    case True
    then obtain w where w: "mt_covers (vf_mount s m) = Some w" by blast
    with treeD(8) [OF T m(1)] have wR: "w \<in># R" "stands s G w" by blast+
    from change_node [OF v wR u n] obtain s1 s' e where s': "inc_vnode_ref_count w s = Returns (0, s1)"
      "dec_vnode_ref_count E v True False s1 = Returns (e, s')" "on_node s' R G T w" "unchanged s s' R" by blast
    have "leave_mount E name v s = Returns (w, s')" using True w m(3) s'(1,2) by (simp add: leave_mount_def)
    moreover have "walk_dir T name (vkey (vf_vnode s v)) = vkey (vf_vnode s w)" using True up w by (simp add: walk_dir_def)
    moreover have "vkey (vf_vnode s' w) = vkey (vf_vnode s w)" using s'(4) wR(1) by (simp add: unchanged_def vframe_def)
    ultimately show ?thesis using s'(3,4) by auto
  qed
qed

lemma enter_mount_spec:
  assumes v: "on_node s R G T v" and u: "idle s" and n: "size R < 2 ^ 31 - 2"
  shows "\<exists>w s'. enter_mount E v s = Returns (w, s') \<and> on_node s' R G T w \<and> unchanged s s' R \<and>
           vkey (vf_vnode s' w) = tr_down T (vkey (vf_vnode s v))"
proof -
  from node_mount [OF v] have vL: "v \<in> vf_live s" .
  from v have T: "tree s R G T" by (simp add: on_node_def)
  note down = treeD(3) [OF T vL]
  show ?thesis
  proof (cases "vn_covered_by (vf_vnode s v)")
    case None
    with vL down v show ?thesis by (auto simp: enter_mount_def unchanged_def vframe_refl)
  next
    case (Some w)
    with treeD(6) [OF T vL] have wR: "w \<in># R" "stands s G w" by blast+
    from change_node [OF v wR u n] obtain s1 s' e where s': "inc_vnode_ref_count w s = Returns (0, s1)"
      "dec_vnode_ref_count E v True False s1 = Returns (e, s')" "on_node s' R G T w" "unchanged s s' R" by blast
    have "enter_mount E v s = Returns (w, s')" using Some vL s'(1,2) by (simp add: enter_mount_def)
    moreover have "vkey (vf_vnode s' w) = vkey (vf_vnode s w)" using s'(4) wR(1) by (simp add: unchanged_def vframe_def)
    ultimately show ?thesis using s'(3,4) down Some by auto
  qed
qed

text \<open>A name in a directory: the lookup returns with a reference to what it found.\<close>

lemma lookup_step:
  assumes v: "on_node s R G T v" and u: "idle s" and n: "size R < 2 ^ 31 - 2"
    and m: "mount_of v s = Returns m" and j: "tr_names T (vkey (vf_vnode s v)) name = Some j"
  shows "\<exists>w s'. call_lookup (C k) (mt_cookie (vf_mount s m)) (vn_priv (vf_vnode s v)) name s = Returns ((0, j), s') \<and>
           vcore s' (add_mset v (add_mset w R)) G \<and> tree s' R G T \<and> stands s' G v \<and> stands s' G w \<and>
           unchanged s s' (add_mset v R) \<and> vkey (vf_vnode s' w) = (fst (vkey (vf_vnode s v)), j)"
proof -
  from node_mount [OF v] obtain m' p where m': "m' \<in> vf_mounts s" "mount_of v s = Returns m'"
    "vkey (vf_vnode s v) = (mt_id (vf_mount s m'), vn_vnid (vf_vnode s v))" "vn_priv (vf_vnode s v) = Some p"
    "node_of (vf_fs s (mt_cookie (vf_mount s m'))) (vn_vnid (vf_vnode s v)) = Some p"
    "firm (G (mt_cookie (vf_mount s m'))) (vf_fs s (mt_cookie (vf_mount s m'))) (vn_vnid (vf_vnode s v))" .
  with m have [simp]: "m' = m" by simp
  from v have c: "vcore s (add_mset v R) G" and T: "tree s R G T" and st: "stands s G v" by (simp_all add: on_node_def)
  let ?c = "mt_cookie (vf_mount s m)"
  have gid: "gid (G ?c) = mt_id (vf_mount s m)" using treeD(1) [OF T] m'(1) by simp
  have j': "names (G ?c) (vf_fs s ?c) (vn_vnid (vf_vnode s v)) name = Some j"
    using treeD(2) [OF T m'(1)] j m'(3) by simp
  have size: "size (add_mset v R) < 2 ^ 31 - 1" using n by simp
  have um: "unlocked (vf_fs s ?c)" using u m'(1) by (simp add: mutexes_free_def)
  from lookup_found [OF c size um _ gid _ _ j', of p k] m' obtain w q s' where
    d: "firm (G ?c) (vf_fs s ?c) j"
    and run: "call_lookup (C k) ?c (Some p) name s = Returns ((0, j), s')"
    and got: "got_ref s (add_mset v R) G (mt_id (vf_mount s m), j) q w s'" by auto
  from got have g: "vcore s' (add_mset w (add_mset v R)) G" "vframe (vf_live s) s s'" "vf_fs s' = vf_fs s"
    "vf_live s' = insert w (vf_live s)" "vkey (vf_vnode s' w) = (mt_id (vf_mount s m), j)"
    "w \<notin> vf_live s \<Longrightarrow> vn_covered_by (vf_vnode s' w) = None"
    by (simp_all add: got_ref_def)
  from g(1) have c': "vcore s' (add_mset v (add_mset w R)) G" by (simp add: add_mset_commute)
  have R: "set_mset (add_mset v R) \<subseteq> vf_live s" using vcoreD(7) [OF c] by blast
  have unch: "unchanged s s' (add_mset v R)"
    unfolding unchanged_def using g(3) vframe_mono [OF g(2) R] by blast
  have T': "tree s' R G T"
  proof (rule tree_vcore [OF T c c' _ _ g(3) vframe_mono [OF g(2)]])
    show "R \<subseteq># add_mset v R" by simp
    show "R \<subseteq># add_mset v (add_mset w R)" using mset_subset_eq_add_right [of R "{#v, w#}"] by simp
  qed (use g(4,6) in auto)
  have "stands s' G v" by (rule iffD2 [OF stands_same [OF vframe_mono [OF g(2)] g(3)] st]) (use R in simp)
  moreover have "stands s' G w"
  proof -
    have wL: "w \<in> vf_live s'" and ms: "vf_mounts s' = vf_mounts s" and mt: "mt_id (vf_mount s' m) = mt_id (vf_mount s m)"
      "mt_cookie (vf_mount s' m) = ?c"
      using g(2,4) by (simp_all add: vframe_def)
    have "vn_fsid (vf_vnode s' w) = mt_id (vf_mount s' m)" "vn_vnid (vf_vnode s' w) = j" using g(5) mt by (simp_all add: vkey_def)
    with live_mount(1) [OF c' wL] m'(1) ms have "vn_mount (vf_vnode s' w) = Some m" by simp
    with d \<open>vn_vnid (vf_vnode s' w) = j\<close> show ?thesis by (simp add: standing_def g(3) mt)
  qed
  ultimately show ?thesis using run c' T' unch g(5) m'(3,4) by auto
qed

lemma lookup_none:
  assumes v: "on_node s R G T v" and u: "idle s"
    and m: "mount_of v s = Returns m" and j: "tr_names T (vkey (vf_vnode s v)) name = None"
  shows "call_lookup (C k) (mt_cookie (vf_mount s m)) (vn_priv (vf_vnode s v)) name s = Returns ((ENOENT, 0), s)"
proof -
  from node_mount [OF v] obtain m' p where m': "m' \<in> vf_mounts s" "mount_of v s = Returns m'"
    "vkey (vf_vnode s v) = (mt_id (vf_mount s m'), vn_vnid (vf_vnode s v))" "vn_priv (vf_vnode s v) = Some p"
    "node_of (vf_fs s (mt_cookie (vf_mount s m'))) (vn_vnid (vf_vnode s v)) = Some p"
    "firm (G (mt_cookie (vf_mount s m'))) (vf_fs s (mt_cookie (vf_mount s m'))) (vn_vnid (vf_vnode s v))" .
  with m have [simp]: "m' = m" by simp
  from v have c: "vcore s (add_mset v R) G" and T: "tree s R G T" by (simp_all add: on_node_def)
  have um: "unlocked (vf_fs s (mt_cookie (vf_mount s m)))" using u m'(1) by (simp add: mutexes_free_def)
  have "names (G (mt_cookie (vf_mount s m))) (vf_fs s (mt_cookie (vf_mount s m))) (vn_vnid (vf_vnode s v)) name = None"
    using treeD(2) [OF T m'(1)] j m'(3) by simp
  from lookup_missing [OF c um _ _ _ this] m' show ?thesis by simp
qed

section \<open>Whole paths\<close>

text \<open>The result of a walk from a node, for a walker that came with a reference to it.\<close>

definition walked :: "'f vfs \<Rightarrow> nat multiset \<Rightarrow> (nat \<Rightarrow> 'g) \<Rightarrow> name_tree \<Rightarrow> (nat \<times> nat) option \<Rightarrow> ((int \<times> nat ptr) \<times> 'f vfs) outcome \<Rightarrow> bool" where
  "walked s R G T k res \<longleftrightarrow>
     (case k of
        None \<Rightarrow> \<exists>s'. res = Returns ((ENOENT, None), s') \<and> vcore s' R G \<and> tree s' R G T \<and> unchanged s s' R
      | Some key \<Rightarrow> \<exists>w s'. res = Returns ((0, Some w), s') \<and> on_node s' R G T w \<and> unchanged s s' R \<and> vkey (vf_vnode s' w) = key)"

lemma walked_trans: "unchanged s0 s R \<Longrightarrow> walked s R G T k res \<Longrightarrow> walked s0 R G T k res"
  by (cases k) (auto simp: walked_def intro: unchanged_trans)

lemma path_loop_spec:
  assumes "on_node s R G T v" and "idle s" and n: "size R < 2 ^ 31 - 2"
  shows "walked s R G T (walk T (components p) (vkey (vf_vnode s v))) (path_loop E C p v s)"
  using assms(1,2)
proof (induction p arbitrary: v s rule: measure_induct_rule [of length])
  case (less p)
  note v = less.prems(1) and u = less.prems(2)
  show ?case
  proof (cases "p = []")
    case True
    with v show ?thesis by (simp add: path_loop.simps walked_def unchanged_def vframe_refl)
  next
    case False
    let ?n = "fst (next_component p)" and ?p = "snd (next_component p)"
    from leave_mount_spec [OF v u n, of ?n] obtain dir s1 where
      s1: "leave_mount E ?n v s = Returns (dir, s1)" "on_node s1 R G T dir" "unchanged s s1 R"
        "vkey (vf_vnode s1 dir) = walk_dir T ?n (vkey (vf_vnode s v))" by blast
    from s1(3) u have u1: "idle s1" by (blast intro: idle_unchanged)
    from node_mount [OF s1(2)] obtain m where m: "mount_of dir s1 = Returns m" .
    show ?thesis
    proof (cases "tr_names T (vkey (vf_vnode s1 dir)) ?n")
      case None
      from lookup_none [OF s1(2) u1 m None] have look: "call_lookup (C k) (mt_cookie (vf_mount s1 m)) (vn_priv (vf_vnode s1 dir)) ?n s1 =
        Returns ((ENOENT, 0), s1)" for k .
      from s1(2) have c1: "vcore s1 (add_mset dir R) G" "tree s1 R G T" "stands s1 G dir" by (simp_all add: on_node_def)
      have n': "size R < 2 ^ 31 - 1" using n by simp
      from leave_node [OF c1 subset_mset.order_refl u1 n'] obtain e s2 where
        s2: "dec_vnode_ref_count E dir True False s1 = Returns (e, s2)" "vcore s2 R G" "tree s2 R G T" "unchanged s1 s2 R" by blast
      have "path_loop E C p v s = Returns ((ENOENT, None), s2)"
        using False s1(1) m look s2(1) by (subst path_loop.simps) (simp add: err_defs LONG_MIN_def)
      moreover have "walk T (components p) (vkey (vf_vnode s v)) = None"
        using False None s1(4) by (subst components.simps) simp
      ultimately show ?thesis using s2(2-4) unchanged_trans [OF s1(3) s2(4)] by (auto simp: walked_def)
    next
      case (Some j)
      from lookup_step [OF s1(2) u1 n m Some] obtain w s2 where s2:
        "call_lookup (C (mt_fs (vf_mount s1 m))) (mt_cookie (vf_mount s1 m)) (vn_priv (vf_vnode s1 dir)) ?n s1 = Returns ((0, j), s2)"
        "vcore s2 (add_mset dir (add_mset w R)) G" "tree s2 R G T" "stands s2 G dir" "stands s2 G w"
        "unchanged s1 s2 (add_mset dir R)" "vkey (vf_vnode s2 w) = (fst (vkey (vf_vnode s1 dir)), j)" by blast
      have wL: "w \<in> vf_live s2" using vcoreD(7) [OF s2(2), of w] by simp
      have "vn_fsid (vf_vnode s2 dir) = fst (vkey (vf_vnode s1 dir))"
        using s2(6) by (simp add: unchanged_def vframe_def vkey_def)
      with lookup_vnode_found [OF vcoreD(1) [OF s2(2)] wL s2(7)]
      have look: "lookup_vnode (vn_fsid (vf_vnode s2 dir)) j s2 = Returns (Some w)" by simp
      have u2: "idle s2" by (rule idle_unchanged [OF s2(6) u1])
      have sub: "R \<subseteq># add_mset w R" and n2: "size (add_mset w R) < 2 ^ 31 - 1" using n by simp_all
      from leave_node [OF s2(2,3,4) sub u2 n2] obtain e s3 where s3:
        "dec_vnode_ref_count E dir True False s2 = Returns (e, s3)" "vcore s3 (add_mset w R) G" "tree s3 R G T"
        "unchanged s2 s3 (add_mset w R)" by blast
      from s3(4) have f3: "vf_fs s3 = vf_fs s2" "vframe (insert w (set_mset R)) s2 s3" by (simp_all add: unchanged_def)
      have "stands s3 G w" by (rule iffD2 [OF stands_same [OF vframe_mono [OF f3(2)] f3(1)] s2(5)]) simp
      with s3(2,3) have w3: "on_node s3 R G T w" by (simp add: on_node_def)
      have u3: "idle s3" by (rule idle_unchanged [OF s3(4) u2])
      have k3: "vkey (vf_vnode s3 w) = vkey (vf_vnode s2 w)" using f3(2) by (simp add: vframe_def)
      have ch3: "unchanged s1 s3 R"
        unfolding unchanged_def using s2(6) f3 vframe_trans [OF vframe_mono vframe_mono [OF f3(2)], of "insert dir (set_mset R)" s1 "set_mset R"]
        by (auto simp: unchanged_def)
      from enter_mount_spec [OF w3 u3 n] obtain x s4 where s4: "enter_mount E w s3 = Returns (x, s4)" "on_node s4 R G T x"
        "unchanged s3 s4 R" "vkey (vf_vnode s4 x) = tr_down T (vkey (vf_vnode s3 w))" by blast
      have u4: "idle s4" by (rule idle_unchanged [OF s4(3) u3])
      have run: "path_loop E C p v s = path_loop E C ?p x s4"
        using False s1(1) m s2(1) look s3(1) s4(1) by (subst path_loop.simps) simp
      have walk: "walk T (components p) (vkey (vf_vnode s v)) = walk T (components ?p) (vkey (vf_vnode s4 x))"
        using False Some s1(4) s4(4) k3 s2(7) by (subst components.simps) simp
      have "walked s4 R G T (walk T (components ?p) (vkey (vf_vnode s4 x))) (path_loop E C ?p x s4)"
        by (rule less.IH [OF next_component_shorter [OF False] s4(2) u4])
      moreover have "unchanged s s4 R" by (rule unchanged_trans [OF s1(3) unchanged_trans [OF ch3 s4(3)]])
      ultimately show ?thesis unfolding run walk by (rule walked_trans [rotated])
    qed
  qed
qed

lemma path_to_vnode_spec:
  assumes ok: "vcore s R G" and T: "tree s R G T" and u: "idle s" and n: "size R < 2 ^ 31 - 2"
    and v: "path_start s path in_kernel = Some v" "v \<in># R" "stands s G v"
  shows "walked s R G T (walk T (components (dropWhile (\<lambda>c. c = CHR ''/'') path)) (vkey (vf_vnode s v)))
           (path_to_vnode E C path in_kernel s)"
proof -
  let ?p = "dropWhile (\<lambda>c. c = CHR ''/'') path"
  have vL: "v \<in> vf_live s" using vcoreD(7) [OF ok] v(2) by blast
  have n1: "size R < 2 ^ 31 - 1" using n by simp
  from inc_ref [OF ok vL n1] obtain s1 where s1: "inc_vnode_ref_count v s = Returns (0, s1)" "vcore s1 (add_mset v R) G"
    "vframe UNIV s s1" "vf_fs s1 = vf_fs s" "vf_live s1 = vf_live s" by blast
  have T1: "tree s1 R G T"
    by (rule tree_vcore [OF T ok s1(2) _ _ s1(4) vframe_mono [OF s1(3)]]) (use s1(5) in auto)
  have "stands s1 G v" by (rule iffD2 [OF stands_same [OF vframe_mono [OF s1(3)] s1(4)] v(3)]) simp
  with s1(2) T1 have w: "on_node s1 R G T v" by (simp add: on_node_def)
  have p: "(if path \<noteq> [] \<and> hd path = CHR ''/'' then ?p else path) = ?p" by (cases path) auto
  have run: "path_to_vnode E C path in_kernel s = path_loop E C ?p v s1"
    using v(1) s1(1) p by (simp add: path_to_vnode_def path_start_def Let_def split: if_splits)
  have k: "vkey (vf_vnode s1 v) = vkey (vf_vnode s v)" using s1(3) by (simp add: vframe_def)
  have "unchanged s s1 R" unfolding unchanged_def using s1(4) vframe_mono [OF s1(3)] by simp
  from walked_trans [OF this path_loop_spec [OF w _ n, of ?p]] u mutexes_free_same [OF s1(3,4)] show ?thesis unfolding run k by simp
qed

end

end
