(* ===== verification/Vfs_Root.thy ===== *)
theory Vfs_Root
  imports Vfs_Props
begin

text \<open>
  The vnode layer on the root file system: \<open>rootfs\<close> does what \<open>path_provider\<close> asks of a file
  system, so paths lead where its directories say.
\<close>

section \<open>The root file system as a provider\<close>

text \<open>
  What the invariant of a mounted root file system speaks of: the number of its mount and the
  entries of its directories. A file is firm when the entries lead to it from the root.
\<close>

type_synonym root_ghost = "nat \<times> (nat \<Rightarrow> nat list)"

definition root_good :: "root_ghost \<Rightarrow> rootfs \<Rightarrow> bool" where
  "root_good g fs \<longleftrightarrow> rootfs_ok fs (snd g) \<and> rf_id fs = fst g"

definition root_unlocked :: "rootfs \<Rightarrow> bool" where
  "root_unlocked fs \<longleftrightarrow> rf_lock fs = 0"

definition root_detached :: "root_ghost \<Rightarrow> rootfs \<Rightarrow> nat \<Rightarrow> bool" where
  "root_detached g fs i \<longleftrightarrow> (\<forall>v. node_with fs i = Some v \<longrightarrow> \<not> attached fs (snd g) v)"

inductive reach :: "rootfs \<Rightarrow> (nat \<Rightarrow> nat list) \<Rightarrow> nat \<Rightarrow> bool" for fs kids where
  reach_root: "reach fs kids (rf_root fs)"
| reach_entry: "reach fs kids d \<Longrightarrow> c \<in> set (kids d) \<Longrightarrow> reach fs kids c"

definition root_firm :: "root_ghost \<Rightarrow> rootfs \<Rightarrow> nat \<Rightarrow> bool" where
  "root_firm g fs i \<longleftrightarrow> (\<exists>v. node_with fs i = Some v \<and> reach fs (snd g) v)"

definition root_names :: "root_ghost \<Rightarrow> rootfs \<Rightarrow> nat \<Rightarrow> string \<Rightarrow> nat option" where
  "root_names g fs i n =
     (case node_with fs i of
        None \<Rightarrow> None
      | Some d \<Rightarrow> if reach fs (snd g) d then map_option (\<lambda>e. rn_id (rf_node fs e)) (entry fs (snd g) d n) else None)"

lemma reach_live:
  assumes "reach fs kids v" and "rootfs_ok fs kids"
  shows "v \<in> rf_live fs \<and> attached fs kids v"
  using assms(1)
proof induction
  case reach_root
  with rootfs_okD(5) [OF assms(2)] show ?case by (simp add: attached_def)
next
  case (reach_entry d c)
  with dirs_okD(4) [OF rootfs_okD(2) [OF assms(2)], of d c] show ?case by (auto simp: attached_def)
qed

lemma reach_parent:
  assumes "reach fs kids v" and "rootfs_ok fs kids"
  shows "\<exists>d. rn_parent (rf_node fs v) = Some d \<and> reach fs kids d"
  using assms(1)
proof cases
  case reach_root
  with rootfs_okD(6) [OF assms(2)] show ?thesis by (auto intro: reach.reach_root)
next
  case (reach_entry d)
  with dirs_okD(4) [OF rootfs_okD(2) [OF assms(2)], of d v] reach_live [OF _ assms(2), of d] show ?thesis by auto
qed

lemma reach_names:
  assumes "reach fs kids d" and "rootfs_ok fs kids" and "entry fs kids d n = Some e"
  shows "reach fs kids e"
  using assms reach_parent [OF assms(1,2)]
  by (auto simp: entry_def find_Some_iff split: if_splits intro: reach_entry)

lemma set_fs_fields [simp]:
  "vf_vnode (set_fs c f s) = vf_vnode s" "vf_live (set_fs c f s) = vf_live s" "vf_table (set_fs c f s) = vf_table s"
  "vf_next (set_fs c f s) = vf_next s" "vf_mount (set_fs c f s) = vf_mount s" "vf_mounts (set_fs c f s) = vf_mounts s"
  "vf_mtable (set_fs c f s) = vf_mtable s" "vf_mnext (set_fs c f s) = vf_mnext s" "vf_root (set_fs c f s) = vf_root s"
  "vf_cwd (set_fs c f s) = vf_cwd s" "vf_next_fsid (set_fs c f s) = vf_next_fsid s"
  "vf_fs (set_fs c f s) = (vf_fs s)(c := f)"
  by (simp_all add: set_fs_def)

lemma set_fs_same [simp]: "set_fs c (vf_fs s c) s = s"
  by (simp add: set_fs_def)

lemma set_fs_twice [simp]: "set_fs c g (set_fs c f s) = set_fs c g s"
  by (simp add: set_fs_def)

text \<open>Deleting a node leaves the others as they are.\<close>

lemma removevnode_others:
  assumes ok: "rootfs_ok fs (snd g)" and ok': "rootfs_ok fs' (snd g)" and k: "keeps_nodes (rf_live fs) fs fs'"
    and live: "rf_live fs' = (if snd g v = [] then rf_live fs - {v} else rf_live fs)"
    and v: "node_with fs i = Some v" and j: "j \<noteq> i"
  shows "node_with fs' j = node_with fs j" and "root_detached g fs' j = root_detached g fs j"
proof -
  have vi: "v \<in> rf_live fs" "rn_id (rf_node fs v) = i" using node_with_Some [OF ok] v by auto
  have same: "rn_id (rf_node fs' u) = rn_id (rf_node fs u)" if "u \<in> rf_live fs" for u
    using k that by (simp add: keeps_nodes_def)
  have "u \<in> rf_live fs' \<longleftrightarrow> u \<in> rf_live fs" if "rn_id (rf_node fs u) = j" for u
    using vi(2) j live that by (cases "u = v") auto
  then have "u \<in> rf_live fs' \<and> rn_id (rf_node fs' u) = j \<longleftrightarrow> u \<in> rf_live fs \<and> rn_id (rf_node fs u) = j" for u
    using same [of u] live by (metis Diff_iff)
  then have "node_with fs' j = Some u \<longleftrightarrow> node_with fs j = Some u" for u
    unfolding node_with_Some [OF ok] node_with_Some [OF ok'] .
  then show n: "node_with fs' j = node_with fs j" by (metis not_Some_eq)
  have "attached fs' (snd g) u = attached fs (snd g) u" if "node_with fs j = Some u" for u
  proof -
    have u: "u \<in> rf_live fs" "u \<noteq> v" using that vi j node_with_Some [OF ok, of j u] by auto
    have "rf_root fs' = rf_root fs" using k by (simp add: keeps_nodes_def)
    then show ?thesis using u live by (auto simp: attached_def split: if_splits)
  qed
  with n show "root_detached g fs' j = root_detached g fs j" by (simp add: root_detached_def)
qed

text \<open>The vnode layer with nothing but root file systems, whatever memory and sleep do.\<close>

definition allocates :: "kernel_alloc \<Rightarrow> bool" where
  "allocates f \<longleftrightarrow> (\<forall>L. finite L \<longrightarrow> (\<exists>v. f L = Some v \<and> v \<notin> L))"

locale root_layer =
  fixes E :: "rootfs vfs_env"
  assumes ops: "env_ops E k = rootfs_ops"
    and memory: "allocates (env_alloc E)"

sublocale root_layer \<subseteq> rv: vnode_provider E root_good node_with root_unlocked root_detached
proof
  fix g :: root_ghost and s :: "rootfs vfs" and c r i p k
  assume g: "root_good g (vf_fs s c)" "r \<or> root_unlocked (vf_fs s c)" "node_with (vf_fs s c) i = Some p"
  then show "op_getvnode (env_ops E k) c i r s = Returns ((0, Some p), s)"
    using getvnode_spec [of "vf_fs s c" "snd g" r i]
    by (simp add: ops rootfs_ops_def on_fs_def root_good_def root_unlocked_def)
  assume d: "root_detached g (vf_fs s c) i"
  let ?fs = "vf_fs s c"
  from g have ok: "rootfs_ok ?fs (snd g)" and lock: "r \<or> rf_lock ?fs = 0" and id: "rf_id ?fs = fst g"
    by (simp_all add: root_good_def root_unlocked_def)
  have p: "p \<in> rf_live ?fs" "\<not> attached ?fs (snd g) p" using g(3) d node_with_Some [OF ok] by (auto simp: root_detached_def)
  from rootfs_removevnode_spec [OF ok p lock] obtain fs' where fs': "rootfs_removevnode p r ?fs = Returns (0, fs')"
    "rootfs_ok fs' (snd g)" "keeps_nodes (rf_live ?fs) ?fs fs'"
    "rf_live fs' = (if snd g p = [] then rf_live ?fs - {p} else rf_live ?fs)" by blast
  have "rf_id fs' = rf_id ?fs" "rf_lock fs' = rf_lock ?fs" using fs'(3) by (simp_all add: keeps_nodes_def)
  moreover have "op_removevnode (env_ops E k) c (Some p) r s = Returns (0, s\<lparr>vf_fs := (vf_fs s)(c := fs')\<rparr>)"
    using fs'(1) by (simp add: ops rootfs_ops_def on_fs_def set_fs_def)
  ultimately show "\<exists>f'. op_removevnode (env_ops E k) c (Some p) r s = Returns (0, s\<lparr>vf_fs := (vf_fs s)(c := f')\<rparr>) \<and>
      root_good g f' \<and> root_unlocked f' = root_unlocked (vf_fs s c) \<and>
      (\<forall>j. j \<noteq> i \<longrightarrow> node_with f' j = node_with (vf_fs s c) j \<and> root_detached g f' j = root_detached g (vf_fs s c) j)"
    using fs'(2) id removevnode_others [OF ok fs'(2-4) g(3)]
    by (intro exI [of _ fs']) (simp add: root_good_def root_unlocked_def)
next
  fix k c q r and s :: "rootfs vfs"
  show "op_putvnode (env_ops E k) c q r s = Returns (0, s)"
    by (simp add: ops rootfs_ops_def on_fs_def rootfs_putvnode_def)
qed (use memory in \<open>simp add: allocates_def\<close>)

section \<open>Its lookup\<close>

locale root_paths = root_layer E for E +
  fixes C :: "nat \<Rightarrow> rootfs path_calls" and alloc :: kernel_alloc and dup :: bool and place :: "rootfs vfs \<Rightarrow> nat ptr" and junk :: rootfs
  assumes calls: "C k = rootfs_calls E alloc dup place junk"
begin

lemma locked_vcore:
  assumes "rv.vcore s R G" and "l = vf_fs s c"
  shows "rv.vcore (set_fs c (l\<lparr>rf_lock := k\<rparr>) s) R G"
proof -
  have "rv.vcore (set_fs c (l\<lparr>rf_lock := k\<rparr>) s) R (G(c := G c))"
    by (rule rv.vcore_set_fs [OF assms(1)])
      (use rv.vcoreD(5) [OF assms(1)] assms(2) in \<open>auto simp: root_good_def root_detached_def\<close>)
  then show ?thesis by simp
qed

lemma root_lookup_found:
  assumes ok: "rv.vcore s R G" and n: "size R < 2 ^ 31 - 1" and lock: "root_unlocked (vf_fs s (mt_cookie (vf_mount s m)))"
    and m: "m \<in> vf_mounts s" and id: "fst (G (mt_cookie (vf_mount s m))) = mt_id (vf_mount s m)"
    and d: "node_with (vf_fs s (mt_cookie (vf_mount s m))) i = Some d"
    and firm: "root_firm (G (mt_cookie (vf_mount s m))) (vf_fs s (mt_cookie (vf_mount s m))) i"
    and name: "root_names (G (mt_cookie (vf_mount s m))) (vf_fs s (mt_cookie (vf_mount s m))) i name = Some j"
  shows "root_firm (G (mt_cookie (vf_mount s m))) (vf_fs s (mt_cookie (vf_mount s m))) j \<and>
      (\<exists>v q s'. call_lookup (C k) (mt_cookie (vf_mount s m)) (Some d) name s = Returns ((0, j), s') \<and>
                rv.got_ref s R G (mt_id (vf_mount s m), j) q v s')"
proof -
  let ?c = "mt_cookie (vf_mount s m)"
  let ?fs = "vf_fs s ?c" and ?kids = "snd (G ?c)"
  have g: "rootfs_ok ?fs ?kids" "rf_id ?fs = mt_id (vf_mount s m)" and l0: "rf_lock ?fs = 0"
    using rv.vcoreD(5) [OF ok m] id lock by (simp_all add: root_good_def root_unlocked_def)
  have reach: "reach ?fs ?kids d" using firm d by (auto simp: root_firm_def)
  have dL: "d \<in> rf_live ?fs" using reach_live [OF reach g(1)] by blast
  from name d obtain e where e: "entry ?fs ?kids d name = Some e" "j = rn_id (rf_node ?fs e)"
    by (auto simp: root_names_def split: if_splits)
  have re: "reach ?fs ?kids e" by (rule reach_names [OF reach g(1) e(1)])
  then have eL: "e \<in> rf_live ?fs" using reach_live [OF _ g(1)] by blast
  have ej: "node_with ?fs j = Some e" using node_with_Some [OF g(1)] eL e(2) by blast
  let ?fs1 = "?fs\<lparr>rf_lock := 1\<rparr>"
  obtain s1 where s1: "s1 = set_fs ?c ?fs1 s" by simp
  have ok1: "rv.vcore s1 R G" unfolding s1 by (rule locked_vcore [OF ok refl])
  have m1: "m \<in> vf_mounts s1" "vf_mount s1 = vf_mount s" "vf_live s1 = vf_live s" "vf_fs s1 = (vf_fs s)(?c := ?fs1)"
    using m by (simp_all add: s1)
  have nj: "node_with (vf_fs s1 (mt_cookie (vf_mount s1 m))) j = Some e" using ej by (simp add: m1)
  from rv.get_ref [OF ok1 m1(1) nj, of True] n obtain v s2 where
    s2: "get_vnode E (mt_id (vf_mount s m)) j True s1 = Returns ((B_NO_ERROR, Some v), s2)"
      "rv.got_ref s1 R G (mt_id (vf_mount s m), j) e v s2" by (auto simp: m1(2))
  from s2(2) have f2: "rv.vcore s2 (add_mset v R) G" "vframe (vf_live s) s1 s2" "vf_fs s2 = (vf_fs s)(?c := ?fs1)"
    "vf_live s2 = insert v (vf_live s)" "vkey (vf_vnode s2 v) = (mt_id (vf_mount s m), j)" "vn_priv (vf_vnode s2 v) = Some e"
    "v \<notin> vf_live s \<longrightarrow> vn_covered_by (vf_vnode s2 v) = None \<and> \<not> vn_delete_me (vf_vnode s2 v)"
    by (simp_all add: rv.got_ref_def m1)
  let ?s' = "set_fs ?c ?fs s2"
  have unl: "fs_unlock_at ?c s2 = ?s'" using l0 by (simp add: fs_unlock_at_def f2(3) fs_unlock_back)
  have look: "rootfs_find_in_dir d name ?fs1 = Returns (Some e)"
    using find_in_dir_spec [of ?fs1 ?kids d name] g(1) dL e(1) by simp
  have "vfs_get_vnode E (rf_id ?fs1) (rn_id (rf_node ?fs1 e)) s1 = Returns ((B_NO_ERROR, Some e), s2)"
    using s2(1) e(2) g(2) f2(6) by (simp add: vfs_get_vnode_def B_NO_ERROR_def)
  then have "rootfs_lookup E ?c d name s = Returns ((0, j), ?s')"
    using fs_lock_free [OF l0] look eL e(2) unl s1 by (simp add: rootfs_lookup_def B_NO_ERROR_def f2(3))
  then have "call_lookup (C k) ?c (Some d) name s = Returns ((0, j), ?s')"
    by (simp add: calls rootfs_calls_def need_def)
  moreover have "rv.got_ref s R G (mt_id (vf_mount s m), j) e v ?s'"
  proof -
    have "?fs1\<lparr>rf_lock := 0\<rparr> = ?fs" using fs_unlock_back [OF l0] by (simp add: fs_unlock_def)
    then have "?s' = set_fs ?c (?fs1\<lparr>rf_lock := 0\<rparr>) s2" by (rule arg_cong [THEN sym])
    moreover have "rv.vcore (set_fs ?c (?fs1\<lparr>rf_lock := 0\<rparr>) s2) (add_mset v R) G"
      by (rule locked_vcore [OF f2(1)]) (simp add: f2(3))
    ultimately have "rv.vcore ?s' (add_mset v R) G" by simp
    moreover have "vframe (vf_live s) s ?s'" using f2(2) by (simp add: vframe_def s1)
    ultimately show ?thesis using f2(3-7) by (simp add: rv.got_ref_def)
  qed
  moreover have "root_firm (G ?c) ?fs j" using ej re by (auto simp: root_firm_def)
  ultimately show ?thesis by blast
qed

lemma root_lookup_missing:
  assumes ok: "rv.vcore s R G" and lock: "root_unlocked (vf_fs s (mt_cookie (vf_mount s m)))" and m: "m \<in> vf_mounts s"
    and d: "node_with (vf_fs s (mt_cookie (vf_mount s m))) i = Some d"
    and firm: "root_firm (G (mt_cookie (vf_mount s m))) (vf_fs s (mt_cookie (vf_mount s m))) i"
    and name: "root_names (G (mt_cookie (vf_mount s m))) (vf_fs s (mt_cookie (vf_mount s m))) i name = None"
  shows "call_lookup (C k) (mt_cookie (vf_mount s m)) (Some d) name s = Returns ((ENOENT, 0), s)"
proof -
  let ?c = "mt_cookie (vf_mount s m)"
  let ?fs = "vf_fs s ?c" and ?kids = "snd (G ?c)"
  have g: "rootfs_ok ?fs ?kids" and l0: "rf_lock ?fs = 0"
    using rv.vcoreD(5) [OF ok m] lock by (simp_all add: root_good_def root_unlocked_def)
  have dL: "d \<in> rf_live ?fs" using node_with_Some [OF g] d by blast
  have "entry ?fs ?kids d name = None" using name d firm by (auto simp: root_names_def root_firm_def)
  with find_in_dir_spec [of "?fs\<lparr>rf_lock := 1\<rparr>" ?kids d name] g dL
  have "rootfs_find_in_dir d name (?fs\<lparr>rf_lock := 1\<rparr>) = Returns None" by simp
  then have "rootfs_lookup E ?c d name s = Returns ((ENOENT, 0), s)"
    using fs_lock_free [OF l0] fs_unlock_back [OF l0] by (simp add: rootfs_lookup_def fs_unlock_at_def)
  then show ?thesis by (simp add: calls rootfs_calls_def need_def)
qed

end

sublocale root_paths \<subseteq> rp: path_provider E root_good node_with root_unlocked root_detached C root_firm fst root_names
proof
  fix g :: root_ghost and f i p
  assume "root_good g f" "node_with f i = Some p" "root_firm g f i"
  then show "\<not> root_detached g f i"
    using reach_live [of f "snd g" p] by (auto simp: root_good_def root_firm_def root_detached_def)
qed (use root_lookup_found root_lookup_missing in blast)+

end
