(* ===== verification/Vfs_Tree.thy ===== *)
theory Vfs_Tree
  imports Vfs_Root
begin

text \<open>
  What the calls on paths do to the tree of names: \<open>vfs_create\<close> adds one name and one empty
  directory, \<open>vfs_unlink\<close> takes one name away, and everything else, every reference included,
  stays as it was.
\<close>

section \<open>A change inside one file system\<close>

context path_provider begin

lemma tree_set_fs:
  assumes T: "tree s R G T" and ok: "vcore s R0 G" and m: "m \<in> vf_mounts s" and c: "c = mt_cookie (vf_mount s m)"
    and g: "gid g' = mt_id (vf_mount s m)" and names: "\<And>i. tr_names T' (mt_id (vf_mount s m), i) = names g' f' i"
    and other: "\<And>k. fst k \<noteq> mt_id (vf_mount s m) \<Longrightarrow> tr_names T' k = tr_names T k"
    and same: "tr_up T' = tr_up T" "tr_down T' = tr_down T"
    and pinned: "\<And>w. (\<exists>v \<in> vf_live s. vn_covered_by (vf_vnode s v) = Some w) \<or> (\<exists>n \<in> vf_mounts s. mt_covers (vf_mount s n) = Some w) \<Longrightarrow>
      stands s G w \<Longrightarrow> stands (set_fs c f' s) (G(c := g')) w"
  shows "tree (set_fs c f' s) R (G(c := g')) T'"
proof -
  note t = treeD [OF T]
  have diff: "mt_cookie (vf_mount s n) \<noteq> c \<and> mt_id (vf_mount s n) \<noteq> mt_id (vf_mount s m)" if "n \<in> vf_mounts s" "n \<noteq> m" for n
    using that m c inj_onD [OF vcoreD(4) [OF ok], of n m] inj_onD [OF mindexed_inj [OF vcoreD(3) [OF ok]], of n m] by auto
  show ?thesis
  proof (rule treeI, unfold set_fs_fields same)
    fix n assume n: "n \<in> vf_mounts s"
    show "gid ((G(c := g')) (mt_cookie (vf_mount s n))) = mt_id (vf_mount s n)"
      using t(1) [OF n] diff [OF n] g c by (cases "n = m") auto
    show "tr_names T' (mt_id (vf_mount s n), i) = names ((G(c := g')) (mt_cookie (vf_mount s n)))
        (((vf_fs s)(c := f')) (mt_cookie (vf_mount s n))) i" for i
      using t(2) [OF n, of i] diff [OF n] other [of "(mt_id (vf_mount s n), i)"] names [of i] c by (cases "n = m") auto
    show "v \<in># R" if "mt_root (vf_mount s n) = Some v" for v by (rule t(7) [OF n that])
    show "w \<in># R \<and> stands (set_fs c f' s) (G(c := g')) w" if "mt_covers (vf_mount s n) = Some w" for w
      using t(8) [OF n that] pinned [of w] n that by blast
  next
    fix v assume v: "v \<in> vf_live s"
    show "tr_down T (vkey (vf_vnode s v)) =
        (case vn_covered_by (vf_vnode s v) of None \<Rightarrow> vkey (vf_vnode s v) | Some w \<Rightarrow> vkey (vf_vnode s w))" by (rule t(3) [OF v])
    show "tr_up T (vkey (vf_vnode s v)) =
       (if mt_root (vf_mount s n) = Some v
        then (case mt_covers (vf_mount s n) of None \<Rightarrow> vkey (vf_vnode s v) | Some w \<Rightarrow> vkey (vf_vnode s w))
        else vkey (vf_vnode s v))" if "vn_mount (vf_vnode s v) = Some n" for n by (rule t(4) [OF v that])
    show "v \<in># R \<and> w \<in># R \<and> stands (set_fs c f' s) (G(c := g')) w" if "vn_covered_by (vf_vnode s v) = Some w" for w
      using t(6) [OF v that] pinned [of w] v that by blast
  qed (rule t(5))
qed

text \<open>What a file system calls firm stays so for the vnodes of other mounts.\<close>

lemma stands_set_fs:
  assumes "stands s G w"
    and "\<And>m. vn_mount (vf_vnode s w) = Some m \<Longrightarrow> mt_cookie (vf_mount s m) = c \<Longrightarrow> firm (G c) (vf_fs s c) (vn_vnid (vf_vnode s w)) \<Longrightarrow>
      firm g' f' (vn_vnid (vf_vnode s w))"
  shows "stands (set_fs c f' s) (G(c := g')) w"
  using assms by (auto simp: standing_def)

end

section \<open>A new directory\<close>

definition grown :: "name_tree \<Rightarrow> nat \<times> nat \<Rightarrow> string \<Rightarrow> nat \<Rightarrow> name_tree" where
  "grown T k name j =
     T\<lparr>tr_names := (\<lambda>(f, i).
         if f \<noteq> fst k then tr_names T (f, i)
         else if i = j then (\<lambda>n. if n = ''.'' then Some j else if n = ''..'' then Some (snd k) else None)
         else if i = snd k then (tr_names T (f, i))(name := Some j)
         else tr_names T (f, i))\<rparr>"

text \<open>The names of a root file system after \<open>rootfs_create\<close>.\<close>

lemma create_reach:
  assumes ok: "rootfs_ok fs kids" and root: "rf_root fs' = rf_root fs" and v: "v \<notin> rf_live fs" and d: "reach fs kids d"
  shows "reach fs' (kids(d := v # kids d, v := [])) u \<longleftrightarrow> u = v \<or> reach fs kids u"
proof -
  let ?kids = "kids(d := v # kids d, v := [])"
  have live: "u \<noteq> v" if "reach fs kids u" for u using reach_live [OF that ok] v by blast
  have mono: "reach fs' ?kids u" if "reach fs kids u" for u
    using that
  proof induction
    case reach_root
    show ?case using reach.reach_root [of fs' ?kids] by (simp only: root)
  next
    case (reach_entry e c)
    then show ?case using reach.reach_entry [OF reach_entry(3), of c] live by (cases "e = d") auto
  qed
  have "u = v \<or> reach fs kids u" if "reach fs' ?kids u"
    using that
  proof induction
    case reach_root
    then show ?case using root reach.reach_root [of fs kids] by simp
  next
    case (reach_entry e c)
    then show ?case using reach.reach_entry [of fs kids e c] by (auto split: if_splits)
  qed
  moreover have "reach fs' ?kids v" using reach.reach_entry [OF mono [OF d], of v] live [OF d] by simp
  ultimately show ?thesis using mono by blast
qed

lemma create_names:
  assumes ok: "rootfs_ok fs kids" and ok': "rootfs_ok fs' (kids(d := v # kids d, v := []))" and k: "keeps_nodes (rf_live fs) fs fs'"
    and live: "rf_live fs' = insert v (rf_live fs)" and v: "v \<notin> rf_live fs" and d: "reach fs kids d"
    and nv: "rn_name (rf_node fs' v) = name" "rn_id (rf_node fs' v) = rf_next_vnode_id fs" and n: "entry fs kids d name = None"
  shows "node_with fs' i = (if i = rf_next_vnode_id fs then Some v else node_with fs i)"
    and "root_names (f, kids(d := v # kids d, v := [])) fs' i =
       (if i = rf_next_vnode_id fs then (\<lambda>n. if n = ''.'' then Some i else if n = ''..'' then Some (rn_id (rf_node fs d)) else None)
        else if i = rn_id (rf_node fs d) then (root_names (f, kids) fs i)(name := Some (rf_next_vnode_id fs))
        else root_names (f, kids) fs i)"
proof -
  let ?j = "rf_next_vnode_id fs" and ?kids = "kids(d := v # kids d, v := [])"
  have dL: "d \<in> rf_live fs" using reach_live [OF d ok] by blast
  have old: "rn_id (rf_node fs u) < ?j" "rn_id (rf_node fs' u) = rn_id (rf_node fs u)"
    "rn_name (rf_node fs' u) = rn_name (rf_node fs u)" "rn_parent (rf_node fs' u) = rn_parent (rf_node fs u)"
    "set (kids u) \<subseteq> rf_live fs" "u \<noteq> v" if "u \<in> rf_live fs" for u
    using that k v rootfs_okD(7) [OF ok that] dirs_okD(4) [OF rootfs_okD(2) [OF ok] that] by (auto simp: keeps_nodes_def)
  have dv: "d \<noteq> v" using dL v by blast
  have root: "rf_root fs' = rf_root fs" using k by (simp add: keeps_nodes_def)
  note r = create_reach [OF ok root v d]
  have nw: "node_with fs' i = (if i = ?j then Some v else node_with fs i)" for i
  proof (cases "i = ?j")
    case True
    with node_with_Some [OF ok', of i v] live nv(2) show ?thesis by simp
  next
    case False
    have "node_with fs' i = Some u \<longleftrightarrow> node_with fs i = Some u" for u
      unfolding node_with_Some [OF ok] node_with_Some [OF ok'] using False live nv(2) old(2) [of u] v by (cases "u = v") auto
    with False show ?thesis by (metis not_Some_eq)
  qed
  then show "node_with fs' i = (if i = ?j then Some v else node_with fs i)" .
  have par: "rn_parent (rf_node fs' v) = Some d"
    using dirs_okD(4) [OF rootfs_okD(2) [OF ok'], of d v] dL live dv by simp
  have search: "map_option (\<lambda>e. rn_id (rf_node fs' e)) (find (\<lambda>c. rn_name (rf_node fs' c) = n) cs) =
      map_option (\<lambda>e. rn_id (rf_node fs e)) (find (\<lambda>c. rn_name (rf_node fs c) = n) cs)" if "set cs \<subseteq> rf_live fs" for n cs
    using that by (induction cs) (auto simp: old)
  note none = entry_NoneD(1,2) [OF ok dL n]
  have others: "map_option (\<lambda>e. rn_id (rf_node fs' e)) (entry fs' ?kids u n) =
      (if u = d \<and> n = name then Some ?j else map_option (\<lambda>e. rn_id (rf_node fs e)) (entry fs kids u n))" if u: "reach fs kids u" for u n
  proof -
    from reach_live [OF u ok] have uL: "u \<in> rf_live fs" by blast
    from reach_parent [OF u ok] obtain q where q: "rn_parent (rf_node fs u) = Some q" "reach fs kids q" by blast
    from reach_live [OF q(2) ok] have qL: "q \<in> rf_live fs" by blast
    consider "n = ''.''" | "n = ''..''" | "n \<noteq> ''.''" "n \<noteq> ''..''" by blast
    then show ?thesis
    proof cases
      case 3
      then show ?thesis using search [OF old(5) [OF uL], of n] old(6) [OF uL] nv by (cases "u = d") (auto simp: entry_def)
    qed (use none q old(2,4) [OF uL] old(2) [OF qL] in \<open>simp_all add: entry_def\<close>)
  qed
  show "root_names (f, ?kids) fs' i =
       (if i = ?j then (\<lambda>n. if n = ''.'' then Some i else if n = ''..'' then Some (rn_id (rf_node fs d)) else None)
        else if i = rn_id (rf_node fs d) then (root_names (f, kids) fs i)(name := Some ?j)
        else root_names (f, kids) fs i)"
  proof (cases "i = ?j")
    case True
    then show ?thesis using nw [of i] par nv(2) old(2) [OF dL] dv by (auto simp: root_names_def entry_def fun_eq_iff r)
  next
    case False
    have dn: "node_with fs (rn_id (rf_node fs d)) = Some d" by (rule node_with_live [OF ok dL])
    show ?thesis
    proof (cases "node_with fs i")
      case None
      with nw [of i] False dn show ?thesis by (auto simp: root_names_def fun_eq_iff)
    next
      case (Some u)
      then have u: "u \<in> rf_live fs" "rn_id (rf_node fs u) = i" using node_with_Some [OF ok] by auto
      have ud: "u = d \<longleftrightarrow> i = rn_id (rf_node fs d)" using dn Some u(2) by (metis option.inject)
      have new: "root_names (f, ?kids) fs' i = (\<lambda>n. if reach fs' ?kids u then map_option (\<lambda>e. rn_id (rf_node fs' e)) (entry fs' ?kids u n) else None)"
        using nw [of i] False Some by (simp add: root_names_def fun_eq_iff)
      have was: "root_names (f, kids) fs i = (\<lambda>n. if reach fs kids u then map_option (\<lambda>e. rn_id (rf_node fs e)) (entry fs kids u n) else None)"
        using Some by (simp add: root_names_def fun_eq_iff)
      have re: "reach fs' ?kids u \<longleftrightarrow> reach fs kids u" using r [of u] old(6) [OF u(1)] by simp
      show ?thesis
      proof (cases "reach fs kids u")
        case True
        then show ?thesis unfolding new was re using False ud by (simp add: others fun_eq_iff)
      next
        case nr: False
        with d ud have "i \<noteq> rn_id (rf_node fs d)" by blast
        with False nr show ?thesis unfolding new was re by simp
      qed
    qed
  qed
qed

context root_paths begin

lemma layer_fs:
  assumes "rv.vcore s R G" and "m \<in> vf_mounts s" and "rp.tree s R0 G T" and "rv.idle s"
  shows "rootfs_ok (vf_fs s (mt_cookie (vf_mount s m))) (snd (G (mt_cookie (vf_mount s m))))"
    and "rf_id (vf_fs s (mt_cookie (vf_mount s m))) = mt_id (vf_mount s m)"
    and "rf_lock (vf_fs s (mt_cookie (vf_mount s m))) = 0"
    and "fst (G (mt_cookie (vf_mount s m))) = mt_id (vf_mount s m)"
  using rv.vcoreD(5) [OF assms(1,2)] rp.treeD(1) [OF assms(3,2)] assms(2,4)
  by (simp_all add: root_good_def mutexes_free_def root_unlocked_def)

text \<open>\<open>rootfs_create\<close> in a directory somebody stands on.\<close>

lemma create_step:
  assumes v: "rp.on_node s R G T v" and u: "rv.idle s" and m: "mount_of v s = Returns m" and mem: "allocates alloc" "dup"
    and next_id: "rf_next_vnode_id (vf_fs s (mt_cookie (vf_mount s m))) + 1 < 2 ^ 64"
    and none: "tr_names T (vkey (vf_vnode s v)) name = None"
  shows "\<exists>f' g' j. call_create (C k) (mt_cookie (vf_mount s m)) (vn_priv (vf_vnode s v)) name STREAM_TYPE_DIR s =
             Returns (0, set_fs (mt_cookie (vf_mount s m)) f' s) \<and>
           rp.on_node (set_fs (mt_cookie (vf_mount s m)) f' s) R (G(mt_cookie (vf_mount s m) := g'))
             (grown T (vkey (vf_vnode s v)) name j) v \<and>
           rv.idle (set_fs (mt_cookie (vf_mount s m)) f' s) \<and> tr_names T (fst (vkey (vf_vnode s v)), j) = (\<lambda>_. None) \<and>
           snd (vkey (vf_vnode s v)) \<noteq> j \<and> rf_next_vnode_id f' = rf_next_vnode_id (vf_fs s (mt_cookie (vf_mount s m))) + 1 \<and>
           (\<forall>x. rp.stands s G x \<longrightarrow> rp.stands (set_fs (mt_cookie (vf_mount s m)) f' s) (G(mt_cookie (vf_mount s m) := g')) x)"
proof -
  from rp.node_mount [OF v] obtain m' d where m': "m' \<in> vf_mounts s" "vn_mount (vf_vnode s v) = Some m'" "mount_of v s = Returns m'"
    "vkey (vf_vnode s v) = (mt_id (vf_mount s m'), vn_vnid (vf_vnode s v))" "vn_priv (vf_vnode s v) = Some d"
    "node_with (vf_fs s (mt_cookie (vf_mount s m'))) (vn_vnid (vf_vnode s v)) = Some d"
    "root_firm (G (mt_cookie (vf_mount s m'))) (vf_fs s (mt_cookie (vf_mount s m'))) (vn_vnid (vf_vnode s v))" .
  with m have [simp]: "m' = m" by simp
  let ?c = "mt_cookie (vf_mount s m)" and ?f = "mt_id (vf_mount s m)" and ?i = "vn_vnid (vf_vnode s v)"
  let ?fs = "vf_fs s ?c" and ?kids = "snd (G ?c)"
  let ?j = "rf_next_vnode_id ?fs"
  from v have c: "rv.vcore s (add_mset v R) G" and T: "rp.tree s R G T" and st: "rp.stands s G v" by (simp_all add: rp.on_node_def)
  from layer_fs [OF c _ T u] m'(1) have ok: "rootfs_ok ?fs ?kids" "rf_id ?fs = ?f" "rf_lock ?fs = 0" "fst (G ?c) = ?f" by simp_all
  have d: "reach ?fs ?kids d" using m'(6,7) by (auto simp: root_firm_def)
  have di: "d \<in> rf_live ?fs" "rn_id (rf_node ?fs d) = ?i" using m'(6) node_with_Some [OF ok(1)] by auto
  have names: "tr_names T (?f, i) = root_names (G ?c) ?fs i" for i using rp.treeD(2) [OF T m'(1)] by (simp add: fun_eq_iff)
  have e: "entry ?fs ?kids d name = None"
    using none m'(4,6) d by (auto simp: names root_names_def)
  obtain w where w: "alloc (rf_live ?fs) = Some w" "w \<notin> rf_live ?fs"
    using mem(1) rootnodes.indexes_finite [OF rootfs_okD(4) [OF ok(1)]] by (auto simp: allocates_def)
  from rootfs_create_spec [where alloc = alloc, OF ok(1,3) di(1) e w next_id] obtain f' where f': "rootfs_create alloc True d name STREAM_TYPE_DIR ?fs = Returns (0, f')"
    "rootfs_ok f' (?kids(d := w # ?kids d, w := []))" "keeps_nodes (rf_live ?fs) ?fs f'" "rf_live f' = insert w (rf_live ?fs)"
    "rn_name (rf_node f' w) = name" "rn_id (rf_node f' w) = ?j" "rf_next_vnode_id f' = ?j + 1" by blast
  let ?kids' = "?kids(d := w # ?kids d, w := [])"
  let ?g' = "(?f, ?kids')"
  let ?s' = "set_fs ?c f' s"
  let ?T' = "grown T (vkey (vf_vnode s v)) name ?j"
  have keep: "rf_root f' = rf_root ?fs" "rf_id f' = ?f" "rf_lock f' = 0" using f'(3) ok by (simp_all add: keeps_nodes_def)
  note cn = create_names [OF ok(1) f'(2-4) w(2) d f'(5,6) e]
  have nw: "node_with f' i = Some u" if "node_with ?fs i = Some u" for i u
  proof -
    have "u \<in> rf_live ?fs \<and> rn_id (rf_node ?fs u) = i" using that by (simp add: node_with_Some [OF ok(1)])
    then have "i \<noteq> ?j" using rootfs_okD(7) [OF ok(1), of u] by auto
    with that cn(1) [of i] show ?thesis by simp
  qed
  have firm: "root_firm ?g' f' i" if fi: "root_firm (G ?c) ?fs i" for i
  proof -
    from fi obtain u where "node_with ?fs i = Some u" "reach ?fs ?kids u" by (auto simp: root_firm_def)
    with nw create_reach [OF ok(1) keep(1) w(2) d] show ?thesis by (auto simp: root_firm_def)
  qed
  have att: "root_detached ?g' f' i" if n: "node_with ?fs i = Some u" and "root_detached (G ?c) ?fs i" for i u
  proof -
    have u: "u \<in> rf_live ?fs" "\<not> attached ?fs ?kids u" "u \<noteq> w"
      using that w(2) node_with_Some [OF ok(1), of i u] by (auto simp: root_detached_def)
    then have "\<not> attached f' ?kids' u" by (auto simp: attached_def keep f'(4) split: if_splits)
    with nw [OF n] show ?thesis by (simp add: root_detached_def)
  qed
  have good: "root_good ?g' f'" using f'(2) keep by (simp add: root_good_def)
  have vc: "rv.vcore ?s' (add_mset v R) (G(?c := ?g'))"
    by (rule rv.vcore_set_fs [OF c good]) (use nw att in blast)
  have stands: "rp.stands ?s' (G(?c := ?g')) x" if "rp.stands s G x" for x
    by (rule rp.stands_set_fs [OF that]) (rule firm)
  have "rp.tree ?s' R (G(?c := ?g')) ?T'"
  proof (rule rp.tree_set_fs [OF T c _ refl])
    show "m \<in> vf_mounts s" using m'(1) by simp
    have G: "root_names (?f, ?kids) ?fs i = tr_names T (?f, i)" for i using ok(4) names by (metis prod.collapse)
    show "tr_names ?T' (?f, i) = root_names ?g' f' i" for i
      using m'(4) by (simp add: grown_def cn(2) G di(2) fun_eq_iff)
    show "tr_names ?T' k = tr_names T k" if "fst k \<noteq> ?f" for k using that m'(4) by (cases k) (simp add: grown_def)
  qed (simp_all add: grown_def stands)
  with vc stands [OF st] have "rp.on_node ?s' R (G(?c := ?g')) ?T' v" by (simp add: rp.on_node_def)
  moreover have "rv.idle ?s'" using u keep(3) by (auto simp: mutexes_free_def root_unlocked_def)
  moreover have "tr_names T (fst (vkey (vf_vnode s v)), ?j) = (\<lambda>_. None)"
  proof -
    have "node_with ?fs ?j = None"
      using rootfs_okD(7) [OF ok(1)] by (force simp: node_with_def)
    then show ?thesis using m'(4) by (simp add: names root_names_def fun_eq_iff)
  qed
  moreover have "call_create (C k) ?c (vn_priv (vf_vnode s v)) name STREAM_TYPE_DIR s = Returns (0, ?s')"
    using f'(1) m'(5) mem(2) by (simp add: calls rootfs_calls_def need_def on_fs_def)
  moreover have "snd (vkey (vf_vnode s v)) \<noteq> ?j" using rootfs_okD(7) [OF ok(1) di(1)] di(2) m'(4) by simp
  ultimately show ?thesis using stands f'(7) by blast
qed

lemma create_exists:
  assumes v: "rp.on_node s R G T v" and u: "rv.idle s" and m: "mount_of v s = Returns m"
    and some: "tr_names T (vkey (vf_vnode s v)) name \<noteq> None"
  shows "call_create (C k) (mt_cookie (vf_mount s m)) (vn_priv (vf_vnode s v)) name STREAM_TYPE_DIR s = Returns (EEXIST, s)"
proof -
  from rp.node_mount [OF v] obtain m' d where m': "m' \<in> vf_mounts s" "mount_of v s = Returns m'"
    "vkey (vf_vnode s v) = (mt_id (vf_mount s m'), vn_vnid (vf_vnode s v))" "vn_priv (vf_vnode s v) = Some d"
    "node_with (vf_fs s (mt_cookie (vf_mount s m'))) (vn_vnid (vf_vnode s v)) = Some d" .
  with m have [simp]: "m' = m" by simp
  let ?fs = "vf_fs s (mt_cookie (vf_mount s m))" and ?kids = "snd (G (mt_cookie (vf_mount s m)))"
  from v have c: "rv.vcore s (add_mset v R) G" and T: "rp.tree s R G T" by (simp_all add: rp.on_node_def)
  from layer_fs [OF c _ T u] m'(1) have ok: "rootfs_ok ?fs ?kids" "rf_lock ?fs = 0" by simp_all
  have d: "d \<in> rf_live ?fs" using m'(5) node_with_Some [OF ok(1)] by auto
  have "entry ?fs ?kids d name \<noteq> None"
    using some rp.treeD(2) [OF T m'(1)] m'(3,5) by (auto simp: root_names_def split: if_splits)
  from rootfs_create_exists [OF ok d this] m'(4) show ?thesis
    by (simp add: calls rootfs_calls_def need_def on_fs_def)
qed

end

text \<open>The layer in order: as many references as holders, \<open>T\<close> is its tree, no mutex is held.\<close>

definition layer_ok :: "rootfs vfs \<Rightarrow> nat multiset \<Rightarrow> (nat \<Rightarrow> root_ghost) \<Rightarrow> name_tree \<Rightarrow> bool" where
  "layer_ok s R G T \<longleftrightarrow>
     vnodes_ok root_good node_with root_detached s R G \<and> tree_ok root_firm fst root_names s R G T \<and>
     mutexes_free root_unlocked s"

text \<open>A vnode that paths may start from: somebody holds it and names lead to it.\<close>

definition base :: "rootfs vfs \<Rightarrow> nat multiset \<Rightarrow> (nat \<Rightarrow> root_ghost) \<Rightarrow> string \<Rightarrow> bool \<Rightarrow> nat \<Rightarrow> bool" where
  "base s R G path in_kernel v \<longleftrightarrow> path_start s path in_kernel = Some v \<and> v \<in># R \<and> standing root_firm s G v"

text \<open>A directory a mount covers, or the root of a mount.\<close>

definition pinned :: "'f vfs \<Rightarrow> nat \<Rightarrow> bool" where
  "pinned s w \<longleftrightarrow> (\<exists>v \<in> vf_live s. vn_covered_by (vf_vnode s v) = Some w) \<or> (\<exists>m \<in> vf_mounts s. mt_covers (vf_mount s m) = Some w)"

text \<open>How many more nodes the file systems can number.\<close>

definition ids_left :: "rootfs vfs \<Rightarrow> nat \<Rightarrow> bool" where
  "ids_left s n \<longleftrightarrow> (\<forall>m \<in> vf_mounts s. rf_next_vnode_id (vf_fs s (mt_cookie (vf_mount s m))) + n < 2 ^ 64)"

text \<open>
  What a call leaves alone that removes the files \<open>K\<close> and numbers \<open>n\<close> new ones: where paths
  start, the vnodes that are held, and the mounts.
\<close>

definition keeps ::
  "(nat \<times> nat) set \<Rightarrow> nat \<Rightarrow> rootfs vfs \<Rightarrow> nat multiset \<Rightarrow> (nat \<Rightarrow> root_ghost) \<Rightarrow> rootfs vfs \<Rightarrow> (nat \<Rightarrow> root_ghost) \<Rightarrow> bool" where
  "keeps K n s R G s' G' \<longleftrightarrow>
     vf_root s' = vf_root s \<and> vf_cwd s' = vf_cwd s \<and>
     (\<forall>x \<in># R. vkey (vf_vnode s' x) = vkey (vf_vnode s x) \<and>
        (vkey (vf_vnode s x) \<notin> K \<longrightarrow> standing root_firm s G x \<longrightarrow> standing root_firm s' G' x)) \<and>
     (\<forall>w. pinned s' w \<longrightarrow> pinned s w) \<and> (\<forall>i. ids_left s (i + n) \<longrightarrow> ids_left s' i)"

text \<open>What \<open>vfs_create\<close> does, by the tree.\<close>

definition created :: "rootfs vfs \<Rightarrow> nat multiset \<Rightarrow> (nat \<Rightarrow> root_ghost) \<Rightarrow> name_tree \<Rightarrow> nat \<times> nat \<Rightarrow> string \<Rightarrow> (int \<times> rootfs vfs) outcome \<Rightarrow> bool" where
  "created s R G T k name res \<longleftrightarrow>
     (if tr_names T k name \<noteq> None then \<exists>s'. res = Returns (EEXIST, s') \<and> layer_ok s' R G T \<and> keeps {} 0 s R G s' G
      else \<exists>s' G' j. res = Returns (0, s') \<and> layer_ok s' R G' (grown T k name j) \<and> tr_names T (fst k, j) = (\<lambda>_. None) \<and>
             snd k \<noteq> j \<and> keeps {} 1 s R G s' G')"

context root_paths begin

lemma layer_path:
  assumes "layer_ok s R G T" and "size R < 2 ^ 31 - 2" and "base s R G path in_kernel v"
  shows "case walk T (components (dropWhile (\<lambda>c. c = CHR ''/'') path)) (vkey (vf_vnode s v)) of
      None \<Rightarrow> \<exists>s'. path_to_vnode E C path in_kernel s = Returns ((ENOENT, None), s') \<and> layer_ok s' R G T \<and> rp.unchanged s s' R
    | Some k \<Rightarrow> \<exists>w s'. path_to_vnode E C path in_kernel s = Returns ((0, Some w), s') \<and> rp.on_node s' R G T w \<and> rv.idle s' \<and>
        rp.unchanged s s' R \<and> vkey (vf_vnode s' w) = k"
proof -
  from assms have u: "rv.idle s" by (simp add: layer_ok_def)
  have "rp.walked s R G T (walk T (components (dropWhile (\<lambda>c. c = CHR ''/'') path)) (vkey (vf_vnode s v)))
      (path_to_vnode E C path in_kernel s)"
    using assms by (intro rp.path_to_vnode_spec) (simp_all add: layer_ok_def base_def)
  then show ?thesis
    using rp.idle_unchanged [OF _ u] by (auto simp: rp.walked_def layer_ok_def split: option.splits)
qed

lemma pinned_unchanged:
  assumes R: "set_mset R \<subseteq> vf_live s" and T: "rp.tree s1 R G T" and ch: "rp.unchanged s s1 R" and w: "pinned s1 w"
  shows "pinned s w \<and> vkey (vf_vnode s1 w) = vkey (vf_vnode s w)"
proof -
  from ch have f: "vframe (set_mset R) s s1" by (simp add: rp.unchanged_def)
  from w consider v where "v \<in> vf_live s1" "vn_covered_by (vf_vnode s1 v) = Some w"
    | m where "m \<in> vf_mounts s1" "mt_covers (vf_mount s1 m) = Some w" by (auto simp: pinned_def)
  then show ?thesis
  proof cases
    case 1
    then have "v \<in># R" "w \<in># R" using rp.treeD(6) [OF T] by blast+
    with 1 f R show ?thesis by (auto simp: vframe_def pinned_def)
  next
    case 2
    then have "w \<in># R" using rp.treeD(8) [OF T] by blast
    with 2 f show ?thesis by (auto simp: vframe_def pinned_def)
  qed
qed

lemma keeps_unchanged:
  assumes R: "set_mset R \<subseteq> vf_live s" and T: "rp.tree s1 R G T" and ch: "rp.unchanged s s1 R"
  shows "keeps {} 0 s R G s1 G"
proof -
  from ch have f: "vframe (set_mset R) s s1" "vf_fs s1 = vf_fs s" by (simp_all add: rp.unchanged_def)
  have "standing root_firm s1 G x = standing root_firm s G x" if "x \<in># R" for x
    by (rule rp.stands_same [OF vframe_mono [OF f(1)] f(2)]) (use that in simp)
  moreover have "pinned s w" if "pinned s1 w" for w using pinned_unchanged [OF R T ch that] by simp
  moreover have "ids_left s1 i = ids_left s i" for i using f by (simp add: ids_left_def vframe_def)
  ultimately show ?thesis using f(1) by (simp add: keeps_def vframe_def)
qed

lemma layer_live:
  shows "layer_ok s R G T \<Longrightarrow> set_mset R \<subseteq> vf_live s" and "rp.on_node s R G T v \<Longrightarrow> set_mset R \<subseteq> vf_live s"
  using rv.vcoreD(7) [of s R G] rv.vcoreD(7) [of s "add_mset v R" G] by (auto simp: layer_ok_def rp.on_node_def)

lemma keeps_trans:
  assumes "keeps K n s R G s1 G1" and "keeps L k s1 R G1 s2 G2"
  shows "keeps (K \<union> L) (n + k) s R G s2 G2"
proof -
  have "ids_left s2 i" if "ids_left s (i + (n + k))" for i
  proof -
    have "ids_left s ((i + k) + n)" using that by (simp add: ac_simps)
    with assms show ?thesis by (simp add: keeps_def)
  qed
  with assms show ?thesis by (simp add: keeps_def)
qed

lemma keeps_layer:
  assumes "set_mset R \<subseteq> vf_live s" and "layer_ok s1 R G T" and "rp.unchanged s s1 R"
  shows "keeps {} 0 s R G s1 G"
  using assms keeps_unchanged [of R s s1 G T] by (simp add: layer_ok_def)

lemma keeps_node:
  assumes "set_mset R \<subseteq> vf_live s" and "rp.on_node s1 R G T w" and "rp.unchanged s s1 R"
  shows "keeps {} 0 s R G s1 G"
  using assms keeps_unchanged [of R s s1 G T] by (simp add: rp.on_node_def)

lemma leave_layer:
  assumes v: "rp.on_node s R G T v" and "rv.idle s" and "size R < 2 ^ 31 - 2"
  shows "\<exists>e s'. dec_vnode_ref_count E v True False s = Returns (e, s') \<and> layer_ok s' R G T \<and> rp.unchanged s s' R"
proof -
  from v have "rv.vcore s (add_mset v R) G" "rp.tree s R G T" "rp.stands s G v" by (simp_all add: rp.on_node_def)
  from rp.leave_node [OF this subset_mset.order_refl assms(2)] assms(3) obtain e s' where
    "dec_vnode_ref_count E v True False s = Returns (e, s')" "rv.vcore s' R G" "rp.tree s' R G T" "rp.unchanged s s' R" by auto
  with rp.idle_unchanged [OF _ assms(2)] show ?thesis by (auto simp: layer_ok_def)
qed

lemma create_layer:
  assumes ok: "layer_ok s R G T" and n: "size R < 2 ^ 31 - 2" and v: "base s R G (dir_part path) in_kernel v"
    and len: "length (last_component path) < SYS_MAX_NAME_LEN" and mem: "allocates alloc" "dup"
    and ids: "\<forall>m \<in> vf_mounts s. rf_next_vnode_id (vf_fs s (mt_cookie (vf_mount s m))) + 1 < 2 ^ 64"
  shows "case walk T (components (dropWhile (\<lambda>c. c = CHR ''/'') (dir_part path))) (vkey (vf_vnode s v)) of
      None \<Rightarrow> \<exists>s'. vfs_create E C path STREAM_TYPE_DIR in_kernel s = Returns (ENOENT, s') \<and> layer_ok s' R G T \<and> keeps {} 0 s R G s' G
    | Some k \<Rightarrow> created s R G T k (last_component path) (vfs_create E C path STREAM_TYPE_DIR in_kernel s)"
proof (cases "walk T (components (dropWhile (\<lambda>c. c = CHR ''/'') (dir_part path))) (vkey (vf_vnode s v))")
  case None
  with layer_path [OF ok n v] obtain s' where "path_to_vnode E C (dir_part path) in_kernel s = Returns ((ENOENT, None), s')"
    "layer_ok s' R G T" "rp.unchanged s s' R" by auto
  with keeps_layer [OF layer_live(1) [OF ok] this(2,3)] len None show ?thesis
    by (simp add: vfs_create_def path_to_dir_vnode_def err_defs LONG_MIN_def)
next
  case (Some k)
  let ?name = "last_component path"
  from Some layer_path [OF ok n v] obtain w s1 where s1: "path_to_vnode E C (dir_part path) in_kernel s = Returns ((0, Some w), s1)"
    "rp.on_node s1 R G T w" "rv.idle s1" "rp.unchanged s s1 R" "vkey (vf_vnode s1 w) = k" by auto
  have run: "vfs_create E C path STREAM_TYPE_DIR in_kernel s =
      call_on E C (Some w) (\<lambda>calls c p. call_create calls c p ?name STREAM_TYPE_DIR) s1"
    using s1(1) len by (simp add: vfs_create_def path_to_dir_vnode_def)
  from rp.node_mount [OF s1(2)] obtain m where m: "m \<in> vf_mounts s1" "mount_of w s1 = Returns m" .
  have before: "keeps {} 0 s R G s1 G" by (rule keeps_node [OF layer_live(1) [OF ok] s1(2,4)])
  have "created s R G T k ?name (vfs_create E C path STREAM_TYPE_DIR in_kernel s)"
  proof (cases "tr_names T k ?name = None")
    case False
    then have "tr_names T (vkey (vf_vnode s1 w)) ?name \<noteq> None" by (simp add: s1(5))
    note e = create_exists [OF s1(2,3) m(2) this]
    from leave_layer [OF s1(2,3) n] obtain r s' where s': "dec_vnode_ref_count E w True False s1 = Returns (r, s')" "layer_ok s' R G T"
      "rp.unchanged s1 s' R" by blast
    have "vfs_create E C path STREAM_TYPE_DIR in_kernel s = Returns (EEXIST, s')"
      using m(2) e s'(1) by (simp add: run call_on_def)
    with s'(2) False keeps_trans [OF before keeps_layer [OF layer_live(2) [OF s1(2)] s'(2,3)]] show ?thesis by (auto simp: created_def)
  next
    case True
    then have none: "tr_names T (vkey (vf_vnode s1 w)) ?name = None" by (simp add: s1(5))
    have "rf_next_vnode_id (vf_fs s1 (mt_cookie (vf_mount s1 m))) + 1 < 2 ^ 64"
      using ids m(1) s1(4) by (simp add: rp.unchanged_def vframe_def)
    from create_step [OF s1(2,3) m(2) mem this none] obtain f' g' j where
      c: "call_create (C (mt_fs (vf_mount s1 m))) (mt_cookie (vf_mount s1 m)) (vn_priv (vf_vnode s1 w)) ?name STREAM_TYPE_DIR s1 =
             Returns (0, set_fs (mt_cookie (vf_mount s1 m)) f' s1)"
        "rp.on_node (set_fs (mt_cookie (vf_mount s1 m)) f' s1) R (G(mt_cookie (vf_mount s1 m) := g'))
             (grown T (vkey (vf_vnode s1 w)) ?name j) w"
        "rv.idle (set_fs (mt_cookie (vf_mount s1 m)) f' s1)" "tr_names T (fst (vkey (vf_vnode s1 w)), j) = (\<lambda>_. None)"
        "snd (vkey (vf_vnode s1 w)) \<noteq> j" "rf_next_vnode_id f' = rf_next_vnode_id (vf_fs s1 (mt_cookie (vf_mount s1 m))) + 1" "\<forall>x. rp.stands s1 G x \<longrightarrow>
           rp.stands (set_fs (mt_cookie (vf_mount s1 m)) f' s1) (G(mt_cookie (vf_mount s1 m) := g')) x" by blast
    let ?s2 = "set_fs (mt_cookie (vf_mount s1 m)) f' s1" and ?G = "G(mt_cookie (vf_mount s1 m) := g')"
    from leave_layer [OF c(2,3) n] obtain r s' where s': "dec_vnode_ref_count E w True False ?s2 = Returns (r, s')"
      "layer_ok s' R ?G (grown T k ?name j)" "rp.unchanged ?s2 s' R" by (auto simp: s1(5))
    have "ids_left ?s2 i" if "ids_left s1 (i + 1)" for i using that c(6) by (fastforce simp: ids_left_def)
    then have "keeps {} 1 s1 R G ?s2 ?G" using c(7) by (simp add: keeps_def pinned_def)
    from keeps_trans [OF keeps_trans [OF before this] keeps_layer [OF layer_live(2) [OF c(2)] s'(2,3)]]
    have keep: "keeps {} 1 s R G s' ?G" by simp
    have "vfs_create E C path STREAM_TYPE_DIR in_kernel s = Returns (0, s')"
      using m(2) c(1) s'(1) by (simp add: run call_on_def)
    with s'(2) c(4,5) keep True show ?thesis by (auto simp: created_def s1(5))
  qed
  with Some show ?thesis by simp
qed

end

section \<open>A name less\<close>

definition pruned :: "name_tree \<Rightarrow> nat \<times> nat \<Rightarrow> string \<Rightarrow> nat \<Rightarrow> name_tree" where
  "pruned T k name j =
     T\<lparr>tr_names := (\<lambda>(f, i).
         if f \<noteq> fst k then tr_names T (f, i)
         else if i = j then (\<lambda>_. None)
         else if i = snd k then (tr_names T (f, i))(name := None)
         else tr_names T (f, i))\<rparr>"

text \<open>Nothing but the directory itself and its parent has a name there.\<close>

definition no_names :: "name_tree \<Rightarrow> nat \<times> nat \<Rightarrow> bool" where
  "no_names T k \<longleftrightarrow> (\<forall>n. n \<noteq> ''.'' \<longrightarrow> n \<noteq> ''..'' \<longrightarrow> tr_names T k n = None)"

lemma find_remove1:
  assumes "inj_on f (set xs)" and "distinct xs" and "x \<in> set xs"
  shows "find (\<lambda>y. f y = n) (remove1 x xs) = (if n = f x then None else find (\<lambda>y. f y = n) xs)"
  using assms
proof (induction xs)
  case (Cons y xs)
  then show ?case by (auto simp: find_None_iff inj_on_def)
qed simp

lemma remove_reach:
  assumes ok: "rootfs_ok fs kids" and root: "rf_root fs' = rf_root fs" and d: "reach fs kids d"
    and v: "v \<in> set (kids d)" "kids v = []"
  shows "reach fs' (kids(d := remove1 v (kids d))) u \<longleftrightarrow> reach fs kids u \<and> u \<noteq> v"
proof -
  let ?kids = "kids(d := remove1 v (kids d))"
  note dirs = rootfs_okD(2) [OF ok]
  have dL: "d \<in> rf_live fs" using reach_live [OF d ok] by blast
  have vr: "v \<noteq> rf_root fs" using root_no_entry [OF ok dL] v(1) by blast
  have "reach fs kids u \<and> u \<noteq> v" if "reach fs' ?kids u"
    using that
  proof induction
    case reach_root
    show ?case using vr reach.reach_root [of fs kids] by (simp add: root)
  next
    case (reach_entry e c)
    then have e: "reach fs kids e" "e \<in> rf_live fs" using reach_live [OF _ ok] by blast+
    from reach_entry(2) have c: "c \<in> set (kids e)" using set_remove1_subset [of v "kids d"] by (auto split: if_splits)
    have "c \<noteq> v"
    proof
      assume "c = v"
      with c one_parent [OF dirs e(2) dL, of v] v(1) have "e = d" by simp
      with reach_entry(2) \<open>c = v\<close> dirs_okD(2) [OF dirs dL] show False by (simp add: set_remove1_eq)
    qed
    with reach.reach_entry [OF e(1) c] show ?case by blast
  qed
  moreover have "reach fs' ?kids u" if "reach fs kids u" "u \<noteq> v"
    using that
  proof induction
    case reach_root
    show ?case using reach.reach_root [of fs' ?kids] by (simp only: root)
  next
    case (reach_entry e c)
    then have "e \<noteq> v" using v(2) by auto
    with reach_entry have "reach fs' ?kids e" by blast
    moreover have "c \<in> set (?kids e)" using reach_entry(2,4) by (auto simp: in_set_remove1)
    ultimately show ?case by (rule reach.reach_entry)
  qed
  ultimately show ?thesis by blast
qed

lemma remove_attached:
  assumes ok: "rootfs_ok fs kids" and same: "rf_live fs' = rf_live fs" "rf_root fs' = rf_root fs"
    and d: "d \<in> rf_live fs" and v: "v \<in> set (kids d)"
  shows "attached fs' (kids(d := remove1 v (kids d))) u \<longrightarrow> attached fs kids u"
    and "\<not> attached fs' (kids(d := remove1 v (kids d))) v"
proof -
  note dirs = rootfs_okD(2) [OF ok]
  have "set ((kids(d := remove1 v (kids d))) e) \<subseteq> set (kids e)" for e
    by (cases "e = d") (simp_all add: set_remove1_subset)
  then show "attached fs' (kids(d := remove1 v (kids d))) u \<longrightarrow> attached fs kids u"
    unfolding attached_def same by blast
  have "v \<notin> set ((kids(d := remove1 v (kids d))) e)" if e: "e \<in> rf_live fs" for e
  proof (cases "e = d")
    case False
    then have "v \<notin> set (kids e)" using one_parent [OF dirs e d _ v] by blast
    with False show ?thesis by simp
  qed (use dirs_okD(2) [OF dirs d] in simp)
  moreover have "v \<noteq> rf_root fs" using root_no_entry [OF ok d] v by blast
  ultimately show "\<not> attached fs' (kids(d := remove1 v (kids d))) v" by (simp add: attached_def same del: fun_upd_apply)
qed

lemma remove_names:
  assumes ok: "rootfs_ok fs kids" and ok': "rootfs_ok fs' (kids(d := remove1 v (kids d)))" and k: "keeps_nodes (rf_live fs) fs fs'"
    and live: "rf_live fs' = rf_live fs" and d: "reach fs kids d" and v: "v \<in> set (kids d)" "kids v = []"
  shows "node_with fs' i = node_with fs i"
    and "root_names (f, kids(d := remove1 v (kids d))) fs' i =
       (if i = rn_id (rf_node fs v) then (\<lambda>_. None)
        else if i = rn_id (rf_node fs d) then (root_names (f, kids) fs i)(rn_name (rf_node fs v) := None)
        else root_names (f, kids) fs i)"
proof -
  let ?kids = "kids(d := remove1 v (kids d))" and ?name = "rn_name (rf_node fs v)"
  note D = dirs_okD [OF rootfs_okD(2) [OF ok]]
  have dL: "d \<in> rf_live fs" using reach_live [OF d ok] by blast
  have vL: "v \<in> rf_live fs" and vn: "?name \<noteq> ''.''" "?name \<noteq> ''..''" using D(4) [OF dL v(1)] by blast+
  have old: "rn_id (rf_node fs' u) = rn_id (rf_node fs u)" "rn_name (rf_node fs' u) = rn_name (rf_node fs u)"
    "rn_parent (rf_node fs' u) = rn_parent (rf_node fs u)" if "u \<in> rf_live fs" for u
    using that k by (simp_all add: keeps_nodes_def)
  have root: "rf_root fs' = rf_root fs" using k by (simp add: keeps_nodes_def)
  note r = remove_reach [OF ok root d v]
  have "node_with fs' i = Some u \<longleftrightarrow> node_with fs i = Some u" for u
    unfolding node_with_Some [OF ok] node_with_Some [OF ok'] using live old(1) [of u] by auto
  then show nw: "node_with fs' i = node_with fs i" by (metis not_Some_eq)
  have search: "map_option (\<lambda>e. rn_id (rf_node fs' e)) (find (\<lambda>c. rn_name (rf_node fs' c) = n) cs) =
      map_option (\<lambda>e. rn_id (rf_node fs e)) (find (\<lambda>c. rn_name (rf_node fs c) = n) cs)" if "set cs \<subseteq> rf_live fs" for n cs
    using that by (induction cs) (auto simp: old)
  have gone: "find (\<lambda>c. rn_name (rf_node fs c) = n) (remove1 v (kids d)) =
      (if n = ?name then None else find (\<lambda>c. rn_name (rf_node fs c) = n) (kids d))" for n
    by (rule find_remove1 [OF D(3) [OF dL] D(2) [OF dL] v(1)])
  have others: "map_option (\<lambda>e. rn_id (rf_node fs' e)) (entry fs' ?kids u n) =
      (if u = d \<and> n = ?name then None else map_option (\<lambda>e. rn_id (rf_node fs e)) (entry fs kids u n))" if u: "reach fs kids u" for u n
  proof -
    from reach_live [OF u ok] have uL: "u \<in> rf_live fs" by blast
    from reach_parent [OF u ok] obtain q where q: "rn_parent (rf_node fs u) = Some q" "reach fs kids q" by blast
    from reach_live [OF q(2) ok] have qL: "q \<in> rf_live fs" by blast
    have sub: "set (kids u) \<subseteq> rf_live fs" "set (remove1 v (kids u)) \<subseteq> rf_live fs"
      using D(4) [OF uL] set_remove1_subset [of v "kids u"] by blast+
    consider "n = ''.''" | "n = ''..''" | "n \<noteq> ''.''" "n \<noteq> ''..''" by blast
    then show ?thesis
    proof cases
      case 3
      then show ?thesis using search [OF sub(1), of n] search [OF sub(2), of n] gone [of n] by (cases "u = d") (auto simp: entry_def)
    qed (use vn q old(1,3) [OF uL] old(1) [OF qL] in \<open>simp_all add: entry_def\<close>)
  qed
  have dn: "node_with fs (rn_id (rf_node fs d)) = Some d" "node_with fs (rn_id (rf_node fs v)) = Some v"
    using node_with_live [OF ok] dL vL by blast+
  show "root_names (f, ?kids) fs' i =
       (if i = rn_id (rf_node fs v) then (\<lambda>_. None)
        else if i = rn_id (rf_node fs d) then (root_names (f, kids) fs i)(?name := None)
        else root_names (f, kids) fs i)"
  proof (cases "node_with fs i")
    case None
    with nw dn show ?thesis by (auto simp: root_names_def fun_eq_iff)
  next
    case (Some u)
    then have u: "u \<in> rf_live fs" "rn_id (rf_node fs u) = i" using node_with_Some [OF ok] by auto
    have ud: "u = d \<longleftrightarrow> i = rn_id (rf_node fs d)" "u = v \<longleftrightarrow> i = rn_id (rf_node fs v)" using dn Some u(2) by (metis option.inject)+
    have new: "root_names (f, ?kids) fs' i = (\<lambda>n. if reach fs' ?kids u then map_option (\<lambda>e. rn_id (rf_node fs' e)) (entry fs' ?kids u n) else None)"
      using nw Some by (simp add: root_names_def fun_eq_iff)
    have was: "root_names (f, kids) fs i = (\<lambda>n. if reach fs kids u then map_option (\<lambda>e. rn_id (rf_node fs e)) (entry fs kids u n) else None)"
      using Some by (simp add: root_names_def fun_eq_iff)
    show ?thesis
    proof (cases "reach fs kids u")
      case True
      then show ?thesis unfolding new was r ud(1) [symmetric] ud(2) [symmetric] using d by (simp add: others fun_eq_iff)
    next
      case nr: False
      with d ud have "i \<noteq> rn_id (rf_node fs d)" by blast
      with nr show ?thesis unfolding new was r by (simp add: fun_eq_iff)
    qed
  qed
qed

context path_provider begin

lemma tree_mark [simp]: "tree (set_vnode x (\<lambda>r. r\<lparr>vn_delete_me := b\<rparr>) s) R G T = tree s R G T"
proof -
  let ?m = "(vf_vnode s)(x := vf_vnode s x\<lparr>vn_delete_me := b\<rparr>)"
  have "vkey (?m a) = vkey (vf_vnode s a)" "vn_covered_by (?m a) = vn_covered_by (vf_vnode s a)" "vn_mount (?m a) = vn_mount (vf_vnode s a)"
    "vn_vnid (?m a) = vn_vnid (vf_vnode s a)" for a
    by simp_all
  then show ?thesis by (simp add: tree_def standing_def del: fun_upd_apply split_paired_All cong: option.case_cong)
qed

end

context vnode_provider begin

lemma vcore_mark:
  assumes ok: "vcore s R G"
    and det: "\<And>m. m \<in> vf_mounts s \<Longrightarrow> vn_mount (vf_vnode s x) = Some m \<Longrightarrow>
      detached (G (mt_cookie (vf_mount s m))) (vf_fs s (mt_cookie (vf_mount s m))) (vn_vnid (vf_vnode s x))"
  shows "vcore (set_vnode x (\<lambda>r. r\<lparr>vn_delete_me := True\<rparr>) s) R G"
proof -
  let ?s = "set_vnode x (\<lambda>r. r\<lparr>vn_delete_me := True\<rparr>) s"
  note d = vcoreD [OF ok]
  have "vindexed ?s (vf_live s)" "mindexed ?s (vf_mounts s)"
    using vindexed_same [OF d(1), of ?s] mindexed_same [OF d(3), of ?s] by simp_all
  moreover have "vn_ok ?s R G a" if a: "a \<in> vf_live s" for a
  proof -
    note o = vn_okD [OF d(6) [OF a]]
    from o(5) obtain m p where m: "m \<in> vf_mounts s" "vn_mount (vf_vnode s a) = Some m" "vn_fsid (vf_vnode s a) = mt_id (vf_mount s m)"
      "vn_priv (vf_vnode s a) = Some p" "node_of (vf_fs s (mt_cookie (vf_mount s m))) (vn_vnid (vf_vnode s a)) = Some p"
      "vn_delete_me (vf_vnode s a) \<longrightarrow>
        detached (G (mt_cookie (vf_mount s m))) (vf_fs s (mt_cookie (vf_mount s m))) (vn_vnid (vf_vnode s a))" by blast
    with det [of m] o(1-4) show ?thesis by (auto simp: vn_ok_def Let_def)
  qed
  ultimately show ?thesis using d ok by (simp add: vcore_def)
qed

end

context root_paths begin

text \<open>\<open>rootfs_unlink\<close> in a directory somebody stands on, of a directory that no mount needs.\<close>

lemma unlink_step:
  assumes v: "rp.on_node s R G T v" and u: "rv.idle s" and m: "mount_of v s = Returns m"
    and name: "name \<noteq> ''.''" "name \<noteq> ''..''" and j: "tr_names T (vkey (vf_vnode s v)) name = Some j"
    and empty: "no_names T (fst (vkey (vf_vnode s v)), j)"
    and pin: "\<And>w. pinned s w \<Longrightarrow> vkey (vf_vnode s w) \<noteq> (fst (vkey (vf_vnode s v)), j)"
  shows "\<exists>s' g'. call_unlink (C k) (mt_cookie (vf_mount s m)) (vn_priv (vf_vnode s v)) name s = Returns (0, s') \<and>
           rp.on_node s' R (G(mt_cookie (vf_mount s m) := g')) (pruned T (vkey (vf_vnode s v)) name j) v \<and> rv.idle s' \<and>
           keeps {(fst (vkey (vf_vnode s v)), j)} 0 s R G s' (G(mt_cookie (vf_mount s m) := g'))"
proof -
  from rp.node_mount [OF v] obtain m' d where m': "m' \<in> vf_mounts s" "vn_mount (vf_vnode s v) = Some m'" "mount_of v s = Returns m'"
    "vkey (vf_vnode s v) = (mt_id (vf_mount s m'), vn_vnid (vf_vnode s v))" "vn_priv (vf_vnode s v) = Some d"
    "node_with (vf_fs s (mt_cookie (vf_mount s m'))) (vn_vnid (vf_vnode s v)) = Some d" "v \<in> vf_live s"
    "root_firm (G (mt_cookie (vf_mount s m'))) (vf_fs s (mt_cookie (vf_mount s m'))) (vn_vnid (vf_vnode s v))" .
  with m have [simp]: "m' = m" by simp
  let ?c = "mt_cookie (vf_mount s m)" and ?f = "mt_id (vf_mount s m)" and ?i = "vn_vnid (vf_vnode s v)"
  let ?fs = "vf_fs s ?c" and ?kids = "snd (G ?c)"
  let ?fs1 = "?fs\<lparr>rf_lock := 1\<rparr>"
  from v have c: "rv.vcore s (add_mset v R) G" and T: "rp.tree s R G T" and st: "rp.stands s G v" by (simp_all add: rp.on_node_def)
  from layer_fs [OF c _ T u] m'(1) have ok: "rootfs_ok ?fs ?kids" "rf_id ?fs = ?f" "rf_lock ?fs = 0" "fst (G ?c) = ?f" by simp_all
  have d: "reach ?fs ?kids d" using m'(6,8) by (auto simp: root_firm_def)
  have di: "d \<in> rf_live ?fs" "rn_id (rf_node ?fs d) = ?i" using m'(6) node_with_Some [OF ok(1)] by auto
  have names: "tr_names T (?f, i) = root_names (G ?c) ?fs i" for i using rp.treeD(2) [OF T m'(1)] by (simp add: fun_eq_iff)
  obtain a where a: "entry ?fs ?kids d name = Some a" "j = rn_id (rf_node ?fs a)"
    using j m'(4,6) d by (auto simp: names root_names_def)
  then have ak: "a \<in> set (?kids d)" "rn_name (rf_node ?fs a) = name" using name by (auto simp: entry_def find_Some_iff)
  have aL: "a \<in> rf_live ?fs" "?i < j" using dirs_okD(4) [OF rootfs_okD(2) [OF ok(1)] di(1) ak(1)] di(2) a(2) by auto
  have ra: "reach ?fs ?kids a" by (rule reach.reach_entry [OF d ak(1)])
  have aw: "node_with ?fs j = Some a" using node_with_live [OF ok(1) aL(1)] a(2) by simp
  have nokids: "?kids a = []"
  proof (rule ccontr)
    assume "?kids a \<noteq> []"
    then obtain e where e: "e \<in> set (?kids a)" by (cases "?kids a") auto
    let ?n = "rn_name (rf_node ?fs e)"
    have n: "?n \<noteq> ''.''" "?n \<noteq> ''..''" using dirs_okD(4) [OF rootfs_okD(2) [OF ok(1)] aL(1) e] by blast+
    have "find (\<lambda>c. rn_name (rf_node ?fs c) = ?n) (?kids a) \<noteq> None" using e by (auto simp: find_None_iff)
    with n have "tr_names T (?f, j) ?n \<noteq> None" using aw ra by (simp add: names root_names_def entry_def)
    with empty n m'(4) show False by (simp add: no_names_def)
  qed
  have ok1: "rootfs_ok ?fs1 ?kids" using ok(1) by simp
  have di1: "d \<in> rf_live ?fs1" using di(1) by simp
  from remove_from_dir_spec [OF ok1 di1 ak(1)] obtain f2 where f2: "rootfs_remove_from_dir d a ?fs1 = Returns (0, f2)"
    "rootfs_ok f2 (?kids(d := remove1 a (?kids d)))" "keeps_nodes (rf_live ?fs1) ?fs1 f2" "rf_live f2 = rf_live ?fs1"
    "rf_next_vnode_id f2 = rf_next_vnode_id ?fs1" by blast
  let ?f' = "fs_unlock f2" and ?kids' = "?kids(d := remove1 a (?kids d))"
  have f': "rootfs_ok ?f' ?kids'" "keeps_nodes (rf_live ?fs) ?fs ?f'" "rf_live ?f' = rf_live ?fs" "rf_id f2 = ?f"
    "rf_id ?f' = ?f" "rf_lock ?f' = 0" "rf_root ?f' = rf_root ?fs" "rn_id (rf_node f2 a) = j"
    using f2(2-4) ok aL(1) a(2) by (simp_all add: keeps_nodes_def)
  let ?g' = "(?f, ?kids')" and ?G = "G(?c := (?f, ?kids'))"
  let ?T' = "pruned T (vkey (vf_vnode s v)) name j"
  let ?s' = "set_fs ?c ?f' s"
  note rn = remove_names [OF ok(1) f'(1-3) d ak(1) nokids]
  note rr = remove_reach [OF ok(1) f'(7) d ak(1) nokids]
  have firm: "root_firm ?g' ?f' i" if "root_firm (G ?c) ?fs i" "i \<noteq> j" for i
  proof -
    from that(1) obtain u where u: "node_with ?fs i = Some u" "reach ?fs ?kids u" by (auto simp: root_firm_def)
    have "u \<noteq> a" using u(1) that(2) a(2) node_with_Some [OF ok(1), of i u] by blast
    with u rn(1) rr show ?thesis by (simp add: root_firm_def)
  qed
  note ra' = remove_attached [OF ok(1) f'(3,7) di(1) ak(1)]
  have det: "root_detached ?g' ?f' i" if n: "node_with ?fs i = Some x" and "root_detached (G ?c) ?fs i" for i x
    using that rn(1) ra'(1) [of x] by (auto simp: root_detached_def)
  have deta: "root_detached ?g' ?f' j"
    using aw rn(1) ra'(2) by (simp add: root_detached_def)
  have good: "root_good ?g' ?f'" using f'(1,5) by (simp add: root_good_def)
  have vc: "rv.vcore ?s' (add_mset v R) ?G"
    by (rule rv.vcore_set_fs [OF c good]) (use rn(1) det in auto)
  have stands: "rp.stands ?s' ?G x" if "rp.stands s G x" "vkey (vf_vnode s x) \<noteq> (?f, j)"
    "x \<in> vf_live s" for x
  proof (rule rp.stands_set_fs [OF that(1)])
    fix n assume n: "vn_mount (vf_vnode s x) = Some n" "mt_cookie (vf_mount s n) = ?c"
    from rv.vn_okD(5) [OF rv.vcoreD(6) [OF c that(3)]] n have "n \<in> vf_mounts s" "vn_fsid (vf_vnode s x) = mt_id (vf_mount s n)" by auto
    with n(2) m'(1) inj_onD [OF rv.vcoreD(4) [OF c], of n m] have "vn_fsid (vf_vnode s x) = ?f" by auto
    with that(2) have "vn_vnid (vf_vnode s x) \<noteq> j" by (simp add: vkey_def)
    then show "root_firm (G ?c) ?fs (vn_vnid (vf_vnode s x)) \<Longrightarrow> root_firm ?g' ?f' (vn_vnid (vf_vnode s x))" by (rule firm [rotated])
  qed
  have tree: "rp.tree ?s' R ?G ?T'"
  proof (rule rp.tree_set_fs [OF T c _ refl])
    show "m \<in> vf_mounts s" using m'(1) by simp
    have G: "root_names (?f, ?kids) ?fs i = tr_names T (?f, i)" for i using ok(4) names by (metis prod.collapse)
    show "tr_names ?T' (?f, i) = root_names ?g' ?f' i" for i
      using m'(4) by (simp add: pruned_def rn(2) G di(2) ak(2) a(2) fun_eq_iff)
    show "tr_names ?T' k = tr_names T k" if "fst k \<noteq> ?f" for k using that m'(4) by (cases k) (simp add: pruned_def)
    show "rp.stands ?s' ?G w" if w: "(\<exists>v \<in> vf_live s. vn_covered_by (vf_vnode s v) = Some w) \<or> (\<exists>n \<in> vf_mounts s. mt_covers (vf_mount s n) = Some w)"
      "rp.stands s G w" for w
    proof (rule stands [OF w(2)])
      show "vkey (vf_vnode s w) \<noteq> (?f, j)" using pin [of w] w(1) m'(4) by (simp add: pinned_def)
      have "w \<in># R" using w(1) rp.treeD(6,8) [OF T] by blast
      then show "w \<in> vf_live s" using rv.vcoreD(7) [OF c, of w] by simp
    qed
  qed (simp_all add: pruned_def)
  have vst: "rp.stands ?s' ?G v" by (rule stands [OF st]) (use m'(4,7) aL(2) in auto)
  have on: "rp.on_node ?s' R ?G ?T' v" using vc tree vst by (simp add: rp.on_node_def)
  have idle: "rv.idle ?s'" using u f'(6) by (auto simp: mutexes_free_def root_unlocked_def)
  have ids: "ids_left ?s' i" if "ids_left s i" for i using that f2(5) by (auto simp: ids_left_def fs_unlock_def)
  have keep: "keeps {(fst (vkey (vf_vnode s v)), j)} 0 s R G ?s' ?G"
    unfolding keeps_def
  proof (intro conjI ballI allI impI)
    fix x assume x: "x \<in># R"
    then have "x \<in> vf_live s" using rv.vcoreD(7) [OF c, of x] by simp
    then show "rp.stands ?s' ?G x" if "vkey (vf_vnode s x) \<notin> {(fst (vkey (vf_vnode s v)), j)}" "rp.stands s G x"
      using that m'(4) by (intro stands) auto
  qed (use ids in \<open>simp_all add: pinned_def\<close>)
  have find_a: "rootfs_find_in_dir d name ?fs1 = Returns (Some a)"
    using find_in_dir_spec [OF ok1 di1, of name] a(1) by simp
  have emp: "rootfs_is_dir_empty a ?fs1"
    using dirs_okD(1) [OF rootfs_okD(2) [OF ok(1)] aL(1)] nokids by (simp add: rootfs_is_dir_empty_def)
  let ?s2 = "set_fs ?c f2 s"
  have call: "call_unlink (C k) ?c (vn_priv (vf_vnode s v)) name s =
      obind (vfs_remove_vnode ?f j ?s2) (\<lambda>(_, t). Returns (0, fs_unlock_at ?c t))"
    using fs_lock_free [OF ok(3)] find_a emp f2(1) aL(1) f'(4,8) m'(5)
    by (simp add: calls rootfs_calls_def need_def rootfs_unlink_def)
  have vi2: "vindexed ?s2 (vf_live s)" by (rule vindexed_same [OF rv.vcoreD(1) [OF c]]) simp_all
  show ?thesis
  proof (cases "(?f, j) \<in> (\<lambda>a. vkey (vf_vnode s a)) ` vf_live s")
    case False
    with lookup_vnode_missing [OF vi2, of ?f j] have "vfs_remove_vnode ?f j ?s2 = Returns (0, ?s2)"
      by (simp add: vfs_remove_vnode_def)
    with call on idle keep show ?thesis by (auto simp: fs_unlock_at_def)
  next
    case True
    then obtain x where x: "x \<in> vf_live s" "vkey (vf_vnode s x) = (?f, j)" by force
    let ?mark = "set_vnode x (\<lambda>r. r\<lparr>vn_delete_me := True\<rparr>)"
    have "vfs_remove_vnode ?f j ?s2 = Returns (0, ?mark ?s2)"
      using lookup_vnode_found [OF vi2 x(1)] x(2) by (simp add: vfs_remove_vnode_def)
    moreover have "fs_unlock_at ?c (?mark ?s2) = ?mark ?s'"
      by (simp add: fs_unlock_at_def set_fs_def set_vnode_def)
    ultimately have run: "call_unlink (C k) ?c (vn_priv (vf_vnode s v)) name s = Returns (0, ?mark ?s')" using call by simp
    have xm: "vn_fsid (vf_vnode s x) = ?f" "vn_vnid (vf_vnode s x) = j" using x(2) by (simp_all add: vkey_def)
    have "rv.vcore (?mark ?s') (add_mset v R) ?G"
      using rv.live_mount(1) [OF c x(1) _ xm(1)] m'(1) deta xm(2) by (intro rv.vcore_mark [OF vc]) auto
    moreover have "rp.stands (?mark ?s') ?G v" using vst by (auto simp: standing_def)
    ultimately have "rp.on_node (?mark ?s') R ?G ?T' v" using tree by (simp add: rp.on_node_def)
    moreover have "rv.idle (?mark ?s')" using idle by (simp add: mutexes_free_def)
    moreover have "keeps {(fst (vkey (vf_vnode s v)), j)} 0 s R G (?mark ?s') ?G"
    proof -
      have "vkey (vf_vnode (?mark ?s') y) = vkey (vf_vnode ?s' y)" "rp.stands (?mark ?s') ?G y = rp.stands ?s' ?G y" for y
        by (simp_all add: standing_def)
      moreover have "pinned (?mark ?s') y = pinned ?s' y" for y by (auto simp: pinned_def)
      moreover have "ids_left (?mark ?s') i = ids_left ?s' i" for i by (simp add: ids_left_def)
      ultimately show ?thesis using keep by (simp add: keeps_def)
    qed
    ultimately show ?thesis using run by blast
  qed
qed

end

text \<open>What \<open>vfs_unlink\<close> does, by the tree.\<close>

definition unlinked :: "rootfs vfs \<Rightarrow> nat multiset \<Rightarrow> (nat \<Rightarrow> root_ghost) \<Rightarrow> name_tree \<Rightarrow> nat \<times> nat \<Rightarrow> string \<Rightarrow> (int \<times> rootfs vfs) outcome \<Rightarrow> bool" where
  "unlinked s R G T k name res \<longleftrightarrow>
     (case tr_names T k name of
        None \<Rightarrow> \<exists>s'. res = Returns (ERR_VFS_PATH_NOT_FOUND, s') \<and> layer_ok s' R G T \<and> keeps {} 0 s R G s' G
      | Some j \<Rightarrow>
          if no_names T (fst k, j)
          then \<exists>s' G'. res = Returns (0, s') \<and> layer_ok s' R G' (pruned T k name j) \<and> keeps {(fst k, j)} 0 s R G s' G'
          else \<exists>s'. res = Returns (ERR_VFS_DIR_NOT_EMPTY, s') \<and> layer_ok s' R G T \<and> keeps {} 0 s R G s' G)"

context root_paths begin

lemma unlink_refused:
  assumes v: "rp.on_node s R G T v" and u: "rv.idle s" and m: "mount_of v s = Returns m"
  shows "tr_names T (vkey (vf_vnode s v)) name = None \<Longrightarrow>
      call_unlink (C k) (mt_cookie (vf_mount s m)) (vn_priv (vf_vnode s v)) name s = Returns (ERR_VFS_PATH_NOT_FOUND, s)"
    and "tr_names T (vkey (vf_vnode s v)) name = Some j \<Longrightarrow> \<not> no_names T (fst (vkey (vf_vnode s v)), j) \<Longrightarrow>
      call_unlink (C k) (mt_cookie (vf_mount s m)) (vn_priv (vf_vnode s v)) name s = Returns (ERR_VFS_DIR_NOT_EMPTY, s)"
proof -
  from rp.node_mount [OF v] obtain m' d where m': "m' \<in> vf_mounts s" "mount_of v s = Returns m'"
    "vkey (vf_vnode s v) = (mt_id (vf_mount s m'), vn_vnid (vf_vnode s v))" "vn_priv (vf_vnode s v) = Some d"
    "node_with (vf_fs s (mt_cookie (vf_mount s m'))) (vn_vnid (vf_vnode s v)) = Some d"
    "root_firm (G (mt_cookie (vf_mount s m'))) (vf_fs s (mt_cookie (vf_mount s m'))) (vn_vnid (vf_vnode s v))" .
  with m have [simp]: "m' = m" by simp
  let ?c = "mt_cookie (vf_mount s m)"
  let ?fs = "vf_fs s ?c" and ?kids = "snd (G ?c)"
  let ?fs1 = "?fs\<lparr>rf_lock := 1\<rparr>"
  from v have c: "rv.vcore s (add_mset v R) G" and T: "rp.tree s R G T" by (simp_all add: rp.on_node_def)
  from layer_fs [OF c _ T u] m'(1) have ok: "rootfs_ok ?fs ?kids" "rf_lock ?fs = 0" by simp_all
  have dL: "d \<in> rf_live ?fs" using m'(5) node_with_Some [OF ok(1)] by auto
  moreover have "reach ?fs ?kids d" using m'(5,6) by (auto simp: root_firm_def)
  ultimately have d: "d \<in> rf_live ?fs" "reach ?fs ?kids d" by blast+
  have names: "tr_names T (fst (vkey (vf_vnode s v)), i) = root_names (G ?c) ?fs i" for i
    using rp.treeD(2) [OF T m'(1)] m'(3) by (simp add: fun_eq_iff)
  have key: "vkey (vf_vnode s v) = (fst (vkey (vf_vnode s v)), vn_vnid (vf_vnode s v))" using m'(3) by simp
  have e: "tr_names T (vkey (vf_vnode s v)) name = map_option (\<lambda>e. rn_id (rf_node ?fs e)) (entry ?fs ?kids d name)"
    by (subst key) (use m'(5) d(2) in \<open>simp only: names root_names_def option.case if_True \<open>m' = m\<close>\<close>)
  have look: "rootfs_find_in_dir d name ?fs1 = Returns (entry ?fs ?kids d name)"
    using find_in_dir_spec [of ?fs1 ?kids d name] ok(1) d(1) by simp
  have unl: "fs_unlock_at ?c (set_fs ?c ?fs1 s) = s" using ok(2) by (simp add: fs_unlock_at_def fs_unlock_back)
  show "call_unlink (C k) ?c (vn_priv (vf_vnode s v)) name s = Returns (ERR_VFS_PATH_NOT_FOUND, s)"
    if "tr_names T (vkey (vf_vnode s v)) name = None"
    using that e look unl fs_lock_free [OF ok(2)] m'(4) by (simp add: calls rootfs_calls_def need_def rootfs_unlink_def)
  assume j: "tr_names T (vkey (vf_vnode s v)) name = Some j" and ne: "\<not> no_names T (fst (vkey (vf_vnode s v)), j)"
  from j e obtain a where a: "entry ?fs ?kids d name = Some a" "j = rn_id (rf_node ?fs a)" by auto
  have ra: "reach ?fs ?kids a" by (rule reach_names [OF d(2) ok(1) a(1)])
  then have aL: "a \<in> rf_live ?fs" using reach_live [OF _ ok(1)] by blast
  from ne obtain n where "n \<noteq> ''.''" "n \<noteq> ''..''" "root_names (G ?c) ?fs j n \<noteq> None" by (auto simp: no_names_def names)
  then have "?kids a \<noteq> []" using node_with_live [OF ok(1) aL] a(2) ra by (auto simp: root_names_def entry_def)
  then have "rn_dir_head (rf_node ?fs a) \<noteq> None" using dirs_okD(1) [OF rootfs_okD(2) [OF ok(1)] aL]
    by (cases "rn_dir_head (rf_node ?fs a)") auto
  then show "call_unlink (C k) ?c (vn_priv (vf_vnode s v)) name s = Returns (ERR_VFS_DIR_NOT_EMPTY, s)"
    using a aL look unl fs_lock_free [OF ok(2)] m'(4)
    by (simp add: calls rootfs_calls_def need_def rootfs_unlink_def rootfs_is_dir_empty_def)
qed

lemma unlink_layer:
  assumes ok: "layer_ok s R G T" and n: "size R < 2 ^ 31 - 2" and v: "base s R G (dir_part path) in_kernel v"
    and len: "length (last_component path) < SYS_MAX_NAME_LEN"
    and name: "last_component path \<noteq> ''.''" "last_component path \<noteq> ''..''"
    and pin: "\<And>w k j. pinned s w \<Longrightarrow> walk T (components (dropWhile (\<lambda>c. c = CHR ''/'') (dir_part path))) (vkey (vf_vnode s v)) = Some k \<Longrightarrow>
       tr_names T k (last_component path) = Some j \<Longrightarrow> vkey (vf_vnode s w) \<noteq> (fst k, j)"
  shows "case walk T (components (dropWhile (\<lambda>c. c = CHR ''/'') (dir_part path))) (vkey (vf_vnode s v)) of
      None \<Rightarrow> \<exists>s'. vfs_unlink E C path in_kernel s = Returns (ENOENT, s') \<and> layer_ok s' R G T \<and> keeps {} 0 s R G s' G
    | Some k \<Rightarrow> unlinked s R G T k (last_component path) (vfs_unlink E C path in_kernel s)"
proof (cases "walk T (components (dropWhile (\<lambda>c. c = CHR ''/'') (dir_part path))) (vkey (vf_vnode s v))")
  case None
  with layer_path [OF ok n v] obtain s' where "path_to_vnode E C (dir_part path) in_kernel s = Returns ((ENOENT, None), s')"
    "layer_ok s' R G T" "rp.unchanged s s' R" by auto
  with keeps_layer [OF layer_live(1) [OF ok] this(2,3)] len None show ?thesis
    by (simp add: vfs_unlink_def path_to_dir_vnode_def err_defs LONG_MIN_def)
next
  case (Some k)
  let ?name = "last_component path"
  from Some layer_path [OF ok n v] obtain w s1 where s1: "path_to_vnode E C (dir_part path) in_kernel s = Returns ((0, Some w), s1)"
    "rp.on_node s1 R G T w" "rv.idle s1" "rp.unchanged s s1 R" "vkey (vf_vnode s1 w) = k" by auto
  have run: "vfs_unlink E C path in_kernel s = call_on E C (Some w) (\<lambda>calls c p. call_unlink calls c p ?name) s1"
    using s1(1) len by (simp add: vfs_unlink_def path_to_dir_vnode_def)
  from rp.node_mount [OF s1(2)] obtain m where m: "mount_of w s1 = Returns m" .
  note refused = unlink_refused [OF s1(2,3) m, of ?name, unfolded s1(5)]
  have before: "keeps {} 0 s R G s1 G" by (rule keeps_node [OF layer_live(1) [OF ok] s1(2,4)])
  from leave_layer [OF s1(2,3) n] obtain r s' where s': "dec_vnode_ref_count E w True False s1 = Returns (r, s')" "layer_ok s' R G T"
    "rp.unchanged s1 s' R" by blast
  have keep: "keeps {} 0 s R G s' G"
    using keeps_trans [OF before keeps_layer [OF layer_live(2) [OF s1(2)] s'(2,3)]] by simp
  show ?thesis
  proof (cases "tr_names T k ?name")
    case None
    have "vfs_unlink E C path in_kernel s = Returns (ERR_VFS_PATH_NOT_FOUND, s')"
      using refused(1) [OF None] m s'(1) by (simp add: run call_on_def)
    with s'(2) keep None Some show ?thesis by (auto simp: unlinked_def)
  next
    case j: (Some j)
    show ?thesis
    proof (cases "no_names T (fst k, j)")
      case False
      have "vfs_unlink E C path in_kernel s = Returns (ERR_VFS_DIR_NOT_EMPTY, s')"
        using refused(2) [OF j False] m s'(1) by (simp add: run call_on_def)
      with s'(2) keep j False Some show ?thesis by (auto simp: unlinked_def)
    next
      case True
      have pin1: "vkey (vf_vnode s1 x) \<noteq> (fst (vkey (vf_vnode s1 w)), j)" if "pinned s1 x" for x
        using pinned_unchanged [OF layer_live(1) [OF ok] _ s1(4) that] s1(2) pin [of x k j] Some j by (auto simp: rp.on_node_def s1(5))
      have j1: "tr_names T (vkey (vf_vnode s1 w)) ?name = Some j" and e1: "no_names T (fst (vkey (vf_vnode s1 w)), j)"
        using j True by (simp_all add: s1(5))
      from unlink_step [OF s1(2,3) m name j1 e1 pin1] obtain s2 g' where c:
        "call_unlink (C (mt_fs (vf_mount s1 m))) (mt_cookie (vf_mount s1 m)) (vn_priv (vf_vnode s1 w)) ?name s1 = Returns (0, s2)"
        "rp.on_node s2 R (G(mt_cookie (vf_mount s1 m) := g')) (pruned T (vkey (vf_vnode s1 w)) ?name j) w" "rv.idle s2"
        "keeps {(fst k, j)} 0 s1 R G s2 (G(mt_cookie (vf_mount s1 m) := g'))" unfolding s1(5) by blast
      let ?G = "G(mt_cookie (vf_mount s1 m) := g')"
      from leave_layer [OF c(2,3) n] obtain r s3 where s3: "dec_vnode_ref_count E w True False s2 = Returns (r, s3)"
        "layer_ok s3 R ?G (pruned T k ?name j)" "rp.unchanged s2 s3 R" by (auto simp: s1(5))
      have keep3: "keeps {(fst k, j)} 0 s R G s3 ?G"
        using keeps_trans [OF keeps_trans [OF before c(4)] keeps_layer [OF layer_live(2) [OF c(2)] s3(2,3)]] by simp
      have "vfs_unlink E C path in_kernel s = Returns (0, s3)" using m c(1) s3(1) by (simp add: run call_on_def)
      with s3(2) keep3 j True Some show ?thesis by (auto simp: unlinked_def)
    qed
  qed
qed

end

end
