(* ===== verification/Vfs_Boot.thy ===== *)
theory Vfs_Boot
  imports Vfs_Tree
begin

text \<open>
  The start of the layer: after \<open>vfs_init\<close> the root file system is mounted on \<open>''/''\<close>, and the
  tree has a root that is its own parent and nothing else. This is the state every call of
  \<open>Vfs_Tree\<close> starts from.
\<close>

section \<open>A new root file system\<close>

lemma rootfs_mount_spec:
  assumes v: "alloc {} = Some v" and junk: "rf_live junk = {}"
  shows "\<exists>fs. rootfs_mount alloc True junk i = Returns (0, 0, fs) \<and> rootfs_ok fs (\<lambda>_. []) \<and> rf_id fs = i \<and> rf_lock fs = 0 \<and>
           rf_root fs = v \<and> rf_live fs = {v} \<and> rn_id (rf_node fs v) = 0 \<and> rf_next_vnode_id fs = 1"
proof -
  let ?node = "\<lparr>rn_id = 0, rn_name = '''', rn_room = 1, rn_parent = Some v, rn_dir_next = None, rn_dir_head = None, rn_jar_head = None\<rparr>"
  obtain fs4 where fs4: "fs4 = junk\<lparr>rf_id := i, rf_lock := 0,
      rf_table := \<lparr>ht_table = (\<lambda>i. None), ht_size = ROOTFS_HASH_SIZE, ht_num_elems = 0, ht_compare = None, ht_hash = (\<lambda>a k n. 0)\<rparr>,
      rf_live := {v}, rf_next_vnode_id := 1, rf_node := (rf_node junk)(v := ?node), rf_root := v\<rparr>" by simp
  let ?fs = "set_node_table (snd (hash_insert v (node_table fs4))) fs4"
  have run: "rootfs_mount alloc True junk i = Returns (0, rn_id (rf_node ?fs v), ?fs)"
    using v junk by (simp add: rootfs_mount_def rootfs_create_vnode_def Let_def set_node_def fs4)
  have "rootnodes.indexes (rf_node fs4) (node_table fs4) {}"
  proof -
    have "node_table fs4 = (\<lparr>ht_table = (\<lambda>i. None), ht_size = 16, ht_num_elems = 0, ht_compare = Some (rootfs_vnode_compare_func (rf_node fs4)),
        ht_hash = rootfs_vnode_hash_func (rf_node fs4)\<rparr>, rf_all_next fs4)"
      by (simp add: node_table_def fs4 ROOTFS_HASH_SIZE_def)
    then show ?thesis by (simp only: rootnodes.indexes_empty)
  qed
  from insert_node_indexes [OF this, of v] have "rootnodes.indexes (rf_node ?fs) (node_table ?fs) {v}" by simp
  then have "nodes_ok ?fs" by (simp add: nodes_ok_def fs4)
  moreover have "dirs_ok (rf_node ?fs) (rf_live ?fs) (\<lambda>_. [])" by (simp add: dirs_ok_def fs4)
  moreover have "jars_ok ?fs (\<lambda>_. [])"
    unfolding jars_ok_def by (intro ballI exI [of _ "[]"]) (simp add: fs4)
  ultimately have "rootfs_ok ?fs (\<lambda>_. [])" by (simp add: rootfs_ok_def)
  then show ?thesis using run by (intro exI [of _ ?fs]) (simp add: fs4)
qed

section \<open>The first mount\<close>

definition boot_tree :: name_tree where
  "boot_tree = \<lparr>tr_names = (\<lambda>k n. if k = (0, 0) \<and> (n = ''.'' \<or> n = ''..'') then Some 0 else None), tr_up = (\<lambda>k. k), tr_down = (\<lambda>k. k)\<rparr>"

context vnode_provider begin

lemma vcore_same:
  assumes ok: "vcore s R G" and same: "vf_vnode s' = vf_vnode s" "vf_live s' = vf_live s" "vf_table s' = vf_table s" "vf_next s' = vf_next s"
    "vf_mounts s' = vf_mounts s" "vf_mtable s' = vf_mtable s" "vf_mnext s' = vf_mnext s" "vf_fs s' = vf_fs s"
    and mt: "\<And>m. mt_id (vf_mount s' m) = mt_id (vf_mount s m)" "\<And>m. mt_cookie (vf_mount s' m) = mt_cookie (vf_mount s m)"
  shows "vcore s' R G"
proof -
  note d = vcoreD [OF ok]
  have "vindexed s' (vf_live s)" "mindexed s' (vf_mounts s)"
    using vindexed_same [OF d(1), of s'] mindexed_same [OF d(3), of s'] same mt by simp_all
  with ok show ?thesis by (simp add: vcore_def vn_ok_def same mt)
qed

end

context root_paths begin

lemma mount_root:
  assumes "find_fs reg fs_name = Some k" and mem: "allocates alloc" "dup" and place: "\<And>s. place s = Some c" and live: "rf_live junk = {}"
  shows "\<exists>s r G. vfs_mount E C reg True mjunk ''/'' fs_name in_kernel (vfs_init fs vmem mmem nx) = Returns (0, s) \<and>
           layer_ok s {#r#} G boot_tree \<and> vf_root s = Some r \<and> vf_cwd s = (\<lambda>_. None) \<and> vkey (vf_vnode s r) = (0, 0) \<and>
           standing root_firm s G r \<and> (\<forall>w. \<not> pinned s w) \<and>
           (\<forall>m \<in> vf_mounts s. rf_next_vnode_id (vf_fs s (mt_cookie (vf_mount s m))) = 1)"
proof -
  let ?ini = "vfs_init fs vmem mmem nx"
  obtain m where m: "env_alloc E {} = Some m" using memory by (auto simp: allocates_def)
  obtain v where v: "alloc {} = Some v" using mem(1) by (auto simp: allocates_def)
  from rootfs_mount_spec [of alloc v junk 0, OF v live] obtain f where f: "rootfs_mount alloc True junk 0 = Returns (0, 0, f)" "rootfs_ok f (\<lambda>_. [])"
    "rf_id f = 0" "rf_lock f = 0" "rf_root f = v" "rf_live f = {v}" "rn_id (rf_node f v) = 0" "rf_next_vnode_id f = 1" by blast
  obtain s2 where s2: "s2 = set_mount m (\<lambda>_. mjunk\<lparr>mt_fs := k, mt_id := 0, mt_cookie := c, mt_covers := None\<rparr>)
      (set_fs c f (?ini\<lparr>vf_mounts := {m}, vf_next_fsid := Suc 0\<rparr>))" by simp
  obtain s1 where s1: "s1 = set_mount m (\<lambda>_. mjunk\<lparr>mt_fs := k, mt_id := 0\<rparr>) (?ini\<lparr>vf_mounts := {m}, vf_next_fsid := Suc 0\<rparr>)" by simp
  have on: "mount_on E C m ''/'' in_kernel s1 = Returns (Inr 0, s2)"
    using f(1) place mem(2)
    by (simp add: mount_on_def s1 s2 vfs_init_def calls rootfs_calls_def set_mount_def set_fs_def)
  obtain s3 where s3: "s3 = set_mounts_table (snd (hash_insert m (mounts_table s2))) s2" by simp
  have n2: "vf_live s2 = {}" "vf_mounts s2 = {m}" "vf_fs s2 = (vf_fs ?ini)(c := f)" "mt_id (vf_mount s2 m) = 0" "mt_cookie (vf_mount s2 m) = c"
    "mt_covers (vf_mount s2 m) = None" "vf_root s2 = None" "vf_cwd s2 = (\<lambda>_. None)"
    by (simp_all add: s2 vfs_init_def)
  have n3: "vf_vnode s3 = vf_vnode s2" "vf_live s3 = {}" "vf_mounts s3 = {m}" "vf_fs s3 = (vf_fs ?ini)(c := f)" "vf_mount s3 = vf_mount s2"
    "vf_root s3 = None" "vf_cwd s3 = (\<lambda>_. None)"
    using n2 by (simp_all add: s3 set_mounts_table_def)
  have vi: "vindexed s3 {}"
  proof -
    have "vnode_table s3 = (\<lparr>ht_table = (\<lambda>i. None), ht_size = 1024, ht_num_elems = 0, ht_compare = Some (vnode_compare (vf_vnode s3)),
        ht_hash = vnode_hash (vf_vnode s3)\<rparr>, vf_next s3)"
      by (simp add: vnode_table_def s3 set_mounts_table_def s2 vfs_init_def VNODE_HASH_TABLE_SIZE_def)
    then show ?thesis by (simp only: vindexed_def vnodes.indexes_empty)
  qed
  have i2: "mounts.indexes (vf_mount s2) (mounts_table s2) {}"
  proof -
    have "mounts_table s2 = (\<lparr>ht_table = (\<lambda>i. None), ht_size = 16, ht_num_elems = 0, ht_compare = Some (mount_compare (vf_mount s2)),
        ht_hash = mount_hash (vf_mount s2)\<rparr>, vf_mnext s2)"
      by (simp add: mounts_table_def s2 vfs_init_def MOUNTS_HASH_TABLE_SIZE_def)
    then show ?thesis by (simp only: mounts.indexes_empty)
  qed
  from mounts.indexes_insert [OF i2, of m] have "mounts.indexes (vf_mount s2) (snd (hash_insert m (mounts_table s2))) {m}" by simp
  then have mi: "mindexed s3 {m}"
    using mounts.indexes_functions [of "vf_mount s2" "fst (snd (hash_insert m (mounts_table s2)))" "snd (snd (hash_insert m (mounts_table s2)))" "{m}"]
    by (simp add: mindexed_def mounts_table_def s3 set_mounts_table_def)
  let ?G = "\<lambda>_. (0, \<lambda>_. []) :: root_ghost"
  have good: "root_good (?G c) f" using f(2,3) by (simp add: root_good_def)
  have ok3: "rv.vcore s3 {#} ?G"
    using vi mi good n2 by (simp add: rv.vcore_def n3)
  have m3: "m \<in> vf_mounts s3" and u3: "root_unlocked (vf_fs s3 (mt_cookie (vf_mount s3 m)))"
    using n2 f(4) by (simp_all add: n3 root_unlocked_def)
  have nw: "node_with f 0 = Some v" using node_with_Some [OF f(2)] f(6,7) by simp
  then have nv: "node_with (vf_fs s3 (mt_cookie (vf_mount s3 m))) 0 = Some v" using n2 by (simp add: n3)
  from rv.get_ref [OF ok3 m3 nv, of False] u3 obtain r s4 where s4: "get_vnode E 0 0 False s3 = Returns ((B_NO_ERROR, Some r), s4)"
    "rv.got_ref s3 {#} ?G (0, 0) v r s4" by (auto simp: n3 n2)
  from s4(2) have g: "rv.vcore s4 {#r#} ?G" "vframe {} s3 s4" "vf_fs s4 = vf_fs s3" "vf_live s4 = {r}" "vkey (vf_vnode s4 r) = (0, 0)"
    "vn_covered_by (vf_vnode s4 r) = None"
    by (simp_all add: rv.got_ref_def n3)
  have f4: "vf_mounts s4 = {m}" "mt_id (vf_mount s4 m) = 0" "mt_cookie (vf_mount s4 m) = c" "mt_covers (vf_mount s4 m) = None"
    "vf_root s4 = None" "vf_cwd s4 = (\<lambda>_. None)" "vf_fs s4 = (vf_fs ?ini)(c := f)"
    using g(2,3) n2 by (simp_all add: vframe_def n3)
  let ?s = "(set_mount m (\<lambda>r'. r'\<lparr>mt_root := Some r\<rparr>) s4)\<lparr>vf_root := Some r\<rparr>"
  have run: "vfs_mount E C reg True mjunk ''/'' fs_name in_kernel ?ini = Returns (0, ?s)"
  proof -
    have "vf_mounts ?ini = {}" "vf_next_fsid ?ini = 0" by (simp_all add: vfs_init_def)
    then show ?thesis
      using m assms(1) on s4(1) n2(4) f4 by (simp add: vfs_mount_def Let_def s1 [symmetric] s3 [symmetric] B_NO_ERROR_def n3)
  qed
  have vc: "rv.vcore ?s {#r#} ?G" by (rule rv.vcore_same [OF g(1)]) simp_all
  have mount: "vn_mount (vf_vnode s4 r) = Some m" using rv.live_mount(1) [OF g(1), of r m] g(4,5) f4 by (simp add: vkey_def)
  have firm: "root_firm (0, \<lambda>_. []) f 0" using nw reach.reach_root [of f "\<lambda>_. []"] f(5) by (auto simp: root_firm_def)
  have st: "standing root_firm ?s ?G r" using firm f4 mount g(5) by (simp add: standing_def vkey_def)
  have names: "root_names (0, \<lambda>_. []) f i = tr_names boot_tree (0, i)" for i
  proof -
    have p: "rn_parent (rf_node f v) = Some v" using rootfs_okD(6) [OF f(2)] f(5) by simp
    have "node_with f i = (if i = 0 then Some v else None)" using nw f(6,7) by (simp add: node_with_def)
    then show ?thesis using f(5,7) p reach.reach_root [of f "\<lambda>_. []"]
      by (auto simp: root_names_def boot_tree_def entry_def fun_eq_iff)
  qed
  have tree: "tree_ok root_firm fst root_names ?s {#r#} ?G boot_tree"
    using f4 g(4-6) mount names by (auto simp: tree_ok_def boot_tree_def)
  have "mutexes_free root_unlocked ?s" using f4 f(4) by (simp add: mutexes_free_def root_unlocked_def)
  with vc tree have "layer_ok ?s {#r#} ?G boot_tree" by (simp add: layer_ok_def)
  moreover have "\<forall>m \<in> vf_mounts ?s. rf_next_vnode_id (vf_fs ?s (mt_cookie (vf_mount ?s m))) = 1" using f4 f(8) by simp
  moreover have "\<not> pinned ?s w" for w using g(4,6) f4 by (simp add: pinned_def)
  ultimately show ?thesis using run st g(5) f4
    by (intro exI [of _ ?s] exI [of _ r] exI [of _ ?G]) simp
qed

end

end
