(* ===== verification/Vfs_Main.thy ===== *)
theory Vfs_Main
  imports Vfs_Boot
begin

text \<open>
  The properties of the vnode layer, of paths and of the root file system, over the definitions
  themselves: any layer whose file systems are all root file systems, whatever its allocators,
  its page caches and other threads do. They rest on the facts of \<open>root_paths\<close>, which is
  interpreted at the end on the state the kernel boots into.
\<close>

section \<open>The tree alone\<close>

lemma pruned_grown:
  assumes "tr_names T k name = None" and "tr_names T (fst k, j) = (\<lambda>_. None)"
  shows "pruned (grown T k name j) k name j = T"
proof -
  have "tr_names (pruned (grown T k name j) k name j) (f, i) n = tr_names T (f, i) n" for f i n
    using assms by (cases k) (auto simp: pruned_def grown_def)
  then have "tr_names (pruned (grown T k name j) k name j) = tr_names T" by (auto simp: fun_eq_iff)
  then show ?thesis by (intro name_tree.equality) (simp_all add: pruned_def grown_def)
qed

lemma walk_grown:
  assumes "walk T ns x = Some y" and "tr_names T k name = None" and "tr_names T (fst k, j) = (\<lambda>_. None)"
  shows "walk (grown T k name j) ns x = Some y"
  using assms(1)
proof (induction ns arbitrary: x)
  case (Cons n ns)
  let ?T = "grown T k name j"
  have same: "tr_up ?T = tr_up T" "tr_down ?T = tr_down T" by (simp_all add: grown_def)
  then have d: "walk_dir ?T n x = walk_dir T n x" by (simp add: walk_dir_def)
  from Cons.prems obtain i where i: "tr_names T (walk_dir T n x) n = Some i"
    by (auto split: option.splits)
  then have "tr_names ?T (walk_dir T n x) n = Some i"
    using assms(2,3) by (cases "walk_dir T n x"; cases k) (auto simp: grown_def)
  with Cons i d same show ?case by simp
qed simp

section \<open>References\<close>

lemma layer_more:
  assumes "vnodes_ok root_good node_with root_detached s (add_mset v R) G" and "tree_ok root_firm fst root_names s R G T"
    and "mutexes_free root_unlocked s"
  shows "layer_ok s (add_mset v R) G T"
  using assms by (auto simp: layer_ok_def tree_ok_def)

lemma root_world:
  assumes "\<And>k. env_ops E k = rootfs_ops" and "allocates (env_alloc E)"
  shows "root_paths E (\<lambda>_. rootfs_calls E alloc dup place junk) alloc dup place junk"
  by unfold_locales (use assms in simp_all)


context root_paths begin

lemma path_layer:
  assumes "layer_ok s R G T" and "size R < 2 ^ 31 - 2" and "base s R G path in_kernel v"
  shows "case walk T (components (dropWhile (\<lambda>c. c = CHR ''/'') path)) (vkey (vf_vnode s v)) of
      None \<Rightarrow> \<exists>s'. path_to_vnode E C path in_kernel s = Returns ((ENOENT, None), s') \<and> layer_ok s' R G T \<and> vf_fs s' = vf_fs s
    | Some k \<Rightarrow> \<exists>w s'. path_to_vnode E C path in_kernel s = Returns ((0, Some w), s') \<and>
        layer_ok s' (add_mset w R) G T \<and> vf_fs s' = vf_fs s \<and> vkey (vf_vnode s' w) = k"
  using layer_path [OF assms]
  by (auto split: option.splits simp: rp.unchanged_def rp.on_node_def intro!: layer_more)

text \<open>A path and the release of the vnode it led to.\<close>

lemma path_and_back:
  assumes ok: "layer_ok s R G T" and n: "size R < 2 ^ 31 - 2" and v: "base s R G path in_kernel v" and len: "length path \<le> SYS_MAX_PATH_LEN"
    and k: "walk T (components (dropWhile (\<lambda>c. c = CHR ''/'') path)) (vkey (vf_vnode s v)) = Some k"
  shows "\<exists>w s1 s2. vfs_get_vnode_from_path E C path in_kernel s = Returns ((0, Some w), s1) \<and> vkey (vf_vnode s1 w) = k \<and>
           vfs_put_vnode_ptr E w s1 = Returns (0, s2) \<and> layer_ok s2 R G T \<and> keeps {} 0 s R G s2 G \<and> vf_fs s2 = vf_fs s"
proof -
  from layer_path [OF ok n v] k obtain w s1 where s1: "path_to_vnode E C path in_kernel s = Returns ((0, Some w), s1)"
    "rp.on_node s1 R G T w" "rv.idle s1" "rp.unchanged s s1 R" "vkey (vf_vnode s1 w) = k" by auto
  from leave_layer [OF s1(2,3) n] obtain e s2 where s2: "dec_vnode_ref_count E w True False s1 = Returns (e, s2)"
    "layer_ok s2 R G T" "rp.unchanged s1 s2 R" by blast
  have ch: "rp.unchanged s s2 R" by (rule rp.unchanged_trans [OF s1(4) s2(3)])
  have "keeps {} 0 s R G s2 G" by (rule keeps_layer [OF layer_live(1) [OF ok] s2(2) ch])
  moreover have "vfs_get_vnode_from_path E C path in_kernel s = Returns ((0, Some w), s1)"
    using s1(1) len by (simp add: vfs_get_vnode_from_path_def)
  moreover have "vfs_put_vnode_ptr E w s1 = Returns (0, s2)" using s2(1) by (simp add: vfs_put_vnode_ptr_def put_vnode_def)
  ultimately show ?thesis using s1(5) s2(2) ch by (auto simp: rp.unchanged_def)
qed

lemma stands_dot:
  assumes ok: "layer_ok s R G T" and w: "w \<in># R" "rp.stands s G w"
  shows "tr_names T (vkey (vf_vnode s w)) ''.'' \<noteq> None"
proof -
  from ok have c: "rv.vcore s R G" and T: "rp.tree s R G T" by (simp_all add: layer_ok_def)
  have wL: "w \<in> vf_live s" using w(1) rv.vcoreD(7) [OF c] by blast
  from rv.vn_okD(5) [OF rv.vcoreD(6) [OF c wL]] obtain m d where m: "m \<in> vf_mounts s" "vn_mount (vf_vnode s w) = Some m"
    "vn_fsid (vf_vnode s w) = mt_id (vf_mount s m)"
    "node_with (vf_fs s (mt_cookie (vf_mount s m))) (vn_vnid (vf_vnode s w)) = Some d" by blast
  with w(2) rp.treeD(2) [OF T m(1)] show ?thesis
    by (auto simp: vkey_def root_names_def standing_def root_firm_def entry_def)
qed

text \<open>A new directory that is deleted again.\<close>

lemma create_and_unlink:
  assumes ok: "layer_ok s R G T" and n: "size R < 2 ^ 31 - 2" and v: "base s R G (dir_part path) in_kernel v"
    and len: "length (last_component path) < SYS_MAX_NAME_LEN" and mem: "allocates alloc" "dup"
    and ids: "\<forall>m \<in> vf_mounts s. rf_next_vnode_id (vf_fs s (mt_cookie (vf_mount s m))) + 1 < 2 ^ 64"
    and k: "walk T (components (dropWhile (\<lambda>c. c = CHR ''/'') (dir_part path))) (vkey (vf_vnode s v)) = Some k"
    and name: "last_component path \<noteq> ''.''" "last_component path \<noteq> ''..''" and none: "tr_names T k (last_component path) = None"
  shows "\<exists>s1 s2 G'. vfs_create E C path STREAM_TYPE_DIR in_kernel s = Returns (0, s1) \<and>
           vfs_unlink E C path in_kernel s1 = Returns (0, s2) \<and> layer_ok s2 R G' T"
proof -
  let ?name = "last_component path" and ?p = "components (dropWhile (\<lambda>c. c = CHR ''/'') (dir_part path))"
  from create_layer [OF ok n v len mem ids] k none obtain s1 G1 j where s1:
    "vfs_create E C path STREAM_TYPE_DIR in_kernel s = Returns (0, s1)" "layer_ok s1 R G1 (grown T k ?name j)"
    "tr_names T (fst k, j) = (\<lambda>_. None)" "snd k \<noteq> j" "keeps {} 1 s R G s1 G1" by (auto simp: created_def)
  let ?T = "grown T k ?name j"
  have v1: "base s1 R G1 (dir_part path) in_kernel v" and kv: "vkey (vf_vnode s1 v) = vkey (vf_vnode s v)"
    using v s1(5) by (auto simp: base_def keeps_def path_start_def)
  have k1: "walk ?T ?p (vkey (vf_vnode s1 v)) = Some k" using walk_grown [OF k none s1(3)] kv by simp
  have j: "tr_names ?T k ?name = Some j" using s1(4) by (cases k) (simp add: grown_def)
  have e: "no_names ?T (fst k, j)" by (simp add: no_names_def grown_def)
  have pin: "vkey (vf_vnode s1 w) \<noteq> (fst k', j')" if w: "pinned s1 w" and k': "walk ?T ?p (vkey (vf_vnode s1 v)) = Some k'"
    and j': "tr_names ?T k' ?name = Some j'" for w k' j'
  proof -
    from k1 k' j j' have [simp]: "k' = k" "j' = j" by simp_all
    have "pinned s w" using w s1(5) by (simp add: keeps_def)
    with ok have w: "w \<in># R" "rp.stands s G w" using rp.treeD(6,8) [of s R G T] by (auto simp: pinned_def layer_ok_def)
    with stands_dot [OF ok] have "tr_names T (vkey (vf_vnode s w)) ''.'' \<noteq> None" by blast
    moreover have "vkey (vf_vnode s1 w) = vkey (vf_vnode s w)" using s1(5) w(1) by (simp add: keeps_def)
    ultimately show ?thesis using s1(3) by auto
  qed
  from unlink_layer [OF s1(2) n v1 len name pin] k1 j e obtain s2 G2 where
    "vfs_unlink E C path in_kernel s1 = Returns (0, s2)" "layer_ok s2 R G2 (pruned ?T k ?name j)" by (auto simp: unlinked_def)
  with s1(1) pruned_grown [OF none s1(3)] show ?thesis by auto
qed

end

section \<open>The state after the start\<close>

text \<open>The smallest number above a finite set, as the place for a new object.\<close>

definition next_free :: kernel_alloc where
  "next_free L = Some (if L = {} then 0 else Suc (Max L))"

lemma next_free_allocates: "allocates next_free"
  unfolding allocates_def
proof (intro allI impI)
  fix L :: "nat set" assume "finite L"
  then have "L \<noteq> {} \<Longrightarrow> Suc (Max L) \<notin> L" using Max_ge Suc_n_not_le_n by blast
  then show "\<exists>v. next_free L = Some v \<and> v \<notin> L" by (auto simp: next_free_def)
qed

definition boot_env :: "rootfs vfs_env" where
  "boot_env = \<lparr>env_ops = (\<lambda>_. rootfs_ops), env_cache = (\<lambda>c s. Returns s), env_alloc = next_free, env_nap = (\<lambda>s. s)\<rparr>"

definition blank_fs :: rootfs where
  "blank_fs = \<lparr>rf_id = 7, rf_lock = 0, rf_next_vnode_id = 9,
     rf_table = \<lparr>ht_table = (\<lambda>i. None), ht_size = 0, ht_num_elems = 0, ht_compare = None, ht_hash = (\<lambda>a k n. 0)\<rparr>,
     rf_all_next = (\<lambda>_. None), rf_root = 0,
     rf_node = (\<lambda>_. \<lparr>rn_id = 0, rn_name = [], rn_room = 0, rn_parent = None, rn_dir_next = None, rn_dir_head = None, rn_jar_head = None\<rparr>),
     rf_live = {}, rf_cookie = (\<lambda>_. \<lparr>rc_next = None, rc_prev = None, rc_ptr = None, rc_oflags = 0\<rparr>), rf_cookies = {}\<rparr>"

definition boot_calls :: "nat \<Rightarrow> rootfs path_calls" where
  "boot_calls = (\<lambda>_. rootfs_calls boot_env next_free True (\<lambda>_. Some 0) blank_fs)"

interpretation boot: root_paths boot_env boot_calls next_free True "\<lambda>_. Some 0" blank_fs
  by unfold_locales (simp_all add: boot_env_def boot_calls_def next_free_allocates)

definition blank_vnode :: vnode where
  "blank_vnode = \<lparr>vn_mount_prev = None, vn_mount_next = None, vn_cache = None, vn_fsid = 0, vn_vnid = 0,
     vn_priv = None, vn_mount = None, vn_covered_by = None, vn_ref_count = 0, vn_delete_me = False, vn_busy = False\<rparr>"

definition blank_mount :: fs_mount where
  "blank_mount = \<lparr>mt_fs = 0, mt_id = 0, mt_cookie = 0, mt_root = None, mt_covers = None, mt_head = None, mt_tail = None\<rparr>"

definition start_vfs :: "rootfs vfs" where
  "start_vfs = vfs_init (\<lambda>_. blank_fs) (\<lambda>_. blank_vnode) (\<lambda>_. blank_mount) (\<lambda>_. None)"

definition boot_mount :: "(int \<times> rootfs vfs) outcome" where
  "boot_mount = vfs_mount boot_env boot_calls [''rootfs''] True blank_mount ''/'' ''rootfs'' True start_vfs"

lemma booted:
  "\<exists>s r G. boot_mount = Returns (0, s) \<and> layer_ok s {#r#} G boot_tree \<and> vkey (vf_vnode s r) = (0, 0) \<and>
     (\<forall>path. path \<noteq> [] \<longrightarrow> hd path = CHR ''/'' \<longrightarrow> base s {#r#} G path True r) \<and>
     (\<forall>m \<in> vf_mounts s. rf_next_vnode_id (vf_fs s (mt_cookie (vf_mount s m))) + 1 < 2 ^ 64) \<and> (\<forall>w. \<not> pinned s w)"
proof -
  have "find_fs [''rootfs''] ''rootfs'' = Some 0" "rf_live blank_fs = {}"
    by (simp_all add: blank_fs_def)
  from boot.mount_root [OF this(1) next_free_allocates TrueI refl this(2)] obtain s r G where
    s: "boot_mount = Returns (0, s)" "layer_ok s {#r#} G boot_tree" "vf_root s = Some r" "vkey (vf_vnode s r) = (0, 0)"
      "standing root_firm s G r" "\<forall>m \<in> vf_mounts s. rf_next_vnode_id (vf_fs s (mt_cookie (vf_mount s m))) = 1"
      "\<forall>w. \<not> pinned s w"
    unfolding boot_mount_def start_vfs_def by blast
  from s(3,5) have "\<forall>path. path \<noteq> [] \<longrightarrow> hd path = CHR ''/'' \<longrightarrow> base s {#r#} G path True r" by (simp add: base_def path_start_def)
  with s show ?thesis by (intro exI [of _ s] exI [of _ r] exI [of _ G]) simp
qed

section \<open>Properties\<close>

text \<open>
  (C5) Following a path. \<open>path_to_vnode\<close> ends at the file that \<open>walk\<close> finds in the tree of names,
  component by component, up from the root of a mount and down into a mount that covers a
  directory; it returns the vnode of that file with one reference more for the caller. If a name
  is missing it returns \<open>ENOENT\<close>. No other reference is gained or lost on the way and the file
  systems are not changed, whichever vnodes were created and deleted while it went along.
\<close>
theorem path_to_vnode_correct:
  assumes "\<And>k. env_ops E k = rootfs_ops" and "allocates (env_alloc E)"
    and "layer_ok s R G T" and "size R < 2 ^ 31 - 2" and "base s R G path in_kernel v"
  shows "case walk T (components (dropWhile (\<lambda>c. c = CHR ''/'') path)) (vkey (vf_vnode s v)) of
      None \<Rightarrow> \<exists>s'. path_to_vnode E (\<lambda>_. rootfs_calls E alloc dup place junk) path in_kernel s = Returns ((ENOENT, None), s') \<and>
                layer_ok s' R G T \<and> vf_fs s' = vf_fs s
    | Some k \<Rightarrow> \<exists>w s'. path_to_vnode E (\<lambda>_. rootfs_calls E alloc dup place junk) path in_kernel s = Returns ((0, Some w), s') \<and>
                layer_ok s' (add_mset w R) G T \<and> vf_fs s' = vf_fs s \<and> vkey (vf_vnode s' w) = k"
  by (rule root_paths.path_layer [OF root_world [OF assms(1,2)] assms(3-5)])

lemma boot_walks:
  "walk boot_tree (components (dropWhile (\<lambda>c. c = CHR ''/'') ''//./..'')) (0, 0) = Some (0, 0)"
  "walk boot_tree (components (dropWhile (\<lambda>c. c = CHR ''/'') (dir_part ''/foo''))) (0, 0) = Some (0, 0)"
  "last_component ''/foo'' = ''foo''"
  by (simp_all add: components.simps next_component_def boot_tree_def walk_dir_def dir_part_def last_component_def)

theorem path_to_vnode_correct_witness:
  "\<exists>s w s'. boot_mount = Returns (0, s) \<and> path_to_vnode boot_env boot_calls ''//./..'' True s = Returns ((0, Some w), s') \<and>
     vkey (vf_vnode s' w) = (0, 0)"
proof -
  from booted obtain s r G where s: "boot_mount = Returns (0, s)" "layer_ok s {#r#} G boot_tree" "vkey (vf_vnode s r) = (0, 0)"
    "\<forall>path. path \<noteq> [] \<longrightarrow> hd path = CHR ''/'' \<longrightarrow> base s {#r#} G path True r" by blast
  have b: "base s {#r#} G ''//./..'' True r" using s(4) by simp
  have n: "size {#r#} < 2 ^ 31 - 2" by simp
  from path_to_vnode_correct [OF boot.ops boot.memory s(2) n b, of next_free True "\<lambda>_. Some 0" blank_fs] boot_walks(1) s(1,3)
  show ?thesis by (auto simp: boot_calls_def)
qed

text \<open>
  (C36) A path and back. A file that the tree of names has is found by \<open>vfs_get_vnode_from_path\<close>;
  when the vnode is given back with \<open>vfs_put_vnode_ptr\<close>, exactly the references from before are
  left, the same vnodes hold them, and the file systems are as they were: vnodes that only the
  path needed are gone again.
\<close>
theorem get_put_balanced:
  assumes "\<And>k. env_ops E k = rootfs_ops" and "allocates (env_alloc E)"
    and "layer_ok s R G T" and "size R < 2 ^ 31 - 2" and "base s R G path in_kernel v" and "length path \<le> SYS_MAX_PATH_LEN"
    and "walk T (components (dropWhile (\<lambda>c. c = CHR ''/'') path)) (vkey (vf_vnode s v)) = Some k"
  shows "\<exists>w s1 s2. vfs_get_vnode_from_path E (\<lambda>_. rootfs_calls E alloc dup place junk) path in_kernel s = Returns ((0, Some w), s1) \<and>
           vkey (vf_vnode s1 w) = k \<and> vfs_put_vnode_ptr E w s1 = Returns (0, s2) \<and>
           layer_ok s2 R G T \<and> keeps {} 0 s R G s2 G \<and> vf_fs s2 = vf_fs s"
  by (rule root_paths.path_and_back [OF root_world [OF assms(1,2)] assms(3-7)])

theorem get_put_balanced_witness:
  "\<exists>s w s1 s2 r G. boot_mount = Returns (0, s) \<and>
     vfs_get_vnode_from_path boot_env boot_calls ''//./..'' True s = Returns ((0, Some w), s1) \<and>
     vfs_put_vnode_ptr boot_env w s1 = Returns (0, s2) \<and> layer_ok s2 {#r#} G boot_tree"
proof -
  from booted obtain s r G where s: "boot_mount = Returns (0, s)" "layer_ok s {#r#} G boot_tree" "vkey (vf_vnode s r) = (0, 0)"
    "\<forall>path. path \<noteq> [] \<longrightarrow> hd path = CHR ''/'' \<longrightarrow> base s {#r#} G path True r" by blast
  have b: "base s {#r#} G ''//./..'' True r" using s(4) by simp
  have n: "size {#r#} < 2 ^ 31 - 2" and l: "length ''//./..'' \<le> SYS_MAX_PATH_LEN" by (simp_all add: SYS_MAX_PATH_LEN_def)
  have k: "walk boot_tree (components (dropWhile (\<lambda>c. c = CHR ''/'') ''//./..'')) (vkey (vf_vnode s r)) = Some (0, 0)"
    using boot_walks(1) s(3) by simp
  from get_put_balanced [OF boot.ops boot.memory s(2) n b l k, of next_free True "\<lambda>_. Some 0" blank_fs] s(1)
  show ?thesis unfolding boot_calls_def by blast
qed

text \<open>
  (C6) Creating a directory, as a change of the tree. \<open>vfs_create\<close> finds the directory that the
  path has before its last component. If the name is free there, the call returns \<open>0\<close> and the
  tree has exactly that name more, for a new number whose directory is empty and has the other as
  its parent; if it is taken, the call returns \<open>EEXIST\<close>, if there is no such directory
  \<open>ENOENT\<close>, and the tree is as before. The references are the same in every case.
\<close>
theorem vfs_create_correct:
  assumes "\<And>k. env_ops E k = rootfs_ops" and "allocates (env_alloc E)" and "allocates alloc"
    and "layer_ok s R G T" and "size R < 2 ^ 31 - 2" and "base s R G (dir_part path) in_kernel v"
    and "length (last_component path) < SYS_MAX_NAME_LEN"
    and "\<forall>m \<in> vf_mounts s. rf_next_vnode_id (vf_fs s (mt_cookie (vf_mount s m))) + 1 < 2 ^ 64"
  shows "case walk T (components (dropWhile (\<lambda>c. c = CHR ''/'') (dir_part path))) (vkey (vf_vnode s v)) of
      None \<Rightarrow> \<exists>s'. vfs_create E (\<lambda>_. rootfs_calls E alloc True place junk) path STREAM_TYPE_DIR in_kernel s = Returns (ENOENT, s') \<and>
                layer_ok s' R G T \<and> keeps {} 0 s R G s' G
    | Some k \<Rightarrow> created s R G T k (last_component path)
                (vfs_create E (\<lambda>_. rootfs_calls E alloc True place junk) path STREAM_TYPE_DIR in_kernel s)"
  by (rule root_paths.create_layer [OF root_world [OF assms(1,2)] assms(4-7) assms(3) TrueI assms(8)])

theorem vfs_create_correct_witness:
  "\<exists>s s' r G j. boot_mount = Returns (0, s) \<and> vfs_create boot_env boot_calls ''/foo'' STREAM_TYPE_DIR True s = Returns (0, s') \<and>
     layer_ok s' {#r#} G (grown boot_tree (0, 0) ''foo'' j)"
proof -
  from booted obtain s r G where s: "boot_mount = Returns (0, s)" "layer_ok s {#r#} G boot_tree" "vkey (vf_vnode s r) = (0, 0)"
    "\<forall>path. path \<noteq> [] \<longrightarrow> hd path = CHR ''/'' \<longrightarrow> base s {#r#} G path True r"
    and ids: "\<forall>m \<in> vf_mounts s. rf_next_vnode_id (vf_fs s (mt_cookie (vf_mount s m))) + 1 < 2 ^ 64" by blast
  have b: "base s {#r#} G (dir_part ''/foo'') True r" using s(4) by (simp add: dir_part_def last_component_def)
  have n: "size {#r#} < 2 ^ 31 - 2" and l: "length (last_component ''/foo'') < SYS_MAX_NAME_LEN"
    by (simp_all add: SYS_MAX_NAME_LEN_def last_component_def)
  have "tr_names boot_tree (0, 0) ''foo'' = None" by (simp add: boot_tree_def)
  with vfs_create_correct [OF boot.ops boot.memory next_free_allocates s(2) n b l ids, of "\<lambda>_. Some 0" blank_fs] boot_walks(2,3) s(3)
  obtain s' G' j where "vfs_create boot_env boot_calls ''/foo'' STREAM_TYPE_DIR True s = Returns (0, s')"
    "layer_ok s' {#r#} G' (grown boot_tree (0, 0) ''foo'' j)"
    unfolding boot_calls_def by (auto simp: created_def)
  with s(1) show ?thesis by blast
qed

text \<open>
  (C34) Deleting a directory by a name other than \<open>''.''\<close> and \<open>''..''\<close> that no mount needs (it is
  neither covered by one nor the root of one that covers another), as a change of the tree.
  \<open>vfs_unlink\<close> takes away exactly the name it is given if the directory behind it has no entries,
  refuses with \<open>ERR_VFS_DIR_NOT_EMPTY\<close> if it has, with \<open>ERR_VFS_PATH_NOT_FOUND\<close> if there is no such
  name, and with \<open>ENOENT\<close> if there is no such directory to look in. The vnodes that are held
  stay valid and the references are the same. The code checks neither for the dots nor for the
  mounts, so these are hypotheses; with a dot it answers \<open>0\<close> and leaves the name where it is.
\<close>
theorem vfs_unlink_correct:
  assumes "\<And>k. env_ops E k = rootfs_ops" and "allocates (env_alloc E)"
    and "layer_ok s R G T" and "size R < 2 ^ 31 - 2" and "base s R G (dir_part path) in_kernel v"
    and "length (last_component path) < SYS_MAX_NAME_LEN" and "last_component path \<noteq> ''.''" and "last_component path \<noteq> ''..''"
    and "\<And>w k j. pinned s w \<Longrightarrow>
       walk T (components (dropWhile (\<lambda>c. c = CHR ''/'') (dir_part path))) (vkey (vf_vnode s v)) = Some k \<Longrightarrow>
       tr_names T k (last_component path) = Some j \<Longrightarrow> vkey (vf_vnode s w) \<noteq> (fst k, j)"
  shows "case walk T (components (dropWhile (\<lambda>c. c = CHR ''/'') (dir_part path))) (vkey (vf_vnode s v)) of
      None \<Rightarrow> \<exists>s'. vfs_unlink E (\<lambda>_. rootfs_calls E alloc dup place junk) path in_kernel s = Returns (ENOENT, s') \<and> layer_ok s' R G T \<and> keeps {} 0 s R G s' G
    | Some k \<Rightarrow> unlinked s R G T k (last_component path)
                (vfs_unlink E (\<lambda>_. rootfs_calls E alloc dup place junk) path in_kernel s)"
  by (rule root_paths.unlink_layer [OF root_world [OF assms(1,2)] assms(3-9)])

text \<open>After the first mount and the creation of \<open>/foo\<close>.\<close>

lemma booted_foo:
  "\<exists>s s1 r G j. boot_mount = Returns (0, s) \<and> vfs_create boot_env boot_calls ''/foo'' STREAM_TYPE_DIR True s = Returns (0, s1) \<and>
     layer_ok s1 {#r#} G (grown boot_tree (0, 0) ''foo'' j) \<and> vkey (vf_vnode s1 r) = (0, 0) \<and> j \<noteq> 0 \<and>
     base s1 {#r#} G (dir_part ''/foo'') True r \<and> (\<forall>w. \<not> pinned s1 w)"
proof -
  from booted obtain s r G where s: "boot_mount = Returns (0, s)" "layer_ok s {#r#} G boot_tree" "vkey (vf_vnode s r) = (0, 0)"
    "\<forall>path. path \<noteq> [] \<longrightarrow> hd path = CHR ''/'' \<longrightarrow> base s {#r#} G path True r"
    and ids: "\<forall>m \<in> vf_mounts s. rf_next_vnode_id (vf_fs s (mt_cookie (vf_mount s m))) + 1 < 2 ^ 64"
    and pin: "\<forall>w. \<not> pinned s w" by blast
  have b: "base s {#r#} G (dir_part ''/foo'') True r" using s(4) by (simp add: dir_part_def last_component_def)
  have n: "size {#r#} < 2 ^ 31 - 2" and l: "length (last_component ''/foo'') < SYS_MAX_NAME_LEN"
    by (simp_all add: SYS_MAX_NAME_LEN_def last_component_def)
  have "tr_names boot_tree (0, 0) ''foo'' = None" by (simp add: boot_tree_def)
  with boot.create_layer [OF s(2) n b l next_free_allocates TrueI ids] boot_walks(2,3) s(3) obtain s1 G1 j where
    s1: "vfs_create boot_env boot_calls ''/foo'' STREAM_TYPE_DIR True s = Returns (0, s1)"
      "layer_ok s1 {#r#} G1 (grown boot_tree (0, 0) ''foo'' j)" "0 \<noteq> j" "keeps {} 1 s {#r#} G s1 G1"
    by (auto simp: created_def)
  have "base s1 {#r#} G1 (dir_part ''/foo'') True r" "vkey (vf_vnode s1 r) = (0, 0)" "\<forall>w. \<not> pinned s1 w"
    using b s(3) pin s1(4) by (auto simp: base_def keeps_def path_start_def)
  with s(1) s1(1,2) s1(3) [symmetric] show ?thesis by blast
qed

theorem vfs_unlink_correct_witness:
  "\<exists>s s1 s2 r G. boot_mount = Returns (0, s) \<and> vfs_create boot_env boot_calls ''/foo'' STREAM_TYPE_DIR True s = Returns (0, s1) \<and>
     vfs_unlink boot_env boot_calls ''/foo'' True s1 = Returns (0, s2) \<and> layer_ok s2 {#r#} G boot_tree"
proof -
  from booted_foo obtain s s1 r G j where s: "boot_mount = Returns (0, s)"
      "vfs_create boot_env boot_calls ''/foo'' STREAM_TYPE_DIR True s = Returns (0, s1)"
    and ok: "layer_ok s1 {#r#} G (grown boot_tree (0, 0) ''foo'' j)" and key: "vkey (vf_vnode s1 r) = (0, 0)" and j: "j \<noteq> 0"
    and b: "base s1 {#r#} G (dir_part ''/foo'') True r" and np: "\<forall>w. \<not> pinned s1 w" by blast
  let ?T = "grown boot_tree (0, 0) ''foo'' j"
  have n: "size {#r#} < 2 ^ 31 - 2" and l: "length (last_component ''/foo'') < SYS_MAX_NAME_LEN"
    by (simp_all add: SYS_MAX_NAME_LEN_def last_component_def)
  have none: "tr_names boot_tree (0, 0) ''foo'' = None" and new: "tr_names boot_tree (fst (0 :: nat, 0 :: nat), j) = (\<lambda>_. None)"
    using j by (auto simp: boot_tree_def)
  have walk: "walk ?T (components (dropWhile (\<lambda>c. c = CHR ''/'') (dir_part ''/foo''))) (vkey (vf_vnode s1 r)) = Some (0, 0)"
    using walk_grown [OF boot_walks(2) none new] key by simp
  have here: "tr_names ?T (0, 0) ''foo'' = Some j" "no_names ?T (fst (0 :: nat, 0 :: nat), j)"
    using j by (auto simp: grown_def no_names_def)
  have pin: "vkey (vf_vnode s1 w) \<noteq> (fst k, i)" if "pinned s1 w" for w k i using that np by blast
  have name: "last_component ''/foo'' \<noteq> ''.''" "last_component ''/foo'' \<noteq> ''..''" by (simp_all add: boot_walks)
  from vfs_unlink_correct [OF boot.ops boot.memory ok n b l name pin, of next_free True "\<lambda>_. Some 0" blank_fs] walk here boot_walks(3)
  obtain s2 G2 where "vfs_unlink boot_env boot_calls ''/foo'' True s1 = Returns (0, s2)"
    "layer_ok s2 {#r#} G2 (pruned ?T (0, 0) ''foo'' j)"
    unfolding boot_calls_def by (auto simp: unlinked_def)
  with s show ?thesis unfolding pruned_grown [OF none new] by blast
qed

text \<open>
  (C35) A directory that is created and deleted again. After \<open>vfs_create\<close> with a free name and
  \<open>vfs_unlink\<close> of the same path both return \<open>0\<close> and the tree of names and all references are
  what they were before, from any state the layer can be in.
\<close>
theorem create_unlink_roundtrip:
  assumes "\<And>k. env_ops E k = rootfs_ops" and "allocates (env_alloc E)" and "allocates alloc"
    and "layer_ok s R G T" and "size R < 2 ^ 31 - 2" and "base s R G (dir_part path) in_kernel v"
    and "length (last_component path) < SYS_MAX_NAME_LEN"
    and "\<forall>m \<in> vf_mounts s. rf_next_vnode_id (vf_fs s (mt_cookie (vf_mount s m))) + 1 < 2 ^ 64"
    and "walk T (components (dropWhile (\<lambda>c. c = CHR ''/'') (dir_part path))) (vkey (vf_vnode s v)) = Some k"
    and "last_component path \<noteq> ''.''" and "last_component path \<noteq> ''..''" and "tr_names T k (last_component path) = None"
  shows "\<exists>s1 s2 G'. vfs_create E (\<lambda>_. rootfs_calls E alloc True place junk) path STREAM_TYPE_DIR in_kernel s = Returns (0, s1) \<and>
           vfs_unlink E (\<lambda>_. rootfs_calls E alloc True place junk) path in_kernel s1 = Returns (0, s2) \<and> layer_ok s2 R G' T"
  by (rule root_paths.create_and_unlink [OF root_world [OF assms(1,2)] assms(4-7) assms(3) TrueI assms(8-12)])

theorem create_unlink_roundtrip_witness:
  "\<exists>s s1 s2 r G'. boot_mount = Returns (0, s) \<and> vfs_create boot_env boot_calls ''/foo'' STREAM_TYPE_DIR True s = Returns (0, s1) \<and>
     vfs_unlink boot_env boot_calls ''/foo'' True s1 = Returns (0, s2) \<and> layer_ok s2 {#r#} G' boot_tree"
proof -
  from booted obtain s r G where s: "boot_mount = Returns (0, s)" "layer_ok s {#r#} G boot_tree" "vkey (vf_vnode s r) = (0, 0)"
    "\<forall>path. path \<noteq> [] \<longrightarrow> hd path = CHR ''/'' \<longrightarrow> base s {#r#} G path True r"
    and ids: "\<forall>m \<in> vf_mounts s. rf_next_vnode_id (vf_fs s (mt_cookie (vf_mount s m))) + 1 < 2 ^ 64" by blast
  have b: "base s {#r#} G (dir_part ''/foo'') True r" using s(4) by (simp add: dir_part_def last_component_def)
  have n: "size {#r#} < 2 ^ 31 - 2" and l: "length (last_component ''/foo'') < SYS_MAX_NAME_LEN"
    by (simp_all add: SYS_MAX_NAME_LEN_def last_component_def)
  have k: "walk boot_tree (components (dropWhile (\<lambda>c. c = CHR ''/'') (dir_part ''/foo''))) (vkey (vf_vnode s r)) = Some (0, 0)"
    using boot_walks(2) s(3) by simp
  have name: "last_component ''/foo'' \<noteq> ''.''" "last_component ''/foo'' \<noteq> ''..''" "tr_names boot_tree (0, 0) (last_component ''/foo'') = None"
    by (simp_all add: boot_walks boot_tree_def)
  from create_unlink_roundtrip [OF boot.ops boot.memory next_free_allocates s(2) n b l ids k name, of "\<lambda>_. Some 0" blank_fs] s(1)
  show ?thesis unfolding boot_calls_def by blast
qed

text \<open>
  (C37) The first mount. On the empty layer \<open>vfs_init\<close> leaves, \<open>vfs_mount\<close> of a root file system on
  \<open>''/''\<close> succeeds and gives a layer in order: one vnode, the root, with the one reference of its
  mount, and a tree whose only directory is its own parent. What was in the memory of the new
  mount before does not matter for this.
\<close>
theorem mount_root_correct:
  assumes "\<And>k. env_ops E k = rootfs_ops" and "allocates (env_alloc E)" and "allocates alloc"
    and "find_fs reg fs_name = Some k" and "\<And>s. place s = Some c" and "rf_live junk = {}"
  shows "\<exists>s r G. vfs_mount E (\<lambda>_. rootfs_calls E alloc True place junk) reg True mjunk ''/'' fs_name in_kernel
             (vfs_init fs vmem mmem nx) = Returns (0, s) \<and>
           layer_ok s {#r#} G boot_tree \<and> vf_root s = Some r \<and> vf_cwd s = (\<lambda>_. None) \<and> vkey (vf_vnode s r) = (0, 0) \<and>
           standing root_firm s G r \<and> (\<forall>w. \<not> pinned s w) \<and>
           (\<forall>m \<in> vf_mounts s. rf_next_vnode_id (vf_fs s (mt_cookie (vf_mount s m))) = 1)"
  by (rule root_paths.mount_root [OF root_world [OF assms(1,2)] assms(4) assms(3) TrueI assms(5,6)])

theorem mount_root_correct_witness:
  "\<exists>s r G. vfs_mount boot_env boot_calls [''devfs'', ''rootfs''] True blank_mount ''/'' ''rootfs'' False start_vfs = Returns (0, s) \<and>
     layer_ok s {#r#} G boot_tree"
proof -
  have "find_fs [''devfs'', ''rootfs''] ''rootfs'' = Some 1" "rf_live blank_fs = {}" by (simp_all add: blank_fs_def)
  from mount_root_correct [OF boot.ops boot.memory next_free_allocates this(1) refl this(2)] show ?thesis
    unfolding boot_calls_def start_vfs_def by blast
qed

section \<open>What goes wrong\<close>

text \<open>
  (C39) The list of a mount's vnodes loses vnodes. \<open>add_vnode_to_mount_list\<close> does not tell the old
  head about the new one, so taking out the older of two vnodes takes both off the list: the
  test of \<open>vfs_unmount\<close> for vnodes in use then passes whatever references the newer vnode has.
\<close>
theorem mount_list_loses_vnode:
  assumes "v1 \<noteq> v2" and "mt_head (vf_mount s m) = None"
  shows "let s' = remove_vnode_from_mount_list v1 m (add_vnode_to_mount_list v2 m (add_vnode_to_mount_list v1 m s)) in
    looped_outcome (any_in_use (mt_head (vf_mount s' m)) s') = Returns False \<and>
    vn_ref_count (vf_vnode s' v2) = vn_ref_count (vf_vnode s v2) \<and> vf_live s' = vf_live s"
proof -
  let ?s = "remove_vnode_from_mount_list v1 m (add_vnode_to_mount_list v2 m (add_vnode_to_mount_list v1 m s))"
  have "mt_head (vf_mount ?s m) = None"
    using assms by (simp add: remove_vnode_from_mount_list_def add_vnode_to_mount_list_def Let_def)
  moreover have "any_in_use None t = Some (Returns False)" for t :: "'a vfs" by (simp add: any_in_use.simps)
  moreover have "vn_ref_count (vf_vnode ?s v2) = vn_ref_count (vf_vnode s v2)" "vf_live ?s = vf_live s"
    using lists_only_remove [of "add_vnode_to_mount_list v2 m (add_vnode_to_mount_list v1 m s)" v1 m]
      lists_only_add [of "add_vnode_to_mount_list v1 m s" v2 m] lists_only_add [of s v1 m]
    by (simp_all add: lists_only_def)
  ultimately show ?thesis by (simp add: Let_def looped_outcome_def)
qed

theorem mount_list_loses_vnode_witness:
  "let s = set_vnode 2 (\<lambda>r. r\<lparr>vn_ref_count := 5\<rparr>) start_vfs;
       s' = remove_vnode_from_mount_list 1 0 (add_vnode_to_mount_list 2 0 (add_vnode_to_mount_list 1 0 s)) in
    looped_outcome (any_in_use (mt_head (vf_mount s' 0)) s') = Returns False \<and> vn_ref_count (vf_vnode s' 2) = 5"
proof -
  have "mt_head (vf_mount (set_vnode 2 (\<lambda>r. r\<lparr>vn_ref_count := 5\<rparr>) start_vfs) 0) = None"
    by (simp add: start_vfs_def vfs_init_def blank_mount_def)
  from mount_list_loses_vnode [of 1 2, OF _ this] show ?thesis by (simp add: Let_def)
qed

text \<open>
  A busy vnode. \<open>get_vnode\<close> sleeps when it finds a vnode busy, but its \<open>continue\<close> leaves the
  loop instead of looking again: if the vnode is freed meanwhile, its reference counter is
  changed in freed memory.
\<close>
theorem get_vnode_uses_freed_vnode:
  assumes "lookup_vnode fsid vnid s = Returns (Some v)" and "vn_busy (vf_vnode s v)" and "v \<notin> vf_live (env_nap E s)"
  shows "get_vnode E fsid vnid r s = Faults"
  using assms by (simp add: get_vnode_def inc_vnode_ref_count_def)

text \<open>A table with one busy vnode.\<close>

definition busy_vfs :: "rootfs vfs" where
  "busy_vfs = set_vnode 4 (\<lambda>r. r\<lparr>vn_busy := True\<rparr>) (start_vfs\<lparr>vf_live := {4}\<rparr>)"

lemma busy_found: "lookup_vnode 0 0 (set_vnode_table (snd (hash_insert 4 (vnode_table busy_vfs))) busy_vfs) = Returns (Some 4)"
proof -
  have "vnode_table busy_vfs = (\<lparr>ht_table = (\<lambda>i. None), ht_size = 1024, ht_num_elems = 0, ht_compare = Some (vnode_compare (vf_vnode busy_vfs)),
      ht_hash = vnode_hash (vf_vnode busy_vfs)\<rparr>, vf_next busy_vfs)"
    by (simp add: vnode_table_def busy_vfs_def start_vfs_def vfs_init_def VNODE_HASH_TABLE_SIZE_def)
  then have "vindexed busy_vfs {}" by (simp only: vindexed_def vnodes.indexes_empty)
  from vindexed_insert [OF this, of 4] show ?thesis
    by (intro lookup_vnode_found [of _ "{4}"]) (simp_all add: vkey_def busy_vfs_def start_vfs_def vfs_init_def blank_vnode_def)
qed

theorem get_vnode_uses_freed_vnode_witness:
  "get_vnode (boot_env\<lparr>env_nap := (\<lambda>s. s\<lparr>vf_live := {}\<rparr>)\<rparr>) 0 0 False
     (set_vnode_table (snd (hash_insert 4 (vnode_table busy_vfs))) busy_vfs) = Faults"
  by (rule get_vnode_uses_freed_vnode [OF busy_found]) (simp_all add: busy_vfs_def)

text \<open>
  (C40) Unlinking a dot. \<open>rootfs_unlink\<close> of \<open>''.''\<close> in an empty directory returns \<open>0\<close>: the
  directory is not an entry of itself, so it stays where it is, but its vnode is marked for
  deletion and the node its parent still lists is freed with the last reference.
\<close>
theorem unlink_dot_marks_directory:
  assumes "rootfs_ok (vf_fs s c) kids" and "rf_lock (vf_fs s c) = 0" and "d \<in> rf_live (vf_fs s c)" and "kids d = []"
    and "lookup_vnode (rf_id (vf_fs s c)) (rn_id (rf_node (vf_fs s c) d)) s = Returns (Some v)"
  shows "rootfs_unlink c d ''.'' s = Returns (0, set_vnode v (\<lambda>r. r\<lparr>vn_delete_me := True\<rparr>) s)"
proof -
  let ?fs = "vf_fs s c"
  have hd: "rn_dir_head (rf_node ?fs d) = None"
    using dirs_okD(1) [OF rootfs_okD(2) [OF assms(1)] assms(3)] assms(4) by simp
  have rem: "rootfs_remove_from_dir d d (?fs\<lparr>rf_lock := 1\<rparr>) = Returns (- 1, ?fs\<lparr>rf_lock := 1\<rparr>)"
    using hd assms(3) by (simp add: rootfs_remove_from_dir_def unlink_entry.simps looped_outcome_def)
  have look: "lookup_vnode f i (set_fs c g s) = lookup_vnode f i s" for f i g
    by (simp add: lookup_vnode_def vnode_table_def)
  have "vfs_remove_vnode (rf_id ?fs) (rn_id (rf_node ?fs d)) (set_fs c (?fs\<lparr>rf_lock := 1\<rparr>) s) =
      Returns (0, set_vnode v (\<lambda>r. r\<lparr>vn_delete_me := True\<rparr>) (set_fs c (?fs\<lparr>rf_lock := 1\<rparr>) s))"
    using assms(5) by (simp add: vfs_remove_vnode_def look)
  moreover have "fs_unlock_at c (set_vnode v (\<lambda>r. r\<lparr>vn_delete_me := True\<rparr>) (set_fs c (?fs\<lparr>rf_lock := 1\<rparr>) s)) =
      set_vnode v (\<lambda>r. r\<lparr>vn_delete_me := True\<rparr>) s"
    using fs_unlock_back [OF assms(2)] by (simp add: fs_unlock_at_def set_fs_def set_vnode_def)
  ultimately show ?thesis
    using fs_lock_free [OF assms(2)] rem assms(3) hd
    by (simp add: rootfs_unlink_def rootfs_find_in_dir_def rootfs_is_dir_empty_def)
qed

theorem unlink_dot_marks_directory_witness:
  "\<exists>fs d. d \<in> rf_live fs \<and>
     (let s = set_fs 0 fs (set_vnode_table (snd (hash_insert 4 (vnode_table busy_vfs))) busy_vfs) in
      rootfs_unlink 0 d ''.'' s = Returns (0, set_vnode 4 (\<lambda>r. r\<lparr>vn_delete_me := True\<rparr>) s))"
proof -
  have "next_free {} = Some 0" "rf_live blank_fs = {}" by (simp_all add: next_free_def blank_fs_def)
  from rootfs_mount_spec [of next_free 0 blank_fs 0, OF this] obtain fs where fs: "rootfs_ok fs (\<lambda>_. [])" "rf_id fs = 0" "rf_lock fs = 0"
    "rf_live fs = {0}" "rn_id (rf_node fs 0) = 0" by blast
  let ?s = "set_fs 0 fs (set_vnode_table (snd (hash_insert 4 (vnode_table busy_vfs))) busy_vfs)"
  have "lookup_vnode (rf_id (vf_fs ?s 0)) (rn_id (rf_node (vf_fs ?s 0) 0)) ?s = Returns (Some 4)"
    using busy_found fs by (simp add: lookup_vnode_def vnode_table_def)
  from unlink_dot_marks_directory [of ?s 0 "\<lambda>_. []" 0 4, OF _ _ _ _ this] fs
  show ?thesis by (intro exI [of _ fs] exI [of _ 0]) (simp add: Let_def)
qed

section \<open>The root file system alone\<close>






end
