(* ===== verification/Vfs_Calls.thy ===== *)
theory Vfs_Calls
  imports Vfs_Main
begin

text \<open>
  Sequences of calls on paths, from the first mount on, against a specification that knows only
  the tree of names: what each call answers and how it changes the tree does not depend on
  vnodes, references, hash tables or the memory of the root file system.
\<close>

section \<open>The calls\<close>

datatype path_call = Create string | Unlink string | Visit string

text \<open>\<open>Visit\<close> takes a reference to the file of a path and puts it back.\<close>

definition path_call :: "'f vfs_env \<Rightarrow> (nat \<Rightarrow> 'f path_calls) \<Rightarrow> bool \<Rightarrow> path_call \<Rightarrow> 'f vfs \<Rightarrow> (int \<times> 'f vfs) outcome" where
  "path_call E C in_kernel c s =
     (case c of
        Create p \<Rightarrow> vfs_create E C p STREAM_TYPE_DIR in_kernel s
      | Unlink p \<Rightarrow> vfs_unlink E C p in_kernel s
      | Visit p \<Rightarrow>
          obind (vfs_get_vnode_from_path E C p in_kernel s) (\<lambda>((err, v), s1).
            case v of None \<Rightarrow> Returns (err, s1) | Some w \<Rightarrow> vfs_put_vnode_ptr E w s1))"

fun path_calls_run :: "'f vfs_env \<Rightarrow> (nat \<Rightarrow> 'f path_calls) \<Rightarrow> bool \<Rightarrow> path_call list \<Rightarrow> 'f vfs \<Rightarrow> (int list \<times> 'f vfs) outcome" where
  "path_calls_run E C in_kernel [] s = Returns ([], s)"
| "path_calls_run E C in_kernel (c # cs) s =
     obind (path_call E C in_kernel c s) (\<lambda>(rc, s1).
     obind (path_calls_run E C in_kernel cs s1) (\<lambda>(rcs, s2). Returns (rc # rcs, s2)))"

text \<open>
  The paths the code is made for: absolute, no longer than its buffers, and no dot as the name
  of a directory to delete.
\<close>

fun call_ok :: "path_call \<Rightarrow> bool" where
  "call_ok (Create p) \<longleftrightarrow> p \<noteq> [] \<and> hd p = CHR ''/'' \<and> length (last_component p) < SYS_MAX_NAME_LEN"
| "call_ok (Unlink p) \<longleftrightarrow> p \<noteq> [] \<and> hd p = CHR ''/'' \<and> length (last_component p) < SYS_MAX_NAME_LEN \<and>
     last_component p \<noteq> ''.'' \<and> last_component p \<noteq> ''..''"
| "call_ok (Visit p) \<longleftrightarrow> p \<noteq> [] \<and> hd p = CHR ''/'' \<and> length p \<le> SYS_MAX_PATH_LEN"

section \<open>The specification\<close>

definition file_at :: "name_tree \<Rightarrow> string \<Rightarrow> (nat \<times> nat) option" where
  "file_at T p = walk T (components (dropWhile (\<lambda>c. c = CHR ''/'') p)) (0, 0)"

inductive tree_step :: "name_tree \<Rightarrow> path_call \<Rightarrow> int \<Rightarrow> name_tree \<Rightarrow> bool" where
  create_lost: "file_at T (dir_part p) = None \<Longrightarrow> tree_step T (Create p) ENOENT T"
| create_taken: "file_at T (dir_part p) = Some k \<Longrightarrow> tr_names T k (last_component p) \<noteq> None \<Longrightarrow> tree_step T (Create p) EEXIST T"
| create_new: "file_at T (dir_part p) = Some k \<Longrightarrow> tr_names T k (last_component p) = None \<Longrightarrow>
    tr_names T (fst k, j) = (\<lambda>_. None) \<Longrightarrow> tree_step T (Create p) 0 (grown T k (last_component p) j)"
| unlink_lost: "file_at T (dir_part p) = None \<Longrightarrow> tree_step T (Unlink p) ENOENT T"
| unlink_missing: "file_at T (dir_part p) = Some k \<Longrightarrow> tr_names T k (last_component p) = None \<Longrightarrow>
    tree_step T (Unlink p) ERR_VFS_PATH_NOT_FOUND T"
| unlink_full: "file_at T (dir_part p) = Some k \<Longrightarrow> tr_names T k (last_component p) = Some j \<Longrightarrow> \<not> no_names T (fst k, j) \<Longrightarrow>
    tree_step T (Unlink p) ERR_VFS_DIR_NOT_EMPTY T"
| unlink_done: "file_at T (dir_part p) = Some k \<Longrightarrow> tr_names T k (last_component p) = Some j \<Longrightarrow> no_names T (fst k, j) \<Longrightarrow>
    tree_step T (Unlink p) 0 (pruned T k (last_component p) j)"
| visit_lost: "file_at T p = None \<Longrightarrow> tree_step T (Visit p) ENOENT T"
| visit_done: "file_at T p = Some k \<Longrightarrow> tree_step T (Visit p) 0 T"

inductive tree_run :: "name_tree \<Rightarrow> path_call list \<Rightarrow> int list \<Rightarrow> name_tree \<Rightarrow> bool" where
  run_none: "tree_run T [] [] T"
| run_call: "tree_step T c rc T' \<Longrightarrow> tree_run T' cs rcs T'' \<Longrightarrow> tree_run T (c # cs) (rc # rcs) T''"

inductive_cases tree_stepE: "tree_step T c rc T'"
inductive_simps tree_run_Cons: "tree_run T (c # cs) rcs T'"

section \<open>One call\<close>

text \<open>A tree of one file system in which only dots lead back to the root.\<close>

definition plain :: "name_tree \<Rightarrow> bool" where
  "plain T \<longleftrightarrow> (\<forall>k. tr_up T k = k) \<and> (\<forall>k. tr_down T k = k) \<and> tr_names T (0, 0) ''.'' = Some 0 \<and>
     (\<forall>i n. tr_names T (0, i) n = Some 0 \<longrightarrow> n = ''.'' \<or> n = ''..'')"

lemma plain_boot: "plain boot_tree"
  by (simp add: plain_def boot_tree_def)

lemma plain_walk: "plain T \<Longrightarrow> walk T ns k = Some k' \<Longrightarrow> fst k' = fst k"
  by (induction ns arbitrary: k) (auto simp: plain_def walk_dir_def split: option.splits)

lemma plain_file: "plain T \<Longrightarrow> file_at T p = Some k \<Longrightarrow> fst k = 0"
  using plain_walk [of T _ "(0, 0)" k] by (simp add: file_at_def)

lemma plain_name:
  assumes "plain T" and "file_at T p = Some k" and "tr_names T k n = Some j" and "n \<noteq> ''.''" and "n \<noteq> ''..''"
  shows "j \<noteq> 0"
proof
  assume "j = 0"
  moreover obtain i where "k = (0, i)" using plain_file [OF assms(1,2)] by (cases k) simp
  ultimately have "tr_names T (0, i) n = Some 0" using assms(3) by simp
  with assms(1,4,5) show False unfolding plain_def by blast
qed

lemma plain_step:
  assumes "tree_step T c rc T'" and "plain T" and "call_ok c"
  shows "plain T'"
  using assms
proof (induction rule: tree_step.induct)
  case (create_new T p k j)
  have "fst k = 0" by (rule plain_file [OF create_new(4,1)])
  moreover from this have "j \<noteq> 0"
    using create_new(3,4) by (intro notI) (simp add: plain_def)
  moreover have "\<not> (snd k = 0 \<and> last_component p = ''.'')"
  proof
    assume "snd k = 0 \<and> last_component p = ''.''"
    then have "tr_names T (0, 0) ''.'' = None" using create_new(2) \<open>fst k = 0\<close> by (cases k) simp
    then show False using create_new(4) by (simp add: plain_def)
  qed
  ultimately show ?case
    using create_new(4) by (cases k) (auto simp: plain_def grown_def split: if_splits)
next
  case (unlink_done T p k j)
  have "fst k = 0" by (rule plain_file [OF unlink_done(4,1)])
  moreover have "j \<noteq> 0" using plain_name [OF unlink_done(4,1,2)] unlink_done(5) by simp
  ultimately show ?case
    using unlink_done(4,5) by (cases k) (auto simp: plain_def pruned_def split: if_splits)
qed simp_all

text \<open>
  The state between two calls: nobody but the mount holds the root, which is the only place
  where paths start, and \<open>n\<close> more directories can be numbered.
\<close>

definition rooted :: "rootfs vfs \<Rightarrow> nat \<Rightarrow> (nat \<Rightarrow> root_ghost) \<Rightarrow> name_tree \<Rightarrow> nat \<Rightarrow> bool" where
  "rooted s r G T n \<longleftrightarrow>
     layer_ok s {#r#} G T \<and> vf_root s = Some r \<and> standing root_firm s G r \<and> vkey (vf_vnode s r) = (0, 0) \<and>
     (\<forall>w. \<not> pinned s w) \<and> ids_left s n \<and> plain T"

lemma rooted_base:
  assumes "rooted s r G T n" and "p \<noteq> []" and "hd p = CHR ''/''"
  shows "base s {#r#} G p in_kernel r" and "base s {#r#} G (dir_part p) in_kernel r"
proof -
  have sl: "CHR ''/'' \<in> set p" using assms(2,3) by (cases p) simp_all
  have "dir_part p \<noteq> [] \<and> hd (dir_part p) = CHR ''/''"
  proof (cases "last_component p = []")
    case False
    have "length (last_component p) < length p"
    proof -
      have "last_component p = rev (takeWhile (\<lambda>c. c \<noteq> CHR ''/'') (rev (tl p)))"
        using assms(2,3) by (cases p) (simp_all add: last_component_def takeWhile_tail)
      then have "length (last_component p) \<le> length (tl p)" using length_takeWhile_le [of _ "rev (tl p)"] by simp
      then show ?thesis using assms(2) by (cases p) simp_all
    qed
    then have "take (length p - length (last_component p)) p \<noteq> []" using assms(2) by simp
    then show ?thesis using assms(2,3) sl False by (simp add: dir_part_def hd_append2)
  qed (use assms(2,3) sl in \<open>simp add: dir_part_def\<close>)
  with assms show "base s {#r#} G p in_kernel r" "base s {#r#} G (dir_part p) in_kernel r"
    by (simp_all add: rooted_def base_def path_start_def)
qed

lemma rooted_keeps:
  assumes "rooted s r G T (n + i)" and "keeps K i s {#r#} G s' G'" and "(0, 0) \<notin> K" and "layer_ok s' {#r#} G' T'" and "plain T'"
  shows "rooted s' r G' T' n"
  using assms by (simp add: rooted_def keeps_def)

context root_paths begin

lemma create_call:
  assumes r: "rooted s r G T (Suc n)" and c: "call_ok (Create p)" and mem: "allocates alloc" "dup"
  shows "\<exists>rc s' G' T'. vfs_create E C p STREAM_TYPE_DIR in_kernel s = Returns (rc, s') \<and> tree_step T (Create p) rc T' \<and> rooted s' r G' T' n"
proof -
  from r have ok: "layer_ok s {#r#} G T" and key: "vkey (vf_vnode s r) = (0, 0)" and T: "plain T" by (simp_all add: rooted_def)
  have ids: "\<forall>m \<in> vf_mounts s. rf_next_vnode_id (vf_fs s (mt_cookie (vf_mount s m))) + 1 < 2 ^ 64"
    using r by (auto simp: rooted_def ids_left_def)
  have len: "length (last_component p) < SYS_MAX_NAME_LEN" and b: "base s {#r#} G (dir_part p) in_kernel r"
    using c rooted_base(2) [OF r] by simp_all
  have n: "size {#r#} < 2 ^ 31 - 2" by simp
  note call = create_layer [OF ok n b len mem ids, unfolded key file_at_def [symmetric]]
  have r1: "rooted s r G T (n + 1)" and r0: "rooted s r G T (n + 0)" using r by (auto simp: rooted_def ids_left_def)
  show ?thesis
  proof (cases "file_at T (dir_part p)")
    case None
    with call obtain s' where "vfs_create E C p STREAM_TYPE_DIR in_kernel s = Returns (ENOENT, s')" "layer_ok s' {#r#} G T"
      "keeps {} 0 s {#r#} G s' G" by auto
    with rooted_keeps [OF r0] T create_lost [OF None] show ?thesis by fastforce
  next
    case (Some k)
    with call have cr: "created s {#r#} G T k (last_component p) (vfs_create E C p STREAM_TYPE_DIR in_kernel s)" by simp
    show ?thesis
    proof (cases "tr_names T k (last_component p)")
      case None
      with cr obtain s' G' j where s': "vfs_create E C p STREAM_TYPE_DIR in_kernel s = Returns (0, s')"
        "layer_ok s' {#r#} G' (grown T k (last_component p) j)" "tr_names T (fst k, j) = (\<lambda>_. None)" "keeps {} 1 s {#r#} G s' G'"
        by (auto simp: created_def)
      note st = create_new [OF Some None s'(3)]
      from rooted_keeps [OF r1 s'(4) _ s'(2) plain_step [OF st T c]] s'(1) st show ?thesis by blast
    next
      case (Some j)
      with cr obtain s' where s': "vfs_create E C p STREAM_TYPE_DIR in_kernel s = Returns (EEXIST, s')" "layer_ok s' {#r#} G T"
        "keeps {} 0 s {#r#} G s' G" by (auto simp: created_def)
      have "tree_step T (Create p) EEXIST T" using create_taken [OF \<open>file_at T (dir_part p) = Some k\<close>] Some by simp
      with rooted_keeps [OF r0 s'(3) _ s'(2) T] s'(1) show ?thesis by blast
    qed
  qed
qed

lemma unlink_call:
  assumes r: "rooted s r G T (Suc n)" and c: "call_ok (Unlink p)"
  shows "\<exists>rc s' G' T'. vfs_unlink E C p in_kernel s = Returns (rc, s') \<and> tree_step T (Unlink p) rc T' \<and> rooted s' r G' T' n"
proof -
  from r have ok: "layer_ok s {#r#} G T" and key: "vkey (vf_vnode s r) = (0, 0)" and T: "plain T" by (simp_all add: rooted_def)
  have len: "length (last_component p) < SYS_MAX_NAME_LEN" and b: "base s {#r#} G (dir_part p) in_kernel r"
    and name: "last_component p \<noteq> ''.''" "last_component p \<noteq> ''..''"
    using c rooted_base(2) [OF r] by simp_all
  have n: "size {#r#} < 2 ^ 31 - 2" by simp
  have "\<And>w. \<not> pinned s w" using r by (simp add: rooted_def)
  then have pin: "vkey (vf_vnode s w) \<noteq> (fst k, j)" if "pinned s w" for w k j using that by blast
  note call = unlink_layer [OF ok n b len name pin, unfolded key file_at_def [symmetric]]
  have r0: "rooted s r G T (n + 0)" using r by (auto simp: rooted_def ids_left_def)
  show ?thesis
  proof (cases "file_at T (dir_part p)")
    case None
    with call obtain s' where s': "vfs_unlink E C p in_kernel s = Returns (ENOENT, s')" "layer_ok s' {#r#} G T"
      "keeps {} 0 s {#r#} G s' G" by auto
    from rooted_keeps [OF r0 s'(3) _ s'(2) T] s'(1) unlink_lost [OF None] show ?thesis by blast
  next
    case (Some k)
    with call have un: "unlinked s {#r#} G T k (last_component p) (vfs_unlink E C p in_kernel s)" by simp
    show ?thesis
    proof (cases "tr_names T k (last_component p)")
      case None
      with un obtain s' where s': "vfs_unlink E C p in_kernel s = Returns (ERR_VFS_PATH_NOT_FOUND, s')" "layer_ok s' {#r#} G T"
        "keeps {} 0 s {#r#} G s' G" by (auto simp: unlinked_def)
      from rooted_keeps [OF r0 s'(3) _ s'(2) T] s'(1) unlink_missing [OF Some None] show ?thesis by blast
    next
      case j: (Some j)
      show ?thesis
      proof (cases "no_names T (fst k, j)")
        case True
        with un j obtain s' G' where s': "vfs_unlink E C p in_kernel s = Returns (0, s')"
          "layer_ok s' {#r#} G' (pruned T k (last_component p) j)" "keeps {(fst k, j)} 0 s {#r#} G s' G'" by (auto simp: unlinked_def)
        note st = unlink_done [OF Some j True]
        have "j \<noteq> 0" by (rule plain_name [OF T Some j name])
        then have "(0, 0) \<notin> {(fst k, j)}" by simp
        from rooted_keeps [OF r0 s'(3) this s'(2) plain_step [OF st T c]] s'(1) st show ?thesis by blast
      next
        case False
        with un j obtain s' where s': "vfs_unlink E C p in_kernel s = Returns (ERR_VFS_DIR_NOT_EMPTY, s')" "layer_ok s' {#r#} G T"
          "keeps {} 0 s {#r#} G s' G" by (auto simp: unlinked_def)
        from rooted_keeps [OF r0 s'(3) _ s'(2) T] s'(1) unlink_full [OF Some j False] show ?thesis by blast
      qed
    qed
  qed
qed

lemma visit_call:
  assumes r: "rooted s r G T (Suc n)" and c: "call_ok (Visit p)"
  shows "\<exists>rc s' G' T'. path_call E C in_kernel (Visit p) s = Returns (rc, s') \<and> tree_step T (Visit p) rc T' \<and> rooted s' r G' T' n"
proof -
  from r have ok: "layer_ok s {#r#} G T" and key: "vkey (vf_vnode s r) = (0, 0)" and T: "plain T" by (simp_all add: rooted_def)
  have len: "length p \<le> SYS_MAX_PATH_LEN" and b: "base s {#r#} G p in_kernel r" using c rooted_base(1) [OF r] by simp_all
  have n: "size {#r#} < 2 ^ 31 - 2" by simp
  have r0: "rooted s r G T (n + 0)" using r by (auto simp: rooted_def ids_left_def)
  show ?thesis
  proof (cases "file_at T p")
    case None
    with layer_path [OF ok n b] obtain s' where s': "path_to_vnode E C p in_kernel s = Returns ((ENOENT, None), s')" "layer_ok s' {#r#} G T"
      "rp.unchanged s s' {#r#}" by (auto simp: file_at_def key)
    have "path_call E C in_kernel (Visit p) s = Returns (ENOENT, s')"
      using s'(1) len by (simp add: path_call_def vfs_get_vnode_from_path_def)
    with rooted_keeps [OF r0 keeps_layer [OF layer_live(1) [OF ok] s'(2,3)] _ s'(2) T] visit_lost [OF None] show ?thesis by blast
  next
    case (Some k)
    then have k: "walk T (components (dropWhile (\<lambda>c. c = CHR ''/'') p)) (vkey (vf_vnode s r)) = Some k" by (simp add: file_at_def key)
    from path_and_back [OF ok n b len k] obtain w s1 s2 where s: "vfs_get_vnode_from_path E C p in_kernel s = Returns ((0, Some w), s1)"
      "vfs_put_vnode_ptr E w s1 = Returns (0, s2)" "layer_ok s2 {#r#} G T" "keeps {} 0 s {#r#} G s2 G" by blast
    have "path_call E C in_kernel (Visit p) s = Returns (0, s2)" using s(1,2) by (simp add: path_call_def)
    with rooted_keeps [OF r0 s(4) _ s(3) T] visit_done [OF Some] show ?thesis by blast
  qed
qed

lemma one_call:
  assumes "rooted s r G T (Suc n)" and "call_ok c" and "allocates alloc" "dup"
  shows "\<exists>rc s' G' T'. path_call E C in_kernel c s = Returns (rc, s') \<and> tree_step T c rc T' \<and> rooted s' r G' T' n"
  using assms create_call [of s r G T n] unlink_call [of s r G T n] visit_call [of s r G T n] by (cases c) (simp_all add: path_call_def)

lemma all_calls:
  assumes "rooted s r G T (length cs)" and "\<forall>c \<in> set cs. call_ok c" and mem: "allocates alloc" "dup"
  shows "\<exists>rcs s' G' T'. path_calls_run E C in_kernel cs s = Returns (rcs, s') \<and> tree_run T cs rcs T' \<and> rooted s' r G' T' 0"
  using assms(1,2)
proof (induction cs arbitrary: s G T)
  case (Cons c cs)
  have "rooted s r G T (Suc (length cs))" and "call_ok c" using Cons.prems by simp_all
  from one_call [OF this mem] obtain rc s1 G1 T1 where s1: "path_call E C in_kernel c s = Returns (rc, s1)" "tree_step T c rc T1"
    "rooted s1 r G1 T1 (length cs)" by blast
  from Cons.IH [OF this(3)] Cons.prems(2) obtain rcs s2 G2 T2 where
    "path_calls_run E C in_kernel cs s1 = Returns (rcs, s2)" "tree_run T1 cs rcs T2" "rooted s2 r G2 T2 0" by auto
  with s1 show ?case by (auto intro: run_call)
qed (auto intro: run_none)

end

section \<open>Properties\<close>

text \<open>
  (C4) The root file system is a tree of names. From the first mount on, any sequence of calls that
  create, delete and visit directories by absolute paths and that \<open>call_ok\<close> admits returns, never
  faulting or blocking, and each call answers what the specification answers for the tree as the
  calls before left it: \<open>0\<close>, \<open>EEXIST\<close>, \<open>ENOENT\<close>, \<open>ERR_VFS_PATH_NOT_FOUND\<close> or
  \<open>ERR_VFS_DIR_NOT_EMPTY\<close>. \<open>call_ok\<close> leaves out the deletion of a path whose last component is
  \<open>''.''\<close> or \<open>''..''\<close>, which the code does not refuse and which marks a directory that stays in
  the tree, a created or deleted name of \<open>SYS_MAX_NAME_LEN\<close> characters or more, and a visited
  path longer than \<open>SYS_MAX_PATH_LEN\<close>. At the end the layer is in order for the tree of the
  specification, and the only reference left is that of the mount to its root, whatever the
  allocators and other threads did, as long as memory is found.
\<close>
theorem path_calls_refine_tree:
  assumes "\<And>k. env_ops E k = rootfs_ops" and "allocates (env_alloc E)" and "allocates alloc"
    and "find_fs reg fs_name = Some k" and "\<And>s. place s = Some c" and "rf_live junk = {}"
    and "\<forall>c \<in> set cs. call_ok c" and "length cs + 1 < 2 ^ 64"
  shows "\<exists>s0 rcs s r G T. vfs_mount E (\<lambda>_. rootfs_calls E alloc True place junk) reg True mjunk ''/'' fs_name in_kernel
             (vfs_init fs vmem mmem nx) = Returns (0, s0) \<and>
           path_calls_run E (\<lambda>_. rootfs_calls E alloc True place junk) in_kernel cs s0 = Returns (rcs, s) \<and>
           tree_run boot_tree cs rcs T \<and> layer_ok s {#r#} G T \<and> vf_root s = Some r \<and> vkey (vf_vnode s r) = (0, 0)"
proof -
  note W = root_world [where dup = True and place = place and junk = junk and alloc = alloc, OF assms(1,2)]
  from root_paths.mount_root [OF W assms(4,3) TrueI assms(5,6)] obtain s0 r G where
    s0: "vfs_mount E (\<lambda>_. rootfs_calls E alloc True place junk) reg True mjunk ''/'' fs_name in_kernel (vfs_init fs vmem mmem nx) = Returns (0, s0)"
      "layer_ok s0 {#r#} G boot_tree" "vf_root s0 = Some r" "vkey (vf_vnode s0 r) = (0, 0)" "standing root_firm s0 G r" "\<forall>w. \<not> pinned s0 w"
      "\<forall>m \<in> vf_mounts s0. rf_next_vnode_id (vf_fs s0 (mt_cookie (vf_mount s0 m))) = 1" by blast
  have "ids_left s0 (length cs)" using s0(7) assms(8) by (simp add: ids_left_def)
  with s0(2-6) have "rooted s0 r G boot_tree (length cs)" by (simp add: rooted_def plain_boot)
  from root_paths.all_calls [OF W this assms(7,3) TrueI] s0(1) show ?thesis unfolding rooted_def by blast
qed


theorem path_calls_refine_tree_witness:
  "\<exists>s0 rcs s T. boot_mount = Returns (0, s0) \<and>
     path_calls_run boot_env boot_calls True [Create ''/a'', Create ''/a/b'', Unlink ''/a'', Visit ''/a/b/..''] s0 = Returns (rcs, s) \<and>
     tree_run boot_tree [Create ''/a'', Create ''/a/b'', Unlink ''/a'', Visit ''/a/b/..''] rcs T"
proof -
  have "find_fs [''rootfs''] ''rootfs'' = Some 0" "rf_live blank_fs = {}" by (simp_all add: blank_fs_def)
  note mnt = this
  have calls: "\<forall>c \<in> set [Create ''/a'', Create ''/a/b'', Unlink ''/a'', Visit ''/a/b/..'']. call_ok c"
    "length [Create ''/a'', Create ''/a/b'', Unlink ''/a'', Visit ''/a/b/..''] + 1 < 2 ^ 64"
    by (simp_all add: last_component_def SYS_MAX_NAME_LEN_def SYS_MAX_PATH_LEN_def)
  from path_calls_refine_tree [where place = "\<lambda>_. Some 0", OF boot.ops boot.memory next_free_allocates mnt(1) refl mnt(2) calls]
  show ?thesis unfolding boot_mount_def boot_calls_def start_vfs_def by blast
qed

end
