(* ===== verification/Fd_Procs.thy ===== *)
theory Fd_Procs
  imports Fd Rootfs
begin

text \<open>
  The calls of \<open>fs/vfs.c\<close> that make descriptors and tables: opening a file, seeking, the tables
  that a new process inherits from its parent and that go away when it exits. Together with the
  calls of \<open>Fd\<close> they are everything that changes a reference count of a descriptor.
\<close>

section \<open>Opening files\<close>

text \<open>
  What these calls need beside the table of \<open>Fd\<close>: the vnode of a path, and three more calls of
  the file system. \<open>oc_inc\<close> is a further reference to a vnode.
\<close>

record 'w open_calls =
  oc_path :: "string \<Rightarrow> bool \<Rightarrow> 'w \<Rightarrow> (int \<times> nat) \<times> 'w"
  oc_open :: "nat \<Rightarrow> stream_type \<Rightarrow> int \<Rightarrow> 'w \<Rightarrow> (int \<times> nat) \<times> 'w"
  oc_fsync :: "nat \<Rightarrow> 'w \<Rightarrow> int \<times> 'w"
  oc_seek :: "nat \<Rightarrow> nat \<Rightarrow> int \<Rightarrow> int \<Rightarrow> 'w \<Rightarrow> int \<times> 'w"
  oc_inc :: "nat \<Rightarrow> 'w \<Rightarrow> 'w"

definition ERR_VFS_FD_TABLE_FULL :: int where "ERR_VFS_FD_TABLE_FULL = - 3072 - 8"
definition FDTYPE_VNODE :: int where "FDTYPE_VNODE = 1"
definition DEFAULT_FD_TABLE_SIZE :: int where "DEFAULT_FD_TABLE_SIZE = 128"

text \<open>When the table is full the vnode is released although the new descriptor keeps it.\<close>

definition vfs_open ::
  "'w fs_calls \<Rightarrow> 'w open_calls \<Rightarrow> (fdp \<times> fdesc) option \<Rightarrow> string \<Rightarrow> stream_type \<Rightarrow> int \<Rightarrow> bool \<Rightarrow> 'w fdstate \<Rightarrow> 'w ret" where
  "vfs_open calls opens mem path st omode in_kernel s =
     (case oc_path opens path in_kernel (fd_world s) of ((err, v), w1) \<Rightarrow>
        if err < 0 then Returns (err, s\<lparr>fd_world := w1\<rparr>)
        else case oc_open opens v st omode w1 of ((err2, cookie), w2) \<Rightarrow>
          if err2 < 0 then Returns (err2, s\<lparr>fd_world := fc_dec_vnode calls v w2\<rparr>)
          else case alloc_fd mem (s\<lparr>fd_world := w2\<rparr>) of
            (None, s3) \<Rightarrow> Returns (ENOMEM, s3\<lparr>fd_world := fc_dec_vnode calls v w2\<rparr>)
          | (Some f, s3) \<Rightarrow>
              (let s4 = set_desc f (map_option (\<lambda>d. d\<lparr>fd_vnode := Some v, fd_cookie := cookie, fd_opsp := 0,
                                                      fd_type := FDTYPE_VNODE\<rparr>) (fd_heap s3 f)) s3
               in obind (new_fd (get_current_io_context in_kernel s4) f s4) (\<lambda>(fd, s5).
                    if fd < 0 then Returns (ERR_VFS_FD_TABLE_FULL, s5\<lparr>fd_world := fc_dec_vnode calls v (fd_world s5)\<rparr>)
                    else Returns (fd, s5))))"

definition vfs_fsync :: "'w fs_calls \<Rightarrow> 'w open_calls \<Rightarrow> int \<Rightarrow> bool \<Rightarrow> 'w fdstate \<Rightarrow> 'w ret" where
  "vfs_fsync calls opens fd in_kernel s =
     obind (get_fd (get_current_io_context in_kernel s) fd s) (\<lambda>(f, s1).
       case f of
         None \<Rightarrow> Returns (ERR_INVALID_HANDLE, s1)
       | Some f \<Rightarrow>
           obind (on_vnode f (\<lambda>v k. oc_fsync opens v) s1) (\<lambda>(err, s2).
           obind (put_fd (\<lambda>_. Some (vfs_free_fd calls)) f s2) (\<lambda>(_, s3). Returns (err, s3))))"

definition vfs_seek :: "'w fs_calls \<Rightarrow> 'w open_calls \<Rightarrow> int \<Rightarrow> int \<Rightarrow> int \<Rightarrow> bool \<Rightarrow> 'w fdstate \<Rightarrow> 'w ret" where
  "vfs_seek calls opens fd pos seek_type in_kernel s =
     obind (get_fd (get_current_io_context in_kernel s) fd s) (\<lambda>(f, s1).
       case f of
         None \<Rightarrow> Returns (EBADF, s1)
       | Some f \<Rightarrow>
           obind (on_vnode f (\<lambda>v k. oc_seek opens v k pos seek_type) s1) (\<lambda>(err, s2).
           obind (put_fd (\<lambda>_. Some (vfs_free_fd calls)) f s2) (\<lambda>(_, s3). Returns (err, s3))))"

text \<open>The vnode behind a handle, with a reference for the caller; \<open>None\<close> is \<open>NULL\<close>.\<close>

definition get_vnode_from_fd ::
  "'w fs_calls \<Rightarrow> 'w open_calls \<Rightarrow> nat \<Rightarrow> int \<Rightarrow> 'w fdstate \<Rightarrow> (nat ptr \<times> 'w fdstate) outcome" where
  "get_vnode_from_fd calls opens c fd s =
     obind (get_fd c fd s) (\<lambda>(f, s1).
       case f of
         None \<Rightarrow> Returns (None, s1)
       | Some f \<Rightarrow>
           (case fd_heap s1 f of
              None \<Rightarrow> Faults
            | Some d \<Rightarrow>
                (let s2 = (case fd_vnode d of None \<Rightarrow> s1 | Some v \<Rightarrow> s1\<lparr>fd_world := oc_inc opens v (fd_world s1)\<rparr>)
                 in obind (put_fd (\<lambda>_. Some (vfs_free_fd calls)) f s2) (\<lambda>(_, s3). Returns (fd_vnode d, s3)))))"

definition vfs_get_vnode_from_fd ::
  "'w fs_calls \<Rightarrow> 'w open_calls \<Rightarrow> int \<Rightarrow> bool \<Rightarrow> 'w fdstate \<Rightarrow> ((int \<times> nat ptr) \<times> 'w fdstate) outcome" where
  "vfs_get_vnode_from_fd calls opens fd in_kernel s =
     obind (get_vnode_from_fd calls opens (get_current_io_context in_kernel s) fd s) (\<lambda>(v, s1).
       Returns ((if v = None then ERR_INVALID_HANDLE else B_NO_ERROR, v), s1))"

section \<open>The tables of processes\<close>

text \<open>
  A context that is created goes to the end of the list. \<open>cwd\<close> is the working directory it
  starts with, that of the parent or the root; it takes a reference to it. The number of
  descriptors in use is not copied from the parent.
\<close>

fun take_refs :: "fdp ptr list \<Rightarrow> 'w fdstate \<Rightarrow> 'w fdstate outcome" where
  "take_refs [] s = Returns s"
| "take_refs (x # xs) s =
     (case x of
        None \<Rightarrow> take_refs xs s
      | Some f \<Rightarrow>
          (case fd_heap s f of
             None \<Rightarrow> Faults
           | Some d \<Rightarrow> take_refs xs (set_desc f (Some (d\<lparr>fd_refs := fd_refs d + 1\<rparr>)) s)))"

definition add_ctx :: "io_context \<Rightarrow> 'w fdstate \<Rightarrow> 'w fdstate" where
  "add_ctx x s = s\<lparr>fd_ctxs := fd_ctxs s @ [x]\<rparr>"

definition inc_cwd :: "'w open_calls \<Rightarrow> nat ptr \<Rightarrow> 'w fdstate \<Rightarrow> 'w fdstate" where
  "inc_cwd opens cwd s = (case cwd of None \<Rightarrow> s | Some v \<Rightarrow> s\<lparr>fd_world := oc_inc opens v (fd_world s)\<rparr>)"

definition vfs_new_io_context ::
  "'w open_calls \<Rightarrow> nat option \<Rightarrow> nat ptr \<Rightarrow> bool \<Rightarrow> 'w fdstate \<Rightarrow> (nat option \<times> 'w fdstate) outcome" where
  "vfs_new_io_context opens parent cwd mem s =
     (if \<not> mem then Returns (None, s)
      else case parent of
        None \<Rightarrow>
          (let s1 = inc_cwd opens cwd s
           in Returns (Some (length (fd_ctxs s1)),
                add_ctx \<lparr>ioc_size = DEFAULT_FD_TABLE_SIZE, ioc_used = 0, ioc_fds = replicate (nat DEFAULT_FD_TABLE_SIZE) None,
                         ioc_locked = False\<rparr> s1))
      | Some p \<Rightarrow>
          obind (lock_ctx p s) (\<lambda>s1.
            let size = ioc_size (ctx s1 p); fds = take (nat size) (ioc_fds (ctx s1 p))
            in obind (take_refs fds (inc_cwd opens cwd s1)) (\<lambda>s2.
                 Returns (Some (length (fd_ctxs s2)),
                   add_ctx \<lparr>ioc_size = size, ioc_used = 0, ioc_fds = fds, ioc_locked = False\<rparr> (unlock_ctx p s2)))))"

fun drop_refs ::
  "(nat \<Rightarrow> (fdp \<Rightarrow> 'w fdstate \<Rightarrow> (unit \<times> 'w fdstate) outcome) option) \<Rightarrow> fdp ptr list \<Rightarrow> 'w fdstate \<Rightarrow> 'w fdstate outcome" where
  "drop_refs frees [] s = Returns s"
| "drop_refs frees (x # xs) s =
     (case x of None \<Rightarrow> drop_refs frees xs s | Some f \<Rightarrow> obind (put_fd frees f s) (\<lambda>(_, s1). drop_refs frees xs s1))"

text \<open>A freed context is one without a table.\<close>

definition vfs_free_io_context :: "'w fs_calls \<Rightarrow> nat \<Rightarrow> nat ptr \<Rightarrow> 'w fdstate \<Rightarrow> 'w ret" where
  "vfs_free_io_context calls c cwd s =
     (let s1 = (case cwd of None \<Rightarrow> s | Some v \<Rightarrow> s\<lparr>fd_world := fc_dec_vnode calls v (fd_world s)\<rparr>)
      in obind (lock_ctx c s1) (\<lambda>s2.
         obind (drop_refs (\<lambda>_. Some (vfs_free_fd calls)) (take (nat (ioc_size (ctx s2 c))) (ioc_fds (ctx s2 c))) s2) (\<lambda>s3.
           Returns (0, set_ctx c \<lparr>ioc_size = 0, ioc_used = 0, ioc_fds = [], ioc_locked = False\<rparr> (unlock_ctx c s3)))))"

text \<open>Limits: the only one there is concerns the size of the table.\<close>

definition RLIMIT_NOFILE :: int where "RLIMIT_NOFILE = 4"

definition vfs_getrlimit :: "int \<Rightarrow> bool \<Rightarrow> 'w fdstate \<Rightarrow> ((int \<times> (int \<times> int) option) \<times> 'w fdstate) outcome" where
  "vfs_getrlimit resource rlp s =
     (if \<not> rlp \<or> resource \<noteq> RLIMIT_NOFILE then Returns ((- 1, None), s)
      else
        (let c = get_current_io_context False s
         in obind (lock_ctx c s) (\<lambda>s1. Returns ((0, Some (ioc_size (ctx s1 c), MAX_FD_TABLE_SIZE)), unlock_ctx c s1))))"

definition vfs_setrlimit :: "int \<Rightarrow> int option \<Rightarrow> bool \<Rightarrow> 'w fdstate \<Rightarrow> 'w ret" where
  "vfs_setrlimit resource rlim_cur mem s =
     (case rlim_cur of
        None \<Rightarrow> Returns (- 1, s)
      | Some n \<Rightarrow>
          if resource = RLIMIT_NOFILE then vfs_resize_fd_table (get_current_io_context False s) (i32 n) mem s else Returns (- 1, s))"

section \<open>References\<close>

lemma fd_inv_put_world [simp]: "fd_inv (s\<lparr>fd_world := w\<rparr>) held = fd_inv s held"
  by (simp add: fd_inv_def refs_of_def slots_def)

lemma world_fields [simp]:
  "ctx (s\<lparr>fd_world := w\<rparr>) c = ctx s c" "get_current_io_context k (s\<lparr>fd_world := w\<rparr>) = get_current_io_context k s"
  "set_ctx c x (s\<lparr>fd_world := w\<rparr>) = (set_ctx c x s)\<lparr>fd_world := w\<rparr>"
  "set_desc f d (s\<lparr>fd_world := w\<rparr>) = (set_desc f d s)\<lparr>fd_world := w\<rparr>"
  "fd_world (set_ctx c x s) = fd_world s" "fd_world (set_desc f d s) = fd_world s"
  by (simp_all add: ctx_def get_current_io_context_def set_ctx_def set_desc_def)

lemma take_refs_inv:
  assumes "fd_inv s held" and "\<And>f. Some f \<in> set xs \<Longrightarrow> fd_heap s f \<noteq> None"
  shows "\<exists>h. take_refs xs s = Returns (s\<lparr>fd_heap := h\<rparr>) \<and> fd_inv (s\<lparr>fd_heap := h\<rparr>) (\<lambda>g. held g + count_list xs (Some g))"
  using assms
proof (induction xs arbitrary: s held)
  case Nil
  then show ?case by (intro exI [of _ "fd_heap s"]) simp
next
  case (Cons x xs)
  show ?case
  proof (cases x)
    case None
    with Cons show ?thesis by simp
  next
    case (Some f)
    with Cons.prems(2) [of f] obtain d where d: "fd_heap s f = Some d" by auto
    let ?s = "set_desc f (Some (d\<lparr>fd_refs := fd_refs d + 1\<rparr>)) s"
    have live: "fd_heap ?s g \<noteq> None" if "Some g \<in> set xs" for g using that Cons.prems(2) [of g] by simp
    from Cons.IH [OF fd_inv_ref [OF Cons.prems(1) d] live] obtain h where
      h: "take_refs xs ?s = Returns (?s\<lparr>fd_heap := h\<rparr>)"
      "fd_inv (?s\<lparr>fd_heap := h\<rparr>) (\<lambda>g. (held(f := held f + 1)) g + count_list xs (Some g))" by blast
    have e: "(\<lambda>g. (held(f := held f + 1)) g + count_list xs (Some g)) = (\<lambda>g. held g + count_list (x # xs) (Some g))"
      "?s\<lparr>fd_heap := h\<rparr> = s\<lparr>fd_heap := h\<rparr>"
      using Some by (auto simp: fun_eq_iff set_desc_def)
    have "take_refs (x # xs) s = Returns (s\<lparr>fd_heap := h\<rparr>)" using h(1) Some d unfolding e(2) by simp
    with h(2) [unfolded e] show ?thesis by blast
  qed
qed

lemma take_refs_ctx: "take_refs xs (set_ctx c x s) = obind (take_refs xs s) (\<lambda>t. Returns (set_ctx c x t))"
  by (induction xs arbitrary: s) (auto split: option.splits)

lemma put_fd_ctx:
  "put_fd (\<lambda>_. Some (vfs_free_fd calls)) f (set_ctx c x s) =
     obind (put_fd (\<lambda>_. Some (vfs_free_fd calls)) f s) (\<lambda>(_, t). Returns ((), set_ctx c x t))"
  by (auto simp: put_fd_def vfs_free_fd_def Let_def split: option.splits)

lemma drop_refs_ctx:
  "drop_refs (\<lambda>_. Some (vfs_free_fd calls)) xs (set_ctx c x s) =
     obind (drop_refs (\<lambda>_. Some (vfs_free_fd calls)) xs s) (\<lambda>t. Returns (set_ctx c x t))"
proof (induction xs arbitrary: s)
  case (Cons y ys)
  show ?case
  proof (cases y)
    case (Some f)
    then show ?thesis
      by (cases "put_fd (\<lambda>_. Some (vfs_free_fd calls)) f s") (auto simp: put_fd_ctx Cons.IH)
  qed (simp add: Cons.IH)
qed simp

lemma drop_refs_inv:
  assumes "fd_inv s held" and "\<And>g. count_list xs (Some g) \<le> held g"
  shows "\<exists>t. drop_refs (\<lambda>_. Some (vfs_free_fd calls)) xs s = Returns t \<and> fd_inv t (\<lambda>g. held g - count_list xs (Some g)) \<and>
           fd_ctxs t = fd_ctxs s"
  using assms
proof (induction xs arbitrary: s held)
  case (Cons x xs)
  show ?case
  proof (cases x)
    case None
    with Cons show ?thesis by simp
  next
    case (Some f)
    have f: "0 < held f" using Cons.prems(2) [of f] Some by simp
    from put_fd_inv [OF Cons.prems(1) f vfs_free_ok] obtain s1 where s1: "put_fd (\<lambda>_. Some (vfs_free_fd calls)) f s = Returns ((), s1)"
      "fd_inv s1 (held(f := held f - 1))" "fd_ctxs s1 = fd_ctxs s" by blast
    have le: "count_list xs (Some g) \<le> (held(f := held f - 1)) g" for g
      using Cons.prems(2) [of g] Some by (cases "g = f") auto
    from Cons.IH [OF s1(2) le] obtain t where t: "drop_refs (\<lambda>_. Some (vfs_free_fd calls)) xs s1 = Returns t"
      "fd_inv t (\<lambda>g. (held(f := held f - 1)) g - count_list xs (Some g))" "fd_ctxs t = fd_ctxs s1" by blast
    have "(\<lambda>g. (held(f := held f - 1)) g - count_list xs (Some g)) = (\<lambda>g. held g - count_list (x # xs) (Some g))"
      using Some by (auto simp: fun_eq_iff)
    with t s1 Some show ?thesis by simp
  qed
qed simp

section \<open>Each call\<close>

lemma fd_inv_new:
  assumes "fd_inv s held" and "fd_heap s f = None" and "fd_refs d = 1" and "fd_vnode d \<noteq> None"
  shows "fd_inv (set_desc f (Some d) s) (held(f := held f + 1))" and "held f = 0"
proof -
  from fd_invD(1) [OF assms(1), of f] assms(2) have z: "slots s f = 0" "held f = 0" by (simp_all add: desc_ok_def refs_of_def)
  with assms show "fd_inv (set_desc f (Some d) s) (held(f := held f + 1))"
    by (auto simp: fd_inv_def desc_ok_def refs_of_def split: option.splits)
  show "held f = 0" by (rule z(2))
qed

lemma vfs_open_inv:
  assumes inv: "fd_inv s held" and mem: "\<And>f junk. mem = Some (f, junk) \<Longrightarrow> fd_heap s f = None"
  shows "\<exists>r s'. vfs_open calls opens mem path st omode k s = Returns (r, s') \<and>
           (fd_inv s' held \<or> (r = ERR_VFS_FD_TABLE_FULL \<and> (\<exists>f junk. mem = Some (f, junk) \<and> held f = 0 \<and> fd_inv s' (held(f := 1)))))"
proof -
  obtain err v w1 where p: "oc_path opens path k (fd_world s) = ((err, v), w1)" by (metis prod.collapse)
  obtain err2 cookie w2 where o: "oc_open opens v st omode w1 = ((err2, cookie), w2)" by (metis prod.collapse)
  show ?thesis
  proof (cases "err < 0 \<or> err2 < 0 \<or> mem = None")
    case True
    then show ?thesis using inv p o by (auto simp: vfs_open_def alloc_fd_def)
  next
    case False
    then obtain f junk where m: "mem = Some (f, junk)" by auto
    let ?d = "(junk\<lparr>fd_vnode := None, fd_cookie := 0, fd_refs := 1\<rparr>)\<lparr>fd_vnode := Some v, fd_cookie := cookie, fd_opsp := 0,
      fd_type := FDTYPE_VNODE\<rparr>"
    let ?s = "set_desc f (Some ?d) (s\<lparr>fd_world := w2\<rparr>)"
    let ?held = "held(f := held f + 1)"
    have fresh: "fd_heap (s\<lparr>fd_world := w2\<rparr>) f = None" using mem [OF m] by simp
    note new = fd_inv_new [OF _ fresh, of held ?d]
    have inv1: "fd_inv ?s ?held" and z: "held f = 0" using new inv by simp_all
    have c: "get_current_io_context k ?s < length (fd_ctxs ?s)" by (rule fd_invD(3) [OF inv1])
    have h: "0 < ?held f" by simp
    from new_fd_inv [OF inv1 h c] obtain r s1 where s1: "new_fd (get_current_io_context k ?s) f ?s = Returns (r, s1)"
      "if r < 0 then r = ERR_NO_MORE_HANDLES \<and> s1 = ?s else fd_inv s1 (?held(f := ?held f - 1))" by blast
    have run: "vfs_open calls opens mem path st omode k s =
        Returns (if r < 0 then (ERR_VFS_FD_TABLE_FULL, s1\<lparr>fd_world := fc_dec_vnode calls v (fd_world s1)\<rparr>) else (r, s1))"
      using False p o m s1(1) by (simp add: vfs_open_def alloc_fd_def set_desc_def Let_def)
    have same: "?held(f := ?held f - 1) = held" by auto
    show ?thesis
    proof (cases "r < 0")
      case True
      then have "fd_inv (s1\<lparr>fd_world := fc_dec_vnode calls v (fd_world s1)\<rparr>) (held(f := 1))"
        using s1(2) inv1 z by simp
      with run True m z show ?thesis by auto
    next
      case False
      then have "fd_inv s1 held" using s1(2) same by simp
      with run False show ?thesis by auto
    qed
  qed
qed

text \<open>A call on the descriptor of a handle that returns the reference it took.\<close>

lemma on_handle_inv:
  assumes inv: "fd_inv s held" and body: "\<And>c f. keeps c f (op f)"
  shows "\<exists>r s'. obind (get_fd (get_current_io_context k s) fd s) (\<lambda>(f, s1).
       case f of
         None \<Rightarrow> Returns (e, s1)
       | Some f \<Rightarrow> obind (op f s1) (\<lambda>(r, s2). obind (put_fd (\<lambda>_. Some (vfs_free_fd calls)) f s2) (\<lambda>(_, s3). Returns (r, s3)))) =
     Returns (r, s') \<and> fd_inv s' held"
proof -
  note c = fd_invD(3) [OF inv, of k]
  from get_fd_inv [OF inv c, of fd] consider "get_fd (get_current_io_context k s) fd s = Returns (None, s)"
    | f s1 where "get_fd (get_current_io_context k s) fd s = Returns (Some f, s1)" "fd_inv s1 (held(f := held f + 1))"
      "fd_ctxs s1 = fd_ctxs s" by blast
  then show ?thesis
  proof cases
    case 2
    have h: "0 < (held(f := held f + 1)) f" by simp
    have c1: "get_current_io_context k s < length (fd_ctxs s1)" using c 2(3) by simp
    from keepsD [OF body 2(2) h c1] obtain r s2 where s2: "op f s1 = Returns (r, s2)" "fd_inv s2 (held(f := held f + 1))" by blast
    from put_fd_inv [OF s2(2) h vfs_free_ok] obtain s3 where "put_fd (\<lambda>_. Some (vfs_free_fd calls)) f s2 = Returns ((), s3)"
      "fd_inv s3 ((held(f := held f + 1))(f := (held(f := held f + 1)) f - 1))" by blast
    moreover have "(held(f := held f + 1))(f := (held(f := held f + 1)) f - 1) = held" by auto
    ultimately show ?thesis using 2(1) s2(1) by simp
  qed (use inv in simp)
qed

lemma vfs_fsync_inv: "fd_inv s held \<Longrightarrow> \<exists>r s'. vfs_fsync calls opens fd k s = Returns (r, s') \<and> fd_inv s' held"
  unfolding vfs_fsync_def by (erule on_handle_inv) (rule on_vnode_keeps)

lemma vfs_seek_inv: "fd_inv s held \<Longrightarrow> \<exists>r s'. vfs_seek calls opens fd pos st k s = Returns (r, s') \<and> fd_inv s' held"
  unfolding vfs_seek_def by (erule on_handle_inv) (rule on_vnode_keeps)

lemma vfs_get_vnode_inv:
  assumes inv: "fd_inv s held"
  shows "\<exists>r s'. vfs_get_vnode_from_fd calls opens fd k s = Returns (r, s') \<and> fd_inv s' held"
proof -
  let ?op = "\<lambda>f s1. case fd_heap s1 f of None \<Rightarrow> Faults | Some d \<Rightarrow> Returns (fd_vnode d,
      (case fd_vnode d of None \<Rightarrow> s1 | Some v \<Rightarrow> s1\<lparr>fd_world := oc_inc opens v (fd_world s1)\<rparr>))"
  have "keeps c f (?op f)" for c f
  proof (rule keepsI)
    fix s :: "'a fdstate" and held
    assume inv: "fd_inv s held" and "0 < held f"
    then obtain d where "fd_heap s f = Some d" by (rule held_live)
    then show "\<exists>r s'. ?op f s = Returns (r, s') \<and> fd_inv s' held \<and> length (fd_ctxs s') = length (fd_ctxs s)"
      using inv by (simp split: option.splits)
  qed
  from on_handle_inv [OF inv this, where e = None and k = k and fd = fd and calls = calls]
  obtain r s' where r: "obind (get_fd (get_current_io_context k s) fd s) (\<lambda>(f, s1).
       case f of
         None \<Rightarrow> Returns (None, s1)
       | Some f \<Rightarrow> obind (?op f s1) (\<lambda>(r, s2). obind (put_fd (\<lambda>_. Some (vfs_free_fd calls)) f s2) (\<lambda>(_, s3). Returns (r, s3)))) =
     Returns (r, s')" "fd_inv s' held" by blast
  have "get_vnode_from_fd calls opens (get_current_io_context k s) fd s = Returns (r, s')"
    unfolding r(1) [symmetric] get_vnode_from_fd_def Let_def
    by (intro arg_cong [where f = "obind _"] ext) (auto split: option.splits)
  with r(2) have "\<exists>r s'. get_vnode_from_fd calls opens (get_current_io_context k s) fd s = Returns (r, s') \<and> fd_inv s' held" by blast
  then show ?thesis by (auto simp: vfs_get_vnode_from_fd_def)
qed

lemma fd_inv_add_ctx:
  assumes inv: "fd_inv s held" and x: "ctx_ok x" and h: "\<And>g. held g = held' g + count_list (ioc_fds x) (Some g)"
  shows "fd_inv (add_ctx x s) held'"
proof -
  have "refs_of (add_ctx x s) held' g = refs_of s held g" for g
    using h [of g] by (simp add: refs_of_def slots_def add_ctx_def)
  with inv x show ?thesis by (auto simp: fd_inv_def add_ctx_def)
qed

lemma vfs_new_io_context_inv:
  assumes inv: "fd_inv s held" and p: "\<And>p. parent = Some p \<Longrightarrow> p < length (fd_ctxs s)"
  shows "\<exists>r s'. vfs_new_io_context opens parent cwd mem s = Returns (r, s') \<and> fd_inv s' held"
proof (cases "mem \<and> parent \<noteq> None")
  case False
  let ?n = "\<lparr>ioc_size = DEFAULT_FD_TABLE_SIZE, ioc_used = 0, ioc_fds = replicate (nat DEFAULT_FD_TABLE_SIZE) None, ioc_locked = False\<rparr>"
  have "fd_inv (inc_cwd opens cwd s) held" using inv by (simp add: inc_cwd_def split: option.splits)
  then have "fd_inv (add_ctx ?n (inc_cwd opens cwd s)) held"
    by (rule fd_inv_add_ctx) (simp_all add: ctx_ok_def DEFAULT_FD_TABLE_SIZE_def)
  with False inv show ?thesis by (cases mem) (auto simp: vfs_new_io_context_def Let_def)
next
  case True
  then obtain q where q: "parent = Some q" "q < length (fd_ctxs s)" using p by auto
  let ?x = "ctx s q"
  note ok = fd_invD(2) [OF inv q(2)]
  have len: "int (length (ioc_fds ?x)) = ioc_size ?x" "\<not> ioc_locked ?x" using ok by (simp_all add: ctx_ok_def)
  then have all: "take (nat (ioc_size ?x)) (ioc_fds ?x) = ioc_fds ?x" by (metis nat_int order_refl take_all_iff)
  let ?lock = "?x\<lparr>ioc_locked := True\<rparr>" and ?s1 = "inc_cwd opens cwd s"
  have s1: "fd_inv ?s1 held" "fd_ctxs ?s1 = fd_ctxs s" "fd_heap ?s1 = fd_heap s" "ctx ?s1 q = ?x"
    "inc_cwd opens cwd (set_ctx q ?lock s) = set_ctx q ?lock ?s1"
    using inv by (simp_all add: inc_cwd_def split: option.splits)
  have live: "fd_heap ?s1 f \<noteq> None" if f: "Some f \<in> set (ioc_fds ?x)" for f
  proof -
    from f obtain i where i: "i < length (ioc_fds ?x)" "ioc_fds ?x ! i = Some f" by (auto simp: in_set_conv_nth)
    from slot_live [OF inv q(2) i] obtain d where "fd_heap s f = Some d" .
    with s1(3) show ?thesis by simp
  qed
  from take_refs_inv [OF s1(1) live] obtain h where h: "take_refs (ioc_fds ?x) ?s1 = Returns (?s1\<lparr>fd_heap := h\<rparr>)"
    "fd_inv (?s1\<lparr>fd_heap := h\<rparr>) (\<lambda>g. held g + count_list (ioc_fds ?x) (Some g))" by blast
  let ?t = "?s1\<lparr>fd_heap := h\<rparr>" and ?new = "\<lparr>ioc_size = ioc_size ?x, ioc_used = 0, ioc_fds = ioc_fds ?x, ioc_locked = False\<rparr>"
  have ctx_t: "ctx ?t q = ?x" "q < length (fd_ctxs ?t)" using s1(2,4) q(2) by (simp_all add: ctx_def)
  have un: "unlock_ctx q (set_ctx q ?lock ?t) = ?t"
    using ctx_t len(2) set_ctx_ctx [of q ?t] by (simp add: unlock_ctx_def relock_id)
  have "vfs_new_io_context opens parent cwd mem s = Returns (Some (length (fd_ctxs s)), add_ctx ?new ?t)"
    using True q len(2) all s1 h(1) un
    by (simp add: vfs_new_io_context_def lock_ctx_def Let_def take_refs_ctx)
  moreover have "fd_inv (add_ctx ?new ?t) held" by (rule fd_inv_add_ctx [OF h(2)]) (simp_all add: ctx_ok_def len)
  ultimately show ?thesis by blast
qed

lemma fd_inv_gone:
  assumes inv: "fd_inv s held" and c: "c < length (fd_ctxs s)" and x: "ioc_fds x = []" "ctx_ok x"
  shows "fd_inv (set_ctx c x s) (\<lambda>g. held g + count_list (ioc_fds (ctx s c)) (Some g))"
proof -
  have "refs_of (set_ctx c x s) (\<lambda>g. held g + count_list (ioc_fds (ctx s c)) (Some g)) g = refs_of s held g" for g
    using count_list_concat_update [OF c, of ioc_fds x "Some g"] x(1) by (simp add: refs_of_def slots_def set_ctx_def ctx_def)
  with inv x show ?thesis
    by (auto simp: fd_inv_def set_ctx_def dest!: set_update_subset_insert [THEN subsetD])
qed

lemma vfs_free_io_context_inv:
  assumes inv: "fd_inv s held" and c: "c < length (fd_ctxs s)"
  shows "\<exists>s'. vfs_free_io_context calls c cwd s = Returns (0, s') \<and> fd_inv s' held"
proof -
  let ?s1 = "case cwd of None \<Rightarrow> s | Some v \<Rightarrow> s\<lparr>fd_world := fc_dec_vnode calls v (fd_world s)\<rparr>"
  let ?x = "ctx s c" and ?gone = "\<lparr>ioc_size = 0, ioc_used = 0, ioc_fds = [], ioc_locked = False\<rparr>"
  let ?lock = "?x\<lparr>ioc_locked := True\<rparr>"
  have s1: "fd_inv ?s1 held" "fd_ctxs ?s1 = fd_ctxs s" "ctx ?s1 c = ?x" using inv by (simp_all split: option.splits)
  note ok = fd_invD(2) [OF inv c]
  have len: "int (length (ioc_fds ?x)) = ioc_size ?x" "\<not> ioc_locked ?x" using ok by (simp_all add: ctx_ok_def)
  then have all: "take (nat (ioc_size ?x)) (ioc_fds ?x) = ioc_fds ?x" by (metis nat_int order_refl take_all_iff)
  have gone: "fd_inv (set_ctx c ?gone ?s1) (\<lambda>g. held g + count_list (ioc_fds ?x) (Some g))"
    using fd_inv_gone [OF s1(1), of c ?gone] c s1(2,3) by (simp add: ctx_ok_def)
  from drop_refs_inv [OF gone, of "ioc_fds ?x" calls] obtain t where
    t: "drop_refs (\<lambda>_. Some (vfs_free_fd calls)) (ioc_fds ?x) (set_ctx c ?gone ?s1) = Returns t" "fd_inv t held" by auto
  then obtain u where u: "drop_refs (\<lambda>_. Some (vfs_free_fd calls)) (ioc_fds ?x) ?s1 = Returns u" "t = set_ctx c ?gone u"
    by (auto simp: drop_refs_ctx obind_Returns_iff)
  have "vfs_free_io_context calls c cwd s = Returns (0, t)"
    using s1(2,3) c len(2) all u
    by (simp add: vfs_free_io_context_def Let_def lock_ctx_def drop_refs_ctx unlock_ctx_def)
  with t(2) show ?thesis by blast
qed

lemma vfs_getrlimit_inv: "fd_inv s held \<Longrightarrow> \<exists>r s'. vfs_getrlimit res rlp s = Returns (r, s') \<and> fd_inv s' held"
  using fd_invD(2,3) [of s held]
  by (fastforce simp: vfs_getrlimit_def lock_ctx_def unlock_ctx_def ctx_ok_def relock_id Let_def)

lemma vfs_setrlimit_inv: "fd_inv s held \<Longrightarrow> \<exists>r s'. vfs_setrlimit res cur mem s = Returns (r, s') \<and> fd_inv s' held"
  using vfs_resize_fd_table_inv [of s held "get_current_io_context False s"] fd_invD(3) [of s held False]
  by (fastforce simp: vfs_setrlimit_def split: option.splits)

section \<open>Runs of calls\<close>

text \<open>
  All the calls that touch descriptors. \<open>P_open\<close> gets its memory from the allocator. \<open>P_fork\<close>
  makes the context of a new process and \<open>P_exit\<close> frees one that no thread runs in.
\<close>

datatype proc_call =
    P_fd fd_call | P_open string stream_type int bool | P_fsync int bool | P_seek int int int bool | P_vnode int bool
  | P_fork "nat option" "nat ptr" bool | P_exit nat "nat ptr" | P_getrlimit int bool | P_setrlimit int "int option" bool

definition code_only :: "('r \<times> 'w fdstate) outcome \<Rightarrow> ('r \<Rightarrow> int) \<Rightarrow> 'w ret" where
  "code_only x f = obind x (\<lambda>(r, s). Returns (f r, s))"

fun proc_step ::
  "(nat \<Rightarrow> byte list \<Rightarrow> 'w \<Rightarrow> int \<times> 'w) \<Rightarrow> 'w fs_calls \<Rightarrow> 'w open_calls \<Rightarrow> ((fdp \<Rightarrow> fdesc option) \<Rightarrow> (fdp \<times> fdesc) option) \<Rightarrow>
   proc_call \<Rightarrow> 'w fdstate \<Rightarrow> 'w ret" where
  "proc_step um calls opens alloc (P_fd x) s = fd_step um calls x s"
| "proc_step um calls opens alloc (P_open path st omode k) s = vfs_open calls opens (alloc (fd_heap s)) path st omode k s"
| "proc_step um calls opens alloc (P_fsync fd k) s = vfs_fsync calls opens fd k s"
| "proc_step um calls opens alloc (P_seek fd pos st k) s = vfs_seek calls opens fd pos st k s"
| "proc_step um calls opens alloc (P_vnode fd k) s = code_only (vfs_get_vnode_from_fd calls opens fd k s) fst"
| "proc_step um calls opens alloc (P_fork parent cwd mem) s =
     (if \<forall>p. parent = Some p \<longrightarrow> p < length (fd_ctxs s)
      then code_only (vfs_new_io_context opens parent cwd mem s) (\<lambda>c. 0) else Returns (0, s))"
| "proc_step um calls opens alloc (P_exit c cwd) s =
     (if c < length (fd_ctxs s) \<and> c \<noteq> cur_ctx s \<and> c \<noteq> kern_ctx s then vfs_free_io_context calls c cwd s else Returns (0, s))"
| "proc_step um calls opens alloc (P_getrlimit res rlp) s = code_only (vfs_getrlimit res rlp s) fst"
| "proc_step um calls opens alloc (P_setrlimit res cur mem) s = vfs_setrlimit res cur mem s"

fun proc_run ::
  "(nat \<Rightarrow> byte list \<Rightarrow> 'w \<Rightarrow> int \<times> 'w) \<Rightarrow> 'w fs_calls \<Rightarrow> 'w open_calls \<Rightarrow> ((fdp \<Rightarrow> fdesc option) \<Rightarrow> (fdp \<times> fdesc) option) \<Rightarrow>
   proc_call list \<Rightarrow> 'w fdstate \<Rightarrow> (int list \<times> 'w fdstate) outcome" where
  "proc_run um calls opens alloc [] s = Returns ([], s)"
| "proc_run um calls opens alloc (x # xs) s =
     obind (proc_step um calls opens alloc x s) (\<lambda>(r, s1).
     obind (proc_run um calls opens alloc xs s1) (\<lambda>(rs, s2). Returns (r # rs, s2)))"

fun off_balance :: "proc_call \<Rightarrow> bool" where
  "off_balance (P_fd x) = unbalanced x"
| "off_balance _ = False"

lemma code_only_inv:
  "\<exists>r s'. x = Returns (r, s') \<and> fd_inv s' held \<Longrightarrow> \<exists>r s'. code_only x f = Returns (r, s') \<and> fd_inv s' held"
  by (auto simp: code_only_def)

text \<open>The allocator returns memory that holds no descriptor.\<close>

definition fd_allocates :: "((fdp \<Rightarrow> fdesc option) \<Rightarrow> (fdp \<times> fdesc) option) \<Rightarrow> bool" where
  "fd_allocates alloc \<longleftrightarrow> (\<forall>h f junk. alloc h = Some (f, junk) \<longrightarrow> h f = None)"

text \<open>A call leaks at most one descriptor, and only by opening a file with a full table.\<close>

lemma proc_step_inv:
  assumes inv: "fd_inv s held" and b: "\<not> off_balance x" and mem: "fd_allocates alloc"
  shows "\<exists>r s'. proc_step um calls opens alloc x s = Returns (r, s') \<and>
           (fd_inv s' held \<or> r = ERR_VFS_FD_TABLE_FULL \<and> (\<exists>f. held f = 0 \<and> fd_inv s' (held(f := 1))))"
proof (cases x)
  case (P_fd y)
  with fd_step_inv [OF inv, of y um calls] b show ?thesis by auto
next
  case (P_open path st omode k)
  with vfs_open_inv [OF inv, of "alloc (fd_heap s)" calls opens path st omode k] mem show ?thesis by (fastforce simp: fd_allocates_def)
next
  case (P_fsync fd k)
  with vfs_fsync_inv [OF inv] show ?thesis by fastforce
next
  case (P_seek fd pos st k)
  with vfs_seek_inv [OF inv] show ?thesis by fastforce
next
  case (P_vnode fd k)
  with code_only_inv [OF vfs_get_vnode_inv [OF inv, of calls opens fd k], of fst] show ?thesis by fastforce
next
  case (P_fork parent cwd m)
  with code_only_inv [OF vfs_new_io_context_inv [OF inv, of parent opens cwd m], of "\<lambda>c. 0"] inv show ?thesis by fastforce
next
  case (P_exit c cwd)
  with vfs_free_io_context_inv [OF inv, of c calls cwd] inv show ?thesis by fastforce
next
  case (P_getrlimit res rlp)
  with code_only_inv [OF vfs_getrlimit_inv [OF inv, of res rlp], of fst] show ?thesis by fastforce
next
  case (P_setrlimit res cur m)
  with vfs_setrlimit_inv [OF inv] show ?thesis by fastforce
qed

lemma proc_step_leak:
  assumes "fd_inv s (count_list leaked)" and "\<not> off_balance x" and "fd_allocates alloc"
  shows "\<exists>r s' l. proc_step um calls opens alloc x s = Returns (r, s') \<and> fd_inv s' (count_list (l @ leaked)) \<and>
           length l \<le> count_list [r] ERR_VFS_FD_TABLE_FULL"
proof -
  from proc_step_inv [OF assms, of um calls opens] obtain r s1 where r: "proc_step um calls opens alloc x s = Returns (r, s1)"
    "fd_inv s1 (count_list leaked) \<or>
     r = ERR_VFS_FD_TABLE_FULL \<and> (\<exists>f. count_list leaked f = 0 \<and> fd_inv s1 ((count_list leaked)(f := 1)))" by blast
  from r(2) show ?thesis
  proof (elim disjE exE conjE)
    assume "fd_inv s1 (count_list leaked)"
    with r(1) show ?thesis by (intro exI [of _ r] exI [of _ s1] exI [of _ "[]"]) (simp del: count_list.simps(2))
  next
    fix f assume f: "r = ERR_VFS_FD_TABLE_FULL" "count_list leaked f = 0" "fd_inv s1 ((count_list leaked)(f := 1))"
    have "(count_list leaked)(f := 1) = count_list ([f] @ leaked)" using f(2) by (auto simp: fun_eq_iff)
    then have "fd_inv s1 (count_list ([f] @ leaked))" using f(3) by (rule subst [where P = "fd_inv s1"])
    with r(1) f(1) show ?thesis by (intro exI [of _ r] exI [of _ s1] exI [of _ "[f]"]) simp
  qed
qed

lemma proc_run_inv:
  assumes "fd_inv s (count_list leaked)" and "\<forall>x \<in> set xs. \<not> off_balance x" and mem: "fd_allocates alloc"
  shows "\<exists>rs s' more. proc_run um calls opens alloc xs s = Returns (rs, s') \<and> fd_inv s' (count_list (more @ leaked)) \<and>
           length more \<le> count_list rs ERR_VFS_FD_TABLE_FULL"
  using assms(1,2)
proof (induction xs arbitrary: s leaked)
  case Nil
  then show ?case by (intro exI [of _ "[]"] exI [of _ s] exI [of _ "[]"]) simp
next
  case (Cons x xs)
  have "\<not> off_balance x" using Cons.prems(2) by simp
  from proc_step_leak [OF Cons.prems(1) this mem] obtain r s1 l where s1: "proc_step um calls opens alloc x s = Returns (r, s1)"
    "fd_inv s1 (count_list (l @ leaked))" "length l \<le> count_list [r] ERR_VFS_FD_TABLE_FULL" by blast
  have "\<forall>x \<in> set xs. \<not> off_balance x" using Cons.prems(2) by simp
  from Cons.IH [OF s1(2) this] obtain rs s' more where m: "proc_run um calls opens alloc xs s1 = Returns (rs, s')"
    "fd_inv s' (count_list (more @ l @ leaked))" "length more \<le> count_list rs ERR_VFS_FD_TABLE_FULL" by blast
  have "proc_run um calls opens alloc (x # xs) s = Returns (r # rs, s')" using s1(1) m(1) by simp
  moreover have "length (more @ l) \<le> count_list (r # rs) ERR_VFS_FD_TABLE_FULL" using m(3) s1(3) by (auto split: if_splits)
  moreover have "fd_inv s' (count_list ((more @ l) @ leaked))" using m(2) by (simp only: append_assoc)
  ultimately show ?case by blast
qed

section \<open>Properties\<close>

text \<open>
  (C2) Descriptors over the whole life of processes. Whatever the processes and the kernel do with
  files, opening, duplicating, closing, seeking, forking and exiting in any order (an \<open>ioctl\<close>
  from user space and a duplicate of a handle onto itself apart), every call returns, none
  touches a freed descriptor, and afterwards the count of every descriptor is the number of
  slots of all tables that point to it, but for those that were leaked: one for each call of
  open, at most, that found the table full and answered \<open>ERR_VFS_FD_TABLE_FULL\<close>.
\<close>
theorem process_calls_balanced:
  assumes "fd_inv s (\<lambda>_. 0)" and "\<forall>x \<in> set xs. \<not> off_balance x"
    and "fd_allocates alloc"
  shows "\<exists>rs s' leaked. proc_run um calls opens alloc xs s = Returns (rs, s') \<and> fd_inv s' (count_list leaked) \<and>
           length leaked \<le> count_list rs ERR_VFS_FD_TABLE_FULL"
proof -
  have "(\<lambda>_. 0) = count_list ([] :: fdp list)" by (simp add: fun_eq_iff)
  then have "fd_inv s (count_list [])" using assms(1) by (rule subst [where P = "fd_inv s"])
  from proc_run_inv [OF this assms(2,3), of um calls opens] show ?thesis by simp
qed

text \<open>Files whose vnode is 7, and two blocks of memory.\<close>

definition demo_opens :: "nat open_calls" where
  "demo_opens = \<lparr>oc_path = \<lambda>p k w. ((if p = [] then ENOENT else 0, 7), w + 1), oc_open = \<lambda>v st m w. ((0, 9), w + 1),
     oc_fsync = \<lambda>v w. (0, w), oc_seek = \<lambda>v k pos st w. (0, w), oc_inc = \<lambda>v w. w + 1\<rparr>"

definition demo_alloc :: "(fdp \<Rightarrow> fdesc option) \<Rightarrow> (fdp \<times> fdesc) option" where
  "demo_alloc h = (if h 20 = None then Some (20, demo_desc 0) else if h 21 = None then Some (21, demo_desc 0) else None)"

theorem process_calls_balanced_witness:
  "\<exists>rs s' leaked. proc_run (\<lambda>_ _ w. (0, w)) demo_calls demo_opens demo_alloc
     [P_open ''f'' STREAM_TYPE_ANY 0 False, P_fork (Some 1) (Some 3) True, P_seek 1 0 0 False, P_fd (F_dup2 1 2 False),
      P_open ''g'' STREAM_TYPE_ANY 0 False, P_fd (F_close 1), P_exit 2 (Some 3)] demo_fds = Returns (rs, s') \<and>
     fd_inv s' (count_list leaked) \<and> length leaked \<le> count_list rs ERR_VFS_FD_TABLE_FULL"
  by (rule process_calls_balanced) (auto simp: demo_fds_inv fd_allocates_def demo_alloc_def split: if_splits)

end
