(* ===== verification/Spec2Isabelle.thy ===== *)
theory Spec2Isabelle
  imports Thread_Queue Khash Fd Cbuf_Props Timer Sched Sem_Main Lock Port_Main Kheap_Props Vm_Page_Main Vm_Map_Props
    Vfs_Calls Fd_Procs
begin

text \<open>
  The core of the OpenBeOS kernel, the C code under
  \<open>src/openbeos/sources/os/kits/kernel/core\<close>, as definitions of HOL that compute, with the
  theorems that state what each part promises.

  \<^bold>\<open>The program and its parts.\<close> The kernel is built from the bottom up. Generic containers
  (\<open>queue.c\<close>, \<open>khash.c\<close>, the thread queues of \<open>thread.c\<close>) carry everything else. The timers of
  \<open>timer.c\<close> call back into the scheduler of \<open>thread.c\<close> when a quantum ends and into the
  semaphores of \<open>sem.c\<close> when a wait times out. A semaphore keeps a thread queue of its waiters
  and calls the scheduler to block and to wake them. Locks (\<open>lock.c\<close>) and ports (\<open>port.c\<close>)
  are built on semaphores; a port keeps its messages in the chained buffers of \<open>cbuf.c\<close>.
  File descriptors (\<open>fd.c\<close> and parts of \<open>fs/vfs.c\<close>) are reference counted entries of a
  table. The file system layer (\<open>fs/vfs.c\<close>) resolves paths over mounted file systems and keeps
  one counted vnode for every file in use; \<open>fs/rootfs.c\<close> is the file system mounted first, and
  calls back into the layer when a file is looked up or deleted. Memory is managed at three
  levels: the physical pages of \<open>vm/vm_page.c\<close>, the regions of an address space of
  \<open>vm/vm.c\<close>, and the blocks of the kernel heap of \<open>heap.c\<close>.

  \<^bold>\<open>How the code is rendered.\<close> An address of an object is a natural number, a pointer is an
  option of it with \<open>None\<close> for \<open>NULL\<close>, and memory is a function from addresses to records
  with one field per field of the struct. A routine takes the state and returns the new one.
  Where it may fail the result is an \<open>outcome\<close> (\<open>Prelude\<close>): \<open>Returns\<close> a value, \<open>Faults\<close> for
  a call of \<open>panic\<close> and for a dereference of \<open>NULL\<close>, of freed memory or outside an array,
  \<open>Blocks\<close> for a loop or a wait that never ends. Error codes are negative integers
  with the values of the header files. A loop over a linked structure is a
  \<open>partial_function (option)\<close>: on a cyclic list it is \<open>None\<close>, and the properties prove that it
  returns on the lists the invariants allow; no loop is bounded by fuel. Integers that may wrap
  are kept at their width: \<open>i32\<close>, \<open>u32_add\<close>, \<open>u32_sub\<close>, \<open>s64\<close> or words.

  \<^bold>\<open>The theories.\<close>
  \<^item> \<open>Prelude\<close>: outcomes, error codes, pointers, memory maps, the predicate \<open>chain\<close> that ties
    a linked list in memory to a list of addresses, and the lemmas on it. \<open>Fifo\<close>: the locales
    \<open>fifo\<close> and \<open>linked_fifo\<close>, the contract of a first-in first-out queue; they are
    interpreted on \<open>queue.c\<close>, on the thread queues and on the page queues.
  \<^item> \<open>Queue\<close>: \<open>queue.c\<close>, the linked queue and the ring of fixed size. \<open>Thread_Queue\<close>: the
    queues of \<open>thread.c\<close>. \<open>Khash\<close>: \<open>khash.c\<close> and, as its instance, the thread table.
  \<^item> \<open>Fd\<close>: descriptors of \<open>fd.c\<close> and \<open>fs/vfs.c\<close> with their reference counts. The functions a
    file system provides (\<open>fd_ops\<close>) are an argument: the code calls them through a table.
    \<open>Fd_Procs\<close>: opening files, and the tables of new and of exiting processes.
  \<^item> \<open>Rootfs\<close>, \<open>Rootfs_Props\<close>: \<open>fs/rootfs.c\<close>. The nodes are a memory of their own; the entries
    of a directory are a list linked through them, and a hash table leads from ids to nodes.
  \<^item> \<open>Vnode\<close>, \<open>Vnode_Props\<close>: the vnodes of \<open>fs/vfs.c\<close>, their table and their counters. A release
    is two steps (\<open>dec_vnode_start\<close>, \<open>dec_vnode_finish\<close>) with the file system called between.
  \<^item> \<open>Vfs\<close>: mounts, paths and the calls on paths of \<open>fs/vfs.c\<close>, over the calls of a file system
    (\<open>vnode_ops\<close>, \<open>path_calls\<close>), with the two routines of \<open>rootfs.c\<close> that call back.
    \<open>Vfs_Props\<close>: the locales \<open>vnode_provider\<close> and \<open>path_provider\<close>, what the layer asks of a file
    system, and the walk along a path. \<open>Vfs_Root\<close>: the root file system is such a provider.
    \<open>Vfs_Tree\<close>: what the calls do to the tree of names (\<open>name_tree\<close>). \<open>Vfs_Boot\<close>: the first
    mount. \<open>Vfs_Main\<close>, \<open>Vfs_Calls\<close>: the properties, of single calls and of sequences.
  \<^item> \<open>Usermem\<close>: copies to and from user memory (\<open>vm/vm.c\<close>, \<open>arch/x86/arch_cpu.c\<close>).
  \<^item> \<open>Cksum\<close>, \<open>Cbuf\<close>, \<open>Cbuf_Ops\<close>, \<open>Cbuf_Props\<close>: the checksum of \<open>misc.c\<close> and the chained
    buffers of \<open>cbuf.c\<close>: the allocator over its region, then the operations on contents.
  \<^item> \<open>Timer\<close>: \<open>timer.c\<close>, one event list per CPU; the time source is a function of the number
    of reads, so time passes between two readings in any way the caller chooses.
  \<^item> \<open>Sched\<close>: threads, run queues and \<open>thread_resched\<close> of \<open>thread.c\<close>.
  \<^item> \<open>Sem\<close>: \<open>sem.c\<close>; \<open>Sem_Props\<close>, \<open>Sem_Inv\<close>, \<open>Sem_Calls\<close>, \<open>Sem_Correct\<close>, \<open>Sem_Main\<close>: who
    is served by how many units, the invariant \<open>kinv\<close> of threads, queues and semaphores,
    what each call does from such a state, and the properties.
  \<^item> \<open>Lock\<close>: mutexes and recursive locks as step relations of several threads; the atomic
    counter and the semaphore behind it are separate steps, so every interleaving is covered.
  \<^item> \<open>Port\<close>, \<open>Port_Props\<close>, \<open>Port_Main\<close>: \<open>port.c\<close>; a call that blocks on its semaphore is
    split where it resumes (\<open>read_port_resumed\<close>, \<open>write_port_resumed\<close>).
  \<^item> \<open>Kheap\<close>, \<open>Kheap_Props\<close>: \<open>heap.c\<close>, 24 bins over one region.
  \<^item> \<open>Vm_Page\<close>, \<open>Vm_Page_Inv\<close>, \<open>Vm_Page_Props\<close>, \<open>Vm_Page_Main\<close>: \<open>vm/vm_page.c\<close>, the page
    table, the four queues, the allocators and the three critical sections of the scrubber.
  \<^item> \<open>Vm_Map\<close>, \<open>Vm_Map_Props\<close>: the list of regions of an address space in \<open>vm/vm.c\<close>.

  \<^bold>\<open>What is shown.\<close>
  \<^item> Containers: under any sequence of its calls a queue of \<open>queue.c\<close> answers as a list does; the
    ring of fixed size and the page queues are first-in first-out; a lookup in a hash table
    finds exactly what was inserted.
  \<^item> Descriptors: under every sequence of calls the reference counts equal the references that
    exist and nothing is freed too early or leaked, apart from the two calls named as findings.
    Over the life of processes, one descriptor is leaked by an open that finds the table full.
  \<^item> Files: a path leads where its names lead, across mounts; creating and deleting change one
    name; a sequence of such calls from the first mount on answers what a specification over
    the tree of names alone answers, and leaves every reference as it was. The deletion of a
    dot or of a directory that a mount needs, which the code does not refuse, is left out, and
    a property shows what the first does.
  \<^item> Buffers: copies in and out are inverse, allocation never hands out a buffer in use, the
    checksum is the complement of the ones complement sum of the concatenated bytes.
  \<^item> Timers: the list stays sorted, an interrupt runs exactly the due events in order.
  \<^item> Semaphores: units go to the waiters in queue order, no unit is lost or invented, a thread
    sits in the queue its state names, and no reachable call whose guards hold (\<open>call_ok\<close> of
    \<open>Sem_Correct\<close>) panics, faults or hangs; an acquisition does what its flags ask, at once or
    with the timer of its wait pending. Two interruptions from outside break this, that of a
    waiter which had been given units and a kill signal between the two checks, and are
    stated as what they do.
  \<^item> Locks: at most one thread is inside, under every interleaving.
  \<^item> Ports: a port is a bounded queue of messages; a write appends, a read takes the oldest.
  \<^item> Heap: live blocks never overlap, a freed block is handed out again with the bins and their
    counts as before, and what the region check allows beyond the region is exact.
  \<^item> Pages: every page hangs in the queue of its state and clear pages hold zeroes, under every
    interleaving with the scrubber, except for the calls that go by the state alone, for which
    the double allocation is a theorem.
  \<^item> Regions: the list stays sorted, disjoint and inside the map; placement in a user address
    space is first fit and fails when nothing fits or when the whole map is asked for; a lookup
    finds the region of an address, and a region that leaves takes the hint with it.

  \<^bold>\<open>Bounds and hypotheses.\<close> Table sizes are those of the code (\<open>MAX_SEMS\<close>, \<open>MAX_PORTS\<close>,
  2048 chained buffers). Ids are taken to stay below \<open>2 ^ 31\<close>: the counters of semaphores and
  ports are not protected against wrapping. Addresses and sizes of regions stay below \<open>2 ^ 32\<close>
  with the end of a map inside the address space; the last region property shows what happens
  to a request whose end wraps. Counts of threads and units stay within 32 bits. These
  hypotheses are satisfiable: each property that has one is applied at a concrete state in the
  theorem after it.

  \<^bold>\<open>Files.\<close> A freed vnode, node or cookie has left the set of live ones; reading it is a fault.
  Only \<open>remove_vnode_from_mount_list\<close> writes to neighbours whether they are live or not, as the
  code does. The allocator, the initial contents of memory and the page cache of a vnode
  are fields of the environment (\<open>vfs_env\<close>). Paths are zero terminated strings, never \<open>NULL\<close>;
  the buffers of the user calls are those of the code. Of the locks, the root file system's
  mutex is a counter in its state, since callers may enter it twice; the layer's own mutexes,
  which guard single tables, are not part of the state. The properties are about layers whose
  mounts are all root file systems; the laws they rest on are stated for any file system.

  \<^bold>\<open>Concurrency.\<close> The critical sections of the kernel run with interrupts disabled under a
  spinlock; the models treat such a section as one step. Locks, descriptors, semaphores and
  pages have step relations or call sequences that interleave these sections. Semaphores that
  only guard a data structure (the heap's lock, the maps' read and write semaphores, the locks
  of the descriptor table) are not part of the states; the descriptor theory keeps its mutex,
  since a property is that it is free after every call.

  \<^bold>\<open>Not modelled.\<close> Thread and process creation, exit and signals; the file
  systems \<open>bootfs\<close> and \<open>devfs\<close>, the path of the working directory, paging and file system
  modules in \<open>fs/vfs.c\<close>; the address spaces above the region list,
  caches and page faults; the ELF loader and modules, which read files through the VFS;
  interrupts and the messages between CPUs; everything that is device or architecture state
  (page tables, interrupt controllers, drivers, boot loader); dumps for the debugger. Outside
  the kernel, the kits are C++, and the network stack, the libraries and the command line tools
  are taken over from other projects.
\<close>

end
